(* ===== verification/Prelude.thy ===== *)
theory Prelude
  imports Main "HOL-Library.Word" "HOL-Library.Signed_Division"
begin

text \<open>
  Shared vocabulary of the development: C++ exceptions and failed assertions as values, the
  error monad with its fold over a loop range, fixed-width integer conversions, the
  \<^verbatim>\<open>std::vector\<close> operations the components use, and the generic lemmas on lists, counts and
  options that carry the component proofs.
\<close>

section \<open>Exceptions, assertions and the error monad\<close>

text \<open>
  One constructor per way an operation of the source fails: the standard exception classes it
  throws, a failed \<^verbatim>\<open>assert\<close>/\<^verbatim>\<open>GGML_ASSERT\<close>/\<^verbatim>\<open>GGML_ABORT\<close>, and an operation
  whose result the language leaves undefined. The texts of the exceptions are not modelled.
\<close>

datatype exn =
    Overflow_error
  | Invalid_argument
  | Logic_error
  | Runtime_error
  | Out_of_range
  | Assert_fail
  | Undefined

type_synonym 'a res = "exn + 'a"

definition bind_r :: "'a res \<Rightarrow> ('a \<Rightarrow> 'b res) \<Rightarrow> 'b res" where
  "bind_r m f = (case m of Inl e \<Rightarrow> Inl e | Inr x \<Rightarrow> f x)"

definition assert_r :: "bool \<Rightarrow> 'a res \<Rightarrow> 'a res" where
  "assert_r b m = (if b then m else Inl Assert_fail)"

fun fold_r :: "('a \<Rightarrow> 's \<Rightarrow> 's res) \<Rightarrow> 'a list \<Rightarrow> 's \<Rightarrow> 's res" where
  "fold_r f [] s = Inr s"
| "fold_r f (x # xs) s = bind_r (f x s) (fold_r f xs)"

lemma bind_r_simps [simp]:
  "bind_r (Inl e) f = Inl e"
  "bind_r (Inr x) f = f x"
  by (simp_all add: bind_r_def)

lemma bind_r_Inr_iff [simp]:
  "bind_r m f = Inr y \<longleftrightarrow> (\<exists>x. m = Inr x \<and> f x = Inr y)"
  by (cases m) auto

lemma bind_r_Inl_iff:
  "bind_r m f = Inl e \<longleftrightarrow> m = Inl e \<or> (\<exists>x. m = Inr x \<and> f x = Inl e)"
  by (cases m) auto

lemma assert_r_simps [simp]:
  "assert_r True m = m"
  "assert_r False m = Inl Assert_fail"
  by (simp_all add: assert_r_def)

lemma assert_r_Inr_iff [simp]: "assert_r b m = Inr y \<longleftrightarrow> b \<and> m = Inr y"
  by (simp add: assert_r_def)

lemma fold_r_append:
  "fold_r f (xs @ ys) s = bind_r (fold_r f xs s) (fold_r f ys)"
  by (induction xs arbitrary: s) (auto simp: bind_r_def split: sum.splits)

text \<open>A loop whose body never fails under an invariant runs to the end and keeps it.\<close>

lemma fold_r_invariant:
  assumes step: "\<And>x s. x \<in> set xs \<Longrightarrow> I s \<Longrightarrow> \<exists>s'. f x s = Inr s' \<and> I s'"
    and init: "I s"
  shows "\<exists>s'. fold_r f xs s = Inr s' \<and> I s'"
  using step init
proof (induction xs arbitrary: s)
  case Nil
  then show ?case by simp
next
  case (Cons x xs)
  from Cons.prems obtain s1 where s1: "f x s = Inr s1" "I s1"
    by force
  have "\<exists>s'. fold_r f xs s1 = Inr s' \<and> I s'"
    by (rule Cons.IH) (use Cons.prems s1 in auto)
  with s1 show ?case by simp
qed

lemma fold_r_cong:
  "(\<And>x s. x \<in> set xs \<Longrightarrow> f x s = g x s) \<Longrightarrow> fold_r f xs s = fold_r g xs s"
  by (induction xs arbitrary: s) (auto simp: bind_r_def split: sum.splits)

text \<open>Loops that collect a result per element, and loops that return false at the first element that
  fails a test.\<close>

fun map_r :: "('a \<Rightarrow> 'b res) \<Rightarrow> 'a list \<Rightarrow> 'b list res" where
  "map_r f [] = Inr []"
| "map_r f (x # xs) = bind_r (f x) (\<lambda>y. bind_r (map_r f xs) (\<lambda>ys. Inr (y # ys)))"

fun forall_r :: "('a \<Rightarrow> bool res) \<Rightarrow> 'a list \<Rightarrow> bool res" where
  "forall_r P [] = Inr True"
| "forall_r P (x # xs) = bind_r (P x) (\<lambda>b. if b then forall_r P xs else Inr False)"

lemma map_r_Inr: "(\<And>x. x \<in> set xs \<Longrightarrow> f x = Inr (g x)) \<Longrightarrow> map_r f xs = Inr (map g xs)"
  by (induction xs) auto

lemma forall_r_Inr:
  "(\<And>x. x \<in> set xs \<Longrightarrow> P x = Inr (Q x)) \<Longrightarrow> forall_r P xs = Inr (list_all Q xs)"
  by (induction xs) auto

lemma forall_r_True: "forall_r P xs = Inr True \<longleftrightarrow> (\<forall>x \<in> set xs. P x = Inr True)"
  by (induction xs) (auto split: if_splits)

text \<open>Equations of loops written as recursion on a state; they are unfolded on demand only.\<close>

named_theorems loop_simps

section \<open>Fixed-width integers\<close>

text \<open>
  Unsigned quantities are natural numbers; a conversion to a narrower type and the arithmetic
  of a type that wraps are written with \<open>u8\<close>, \<open>u32\<close> and \<open>u64\<close>. Positions
  (\<^verbatim>\<open>llama_pos\<close>) and sequence ids are \<^typ>\<open>int\<close>: signed overflow is undefined in the
  source and outside the model. Division of signed values truncates, as \<open>sdiv\<close> does.
\<close>

definition u8 :: "nat \<Rightarrow> nat" where
  "u8 n = n mod 2 ^ 8"

definition u32 :: "nat \<Rightarrow> nat" where
  "u32 n = n mod 2 ^ 32"

definition u64 :: "nat \<Rightarrow> nat" where
  "u64 n = n mod 2 ^ 64"

abbreviation INT32_MAX :: nat where "INT32_MAX \<equiv> 2147483647"
abbreviation UINT32_MAX :: nat where "UINT32_MAX \<equiv> 4294967295"
abbreviation UINT64_MAX :: nat where "UINT64_MAX \<equiv> 18446744073709551615"

lemma u32_id [simp]: "n \<le> UINT32_MAX \<Longrightarrow> u32 n = n"
  by (simp add: u32_def)

lemma u64_id [simp]: "n \<le> UINT64_MAX \<Longrightarrow> u64 n = n"
  by (simp add: u64_def)

lemma u32_le: "u32 n \<le> UINT32_MAX"
proof -
  have "n mod 2 ^ 32 < 2 ^ 32" by (rule mod_less_divisor) simp
  then show ?thesis by (simp add: u32_def)
qed

lemma sdiv_nonneg: "0 \<le> a \<Longrightarrow> 0 < b \<Longrightarrow> a sdiv b = a div b" for a b :: int
  by (cases "a = 0") (simp_all add: signed_divide_int_def)

section \<open>Vectors\<close>

definition vec_resize :: "nat \<Rightarrow> 'a \<Rightarrow> 'a list \<Rightarrow> 'a list" where
  "vec_resize n d xs = take n xs @ replicate (n - length xs) d"

lemma length_vec_resize [simp]: "length (vec_resize n d xs) = n"
  by (simp add: vec_resize_def)

text \<open>Filling a vector from the front, and writing a window of it element by element.\<close>

lemma fill_step:
  "k < length xs \<Longrightarrow> length ys = k \<Longrightarrow> (ys @ drop k xs)[k := v] = ys @ v # drop (Suc k) xs"
  by (simp add: list_update_append flip: Cons_nth_drop_Suc)

lemma map_nth_comp: "map (\<lambda>j. f (xs ! j)) [0..<length xs] = map f xs"
  by (rule nth_equalityI) simp_all

lemma splice_step:
  assumes "i + k < length xs" and "k < length ys"
  shows "(take i xs @ take k ys @ drop (i + k) xs)[i + k := ys ! k] =
    take i xs @ take (Suc k) ys @ drop (Suc (i + k)) xs"
proof -
  have "drop (i + k) xs = xs ! (i + k) # drop (Suc (i + k)) xs"
    using assms by (simp add: Cons_nth_drop_Suc)
  then show ?thesis using assms
    by (simp add: list_update_append take_Suc_conv_app_nth)
qed

lemma splice_eq:
  assumes "i + n \<le> length xs" and "length ys = length xs"
    and "\<And>j. j < length xs \<Longrightarrow> j < i \<or> i + n \<le> j \<Longrightarrow> ys ! j = xs ! j"
  shows "take i ys @ map (\<lambda>j. xs ! (i + j)) [0..<n] @ drop (i + n) ys = xs"
  by (rule nth_equalityI) (use assms in \<open>auto simp: nth_append min_def\<close>)

section \<open>Counting in an updated list\<close>

definition count_if :: "('a \<Rightarrow> bool) \<Rightarrow> 'a list \<Rightarrow> nat" where
  "count_if P xs = length (filter P xs)"

lemma count_if_Nil [simp]: "count_if P [] = 0"
  by (simp add: count_if_def)

lemma count_if_Cons [simp]: "count_if P (x # xs) = (if P x then 1 else 0) + count_if P xs"
  by (simp add: count_if_def)

lemma count_if_append [simp]: "count_if P (xs @ ys) = count_if P xs + count_if P ys"
  by (simp add: count_if_def)

lemma count_if_update:
  "i < length xs \<Longrightarrow>
     count_if P (xs[i := v]) + (if P (xs ! i) then 1 else 0) =
     count_if P xs + (if P v then 1 else 0)"
proof (induction xs arbitrary: i)
  case (Cons x xs)
  then show ?case using Cons.IH [of "i - 1"] by (cases i) auto
qed simp

lemma count_if_pos: "i < length xs \<Longrightarrow> P (xs ! i) \<Longrightarrow> 0 < count_if P xs"
  by (induction xs arbitrary: i) (auto simp: nth_Cons split: nat.splits)

lemma count_if_0_iff: "count_if P xs = 0 \<longleftrightarrow> (\<forall>i < length xs. \<not> P (xs ! i))"
  by (auto simp: count_if_def filter_empty_conv all_set_conv_all_nth)

section \<open>Sorting by two keys\<close>

lemma sorted_wrt_insort_key_lex:
  fixes f :: "'a \<Rightarrow> 'b::linorder" and g :: "'a \<Rightarrow> 'c::linorder"
  assumes "sorted_wrt (\<lambda>x y. f x < f y \<or> (f x = f y \<and> g x \<le> g y)) xs"
    and "\<And>y. y \<in> set xs \<Longrightarrow> g a \<le> g y"
  shows "sorted_wrt (\<lambda>x y. f x < f y \<or> (f x = f y \<and> g x \<le> g y)) (insort_key f a xs)"
  using assms by (induction xs) (auto simp: set_insort_key)

lemma sorted_wrt_sort_key_lex:
  fixes f :: "'a \<Rightarrow> 'b::linorder" and g :: "'a \<Rightarrow> 'c::linorder"
  shows "sorted_wrt (\<lambda>x y. f x < f y \<or> (f x = f y \<and> g x \<le> g y)) (sort_key f (sort_key g xs))"
proof -
  have "sorted_wrt (\<lambda>x y. f x < f y \<or> (f x = f y \<and> g x \<le> g y)) (sort_key f ys)"
    if "sorted (map g ys)" for ys
    using that
  proof (induction ys)
    case (Cons y ys)
    then show ?case using sorted_wrt_insort_key_lex [of f g "sort_key f ys" y] by simp
  qed simp
  then show ?thesis by simp
qed

end
