(* ===== verification/KvCells.thy ===== *)
theory KvCells
  imports Prelude
begin

text \<open>
  The cell metadata of the KV cache, \<^verbatim>\<open>class llama_kv_cells\<close> of
  \<^verbatim>\<open>src/llama-kv-cells.h\<close>: which position and which sequences every cell holds, plus the
  indices kept beside it (\<open>used\<close>, \<open>seq_pos\<close>, \<open>seq_used\<close>) that answer queries without a
  scan. Every mutator is a function from the object to a result that is either the new object
  or the failed assertion; the invariant says that the indices agree with the cells.
\<close>

section \<open>Data\<close>

definition LLAMA_MAX_SEQ :: nat where
  "LLAMA_MAX_SEQ = 256"

record llama_kv_cell_ext =
  ext_x :: int
  ext_y :: int

definition ext_reset :: llama_kv_cell_ext where
  "ext_reset = \<lparr>ext_x = 0, ext_y = 0\<rparr>"

definition is_2d_gt :: "llama_kv_cell_ext \<Rightarrow> int \<Rightarrow> int \<Rightarrow> bool" where
  "is_2d_gt e ox oy = (ext_y e > oy \<or> (ext_y e = oy \<and> ext_x e > ox))"

text \<open>
  A \<^verbatim>\<open>std::bitset<LLAMA_MAX_SEQ>\<close> is the set of its set bits; \<^verbatim>\<open>std::set<uint32_t>\<close> is
  a set of cell indices; \<^verbatim>\<open>std::map<llama_pos, int>\<close> is a partial function, whose
  \<^verbatim>\<open>begin()\<close> and \<^verbatim>\<open>rbegin()\<close> are the least and greatest key.
\<close>

record llama_kv_cells =
  kc_has_shift :: bool
  kc_used :: "nat set"
  kc_pos :: "int list"
  kc_ext :: "llama_kv_cell_ext list"
  kc_shift :: "int list"
  kc_seq :: "nat set list"
  kc_seq_pos :: "nat \<Rightarrow> (int \<rightharpoonup> int)"
  kc_seq_used :: "nat \<Rightarrow> nat"

definition kv_cells_empty :: llama_kv_cells where
  "kv_cells_empty = \<lparr>kc_has_shift = False, kc_used = {}, kc_pos = [], kc_ext = [], kc_shift = [],
     kc_seq = [], kc_seq_pos = (\<lambda>_. Map.empty), kc_seq_used = (\<lambda>_. 0)\<rparr>"

section \<open>Whole-object operations and queries\<close>

definition kv_cells_reset :: "llama_kv_cells \<Rightarrow> llama_kv_cells" where
  "kv_cells_reset c = c\<lparr>
     kc_pos := map (\<lambda>_. -1) (kc_pos c),
     kc_ext := map (\<lambda>_. ext_reset) (kc_ext c),
     kc_shift := map (\<lambda>_. 0) (kc_shift c),
     kc_seq := map (\<lambda>_. {}) (kc_seq c),
     kc_has_shift := False,
     kc_used := {},
     kc_seq_pos := (\<lambda>_. Map.empty),
     kc_seq_used := (\<lambda>_. 0)\<rparr>"

definition kv_cells_reset_shift :: "llama_kv_cells \<Rightarrow> llama_kv_cells" where
  "kv_cells_reset_shift c = c\<lparr>kc_has_shift := False, kc_shift := map (\<lambda>_. 0) (kc_shift c)\<rparr>"

definition kv_cells_size :: "llama_kv_cells \<Rightarrow> nat" where
  "kv_cells_size c = length (kc_pos c)"

definition kv_cells_resize :: "nat \<Rightarrow> llama_kv_cells \<Rightarrow> llama_kv_cells" where
  "kv_cells_resize n c = kv_cells_reset (c\<lparr>
     kc_pos := vec_resize n 0 (kc_pos c),
     kc_ext := vec_resize n ext_reset (kc_ext c),
     kc_shift := vec_resize n 0 (kc_shift c),
     kc_seq := vec_resize n {} (kc_seq c)\<rparr>)"

definition kv_cells_is_empty :: "llama_kv_cells \<Rightarrow> nat \<Rightarrow> bool res" where
  "kv_cells_is_empty c i =
     assert_r (i < length (kc_pos c))
       (assert_r ((kc_pos c ! i < 0 \<and> kc_pos c ! i = -1) \<or> kc_pos c ! i \<ge> 0)
         (Inr (kc_pos c ! i = -1)))"

definition kv_cells_get_used :: "llama_kv_cells \<Rightarrow> nat" where
  "kv_cells_get_used c = card (kc_used c)"

definition kv_cells_used_min :: "llama_kv_cells \<Rightarrow> nat" where
  "kv_cells_used_min c = (if kc_used c = {} then 0 else Min (kc_used c))"

definition kv_cells_used_max_p1 :: "llama_kv_cells \<Rightarrow> nat" where
  "kv_cells_used_max_p1 c = (if kc_used c = {} then 0 else Max (kc_used c) + 1)"

definition kv_cells_get_has_shift :: "llama_kv_cells \<Rightarrow> bool" where
  "kv_cells_get_has_shift c = kc_has_shift c"

section \<open>The per-sequence position index\<close>

definition seq_pos_dec :: "nat \<Rightarrow> int \<Rightarrow> llama_kv_cells \<Rightarrow> llama_kv_cells res" where
  "seq_pos_dec s p c =
     (case kc_seq_pos c s p of
        None \<Rightarrow> Inl Assert_fail
      | Some k \<Rightarrow>
          assert_r (kc_seq_used c s > 0)
            (Inr (c\<lparr>
               kc_seq_pos := (kc_seq_pos c)(s :=
                 (if k - 1 = 0 then (kc_seq_pos c s)(p := None)
                  else (kc_seq_pos c s)(p := Some (k - 1)))),
               kc_seq_used := (kc_seq_used c)(s := kc_seq_used c s - 1)\<rparr>)))"

definition seq_pos_inc :: "nat \<Rightarrow> int \<Rightarrow> llama_kv_cells \<Rightarrow> llama_kv_cells" where
  "seq_pos_inc s p c = c\<lparr>
     kc_seq_pos := (kc_seq_pos c)(s := (kc_seq_pos c s)(p :=
       Some ((case kc_seq_pos c s p of None \<Rightarrow> 0 | Some k \<Rightarrow> k) + 1))),
     kc_seq_used := (kc_seq_used c)(s := kc_seq_used c s + 1)\<rparr>"

definition seq_pos_rm :: "nat \<Rightarrow> llama_kv_cells \<Rightarrow> llama_kv_cells res" where
  "seq_pos_rm i c =
     fold_r (\<lambda>s c. if s \<in> kc_seq c ! i then seq_pos_dec s (kc_pos c ! i) c else Inr c)
       [0..<LLAMA_MAX_SEQ] c"

definition seq_pos_add :: "nat \<Rightarrow> llama_kv_cells \<Rightarrow> llama_kv_cells" where
  "seq_pos_add i c =
     fold (\<lambda>s c. if s \<in> kc_seq c ! i then seq_pos_inc s (kc_pos c ! i) c else c)
       [0..<LLAMA_MAX_SEQ] c"

section \<open>Saving and restoring cells\<close>

text \<open>\<open>kv_cells_cp\<close> copies the cells \<open>[i, i + n)\<close>, \<open>kv_cells_cp_idxs\<close> the cells of an
  index list; the copies carry no \<open>used\<close> or \<open>seq_pos\<close> index of their own, as in the source.\<close>

definition kv_cells_cp_idxs :: "llama_kv_cells \<Rightarrow> nat list \<Rightarrow> llama_kv_cells res" where
  "kv_cells_cp_idxs c idxs =
     fold_r (\<lambda>j r.
         let idx = idxs ! j in
         if idx \<ge> length (kc_pos c) then Inl Undefined
         else assert_r (kc_shift c ! idx = 0)
           (Inr (r\<lparr>kc_pos := (kc_pos r)[j := kc_pos c ! idx],
                   kc_ext := (kc_ext r)[j := kc_ext c ! idx],
                   kc_seq := (kc_seq r)[j := kc_seq c ! idx]\<rparr>)))
       [0..<length idxs] (kv_cells_resize (length idxs) kv_cells_empty)"

definition kv_cells_cp :: "llama_kv_cells \<Rightarrow> nat \<Rightarrow> nat \<Rightarrow> llama_kv_cells res" where
  "kv_cells_cp c i n =
     assert_r (i + n \<le> length (kc_pos c))
       (fold_r (\<lambda>j r.
            let idx = i + j in
            assert_r (kc_shift c ! idx = 0)
              (Inr (r\<lparr>kc_pos := (kc_pos r)[j := kc_pos c ! idx],
                      kc_ext := (kc_ext r)[j := kc_ext c ! idx],
                      kc_seq := (kc_seq r)[j := kc_seq c ! idx]\<rparr>)))
          [0..<n] (kv_cells_resize n kv_cells_empty))"

text \<open>The body of both \<^verbatim>\<open>set\<close> loops: cell \<open>idx\<close> takes the state of cell \<open>j\<close> of \<open>other\<close>.\<close>

definition kv_cells_set_cell ::
    "llama_kv_cells \<Rightarrow> nat \<Rightarrow> nat \<Rightarrow> llama_kv_cells \<Rightarrow> llama_kv_cells res" where
  "kv_cells_set_cell other idx j c =
     (let c1 = (if kc_pos c ! idx = -1 \<and> kc_pos other ! j \<noteq> -1
                then c\<lparr>kc_used := insert idx (kc_used c)\<rparr> else c);
          c2 = (if kc_pos c1 ! idx \<noteq> -1 \<and> kc_pos other ! j = -1
                then c1\<lparr>kc_used := kc_used c1 - {idx}\<rparr> else c1)
      in bind_r (if kc_pos c2 ! idx \<noteq> -1 then seq_pos_rm idx c2 else Inr c2) (\<lambda>c3.
         let c4 = c3\<lparr>kc_pos := (kc_pos c3)[idx := kc_pos other ! j],
                     kc_ext := (kc_ext c3)[idx := kc_ext other ! j],
                     kc_seq := (kc_seq c3)[idx := kc_seq other ! j]\<rparr>;
             c5 = (if kc_pos c4 ! idx \<noteq> -1 then seq_pos_add idx c4 else c4)
         in assert_r (kc_shift c5 ! idx = 0) (Inr c5)))"

definition kv_cells_set :: "llama_kv_cells \<Rightarrow> nat \<Rightarrow> llama_kv_cells \<Rightarrow> llama_kv_cells res" where
  "kv_cells_set c i other =
     assert_r (i + length (kc_pos other) \<le> length (kc_pos c))
       (fold_r (\<lambda>j. kv_cells_set_cell other (i + j) j) [0..<length (kc_pos other)] c)"

definition kv_cells_set_idxs ::
    "llama_kv_cells \<Rightarrow> nat list \<Rightarrow> llama_kv_cells \<Rightarrow> llama_kv_cells res" where
  "kv_cells_set_idxs c idxs other =
     assert_r (length idxs = length (kc_pos other))
       (fold_r (\<lambda>j c. if idxs ! j \<ge> length (kc_pos c) then Inl Undefined
                     else kv_cells_set_cell other (idxs ! j) j c)
          [0..<length (kc_pos other)] c)"

section \<open>Operations on one cell\<close>

text \<open>\<^verbatim>\<open>std::bitset::test\<close>, \<^verbatim>\<open>set\<close> and \<^verbatim>\<open>reset\<close> of one bit throw
  \<^verbatim>\<open>std::out_of_range\<close> for a bit the set does not have.\<close>

definition bit_test :: "nat set \<Rightarrow> int \<Rightarrow> bool res" where
  "bit_test b s = (if 0 \<le> s \<and> s < int LLAMA_MAX_SEQ then Inr (nat s \<in> b) else Inl Out_of_range)"

text \<open>The common tail of the operations that empty a cell.\<close>

definition kv_cells_clear_cell :: "nat \<Rightarrow> llama_kv_cells \<Rightarrow> llama_kv_cells" where
  "kv_cells_clear_cell i c = c\<lparr>
     kc_pos := (kc_pos c)[i := -1],
     kc_ext := (kc_ext c)[i := ext_reset],
     kc_shift := (kc_shift c)[i := 0],
     kc_used := kc_used c - {i}\<rparr>"

definition kv_cells_rm :: "nat \<Rightarrow> llama_kv_cells \<Rightarrow> llama_kv_cells res" where
  "kv_cells_rm i c =
     assert_r (i < length (kc_pos c)) (assert_r (kc_pos c ! i \<noteq> -1)
       (bind_r (seq_pos_rm i c) (\<lambda>c1.
          Inr (kv_cells_clear_cell i (c1\<lparr>kc_seq := (kc_seq c1)[i := {}]\<rparr>)))))"

definition kv_cells_seq_rm :: "nat \<Rightarrow> int \<Rightarrow> llama_kv_cells \<Rightarrow> (bool \<times> llama_kv_cells) res" where
  "kv_cells_seq_rm i seq_id c =
     assert_r (i < length (kc_pos c))
       (bind_r (bit_test (kc_seq c ! i) seq_id) (\<lambda>t.
          assert_r t (assert_r (kc_pos c ! i \<noteq> -1) (assert_r (seq_id \<ge> 0)
            (let c1 = c\<lparr>kc_seq := (kc_seq c)[i := kc_seq c ! i - {nat seq_id}]\<rparr>
             in bind_r (seq_pos_dec (nat seq_id) (kc_pos c1 ! i) c1) (\<lambda>c2.
                if kc_seq c2 ! i = {} then Inr (True, kv_cells_clear_cell i c2)
                else Inr (False, c2)))))))"

definition kv_cells_seq_rm_cell :: "nat \<Rightarrow> int \<Rightarrow> llama_kv_cells \<Rightarrow> (bool \<times> llama_kv_cells) res" where
  "kv_cells_seq_rm_cell i seq_id c =
     assert_r (i < length (kc_pos c)) (assert_r (seq_id \<ge> 0)
       (if kc_pos c ! i = -1 then Inr (False, c)
        else bind_r (bit_test (kc_seq c ! i) seq_id) (\<lambda>t.
          if \<not> t then Inr (False, c) else kv_cells_seq_rm i seq_id c)))"

definition kv_cells_seq_keep :: "nat \<Rightarrow> int \<Rightarrow> llama_kv_cells \<Rightarrow> (bool \<times> llama_kv_cells) res" where
  "kv_cells_seq_keep i seq_id c =
     assert_r (i < length (kc_pos c))
       (bind_r (bit_test (kc_seq c ! i) seq_id) (\<lambda>t.
          if t then
            bind_r (seq_pos_rm i c) (\<lambda>c1.
              let c2 = c1\<lparr>kc_seq := (kc_seq c1)[i := {nat seq_id}]\<rparr>
              in Inr (False, seq_pos_inc (nat seq_id) (kc_pos c2 ! i) c2))
          else if kc_seq c ! i \<noteq> {} then
            bind_r (seq_pos_rm i c) (\<lambda>c1.
              Inr (True, kv_cells_clear_cell i (c1\<lparr>kc_seq := (kc_seq c1)[i := {}]\<rparr>)))
          else assert_r (kc_pos c ! i = -1) (Inr (False, c))))"

definition kv_cells_seq_count :: "llama_kv_cells \<Rightarrow> nat \<Rightarrow> nat res" where
  "kv_cells_seq_count c i =
     assert_r (i < length (kc_pos c)) (assert_r (kc_pos c ! i \<noteq> -1) (Inr (card (kc_seq c ! i))))"

definition kv_cells_seq_has :: "llama_kv_cells \<Rightarrow> nat \<Rightarrow> int \<Rightarrow> bool res" where
  "kv_cells_seq_has c i seq_id =
     assert_r (i < length (kc_pos c)) (assert_r (seq_id \<ge> 0) (bit_test (kc_seq c ! i) seq_id))"

definition kv_cells_seq_size :: "llama_kv_cells \<Rightarrow> int \<Rightarrow> nat res" where
  "kv_cells_seq_size c seq_id =
     assert_r (seq_id \<ge> 0) (assert_r (seq_id < int LLAMA_MAX_SEQ)
       (Inr (kc_seq_used c (nat seq_id))))"

definition kv_cells_seq_add :: "nat \<Rightarrow> int \<Rightarrow> llama_kv_cells \<Rightarrow> llama_kv_cells res" where
  "kv_cells_seq_add i seq_id c =
     assert_r (i < length (kc_pos c)) (assert_r (kc_pos c ! i \<noteq> -1)
       (bind_r (bit_test (kc_seq c ! i) seq_id) (\<lambda>t.
          assert_r (\<not> t)
            (let c1 = c\<lparr>kc_seq := (kc_seq c)[i := insert (nat seq_id) (kc_seq c ! i)]\<rparr>
             in Inr (seq_pos_inc (nat seq_id) (kc_pos c1 ! i) c1)))))"

definition kv_cells_seq_get :: "llama_kv_cells \<Rightarrow> nat \<Rightarrow> int res" where
  "kv_cells_seq_get c i =
     (if i \<ge> length (kc_seq c) then Inl Undefined
      else assert_r (card (kc_seq c ! i) = 1)
        (Inr (case find (\<lambda>s. s \<in> kc_seq c ! i) [0..<LLAMA_MAX_SEQ] of
                None \<Rightarrow> -1 | Some s \<Rightarrow> int s)))"

definition kv_cells_seq_pos_min :: "llama_kv_cells \<Rightarrow> int \<Rightarrow> int res" where
  "kv_cells_seq_pos_min c seq_id =
     assert_r (seq_id \<ge> 0) (assert_r (seq_id < int LLAMA_MAX_SEQ)
       (let m = kc_seq_pos c (nat seq_id) in
        if dom m = {} then Inr (-1)
        else assert_r (the (m (Min (dom m))) > 0) (Inr (Min (dom m)))))"

definition kv_cells_seq_pos_max :: "llama_kv_cells \<Rightarrow> int \<Rightarrow> int res" where
  "kv_cells_seq_pos_max c seq_id =
     assert_r (seq_id \<ge> 0) (assert_r (seq_id < int LLAMA_MAX_SEQ)
       (let m = kc_seq_pos c (nat seq_id) in
        if dom m = {} then Inr (-1)
        else assert_r (the (m (Max (dom m))) > 0) (Inr (Max (dom m)))))"

definition kv_cells_pos_get :: "llama_kv_cells \<Rightarrow> nat \<Rightarrow> int res" where
  "kv_cells_pos_get c i =
     assert_r (i < length (kc_pos c)) (assert_r (kc_pos c ! i \<noteq> -1) (Inr (kc_pos c ! i)))"

definition kv_cells_ext_get :: "llama_kv_cells \<Rightarrow> nat \<Rightarrow> llama_kv_cell_ext res" where
  "kv_cells_ext_get c i =
     assert_r (i < length (kc_pos c)) (assert_r (kc_pos c ! i \<noteq> -1) (Inr (kc_ext c ! i)))"

definition kv_cells_get_shift :: "llama_kv_cells \<Rightarrow> nat \<Rightarrow> int res" where
  "kv_cells_get_shift c i =
     assert_r (i < length (kc_pos c)) (assert_r (kc_pos c ! i \<noteq> -1) (Inr (kc_shift c ! i)))"

definition kv_cells_pos_in :: "llama_kv_cells \<Rightarrow> nat \<Rightarrow> int \<Rightarrow> int \<Rightarrow> bool res" where
  "kv_cells_pos_in c i p0 p1 =
     assert_r (i < length (kc_pos c)) (Inr (kc_pos c ! i \<ge> p0 \<and> kc_pos c ! i < p1))"

definition kv_cells_cells_at :: "llama_kv_cells \<Rightarrow> int \<Rightarrow> int \<Rightarrow> nat list res" where
  "kv_cells_cells_at c seq_id p =
     assert_r (seq_id \<ge> 0)
       (fold_r (\<lambda>i r.
            if kc_pos c ! i = p then
              bind_r (bit_test (kc_seq c ! i) seq_id) (\<lambda>t. Inr (if t then r @ [i] else r))
            else Inr r)
          (sorted_list_of_set (kc_used c)) [])"

definition kv_cells_pos_set :: "nat \<Rightarrow> int \<Rightarrow> llama_kv_cells \<Rightarrow> llama_kv_cells res" where
  "kv_cells_pos_set i p c =
     assert_r (i < length (kc_pos c)) (assert_r (kc_pos c ! i = -1) (assert_r (kc_seq c ! i = {})
       (Inr (c\<lparr>kc_pos := (kc_pos c)[i := p], kc_used := insert i (kc_used c)\<rparr>))))"

definition kv_cells_ext_set :: "nat \<Rightarrow> llama_kv_cell_ext \<Rightarrow> llama_kv_cells \<Rightarrow> llama_kv_cells res" where
  "kv_cells_ext_set i p c =
     assert_r (i < length (kc_ext c)) (Inr (c\<lparr>kc_ext := (kc_ext c)[i := p]\<rparr>))"

text \<open>Positions and accumulated shifts (\<^verbatim>\<open>llama_pos\<close>) are unbounded integers here: a sum beyond 32 bits, which is undefined in the
  source, is outside the model.\<close>

definition kv_cells_pos_add :: "nat \<Rightarrow> int \<Rightarrow> llama_kv_cells \<Rightarrow> (bool \<times> llama_kv_cells) res" where
  "kv_cells_pos_add i d c =
     assert_r (i < length (kc_pos c)) (assert_r (kc_pos c ! i \<noteq> -1)
       (bind_r (seq_pos_rm i c) (\<lambda>c1.
          let c2 = c1\<lparr>kc_pos := (kc_pos c1)[i := kc_pos c1 ! i + d],
                      kc_shift := (kc_shift c1)[i := kc_shift c1 ! i + d],
                      kc_has_shift := True\<rparr>
          in if kc_pos c2 ! i < 0 then
               Inr (True, c2\<lparr>kc_seq := (kc_seq c2)[i := {}],
                             kc_pos := (kc_pos c2)[i := -1],
                             kc_shift := (kc_shift c2)[i := 0],
                             kc_used := kc_used c2 - {i}\<rparr>)
             else Inr (False, seq_pos_add i c2))))"

definition kv_cells_pos_div :: "nat \<Rightarrow> int \<Rightarrow> llama_kv_cells \<Rightarrow> llama_kv_cells res" where
  "kv_cells_pos_div i d c =
     assert_r (i < length (kc_pos c)) (assert_r (kc_pos c ! i \<noteq> -1)
       (let p_old = kc_pos c ! i in
        bind_r (seq_pos_rm i c) (\<lambda>c1.
          if d = 0 then Inl Undefined
          else
            let c2 = c1\<lparr>kc_pos := (kc_pos c1)[i := kc_pos c1 ! i sdiv d]\<rparr>;
                c3 = c2\<lparr>kc_shift := (kc_shift c2)[i := kc_shift c2 ! i + (p_old - kc_pos c2 ! i)]\<rparr>;
                c4 = seq_pos_add i c3
            in Inr (c4\<lparr>kc_has_shift := True\<rparr>))))"

section \<open>The index agrees with the cells\<close>

text \<open>
  The invariant is stated over the list of (position, sequence set) pairs of the cells. The
  index functions \<open>f\<close> (\<open>seq_pos\<close>) and \<open>g\<close> (\<open>seq_used\<close>) agree with such a list when
  they count its entries.
\<close>

type_synonym cell_list = "(int \<times> nat set) list"

definition cell_count :: "cell_list \<Rightarrow> nat \<Rightarrow> int \<Rightarrow> nat" where
  "cell_count zs s p = count_if (\<lambda>z. fst z = p \<and> s \<in> snd z) zs"

definition member_count :: "cell_list \<Rightarrow> nat \<Rightarrow> nat" where
  "member_count zs s = count_if (\<lambda>z. s \<in> snd z) zs"

definition index_ok :: "cell_list \<Rightarrow> (nat \<Rightarrow> (int \<rightharpoonup> int)) \<Rightarrow> (nat \<Rightarrow> nat) \<Rightarrow> bool" where
  "index_ok zs f g \<longleftrightarrow>
     (\<forall>s < LLAMA_MAX_SEQ. \<forall>p. f s p = (if cell_count zs s p = 0 then None else Some (int (cell_count zs s p)))) \<and>
     (\<forall>s < LLAMA_MAX_SEQ. g s = member_count zs s)"

definition kv_cells_list :: "llama_kv_cells \<Rightarrow> cell_list" where
  "kv_cells_list c = zip (kc_pos c) (kc_seq c)"

definition kv_cells_inv :: "llama_kv_cells \<Rightarrow> bool" where
  "kv_cells_inv c \<longleftrightarrow>
     length (kc_seq c) = length (kc_pos c) \<and>
     length (kc_ext c) = length (kc_pos c) \<and>
     length (kc_shift c) = length (kc_pos c) \<and>
     (\<forall>i < length (kc_pos c). -1 \<le> kc_pos c ! i \<and> kc_seq c ! i \<subseteq> {..<LLAMA_MAX_SEQ} \<and>
        (kc_pos c ! i = -1 \<longrightarrow> kc_seq c ! i = {})) \<and>
     kc_used c = {i. i < length (kc_pos c) \<and> kc_pos c ! i \<noteq> -1} \<and>
     index_ok (kv_cells_list c) (kc_seq_pos c) (kc_seq_used c)"

lemma cell_count_update:
  "i < length zs \<Longrightarrow>
     cell_count (zs[i := z]) s p + (if fst (zs ! i) = p \<and> s \<in> snd (zs ! i) then 1 else 0) =
     cell_count zs s p + (if fst z = p \<and> s \<in> snd z then 1 else 0)"
  unfolding cell_count_def by (rule count_if_update)

lemma member_count_update:
  "i < length zs \<Longrightarrow>
     member_count (zs[i := z]) s + (if s \<in> snd (zs ! i) then 1 else 0) =
     member_count zs s + (if s \<in> snd z then 1 else 0)"
  unfolding member_count_def by (rule count_if_update)

lemma index_ok_inc:
  assumes ok: "index_ok zs f g" and i: "i < length zs" and z: "zs ! i = (p, S)"
    and s: "s \<notin> S"
  shows "index_ok (zs[i := (p, insert s S)])
     (f(s := (f s)(p := Some ((case f s p of None \<Rightarrow> 0 | Some k \<Rightarrow> k) + 1))))
     (g(s := g s + 1))"
proof -
  have c: "cell_count (zs[i := (p, insert s S)]) t q =
      cell_count zs t q + (if q = p \<and> t = s then 1 else 0)" for t q
    using cell_count_update [OF i, of "(p, insert s S)" t q] z s by (auto split: if_splits)
  have m: "member_count (zs[i := (p, insert s S)]) t =
      member_count zs t + (if t = s then 1 else 0)" for t
    using member_count_update [OF i, of "(p, insert s S)" t] z s by (auto split: if_splits)
  from ok have "f t q = (if cell_count zs t q = 0 then None else Some (int (cell_count zs t q)))"
    if "t < LLAMA_MAX_SEQ" for t q
    using that by (simp add: index_ok_def)
  moreover from ok have "g t = member_count zs t" if "t < LLAMA_MAX_SEQ" for t
    using that by (simp add: index_ok_def)
  ultimately show ?thesis by (simp add: index_ok_def c m)
qed

lemma index_ok_dec:
  assumes ok: "index_ok zs f g" and i: "i < length zs" and z: "zs ! i = (p, S)"
    and s: "s \<in> S" "s < LLAMA_MAX_SEQ"
  shows "\<exists>k. f s p = Some k \<and> 0 < g s \<and>
     index_ok (zs[i := (p, S - {s})])
       (f(s := (if k - 1 = 0 then (f s)(p := None) else (f s)(p := Some (k - 1)))))
       (g(s := g s - 1))"
proof -
  have c: "cell_count (zs[i := (p, S - {s})]) t q =
      cell_count zs t q - (if q = p \<and> t = s then 1 else 0)" for t q
    using cell_count_update [OF i, of "(p, S - {s})" t q] z s(1)
    by (cases "t = s"; cases "q = p"; simp split: if_splits)
  have m: "member_count (zs[i := (p, S - {s})]) t =
      member_count zs t - (if t = s then 1 else 0)" for t
    using member_count_update [OF i, of "(p, S - {s})" t] z s(1)
    by (cases "t = s") (simp_all split: if_splits)
  have "0 < cell_count zs s p" "0 < member_count zs s"
    unfolding cell_count_def member_count_def using i z s by (auto intro!: count_if_pos)
  moreover from ok have "f t q = (if cell_count zs t q = 0 then None else Some (int (cell_count zs t q)))"
    if "t < LLAMA_MAX_SEQ" for t q
    using that by (simp add: index_ok_def)
  moreover from ok have "g t = member_count zs t" if "t < LLAMA_MAX_SEQ" for t
    using that by (simp add: index_ok_def)
  ultimately show ?thesis using s by (simp add: index_ok_def c m)
qed

lemma index_ok_empty_cell:
  assumes "i < length zs" and "snd (zs ! i) = {}" and "snd z = {}"
  shows "index_ok (zs[i := z]) f g \<longleftrightarrow> index_ok zs f g"
proof -
  have "cell_count (zs[i := z]) t q = cell_count zs t q" for t q
    using cell_count_update [OF assms(1), of z t q] assms by simp
  moreover have "member_count (zs[i := z]) t = member_count zs t" for t
    using member_count_update [OF assms(1), of z t] assms by simp
  ultimately show ?thesis by (simp add: index_ok_def)
qed

section \<open>The index operations\<close>

text \<open>Each index operation changes the two index fields only, and its effect on them is the effect
  of changing one cell of the list they describe.\<close>

lemma seq_pos_dec_index:
  assumes "index_ok zs (kc_seq_pos c) (kc_seq_used c)" and "i < length zs" and "zs ! i = (p, S)"
    and "s \<in> S" "s < LLAMA_MAX_SEQ"
  shows "\<exists>f g. seq_pos_dec s p c = Inr (c\<lparr>kc_seq_pos := f, kc_seq_used := g\<rparr>) \<and>
     index_ok (zs[i := (p, S - {s})]) f g"
proof -
  let ?f = "kc_seq_pos c" and ?g = "kc_seq_used c"
  from index_ok_dec [OF assms] obtain k where k: "?f s p = Some k" "0 < ?g s"
    "index_ok (zs[i := (p, S - {s})])
       (?f(s := (if k - 1 = 0 then (?f s)(p := None) else (?f s)(p := Some (k - 1)))))
       (?g(s := ?g s - 1))" by blast
  have "seq_pos_dec s p c = Inr (c\<lparr>kc_seq_pos :=
       ?f(s := (if k - 1 = 0 then (?f s)(p := None) else (?f s)(p := Some (k - 1)))),
       kc_seq_used := ?g(s := ?g s - 1)\<rparr>)"
    using k by (simp add: seq_pos_dec_def)
  with k(3) show ?thesis by blast
qed

lemma seq_pos_inc_index:
  assumes "index_ok zs (kc_seq_pos c) (kc_seq_used c)" and "i < length zs" and "zs ! i = (p, S)"
    and "s \<notin> S"
  shows "\<exists>f g. seq_pos_inc s p c = c\<lparr>kc_seq_pos := f, kc_seq_used := g\<rparr> \<and>
     index_ok (zs[i := (p, insert s S)]) f g"
  using index_ok_inc [OF assms] unfolding seq_pos_inc_def by blast

lemma seq_pos_rm_prefix:
  assumes "index_ok zs (kc_seq_pos c) (kc_seq_used c)" and "i < length zs"
    and "zs ! i = (kc_pos c ! i, kc_seq c ! i)" and "n \<le> LLAMA_MAX_SEQ"
  shows "\<exists>f g. fold_r (\<lambda>s c. if s \<in> kc_seq c ! i then seq_pos_dec s (kc_pos c ! i) c else Inr c)
       [0..<n] c = Inr (c\<lparr>kc_seq_pos := f, kc_seq_used := g\<rparr>) \<and>
     index_ok (zs[i := (kc_pos c ! i, kc_seq c ! i - {..<n})]) f g"
  using assms(4)
proof (induction n)
  case 0
  have "zs[i := (kc_pos c ! i, kc_seq c ! i)] = zs"
    using assms(3) by (metis list_update_id)
  with assms(1) show ?case
    by (auto intro!: exI [of _ "kc_seq_pos c"] exI [of _ "kc_seq_used c"])
next
  case (Suc n)
  let ?p = "kc_pos c ! i" and ?S = "kc_seq c ! i"
  from Suc obtain f g where fold: "fold_r (\<lambda>s c. if s \<in> kc_seq c ! i then seq_pos_dec s (kc_pos c ! i) c else Inr c)
       [0..<n] c = Inr (c\<lparr>kc_seq_pos := f, kc_seq_used := g\<rparr>)"
    and ok: "index_ok (zs[i := (?p, ?S - {..<n})]) f g" by auto
  show ?case
  proof (cases "n \<in> ?S")
    case True
    from seq_pos_dec_index [of _ "c\<lparr>kc_seq_pos := f, kc_seq_used := g\<rparr>" i ?p "?S - {..<n}" n]
      ok True Suc.prems assms(2)
    obtain f' g' where "seq_pos_dec n ?p (c\<lparr>kc_seq_pos := f, kc_seq_used := g\<rparr>) =
        Inr (c\<lparr>kc_seq_pos := f', kc_seq_used := g'\<rparr>)"
      and "index_ok (zs[i := (?p, ?S - {..<n} - {n})]) f' g'" by force
    moreover have "?S - {..<n} - {n} = ?S - {..<Suc n}" by auto
    ultimately show ?thesis using fold True by (auto simp: fold_r_append)
  next
    case False
    then have "?S - {..<Suc n} = ?S - {..<n}" by (auto simp: less_Suc_eq)
    with fold ok False show ?thesis by (auto simp: fold_r_append)
  qed
qed

lemma seq_pos_rm_index:
  assumes "index_ok zs (kc_seq_pos c) (kc_seq_used c)" and "i < length zs"
    and "zs ! i = (kc_pos c ! i, kc_seq c ! i)" and "kc_seq c ! i \<subseteq> {..<LLAMA_MAX_SEQ}"
  shows "\<exists>f g. seq_pos_rm i c = Inr (c\<lparr>kc_seq_pos := f, kc_seq_used := g\<rparr>) \<and>
     index_ok (zs[i := (kc_pos c ! i, {})]) f g"
proof -
  have "kc_seq c ! i - {..<LLAMA_MAX_SEQ} = {}" using assms(4) by blast
  with seq_pos_rm_prefix [OF assms(1-3), of LLAMA_MAX_SEQ] show ?thesis
    by (simp add: seq_pos_rm_def)
qed

lemma seq_pos_add_prefix:
  assumes "index_ok zs (kc_seq_pos c) (kc_seq_used c)" and "i < length zs"
    and "zs ! i = (kc_pos c ! i, {})" and "n \<le> LLAMA_MAX_SEQ"
  shows "\<exists>f g. fold (\<lambda>s c. if s \<in> kc_seq c ! i then seq_pos_inc s (kc_pos c ! i) c else c)
       [0..<n] c = c\<lparr>kc_seq_pos := f, kc_seq_used := g\<rparr> \<and>
     index_ok (zs[i := (kc_pos c ! i, kc_seq c ! i \<inter> {..<n})]) f g"
  using assms(4)
proof (induction n)
  case 0
  have "zs[i := (kc_pos c ! i, {})] = zs"
    using assms(3) by (metis list_update_id)
  with assms(1) show ?case
    by (auto intro!: exI [of _ "kc_seq_pos c"] exI [of _ "kc_seq_used c"])
next
  case (Suc n)
  let ?p = "kc_pos c ! i" and ?S = "kc_seq c ! i"
  from Suc obtain f g where fold: "fold (\<lambda>s c. if s \<in> kc_seq c ! i then seq_pos_inc s (kc_pos c ! i) c else c)
       [0..<n] c = c\<lparr>kc_seq_pos := f, kc_seq_used := g\<rparr>"
    and ok: "index_ok (zs[i := (?p, ?S \<inter> {..<n})]) f g" by auto
  show ?case
  proof (cases "n \<in> ?S")
    case True
    from seq_pos_inc_index [of _ "c\<lparr>kc_seq_pos := f, kc_seq_used := g\<rparr>" i ?p "?S \<inter> {..<n}" n]
      ok Suc.prems assms(2)
    obtain f' g' where "seq_pos_inc n ?p (c\<lparr>kc_seq_pos := f, kc_seq_used := g\<rparr>) =
        c\<lparr>kc_seq_pos := f', kc_seq_used := g'\<rparr>"
      and "index_ok (zs[i := (?p, insert n (?S \<inter> {..<n}))]) f' g'" by force
    moreover have "insert n (?S \<inter> {..<n}) = ?S \<inter> {..<Suc n}" using True by auto
    ultimately show ?thesis using fold True by auto
  next
    case False
    then have "?S \<inter> {..<Suc n} = ?S \<inter> {..<n}" by (auto simp: less_Suc_eq)
    with fold ok False show ?thesis by auto
  qed
qed

lemma seq_pos_add_index:
  assumes "index_ok zs (kc_seq_pos c) (kc_seq_used c)" and "i < length zs"
    and "zs ! i = (kc_pos c ! i, {})" and "kc_seq c ! i \<subseteq> {..<LLAMA_MAX_SEQ}"
  shows "\<exists>f g. seq_pos_add i c = c\<lparr>kc_seq_pos := f, kc_seq_used := g\<rparr> \<and>
     index_ok (zs[i := (kc_pos c ! i, kc_seq c ! i)]) f g"
proof -
  have "kc_seq c ! i \<inter> {..<LLAMA_MAX_SEQ} = kc_seq c ! i" using assms(4) by blast
  with seq_pos_add_prefix [OF assms(1-3), of LLAMA_MAX_SEQ] show ?thesis
    by (simp add: seq_pos_add_def)
qed

section \<open>Every operation keeps the invariant\<close>

lemma kv_cells_invD:
  assumes "kv_cells_inv c"
  shows "length (kc_seq c) = length (kc_pos c)" "length (kc_ext c) = length (kc_pos c)"
    "length (kc_shift c) = length (kc_pos c)"
    "i < length (kc_pos c) \<Longrightarrow> kc_seq c ! i \<subseteq> {..<LLAMA_MAX_SEQ}"
    "i < length (kc_pos c) \<Longrightarrow> -1 \<le> kc_pos c ! i"
    "i < length (kc_pos c) \<Longrightarrow> kc_pos c ! i = -1 \<Longrightarrow> kc_seq c ! i = {}"
    "kc_used c = {i. i < length (kc_pos c) \<and> kc_pos c ! i \<noteq> -1}"
    "index_ok (kv_cells_list c) (kc_seq_pos c) (kc_seq_used c)"
    "length (kv_cells_list c) = length (kc_pos c)"
    "i < length (kc_pos c) \<Longrightarrow> kv_cells_list c ! i = (kc_pos c ! i, kc_seq c ! i)"
  using assms unfolding kv_cells_inv_def by (simp_all add: kv_cells_list_def)

text \<open>The form every one-cell mutation is reduced to.\<close>

lemma kv_cells_inv_update:
  assumes inv: "kv_cells_inv c" and i: "i < length (kc_pos c)"
    and "kc_pos c' = (kc_pos c)[i := q]" and "kc_seq c' = (kc_seq c)[i := T]"
    and "length (kc_ext c') = length (kc_ext c)" and "length (kc_shift c') = length (kc_shift c)"
    and q: "-1 \<le> q" "T \<subseteq> {..<LLAMA_MAX_SEQ}" "q = -1 \<Longrightarrow> T = {}"
    and used: "kc_used c' = (if q = -1 then kc_used c - {i} else insert i (kc_used c))"
    and ix: "index_ok ((kv_cells_list c)[i := (q, T)]) (kc_seq_pos c') (kc_seq_used c')"
  shows "kv_cells_inv c'"
proof -
  note d = kv_cells_invD [OF inv]
  have "kv_cells_list c' = (kv_cells_list c)[i := (q, T)]"
    using assms(3,4) by (simp add: kv_cells_list_def update_zip)
  moreover have "kc_used c' = {j. j < length (kc_pos c') \<and> kc_pos c' ! j \<noteq> -1}"
    using used d(7) assms(3) i by (auto simp: nth_list_update)
  moreover have "-1 \<le> kc_pos c' ! j \<and> kc_seq c' ! j \<subseteq> {..<LLAMA_MAX_SEQ} \<and>
      (kc_pos c' ! j = -1 \<longrightarrow> kc_seq c' ! j = {})" if j: "j < length (kc_pos c')" for j
  proof (cases "j = i")
    case True
    with q d(1) i assms(3,4) show ?thesis by simp
  next
    case False
    with d(4-6) [of j] j assms(3,4) show ?thesis by simp
  qed
  ultimately show ?thesis using assms(3-6) d(1-3) ix unfolding kv_cells_inv_def by simp
qed

lemma seq_pos_rm_ok:
  assumes inv: "kv_cells_inv c" and i: "i < length (kc_pos c)"
  obtains f g where "seq_pos_rm i c = Inr (c\<lparr>kc_seq_pos := f, kc_seq_used := g\<rparr>)"
    and "index_ok ((kv_cells_list c)[i := (q, {})]) f g"
proof -
  note d = kv_cells_invD [OF inv]
  from seq_pos_rm_index [OF d(8), of i] d i obtain f g where
    fg: "seq_pos_rm i c = Inr (c\<lparr>kc_seq_pos := f, kc_seq_used := g\<rparr>)"
    "index_ok ((kv_cells_list c)[i := (kc_pos c ! i, {})]) f g"
    by auto
  have "index_ok ((kv_cells_list c)[i := (kc_pos c ! i, {}), i := (q, {})]) f g"
    using fg(2) i d(9) by (subst index_ok_empty_cell) auto
  with fg(1) that show thesis by simp
qed

lemma kv_cells_rm_inv:
  assumes inv: "kv_cells_inv c" and i: "i < length (kc_pos c)" and p: "kc_pos c ! i \<noteq> -1"
  shows "\<exists>c'. kv_cells_rm i c = Inr c' \<and> kv_cells_inv c' \<and>
     kc_pos c' = (kc_pos c)[i := -1] \<and> kc_seq c' = (kc_seq c)[i := {}]"
proof -
  obtain f g where fg: "seq_pos_rm i c = Inr (c\<lparr>kc_seq_pos := f, kc_seq_used := g\<rparr>)"
    "index_ok ((kv_cells_list c)[i := (-1, {})]) f g"
    by (rule seq_pos_rm_ok [OF inv i])
  let ?c = "kv_cells_clear_cell i (c\<lparr>kc_seq_pos := f, kc_seq_used := g, kc_seq := (kc_seq c)[i := {}]\<rparr>)"
  have "kv_cells_inv ?c"
    by (rule kv_cells_inv_update [OF inv i, where q = "-1" and T = "{}"])
      (use fg in \<open>simp_all add: kv_cells_clear_cell_def\<close>)
  with fg i p show ?thesis by (simp add: kv_cells_rm_def) (simp add: kv_cells_clear_cell_def)
qed

lemma bit_test_ok [simp]:
  "s < LLAMA_MAX_SEQ \<Longrightarrow> bit_test b (int s) = Inr (s \<in> b)"
  by (simp add: bit_test_def)

lemma kv_cells_seq_rm_inv:
  assumes inv: "kv_cells_inv c" and i: "i < length (kc_pos c)" and s: "s \<in> kc_seq c ! i"
  shows "\<exists>c'. kv_cells_seq_rm i (int s) c = Inr (kc_seq c ! i = {s}, c') \<and> kv_cells_inv c' \<and>
     kc_seq c' = (kc_seq c)[i := kc_seq c ! i - {s}] \<and>
     kc_pos c' = (kc_pos c)[i := if kc_seq c ! i = {s} then -1 else kc_pos c ! i]"
proof -
  note d = kv_cells_invD [OF inv]
  let ?p = "kc_pos c ! i" and ?S = "kc_seq c ! i"
  from d(4,6) i s have s': "s < LLAMA_MAX_SEQ" "?p \<noteq> -1" by blast+
  let ?c1 = "c\<lparr>kc_seq := (kc_seq c)[i := ?S - {s}]\<rparr>"
  from seq_pos_dec_index [of "kv_cells_list c" ?c1 i ?p ?S s] d i s s' obtain f g where
    fg: "seq_pos_dec s ?p ?c1 = Inr (?c1\<lparr>kc_seq_pos := f, kc_seq_used := g\<rparr>)"
    "index_ok ((kv_cells_list c)[i := (?p, ?S - {s})]) f g"
    by auto
  show ?thesis
  proof (cases "?S - {s} = {}")
    case True
    with s have S: "?S = {s}" by blast
    let ?c = "kv_cells_clear_cell i (?c1\<lparr>kc_seq_pos := f, kc_seq_used := g\<rparr>)"
    have "index_ok ((kv_cells_list c)[i := (?p, {}), i := (-1, {})]) f g"
      using fg(2) True i d(9) by (subst index_ok_empty_cell) auto
    then have "kv_cells_inv ?c"
      by (intro kv_cells_inv_update [OF inv i, where q = "-1" and T = "{}"])
        (simp_all add: kv_cells_clear_cell_def S)
    with fg i s s' d(1) S show ?thesis
      by (simp add: kv_cells_seq_rm_def kv_cells_clear_cell_def)
  next
    case False
    let ?c = "?c1\<lparr>kc_seq_pos := f, kc_seq_used := g\<rparr>"
    have "kv_cells_inv ?c"
      by (rule kv_cells_inv_update [OF inv i, where q = ?p and T = "?S - {s}"])
        (use fg d i s' False in auto)
    moreover from False have "?S \<noteq> {s}" by blast
    ultimately show ?thesis using fg i s s' d(1) False
      by (simp add: kv_cells_seq_rm_def)
  qed
qed

lemma kv_cells_seq_keep_inv:
  assumes inv: "kv_cells_inv c" and i: "i < length (kc_pos c)" and s: "s < LLAMA_MAX_SEQ"
    and e: "kc_seq c ! i = {} \<Longrightarrow> kc_pos c ! i = -1"
  shows "\<exists>c'. kv_cells_seq_keep i (int s) c = Inr (s \<notin> kc_seq c ! i \<and> kc_seq c ! i \<noteq> {}, c') \<and>
     kv_cells_inv c' \<and> kc_seq c' = (kc_seq c)[i := kc_seq c ! i \<inter> {s}] \<and>
     kc_pos c' = (kc_pos c)[i := if s \<in> kc_seq c ! i then kc_pos c ! i else -1]"
proof -
  note d = kv_cells_invD [OF inv]
  let ?p = "kc_pos c ! i" and ?S = "kc_seq c ! i"
  consider "s \<in> ?S" | "s \<notin> ?S" "?S \<noteq> {}" | "?S = {}" by blast
  then show ?thesis
  proof cases
    case 1
    with d(6) i have p: "?p \<noteq> -1" by blast
    obtain f g where fg: "seq_pos_rm i c = Inr (c\<lparr>kc_seq_pos := f, kc_seq_used := g\<rparr>)"
      "index_ok ((kv_cells_list c)[i := (?p, {})]) f g"
      by (rule seq_pos_rm_ok [OF inv i])
    let ?c1 = "c\<lparr>kc_seq_pos := f, kc_seq_used := g, kc_seq := (kc_seq c)[i := {s}]\<rparr>"
    from seq_pos_inc_index [of _ ?c1 i ?p "{}" s] fg(2) i d(9) obtain f' g' where
      fg': "seq_pos_inc s ?p ?c1 = ?c1\<lparr>kc_seq_pos := f', kc_seq_used := g'\<rparr>"
      "index_ok ((kv_cells_list c)[i := (?p, {s})]) f' g'" by fastforce
    have "kv_cells_inv (?c1\<lparr>kc_seq_pos := f', kc_seq_used := g'\<rparr>)"
      by (rule kv_cells_inv_update [OF inv i, where q = ?p and T = "{s}"])
        (use fg' d i p s in auto)
    moreover have "?S \<inter> {s} = {s}" using 1 by blast
    ultimately show ?thesis using fg(1) fg'(1) i s 1 by (simp add: kv_cells_seq_keep_def)
  next
    case 2
    obtain f g where fg: "seq_pos_rm i c = Inr (c\<lparr>kc_seq_pos := f, kc_seq_used := g\<rparr>)"
      "index_ok ((kv_cells_list c)[i := (-1, {})]) f g"
      by (rule seq_pos_rm_ok [OF inv i])
    let ?c = "kv_cells_clear_cell i (c\<lparr>kc_seq_pos := f, kc_seq_used := g, kc_seq := (kc_seq c)[i := {}]\<rparr>)"
    have "kv_cells_inv ?c"
      by (rule kv_cells_inv_update [OF inv i, where q = "-1" and T = "{}"])
        (use fg in \<open>simp_all add: kv_cells_clear_cell_def\<close>)
    moreover have "?S \<inter> {s} = {}" using 2 by blast
    ultimately show ?thesis using fg(1) i s 2
      by (simp add: kv_cells_seq_keep_def) (simp add: kv_cells_clear_cell_def)
  next
    case 3
    have "(kc_pos c)[i := -1] = kc_pos c" "(kc_seq c)[i := {}] = kc_seq c"
      using e [OF 3] 3 by (metis list_update_id)+
    with 3 e i s inv show ?thesis by (simp add: kv_cells_seq_keep_def)
  qed
qed

lemma kv_cells_seq_add_inv:
  assumes inv: "kv_cells_inv c" and i: "i < length (kc_pos c)" and p: "kc_pos c ! i \<noteq> -1"
    and s: "s < LLAMA_MAX_SEQ" "s \<notin> kc_seq c ! i"
  shows "\<exists>c'. kv_cells_seq_add i (int s) c = Inr c' \<and> kv_cells_inv c' \<and>
     kc_seq c' = (kc_seq c)[i := insert s (kc_seq c ! i)] \<and> kc_pos c' = kc_pos c"
proof -
  note d = kv_cells_invD [OF inv]
  let ?p = "kc_pos c ! i" and ?S = "kc_seq c ! i"
  let ?c1 = "c\<lparr>kc_seq := (kc_seq c)[i := insert s ?S]\<rparr>"
  from seq_pos_inc_index [of "kv_cells_list c" ?c1 i ?p ?S s] d i s obtain f g where
    fg: "seq_pos_inc s ?p ?c1 = ?c1\<lparr>kc_seq_pos := f, kc_seq_used := g\<rparr>"
    "index_ok ((kv_cells_list c)[i := (?p, insert s ?S)]) f g" by auto
  have "kv_cells_inv (?c1\<lparr>kc_seq_pos := f, kc_seq_used := g\<rparr>)"
    by (rule kv_cells_inv_update [OF inv i, where q = ?p and T = "insert s ?S"])
      (use fg d i p s in auto)
  with fg i p s show ?thesis by (simp add: kv_cells_seq_add_def)
qed

lemma kv_cells_pos_set_inv:
  assumes inv: "kv_cells_inv c" and i: "i < length (kc_pos c)" and e: "kc_pos c ! i = -1" and p: "p \<ge> 0"
  shows "\<exists>c'. kv_cells_pos_set i p c = Inr c' \<and> kv_cells_inv c' \<and>
     kc_pos c' = (kc_pos c)[i := p] \<and> kc_seq c' = kc_seq c"
proof -
  note d = kv_cells_invD [OF inv]
  from d(6) i e have S: "kc_seq c ! i = {}" by blast
  let ?c = "c\<lparr>kc_pos := (kc_pos c)[i := p], kc_used := insert i (kc_used c)\<rparr>"
  have "kc_seq c = (kc_seq c)[i := {}]" using S by (metis list_update_id)
  moreover have "index_ok ((kv_cells_list c)[i := (p, {})]) (kc_seq_pos c) (kc_seq_used c)"
    using d(8-10) i S by (subst index_ok_empty_cell) auto
  ultimately have "kv_cells_inv ?c"
    by (intro kv_cells_inv_update [OF inv i, where q = p and T = "{}"]) (use p in auto)
  with i e S show ?thesis by (simp add: kv_cells_pos_set_def)
qed

lemma kv_cells_ext_set_inv:
  assumes "kv_cells_inv c" and "i < length (kc_pos c)"
  shows "\<exists>c'. kv_cells_ext_set i e c = Inr c' \<and> kv_cells_inv c' \<and>
     kc_pos c' = kc_pos c \<and> kc_seq c' = kc_seq c"
  using assms kv_cells_invD(2) [OF assms(1)]
  by (simp add: kv_cells_ext_set_def kv_cells_inv_def kv_cells_list_def)

text \<open>Moving a cell to another position: the shared part of \<open>pos_add\<close>, \<open>pos_div\<close>.\<close>

lemma kv_cells_move_inv:
  assumes inv: "kv_cells_inv c" and i: "i < length (kc_pos c)" and q: "q \<ge> 0"
    and c1: "kc_pos c1 = (kc_pos c)[i := q]" "kc_seq c1 = kc_seq c" "kc_used c1 = kc_used c"
      "length (kc_ext c1) = length (kc_ext c)" "length (kc_shift c1) = length (kc_shift c)"
    and p: "kc_pos c ! i \<noteq> -1"
    and ix: "index_ok ((kv_cells_list c)[i := (q, {})]) (kc_seq_pos c1) (kc_seq_used c1)"
  shows "\<exists>f g. seq_pos_add i c1 = c1\<lparr>kc_seq_pos := f, kc_seq_used := g\<rparr> \<and>
     kv_cells_inv (c1\<lparr>kc_seq_pos := f, kc_seq_used := g\<rparr>)"
proof -
  note d = kv_cells_invD [OF inv]
  from seq_pos_add_index [OF ix, of i] d i c1 obtain f g where
    fg: "seq_pos_add i c1 = c1\<lparr>kc_seq_pos := f, kc_seq_used := g\<rparr>"
    "index_ok ((kv_cells_list c)[i := (q, kc_seq c ! i)]) f g" by auto
  have "kc_seq c = (kc_seq c)[i := kc_seq c ! i]" by simp
  moreover have "insert i (kc_used c) = kc_used c" using d(7) i p by auto
  ultimately have "kv_cells_inv (c1\<lparr>kc_seq_pos := f, kc_seq_used := g\<rparr>)"
    by (intro kv_cells_inv_update [OF inv i, where q = q and T = "kc_seq c ! i"])
      (use c1 q d i fg(2) in auto)
  with fg(1) show ?thesis by blast
qed

lemma kv_cells_pos_add_inv:
  assumes inv: "kv_cells_inv c" and i: "i < length (kc_pos c)" and p: "kc_pos c ! i \<noteq> -1"
  shows "\<exists>c'. kv_cells_pos_add i d c = Inr (kc_pos c ! i + d < 0, c') \<and> kv_cells_inv c' \<and>
     kc_has_shift c' \<and>
     kc_pos c' = (kc_pos c)[i := if kc_pos c ! i + d < 0 then -1 else kc_pos c ! i + d] \<and>
     kc_seq c' = (kc_seq c)[i := if kc_pos c ! i + d < 0 then {} else kc_seq c ! i]"
proof (cases "kc_pos c ! i + d < 0")
  case True
  obtain f g where fg: "seq_pos_rm i c = Inr (c\<lparr>kc_seq_pos := f, kc_seq_used := g\<rparr>)"
    "index_ok ((kv_cells_list c)[i := (-1, {})]) f g"
    by (rule seq_pos_rm_ok [OF inv i])
  let ?c = "c\<lparr>kc_seq_pos := f, kc_seq_used := g,
     kc_has_shift := True, kc_seq := (kc_seq c)[i := {}], kc_pos := (kc_pos c)[i := -1],
     kc_shift := (kc_shift c)[i := 0], kc_used := kc_used c - {i}\<rparr>"
  have "kv_cells_inv ?c"
    by (rule kv_cells_inv_update [OF inv i, where q = "-1" and T = "{}"]) (use fg in simp_all)
  with fg(1) i p True show ?thesis by (simp add: kv_cells_pos_add_def)
next
  case False
  let ?q = "kc_pos c ! i + d"
  obtain f g where fg: "seq_pos_rm i c = Inr (c\<lparr>kc_seq_pos := f, kc_seq_used := g\<rparr>)"
    "index_ok ((kv_cells_list c)[i := (?q, {})]) f g"
    by (rule seq_pos_rm_ok [OF inv i])
  let ?c = "c\<lparr>kc_seq_pos := f, kc_seq_used := g,
     kc_pos := (kc_pos c)[i := ?q], kc_shift := (kc_shift c)[i := kc_shift c ! i + d],
     kc_has_shift := True\<rparr>"
  from kv_cells_move_inv [OF inv i, of ?q ?c] False p fg(2) obtain f' g' where
    "seq_pos_add i ?c = ?c\<lparr>kc_seq_pos := f', kc_seq_used := g'\<rparr>"
    "kv_cells_inv (?c\<lparr>kc_seq_pos := f', kc_seq_used := g'\<rparr>)" by auto
  with fg(1) i p False show ?thesis by (simp add: kv_cells_pos_add_def)
qed

lemma kv_cells_pos_div_inv:
  assumes inv: "kv_cells_inv c" and i: "i < length (kc_pos c)" and p: "kc_pos c ! i \<noteq> -1" and d: "d > 0"
  shows "\<exists>c'. kv_cells_pos_div i d c = Inr c' \<and> kv_cells_inv c' \<and> kc_has_shift c' \<and>
     kc_pos c' = (kc_pos c)[i := kc_pos c ! i div d] \<and> kc_seq c' = kc_seq c"
proof -
  from kv_cells_invD(5) [OF inv i] p have p0: "kc_pos c ! i \<ge> 0" by linarith
  let ?q = "kc_pos c ! i sdiv d"
  have q: "?q = kc_pos c ! i div d" using p0 d by (simp add: sdiv_nonneg)
  with p0 d have q0: "?q \<ge> 0" by (simp add: pos_imp_zdiv_nonneg_iff)
  obtain f g where fg: "seq_pos_rm i c = Inr (c\<lparr>kc_seq_pos := f, kc_seq_used := g\<rparr>)"
    "index_ok ((kv_cells_list c)[i := (?q, {})]) f g"
    by (rule seq_pos_rm_ok [OF inv i])
  let ?c = "c\<lparr>kc_seq_pos := f, kc_seq_used := g, kc_pos := (kc_pos c)[i := ?q],
     kc_shift := (kc_shift c)[i := kc_shift c ! i + (kc_pos c ! i - ?q)]\<rparr>"
  from kv_cells_move_inv [OF inv i q0, of ?c] p fg(2) obtain f' g' where
    s: "seq_pos_add i ?c = ?c\<lparr>kc_seq_pos := f', kc_seq_used := g'\<rparr>"
    "kv_cells_inv (?c\<lparr>kc_seq_pos := f', kc_seq_used := g'\<rparr>)" by auto
  have "kv_cells_inv (?c\<lparr>kc_seq_pos := f', kc_seq_used := g', kc_has_shift := True\<rparr>)"
    using s(2) by (simp add: kv_cells_inv_def kv_cells_list_def)
  with fg(1) i p d s(1) show ?thesis by (simp add: kv_cells_pos_div_def Let_def q)
qed

text \<open>Restoring a cell, in the two steps of \<open>kv_cells_set_cell\<close>: the cell leaves the index, then
  it enters it with its new contents.\<close>

definition saved_cells_ok :: "llama_kv_cells \<Rightarrow> bool" where
  "saved_cells_ok o' \<longleftrightarrow> length (kc_seq o') = length (kc_pos o') \<and> length (kc_ext o') = length (kc_pos o') \<and>
     (\<forall>j < length (kc_pos o'). -1 \<le> kc_pos o' ! j \<and> kc_seq o' ! j \<subseteq> {..<LLAMA_MAX_SEQ} \<and>
        (kc_pos o' ! j = -1 \<longrightarrow> kc_seq o' ! j = {}))"

lemma set_cell_leave:
  assumes inv: "kv_cells_inv c" and i: "i < length (kc_pos c)"
  obtains f g where
    "(if kc_pos c ! i \<noteq> -1 then seq_pos_rm i (c\<lparr>kc_used := U\<rparr>) else Inr (c\<lparr>kc_used := U\<rparr>)) =
      Inr (c\<lparr>kc_used := U, kc_seq_pos := f, kc_seq_used := g\<rparr>)"
    and "index_ok ((kv_cells_list c)[i := (q, {})]) f g"
proof (cases "kc_pos c ! i = -1")
  case True
  note d = kv_cells_invD [OF inv]
  have "index_ok ((kv_cells_list c)[i := (q, {})]) (kc_seq_pos c) (kc_seq_used c)"
    using d(6,8-10) i True by (subst index_ok_empty_cell) auto
  with True show ?thesis by (intro that [where f = "kc_seq_pos c" and g = "kc_seq_used c"]) simp_all
next
  case False
  note d = kv_cells_invD [OF inv]
  from seq_pos_rm_index [of "kv_cells_list c" "c\<lparr>kc_used := U\<rparr>" i] d i obtain f g where
    fg: "seq_pos_rm i (c\<lparr>kc_used := U\<rparr>) = Inr (c\<lparr>kc_used := U, kc_seq_pos := f, kc_seq_used := g\<rparr>)"
    "index_ok ((kv_cells_list c)[i := (kc_pos c ! i, {})]) f g" by auto
  have "index_ok ((kv_cells_list c)[i := (kc_pos c ! i, {}), i := (q, {})]) f g"
    using fg(2) i d(9) by (subst index_ok_empty_cell) auto
  with fg(1) False show ?thesis by (intro that [where f = f and g = g]) simp_all
qed

lemma set_cell_enter:
  assumes ix: "index_ok (zs[i := (q, {})]) (kc_seq_pos c) (kc_seq_used c)" and i: "i < length zs"
    and c: "kc_pos c ! i = q" "kc_seq c ! i = T"
    and T: "T \<subseteq> {..<LLAMA_MAX_SEQ}" "q = -1 \<Longrightarrow> T = {}"
  obtains f g where "(if q \<noteq> -1 then seq_pos_add i c else c) = c\<lparr>kc_seq_pos := f, kc_seq_used := g\<rparr>"
    and "index_ok (zs[i := (q, T)]) f g"
proof (cases "q = -1")
  case True
  with ix T(2) show ?thesis by (intro that [where f = "kc_seq_pos c" and g = "kc_seq_used c"]) simp_all
next
  case False
  from seq_pos_add_index [OF ix, of i] i c T(1) obtain f g where
    "seq_pos_add i c = c\<lparr>kc_seq_pos := f, kc_seq_used := g\<rparr>" "index_ok (zs[i := (q, T)]) f g" by auto
  with False show ?thesis by (intro that [where f = f and g = g]) simp_all
qed

lemma kv_cells_set_cell_inv:
  assumes inv: "kv_cells_inv c" and i: "i < length (kc_pos c)"
    and ok: "saved_cells_ok other" and j: "j < length (kc_pos other)"
    and sh: "kc_shift c ! i = 0"
  shows "\<exists>c'. kv_cells_set_cell other i j c = Inr c' \<and> kv_cells_inv c' \<and>
     kc_pos c' = (kc_pos c)[i := kc_pos other ! j] \<and> kc_seq c' = (kc_seq c)[i := kc_seq other ! j] \<and>
     kc_ext c' = (kc_ext c)[i := kc_ext other ! j] \<and> kc_shift c' = kc_shift c"
proof -
  note d = kv_cells_invD [OF inv]
  let ?q = "kc_pos other ! j" and ?T = "kc_seq other ! j" and ?e = "kc_ext other ! j"
  from ok j have q: "-1 \<le> ?q" "?T \<subseteq> {..<LLAMA_MAX_SEQ}" "?q = -1 \<Longrightarrow> ?T = {}"
    by (auto simp: saved_cells_ok_def)
  let ?U = "if ?q = -1 then kc_used c - {i} else insert i (kc_used c)"
  let ?c1 = "if kc_pos c ! i = -1 \<and> ?q \<noteq> -1 then c\<lparr>kc_used := insert i (kc_used c)\<rparr> else c"
  have c2: "(if kc_pos ?c1 ! i \<noteq> -1 \<and> ?q = -1 then ?c1\<lparr>kc_used := kc_used ?c1 - {i}\<rparr> else ?c1)
      = c\<lparr>kc_used := ?U\<rparr>"
    using d(7) i by (cases c) auto
  have frame: "kc_pos (c\<lparr>kc_used := ?U\<rparr>) = kc_pos c" by simp
  obtain f g where fg:
    "(if kc_pos c ! i \<noteq> -1 then seq_pos_rm i (c\<lparr>kc_used := ?U\<rparr>) else Inr (c\<lparr>kc_used := ?U\<rparr>)) =
      Inr (c\<lparr>kc_used := ?U, kc_seq_pos := f, kc_seq_used := g\<rparr>)"
    "index_ok ((kv_cells_list c)[i := (?q, {})]) f g" by (rule set_cell_leave [OF inv i])
  let ?c4 = "c\<lparr>kc_used := ?U, kc_seq_pos := f, kc_seq_used := g, kc_pos := (kc_pos c)[i := ?q],
     kc_ext := (kc_ext c)[i := ?e], kc_seq := (kc_seq c)[i := ?T]\<rparr>"
  obtain f' g' where fg':
    "(if ?q \<noteq> -1 then seq_pos_add i ?c4 else ?c4) = ?c4\<lparr>kc_seq_pos := f', kc_seq_used := g'\<rparr>"
    "index_ok ((kv_cells_list c)[i := (?q, ?T)]) f' g'"
    by (rule set_cell_enter [of "kv_cells_list c" i ?q ?c4 ?T]) (use fg(2) i d q in simp_all)
  let ?c5 = "?c4\<lparr>kc_seq_pos := f', kc_seq_used := g'\<rparr>"
  have "kv_cells_inv ?c5"
    by (rule kv_cells_inv_update [OF inv i, where q = ?q and T = ?T]) (use fg'(2) q in auto)
  moreover have "kv_cells_set_cell other i j c =
      (let c5 = (if ?q \<noteq> -1 then seq_pos_add i ?c4 else ?c4) in assert_r (kc_shift c5 ! i = 0) (Inr c5))"
    unfolding kv_cells_set_cell_def Let_def c2 frame fg(1) using i by simp
  ultimately show ?thesis unfolding fg'(1) using sh by simp
qed

lemma kv_cells_set_inv:
  assumes inv: "kv_cells_inv c" and len: "i + length (kc_pos other) \<le> length (kc_pos c)"
    and ok: "saved_cells_ok other"
    and sh: "\<And>j. j < length (kc_pos other) \<Longrightarrow> kc_shift c ! (i + j) = 0"
  shows "\<exists>c'. kv_cells_set c i other = Inr c' \<and> kv_cells_inv c' \<and> kc_shift c' = kc_shift c \<and>
     kc_pos c' = take i (kc_pos c) @ kc_pos other @ drop (i + length (kc_pos other)) (kc_pos c) \<and>
     kc_seq c' = take i (kc_seq c) @ kc_seq other @ drop (i + length (kc_pos other)) (kc_seq c) \<and>
     kc_ext c' = take i (kc_ext c) @ kc_ext other @ drop (i + length (kc_pos other)) (kc_ext c)"
proof -
  note d = kv_cells_invD [OF inv]
  have "\<exists>c'. fold_r (\<lambda>j. kv_cells_set_cell other (i + j) j) [0..<k] c = Inr c' \<and>
     kv_cells_inv c' \<and> kc_shift c' = kc_shift c \<and>
     kc_pos c' = take i (kc_pos c) @ take k (kc_pos other) @ drop (i + k) (kc_pos c) \<and>
     kc_seq c' = take i (kc_seq c) @ take k (kc_seq other) @ drop (i + k) (kc_seq c) \<and>
     kc_ext c' = take i (kc_ext c) @ take k (kc_ext other) @ drop (i + k) (kc_ext c)"
    if "k \<le> length (kc_pos other)" for k
    using that
  proof (induction k)
    case 0
    with inv show ?case by simp
  next
    case (Suc k)
    from ok have lo: "length (kc_seq other) = length (kc_pos other)" "length (kc_ext other) = length (kc_pos other)"
      by (simp_all add: saved_cells_ok_def)
    from Suc obtain c1 where c1: "fold_r (\<lambda>j. kv_cells_set_cell other (i + j) j) [0..<k] c = Inr c1"
      "kv_cells_inv c1" "kc_shift c1 = kc_shift c"
      "kc_pos c1 = take i (kc_pos c) @ take k (kc_pos other) @ drop (i + k) (kc_pos c)"
      "kc_seq c1 = take i (kc_seq c) @ take k (kc_seq other) @ drop (i + k) (kc_seq c)"
      "kc_ext c1 = take i (kc_ext c) @ take k (kc_ext other) @ drop (i + k) (kc_ext c)" by auto
    have k: "i + k < length (kc_pos c1)" "k < length (kc_pos other)" "kc_shift c1 ! (i + k) = 0"
      using Suc.prems len c1(3) sh by (auto simp: c1(4))
    from kv_cells_set_cell_inv [OF c1(2) k(1) ok k(2,3)] obtain c2 where
      c2: "kv_cells_set_cell other (i + k) k c1 = Inr c2" "kv_cells_inv c2"
      "kc_pos c2 = (kc_pos c1)[i + k := kc_pos other ! k]" "kc_seq c2 = (kc_seq c1)[i + k := kc_seq other ! k]"
      "kc_ext c2 = (kc_ext c1)[i + k := kc_ext other ! k]" "kc_shift c2 = kc_shift c1" by blast
    from k Suc.prems len d(1,2) lo show ?case
      by (simp add: fold_r_append c1(1,3) c2(1,2,6) c2(3-5) c1(4-6) splice_step)
  qed
  from this [of "length (kc_pos other)"] ok len show ?thesis
    by (simp add: kv_cells_set_def saved_cells_ok_def)
qed

text \<open>What a copy holds.\<close>

lemma cp_loop:
  assumes "\<And>j. j < k \<Longrightarrow> kc_shift c ! h j = 0 \<and> h j < length (kc_pos c)"
    and "k \<le> length (kc_pos r)" "length (kc_seq r) = length (kc_pos r)" "length (kc_ext r) = length (kc_pos r)"
  shows "fold_r (\<lambda>j r. if h j \<ge> length (kc_pos c) then Inl Undefined else assert_r (kc_shift c ! h j = 0)
      (Inr (r\<lparr>kc_pos := (kc_pos r)[j := kc_pos c ! h j],
              kc_ext := (kc_ext r)[j := kc_ext c ! h j],
              kc_seq := (kc_seq r)[j := kc_seq c ! h j]\<rparr>))) [0..<k] r =
    Inr (r\<lparr>kc_pos := map (\<lambda>j. kc_pos c ! h j) [0..<k] @ drop k (kc_pos r),
           kc_ext := map (\<lambda>j. kc_ext c ! h j) [0..<k] @ drop k (kc_ext r),
           kc_seq := map (\<lambda>j. kc_seq c ! h j) [0..<k] @ drop k (kc_seq r)\<rparr>)"
  using assms
proof (induction k)
  case 0
  then show ?case by simp
next
  case (Suc k)
  then have "fold_r (\<lambda>j r. if h j \<ge> length (kc_pos c) then Inl Undefined else assert_r (kc_shift c ! h j = 0)
      (Inr (r\<lparr>kc_pos := (kc_pos r)[j := kc_pos c ! h j],
              kc_ext := (kc_ext r)[j := kc_ext c ! h j],
              kc_seq := (kc_seq r)[j := kc_seq c ! h j]\<rparr>))) [0..<k] r =
    Inr (r\<lparr>kc_pos := map (\<lambda>j. kc_pos c ! h j) [0..<k] @ drop k (kc_pos r),
           kc_ext := map (\<lambda>j. kc_ext c ! h j) [0..<k] @ drop k (kc_ext r),
           kc_seq := map (\<lambda>j. kc_seq c ! h j) [0..<k] @ drop k (kc_seq r)\<rparr>)" by simp
  with Suc.prems show ?case by (simp add: fold_r_append fill_step not_le)
qed

lemma kv_cells_cp_eq:
  assumes "i + n \<le> length (kc_pos c)" and "\<And>j. j < n \<Longrightarrow> kc_shift c ! (i + j) = 0"
  shows "\<exists>r. kv_cells_cp c i n = Inr r \<and> kc_pos r = map (\<lambda>j. kc_pos c ! (i + j)) [0..<n] \<and>
     kc_ext r = map (\<lambda>j. kc_ext c ! (i + j)) [0..<n] \<and> kc_seq r = map (\<lambda>j. kc_seq c ! (i + j)) [0..<n]"
proof -
  let ?r = "kv_cells_resize n kv_cells_empty"
  have r: "length (kc_pos ?r) = n" "length (kc_seq ?r) = n" "length (kc_ext ?r) = n"
    by (simp_all add: kv_cells_resize_def kv_cells_reset_def)
  have "kv_cells_cp c i n =
      fold_r (\<lambda>j r. assert_r (kc_shift c ! (i + j) = 0)
        (Inr (r\<lparr>kc_pos := (kc_pos r)[j := kc_pos c ! (i + j)],
                kc_ext := (kc_ext r)[j := kc_ext c ! (i + j)],
                kc_seq := (kc_seq r)[j := kc_seq c ! (i + j)]\<rparr>))) [0..<n] ?r"
    using assms(1) by (simp add: kv_cells_cp_def Let_def)
  also have "\<dots> = fold_r (\<lambda>j r. if i + j \<ge> length (kc_pos c) then Inl Undefined else
        assert_r (kc_shift c ! (i + j) = 0)
        (Inr (r\<lparr>kc_pos := (kc_pos r)[j := kc_pos c ! (i + j)],
                kc_ext := (kc_ext r)[j := kc_ext c ! (i + j)],
                kc_seq := (kc_seq r)[j := kc_seq c ! (i + j)]\<rparr>))) [0..<n] ?r"
    by (rule fold_r_cong) (use assms(1) in auto)
  also have "\<dots> = Inr (?r\<lparr>kc_pos := map (\<lambda>j. kc_pos c ! (i + j)) [0..<n] @ drop n (kc_pos ?r),
           kc_ext := map (\<lambda>j. kc_ext c ! (i + j)) [0..<n] @ drop n (kc_ext ?r),
           kc_seq := map (\<lambda>j. kc_seq c ! (i + j)) [0..<n] @ drop n (kc_seq ?r)\<rparr>)"
    by (rule cp_loop) (use assms r in auto)
  finally show ?thesis using r by simp
qed

lemma kv_cells_cp_idxs_eq:
  assumes "\<And>j. j < length idxs \<Longrightarrow> idxs ! j < length (kc_pos c) \<and> kc_shift c ! (idxs ! j) = 0"
  shows "\<exists>r. kv_cells_cp_idxs c idxs = Inr r \<and> kc_pos r = map (\<lambda>x. kc_pos c ! x) idxs \<and>
     kc_ext r = map (\<lambda>x. kc_ext c ! x) idxs \<and> kc_seq r = map (\<lambda>x. kc_seq c ! x) idxs"
proof -
  let ?r = "kv_cells_resize (length idxs) kv_cells_empty"
  have r: "length (kc_pos ?r) = length idxs" "length (kc_seq ?r) = length idxs" "length (kc_ext ?r) = length idxs"
    by (simp_all add: kv_cells_resize_def kv_cells_reset_def)
  have "kv_cells_cp_idxs c idxs = Inr (?r\<lparr>
           kc_pos := map (\<lambda>j. kc_pos c ! (idxs ! j)) [0..<length idxs] @ drop (length idxs) (kc_pos ?r),
           kc_ext := map (\<lambda>j. kc_ext c ! (idxs ! j)) [0..<length idxs] @ drop (length idxs) (kc_ext ?r),
           kc_seq := map (\<lambda>j. kc_seq c ! (idxs ! j)) [0..<length idxs] @ drop (length idxs) (kc_seq ?r)\<rparr>)"
    unfolding kv_cells_cp_idxs_def Let_def by (rule cp_loop) (use assms r in auto)
  with r show ?thesis by (simp add: map_nth_comp)
qed

lemma kv_cells_set_idxs_inv:
  assumes inv: "kv_cells_inv c" and len: "length idxs = length (kc_pos other)"
    and ok: "saved_cells_ok other"
    and ix: "\<And>j. j < length idxs \<Longrightarrow> idxs ! j < length (kc_pos c) \<and> kc_shift c ! (idxs ! j) = 0"
  shows "\<exists>c'. kv_cells_set_idxs c idxs other = Inr c' \<and> kv_cells_inv c'"
proof -
  let ?I = "\<lambda>c'. kv_cells_inv c' \<and> length (kc_pos c') = length (kc_pos c) \<and> kc_shift c' = kc_shift c"
  have "\<exists>c'. fold_r (\<lambda>j c. if idxs ! j \<ge> length (kc_pos c) then Inl Undefined
      else kv_cells_set_cell other (idxs ! j) j c) [0..<length (kc_pos other)] c = Inr c' \<and> ?I c'"
  proof (rule fold_r_invariant)
    fix j s assume j: "j \<in> set [0..<length (kc_pos other)]" and s: "?I s"
    with len ix have x: "idxs ! j < length (kc_pos s)" "kc_shift s ! (idxs ! j) = 0" by auto
    with kv_cells_set_cell_inv [of s "idxs ! j" other j] s ok j
    show "\<exists>s'. (if idxs ! j \<ge> length (kc_pos s) then Inl Undefined
      else kv_cells_set_cell other (idxs ! j) j s) = Inr s' \<and> ?I s'" by force
  qed (use inv in simp)
  with len show ?thesis by (auto simp: kv_cells_set_idxs_def)
qed

lemma kv_cells_reset_inv:
  assumes "length (kc_seq c) = length (kc_pos c)" "length (kc_ext c) = length (kc_pos c)"
    "length (kc_shift c) = length (kc_pos c)"
  shows "kv_cells_inv (kv_cells_reset c)"
proof -
  have z: "count_if P (zip (map (\<lambda>_. -1) xs) (map (\<lambda>_. {}) ys)) = 0"
    if "\<And>p. \<not> P (p, {})" for P :: "int \<times> nat set \<Rightarrow> bool" and xs :: "int list" and ys :: "nat set list"
    unfolding count_if_0_iff using that by simp
  show ?thesis using assms
    by (simp add: kv_cells_inv_def kv_cells_reset_def index_ok_def cell_count_def member_count_def
        kv_cells_list_def z)
qed

lemma kv_cells_resize_inv: "kv_cells_inv (kv_cells_resize n c)"
  unfolding kv_cells_resize_def by (rule kv_cells_reset_inv) simp_all

lemma kv_cells_reset_shift_inv: "kv_cells_inv c \<Longrightarrow> kv_cells_inv (kv_cells_reset_shift c)"
  by (simp add: kv_cells_inv_def kv_cells_reset_shift_def kv_cells_list_def)

section \<open>Operations as steps\<close>

text \<open>Every mutator of the class, with the precondition its comment states for the caller.\<close>

datatype kv_op =
    Op_rm nat | Op_seq_rm nat nat | Op_seq_rm_cell nat nat | Op_seq_keep nat nat | Op_seq_add nat nat
  | Op_pos_set nat int | Op_ext_set nat llama_kv_cell_ext | Op_pos_add nat int | Op_pos_div nat int
  | Op_set nat llama_kv_cells | Op_set_idxs "nat list" llama_kv_cells
  | Op_reset | Op_reset_shift | Op_resize nat

fun kv_op_pre :: "llama_kv_cells \<Rightarrow> kv_op \<Rightarrow> bool" where
  "kv_op_pre c (Op_rm i) = (i < length (kc_pos c) \<and> kc_pos c ! i \<noteq> -1)"
| "kv_op_pre c (Op_seq_rm i s) = (i < length (kc_pos c) \<and> s \<in> kc_seq c ! i)"
| "kv_op_pre c (Op_seq_rm_cell i s) = (i < length (kc_pos c) \<and> s < LLAMA_MAX_SEQ)"
| "kv_op_pre c (Op_seq_keep i s) = (i < length (kc_pos c) \<and> s < LLAMA_MAX_SEQ \<and>
     (kc_seq c ! i = {} \<longrightarrow> kc_pos c ! i = -1))"
| "kv_op_pre c (Op_seq_add i s) = (i < length (kc_pos c) \<and> s < LLAMA_MAX_SEQ \<and>
     kc_pos c ! i \<noteq> -1 \<and> s \<notin> kc_seq c ! i)"
| "kv_op_pre c (Op_pos_set i p) = (i < length (kc_pos c) \<and> kc_pos c ! i = -1 \<and> p \<ge> 0)"
| "kv_op_pre c (Op_ext_set i e) = (i < length (kc_pos c))"
| "kv_op_pre c (Op_pos_add i d) = (i < length (kc_pos c) \<and> kc_pos c ! i \<noteq> -1)"
| "kv_op_pre c (Op_pos_div i d) = (i < length (kc_pos c) \<and> kc_pos c ! i \<noteq> -1 \<and> d > 0)"
| "kv_op_pre c (Op_set i o') = (i + length (kc_pos o') \<le> length (kc_pos c) \<and> saved_cells_ok o' \<and>
     (\<forall>j < length (kc_pos o'). kc_shift c ! (i + j) = 0))"
| "kv_op_pre c (Op_set_idxs idxs o') = (length idxs = length (kc_pos o') \<and> saved_cells_ok o' \<and>
     (\<forall>j < length idxs. idxs ! j < length (kc_pos c) \<and> kc_shift c ! (idxs ! j) = 0))"
| "kv_op_pre c Op_reset = True"
| "kv_op_pre c Op_reset_shift = True"
| "kv_op_pre c (Op_resize n) = True"

fun kv_op_apply :: "kv_op \<Rightarrow> llama_kv_cells \<Rightarrow> llama_kv_cells res" where
  "kv_op_apply (Op_rm i) c = kv_cells_rm i c"
| "kv_op_apply (Op_seq_rm i s) c = map_sum id snd (kv_cells_seq_rm i (int s) c)"
| "kv_op_apply (Op_seq_rm_cell i s) c = map_sum id snd (kv_cells_seq_rm_cell i (int s) c)"
| "kv_op_apply (Op_seq_keep i s) c = map_sum id snd (kv_cells_seq_keep i (int s) c)"
| "kv_op_apply (Op_seq_add i s) c = kv_cells_seq_add i (int s) c"
| "kv_op_apply (Op_pos_set i p) c = kv_cells_pos_set i p c"
| "kv_op_apply (Op_ext_set i e) c = kv_cells_ext_set i e c"
| "kv_op_apply (Op_pos_add i d) c = map_sum id snd (kv_cells_pos_add i d c)"
| "kv_op_apply (Op_pos_div i d) c = kv_cells_pos_div i d c"
| "kv_op_apply (Op_set i o') c = kv_cells_set c i o'"
| "kv_op_apply (Op_set_idxs idxs o') c = kv_cells_set_idxs c idxs o'"
| "kv_op_apply Op_reset c = Inr (kv_cells_reset c)"
| "kv_op_apply Op_reset_shift c = Inr (kv_cells_reset_shift c)"
| "kv_op_apply (Op_resize n) c = Inr (kv_cells_resize n c)"

inductive kv_reachable :: "llama_kv_cells \<Rightarrow> bool" where
  kv_start: "kv_reachable kv_cells_empty"
| kv_step: "kv_reachable c \<Longrightarrow> kv_op_pre c op \<Longrightarrow> kv_op_apply op c = Inr c' \<Longrightarrow> kv_reachable c'"

lemma kv_cells_seq_rm_cell_inv:
  assumes inv: "kv_cells_inv c" and i: "i < length (kc_pos c)" and s: "s < LLAMA_MAX_SEQ"
  shows "\<exists>b c'. kv_cells_seq_rm_cell i (int s) c = Inr (b, c') \<and> kv_cells_inv c' \<and>
     kc_seq c' = (kc_seq c)[i := kc_seq c ! i - {s}]"
proof (cases "s \<in> kc_seq c ! i")
  case True
  with kv_cells_invD(6) [OF inv i] have "kc_pos c ! i \<noteq> -1" by blast
  with kv_cells_seq_rm_inv [OF inv i True] True i s show ?thesis
    by (auto simp: kv_cells_seq_rm_cell_def)
next
  case False
  then have "(kc_seq c)[i := kc_seq c ! i - {s}] = kc_seq c" by simp
  with False inv i s show ?thesis by (auto simp: kv_cells_seq_rm_cell_def)
qed

lemma kv_op_total:
  assumes inv: "kv_cells_inv c" and pre: "kv_op_pre c op"
  shows "\<exists>c'. kv_op_apply op c = Inr c' \<and> kv_cells_inv c'"
proof (cases op)
  case (Op_rm i)
  with kv_cells_rm_inv [OF inv, of i] pre show ?thesis by auto
next
  case (Op_seq_rm i s)
  with kv_cells_seq_rm_inv [OF inv, of i s] pre show ?thesis by auto
next
  case (Op_seq_rm_cell i s)
  with kv_cells_seq_rm_cell_inv [OF inv, of i s] pre show ?thesis by auto
next
  case (Op_seq_keep i s)
  with kv_cells_seq_keep_inv [OF inv, of i s] pre show ?thesis by auto
next
  case (Op_seq_add i s)
  with kv_cells_seq_add_inv [OF inv, of i s] pre show ?thesis by auto
next
  case (Op_pos_set i p)
  with kv_cells_pos_set_inv [OF inv, of i p] pre show ?thesis by auto
next
  case (Op_ext_set i e)
  with kv_cells_ext_set_inv [OF inv, of i e] pre show ?thesis by auto
next
  case (Op_pos_add i d)
  with kv_cells_pos_add_inv [OF inv, of i d] pre show ?thesis by auto
next
  case (Op_pos_div i d)
  with kv_cells_pos_div_inv [OF inv, of i d] pre show ?thesis by auto
next
  case (Op_set i o')
  with kv_cells_set_inv [OF inv, of i o'] pre show ?thesis by auto
next
  case (Op_set_idxs idxs o')
  with kv_cells_set_idxs_inv [OF inv, of idxs o'] pre show ?thesis by auto
qed (use inv kv_cells_invD [OF inv] kv_cells_reset_inv kv_cells_reset_shift_inv kv_cells_resize_inv in auto)

lemma kv_cells_empty_inv: "kv_cells_inv kv_cells_empty"
  by (simp add: kv_cells_inv_def kv_cells_empty_def index_ok_def cell_count_def member_count_def
      kv_cells_list_def)

lemma kv_reachable_inv: "kv_reachable c \<Longrightarrow> kv_cells_inv c"
proof (induction rule: kv_reachable.induct)
  case kv_start
  show ?case by (rule kv_cells_empty_inv)
next
  case (kv_step c op c')
  with kv_op_total [of c op] show ?case by auto
qed

section \<open>The answers the index gives\<close>

definition seq_positions :: "llama_kv_cells \<Rightarrow> nat \<Rightarrow> int set" where
  "seq_positions c s = {kc_pos c ! i | i. i < length (kc_pos c) \<and> s \<in> kc_seq c ! i}"

lemma finite_seq_positions [simp]: "finite (seq_positions c s)"
  by (simp add: seq_positions_def)

lemma seq_positions_filter:
  "seq_positions c s = set (map (\<lambda>i. kc_pos c ! i) (filter (\<lambda>i. s \<in> kc_seq c ! i) [0..<length (kc_pos c)]))"
  by (auto simp: seq_positions_def)

lemma seq_pos_index:
  assumes inv: "kv_cells_inv c" and s: "s < LLAMA_MAX_SEQ"
  shows "dom (kc_seq_pos c s) = seq_positions c s"
    and "kc_seq_pos c s p = Some k \<Longrightarrow> k > 0"
    and "kc_seq_used c s = card {i. i < length (kc_pos c) \<and> s \<in> kc_seq c ! i}"
proof -
  note d = kv_cells_invD [OF inv]
  have f: "kc_seq_pos c s p = (if cell_count (kv_cells_list c) s p = 0 then None
      else Some (int (cell_count (kv_cells_list c) s p)))" for p
    using d(8) s by (simp add: index_ok_def)
  have "cell_count (kv_cells_list c) s p = 0 \<longleftrightarrow> p \<notin> seq_positions c s" for p
    unfolding cell_count_def count_if_0_iff using d(9,10) by (auto simp: seq_positions_def)
  with f show "dom (kc_seq_pos c s) = seq_positions c s" by (auto simp: dom_def)
  show "kc_seq_pos c s p = Some k \<Longrightarrow> k > 0" using f [of p] by (auto split: if_splits)
  have "member_count (kv_cells_list c) s = card {i. i < length (kv_cells_list c) \<and> s \<in> snd (kv_cells_list c ! i)}"
    unfolding member_count_def count_if_def by (simp add: length_filter_conv_card)
  also have "{i. i < length (kv_cells_list c) \<and> s \<in> snd (kv_cells_list c ! i)} =
      {i. i < length (kc_pos c) \<and> s \<in> kc_seq c ! i}" using d(9,10) by auto
  finally show "kc_seq_used c s = card {i. i < length (kc_pos c) \<and> s \<in> kc_seq c ! i}"
    using d(8) s by (simp add: index_ok_def)
qed

lemma kv_cells_seq_pos_min_eq:
  assumes "kv_cells_inv c" and "s < LLAMA_MAX_SEQ"
  shows "kv_cells_seq_pos_min c (int s) =
    Inr (if seq_positions c s = {} then -1 else Min (seq_positions c s))"
proof (cases "seq_positions c s = {}")
  case False
  with seq_pos_index(1) [OF assms] have "Min (seq_positions c s) \<in> dom (kc_seq_pos c s)" by simp
  with seq_pos_index(2) [OF assms] have "0 < the (kc_seq_pos c s (Min (seq_positions c s)))" by fastforce
  with False assms seq_pos_index(1) [OF assms] show ?thesis
    by (simp add: kv_cells_seq_pos_min_def Let_def del: dom_eq_empty_conv)
qed (use assms seq_pos_index(1) [OF assms] in \<open>simp add: kv_cells_seq_pos_min_def\<close>)

lemma kv_cells_seq_pos_max_eq:
  assumes "kv_cells_inv c" and "s < LLAMA_MAX_SEQ"
  shows "kv_cells_seq_pos_max c (int s) =
    Inr (if seq_positions c s = {} then -1 else Max (seq_positions c s))"
proof (cases "seq_positions c s = {}")
  case False
  with seq_pos_index(1) [OF assms] have "Max (seq_positions c s) \<in> dom (kc_seq_pos c s)" by simp
  with seq_pos_index(2) [OF assms] have "0 < the (kc_seq_pos c s (Max (seq_positions c s)))" by fastforce
  with False assms seq_pos_index(1) [OF assms] show ?thesis
    by (simp add: kv_cells_seq_pos_max_def Let_def del: dom_eq_empty_conv)
qed (use assms seq_pos_index(1) [OF assms] in \<open>simp add: kv_cells_seq_pos_max_def\<close>)

lemma cells_at_loop:
  assumes "s < LLAMA_MAX_SEQ"
  shows "fold_r (\<lambda>i r. if kc_pos c ! i = p then
       bind_r (bit_test (kc_seq c ! i) (int s)) (\<lambda>t. Inr (if t then r @ [i] else r)) else Inr r) xs r =
     Inr (r @ filter (\<lambda>i. kc_pos c ! i = p \<and> s \<in> kc_seq c ! i) xs)"
  using assms by (induction xs arbitrary: r) auto

lemma kv_cells_cells_at_eq:
  assumes inv: "kv_cells_inv c" and s: "s < LLAMA_MAX_SEQ"
  shows "kv_cells_cells_at c (int s) p =
    Inr (filter (\<lambda>i. kc_pos c ! i = p \<and> s \<in> kc_seq c ! i) [0..<length (kc_pos c)])"
proof -
  note d = kv_cells_invD [OF inv]
  have "kc_used c = set (filter (\<lambda>i. kc_pos c ! i \<noteq> -1) [0..<length (kc_pos c)])"
    using d(7) by auto
  then have "sorted_list_of_set (kc_used c) = filter (\<lambda>i. kc_pos c ! i \<noteq> -1) [0..<length (kc_pos c)]"
    by (metis distinct_filter distinct_upt sorted_list_of_set.idem_if_sorted_distinct sorted_upt
        sorted_wrt_filter)
  moreover have "filter (\<lambda>i. kc_pos c ! i = p \<and> s \<in> kc_seq c ! i)
      (filter (\<lambda>i. kc_pos c ! i \<noteq> -1) [0..<length (kc_pos c)]) =
      filter (\<lambda>i. kc_pos c ! i = p \<and> s \<in> kc_seq c ! i) [0..<length (kc_pos c)]"
    using d(6) by (auto intro!: filter_cong)
  ultimately show ?thesis using s by (simp add: kv_cells_cells_at_def cells_at_loop)
qed

section \<open>Properties\<close>

text \<open>A two-cell object used by the witnesses: cell 0 holds position 3 of sequence 1, cell 1 is empty.\<close>

definition kv_cells_example :: llama_kv_cells where
  "kv_cells_example = \<lparr>kc_has_shift = False, kc_used = {0}, kc_pos = [3, -1],
     kc_ext = [ext_reset, ext_reset], kc_shift = [0, 0], kc_seq = [{1}, {}],
     kc_seq_pos = (\<lambda>s. if s = 1 then [3 \<mapsto> 1] else Map.empty),
     kc_seq_used = (\<lambda>s. if s = 1 then 1 else 0)\<rparr>"

lemma kv_cells_example_inv: "kv_cells_inv kv_cells_example"
  by (auto simp: kv_cells_inv_def kv_cells_example_def index_ok_def cell_count_def member_count_def
      kv_cells_list_def LLAMA_MAX_SEQ_def less_Suc_eq numeral_2_eq_2)



text \<open>C32: The index answers are those of a scan over the cells: \<open>seq_pos_min\<close> and \<open>seq_pos_max\<close>
  return the least and greatest position of the cells of a sequence (-1 when it has none) and
  \<open>seq_size\<close> their number; \<open>cells_at\<close> lists exactly the cells of the sequence at a position, in
  index order.\<close>

theorem kv_queries_scan:
  assumes "kv_cells_inv c" and "s < LLAMA_MAX_SEQ"
  shows "kv_cells_seq_pos_min c (int s) =
      Inr (if seq_positions c s = {} then -1 else Min (seq_positions c s)) \<and>
    kv_cells_seq_pos_max c (int s) =
      Inr (if seq_positions c s = {} then -1 else Max (seq_positions c s)) \<and>
    kv_cells_seq_size c (int s) = Inr (card {i. i < length (kc_pos c) \<and> s \<in> kc_seq c ! i}) \<and>
    kv_cells_cells_at c (int s) p =
      Inr (filter (\<lambda>i. kc_pos c ! i = p \<and> s \<in> kc_seq c ! i) [0..<length (kc_pos c)])"
  using assms kv_cells_seq_pos_min_eq [OF assms] kv_cells_seq_pos_max_eq [OF assms]
    seq_pos_index(3) [OF assms] kv_cells_cells_at_eq [OF assms]
  by (simp add: kv_cells_seq_size_def)

theorem kv_queries_scan_witness:
  "kv_cells_seq_pos_max kv_cells_example 1 = Inr 3 \<and> kv_cells_seq_pos_min kv_cells_example 0 = Inr (-1)"
proof -
  have "seq_positions kv_cells_example 1 = {3}" "seq_positions kv_cells_example 0 = {}"
    by (simp_all add: seq_positions_filter kv_cells_example_def upt_rec)
  with kv_queries_scan [OF kv_cells_example_inv, of 1] kv_queries_scan [OF kv_cells_example_inv, of 0]
  show ?thesis by (simp add: LLAMA_MAX_SEQ_def)
qed

text \<open>The used-cell bounds: \<open>get_used\<close> is the number of non-empty cells, and every non-empty
  cell lies in \<open>[used_min, used_max_p1)\<close>, the window the attention kernels read.\<close>

theorem kv_used_window:
  assumes "kv_cells_inv c"
  shows "kv_cells_get_used c = card {i. i < length (kc_pos c) \<and> kc_pos c ! i \<noteq> -1} \<and>
    kv_cells_used_max_p1 c \<le> length (kc_pos c) \<and>
    (\<forall>i < length (kc_pos c). kc_pos c ! i \<noteq> -1 \<longrightarrow>
       kv_cells_used_min c \<le> i \<and> i < kv_cells_used_max_p1 c)"
proof -
  have u: "kc_used c = {i. i < length (kc_pos c) \<and> kc_pos c ! i \<noteq> -1}"
    using kv_cells_invD(7) [OF assms] .
  then have f: "finite (kc_used c)" by simp
  have "Max (kc_used c) < length (kc_pos c)" if "kc_used c \<noteq> {}"
    using Max_in [OF f that] u by blast
  moreover have "Min (kc_used c) \<le> i \<and> i \<le> Max (kc_used c)" if "i \<in> kc_used c" for i
    using f that by simp
  ultimately show ?thesis unfolding kv_cells_get_used_def kv_cells_used_max_p1_def kv_cells_used_min_def
    using u by (auto simp: Suc_le_eq less_Suc_eq_le)
qed

theorem kv_used_window_witness: "kv_cells_used_max_p1 kv_cells_example \<le> 2"
  using kv_used_window [OF kv_cells_example_inv] by (simp add: kv_cells_example_def)

text \<open>C33: Saving and restoring cells round-trips. A copy of the cells \<open>[i, i + n)\<close> of an object,
  written back over an object that differs from it in those cells only, both without pending shifts
  in those cells, gives back every
  position, extension and sequence set and all three indices. This is what undoing a
  provisional batch placement relies on.\<close>

theorem kv_cp_set_roundtrip:
  assumes c: "kv_cells_inv c" and c': "kv_cells_inv c'"
    and len: "length (kc_pos c') = length (kc_pos c)" and n: "i + n \<le> length (kc_pos c)"
    and out: "\<And>j. j < length (kc_pos c) \<Longrightarrow> j < i \<or> i + n \<le> j \<Longrightarrow>
       kc_pos c' ! j = kc_pos c ! j \<and> kc_ext c' ! j = kc_ext c ! j \<and> kc_seq c' ! j = kc_seq c ! j"
    and sh: "\<And>j. j < n \<Longrightarrow> kc_shift c ! (i + j) = 0 \<and> kc_shift c' ! (i + j) = 0"
  shows "\<exists>r c''. kv_cells_cp c i n = Inr r \<and> kv_cells_set c' i r = Inr c'' \<and>
    kc_pos c'' = kc_pos c \<and> kc_ext c'' = kc_ext c \<and> kc_seq c'' = kc_seq c \<and>
    kc_used c'' = kc_used c \<and>
    (\<forall>s < LLAMA_MAX_SEQ. kc_seq_pos c'' s = kc_seq_pos c s \<and> kc_seq_used c'' s = kc_seq_used c s)"
proof -
  note d = kv_cells_invD [OF c] and d' = kv_cells_invD [OF c']
  obtain r where r: "kv_cells_cp c i n = Inr r" "kc_pos r = map (\<lambda>j. kc_pos c ! (i + j)) [0..<n]"
    "kc_ext r = map (\<lambda>j. kc_ext c ! (i + j)) [0..<n]" "kc_seq r = map (\<lambda>j. kc_seq c ! (i + j)) [0..<n]"
    using kv_cells_cp_eq [OF n, of] sh by blast
  have "saved_cells_ok r" using r(2-4) d n by (simp add: saved_cells_ok_def)
  with kv_cells_set_inv [OF c', of i r] r(2) n len sh obtain c'' where
    c'': "kv_cells_set c' i r = Inr c''" "kv_cells_inv c''"
    "kc_pos c'' = take i (kc_pos c') @ kc_pos r @ drop (i + n) (kc_pos c')"
    "kc_seq c'' = take i (kc_seq c') @ kc_seq r @ drop (i + n) (kc_seq c')"
    "kc_ext c'' = take i (kc_ext c') @ kc_ext r @ drop (i + n) (kc_ext c')" by auto
  have eq: "kc_pos c'' = kc_pos c" "kc_ext c'' = kc_ext c" "kc_seq c'' = kc_seq c"
    unfolding c''(3-5) r(2-4) by (rule splice_eq; use n len d d' out in auto)+
  have l: "kv_cells_list c'' = kv_cells_list c" by (simp add: kv_cells_list_def eq)
  have "kc_used c'' = kc_used c" using kv_cells_invD(7) [OF c''(2)] d(7) eq by simp
  moreover have "kc_seq_pos c'' s = kc_seq_pos c s \<and> kc_seq_used c'' s = kc_seq_used c s"
    if "s < LLAMA_MAX_SEQ" for s
    using kv_cells_invD(8) [OF c''(2)] d(8) that unfolding l by (simp add: index_ok_def fun_eq_iff)
  ultimately show ?thesis using r(1) c''(1) eq by blast
qed

theorem kv_cp_set_roundtrip_witness:
  "\<exists>r c''. kv_cells_cp kv_cells_example 0 2 = Inr r \<and>
     kv_cells_set (kv_cells_resize 2 kv_cells_empty) 0 r = Inr c'' \<and> kc_pos c'' = [3, -1] \<and> kc_seq c'' = [{1}, {}]"
proof -
  have z: "kc_shift (kv_cells_resize 2 kv_cells_empty) = [0, 0]" "length (kc_pos (kv_cells_resize 2 kv_cells_empty)) = 2"
    by (simp_all add: kv_cells_resize_def kv_cells_reset_def kv_cells_empty_def vec_resize_def numeral_2_eq_2)
  have "\<exists>r c''. kv_cells_cp kv_cells_example 0 2 = Inr r \<and>
     kv_cells_set (kv_cells_resize 2 kv_cells_empty) 0 r = Inr c'' \<and>
     kc_pos c'' = kc_pos kv_cells_example \<and> kc_ext c'' = kc_ext kv_cells_example \<and>
     kc_seq c'' = kc_seq kv_cells_example \<and> kc_used c'' = kc_used kv_cells_example \<and>
     (\<forall>s < LLAMA_MAX_SEQ. kc_seq_pos c'' s = kc_seq_pos kv_cells_example s \<and>
        kc_seq_used c'' s = kc_seq_used kv_cells_example s)"
    by (rule kv_cp_set_roundtrip [OF kv_cells_example_inv kv_cells_resize_inv])
      (auto simp: z kv_cells_example_def dest!: less_2_cases)
  then show ?thesis by (auto simp: kv_cells_example_def)
qed

text \<open>\<open>seq_keep\<close> asserts that a cell with no sequence is empty, so it fails on a used cell that
  no sequence owns, although the comment on \<open>used\<close> allows used cells without a sequence id.\<close>

theorem seq_keep_unowned_asserts:
  assumes "i < length (kc_pos c)" and "kc_pos c ! i \<noteq> -1" and "kc_seq c ! i = {}" and "s < LLAMA_MAX_SEQ"
  shows "kv_cells_seq_keep i (int s) c = Inl Assert_fail"
  using assms by (simp add: kv_cells_seq_keep_def assert_r_def)

theorem seq_keep_unowned_asserts_witness:
  "kv_cells_seq_keep 1 0 (kv_cells_example\<lparr>kc_pos := [3, 4], kc_used := {0, 1}\<rparr>) = Inl Assert_fail"
  using seq_keep_unowned_asserts [of 1 "kv_cells_example\<lparr>kc_pos := [3, 4], kc_used := {0, 1}\<rparr>" 0]
  by (simp add: kv_cells_example_def LLAMA_MAX_SEQ_def)

end
