(* ===== verification/TailPlan.thy ===== *)
theory TailPlan
  imports Prelude
begin

text \<open>
  The pure planning half of the exact KV tail, \<^verbatim>\<open>src/llama-kv-cache-tail.cpp\<close> up to the
  store class: arena layouts with their overflow checks, the coalescing of slots into runs, the
  choice of attention route, tail type and storage kind, the ownership contract of a layer, the
  selection of masked entries and, from the header, the union of sliding-window rows. The type
  enumeration and \<^verbatim>\<open>ggml_is_quantized\<close> come from \<^verbatim>\<open>ggml\<close>, the window test
  \<^verbatim>\<open>is_masked_swa\<close> from \<^verbatim>\<open>src/llama-hparams.h\<close>.
\<close>

section \<open>Tensor types\<close>

datatype ggml_type =
    GGML_TYPE_F32 | GGML_TYPE_F16 | GGML_TYPE_Q4_0 | GGML_TYPE_Q4_1 | GGML_TYPE_Q5_0
  | GGML_TYPE_Q5_1 | GGML_TYPE_Q8_0 | GGML_TYPE_Q8_1 | GGML_TYPE_Q2_K | GGML_TYPE_Q3_K
  | GGML_TYPE_Q4_K | GGML_TYPE_Q5_K | GGML_TYPE_Q6_K | GGML_TYPE_Q8_K | GGML_TYPE_IQ2_XXS
  | GGML_TYPE_IQ2_XS | GGML_TYPE_IQ3_XXS | GGML_TYPE_IQ1_S | GGML_TYPE_IQ4_NL | GGML_TYPE_IQ3_S
  | GGML_TYPE_IQ2_S | GGML_TYPE_IQ4_XS | GGML_TYPE_I8 | GGML_TYPE_I16 | GGML_TYPE_I32
  | GGML_TYPE_I64 | GGML_TYPE_F64 | GGML_TYPE_IQ1_M | GGML_TYPE_BF16 | GGML_TYPE_TQ1_0
  | GGML_TYPE_TQ2_0 | GGML_TYPE_MXFP4 | GGML_TYPE_NVFP4 | GGML_TYPE_Q1_0 | GGML_TYPE_Q2_0
  | GGML_TYPE_Q6_0 | GGML_TYPE_Q6_1 | GGML_TYPE_Q3_0 | GGML_TYPE_Q3_1 | GGML_TYPE_Q2_0S
  | GGML_TYPE_Q2_1 | GGML_TYPE_COUNT

text \<open>The \<^verbatim>\<open>is_quantized\<close> column of \<^verbatim>\<open>type_traits\<close> is true on every row but the floating-point
  and integer ones; the sentinel \<^verbatim>\<open>GGML_TYPE_COUNT\<close> has no row and fails the assertion.\<close>

definition ggml_is_quantized :: "ggml_type \<Rightarrow> bool res" where
  "ggml_is_quantized t =
     assert_r (t \<noteq> GGML_TYPE_COUNT)
       (Inr (t \<notin> {GGML_TYPE_I8, GGML_TYPE_I16, GGML_TYPE_I32, GGML_TYPE_I64, GGML_TYPE_F64,
                  GGML_TYPE_F32, GGML_TYPE_F16, GGML_TYPE_BF16}))"

section \<open>Arena sizes\<close>

text \<open>Every count below is an unsigned value of the source's width; the products and sums are
  formed in 64 bits there, where two 32-bit operands cannot overflow.\<close>

definition checked_tail_slot_count :: "nat \<Rightarrow> nat \<Rightarrow> nat \<Rightarrow> nat res" where
  "checked_tail_slot_count arena_stride n_seq_max sink_slots =
     (let total = arena_stride * n_seq_max + sink_slots in
      if total > INT32_MAX then Inl Overflow_error else Inr (u32 total))"

definition checked_tail_history_limit :: "nat \<Rightarrow> nat \<Rightarrow> nat res" where
  "checked_tail_history_limit n_tokens rollback_tokens =
     (let total = n_tokens + rollback_tokens in
      if total > UINT32_MAX then Inl Overflow_error else Inr (u32 total))"

record llama_kv_tail_layout =
  arena_stride :: nat
  sink_slots :: nat
  total_slots :: nat

record llama_kv_tail_compact_layout =
  history_stride :: nat
  history_slots :: nat
  cl_rollback_tokens :: nat
  attention_stride :: nat

definition tail_fa_stride :: nat where
  "tail_fa_stride = 256"

definition llama_kv_tail_layout_for :: "nat \<Rightarrow> nat \<Rightarrow> nat \<Rightarrow> llama_kv_tail_layout res" where
  "llama_kv_tail_layout_for n_tokens n_seq_max n_ubatch =
     (let arena_need = n_tokens + n_ubatch;
          arena_rounded = ((arena_need + tail_fa_stride - 1) div tail_fa_stride) * tail_fa_stride
      in if arena_rounded > INT32_MAX then Inl Overflow_error
         else let sink = (if n_seq_max > 1 then n_ubatch else 0)
              in bind_r (checked_tail_slot_count (u32 arena_rounded) n_seq_max sink) (\<lambda>total.
                 Inr \<lparr>arena_stride = u32 arena_rounded, sink_slots = sink, total_slots = total\<rparr>))"

definition llama_kv_tail_compact_layout_for ::
    "nat \<Rightarrow> nat \<Rightarrow> nat \<Rightarrow> nat \<Rightarrow> llama_kv_tail_compact_layout res" where
  "llama_kv_tail_compact_layout_for n_tokens rollback n_seq_max n_ubatch =
     (let hs = n_tokens + rollback; as = n_tokens + n_ubatch
      in if hs > INT32_MAX then Inl Overflow_error
         else if as > INT32_MAX then Inl Overflow_error
         else bind_r (checked_tail_slot_count (u32 hs) n_seq_max 0) (\<lambda>slots.
           Inr \<lparr>history_stride = u32 hs, history_slots = slots, cl_rollback_tokens = rollback,
                attention_stride = u32 as\<rparr>))"

definition checked_tail_bytes :: "nat \<Rightarrow> nat \<Rightarrow> nat res" where
  "checked_tail_bytes rows bytes_per_row =
     (if bytes_per_row \<noteq> 0 \<and> rows > UINT64_MAX div bytes_per_row then Inl Overflow_error
      else Inr (u64 (rows * bytes_per_row)))"

text \<open>Conversion of an unsigned 32-bit value to \<^verbatim>\<open>int32_t\<close>.\<close>

definition i32_of_u32 :: "nat \<Rightarrow> int" where
  "i32_of_u32 n = (if n < 2 ^ 31 then int n else int n - 2 ^ 32)"

definition llama_kv_tail_can_remove_suffix :: "int \<Rightarrow> int \<Rightarrow> int \<Rightarrow> nat \<Rightarrow> bool" where
  "llama_kv_tail_can_remove_suffix pos_max p0 p1 rollback_tokens =
     (if p0 \<le> 0 \<and> p1 < 0 then True
      else if p0 \<le> 0 \<or> p1 \<ge> 0 then False
      else if pos_max < p0 then True
      else let rollback = pos_max - (p0 - 1)
           in rollback \<ge> 1 \<and> rollback \<le> i32_of_u32 rollback_tokens)"

definition llama_kv_tail_sparse_body_capacity_safe :: "nat \<Rightarrow> nat \<Rightarrow> bool" where
  "llama_kv_tail_sparse_body_capacity_safe physical_stream_rows stride =
     (stride > 0 \<and> physical_stream_rows \<le> stride)"

unbundle bit_operations_syntax

definition llama_kv_tail_packed_body_stride :: "nat \<Rightarrow> nat \<Rightarrow> nat res" where
  "llama_kv_tail_packed_body_stride logical_rows alignment =
     (if alignment = 0 \<or> alignment AND (alignment - 1) \<noteq> 0 then Inl Invalid_argument
      else if logical_rows > UINT64_MAX - (alignment - 1) then Inl Overflow_error
      else let aligned = u64 (logical_rows + alignment - 1) div alignment * alignment
           in if aligned > UINT32_MAX then Inl Overflow_error else Inr (u32 aligned))"

section \<open>Runs of contiguous slots\<close>

record llama_kv_tail_slot_run =
  payload_begin :: nat
  slot_begin :: int
  run_length :: nat

text \<open>One iteration of the loop over the payload indices from 1: the last run grows or a new one
  starts.\<close>

definition slot_runs_step ::
    "int list \<Rightarrow> nat \<Rightarrow> llama_kv_tail_slot_run list \<Rightarrow> llama_kv_tail_slot_run list" where
  "slot_runs_step slots payload runs =
     (if slots ! payload = slots ! (payload - 1) + 1
      then butlast runs @ [(last runs)\<lparr>run_length := run_length (last runs) + 1\<rparr>]
      else runs @ [\<lparr>payload_begin = u32 payload, slot_begin = slots ! payload, run_length = 1\<rparr>])"

fun slot_runs_checked :: "nat \<Rightarrow> llama_kv_tail_slot_run list \<Rightarrow> nat res" where
  "slot_runs_checked n [] = Inr n"
| "slot_runs_checked n (r # rs) =
     assert_r (run_length r > 0) (assert_r (payload_begin r = n)
       (slot_runs_checked (n + run_length r) rs))"

definition llama_kv_tail_contiguous_slot_runs :: "int list \<Rightarrow> llama_kv_tail_slot_run list res" where
  "llama_kv_tail_contiguous_slot_runs slots =
     (if slots = [] then Inr []
      else let runs = fold (slot_runs_step slots) [1..<length slots]
             [\<lparr>payload_begin = 0, slot_begin = slots ! 0, run_length = 1\<rparr>]
      in bind_r (slot_runs_checked 0 runs) (\<lambda>n. assert_r (n = length slots) (Inr runs)))"

section \<open>Group token resolution\<close>

record llama_kv_tail_group_request =
  gr_requested_tokens :: nat
  gr_effective_window :: nat
  gr_applicable_standard_kv :: bool

record llama_kv_tail_group_resolution =
  gres_valid :: bool
  gres_tokens :: "nat list"

definition llama_kv_tail_resolve_groups ::
    "bool \<Rightarrow> bool \<Rightarrow> llama_kv_tail_group_request list \<Rightarrow> llama_kv_tail_group_resolution" where
  "llama_kv_tail_resolve_groups automatic explicit_complete groups =
     (if \<not> (automatic \<or> explicit_complete)
      then \<lparr>gres_valid = False, gres_tokens = replicate (length groups) 0\<rparr>
      else \<lparr>gres_valid = True, gres_tokens =
        map (\<lambda>g. if gr_applicable_standard_kv g
                 then min (if automatic then 1024 else gr_requested_tokens g) (gr_effective_window g)
                 else 0) groups\<rparr>)"

section \<open>Attention route and tail type\<close>

datatype llama_kv_tail_route =
    LLAMA_KV_TAIL_ROUTE_NONE | LLAMA_KV_TAIL_ROUTE_NATIVE | LLAMA_KV_TAIL_ROUTE_GENERIC

datatype llama_kv_tail_operation =
    LLAMA_KV_TAIL_OP_NONE | LLAMA_KV_TAIL_OP_WRITE_K | LLAMA_KV_TAIL_OP_WRITE_V
  | LLAMA_KV_TAIL_OP_GATHER_K | LLAMA_KV_TAIL_OP_GATHER_V | LLAMA_KV_TAIL_OP_BODY_SCORE
  | LLAMA_KV_TAIL_OP_BODY_VALUE | LLAMA_KV_TAIL_OP_EXACT_SCORE | LLAMA_KV_TAIL_OP_EXACT_VALUE
  | LLAMA_KV_TAIL_OP_GENERIC_MERGE | LLAMA_KV_TAIL_OP_NATIVE_ATTENTION

record llama_kv_tail_route_requirements =
  rq_write_k :: bool
  rq_write_v :: bool
  rq_gather_k :: bool
  rq_gather_v :: bool
  rq_body_score :: bool
  rq_body_value :: bool
  rq_exact_score :: bool
  rq_exact_value :: bool
  rq_generic_merge :: bool
  rq_native_attention :: bool

record llama_kv_tail_route_capability =
  cap_supported :: bool
  cap_route :: llama_kv_tail_route
  cap_missing :: llama_kv_tail_operation

definition route_generic :: "llama_kv_tail_route_requirements \<Rightarrow> (bool \<times> llama_kv_tail_operation) list" where
  "route_generic r =
     [(rq_gather_k r, LLAMA_KV_TAIL_OP_GATHER_K), (rq_gather_v r, LLAMA_KV_TAIL_OP_GATHER_V),
      (rq_body_score r, LLAMA_KV_TAIL_OP_BODY_SCORE), (rq_body_value r, LLAMA_KV_TAIL_OP_BODY_VALUE),
      (rq_exact_score r, LLAMA_KV_TAIL_OP_EXACT_SCORE), (rq_exact_value r, LLAMA_KV_TAIL_OP_EXACT_VALUE),
      (rq_generic_merge r, LLAMA_KV_TAIL_OP_GENERIC_MERGE)]"

definition llama_kv_tail_select_route ::
    "llama_kv_tail_route_requirements \<Rightarrow> llama_kv_tail_route_capability" where
  "llama_kv_tail_select_route r =
     (let missing_write = (if \<not> rq_write_k r then LLAMA_KV_TAIL_OP_WRITE_K
                           else if \<not> rq_write_v r then LLAMA_KV_TAIL_OP_WRITE_V
                           else LLAMA_KV_TAIL_OP_NONE)
      in if missing_write \<noteq> LLAMA_KV_TAIL_OP_NONE
         then \<lparr>cap_supported = False, cap_route = LLAMA_KV_TAIL_ROUTE_NONE, cap_missing = missing_write\<rparr>
         else if rq_native_attention r
         then \<lparr>cap_supported = True, cap_route = LLAMA_KV_TAIL_ROUTE_NATIVE,
               cap_missing = LLAMA_KV_TAIL_OP_NONE\<rparr>
         else case find (\<lambda>q. \<not> fst q) (route_generic r) of
           Some q \<Rightarrow> \<lparr>cap_supported = False, cap_route = LLAMA_KV_TAIL_ROUTE_NONE, cap_missing = snd q\<rparr>
         | None \<Rightarrow> \<lparr>cap_supported = True, cap_route = LLAMA_KV_TAIL_ROUTE_GENERIC,
                    cap_missing = LLAMA_KV_TAIL_OP_NONE\<rparr>)"

fun llama_kv_tail_operation_name :: "llama_kv_tail_operation \<Rightarrow> string" where
  "llama_kv_tail_operation_name LLAMA_KV_TAIL_OP_NONE = ''none''"
| "llama_kv_tail_operation_name LLAMA_KV_TAIL_OP_WRITE_K = ''K body/exact write''"
| "llama_kv_tail_operation_name LLAMA_KV_TAIL_OP_WRITE_V = ''V body/exact write''"
| "llama_kv_tail_operation_name LLAMA_KV_TAIL_OP_GATHER_K = ''exact K gather''"
| "llama_kv_tail_operation_name LLAMA_KV_TAIL_OP_GATHER_V = ''exact V gather''"
| "llama_kv_tail_operation_name LLAMA_KV_TAIL_OP_BODY_SCORE = ''body K score''"
| "llama_kv_tail_operation_name LLAMA_KV_TAIL_OP_BODY_VALUE = ''body V reduction''"
| "llama_kv_tail_operation_name LLAMA_KV_TAIL_OP_EXACT_SCORE = ''exact K score''"
| "llama_kv_tail_operation_name LLAMA_KV_TAIL_OP_EXACT_VALUE = ''exact V reduction''"
| "llama_kv_tail_operation_name LLAMA_KV_TAIL_OP_GENERIC_MERGE = ''generic softmax merge''"
| "llama_kv_tail_operation_name LLAMA_KV_TAIL_OP_NATIVE_ATTENTION = ''native attached-tail attention''"

record llama_kv_tail_type_resolution =
  tr_supported :: bool
  tr_actual_type :: ggml_type
  tr_downgraded :: bool
  tr_missing_preferred :: llama_kv_tail_operation
  tr_missing_fallback :: llama_kv_tail_operation

definition llama_kv_tail_resolve_type ::
    "ggml_type \<Rightarrow> ggml_type \<Rightarrow> llama_kv_tail_route_capability \<Rightarrow> llama_kv_tail_route_capability \<Rightarrow>
     llama_kv_tail_type_resolution res" where
  "llama_kv_tail_resolve_type requested family_default bf16 f16 =
     (if requested \<noteq> GGML_TYPE_COUNT \<and> requested \<noteq> GGML_TYPE_BF16 \<and> requested \<noteq> GGML_TYPE_F16
      then Inl Invalid_argument
      else if family_default \<noteq> GGML_TYPE_BF16 \<and> family_default \<noteq> GGML_TYPE_F16
      then Inl Invalid_argument
      else
        let automatic = (requested = GGML_TYPE_COUNT);
            preferred = (if automatic then family_default else requested);
            cap = (if preferred = GGML_TYPE_BF16 then bf16 else f16)
        in if cap_supported cap
           then Inr \<lparr>tr_supported = True, tr_actual_type = preferred, tr_downgraded = False,
                     tr_missing_preferred = LLAMA_KV_TAIL_OP_NONE,
                     tr_missing_fallback = LLAMA_KV_TAIL_OP_NONE\<rparr>
           else if automatic \<and> preferred = GGML_TYPE_BF16 \<and> cap_supported f16
           then Inr \<lparr>tr_supported = True, tr_actual_type = GGML_TYPE_F16, tr_downgraded = True,
                     tr_missing_preferred = cap_missing cap,
                     tr_missing_fallback = LLAMA_KV_TAIL_OP_NONE\<rparr>
           else Inr \<lparr>tr_supported = False, tr_actual_type = GGML_TYPE_COUNT, tr_downgraded = False,
                     tr_missing_preferred = cap_missing cap,
                     tr_missing_fallback =
                       (if automatic \<and> preferred = GGML_TYPE_BF16 then cap_missing f16
                        else LLAMA_KV_TAIL_OP_NONE)\<rparr>)"

section \<open>Layer ownership\<close>

text \<open>Owner tokens are opaque numbers; zero is no tensor.\<close>

record llama_kv_tail_layer_ownership =
  ow_layer_id :: nat
  ow_body_k :: nat
  ow_body_v :: nat
  ow_shadow_k :: nat
  ow_shadow_v :: nat
  ow_graph_write :: nat
  ow_graph_read :: nat
  ow_state_k :: nat
  ow_state_v :: nat
  ow_body_k_meta_split :: bool
  ow_body_v_meta_split :: bool

datatype llama_kv_tail_ownership_error =
    LLAMA_KV_TAIL_OWNERSHIP_OK | LLAMA_KV_TAIL_OWNERSHIP_META_SPLIT_K
  | LLAMA_KV_TAIL_OWNERSHIP_META_SPLIT_V | LLAMA_KV_TAIL_OWNERSHIP_SHADOW_K
  | LLAMA_KV_TAIL_OWNERSHIP_SHADOW_V | LLAMA_KV_TAIL_OWNERSHIP_GRAPH_WRITE
  | LLAMA_KV_TAIL_OWNERSHIP_GRAPH_READ | LLAMA_KV_TAIL_OWNERSHIP_STATE_K
  | LLAMA_KV_TAIL_OWNERSHIP_STATE_V

definition llama_kv_tail_validate_layer_ownership ::
    "llama_kv_tail_layer_ownership \<Rightarrow> llama_kv_tail_ownership_error" where
  "llama_kv_tail_validate_layer_ownership w =
     (if ow_shadow_k w \<noteq> 0 \<and> ow_shadow_k w \<noteq> ow_body_k w then LLAMA_KV_TAIL_OWNERSHIP_SHADOW_K
      else if ow_shadow_v w \<noteq> 0 \<and> ow_shadow_v w \<noteq> ow_body_v w then LLAMA_KV_TAIL_OWNERSHIP_SHADOW_V
      else if ow_graph_write w \<noteq> ow_body_k w \<or>
              (ow_body_v w \<noteq> 0 \<and> ow_graph_write w \<noteq> ow_body_v w)
      then LLAMA_KV_TAIL_OWNERSHIP_GRAPH_WRITE
      else if ow_graph_read w \<noteq> ow_body_k w \<or>
              (ow_body_v w \<noteq> 0 \<and> ow_graph_read w \<noteq> ow_body_v w)
      then LLAMA_KV_TAIL_OWNERSHIP_GRAPH_READ
      else if ow_state_k w \<noteq> ow_body_k w then LLAMA_KV_TAIL_OWNERSHIP_STATE_K
      else if ow_body_v w \<noteq> 0 \<and> ow_state_v w \<noteq> ow_body_v w then LLAMA_KV_TAIL_OWNERSHIP_STATE_V
      else LLAMA_KV_TAIL_OWNERSHIP_OK)"

definition llama_kv_tail_plan_layer_ownership ::
    "nat \<Rightarrow> nat \<Rightarrow> nat \<Rightarrow> bool \<Rightarrow> bool \<Rightarrow> llama_kv_tail_layer_ownership" where
  "llama_kv_tail_plan_layer_ownership layer_id body_k body_v shadow_k shadow_v =
     \<lparr>ow_layer_id = layer_id, ow_body_k = body_k, ow_body_v = body_v,
      ow_shadow_k = (if shadow_k then body_k else 0),
      ow_shadow_v = (if shadow_v then body_v else 0),
      ow_graph_write = body_k, ow_graph_read = body_k, ow_state_k = body_k, ow_state_v = body_v,
      ow_body_k_meta_split = False, ow_body_v_meta_split = False\<rparr>"

section \<open>The storage plan\<close>

datatype llama_kv_tail_storage_kind =
    LLAMA_KV_TAIL_STORAGE_DISABLED | LLAMA_KV_TAIL_STORAGE_OVERLAY
  | LLAMA_KV_TAIL_STORAGE_NATIVE_EXACT | LLAMA_KV_TAIL_STORAGE_COMPACT_OVERLAY
  | LLAMA_KV_TAIL_STORAGE_COMPACT_NATIVE_EXACT

text \<open>The strings that only appear in the text of an exception (\<^verbatim>\<open>architecture\<close>,
  \<^verbatim>\<open>group_id\<close>) are left out of the request, and the plan's list of layer routes, which the
  planner leaves empty, out of the plan.\<close>

record llama_kv_tail_storage_request =
  sr_body_type_k :: ggml_type
  sr_body_type_v :: ggml_type
  sr_exact_type :: ggml_type
  sr_requested_tokens :: nat
  sr_effective_tokens :: nat
  sr_n_seq_max :: nat
  sr_n_ubatch :: nat
  sr_visibility_window :: nat
  sr_physical_body_rows :: nat
  sr_requested_body_bytes_per_row :: nat
  sr_promotion_bytes_per_row :: nat
  sr_overlay_bytes_per_row :: nat
  sr_native_capable :: bool
  sr_already_exact :: bool
  sr_has_owned_body :: bool
  sr_has_shared_body :: bool
  sr_shadow_k_capable :: bool
  sr_shadow_v_capable :: bool
  sr_graph_consumes_exact_tail :: bool
  sr_overlay_placement_supported :: bool
  sr_rollback_tokens :: nat
  sr_compact_history_capable :: bool
  sr_compact_current_source_capable :: bool
  sr_compact_ordered_commit_capable :: bool
  sr_full_window_body_can_be_omitted :: bool

record llama_kv_tail_storage_plan =
  sp_kind :: llama_kv_tail_storage_kind
  sp_requested_tokens :: nat
  sp_effective_tokens :: nat
  sp_visibility_window :: nat
  sp_requested_body_type_k :: ggml_type
  sp_requested_body_type_v :: ggml_type
  sp_actual_body_type_k :: ggml_type
  sp_actual_body_type_v :: ggml_type
  sp_shadow_k :: bool
  sp_shadow_v :: bool
  sp_shadow_type_k :: ggml_type
  sp_shadow_type_v :: ggml_type
  sp_physical_body_rows :: nat
  sp_layout :: llama_kv_tail_layout
  sp_requested_body_bytes :: nat
  sp_actual_body_bytes :: nat
  sp_shadow_bytes :: nat
  sp_promotion_increment :: nat
  sp_overlay_increment :: nat
  sp_has_owned_body :: bool
  sp_has_shared_body :: bool
  sp_body_promoted :: bool
  sp_graph_consumes_exact_tail :: bool
  sp_compact_layout :: llama_kv_tail_compact_layout
  sp_compact_history_bytes :: nat
  sp_compact_rollback_bytes :: nat

text \<open>The aggregate initialiser at the head of the planner, with \<^verbatim>\<open>actual_body_bytes\<close> set to
  the requested bytes.\<close>

definition storage_plan_init :: "llama_kv_tail_storage_request \<Rightarrow> nat \<Rightarrow> llama_kv_tail_storage_plan" where
  "storage_plan_init rq body_bytes =
     \<lparr>sp_kind = LLAMA_KV_TAIL_STORAGE_DISABLED,
      sp_requested_tokens = sr_requested_tokens rq,
      sp_effective_tokens = sr_effective_tokens rq,
      sp_visibility_window = sr_visibility_window rq,
      sp_requested_body_type_k = sr_body_type_k rq,
      sp_requested_body_type_v = sr_body_type_v rq,
      sp_actual_body_type_k = sr_body_type_k rq,
      sp_actual_body_type_v = sr_body_type_v rq,
      sp_shadow_k = False, sp_shadow_v = False,
      sp_shadow_type_k = GGML_TYPE_COUNT, sp_shadow_type_v = GGML_TYPE_COUNT,
      sp_physical_body_rows = sr_physical_body_rows rq,
      sp_layout = \<lparr>arena_stride = 0, sink_slots = 0, total_slots = 0\<rparr>,
      sp_requested_body_bytes = body_bytes, sp_actual_body_bytes = body_bytes,
      sp_shadow_bytes = 0, sp_promotion_increment = 0, sp_overlay_increment = 0,
      sp_has_owned_body = sr_has_owned_body rq, sp_has_shared_body = sr_has_shared_body rq,
      sp_body_promoted = False,
      sp_graph_consumes_exact_tail = sr_graph_consumes_exact_tail rq,
      sp_compact_layout = \<lparr>history_stride = 0, history_slots = 0, cl_rollback_tokens = 0,
                           attention_stride = 0\<rparr>,
      sp_compact_history_bytes = 0, sp_compact_rollback_bytes = 0\<rparr>"

text \<open>The layouts and byte counts the planner computes before it chooses a kind.\<close>

definition storage_plan_sizes ::
    "llama_kv_tail_storage_request \<Rightarrow> llama_kv_tail_storage_plan \<Rightarrow> llama_kv_tail_storage_plan res" where
  "storage_plan_sizes rq p =
     bind_r (llama_kv_tail_layout_for (sr_effective_tokens rq) (sr_n_seq_max rq) (sr_n_ubatch rq)) (\<lambda>lay.
     bind_r (llama_kv_tail_compact_layout_for (sr_effective_tokens rq) (sr_rollback_tokens rq)
               (sr_n_seq_max rq) (sr_n_ubatch rq)) (\<lambda>clay.
     bind_r (checked_tail_bytes (sr_physical_body_rows rq) (sr_promotion_bytes_per_row rq)) (\<lambda>promo.
     bind_r (checked_tail_bytes (total_slots lay) (sr_overlay_bytes_per_row rq)) (\<lambda>over.
     bind_r (checked_tail_bytes (history_slots clay) (sr_overlay_bytes_per_row rq)) (\<lambda>hist.
     bind_r (checked_tail_bytes (u64 (sr_rollback_tokens rq * sr_n_seq_max rq))
               (sr_overlay_bytes_per_row rq)) (\<lambda>roll.
     Inr (p\<lparr>sp_layout := lay, sp_compact_layout := clay, sp_promotion_increment := promo,
            sp_overlay_increment := over, sp_compact_history_bytes := hist,
            sp_compact_rollback_bytes := roll\<rparr>)))))))"

definition promoted_type :: "llama_kv_tail_storage_request \<Rightarrow> ggml_type \<Rightarrow> ggml_type res" where
  "promoted_type rq t =
     bind_r (ggml_is_quantized t) (\<lambda>q. Inr (if q then sr_exact_type rq else t))"

text \<open>The guards shared by both overlay kinds.\<close>

definition overlay_guard :: "llama_kv_tail_storage_request \<Rightarrow> 'a res \<Rightarrow> 'a res" where
  "overlay_guard rq m =
     (if \<not> sr_graph_consumes_exact_tail rq then Inl Invalid_argument
      else if \<not> sr_overlay_placement_supported rq then Inl Invalid_argument else m)"

text \<open>The fields both overlay kinds and the compact native kind set for the exact shadow.\<close>

definition storage_shadow ::
    "llama_kv_tail_storage_request \<Rightarrow> ggml_type \<Rightarrow> ggml_type \<Rightarrow> nat \<Rightarrow>
     llama_kv_tail_storage_plan \<Rightarrow> llama_kv_tail_storage_plan" where
  "storage_shadow rq pk pv bytes p = p\<lparr>
     sp_shadow_k := sr_shadow_k_capable rq,
     sp_shadow_v := sr_shadow_v_capable rq,
     sp_shadow_type_k := (if sr_shadow_k_capable rq then pk else GGML_TYPE_COUNT),
     sp_shadow_type_v := (if sr_shadow_v_capable rq then pv else GGML_TYPE_COUNT),
     sp_shadow_bytes := bytes\<rparr>"

definition storage_promote ::
    "llama_kv_tail_storage_request \<Rightarrow> ggml_type \<Rightarrow> ggml_type \<Rightarrow>
     llama_kv_tail_storage_plan \<Rightarrow> llama_kv_tail_storage_plan" where
  "storage_promote rq pk pv p = p\<lparr>
     sp_actual_body_type_k := pk,
     sp_actual_body_type_v := pv,
     sp_body_promoted := (pk \<noteq> sr_body_type_k rq \<or> pv \<noteq> sr_body_type_v rq)\<rparr>"

definition storage_plan_compact ::
    "llama_kv_tail_storage_request \<Rightarrow> ggml_type \<Rightarrow> ggml_type \<Rightarrow> bool \<Rightarrow>
     llama_kv_tail_storage_plan \<Rightarrow> llama_kv_tail_storage_plan res" where
  "storage_plan_compact rq pk pv full_visibility p =
     (if full_visibility \<and> sr_full_window_body_can_be_omitted rq
      then Inr ((storage_shadow rq pk pv (sp_compact_history_bytes p) (storage_promote rq pk pv p))\<lparr>
             sp_kind := LLAMA_KV_TAIL_STORAGE_COMPACT_NATIVE_EXACT,
             sp_actual_body_bytes := 0,
             sp_has_owned_body := False, sp_has_shared_body := False\<rparr>)
      else overlay_guard rq
        (Inr ((storage_shadow rq pk pv (sp_compact_history_bytes p) p)\<lparr>
           sp_kind := LLAMA_KV_TAIL_STORAGE_COMPACT_OVERLAY\<rparr>)))"

definition storage_plan_standard ::
    "llama_kv_tail_storage_request \<Rightarrow> ggml_type \<Rightarrow> ggml_type \<Rightarrow> bool \<Rightarrow>
     llama_kv_tail_storage_plan \<Rightarrow> llama_kv_tail_storage_plan res" where
  "storage_plan_standard rq pk pv full_visibility p =
     (let use_native = (sr_already_exact rq \<or>
            (full_visibility \<and> sr_native_capable rq \<and>
             sp_promotion_increment p \<le> sp_overlay_increment p))
      in if use_native
         then if sp_promotion_increment p > UINT64_MAX - sp_requested_body_bytes p
              then Inl Overflow_error
              else Inr ((storage_promote rq pk pv p)\<lparr>
                     sp_kind := LLAMA_KV_TAIL_STORAGE_NATIVE_EXACT,
                     sp_actual_body_bytes := sp_requested_body_bytes p + sp_promotion_increment p\<rparr>)
         else overlay_guard rq
           (Inr ((storage_shadow rq pk pv (sp_overlay_increment p) p)\<lparr>
              sp_kind := LLAMA_KV_TAIL_STORAGE_OVERLAY\<rparr>)))"

definition llama_kv_tail_storage_plan_for ::
    "llama_kv_tail_storage_request \<Rightarrow> llama_kv_tail_storage_plan res" where
  "llama_kv_tail_storage_plan_for rq =
     bind_r (checked_tail_bytes (sr_physical_body_rows rq) (sr_requested_body_bytes_per_row rq)) (\<lambda>bytes.
     let p = storage_plan_init rq bytes in
     if sr_effective_tokens rq = 0 \<or> sr_physical_body_rows rq = 0 \<or>
        (\<not> sr_has_owned_body rq \<and> \<not> sr_has_shared_body rq)
     then Inr (p\<lparr>sp_effective_tokens := 0\<rparr>)
     else if sr_exact_type rq \<noteq> GGML_TYPE_F16 \<and> sr_exact_type rq \<noteq> GGML_TYPE_BF16
     then Inl Invalid_argument
     else bind_r (storage_plan_sizes rq p) (\<lambda>p.
       bind_r (promoted_type rq (sr_body_type_k rq)) (\<lambda>pk.
       bind_r (promoted_type rq (sr_body_type_v rq)) (\<lambda>pv.
       let full_visibility = (sr_visibility_window rq > 0 \<and>
                              sr_effective_tokens rq \<ge> sr_visibility_window rq);
           use_compact = (sr_compact_history_capable rq \<and> sr_compact_current_source_capable rq \<and>
                          sr_compact_ordered_commit_capable rq)
       in if use_compact then storage_plan_compact rq pk pv full_visibility p
          else storage_plan_standard rq pk pv full_visibility p))))"

section \<open>Selection of masked entries\<close>

record llama_kv_tail_mask_entry =
  me_exact :: nat
  me_cell :: nat
  me_position :: int

fun select_masked_loop ::
    "llama_kv_tail_mask_entry list \<Rightarrow> bool list \<Rightarrow> int \<Rightarrow> nat \<Rightarrow> bool \<Rightarrow> nat \<Rightarrow> nat list \<Rightarrow> nat list" where
  "select_masked_loop entries fin q retention causal 0 sel = sel"
| "select_masked_loop entries fin q retention causal (Suc i) sel =
     (if \<not> length sel < retention then sel
      else if \<not> fin ! i \<or> (causal \<and> me_position (entries ! i) > q)
      then select_masked_loop entries fin q retention causal i sel
      else select_masked_loop entries fin q retention causal i (sel @ [u32 i]))"

definition llama_kv_tail_select_masked_entries ::
    "llama_kv_tail_mask_entry list \<Rightarrow> bool list \<Rightarrow> int \<Rightarrow> nat \<Rightarrow> bool \<Rightarrow> nat list res" where
  "llama_kv_tail_select_masked_entries entries fin q retention causal =
     (if length entries \<noteq> length fin then Inl Invalid_argument
      else if retention = 0 then Inr []
      else let sel = rev (select_masked_loop entries fin q retention causal (length entries) [])
           in assert_r (length sel \<le> retention) (Inr sel))"

section \<open>Sliding-window rows\<close>

datatype llama_swa_type =
    LLAMA_SWA_TYPE_NONE | LLAMA_SWA_TYPE_STANDARD | LLAMA_SWA_TYPE_CHUNKED | LLAMA_SWA_TYPE_SYMMETRIC

text \<open>The window test of the attention mask; a zero window divides by zero in the chunked case.\<close>

definition is_masked_swa :: "nat \<Rightarrow> llama_swa_type \<Rightarrow> int \<Rightarrow> int \<Rightarrow> bool res" where
  "is_masked_swa n_swa swa_type p0 p1 =
     assert_r (p0 \<ge> 0 \<and> p1 \<ge> 0)
       (case swa_type of
          LLAMA_SWA_TYPE_NONE \<Rightarrow> Inr False
        | LLAMA_SWA_TYPE_STANDARD \<Rightarrow> Inr (p1 - p0 \<ge> i32_of_u32 n_swa)
        | LLAMA_SWA_TYPE_CHUNKED \<Rightarrow>
            if n_swa = 0 then Inl Undefined
            else let pos_chunk_start = i32_of_u32 (u32 (nat p1 div n_swa * n_swa))
                 in Inr (p0 < pos_chunk_start)
        | LLAMA_SWA_TYPE_SYMMETRIC \<Rightarrow>
            let half = i32_of_u32 n_swa sdiv 2; pos_diff = p1 - p0
            in Inr (pos_diff < - half \<or> pos_diff > half))"

record llama_kv_tail_body_row =
  br_position :: int
  br_cell :: nat
  br_flat :: int

record llama_kv_tail_query_window =
  qw_mask_row :: nat
  qw_position :: int

abbreviation pos_min_limit :: int where "pos_min_limit \<equiv> - 2147483648"
abbreviation pos_max_limit :: int where "pos_max_limit \<equiv> 2147483647"

definition clamp_pos :: "int \<Rightarrow> int" where
  "clamp_pos v = max pos_min_limit (min pos_max_limit v)"

definition swa_window :: "nat \<Rightarrow> llama_swa_type \<Rightarrow> bool \<Rightarrow> int \<Rightarrow> (int \<times> int) res" where
  "swa_window n_swa swa_type causal p1 =
     bind_r (case swa_type of
          LLAMA_SWA_TYPE_STANDARD \<Rightarrow> Inr (p1 - int n_swa + 1, pos_max_limit)
        | LLAMA_SWA_TYPE_CHUNKED \<Rightarrow> Inr ((p1 sdiv int n_swa) * int n_swa, pos_max_limit)
        | LLAMA_SWA_TYPE_SYMMETRIC \<Rightarrow> Inr (p1 - int (n_swa div 2), p1 + int (n_swa div 2))
        | LLAMA_SWA_TYPE_NONE \<Rightarrow> Inl Logic_error) (\<lambda>(lo64, hi64).
      let hi64 = (if causal then min hi64 p1 else hi64)
      in Inr (clamp_pos lo64, clamp_pos hi64))"

text \<open>The two binary searches on the sorted rows find the partition points.\<close>

definition mark_window ::
    "(nat \<Rightarrow> nat \<Rightarrow> bool) \<Rightarrow> llama_kv_tail_body_row list \<Rightarrow> nat \<Rightarrow> int \<Rightarrow> int \<Rightarrow> bool list \<Rightarrow> bool list" where
  "mark_window is_finite rows mask_row lo hi sel =
     (let first = length (takeWhile (\<lambda>r. br_position r < lo) rows);
          last = first + length (takeWhile (\<lambda>r. \<not> hi < br_position r) (drop first rows))
      in fold (\<lambda>i sel. if is_finite mask_row (br_cell (rows ! i)) then sel[i := True] else sel)
           [first..<last] sel)"

text \<open>The compaction loop at the end moves the selected rows to the front and resizes.\<close>

definition compact_rows ::
    "bool list \<Rightarrow> llama_kv_tail_body_row list \<Rightarrow> llama_kv_tail_body_row list" where
  "compact_rows sel rows =
     (let (out, rows') = fold (\<lambda>i (out, rs). if sel ! i then (out + 1, rs[out := rs ! i]) else (out, rs))
           [0..<length rows] (0, rows)
      in take out rows')"

text \<open>\<^verbatim>\<open>std::sort\<close> leaves the order of rows with equal position and cell open; the stable sort
  is one of its results, and the only one when no two rows share both.\<close>

definition llama_kv_tail_union_swa_rows ::
    "llama_kv_tail_body_row list \<Rightarrow> llama_kv_tail_query_window list \<Rightarrow> nat \<Rightarrow> llama_swa_type \<Rightarrow> bool \<Rightarrow>
     (nat \<Rightarrow> nat \<Rightarrow> bool) \<Rightarrow> llama_kv_tail_body_row list res" where
  "llama_kv_tail_union_swa_rows rows queries n_swa swa_type causal is_finite =
     (if n_swa = 0 \<or> swa_type = LLAMA_SWA_TYPE_NONE then Inl Invalid_argument
      else
        let rows = sort_key br_position (sort_key br_cell rows)
        in bind_r (fold_r (\<lambda>q sel.
              bind_r (swa_window n_swa swa_type causal (qw_position q)) (\<lambda>(lo, hi).
                Inr (mark_window is_finite rows (qw_mask_row q) lo hi sel)))
              queries (replicate (length rows) False)) (\<lambda>sel.
            Inr (compact_rows sel rows)))"

section \<open>Layout arithmetic\<close>

lemma round_up_bounds:
  fixes n a :: nat
  assumes "0 < a"
  shows "n \<le> (n + a - 1) div a * a" and "(n + a - 1) div a * a < n + a"
    and "a dvd m \<Longrightarrow> n \<le> m \<Longrightarrow> (n + a - 1) div a * a \<le> m"
proof -
  let ?q = "(n + a - 1) div a"
  have e: "n + a - 1 = ?q * a + (n + a - 1) mod a" by simp
  have "(n + a - 1) mod a < a" using assms by simp
  with e assms show "n \<le> ?q * a" by linarith
  show "?q * a < n + a" using e assms by linarith
  assume "a dvd m" and "n \<le> m"
  then obtain k where k: "m = k * a" by (metis dvdE mult.commute)
  have "?q \<le> (k * a + (a - 1)) div a"
    using \<open>n \<le> m\<close> k assms by (intro div_le_mono) simp
  also have "\<dots> = k" using assms by (simp add: div_mult_self3 del: add_diff_assoc)
  finally show "?q * a \<le> m" using k by simp
qed

lemma checked_tail_slot_count_eq:
  "checked_tail_slot_count a n s =
     (if a * n + s > INT32_MAX then Inl Overflow_error else Inr (a * n + s))"
  by (simp add: checked_tail_slot_count_def Let_def)

lemma checked_tail_bytes_eq:
  "checked_tail_bytes r b = (if r * b > UINT64_MAX then Inl Overflow_error else Inr (r * b))"
proof (cases "b = 0")
  case False
  then have "r > UINT64_MAX div b \<longleftrightarrow> r * b > UINT64_MAX"
    by (simp add: div_less_iff_less_mult)
  with False show ?thesis by (auto simp: checked_tail_bytes_def)
qed (simp add: checked_tail_bytes_def)

lemma tail_layout_facts:
  assumes "llama_kv_tail_layout_for n_tokens n_seq_max n_ubatch = Inr l"
  shows "n_tokens + n_ubatch \<le> arena_stride l"
proof -
  let ?r = "(n_tokens + n_ubatch + tail_fa_stride - 1) div tail_fa_stride * tail_fa_stride"
  have "n_tokens + n_ubatch \<le> ?r" by (rule round_up_bounds(1)) (simp add: tail_fa_stride_def)
  moreover have "arena_stride l = ?r"
    using assms unfolding llama_kv_tail_layout_for_def Let_def
    by (auto simp del: One_nat_def split: if_splits)
  ultimately show ?thesis by simp
qed

text \<open>An arena layout is returned exactly when its slots can be numbered in 31 bits. The stride
  is then the least multiple of 256 that holds the retained tokens and one micro-batch, the
  discard sink has one slot per micro-batch row when there is more than one sequence, and the
  total is the size of all arenas and the sink. In every other case the call throws.\<close>

theorem tail_layout_bounds:
  "case llama_kv_tail_layout_for n_tokens n_seq_max n_ubatch of
     Inr l \<Rightarrow> 256 dvd arena_stride l \<and> n_tokens + n_ubatch \<le> arena_stride l \<and>
       arena_stride l < n_tokens + n_ubatch + 256 \<and>
       sink_slots l = (if n_seq_max > 1 then n_ubatch else 0) \<and>
       total_slots l = arena_stride l * n_seq_max + sink_slots l \<and>
       arena_stride l \<le> INT32_MAX \<and> total_slots l \<le> INT32_MAX
   | Inl e \<Rightarrow> e = Overflow_error \<and>
       INT32_MAX < (n_tokens + n_ubatch + 255) div 256 * 256 * max 1 n_seq_max +
         (if n_seq_max > 1 then n_ubatch else 0)"
proof -
  define r where "r = (n_tokens + n_ubatch + tail_fa_stride - 1) div tail_fa_stride * tail_fa_stride"
  have r: "n_tokens + n_ubatch \<le> r" "r < n_tokens + n_ubatch + 256" "256 dvd r"
    "r = (n_tokens + n_ubatch + 255) div 256 * 256"
    using round_up_bounds(1,2) [of tail_fa_stride "n_tokens + n_ubatch"]
    by (simp_all add: r_def tail_fa_stride_def)
  define q where "q = r * n_seq_max"
  have m: "n_seq_max > 1 \<Longrightarrow> r \<le> q" "\<not> n_seq_max > 1 \<Longrightarrow> q \<le> r"
    "r * max 1 n_seq_max = (if n_seq_max > 1 then q else r)"
    by (auto simp: q_def)
  have eq: "llama_kv_tail_layout_for n_tokens n_seq_max n_ubatch =
      (if r > INT32_MAX then Inl Overflow_error
       else let sink = (if n_seq_max > 1 then n_ubatch else 0)
            in bind_r (checked_tail_slot_count r n_seq_max sink) (\<lambda>total.
               Inr \<lparr>arena_stride = r, sink_slots = sink, total_slots = total\<rparr>))"
    unfolding llama_kv_tail_layout_for_def Let_def r_def [symmetric] by simp
  show ?thesis unfolding eq checked_tail_slot_count_eq r(4) [symmetric] m(3)
    using r(1-3) m(1,2) by (auto simp: Let_def simp flip: q_def)
qed

lemma and_pred_zero_iff: "0 < n \<Longrightarrow> n AND (n - 1) = 0 \<longleftrightarrow> (\<exists>k. n = 2 ^ k)" for n :: nat
proof (induction n rule: less_induct)
  case (less n)
  show ?case
  proof (cases "even n")
    case True
    then obtain m where m: "n = 2 * m" by blast
    with less.prems have m0: "0 < m" "m < n" by simp_all
    have "n AND (n - 1) = 2 * (m AND (m - 1))"
    proof (subst and_rec)
      have "(2 * m - 1) div 2 = m - 1" using m0 by linarith
      then show "of_bool (odd n \<and> odd (n - 1)) + 2 * (n div 2 AND (n - 1) div 2) = 2 * (m AND (m - 1))"
        using m by simp
    qed
    moreover have "(\<exists>k. n = 2 ^ k) \<longleftrightarrow> (\<exists>k. m = 2 ^ k)"
    proof
      assume "\<exists>k. n = 2 ^ k"
      then obtain k where "2 * m = 2 ^ k" using m by auto
      then show "\<exists>k. m = 2 ^ k" using m0 by (cases k) auto
    next
      assume "\<exists>k. m = 2 ^ k"
      then show "\<exists>k. n = 2 ^ k" using m by (metis power_Suc)
    qed
    ultimately show ?thesis using less.IH [OF m0(2,1)] by simp
  next
    case False
    then obtain m where m: "n = 2 * m + 1" by (auto elim: oddE)
    then have "n AND (n - 1) = 2 * (m AND m)"
      by (subst and_rec) simp
    then have "n AND (n - 1) = 0 \<longleftrightarrow> n = 1" using m by simp
    moreover have "(\<exists>k. n = 2 ^ k) \<longleftrightarrow> n = 1"
      using False by (metis even_power dvd_refl neq0_conv power_0)
    ultimately show ?thesis by simp
  qed
qed

text \<open>The packed body stride. An alignment that is not a power of two is refused; otherwise the
  stride is the least multiple of the alignment that holds the logical rows, and the call throws
  exactly when that multiple does not fit 32 bits.\<close>

theorem packed_body_stride_least:
  assumes "logical_rows \<le> UINT64_MAX" and "alignment \<le> UINT32_MAX"
  shows "case llama_kv_tail_packed_body_stride logical_rows alignment of
      Inr s \<Rightarrow> (\<exists>k. alignment = 2 ^ k) \<and> s \<le> UINT32_MAX \<and> alignment dvd s \<and> logical_rows \<le> s \<and>
        (\<forall>m. alignment dvd m \<longrightarrow> logical_rows \<le> m \<longrightarrow> s \<le> m)
    | Inl e \<Rightarrow> (e = Invalid_argument \<and> (\<forall>k. alignment \<noteq> 2 ^ k)) \<or>
        (e = Overflow_error \<and>
         (\<forall>m. alignment dvd m \<longrightarrow> logical_rows \<le> m \<longrightarrow> UINT32_MAX < m))"
proof (cases "\<exists>k. alignment = 2 ^ k")
  case False
  then have "alignment = 0 \<or> alignment AND (alignment - 1) \<noteq> 0"
    using and_pred_zero_iff by blast
  then show ?thesis using False by (auto simp: llama_kv_tail_packed_body_stride_def)
next
  case True
  then have a: "0 < alignment" by auto
  have z: "alignment AND (alignment - 1) = 0" by (rule and_pred_zero_iff [OF a, THEN iffD2, OF True])
  define r where "r = (logical_rows + alignment - 1) div alignment * alignment"
  have rb: "logical_rows \<le> r" "alignment dvd r"
    and least: "\<And>m. alignment dvd m \<Longrightarrow> logical_rows \<le> m \<Longrightarrow> r \<le> m"
    using round_up_bounds(1,3) [OF a] by (auto simp: r_def)
  have big: "UINT64_MAX < m"
    if "logical_rows > UINT64_MAX - (alignment - 1)" "alignment dvd m" "logical_rows \<le> m" for m
  proof (rule ccontr)
    assume n: "\<not> UINT64_MAX < m"
    obtain k where k: "alignment = 2 ^ k" using True by blast
    have "k \<le> 64"
    proof (rule ccontr)
      assume "\<not> k \<le> 64"
      then have "(2::nat) ^ 64 \<le> 2 ^ k" by (intro power_increasing) auto
      then show False using assms(2) k by simp
    qed
    then have "alignment dvd 2 ^ 64" unfolding k by (rule le_imp_power_dvd)
    then have "alignment dvd 2 ^ 64 - m" using that(2) n by (intro dvd_diff_nat)
    then have "alignment \<le> 2 ^ 64 - m" using n by (intro dvd_imp_le) auto
    then show False using that(1,3) n a by simp
  qed
  show ?thesis
  proof (cases "logical_rows > UINT64_MAX - (alignment - 1)")
    case True
    have "UINT32_MAX < m" if "alignment dvd m" "logical_rows \<le> m" for m
      using big [OF True that] by simp
    then show ?thesis using True z a
      by (simp add: llama_kv_tail_packed_body_stride_def)
  next
    case False
    then have u: "u64 (logical_rows + alignment - 1) = logical_rows + alignment - 1"
      using a assms(2) by (intro u64_id) linarith
    have "llama_kv_tail_packed_body_stride logical_rows alignment =
        (if r > UINT32_MAX then Inl Overflow_error else Inr r)"
      using False z a unfolding llama_kv_tail_packed_body_stride_def Let_def u r_def [symmetric]
      by simp
    moreover have "UINT32_MAX < m" if "UINT32_MAX < r" "alignment dvd m" "logical_rows \<le> m" for m
      using least [OF that(2,3)] that(1) by (rule less_le_trans [rotated])
    ultimately show ?thesis using rb least \<open>\<exists>k. alignment = 2 ^ k\<close> by auto
  qed
qed

theorem packed_body_stride_least_witness:
  "llama_kv_tail_packed_body_stride 300 256 = Inr 512 \<and>
   {m. 256 dvd m \<and> 300 \<le> m} \<subseteq> {512::nat..}"
  using packed_body_stride_least [of 300 256]
  by (auto simp: llama_kv_tail_packed_body_stride_def Let_def u64_def u32_def)

section \<open>Slot runs\<close>

definition expand_run :: "llama_kv_tail_slot_run \<Rightarrow> int list" where
  "expand_run r = map (\<lambda>j. slot_begin r + int j) [0..<run_length r]"

definition adjacent_runs :: "llama_kv_tail_slot_run \<Rightarrow> llama_kv_tail_slot_run \<Rightarrow> bool" where
  "adjacent_runs r r' = (slot_begin r' = slot_begin r + int (run_length r))"

fun runs_maximal :: "llama_kv_tail_slot_run list \<Rightarrow> bool" where
  "runs_maximal (r # r' # rs) = (\<not> adjacent_runs r r' \<and> runs_maximal (r' # rs))"
| "runs_maximal _ = True"

lemma slot_runs_checked_append:
  "slot_runs_checked n (xs @ ys) = bind_r (slot_runs_checked n xs) (\<lambda>m. slot_runs_checked m ys)"
  by (induction xs arbitrary: n) (auto simp: assert_r_def)

lemma runs_maximal_snoc:
  "runs_maximal (rs @ [r, r']) \<longleftrightarrow> runs_maximal (rs @ [r]) \<and> \<not> adjacent_runs r r'"
  by (induction rs rule: runs_maximal.induct) auto

lemma runs_maximal_grow:
  "runs_maximal (rs @ [r]) \<Longrightarrow> slot_begin r' = slot_begin r \<Longrightarrow> runs_maximal (rs @ [r'])"
  by (induction rs rule: runs_maximal.induct) (auto simp: adjacent_runs_def)

definition runs_inv :: "int list \<Rightarrow> nat \<Rightarrow> llama_kv_tail_slot_run list \<Rightarrow> bool" where
  "runs_inv slots k runs \<longleftrightarrow> runs \<noteq> [] \<and> concat (map expand_run runs) = take k slots \<and>
     slot_runs_checked 0 runs = Inr k \<and> runs_maximal runs"

lemma runs_inv_step:
  assumes inv: "runs_inv slots k runs" and k: "0 < k" "k < length slots" "k \<le> UINT32_MAX"
  shows "runs_inv slots (Suc k) (slot_runs_step slots k runs)"
proof -
  obtain rs r where runs: "runs = rs @ [r]"
    using inv by (metis runs_inv_def append_butlast_last_id)
  obtain m where m: "slot_runs_checked 0 rs = Inr m" "payload_begin r = m" "0 < run_length r"
      "k = m + run_length r"
    using inv by (auto simp: runs_inv_def runs slot_runs_checked_append)
  have cat: "concat (map expand_run rs) @ expand_run r = take k slots"
    using inv by (simp add: runs_inv_def runs)
  have "last (expand_run r) = slot_begin r + int (run_length r) - 1"
    using m(3) by (simp add: expand_run_def last_map of_nat_diff)
  moreover have "last (take k slots) = slots ! (k - 1)"
    using k by (subst last_conv_nth) (auto simp: min_def)
  moreover have "expand_run r \<noteq> []" using m(3) by (simp add: expand_run_def)
  ultimately have prev: "slots ! (k - 1) = slot_begin r + int (run_length r) - 1"
    by (metis cat last_appendR)
  have nxt: "take (Suc k) slots = concat (map expand_run rs) @ expand_run r @ [slots ! k]"
    using k by (simp add: take_Suc_conv_app_nth flip: cat)
  show ?thesis
  proof (cases "slots ! k = slots ! (k - 1) + 1")
    case True
    then have "expand_run (r\<lparr>run_length := run_length r + 1\<rparr>) = expand_run r @ [slots ! k]"
      using prev by (simp add: expand_run_def)
    then show ?thesis using inv nxt m True
      by (auto simp: runs_inv_def slot_runs_step_def runs slot_runs_checked_append
          elim: runs_maximal_grow)
  next
    case False
    then show ?thesis using inv nxt m prev k(3)
      by (auto simp: runs_inv_def slot_runs_step_def runs slot_runs_checked_append
          runs_maximal_snoc adjacent_runs_def expand_run_def)
  qed
qed

text \<open>Coalescing a payload's slots into runs loses nothing and is maximal: the debug assertions
  hold, expanding the runs in order gives the slot list back, every run is non-empty and starts
  at the payload index where the previous one ended, and no two neighbouring runs could have
  been merged.\<close>

theorem slot_runs_roundtrip:
  assumes "length slots \<le> UINT32_MAX"
  shows "\<exists>runs. llama_kv_tail_contiguous_slot_runs slots = Inr runs \<and>
    concat (map expand_run runs) = slots \<and> runs_maximal runs \<and>
    slot_runs_checked 0 runs = Inr (length slots)"
proof (cases "slots = []")
  case False
  define init where "init = [\<lparr>payload_begin = 0, slot_begin = slots ! 0, run_length = 1\<rparr>]"
  have "runs_inv slots (Suc n) (fold (slot_runs_step slots) [1..<Suc n] init)"
    if "Suc n \<le> length slots" for n
    using that
  proof (induction n)
    case 0
    then show ?case using False
      by (auto simp: runs_inv_def init_def expand_run_def take_Suc hd_conv_nth)
  next
    case (Suc n)
    then show ?case using runs_inv_step [of slots "Suc n"] assms by simp
  qed
  from this [of "length slots - 1"] False
  have "runs_inv slots (length slots) (fold (slot_runs_step slots) [1..<length slots] init)"
    by simp
  then show ?thesis using False
    by (auto simp: llama_kv_tail_contiguous_slot_runs_def runs_inv_def init_def)
qed (simp add: llama_kv_tail_contiguous_slot_runs_def)

theorem slot_runs_roundtrip_witness:
  "\<exists>runs. llama_kv_tail_contiguous_slot_runs [4, 5, 6, 2, 9] = Inr runs \<and>
    concat (map expand_run runs) = [4, 5, 6, 2, 9] \<and> runs_maximal runs \<and> length runs = 3"
  using slot_runs_roundtrip [of "[4, 5, 6, 2, 9]"]
  by (auto simp: llama_kv_tail_contiguous_slot_runs_def slot_runs_step_def upt_rec Let_def u32_def)

section \<open>Masked selection\<close>

definition mask_eligible :: "llama_kv_tail_mask_entry list \<Rightarrow> bool list \<Rightarrow> int \<Rightarrow> bool \<Rightarrow> nat \<Rightarrow> bool" where
  "mask_eligible entries fin q causal i = (fin ! i \<and> (causal \<longrightarrow> me_position (entries ! i) \<le> q))"

lemma select_masked_loop_eq:
  assumes "n \<le> UINT32_MAX" and "length sel \<le> retention"
  shows "select_masked_loop entries fin q retention causal n sel =
    sel @ take (retention - length sel) (rev (filter (mask_eligible entries fin q causal) [0..<n]))"
  using assms
proof (induction n arbitrary: sel)
  case (Suc n)
  then show ?case
    by (cases "length sel = retention")
      (auto simp: mask_eligible_def not_less take_Cons' Suc_diff_Suc)
qed simp

text \<open>The selection for one query is the newest \<open>retention\<close> of the entries whose mask is finite
  and, for causal attention, whose position is not after the query, in ascending order; sizes
  that differ are refused. The closing assertion never fails.\<close>

theorem select_masked_newest:
  assumes "length entries = length fin" and "length entries \<le> UINT32_MAX"
  shows "llama_kv_tail_select_masked_entries entries fin q retention causal =
    (let ok = filter (mask_eligible entries fin q causal) [0..<length entries]
     in Inr (drop (length ok - retention) ok))"
  using assms
  by (auto simp: llama_kv_tail_select_masked_entries_def select_masked_loop_eq Let_def
      take_rev min_def)

theorem select_masked_newest_witness:
  "llama_kv_tail_select_masked_entries
     (map (\<lambda>p. \<lparr>me_exact = 0, me_cell = 0, me_position = p\<rparr>) [1, 2, 3, 9])
     [True, True, True, True] 4 2 True = Inr [1, 2]"
  using select_masked_newest [of "map (\<lambda>p. \<lparr>me_exact = 0, me_cell = 0, me_position = p\<rparr>) [1, 2, 3, 9]"
      "[True, True, True, True]" 4 2 True]
  by (simp add: mask_eligible_def upt_rec)

section \<open>Window union against the mask\<close>

lemma takeWhile_partition:
  "sorted (map f xs) \<Longrightarrow> (\<And>x y. f x \<le> f y \<Longrightarrow> P y \<Longrightarrow> P x) \<Longrightarrow>
     i < length (takeWhile P xs) \<longleftrightarrow> i < length xs \<and> P (xs ! i)"
proof (induction xs arbitrary: i)
  case (Cons x xs)
  show ?case
  proof (cases "P x")
    case True
    then show ?thesis using Cons by (cases i) auto
  next
    case False
    then have "\<not> P y" if "y \<in> set xs" for y
      using Cons.prems(1) Cons.prems(2) [of x y] that by auto
    then show ?thesis using False by (cases i) (auto simp: all_set_conv_all_nth)
  qed
qed simp

lemma compact_rows_eq:
  assumes "length sel = length rows"
  shows "compact_rows sel rows = map ((!) rows) (filter ((!) sel) [0..<length rows])"
proof -
  let ?step = "\<lambda>i (out, rs). if sel ! i then (out + 1, rs[out := rs ! i]) else (out, rs)"
  let ?sel = "\<lambda>k. map ((!) rows) (filter ((!) sel) [0..<k])"
  have "\<exists>rs. fold ?step [0..<k] (0, rows) = (length (?sel k), rs) \<and> length rs = length rows \<and>
      take (length (?sel k)) rs = ?sel k \<and> drop k rs = drop k rows" if "k \<le> length rows" for k
    using that
  proof (induction k)
    case (Suc k)
    then obtain rs where rs: "fold ?step [0..<k] (0, rows) = (length (?sel k), rs)"
        "length rs = length rows" "take (length (?sel k)) rs = ?sel k" "drop k rs = drop k rows"
      by auto
    have le: "length (?sel k) \<le> k" by (metis length_filter_le length_map length_upt minus_nat.diff_0)
    have k: "rs ! k = rows ! k"
      using rs(2,4) Suc.prems by (metis Suc_le_eq hd_drop_conv_nth)
    have "drop (Suc k) rs = drop (Suc k) rows" using rs(4) by (metis drop_Suc tl_drop)
    then show ?case using rs le k Suc.prems
      by (auto simp: take_Suc_conv_app_nth nth_list_update)
  qed auto
  from this [of "length rows"] show ?thesis
    by (auto simp: compact_rows_def Let_def)
qed

lemma length_fold_mark [simp]:
  "length (fold (\<lambda>i sel. if P i then sel[i := True] else sel) is sel) = length sel"
  by (induction "is" arbitrary: sel) auto

lemma fold_mark_nth:
  "n \<le> length sel \<Longrightarrow> i < length sel \<Longrightarrow>
     fold (\<lambda>i sel. if P i then sel[i := True] else sel) [m..<n] sel ! i =
       (sel ! i \<or> (m \<le> i \<and> i < n \<and> P i))"
proof (induction n)
  case (Suc n)
  then show ?case by (cases "m \<le> n") (auto simp: nth_list_update less_Suc_eq)
qed simp

lemma length_mark_window [simp]:
  "length (mark_window is_finite rows mrow lo hi sel) = length sel"
  by (simp add: mark_window_def Let_def)

lemma mark_window_nth:
  assumes "sorted (map br_position rows)" and "length sel = length rows" and i: "i < length rows"
  shows "mark_window is_finite rows mrow lo hi sel ! i =
    (sel ! i \<or> (lo \<le> br_position (rows ! i) \<and> br_position (rows ! i) \<le> hi \<and>
       is_finite mrow (br_cell (rows ! i))))"
proof -
  define a where "a = length (takeWhile (\<lambda>r. br_position r < lo) rows)"
  define b where "b = a + length (takeWhile (\<lambda>r. \<not> hi < br_position r) (drop a rows))"
  have b: "b \<le> length sel"
    using length_takeWhile_le [of "\<lambda>r. \<not> hi < br_position r" "drop a rows"]
      length_takeWhile_le [of "\<lambda>r. br_position r < lo" rows] assms(2)
    by (simp add: b_def a_def)
  have a_iff: "i < a \<longleftrightarrow> br_position (rows ! i) < lo"
    unfolding a_def using takeWhile_partition [OF assms(1), of "\<lambda>r. br_position r < lo" i] i by auto
  have s: "sorted (map br_position (drop a rows))"
    using assms(1) by (metis drop_map sorted_wrt_drop)
  have b_iff: "i < b \<longleftrightarrow> br_position (rows ! i) \<le> hi" if "a \<le> i"
  proof -
    have "i < b \<longleftrightarrow> i - a < length (takeWhile (\<lambda>r. \<not> hi < br_position r) (drop a rows))"
      using that by (auto simp: b_def)
    also have "\<dots> \<longleftrightarrow> br_position (rows ! i) \<le> hi"
      using takeWhile_partition [OF s, of "\<lambda>r. \<not> hi < br_position r" "i - a"] that i by auto
    finally show ?thesis .
  qed
  have "mark_window is_finite rows mrow lo hi sel =
      fold (\<lambda>i sel. if is_finite mrow (br_cell (rows ! i)) then sel[i := True] else sel) [a..<b] sel"
    by (simp add: mark_window_def Let_def a_def b_def)
  then show ?thesis
    using fold_mark_nth [OF b, of i] assms(2) i a_iff b_iff by auto
qed

text \<open>The window of a query, and the filter the planner computes with it.\<close>

definition in_window :: "nat \<Rightarrow> llama_swa_type \<Rightarrow> bool \<Rightarrow> int \<Rightarrow> int \<Rightarrow> bool" where
  "in_window n_swa t causal p0 p1 =
     (case swa_window n_swa t causal p1 of Inr (lo, hi) \<Rightarrow> lo \<le> p0 \<and> p0 \<le> hi | Inl _ \<Rightarrow> False)"

lemma swa_window_defined: "t \<noteq> LLAMA_SWA_TYPE_NONE \<Longrightarrow> \<exists>lo hi. swa_window n t causal p = Inr (lo, hi)"
  by (cases t) (simp_all add: swa_window_def Let_def)

lemma mark_all_windows:
  assumes "sorted (map br_position rows)" and "t \<noteq> LLAMA_SWA_TYPE_NONE"
    and "length sel = length rows"
  shows "\<exists>sel'. fold_r (\<lambda>q sel. bind_r (swa_window n t causal (qw_position q)) (\<lambda>(lo, hi).
        Inr (mark_window fin rows (qw_mask_row q) lo hi sel))) queries sel = Inr sel' \<and>
      length sel' = length rows \<and>
      (\<forall>i < length rows. sel' ! i = (sel ! i \<or> (\<exists>q \<in> set queries.
         in_window n t causal (br_position (rows ! i)) (qw_position q) \<and>
         fin (qw_mask_row q) (br_cell (rows ! i)))))"
  using assms(3)
proof (induction queries arbitrary: sel)
  case (Cons q queries)
  obtain lo hi where w: "swa_window n t causal (qw_position q) = Inr (lo, hi)"
    using swa_window_defined [OF assms(2)] by blast
  let ?sel = "mark_window fin rows (qw_mask_row q) lo hi sel"
  have len: "length ?sel = length rows" using Cons.prems by simp
  from Cons.IH [OF len] show ?case
    using mark_window_nth [OF assms(1) Cons.prems] by (auto simp: w in_window_def)
qed simp

lemma union_swa_rows_filter:
  assumes "n_swa \<noteq> 0" and t: "t \<noteq> LLAMA_SWA_TYPE_NONE"
  shows "llama_kv_tail_union_swa_rows rows queries n_swa t causal fin =
    Inr (filter (\<lambda>r. \<exists>q \<in> set queries. in_window n_swa t causal (br_position r) (qw_position q) \<and>
           fin (qw_mask_row q) (br_cell r))
         (sort_key br_position (sort_key br_cell rows)))"
proof -
  let ?rows = "sort_key br_position (sort_key br_cell rows)"
  have s: "sorted (map br_position ?rows)" by simp
  obtain sel where sel: "fold_r (\<lambda>q sel. bind_r (swa_window n_swa t causal (qw_position q)) (\<lambda>(lo, hi).
        Inr (mark_window fin ?rows (qw_mask_row q) lo hi sel))) queries
        (replicate (length ?rows) False) = Inr sel" "length sel = length ?rows"
      "\<And>i. i < length ?rows \<Longrightarrow> sel ! i = (\<exists>q \<in> set queries.
         in_window n_swa t causal (br_position (?rows ! i)) (qw_position q) \<and>
         fin (qw_mask_row q) (br_cell (?rows ! i)))"
    using mark_all_windows [OF s t, of "replicate (length ?rows) False"] by fastforce
  have "map ((!) ?rows) (filter ((!) sel) [0..<length ?rows]) =
      map ((!) ?rows) (filter (\<lambda>i. \<exists>q \<in> set queries.
         in_window n_swa t causal (br_position (?rows ! i)) (qw_position q) \<and>
         fin (qw_mask_row q) (br_cell (?rows ! i))) [0..<length ?rows])"
    using sel(3) by (intro arg_cong [where f = "map ((!) ?rows)"] filter_cong) auto
  also have "\<dots> = filter (\<lambda>r. \<exists>q \<in> set queries.
         in_window n_swa t causal (br_position r) (qw_position q) \<and> fin (qw_mask_row q) (br_cell r))
         (map ((!) ?rows) [0..<length ?rows])"
    by (simp add: filter_map comp_def)
  also have "map ((!) ?rows) [0..<length ?rows] = ?rows" by (rule map_nth)
  finally show ?thesis
    using assms sel(1) compact_rows_eq [OF sel(2)]
    by (simp add: llama_kv_tail_union_swa_rows_def Let_def)
qed

lemma unmasked_in_window:
  assumes "is_masked_swa n_swa t p0 p1 = Inr False" and "0 < n_swa" and "n_swa \<le> INT32_MAX"
    and "t \<noteq> LLAMA_SWA_TYPE_NONE" and "causal \<longrightarrow> p0 \<le> p1"
    and "p0 \<le> pos_max_limit" and "p1 \<le> pos_max_limit"
  shows "in_window n_swa t causal p0 p1"
proof -
  have p: "0 \<le> p0" "0 \<le> p1" using assms(1) by (simp_all add: is_masked_swa_def)
  have i: "i32_of_u32 n_swa = int n_swa" using assms(3) by (simp add: i32_of_u32_def)
  have le: "nat p1 div n_swa * n_swa \<le> nat p1" by simp
  then have "nat p1 div n_swa * n_swa \<le> INT32_MAX" using assms(7) by linarith
  then have chunk: "i32_of_u32 (u32 (nat p1 div n_swa * n_swa)) = (p1 sdiv int n_swa) * int n_swa"
    using p assms(2) by (simp add: i32_of_u32_def sdiv_nonneg zdiv_int)
  have half: "int n_swa sdiv 2 = int (n_swa div 2)" by (simp add: sdiv_nonneg zdiv_int)
  show ?thesis
    using assms p i chunk half
    by (cases t) (auto simp: is_masked_swa_def in_window_def swa_window_def clamp_pos_def Let_def)
qed

text \<open>C38: Restricting the search to position windows loses no row. Whenever the mask is finite only
  for rows the window test of the attention mask leaves visible (and, with causal attention, not
  after the query), the rows the planner returns are exactly the rows some query's mask is finite
  for, ordered by position and then by cell.\<close>

theorem union_swa_complete:
  assumes "0 < n_swa" and "n_swa \<le> INT32_MAX" and "t \<noteq> LLAMA_SWA_TYPE_NONE"
    and "\<forall>r \<in> set rows. br_position r \<le> pos_max_limit"
    and "\<forall>q \<in> set queries. qw_position q \<le> pos_max_limit"
    and "\<forall>q \<in> set queries. \<forall>r \<in> set rows. is_finite (qw_mask_row q) (br_cell r) \<longrightarrow>
      is_masked_swa n_swa t (br_position r) (qw_position q) = Inr False \<and>
      (causal \<longrightarrow> br_position r \<le> qw_position q)"
  shows "\<exists>out. llama_kv_tail_union_swa_rows rows queries n_swa t causal is_finite = Inr out \<and>
    set out = {r \<in> set rows. \<exists>q \<in> set queries. is_finite (qw_mask_row q) (br_cell r)} \<and>
    sorted_wrt (\<lambda>r r'. br_position r < br_position r' \<or>
      (br_position r = br_position r' \<and> br_cell r \<le> br_cell r')) out"
proof -
  let ?rows = "sort_key br_position (sort_key br_cell rows)"
  let ?lex = "\<lambda>r r'. br_position r < br_position r' \<or>
      (br_position r = br_position r' \<and> br_cell r \<le> br_cell r')"
  have lex: "sorted_wrt ?lex ?rows"
    by (rule sorted_wrt_sort_key_lex)
  have win: "in_window n_swa t causal (br_position r) (qw_position q)"
    if "r \<in> set rows" "q \<in> set queries" "is_finite (qw_mask_row q) (br_cell r)" for r q
    using that assms by (intro unmasked_in_window) auto
  show ?thesis
    unfolding union_swa_rows_filter [OF less_imp_neq [OF assms(1), symmetric] assms(3)]
    using win lex by (auto intro: sorted_wrt_filter)
qed

definition union_rows_example :: "llama_kv_tail_body_row list" where
  "union_rows_example = [\<lparr>br_position = 7, br_cell = 0, br_flat = 0\<rparr>, \<lparr>br_position = 5, br_cell = 1, br_flat = 1\<rparr>,
     \<lparr>br_position = 1, br_cell = 2, br_flat = 2\<rparr>]"

theorem union_swa_complete_witness:
  "\<exists>out. llama_kv_tail_union_swa_rows union_rows_example [\<lparr>qw_mask_row = 0, qw_position = 7\<rparr>] 4
      LLAMA_SWA_TYPE_STANDARD True (\<lambda>_ c. c < 2) = Inr out \<and> length out \<le> 3 \<and>
    set out = {r \<in> set union_rows_example. br_cell r < 2}"
proof -
  let ?q = "[\<lparr>qw_mask_row = 0, qw_position = 7\<rparr>]"
  have h: "\<forall>q \<in> set ?q. \<forall>r \<in> set union_rows_example. br_cell r < 2 \<longrightarrow>
      is_masked_swa 4 LLAMA_SWA_TYPE_STANDARD (br_position r) (qw_position q) = Inr False \<and>
      (True \<longrightarrow> br_position r \<le> qw_position q)"
    by (simp add: union_rows_example_def is_masked_swa_def i32_of_u32_def)
  have b: "\<forall>r \<in> set union_rows_example. br_position r \<le> pos_max_limit"
    by (simp add: union_rows_example_def)
  have "length out \<le> 3" if "llama_kv_tail_union_swa_rows union_rows_example ?q 4
      LLAMA_SWA_TYPE_STANDARD True (\<lambda>_ c. c < 2) = Inr out" for out
    using that length_filter_le [of _ "sort_key br_position (sort_key br_cell union_rows_example)"]
    by (auto simp: union_swa_rows_filter union_rows_example_def)
  then show ?thesis
    using union_swa_complete [of 4 LLAMA_SWA_TYPE_STANDARD union_rows_example ?q "\<lambda>_ c. c < 2" True] h b
    by auto
qed

section \<open>Route, type and ownership contracts\<close>

text \<open>A route is supported exactly when both writes are possible and either native attention or
  every generic step is; native attention is preferred, and a refusal names an operation whose
  requirement is missing, writes first.\<close>

theorem select_route_sound:
  "(cap_supported (llama_kv_tail_select_route r) \<longleftrightarrow>
     rq_write_k r \<and> rq_write_v r \<and> (rq_native_attention r \<or> (\<forall>q \<in> set (route_generic r). fst q))) \<and>
   (cap_route (llama_kv_tail_select_route r) = LLAMA_KV_TAIL_ROUTE_NATIVE \<longleftrightarrow>
     rq_write_k r \<and> rq_write_v r \<and> rq_native_attention r) \<and>
   (cap_supported (llama_kv_tail_select_route r) \<longleftrightarrow>
     cap_missing (llama_kv_tail_select_route r) = LLAMA_KV_TAIL_OP_NONE)"
  by (auto simp: llama_kv_tail_select_route_def route_generic_def Let_def)

definition route_no_gather :: llama_kv_tail_route_requirements where
  "route_no_gather =
     \<lparr>rq_write_k = True, rq_write_v = True, rq_gather_k = True, rq_gather_v = False,
      rq_body_score = True, rq_body_value = True, rq_exact_score = True, rq_exact_value = True,
      rq_generic_merge = False, rq_native_attention = False\<rparr>"

theorem select_route_sound_witness:
  "\<not> cap_supported (llama_kv_tail_select_route route_no_gather) \<and>
   cap_missing (llama_kv_tail_select_route route_no_gather) = LLAMA_KV_TAIL_OP_GATHER_V"
  using select_route_sound [of route_no_gather]
  by (simp add: llama_kv_tail_select_route_def route_generic_def route_no_gather_def)

text \<open>Type resolution refuses a request other than F16, BF16 or automatic. A resolved type is one
  whose route is supported and is never other than the requested one; it is downgraded only from
  BF16 to F16, only in automatic mode and only when the BF16 route is unsupported. When it fails,
  no admissible type has a supported route.\<close>

theorem resolve_type_sound:
  assumes "llama_kv_tail_resolve_type requested dflt bf16 f16 = Inr r"
  shows "(tr_supported r \<longrightarrow>
      tr_actual_type r \<in> {GGML_TYPE_BF16, GGML_TYPE_F16} \<and>
      cap_supported (if tr_actual_type r = GGML_TYPE_BF16 then bf16 else f16) \<and>
      (requested \<noteq> GGML_TYPE_COUNT \<longrightarrow> tr_actual_type r = requested) \<and>
      (tr_downgraded r \<longleftrightarrow> tr_actual_type r \<noteq> (if requested = GGML_TYPE_COUNT then dflt else requested)) \<and>
      (tr_downgraded r \<longrightarrow> requested = GGML_TYPE_COUNT \<and> dflt = GGML_TYPE_BF16 \<and>
         \<not> cap_supported bf16)) \<and>
    (\<not> tr_supported r \<longrightarrow> tr_actual_type r = GGML_TYPE_COUNT \<and>
      \<not> cap_supported (if (if requested = GGML_TYPE_COUNT then dflt else requested) = GGML_TYPE_BF16
                        then bf16 else f16) \<and>
      (requested = GGML_TYPE_COUNT \<longrightarrow> \<not> cap_supported f16))"
  using assms
  by (auto simp: llama_kv_tail_resolve_type_def Let_def split: if_splits)

definition cap_no_gather :: llama_kv_tail_route_capability where
  "cap_no_gather = \<lparr>cap_supported = False, cap_route = LLAMA_KV_TAIL_ROUTE_NONE,
     cap_missing = LLAMA_KV_TAIL_OP_GATHER_K\<rparr>"

definition cap_native :: llama_kv_tail_route_capability where
  "cap_native = \<lparr>cap_supported = True, cap_route = LLAMA_KV_TAIL_ROUTE_NATIVE,
     cap_missing = LLAMA_KV_TAIL_OP_NONE\<rparr>"

theorem resolve_type_sound_witness:
  "\<exists>r. llama_kv_tail_resolve_type GGML_TYPE_COUNT GGML_TYPE_BF16 cap_no_gather cap_native = Inr r \<and>
     tr_actual_type r = GGML_TYPE_F16 \<and> tr_downgraded r"
proof -
  obtain r where r: "llama_kv_tail_resolve_type GGML_TYPE_COUNT GGML_TYPE_BF16 cap_no_gather cap_native = Inr r"
    by (simp add: llama_kv_tail_resolve_type_def cap_no_gather_def cap_native_def)
  from resolve_type_sound [OF r] r show ?thesis
    by (auto simp: llama_kv_tail_resolve_type_def cap_no_gather_def cap_native_def)
qed

text \<open>The planned ownership of a layer passes the ownership check exactly when the layer has no
  V body or its K and V bodies share one owner; otherwise the graph writer is reported.\<close>

theorem plan_ownership_valid:
  "llama_kv_tail_validate_layer_ownership
     (llama_kv_tail_plan_layer_ownership layer body_k body_v sk sv) =
   (if body_v = 0 \<or> body_v = body_k then LLAMA_KV_TAIL_OWNERSHIP_OK
    else LLAMA_KV_TAIL_OWNERSHIP_GRAPH_WRITE)"
  by (auto simp: llama_kv_tail_validate_layer_ownership_def llama_kv_tail_plan_layer_ownership_def)

section \<open>The storage plan\<close>

lemmas storage_plan_defs = llama_kv_tail_storage_plan_for_def storage_plan_sizes_def
  storage_plan_compact_def storage_plan_standard_def overlay_guard_def storage_shadow_def
  storage_promote_def storage_plan_init_def Let_def

lemma promoted_type_exact:
  "promoted_type rq t = Inr t' \<Longrightarrow> sr_exact_type rq \<in> {GGML_TYPE_F16, GGML_TYPE_BF16} \<Longrightarrow>
     ggml_is_quantized t' = Inr False"
proof -
  assume t': "promoted_type rq t = Inr t'" and e: "sr_exact_type rq \<in> {GGML_TYPE_F16, GGML_TYPE_BF16}"
  then obtain q where q: "ggml_is_quantized t = Inr q" "t' = (if q then sr_exact_type rq else t)"
    by (auto simp: promoted_type_def)
  have "ggml_is_quantized (sr_exact_type rq) = Inr False"
    using e by (auto simp: ggml_is_quantized_def)
  with q show ?thesis by (cases q) simp_all
qed

text \<open>What the planner knows when it has chosen a kind: the base plan it edits, and the edit.\<close>

lemma storage_sizes_base:
  assumes "storage_plan_sizes rq (storage_plan_init rq b) = Inr p1"
  shows "sp_kind p1 = LLAMA_KV_TAIL_STORAGE_DISABLED"
    and "sp_requested_body_type_k p1 = sr_body_type_k rq"
    and "sp_requested_body_type_v p1 = sr_body_type_v rq"
    and "sp_actual_body_type_k p1 = sr_body_type_k rq"
    and "sp_actual_body_type_v p1 = sr_body_type_v rq"
    and "sp_body_promoted p1 = False" and "sp_shadow_k p1 = False" and "sp_shadow_v p1 = False"
    and "sp_actual_body_bytes p1 = b" and "sp_requested_body_bytes p1 = b" and "sp_shadow_bytes p1 = 0"
  using assms by (auto simp: storage_plan_sizes_def storage_plan_init_def)

lemma storage_sizes_fields:
  assumes "storage_plan_sizes rq p = Inr p1"
  shows "sp_promotion_increment p1 = sr_physical_body_rows rq * sr_promotion_bytes_per_row rq"
    and "sp_overlay_increment p1 = total_slots (sp_layout p1) * sr_overlay_bytes_per_row rq"
    and "sp_compact_history_bytes p1 = history_slots (sp_compact_layout p1) * sr_overlay_bytes_per_row rq"
    and "sp_overlay_increment p1 \<le> UINT64_MAX" and "sp_compact_history_bytes p1 \<le> UINT64_MAX"
  using assms by (auto simp: storage_plan_sizes_def checked_tail_bytes_eq split: if_splits)

lemma storage_plan_cases:
  assumes "llama_kv_tail_storage_plan_for rq = Inr p" and "sp_kind p \<noteq> LLAMA_KV_TAIL_STORAGE_DISABLED"
  obtains b p1 pk pv full where
    "sr_exact_type rq \<in> {GGML_TYPE_F16, GGML_TYPE_BF16}"
    "checked_tail_bytes (sr_physical_body_rows rq) (sr_requested_body_bytes_per_row rq) = Inr b"
    "storage_plan_sizes rq (storage_plan_init rq b) = Inr p1"
    "promoted_type rq (sr_body_type_k rq) = Inr pk" "promoted_type rq (sr_body_type_v rq) = Inr pv"
    "storage_plan_compact rq pk pv full p1 = Inr p \<or> storage_plan_standard rq pk pv full p1 = Inr p"
proof -
  obtain b where b: "checked_tail_bytes (sr_physical_body_rows rq) (sr_requested_body_bytes_per_row rq) = Inr b"
    using assms(1) by (auto simp: llama_kv_tail_storage_plan_for_def)
  have init: "sp_kind (storage_plan_init rq b) = LLAMA_KV_TAIL_STORAGE_DISABLED"
    by (simp add: storage_plan_init_def)
  have e: "sr_exact_type rq \<in> {GGML_TYPE_F16, GGML_TYPE_BF16}"
    using assms init by (auto simp: llama_kv_tail_storage_plan_for_def b Let_def split: if_splits)
  obtain p1 pk pv where
    "storage_plan_sizes rq (storage_plan_init rq b) = Inr p1"
    "promoted_type rq (sr_body_type_k rq) = Inr pk" "promoted_type rq (sr_body_type_v rq) = Inr pv"
    "\<exists>full. storage_plan_compact rq pk pv full p1 = Inr p \<or> storage_plan_standard rq pk pv full p1 = Inr p"
    using assms init
    by (auto simp: llama_kv_tail_storage_plan_for_def b Let_def simp del: ex_simps split: if_splits)
  then show ?thesis using that b e by blast
qed

lemma storage_plan_compact_cases:
  assumes "storage_plan_compact rq pk pv full p1 = Inr p"
  obtains (native) "p = (storage_shadow rq pk pv (sp_compact_history_bytes p1) (storage_promote rq pk pv p1))\<lparr>
             sp_kind := LLAMA_KV_TAIL_STORAGE_COMPACT_NATIVE_EXACT,
             sp_actual_body_bytes := 0, sp_has_owned_body := False, sp_has_shared_body := False\<rparr>"
  | (overlay) "p = (storage_shadow rq pk pv (sp_compact_history_bytes p1) p1)\<lparr>
           sp_kind := LLAMA_KV_TAIL_STORAGE_COMPACT_OVERLAY\<rparr>"
      "sr_graph_consumes_exact_tail rq" "sr_overlay_placement_supported rq"
  using assms by (auto simp: storage_plan_compact_def overlay_guard_def split: if_splits)

lemma storage_plan_standard_cases:
  assumes "storage_plan_standard rq pk pv full p1 = Inr p"
  obtains (native) "p = (storage_promote rq pk pv p1)\<lparr>sp_kind := LLAMA_KV_TAIL_STORAGE_NATIVE_EXACT,
             sp_actual_body_bytes := sp_requested_body_bytes p1 + sp_promotion_increment p1\<rparr>"
      "sp_promotion_increment p1 \<le> UINT64_MAX - sp_requested_body_bytes p1"
      "sr_already_exact rq \<or> sp_promotion_increment p1 \<le> sp_overlay_increment p1"
  | (overlay) "p = (storage_shadow rq pk pv (sp_overlay_increment p1) p1)\<lparr>
           sp_kind := LLAMA_KV_TAIL_STORAGE_OVERLAY\<rparr>"
      "sr_graph_consumes_exact_tail rq" "sr_overlay_placement_supported rq"
  using assms by (auto simp: storage_plan_standard_def overlay_guard_def Let_def split: if_splits)

text \<open>An enabled plan never keeps exact history in a quantized type: the native kinds promote the
  body and every kind with a shadow gives the shadow a type that is not quantized. A body is
  reported as promoted only by the native kinds, and exactly when a body type changed.\<close>

theorem storage_plan_exact_types:
  assumes "llama_kv_tail_storage_plan_for rq = Inr p" and "sp_kind p \<noteq> LLAMA_KV_TAIL_STORAGE_DISABLED"
  shows "(sp_kind p \<in> {LLAMA_KV_TAIL_STORAGE_NATIVE_EXACT, LLAMA_KV_TAIL_STORAGE_COMPACT_NATIVE_EXACT} \<longrightarrow>
      ggml_is_quantized (sp_actual_body_type_k p) = Inr False \<and>
      ggml_is_quantized (sp_actual_body_type_v p) = Inr False) \<and>
    (sp_shadow_k p \<longrightarrow> ggml_is_quantized (sp_shadow_type_k p) = Inr False) \<and>
    (sp_shadow_v p \<longrightarrow> ggml_is_quantized (sp_shadow_type_v p) = Inr False) \<and>
    (sp_body_promoted p \<longleftrightarrow> sp_actual_body_type_k p \<noteq> sp_requested_body_type_k p \<or>
       sp_actual_body_type_v p \<noteq> sp_requested_body_type_v p)"
proof -
  from assms obtain b p1 pk pv full where p:
    "sr_exact_type rq \<in> {GGML_TYPE_F16, GGML_TYPE_BF16}"
    "storage_plan_sizes rq (storage_plan_init rq b) = Inr p1"
    "promoted_type rq (sr_body_type_k rq) = Inr pk" "promoted_type rq (sr_body_type_v rq) = Inr pv"
    "storage_plan_compact rq pk pv full p1 = Inr p \<or> storage_plan_standard rq pk pv full p1 = Inr p"
    by (rule storage_plan_cases)
  have q: "ggml_is_quantized pk = Inr False" "ggml_is_quantized pv = Inr False"
    using promoted_type_exact p by blast+
  note base = q storage_sizes_base [OF p(2)] storage_shadow_def storage_promote_def
  from p(5) show ?thesis
  proof
    assume "storage_plan_compact rq pk pv full p1 = Inr p"
    then show ?thesis by (cases rule: storage_plan_compact_cases) (simp_all add: base)
  next
    assume "storage_plan_standard rq pk pv full p1 = Inr p"
    then show ?thesis by (cases rule: storage_plan_standard_cases) (simp_all add: base)
  qed
qed

text \<open>The bytes a plan charges are those its kind allocates, computed without wrap-around: an
  overlay charges its whole arena, the compact kinds their history slots, the native kind the
  body and its promotion. The native kind is chosen over the overlay only for a body that is
  already exact or when it is not more expensive, and no overlay is planned for a graph that does
  not read it or a placement that does not support it.\<close>

theorem storage_plan_bytes:
  assumes "llama_kv_tail_storage_plan_for rq = Inr p" and "sp_kind p \<noteq> LLAMA_KV_TAIL_STORAGE_DISABLED"
  shows "sp_shadow_bytes p =
      (case sp_kind p of
         LLAMA_KV_TAIL_STORAGE_OVERLAY \<Rightarrow> total_slots (sp_layout p) * sr_overlay_bytes_per_row rq
       | LLAMA_KV_TAIL_STORAGE_NATIVE_EXACT \<Rightarrow> 0
       | _ \<Rightarrow> history_slots (sp_compact_layout p) * sr_overlay_bytes_per_row rq) \<and>
    sp_actual_body_bytes p =
      (case sp_kind p of
         LLAMA_KV_TAIL_STORAGE_NATIVE_EXACT \<Rightarrow> sr_physical_body_rows rq *
           (sr_requested_body_bytes_per_row rq + sr_promotion_bytes_per_row rq)
       | LLAMA_KV_TAIL_STORAGE_COMPACT_NATIVE_EXACT \<Rightarrow> 0
       | _ \<Rightarrow> sr_physical_body_rows rq * sr_requested_body_bytes_per_row rq) \<and>
    sp_shadow_bytes p \<le> UINT64_MAX \<and> sp_actual_body_bytes p \<le> UINT64_MAX \<and>
    (sp_kind p = LLAMA_KV_TAIL_STORAGE_NATIVE_EXACT \<longrightarrow> sr_already_exact rq \<or>
       sr_physical_body_rows rq * sr_promotion_bytes_per_row rq \<le>
       total_slots (sp_layout p) * sr_overlay_bytes_per_row rq) \<and>
    (sp_kind p \<in> {LLAMA_KV_TAIL_STORAGE_OVERLAY, LLAMA_KV_TAIL_STORAGE_COMPACT_OVERLAY} \<longrightarrow>
       sr_graph_consumes_exact_tail rq \<and> sr_overlay_placement_supported rq)"
proof -
  from assms obtain b p1 pk pv full where p:
    "checked_tail_bytes (sr_physical_body_rows rq) (sr_requested_body_bytes_per_row rq) = Inr b"
    "storage_plan_sizes rq (storage_plan_init rq b) = Inr p1"
    "storage_plan_compact rq pk pv full p1 = Inr p \<or> storage_plan_standard rq pk pv full p1 = Inr p"
    by (rule storage_plan_cases)
  have b: "b = sr_physical_body_rows rq * sr_requested_body_bytes_per_row rq" "b \<le> UINT64_MAX"
    using p(1) by (auto simp: checked_tail_bytes_eq split: if_splits)
  note f = storage_sizes_fields [OF p(2)]
  note base = storage_sizes_base [OF p(2)] storage_shadow_def storage_promote_def
  from p(3) show ?thesis
  proof
    assume "storage_plan_compact rq pk pv full p1 = Inr p"
    then show ?thesis
      by (cases rule: storage_plan_compact_cases) (use b f(3,5) in \<open>simp_all add: base\<close>)
  next
    assume "storage_plan_standard rq pk pv full p1 = Inr p"
    then show ?thesis
      by (cases rule: storage_plan_standard_cases)
        (use b f(1,2,4) in \<open>simp_all add: base distrib_left\<close>)
  qed
qed

definition storage_request_example :: llama_kv_tail_storage_request where
  "storage_request_example = \<lparr>sr_body_type_k = GGML_TYPE_Q8_0, sr_body_type_v = GGML_TYPE_Q4_0,
     sr_exact_type = GGML_TYPE_F16, sr_requested_tokens = 1024, sr_effective_tokens = 1024,
     sr_n_seq_max = 2, sr_n_ubatch = 512, sr_visibility_window = 32768,
     sr_physical_body_rows = 32768, sr_requested_body_bytes_per_row = 800,
     sr_promotion_bytes_per_row = 1248, sr_overlay_bytes_per_row = 2048,
     sr_native_capable = True, sr_already_exact = False, sr_has_owned_body = True,
     sr_has_shared_body = False, sr_shadow_k_capable = True, sr_shadow_v_capable = True,
     sr_graph_consumes_exact_tail = True, sr_overlay_placement_supported = True,
     sr_rollback_tokens = 0, sr_compact_history_capable = False,
     sr_compact_current_source_capable = False, sr_compact_ordered_commit_capable = False,
     sr_full_window_body_can_be_omitted = False\<rparr>"

lemma storage_request_example_plan:
  "\<exists>p. llama_kv_tail_storage_plan_for storage_request_example = Inr p \<and>
     sp_kind p = LLAMA_KV_TAIL_STORAGE_OVERLAY \<and> sp_shadow_k p \<and> total_slots (sp_layout p) = 3584"
  by (simp add: storage_plan_defs storage_request_example_def checked_tail_bytes_eq
      llama_kv_tail_layout_for_def llama_kv_tail_compact_layout_for_def tail_fa_stride_def
      checked_tail_slot_count_eq promoted_type_def ggml_is_quantized_def)

theorem storage_plan_exact_types_witness:
  "\<exists>p. llama_kv_tail_storage_plan_for storage_request_example = Inr p \<and>
     ggml_is_quantized (sp_shadow_type_k p) = Inr False"
  using storage_request_example_plan storage_plan_exact_types [of storage_request_example] by fastforce

theorem storage_plan_bytes_witness:
  "\<exists>p. llama_kv_tail_storage_plan_for storage_request_example = Inr p \<and>
     sp_shadow_bytes p = 3584 * 2048"
proof -
  obtain p where p: "llama_kv_tail_storage_plan_for storage_request_example = Inr p"
      "sp_kind p = LLAMA_KV_TAIL_STORAGE_OVERLAY" "total_slots (sp_layout p) = 3584"
    using storage_request_example_plan by blast
  then show ?thesis using storage_plan_bytes [OF p(1)] by (simp add: storage_request_example_def)
qed

end
