(* ===== verification/TailStore.thy ===== *)
theory TailStore
  imports TailPlan "HOL-Library.Product_Lexorder" "HOL-Library.Multiset"
begin

text \<open>
  The metadata store of the exact KV tail, \<^verbatim>\<open>class llama_kv_tail_store\<close> of
  \<^verbatim>\<open>src/llama-kv-cache-tail.cpp\<close>: for every sequence the ordered entries whose exact payload is
  kept, the arena of payload slots they own, and the transactions (a batch, a pending sequence
  copy) that can be undone. Every member function is modelled.

  The source keeps parallel vectors indexed by the sequence (\<^verbatim>\<open>sequences\<close>,
  \<^verbatim>\<open>entry_by_cell\<close>, \<^verbatim>\<open>slot_used\<close>, \<^verbatim>\<open>write_cursors\<close>, \<^verbatim>\<open>degradation\<close>,
  \<^verbatim>\<open>recovery_commits\<close>); the model keeps one list of records with those fields. The map
  \<^verbatim>\<open>entry_by_cell\<close> sends a cell key to the list node of the entry: since an entry's identity is
  never changed in place, the node is the one whose key it is, and the model keeps the set of keys
  and finds the node by its key.
\<close>

section \<open>Data\<close>

unbundle bit_operations_syntax

definition LLAMA_KV_TAIL_BODY_SLOT :: int where
  "LLAMA_KV_TAIL_BODY_SLOT = -1"

definition LLAMA_KV_TAIL_DEGRADED_BODY_ONLY_STATE :: nat where
  "LLAMA_KV_TAIL_DEGRADED_BODY_ONLY_STATE = push_bit 0 1"

definition LLAMA_KV_TAIL_DEGRADED_HISTORICAL_OP :: nat where
  "LLAMA_KV_TAIL_DEGRADED_HISTORICAL_OP = push_bit 1 1"

definition LLAMA_KV_TAIL_DEGRADED_STATE_RESTORE :: nat where
  "LLAMA_KV_TAIL_DEGRADED_STATE_RESTORE = push_bit 2 1"

definition LLAMA_KV_TAIL_DEGRADED_PAYLOAD_INVALID :: nat where
  "LLAMA_KV_TAIL_DEGRADED_PAYLOAD_INVALID = push_bit 3 1"

record llama_kv_tail_identity =
  id_stream :: nat
  id_cell :: nat
  id_generation :: nat

record exact_entry =
  ee_identity :: llama_kv_tail_identity
  ee_position :: int
  ee_ordinal :: nat
  ee_slot :: int

record tail_seq =
  ts_entries :: "exact_entry list"
  ts_index :: "nat set"
  ts_used :: "bool list"
  ts_cursor :: nat
  ts_degradation :: nat
  ts_recovery :: nat

record pending_seq_cp_state =
  pc_src :: int
  pc_dst :: int
  pc_destination :: "exact_entry list"
  pc_copies :: "(int \<times> int) list"
  pc_acquired :: "int list"
  pc_degradation :: nat
  pc_recovery :: nat

record batch_transaction_state =
  bt_seqs :: "tail_seq list"
  bt_current :: "exact_entry list list"
  bt_affected :: "bool list"

record llama_kv_tail_store =
  st_n_tokens :: nat
  st_rollback_tokens :: nat
  st_history_limit :: nat
  st_arena_stride :: nat
  st_n_slots :: nat
  st_compact_storage :: bool
  st_seqs :: "tail_seq list"
  st_pending :: "pending_seq_cp_state option"
  st_batch :: "batch_transaction_state option"
  st_in_batch :: bool

text \<open>The order of entries, as every comparison lambda of the source writes it: by position, then by
  insertion ordinal.\<close>

definition entry_key :: "exact_entry \<Rightarrow> int \<times> nat" where
  "entry_key e = (ee_position e, ee_ordinal e)"

definition cell_key :: "nat \<Rightarrow> nat \<Rightarrow> nat" where
  "cell_key stream cell = push_bit 32 stream OR cell"

definition id_key :: "llama_kv_tail_identity \<Rightarrow> nat" where
  "id_key i = cell_key (id_stream i) (id_cell i)"

abbreviation ee_key :: "exact_entry \<Rightarrow> nat" where
  "ee_key e \<equiv> id_key (ee_identity e)"

section \<open>Construction\<close>

definition tail_seq_empty :: "nat \<Rightarrow> tail_seq" where
  "tail_seq_empty stride = \<lparr>ts_entries = [], ts_index = {}, ts_used = replicate stride False,
     ts_cursor = 0, ts_degradation = 0, ts_recovery = 0\<rparr>"

definition tail_store_standard :: "nat \<Rightarrow> nat \<Rightarrow> nat \<Rightarrow> nat \<Rightarrow> llama_kv_tail_store res" where
  "tail_store_standard n_tokens n_seq_max stride sink =
     bind_r (checked_tail_slot_count stride n_seq_max sink) (\<lambda>n_slots.
       if n_tokens > 0 \<and> stride < n_tokens then Inl Invalid_argument
       else Inr \<lparr>st_n_tokens = n_tokens, st_rollback_tokens = 0, st_history_limit = n_tokens,
         st_arena_stride = stride, st_n_slots = n_slots, st_compact_storage = False,
         st_seqs = replicate n_seq_max (tail_seq_empty stride),
         st_pending = None, st_batch = None, st_in_batch = False\<rparr>)"

definition tail_store_even :: "nat \<Rightarrow> nat \<Rightarrow> nat \<Rightarrow> llama_kv_tail_store res" where
  "tail_store_even n_tokens n_seq_max n_slots =
     bind_r (tail_store_standard n_tokens n_seq_max
               (if n_seq_max = 0 then 0 else n_slots div n_seq_max)
               (if n_seq_max = 0 then n_slots else n_slots mod n_seq_max)) (\<lambda>t.
       if n_seq_max = 0 \<or> n_slots mod n_seq_max \<noteq> 0 then Inl Invalid_argument else Inr t)"

definition tail_store_compact :: "nat \<Rightarrow> nat \<Rightarrow> nat \<Rightarrow> nat \<Rightarrow> nat \<Rightarrow> llama_kv_tail_store res" where
  "tail_store_compact n_tokens rollback n_seq_max stride sink =
     bind_r (checked_tail_history_limit n_tokens rollback) (\<lambda>limit.
     bind_r (checked_tail_slot_count stride n_seq_max sink) (\<lambda>n_slots.
       if stride < limit then Inl Invalid_argument
       else Inr \<lparr>st_n_tokens = n_tokens, st_rollback_tokens = rollback, st_history_limit = limit,
         st_arena_stride = stride, st_n_slots = n_slots, st_compact_storage = True,
         st_seqs = replicate n_seq_max (tail_seq_empty stride),
         st_pending = None, st_batch = None, st_in_batch = False\<rparr>))"

section \<open>Private helpers, on one sequence\<close>

definition valid_seq :: "llama_kv_tail_store \<Rightarrow> int \<Rightarrow> bool" where
  "valid_seq t s = (s \<ge> 0 \<and> nat s < length (st_seqs t))"

definition tail_limit :: "llama_kv_tail_store \<Rightarrow> nat" where
  "tail_limit t = (if st_compact_storage t then st_history_limit t else st_n_tokens t)"

text \<open>\<^verbatim>\<open>release\<close> and \<^verbatim>\<open>acquire\<close>, on the arena of sequence \<open>s\<close>.\<close>

definition release :: "nat \<Rightarrow> nat \<Rightarrow> int \<Rightarrow> bool list \<Rightarrow> bool list res" where
  "release stride s slot used =
     (if slot < 0 then Inr used
      else let base = u32 (s * stride)
           in assert_r (nat slot \<ge> base \<and> nat slot < base + stride)
                (Inr (used[nat slot - base := False])))"

definition slot_at :: "nat \<Rightarrow> nat \<Rightarrow> nat \<Rightarrow> int" where
  "slot_at stride s loc = i32_of_u32 (u32 (s * stride + loc))"

definition acquire :: "nat \<Rightarrow> nat \<Rightarrow> tail_seq \<Rightarrow> (int \<times> tail_seq) res" where
  "acquire stride s q =
     (case find (\<lambda>offset. \<not> ts_used q ! (u32 (ts_cursor q + offset) mod stride)) [0..<stride] of
        None \<Rightarrow> Inl Runtime_error
      | Some offset \<Rightarrow>
          let loc = u32 (ts_cursor q + offset) mod stride
          in Inr (slot_at stride s loc,
                  q\<lparr>ts_used := (ts_used q)[loc := True],
                    ts_cursor := u32 (loc + 1) mod stride\<rparr>))"

definition rebuild_index :: "tail_seq \<Rightarrow> tail_seq res" where
  "rebuild_index q =
     bind_r (fold_r (\<lambda>e idx. if ee_key e \<in> idx then Inl Logic_error else Inr (insert (ee_key e) idx))
               (ts_entries q) {})
       (\<lambda>idx. Inr (q\<lparr>ts_index := idx\<rparr>))"

text \<open>Removing the list node of a key, and updating it in place.\<close>

fun remove_first :: "('a \<Rightarrow> bool) \<Rightarrow> 'a list \<Rightarrow> 'a list" where
  "remove_first P [] = []"
| "remove_first P (x # xs) = (if P x then xs else x # remove_first P xs)"

fun update_first :: "('a \<Rightarrow> bool) \<Rightarrow> ('a \<Rightarrow> 'a) \<Rightarrow> 'a list \<Rightarrow> 'a list" where
  "update_first P f [] = []"
| "update_first P f (x # xs) = (if P x then f x # xs else x # update_first P f xs)"

definition find_entry :: "tail_seq \<Rightarrow> nat \<Rightarrow> exact_entry option" where
  "find_entry q k = (if k \<in> ts_index q then find (\<lambda>e. ee_key e = k) (ts_entries q) else None)"

definition erase_entry :: "nat \<Rightarrow> nat \<Rightarrow> exact_entry \<Rightarrow> bool \<Rightarrow> tail_seq \<Rightarrow> tail_seq res" where
  "erase_entry stride s e release_slot q =
     bind_r (if release_slot then release stride s (ee_slot e) (ts_used q) else Inr (ts_used q)) (\<lambda>used.
       Inr (q\<lparr>ts_used := used, ts_index := ts_index q - {ee_key e},
              ts_entries := remove_first (\<lambda>x. ee_key x = ee_key e) (ts_entries q)\<rparr>))"

text \<open>The loop of \<^verbatim>\<open>trim\<close> drops the front entry as long as there are more than \<open>limit\<close>.\<close>

fun trim_loop :: "nat \<Rightarrow> nat \<Rightarrow> nat \<Rightarrow> tail_seq \<Rightarrow> tail_seq res" where
  "trim_loop stride s 0 q = Inr q"
| "trim_loop stride s (Suc n) q =
     (case ts_entries q of
        [] \<Rightarrow> Inr q
      | e # es \<Rightarrow>
          bind_r (release stride s (ee_slot e) (ts_used q)) (\<lambda>used.
            trim_loop stride s n
              (q\<lparr>ts_index := ts_index q - {ee_key e}, ts_used := used, ts_entries := es\<rparr>)))"

definition trim :: "nat \<Rightarrow> nat \<Rightarrow> nat \<Rightarrow> tail_seq \<Rightarrow> tail_seq res" where
  "trim stride s limit q = trim_loop stride s (length (ts_entries q) - limit) q"

text \<open>The erase loops of the sequence operations: every entry that satisfies \<open>P\<close> gives its slot back
  and leaves the list.\<close>

definition erase_if :: "nat \<Rightarrow> nat \<Rightarrow> (exact_entry \<Rightarrow> bool) \<Rightarrow> tail_seq \<Rightarrow> tail_seq res" where
  "erase_if stride s P q =
     bind_r (fold_r (\<lambda>e used. release stride s (ee_slot e) used) (filter P (ts_entries q)) (ts_used q))
       (\<lambda>used. Inr (q\<lparr>ts_entries := filter (\<lambda>e. \<not> P e) (ts_entries q), ts_used := used\<rparr>))"

definition insert_entry :: "exact_entry \<Rightarrow> exact_entry list \<Rightarrow> exact_entry list" where
  "insert_entry a es =
     takeWhile (\<lambda>e. \<not> entry_key a < entry_key e) es @ a # dropWhile (\<lambda>e. \<not> entry_key a < entry_key e) es"

text \<open>A loop over all sequences.\<close>

definition for_seqs ::
    "(nat \<Rightarrow> tail_seq \<Rightarrow> tail_seq res) \<Rightarrow> llama_kv_tail_store \<Rightarrow> llama_kv_tail_store res" where
  "for_seqs f t =
     fold_r (\<lambda>s t. bind_r (f s (st_seqs t ! s)) (\<lambda>q. Inr (t\<lparr>st_seqs := (st_seqs t)[s := q]\<rparr>)))
       [0..<length (st_seqs t)] t"

section \<open>Transactions and degradation\<close>

definition cancel_seq_cp :: "llama_kv_tail_store \<Rightarrow> llama_kv_tail_store res" where
  "cancel_seq_cp t =
     (case st_pending t of
        None \<Rightarrow> Inr t
      | Some p \<Rightarrow>
          let s = nat (pc_dst p) in
          bind_r (fold_r (\<lambda>slot used. if valid_seq t (pc_dst p)
                      then release (st_arena_stride t) s slot used else Inr used)
                    (pc_acquired p) (ts_used (st_seqs t ! s))) (\<lambda>used.
            Inr (t\<lparr>st_seqs := (st_seqs t)[s := (st_seqs t ! s)\<lparr>ts_used := used\<rparr>],
                   st_pending := None\<rparr>)))"

definition tail_clear :: "llama_kv_tail_store \<Rightarrow> llama_kv_tail_store res" where
  "tail_clear t =
     bind_r (cancel_seq_cp t) (\<lambda>t.
       Inr (t\<lparr>st_batch := None, st_in_batch := False,
              st_seqs := map (\<lambda>q. q\<lparr>ts_entries := [], ts_index := {}, ts_degradation := 0,
                 ts_recovery := 0, ts_cursor := 0, ts_used := map (\<lambda>_. False) (ts_used q)\<rparr>)
                (st_seqs t)\<rparr>))"

definition degrade :: "nat \<Rightarrow> tail_seq \<Rightarrow> tail_seq" where
  "degrade flags q = q\<lparr>ts_degradation := ts_degradation q OR flags, ts_recovery := 0\<rparr>"

definition degrade_pending :: "nat \<Rightarrow> pending_seq_cp_state \<Rightarrow> pending_seq_cp_state" where
  "degrade_pending flags p = p\<lparr>pc_degradation := pc_degradation p OR flags, pc_recovery := 0\<rparr>"

definition mark_degraded :: "int \<Rightarrow> nat \<Rightarrow> llama_kv_tail_store \<Rightarrow> llama_kv_tail_store" where
  "mark_degraded seq_id flags t =
     (if seq_id < 0
      then t\<lparr>st_seqs := map (degrade flags) (st_seqs t),
             st_pending := map_option (degrade_pending flags) (st_pending t)\<rparr>
      else if valid_seq t seq_id then
        (case st_pending t of
           Some p \<Rightarrow> if pc_dst p = seq_id then t\<lparr>st_pending := Some (degrade_pending flags p)\<rparr>
                     else t\<lparr>st_seqs := (st_seqs t)[nat seq_id := degrade flags (st_seqs t ! nat seq_id)]\<rparr>
         | None \<Rightarrow> t\<lparr>st_seqs := (st_seqs t)[nat seq_id := degrade flags (st_seqs t ! nat seq_id)]\<rparr>)
      else t)"

definition invalidate_slots :: "int list \<Rightarrow> nat \<Rightarrow> llama_kv_tail_store \<Rightarrow> llama_kv_tail_store res" where
  "invalidate_slots slots flags t =
     for_seqs (\<lambda>s q.
       bind_r (erase_if (st_arena_stride t) s (\<lambda>e. ee_slot e \<in> set slots) q) (\<lambda>q'.
         if \<exists>e \<in> set (ts_entries q). ee_slot e \<in> set slots
         then bind_r (rebuild_index q') (\<lambda>q'. Inr (degrade flags q')) else Inr q')) t"

definition begin_batch :: "llama_kv_tail_store \<Rightarrow> llama_kv_tail_store res" where
  "begin_batch t =
     bind_r (if st_compact_storage t then
               (if st_batch t \<noteq> None then Inl Logic_error
                else Inr (t\<lparr>st_batch := Some \<lparr>bt_seqs = st_seqs t,
                       bt_current = replicate (length (st_seqs t)) [],
                       bt_affected = replicate (length (st_seqs t)) False\<rparr>\<rparr>))
             else Inr t) (\<lambda>t.
     bind_r (for_seqs (\<lambda>s q. trim (st_arena_stride t) s (tail_limit t) q) t) (\<lambda>t.
       Inr (t\<lparr>st_in_batch := True\<rparr>)))"

definition finish_batch :: "bool \<Rightarrow> bool \<Rightarrow> llama_kv_tail_store \<Rightarrow> llama_kv_tail_store res" where
  "finish_batch success payload_may_be_modified t =
     (if \<not> st_compact_storage t then Inr (t\<lparr>st_in_batch := False\<rparr>)
      else case st_batch t of
        None \<Rightarrow> Inr t
      | Some tx \<Rightarrow>
          bind_r (if success then Inr t
            else for_seqs (\<lambda>s q.
              bind_r (rebuild_index q) (\<lambda>q.
                if \<not> payload_may_be_modified \<or> \<not> bt_affected tx ! s then Inr q
                else bind_r (erase_if (st_arena_stride t) s (\<lambda>_. True) q) (\<lambda>q.
                  Inr (degrade LLAMA_KV_TAIL_DEGRADED_PAYLOAD_INVALID (q\<lparr>ts_index := {}\<rparr>)))))
              (t\<lparr>st_seqs := bt_seqs tx\<rparr>)) (\<lambda>t.
          Inr (t\<lparr>st_batch := None, st_in_batch := False\<rparr>)))"

section \<open>Commit and recycle\<close>

text \<open>The result of \<^verbatim>\<open>commit\<close>: the slot of the entry if it is still retained.\<close>

definition retained_slot :: "tail_seq \<Rightarrow> llama_kv_tail_identity \<Rightarrow> int" where
  "retained_slot q i =
     (case find_entry q (id_key i) of
        None \<Rightarrow> LLAMA_KV_TAIL_BODY_SLOT
      | Some e \<Rightarrow> if ee_identity e = i then ee_slot e else LLAMA_KV_TAIL_BODY_SLOT)"

definition record_current ::
    "nat \<Rightarrow> llama_kv_tail_identity \<Rightarrow> int \<Rightarrow> nat \<Rightarrow> nat \<Rightarrow> int \<Rightarrow> llama_kv_tail_store \<Rightarrow>
     llama_kv_tail_store res" where
  "record_current s i position ordinal current_row slot t =
     (case st_batch t of
        None \<Rightarrow> Inr t
      | Some tx \<Rightarrow>
          if current_row \<noteq> UINT32_MAX \<and> slot \<ge> 0 then
            let virtual_slot = st_n_slots t + current_row
            in if virtual_slot > INT32_MAX then Inl Overflow_error
               else Inr (t\<lparr>st_batch := Some (tx\<lparr>
                 bt_current := (bt_current tx)[s := bt_current tx ! s @
                   [\<lparr>ee_identity = i, ee_position = position, ee_ordinal = ordinal,
                     ee_slot = int virtual_slot\<rparr>]],
                 bt_affected := (bt_affected tx)[s := True]\<rparr>)\<rparr>)
          else Inr t)"

text \<open>The insertion of a new entry, with the append fast path of the source.\<close>

definition insert_or_append :: "exact_entry \<Rightarrow> exact_entry list \<Rightarrow> exact_entry list" where
  "insert_or_append a es =
     (if es = [] \<or> ee_position (last es) < ee_position a \<or>
         (ee_position (last es) = ee_position a \<and> ee_ordinal (last es) \<le> ee_ordinal a)
      then es @ [a] else insert_entry a es)"

definition count_recovery :: "nat \<Rightarrow> tail_seq \<Rightarrow> tail_seq" where
  "count_recovery n_tokens q =
     (if ts_degradation q \<noteq> 0
      then let r = u32 (ts_recovery q + 1)
           in if r \<ge> n_tokens then q\<lparr>ts_degradation := 0, ts_recovery := 0\<rparr>
              else q\<lparr>ts_recovery := r\<rparr>
      else q)"

text \<open>The slot of a new entry: the evicted front entry's, or a free one of the arena.\<close>

definition obtain_slot ::
    "llama_kv_tail_store \<Rightarrow> nat \<Rightarrow> tail_seq \<Rightarrow> (int \<times> tail_seq) res" where
  "obtain_slot t s q =
     (if (st_compact_storage t \<or> \<not> st_in_batch t) \<and> length (ts_entries q) \<ge> tail_limit t \<and>
         ts_entries q \<noteq> []
      then bind_r (erase_entry (st_arena_stride t) s (hd (ts_entries q)) False q) (\<lambda>q'.
             Inr (ee_slot (hd (ts_entries q)), q'))
      else acquire (st_arena_stride t) s q)"

definition commit_refresh ::
    "llama_kv_tail_store \<Rightarrow> nat \<Rightarrow> llama_kv_tail_identity \<Rightarrow> int \<Rightarrow> nat \<Rightarrow> tail_seq \<Rightarrow> tail_seq res" where
  "commit_refresh t s i position ordinal q =
     trim (st_arena_stride t) s (tail_limit t)
       (q\<lparr>ts_entries := sort_key entry_key
          (update_first (\<lambda>e. ee_key e = id_key i)
             (\<lambda>e. e\<lparr>ee_position := position, ee_ordinal := ordinal\<rparr>) (ts_entries q))\<rparr>)"

definition commit_insert ::
    "llama_kv_tail_store \<Rightarrow> nat \<Rightarrow> llama_kv_tail_identity \<Rightarrow> int \<Rightarrow> nat \<Rightarrow> tail_seq \<Rightarrow> tail_seq res" where
  "commit_insert t s i position ordinal q =
     bind_r (case find_entry q (id_key i) of
               Some e \<Rightarrow> erase_entry (st_arena_stride t) s e True q | None \<Rightarrow> Inr q) (\<lambda>q.
     bind_r (obtain_slot t s q) (\<lambda>(slot, q).
     let a = \<lparr>ee_identity = i, ee_position = position, ee_ordinal = ordinal, ee_slot = slot\<rparr>;
         q = q\<lparr>ts_entries := insert_or_append a (ts_entries q),
               ts_index := insert (id_key i) (ts_index q)\<rparr>;
         q = count_recovery (st_n_tokens t) q
     in if \<not> st_in_batch t then trim (st_arena_stride t) s (tail_limit t) q else Inr q))"

definition tail_commit ::
    "int \<Rightarrow> llama_kv_tail_identity \<Rightarrow> int \<Rightarrow> nat \<Rightarrow> nat \<Rightarrow> llama_kv_tail_store \<Rightarrow>
     (int \<times> llama_kv_tail_store) res" where
  "tail_commit seq_id i position ordinal current_row t =
     (if \<not> valid_seq t seq_id \<or> st_n_tokens t = 0 then Inr (LLAMA_KV_TAIL_BODY_SLOT, t)
      else
        let s = nat seq_id; q = st_seqs t ! s;
            refresh = (case find_entry q (id_key i) of Some e \<Rightarrow> ee_identity e = i | None \<Rightarrow> False)
        in bind_r (if refresh then commit_refresh t s i position ordinal q
                   else commit_insert t s i position ordinal q) (\<lambda>q'.
           let slot = retained_slot q' i
           in bind_r (record_current s i position ordinal current_row slot
                        (t\<lparr>st_seqs := (st_seqs t)[s := q']\<rparr>)) (\<lambda>t'.
              Inr (slot, t'))))"

definition recycle :: "nat \<Rightarrow> nat \<Rightarrow> nat \<Rightarrow> llama_kv_tail_store \<Rightarrow> llama_kv_tail_store res" where
  "recycle stream cell next_generation t =
     fold_r (\<lambda>s t.
         case find_entry (st_seqs t ! s) (cell_key stream cell) of
           None \<Rightarrow> Inr t
         | Some e \<Rightarrow>
             if id_generation (ee_identity e) \<noteq> next_generation then
               let t = (case st_batch t of None \<Rightarrow> t
                        | Some tx \<Rightarrow> t\<lparr>st_batch := Some (tx\<lparr>bt_affected := (bt_affected tx)[s := True]\<rparr>)\<rparr>)
               in bind_r (erase_entry (st_arena_stride t) s e True (st_seqs t ! s)) (\<lambda>q.
                    Inr (t\<lparr>st_seqs := (st_seqs t)[s := q]\<rparr>))
             else Inr t)
       [0..<length (st_seqs t)] t"

section \<open>Sequence copies\<close>

definition in_range :: "int \<Rightarrow> int \<Rightarrow> exact_entry \<Rightarrow> bool" where
  "in_range p0 p1 e = (ee_position e \<ge> p0 \<and> (p1 < 0 \<or> ee_position e < p1))"

text \<open>A candidate is an entry of the future destination with the slot its payload is in now and
  whether that payload has to be copied.\<close>

type_synonym cp_candidate = "exact_entry \<times> int \<times> bool"

definition cp_candidates ::
    "llama_kv_tail_store \<Rightarrow> nat \<Rightarrow> nat \<Rightarrow> nat \<Rightarrow> nat \<Rightarrow> int \<Rightarrow> int \<Rightarrow> cp_candidate list" where
  "cp_candidates t src dst src_stream dst_stream p0 p1 =
     (let source = filter (\<lambda>e. id_stream (ee_identity e) = src_stream \<and> in_range p0 p1 e)
                     (ts_entries (st_seqs t ! src));
          kept = filter (\<lambda>e. \<not> in_range p0 p1 e) (ts_entries (st_seqs t ! dst));
          cands = map (\<lambda>e. (e, ee_slot e, False)) kept @
            map (\<lambda>e. (e\<lparr>ee_identity := (ee_identity e)\<lparr>id_stream := dst_stream\<rparr>,
                        ee_slot := LLAMA_KV_TAIL_BODY_SLOT\<rparr>, ee_slot e, True)) source;
          cands = sort_key (entry_key \<circ> fst) cands
      in drop (length cands - tail_limit t) cands)"

definition cp_survivors :: "cp_candidate list \<Rightarrow> int set" where
  "cp_survivors cands = set (map (ee_slot \<circ> fst) (filter (\<lambda>(e, src_slot, copied). \<not> copied) cands))"

text \<open>The state of the loop that gives every copied candidate a slot: the destination's arena, the
  reusable slots still free, the destination built so far, the copies and the acquired slots.\<close>

record cp_state =
  cs_seq :: tail_seq
  cs_reusable :: "int list"
  cs_destination :: "exact_entry list"
  cs_copies :: "(int \<times> int) list"
  cs_acquired :: "int list"

definition cp_step :: "nat \<Rightarrow> nat \<Rightarrow> cp_candidate \<Rightarrow> cp_state \<Rightarrow> cp_state res" where
  "cp_step stride dst cand c =
     (case cand of (e, src_slot, copied) \<Rightarrow>
        if copied then
          bind_r (if cs_reusable c \<noteq> []
                  then Inr (last (cs_reusable c), c\<lparr>cs_reusable := butlast (cs_reusable c)\<rparr>)
                  else bind_r (acquire stride dst (cs_seq c)) (\<lambda>(slot, q).
                    Inr (slot, c\<lparr>cs_seq := q, cs_acquired := cs_acquired c @ [slot]\<rparr>))) (\<lambda>(slot, c).
            Inr (c\<lparr>cs_copies := cs_copies c @ [(src_slot, slot)],
                   cs_destination := cs_destination c @ [e\<lparr>ee_slot := slot\<rparr>]\<rparr>))
        else Inr (c\<lparr>cs_destination := cs_destination c @ [e]\<rparr>))"

definition prepare_seq_cp ::
    "int \<Rightarrow> int \<Rightarrow> nat \<Rightarrow> nat \<Rightarrow> int \<Rightarrow> int \<Rightarrow> llama_kv_tail_store \<Rightarrow>
     ((int \<times> int) list \<times> llama_kv_tail_store) res" where
  "prepare_seq_cp src dst src_stream dst_stream p0 p1 t =
     (if \<not> valid_seq t src \<or> \<not> valid_seq t dst \<or> src = dst then Inr ([], t)
      else if st_pending t \<noteq> None then Inl Logic_error
      else
        let s = nat src; d = nat dst; qd = st_seqs t ! d; qs = st_seqs t ! s;
            cands = cp_candidates t s d src_stream dst_stream p0 p1;
            reusable = filter (\<lambda>x. x \<notin> cp_survivors cands) (map ee_slot (ts_entries qd))
        in bind_r (fold_r (cp_step (st_arena_stride t) d) cands
                     \<lparr>cs_seq = qd, cs_reusable = reusable, cs_destination = [], cs_copies = [],
                      cs_acquired = []\<rparr>) (\<lambda>c.
           let flags = ts_degradation qd OR ts_degradation qs
           in Inr (cs_copies c,
                t\<lparr>st_seqs := (st_seqs t)[d := cs_seq c],
                  st_pending := Some \<lparr>pc_src = src, pc_dst = dst, pc_destination = cs_destination c,
                    pc_copies = cs_copies c, pc_acquired = cs_acquired c, pc_degradation = flags,
                    pc_recovery = (if flags = 0 then min (ts_recovery qd) (ts_recovery qs) else 0)\<rparr>\<rparr>)))"

definition commit_seq_cp :: "llama_kv_tail_store \<Rightarrow> llama_kv_tail_store res" where
  "commit_seq_cp t =
     (case st_pending t of
        None \<Rightarrow> Inr t
      | Some p \<Rightarrow>
          let d = nat (pc_dst p); q = st_seqs t ! d;
              retained = ee_slot ` set (pc_destination p)
          in bind_r (fold_r (\<lambda>e used. release (st_arena_stride t) d (ee_slot e) used)
                       (filter (\<lambda>e. ee_slot e \<notin> retained) (ts_entries q)) (ts_used q)) (\<lambda>used.
             bind_r (rebuild_index (q\<lparr>ts_used := used, ts_entries := pc_destination p\<rparr>)) (\<lambda>q.
             Inr (t\<lparr>st_pending := None,
                    st_seqs := (st_seqs t)[d := q\<lparr>ts_degradation := pc_degradation p,
                                               ts_recovery := pc_recovery p\<rparr>]\<rparr>))))"

definition seq_cp_remap ::
    "int \<Rightarrow> int \<Rightarrow> nat \<Rightarrow> nat \<Rightarrow> int \<Rightarrow> int \<Rightarrow> llama_kv_tail_store \<Rightarrow>
     ((int \<times> int) list \<times> llama_kv_tail_store) res" where
  "seq_cp_remap src dst src_stream dst_stream p0 p1 t =
     bind_r (prepare_seq_cp src dst src_stream dst_stream p0 p1 t) (\<lambda>(copies, t).
     bind_r (commit_seq_cp t) (\<lambda>t. Inr (copies, t)))"

definition tail_seq_cp :: "int \<Rightarrow> int \<Rightarrow> int \<Rightarrow> int \<Rightarrow> llama_kv_tail_store \<Rightarrow> llama_kv_tail_store res" where
  "tail_seq_cp src dst p0 p1 t =
     (if \<not> valid_seq t src \<or> \<not> valid_seq t dst \<or> src = dst then Inr t
      else
        let es = ts_entries (st_seqs t ! nat src);
            src_stream = (if es = [] then 0 else id_stream (ee_identity (hd es)))
        in bind_r (seq_cp_remap src dst src_stream src_stream p0 p1 t) (\<lambda>(_, t). Inr t))"

definition pending_seq_cp_destination :: "llama_kv_tail_store \<Rightarrow> int" where
  "pending_seq_cp_destination t = (case st_pending t of None \<Rightarrow> -1 | Some p \<Rightarrow> pc_dst p)"

section \<open>Removal and position arithmetic\<close>

definition tail_seq_rm :: "int \<Rightarrow> int \<Rightarrow> int \<Rightarrow> llama_kv_tail_store \<Rightarrow> llama_kv_tail_store res" where
  "tail_seq_rm seq_id p0 p1 t =
     (if \<not> valid_seq t seq_id then Inr t
      else
        let s = nat seq_id in
        bind_r (erase_if (st_arena_stride t) s (in_range p0 p1) (st_seqs t ! s)) (\<lambda>q.
        bind_r (rebuild_index q) (\<lambda>q.
          Inr (t\<lparr>st_seqs := (st_seqs t)[s :=
            (if ts_entries q = [] \<and> p0 \<le> 0 \<and> p1 < 0
             then q\<lparr>ts_degradation := 0, ts_recovery := 0\<rparr> else q)]\<rparr>))))"

definition tail_seq_rm_cell :: "int \<Rightarrow> nat \<Rightarrow> nat \<Rightarrow> llama_kv_tail_store \<Rightarrow> llama_kv_tail_store res" where
  "tail_seq_rm_cell seq_id stream cell t =
     (if \<not> valid_seq t seq_id then Inr t
      else
        let s = nat seq_id in
        bind_r (erase_if (st_arena_stride t) s
                  (\<lambda>e. id_stream (ee_identity e) = stream \<and> id_cell (ee_identity e) = cell)
                  (st_seqs t ! s)) (\<lambda>q.
        bind_r (rebuild_index q) (\<lambda>q. Inr (t\<lparr>st_seqs := (st_seqs t)[s := q]\<rparr>))))"

definition tail_seq_keep :: "int \<Rightarrow> llama_kv_tail_store \<Rightarrow> llama_kv_tail_store res" where
  "tail_seq_keep seq_id t =
     fold_r (\<lambda>s t. if int s \<noteq> seq_id then tail_seq_rm (int s) 0 (-1) t else Inr t)
       [0..<length (st_seqs t)] t"

text \<open>The tail both position operations share for a touched sequence: sort, trim, rebuild, degrade.\<close>

definition reorder_seq :: "llama_kv_tail_store \<Rightarrow> nat \<Rightarrow> bool \<Rightarrow> tail_seq \<Rightarrow> tail_seq res" where
  "reorder_seq t s deg q =
     bind_r (trim (st_arena_stride t) s (tail_limit t)
               (q\<lparr>ts_entries := sort_key entry_key (ts_entries q)\<rparr>)) (\<lambda>q.
     bind_r (rebuild_index q) (\<lambda>q.
       Inr (if deg then degrade LLAMA_KV_TAIL_DEGRADED_HISTORICAL_OP q else q)))"

definition range_identities :: "llama_kv_tail_store \<Rightarrow> int \<Rightarrow> int \<Rightarrow> int \<Rightarrow> llama_kv_tail_identity set" where
  "range_identities t seq_id p0 p1 =
     ee_identity ` set (filter (in_range p0 p1) (ts_entries (st_seqs t ! nat seq_id)))"

definition move_entry :: "llama_kv_tail_identity set \<Rightarrow> (int \<Rightarrow> int) \<Rightarrow> exact_entry \<Rightarrow> exact_entry" where
  "move_entry ids f e = (if ee_identity e \<in> ids then e\<lparr>ee_position := f (ee_position e)\<rparr> else e)"

text \<open>As in the cells, positions are unbounded integers: a shift beyond 32 bits is outside the model.\<close>

definition tail_seq_add :: "int \<Rightarrow> int \<Rightarrow> int \<Rightarrow> int \<Rightarrow> llama_kv_tail_store \<Rightarrow> llama_kv_tail_store res" where
  "tail_seq_add seq_id p0 p1 shift t =
     (if \<not> valid_seq t seq_id then Inr t
      else
        let ids = range_identities t seq_id p0 p1;
            deg = (shift \<noteq> 0 \<and> \<not> (p0 \<le> 0 \<and> p1 < 0))
        in for_seqs (\<lambda>s q.
             if \<not> (\<exists>e \<in> set (ts_entries q). ee_identity e \<in> ids) then Inr q
             else bind_r (erase_if (st_arena_stride t) s
                            (\<lambda>e. ee_identity e \<in> ids \<and> ee_position e < 0)
                            (q\<lparr>ts_entries := map (move_entry ids (\<lambda>p. p + shift)) (ts_entries q)\<rparr>))
                    (reorder_seq t s deg)) t)"

definition tail_seq_div :: "int \<Rightarrow> int \<Rightarrow> int \<Rightarrow> int \<Rightarrow> llama_kv_tail_store \<Rightarrow> llama_kv_tail_store res" where
  "tail_seq_div seq_id p0 p1 divisor t =
     (if \<not> valid_seq t seq_id \<or> divisor = 0 then Inr t
      else
        let ids = range_identities t seq_id p0 p1;
            deg = (divisor \<noteq> 1 \<and> \<not> (p0 \<le> 0 \<and> p1 < 0))
        in for_seqs (\<lambda>s q.
             if \<not> (\<exists>e \<in> set (ts_entries q). ee_identity e \<in> ids) then Inr q
             else reorder_seq t s deg
                    (q\<lparr>ts_entries := map (move_entry ids (\<lambda>p. p sdiv divisor)) (ts_entries q)\<rparr>)) t)"

section \<open>Queries\<close>

record llama_kv_tail_snapshot_entry =
  sn_seq_id :: int
  sn_identity :: llama_kv_tail_identity
  sn_position :: int
  sn_ordinal :: nat
  sn_slot :: int

record llama_kv_tail_provenance =
  pv_seq_id :: int
  pv_degradation :: nat
  pv_recovery :: nat

record llama_kv_tail_source_run =
  sr_exact_offset :: nat
  sr_stream :: nat
  sr_cell :: nat
  sr_length :: nat

datatype llama_kv_tail_coverage_state =
    LLAMA_KV_TAIL_COVERAGE_NONE | LLAMA_KV_TAIL_COVERAGE_PARTIAL | LLAMA_KV_TAIL_COVERAGE_COMPLETE

record llama_kv_tail_coverage =
  cov_state :: llama_kv_tail_coverage_state
  cov_requested :: nat
  cov_exact :: nat
  cov_flags :: nat

text \<open>The hash map from identities to entries keeps the first entry of an identity.\<close>

definition build_source_plan ::
    "llama_kv_tail_store \<Rightarrow> int \<Rightarrow> llama_kv_tail_identity list \<Rightarrow> int list" where
  "build_source_plan t seq_id visible =
     (if \<not> valid_seq t seq_id \<or> st_n_tokens t = 0
      then replicate (length visible) LLAMA_KV_TAIL_BODY_SLOT
      else
        let es = ts_entries (st_seqs t ! nat seq_id);
            cands = concat (map (\<lambda>i. case find (\<lambda>e. ee_identity e = visible ! i) es of
                       None \<Rightarrow> [] | Some e \<Rightarrow> [(i, e)]) [0..<length visible]);
            cands = sort_key (entry_key \<circ> snd) cands;
            first = (if length cands > st_n_tokens t then length cands - st_n_tokens t else 0)
        in fold (\<lambda>(i, e) r. r[i := ee_slot e]) (drop first cands)
             (replicate (length visible) LLAMA_KV_TAIL_BODY_SLOT))"

definition pending_for :: "llama_kv_tail_store \<Rightarrow> int \<Rightarrow> pending_seq_cp_state option" where
  "pending_for t seq_id =
     (case st_pending t of None \<Rightarrow> None | Some p \<Rightarrow> if pc_dst p = seq_id then Some p else None)"

definition tail_coverage :: "llama_kv_tail_store \<Rightarrow> int \<Rightarrow> nat \<Rightarrow> llama_kv_tail_coverage" where
  "tail_coverage t seq_id available =
     (let exact = (if \<not> valid_seq t seq_id then 0
                   else case pending_for t seq_id of
                     Some p \<Rightarrow> u32 (length (pc_destination p))
                   | None \<Rightarrow> u32 (length (ts_entries (st_seqs t ! nat seq_id))));
          requested = min (st_n_tokens t) available;
          flags = (if \<not> valid_seq t seq_id then 0
                   else case pending_for t seq_id of
                     Some p \<Rightarrow> pc_degradation p
                   | None \<Rightarrow> ts_degradation (st_seqs t ! nat seq_id))
      in \<lparr>cov_state = (if exact = 0 then LLAMA_KV_TAIL_COVERAGE_NONE
                       else if exact \<ge> requested \<and> flags = 0 then LLAMA_KV_TAIL_COVERAGE_COMPLETE
                       else LLAMA_KV_TAIL_COVERAGE_PARTIAL),
          cov_requested = requested, cov_exact = min exact requested, cov_flags = flags\<rparr>)"

definition supports_suffix_rollback :: "llama_kv_tail_store \<Rightarrow> int \<Rightarrow> nat \<Rightarrow> bool" where
  "supports_suffix_rollback t seq_id n =
     (st_compact_storage t \<and> valid_seq t seq_id \<and> n \<le> st_rollback_tokens t)"

definition body_indices :: "llama_kv_tail_store \<Rightarrow> nat \<Rightarrow> int list res" where
  "body_indices t kv_size =
     fold_r (\<lambda>q r. fold_r (\<lambda>e r.
         let index = u64 (id_stream (ee_identity e) * kv_size + id_cell (ee_identity e))
         in if index > INT32_MAX then Inl Overflow_error
            else if ee_slot e < 0 \<or> nat (ee_slot e) \<ge> length r then Inl Undefined
            else Inr (r[nat (ee_slot e) := int index])) (ts_entries q) r)
       (st_seqs t) (replicate (st_n_slots t) 0)"

definition active_slots :: "llama_kv_tail_store \<Rightarrow> (int \<times> llama_kv_tail_identity) list" where
  "active_slots t = concat (map (\<lambda>q. map (\<lambda>e. (ee_slot e, ee_identity e)) (ts_entries q)) (st_seqs t))"

definition snapshot_entry :: "int \<Rightarrow> exact_entry \<Rightarrow> llama_kv_tail_snapshot_entry" where
  "snapshot_entry seq_id e = \<lparr>sn_seq_id = seq_id, sn_identity = ee_identity e,
     sn_position = ee_position e, sn_ordinal = ee_ordinal e, sn_slot = ee_slot e\<rparr>"

definition source_candidates :: "llama_kv_tail_store \<Rightarrow> int \<Rightarrow> llama_kv_tail_snapshot_entry list" where
  "source_candidates t seq_id =
     (if \<not> valid_seq t seq_id then []
      else case st_batch t of
        None \<Rightarrow> map (snapshot_entry seq_id) (ts_entries (st_seqs t ! nat seq_id))
      | Some tx \<Rightarrow>
          let committed = ts_entries (bt_seqs tx ! nat seq_id);
              first = (if length committed > st_n_tokens t then length committed - st_n_tokens t else 0)
          in sort_key (\<lambda>r. (sn_position r, sn_ordinal r))
               (map (snapshot_entry seq_id) (drop first committed) @
                map (snapshot_entry seq_id) (bt_current tx ! nat seq_id)))"

definition source_run_step ::
    "exact_entry \<Rightarrow> llama_kv_tail_source_run list \<times> nat \<Rightarrow> llama_kv_tail_source_run list \<times> nat" where
  "source_run_step e = (\<lambda>(runs, off).
     if runs \<noteq> [] \<and> u32 (sr_exact_offset (last runs) + sr_length (last runs)) = off \<and>
        sr_stream (last runs) = id_stream (ee_identity e) \<and>
        u32 (sr_cell (last runs) + sr_length (last runs)) = id_cell (ee_identity e)
     then (butlast runs @ [(last runs)\<lparr>sr_length := u32 (sr_length (last runs) + 1)\<rparr>], u32 (off + 1))
     else (runs @ [\<lparr>sr_exact_offset = off, sr_stream = id_stream (ee_identity e),
                    sr_cell = id_cell (ee_identity e), sr_length = 1\<rparr>], u32 (off + 1)))"

definition source_runs :: "llama_kv_tail_store \<Rightarrow> int \<Rightarrow> llama_kv_tail_source_run list" where
  "source_runs t seq_id =
     (if \<not> valid_seq t seq_id then []
      else fst (fold source_run_step (ts_entries (st_seqs t ! nat seq_id)) ([], 0)))"

section \<open>Snapshot and restore\<close>

definition snapshot_seq :: "llama_kv_tail_store \<Rightarrow> nat \<Rightarrow> llama_kv_tail_snapshot_entry list" where
  "snapshot_seq t s =
     (let ordered = (case pending_for t (int s) of
            Some p \<Rightarrow> pc_destination p | None \<Rightarrow> ts_entries (st_seqs t ! s));
          retained = tail_limit t;
          first = (if length ordered > retained then length ordered - retained else 0)
      in map (snapshot_entry (int s)) (drop first ordered))"

definition snapshot :: "llama_kv_tail_store \<Rightarrow> int \<Rightarrow> llama_kv_tail_snapshot_entry list" where
  "snapshot t seq_id =
     concat (map (\<lambda>s. if seq_id \<ge> 0 \<and> int s \<noteq> seq_id then [] else snapshot_seq t s)
       [0..<length (st_seqs t)])"

definition provenance_of :: "llama_kv_tail_store \<Rightarrow> nat \<Rightarrow> llama_kv_tail_provenance" where
  "provenance_of t s =
     \<lparr>pv_seq_id = int s,
      pv_degradation = (case pending_for t (int s) of
        Some p \<Rightarrow> pc_degradation p | None \<Rightarrow> ts_degradation (st_seqs t ! s)),
      pv_recovery = (case pending_for t (int s) of
        Some p \<Rightarrow> pc_recovery p | None \<Rightarrow> ts_recovery (st_seqs t ! s))\<rparr>"

definition snapshot_provenance :: "llama_kv_tail_store \<Rightarrow> int \<Rightarrow> llama_kv_tail_provenance list" where
  "snapshot_provenance t seq_id =
     (if seq_id \<ge> 0 then (if valid_seq t seq_id then [provenance_of t (nat seq_id)] else [])
      else map (provenance_of t) [0..<length (st_seqs t)])"

definition known_flags :: nat where
  "known_flags = LLAMA_KV_TAIL_DEGRADED_BODY_ONLY_STATE OR LLAMA_KV_TAIL_DEGRADED_HISTORICAL_OP OR
     LLAMA_KV_TAIL_DEGRADED_STATE_RESTORE"

definition check_provenance ::
    "llama_kv_tail_store \<Rightarrow> llama_kv_tail_provenance \<Rightarrow> bool list \<Rightarrow> bool list res" where
  "check_provenance t saved seen =
     (if \<not> valid_seq t (pv_seq_id saved) \<or>
         pv_degradation saved AND (UINT32_MAX XOR known_flags) \<noteq> 0 \<or>
         pv_recovery saved > st_n_tokens t \<or> (pv_degradation saved = 0 \<and> pv_recovery saved \<noteq> 0)
      then Inl Runtime_error
      else if seen ! nat (pv_seq_id saved) then Inl Runtime_error
      else Inr (seen[nat (pv_seq_id saved) := True]))"

definition set_provenance :: "nat \<Rightarrow> llama_kv_tail_provenance \<Rightarrow> tail_seq list \<Rightarrow> tail_seq list" where
  "set_provenance s saved qs =
     qs[s := (qs ! s)\<lparr>ts_degradation := pv_degradation saved, ts_recovery := pv_recovery saved\<rparr>]"

definition restore_provenance ::
    "llama_kv_tail_provenance list \<Rightarrow> int \<Rightarrow> llama_kv_tail_store \<Rightarrow> llama_kv_tail_store res" where
  "restore_provenance provenance dest_seq_id t =
     bind_r (fold_r (check_provenance t) provenance (replicate (length (st_seqs t)) False)) (\<lambda>_.
       if dest_seq_id \<ge> 0 then
         if \<not> valid_seq t dest_seq_id \<or> length provenance \<noteq> 1 then Inl Runtime_error
         else Inr (t\<lparr>st_seqs := set_provenance (nat dest_seq_id) (hd provenance) (st_seqs t)\<rparr>)
       else Inr (t\<lparr>st_seqs :=
         fold (\<lambda>saved. set_provenance (nat (pv_seq_id saved)) saved) provenance
           (map (\<lambda>q. q\<lparr>ts_degradation := 0, ts_recovery := 0\<rparr>) (st_seqs t))\<rparr>))"

definition clone_logical_state_from ::
    "llama_kv_tail_store \<Rightarrow> llama_kv_tail_store \<Rightarrow> llama_kv_tail_store res" where
  "clone_logical_state_from source t =
     (if st_n_tokens t \<noteq> st_n_tokens source \<or> st_rollback_tokens t \<noteq> st_rollback_tokens source \<or>
         st_history_limit t \<noteq> st_history_limit source \<or> st_arena_stride t \<noteq> st_arena_stride source \<or>
         st_n_slots t \<noteq> st_n_slots source \<or> st_compact_storage t \<noteq> st_compact_storage source \<or>
         length (st_seqs t) \<noteq> length (st_seqs source)
      then Inl Runtime_error
      else if st_in_batch source \<or> st_pending source \<noteq> None \<or> st_batch source \<noteq> None
      then Inl Runtime_error
      else for_seqs (\<lambda>s. rebuild_index)
             (t\<lparr>st_seqs := st_seqs source, st_pending := None, st_batch := None, st_in_batch := False\<rparr>))"

definition clone_logical_state :: "llama_kv_tail_store \<Rightarrow> llama_kv_tail_store res" where
  "clone_logical_state t =
     (let n_seq_max = length (st_seqs t);
          sink = st_n_slots t - st_arena_stride t * n_seq_max
      in bind_r (if st_compact_storage t
                 then tail_store_compact (st_n_tokens t) (st_rollback_tokens t) n_seq_max
                        (st_arena_stride t) sink
                 else tail_store_standard (st_n_tokens t) n_seq_max (st_arena_stride t) sink)
           (clone_logical_state_from t))"

definition tail_restore ::
    "int \<Rightarrow> llama_kv_tail_identity \<Rightarrow> int \<Rightarrow> nat \<Rightarrow> nat \<Rightarrow> llama_kv_tail_store \<Rightarrow>
     (int \<times> llama_kv_tail_store) res" where
  "tail_restore seq_id i position ordinal local_slot t =
     (if \<not> valid_seq t seq_id \<or> local_slot \<ge> st_arena_stride t \<or> st_in_batch t \<or>
         st_pending t \<noteq> None \<or> st_batch t \<noteq> None
      then Inl Invalid_argument
      else
        let s = nat seq_id; q = st_seqs t ! s
        in if length (ts_entries q) \<ge> st_history_limit t \<or> ts_used q ! local_slot \<or>
              id_key i \<in> ts_index q
           then Inl Runtime_error
           else
             let slot = slot_at (st_arena_stride t) s local_slot;
                 a = \<lparr>ee_identity = i, ee_position = position, ee_ordinal = ordinal, ee_slot = slot\<rparr>
             in Inr (slot, t\<lparr>st_seqs := (st_seqs t)[s := q\<lparr>
                  ts_entries := insert_entry a (ts_entries q),
                  ts_index := insert (id_key i) (ts_index q),
                  ts_used := (ts_used q)[local_slot := True]\<rparr>]\<rparr>))"

definition state_write_cursor :: "llama_kv_tail_store \<Rightarrow> int \<Rightarrow> nat res" where
  "state_write_cursor t seq_id =
     (if \<not> valid_seq t seq_id then Inl Out_of_range else Inr (ts_cursor (st_seqs t ! nat seq_id)))"

definition restore_write_cursor ::
    "int \<Rightarrow> nat \<Rightarrow> llama_kv_tail_store \<Rightarrow> llama_kv_tail_store res" where
  "restore_write_cursor seq_id cursor t =
     (if \<not> valid_seq t seq_id \<or> cursor \<ge> st_arena_stride t \<or> st_in_batch t \<or>
         st_pending t \<noteq> None \<or> st_batch t \<noteq> None
      then Inl Invalid_argument
      else Inr (t\<lparr>st_seqs := (st_seqs t)[nat seq_id := (st_seqs t ! nat seq_id)\<lparr>ts_cursor := cursor\<rparr>]\<rparr>))"

section \<open>The slot arena of a sequence\<close>

text \<open>The arena of sequence \<open>s\<close> is the slot numbers \<open>[s * stride, (s + 1) * stride)\<close>; its bit vector
  marks exactly the slots in \<open>S\<close>.\<close>

definition arena_fits :: "nat \<Rightarrow> nat \<Rightarrow> bool" where
  "arena_fits stride s = (s * stride + stride \<le> INT32_MAX)"

definition arena_ok :: "nat \<Rightarrow> nat \<Rightarrow> bool list \<Rightarrow> int set \<Rightarrow> bool" where
  "arena_ok stride s used S \<longleftrightarrow> length used = stride \<and> S \<subseteq> {int (s * stride)..<int (s * stride + stride)} \<and>
     (\<forall>j < stride. used ! j \<longleftrightarrow> int (s * stride + j) \<in> S)"

lemma slot_at_eq:
  assumes "arena_fits stride s" and "loc < stride"
  shows "slot_at stride s loc = int (s * stride + loc)"
proof -
  have "s * stride + loc \<le> INT32_MAX" using assms by (simp add: arena_fits_def)
  then show ?thesis by (simp add: slot_at_def i32_of_u32_def)
qed

lemma release_ok:
  assumes "arena_fits stride s" and a: "arena_ok stride s used S" and x: "x \<in> S"
  shows "\<exists>u. release stride s x used = Inr u \<and> arena_ok stride s u (S - {x})"
proof -
  obtain j where j: "j < stride" "x = int (s * stride + j)"
  proof -
    have "int (s * stride) \<le> x" "x < int (s * stride + stride)"
      using a x by (auto simp: arena_ok_def)
    then show ?thesis by (intro that [of "nat (x - int (s * stride))"]) auto
  qed
  have "u32 (s * stride) = s * stride" using assms(1) by (simp add: arena_fits_def)
  moreover have "nat x = s * stride + j" "\<not> x < 0" unfolding j(2) by (simp_all only: nat_int)
  ultimately have "release stride s x used = Inr (used[j := False])"
    using j(1) by (simp add: release_def)
  moreover have "arena_ok stride s (used[j := False]) (S - {x})"
    using a j by (auto simp: arena_ok_def nth_list_update)
  ultimately show ?thesis by blast
qed

lemma release_all_ok:
  assumes "arena_fits stride s" and "arena_ok stride s used S"
    and "distinct (map f xs)" and "f ` set xs \<subseteq> S"
  shows "\<exists>u. fold_r (\<lambda>e. release stride s (f e)) xs used = Inr u \<and> arena_ok stride s u (S - f ` set xs)"
  using assms(2-)
proof (induction xs arbitrary: used S)
  case (Cons x xs)
  obtain u where u: "release stride s (f x) used = Inr u" "arena_ok stride s u (S - {f x})"
    using release_ok [OF assms(1) Cons.prems(1), of "f x"] Cons.prems(3) by auto
  obtain u' where "fold_r (\<lambda>e. release stride s (f e)) xs u = Inr u'"
      "arena_ok stride s u' (S - {f x} - f ` set xs)"
    using Cons.IH [OF u(2)] Cons.prems by auto
  moreover have "S - {f x} - f ` set xs = S - f ` set (x # xs)" by auto
  ultimately show ?case using u(1) by auto
qed simp

lemma arena_card:
  assumes "arena_ok stride s used S"
  shows "finite S" and "card S \<le> stride"
proof -
  let ?I = "{int (s * stride)..<int (s * stride + stride)}"
  have "S \<subseteq> ?I" and f: "finite ?I" using assms by (auto simp: arena_ok_def)
  then show "finite S" by (meson finite_subset)
  have "card S \<le> card ?I" using \<open>S \<subseteq> ?I\<close> f by (rule card_mono [rotated])
  then show "card S \<le> stride" by simp
qed

text \<open>The scan from the cursor visits every slot of the arena once.\<close>

lemma arena_scan_hits:
  assumes "j < stride" and "cursor < stride"
  shows "\<exists>offset < stride. (cursor + offset) mod stride = (j::nat)"
proof (cases "cursor \<le> j")
  case True
  then show ?thesis using assms by (intro exI [of _ "j - cursor"]) auto
next
  case False
  then have "(cursor + (j + stride - cursor)) mod stride = j" using assms by simp
  then show ?thesis using False assms by (intro exI [of _ "j + stride - cursor"]) auto
qed

lemma acquire_ok:
  assumes fits: "arena_fits stride s" and a: "arena_ok stride s (ts_used q) S"
    and c: "ts_cursor q < stride" and free: "card S < stride"
  shows "\<exists>x u c'. acquire stride s q = Inr (x, q\<lparr>ts_used := u, ts_cursor := c'\<rparr>) \<and> x \<notin> S \<and>
    arena_ok stride s u (insert x S) \<and> c' < stride"
proof -
  have st: "0 < stride" "stride \<le> INT32_MAX" using fits c by (auto simp: arena_fits_def)
  let ?I = "{int (s * stride)..<int (s * stride + stride)}"
  have "S \<noteq> ?I" using free by auto
  then obtain y where y: "y \<in> ?I" "y \<notin> S" using a unfolding arena_ok_def by blast
  define j where "j = nat (y - int (s * stride))"
  have j: "j < stride" "\<not> ts_used q ! j"
    using y a by (auto simp: j_def arena_ok_def)
  have u: "u32 (ts_cursor q + off) = ts_cursor q + off" if "off < stride" for off
    using that c st by (intro u32_id) linarith
  let ?P = "\<lambda>off. \<not> ts_used q ! (u32 (ts_cursor q + off) mod stride)"
  obtain off0 where "off0 < stride" "?P off0"
    using arena_scan_hits [OF j(1) c] j(2) u by metis
  then have "find ?P [0..<stride] \<noteq> None"
    by (auto simp: find_None_iff)
  then obtain off where off: "find ?P [0..<stride] = Some off" by blast
  then have off2: "off < stride" "?P off" by (auto simp: find_Some_iff)
  define loc where "loc = u32 (ts_cursor q + off) mod stride"
  have loc: "loc < stride" "\<not> ts_used q ! loc" using off2 st by (auto simp: loc_def)
  have x: "int (s * stride + loc) \<notin> S" using loc a by (auto simp: arena_ok_def)
  have "arena_ok stride s ((ts_used q)[loc := True]) (insert (int (s * stride + loc)) S)"
    using a loc by (auto simp: arena_ok_def nth_list_update)
  moreover have "acquire stride s q = Inr (int (s * stride + loc),
      q\<lparr>ts_used := (ts_used q)[loc := True], ts_cursor := u32 (loc + 1) mod stride\<rparr>)"
    using off slot_at_eq [OF fits loc(1)] by (simp add: acquire_def Let_def flip: loc_def)
  moreover have "u32 (loc + 1) mod stride < stride" using st by simp
  ultimately show ?thesis using x by blast
qed

section \<open>The invariant of one sequence\<close>

text \<open>\<open>A\<close> lists slots that are taken from the arena and not yet owned by an entry: the slots a pending
  copy holds, or the slot of the entry being committed.\<close>

abbreviation ts_slots :: "tail_seq \<Rightarrow> int list" where
  "ts_slots q \<equiv> map ee_slot (ts_entries q)"

definition seq_core :: "nat \<Rightarrow> nat \<Rightarrow> int list \<Rightarrow> tail_seq \<Rightarrow> bool" where
  "seq_core stride s A q \<longleftrightarrow> distinct (map ee_key (ts_entries q)) \<and> distinct (ts_slots q @ A) \<and>
     arena_ok stride s (ts_used q) (set (ts_slots q @ A)) \<and> (stride = 0 \<or> ts_cursor q < stride)"

definition seq_inv :: "nat \<Rightarrow> nat \<Rightarrow> int list \<Rightarrow> tail_seq \<Rightarrow> bool" where
  "seq_inv stride s A q \<longleftrightarrow> seq_core stride s A q \<and> sorted (map entry_key (ts_entries q)) \<and>
     ts_index q = set (map ee_key (ts_entries q))"

lemma seq_inv_core [dest]: "seq_inv stride s A q \<Longrightarrow> seq_core stride s A q"
  by (simp add: seq_inv_def)

lemma seq_core_length: "seq_core stride s A q \<Longrightarrow> length (ts_entries q) + length A \<le> stride"
  using arena_card(2) [of stride s "ts_used q" "set (ts_slots q @ A)"]
  by (metis seq_core_def distinct_card length_append length_map)

lemma seq_inv_empty [simp]: "seq_inv stride s [] (tail_seq_empty stride)"
  by (cases "stride = 0") (simp_all add: seq_inv_def seq_core_def tail_seq_empty_def arena_ok_def)

lemma seq_inv_flags [simp]:
  "seq_inv stride s A (q\<lparr>ts_degradation := d\<rparr>) = seq_inv stride s A q"
  "seq_inv stride s A (q\<lparr>ts_recovery := r\<rparr>) = seq_inv stride s A q"
  "seq_inv stride s A (degrade fl q) = seq_inv stride s A q"
  by (simp_all add: seq_inv_def seq_core_def degrade_def)

lemma rebuild_index_eq:
  "rebuild_index q = (if distinct (map ee_key (ts_entries q))
     then Inr (q\<lparr>ts_index := set (map ee_key (ts_entries q))\<rparr>) else Inl Logic_error)"
proof -
  have "fold_r (\<lambda>e idx. if ee_key e \<in> idx then Inl Logic_error else Inr (insert (ee_key e) idx)) es I =
      (if distinct (map ee_key es) \<and> set (map ee_key es) \<inter> I = {}
       then Inr (set (map ee_key es) \<union> I) else Inl Logic_error)" for es I
    by (induction es arbitrary: I) auto
  then show ?thesis by (simp add: rebuild_index_def)
qed

lemma rebuild_index_ok:
  "seq_core stride s A q \<Longrightarrow> sorted (map entry_key (ts_entries q)) \<Longrightarrow>
     rebuild_index q = Inr (q\<lparr>ts_index := set (map ee_key (ts_entries q))\<rparr>) \<and>
     seq_inv stride s A (q\<lparr>ts_index := set (map ee_key (ts_entries q))\<rparr>)"
  by (simp add: rebuild_index_eq seq_inv_def seq_core_def)

text \<open>A change of the list that permutes keys and slots keeps the core.\<close>

lemma seq_core_permute:
  assumes "seq_core stride s A q"
    and "mset (map (\<lambda>e. (ee_key e, ee_slot e)) es) = mset (map (\<lambda>e. (ee_key e, ee_slot e)) (ts_entries q))"
  shows "seq_core stride s A (q\<lparr>ts_entries := es\<rparr>)"
proof -
  have k: "mset (map ee_key es) = mset (map ee_key (ts_entries q))"
    using arg_cong [OF assms(2), of "image_mset fst"] by (simp add: image_mset.compositionality comp_def)
  have sl: "mset (map ee_slot es) = mset (ts_slots q)"
    using arg_cong [OF assms(2), of "image_mset snd"] by (simp add: image_mset.compositionality comp_def)
  have "distinct (map ee_key es)"
    using mset_eq_imp_distinct_iff [OF k] assms(1) by (simp add: seq_core_def)
  moreover have "distinct (map ee_slot es)" "set (map ee_slot es) = set (ts_slots q)"
    using mset_eq_imp_distinct_iff [OF sl] mset_eq_setD [OF sl] assms(1) by (auto simp: seq_core_def)
  ultimately show ?thesis using assms(1) by (simp add: seq_core_def)
qed

lemma erase_if_ok:
  assumes fits: "arena_fits stride s" and q: "seq_core stride s A q"
  shows "\<exists>u. erase_if stride s P q =
      Inr (q\<lparr>ts_entries := filter (\<lambda>e. \<not> P e) (ts_entries q), ts_used := u\<rparr>) \<and>
    seq_core stride s A (q\<lparr>ts_entries := filter (\<lambda>e. \<not> P e) (ts_entries q), ts_used := u\<rparr>)"
proof -
  let ?es = "ts_entries q"
  have d: "distinct (ts_slots q)" "set (ts_slots q) \<inter> set A = {}" "distinct A"
    using q by (auto simp: seq_core_def)
  have inj: "inj_on ee_slot (set ?es)" using d(1) by (simp add: distinct_map)
  have a: "arena_ok stride s (ts_used q) (set (ts_slots q @ A))" using q by (simp add: seq_core_def)
  have "distinct (map ee_slot (filter P ?es))" using d(1) by (rule distinct_map_filter)
  then obtain u where u: "fold_r (\<lambda>e. release stride s (ee_slot e)) (filter P ?es) (ts_used q) = Inr u"
      "arena_ok stride s u (set (ts_slots q @ A) - ee_slot ` set (filter P ?es))"
    using release_all_ok [OF fits a, of ee_slot "filter P ?es"] by auto
  have "set (ts_slots q @ A) - ee_slot ` set (filter P ?es) =
      set (map ee_slot (filter (\<lambda>e. \<not> P e) ?es) @ A)"
    using d(2) inj by (auto simp: inj_on_def)
  then have "seq_core stride s A (q\<lparr>ts_entries := filter (\<lambda>e. \<not> P e) ?es, ts_used := u\<rparr>)"
    using q u(2) d by (auto simp: seq_core_def distinct_map_filter)
  then show ?thesis using u(1) by (auto simp: erase_if_def)
qed

lemma trim_loop_ok:
  assumes fits: "arena_fits stride s" and "seq_core stride s A q"
  shows "\<exists>I u. trim_loop stride s n q =
      Inr (q\<lparr>ts_index := I, ts_used := u, ts_entries := drop n (ts_entries q)\<rparr>) \<and>
    I = ts_index q - ee_key ` set (take n (ts_entries q)) \<and>
    seq_core stride s A (q\<lparr>ts_index := I, ts_used := u, ts_entries := drop n (ts_entries q)\<rparr>)"
  using assms(2)
proof (induction n arbitrary: q)
  case 0
  then show ?case by (intro exI [of _ "ts_index q"] exI [of _ "ts_used q"]) simp
next
  case (Suc n)
  show ?case
  proof (cases "ts_entries q")
    case Nil
    then show ?thesis using Suc.prems
      by (intro exI [of _ "ts_index q"] exI [of _ "ts_used q"]) (simp add: seq_core_def)
  next
    case (Cons e es)
    obtain u where u: "release stride s (ee_slot e) (ts_used q) = Inr u"
        "arena_ok stride s u (set (ts_slots q @ A) - {ee_slot e})"
      using release_ok [OF fits, of "ts_used q" "set (ts_slots q @ A)" "ee_slot e"] Suc.prems Cons
      by (auto simp: seq_core_def)
    let ?q = "q\<lparr>ts_index := ts_index q - {ee_key e}, ts_used := u, ts_entries := es\<rparr>"
    have "set (ts_slots q @ A) - {ee_slot e} = set (map ee_slot es @ A)"
      using Suc.prems Cons by (auto simp: seq_core_def)
    then have "seq_core stride s A ?q" using Suc.prems u(2) Cons by (auto simp: seq_core_def)
    from Suc.IH [OF this] obtain u' where "trim_loop stride s n ?q = Inr (q\<lparr>ts_index :=
          ts_index q - {ee_key e} - ee_key ` set (take n es), ts_used := u', ts_entries := drop n es\<rparr>)"
        "seq_core stride s A (q\<lparr>ts_index := ts_index q - {ee_key e} - ee_key ` set (take n es),
          ts_used := u', ts_entries := drop n es\<rparr>)"
      by auto
    moreover have "ts_index q - {ee_key e} - ee_key ` set (take n es) =
        ts_index q - ee_key ` set (take (Suc n) (ts_entries q))" using Cons by auto
    ultimately show ?thesis using u(1) Cons
      by (intro exI [of _ "ts_index q - ee_key ` set (take (Suc n) (ts_entries q))"] exI [of _ u']) simp
  qed
qed

lemma trim_ok:
  assumes fits: "arena_fits stride s" and q: "seq_inv stride s A q"
  shows "\<exists>q'. trim stride s limit q = Inr q' \<and> seq_inv stride s A q' \<and>
    ts_entries q' = drop (length (ts_entries q) - limit) (ts_entries q) \<and>
    ts_degradation q' = ts_degradation q \<and> ts_recovery q' = ts_recovery q \<and> ts_cursor q' = ts_cursor q"
proof -
  let ?n = "length (ts_entries q) - limit" and ?es = "ts_entries q"
  obtain I u where t: "trim_loop stride s ?n q = Inr (q\<lparr>ts_index := I, ts_used := u, ts_entries := drop ?n ?es\<rparr>)"
      "I = ts_index q - ee_key ` set (take ?n ?es)"
      "seq_core stride s A (q\<lparr>ts_index := I, ts_used := u, ts_entries := drop ?n ?es\<rparr>)"
    using trim_loop_ok [OF fits seq_inv_core [OF q]] by blast
  have "distinct (map ee_key (take ?n ?es @ drop ?n ?es))"
    using q by (simp add: seq_inv_def seq_core_def)
  then have dj: "ee_key ` set (take ?n ?es) \<inter> ee_key ` set (drop ?n ?es) = {}"
    by (simp only: map_append distinct_append set_map)
  have "ee_key ` set ?es = ee_key ` set (take ?n ?es) \<union> ee_key ` set (drop ?n ?es)"
    by (metis append_take_drop_id image_Un set_append)
  then have "I = set (map ee_key (drop ?n ?es))" using t(2) dj q by (auto simp: seq_inv_def)
  moreover have "sorted (map entry_key (drop ?n ?es))"
    using q by (simp add: seq_inv_def sorted_wrt_drop flip: drop_map)
  ultimately show ?thesis using t by (simp add: trim_def seq_inv_def)
qed

lemma trim_noop: "length (ts_entries q) \<le> limit \<Longrightarrow> trim stride s limit q = Inr q"
  by (simp add: trim_def)

lemma erase_rebuild_ok:
  assumes fits: "arena_fits stride s" and q: "seq_inv stride s A q"
  shows "\<exists>q'. erase_if stride s P q = Inr q' \<and> (\<exists>q''. rebuild_index q' = Inr q'' \<and> seq_inv stride s A q'' \<and>
    ts_entries q'' = filter (\<lambda>e. \<not> P e) (ts_entries q) \<and>
    ts_degradation q'' = ts_degradation q \<and> ts_recovery q'' = ts_recovery q \<and> ts_cursor q'' = ts_cursor q)"
proof -
  obtain u where u: "erase_if stride s P q =
      Inr (q\<lparr>ts_entries := filter (\<lambda>e. \<not> P e) (ts_entries q), ts_used := u\<rparr>)"
      "seq_core stride s A (q\<lparr>ts_entries := filter (\<lambda>e. \<not> P e) (ts_entries q), ts_used := u\<rparr>)"
    using erase_if_ok [OF fits seq_inv_core [OF q]] by blast
  have "sorted (map entry_key (filter (\<lambda>e. \<not> P e) (ts_entries q)))"
    using q by (simp add: seq_inv_def sorted_filter)
  then show ?thesis using u(1) rebuild_index_ok [OF u(2)] by auto
qed

section \<open>Lookup, eviction and insertion\<close>

lemma find_entry_Some:
  assumes "seq_inv stride s A q"
  shows "find_entry q k = Some e \<longleftrightarrow> e \<in> set (ts_entries q) \<and> ee_key e = k"
proof -
  have d: "distinct (map ee_key (ts_entries q))" and i: "ts_index q = ee_key ` set (ts_entries q)"
    using assms by (auto simp: seq_inv_def seq_core_def)
  have "find (\<lambda>e. ee_key e = k) es = Some e \<longleftrightarrow> e \<in> set es \<and> ee_key e = k"
    if "distinct (map ee_key es)" for es
    using that by (induction es) force+
  then show ?thesis using d i by (auto simp: find_entry_def)
qed

lemma find_entry_None:
  "seq_inv stride s A q \<Longrightarrow> find_entry q k = None \<longleftrightarrow> k \<notin> ts_index q"
  by (auto simp: find_entry_def find_None_iff seq_inv_def)

lemma remove_first_filter:
  "distinct (map f es) \<Longrightarrow> e \<in> set es \<Longrightarrow> remove_first (\<lambda>x. f x = f e) es = filter (\<lambda>x. f x \<noteq> f e) es"
proof (induction es)
  case (Cons x xs)
  show ?case
  proof (cases "f x = f e")
    case True
    then have "f e \<notin> f ` set xs" using Cons.prems(1) by auto
    then have "filter (\<lambda>y. f y \<noteq> f e) xs = xs" by (intro filter_True) (auto simp: image_iff)
    then show ?thesis using True by simp
  next
    case False
    then show ?thesis using Cons by auto
  qed
qed simp

lemma distinct_key_eq:
  "distinct (map f es) \<Longrightarrow> x \<in> set es \<Longrightarrow> y \<in> set es \<Longrightarrow> f x = f y \<Longrightarrow> x = y"
  by (meson distinct_map inj_onD)

text \<open>Erasing a node releases its slot, or leaves it held.\<close>

lemma erase_entry_ok:
  assumes fits: "arena_fits stride s" and q: "seq_inv stride s A q" and e: "e \<in> set (ts_entries q)"
  shows "\<exists>q'. erase_entry stride s e True q = Inr q' \<and> seq_inv stride s A q' \<and>
      ts_entries q' = filter (\<lambda>x. ee_key x \<noteq> ee_key e) (ts_entries q) \<and>
      ts_degradation q' = ts_degradation q \<and> ts_recovery q' = ts_recovery q"
    and "\<exists>q'. erase_entry stride s e False q = Inr q' \<and> seq_inv stride s (ee_slot e # A) q' \<and>
      ts_entries q' = filter (\<lambda>x. ee_key x \<noteq> ee_key e) (ts_entries q) \<and>
      ts_degradation q' = ts_degradation q \<and> ts_recovery q' = ts_recovery q"
proof -
  let ?es = "ts_entries q" and ?F = "filter (\<lambda>x. ee_key x \<noteq> ee_key e) (ts_entries q)"
  have c: "distinct (map ee_key ?es)" "distinct (ts_slots q)" "distinct A"
      "set (ts_slots q) \<inter> set A = {}" "arena_ok stride s (ts_used q) (set (ts_slots q @ A))"
      "sorted (map entry_key ?es)" "ts_index q = ee_key ` set ?es"
    using q by (auto simp: seq_inv_def seq_core_def)
  have same: "x = e" if "x \<in> set ?es" "ee_key x = ee_key e \<or> ee_slot x = ee_slot e" for x
    using that e distinct_key_eq [OF c(1)] distinct_key_eq [OF c(2)] by blast
  have sl: "ee_slot ` set ?F = set (ts_slots q) - {ee_slot e}" using same by auto
  have ky: "ee_key ` set ?F = ts_index q - {ee_key e}" unfolding c(7) using same by auto
  have so: "sorted (map entry_key ?F)" "distinct (map ee_key ?F)" "distinct (map ee_slot ?F)"
    using c by (simp_all add: sorted_filter distinct_map_filter)
  obtain u where u: "release stride s (ee_slot e) (ts_used q) = Inr u"
      "arena_ok stride s u (set (ts_slots q @ A) - {ee_slot e})"
    using release_ok [OF fits c(5), of "ee_slot e"] e by auto
  have nA: "ee_slot e \<notin> set A" using c(4) e by auto
  have dj: "ee_slot ` set ?F \<inter> set A = {}" "ee_slot e \<notin> ee_slot ` set ?F" using c(4) sl by auto
  have cur: "stride = 0 \<or> ts_cursor q < stride" using q by (simp add: seq_inv_def seq_core_def)
  let ?q1 = "q\<lparr>ts_used := u, ts_index := ts_index q - {ee_key e}, ts_entries := ?F\<rparr>"
  have "set (ts_slots q @ A) - {ee_slot e} = ee_slot ` set ?F \<union> set A" using sl nA by auto
  then have "seq_inv stride s A ?q1"
    using u(2) so ky c(3) dj(1) cur by (simp add: seq_inv_def seq_core_def)
  moreover have "erase_entry stride s e True q = Inr ?q1"
    by (simp add: erase_entry_def remove_first_filter [OF c(1) e] u(1))
  ultimately show "\<exists>q'. erase_entry stride s e True q = Inr q' \<and> seq_inv stride s A q' \<and>
      ts_entries q' = ?F \<and> ts_degradation q' = ts_degradation q \<and> ts_recovery q' = ts_recovery q"
    by (intro exI [of _ ?q1]) simp
  let ?q2 = "q\<lparr>ts_used := ts_used q, ts_index := ts_index q - {ee_key e}, ts_entries := ?F\<rparr>"
  have "set (ts_slots q @ A) = ee_slot ` set ?F \<union> set (ee_slot e # A)" using sl e by auto
  then have "seq_inv stride s (ee_slot e # A) ?q2"
    using c(5) so ky c(3) dj nA cur by (simp add: seq_inv_def seq_core_def)
  moreover have "erase_entry stride s e False q = Inr ?q2"
    by (simp add: erase_entry_def remove_first_filter [OF c(1) e])
  ultimately show "\<exists>q'. erase_entry stride s e False q = Inr q' \<and> seq_inv stride s (ee_slot e # A) q' \<and>
      ts_entries q' = ?F \<and> ts_degradation q' = ts_degradation q \<and> ts_recovery q' = ts_recovery q"
    by (intro exI [of _ ?q2]) simp
qed

text \<open>Both insertion paths put the entry after every entry that is not greater.\<close>

lemma set_insert_entry [simp]: "set (insert_entry a es) = insert a (set es)"
  by (auto simp: insert_entry_def dest: set_takeWhileD set_dropWhileD)
    (metis Un_iff set_append takeWhile_dropWhile_id)+

lemma mset_insert_entry: "mset (insert_entry a es) = add_mset a (mset es)"
  by (metis (no_types, lifting) insert_entry_def mset.simps(2) mset_append takeWhile_dropWhile_id
      union_mset_add_mset_right)

lemma sorted_insert_entry:
  assumes "sorted (map entry_key es)"
  shows "sorted (map entry_key (insert_entry a es))"
proof -
  let ?P = "\<lambda>e. \<not> entry_key a < entry_key e"
  have s: "sorted (map entry_key (takeWhile ?P es @ dropWhile ?P es))" using assms by simp
  have "entry_key a \<le> entry_key e" if e: "e \<in> set (dropWhile ?P es)" for e
  proof -
    obtain d ds where d: "dropWhile ?P es = d # ds" using e by (cases "dropWhile ?P es") auto
    then have "entry_key a < entry_key d" by (metis hd_dropWhile list.distinct(1) list.sel(1))
    moreover have "entry_key d \<le> entry_key e"
      using s d e by (auto simp: sorted_append)
    ultimately show ?thesis by simp
  qed
  moreover have "entry_key e \<le> entry_key a" if "e \<in> set (takeWhile ?P es)" for e
    using set_takeWhileD [OF that] by (simp add: not_less)
  moreover note s [unfolded map_append sorted_append]
  ultimately show ?thesis by (simp add: insert_entry_def sorted_append)
qed

lemma sorted_last_max: "sorted (map f es) \<Longrightarrow> e \<in> set es \<Longrightarrow> f e \<le> f (last es)"
  by (induction es rule: rev_induct) (auto simp: sorted_append)

lemma insert_or_append_eq:
  assumes "sorted (map entry_key es)"
  shows "insert_or_append a es = insert_entry a es"
proof (cases "es = [] \<or> entry_key (last es) \<le> entry_key a")
  case True
  have "\<not> entry_key a < entry_key e" if "e \<in> set es" for e
  proof -
    have "entry_key e \<le> entry_key (last es)" by (rule sorted_last_max [OF assms that])
    then show ?thesis using True that by auto
  qed
  then have "insert_entry a es = es @ [a]" by (simp add: insert_entry_def takeWhile_eq_all_conv)
  then show ?thesis using True by (auto simp: insert_or_append_def entry_key_def less_eq_prod_def)
next
  case False
  then show ?thesis by (auto simp: insert_or_append_def entry_key_def less_eq_prod_def)
qed

lemma insert_held_ok:
  assumes q: "seq_inv stride s (x # A) q" and k: "id_key i \<notin> ts_index q"
    and a: "a = \<lparr>ee_identity = i, ee_position = p, ee_ordinal = n, ee_slot = x\<rparr>"
  shows "seq_inv stride s A (q\<lparr>ts_entries := insert_entry a (ts_entries q),
      ts_index := insert (id_key i) (ts_index q)\<rparr>)"
proof -
  let ?es = "ts_entries q" and ?es' = "insert_entry a (ts_entries q)"
  have c: "distinct (map ee_key ?es)" "distinct (ts_slots q)" "distinct (x # A)"
      "set (ts_slots q) \<inter> set (x # A) = {}" "sorted (map entry_key ?es)"
      "ts_index q = ee_key ` set ?es"
    using q by (auto simp: seq_inv_def seq_core_def)
  have m: "mset (map f ?es') = mset (map f (a # ?es))" for f :: "exact_entry \<Rightarrow> 'b"
    by (simp add: mset_insert_entry)
  have "distinct (map ee_key ?es')"
    using mset_eq_imp_distinct_iff [OF m [of ee_key]] c(1,6) k a by simp
  moreover have "distinct (map ee_slot ?es')"
    using mset_eq_imp_distinct_iff [OF m [of ee_slot]] c(2,4) a by simp
  moreover have "sorted (map entry_key ?es')" by (rule sorted_insert_entry [OF c(5)])
  moreover have "set (ts_slots q @ x # A) = set (map ee_slot ?es' @ A)" using a by auto
  then have "arena_ok stride s (ts_used q) (set (map ee_slot ?es' @ A))"
    using q by (simp add: seq_inv_def seq_core_def)
  moreover have "insert (id_key i) (ts_index q) = set (map ee_key ?es')" using a c(6) by auto
  ultimately show ?thesis using q c(3,4) a by (simp add: seq_inv_def seq_core_def)
qed

lemma count_recovery_inv [simp]:
  "seq_inv stride s A (count_recovery n q) = seq_inv stride s A q"
  "ts_entries (count_recovery n q) = ts_entries q"
  by (auto simp: count_recovery_def Let_def)

text \<open>When a slot can be obtained: the entry list is full and its head is evicted, or the arena has a
  free slot.\<close>

definition has_room :: "llama_kv_tail_store \<Rightarrow> int list \<Rightarrow> tail_seq \<Rightarrow> bool" where
  "has_room t A q \<longleftrightarrow>
     ((st_compact_storage t \<or> \<not> st_in_batch t) \<and> length (ts_entries q) \<ge> tail_limit t \<and> ts_entries q \<noteq> []) \<or>
     length (ts_entries q) + length A < st_arena_stride t"

lemma obtain_slot_ok:
  assumes fits: "arena_fits (st_arena_stride t) s" and q: "seq_inv (st_arena_stride t) s A q"
    and room: "has_room t A q"
  shows "\<exists>x q'. obtain_slot t s q = Inr (x, q') \<and> seq_inv (st_arena_stride t) s (x # A) q' \<and>
    ts_entries q' = (if (st_compact_storage t \<or> \<not> st_in_batch t) \<and>
        length (ts_entries q) \<ge> tail_limit t \<and> ts_entries q \<noteq> [] then tl (ts_entries q) else ts_entries q) \<and>
    ts_degradation q' = ts_degradation q \<and> ts_recovery q' = ts_recovery q"
proof (cases "(st_compact_storage t \<or> \<not> st_in_batch t) \<and> length (ts_entries q) \<ge> tail_limit t \<and>
    ts_entries q \<noteq> []")
  case True
  then obtain e es where es: "ts_entries q = e # es" by (cases "ts_entries q") auto
  have "ee_key e \<notin> ee_key ` set es" using q es by (simp add: seq_inv_def seq_core_def)
  then have "filter (\<lambda>x. ee_key x \<noteq> ee_key e) es = es" by (intro filter_True) (metis image_eqI)
  then have f: "filter (\<lambda>x. ee_key x \<noteq> ee_key e) (ts_entries q) = es" using es by simp
  obtain q' where "erase_entry (st_arena_stride t) s e False q = Inr q'"
      "seq_inv (st_arena_stride t) s (ee_slot e # A) q'" "ts_entries q' = es"
      "ts_degradation q' = ts_degradation q" "ts_recovery q' = ts_recovery q"
    using erase_entry_ok(2) [OF fits q, of e] es unfolding f by auto
  then show ?thesis using True es by (simp add: obtain_slot_def)
next
  case False
  let ?S = "set (ts_slots q @ A)"
  have c: "distinct (ts_slots q @ A)" "arena_ok (st_arena_stride t) s (ts_used q) ?S"
      "st_arena_stride t = 0 \<or> ts_cursor q < st_arena_stride t"
    using q by (simp_all add: seq_inv_def seq_core_def)
  have lt: "length (ts_entries q) + length A < st_arena_stride t" using room False by (auto simp: has_room_def)
  then have "card ?S < st_arena_stride t" using distinct_card [OF c(1)] by simp
  then obtain x u c' where x: "acquire (st_arena_stride t) s q = Inr (x, q\<lparr>ts_used := u, ts_cursor := c'\<rparr>)"
      "x \<notin> ?S" "arena_ok (st_arena_stride t) s u (insert x ?S)" "c' < st_arena_stride t"
    using acquire_ok [OF fits c(2)] c(3) lt by (metis less_zeroE)
  then have "seq_inv (st_arena_stride t) s (x # A) (q\<lparr>ts_used := u, ts_cursor := c'\<rparr>)"
    using q by (simp add: seq_inv_def seq_core_def insert_commute)
  then show ?thesis using x(1) False by (auto simp: obtain_slot_def)
qed

lemma update_first_map:
  assumes "\<And>e. g (f e) = g e"
  shows "map g (update_first P f es) = map g es"
  using assms by (induction es) auto

lemma mset_sort_map: "mset (map g (sort_key f es)) = mset (map g es)"
  by simp

lemma commit_refresh_ok:
  assumes fits: "arena_fits (st_arena_stride t) s" and q: "seq_inv (st_arena_stride t) s A q"
  shows "\<exists>q'. commit_refresh t s i p n q = Inr q' \<and> seq_inv (st_arena_stride t) s A q' \<and>
    length (ts_entries q') = min (tail_limit t) (length (ts_entries q))"
proof -
  let ?es = "sort_key entry_key (update_first (\<lambda>e. ee_key e = id_key i)
             (\<lambda>e. e\<lparr>ee_position := p, ee_ordinal := n\<rparr>) (ts_entries q))"
  let ?q = "q\<lparr>ts_entries := ?es\<rparr>"
  have m: "mset (map g ?es) = mset (map g (ts_entries q))"
    if "\<And>e. g (e\<lparr>ee_position := p, ee_ordinal := n\<rparr>) = g e" for g :: "exact_entry \<Rightarrow> 'b"
    unfolding mset_sort_map by (simp only: update_first_map [of g, OF that])
  have "seq_core (st_arena_stride t) s A ?q"
    by (rule seq_core_permute [OF seq_inv_core [OF q]]) (rule m, simp)
  moreover have "set (map ee_key ?es) = ts_index q"
    using mset_eq_setD [OF m [of ee_key]] q by (simp add: seq_inv_def)
  ultimately have "seq_inv (st_arena_stride t) s A ?q" by (simp add: seq_inv_def)
  moreover have "length ?es = length (ts_entries q)"
    using update_first_map [of "\<lambda>_. ()" _ "\<lambda>e. ee_key e = id_key i" "ts_entries q"]
    by (metis (no_types, lifting) length_map length_sort)
  ultimately show ?thesis
    using trim_ok [OF fits, of A ?q "tail_limit t"] by (auto simp: commit_refresh_def)
qed

lemma commit_insert_ok:
  assumes fits: "arena_fits (st_arena_stride t) s" and q: "seq_inv (st_arena_stride t) s A q"
    and room: "\<And>q'. ts_entries q' = filter (\<lambda>e. ee_key e \<noteq> id_key i) (ts_entries q) \<Longrightarrow> has_room t A q'"
  shows "\<exists>q'. commit_insert t s i p n q = Inr q' \<and> seq_inv (st_arena_stride t) s A q' \<and>
    (\<exists>es x. (es = filter (\<lambda>e. ee_key e \<noteq> id_key i) (ts_entries q) \<or>
        (es = tl (filter (\<lambda>e. ee_key e \<noteq> id_key i) (ts_entries q)) \<and>
         tail_limit t \<le> length (filter (\<lambda>e. ee_key e \<noteq> id_key i) (ts_entries q)))) \<and>
      ((st_compact_storage t \<or> \<not> st_in_batch t) \<longrightarrow>
         length es < max 1 (tail_limit t) \<or> tail_limit t < length (ts_entries q)) \<and>
      ts_entries q' = (let es' = insert_entry \<lparr>ee_identity = i, ee_position = p, ee_ordinal = n, ee_slot = x\<rparr> es
         in if st_in_batch t then es' else drop (length es' - tail_limit t) es'))"
proof -
  let ?st = "st_arena_stride t" and ?F = "filter (\<lambda>e. ee_key e \<noteq> id_key i) (ts_entries q)"
  obtain q1 where q1: "(case find_entry q (id_key i) of
        Some e \<Rightarrow> erase_entry ?st s e True q | None \<Rightarrow> Inr q) = Inr q1"
      "seq_inv ?st s A q1" "ts_entries q1 = ?F"
  proof (cases "find_entry q (id_key i)")
    case None
    then have "\<And>e. e \<in> set (ts_entries q) \<Longrightarrow> ee_key e \<noteq> id_key i"
      using find_entry_None [OF q] q by (force simp: seq_inv_def)
    then have "ts_entries q = ?F" by simp
    then show ?thesis using that [of q] None q by simp
  next
    case (Some e)
    then have "e \<in> set (ts_entries q)" "ee_key e = id_key i" using find_entry_Some [OF q] by auto
    then show ?thesis using that erase_entry_ok(1) [OF fits q] Some by fastforce
  qed
  obtain x q2 where q2: "obtain_slot t s q1 = Inr (x, q2)" "seq_inv ?st s (x # A) q2"
      "ts_entries q2 = (if (st_compact_storage t \<or> \<not> st_in_batch t) \<and>
        length ?F \<ge> tail_limit t \<and> ?F \<noteq> [] then tl ?F else ?F)"
    using obtain_slot_ok [OF fits q1(2) room [OF q1(3)]] unfolding q1(3) by blast
  let ?a = "\<lparr>ee_identity = i, ee_position = p, ee_ordinal = n, ee_slot = x\<rparr>"
  let ?q3 = "count_recovery (st_n_tokens t) (q2\<lparr>ts_entries := insert_or_append ?a (ts_entries q2),
      ts_index := insert (id_key i) (ts_index q2)\<rparr>)"
  have "set (ts_entries q2) \<subseteq> set ?F" unfolding q2(3) by (auto dest: list.set_sel(2))
  then have "id_key i \<notin> ts_index q2" using q2(2) by (auto simp: seq_inv_def)
  moreover have so: "sorted (map entry_key (ts_entries q2))" using q2(2) by (simp add: seq_inv_def)
  ultimately have q3: "seq_inv ?st s A ?q3" "ts_entries ?q3 = insert_entry ?a (ts_entries q2)"
    using insert_held_ok [OF q2(2)] by (simp_all add: insert_or_append_eq)
  obtain q4 where q4: "(if \<not> st_in_batch t then trim ?st s (tail_limit t) ?q3 else Inr ?q3) = Inr q4"
      "seq_inv ?st s A q4" "ts_entries q4 = (let es' = insert_entry ?a (ts_entries q2)
         in if st_in_batch t then es' else drop (length es' - tail_limit t) es')"
    using trim_ok [OF fits q3(1), of "tail_limit t"] q3 by (cases "st_in_batch t") (auto simp: Let_def)
  have "commit_insert t s i p n q = Inr q4"
    using q1(1) q2(1) q4(1) by (simp add: commit_insert_def Let_def)
  moreover have "(st_compact_storage t \<or> \<not> st_in_batch t) \<longrightarrow>
      length (ts_entries q2) < max 1 (tail_limit t) \<or> tail_limit t < length (ts_entries q)"
  proof (cases "tail_limit t \<le> length ?F \<and> ?F \<noteq> []")
    case True
    then have "length (tl ?F) < length ?F" by (cases ?F) auto
    moreover have "length ?F \<le> length (ts_entries q)" by simp
    ultimately show ?thesis using True unfolding q2(3) by (simp del: length_filter_le length_tl) linarith
  next
    case False
    then show ?thesis unfolding q2(3) by auto
  qed
  moreover have "ts_entries q2 = ?F \<or> ts_entries q2 = tl ?F \<and> tail_limit t \<le> length ?F"
    unfolding q2(3) by simp
  ultimately show ?thesis using q4(2,3) by blast
qed

end
