(* ===== verification/TailInv.thy ===== *)
theory TailInv
  imports TailStore
begin

text \<open>
  The invariant of the tail store and the properties that rest on it: every operation completes
  under the conditions its callers establish, keeps the invariant, and does to the entries what it
  promises. The operations on one sequence and their lemmas are in \<^verbatim>\<open>TailStore\<close>.
\<close>

section \<open>Loops over the sequences\<close>

text \<open>The contract of a per-sequence operation: under \<open>I\<close> it completes and relates the old and the new
  state of the sequence by \<open>J\<close>. A loop over all sequences then completes, keeps everything else of
  the store and relates every sequence to its successor.\<close>

locale seq_operation =
  fixes I :: "nat \<Rightarrow> tail_seq \<Rightarrow> bool"
    and J :: "nat \<Rightarrow> tail_seq \<Rightarrow> tail_seq \<Rightarrow> bool"
    and f :: "nat \<Rightarrow> tail_seq \<Rightarrow> tail_seq res"
  assumes completes: "I s q \<Longrightarrow> \<exists>q'. f s q = Inr q' \<and> J s q q'"
begin

lemma for_seqs_prefix:
  assumes I: "\<And>s. s < length (st_seqs t) \<Longrightarrow> I s (st_seqs t ! s)" and k: "k \<le> length (st_seqs t)"
  shows "\<exists>qs. fold_r (\<lambda>s t. bind_r (f s (st_seqs t ! s)) (\<lambda>q. Inr (t\<lparr>st_seqs := (st_seqs t)[s := q]\<rparr>)))
      [0..<k] t = Inr (t\<lparr>st_seqs := qs\<rparr>) \<and> length qs = length (st_seqs t) \<and>
    (\<forall>s < k. J s (st_seqs t ! s) (qs ! s)) \<and> (\<forall>s. k \<le> s \<longrightarrow> qs ! s = st_seqs t ! s)"
  using k
proof (induction k)
  case 0
  then show ?case by (intro exI [of _ "st_seqs t"]) simp
next
  case (Suc k)
  then obtain qs where qs: "fold_r (\<lambda>s t. bind_r (f s (st_seqs t ! s)) (\<lambda>q. Inr (t\<lparr>st_seqs := (st_seqs t)[s := q]\<rparr>)))
      [0..<k] t = Inr (t\<lparr>st_seqs := qs\<rparr>)" "length qs = length (st_seqs t)"
      "\<forall>s < k. J s (st_seqs t ! s) (qs ! s)" "\<forall>s. k \<le> s \<longrightarrow> qs ! s = st_seqs t ! s"
    by auto
  obtain q' where q': "f k (st_seqs t ! k) = Inr q'" "J k (st_seqs t ! k) q'"
    using completes I Suc.prems by (meson Suc_le_lessD)
  show ?case
    by (intro exI [of _ "qs[k := q']"])
      (use qs q' Suc.prems in \<open>auto simp: fold_r_append nth_list_update less_Suc_eq\<close>)
qed

lemma for_seqs_completes:
  assumes "\<And>s. s < length (st_seqs t) \<Longrightarrow> I s (st_seqs t ! s)"
  shows "\<exists>qs. for_seqs f t = Inr (t\<lparr>st_seqs := qs\<rparr>) \<and> length qs = length (st_seqs t) \<and>
    (\<forall>s < length qs. J s (st_seqs t ! s) (qs ! s))"
  using for_seqs_prefix [OF assms, of "length (st_seqs t)"] by (auto simp: for_seqs_def)

end

definition seq_ready :: "nat \<Rightarrow> nat \<Rightarrow> tail_seq \<Rightarrow> bool" where
  "seq_ready stride s q \<longleftrightarrow> arena_fits stride s \<and> seq_inv stride s [] q"

interpretation trim_op: seq_operation "seq_ready stride"
  "\<lambda>s q q'. seq_inv stride s [] q' \<and> ts_entries q' = drop (length (ts_entries q) - limit) (ts_entries q) \<and>
     ts_degradation q' = ts_degradation q \<and> ts_recovery q' = ts_recovery q"
  "\<lambda>s. trim stride s limit" for stride limit
proof unfold_locales
  fix s q assume "seq_ready stride s q"
  then show "\<exists>q'. trim stride s limit q = Inr q' \<and> seq_inv stride s [] q' \<and>
      ts_entries q' = drop (length (ts_entries q) - limit) (ts_entries q) \<and>
      ts_degradation q' = ts_degradation q \<and> ts_recovery q' = ts_recovery q"
    using trim_ok [of stride s "[]" q limit] unfolding seq_ready_def by blast
qed

interpretation rebuild_op: seq_operation "seq_ready stride" "\<lambda>s q q'. q' = q" "\<lambda>s. rebuild_index" for stride
  by unfold_locales (auto simp: seq_ready_def seq_inv_def rebuild_index_eq seq_core_def)

definition invalidate_seq :: "nat \<Rightarrow> int list \<Rightarrow> nat \<Rightarrow> nat \<Rightarrow> tail_seq \<Rightarrow> tail_seq res" where
  "invalidate_seq stride slots flags s q =
     bind_r (erase_if stride s (\<lambda>e. ee_slot e \<in> set slots) q) (\<lambda>q'.
       if \<exists>e \<in> set (ts_entries q). ee_slot e \<in> set slots
       then bind_r (rebuild_index q') (\<lambda>q'. Inr (degrade flags q')) else Inr q')"

lemma invalidate_seq_ok:
  assumes "seq_ready stride s q"
  shows "\<exists>q'. invalidate_seq stride slots flags s q = Inr q' \<and> seq_inv stride s [] q' \<and>
    ts_entries q' = filter (\<lambda>e. ee_slot e \<notin> set slots) (ts_entries q)"
proof (cases "\<exists>e \<in> set (ts_entries q). ee_slot e \<in> set slots")
  case True
  obtain q1 q2 where "erase_if stride s (\<lambda>e. ee_slot e \<in> set slots) q = Inr q1"
      "rebuild_index q1 = Inr q2" "seq_inv stride s [] q2"
      "ts_entries q2 = filter (\<lambda>e. ee_slot e \<notin> set slots) (ts_entries q)"
    using erase_rebuild_ok [of stride s "[]" q "\<lambda>e. ee_slot e \<in> set slots"] assms
    unfolding seq_ready_def by blast
  then have "invalidate_seq stride slots flags s q = Inr (degrade flags q2)"
      "seq_inv stride s [] (degrade flags q2)" "ts_entries (degrade flags q2) = ts_entries q2"
    using True by (simp_all add: invalidate_seq_def) (simp add: degrade_def)
  then show ?thesis using \<open>ts_entries q2 = _\<close> by simp
next
  case False
  then have "filter (\<lambda>e. ee_slot e \<in> set slots) (ts_entries q) = []"
      "filter (\<lambda>e. ee_slot e \<notin> set slots) (ts_entries q) = ts_entries q"
    by (auto simp: filter_empty_conv)
  then show ?thesis using False assms by (simp add: invalidate_seq_def erase_if_def seq_ready_def)
qed

interpretation invalidate_op: seq_operation "seq_ready stride"
  "\<lambda>s q q'. seq_inv stride s [] q' \<and> ts_entries q' = filter (\<lambda>e. ee_slot e \<notin> set slots) (ts_entries q)"
  "invalidate_seq stride slots flags" for stride slots flags
  by unfold_locales (rule invalidate_seq_ok)

text \<open>The position operations move some entries, drop some of them and restore the order.\<close>

lemma reorder_seq_ok:
  assumes fits: "arena_fits (st_arena_stride t) s" and q: "seq_core (st_arena_stride t) s A q"
  shows "\<exists>q'. reorder_seq t s deg q = Inr q' \<and> seq_inv (st_arena_stride t) s A q' \<and>
    ts_entries q' = drop (length (ts_entries q) - tail_limit t) (sort_key entry_key (ts_entries q))"
proof -
  let ?es = "sort_key entry_key (ts_entries q)" and ?st = "st_arena_stride t"
  let ?n = "length ?es - tail_limit t"
  have "seq_core ?st s A (q\<lparr>ts_entries := ?es\<rparr>)" by (rule seq_core_permute [OF q]) simp
  then obtain I u where t: "trim_loop ?st s ?n (q\<lparr>ts_entries := ?es\<rparr>) =
        Inr (q\<lparr>ts_entries := ?es, ts_index := I, ts_used := u, ts_entries := drop ?n ?es\<rparr>)"
      "seq_core ?st s A (q\<lparr>ts_entries := ?es, ts_index := I, ts_used := u, ts_entries := drop ?n ?es\<rparr>)"
    using trim_loop_ok [OF fits, of A "q\<lparr>ts_entries := ?es\<rparr>" ?n] by auto
  have "sorted (map entry_key (drop ?n ?es))" by (simp add: sorted_wrt_drop flip: drop_map)
  with rebuild_index_ok [OF t(2)] t(1) show ?thesis
    by (auto simp: reorder_seq_def trim_def degrade_def)
qed

lemma move_entries_core:
  assumes "seq_core stride s A q"
  shows "seq_core stride s A (q\<lparr>ts_entries := map (move_entry ids f) (ts_entries q)\<rparr>)"
proof (rule seq_core_permute [OF assms])
  have "(\<lambda>e. (ee_key e, ee_slot e)) \<circ> move_entry ids f = (\<lambda>e. (ee_key e, ee_slot e))"
    by (auto simp: move_entry_def)
  then show "mset (map (\<lambda>e. (ee_key e, ee_slot e)) (map (move_entry ids f) (ts_entries q))) =
      mset (map (\<lambda>e. (ee_key e, ee_slot e)) (ts_entries q))"
    by (simp only: map_map)
qed

section \<open>The invariant of the store\<close>

definition tail_config :: "llama_kv_tail_store \<Rightarrow> bool" where
  "tail_config t \<longleftrightarrow> st_history_limit t \<le> st_arena_stride t \<and> st_n_tokens t \<le> st_history_limit t \<and>
     (\<not> st_compact_storage t \<longrightarrow> st_history_limit t = st_n_tokens t \<and> st_rollback_tokens t = 0) \<and>
     (st_compact_storage t \<longrightarrow> st_history_limit t = st_n_tokens t + st_rollback_tokens t \<and> st_n_tokens t + st_rollback_tokens t \<le> UINT32_MAX) \<and>
     st_arena_stride t * length (st_seqs t) \<le> st_n_slots t \<and> st_n_slots t \<le> INT32_MAX"

definition pending_held :: "llama_kv_tail_store \<Rightarrow> nat \<Rightarrow> int list" where
  "pending_held t s = (case pending_for t (int s) of None \<Rightarrow> [] | Some p \<Rightarrow> pc_acquired p)"

text \<open>With compact storage a sequence never keeps more than the limit. A standard arena may hold a
  whole batch more, also after the batch is finished: the next batch trims it.\<close>

definition pending_ok :: "llama_kv_tail_store \<Rightarrow> bool" where
  "pending_ok t \<longleftrightarrow> (case st_pending t of None \<Rightarrow> True
   | Some p \<Rightarrow> valid_seq t (pc_dst p) \<and> sorted (map entry_key (pc_destination p)) \<and>
       distinct (map ee_key (pc_destination p)) \<and> distinct (map ee_slot (pc_destination p)) \<and>
       length (pc_destination p) \<le> tail_limit t \<and>
       ee_slot ` set (pc_destination p) \<subseteq> set (ts_slots (st_seqs t ! nat (pc_dst p))) \<union> set (pc_acquired p) \<and>
       set (pc_acquired p) \<subseteq> ee_slot ` set (pc_destination p))"

definition batch_ok :: "llama_kv_tail_store \<Rightarrow> bool" where
  "batch_ok t \<longleftrightarrow> (case st_batch t of None \<Rightarrow> True
   | Some tx \<Rightarrow> st_compact_storage t \<and> st_pending t = None \<and>
       length (bt_seqs tx) = length (st_seqs t) \<and> length (bt_current tx) = length (st_seqs t) \<and>
       length (bt_affected tx) = length (st_seqs t) \<and>
       (\<forall>s < length (st_seqs t). seq_inv (st_arena_stride t) s [] (bt_seqs tx ! s) \<and>
          length (ts_entries (bt_seqs tx ! s)) \<le> tail_limit t))"

definition seqs_ok :: "llama_kv_tail_store \<Rightarrow> bool" where
  "seqs_ok t \<longleftrightarrow> (\<forall>s < length (st_seqs t). seq_inv (st_arena_stride t) s (pending_held t s) (st_seqs t ! s) \<and>
     (st_compact_storage t \<longrightarrow> length (ts_entries (st_seqs t ! s)) \<le> tail_limit t))"

definition store_inv :: "llama_kv_tail_store \<Rightarrow> bool" where
  "store_inv t \<longleftrightarrow> tail_config t \<and> seqs_ok t \<and> pending_ok t \<and> batch_ok t"

lemmas store_parts = tail_limit_def valid_seq_def pending_for_def pending_held_def

lemma store_parts_upd [simp]:
  "tail_limit (t\<lparr>st_seqs := qs\<rparr>) = tail_limit t"
  "tail_limit (t\<lparr>st_pending := p\<rparr>) = tail_limit t"
  "tail_limit (t\<lparr>st_batch := b\<rparr>) = tail_limit t"
  "tail_limit (t\<lparr>st_in_batch := c\<rparr>) = tail_limit t"
  "pending_held (t\<lparr>st_seqs := qs\<rparr>) = pending_held t"
  "pending_held (t\<lparr>st_batch := b\<rparr>) = pending_held t"
  "pending_held (t\<lparr>st_in_batch := c\<rparr>) = pending_held t"
  by (auto simp: store_parts intro!: ext)

lemma ts_entries_empty [simp]: "ts_entries (tail_seq_empty stride) = []"
  by (simp add: tail_seq_empty_def)

lemma tail_config_fits:
  assumes "tail_config t" and "s < length (st_seqs t)"
  shows "arena_fits (st_arena_stride t) s"
proof -
  have "Suc s * st_arena_stride t \<le> length (st_seqs t) * st_arena_stride t"
    using assms(2) by (intro mult_le_mono1) simp
  also have "\<dots> \<le> INT32_MAX" using assms(1) by (simp add: tail_config_def mult.commute)
  finally show ?thesis by (simp add: arena_fits_def add.commute)
qed

lemma tail_limit_config: "tail_config t \<Longrightarrow> tail_limit t = st_history_limit t \<and> tail_limit t \<le> st_arena_stride t"
  by (auto simp: tail_config_def tail_limit_def)

lemma pending_held_None [simp]: "st_pending t = None \<Longrightarrow> pending_held t s = []"
  by (simp add: pending_held_def pending_for_def)

lemma store_inv_ready:
  "store_inv t \<Longrightarrow> st_pending t = None \<Longrightarrow> s < length (st_seqs t) \<Longrightarrow>
     seq_ready (st_arena_stride t) s (st_seqs t ! s)"
  by (simp add: store_inv_def seqs_ok_def seq_ready_def tail_config_fits)

text \<open>Replacing sequences by others that satisfy the invariant.\<close>

lemma store_inv_seqs:
  assumes t: "store_inv t" and p: "st_pending t = None"
    and qs: "length qs = length (st_seqs t)"
    and inv: "\<And>s. s < length qs \<Longrightarrow> seq_inv (st_arena_stride t) s [] (qs ! s)"
    and len: "\<And>s. s < length qs \<Longrightarrow> st_compact_storage t \<Longrightarrow> length (ts_entries (qs ! s)) \<le> tail_limit t"
  shows "store_inv (t\<lparr>st_seqs := qs\<rparr>)"
  using t p qs inv len
  by (simp add: store_inv_def tail_config_def seqs_ok_def pending_ok_def batch_ok_def split: option.splits)

lemma store_inv_seq:
  assumes t: "store_inv t" and p: "st_pending t = None" and s: "s < length (st_seqs t)"
    and inv: "seq_inv (st_arena_stride t) s [] q"
    and len: "st_compact_storage t \<Longrightarrow> length (ts_entries q) \<le> tail_limit t"
  shows "store_inv (t\<lparr>st_seqs := (st_seqs t)[s := q]\<rparr>)"
proof (rule store_inv_seqs [OF t p])
  have old: "seq_inv (st_arena_stride t) s' [] (st_seqs t ! s') \<and>
      (st_compact_storage t \<longrightarrow> length (ts_entries (st_seqs t ! s')) \<le> tail_limit t)" if "s' < length (st_seqs t)" for s'
    using t p that by (simp add: store_inv_def seqs_ok_def)
  show "length ((st_seqs t)[s := q]) = length (st_seqs t)" by simp
  fix s' assume "s' < length ((st_seqs t)[s := q])"
  then show "seq_inv (st_arena_stride t) s' [] ((st_seqs t)[s := q] ! s')"
    using old inv by (cases "s = s'") auto
  assume "st_compact_storage t"
  then show "length (ts_entries ((st_seqs t)[s := q] ! s')) \<le> tail_limit t"
    using old len \<open>s' < length ((st_seqs t)[s := q])\<close> by (cases "s = s'") auto
qed

lemma store_inv_in_batch:
  assumes "store_inv t"
  shows "store_inv (t\<lparr>st_in_batch := c\<rparr>)"
  using assms
  by (auto simp: store_inv_def tail_config_def seqs_ok_def pending_ok_def batch_ok_def valid_seq_def
      split: option.splits)

lemma store_inv_no_batch: "store_inv t \<Longrightarrow> store_inv (t\<lparr>st_batch := None\<rparr>)"
  by (auto simp: store_inv_def tail_config_def seqs_ok_def pending_ok_def batch_ok_def valid_seq_def
      split: option.splits)

section \<open>Every operation keeps the invariant\<close>

lemma tail_store_standard_inv:
  "tail_store_standard n_tokens n_seq stride sink = Inr t \<Longrightarrow> store_inv t"
  by (auto simp: tail_store_standard_def checked_tail_slot_count_eq store_inv_def tail_config_def
      seqs_ok_def pending_ok_def batch_ok_def store_parts mult.commute split: if_splits)

lemma tail_store_compact_inv:
  "tail_store_compact n_tokens rollback n_seq stride sink = Inr t \<Longrightarrow> store_inv t"
  by (auto simp: tail_store_compact_def checked_tail_slot_count_eq checked_tail_history_limit_def
      store_inv_def tail_config_def seqs_ok_def pending_ok_def batch_ok_def store_parts mult.commute
      Let_def split: if_splits)

lemma begin_batch_ok:
  assumes t: "store_inv t" and p: "st_pending t = None" and b: "st_batch t = None"
  shows "\<exists>t'. begin_batch t = Inr t' \<and> store_inv t' \<and> st_in_batch t' \<and>
    length (st_seqs t') = length (st_seqs t) \<and> st_arena_stride t' = st_arena_stride t \<and>
    st_compact_storage t' = st_compact_storage t \<and> st_pending t' = None \<and> st_n_tokens t' = st_n_tokens t \<and>
    tail_limit t' = tail_limit t \<and> st_n_slots t' = st_n_slots t \<and>
    (st_compact_storage t \<longrightarrow> st_batch t' = Some \<lparr>bt_seqs = st_seqs t,
       bt_current = replicate (length (st_seqs t)) [], bt_affected = replicate (length (st_seqs t)) False\<rparr>) \<and>
    (\<forall>s < length (st_seqs t). ts_entries (st_seqs t' ! s) =
       (let es = ts_entries (st_seqs t ! s) in drop (length es - tail_limit t) es))"
proof -
  let ?tx = "\<lparr>bt_seqs = st_seqs t, bt_current = replicate (length (st_seqs t)) [],
      bt_affected = replicate (length (st_seqs t)) False\<rparr>"
  let ?t1 = "if st_compact_storage t then t\<lparr>st_batch := Some ?tx\<rparr> else t"
  have f: "st_seqs ?t1 = st_seqs t" "st_arena_stride ?t1 = st_arena_stride t" "st_pending ?t1 = None"
    "tail_limit ?t1 = tail_limit t" using p by (auto simp: tail_limit_def)
  have t1: "store_inv ?t1" using t p
    by (auto simp: store_inv_def tail_config_def seqs_ok_def pending_ok_def batch_ok_def store_parts)
  have r: "\<And>s. s < length (st_seqs ?t1) \<Longrightarrow> seq_ready (st_arena_stride t) s (st_seqs ?t1 ! s)"
    using store_inv_ready [OF t1 f(3)] f(2) by simp
  obtain qs where qs: "for_seqs (\<lambda>s. trim (st_arena_stride t) s (tail_limit t)) ?t1 = Inr (?t1\<lparr>st_seqs := qs\<rparr>)"
      "length qs = length (st_seqs t)"
      "\<And>s. s < length qs \<Longrightarrow> seq_inv (st_arena_stride t) s [] (qs ! s) \<and>
         ts_entries (qs ! s) = drop (length (ts_entries (st_seqs t ! s)) - tail_limit t) (ts_entries (st_seqs t ! s))"
    using trim_op.for_seqs_completes [OF r, of "tail_limit t"] unfolding f(1) by blast
  have len: "length (ts_entries (qs ! s)) \<le> tail_limit t" if "s < length qs" for s
    using qs(3) [OF that] by simp
  have inv: "store_inv (?t1\<lparr>st_seqs := qs\<rparr>)"
    by (rule store_inv_seqs [OF t1 f(3)]) (use qs len f in auto)
  let ?t2 = "?t1\<lparr>st_seqs := qs, st_in_batch := True\<rparr>"
  have "store_inv (?t1\<lparr>st_seqs := qs\<rparr>\<lparr>st_in_batch := True\<rparr>)"
    by (rule store_inv_in_batch [OF inv])
  then have "store_inv ?t2" by simp
  moreover have "begin_batch t = Inr ?t2"
    using b qs(1) by (simp add: begin_batch_def f(2,4) tail_limit_def split: if_splits)
  ultimately show ?thesis
    by (intro exI [of _ ?t2]) (use qs(2,3) f in \<open>simp add: Let_def tail_limit_def\<close>)
qed

text \<open>What undoing a batch does to one sequence.\<close>

definition undo_seq :: "nat \<Rightarrow> (nat \<Rightarrow> bool) \<Rightarrow> nat \<Rightarrow> tail_seq \<Rightarrow> tail_seq res" where
  "undo_seq stride lost s q =
     bind_r (rebuild_index q) (\<lambda>q.
       if \<not> lost s then Inr q
       else bind_r (erase_if stride s (\<lambda>_. True) q) (\<lambda>q.
         Inr (degrade LLAMA_KV_TAIL_DEGRADED_PAYLOAD_INVALID (q\<lparr>ts_index := {}\<rparr>))))"

lemma undo_seq_ok:
  assumes "seq_ready stride s q"
  shows "\<exists>q'. undo_seq stride lost s q = Inr q' \<and> seq_inv stride s [] q' \<and>
    (if lost s then ts_entries q' = [] \<and>
       ts_degradation q' = (ts_degradation q OR LLAMA_KV_TAIL_DEGRADED_PAYLOAD_INVALID) \<and> ts_recovery q' = 0
     else q' = q)"
proof -
  have q: "arena_fits stride s" "seq_inv stride s [] q" using assms by (simp_all add: seq_ready_def)
  have r: "rebuild_index q = Inr q"
    using q(2) by (simp add: rebuild_index_eq seq_inv_def seq_core_def)
  obtain u where u: "erase_if stride s (\<lambda>_. True) q = Inr (q\<lparr>ts_entries := [], ts_used := u\<rparr>)"
      "seq_core stride s [] (q\<lparr>ts_entries := [], ts_used := u\<rparr>)"
    using erase_if_ok [OF q(1) seq_inv_core [OF q(2)], of "\<lambda>_. True"] by auto
  show ?thesis
  proof (cases "lost s")
    case True
    then have "undo_seq stride lost s q = Inr (degrade LLAMA_KV_TAIL_DEGRADED_PAYLOAD_INVALID
        (q\<lparr>ts_entries := [], ts_used := u, ts_index := {}\<rparr>))"
      using r u(1) by (simp add: undo_seq_def)
    moreover have "seq_inv stride s [] (q\<lparr>ts_entries := [], ts_used := u, ts_index := {}\<rparr>)"
      using u(2) by (simp add: seq_inv_def seq_core_def)
    ultimately show ?thesis using True by (simp add: degrade_def)
  next
    case False
    then show ?thesis using r q(2) by (simp add: undo_seq_def)
  qed
qed

interpretation undo_op: seq_operation "seq_ready stride"
  "\<lambda>s q q'. seq_inv stride s [] q' \<and>
    (if lost s then ts_entries q' = [] \<and>
       ts_degradation q' = (ts_degradation q OR LLAMA_KV_TAIL_DEGRADED_PAYLOAD_INVALID) \<and> ts_recovery q' = 0
     else q' = q)"
  "undo_seq stride lost" for stride lost
  by unfold_locales (rule undo_seq_ok)

lemma finish_batch_failed:
  assumes t: "store_inv t" and b: "st_batch t = Some tx"
  shows "\<exists>t'. finish_batch False payload t = Inr t' \<and> store_inv t' \<and> st_batch t' = None \<and>
    \<not> st_in_batch t' \<and> length (st_seqs t') = length (st_seqs t) \<and>
    (\<forall>s < length (st_seqs t). if payload \<and> bt_affected tx ! s
       then ts_entries (st_seqs t' ! s) = [] \<and>
         ts_degradation (st_seqs t' ! s) =
           (ts_degradation (bt_seqs tx ! s) OR LLAMA_KV_TAIL_DEGRADED_PAYLOAD_INVALID) \<and>
         ts_recovery (st_seqs t' ! s) = 0
       else st_seqs t' ! s = bt_seqs tx ! s)"
proof -
  let ?t0 = "t\<lparr>st_seqs := bt_seqs tx\<rparr>" and ?lost = "\<lambda>s. payload \<and> bt_affected tx ! s"
  have tx: "st_compact_storage t" "st_pending t = None" "length (bt_seqs tx) = length (st_seqs t)"
      "\<And>s. s < length (st_seqs t) \<Longrightarrow> seq_inv (st_arena_stride t) s [] (bt_seqs tx ! s) \<and>
          length (ts_entries (bt_seqs tx ! s)) \<le> tail_limit t"
    using t b by (auto simp: store_inv_def batch_ok_def)
  have t0: "store_inv ?t0" by (rule store_inv_seqs [OF t tx(2)]) (use tx in auto)
  have r: "\<And>s. s < length (st_seqs ?t0) \<Longrightarrow> seq_ready (st_arena_stride t) s (st_seqs ?t0 ! s)"
    using store_inv_ready [OF t0] tx(2) by simp
  obtain qs where qs: "for_seqs (undo_seq (st_arena_stride t) ?lost) ?t0 = Inr (?t0\<lparr>st_seqs := qs\<rparr>)"
      "length qs = length (st_seqs ?t0)"
      "\<And>s. s < length qs \<Longrightarrow> seq_inv (st_arena_stride t) s [] (qs ! s) \<and>
        (if ?lost s then ts_entries (qs ! s) = [] \<and>
           ts_degradation (qs ! s) = (ts_degradation (st_seqs ?t0 ! s) OR LLAMA_KV_TAIL_DEGRADED_PAYLOAD_INVALID) \<and>
           ts_recovery (qs ! s) = 0
         else qs ! s = st_seqs ?t0 ! s)"
    using undo_op.for_seqs_completes [OF r, of ?lost] by blast
  have "store_inv (t\<lparr>st_seqs := qs\<rparr>)"
  proof (rule store_inv_seqs [OF t tx(2)])
    fix s assume s: "s < length qs"
    show "seq_inv (st_arena_stride t) s [] (qs ! s)" using qs(3) [OF s] by simp
    show "length (ts_entries (qs ! s)) \<le> tail_limit t"
      using qs(3) [OF s] tx(4) [of s] qs(2) tx(3) s by (cases "?lost s") simp_all
  qed (use qs(2) tx(3) in simp)
  then have inv: "store_inv (t\<lparr>st_seqs := qs\<rparr>\<lparr>st_batch := None\<rparr>\<lparr>st_in_batch := False\<rparr>)"
    by (intro store_inv_in_batch store_inv_no_batch)
  let ?t' = "t\<lparr>st_seqs := qs, st_batch := None, st_in_batch := False\<rparr>"
  have "finish_batch False payload t = Inr ?t'"
    using tx(1) b qs(1) by (simp add: finish_batch_def undo_seq_def [abs_def])
  then show ?thesis using inv qs(2,3) tx(3) by (intro exI [of _ ?t']) simp
qed

lemma finish_batch_ok:
  assumes "store_inv t"
  shows "\<exists>t'. finish_batch ok payload t = Inr t' \<and> store_inv t'"
proof (cases "st_compact_storage t")
  case False
  then show ?thesis using assms by (simp add: finish_batch_def store_inv_in_batch)
next
  case c: True
  show ?thesis
  proof (cases "st_batch t")
    case None
    then show ?thesis using assms c by (simp add: finish_batch_def)
  next
    case (Some tx)
    have "store_inv (t\<lparr>st_batch := None\<rparr>\<lparr>st_in_batch := False\<rparr>)"
      using assms by (intro store_inv_in_batch store_inv_no_batch)
    then show ?thesis
      using finish_batch_failed [OF assms Some, of payload] c Some
      by (cases ok) (auto simp: finish_batch_def)
  qed
qed

lemma store_inv_batch:
  assumes "store_inv t" and "st_batch t = Some tx"
    and "bt_seqs tx' = bt_seqs tx" and "length (bt_current tx') = length (bt_current tx)"
    and "length (bt_affected tx') = length (bt_affected tx)"
  shows "store_inv (t\<lparr>st_batch := Some tx'\<rparr>)"
  using assms
  by (auto simp: store_inv_def tail_config_def seqs_ok_def pending_ok_def batch_ok_def valid_seq_def
      split: option.splits)

lemma record_current_ok:
  assumes t: "store_inv t" and row: "st_batch t \<noteq> None \<Longrightarrow> row = UINT32_MAX \<or> st_n_slots t + row \<le> INT32_MAX"
  shows "\<exists>b. record_current s i p n row slot t = Inr (t\<lparr>st_batch := b\<rparr>) \<and> store_inv (t\<lparr>st_batch := b\<rparr>) \<and>
    (b = None \<longleftrightarrow> st_batch t = None)"
proof (cases "st_batch t")
  case None
  then have "t\<lparr>st_batch := None\<rparr> = t" by simp
  then show ?thesis using None store_inv_no_batch [OF t]
    by (intro exI [of _ None]) (simp add: record_current_def)
next
  case (Some tx)
  show ?thesis
  proof (cases "row \<noteq> UINT32_MAX \<and> slot \<ge> 0")
    case True
    then have "\<not> st_n_slots t + row > INT32_MAX" using row Some by auto
    let ?tx = "tx\<lparr>bt_current := (bt_current tx)[s := bt_current tx ! s @
        [\<lparr>ee_identity = i, ee_position = p, ee_ordinal = n, ee_slot = int (st_n_slots t + row)\<rparr>]],
      bt_affected := (bt_affected tx)[s := True]\<rparr>"
    have "store_inv (t\<lparr>st_batch := Some ?tx\<rparr>)" by (rule store_inv_batch [OF t Some]) simp_all
    then show ?thesis using True Some \<open>\<not> st_n_slots t + row > INT32_MAX\<close>
      by (intro exI [of _ "Some ?tx"]) (simp add: record_current_def Let_def)
  next
    case False
    have "store_inv (t\<lparr>st_batch := Some tx\<rparr>)" by (rule store_inv_batch [OF t Some]) simp_all
    then show ?thesis using False Some by (intro exI [of _ "Some tx"]) (auto simp: record_current_def)
  qed
qed

text \<open>When a commit has room: the arena of a standard store inside a batch must have a free slot; in
  every other case there always is one.\<close>

definition commit_pre :: "int \<Rightarrow> nat \<Rightarrow> llama_kv_tail_store \<Rightarrow> bool" where
  "commit_pre seq_id row t \<longleftrightarrow> st_pending t = None \<and>
     (st_batch t = None \<or> row = UINT32_MAX \<or> st_n_slots t + row \<le> INT32_MAX) \<and>
     (valid_seq t seq_id \<and> \<not> st_compact_storage t \<and> st_in_batch t \<longrightarrow>
        length (ts_entries (st_seqs t ! nat seq_id)) < st_arena_stride t)"

lemma commit_seq_ok:
  assumes t: "store_inv t" and pre: "commit_pre (int s) row t" and s: "s < length (st_seqs t)"
    and n0: "st_n_tokens t \<noteq> 0"
  defines "q \<equiv> st_seqs t ! s"
  shows "\<exists>q'. commit_refresh t s i p n q = Inr q' \<and> seq_inv (st_arena_stride t) s [] q' \<and>
      (st_compact_storage t \<longrightarrow> length (ts_entries q') \<le> tail_limit t) \<and>
      length (ts_entries q') \<le> length (ts_entries q)" (is ?R)
    and "\<exists>q'. commit_insert t s i p n q = Inr q' \<and> seq_inv (st_arena_stride t) s [] q' \<and>
      (st_compact_storage t \<longrightarrow> length (ts_entries q') \<le> tail_limit t) \<and>
      length (ts_entries q') \<le> Suc (length (ts_entries q)) \<and>
      (\<exists>es x. set es \<subseteq> set (ts_entries q) \<and> (\<forall>e \<in> set es. ee_key e \<noteq> id_key i) \<and>
        ts_entries q' = (let es' = insert_entry \<lparr>ee_identity = i, ee_position = p, ee_ordinal = n, ee_slot = x\<rparr> es
         in if st_in_batch t then es' else drop (length es' - tail_limit t) es'))" (is ?N)
proof -
  have c: "tail_config t" and q: "seq_inv (st_arena_stride t) s [] q"
    and len: "st_compact_storage t \<longrightarrow> length (ts_entries q) \<le> tail_limit t"
    using t pre s by (simp_all add: store_inv_def seqs_ok_def commit_pre_def q_def)
  have fits: "arena_fits (st_arena_stride t) s" using tail_config_fits [OF c s] .
  have lim: "0 < tail_limit t" "tail_limit t \<le> st_arena_stride t"
    using c n0 by (auto simp: tail_config_def tail_limit_def)
  show ?R using commit_refresh_ok [OF fits q, of i p n] len by auto
  let ?F = "filter (\<lambda>e. ee_key e \<noteq> id_key i) (ts_entries q)"
  have F: "length ?F \<le> length (ts_entries q)" by simp
  have "has_room t [] q'" if "ts_entries q' = ?F" for q'
  proof (cases "length ?F < tail_limit t")
    case True
    then show ?thesis using that lim by (simp add: has_room_def)
  next
    case False
    then have ne: "?F \<noteq> []" using lim by (metis length_0_conv)
    show ?thesis
    proof (cases "\<not> st_compact_storage t \<and> st_in_batch t")
      case True
      then have "length (ts_entries q) < st_arena_stride t"
        using pre s by (simp add: commit_pre_def valid_seq_def q_def)
      then have "length ?F < st_arena_stride t" using F by linarith
      then show ?thesis using that by (simp add: has_room_def)
    next
      case no: False
      then show ?thesis unfolding has_room_def that using ne False by auto
    qed
  qed
  then obtain q' es x where q': "commit_insert t s i p n q = Inr q'" "seq_inv (st_arena_stride t) s [] q'"
      and es: "es = ?F \<or> (es = tl ?F \<and> tail_limit t \<le> length ?F)"
      and le: "(st_compact_storage t \<or> \<not> st_in_batch t) \<longrightarrow>
         length es < max 1 (tail_limit t) \<or> tail_limit t < length (ts_entries q)"
      and ent: "ts_entries q' = (let es' = insert_entry \<lparr>ee_identity = i, ee_position = p, ee_ordinal = n, ee_slot = x\<rparr> es
         in if st_in_batch t then es' else drop (length es' - tail_limit t) es')"
    using commit_insert_ok [OF fits q, of i p n] by blast
  have li: "length (insert_entry a es) = Suc (length es)" for a
    using arg_cong [OF mset_insert_entry [of a es], of size] by simp
  have "set (tl xs) \<subseteq> set xs" for xs :: "exact_entry list" by (cases xs) auto
  then have sub: "set es \<subseteq> set ?F" "length es \<le> length ?F" using es by (blast, auto)
  have "length (ts_entries q') \<le> Suc (length es)" using ent li by (simp add: Let_def)
  moreover from this have "length (ts_entries q') \<le> Suc (length (ts_entries q))" using sub(2) F by linarith
  moreover have "length (ts_entries q') \<le> tail_limit t" if "st_compact_storage t"
    using that le len lim(1) \<open>length (ts_entries q') \<le> Suc (length es)\<close> by (auto simp: max_def)
  ultimately show ?N using q' ent sub(1) by (intro exI [of _ q'] conjI exI [of _ es] exI [of _ x]) auto
qed

lemma tail_commit_ok:
  assumes t: "store_inv t" and pre: "commit_pre seq_id row t"
  shows "\<exists>slot t'. tail_commit seq_id i p n row t = Inr (slot, t') \<and> store_inv t' \<and>
    st_pending t' = None \<and> st_in_batch t' = st_in_batch t \<and> st_compact_storage t' = st_compact_storage t \<and>
    st_arena_stride t' = st_arena_stride t \<and> st_n_slots t' = st_n_slots t \<and> st_n_tokens t' = st_n_tokens t \<and>
    length (st_seqs t') = length (st_seqs t) \<and>
    (\<forall>s < length (st_seqs t). length (ts_entries (st_seqs t' ! s)) \<le>
       length (ts_entries (st_seqs t ! s)) + (if int s = seq_id then 1 else 0))"
proof (cases "\<not> valid_seq t seq_id \<or> st_n_tokens t = 0")
  case True
  then show ?thesis using t pre by (auto simp: tail_commit_def commit_pre_def)
next
  case False
  define s where "s = nat seq_id"
  have s: "s < length (st_seqs t)" "int s = seq_id" using False by (auto simp: s_def valid_seq_def)
  have p0: "st_pending t = None" using pre by (simp add: commit_pre_def)
  define q where "q = st_seqs t ! s"
  define refresh where "refresh = (case find_entry q (id_key i) of Some e \<Rightarrow> ee_identity e = i | None \<Rightarrow> False)"
  obtain q' where q': "(if refresh then commit_refresh t s i p n q else commit_insert t s i p n q) = Inr q'"
      "seq_inv (st_arena_stride t) s [] q'" "st_compact_storage t \<longrightarrow> length (ts_entries q') \<le> tail_limit t"
      "length (ts_entries q') \<le> Suc (length (ts_entries q))"
    using commit_seq_ok [OF t _ s(1), of row i p n] pre False s(2)
    unfolding q_def by (cases refresh) fastforce+
  let ?t1 = "t\<lparr>st_seqs := (st_seqs t)[s := q']\<rparr>"
  have t1: "store_inv ?t1" using store_inv_seq [OF t p0 s(1) q'(2)] q'(3) by simp
  obtain b where b: "record_current s i p n row (retained_slot q' i) ?t1 = Inr (?t1\<lparr>st_batch := b\<rparr>)"
      "store_inv (?t1\<lparr>st_batch := b\<rparr>)"
    using record_current_ok [OF t1] pre by (fastforce simp: commit_pre_def)
  have "tail_commit seq_id i p n row t = Inr (retained_slot q' i, ?t1\<lparr>st_batch := b\<rparr>)"
    using False unfolding tail_commit_def Let_def s_def [symmetric] q_def [symmetric]
      refresh_def [symmetric] q'(1) by (simp add: b(1))
  moreover have "length (ts_entries ((st_seqs t)[s := q'] ! s')) \<le>
      length (ts_entries (st_seqs t ! s')) + (if int s' = seq_id then 1 else 0)" for s'
    using q'(4) s by (cases "s' = s") (auto simp: q_def)
  ultimately show ?thesis using b(2) p0 by auto
qed

lemma recycle_ok:
  assumes t: "store_inv t" and p: "st_pending t = None"
  shows "\<exists>t'. recycle stream cell gen t = Inr t' \<and> store_inv t' \<and> st_pending t' = None \<and>
    length (st_seqs t') = length (st_seqs t)"
proof -
  define n where "n = length (st_seqs t)"
  let ?I = "\<lambda>t. store_inv t \<and> st_pending t = None \<and> length (st_seqs t) = n"
  show ?thesis unfolding recycle_def n_def [symmetric]
  proof (rule fold_r_invariant [where I = ?I], goal_cases)
    case (1 s t)
    then have s: "s < length (st_seqs t)" and t: "store_inv t" and p: "st_pending t = None" by auto
    let ?q = "st_seqs t ! s"
    have q: "seq_ready (st_arena_stride t) s ?q" using store_inv_ready [OF t p s] .
    show ?case
    proof (cases "find_entry ?q (cell_key stream cell)")
      case None
      then show ?thesis using 1 by simp
    next
      case (Some e)
      let ?t1 = "case st_batch t of None \<Rightarrow> t
          | Some tx \<Rightarrow> t\<lparr>st_batch := Some (tx\<lparr>bt_affected := (bt_affected tx)[s := True]\<rparr>)\<rparr>"
      have e: "e \<in> set (ts_entries ?q)"
        using find_entry_Some [of "st_arena_stride t" s "[]" ?q] Some q by (simp add: seq_ready_def)
      obtain q' where q': "erase_entry (st_arena_stride t) s e True ?q = Inr q'"
          "seq_inv (st_arena_stride t) s [] q'" "length (ts_entries q') \<le> length (ts_entries ?q)"
        using erase_entry_ok(1) [of "st_arena_stride t" s "[]" ?q e] e q by (fastforce simp: seq_ready_def)
      have f: "st_seqs ?t1 = st_seqs t" "st_arena_stride ?t1 = st_arena_stride t" "st_pending ?t1 = None"
        "tail_limit ?t1 = tail_limit t" "st_compact_storage ?t1 = st_compact_storage t"
        using p by (auto split: option.splits)
      have t1: "store_inv ?t1"
        using t by (auto split: option.splits intro: store_inv_batch)
      have "length (ts_entries q') \<le> tail_limit t" if "st_compact_storage t"
        using t p s that q'(3) by (force simp: store_inv_def seqs_ok_def)
      then have "store_inv (?t1\<lparr>st_seqs := (st_seqs ?t1)[s := q']\<rparr>)"
        using store_inv_seq [OF t1 f(3), of s q'] s q'(2) f by simp
      moreover have "erase_entry (st_arena_stride ?t1) s e True (st_seqs ?t1 ! s) = Inr q'"
        using q'(1) f by simp
      ultimately show ?thesis using Some 1 f by (simp add: Let_def)
    qed
  qed (use t p n_def in auto)
qed

lemma cancel_seq_cp_ok:
  assumes t: "store_inv t"
  shows "\<exists>t'. cancel_seq_cp t = Inr t' \<and> store_inv t' \<and> st_pending t' = None \<and>
    length (st_seqs t') = length (st_seqs t) \<and> st_compact_storage t' = st_compact_storage t \<and>
    st_arena_stride t' = st_arena_stride t \<and> tail_limit t' = tail_limit t \<and>
    (\<forall>s < length (st_seqs t). ts_entries (st_seqs t' ! s) = ts_entries (st_seqs t ! s) \<and>
       ts_degradation (st_seqs t' ! s) = ts_degradation (st_seqs t ! s) \<and>
       ts_recovery (st_seqs t' ! s) = ts_recovery (st_seqs t ! s))"
proof (cases "st_pending t")
  case None
  then show ?thesis using t by (auto simp: cancel_seq_cp_def)
next
  case (Some p)
  define d where "d = nat (pc_dst p)"
  have v: "valid_seq t (pc_dst p)" using t Some by (simp add: store_inv_def pending_ok_def)
  then have d: "d < length (st_seqs t)" "int d = pc_dst p" by (auto simp: valid_seq_def d_def)
  let ?q = "st_seqs t ! d" and ?st = "st_arena_stride t"
  have h: "pending_held t s = (if s = d then pc_acquired p else [])" for s
    using Some d(2) by (auto simp: pending_held_def pending_for_def)
  have held: "seq_inv ?st s (pending_held t s) (st_seqs t ! s)" if "s < length (st_seqs t)" for s
    using t that by (simp add: store_inv_def seqs_ok_def)
  have q: "seq_inv ?st d (pc_acquired p) ?q" using held [OF d(1)] h by simp
  have fits: "arena_fits ?st d" using t d(1) by (simp add: store_inv_def tail_config_fits)
  have c: "distinct (ts_slots ?q @ pc_acquired p)" "arena_ok ?st d (ts_used ?q) (set (ts_slots ?q @ pc_acquired p))"
    using q by (simp_all add: seq_inv_def seq_core_def)
  obtain u where u: "fold_r (\<lambda>e. release ?st d e) (pc_acquired p) (ts_used ?q) = Inr u"
      "arena_ok ?st d u (set (ts_slots ?q @ pc_acquired p) - set (pc_acquired p))"
    using release_all_ok [OF fits c(2), of "\<lambda>x. x" "pc_acquired p"] c(1) by auto
  have "set (ts_slots ?q @ pc_acquired p) - set (pc_acquired p) = set (ts_slots ?q)"
    using c(1) by auto
  then have q': "seq_inv ?st d [] (?q\<lparr>ts_used := u\<rparr>)"
    using q u(2) by (simp add: seq_inv_def seq_core_def)
  let ?t' = "t\<lparr>st_seqs := (st_seqs t)[d := ?q\<lparr>ts_used := u\<rparr>], st_pending := None\<rparr>"
  have old: "seq_inv ?st s [] (st_seqs t ! s)" if "s < length (st_seqs t)" "s \<noteq> d" for s
    using held [OF that(1)] h that(2) by simp
  have "seqs_ok ?t'"
    unfolding seqs_ok_def
  proof (intro allI impI conjI)
    fix s assume s: "s < length (st_seqs ?t')"
    show "seq_inv (st_arena_stride ?t') s (pending_held ?t' s) (st_seqs ?t' ! s)"
      using s old q' by (cases "s = d") auto
    assume "st_compact_storage ?t'"
    then have "length (ts_entries (st_seqs t ! s)) \<le> tail_limit t"
      using t s by (simp add: store_inv_def seqs_ok_def)
    then show "length (ts_entries (st_seqs ?t' ! s)) \<le> tail_limit ?t'"
      using s by (cases "s = d") auto
  qed
  then have inv: "store_inv ?t'"
    using t by (auto simp: store_inv_def tail_config_def pending_ok_def batch_ok_def split: option.splits)
  have "cancel_seq_cp t = Inr ?t'"
    using Some v u(1) by (simp add: cancel_seq_cp_def Let_def d_def)
  then show ?thesis using inv d(1) by (intro exI [of _ ?t']) (auto simp: nth_list_update)
qed

lemma tail_clear_ok:
  assumes t: "store_inv t"
  shows "\<exists>t'. tail_clear t = Inr t' \<and> store_inv t' \<and> st_pending t' = None \<and> st_batch t' = None \<and>
    \<not> st_in_batch t' \<and>
    st_seqs t' = replicate (length (st_seqs t)) (tail_seq_empty (st_arena_stride t))"
proof -
  obtain t1 where t1: "cancel_seq_cp t = Inr t1" "store_inv t1" "st_pending t1 = None"
      "length (st_seqs t1) = length (st_seqs t)" "st_arena_stride t1 = st_arena_stride t"
    using cancel_seq_cp_ok [OF t] by auto
  let ?e = "tail_seq_empty (st_arena_stride t)"
  let ?f = "\<lambda>q. q\<lparr>ts_entries := [], ts_index := {}, ts_degradation := 0,
                 ts_recovery := 0, ts_cursor := 0, ts_used := map (\<lambda>_. False) (ts_used q)\<rparr>"
  have "?f q = ?e" if "q \<in> set (st_seqs t1)" for q
  proof -
    obtain s where s: "s < length (st_seqs t1)" "q = st_seqs t1 ! s" using \<open>q \<in> set (st_seqs t1)\<close>
      by (auto simp: in_set_conv_nth)
    have "seq_inv (st_arena_stride t) s [] q"
      using t1 s by (simp add: store_inv_def seqs_ok_def)
    then have "length (ts_used q) = st_arena_stride t"
      by (simp add: seq_inv_def seq_core_def arena_ok_def)
    then show ?thesis by (simp add: tail_seq_empty_def map_replicate_const)
  qed
  then have m: "map ?f (st_seqs t1) = replicate (length (st_seqs t)) ?e"
    using t1(4) by (metis (no_types, lifting) map_cong map_replicate_const)
  have i: "store_inv (t1\<lparr>st_seqs := replicate (length (st_seqs t)) ?e\<rparr>)"
    by (rule store_inv_seqs [OF t1(2,3)]) (use t1(4,5) in auto)
  have "store_inv (t1\<lparr>st_seqs := replicate (length (st_seqs t)) ?e\<rparr>\<lparr>st_batch := None\<rparr>\<lparr>st_in_batch := False\<rparr>)"
    by (intro store_inv_in_batch store_inv_no_batch i)
  then have "store_inv (t1\<lparr>st_batch := None, st_in_batch := False, st_seqs := map ?f (st_seqs t1)\<rparr>)"
    unfolding m by (cases t1) simp
  then show ?thesis using t1(1,3) m by (simp add: tail_clear_def)
qed

lemma store_seq_bound:
  "store_inv t \<Longrightarrow> s < length (st_seqs t) \<Longrightarrow> st_compact_storage t \<Longrightarrow>
     length (ts_entries (st_seqs t ! s)) \<le> tail_limit t"
  by (simp add: store_inv_def seqs_ok_def)

lemma store_inv_shrink:
  assumes t: "store_inv t" and p: "st_pending t = None" and s: "s < length (st_seqs t)"
    and "seq_inv (st_arena_stride t) s [] q" and "length (ts_entries q) \<le> length (ts_entries (st_seqs t ! s))"
  shows "store_inv (t\<lparr>st_seqs := (st_seqs t)[s := q]\<rparr>)"
  by (rule store_inv_seq [OF t p s assms(4)]) (use store_seq_bound [OF t s] assms(5) in linarith)

lemma tail_seq_rm_ok:
  assumes t: "store_inv t" and p: "st_pending t = None"
  shows "\<exists>t'. tail_seq_rm seq_id p0 p1 t = Inr t' \<and> store_inv t' \<and> st_pending t' = None \<and>
    length (st_seqs t') = length (st_seqs t) \<and>
    (\<forall>s < length (st_seqs t). ts_entries (st_seqs t' ! s) =
       (if int s = seq_id then filter (\<lambda>e. \<not> in_range p0 p1 e) (ts_entries (st_seqs t ! s))
        else ts_entries (st_seqs t ! s)))"
proof (cases "valid_seq t seq_id")
  case False
  then show ?thesis using t p by (auto simp: tail_seq_rm_def valid_seq_def)
next
  case True
  define s where "s = nat seq_id"
  have s: "s < length (st_seqs t)" "int s = seq_id" using True by (auto simp: s_def valid_seq_def)
  let ?q = "st_seqs t ! s" and ?st = "st_arena_stride t"
  have r: "arena_fits ?st s" "seq_inv ?st s [] ?q"
    using store_inv_ready [OF t p s(1)] by (simp_all add: seq_ready_def)
  obtain q1 q2 where q: "erase_if ?st s (in_range p0 p1) ?q = Inr q1" "rebuild_index q1 = Inr q2"
      "seq_inv ?st s [] q2" "ts_entries q2 = filter (\<lambda>e. \<not> in_range p0 p1 e) (ts_entries ?q)"
    using erase_rebuild_ok [OF r] by blast
  let ?q3 = "if ts_entries q2 = [] \<and> p0 \<le> 0 \<and> p1 < 0
             then q2\<lparr>ts_degradation := 0, ts_recovery := 0\<rparr> else q2"
  let ?t' = "t\<lparr>st_seqs := (st_seqs t)[s := ?q3]\<rparr>"
  have q3: "seq_inv ?st s [] ?q3" "ts_entries ?q3 = ts_entries q2" using q(3) by auto
  have "length (ts_entries q2) \<le> length (ts_entries ?q)" unfolding q(4) by (rule length_filter_le)
  then have "length (ts_entries ?q3) \<le> length (ts_entries ?q)" using q3(2) by simp
  then have "store_inv ?t'" by (rule store_inv_shrink [OF t p s(1) q3(1)])
  moreover have "tail_seq_rm seq_id p0 p1 t = Inr ?t'"
    using True q(1,2) by (simp add: tail_seq_rm_def Let_def flip: s_def)
  ultimately show ?thesis using p q(4) q3(2) s(1)
    by (intro exI [of _ ?t']) (auto simp: nth_list_update simp flip: s(2))
qed

lemma tail_seq_rm_cell_ok:
  assumes t: "store_inv t" and p: "st_pending t = None"
  shows "\<exists>t'. tail_seq_rm_cell seq_id stream cell t = Inr t' \<and> store_inv t' \<and> st_pending t' = None"
proof (cases "valid_seq t seq_id")
  case False
  then show ?thesis using t p by (auto simp: tail_seq_rm_cell_def)
next
  case True
  define s where "s = nat seq_id"
  have s: "s < length (st_seqs t)" using True by (auto simp: s_def valid_seq_def)
  let ?P = "\<lambda>e. id_stream (ee_identity e) = stream \<and> id_cell (ee_identity e) = cell"
  let ?q = "st_seqs t ! s" and ?st = "st_arena_stride t"
  have r: "arena_fits ?st s" "seq_inv ?st s [] ?q"
    using store_inv_ready [OF t p s(1)] by (simp_all add: seq_ready_def)
  obtain q1 q2 where q: "erase_if ?st s ?P ?q = Inr q1" "rebuild_index q1 = Inr q2"
      "seq_inv ?st s [] q2" "ts_entries q2 = filter (\<lambda>e. \<not> ?P e) (ts_entries ?q)"
    using erase_rebuild_ok [OF r] by blast
  have "length (ts_entries q2) \<le> length (ts_entries ?q)" unfolding q(4) by (rule length_filter_le)
  then have "store_inv (t\<lparr>st_seqs := (st_seqs t)[s := q2]\<rparr>)"
    by (rule store_inv_shrink [OF t p s q(3)])
  then show ?thesis using True q(1,2) p by (simp add: tail_seq_rm_cell_def Let_def flip: s_def)
qed

lemma tail_seq_keep_ok:
  assumes t: "store_inv t" and p: "st_pending t = None"
  shows "\<exists>t'. tail_seq_keep seq_id t = Inr t' \<and> store_inv t' \<and> st_pending t' = None"
proof -
  have "\<exists>t'. fold_r (\<lambda>s t. if int s \<noteq> seq_id then tail_seq_rm (int s) 0 (-1) t else Inr t) ss t = Inr t' \<and>
      (store_inv t' \<and> st_pending t' = None)" for ss
    by (rule fold_r_invariant) (use tail_seq_rm_ok t p in \<open>fastforce\<close>)+
  then show ?thesis by (simp add: tail_seq_keep_def)
qed

text \<open>The body of the loops of \<^verbatim>\<open>seq_add\<close> and \<^verbatim>\<open>seq_div\<close>, with the test that drops entries.\<close>

definition shift_seq ::
    "llama_kv_tail_store \<Rightarrow> llama_kv_tail_identity set \<Rightarrow> (int \<Rightarrow> int) \<Rightarrow> bool \<Rightarrow> nat \<Rightarrow> tail_seq \<Rightarrow> tail_seq res" where
  "shift_seq t ids f deg s q =
     (if \<not> (\<exists>e \<in> set (ts_entries q). ee_identity e \<in> ids) then Inr q
      else bind_r (erase_if (st_arena_stride t) s
                     (\<lambda>e. ee_identity e \<in> ids \<and> ee_position e < 0)
                     (q\<lparr>ts_entries := map (move_entry ids f) (ts_entries q)\<rparr>))
             (reorder_seq t s deg))"

definition scale_seq ::
    "llama_kv_tail_store \<Rightarrow> llama_kv_tail_identity set \<Rightarrow> (int \<Rightarrow> int) \<Rightarrow> bool \<Rightarrow> nat \<Rightarrow> tail_seq \<Rightarrow> tail_seq res" where
  "scale_seq t ids f deg s q =
     (if \<not> (\<exists>e \<in> set (ts_entries q). ee_identity e \<in> ids) then Inr q
      else reorder_seq t s deg (q\<lparr>ts_entries := map (move_entry ids f) (ts_entries q)\<rparr>))"

lemma shift_seq_ok:
  assumes "seq_ready (st_arena_stride t) s q"
  shows "\<exists>q'. shift_seq t ids f deg s q = Inr q' \<and> seq_inv (st_arena_stride t) s [] q' \<and>
    length (ts_entries q') \<le> max (tail_limit t) (if \<exists>e \<in> set (ts_entries q). ee_identity e \<in> ids then 0
      else length (ts_entries q))"
proof (cases "\<exists>e \<in> set (ts_entries q). ee_identity e \<in> ids")
  case True
  have q: "arena_fits (st_arena_stride t) s" "seq_core (st_arena_stride t) s [] q"
    using assms by (auto simp: seq_ready_def)
  let ?P = "\<lambda>e. ee_identity e \<in> ids \<and> ee_position e < 0"
  let ?q = "q\<lparr>ts_entries := map (move_entry ids f) (ts_entries q)\<rparr>"
  obtain q1 where "erase_if (st_arena_stride t) s ?P ?q = Inr q1" "seq_core (st_arena_stride t) s [] q1"
    using erase_if_ok [OF q(1) move_entries_core [OF q(2)], of ?P ids f] by blast
  then show ?thesis using reorder_seq_ok [OF q(1), of "[]" q1 deg] True by (auto simp: shift_seq_def)
qed (use assms in \<open>auto simp: shift_seq_def seq_ready_def\<close>)

lemma scale_seq_ok:
  assumes "seq_ready (st_arena_stride t) s q"
  shows "\<exists>q'. scale_seq t ids f deg s q = Inr q' \<and> seq_inv (st_arena_stride t) s [] q' \<and>
    length (ts_entries q') \<le> max (tail_limit t) (if \<exists>e \<in> set (ts_entries q). ee_identity e \<in> ids then 0
      else length (ts_entries q))"
proof (cases "\<exists>e \<in> set (ts_entries q). ee_identity e \<in> ids")
  case True
  have q: "arena_fits (st_arena_stride t) s" "seq_core (st_arena_stride t) s [] q"
    using assms by (auto simp: seq_ready_def)
  show ?thesis
    using reorder_seq_ok [OF q(1) move_entries_core [OF q(2), of ids f], of deg] True
    by (auto simp: scale_seq_def)
qed (use assms in \<open>auto simp: scale_seq_def seq_ready_def\<close>)

interpretation shift_op: seq_operation "seq_ready (st_arena_stride t)"
  "\<lambda>s q q'. seq_inv (st_arena_stride t) s [] q' \<and>
     length (ts_entries q') \<le> max (tail_limit t) (if \<exists>e \<in> set (ts_entries q). ee_identity e \<in> ids then 0
       else length (ts_entries q))"
  "shift_seq t ids f deg" for t ids f deg
  by unfold_locales (rule shift_seq_ok)

interpretation scale_op: seq_operation "seq_ready (st_arena_stride t)"
  "\<lambda>s q q'. seq_inv (st_arena_stride t) s [] q' \<and>
     length (ts_entries q') \<le> max (tail_limit t) (if \<exists>e \<in> set (ts_entries q). ee_identity e \<in> ids then 0
       else length (ts_entries q))"
  "scale_seq t ids f deg" for t ids f deg
  by unfold_locales (rule scale_seq_ok)

lemma store_inv_moved:
  assumes t: "store_inv t" and p: "st_pending t = None" and "length qs = length (st_seqs t)"
    and qs: "\<And>s. s < length qs \<Longrightarrow> seq_inv (st_arena_stride t) s [] (qs ! s) \<and>
      length (ts_entries (qs ! s)) \<le> max (tail_limit t) (if P s then 0 else length (ts_entries (st_seqs t ! s)))"
  shows "store_inv (t\<lparr>st_seqs := qs\<rparr>)"
proof (rule store_inv_seqs [OF t p assms(3)])
  fix s assume s: "s < length qs"
  show "seq_inv (st_arena_stride t) s [] (qs ! s)" using qs [OF s] by simp
  assume "st_compact_storage t"
  then have "length (ts_entries (st_seqs t ! s)) \<le> tail_limit t"
    using store_seq_bound [OF t] s assms(3) by simp
  then show "length (ts_entries (qs ! s)) \<le> tail_limit t" using qs [OF s] by (cases "P s") auto
qed

lemma tail_seq_add_ok:
  assumes t: "store_inv t" and p: "st_pending t = None"
  shows "\<exists>t'. tail_seq_add seq_id p0 p1 shift t = Inr t' \<and> store_inv t' \<and> st_pending t' = None"
proof (cases "valid_seq t seq_id")
  case True
  have e: "tail_seq_add seq_id p0 p1 shift t =
      for_seqs (shift_seq t (range_identities t seq_id p0 p1) (\<lambda>p. p + shift)
        (shift \<noteq> 0 \<and> \<not> (p0 \<le> 0 \<and> p1 < 0))) t"
    using True by (simp add: tail_seq_add_def Let_def shift_seq_def [abs_def])
  let ?ids = "range_identities t seq_id p0 p1"
  obtain qs where qs: "tail_seq_add seq_id p0 p1 shift t = Inr (t\<lparr>st_seqs := qs\<rparr>)" "length qs = length (st_seqs t)"
      "\<And>s. s < length qs \<Longrightarrow> seq_inv (st_arena_stride t) s [] (qs ! s) \<and> length (ts_entries (qs ! s)) \<le>
        max (tail_limit t) (if \<exists>e \<in> set (ts_entries (st_seqs t ! s)). ee_identity e \<in> ?ids then 0
          else length (ts_entries (st_seqs t ! s)))"
    unfolding e using shift_op.for_seqs_completes [OF store_inv_ready [OF t p]] by blast
  then show ?thesis using p store_inv_moved [OF t p qs(2,3)] by simp
qed (use t p in \<open>auto simp: tail_seq_add_def\<close>)

lemma tail_seq_div_ok:
  assumes t: "store_inv t" and p: "st_pending t = None"
  shows "\<exists>t'. tail_seq_div seq_id p0 p1 k t = Inr t' \<and> store_inv t' \<and> st_pending t' = None"
proof (cases "valid_seq t seq_id \<and> k \<noteq> 0")
  case True
  have e: "tail_seq_div seq_id p0 p1 k t =
      for_seqs (scale_seq t (range_identities t seq_id p0 p1) (\<lambda>p. p sdiv k)
        (k \<noteq> 1 \<and> \<not> (p0 \<le> 0 \<and> p1 < 0))) t"
    using True by (simp add: tail_seq_div_def Let_def scale_seq_def [abs_def])
  let ?ids = "range_identities t seq_id p0 p1"
  obtain qs where qs: "tail_seq_div seq_id p0 p1 k t = Inr (t\<lparr>st_seqs := qs\<rparr>)" "length qs = length (st_seqs t)"
      "\<And>s. s < length qs \<Longrightarrow> seq_inv (st_arena_stride t) s [] (qs ! s) \<and> length (ts_entries (qs ! s)) \<le>
        max (tail_limit t) (if \<exists>e \<in> set (ts_entries (st_seqs t ! s)). ee_identity e \<in> ?ids then 0
          else length (ts_entries (st_seqs t ! s)))"
    unfolding e using scale_op.for_seqs_completes [OF store_inv_ready [OF t p]] by blast
  then show ?thesis using p store_inv_moved [OF t p qs(2,3)] by simp
qed (use t p in \<open>auto simp: tail_seq_div_def\<close>)

lemma invalidate_slots_ok:
  assumes t: "store_inv t" and p: "st_pending t = None"
  shows "\<exists>t'. invalidate_slots slots flags t = Inr t' \<and> store_inv t' \<and> st_pending t' = None \<and>
    length (st_seqs t') = length (st_seqs t) \<and>
    (\<forall>s < length (st_seqs t). ts_entries (st_seqs t' ! s) =
       filter (\<lambda>e. ee_slot e \<notin> set slots) (ts_entries (st_seqs t ! s)))"
proof -
  obtain qs where qs: "for_seqs (invalidate_seq (st_arena_stride t) slots flags) t = Inr (t\<lparr>st_seqs := qs\<rparr>)"
      "length qs = length (st_seqs t)" "\<And>s. s < length qs \<Longrightarrow> seq_inv (st_arena_stride t) s [] (qs ! s) \<and>
         ts_entries (qs ! s) = filter (\<lambda>e. ee_slot e \<notin> set slots) (ts_entries (st_seqs t ! s))"
    using invalidate_op.for_seqs_completes [OF store_inv_ready [OF t p], of slots flags] by blast
  have "length (ts_entries (qs ! s)) \<le> length (ts_entries (st_seqs t ! s))" if "s < length qs" for s
    using qs(3) [OF that] by simp
  then have "store_inv (t\<lparr>st_seqs := qs\<rparr>)"
    using store_inv_seqs [OF t p qs(2)] qs(2,3) store_seq_bound [OF t] by (metis order_trans)
  then show ?thesis using qs p
    by (simp add: invalidate_slots_def invalidate_seq_def [abs_def])
qed

lemma mark_degraded_ok:
  assumes "store_inv t"
  shows "store_inv (mark_degraded seq_id flags t)"
proof -
  have seqs: "store_inv (t\<lparr>st_seqs := qs\<rparr>)"
    if len: "length qs = length (st_seqs t)"
      and ch: "\<And>s. s < length qs \<Longrightarrow> qs ! s = st_seqs t ! s \<or> qs ! s = degrade flags (st_seqs t ! s)" for qs
  proof -
    have e: "ts_entries (qs ! s) = ts_entries (st_seqs t ! s)" if "s < length qs" for s
      using ch [OF that] by (auto simp: degrade_def)
    have "seq_inv st s A (qs ! s) = seq_inv st s A (st_seqs t ! s)" if "s < length qs" for st s A
      using ch [OF that] by auto
    then show ?thesis using assms len e
      by (auto simp: store_inv_def tail_config_def seqs_ok_def pending_ok_def batch_ok_def valid_seq_def
          split: option.splits)
  qed
  have pend: "store_inv (t\<lparr>st_pending := map_option (degrade_pending flags) (st_pending t)\<rparr>)" if "store_inv t" for t
    using that
    by (auto simp: store_inv_def tail_config_def seqs_ok_def pending_ok_def batch_ok_def valid_seq_def
        pending_held_def pending_for_def degrade_pending_def split: option.splits)
  show ?thesis
  proof (cases "seq_id < 0")
    case True
    have "store_inv (t\<lparr>st_seqs := map (degrade flags) (st_seqs t)\<rparr>)" by (rule seqs) auto
    from pend [OF this] show ?thesis using True by (simp add: mark_degraded_def)
  next
    case False
    have one: "store_inv (t\<lparr>st_seqs := (st_seqs t)[nat seq_id := degrade flags (st_seqs t ! nat seq_id)]\<rparr>)"
    proof (rule seqs)
      fix s assume "s < length ((st_seqs t)[nat seq_id := degrade flags (st_seqs t ! nat seq_id)])"
      then show "(st_seqs t)[nat seq_id := degrade flags (st_seqs t ! nat seq_id)] ! s = st_seqs t ! s \<or>
          (st_seqs t)[nat seq_id := degrade flags (st_seqs t ! nat seq_id)] ! s = degrade flags (st_seqs t ! s)"
        by (cases "s = nat seq_id") simp_all
    qed simp
    then show ?thesis using False assms pend [OF assms] by (auto simp: mark_degraded_def split: option.splits)
  qed
qed

lemma tail_restore_ok:
  assumes t: "store_inv t" and r: "tail_restore seq_id i p n loc t = Inr (slot, t')"
  shows "store_inv t' \<and> slot = seq_id * int (st_arena_stride t) + int loc"
proof -
  define s where "s = nat seq_id"
  let ?q = "st_seqs t ! s" and ?st = "st_arena_stride t"
  have g: "valid_seq t seq_id" "loc < ?st" "st_pending t = None" "st_batch t = None"
    "length (ts_entries ?q) < st_history_limit t" "\<not> ts_used ?q ! loc" "id_key i \<notin> ts_index ?q"
    using r by (auto simp: tail_restore_def Let_def s_def split: if_splits)
  let ?a = "\<lparr>ee_identity = i, ee_position = p, ee_ordinal = n, ee_slot = slot_at ?st s loc\<rparr>"
  let ?q' = "?q\<lparr>ts_entries := insert_entry ?a (ts_entries ?q), ts_index := insert (id_key i) (ts_index ?q),
      ts_used := (ts_used ?q)[loc := True]\<rparr>"
  have t': "t' = t\<lparr>st_seqs := (st_seqs t)[s := ?q']\<rparr>" "slot = slot_at ?st s loc"
    using r g by (auto simp: tail_restore_def Let_def s_def split: if_splits)
  have s: "s < length (st_seqs t)" "int s = seq_id" using g(1) by (auto simp: valid_seq_def s_def)
  have q: "arena_fits ?st s" "seq_inv ?st s [] ?q"
    using store_inv_ready [OF t g(3) s(1)] by (simp_all add: seq_ready_def)
  let ?x = "int (s * ?st + loc)"
  have x: "slot_at ?st s loc = ?x" by (rule slot_at_eq [OF q(1) g(2)])
  have a: "arena_ok ?st s (ts_used ?q) (set (ts_slots ?q))" "distinct (ts_slots ?q)"
    using q(2) by (simp_all add: seq_inv_def seq_core_def)
  have nx: "?x \<notin> set (ts_slots ?q)" using a(1) g(2,6) by (auto simp: arena_ok_def)
  have "arena_ok ?st s ((ts_used ?q)[loc := True]) (insert ?x (set (ts_slots ?q)))"
    using a(1) g(2) by (auto simp: arena_ok_def nth_list_update)
  then have "seq_inv ?st s [?x] (?q\<lparr>ts_used := (ts_used ?q)[loc := True]\<rparr>)"
    using q(2) nx a(2) by (simp add: seq_inv_def seq_core_def)
  then have "seq_inv ?st s [] (?q\<lparr>ts_used := (ts_used ?q)[loc := True]\<rparr>\<lparr>
      ts_entries := insert_entry ?a (ts_entries ?q), ts_index := insert (id_key i) (ts_index ?q)\<rparr>)"
    using insert_held_ok [of ?st s ?x "[]" "?q\<lparr>ts_used := (ts_used ?q)[loc := True]\<rparr>" i ?a p n] g(7) x by simp
  then have q': "seq_inv ?st s [] ?q'" by (cases ?q) simp
  have "length (insert_entry ?a (ts_entries ?q)) = Suc (length (ts_entries ?q))"
    using arg_cong [OF mset_insert_entry [of ?a "ts_entries ?q"], of size] by simp
  then have "length (ts_entries ?q') \<le> tail_limit t"
    using g(5) tail_limit_config [of t] t by (simp add: store_inv_def)
  then have "store_inv t'" unfolding t'(1) by (intro store_inv_seq [OF t g(3) s(1) q'])
  then show ?thesis using t'(2) x s(2) by auto
qed

lemma restore_write_cursor_ok:
  assumes "store_inv t" and "restore_write_cursor seq_id c t = Inr t'"
  shows "store_inv t'"
proof -
  have g: "valid_seq t seq_id" "c < st_arena_stride t" "st_pending t = None"
    "t' = t\<lparr>st_seqs := (st_seqs t)[nat seq_id := (st_seqs t ! nat seq_id)\<lparr>ts_cursor := c\<rparr>]\<rparr>"
    using assms(2) by (auto simp: restore_write_cursor_def split: if_splits)
  have s: "nat seq_id < length (st_seqs t)" using g(1) by (simp add: valid_seq_def)
  have "seq_inv (st_arena_stride t) (nat seq_id) [] ((st_seqs t ! nat seq_id)\<lparr>ts_cursor := c\<rparr>)"
    using store_inv_ready [OF assms(1) g(3) s] g(2) by (simp add: seq_ready_def seq_inv_def seq_core_def)
  then show ?thesis unfolding g(4) by (rule store_inv_shrink [OF assms(1) g(3) s]) simp
qed

lemma store_inv_flags:
  assumes "store_inv t" and "st_pending t = None" and "length qs = length (st_seqs t)"
    and "\<And>s. s < length qs \<Longrightarrow> \<exists>d r. qs ! s = (st_seqs t ! s)\<lparr>ts_degradation := d, ts_recovery := r\<rparr>"
  shows "store_inv (t\<lparr>st_seqs := qs\<rparr>)"
proof (rule store_inv_seqs [OF assms(1-3)])
  fix s assume s: "s < length qs"
  then obtain d r where e: "qs ! s = (st_seqs t ! s)\<lparr>ts_degradation := d, ts_recovery := r\<rparr>"
    using assms(4) by blast
  show "seq_inv (st_arena_stride t) s [] (qs ! s)"
    using store_inv_ready [OF assms(1,2)] s assms(3) by (simp add: e seq_ready_def)
  show "length (ts_entries (qs ! s)) \<le> tail_limit t" if "st_compact_storage t"
    using store_seq_bound [OF assms(1)] s assms(3) that by (simp add: e)
qed

lemma restore_provenance_ok:
  assumes t: "store_inv t" "st_pending t = None" and r: "restore_provenance pv dest t = Inr t'"
  shows "store_inv t'"
proof -
  define R where "R qs \<longleftrightarrow> length qs = length (st_seqs t) \<and>
    (\<forall>s < length qs. \<exists>d r. qs ! s = (st_seqs t ! s)\<lparr>ts_degradation := d, ts_recovery := r\<rparr>)" for qs
  have set1: "R (set_provenance s x qs)" if R: "R qs" for s x qs
    unfolding R_def
  proof (intro conjI allI impI)
    show "length (set_provenance s x qs) = length (st_seqs t)"
      using R by (simp add: R_def set_provenance_def)
    fix s' assume "s' < length (set_provenance s x qs)"
    then obtain d r where "s' < length qs" "qs ! s' = (st_seqs t ! s')\<lparr>ts_degradation := d, ts_recovery := r\<rparr>"
      using R by (auto simp: R_def set_provenance_def)
    then show "\<exists>d r. set_provenance s x qs ! s' = (st_seqs t ! s')\<lparr>ts_degradation := d, ts_recovery := r\<rparr>"
      by (cases "s = s'") (auto simp: set_provenance_def)
  qed
  have fold: "R (fold (\<lambda>x. set_provenance (nat (pv_seq_id x)) x) xs qs)" if "R qs" for xs qs
    using that by (induction xs arbitrary: qs) (simp_all add: set1)
  have "\<exists>d r. q = q\<lparr>ts_degradation := d, ts_recovery := r\<rparr>" for q :: tail_seq
    by (intro exI [of _ "ts_degradation q"] exI [of _ "ts_recovery q"]) simp
  then have id: "R (st_seqs t)" unfolding R_def by blast
  have zero: "R (map (\<lambda>q. q\<lparr>ts_degradation := 0, ts_recovery := 0\<rparr>) (st_seqs t))"
    unfolding R_def by auto
  obtain qs where "t' = t\<lparr>st_seqs := qs\<rparr>" "R qs"
    using r set1 [OF id] fold [OF zero] by (auto simp: restore_provenance_def split: if_splits)
  then show ?thesis using store_inv_flags [OF t] unfolding R_def by blast
qed

section \<open>Sequence copies\<close>

lemma seq_inv_held_snoc: "seq_inv stride s (x # A) q \<Longrightarrow> seq_inv stride s (A @ [x]) q"
  by (auto simp: seq_inv_def seq_core_def)

lemma acquire_held_ok:
  assumes fits: "arena_fits stride s" and q: "seq_inv stride s A q"
    and room: "length (ts_entries q) + length A < stride"
  shows "\<exists>x u c. acquire stride s q = Inr (x, q\<lparr>ts_used := u, ts_cursor := c\<rparr>) \<and>
    seq_inv stride s (x # A) (q\<lparr>ts_used := u, ts_cursor := c\<rparr>)"
proof -
  let ?S = "set (ts_slots q @ A)"
  have c: "distinct (ts_slots q @ A)" "arena_ok stride s (ts_used q) ?S" "stride = 0 \<or> ts_cursor q < stride"
    using q by (simp_all add: seq_inv_def seq_core_def)
  have "card ?S < stride" using distinct_card [OF c(1)] room by simp
  then obtain x u c' where x: "acquire stride s q = Inr (x, q\<lparr>ts_used := u, ts_cursor := c'\<rparr>)"
      "x \<notin> ?S" "arena_ok stride s u (insert x ?S)" "c' < stride"
    using acquire_ok [OF fits c(2)] c(3) room by (metis less_zeroE)
  moreover from this have "seq_inv stride s (x # A) (q\<lparr>ts_used := u, ts_cursor := c'\<rparr>)"
    using q by (simp add: seq_inv_def seq_core_def insert_commute)
  ultimately show ?thesis by blast
qed

definition is_copied :: "cp_candidate \<Rightarrow> bool" where
  "is_copied c = snd (snd c)"

abbreviation unslotted :: "exact_entry \<Rightarrow> exact_entry" where
  "unslotted e \<equiv> e\<lparr>ee_slot := 0\<rparr>"

definition kept_slots :: "cp_candidate list \<Rightarrow> int list" where
  "kept_slots cs = map (ee_slot \<circ> fst) (filter (\<lambda>c. \<not> is_copied c) cs)"

text \<open>What the slot-assignment loop has established after the candidates \<open>pre\<close>, starting from the
  destination sequence \<open>qd\<close> and the reusable slots \<open>R\<close>.\<close>

definition cp_ok :: "nat \<Rightarrow> nat \<Rightarrow> tail_seq \<Rightarrow> int list \<Rightarrow> cp_candidate list \<Rightarrow> cp_state \<Rightarrow> bool" where
  "cp_ok stride d qd R pre c \<longleftrightarrow>
     seq_inv stride d (cs_acquired c) (cs_seq c) \<and> ts_entries (cs_seq c) = ts_entries qd \<and>
     map unslotted (cs_destination c) = map (unslotted \<circ> fst) pre \<and>
     distinct (map ee_slot (cs_destination c)) \<and>
     set (map ee_slot (cs_destination c)) \<subseteq> set (kept_slots pre) \<union> (set R - set (cs_reusable c)) \<union> set (cs_acquired c) \<and>
     set (cs_acquired c) \<subseteq> set (map ee_slot (cs_destination c)) \<and>
     set (cs_reusable c) \<subseteq> set R \<and> distinct (cs_reusable c) \<and>
     length (filter is_copied pre) + length (cs_reusable c) = length R + length (cs_acquired c) \<and>
     (cs_reusable c \<noteq> [] \<longrightarrow> cs_acquired c = []) \<and>
     cs_copies c = map (\<lambda>(x, e). (fst (snd x), ee_slot e)) (filter (is_copied \<circ> fst) (zip pre (cs_destination c))) \<and>
     (\<forall>(x, e) \<in> set (zip pre (cs_destination c)). \<not> is_copied x \<longrightarrow> e = fst x)"

lemma cp_ok_length: "cp_ok stride d qd R pre c \<Longrightarrow> length (cs_destination c) = length pre"
  unfolding cp_ok_def by (metis length_map)

lemma cp_step_keep:
  assumes c: "cp_ok stride d qd R pre c" and x: "\<not> is_copied x"
    and new: "ee_slot (fst x) \<in> set (map ee_slot (ts_entries qd))" "ee_slot (fst x) \<notin> set (kept_slots pre)"
      "ee_slot (fst x) \<notin> set R"
  shows "\<exists>c'. cp_step stride d x c = Inr c' \<and> cp_ok stride d qd R (pre @ [x]) c'"
proof -
  obtain e src where e: "x = (e, src, False)" using x by (cases x) (auto simp: is_copied_def)
  let ?c = "c\<lparr>cs_destination := cs_destination c @ [e]\<rparr>"
  have "ts_entries (cs_seq c) = ts_entries qd" "seq_inv stride d (cs_acquired c) (cs_seq c)"
    using c by (simp_all add: cp_ok_def)
  then have "set (ts_slots qd) \<inter> set (cs_acquired c) = {}"
    by (simp add: seq_inv_def seq_core_def)
  then have "ee_slot e \<notin> set (cs_acquired c)" using new(1) e by auto
  then have "ee_slot e \<notin> set (map ee_slot (cs_destination c))" using c new e by (auto simp: cp_ok_def)
  then have "cp_ok stride d qd R (pre @ [x]) ?c"
    using c cp_ok_length [OF c] by (auto simp: cp_ok_def e is_copied_def kept_slots_def)
  then show ?thesis by (simp add: cp_step_def e)
qed

lemma cp_step_copy:
  assumes fits: "arena_fits stride d" and c: "cp_ok stride d qd R pre c" and x: "is_copied x"
    and sub: "set R \<subseteq> set (ts_slots qd)" "set (kept_slots pre) \<subseteq> set (ts_slots qd)"
      "set (kept_slots pre) \<inter> set R = {}"
    and room: "length (ts_entries qd) + length (filter is_copied pre) < stride + length R"
  shows "\<exists>c'. cp_step stride d x c = Inr c' \<and> cp_ok stride d qd R (pre @ [x]) c'"
proof -
  obtain e src where e: "x = (e, src, True)" using x by (cases x) (auto simp: is_copied_def)
  note len = cp_ok_length [OF c]
  show ?thesis
  proof (cases "cs_reusable c = []")
    case False
    obtain zs y where r: "cs_reusable c = zs @ [y]" using False by (metis append_butlast_last_id)
    let ?c = "c\<lparr>cs_reusable := zs, cs_copies := cs_copies c @ [(src, y)],
        cs_destination := cs_destination c @ [e\<lparr>ee_slot := y\<rparr>]\<rparr>"
    note C = c [unfolded cp_ok_def r]
    have A: "cs_acquired c = []" using C by simp
    have y: "y \<in> set R" "y \<notin> set zs" "distinct zs" "set zs \<subseteq> set R" using C by auto
    have sl: "set (map ee_slot (cs_destination c)) \<subseteq> set (kept_slots pre) \<union> (set R - insert y (set zs))"
      using C A by simp
    then have ny: "y \<notin> set (map ee_slot (cs_destination c))" using y(1) sub(3) by blast
    have "insert y (set (map ee_slot (cs_destination c))) \<subseteq> set (kept_slots pre) \<union> (set R - set zs)"
      using sl y(1,2) by blast
    then have "cp_ok stride d qd R (pre @ [x]) ?c"
      using C A len y ny unfolding cp_ok_def by (simp add: e is_copied_def kept_slots_def)
    moreover have "cp_step stride d x c = Inr ?c" by (simp add: cp_step_def e r)
    ultimately show ?thesis by blast
  next
    case True
    have q: "seq_inv stride d (cs_acquired c) (cs_seq c)" "ts_entries (cs_seq c) = ts_entries qd"
      "length (filter is_copied pre) = length R + length (cs_acquired c)"
      using c True by (simp_all add: cp_ok_def)
    then obtain y u cur where y: "acquire stride d (cs_seq c) = Inr (y, (cs_seq c)\<lparr>ts_used := u, ts_cursor := cur\<rparr>)"
        "seq_inv stride d (y # cs_acquired c) ((cs_seq c)\<lparr>ts_used := u, ts_cursor := cur\<rparr>)"
      using acquire_held_ok [OF fits q(1)] room by auto
    let ?c = "c\<lparr>cs_seq := (cs_seq c)\<lparr>ts_used := u, ts_cursor := cur\<rparr>, cs_acquired := cs_acquired c @ [y],
        cs_copies := cs_copies c @ [(src, y)], cs_destination := cs_destination c @ [e\<lparr>ee_slot := y\<rparr>]\<rparr>"
    have ny: "y \<notin> set (ts_slots qd)" "y \<notin> set (cs_acquired c)"
      using y(2) q(2) by (auto simp: seq_inv_def seq_core_def)
    then have nd: "y \<notin> set (map ee_slot (cs_destination c))" using c sub(1,2) by (auto simp: cp_ok_def)
    note C = c [unfolded cp_ok_def True]
    have "insert y (set (map ee_slot (cs_destination c))) \<subseteq>
        set (kept_slots pre) \<union> set R \<union> set (cs_acquired c @ [y])"
      using C by auto
    moreover have "set (cs_acquired c @ [y]) \<subseteq> insert y (set (map ee_slot (cs_destination c)))" using C by auto
    ultimately have "cp_ok stride d qd R (pre @ [x]) ?c"
      using C q(2,3) True nd len seq_inv_held_snoc [OF y(2)] unfolding cp_ok_def
      by (simp add: e is_copied_def kept_slots_def)
    moreover have "cp_step stride d x c = Inr ?c" using True y(1) by (simp add: cp_step_def e)
    ultimately show ?thesis by blast
  qed
qed

text \<open>The slot accounting of the whole loop: a copy takes a slot the destination gives up, and a free
  one only when all of those are taken, so the arena never runs out.\<close>

lemma cp_fold_ok:
  assumes fits: "arena_fits stride d"
    and R: "set R \<subseteq> set (ts_slots qd)" "set (kept_slots cs) \<subseteq> set (ts_slots qd)" "set (kept_slots cs) \<inter> set R = {}"
    and dist: "distinct (kept_slots cs)"
    and room: "length (ts_entries qd) \<le> length R + length (kept_slots cs)" and le: "length cs \<le> stride"
    and c0: "cp_ok stride d qd R [] c0"
  shows "\<exists>c. fold_r (cp_step stride d) cs c0 = Inr c \<and> cp_ok stride d qd R cs c"
proof -
  have "\<exists>c. fold_r (cp_step stride d) pre c0 = Inr c \<and> cp_ok stride d qd R pre c"
    if "cs = pre @ rest" for pre rest
    using that
  proof (induction pre arbitrary: rest rule: rev_induct)
    case Nil
    then show ?case using c0 by simp
  next
    case (snoc x pre)
    then obtain c where c: "fold_r (cp_step stride d) pre c0 = Inr c" "cp_ok stride d qd R pre c"
      by (metis append.assoc append_Cons append_Nil)
    have k: "kept_slots cs = kept_slots pre @ kept_slots [x] @ kept_slots rest"
      using snoc.prems by (simp add: kept_slots_def)
    have len: "length (filter is_copied cs) + length (kept_slots cs) = length cs"
      unfolding kept_slots_def length_map by (rule sum_length_filter_compl)
    have "\<exists>c'. cp_step stride d x c = Inr c' \<and> cp_ok stride d qd R (pre @ [x]) c'"
    proof (cases "is_copied x")
      case True
      have "length (filter is_copied pre) < length (filter is_copied cs)"
        using snoc.prems True by simp
      then have "length (ts_entries qd) + length (filter is_copied pre) < stride + length R"
        using room le len by linarith
      then show ?thesis using cp_step_copy [OF fits c(2) True R(1)] R(2,3) k by auto
    next
      case False
      then have "kept_slots [x] = [ee_slot (fst x)]" by (simp add: kept_slots_def)
      then show ?thesis using cp_step_keep [OF c(2) False] R(2,3) dist k by auto
    qed
    then show ?case using c(1) by (simp add: fold_r_append)
  qed
  from this [of cs "[]"] show ?thesis by simp
qed

lemma kept_slots_append: "kept_slots (xs @ ys) = kept_slots xs @ kept_slots ys"
  by (simp add: kept_slots_def)

lemma length_filter_in_set:
  assumes "distinct xs"
  shows "length (filter (\<lambda>x. x \<in> set ys) xs) \<le> length ys"
proof -
  have "length (filter (\<lambda>x. x \<in> set ys) xs) = card (set (filter (\<lambda>x. x \<in> set ys) xs))"
    using assms by (metis distinct_card distinct_filter)
  also have "\<dots> \<le> card (set ys)" by (rule card_mono) auto
  also have "\<dots> \<le> length ys" by (rule card_length)
  finally show ?thesis .
qed

lemma cp_candidates_props:
  fixes t src d ss ds p0 p1
  defines "cs \<equiv> cp_candidates t src d ss ds p0 p1"
  shows "sorted (map (entry_key \<circ> fst) cs)" and "length cs \<le> tail_limit t"
    and "set (kept_slots cs) \<subseteq> set (ts_slots (st_seqs t ! d))"
    and "distinct (ts_slots (st_seqs t ! d)) \<Longrightarrow> distinct (kept_slots cs)"
    and "cp_survivors cs = set (kept_slots cs)"
    and "\<And>x. x \<in> set cs \<Longrightarrow> is_copied x \<Longrightarrow> fst (snd x) \<in> set (ts_slots (st_seqs t ! src))"
proof -
  let ?kept = "filter (\<lambda>e. \<not> in_range p0 p1 e) (ts_entries (st_seqs t ! d))"
  let ?src = "filter (\<lambda>e. id_stream (ee_identity e) = ss \<and> in_range p0 p1 e) (ts_entries (st_seqs t ! src))"
  let ?all = "map (\<lambda>e. (e, ee_slot e, False)) ?kept @
            map (\<lambda>e. (e\<lparr>ee_identity := (ee_identity e)\<lparr>id_stream := ds\<rparr>,
                        ee_slot := LLAMA_KV_TAIL_BODY_SLOT\<rparr>, ee_slot e, True)) ?src"
  let ?sorted = "sort_key (entry_key \<circ> fst) ?all"
  have cs: "cs = drop (length ?sorted - tail_limit t) ?sorted"
    by (simp add: cs_def cp_candidates_def Let_def)
  have sub: "set cs \<subseteq> set ?all" unfolding cs
    using set_drop_subset [of "length ?sorted - tail_limit t" ?sorted] by (simp only: set_sort)
  have "sorted (map (entry_key \<circ> fst) ?sorted)" by (rule sorted_sort_key)
  then show "sorted (map (entry_key \<circ> fst) cs)"
    unfolding cs drop_map [symmetric] by (rule sorted_wrt_drop)
  show "length cs \<le> tail_limit t" unfolding cs by simp
  show "set (kept_slots cs) \<subseteq> set (ts_slots (st_seqs t ! d))"
    using sub by (force simp: kept_slots_def is_copied_def)
  show "cp_survivors cs = set (kept_slots cs)"
    by (auto simp: cp_survivors_def kept_slots_def is_copied_def case_prod_beta)
  show "fst (snd x) \<in> set (ts_slots (st_seqs t ! src))" if "x \<in> set cs" "is_copied x" for x
    using sub that by (auto simp: is_copied_def)
  assume "distinct (ts_slots (st_seqs t ! d))"
  then have k: "distinct (map ee_slot ?kept)" by (rule distinct_map_filter)
  have all: "kept_slots ?all = map ee_slot ?kept" by (simp add: kept_slots_def is_copied_def comp_def)
  have "mset (kept_slots ?sorted) = mset (kept_slots ?all)"
    unfolding kept_slots_def mset_map mset_filter by simp
  from mset_eq_imp_distinct_iff [OF this] have "distinct (kept_slots ?sorted)" unfolding all using k by blast
  moreover have "?sorted = take (length ?sorted - tail_limit t) ?sorted @ cs"
    unfolding cs by (rule append_take_drop_id [symmetric])
  ultimately have "distinct (kept_slots (take (length ?sorted - tail_limit t) ?sorted) @ kept_slots cs)"
    unfolding kept_slots_append [symmetric] by simp
  then show "distinct (kept_slots cs)" by simp
qed

definition cp_keys_distinct :: "int \<Rightarrow> int \<Rightarrow> nat \<Rightarrow> nat \<Rightarrow> int \<Rightarrow> int \<Rightarrow> llama_kv_tail_store \<Rightarrow> bool" where
  "cp_keys_distinct src dst ss ds p0 p1 t =
     distinct (map (ee_key \<circ> fst) (cp_candidates t (nat src) (nat dst) ss ds p0 p1))"

lemma unslotted_map:
  assumes "map unslotted xs = map (unslotted \<circ> fst) cs" and "\<And>e v. f (e\<lparr>ee_slot := v\<rparr>) = f e"
  shows "map f xs = map (f \<circ> fst) cs"
proof -
  have "map f (map unslotted xs) = map f (map (unslotted \<circ> fst) cs)" using assms(1) by simp
  then show ?thesis using assms(2) by (simp add: comp_def)
qed

lemma prepare_seq_cp_ok:
  assumes t: "store_inv t" and p: "st_pending t = None" and b: "st_batch t = None"
    and keys: "valid_seq t src \<Longrightarrow> valid_seq t dst \<Longrightarrow> src \<noteq> dst \<Longrightarrow> cp_keys_distinct src dst ss ds p0 p1 t"
    and v: "valid_seq t src" "valid_seq t dst" "src \<noteq> dst"
  shows "\<exists>copies t' pd. prepare_seq_cp src dst ss ds p0 p1 t = Inr (copies, t') \<and> store_inv t' \<and>
    st_pending t' = Some pd \<and> pc_dst pd = dst \<and> st_batch t' = None \<and> st_arena_stride t' = st_arena_stride t \<and>
    length (st_seqs t') = length (st_seqs t) \<and>
    (\<forall>s < length (st_seqs t). ts_entries (st_seqs t' ! s) = ts_entries (st_seqs t ! s)) \<and>
    (\<exists>c R. cp_ok (st_arena_stride t) (nat dst) (st_seqs t ! nat dst) R
        (cp_candidates t (nat src) (nat dst) ss ds p0 p1) c \<and> set R \<subseteq> set (ts_slots (st_seqs t ! nat dst)) \<and>
      set R \<inter> set (kept_slots (cp_candidates t (nat src) (nat dst) ss ds p0 p1)) = {} \<and>
      copies = cs_copies c \<and> pc_destination pd = cs_destination c)"
proof -
  define d where "d = nat dst"
  define cs where "cs = cp_candidates t (nat src) d ss ds p0 p1"
  let ?st = "st_arena_stride t" and ?qd = "st_seqs t ! d" and ?qs = "st_seqs t ! nat src"
  have d: "d < length (st_seqs t)" "int d = dst" using v(2) by (auto simp: d_def valid_seq_def)
  have ready: "arena_fits ?st d" "seq_inv ?st d [] ?qd"
    using store_inv_ready [OF t p d(1)] by (simp_all add: seq_ready_def)
  have ds: "distinct (ts_slots ?qd)" using ready(2) by (simp add: seq_inv_def seq_core_def)
  note cp = cp_candidates_props [where t = t and src = "nat src" and d = d and ss = ss and ds = ds and ?p0.0 = p0 and ?p1.0 = p1, folded cs_def]
  define R where "R = filter (\<lambda>x. x \<notin> cp_survivors cs) (ts_slots ?qd)"
  have R: "set R \<subseteq> set (ts_slots ?qd)" "set (kept_slots cs) \<inter> set R = {}" "distinct R"
    using cp(5) ds by (auto simp: R_def)
  have "length (filter (\<lambda>x. x \<in> cp_survivors cs) (ts_slots ?qd)) \<le> length (kept_slots cs)"
    unfolding cp(5) by (rule length_filter_in_set [OF ds])
  then have room: "length (ts_entries ?qd) \<le> length R + length (kept_slots cs)"
    using sum_length_filter_compl [of "\<lambda>x. x \<in> cp_survivors cs" "ts_slots ?qd"] by (simp add: R_def)
  have le: "length cs \<le> ?st" using cp(2) tail_limit_config [of t] t by (simp add: store_inv_def)
  let ?c0 = "\<lparr>cs_seq = ?qd, cs_reusable = R, cs_destination = [], cs_copies = [], cs_acquired = []\<rparr>"
  have "cp_ok ?st d ?qd R [] ?c0" using ready(2) R(3) by (simp add: cp_ok_def)
  then obtain c where c: "fold_r (cp_step ?st d) cs ?c0 = Inr c" "cp_ok ?st d ?qd R cs c"
    using cp_fold_ok [OF ready(1) R(1) cp(3) R(2) cp(4) [OF ds] room le] by blast
  define flags where "flags = (ts_degradation ?qd OR ts_degradation ?qs)"
  define pd where "pd = \<lparr>pc_src = src, pc_dst = dst, pc_destination = cs_destination c,
      pc_copies = cs_copies c, pc_acquired = cs_acquired c, pc_degradation = flags,
      pc_recovery = (if flags = 0 then min (ts_recovery ?qd) (ts_recovery ?qs) else 0)\<rparr>"
  let ?t' = "t\<lparr>st_seqs := (st_seqs t)[d := cs_seq c], st_pending := Some pd\<rparr>"
  have eq: "prepare_seq_cp src dst ss ds p0 p1 t = Inr (cs_copies c, ?t')"
    using v p c(1) unfolding prepare_seq_cp_def Let_def d_def [symmetric] cs_def [symmetric]
      R_def [symmetric] flags_def [symmetric] by (simp add: pd_def)
  have C: "seq_inv ?st d (cs_acquired c) (cs_seq c)" "ts_entries (cs_seq c) = ts_entries ?qd"
      "map unslotted (cs_destination c) = map (unslotted \<circ> fst) cs" "distinct (map ee_slot (cs_destination c))"
      "set (map ee_slot (cs_destination c)) \<subseteq> set (kept_slots cs) \<union> (set R - set (cs_reusable c)) \<union> set (cs_acquired c)"
      "set (cs_acquired c) \<subseteq> set (map ee_slot (cs_destination c))"
    using c(2) by (simp_all add: cp_ok_def)
  have held: "pending_held ?t' s = (if s = d then cs_acquired c else [])" for s
    using d(2) by (auto simp: pending_held_def pending_for_def pd_def)
  have "seqs_ok ?t'" unfolding seqs_ok_def
  proof (intro allI impI conjI)
    fix s assume s: "s < length (st_seqs ?t')"
    show "seq_inv (st_arena_stride ?t') s (pending_held ?t' s) (st_seqs ?t' ! s)"
      using s C(1) store_inv_ready [OF t p, of s] by (cases "s = d") (simp_all add: held seq_ready_def)
    assume "st_compact_storage ?t'"
    then show "length (ts_entries (st_seqs ?t' ! s)) \<le> tail_limit ?t'"
      using s C(2) store_seq_bound [OF t, of s] by (cases "s = d") simp_all
  qed
  moreover have "pending_ok ?t'"
  proof -
    have k: "map entry_key (cs_destination c) = map (entry_key \<circ> fst) cs"
        "map ee_key (cs_destination c) = map (ee_key \<circ> fst) cs"
      by (rule unslotted_map [OF C(3)]; simp add: entry_key_def)+
    have "length (cs_destination c) = length cs" using C(3) by (metis length_map)
    moreover have "distinct (map (ee_key \<circ> fst) cs)"
      using keys [OF v] by (simp add: cp_keys_distinct_def cs_def d_def)
    moreover have "set (map ee_slot (cs_destination c)) \<subseteq> set (ts_slots ?qd) \<union> set (cs_acquired c)"
      using C(5) cp(3) R(1) by blast
    ultimately show ?thesis
      using C(2,4,6) cp(1,2) d v(2) by (simp add: pending_ok_def pd_def k valid_seq_def d_def [symmetric])
  qed
  ultimately have "store_inv ?t'"
    using t b by (simp add: store_inv_def tail_config_def batch_ok_def)
  moreover have "\<forall>s < length (st_seqs t). ts_entries (st_seqs ?t' ! s) = ts_entries (st_seqs t ! s)"
  proof (intro allI impI)
    fix s assume "s < length (st_seqs t)"
    then show "ts_entries (st_seqs ?t' ! s) = ts_entries (st_seqs t ! s)"
      using C(2) by (cases "s = d") simp_all
  qed
  ultimately show ?thesis
    using eq b c(2) R(1,2) unfolding d_def [symmetric] cs_def [symmetric]
    by (intro exI [of _ "cs_copies c"] exI [of _ ?t'] exI [of _ pd] conjI exI [of _ c] exI [of _ R])
      (auto simp: pd_def)
qed

lemma commit_seq_cp_ok:
  assumes t: "store_inv t" and pd: "st_pending t = Some pd"
  shows "\<exists>t'. commit_seq_cp t = Inr t' \<and> store_inv t' \<and> st_pending t' = None \<and>
    length (st_seqs t') = length (st_seqs t) \<and>
    ts_entries (st_seqs t' ! nat (pc_dst pd)) = pc_destination pd \<and>
    ts_degradation (st_seqs t' ! nat (pc_dst pd)) = pc_degradation pd \<and>
    (\<forall>s < length (st_seqs t). s \<noteq> nat (pc_dst pd) \<longrightarrow> st_seqs t' ! s = st_seqs t ! s)"
proof -
  define d where "d = nat (pc_dst pd)"
  let ?st = "st_arena_stride t" and ?q = "st_seqs t ! d" and ?D = "pc_destination pd" and ?A = "pc_acquired pd"
  have P: "valid_seq t (pc_dst pd)" "sorted (map entry_key ?D)" "distinct (map ee_key ?D)"
      "distinct (map ee_slot ?D)" "length ?D \<le> tail_limit t"
      "ee_slot ` set ?D \<subseteq> set (ts_slots ?q) \<union> set ?A" "set ?A \<subseteq> ee_slot ` set ?D"
    using t pd by (simp_all add: store_inv_def pending_ok_def d_def)
  have d: "d < length (st_seqs t)" "int d = pc_dst pd" using P(1) by (auto simp: valid_seq_def d_def)
  have h: "pending_held t s = (if s = d then ?A else [])" for s
    using pd d(2) by (auto simp: pending_held_def pending_for_def)
  have seqs: "seq_inv ?st s (pending_held t s) (st_seqs t ! s)" if "s < length (st_seqs t)" for s
    using t that by (simp add: store_inv_def seqs_ok_def)
  have q: "seq_inv ?st d ?A ?q" using seqs [OF d(1)] h by simp
  have fits: "arena_fits ?st d" using t d(1) by (simp add: store_inv_def tail_config_fits)
  have a: "arena_ok ?st d (ts_used ?q) (set (ts_slots ?q @ ?A))" "distinct (ts_slots ?q)"
      "?st = 0 \<or> ts_cursor ?q < ?st"
    using q by (simp_all add: seq_inv_def seq_core_def)
  let ?F = "filter (\<lambda>e. ee_slot e \<notin> ee_slot ` set ?D) (ts_entries ?q)"
  obtain u where u: "fold_r (\<lambda>e. release ?st d (ee_slot e)) ?F (ts_used ?q) = Inr u"
      "arena_ok ?st d u (set (ts_slots ?q @ ?A) - ee_slot ` set ?F)"
    using release_all_ok [OF fits a(1), of ee_slot ?F] distinct_map_filter [OF a(2)] by auto
  have "ee_slot ` set ?F = set (ts_slots ?q) - ee_slot ` set ?D" by auto
  then have "set (ts_slots ?q @ ?A) - ee_slot ` set ?F = set (map ee_slot ?D)"
    using P(6,7) unfolding set_append set_map by blast
  then have ar: "arena_ok ?st d u (set (map ee_slot ?D))" using u(2) by simp
  let ?q1 = "?q\<lparr>ts_used := u, ts_entries := ?D\<rparr>"
  have "seq_core ?st d [] ?q1" using P(3,4) ar a(3) by (simp add: seq_core_def)
  from rebuild_index_ok [OF this] P(2) obtain q2 where
    q2: "rebuild_index ?q1 = Inr q2" "seq_inv ?st d [] q2" "ts_entries q2 = ?D" by auto
  let ?q3 = "q2\<lparr>ts_degradation := pc_degradation pd, ts_recovery := pc_recovery pd\<rparr>"
  let ?t' = "t\<lparr>st_pending := None, st_seqs := (st_seqs t)[d := ?q3]\<rparr>"
  have eq: "commit_seq_cp t = Inr ?t'"
    using pd u(1) q2(1) by (simp add: commit_seq_cp_def Let_def flip: d_def)
  have "seqs_ok ?t'" unfolding seqs_ok_def
  proof (intro allI impI conjI)
    fix s assume s: "s < length (st_seqs ?t')"
    have "pending_held ?t' s = []" by simp
    then show "seq_inv (st_arena_stride ?t') s (pending_held ?t' s) (st_seqs ?t' ! s)"
      using s q2(2) seqs [of s] h by (cases "s = d") simp_all
    assume "st_compact_storage ?t'"
    then show "length (ts_entries (st_seqs ?t' ! s)) \<le> tail_limit ?t'"
      using s q2(3) P(5) store_seq_bound [OF t, of s] by (cases "s = d") simp_all
  qed
  then have "store_inv ?t'"
    using t by (auto simp: store_inv_def tail_config_def pending_ok_def batch_ok_def split: option.splits)
  then show ?thesis using eq d(1) q2(3) unfolding d_def [symmetric] by (intro exI [of _ ?t']) simp
qed

section \<open>Operations and reachable stores\<close>

text \<open>A provenance record that is accepted: each sequence once, with flags and a count that a store can have.\<close>

definition provenance_entry_ok :: "llama_kv_tail_store \<Rightarrow> llama_kv_tail_provenance \<Rightarrow> bool" where
  "provenance_entry_ok t saved \<longleftrightarrow> valid_seq t (pv_seq_id saved) \<and> pv_degradation saved AND (UINT32_MAX XOR known_flags) = 0 \<and>
     pv_recovery saved \<le> st_n_tokens t \<and> (pv_degradation saved = 0 \<longrightarrow> pv_recovery saved = 0)"

definition provenance_ok :: "llama_kv_tail_provenance list \<Rightarrow> int \<Rightarrow> llama_kv_tail_store \<Rightarrow> bool" where
  "provenance_ok pv dest t \<longleftrightarrow> list_all (provenance_entry_ok t) pv \<and> distinct (map pv_seq_id pv) \<and>
     (0 \<le> dest \<longrightarrow> valid_seq t dest \<and> length pv = 1)"

lemma check_provenance_all:
  assumes "list_all (provenance_entry_ok t) pv" and "distinct (map pv_seq_id pv)" and "length seen = length (st_seqs t)"
    and "\<forall>x \<in> set pv. \<not> seen ! nat (pv_seq_id x)"
  shows "\<exists>seen'. fold_r (check_provenance t) pv seen = Inr seen'"
  using assms
proof (induction pv arbitrary: seen)
  case (Cons x pv)
  have x: "valid_seq t (pv_seq_id x)" "check_provenance t x seen = Inr (seen[nat (pv_seq_id x) := True])"
    using Cons.prems by (auto simp: provenance_entry_ok_def check_provenance_def)
  have "\<not> seen[nat (pv_seq_id x) := True] ! nat (pv_seq_id y)" if "y \<in> set pv" for y
  proof -
    have "valid_seq t (pv_seq_id y)" using Cons.prems(1) that by (auto simp: list_all_iff provenance_entry_ok_def)
    moreover have "pv_seq_id y \<noteq> pv_seq_id x" using Cons.prems(2) that by (force simp: image_iff)
    ultimately have "nat (pv_seq_id y) \<noteq> nat (pv_seq_id x)" using x(1) by (auto simp: valid_seq_def)
    then show ?thesis using Cons.prems(4) that by simp
  qed
  then show ?case using Cons.IH [of "seen[nat (pv_seq_id x) := True]"] Cons.prems x(2) by simp
qed simp

lemma restore_provenance_completes:
  assumes "store_inv t" and "st_pending t = None" and "provenance_ok pv dest t"
  shows "\<exists>t'. restore_provenance pv dest t = Inr t' \<and> store_inv t'"
proof -
  obtain seen where "fold_r (check_provenance t) pv (replicate (length (st_seqs t)) False) = Inr seen"
    using check_provenance_all [of t pv "replicate (length (st_seqs t)) False"] assms(3)
    by (force simp: provenance_ok_def list_all_iff provenance_entry_ok_def valid_seq_def)
  then have "\<exists>t'. restore_provenance pv dest t = Inr t'" using assms(3) by (auto simp: restore_provenance_def provenance_ok_def)
  then show ?thesis using restore_provenance_ok [OF assms(1,2)] by blast
qed

text \<open>A clone is the store itself.\<close>

lemma clone_same:
  assumes t: "store_inv t" and p: "st_pending t = None" "st_batch t = None" "\<not> st_in_batch t"
  shows "clone_logical_state t = Inr t"
proof -
  have c: "tail_config t" using t by (simp add: store_inv_def)
  define t0 where "t0 = t\<lparr>st_seqs := replicate (length (st_seqs t)) (tail_seq_empty (st_arena_stride t))\<rparr>"
  have n: "st_arena_stride t * length (st_seqs t) + (st_n_slots t - st_arena_stride t * length (st_seqs t)) = st_n_slots t" "st_n_slots t \<le> INT32_MAX"
    using c by (simp_all add: tail_config_def)
  have new: "(if st_compact_storage t
      then tail_store_compact (st_n_tokens t) (st_rollback_tokens t) (length (st_seqs t)) (st_arena_stride t) (st_n_slots t - st_arena_stride t * length (st_seqs t))
      else tail_store_standard (st_n_tokens t) (length (st_seqs t)) (st_arena_stride t) (st_n_slots t - st_arena_stride t * length (st_seqs t))) = Inr t0"
    using c n p by (auto simp: tail_store_compact_def tail_store_standard_def checked_tail_history_limit_def checked_tail_slot_count_def tail_config_def Let_def t0_def)
  have e: "t0\<lparr>st_seqs := st_seqs t, st_pending := None, st_batch := None, st_in_batch := False\<rparr> = t" using p by (simp add: t0_def)
  have f: "st_n_tokens t0 = st_n_tokens t" "st_rollback_tokens t0 = st_rollback_tokens t" "st_history_limit t0 = st_history_limit t"
    "st_arena_stride t0 = st_arena_stride t" "st_n_slots t0 = st_n_slots t" "st_compact_storage t0 = st_compact_storage t" "length (st_seqs t0) = length (st_seqs t)"
    by (simp_all add: t0_def)
  obtain qs where "for_seqs (\<lambda>s. rebuild_index) t = Inr (t\<lparr>st_seqs := qs\<rparr>)" "length qs = length (st_seqs t)" "\<forall>s < length qs. qs ! s = st_seqs t ! s"
    using rebuild_op.for_seqs_completes [of t "st_arena_stride t"] store_inv_ready [OF t p(1)] by blast
  then have r: "for_seqs (\<lambda>s. rebuild_index) t = Inr t" using nth_equalityI [of qs "st_seqs t"] by simp
  show ?thesis unfolding clone_logical_state_def Let_def new bind_r_simps clone_logical_state_from_def e f using p r by simp
qed

datatype tail_op =
    Commit int llama_kv_tail_identity int nat nat
  | Recycle nat nat nat
  | Clear
  | Mark_degraded int nat
  | Invalidate "int list" nat
  | Begin_batch
  | Finish_batch bool bool
  | Prepare_cp int int nat nat int int
  | Commit_cp
  | Cancel_cp
  | Seq_rm int int int
  | Seq_rm_cell int nat nat
  | Seq_keep int
  | Seq_add int int int int
  | Seq_div int int int int
  | Restore int llama_kv_tail_identity int nat nat
  | Restore_provenance "llama_kv_tail_provenance list" int
  | Restore_write_cursor int nat
  | Clone

fun tail_apply :: "tail_op \<Rightarrow> llama_kv_tail_store \<Rightarrow> llama_kv_tail_store res" where
  "tail_apply (Commit s i p n row) t = bind_r (tail_commit s i p n row t) (\<lambda>(_, t). Inr t)"
| "tail_apply (Recycle stream cell gen) t = recycle stream cell gen t"
| "tail_apply Clear t = tail_clear t"
| "tail_apply (Mark_degraded s f) t = Inr (mark_degraded s f t)"
| "tail_apply (Invalidate slots f) t = invalidate_slots slots f t"
| "tail_apply Begin_batch t = begin_batch t"
| "tail_apply (Finish_batch ok m) t = finish_batch ok m t"
| "tail_apply (Prepare_cp src dst ss ds p0 p1) t = bind_r (prepare_seq_cp src dst ss ds p0 p1 t) (\<lambda>(_, t). Inr t)"
| "tail_apply Commit_cp t = commit_seq_cp t"
| "tail_apply Cancel_cp t = cancel_seq_cp t"
| "tail_apply (Seq_rm s p0 p1) t = tail_seq_rm s p0 p1 t"
| "tail_apply (Seq_rm_cell s stream cell) t = tail_seq_rm_cell s stream cell t"
| "tail_apply (Seq_keep s) t = tail_seq_keep s t"
| "tail_apply (Seq_add s p0 p1 d) t = tail_seq_add s p0 p1 d t"
| "tail_apply (Seq_div s p0 p1 k) t = tail_seq_div s p0 p1 k t"
| "tail_apply (Restore s i p n loc) t = bind_r (tail_restore s i p n loc t) (\<lambda>(_, t). Inr t)"
| "tail_apply (Restore_provenance pv dest) t = restore_provenance pv dest t"
| "tail_apply (Restore_write_cursor s c) t = restore_write_cursor s c t"
| "tail_apply Clone t = clone_logical_state t"

text \<open>What the cache guarantees when it calls an operation. It materialises a pending copy before any
  other operation that changes entries, does not copy during a batch, and never commits more rows to
  one sequence of a standard store than its arena holds. A copied range never names a cell twice. A state is restored
  outside of batches and copies, into free slots of a history that is not full, each cell once.\<close>

fun tail_pre :: "tail_op \<Rightarrow> llama_kv_tail_store \<Rightarrow> bool" where
  "tail_pre (Commit s i p n row) t = commit_pre s row t"
| "tail_pre Clear t = True"
| "tail_pre (Mark_degraded s f) t = True"
| "tail_pre Begin_batch t = (st_pending t = None \<and> st_batch t = None)"
| "tail_pre (Finish_batch ok m) t = True"
| "tail_pre (Prepare_cp src dst ss ds p0 p1) t =
     (st_pending t = None \<and> st_batch t = None \<and> cp_keys_distinct src dst ss ds p0 p1 t)"
| "tail_pre Commit_cp t = True"
| "tail_pre Cancel_cp t = True"
| "tail_pre (Restore s i p n loc) t =
     (valid_seq t s \<and> loc < st_arena_stride t \<and> \<not> st_in_batch t \<and> st_pending t = None \<and> st_batch t = None \<and>
      length (ts_entries (st_seqs t ! nat s)) < st_history_limit t \<and> \<not> ts_used (st_seqs t ! nat s) ! loc \<and> id_key i \<notin> ts_index (st_seqs t ! nat s))"
| "tail_pre (Restore_provenance pv dest) t = (st_pending t = None \<and> provenance_ok pv dest t)"
| "tail_pre (Restore_write_cursor s c) t =
     (valid_seq t s \<and> c < st_arena_stride t \<and> \<not> st_in_batch t \<and> st_pending t = None \<and> st_batch t = None)"
| "tail_pre Clone t = (\<not> st_in_batch t \<and> st_pending t = None \<and> st_batch t = None)"
| "tail_pre _ t = (st_pending t = None)"

inductive tail_reachable :: "llama_kv_tail_store \<Rightarrow> bool" where
  standard: "tail_store_standard n_tokens n_seq stride sink = Inr t \<Longrightarrow> tail_reachable t"
| compact: "tail_store_compact n_tokens rollback n_seq stride sink = Inr t \<Longrightarrow> tail_reachable t"
| step: "tail_reachable t \<Longrightarrow> tail_pre op t \<Longrightarrow> tail_apply op t = Inr t' \<Longrightarrow> tail_reachable t'"

lemma tail_apply_ok:
  assumes t: "store_inv t" and pre: "tail_pre op t"
  shows "\<exists>t'. tail_apply op t = Inr t' \<and> store_inv t'"
proof (cases op)
  case (Commit s i p n row)
  then show ?thesis using tail_commit_ok [OF t, of s row i p n] pre by auto
next
  case (Prepare_cp src dst ss ds p0 p1)
  show ?thesis
  proof (cases "valid_seq t src \<and> valid_seq t dst \<and> src \<noteq> dst")
    case True
    then show ?thesis using prepare_seq_cp_ok [OF t, of src dst ss ds p0 p1] pre Prepare_cp by auto
  qed (use t Prepare_cp in \<open>auto simp: prepare_seq_cp_def\<close>)
next
  case Commit_cp
  show ?thesis
  proof (cases "st_pending t")
    case None
    then show ?thesis using t Commit_cp by (simp add: commit_seq_cp_def)
  next
    case (Some pd)
    then show ?thesis using commit_seq_cp_ok [OF t Some] Commit_cp by auto
  qed
next
  case Clear
  then show ?thesis using tail_clear_ok [OF t] by auto
next
  case Cancel_cp
  then show ?thesis using cancel_seq_cp_ok [OF t] by auto
next
  case Begin_batch
  then show ?thesis using begin_batch_ok [OF t] pre by auto
next
  case (Recycle a b c)
  then show ?thesis using recycle_ok [OF t, of a b c] pre by auto
next
  case (Mark_degraded a b)
  then show ?thesis using mark_degraded_ok [OF t, of a b] pre by auto
next
  case (Invalidate a b)
  then show ?thesis using invalidate_slots_ok [OF t, of a b] pre by auto
next
  case (Finish_batch a b)
  then show ?thesis using finish_batch_ok [OF t, of a b] pre by auto
next
  case (Seq_rm a b c)
  then show ?thesis using tail_seq_rm_ok [OF t, of a b c] pre by auto
next
  case (Seq_rm_cell a b c)
  then show ?thesis using tail_seq_rm_cell_ok [OF t, of a b c] pre by auto
next
  case (Seq_keep a)
  then show ?thesis using tail_seq_keep_ok [OF t, of a] pre by auto
next
  case (Seq_add a b c d)
  then show ?thesis using tail_seq_add_ok [OF t, of a b c d] pre by auto
next
  case (Seq_div a b c d)
  then show ?thesis using tail_seq_div_ok [OF t, of a b c d] pre by auto
next
  case (Restore s i p n loc)
  then obtain x t' where r: "tail_restore s i p n loc t = Inr (x, t')" using pre by (simp add: tail_restore_def Let_def)
  then show ?thesis using tail_restore_ok [OF t r] Restore by simp
next
  case (Restore_provenance pv dest)
  then show ?thesis using restore_provenance_completes [OF t, of pv dest] pre by simp
next
  case (Restore_write_cursor s c)
  then obtain t' where r: "restore_write_cursor s c t = Inr t'" using pre by (simp add: restore_write_cursor_def)
  then show ?thesis using restore_write_cursor_ok [OF t r] Restore_write_cursor by simp
next
  case Clone
  then show ?thesis using clone_same [OF t] pre t by simp
qed

lemma tail_reachable_inv: "tail_reachable t \<Longrightarrow> store_inv t"
proof (induction rule: tail_reachable.induct)
  case (step t op t')
  then show ?case using tail_apply_ok [of t op] by auto
qed (auto intro: tail_store_standard_inv tail_store_compact_inv)

end
