(* ===== verification/TailProps.thy ===== *)
theory TailProps
  imports TailInv
begin

text \<open>
  The contracts of the tail store that its clients rely on: operations never fail and keep the
  invariant, a batch that fits the arena never exhausts it, a failed batch is undone, a sequence copy
  moves the payloads it says it moves, the source plan names the newest exact rows, and a snapshot
  can be restored.
\<close>

unbundle bit_operations_syntax

section \<open>Totality and the invariant\<close>

definition ident :: "nat \<Rightarrow> llama_kv_tail_identity" where
  "ident c = \<lparr>id_stream = 0, id_cell = c, id_generation = 0\<rparr>"

definition tail_example :: llama_kv_tail_store where
  "tail_example = \<lparr>st_n_tokens = 2, st_rollback_tokens = 0, st_history_limit = 2,
     st_arena_stride = 3, st_n_slots = 6, st_compact_storage = False,
     st_seqs = replicate 2 (tail_seq_empty 3), st_pending = None, st_batch = None, st_in_batch = False\<rparr>"

lemma tail_example_new: "tail_store_standard 2 2 3 0 = Inr tail_example"
  by (simp add: tail_store_standard_def checked_tail_slot_count_eq tail_example_def)

lemma tail_example_reachable: "tail_reachable tail_example"
  by (rule tail_reachable.standard [OF tail_example_new])

text \<open>C4: From a newly constructed store, whatever operations the cache runs under its calling discipline (commits, recycled cells, clear,
  degradation marks, invalidated slots, batches, sequence copies, the sequence edits, restored entries, provenance and
  cursors, clones), the next operation completes without an exception or a failed assertion, and the store
  keeps its invariant: entries of a sequence are sorted by position and ordinal, at most one names a
  physical cell, the cell index holds exactly their cells, every entry owns its own slot of the
  sequence's arena, the used bits mark exactly the owned slots, and a compact store never keeps more
  than its history limit. The discipline: no pending copy when another operation changes entries, no copy during a batch,
  commits within the arena of a standard store, distinct cells in a copied range, and a restore only outside batches and
  copies, of accepted provenance, into free slots of a history that is not full. Positions are unbounded integers.\<close>

theorem tail_ops_complete:
  assumes "tail_reachable t" and "tail_pre op t"
  shows "\<exists>t'. tail_apply op t = Inr t' \<and> tail_reachable t' \<and> store_inv t'"
  using tail_apply_ok [OF tail_reachable_inv [OF assms(1)] assms(2)]
    tail_reachable.step [OF assms] by blast

theorem tail_ops_complete_witness:
  "\<exists>t'. tail_apply (Commit 0 (ident 5) 7 0 UINT32_MAX) tail_example = Inr t' \<and> tail_reachable t' \<and> store_inv t'"
  by (rule tail_ops_complete [OF tail_example_reachable]) (simp add: commit_pre_def tail_example_def)

section \<open>A batch never exhausts the arena\<close>

type_synonym commit_call = "int \<times> llama_kv_tail_identity \<times> int \<times> nat \<times> nat"

definition run_commits :: "commit_call list \<Rightarrow> llama_kv_tail_store \<Rightarrow> llama_kv_tail_store res" where
  "run_commits cs = fold_r (\<lambda>(s, i, p, n, row) t. bind_r (tail_commit s i p n row t) (\<lambda>(_, t). Inr t)) cs"

lemma run_commits_standard:
  assumes "store_inv t" and "\<not> st_compact_storage t" and "st_pending t = None"
    and "st_batch t = None"
    and "\<And>s. s < length (st_seqs t) \<Longrightarrow>
      length (ts_entries (st_seqs t ! s)) + count_if (\<lambda>c. fst c = int s) cs \<le> st_arena_stride t"
  shows "\<exists>t'. run_commits cs t = Inr t' \<and> store_inv t'"
  using assms
proof (induction cs arbitrary: t)
  case Nil
  then show ?case by (simp add: run_commits_def)
next
  case (Cons c cs)
  obtain s i p n row where c: "c = (s, i, p, n, row)" by (cases c) auto
  have pre: "commit_pre s row t"
    unfolding commit_pre_def
  proof (intro conjI impI)
    assume "valid_seq t s \<and> \<not> st_compact_storage t \<and> st_in_batch t"
    then have "nat s < length (st_seqs t)" "int (nat s) = s" by (auto simp: valid_seq_def)
    then show "length (ts_entries (st_seqs t ! nat s)) < st_arena_stride t"
      using Cons.prems(5) [of "nat s"] c by simp
  qed (use Cons.prems in auto)
  obtain slot t1 where t1: "tail_commit s i p n row t = Inr (slot, t1)" "store_inv t1" "st_pending t1 = None"
      "st_compact_storage t1 = st_compact_storage t" "st_arena_stride t1 = st_arena_stride t"
      "length (st_seqs t1) = length (st_seqs t)"
      "\<And>s'. s' < length (st_seqs t) \<Longrightarrow> length (ts_entries (st_seqs t1 ! s')) \<le>
       length (ts_entries (st_seqs t ! s')) + (if int s' = s then 1 else 0)"
    using tail_commit_ok [OF Cons.prems(1) pre, of i p n] by blast
  have "st_batch t1 = None"
    using t1(2,4) Cons.prems(2) by (cases "st_batch t1") (simp_all add: store_inv_def batch_ok_def)
  moreover have "length (ts_entries (st_seqs t1 ! s')) + count_if (\<lambda>c. fst c = int s') cs \<le> st_arena_stride t1"
    if "s' < length (st_seqs t1)" for s'
    using t1(7) [of s'] Cons.prems(5) [of s'] that t1(5,6) c by (auto split: if_splits)
  ultimately obtain t' where "run_commits cs t1 = Inr t'" "store_inv t'"
    using Cons.IH [of t1] t1 Cons.prems by auto
  then show ?case using t1(1) by (auto simp: run_commits_def c)
qed

text \<open>With the standard arena layout, a micro-batch never exhausts an arena: for a store built with
  the planned stride, whatever happened before, after \<open>begin_batch\<close> any commits of which at most
  \<open>n_ubatch\<close> go to one sequence all complete.\<close>

theorem batch_fits_arena:
  assumes "llama_kv_tail_layout_for n_tokens n_seq n_ubatch = Inr l"
    and "tail_reachable t" and "\<not> st_compact_storage t" and "st_pending t = None"
    and "st_arena_stride t = arena_stride l" and "st_n_tokens t = n_tokens"
    and "\<And>s. count_if (\<lambda>c. fst c = s) cs \<le> n_ubatch"
  shows "\<exists>t1 t2. begin_batch t = Inr t1 \<and> run_commits cs t1 = Inr t2 \<and> store_inv t2"
proof -
  have t: "store_inv t" using assms(2) by (rule tail_reachable_inv)
  have b: "st_batch t = None"
    using t assms(3) by (cases "st_batch t") (simp_all add: store_inv_def batch_ok_def)
  obtain t1 where t1: "begin_batch t = Inr t1" "store_inv t1" "st_compact_storage t1 = st_compact_storage t"
      "st_pending t1 = None" "st_arena_stride t1 = st_arena_stride t" "length (st_seqs t1) = length (st_seqs t)"
      "\<forall>s < length (st_seqs t). ts_entries (st_seqs t1 ! s) =
         (let es = ts_entries (st_seqs t ! s) in drop (length es - tail_limit t) es)"
    using begin_batch_ok [OF t assms(4) b] by blast
  have room: "n_tokens + n_ubatch \<le> st_arena_stride t"
    using tail_layout_facts [OF assms(1)] assms(5) by simp
  have "st_batch t1 = None"
    using t1(2,3) assms(3) by (cases "st_batch t1") (simp_all add: store_inv_def batch_ok_def)
  moreover have "length (ts_entries (st_seqs t1 ! s)) + count_if (\<lambda>c. fst c = int s) cs \<le> st_arena_stride t1"
    if "s < length (st_seqs t1)" for s
  proof -
    have "length (ts_entries (st_seqs t1 ! s)) \<le> n_tokens"
      using t1(6,7) that assms(3,6) by (simp add: Let_def tail_limit_def)
    then show ?thesis using assms(7) [of "int s"] room t1(5) by linarith
  qed
  ultimately show ?thesis
    using run_commits_standard [of t1 cs] t1 assms(3) by blast
qed

theorem batch_fits_arena_witness:
  "\<exists>t t1 t2. tail_store_standard 2 1 256 0 = Inr t \<and> begin_batch t = Inr t1 \<and>
     run_commits [(0, ident 1, 5, 0, UINT32_MAX), (0, ident 2, 6, 1, UINT32_MAX)] t1 = Inr t2 \<and> store_inv t2"
proof -
  let ?cs = "[(0, ident 1, 5, 0, UINT32_MAX), (0, ident 2, 6, 1, UINT32_MAX)] :: commit_call list"
  have l: "llama_kv_tail_layout_for 2 1 254 = Inr \<lparr>arena_stride = 256, sink_slots = 0, total_slots = 256\<rparr>"
    by (simp add: llama_kv_tail_layout_for_def tail_fa_stride_def checked_tail_slot_count_eq)
  obtain t where t: "tail_store_standard 2 1 256 0 = Inr t" "\<not> st_compact_storage t" "st_pending t = None"
      "st_arena_stride t = 256" "st_n_tokens t = 2"
    by (simp add: tail_store_standard_def checked_tail_slot_count_eq)
  have c: "count_if (\<lambda>c. fst c = s) ?cs \<le> 254" for s by simp
  show ?thesis
    using batch_fits_arena [OF l tail_reachable.standard [OF t(1)] t(2,3), of ?cs] t c by auto
qed

section \<open>What a commit does to its sequence\<close>

lemma seq_slots_nonneg:
  "seq_inv stride s A q \<Longrightarrow> e \<in> set (ts_entries q) \<Longrightarrow> 0 \<le> ee_slot e"
proof -
  assume "seq_inv stride s A q" and e: "e \<in> set (ts_entries q)"
  then have "set (ts_slots q @ A) \<subseteq> {int (s * stride)..<int (s * stride + stride)}"
    by (simp add: seq_inv_def seq_core_def arena_ok_def)
  then have "ee_slot e \<in> {int (s * stride)..<int (s * stride + stride)}" using e by auto
  then show ?thesis by (auto intro: order_trans [of _ "int (s * stride)"])
qed

lemma retained_slot_in:
  assumes q: "seq_inv stride s A q" and e: "e \<in> set (ts_entries q)"
  shows "retained_slot q (ee_identity e) = ee_slot e"
proof -
  have "find_entry q (ee_key e) = Some e" using find_entry_Some [OF q] e by blast
  then show ?thesis by (simp add: retained_slot_def)
qed

lemma update_first_in:
  "e \<in> set es \<Longrightarrow> distinct (map g es) \<Longrightarrow> f e \<in> set (update_first (\<lambda>x. g x = g e) f es)"
  by (induction es) force+

lemma commit_refresh_retains:
  assumes q: "seq_inv (st_arena_stride t) s A q" and le: "length (ts_entries q) \<le> tail_limit t"
    and e: "find_entry q (id_key i) = Some e" "ee_identity e = i"
  shows "\<exists>q' e'. commit_refresh t s i p n q = Inr q' \<and> e' \<in> set (ts_entries q') \<and> ee_identity e' = i"
proof -
  let ?es = "update_first (\<lambda>x. ee_key x = id_key i) (\<lambda>e. e\<lparr>ee_position := p, ee_ordinal := n\<rparr>) (ts_entries q)"
  have "e \<in> set (ts_entries q)" "ee_key e = id_key i" using find_entry_Some [OF q] e(1) by blast+
  moreover have "distinct (map ee_key (ts_entries q))" using q by (simp add: seq_inv_def seq_core_def)
  ultimately have "e\<lparr>ee_position := p, ee_ordinal := n\<rparr> \<in> set ?es"
    using update_first_in [of e "ts_entries q" ee_key] by simp
  moreover have "length ?es = length (ts_entries q)"
    using arg_cong [OF update_first_map [of "\<lambda>_. ()" _ _ "ts_entries q"], of length]
    by (simp only: length_map)
  ultimately show ?thesis
    using e(2) le by (intro exI [of _ "q\<lparr>ts_entries := sort_key entry_key ?es\<rparr>"]
        exI [of _ "e\<lparr>ee_position := p, ee_ordinal := n\<rparr>"]) (simp add: commit_refresh_def trim_noop)
qed

text \<open>A commit of a cell the sequence does not hold yet, outside a batch of a standard store,
  always retains the new entry: with a full history exactly the oldest entry gives way, otherwise
  none does, the new entry is placed by position and ordinal (after equals), the returned slot is the
  one the entry owns, and no other sequence changes.\<close>

theorem commit_retains_entry:
  assumes "tail_reachable t" and "commit_pre seq_id row t" and "valid_seq t seq_id" and "st_n_tokens t \<noteq> 0"
    and "st_compact_storage t \<or> \<not> st_in_batch t"
    and "es = ts_entries (st_seqs t ! nat seq_id)" and "length es \<le> tail_limit t"
    and "id_key i \<notin> ee_key ` set es"
  shows "\<exists>slot t'. tail_commit seq_id i p n row t = Inr (slot, t') \<and> 0 \<le> slot \<and>
    ts_entries (st_seqs t' ! nat seq_id) =
      insert_entry \<lparr>ee_identity = i, ee_position = p, ee_ordinal = n, ee_slot = slot\<rparr>
        (drop (Suc (length es) - tail_limit t) es) \<and>
    (\<forall>s < length (st_seqs t). s \<noteq> nat seq_id \<longrightarrow> st_seqs t' ! s = st_seqs t ! s)"
proof -
  define s where "s = nat seq_id"
  let ?st = "st_arena_stride t" and ?q = "st_seqs t ! s"
  have t: "store_inv t" using assms(1) by (rule tail_reachable_inv)
  have s: "s < length (st_seqs t)" "int s = seq_id" using assms(3) by (auto simp: s_def valid_seq_def)
  have p0: "st_pending t = None" using assms(2) by (simp add: commit_pre_def)
  have q: "seq_inv ?st s [] ?q" using store_inv_ready [OF t p0 s(1)] by (simp add: seq_ready_def)
  have lim: "0 < tail_limit t" using t assms(4) by (auto simp: store_inv_def tail_config_def tail_limit_def)
  have es: "es = ts_entries ?q" using assms(6) by (simp add: s_def)
  have F: "filter (\<lambda>e. ee_key e \<noteq> id_key i) (ts_entries ?q) = es"
    unfolding es [symmetric] using assms(8) by (intro filter_True) (metis image_eqI)
  have nf: "find_entry ?q (id_key i) = None"
    using find_entry_None [OF q] assms(8) q by (simp add: seq_inv_def es)
  have fits: "arena_fits ?st s" using t s(1) by (simp add: store_inv_def tail_config_fits)
  have room: "has_room t [] q'" if "ts_entries q' = filter (\<lambda>e. ee_key e \<noteq> id_key i) (ts_entries ?q)" for q'
    using that assms(5,7) lim tail_limit_config [of t] t unfolding F
    by (cases "length es < tail_limit t") (auto simp: has_room_def store_inv_def)
  let ?F = "filter (\<lambda>e. ee_key e \<noteq> id_key i) (ts_entries ?q)"
  obtain q' ks x where q': "commit_insert t s i p n ?q = Inr q'" "seq_inv ?st s [] q'"
      and k0: "ks = ?F \<or> (ks = tl ?F \<and> tail_limit t \<le> length ?F)"
      and k1: "(st_compact_storage t \<or> \<not> st_in_batch t) \<longrightarrow>
         length ks < max 1 (tail_limit t) \<or> tail_limit t < length (ts_entries ?q)"
      and ent: "ts_entries q' = (let es' = insert_entry \<lparr>ee_identity = i, ee_position = p, ee_ordinal = n, ee_slot = x\<rparr> ks
         in if st_in_batch t then es' else drop (length es' - tail_limit t) es')"
    using commit_insert_ok [OF fits q, of i p n] room by blast
  note ks0 = k0 [unfolded F] and ks1 = k1 [folded es]
  note ks = ks0 ks1 [rule_format, OF assms(5)]
  let ?a = "\<lparr>ee_identity = i, ee_position = p, ee_ordinal = n, ee_slot = x\<rparr>"
  have kd: "ks = drop (Suc (length es) - tail_limit t) es"
    using ks assms(7) lim by (auto simp: drop_Suc)
  have "length (insert_entry ?a ks) = Suc (length ks)"
    using arg_cong [OF mset_insert_entry [of ?a ks], of size] by simp
  then have ent': "ts_entries q' = insert_entry ?a ks"
    using ent ks(2) assms(7) lim by (auto simp: Let_def max_def split: if_splits)
  then have a: "?a \<in> set (ts_entries q')" by simp
  have ret: "retained_slot q' i = x" "0 \<le> x"
    using retained_slot_in [OF q'(2) a] seq_slots_nonneg [OF q'(2) a] by simp_all
  let ?t1 = "t\<lparr>st_seqs := (st_seqs t)[s := q']\<rparr>"
  have len: "length (ts_entries q') \<le> tail_limit t"
    using ent' ks(2) assms(7) \<open>length (insert_entry ?a ks) = _\<close> lim by (auto simp: max_def split: if_splits)
  have inv: "store_inv ?t1" using store_inv_seq [OF t p0 s(1) q'(2)] len by simp
  have "row = UINT32_MAX \<or> st_n_slots ?t1 + row \<le> INT32_MAX" if "st_batch ?t1 \<noteq> None"
    using assms(2) that by (auto simp: commit_pre_def)
  then obtain b where b: "record_current s i p n row x ?t1 = Inr (?t1\<lparr>st_batch := b\<rparr>)"
    using record_current_ok [OF inv, of row s i p n x] by blast
  have "tail_commit seq_id i p n row t = Inr (x, ?t1\<lparr>st_batch := b\<rparr>)"
    using assms(3,4) unfolding tail_commit_def Let_def s_def [symmetric] nf by (simp add: q'(1) ret b)
  then show ?thesis using ret ent' kd s(1) unfolding s_def [symmetric] by auto
qed

theorem commit_retains_entry_witness:
  "\<exists>slot t'. tail_commit 1 (ident 5) 7 0 UINT32_MAX tail_example = Inr (slot, t') \<and> 0 \<le> slot \<and>
    ts_entries (st_seqs t' ! 1) = [\<lparr>ee_identity = ident 5, ee_position = 7, ee_ordinal = 0, ee_slot = slot\<rparr>]"
  using commit_retains_entry [OF tail_example_reachable, of 1 UINT32_MAX "[]" "ident 5" 7 0]
  by (auto simp: commit_pre_def tail_example_def valid_seq_def insert_entry_def nth_Cons')

section \<open>A failed batch is undone\<close>

definition run_ops :: "tail_op list \<Rightarrow> llama_kv_tail_store \<Rightarrow> llama_kv_tail_store res" where
  "run_ops ops t = fold_r tail_apply ops t"

text \<open>What happens between \<open>begin_batch\<close> and \<open>finish_batch\<close> (\<^verbatim>\<open>llama_kv_cache::apply_ubatch\<close>): rows of the batch are committed, each
  with its row number, cells it overwrites are recycled, and the purge of overwritten positions removes ranges and marks
  sequences as degraded.\<close>

fun in_batch_op :: "nat \<Rightarrow> tail_op \<Rightarrow> bool" where
  "in_batch_op n_slots (Commit s i p n row) = (row \<noteq> UINT32_MAX \<and> n_slots + row \<le> INT32_MAX)"
| "in_batch_op n_slots (Recycle stream cell gen) = True"
| "in_batch_op n_slots (Seq_rm s p0 p1) = True"
| "in_batch_op n_slots (Mark_degraded s f) = True"
| "in_batch_op n_slots _ = False"

text \<open>The purge changes sequences without marking them in the transaction.\<close>

fun purges_seq :: "nat \<Rightarrow> tail_op \<Rightarrow> bool" where
  "purges_seq s (Seq_rm seq_id p0 p1) = (seq_id = int s)"
| "purges_seq s (Mark_degraded seq_id f) = (seq_id < 0 \<or> seq_id = int s)"
| "purges_seq s _ = False"

text \<open>Inside a batch that started with the sequences \<open>Q0\<close> (\<open>Q1\<close> after trimming): the transaction still
  holds \<open>Q0\<close>, and a sequence it does not mark and no purge names (\<open>E\<close>) is untouched.\<close>

definition batch_open :: "tail_seq list \<Rightarrow> tail_seq list \<Rightarrow> nat set \<Rightarrow> nat \<Rightarrow> llama_kv_tail_store \<Rightarrow> bool" where
  "batch_open Q0 Q1 E n_slots t \<longleftrightarrow> store_inv t \<and> st_pending t = None \<and> st_compact_storage t \<and> st_in_batch t \<and>
     st_n_slots t = n_slots \<and> length (st_seqs t) = length Q0 \<and>
     (\<exists>tx. st_batch t = Some tx \<and> bt_seqs tx = Q0 \<and>
       (\<forall>s < length Q0. \<not> bt_affected tx ! s \<and> s \<notin> E \<longrightarrow> st_seqs t ! s = Q1 ! s))"

lemma batch_open_commit:
  assumes t: "batch_open Q0 Q1 E ns t" and row: "row \<noteq> UINT32_MAX" "ns + row \<le> INT32_MAX"
  shows "\<exists>slot t'. tail_commit seq_id i p n row t = Inr (slot, t') \<and> batch_open Q0 Q1 E ns t'"
proof (cases "valid_seq t seq_id \<and> st_n_tokens t \<noteq> 0")
  case False
  then show ?thesis using t by (auto simp: tail_commit_def)
next
  case True
  define s where "s = nat seq_id"
  obtain tx where T: "store_inv t" "st_pending t = None" "st_compact_storage t" "st_in_batch t"
      "st_n_slots t = ns" "length (st_seqs t) = length Q0" "st_batch t = Some tx" "bt_seqs tx = Q0"
      "\<And>s. s < length Q0 \<Longrightarrow> \<not> bt_affected tx ! s \<Longrightarrow> s \<notin> E \<Longrightarrow> st_seqs t ! s = Q1 ! s"
    using t by (auto simp: batch_open_def)
  have s: "s < length (st_seqs t)" "int s = seq_id" using True by (auto simp: s_def valid_seq_def)
  have pre: "commit_pre (int s) row t" using T row by (simp add: commit_pre_def)
  have n0: "st_n_tokens t \<noteq> 0" using True by simp
  let ?q = "st_seqs t ! s" and ?st = "st_arena_stride t"
  have q: "seq_inv ?st s [] ?q" using store_inv_ready [OF T(1,2) s(1)] by (simp add: seq_ready_def)
  define refresh where "refresh = (case find_entry ?q (id_key i) of Some e \<Rightarrow> ee_identity e = i | None \<Rightarrow> False)"
  obtain q' where q': "(if refresh then commit_refresh t s i p n ?q else commit_insert t s i p n ?q) = Inr q'"
      "seq_inv ?st s [] q'" "length (ts_entries q') \<le> tail_limit t"
      "\<exists>e \<in> set (ts_entries q'). ee_identity e = i"
  proof (cases refresh)
    case True
    then obtain e where "find_entry ?q (id_key i) = Some e" "ee_identity e = i"
      by (auto simp: refresh_def split: option.splits)
    then obtain q2 e2 where "commit_refresh t s i p n ?q = Inr q2" "e2 \<in> set (ts_entries q2)" "ee_identity e2 = i"
      using commit_refresh_retains [OF q store_seq_bound [OF T(1) s(1) T(3)], of i e p n] by blast
    then show ?thesis
      using that [of q2] commit_seq_ok(1) [OF T(1) pre s(1) n0, of i p n] True T(3) by auto
  next
    case False
    obtain q2 es x where q2: "commit_insert t s i p n ?q = Inr q2" "seq_inv ?st s [] q2"
        "length (ts_entries q2) \<le> tail_limit t"
        "ts_entries q2 = insert_entry \<lparr>ee_identity = i, ee_position = p, ee_ordinal = n, ee_slot = x\<rparr> es"
      using commit_seq_ok(2) [OF T(1) pre s(1) n0, of i p n] T(3,4) by (auto simp: Let_def)
    then show ?thesis using that [of q2] False by simp
  qed
  obtain e where e: "e \<in> set (ts_entries q')" "ee_identity e = i" using q'(4) by blast
  have ret: "0 \<le> retained_slot q' i"
    using retained_slot_in [OF q'(2) e(1)] seq_slots_nonneg [OF q'(2) e(1)] e(2) by simp
  let ?t1 = "t\<lparr>st_seqs := (st_seqs t)[s := q']\<rparr>"
  let ?tx = "tx\<lparr>bt_current := (bt_current tx)[s := bt_current tx ! s @
        [\<lparr>ee_identity = i, ee_position = p, ee_ordinal = n, ee_slot = int (ns + row)\<rparr>]],
      bt_affected := (bt_affected tx)[s := True]\<rparr>"
  have rec: "record_current s i p n row (retained_slot q' i) ?t1 = Inr (?t1\<lparr>st_batch := Some ?tx\<rparr>)"
    using T(5,7) row ret by (simp add: record_current_def Let_def)
  have t1: "store_inv ?t1" using store_inv_seq [OF T(1,2) s(1) q'(2)] q'(3) by simp
  have "store_inv (?t1\<lparr>st_batch := Some ?tx\<rparr>)"
    by (rule store_inv_batch [OF t1, of tx]) (use T(7) in simp_all)
  moreover have al: "length (bt_affected tx) = length (st_seqs t)"
    using T(1,7) by (simp add: store_inv_def batch_ok_def)
  have "(st_seqs t)[s := q'] ! s' = Q1 ! s'"
    if "s' < length Q0" "\<not> (bt_affected tx)[s := True] ! s'" "s' \<notin> E" for s'
    using that T(6,9) s(1) al by (cases "s' = s") auto
  ultimately have "batch_open Q0 Q1 E ns (?t1\<lparr>st_batch := Some ?tx\<rparr>)"
    using T by (simp add: batch_open_def)
  moreover have "tail_commit seq_id i p n row t = Inr (retained_slot q' i, ?t1\<lparr>st_batch := Some ?tx\<rparr>)"
    using True unfolding tail_commit_def Let_def s_def [symmetric] refresh_def [symmetric] q'(1)
    by (simp add: rec)
  ultimately show ?thesis by blast
qed

lemma batch_open_recycle:
  assumes t: "batch_open Q0 Q1 E ns t"
  shows "\<exists>t'. recycle stream cell gen t = Inr t' \<and> batch_open Q0 Q1 E ns t'"
proof -
  have n: "length (st_seqs t) = length Q0" using t by (simp add: batch_open_def)
  show ?thesis unfolding recycle_def n
  proof (rule fold_r_invariant [where I = "batch_open Q0 Q1 E ns"], goal_cases)
    case (1 s t)
    obtain tx where T: "store_inv t" "st_pending t = None" "st_compact_storage t" "st_in_batch t"
        "st_n_slots t = ns" "length (st_seqs t) = length Q0" "st_batch t = Some tx" "bt_seqs tx = Q0"
        "\<And>s. s < length Q0 \<Longrightarrow> \<not> bt_affected tx ! s \<Longrightarrow> s \<notin> E \<Longrightarrow> st_seqs t ! s = Q1 ! s"
      using 1(2) by (auto simp: batch_open_def)
    have s: "s < length (st_seqs t)" using 1(1) T(6) by simp
    let ?q = "st_seqs t ! s" and ?st = "st_arena_stride t"
    have q: "arena_fits ?st s" "seq_inv ?st s [] ?q"
      using store_inv_ready [OF T(1,2) s] by (simp_all add: seq_ready_def)
    show ?case
    proof (cases "find_entry ?q (cell_key stream cell)")
      case (Some e)
      let ?tx = "tx\<lparr>bt_affected := (bt_affected tx)[s := True]\<rparr>"
      have "e \<in> set (ts_entries ?q)" using find_entry_Some [OF q(2)] Some by blast
      then obtain q' where q': "erase_entry ?st s e True ?q = Inr q'" "seq_inv ?st s [] q'"
          "ts_entries q' = filter (\<lambda>x. ee_key x \<noteq> ee_key e) (ts_entries ?q)"
        using erase_entry_ok(1) [OF q] by blast
      have t1: "store_inv (t\<lparr>st_batch := Some ?tx\<rparr>)"
        by (rule store_inv_batch [OF T(1,7)]) simp_all
      have "store_inv (t\<lparr>st_batch := Some ?tx, st_seqs := (st_seqs t)[s := q']\<rparr>)"
        using store_inv_shrink [OF t1, of s q'] T(2) s q'(2,3) by simp
      moreover have al: "length (bt_affected tx) = length (st_seqs t)"
        using T(1,7) by (simp add: store_inv_def batch_ok_def)
      have "(st_seqs t)[s := q'] ! s' = Q1 ! s'"
        if "s' < length Q0" "\<not> (bt_affected tx)[s := True] ! s'" "s' \<notin> E" for s'
        using that T(6,9) s al by (cases "s' = s") auto
      ultimately have "batch_open Q0 Q1 E ns (t\<lparr>st_batch := Some ?tx, st_seqs := (st_seqs t)[s := q']\<rparr>)"
        using T by (simp add: batch_open_def)
      then show ?thesis using Some T(7) q'(1) 1(2) by (simp add: Let_def)
    qed (use 1 in simp)
  qed (use t in auto)
qed

text \<open>A purge replaces the state of one sequence and leaves the transaction alone.\<close>

lemma batch_open_purge:
  assumes t: "batch_open Q0 Q1 E ns t" and t': "t' = t\<lparr>st_seqs := qs\<rparr>" "store_inv t'" "length qs = length (st_seqs t)"
    and "\<forall>s < length qs. s \<notin> E \<longrightarrow> qs ! s = st_seqs t ! s"
  shows "batch_open Q0 Q1 E ns t'"
  using assms by (auto simp: batch_open_def)

lemma batch_open_seq_rm:
  assumes t: "batch_open Q0 Q1 E ns t" and e: "0 \<le> seq_id \<Longrightarrow> nat seq_id \<in> E"
  shows "\<exists>t'. tail_seq_rm seq_id p0 p1 t = Inr t' \<and> batch_open Q0 Q1 E ns t'"
proof -
  have "store_inv t" "st_pending t = None" using t by (simp_all add: batch_open_def)
  then obtain t' where t': "tail_seq_rm seq_id p0 p1 t = Inr t'" "store_inv t'" using tail_seq_rm_ok [of t seq_id p0 p1] by auto
  have "t' = t \<or> 0 \<le> seq_id \<and> (\<exists>q. t' = t\<lparr>st_seqs := (st_seqs t)[nat seq_id := q]\<rparr>)"
    using t'(1) by (auto simp: tail_seq_rm_def valid_seq_def Let_def bind_r_Inr_iff split: if_splits)
  then have "batch_open Q0 Q1 E ns t'"
  proof
    assume "0 \<le> seq_id \<and> (\<exists>q. t' = t\<lparr>st_seqs := (st_seqs t)[nat seq_id := q]\<rparr>)"
    then obtain q where q: "t' = t\<lparr>st_seqs := (st_seqs t)[nat seq_id := q]\<rparr>" "nat seq_id \<in> E" using e by blast
    show ?thesis by (rule batch_open_purge [OF t q(1) t'(2)]) (use q(2) in \<open>simp, metis nth_list_update_neq\<close>)
  qed (use t in simp)
  then show ?thesis using t'(1) by blast
qed

lemma batch_open_mark:
  assumes t: "batch_open Q0 Q1 E ns t" and e: "seq_id < 0 \<Longrightarrow> E = UNIV" "0 \<le> seq_id \<Longrightarrow> nat seq_id \<in> E"
  shows "batch_open Q0 Q1 E ns (mark_degraded seq_id f t)"
proof -
  have p: "store_inv t" "st_pending t = None" using t by (simp_all add: batch_open_def)
  have inv: "store_inv (mark_degraded seq_id f t)" using mark_degraded_ok [OF p(1)] by blast
  consider "seq_id < 0" | "0 \<le> seq_id" "valid_seq t seq_id" | "0 \<le> seq_id" "\<not> valid_seq t seq_id" by linarith
  then show ?thesis
  proof cases
    case 1
    have m: "mark_degraded seq_id f t = t\<lparr>st_seqs := map (degrade f) (st_seqs t)\<rparr>" using 1 p(2) by (simp add: mark_degraded_def)
    show ?thesis by (rule batch_open_purge [OF t m inv]) (use e(1) 1 in simp_all)
  next
    case 2
    have m: "mark_degraded seq_id f t = t\<lparr>st_seqs := (st_seqs t)[nat seq_id := degrade f (st_seqs t ! nat seq_id)]\<rparr>"
      using 2 p(2) by (simp add: mark_degraded_def)
    show ?thesis by (rule batch_open_purge [OF t m inv]) (use e(2) [OF 2(1)] in \<open>simp, metis nth_list_update_neq\<close>)
  qed (use t in \<open>simp add: mark_degraded_def\<close>)
qed

text \<open>C11: A batch on a compact store that fails is undone. Whatever rows the batch committed, cells it recycled and ranges its
  purge removed or marked, all of it completes, and \<open>finish_batch(false, ...)\<close> gives every sequence back exactly as
  it was before \<open>begin_batch\<close> (entries, slots, cursor, degradation), except that when payload may
  have been overwritten a sequence the transaction marked is emptied and marked as invalid; a sequence
  that is not marked was changed by the batch at most by a purge that names it.\<close>

theorem failed_batch_undone:
  assumes "tail_reachable t" and "st_compact_storage t" and "st_pending t = None" and "st_batch t = None"
    and "\<forall>op \<in> set ops. in_batch_op (st_n_slots t) op"
  shows "\<exists>t1 t2 t3 tx. begin_batch t = Inr t1 \<and> run_ops ops t1 = Inr t2 \<and> st_batch t2 = Some tx \<and>
    finish_batch False payload t2 = Inr t3 \<and> st_batch t3 = None \<and> \<not> st_in_batch t3 \<and>
    length (st_seqs t3) = length (st_seqs t) \<and>
    (\<forall>s < length (st_seqs t).
       (if payload \<and> bt_affected tx ! s
        then ts_entries (st_seqs t3 ! s) = [] \<and> ts_recovery (st_seqs t3 ! s) = 0 \<and>
          ts_degradation (st_seqs t3 ! s) =
            (ts_degradation (st_seqs t ! s) OR LLAMA_KV_TAIL_DEGRADED_PAYLOAD_INVALID)
        else st_seqs t3 ! s = st_seqs t ! s) \<and>
       (\<not> bt_affected tx ! s \<and> (\<forall>op \<in> set ops. \<not> purges_seq s op) \<longrightarrow> st_seqs t2 ! s = st_seqs t1 ! s))"
proof -
  define E where "E = {s. \<exists>op \<in> set ops. purges_seq s op}"
  have t: "store_inv t" using assms(1) by (rule tail_reachable_inv)
  obtain t1 where t1: "begin_batch t = Inr t1" "store_inv t1" "st_in_batch t1"
      "length (st_seqs t1) = length (st_seqs t)" "st_compact_storage t1" "st_pending t1 = None"
      "st_n_slots t1 = st_n_slots t" "st_batch t1 = Some \<lparr>bt_seqs = st_seqs t,
       bt_current = replicate (length (st_seqs t)) [], bt_affected = replicate (length (st_seqs t)) False\<rparr>"
    using begin_batch_ok [OF t assms(3,4)] assms(2) by blast
  have b1: "batch_open (st_seqs t) (st_seqs t1) E (st_n_slots t) t1"
    using t1 by (simp add: batch_open_def)
  have "\<exists>t2. run_ops ops t1 = Inr t2 \<and> batch_open (st_seqs t) (st_seqs t1) E (st_n_slots t) t2"
    unfolding run_ops_def
  proof (rule fold_r_invariant)
    fix op u assume op: "op \<in> set ops" and u: "batch_open (st_seqs t) (st_seqs t1) E (st_n_slots t) u"
    have "in_batch_op (st_n_slots t) op" using assms(5) op by blast
    then show "\<exists>u'. tail_apply op u = Inr u' \<and> batch_open (st_seqs t) (st_seqs t1) E (st_n_slots t) u'"
    proof (cases op)
      case (Commit s i p n row)
      then show ?thesis
        using batch_open_commit [OF u, of row s i p n] \<open>in_batch_op (st_n_slots t) op\<close> by auto
    next
      case (Recycle a b c)
      then show ?thesis using batch_open_recycle [OF u, of a b c] by auto
    next
      case (Seq_rm a b c)
      then have "0 \<le> a \<Longrightarrow> nat a \<in> E" using op by (force simp: E_def)
      then show ?thesis using batch_open_seq_rm [OF u, of a b c] Seq_rm by simp
    next
      case (Mark_degraded a f)
      then have "a < 0 \<Longrightarrow> E = UNIV" "0 \<le> a \<Longrightarrow> nat a \<in> E" using op by (force simp: E_def)+
      then show ?thesis using batch_open_mark [OF u, of a f] Mark_degraded by simp
    qed simp_all
  qed (rule b1)
  then obtain t2 tx where t2: "run_ops ops t1 = Inr t2" "store_inv t2" "st_batch t2 = Some tx"
      "bt_seqs tx = st_seqs t" "length (st_seqs t2) = length (st_seqs t)"
      "\<And>s. s < length (st_seqs t) \<Longrightarrow> \<not> bt_affected tx ! s \<Longrightarrow> s \<notin> E \<Longrightarrow> st_seqs t2 ! s = st_seqs t1 ! s"
    by (auto simp: batch_open_def)
  have "s \<notin> E \<longleftrightarrow> (\<forall>op \<in> set ops. \<not> purges_seq s op)" for s by (auto simp: E_def)
  then show ?thesis
    using finish_batch_failed [OF t2(2,3), of payload] t1(1) t2 by (metis (no_types, lifting))
qed

theorem failed_batch_undone_witness:
  "\<exists>t t1 t2 t3. tail_store_compact 2 1 2 3 0 = Inr t \<and> begin_batch t = Inr t1 \<and>
     run_ops [Commit 0 (ident 5) 7 0 0, Recycle 0 5 1, Commit 1 (ident 6) 8 1 1, Seq_rm 0 0 7] t1 = Inr t2 \<and>
     finish_batch False False t2 = Inr t3 \<and> st_batch t3 = None \<and> st_seqs t3 ! 0 = st_seqs t ! 0"
proof -
  obtain t where t: "tail_store_compact 2 1 2 3 0 = Inr t" "st_compact_storage t" "st_pending t = None"
      "st_batch t = None" "st_n_slots t = 6" "length (st_seqs t) = 2"
    by (simp add: tail_store_compact_def checked_tail_history_limit_def checked_tail_slot_count_eq)
  have ops: "\<forall>op \<in> set [Commit 0 (ident 5) 7 0 0, Recycle 0 5 1, Commit 1 (ident 6) 8 1 1, Seq_rm 0 0 7].
      in_batch_op (st_n_slots t) op" by (simp add: t(5))
  show ?thesis
    using failed_batch_undone [OF tail_reachable.compact [OF t(1)] t(2,3,4) ops, of False] t(1,6) by force
qed

section \<open>A sequence copy moves the payload\<close>

text \<open>The payload rows of the arena, and the copies as the cache performs them, one after another.\<close>

definition copy_payload :: "(int \<times> int) list \<Rightarrow> (int \<Rightarrow> 'p) \<Rightarrow> int \<Rightarrow> 'p" where
  "copy_payload copies m = fold (\<lambda>(a, b) m. m(b := m a)) copies m"

lemma copy_payload_other:
  "x \<notin> snd ` set copies \<Longrightarrow> copy_payload copies m x = m x"
  unfolding copy_payload_def by (induction copies arbitrary: m) (auto split: prod.splits)

lemma copy_payload_at:
  assumes "distinct (map snd copies)" and "fst ` set copies \<inter> snd ` set copies = {}" and "(a, b) \<in> set copies"
  shows "copy_payload copies m b = m a"
  using assms
proof (induction copies arbitrary: m)
  case (Cons c copies)
  obtain a' b' where c: "c = (a', b')" by (cases c)
  show ?case
  proof (cases "(a, b) = (a', b')")
    case True
    have "b \<notin> snd ` set copies" using Cons.prems(1) c True by auto
    then show ?thesis using True c copy_payload_other [of b copies "m(b := m a)"]
      by (simp add: copy_payload_def)
  next
    case False
    then have ab: "(a, b) \<in> set copies" using Cons.prems(3) c by auto
    have "a \<noteq> b'" using Cons.prems(2) ab c by force
    then show ?thesis using Cons.IH [of "m(b' := m a')"] Cons.prems ab c
      by (auto simp: copy_payload_def fun_upd_def)
  qed
qed simp

lemma cp_candidates_kept:
  "x \<in> set (cp_candidates t src d ss ds p0 p1) \<Longrightarrow> \<not> is_copied x \<Longrightarrow> fst (snd x) = ee_slot (fst x)"
  by (unfold cp_candidates_def Let_def, drule in_set_dropD) (auto simp: is_copied_def)

lemma copies_faithful:
  assumes copies: "copies = map (\<lambda>(x, e). (fst (snd x), ee_slot e)) (filter (is_copied \<circ> fst) (zip cs D))"
    and slots: "distinct (map ee_slot D)" and len: "length D = length cs"
    and dj: "fst ` set copies \<inter> snd ` set copies = {}"
    and same: "map unslotted D = map (unslotted \<circ> fst) cs"
    and kept: "\<And>x e. (x, e) \<in> set (zip cs D) \<Longrightarrow> \<not> is_copied x \<Longrightarrow> e = fst x"
    and from_slot: "\<And>x. x \<in> set cs \<Longrightarrow> \<not> is_copied x \<Longrightarrow> fst (snd x) = ee_slot (fst x)"
  shows "list_all2 (\<lambda>(e0, from_slot, copied) e. unslotted e = unslotted e0 \<and>
        copy_payload copies m (ee_slot e) = m from_slot \<and> (\<not> copied \<longrightarrow> e = e0 \<and> from_slot = ee_slot e0)) cs D"
  unfolding list_all2_conv_all_nth
proof (intro conjI allI impI)
  fix i assume i: "i < length cs"
  define x where "x = cs ! i"
  define e where "e = D ! i"
  have xe: "(x, e) \<in> set (zip cs D)" "x \<in> set cs" using i len by (force simp: set_zip x_def e_def)+
  have u: "unslotted e = unslotted (fst x)"
    using arg_cong [OF same, of "\<lambda>l. l ! i"] i len by (simp add: x_def e_def)
  have dc: "distinct (map snd copies)"
  proof -
    have "map snd copies = map (ee_slot \<circ> snd) (filter (is_copied \<circ> fst) (zip cs D))"
      unfolding copies by auto
    moreover have "distinct (map (ee_slot \<circ> snd) (zip cs D))"
      using slots len by (simp only: map_map [symmetric] map_snd_zip)
    ultimately show ?thesis by (simp only: distinct_map_filter)
  qed
  have "copy_payload copies m (ee_slot e) = m (fst (snd x)) \<and>
      (\<not> is_copied x \<longrightarrow> e = fst x \<and> fst (snd x) = ee_slot (fst x))"
  proof (cases "is_copied x")
    case True
    then have "(fst (snd x), ee_slot e) \<in> set copies" unfolding copies using xe(1) by force
    then show ?thesis using copy_payload_at [OF dc dj] True by blast
  next
    case False
    have "ee_slot e \<notin> snd ` set copies"
    proof
      assume "ee_slot e \<in> snd ` set copies"
      then obtain x' e' where x': "(x', e') \<in> set (zip cs D)" "is_copied x'" "ee_slot e' = ee_slot e"
        unfolding copies by auto
      obtain j where j: "j < length cs" "x' = cs ! j" "e' = D ! j" using x'(1) len by (auto simp: set_zip)
      have "map ee_slot D ! i = map ee_slot D ! j" using i j x'(3) len by (simp add: e_def)
      then have "i = j" using nth_eq_iff_index_eq [OF slots, of i j] i j(1) len by simp
      then show False using j(2) x'(2) False by (simp add: x_def)
    qed
    then show ?thesis
      using copy_payload_other [of "ee_slot e" copies m] kept [OF xe(1) False] from_slot [OF xe(2) False]
        False by simp
  qed
  then show "(case cs ! i of (e0, from_slot, copied) \<Rightarrow> \<lambda>e. unslotted e = unslotted e0 \<and>
      copy_payload copies m (ee_slot e) = m from_slot \<and> (\<not> copied \<longrightarrow> e = e0 \<and> from_slot = ee_slot e0)) (D ! i)"
    using u unfolding x_def [symmetric] e_def [symmetric]
    by (simp add: is_copied_def split_beta)
qed (simp add: len)

lemma arenas_disjoint:
  assumes "s \<noteq> d" and "x \<in> {int (s * stride)..<int (s * stride + stride)}"
  shows "x \<notin> {int (d * stride)..<int (d * stride + stride)}"
proof -
  have mono: "int (a * stride + stride) \<le> int (b * stride)" if "a < b" for a b
  proof -
    have "Suc a * stride \<le> b * stride" using that by (intro mult_le_mono1) simp
    then have "a * stride + stride \<le> b * stride" by (simp add: add.commute)
    then show ?thesis by (simp only: of_nat_le_iff)
  qed
  show ?thesis using assms mono [of s d] mono [of d s] by (cases "s < d") auto
qed

text \<open>C34: A sequence copy is faithful. It completes (the arena never runs out), the destination then
  holds its old entries outside the range and the source's entries in the range, cut to the newest
  that fit, and after the listed row copies every entry finds its own payload: a copied entry the
  source's, a kept entry its own. The source's entries and their payload are untouched.\<close>

theorem seq_cp_faithful:
  assumes "tail_reachable t" and "st_pending t = None" and "st_batch t = None"
    and "valid_seq t src" and "valid_seq t dst" and "src \<noteq> dst"
    and "cp_keys_distinct src dst ss ds p0 p1 t"
  shows "\<exists>copies t'. seq_cp_remap src dst ss ds p0 p1 t = Inr (copies, t') \<and> store_inv t' \<and>
    ts_entries (st_seqs t' ! nat src) = ts_entries (st_seqs t ! nat src) \<and>
    (\<forall>e \<in> set (ts_entries (st_seqs t ! nat src)). copy_payload copies m (ee_slot e) = m (ee_slot e)) \<and>
    list_all2 (\<lambda>(e0, from_slot, copied) e. unslotted e = unslotted e0 \<and>
        copy_payload copies m (ee_slot e) = m from_slot \<and> (\<not> copied \<longrightarrow> e = e0 \<and> from_slot = ee_slot e0))
      (cp_candidates t (nat src) (nat dst) ss ds p0 p1) (ts_entries (st_seqs t' ! nat dst))"
proof -
  define s where "s = nat src"
  define d where "d = nat dst"
  define cs where "cs = cp_candidates t s d ss ds p0 p1"
  let ?st = "st_arena_stride t" and ?qd = "st_seqs t ! d" and ?qs = "st_seqs t ! s"
  have t: "store_inv t" using assms(1) by (rule tail_reachable_inv)
  have sd: "s < length (st_seqs t)" "d < length (st_seqs t)" "s \<noteq> d"
    using assms(4-6) by (auto simp: s_def d_def valid_seq_def)
  obtain copies t1 pd c R where p: "prepare_seq_cp src dst ss ds p0 p1 t = Inr (copies, t1)" "store_inv t1"
      "st_pending t1 = Some pd" "pc_dst pd = dst" "length (st_seqs t1) = length (st_seqs t)"
      "\<And>s. s < length (st_seqs t) \<Longrightarrow> ts_entries (st_seqs t1 ! s) = ts_entries (st_seqs t ! s)"
      and c: "cp_ok ?st d ?qd R cs c" and R: "set R \<subseteq> set (ts_slots ?qd)" "set R \<inter> set (kept_slots cs) = {}"
      and co: "copies = cs_copies c" "pc_destination pd = cs_destination c"
    using prepare_seq_cp_ok [OF t assms(2,3) assms(7) assms(4-6)] unfolding s_def d_def cs_def by blast
  obtain t2 where t2: "commit_seq_cp t1 = Inr t2" "store_inv t2" "ts_entries (st_seqs t2 ! d) = cs_destination c"
      "\<And>s. s < length (st_seqs t1) \<Longrightarrow> s \<noteq> d \<Longrightarrow> st_seqs t2 ! s = st_seqs t1 ! s"
    using commit_seq_cp_ok [OF p(2,3)] p(4) co(2) unfolding d_def by auto
  let ?D = "cs_destination c"
  have C: "distinct (map ee_slot ?D)"
      "copies = map (\<lambda>(x, e). (fst (snd x), ee_slot e)) (filter (is_copied \<circ> fst) (zip cs ?D))"
      "\<And>x e. (x, e) \<in> set (zip cs ?D) \<Longrightarrow> \<not> is_copied x \<Longrightarrow> e = fst x"
      "map unslotted ?D = map (unslotted \<circ> fst) cs"
      "seq_inv ?st d (cs_acquired c) (cs_seq c)" "ts_entries (cs_seq c) = ts_entries ?qd"
      "set (map ee_slot ?D) \<subseteq> set (kept_slots cs) \<union> (set R - set (cs_reusable c)) \<union> set (cs_acquired c)"
    using c unfolding cp_ok_def co(1) by blast+
  have len: "length ?D = length cs" using cp_ok_length [OF c] .
  note cp = cp_candidates_props [where t = t and src = s and d = d and ss = ss and ds = ds
      and ?p0.0 = p0 and ?p1.0 = p1, folded cs_def]
  let ?arena = "\<lambda>k. {int (k * ?st)..<int (k * ?st + ?st)}"
  have "set (ts_slots ?qd @ cs_acquired c) \<subseteq> ?arena d"
    using C(5,6) by (simp add: seq_inv_def seq_core_def arena_ok_def)
  then have Dd: "set (map ee_slot ?D) \<subseteq> ?arena d" using C(7) R(1) cp(3) unfolding set_append by blast
  have "seq_inv ?st s [] ?qs" using store_inv_ready [OF t assms(2) sd(1)] by (simp add: seq_ready_def)
  then have Ss: "set (ts_slots ?qs) \<subseteq> ?arena s" by (simp add: seq_inv_def seq_core_def arena_ok_def)
  have snd: "snd ` set copies \<subseteq> set (map ee_slot ?D)"
    unfolding C(2) by (auto dest: set_zip_rightD)
  have fst: "fst ` set copies \<subseteq> set (ts_slots ?qs)"
    unfolding C(2) using cp(6) by (fastforce dest: set_zip_leftD)
  have src: "x \<notin> snd ` set copies" if "x \<in> set (ts_slots ?qs)" for x
    using arenas_disjoint [OF sd(3), of x ?st] Ss Dd snd that by blast
  have dj: "fst ` set copies \<inter> snd ` set copies = {}" using fst src by blast
  have "list_all2 (\<lambda>(e0, from_slot, copied) e. unslotted e = unslotted e0 \<and>
        copy_payload copies m (ee_slot e) = m from_slot \<and> (\<not> copied \<longrightarrow> e = e0 \<and> from_slot = ee_slot e0)) cs ?D"
    by (rule copies_faithful [OF C(2,1) len dj C(4) C(3)], assumption, assumption)
      (unfold cs_def, rule cp_candidates_kept)
  moreover have "seq_cp_remap src dst ss ds p0 p1 t = Inr (copies, t2)"
    using p(1) t2(1) by (simp add: seq_cp_remap_def)
  moreover have "ts_entries (st_seqs t2 ! s) = ts_entries ?qs" using t2(4) sd p(5,6) by simp
  moreover have "copy_payload copies m (ee_slot e) = m (ee_slot e)" if "e \<in> set (ts_entries ?qs)" for e
    by (rule copy_payload_other, rule src) (use that in simp)
  ultimately show ?thesis using t2(2) unfolding s_def [symmetric] d_def [symmetric] cs_def [symmetric] t2(3) [symmetric]
    by (intro exI [of _ copies] exI [of _ t2] conjI ballI)
qed

definition tail_example1 :: llama_kv_tail_store where
  "tail_example1 = tail_example\<lparr>st_seqs :=
     [\<lparr>ts_entries = [\<lparr>ee_identity = ident 5, ee_position = 7, ee_ordinal = 0, ee_slot = 0\<rparr>],
       ts_index = {id_key (ident 5)}, ts_used = [True, False, False], ts_cursor = 1,
       ts_degradation = 0, ts_recovery = 0\<rparr>, tail_seq_empty 3]\<rparr>"

lemma tail_example1_commit: "tail_commit 0 (ident 5) 7 0 UINT32_MAX tail_example = Inr (0, tail_example1)"
  by (simp add: tail_commit_def tail_example_def tail_example1_def valid_seq_def tail_seq_empty_def
      find_entry_def commit_insert_def obtain_slot_def acquire_def upt_rec tail_limit_def Let_def
      slot_at_def i32_of_u32_def insert_or_append_def count_recovery_def trim_def record_current_def
      retained_slot_def)
    (simp add: numeral_2_eq_2 numeral_3_eq_3)

lemma tail_example1_reachable: "tail_reachable tail_example1"
  by (rule tail_reachable.step [OF tail_example_reachable, of "Commit 0 (ident 5) 7 0 UINT32_MAX"])
    (simp_all add: tail_example1_commit, simp add: commit_pre_def tail_example_def)

lemma tail_example1_cands:
  "cp_candidates tail_example1 0 (Suc 0) 0 0 0 (-1) =
     [(\<lparr>ee_identity = ident 5, ee_position = 7, ee_ordinal = 0, ee_slot = -1\<rparr>, 0, True)]"
  by (simp add: cp_candidates_def tail_example1_def tail_example_def tail_limit_def in_range_def ident_def
      LLAMA_KV_TAIL_BODY_SLOT_def Let_def tail_seq_empty_def)

theorem seq_cp_faithful_witness:
  "\<exists>copies t'. seq_cp_remap 0 1 0 0 0 (-1) tail_example1 = Inr (copies, t') \<and>
     length (ts_entries (st_seqs t' ! 1)) = 1 \<and>
     copy_payload copies (\<lambda>x. x + 100) (ee_slot (ts_entries (st_seqs t' ! 1) ! 0)) = 100"
proof -
  have "cp_keys_distinct 0 1 0 0 0 (-1) tail_example1"
    by (simp add: cp_keys_distinct_def tail_example1_cands)
  moreover have "valid_seq tail_example1 0" "valid_seq tail_example1 1" "st_pending tail_example1 = None"
      "st_batch tail_example1 = None"
    by (simp_all add: tail_example1_def tail_example_def valid_seq_def)
  ultimately show ?thesis
    using seq_cp_faithful [OF tail_example1_reachable, of 0 1 0 0 0 "-1" "\<lambda>x. x + 100"]
    by (auto simp: tail_example1_cands list_all2_Cons1)
qed

section \<open>The source plan\<close>

lemma fold_update_at:
  assumes "distinct (map fst L)" and "i < length r"
  shows "fold (\<lambda>(j, e) r. r[j := g e]) L r ! i = (case map_of L i of None \<Rightarrow> r ! i | Some e \<Rightarrow> g e)"
  using assms
proof (induction L arbitrary: r)
  case (Cons x L)
  have "fst x \<notin> fst ` set L" using Cons.prems(1) by simp
  then have "i = fst x \<Longrightarrow> map_of L i = None" by (simp add: map_of_eq_None_iff)
  then show ?case using Cons by (cases x) (auto split: option.splits)
qed simp

lemma fold_update_length [simp]: "length (fold (\<lambda>(j, e) r. r[j := g e]) L r) = length r"
  by (induction L arbitrary: r) (auto split: prod.splits)

text \<open>The entry a visible row refers to, and the candidate list of the planner.\<close>

definition visible_entry :: "exact_entry list \<Rightarrow> llama_kv_tail_identity \<Rightarrow> exact_entry option" where
  "visible_entry es v = find (\<lambda>e. ee_identity e = v) es"

definition plan_candidates :: "exact_entry list \<Rightarrow> llama_kv_tail_identity list \<Rightarrow> (nat \<times> exact_entry) list" where
  "plan_candidates es visible = concat (map (\<lambda>i. case visible_entry es (visible ! i) of
     None \<Rightarrow> [] | Some e \<Rightarrow> [(i, e)]) [0..<length visible])"

lemma plan_candidates_set:
  "set (plan_candidates es visible) = {(i, e). i < length visible \<and> visible_entry es (visible ! i) = Some e}"
  by (auto simp: plan_candidates_def split: option.splits)

lemma map_fst_opt:
  "map fst (concat (map (\<lambda>i. case f i of None \<Rightarrow> [] | Some e \<Rightarrow> [(i, e)]) js)) = filter (\<lambda>i. f i \<noteq> None) js"
  by (induction js) (auto split: option.splits)

lemma plan_candidates_distinct: "distinct (map fst (plan_candidates es visible))"
proof -
  have "map fst (plan_candidates es visible) =
      filter (\<lambda>i. visible_entry es (visible ! i) \<noteq> None) [0..<length visible]"
    unfolding plan_candidates_def map_fst_opt [of "\<lambda>i. visible_entry es (visible ! i)"] by simp
  then show ?thesis by simp
qed

lemma build_source_plan_eq:
  assumes "valid_seq t seq_id" and "st_n_tokens t \<noteq> 0"
  shows "build_source_plan t seq_id visible =
    (let cands = sort_key (entry_key \<circ> snd) (plan_candidates (ts_entries (st_seqs t ! nat seq_id)) visible)
     in fold (\<lambda>(i, e) r. r[i := ee_slot e]) (drop (length cands - st_n_tokens t) cands)
          (replicate (length visible) LLAMA_KV_TAIL_BODY_SLOT))"
proof -
  have *: "(if length cands > n then length cands - n else 0) = length cands - n"
    for cands :: "(nat \<times> exact_entry) list" and n by simp
  show ?thesis
    unfolding build_source_plan_def Let_def plan_candidates_def visible_entry_def * using assms by simp
qed

text \<open>The rows a plan takes from the exact tail.\<close>

definition planned_rows :: "int list \<Rightarrow> nat set" where
  "planned_rows r = {i. i < length r \<and> r ! i \<noteq> LLAMA_KV_TAIL_BODY_SLOT}"

text \<open>C35: The source plan has one source per visible row. A row is read from the exact tail only when the
  sequence holds an entry of exactly that identity (stream, cell and generation), and then from that
  entry's slot; the plan takes as many such rows as exist up to the tail length, and every row it
  takes is at least as new, by position and insertion ordinal, as every available row it leaves to
  the body.\<close>

theorem source_plan_newest:
  assumes "tail_reachable t" and "valid_seq t seq_id" and "r = build_source_plan t seq_id visible"
    and "have = (\<lambda>i. visible_entry (ts_entries (st_seqs t ! nat seq_id)) (visible ! i))"
  shows "length r = length visible \<and>
    (\<forall>i \<in> planned_rows r. \<exists>e. have i = Some e \<and> r ! i = ee_slot e) \<and>
    card (planned_rows r) = min (st_n_tokens t) (card {i. i < length visible \<and> have i \<noteq> None}) \<and>
    (\<forall>i \<in> planned_rows r. \<forall>j < length visible. \<forall>e e'.
       j \<notin> planned_rows r \<longrightarrow> have i = Some e \<longrightarrow> have j = Some e' \<longrightarrow> entry_key e' \<le> entry_key e)"
proof (cases "st_n_tokens t = 0")
  case True
  then have "r = replicate (length visible) LLAMA_KV_TAIL_BODY_SLOT"
    using assms(3) by (simp add: build_source_plan_def)
  then have "planned_rows r = {}" "length r = length visible" by (auto simp: planned_rows_def)
  then show ?thesis using True by simp
next
  case False
  let ?es = "ts_entries (st_seqs t ! nat seq_id)" and ?n = "st_n_tokens t"
  define C where "C = sort_key (entry_key \<circ> snd) (plan_candidates ?es visible)"
  define L where "L = drop (length C - ?n) C"
  have r: "r = fold (\<lambda>(i, e) r. r[i := ee_slot e]) L (replicate (length visible) LLAMA_KV_TAIL_BODY_SLOT)"
    using assms(3) build_source_plan_eq [OF assms(2) False, of visible] by (simp add: C_def L_def Let_def)
  then have len: "length r = length visible" by simp
  have Cs: "set C = {(i, e). i < length visible \<and> have i = Some e}"
    by (simp add: C_def plan_candidates_set assms(4))
  have "mset (map fst C) = mset (map fst (plan_candidates ?es visible))" by (simp add: C_def)
  then have Cd: "distinct (map fst C)" using plan_candidates_distinct mset_eq_imp_distinct_iff by metis
  have CL: "C = take (length C - ?n) C @ L" by (simp add: L_def)
  have Ld: "distinct (map fst L)" using Cd by (simp add: L_def drop_map [symmetric] distinct_drop)
  have LC: "set L \<subseteq> set C" by (simp add: L_def set_drop_subset)
  have at: "r ! i = (case map_of L i of None \<Rightarrow> LLAMA_KV_TAIL_BODY_SLOT | Some e \<Rightarrow> ee_slot e)"
    if "i < length visible" for i
    using fold_update_at [OF Ld, of i "replicate (length visible) LLAMA_KV_TAIL_BODY_SLOT" ee_slot] that r
    by (simp split: option.splits)
  have nonneg: "ee_slot e \<noteq> LLAMA_KV_TAIL_BODY_SLOT" if "(i, e) \<in> set L" for i e
  proof -
    have "e \<in> set ?es" using that LC Cs by (auto simp: assms(4) visible_entry_def find_Some_iff)
    moreover have "seq_inv (st_arena_stride t) (nat seq_id) (pending_held t (nat seq_id)) (st_seqs t ! nat seq_id)"
      using tail_reachable_inv [OF assms(1)] assms(2) by (simp add: store_inv_def seqs_ok_def valid_seq_def)
    ultimately show ?thesis using seq_slots_nonneg by (fastforce simp: LLAMA_KV_TAIL_BODY_SLOT_def)
  qed
  have rows: "planned_rows r = fst ` set L"
  proof (intro equalityI subsetI)
    fix i assume "i \<in> fst ` set L"
    then obtain e where e: "(i, e) \<in> set L" by auto
    then have "map_of L i = Some e" "i < length visible" using Ld LC Cs by auto
    then show "i \<in> planned_rows r" using at nonneg [OF e] len by (simp add: planned_rows_def)
  next
    fix i assume "i \<in> planned_rows r"
    then have "map_of L i \<noteq> None" using at len by (auto simp: planned_rows_def split: option.splits)
    then show "i \<in> fst ` set L" by (simp add: map_of_eq_None_iff)
  qed
  have "\<exists>e. have i = Some e \<and> r ! i = ee_slot e" if i: "i \<in> planned_rows r" for i
  proof -
    obtain e where e: "(i, e) \<in> set L" using i unfolding rows by auto
    then have "i < length visible" "have i = Some e" using LC Cs by auto
    then show ?thesis using at map_of_is_SomeI [OF Ld e] by simp
  qed
  moreover have "card (planned_rows r) = length L"
    using distinct_card [OF Ld] by (simp add: rows)
  moreover have "{i. i < length visible \<and> have i \<noteq> None} = fst ` set C" unfolding Cs by force
  then have "card {i. i < length visible \<and> have i \<noteq> None} = length C"
    using distinct_card [OF Cd] by simp
  moreover have "entry_key e' \<le> entry_key e"
    if i: "i \<in> planned_rows r" and j: "j < length visible" "j \<notin> planned_rows r"
      and e: "have i = Some e" "have j = Some e'" for i j e e'
  proof -
    have "(i, e) \<in> set L" using i e(1) LC Cs unfolding rows by auto
    moreover have "(j, e') \<in> set C" "(j, e') \<notin> set L" using j e(2) Cs unfolding rows by force+
    then have "(j, e') \<in> set (take (length C - ?n) C)" using CL by (metis Un_iff set_append)
    moreover have "sorted (map (entry_key \<circ> snd) C)" by (simp add: C_def)
    then have "sorted (map (entry_key \<circ> snd) (take (length C - ?n) C) @ map (entry_key \<circ> snd) L)"
      using CL by (metis map_append)
    ultimately show ?thesis by (fastforce simp: sorted_append)
  qed
  ultimately show ?thesis using len by (auto simp: L_def)
qed

theorem source_plan_newest_witness:
  "planned_rows (build_source_plan tail_example1 0 [ident 4, ident 5]) = {1} \<and>
   card (planned_rows (build_source_plan tail_example1 0 [ident 4, ident 5])) =
     min 2 (card {i. i < 2 \<and> visible_entry (ts_entries (st_seqs tail_example1 ! 0)) ([ident 4, ident 5] ! i) \<noteq> None})"
proof -
  have v: "valid_seq tail_example1 0" by (simp add: valid_seq_def tail_example1_def tail_example_def)
  have "build_source_plan tail_example1 0 [ident 4, ident 5] = [-1, 0]"
    by (simp add: build_source_plan_def valid_seq_def tail_example1_def tail_example_def ident_def
        LLAMA_KV_TAIL_BODY_SLOT_def)
  then have "planned_rows (build_source_plan tail_example1 0 [ident 4, ident 5]) = {1}"
    by (auto simp: planned_rows_def LLAMA_KV_TAIL_BODY_SLOT_def less_Suc_eq nth_Cons')
  moreover have "st_n_tokens tail_example1 = 2" "nat 0 = 0" "length [ident 4, ident 5] = 2"
    by (simp_all add: tail_example1_def tail_example_def)
  moreover note source_plan_newest [OF tail_example1_reachable v refl refl, of "[ident 4, ident 5]",
      THEN conjunct2, THEN conjunct2, THEN conjunct1]
  ultimately show ?thesis by (simp only:)
qed

section \<open>Snapshot and restore\<close>

lemma insert_entry_last:
  assumes "\<And>e. e \<in> set es \<Longrightarrow> entry_key e \<le> entry_key a"
  shows "insert_entry a es = es @ [a]"
proof -
  have "\<forall>e \<in> set es. \<not> entry_key a < entry_key e" using assms by (simp add: not_less)
  then show ?thesis by (simp add: insert_entry_def)
qed

lemma seq_inv_slot_free:
  assumes "seq_inv stride s [] q" and "loc < stride" and "int (s * stride + loc) \<notin> set (ts_slots q)"
  shows "\<not> ts_used q ! loc"
  using assms by (auto simp: seq_inv_def seq_core_def arena_ok_def)

text \<open>What a store needs before a saved sequence is written into sequence \<open>d\<close>.\<close>

definition restorable :: "nat \<Rightarrow> llama_kv_tail_store \<Rightarrow> bool" where
  "restorable d u \<longleftrightarrow> store_inv u \<and> st_pending u = None \<and> st_batch u = None \<and> \<not> st_in_batch u \<and>
     d < length (st_seqs u)"

lemma tail_restore_entry:
  assumes u: "restorable d u" and q: "q = st_seqs u ! d" and st: "stride = st_arena_stride u"
    and loc: "loc < stride" and len: "length (ts_entries q) < st_history_limit u"
    and sl: "int (d * stride + loc) \<notin> set (ts_slots q)" and k: "id_key i \<notin> set (map ee_key (ts_entries q))"
    and a: "a = \<lparr>ee_identity = i, ee_position = p, ee_ordinal = n, ee_slot = int (d * stride + loc)\<rparr>"
  shows "\<exists>q'. tail_restore (int d) i p n loc u = Inr (ee_slot a, u\<lparr>st_seqs := (st_seqs u)[d := q']\<rparr>) \<and>
    restorable d (u\<lparr>st_seqs := (st_seqs u)[d := q']\<rparr>) \<and> ts_entries q' = insert_entry a (ts_entries q)"
proof -
  let ?q' = "q\<lparr>ts_entries := insert_entry a (ts_entries q),
    ts_index := insert (id_key i) (ts_index q), ts_used := (ts_used q)[loc := True]\<rparr>"
  have U: "store_inv u" "st_pending u = None" "st_batch u = None" "\<not> st_in_batch u" "d < length (st_seqs u)"
    using u by (simp_all add: restorable_def)
  have q0: "arena_fits stride d" "seq_inv stride d [] q"
    using store_inv_ready [OF U(1,2,5)] by (simp_all add: seq_ready_def q st)
  have ix: "ts_index q = set (map ee_key (ts_entries q))" using q0(2) by (simp add: seq_inv_def)
  have free: "\<not> ts_used q ! loc" by (rule seq_inv_slot_free [OF q0(2) loc sl])
  have r: "tail_restore (int d) i p n loc u = Inr (ee_slot a, u\<lparr>st_seqs := (st_seqs u)[d := ?q']\<rparr>)"
    using U loc len k free slot_at_eq [OF q0(1) loc] ix
    by (simp add: tail_restore_def valid_seq_def a q [symmetric] st [symmetric] Let_def)
  then have "store_inv (u\<lparr>st_seqs := (st_seqs u)[d := ?q']\<rparr>)" using tail_restore_ok [OF U(1)] by blast
  then show ?thesis using U r by (intro exI [of _ ?q']) (simp add: restorable_def)
qed

text \<open>The restore loop of the cache: each saved record goes to the same place of the arena, under the
  identity of the cell that now holds its body row.\<close>

definition restore_snapshot ::
    "(llama_kv_tail_identity \<Rightarrow> llama_kv_tail_identity) \<Rightarrow> nat \<Rightarrow> llama_kv_tail_snapshot_entry list \<Rightarrow>
     llama_kv_tail_store \<Rightarrow> llama_kv_tail_store res" where
  "restore_snapshot ren d = fold_r (\<lambda>r u.
     bind_r (tail_restore (int d) (ren (sn_identity r)) (sn_position r) (sn_ordinal r)
               (nat (sn_slot r) mod st_arena_stride u) u) (\<lambda>(_, u). Inr u))"

definition restored_entry ::
    "(llama_kv_tail_identity \<Rightarrow> llama_kv_tail_identity) \<Rightarrow> nat \<Rightarrow> nat \<Rightarrow>
     llama_kv_tail_snapshot_entry \<Rightarrow> exact_entry" where
  "restored_entry ren stride d r = \<lparr>ee_identity = ren (sn_identity r), ee_position = sn_position r,
     ee_ordinal = sn_ordinal r, ee_slot = int (d * stride + nat (sn_slot r) mod stride)\<rparr>"

lemma restore_snapshot_ok:
  assumes "restorable d u" and "stride = st_arena_stride u" and "0 < stride"
    and "es = map (restored_entry ren stride d) rs" and "ts_entries (st_seqs u ! d) = pre"
    and "length (pre @ es) \<le> st_history_limit u" and "sorted (map entry_key (pre @ es))"
    and "distinct (map ee_key (pre @ es))" and "distinct (map ee_slot (pre @ es))"
  shows "\<exists>u'. restore_snapshot ren d rs u = Inr u' \<and> restorable d u' \<and>
    ts_entries (st_seqs u' ! d) = pre @ es \<and> (\<forall>s < length (st_seqs u). s \<noteq> d \<longrightarrow> st_seqs u' ! s = st_seqs u ! s)"
  using assms
proof (induction rs arbitrary: u pre es)
  case Nil
  then show ?case by (simp add: restore_snapshot_def)
next
  case (Cons r rs)
  define a where "a = restored_entry ren stride d r"
  define es' where "es' = map (restored_entry ren stride d) rs"
  have es: "es = a # es'" using Cons.prems(4) by (simp add: a_def es'_def)
  let ?loc = "nat (sn_slot r) mod stride"
  have sl: "int (d * stride + ?loc) \<notin> set (ts_slots (st_seqs u ! d))"
    using Cons.prems(5,9) unfolding es by (simp add: a_def restored_entry_def)
  have k: "id_key (ren (sn_identity r)) \<notin> set (map ee_key (ts_entries (st_seqs u ! d)))"
    using Cons.prems(5,8) unfolding es by (simp add: a_def restored_entry_def)
  have loc: "?loc < stride" using Cons.prems(3) by simp
  have len: "length (ts_entries (st_seqs u ! d)) < st_history_limit u" using Cons.prems(5,6) unfolding es by simp
  obtain q' where q': "tail_restore (int d) (ren (sn_identity r)) (sn_position r) (sn_ordinal r) ?loc u =
        Inr (ee_slot a, u\<lparr>st_seqs := (st_seqs u)[d := q']\<rparr>)"
      "restorable d (u\<lparr>st_seqs := (st_seqs u)[d := q']\<rparr>)" "ts_entries q' = insert_entry a pre"
    using tail_restore_entry [OF Cons.prems(1) refl Cons.prems(2) loc len sl k, of a "sn_position r" "sn_ordinal r"]
      Cons.prems(5) by (auto simp: a_def restored_entry_def)
  let ?u = "u\<lparr>st_seqs := (st_seqs u)[d := q']\<rparr>"
  have "insert_entry a pre = pre @ [a]"
    using Cons.prems(7) unfolding es by (intro insert_entry_last) (simp add: sorted_append)
  then have "ts_entries (st_seqs ?u ! d) = pre @ [a]" using q'(3) Cons.prems(1) by (simp add: restorable_def)
  then obtain u' where "restore_snapshot ren d rs ?u = Inr u'" "restorable d u'"
      "ts_entries (st_seqs u' ! d) = (pre @ [a]) @ es'"
      "\<forall>s < length (st_seqs ?u). s \<noteq> d \<longrightarrow> st_seqs u' ! s = st_seqs ?u ! s"
    using Cons.IH [OF q'(2) _ Cons.prems(3) es'_def, of "pre @ [a]"] Cons.prems unfolding es by auto
  then show ?case using q'(1) Cons.prems(2) by (auto simp: restore_snapshot_def es)
qed

lemma seq_slot_local:
  assumes "seq_inv stride s A q" and "e \<in> set (ts_entries q)"
  shows "0 < stride \<and> ee_slot e = int (s * stride + nat (ee_slot e) mod stride)"
proof -
  have "set (ts_slots q @ A) \<subseteq> {int (s * stride)..<int (s * stride + stride)}"
    using assms(1) unfolding seq_inv_def seq_core_def arena_ok_def by blast
  then have "ee_slot e \<in> {int (s * stride)..<int (s * stride + stride)}" using assms(2) by auto
  then obtain j where j: "j < stride" "ee_slot e = int (s * stride + j)"
    by (auto intro: that [of "nat (ee_slot e - int (s * stride))"])
  then have "nat (ee_slot e) = s * stride + j" by (simp only: nat_int)
  then show ?thesis using j by simp
qed

text \<open>C36: A saved sequence can be restored. Writing the snapshot of a sequence into an empty sequence of
  any idle store of the same geometry completes, and the restored sequence holds the saved entries in
  the same order, with the same positions and ordinals, each at the same place of its arena, under the
  identities of the cells that now hold them; other sequences are not touched. Restored in place
  under the same identities, the sequence has the same snapshot again.\<close>

theorem snapshot_restored:
  assumes "tail_reachable t" and "st_pending t = None" and "s < length (st_seqs t)"
    and "tail_reachable u" and "st_pending u = None" and "st_batch u = None" and "\<not> st_in_batch u"
    and "d < length (st_seqs u)" and "ts_entries (st_seqs u ! d) = []"
    and "st_arena_stride u = st_arena_stride t" and "st_history_limit u = st_history_limit t"
    and "distinct (map (\<lambda>r. id_key (ren (sn_identity r))) (snapshot_seq t s))"
  shows "\<exists>u'. restore_snapshot ren d (snapshot_seq t s) u = Inr u' \<and> store_inv u' \<and>
    ts_entries (st_seqs u' ! d) = map (restored_entry ren (st_arena_stride t) d) (snapshot_seq t s) \<and>
    (\<forall>s' < length (st_seqs u). s' \<noteq> d \<longrightarrow> st_seqs u' ! s' = st_seqs u ! s') \<and>
    (d = s \<and> ren = (\<lambda>i. i) \<longrightarrow> map (snapshot_entry (int d)) (ts_entries (st_seqs u' ! d)) = snapshot_seq t s)"
proof (cases "snapshot_seq t s = []")
  case True
  then show ?thesis using assms(9) tail_reachable_inv [OF assms(4)] by (auto simp: restore_snapshot_def)
next
  case False
  let ?es = "ts_entries (st_seqs t ! s)" and ?st = "st_arena_stride t"
  define n where "n = (if length ?es > tail_limit t then length ?es - tail_limit t else 0)"
  have ss: "snapshot_seq t s = map (snapshot_entry (int s)) (drop n ?es)"
    using assms(2) by (simp add: snapshot_seq_def pending_for_def n_def Let_def)
  have t: "store_inv t" using assms(1) by (rule tail_reachable_inv)
  then have inv: "seq_inv ?st s [] (st_seqs t ! s)" using assms(2,3) by (simp add: store_inv_def seqs_ok_def)
  have st0: "0 < ?st" using False seq_slot_local [OF inv] unfolding ss by (cases ?es) auto
  have local: "ee_slot e = int (s * ?st + nat (ee_slot e) mod ?st)" if "e \<in> set (drop n ?es)" for e
    using seq_slot_local [OF inv in_set_dropD [OF that]] by blast
  have local2: "int (nat (ee_slot e) mod ?st) = ee_slot e - int s * int ?st" if "e \<in> set (drop n ?es)" for e
    using local [OF that] by simp
  let ?R = "map (restored_entry ren ?st d) (snapshot_seq t s)"
  have "restorable d u" using tail_reachable_inv [OF assms(4)] assms(5-8) by (simp add: restorable_def)
  moreover have "length ([] @ ?R) \<le> st_history_limit u"
    using tail_limit_config [of t] t assms(11) by (auto simp: ss n_def store_inv_def)
  moreover have "map entry_key ?R = drop n (map entry_key ?es)"
    by (simp add: ss restored_entry_def snapshot_entry_def entry_key_def drop_map)
  then have "sorted (map entry_key ([] @ ?R))"
    using inv by (simp add: seq_inv_def sorted_wrt_drop)
  moreover have "distinct (map ee_key ([] @ ?R))"
    using assms(12) by (simp add: restored_entry_def comp_def)
  moreover have "distinct (map ee_slot ([] @ ?R))"
  proof -
    have "map ee_slot ?R = map (\<lambda>e. int (d * ?st) + (ee_slot e - int (s * ?st))) (drop n ?es)"
      using local2 by (simp add: ss restored_entry_def snapshot_entry_def)
    moreover have "distinct (map ee_slot (drop n ?es))"
      using inv by (simp add: seq_inv_def seq_core_def distinct_drop flip: drop_map)
    ultimately show ?thesis by (auto simp: distinct_map inj_on_def)
  qed
  ultimately obtain u' where u': "restore_snapshot ren d (snapshot_seq t s) u = Inr u'" "restorable d u'"
      "ts_entries (st_seqs u' ! d) = ?R" "\<forall>s' < length (st_seqs u). s' \<noteq> d \<longrightarrow> st_seqs u' ! s' = st_seqs u ! s'"
    using restore_snapshot_ok [of d u ?st ?R ren "snapshot_seq t s" "[]"] st0 assms(9,10) by auto
  moreover have "map (snapshot_entry (int d)) ?R = snapshot_seq t s" if "d = s" "ren = (\<lambda>i. i)"
    using local that by (auto simp: ss restored_entry_def snapshot_entry_def)
  ultimately show ?thesis by (auto simp: restorable_def)
qed

theorem snapshot_restored_witness:
  "\<exists>u'. restore_snapshot (\<lambda>i. i\<lparr>id_cell := 2\<rparr>) 1 (snapshot_seq tail_example1 0) tail_example = Inr u' \<and>
     store_inv u' \<and> ts_entries (st_seqs u' ! 1) =
       [\<lparr>ee_identity = ident 2, ee_position = 7, ee_ordinal = 0, ee_slot = 3\<rparr>]"
proof -
  have snap: "snapshot_seq tail_example1 0 = [\<lparr>sn_seq_id = 0, sn_identity = ident 5, sn_position = 7,
      sn_ordinal = 0, sn_slot = 0\<rparr>]"
    by (simp add: snapshot_seq_def pending_for_def tail_example1_def tail_example_def snapshot_entry_def
        tail_limit_def)
  have e: "st_arena_stride tail_example1 = 3"
    "map (restored_entry (\<lambda>i. i\<lparr>id_cell := 2\<rparr>) 3 1) (snapshot_seq tail_example1 0) =
      [\<lparr>ee_identity = ident 2, ee_position = 7, ee_ordinal = 0, ee_slot = 3\<rparr>]"
    by (simp add: tail_example1_def tail_example_def) (simp add: snap restored_entry_def ident_def)
  have f: "st_pending tail_example1 = None" "0 < length (st_seqs tail_example1)" "st_pending tail_example = None"
      "st_batch tail_example = None" "\<not> st_in_batch tail_example" "1 < length (st_seqs tail_example)"
      "ts_entries (st_seqs tail_example ! 1) = []" "st_arena_stride tail_example = st_arena_stride tail_example1"
      "st_history_limit tail_example = st_history_limit tail_example1"
    by (simp_all add: tail_example1_def tail_example_def)
  show ?thesis
    using snapshot_restored [OF tail_example1_reachable f(1,2) tail_example_reachable f(3-9),
        of "\<lambda>i. i\<lparr>id_cell := 2\<rparr>"] unfolding e by (auto simp: snap)
qed

section \<open>Degradation flags in a saved state\<close>

lemma check_provenance_error: "check_provenance t saved seen = Inl x \<Longrightarrow> x = Runtime_error"
  by (auto simp: check_provenance_def split: if_splits)

lemma fold_r_refused:
  assumes "x \<in> set xs" and "\<And>s. f x s = Inl err" and "\<And>y s e. f y s = Inl e \<Longrightarrow> e = err"
  shows "fold_r f xs s = Inl err"
  using assms(1)
proof (induction xs arbitrary: s)
  case (Cons y ys)
  show ?case
  proof (cases "f y s")
    case (Inr s')
    then have "x \<in> set ys" using Cons.prems assms(2) by auto
    then show ?thesis using Cons.IH Inr by simp
  qed (use assms(3) in auto)
qed simp

lemma for_seqs_pending: "for_seqs f t = Inr t' \<Longrightarrow> st_pending t' = st_pending t"
proof -
  have "fold_r (\<lambda>s t. bind_r (f s (st_seqs t ! s)) (\<lambda>q. Inr (t\<lparr>st_seqs := (st_seqs t)[s := q]\<rparr>))) ss t = Inr t' \<Longrightarrow>
      st_pending t' = st_pending t" for ss
    by (induction ss arbitrary: t) auto
  then show "for_seqs f t = Inr t' \<Longrightarrow> st_pending t' = st_pending t" by (auto simp: for_seqs_def)
qed

lemma finish_batch_pending: "finish_batch ok m t = Inr t' \<Longrightarrow> st_pending t' = st_pending t"
  by (auto simp: finish_batch_def dest!: for_seqs_pending split: if_splits option.splits)

lemma payload_flag_unknown:
  "(f OR LLAMA_KV_TAIL_DEGRADED_PAYLOAD_INVALID) AND (UINT32_MAX XOR known_flags) \<noteq> (0::nat)"
proof
  assume "(f OR LLAMA_KV_TAIL_DEGRADED_PAYLOAD_INVALID) AND (UINT32_MAX XOR known_flags) = 0"
  then have "\<not> bit ((f OR LLAMA_KV_TAIL_DEGRADED_PAYLOAD_INVALID) AND (UINT32_MAX XOR known_flags)) 3"
    by simp
  moreover have "bit LLAMA_KV_TAIL_DEGRADED_PAYLOAD_INVALID 3"
    by (simp add: LLAMA_KV_TAIL_DEGRADED_PAYLOAD_INVALID_def bit_push_bit_iff bit_0)
  moreover have "bit (UINT32_MAX XOR known_flags) 3"
    by (simp add: known_flags_def LLAMA_KV_TAIL_DEGRADED_BODY_ONLY_STATE_def
        LLAMA_KV_TAIL_DEGRADED_HISTORICAL_OP_def LLAMA_KV_TAIL_DEGRADED_STATE_RESTORE_def)
  ultimately show False by (simp add: bit_and_iff bit_or_iff)
qed

text \<open>C37: Once a failed batch has left a sequence with invalid payload, a saved state of the store (of
  that sequence, or of all sequences) is refused by every store: \<open>restore_provenance\<close> throws,
  because the flag that \<open>finish_batch\<close> sets is not among the flags it knows.\<close>

theorem invalid_payload_state_refused:
  assumes "tail_reachable t" and "st_batch t = Some tx" and "s < length (st_seqs t)" and "bt_affected tx ! s"
    and "seq_id = int s \<or> seq_id = -1"
  shows "\<exists>t'. finish_batch False True t = Inr t' \<and>
    restore_provenance (snapshot_provenance t' seq_id) dest u = Inl Runtime_error"
proof -
  have t: "store_inv t" using assms(1) by (rule tail_reachable_inv)
  obtain t' where t': "finish_batch False True t = Inr t'" "store_inv t'"
      "length (st_seqs t') = length (st_seqs t)"
      "ts_degradation (st_seqs t' ! s) = (ts_degradation (bt_seqs tx ! s) OR LLAMA_KV_TAIL_DEGRADED_PAYLOAD_INVALID)"
    using finish_batch_failed [OF t assms(2), of True] assms(3,4) by auto
  have "st_pending t' = None"
    using finish_batch_pending [OF t'(1)] t assms(2) by (simp add: store_inv_def batch_ok_def)
  then have bad: "check_provenance u (provenance_of t' s) seen = Inl Runtime_error" for seen
    using payload_flag_unknown by (simp add: check_provenance_def provenance_of_def pending_for_def t'(4))
  have "provenance_of t' s \<in> set (snapshot_provenance t' seq_id)"
    using assms(3,5) t'(3) by (auto simp: snapshot_provenance_def valid_seq_def)
  then have "fold_r (check_provenance u) (snapshot_provenance t' seq_id) seen = Inl Runtime_error" for seen
    using bad check_provenance_error by (rule fold_r_refused)
  then show ?thesis using t'(1) by (simp add: restore_provenance_def)
qed

definition compact_example :: llama_kv_tail_store where
  "compact_example = \<lparr>st_n_tokens = 2, st_rollback_tokens = 1, st_history_limit = 3,
     st_arena_stride = 3, st_n_slots = 6, st_compact_storage = True,
     st_seqs = replicate 2 (tail_seq_empty 3), st_pending = None, st_batch = None, st_in_batch = False\<rparr>"

definition compact_batch_example :: llama_kv_tail_store where
  "compact_batch_example = compact_example\<lparr>st_in_batch := True, st_batch := Some
     \<lparr>bt_seqs = replicate 2 (tail_seq_empty 3), bt_current = replicate 2 [], bt_affected = replicate 2 False\<rparr>\<rparr>"

lemma compact_example_new: "tail_store_compact 2 1 2 3 0 = Inr compact_example"
  by (simp add: tail_store_compact_def checked_tail_history_limit_def checked_tail_slot_count_eq
      compact_example_def)

lemma compact_example_begin: "begin_batch compact_example = Inr compact_batch_example"
  by (simp add: begin_batch_def compact_example_def compact_batch_example_def for_seqs_def
      tail_limit_def trim_def upt_rec tail_seq_empty_def numeral_2_eq_2)

lemma compact_batch_commit:
  "\<exists>slot t tx. tail_commit 0 (ident 5) 7 0 0 compact_batch_example = Inr (slot, t) \<and> st_batch t = Some tx \<and>
     bt_affected tx ! 0 \<and> length (st_seqs t) = 2"
  by (simp add: tail_commit_def compact_example_def compact_batch_example_def valid_seq_def tail_seq_empty_def
      find_entry_def commit_insert_def obtain_slot_def acquire_def upt_rec tail_limit_def Let_def
      slot_at_def i32_of_u32_def insert_or_append_def count_recovery_def trim_def record_current_def
      retained_slot_def)

theorem invalid_payload_state_refused_witness:
  "\<exists>t t'. finish_batch False True t = Inr t' \<and> tail_reachable t \<and>
     restore_provenance (snapshot_provenance t' 0) 0 compact_example = Inl Runtime_error"
proof -
  obtain slot t tx where t: "tail_commit 0 (ident 5) 7 0 0 compact_batch_example = Inr (slot, t)"
      "st_batch t = Some tx" "bt_affected tx ! 0" "length (st_seqs t) = 2"
    using compact_batch_commit by blast
  have "tail_reachable compact_batch_example"
    by (rule tail_reachable.step [OF tail_reachable.compact [OF compact_example_new], of Begin_batch])
      (simp_all add: compact_example_begin, simp_all add: compact_example_def)
  then have "tail_reachable t"
    by (rule tail_reachable.step [where op = "Commit 0 (ident 5) 7 0 0"])
      (simp_all add: t(1), simp add: commit_pre_def compact_batch_example_def compact_example_def)
  then show ?thesis
    using invalid_payload_state_refused [of t tx 0 0 0 compact_example] t(2-4) by auto
qed

end
