(* ===== verification/Batch.thy ===== *)
theory Batch
  imports KvCells
begin

text \<open>
  The batch allocator, \<^verbatim>\<open>class llama_batch_allocr\<close> of \<^verbatim>\<open>src/llama-batch.cpp\<close>: it checks a
  user batch, fills in the fields the user left out, and cuts the batch into micro-batches. The
  caller's arrays are lists; an array that is absent is \<open>None\<close>. An \<^verbatim>\<open>f32\<close> is its bit pattern,
  because the code only copies it. A \<^verbatim>\<open>std::bitset<LLAMA_MAX_SEQ>\<close> is the set of its set bits, the
  hash map \<^verbatim>\<open>seq_set_map\<close> a function whose default is the empty vector that
  \<^verbatim>\<open>operator[]\<close> inserts. Debug output is not modelled.
\<close>

section \<open>Data\<close>

type_synonym f32 = "32 word"

record llama_batch =
  b_n_tokens :: int
  b_token :: "int list option"
  b_embd :: "f32 list option"
  b_pos :: "int list option"
  b_n_seq_id :: "int list option"
  b_seq_id :: "int list list option"
  b_logits :: "int list option"

text \<open>The allocator's own copy of the batch, in which every field but the two inputs is present.\<close>

record llama_batch_full =
  bf_n_tokens :: nat
  bf_token :: "int list option"
  bf_embd :: "f32 list option"
  bf_pos :: "int list"
  bf_n_seq_id :: "int list"
  bf_seq_id :: "int list list"
  bf_logits :: "int list"

record llama_ubatch =
  ub_equal_seqs :: bool
  ub_n_tokens :: nat
  ub_n_seq_tokens :: nat
  ub_n_seqs :: nat
  ub_n_seqs_unq :: nat
  ub_n_pos :: nat
  ub_token :: "int list option"
  ub_embd :: "f32 list option"
  ub_pos :: "int list"
  ub_n_seq_id :: "int list"
  ub_seq_id :: "int list list"
  ub_seq_id_unq :: "nat list"
  ub_seq_idx :: "int list"
  ub_output :: "int list"

record llama_batch_allocr =
  ba_batch :: llama_batch_full
  ba_n_pos_per_embd :: nat
  ba_n_embd :: nat
  ba_n_seq_max :: nat
  ba_n_outputs :: nat
  ba_seq_id_unq :: "nat list"
  ba_seq_idx :: "int list"
  ba_has_cpl :: bool
  ba_seq_pos :: "int set list"
  ba_seq_cpl :: "bool list list"
  ba_seq_set :: "nat set list"
  ba_seq_set_map :: "nat set \<Rightarrow> nat list"
  ba_out_ids :: "nat list"
  ba_n_used :: nat
  ba_used :: "bool list"

text \<open>The part of \<^verbatim>\<open>llama_memory_i\<close> the allocator asks: the first and last position of a sequence.\<close>

record llama_memory_i =
  mem_seq_pos_min :: "int \<Rightarrow> int res"
  mem_seq_pos_max :: "int \<Rightarrow> int res"

definition is_pos_2d :: "llama_ubatch \<Rightarrow> bool" where
  "is_pos_2d u = (ub_n_pos u \<ge> 3)"

definition ubatch_none :: llama_ubatch where
  "ubatch_none = \<lparr>ub_equal_seqs = False, ub_n_tokens = 0, ub_n_seq_tokens = 0, ub_n_seqs = 0,
     ub_n_seqs_unq = 0, ub_n_pos = 0, ub_token = None, ub_embd = None, ub_pos = [], ub_n_seq_id = [],
     ub_seq_id = [], ub_seq_id_unq = [], ub_seq_idx = [], ub_output = []\<rparr>"

definition batch_none :: llama_batch_full where
  "batch_none = \<lparr>bf_n_tokens = 0, bf_token = None, bf_embd = None, bf_pos = [], bf_n_seq_id = [],
     bf_seq_id = [], bf_logits = []\<rparr>"

text \<open>The sequence ids of token \<open>i\<close>: the first \<^verbatim>\<open>n_seq_id[i]\<close> entries of its row.\<close>

definition tok_seqs :: "llama_batch_full \<Rightarrow> nat \<Rightarrow> int list" where
  "tok_seqs b i = take (nat (bf_n_seq_id b ! i)) (bf_seq_id b ! i)"

section \<open>Construction and reset\<close>

definition batch_allocr :: "nat \<Rightarrow> llama_batch_allocr" where
  "batch_allocr n_pos_per_embd = \<lparr>ba_batch = batch_none, ba_n_pos_per_embd = n_pos_per_embd,
     ba_n_embd = 0, ba_n_seq_max = 0, ba_n_outputs = 0, ba_seq_id_unq = [],
     ba_seq_idx = replicate LLAMA_MAX_SEQ (-1), ba_has_cpl = False,
     ba_seq_pos = replicate LLAMA_MAX_SEQ {},
     ba_seq_cpl = replicate LLAMA_MAX_SEQ (replicate LLAMA_MAX_SEQ False),
     ba_seq_set = [], ba_seq_set_map = (\<lambda>_. []), ba_out_ids = [], ba_n_used = 0, ba_used = []\<rparr>"

definition allocr_clear :: "llama_batch_allocr \<Rightarrow> llama_batch_allocr" where
  "allocr_clear a = a\<lparr>ba_n_outputs := 0, ba_batch := batch_none, ba_seq_id_unq := [],
     ba_seq_pos := map (\<lambda>_. {}) (ba_seq_pos a),
     ba_seq_cpl := map (map (\<lambda>_. False)) (ba_seq_cpl a),
     ba_seq_set := [], ba_seq_set_map := (\<lambda>_. []),
     ba_seq_idx := map (\<lambda>_. -1) (ba_seq_idx a)\<rparr>"

definition get_n_tokens :: "llama_batch_allocr \<Rightarrow> nat" where
  "get_n_tokens a = bf_n_tokens (ba_batch a)"

definition get_n_used :: "llama_batch_allocr \<Rightarrow> nat" where
  "get_n_used a = ba_n_used a"

definition split_reset :: "llama_batch_allocr \<Rightarrow> llama_batch_allocr" where
  "split_reset a = a\<lparr>ba_out_ids := [], ba_n_used := 0, ba_used := replicate (get_n_tokens a) False\<rparr>"

definition set_min :: "int set \<Rightarrow> int" where
  "set_min P = (if P = {} then -1 else Min P)"

definition set_max :: "int set \<Rightarrow> int" where
  "set_max P = (if P = {} then -1 else Max P)"

definition allocr_seq_pos_min :: "llama_batch_allocr \<Rightarrow> nat \<Rightarrow> int" where
  "allocr_seq_pos_min a s = set_min (ba_seq_pos a ! s)"

definition allocr_seq_pos_max :: "llama_batch_allocr \<Rightarrow> nat \<Rightarrow> int" where
  "allocr_seq_pos_max a s = set_max (ba_seq_pos a ! s)"

section \<open>Input validation and missing fields\<close>

text \<open>The size contract of the caller's arrays. Outside it the code reads memory it was not given, which
  the model reports before anything else.\<close>

definition batch_shape :: "nat \<Rightarrow> nat \<Rightarrow> llama_batch \<Rightarrow> bool" where
  "batch_shape n_pos n_embd b \<longleftrightarrow> (let n = nat (b_n_tokens b) in
     (case b_token b of None \<Rightarrow> True | Some xs \<Rightarrow> n \<le> length xs) \<and>
     (case b_embd b of None \<Rightarrow> True | Some xs \<Rightarrow> n * n_embd \<le> length xs) \<and>
     (case b_pos b of None \<Rightarrow> True
      | Some xs \<Rightarrow> (if b_token b = None then n_pos * n else n) \<le> length xs \<and> n \<le> length xs) \<and>
     (case b_logits b of None \<Rightarrow> True | Some xs \<Rightarrow> n \<le> length xs) \<and>
     (case b_n_seq_id b of None \<Rightarrow> b_seq_id b = None | Some xs \<Rightarrow> n \<le> length xs) \<and>
     (case b_seq_id b of
        None \<Rightarrow> (case b_n_seq_id b of None \<Rightarrow> True | Some xs \<Rightarrow> list_all (\<lambda>k. k \<le> 1) (take n xs))
      | Some rows \<Rightarrow> n \<le> length rows \<and> list_all (\<lambda>r. r \<noteq> []) (take n rows) \<and>
          (case b_n_seq_id b of None \<Rightarrow> True
           | Some xs \<Rightarrow> list_all2 (\<lambda>k r. nat k \<le> length r) (take n xs) (take n rows))))"

definition tokens_valid :: "nat \<Rightarrow> llama_batch \<Rightarrow> bool" where
  "tokens_valid n_vocab b = (case b_token b of None \<Rightarrow> True
     | Some ts \<Rightarrow> list_all (\<lambda>t. 0 \<le> t \<and> t < int n_vocab) (take (nat (b_n_tokens b)) ts))"

definition seqs_valid :: "nat \<Rightarrow> llama_batch \<Rightarrow> bool" where
  "seqs_valid n_seq_max b = (case (b_seq_id b, b_n_seq_id b) of
       (Some rows, Some ks) \<Rightarrow>
         list_all (\<lambda>i. list_all (\<lambda>s. 0 \<le> s \<and> s < int n_seq_max) (take (nat (ks ! i)) (rows ! i)))
           [0..<nat (b_n_tokens b)]
     | _ \<Rightarrow> True)"

definition fill_n_seq_id :: "llama_batch \<Rightarrow> int list" where
  "fill_n_seq_id b = (case b_n_seq_id b of None \<Rightarrow> replicate (nat (b_n_tokens b)) 1 | Some xs \<Rightarrow> xs)"

definition fill_seq_id :: "llama_batch \<Rightarrow> int list list" where
  "fill_seq_id b = (case b_seq_id b of None \<Rightarrow> replicate (nat (b_n_tokens b)) [0] | Some rows \<Rightarrow> rows)"

text \<open>Positions: the first position of each sequence follows the memory's last one, and a token moves
  the counters of all its sequences. A counter that was never set is not readable.\<close>

definition first_positions :: "llama_memory_i option \<Rightarrow> nat \<Rightarrow> int list res" where
  "first_positions mem n_seq_max =
     map_r (\<lambda>s. case mem of None \<Rightarrow> Inr 0
                | Some m \<Rightarrow> bind_r (mem_seq_pos_max m (int s)) (\<lambda>p. Inr (p + 1))) [0..<n_seq_max]"

definition gen_pos_step ::
    "int list \<Rightarrow> int list list \<Rightarrow> nat \<Rightarrow> int list \<times> int list \<Rightarrow> (int list \<times> int list) res" where
  "gen_pos_step ks rows i = (\<lambda>(p0, pos).
     let s = hd (rows ! i)
     in if s < 0 \<or> nat s \<ge> length p0 then Inl Undefined
        else let p = p0 ! nat s
             in Inr (fold (\<lambda>s p0. p0[nat s := p + 1]) (take (nat (ks ! i)) (rows ! i)) p0, pos @ [p]))"

definition fill_pos :: "llama_memory_i option \<Rightarrow> nat \<Rightarrow> llama_batch \<Rightarrow> int list res" where
  "fill_pos mem n_seq_max b = (case b_pos b of Some xs \<Rightarrow> Inr xs
     | None \<Rightarrow> bind_r (first_positions mem n_seq_max) (\<lambda>p0.
         bind_r (fold_r (gen_pos_step (fill_n_seq_id b) (fill_seq_id b)) [0..<nat (b_n_tokens b)] (p0, []))
           (\<lambda>(_, pos). Inr pos)))"

definition fill_logits :: "bool \<Rightarrow> llama_batch \<Rightarrow> int list" where
  "fill_logits output_all b = (let n = nat (b_n_tokens b) in case b_logits b of
       None \<Rightarrow> if output_all then replicate n 1 else (replicate n 0)[n - 1 := 1]
     | Some l \<Rightarrow> if output_all \<and> list_ex (\<lambda>x. x = 0) (take n l) then replicate n 1 else l)"

section \<open>Statistics of the batch\<close>

definition count_outputs :: "llama_batch_full \<Rightarrow> nat" where
  "count_outputs b = count_if (\<lambda>x. x \<noteq> 0) (take (bf_n_tokens b) (bf_logits b))"

text \<open>The positions of each sequence and the coupled pairs: sequence \<open>s1\<close> is coupled to the first
  sequence \<open>s0\<close> of a token they share.\<close>

definition couple_seq ::
    "int \<Rightarrow> nat \<Rightarrow> nat \<times> int \<Rightarrow> int set list \<times> bool list list \<times> bool \<Rightarrow> int set list \<times> bool list list \<times> bool" where
  "couple_seq p s0 = (\<lambda>(s, s1) (seq_pos, seq_cpl, has_cpl).
     let seq_pos = seq_pos[nat s1 := insert p (seq_pos ! nat s1)]
     in if s > 0 then (seq_pos, seq_cpl[nat s1 := (seq_cpl ! nat s1)[s0 := True]], True)
        else (seq_pos, seq_cpl, has_cpl))"

definition couple_step ::
    "llama_batch_full \<Rightarrow> nat \<Rightarrow> int set list \<times> bool list list \<times> bool \<Rightarrow> int set list \<times> bool list list \<times> bool" where
  "couple_step b i =
     fold (couple_seq (bf_pos b ! i) (nat (hd (bf_seq_id b ! i)))) (enumerate 0 (tok_seqs b i))"

definition tok_seq_set :: "llama_batch_full \<Rightarrow> nat \<Rightarrow> nat set" where
  "tok_seq_set b i = set (map nat (tok_seqs b i))"

text \<open>Numbering the sequences that occur, in ascending order.\<close>

definition number_seqs :: "nat \<Rightarrow> nat set \<Rightarrow> int list \<Rightarrow> int list \<times> nat list" where
  "number_seqs n_seq_max unq seq_idx =
     fold (\<lambda>s (idx, ids). if s \<in> unq then (idx[s := int (length ids)], ids @ [s]) else (idx, ids))
       [0..<n_seq_max] (seq_idx, [])"

definition set_map_step :: "llama_batch_full \<Rightarrow> nat \<Rightarrow> (nat set \<Rightarrow> nat list) \<Rightarrow> nat set \<Rightarrow> nat list" where
  "set_map_step b i m = m(tok_seq_set b i := m (tok_seq_set b i) @ [i])"

definition batch_stats :: "llama_batch_full \<Rightarrow> nat \<Rightarrow> nat \<Rightarrow> llama_batch_allocr \<Rightarrow> llama_batch_allocr" where
  "batch_stats b n_embd n_seq_max a =
     (let idxs = [0..<bf_n_tokens b];
          (seq_pos, seq_cpl, has_cpl) = fold (couple_step b) idxs (ba_seq_pos a, ba_seq_cpl a, False);
          unq = \<Union> (set (map (tok_seq_set b) idxs));
          (seq_idx, ids) = number_seqs n_seq_max unq (ba_seq_idx a)
      in a\<lparr>ba_batch := b, ba_n_embd := n_embd, ba_n_seq_max := n_seq_max,
           ba_n_outputs := ba_n_outputs a + count_outputs b, ba_has_cpl := has_cpl,
           ba_seq_pos := seq_pos, ba_seq_cpl := seq_cpl,
           ba_seq_set := ba_seq_set a @ map (tok_seq_set b) idxs,
           ba_seq_set_map := fold (set_map_step b) idxs (ba_seq_set_map a),
           ba_seq_idx := seq_idx, ba_seq_id_unq := ba_seq_id_unq a @ ids\<rparr>)"

section \<open>Consistency checks\<close>

definition mem_last :: "llama_memory_i option \<Rightarrow> nat \<Rightarrow> int res" where
  "mem_last mem s = (case mem of None \<Rightarrow> Inr (-1) | Some m \<Rightarrow> mem_seq_pos_max m (int s))"

text \<open>With several positions per token a sequence may jump forward only; embeddings may repeat the
  memory's last position.\<close>

definition check_jump :: "llama_memory_i option \<Rightarrow> llama_batch_allocr \<Rightarrow> nat \<Rightarrow> bool res" where
  "check_jump mem a s =
     (if ba_seq_pos a ! s = {} then Inr True
      else bind_r (mem_last mem s) (\<lambda>p0. Inr (\<not>
        (if bf_token (ba_batch a) \<noteq> None then p0 \<ge> 0 \<and> p0 \<ge> allocr_seq_pos_min a s
         else p0 \<ge> 0 \<and> p0 > allocr_seq_pos_min a s))))"

definition check_consecutive :: "llama_memory_i option \<Rightarrow> llama_batch_allocr \<Rightarrow> nat \<Rightarrow> bool res" where
  "check_consecutive mem a s =
     (if ba_seq_pos a ! s = {} then Inr True
      else bind_r (mem_last mem s) (\<lambda>p0. Inr (
        \<not> (p0 \<ge> 0 \<and> allocr_seq_pos_min a s \<noteq> p0 + 1) \<and>
        \<not> allocr_seq_pos_max a s - allocr_seq_pos_min a s + 1 > int (card (ba_seq_pos a ! s)))))"

definition check_coupled :: "llama_memory_i option \<Rightarrow> llama_batch_allocr \<Rightarrow> nat \<Rightarrow> bool res" where
  "check_coupled mem a s0 = (case mem of None \<Rightarrow> Inr True | Some m \<Rightarrow>
     forall_r (\<lambda>s1. if \<not> ba_seq_cpl a ! s0 ! s1 then Inr True
       else bind_r (mem_seq_pos_min m (int s0)) (\<lambda>a0. bind_r (mem_seq_pos_min m (int s1)) (\<lambda>a1.
            bind_r (mem_seq_pos_max m (int s0)) (\<lambda>b0. bind_r (mem_seq_pos_max m (int s1)) (\<lambda>b1.
              Inr (a0 = a1 \<and> b0 = b1)))))) [0..<ba_n_seq_max a])"

text \<open>The sequence sets a sequence occurs in must overlap, and its positions must not decrease. \<open>None\<close>
  is the early return.\<close>

definition compat_seq ::
    "int \<Rightarrow> nat set \<Rightarrow> int \<Rightarrow> (nat set list \<times> int list) option \<Rightarrow> (nat set list \<times> int list) option" where
  "compat_seq p S s st = (case st of None \<Rightarrow> None | Some (cur_set, cur_pos) \<Rightarrow>
     let cs = cur_set ! nat s \<inter> S
     in if cs = {} then None
        else if p < cur_pos ! nat s then None
        else Some (cur_set[nat s := cs], cur_pos[nat s := p]))"

definition check_compat :: "llama_batch_allocr \<Rightarrow> bool" where
  "check_compat a = (let b = ba_batch a in
     fold (\<lambda>i. fold (compat_seq (bf_pos b ! i) (ba_seq_set a ! i)) (tok_seqs b i)) [0..<bf_n_tokens b]
       (Some (replicate (ba_n_seq_max a) {..<LLAMA_MAX_SEQ}, replicate (ba_n_seq_max a) (-1))) \<noteq> None)"

definition batch_consistent :: "llama_memory_i option \<Rightarrow> llama_batch_allocr \<Rightarrow> bool res" where
  "batch_consistent mem a =
     bind_r (forall_r (if ba_n_pos_per_embd a > 1 then check_jump mem a else check_consecutive mem a)
               [0..<ba_n_seq_max a]) (\<lambda>ok.
       if \<not> ok then Inr False
       else bind_r (forall_r (check_coupled mem a) [0..<ba_n_seq_max a]) (\<lambda>ok.
         Inr (ok \<and> check_compat a)))"

text \<open>\<open>None\<close> is \<^verbatim>\<open>return false\<close>: the batch is rejected and the object must be initialised again.\<close>

definition allocr_init ::
    "llama_batch \<Rightarrow> nat \<Rightarrow> llama_memory_i option \<Rightarrow> nat \<Rightarrow> nat \<Rightarrow> bool \<Rightarrow> llama_batch_allocr \<Rightarrow>
     llama_batch_allocr option res" where
  "allocr_init inp n_vocab mem n_embd n_seq_max output_all a0 =
     (let a = allocr_clear a0 in
      if \<not> batch_shape (ba_n_pos_per_embd a) n_embd inp then Inl Undefined
      else assert_r (b_n_tokens inp > 0)
        (if n_seq_max > LLAMA_MAX_SEQ then Inr None
         else if \<not> tokens_valid n_vocab inp then Inr None
         else if \<not> seqs_valid n_seq_max inp then Inr None
         else bind_r (fill_pos mem n_seq_max inp) (\<lambda>pos.
           let b = \<lparr>bf_n_tokens = nat (b_n_tokens inp), bf_token = b_token inp, bf_embd = b_embd inp,
                    bf_pos = pos, bf_n_seq_id = fill_n_seq_id inp, bf_seq_id = fill_seq_id inp,
                    bf_logits = fill_logits output_all inp\<rparr>;
               a = batch_stats b n_embd n_seq_max a
           in bind_r (batch_consistent mem a) (\<lambda>ok.
                Inr (if ok then Some (split_reset a) else None)))))"

section \<open>Building a micro-batch\<close>

text \<open>Reading positions past the end of the array is possible when the positions were generated for
  embeddings with several positions per token.\<close>

definition ubatch_add ::
    "nat list \<Rightarrow> nat \<Rightarrow> bool \<Rightarrow> llama_batch_allocr \<Rightarrow> (llama_ubatch \<times> llama_batch_allocr) res" where
  "ubatch_add idxs n_seqs equal_seqs a =
     (let b = ba_batch a; n = length idxs; n_pos = ba_n_pos_per_embd a;
          src_off = (\<lambda>j. if bf_token b \<noteq> None then 0 else j * bf_n_tokens b)
      in if n_seqs = 0 then Inl Undefined
         else assert_r (n mod n_seqs = 0)
           (if \<not> list_all (\<lambda>j. list_all (\<lambda>i. src_off j + i < length (bf_pos b)) idxs) [0..<n_pos]
            then Inl Undefined
            else
              let rows = map (tok_seqs b) idxs;
                  outputs = map (\<lambda>i. bf_logits b ! i) idxs;
                  (seq_idx, ids) = number_seqs (ba_n_seq_max a) (\<Union> (set (map (tok_seq_set b) idxs)))
                                     (replicate LLAMA_MAX_SEQ (-1))
              in Inr (\<lparr>ub_equal_seqs = equal_seqs, ub_n_tokens = n, ub_n_seq_tokens = n div n_seqs,
                   ub_n_seqs = n_seqs, ub_n_seqs_unq = length ids, ub_n_pos = n_pos,
                   ub_token = map_option (\<lambda>ts. map (\<lambda>i. ts ! i) idxs) (bf_token b),
                   ub_embd = map_option (\<lambda>es. concat (map (\<lambda>i. take (ba_n_embd a)
                       (drop (i * ba_n_embd a) es)) idxs)) (bf_embd b),
                   ub_pos = concat (map (\<lambda>j. map (\<lambda>i. bf_pos b ! (src_off j + i)) idxs) [0..<n_pos]),
                   ub_n_seq_id = map (\<lambda>i. bf_n_seq_id b ! i) idxs, ub_seq_id = rows,
                   ub_seq_id_unq = ids, ub_seq_idx = seq_idx, ub_output = outputs\<rparr>,
                 a\<lparr>ba_out_ids := ba_out_ids a @ filter (\<lambda>i. bf_logits b ! i \<noteq> 0) idxs\<rparr>)))"

definition ubatch_reserve :: "nat \<Rightarrow> nat \<Rightarrow> llama_batch_allocr \<Rightarrow> (llama_ubatch \<times> llama_batch_allocr) res" where
  "ubatch_reserve n_seq_tokens n_seqs a =
     (let n_tokens = u32 (n_seq_tokens * n_seqs);
          a = split_reset (allocr_clear a)
      in if n_seqs > LLAMA_MAX_SEQ then Inl Undefined
         else Inr (\<lparr>ub_equal_seqs = True, ub_n_tokens = n_tokens, ub_n_seq_tokens = n_seq_tokens,
           ub_n_seqs = n_seqs, ub_n_seqs_unq = n_seqs, ub_n_pos = ba_n_pos_per_embd a,
           ub_token = Some (replicate n_tokens 0), ub_embd = None,
           ub_pos = replicate (n_tokens * ba_n_pos_per_embd a) 0, ub_n_seq_id = replicate n_tokens 0,
           ub_seq_id = replicate n_tokens [], ub_seq_id_unq = [0..<n_seqs],
           ub_seq_idx = map int [0..<n_seqs] @ replicate (LLAMA_MAX_SEQ - n_seqs) (-1),
           ub_output = replicate n_tokens 0\<rparr>, a))"

section \<open>Splitting\<close>

definition take_tokens :: "nat list \<Rightarrow> llama_batch_allocr \<Rightarrow> llama_batch_allocr" where
  "take_tokens idxs a = a\<lparr>ba_used := fold (\<lambda>i u. u[i := True]) idxs (ba_used a),
     ba_n_used := u32 (ba_n_used a + length idxs)\<rparr>"

definition first_unused :: "llama_batch_allocr \<Rightarrow> nat" where
  "first_unused a = length (takeWhile (\<lambda>u. u) (ba_used a))"

text \<open>\<open>split_simple\<close>: a run of consecutive tokens.\<close>

function simple_loop :: "nat \<Rightarrow> nat \<Rightarrow> nat list \<Rightarrow> llama_batch_allocr \<Rightarrow> nat list \<times> llama_batch_allocr" where
  "simple_loop n_ubatch cur idxs a =
     (let idxs = idxs @ [cur]; a' = take_tokens [cur] a
      in if cur + 1 \<ge> length (ba_used a') then (idxs, a')
         else if length idxs \<ge> n_ubatch then (idxs, a')
         else simple_loop n_ubatch (cur + 1) idxs a')"
  by pat_completeness auto

termination
  by (relation "measure (\<lambda>(_, cur, _, a). length (ba_used a) - cur)") (auto simp: take_tokens_def)

definition split_simple :: "nat \<Rightarrow> llama_batch_allocr \<Rightarrow> (llama_ubatch \<times> llama_batch_allocr) res" where
  "split_simple n_ubatch a =
     (let cur = first_unused a
      in if cur \<ge> length (ba_used a) then Inr (ubatch_none, a)
         else let (idxs, a') = simple_loop n_ubatch cur [] a
              in ubatch_add idxs (length idxs) False a')"

text \<open>\<open>split_seq\<close>: the tokens whose sequence set is contained in that of the previous one.\<close>

definition next_subset :: "nat \<Rightarrow> nat set \<Rightarrow> llama_batch_allocr \<Rightarrow> nat option" where
  "next_subset cur S a =
     find (\<lambda>i. \<not> (ba_used a ! i \<or> S \<inter> ba_seq_set a ! i \<noteq> ba_seq_set a ! i)) [cur + 1..<get_n_tokens a]"

lemma next_subset_greater [termination_simp]: "next_subset cur S a = Some i \<Longrightarrow> cur < i \<and> i < get_n_tokens a"
  by (auto simp: next_subset_def find_Some_iff)

lemma get_n_tokens_take [simp]: "get_n_tokens (take_tokens idxs a) = get_n_tokens a"
  by (simp add: get_n_tokens_def take_tokens_def)

function seq_loop :: "nat \<Rightarrow> nat \<Rightarrow> nat set \<Rightarrow> nat list \<Rightarrow> llama_batch_allocr \<Rightarrow> nat list \<times> llama_batch_allocr" where
  "seq_loop n_ubatch cur S idxs a =
     (let idxs = idxs @ [cur]; a' = take_tokens [cur] a
      in if length idxs \<ge> n_ubatch then (idxs, a')
         else case next_subset cur S a' of None \<Rightarrow> (idxs, a')
              | Some i \<Rightarrow> seq_loop n_ubatch i (ba_seq_set a' ! i) idxs a')"
  by pat_completeness auto

termination
proof (relation "measure (\<lambda>(_, cur, _, _, a). get_n_tokens a - cur)", goal_cases)
  case (2 n_ubatch cur S idxs a x a' i)
  then show ?case using next_subset_greater [of cur S a' i] by auto
qed simp

definition split_seq :: "nat \<Rightarrow> llama_batch_allocr \<Rightarrow> (llama_ubatch \<times> llama_batch_allocr) res" where
  "split_seq n_ubatch a =
     (let cur = first_unused a
      in if cur \<ge> length (ba_used a) then Inr (ubatch_none, a)
         else let (idxs, a') = seq_loop n_ubatch cur (ba_seq_set a ! cur) [] a
              in ubatch_add idxs 1 True a')"

text \<open>\<open>split_equal\<close>: first the sequence sets that take part, in the order of their first unused token.\<close>

fun equal_sets ::
    "llama_batch_allocr \<Rightarrow> nat \<Rightarrow> bool \<Rightarrow> nat list \<Rightarrow> nat set list \<Rightarrow> int \<Rightarrow> nat set list" where
  "equal_sets a n_ubatch sequential [] sets last_id = sets"
| "equal_sets a n_ubatch sequential (i # is) sets last_id =
     (if ba_used a ! i then equal_sets a n_ubatch sequential is sets last_id
      else
        let s0 = hd (bf_seq_id (ba_batch a) ! i);
            add = (list_all (\<lambda>S. S \<inter> ba_seq_set a ! i = {}) sets \<and>
                   (\<not> sequential \<or> sets = [] \<or> s0 = last_id + 1))
        in if \<not> add then equal_sets a n_ubatch sequential is sets last_id
           else if length (sets @ [ba_seq_set a ! i]) > n_ubatch then sets @ [ba_seq_set a ! i]
           else equal_sets a n_ubatch sequential is (sets @ [ba_seq_set a ! i]) s0)"

definition first_unused_in :: "llama_batch_allocr \<Rightarrow> nat list \<Rightarrow> nat res" where
  "first_unused_in a l = (case find (\<lambda>j. \<not> ba_used a ! (l ! j)) [0..<length l] of
     None \<Rightarrow> Inl Undefined | Some j \<Rightarrow> Inr j)"

text \<open>Then one token of every set per round, while every set has one left and the next round fits.\<close>

function equal_rounds ::
    "nat \<Rightarrow> nat list list \<Rightarrow> nat list \<Rightarrow> nat list list \<Rightarrow> llama_batch_allocr \<Rightarrow>
     nat list \<times> nat list list \<times> llama_batch_allocr" where
  "equal_rounds n_ubatch ls cur idxs a =
     (if ls = [] \<or> cur = [] \<or> list_ex (\<lambda>(l, c). c \<ge> length l) (zip ls cur) then (cur, idxs, a)
      else
        let now = map2 (\<lambda>l c. l ! c) ls cur;
            idxs = map2 (\<lambda>is i. is @ [i]) idxs now;
            a = take_tokens now a;
            cur = map Suc cur
        in if (length (idxs ! 0) + 1) * length ls > n_ubatch then (cur, idxs, a)
           else equal_rounds n_ubatch ls cur idxs a)"
  by pat_completeness auto

termination
proof (relation "measure (\<lambda>(_, ls, cur, _, _). length (hd ls) - hd cur)", goal_cases)
  case (2 n_ubatch ls cur idxs a now idxs' a' cur')
  then show ?case by (cases ls; cases cur) auto
qed simp

definition give_back :: "nat list \<Rightarrow> llama_batch_allocr \<Rightarrow> llama_batch_allocr" where
  "give_back idxs a = a\<lparr>ba_used := fold (\<lambda>i u. u[i := False]) idxs (ba_used a),
     ba_n_used := ba_n_used a - length idxs\<rparr>"

text \<open>Shortening the only sequence until enough of its tokens remain.\<close>

function truncate_loop :: "nat \<Rightarrow> nat \<Rightarrow> nat list \<Rightarrow> llama_batch_allocr \<Rightarrow> (nat list \<times> llama_batch_allocr) res" where
  "truncate_loop keep remaining idxs a =
     (if remaining \<ge> keep then Inr (idxs, a)
      else if idxs = [] then Inl Undefined
      else truncate_loop keep (remaining + 1) (butlast idxs) (give_back [last idxs] a))"
  by pat_completeness auto

termination
  by (relation "measure (\<lambda>(keep, remaining, _, _). keep - remaining)") auto

text \<open>The last \<open>keep\<close> tokens of a sequence stay together: the longest prefix of the sets that end here or
  leave enough for later is kept; when there is none, the first set is completed or shortened.\<close>

definition keep_tail ::
    "nat \<Rightarrow> nat \<Rightarrow> nat list list \<Rightarrow> nat list \<Rightarrow> nat list list \<Rightarrow> llama_batch_allocr \<Rightarrow>
     (nat list list \<times> llama_batch_allocr) res" where
  "keep_tail n_ubatch keep ls cur idxs a =
     (let remaining = (\<lambda>s. length (ls ! s) - cur ! s);
          n_keep = length (takeWhile (\<lambda>s. \<not> (remaining s \<noteq> 0 \<and> remaining s < keep)) [0..<length ls])
      in if n_keep > 0
         then Inr (take n_keep idxs, give_back (concat (drop n_keep idxs)) a)
         else bind_r
           (if length (idxs ! 0) + remaining 0 \<le> n_ubatch
            then Inr (idxs ! 0 @ drop (cur ! 0) (ls ! 0), take_tokens (drop (cur ! 0) (ls ! 0)) a)
            else truncate_loop keep (remaining 0) (idxs ! 0) a)
           (\<lambda>(idxs0, a). Inr ([idxs0], give_back (concat (drop 1 idxs)) a)))"

definition split_equal ::
    "nat \<Rightarrow> bool \<Rightarrow> nat \<Rightarrow> llama_batch_allocr \<Rightarrow> (llama_ubatch \<times> llama_batch_allocr) res" where
  "split_equal n_ubatch sequential n_keep_tail a =
     (if sequential \<and> ba_has_cpl a then Inr (ubatch_none, a)
      else
        let sets = equal_sets a n_ubatch sequential [0..<get_n_tokens a] [] (-1);
            ls = map (ba_seq_set_map a) sets
        in if sets = [] then Inr (ubatch_none, a)
           else bind_r (map_r (first_unused_in a) ls) (\<lambda>cur.
             let (cur, idxs, a) = equal_rounds n_ubatch ls cur (replicate (length sets) []) a
             in bind_r (if n_keep_tail > 0
                        then assert_r (n_ubatch > n_keep_tail) (keep_tail n_ubatch n_keep_tail ls cur idxs a)
                        else Inr (idxs, a))
                  (\<lambda>(idxs, a). ubatch_add (concat idxs) (length idxs) True a)))"

text \<open>The loop of the memory modules that cuts a batch until nothing is left. The first argument bounds
  the number of micro-batches.\<close>

fun split_all ::
    "nat \<Rightarrow> (llama_batch_allocr \<Rightarrow> (llama_ubatch \<times> llama_batch_allocr) res) \<Rightarrow> llama_batch_allocr \<Rightarrow>
     (llama_ubatch list \<times> llama_batch_allocr) option res" where
  "split_all 0 split a = Inr None"
| "split_all (Suc n) split a =
     bind_r (split a) (\<lambda>(u, a).
       if ub_n_tokens u = 0 then Inr (Some ([], a))
       else bind_r (split_all n split a) (\<lambda>r.
         Inr (map_option (\<lambda>(us, a). (u # us, a)) r)))"

definition llama_batch_get_one :: "int list \<Rightarrow> int \<Rightarrow> llama_batch" where
  "llama_batch_get_one tokens n_tokens = \<lparr>b_n_tokens = n_tokens, b_token = Some tokens, b_embd = None,
     b_pos = None, b_n_seq_id = None, b_seq_id = None, b_logits = None\<rparr>"

declare simple_loop.simps [simp del, loop_simps] seq_loop.simps [simp del, loop_simps]
declare equal_rounds.simps [simp del, loop_simps] truncate_loop.simps [simp del, loop_simps]

end
