(* ===== verification/BatchSplit.thy ===== *)
theory BatchSplit
  imports Batch
begin

text \<open>
  The splits of the batch allocator. The locale \<open>splitter\<close> is the contract the memory modules rely on,
  with the partition of the batch proved once; it is interpreted on the three splits. The last
  section shows that a successful initialisation establishes what the splits need.
\<close>

section \<open>What a splitter does\<close>

text \<open>A micro-batch made of the tokens \<open>idxs\<close>.\<close>

definition marked :: "nat list \<Rightarrow> bool list \<Rightarrow> bool list" where
  "marked idxs used = fold (\<lambda>i u. u[i := True]) idxs used"

lemma length_marked [simp]: "length (marked idxs used) = length used"
  by (induction idxs arbitrary: used) (auto simp: marked_def)

lemma marked_append: "marked (xs @ ys) used = marked ys (marked xs used)"
  by (simp add: marked_def)

lemma nth_marked:
  "i < length used \<Longrightarrow> marked idxs used ! i \<longleftrightarrow> i \<in> set idxs \<or> used ! i"
proof (induction idxs arbitrary: used)
  case (Cons x xs)
  have "marked (x # xs) used = marked xs (used[x := True])" by (simp add: marked_def)
  then show ?case using Cons.IH [of "used[x := True]"] Cons.prems
    by (cases "x = i") auto
qed (simp add: marked_def)

lemma count_marked:
  assumes "distinct idxs" and "\<And>i. i \<in> set idxs \<Longrightarrow> i < length used \<and> \<not> used ! i"
  shows "count_if (\<lambda>u. u) (marked idxs used) = count_if (\<lambda>u. u) used + length idxs"
  using assms
proof (induction idxs arbitrary: used)
  case (Cons x xs)
  have "marked (x # xs) used = marked xs (used[x := True])" by (simp add: marked_def)
  moreover have "i < length (used[x := True]) \<and> \<not> used[x := True] ! i" if "i \<in> set xs" for i
    using Cons.prems that by (cases "i = x") auto
  moreover have "count_if (\<lambda>u. u) (used[x := True]) = Suc (count_if (\<lambda>u. u) used)"
    using count_if_update [of x used "\<lambda>u. u" True] Cons.prems(2) [of x] by simp
  ultimately show ?case using Cons.IH [of "used[x := True]"] Cons.prems(1) by simp
qed (simp add: marked_def)

lemma take_tokens_marked:
  "take_tokens idxs a = a\<lparr>ba_used := marked idxs (ba_used a), ba_n_used := u32 (ba_n_used a + length idxs)\<rparr>"
  by (simp add: take_tokens_def marked_def)

definition pos_readable :: "llama_batch_allocr \<Rightarrow> bool" where
  "pos_readable a \<longleftrightarrow> (let b = ba_batch a in \<forall>j < ba_n_pos_per_embd a. \<forall>i < bf_n_tokens b.
     (if bf_token b \<noteq> None then 0 else j * bf_n_tokens b) + i < length (bf_pos b))"

definition unused_tokens :: "llama_batch_allocr \<Rightarrow> nat set" where
  "unused_tokens a = {i. i < get_n_tokens a \<and> \<not> ba_used a ! i}"

text \<open>An allocator between two splits: the counters agree with the used flags, and the map from sequence
  sets to tokens lists the tokens of each set in ascending order.\<close>

definition allocr_ok :: "llama_batch_allocr \<Rightarrow> bool" where
  "allocr_ok a \<longleftrightarrow> get_n_tokens a \<le> INT32_MAX \<and> length (ba_used a) = get_n_tokens a \<and>
     length (ba_seq_set a) = get_n_tokens a \<and> ba_n_used a = count_if (\<lambda>u. u) (ba_used a) \<and> pos_readable a \<and>
     (\<forall>S. ba_seq_set_map a S = filter (\<lambda>i. ba_seq_set a ! i = S) [0..<get_n_tokens a])"

definition picked :: "nat list \<Rightarrow> llama_batch_allocr \<Rightarrow> llama_batch_allocr \<Rightarrow> bool" where
  "picked idxs a a' \<longleftrightarrow> idxs \<noteq> [] \<and> distinct idxs \<and> set idxs \<subseteq> unused_tokens a \<and>
     a' = a\<lparr>ba_used := marked idxs (ba_used a), ba_n_used := ba_n_used a + length idxs,
            ba_out_ids := ba_out_ids a @ filter (\<lambda>i. bf_logits (ba_batch a) ! i \<noteq> 0) idxs\<rparr>"

definition carries :: "llama_batch_full \<Rightarrow> nat \<Rightarrow> nat \<Rightarrow> llama_ubatch \<Rightarrow> nat list \<Rightarrow> bool" where
  "carries b n_pos n_seq_max u idxs \<longleftrightarrow> ub_n_tokens u = length idxs \<and> ub_n_pos u = n_pos \<and>
     ub_n_seq_tokens u * ub_n_seqs u = length idxs \<and>
     ub_token u = map_option (\<lambda>ts. map (\<lambda>i. ts ! i) idxs) (bf_token b) \<and>
     ub_pos u = concat (map (\<lambda>j. map (\<lambda>i. bf_pos b ! ((if bf_token b \<noteq> None then 0 else j * bf_n_tokens b) + i)) idxs) [0..<n_pos]) \<and>
     ub_seq_id u = map (tok_seqs b) idxs \<and> ub_n_seq_id u = map (\<lambda>i. bf_n_seq_id b ! i) idxs \<and>
     ub_seq_id_unq u = snd (number_seqs n_seq_max (\<Union> (set (map (tok_seq_set b) idxs))) (replicate LLAMA_MAX_SEQ (-1))) \<and>
     ub_output u = map (\<lambda>i. bf_logits b ! i) idxs"

lemma count_used_le: "count_if (\<lambda>u. u) used \<le> length used"
  by (simp add: count_if_def)

lemma card_unused:
  assumes "allocr_ok a"
  shows "finite (unused_tokens a)" and "card (unused_tokens a) + ba_n_used a = get_n_tokens a"
proof -
  have n: "length (ba_used a) = get_n_tokens a" using assms by (simp add: allocr_ok_def)
  have "length (filter (\<lambda>u. \<not> u) (ba_used a)) = card (unused_tokens a)"
    unfolding length_filter_conv_card unused_tokens_def n by simp
  moreover have "length (filter (\<lambda>u. u) (ba_used a)) + length (filter (\<lambda>u. \<not> u) (ba_used a)) = length (ba_used a)"
    by (rule sum_length_filter_compl)
  ultimately show "card (unused_tokens a) + ba_n_used a = get_n_tokens a"
    using assms by (simp add: allocr_ok_def count_if_def)
  show "finite (unused_tokens a)" by (simp add: unused_tokens_def)
qed

lemma picked_ok:
  assumes a: "allocr_ok a" and p: "picked idxs a a'"
  shows "allocr_ok a'" and "unused_tokens a' = unused_tokens a - set idxs"
    and "ba_batch a' = ba_batch a" and "ba_n_pos_per_embd a' = ba_n_pos_per_embd a"
    and "get_n_tokens a' = get_n_tokens a" and "card (unused_tokens a') < card (unused_tokens a)"
proof -
  have P: "idxs \<noteq> []" "distinct idxs" "set idxs \<subseteq> unused_tokens a"
      "a' = a\<lparr>ba_used := marked idxs (ba_used a), ba_n_used := ba_n_used a + length idxs,
            ba_out_ids := ba_out_ids a @ filter (\<lambda>i. bf_logits (ba_batch a) ! i \<noteq> 0) idxs\<rparr>"
    using p by (simp_all add: picked_def)
  have A: "length (ba_used a) = get_n_tokens a" "ba_n_used a = count_if (\<lambda>u. u) (ba_used a)"
    using a by (simp_all add: allocr_ok_def)
  have un: "\<And>i. i \<in> set idxs \<Longrightarrow> i < length (ba_used a) \<and> \<not> ba_used a ! i"
    using P(3) A(1) by (auto simp: unused_tokens_def)
  show g: "get_n_tokens a' = get_n_tokens a" "ba_batch a' = ba_batch a" "ba_n_pos_per_embd a' = ba_n_pos_per_embd a"
    by (simp_all add: P(4) get_n_tokens_def)
  show u: "unused_tokens a' = unused_tokens a - set idxs"
    using A(1) by (auto simp: unused_tokens_def g(1)) (auto simp: P(4) nth_marked)
  show "allocr_ok a'"
    using a count_marked [OF P(2) un]
    by (simp add: allocr_ok_def g(1)) (simp add: P(4) pos_readable_def)
  obtain i where "i \<in> set idxs" using P(1) by (meson last_in_set)
  then have "unused_tokens a' \<subset> unused_tokens a" using P(3) unfolding u by blast
  then show "card (unused_tokens a') < card (unused_tokens a)"
    by (intro psubset_card_mono card_unused(1) [OF a])
qed

lemma ubatch_add_ok:
  assumes a: "pos_readable a" and idxs: "set idxs \<subseteq> {..<get_n_tokens a}" and n: "0 < n_seqs" "n_seqs dvd length idxs"
  shows "\<exists>u. ubatch_add idxs n_seqs eq a =
      Inr (u, a\<lparr>ba_out_ids := ba_out_ids a @ filter (\<lambda>i. bf_logits (ba_batch a) ! i \<noteq> 0) idxs\<rparr>) \<and>
    carries (ba_batch a) (ba_n_pos_per_embd a) (ba_n_seq_max a) u idxs \<and> ub_n_seqs u = n_seqs \<and> ub_equal_seqs u = eq"
proof -
  have lt: "i < bf_n_tokens (ba_batch a)" if "i \<in> set idxs" for i
    using idxs that by (auto simp: get_n_tokens_def)
  have "list_all (\<lambda>j. list_all (\<lambda>i. (if bf_token (ba_batch a) \<noteq> None then 0 else j * bf_n_tokens (ba_batch a)) + i
      < length (bf_pos (ba_batch a))) idxs) [0..<ba_n_pos_per_embd a]"
    using a lt by (simp add: pos_readable_def list_all_iff Let_def)
  then show ?thesis
    using n by (cases "number_seqs (ba_n_seq_max a) (\<Union> (set (map (tok_seq_set (ba_batch a)) idxs)))
        (replicate LLAMA_MAX_SEQ (-1))")
      (auto simp: ubatch_add_def Let_def carries_def)
qed

section \<open>The contract of a splitter\<close>

text \<open>What the memory modules rely on when they cut a batch with one of the three splits: as long as a
  token is unused the split takes a non-empty list of unused tokens and returns a micro-batch that
  carries exactly their data; when none is left it returns the empty micro-batch.\<close>

locale splitter =
  fixes split :: "llama_batch_allocr \<Rightarrow> (llama_ubatch \<times> llama_batch_allocr) res"
    and inv :: "llama_batch_allocr \<Rightarrow> bool"
  assumes inv_ok: "inv a \<Longrightarrow> allocr_ok a"
    and finished: "inv a \<Longrightarrow> unused_tokens a = {} \<Longrightarrow> split a = Inr (ubatch_none, a)"
    and progress: "inv a \<Longrightarrow> unused_tokens a \<noteq> {} \<Longrightarrow>
      \<exists>idxs u a'. split a = Inr (u, a') \<and> picked idxs a a' \<and>
        carries (ba_batch a) (ba_n_pos_per_embd a) (ba_n_seq_max a) u idxs \<and> inv a'"
begin

lemma split_all_partition:
  assumes "inv a" and "card (unused_tokens a) < fuel"
  shows "\<exists>us parts a'. split_all fuel split a = Inr (Some (us, a')) \<and> inv a' \<and>
    list_all2 (carries (ba_batch a) (ba_n_pos_per_embd a) (ba_n_seq_max a)) us parts \<and>
    (\<forall>p \<in> set parts. p \<noteq> []) \<and> distinct (concat parts) \<and> set (concat parts) = unused_tokens a \<and>
    ba_batch a' = ba_batch a \<and> unused_tokens a' = {} \<and>
    ba_out_ids a' = ba_out_ids a @ filter (\<lambda>i. bf_logits (ba_batch a) ! i \<noteq> 0) (concat parts)"
  using assms
proof (induction fuel arbitrary: a)
  case (Suc fuel)
  show ?case
  proof (cases "unused_tokens a = {}")
    case True
    then show ?thesis using finished [OF Suc.prems(1)] Suc.prems(1)
      by (intro exI [of _ "[]"] exI [of _ a]) (simp add: ubatch_none_def)
  next
    case False
    obtain idxs u a1 where s: "split a = Inr (u, a1)" "picked idxs a a1"
        "carries (ba_batch a) (ba_n_pos_per_embd a) (ba_n_seq_max a) u idxs" "inv a1"
      using progress [OF Suc.prems(1) False] by blast
    note p = picked_ok [OF inv_ok [OF Suc.prems(1)] s(2)]
    have m: "ba_n_seq_max a1 = ba_n_seq_max a" using s(2) by (auto simp: picked_def)
    have "card (unused_tokens a1) < fuel" using p(6) Suc.prems(2) by simp
    then obtain us parts a' where r: "split_all fuel split a1 = Inr (Some (us, a'))" "inv a'"
        "list_all2 (carries (ba_batch a) (ba_n_pos_per_embd a) (ba_n_seq_max a)) us parts" "\<forall>p \<in> set parts. p \<noteq> []"
        "distinct (concat parts)" "set (concat parts) = unused_tokens a1" "ba_batch a' = ba_batch a"
        "unused_tokens a' = {}"
        "ba_out_ids a' = ba_out_ids a1 @ filter (\<lambda>i. bf_logits (ba_batch a) ! i \<noteq> 0) (concat parts)"
      using Suc.IH [OF s(4)] unfolding p(3,4) m by blast
    have i: "idxs \<noteq> []" "distinct idxs" "set idxs \<subseteq> unused_tokens a"
        "ba_out_ids a1 = ba_out_ids a @ filter (\<lambda>i. bf_logits (ba_batch a) ! i \<noteq> 0) idxs"
      using s(2) by (auto simp: picked_def)
    have "ub_n_tokens u \<noteq> 0" using s(3) i(1) by (simp add: carries_def)
    then have "split_all (Suc fuel) split a = Inr (Some (u # us, a'))" using s(1) r(1) by simp
    moreover have "distinct (concat (idxs # parts))" "set (concat (idxs # parts)) = unused_tokens a"
      using i(2,3) r(5,6) p(2) by auto
    moreover have "ba_out_ids a' = ba_out_ids a @ filter (\<lambda>i. bf_logits (ba_batch a) ! i \<noteq> 0) (concat (idxs # parts))"
      using i(4) r(9) by simp
    moreover have "list_all2 (carries (ba_batch a) (ba_n_pos_per_embd a) (ba_n_seq_max a)) (u # us) (idxs # parts)"
      using s(3) r(3) by simp
    moreover have "\<forall>p \<in> set (idxs # parts). p \<noteq> []" using i(1) r(4) by simp
    ultimately show ?thesis using r(2,7,8) by blast
  qed
qed simp

end

section \<open>The simple split\<close>

definition simple_inv :: "llama_batch_allocr \<Rightarrow> bool" where
  "simple_inv a \<longleftrightarrow> allocr_ok a \<and> (\<exists>k \<le> get_n_tokens a. \<forall>i < get_n_tokens a. ba_used a ! i \<longleftrightarrow> i < k)"

lemma marked_Cons_upt: "marked (i # [Suc i..<j]) used = marked [Suc i..<j] (used[i := True])"
  by (simp add: marked_def)

lemma simple_loop_eq:
  assumes "cur < length (ba_used a)" and "ba_n_used a + (length (ba_used a) - cur) \<le> UINT32_MAX"
  shows "\<exists>j. cur < j \<and> j \<le> length (ba_used a) \<and> (j = length (ba_used a) \<or> length idxs + (j - cur) \<ge> n_ubatch) \<and>
    (length idxs + (j - cur) \<le> max n_ubatch (length idxs + 1)) \<and>
    simple_loop n_ubatch cur idxs a = (idxs @ [cur..<j],
      a\<lparr>ba_used := marked [cur..<j] (ba_used a), ba_n_used := ba_n_used a + (j - cur)\<rparr>)"
  using assms
proof (induction n_ubatch cur idxs a rule: simple_loop.induct)
  case (1 n_ubatch cur idxs a)
  let ?a = "take_tokens [cur] a"
  have a': "?a = a\<lparr>ba_used := (ba_used a)[cur := True], ba_n_used := Suc (ba_n_used a)\<rparr>"
    using "1.prems" by (simp add: take_tokens_def)
  show ?case
  proof (cases "cur + 1 \<ge> length (ba_used a) \<or> length idxs + 1 \<ge> n_ubatch")
    case True
    then show ?thesis using "1.prems"
      by (intro exI [of _ "Suc cur"]) (auto simp: simple_loop.simps [of n_ubatch cur] Let_def a' marked_def)
  next
    case False
    have g: "\<not> cur + 1 \<ge> length (ba_used ?a)" "\<not> length (idxs @ [cur]) \<ge> n_ubatch" "cur + 1 < length (ba_used ?a)"
        "ba_n_used ?a + (length (ba_used ?a) - (cur + 1)) \<le> UINT32_MAX"
      using False "1.prems" by (simp_all add: a')
    obtain j where j: "cur + 1 < j" "j \<le> length (ba_used ?a)"
        "j = length (ba_used ?a) \<or> length (idxs @ [cur]) + (j - (cur + 1)) \<ge> n_ubatch"
        "length (idxs @ [cur]) + (j - (cur + 1)) \<le> max n_ubatch (length (idxs @ [cur]) + 1)"
        "simple_loop n_ubatch (cur + 1) (idxs @ [cur]) ?a = ((idxs @ [cur]) @ [cur + 1..<j],
          ?a\<lparr>ba_used := marked [cur + 1..<j] (ba_used ?a), ba_n_used := ba_n_used ?a + (j - (cur + 1))\<rparr>)"
      using "1.IH" [OF refl refl g] by blast
    have "[cur..<j] = cur # [Suc cur..<j]" using j(1) by (simp add: upt_conv_Cons)
    then have "simple_loop n_ubatch cur idxs a = (idxs @ [cur..<j],
        a\<lparr>ba_used := marked [cur..<j] (ba_used a), ba_n_used := ba_n_used a + (j - cur)\<rparr>)"
      using False j(1,5) by (simp add: simple_loop.simps [of n_ubatch cur] Let_def a' marked_Cons_upt)
    then show ?thesis using j(1-4) False by (intro exI [of _ j]) (auto simp: a')
  qed
qed

lemma first_unused_eq:
  assumes "allocr_ok a"
  shows "first_unused a \<ge> length (ba_used a) \<longleftrightarrow> unused_tokens a = {}"
    and "first_unused a < length (ba_used a) \<Longrightarrow> first_unused a \<in> unused_tokens a"
proof -
  have n: "length (ba_used a) = get_n_tokens a" using assms by (simp add: allocr_ok_def)
  show u: "first_unused a < length (ba_used a) \<Longrightarrow> first_unused a \<in> unused_tokens a"
    using nth_length_takeWhile [of "\<lambda>u. u" "ba_used a"] n
    by (simp add: first_unused_def unused_tokens_def)
  have "ba_used a ! i" if "first_unused a \<ge> length (ba_used a)" "i < length (ba_used a)" for i
  proof -
    have "takeWhile (\<lambda>u. u) (ba_used a) = ba_used a"
      using that(1) length_takeWhile_le [of "\<lambda>u. u" "ba_used a"]
      by (metis first_unused_def le_antisym takeWhile_eq_take take_all)
    then show ?thesis using that(2) by (metis nth_mem set_takeWhileD)
  qed
  then have "unused_tokens a = {}" if "first_unused a \<ge> length (ba_used a)"
    using that n by (auto simp: unused_tokens_def)
  then show "first_unused a \<ge> length (ba_used a) \<longleftrightarrow> unused_tokens a = {}" using u by fastforce
qed

lemma split_simple_progress:
  assumes a: "simple_inv a" and u: "unused_tokens a \<noteq> {}"
  shows "\<exists>idxs u a'. split_simple n_ubatch a = Inr (u, a') \<and> picked idxs a a' \<and>
    carries (ba_batch a) (ba_n_pos_per_embd a) (ba_n_seq_max a) u idxs \<and> simple_inv a' \<and> length idxs \<le> max n_ubatch 1 \<and>
    (unused_tokens a' = {} \<or> length idxs \<ge> n_ubatch)"
proof -
  obtain k where k: "k \<le> get_n_tokens a" "\<And>i. i < get_n_tokens a \<Longrightarrow> ba_used a ! i \<longleftrightarrow> i < k"
    and ok: "allocr_ok a" using a by (auto simp: simple_inv_def)
  have A: "length (ba_used a) = get_n_tokens a" "get_n_tokens a \<le> INT32_MAX" "pos_readable a"
    "ba_n_used a \<le> length (ba_used a)"
    using ok count_used_le [of "ba_used a"] by (simp_all add: allocr_ok_def)
  define cur where "cur = first_unused a"
  have cur: "cur < length (ba_used a)" "cur \<in> unused_tokens a"
    using first_unused_eq [OF ok] u unfolding cur_def by (auto simp: not_le)
  have ck: "k \<le> cur" using cur(2) k(2) [of cur] by (simp add: unused_tokens_def)
  obtain j where j: "cur < j" "j \<le> length (ba_used a)" "j = length (ba_used a) \<or> j - cur \<ge> n_ubatch"
      "j - cur \<le> max n_ubatch 1"
      "simple_loop n_ubatch cur [] a = ([cur..<j],
        a\<lparr>ba_used := marked [cur..<j] (ba_used a), ba_n_used := ba_n_used a + (j - cur)\<rparr>)"
  proof -
    have "ba_n_used a + (length (ba_used a) - cur) \<le> UINT32_MAX" using A(1,2,4) by simp
    from simple_loop_eq [OF cur(1) this, of n_ubatch "[]", unfolded list.size add_0 append_Nil]
    show ?thesis using that by blast
  qed
  let ?a1 = "a\<lparr>ba_used := marked [cur..<j] (ba_used a), ba_n_used := ba_n_used a + (j - cur)\<rparr>"
  let ?a' = "?a1\<lparr>ba_out_ids := ba_out_ids ?a1 @ filter (\<lambda>i. bf_logits (ba_batch ?a1) ! i \<noteq> 0) [cur..<j]\<rparr>"
  have "pos_readable ?a1" using A(3) by (simp add: pos_readable_def)
  moreover have "set [cur..<j] \<subseteq> {..<get_n_tokens ?a1}" using j(2) A(1) by (auto simp: get_n_tokens_def)
  ultimately obtain u where u: "ubatch_add [cur..<j] (j - cur) False ?a1 = Inr (u, ?a')"
      "carries (ba_batch ?a1) (ba_n_pos_per_embd ?a1) (ba_n_seq_max ?a1) u [cur..<j]"
    using ubatch_add_ok [of ?a1 "[cur..<j]" "j - cur" False] j(1) by auto
  have p: "picked [cur..<j] a ?a'"
    using j(1,2) A(1) k(2) ck by (auto simp: picked_def unused_tokens_def)
  have "ba_used ?a' ! i \<longleftrightarrow> i < j" if "i < get_n_tokens a" for i
  proof -
    have "i < cur \<Longrightarrow> ba_used a ! i"
      using nth_mem [of i "takeWhile (\<lambda>u. u) (ba_used a)"] by (metis cur_def first_unused_def set_takeWhileD takeWhile_nth)
    then show ?thesis using that A(1) k(2) [OF that] ck j(1) by (auto simp: nth_marked not_less [symmetric])
  qed
  then have "simple_inv ?a'"
    using picked_ok(1,5) [OF ok p] j(2) A(1) unfolding simple_inv_def by metis
  moreover have "unused_tokens ?a' = {} \<or> j - cur \<ge> n_ubatch"
  proof (cases "j = length (ba_used a)")
    case True
    then have "unused_tokens ?a' = {}"
      using \<open>\<And>i. i < get_n_tokens a \<Longrightarrow> ba_used ?a' ! i \<longleftrightarrow> i < j\<close> A(1) picked_ok(5) [OF ok p]
      by (auto simp: unused_tokens_def)
    then show ?thesis ..
  qed (use j(3) in simp)
  moreover have "split_simple n_ubatch a = Inr (u, ?a')"
    using cur(1) j(5) u(1) by (simp add: split_simple_def Let_def flip: cur_def)
  ultimately show ?thesis using p u(2) j(4) by (intro exI [of _ "[cur..<j]"] exI [of _ u] exI [of _ ?a']) simp
qed

interpretation simple: splitter "split_simple n_ubatch" simple_inv for n_ubatch
proof unfold_locales
  fix a
  assume a: "simple_inv a"
  then show ok: "allocr_ok a" by (simp add: simple_inv_def)
  show "unused_tokens a = {} \<Longrightarrow> split_simple n_ubatch a = Inr (ubatch_none, a)"
    using first_unused_eq(1) [OF ok] by (simp add: split_simple_def Let_def)
  show "unused_tokens a \<noteq> {} \<Longrightarrow> \<exists>idxs u a'. split_simple n_ubatch a = Inr (u, a') \<and> picked idxs a a' \<and>
      carries (ba_batch a) (ba_n_pos_per_embd a) (ba_n_seq_max a) u idxs \<and> simple_inv a'"
    using split_simple_progress [OF a] by blast
qed

section \<open>The split by sequence set\<close>

lemma next_subset_Some:
  assumes "next_subset cur S a = Some i"
  shows "cur < i" and "i < get_n_tokens a" and "\<not> ba_used a ! i" and "ba_seq_set a ! i \<subseteq> S"
  using assms by (auto simp: next_subset_def find_Some_iff)

lemma seq_loop_eq:
  assumes "cur < get_n_tokens a" and "length (ba_used a) = get_n_tokens a" and "\<not> ba_used a ! cur"
    and "ba_seq_set a ! cur \<subseteq> S" and "ba_n_used a + (get_n_tokens a - cur) \<le> UINT32_MAX"
  shows "\<exists>js. seq_loop n_ubatch cur S idxs a = (idxs @ js,
      a\<lparr>ba_used := marked js (ba_used a), ba_n_used := ba_n_used a + length js\<rparr>) \<and>
    js \<noteq> [] \<and> hd js = cur \<and> sorted_wrt (<) js \<and> (\<forall>i \<in> set js. cur \<le> i \<and> i < get_n_tokens a \<and> \<not> ba_used a ! i \<and> ba_seq_set a ! i \<subseteq> S) \<and>
    length idxs + length js \<le> max n_ubatch (length idxs + 1)"
  using assms
proof (induction n_ubatch cur S idxs a rule: seq_loop.induct)
  case (1 n_ubatch cur S idxs a)
  let ?a = "take_tokens [cur] a"
  have a': "?a = a\<lparr>ba_used := (ba_used a)[cur := True], ba_n_used := ba_n_used a + 1\<rparr>"
    using "1.prems" by (simp add: take_tokens_def)
  have stop: "seq_loop n_ubatch cur S idxs a = (idxs @ [cur], ?a) \<Longrightarrow> ?case"
    using "1.prems" by (intro exI [of _ "[cur]"]) (simp add: a' marked_def)
  show ?case
  proof (cases "length (idxs @ [cur]) \<ge> n_ubatch")
    case True
    then have "seq_loop n_ubatch cur S idxs a = (idxs @ [cur], ?a)" by (simp add: seq_loop.simps [of n_ubatch cur] Let_def)
    then show ?thesis by (rule stop)
  next
    case False
    show ?thesis
    proof (cases "next_subset cur S ?a")
      case None
      then have "seq_loop n_ubatch cur S idxs a = (idxs @ [cur], ?a)"
        using False by (simp add: seq_loop.simps [of n_ubatch cur] Let_def)
      then show ?thesis by (rule stop)
    next
      case (Some i)
      note i = next_subset_Some [OF Some]
      have n: "get_n_tokens ?a = get_n_tokens a" by simp
      have g: "i < get_n_tokens ?a" "length (ba_used ?a) = get_n_tokens ?a" "\<not> ba_used ?a ! i"
          "ba_seq_set ?a ! i \<subseteq> ba_seq_set ?a ! i" "ba_n_used ?a + (get_n_tokens ?a - i) \<le> UINT32_MAX"
        using i "1.prems" unfolding n by (auto simp: a')
      obtain js where js: "seq_loop n_ubatch i (ba_seq_set ?a ! i) (idxs @ [cur]) ?a = ((idxs @ [cur]) @ js,
            ?a\<lparr>ba_used := marked js (ba_used ?a), ba_n_used := ba_n_used ?a + length js\<rparr>)"
          "sorted_wrt (<) js" "\<And>k. k \<in> set js \<Longrightarrow> i \<le> k \<and> k < get_n_tokens a \<and> \<not> ba_used ?a ! k \<and> ba_seq_set ?a ! k \<subseteq> ba_seq_set ?a ! i"
          "length (idxs @ [cur]) + length js \<le> max n_ubatch (length (idxs @ [cur]) + 1)"
        using "1.IH" [OF refl refl False Some g] unfolding n by blast
      have k: "cur < k \<and> k < get_n_tokens a \<and> \<not> ba_used a ! k \<and> ba_seq_set a ! k \<subseteq> S" if "k \<in> set js" for k
        using js(3) [OF that] i by (auto simp: a')
      have "seq_loop n_ubatch cur S idxs a = (idxs @ (cur # js),
          a\<lparr>ba_used := marked (cur # js) (ba_used a), ba_n_used := ba_n_used a + length (cur # js)\<rparr>)"
        using js(1) False Some by (simp add: seq_loop.simps [of n_ubatch cur] Let_def a' marked_def)
      then show ?thesis using js(2,4) k False "1.prems"
        by (intro exI [of _ "cur # js"]) (auto intro: order.strict_implies_order)
    qed
  qed
qed

lemma split_seq_progress:
  assumes ok: "allocr_ok a" and u: "unused_tokens a \<noteq> {}"
  shows "\<exists>idxs u a'. split_seq n_ubatch a = Inr (u, a') \<and> picked idxs a a' \<and>
    carries (ba_batch a) (ba_n_pos_per_embd a) (ba_n_seq_max a) u idxs \<and> length idxs \<le> max n_ubatch 1 \<and>
    sorted_wrt (<) idxs \<and> (\<forall>i \<in> set idxs. ba_seq_set a ! i \<subseteq> ba_seq_set a ! hd idxs)"
proof -
  have A: "length (ba_used a) = get_n_tokens a" "get_n_tokens a \<le> INT32_MAX" "pos_readable a"
    "ba_n_used a \<le> length (ba_used a)"
    using ok count_used_le [of "ba_used a"] by (simp_all add: allocr_ok_def)
  define cur where "cur = first_unused a"
  have cur: "cur < get_n_tokens a" "cur \<in> unused_tokens a"
    using first_unused_eq [OF ok] u A(1) unfolding cur_def by (auto simp: not_le)
  obtain js where js: "seq_loop n_ubatch cur (ba_seq_set a ! cur) [] a = (js,
        a\<lparr>ba_used := marked js (ba_used a), ba_n_used := ba_n_used a + length js\<rparr>)"
      "js \<noteq> []" "hd js = cur" "sorted_wrt (<) js" "length js \<le> max n_ubatch 1"
      "\<forall>i \<in> set js. cur \<le> i \<and> i < get_n_tokens a \<and> \<not> ba_used a ! i \<and> ba_seq_set a ! i \<subseteq> ba_seq_set a ! cur"
  proof -
    have "\<not> ba_used a ! cur" "ba_n_used a + (get_n_tokens a - cur) \<le> UINT32_MAX"
      using A(1,2,4) cur(2) by (simp_all add: unused_tokens_def)
    from seq_loop_eq [OF cur(1) A(1) this(1) subset_refl this(2), of n_ubatch "[]",
        unfolded list.size add_0 append_Nil]
    show ?thesis using that by blast
  qed
  let ?a1 = "a\<lparr>ba_used := marked js (ba_used a), ba_n_used := ba_n_used a + length js\<rparr>"
  let ?a' = "?a1\<lparr>ba_out_ids := ba_out_ids ?a1 @ filter (\<lambda>i. bf_logits (ba_batch ?a1) ! i \<noteq> 0) js\<rparr>"
  have "pos_readable ?a1" using A(3) by (simp add: pos_readable_def)
  moreover have "set js \<subseteq> {..<get_n_tokens ?a1}" using js(6) by (auto simp: get_n_tokens_def)
  ultimately obtain u where u: "ubatch_add js 1 True ?a1 = Inr (u, ?a')"
      "carries (ba_batch ?a1) (ba_n_pos_per_embd ?a1) (ba_n_seq_max ?a1) u js"
    using ubatch_add_ok [of ?a1 js 1 True] by auto
  have p: "picked js a ?a'"
    using js(2,4,6) by (auto simp: picked_def unused_tokens_def strict_sorted_iff)
  have "split_seq n_ubatch a = Inr (u, ?a')"
    using cur(1) A(1) js(1) u(1) by (simp add: split_seq_def Let_def flip: cur_def)
  then show ?thesis using p u(2) js(3-6) by (intro exI [of _ js] exI [of _ u] exI [of _ ?a']) simp
qed

interpretation by_seq: splitter "split_seq n_ubatch" allocr_ok for n_ubatch
proof unfold_locales
  fix a
  assume a: "allocr_ok a"
  show "unused_tokens a = {} \<Longrightarrow> split_seq n_ubatch a = Inr (ubatch_none, a)"
    using first_unused_eq(1) [OF a] by (simp add: split_seq_def Let_def)
  show "unused_tokens a \<noteq> {} \<Longrightarrow> \<exists>idxs u a'. split_seq n_ubatch a = Inr (u, a') \<and> picked idxs a a' \<and>
      carries (ba_batch a) (ba_n_pos_per_embd a) (ba_n_seq_max a) u idxs \<and> allocr_ok a'"
    using split_seq_progress [OF a] picked_ok(1) [OF a] by blast
qed

section \<open>The split into equal lengths\<close>

text \<open>The tokens of each sequence set are used in order, and every token has a sequence.\<close>

definition in_order :: "llama_batch_allocr \<Rightarrow> bool" where
  "in_order a \<longleftrightarrow> (\<forall>i j. i < j \<longrightarrow> j < get_n_tokens a \<longrightarrow> ba_seq_set a ! i = ba_seq_set a ! j \<longrightarrow>
     ba_used a ! j \<longrightarrow> ba_used a ! i)"

definition equal_ok :: "llama_batch_allocr \<Rightarrow> bool" where
  "equal_ok a \<longleftrightarrow> allocr_ok a \<and> in_order a \<and> (\<forall>S \<in> set (ba_seq_set a). S \<noteq> {})"

definition rest :: "llama_batch_allocr \<Rightarrow> nat set \<Rightarrow> nat list" where
  "rest a S = filter (\<lambda>i. \<not> ba_used a ! i) (ba_seq_set_map a S)"

lemma set_map_sorted:
  assumes "allocr_ok a"
  shows "sorted_wrt (<) (ba_seq_set_map a S)"
    and "set (ba_seq_set_map a S) = {i. i < get_n_tokens a \<and> ba_seq_set a ! i = S}"
  using assms by (auto simp: allocr_ok_def sorted_wrt_filter)

lemma set_rest:
  assumes "allocr_ok a"
  shows "set (rest a S) = {i \<in> unused_tokens a. ba_seq_set a ! i = S}" and "sorted_wrt (<) (rest a S)"
  using set_map_sorted [OF assms, of S] by (auto simp: rest_def unused_tokens_def sorted_wrt_filter)

lemma filter_drop_sorted:
  assumes "\<And>j. j < c \<Longrightarrow> j < length l \<Longrightarrow> \<not> P (l ! j)" and "\<And>j. c \<le> j \<Longrightarrow> j < length l \<Longrightarrow> P (l ! j)"
  shows "filter P l = drop c l"
proof -
  have "filter P l = filter P (take c l) @ filter P (drop c l)" by (metis append_take_drop_id filter_append)
  moreover have "filter P (take c l) = []" using assms(1) by (auto simp: filter_empty_conv in_set_conv_nth)
  moreover have "filter P (drop c l) = drop c l" using assms(2) by (auto simp: filter_id_conv in_set_conv_nth)
  ultimately show ?thesis by simp
qed

lemma first_unused_in_rest:
  assumes a: "allocr_ok a" "in_order a" and S: "rest a S \<noteq> []"
  shows "\<exists>c. first_unused_in a (ba_seq_set_map a S) = Inr c \<and> drop c (ba_seq_set_map a S) = rest a S"
proof -
  let ?l = "ba_seq_set_map a S"
  obtain i where "i \<in> set ?l" "\<not> ba_used a ! i" using S by (auto simp: rest_def filter_empty_conv)
  then have "find (\<lambda>j. \<not> ba_used a ! (?l ! j)) [0..<length ?l] \<noteq> None"
    by (auto simp: find_None_iff in_set_conv_nth)
  then obtain c where c: "find (\<lambda>j. \<not> ba_used a ! (?l ! j)) [0..<length ?l] = Some c" by blast
  then have c2: "c < length ?l" "\<not> ba_used a ! (?l ! c)" "\<And>j. j < c \<Longrightarrow> ba_used a ! (?l ! j)"
    by (auto simp: find_Some_iff)
  have "\<not> ba_used a ! (?l ! j)" if "c \<le> j" "j < length ?l" for j
  proof (cases "j = c")
    case False
    then have "?l ! c < ?l ! j" using that set_map_sorted(1) [OF a(1), of S] by (simp add: sorted_wrt_nth_less)
    moreover have "?l ! j \<in> set ?l" "?l ! c \<in> set ?l" using that by (simp_all add: c2(1))
    ultimately show ?thesis using a(2) c2(2) unfolding set_map_sorted(2) [OF a(1)] in_order_def by auto
  qed (use c2 in simp)
  then have "rest a S = drop c ?l" unfolding rest_def using c2(3) by (intro filter_drop_sorted) auto
  then show ?thesis using c by (simp add: first_unused_in_def)
qed

text \<open>The chosen sets are pairwise disjoint and each has an unused token.\<close>

definition disjoint_sets_list :: "nat set list \<Rightarrow> bool" where
  "disjoint_sets_list ss \<longleftrightarrow> (\<forall>i j. i < j \<longrightarrow> j < length ss \<longrightarrow> ss ! i \<inter> ss ! j = {})"

lemma disjoint_sets_snoc:
  "disjoint_sets_list ss \<Longrightarrow> list_all (\<lambda>T. T \<inter> S = {}) ss \<Longrightarrow> disjoint_sets_list (ss @ [S])"
  by (auto simp: disjoint_sets_list_def nth_append list_all_length less_Suc_eq)

lemma disjoint_sets_distinct:
  assumes "disjoint_sets_list ss" and "{} \<notin> set ss"
  shows "distinct ss"
  unfolding distinct_conv_nth
proof (intro allI impI)
  fix i j assume ij: "i < length ss" "j < length ss" "i \<noteq> j"
  have D: "ss ! x \<inter> ss ! y = {}" if "x < y" "y < length ss" for x y
    using assms(1) that by (simp add: disjoint_sets_list_def)
  have "ss ! i \<inter> ss ! j = {}" using D [of i j] D [of j i] ij by (cases "i < j") (auto simp: Int_commute)
  then show "ss ! i \<noteq> ss ! j" using assms(2) ij(1) nth_mem by fastforce
qed

lemma equal_sets_props:
  assumes "allocr_ok a" and "set js \<subseteq> {..<get_n_tokens a}" and "disjoint_sets_list ss"
    and "\<forall>S \<in> set ss. rest a S \<noteq> []" and "length ss \<le> n_ubatch"
  shows "disjoint_sets_list (equal_sets a n_ubatch sq js ss last_id) \<and>
    (\<forall>S \<in> set (equal_sets a n_ubatch sq js ss last_id). rest a S \<noteq> []) \<and>
    ((\<exists>i \<in> set js. \<not> ba_used a ! i) \<or> ss \<noteq> [] \<longrightarrow> equal_sets a n_ubatch sq js ss last_id \<noteq> []) \<and>
    length (equal_sets a n_ubatch sq js ss last_id) \<le> n_ubatch + 1"
  using assms(2-5)
proof (induction js arbitrary: ss last_id)
  case (Cons i js)
  let ?S = "ba_seq_set a ! i"
  show ?case
  proof (cases "ba_used a ! i")
    case False
    then have "i \<in> set (rest a ?S)" using Cons.prems(1) by (simp add: set_rest [OF assms(1)] unused_tokens_def)
    then have "rest a ?S \<noteq> []" by (metis list.set_cases list.distinct(1))
    then have new: "\<forall>T \<in> set (ss @ [?S]). rest a T \<noteq> []" using Cons.prems(3) by simp
    define s0 where "s0 = hd (bf_seq_id (ba_batch a) ! i)"
    define add where "add \<longleftrightarrow> list_all (\<lambda>T. T \<inter> ?S = {}) ss \<and> (\<not> sq \<or> ss = [] \<or> s0 = last_id + 1)"
    have eq: "equal_sets a n_ubatch sq (i # js) ss last_id =
        (if \<not> add then equal_sets a n_ubatch sq js ss last_id
         else if length (ss @ [?S]) > n_ubatch then ss @ [?S]
         else equal_sets a n_ubatch sq js (ss @ [?S]) s0)"
      using False by (simp add: add_def s0_def Let_def)
    have js: "set js \<subseteq> {..<get_n_tokens a}" using Cons.prems(1) by simp
    show ?thesis
    proof (cases add)
      case True
      then have "disjoint_sets_list (ss @ [?S])"
        by (intro disjoint_sets_snoc Cons.prems(2)) (simp add: add_def)
      then show ?thesis using Cons.IH [OF js _ new, of s0] new True Cons.prems(4) unfolding eq by auto
    next
      case no: False
      then have "ss \<noteq> []" by (auto simp: add_def)
      then show ?thesis using Cons.IH [OF js Cons.prems(2-4), of last_id] no unfolding eq by auto
    qed
  qed (use Cons in auto)
qed auto

lemma marked_set_cong:
  assumes "set xs = set ys"
  shows "marked xs used = marked ys used"
  by (rule nth_equalityI) (use assms in \<open>auto simp: nth_marked\<close>)

lemma take_Suc_tl: "rs \<noteq> [] \<Longrightarrow> take (Suc n) rs = hd rs # take n (tl rs)"
  by (cases rs) simp_all

lemma map2_drop_Suc: "length cur = length ls \<Longrightarrow>
    map2 (\<lambda>l c. drop c l) ls (map Suc cur) = map tl (map2 (\<lambda>l c. drop c l) ls cur)"
  by (rule nth_equalityI) (simp_all add: drop_Suc tl_drop)

lemma round_take:
  assumes "[] \<notin> set rests"
  shows "length (concat (map (take (Suc n)) rests)) = length rests + length (concat (map (take n) (map tl rests)))"
    and "set (concat (map (take (Suc n)) rests)) = set (map hd rests @ concat (map (take n) (map tl rests)))"
  using assms
proof (induction rests)
  case (Cons r rests)
  { case 1 then show ?case using Cons.IH(1) by (cases r) simp_all
  next case 2 then show ?case using Cons.IH(2) by (cases r) auto }
qed simp_all

lemma length_concat_tl: "[] \<notin> set rests \<Longrightarrow>
    length (concat rests) = length rests + length (concat (map tl rests))"
proof (induction rests)
  case (Cons r rests)
  then show ?case by (cases r) auto
qed simp

lemma concat_map_Nil [simp]: "concat (map (\<lambda>_. []) xs) = []"
  by (induction xs) simp_all

lemma marked_Nil [simp]: "marked [] used = used"
  by (simp add: marked_def)

lemma equal_rounds_eq:
  assumes "length cur = length ls" and "length idxs = length ls" and "rests = map2 (\<lambda>l c. drop c l) ls cur"
    and "ba_n_used a + length (concat rests) \<le> UINT32_MAX"
  shows "\<exists>r. equal_rounds n_ubatch ls cur idxs a = (map (\<lambda>c. c + r) cur, map2 (\<lambda>is l. is @ take r l) idxs rests,
      a\<lparr>ba_used := marked (concat (map (take r) rests)) (ba_used a),
        ba_n_used := ba_n_used a + length (concat (map (take r) rests))\<rparr>) \<and>
    (\<forall>l \<in> set rests. r \<le> length l) \<and> (rests \<noteq> [] \<and> [] \<notin> set rests \<longrightarrow> 0 < r) \<and>
    (1 < r \<longrightarrow> (length (idxs ! 0) + r) * length ls \<le> n_ubatch)"
  using assms
proof (induction n_ubatch ls cur idxs a arbitrary: rests rule: equal_rounds.induct)
  case (1 n_ubatch ls cur idxs a)
  have rl: "length rests = length ls" using "1.prems"(1,3) by simp
  have ex: "list_ex (\<lambda>(l, c). c \<ge> length l) (zip ls cur) \<longleftrightarrow> [] \<in> set rests"
    unfolding "1.prems"(3) by (force simp: list_ex_iff image_iff split: prod.splits)
  show ?case
  proof (cases "ls = [] \<or> cur = [] \<or> [] \<in> set rests")
    case True
    then have "equal_rounds n_ubatch ls cur idxs a = (cur, idxs, a)"
      unfolding equal_rounds.simps [of n_ubatch ls cur idxs a] ex by simp
    moreover have "map2 (\<lambda>is l. is @ take 0 l) idxs rests = idxs"
      using "1.prems"(2) rl by (intro nth_equalityI) simp_all
    ultimately show ?thesis using True "1.prems"(1) rl
      by (intro exI [of _ 0]) (auto simp: marked_def)
  next
    case False
    define now where "now = map2 (\<lambda>l c. l ! c) ls cur"
    define idxs' where "idxs' = map2 (\<lambda>is i. is @ [i]) idxs now"
    define a' where "a' = take_tokens now a"
    have cl: "cur ! i < length (ls ! i)" if "i < length ls" for i
    proof -
      have "rests ! i \<in> set rests" using that rl by simp
      moreover have "rests ! i = drop (cur ! i) (ls ! i)" using that "1.prems"(1,3) by simp
      ultimately show ?thesis using False by (cases "cur ! i < length (ls ! i)") auto
    qed
    have now: "now = map hd rests"
      unfolding now_def "1.prems"(3) using cl "1.prems"(1)
      by (intro nth_equalityI) (auto simp: hd_drop_conv_nth)
    have len: "length (concat rests) = length ls + length (concat (map tl rests))"
      using length_concat_tl [of rests] False rl by simp
    have a'_eq: "a' = a\<lparr>ba_used := marked now (ba_used a), ba_n_used := ba_n_used a + length ls\<rparr>"
      using "1.prems"(4) len rl by (simp add: a'_def take_tokens_marked now)
    have i0: "length (idxs' ! 0) = length (idxs ! 0) + 1"
      using False "1.prems"(2) rl by (simp add: idxs'_def now)
    have step: "equal_rounds n_ubatch ls cur idxs a =
        (if (length (idxs' ! 0) + 1) * length ls > n_ubatch then (map Suc cur, idxs', a')
         else equal_rounds n_ubatch ls (map Suc cur) idxs' a')"
      using False unfolding equal_rounds.simps [of n_ubatch ls cur idxs a] ex
      by (simp add: Let_def now_def idxs'_def a'_def)
    have idxs'_eq: "map2 (\<lambda>is l. is @ take (Suc r) l) idxs rests = map2 (\<lambda>is l. is @ take r l) idxs' (map tl rests)" for r
    proof (rule nth_equalityI)
      fix i assume "i < length (map2 (\<lambda>is l. is @ take (Suc r) l) idxs rests)"
      then have i: "i < length ls" using "1.prems"(2) rl by simp
      then have "rests ! i \<in> set rests" using rl by simp
      then have "rests ! i \<noteq> []" using False by auto
      then show "map2 (\<lambda>is l. is @ take (Suc r) l) idxs rests ! i = map2 (\<lambda>is l. is @ take r l) idxs' (map tl rests) ! i"
        using i "1.prems"(2) rl by (simp add: idxs'_def now take_Suc_tl)
    qed (use "1.prems"(2) rl in \<open>simp add: idxs'_def now\<close>)
    have "\<exists>r. equal_rounds n_ubatch ls cur idxs a = (map (\<lambda>c. c + r) (map Suc cur),
        map2 (\<lambda>is l. is @ take r l) idxs' (map tl rests),
        a'\<lparr>ba_used := marked (concat (map (take r) (map tl rests))) (ba_used a'),
          ba_n_used := ba_n_used a' + length (concat (map (take r) (map tl rests)))\<rparr>) \<and>
        (\<forall>l \<in> set (map tl rests). r \<le> length l) \<and>
        (0 < r \<longrightarrow> (length (idxs ! 0) + Suc r) * length ls \<le> n_ubatch)"
    proof (cases "(length (idxs' ! 0) + 1) * length ls > n_ubatch")
      case True
      have "map2 (\<lambda>is l. is @ take 0 l) idxs' (map tl rests) = idxs'"
        using "1.prems"(2) rl by (intro nth_equalityI) (simp_all add: idxs'_def now)
      then show ?thesis using step True by (intro exI [of _ 0]) (simp add: comp_def)
    next
      case more: False
      have "\<not> (ls = [] \<or> cur = [] \<or> list_ex (\<lambda>(l, c). c \<ge> length l) (zip ls cur))" using False ex by simp
      moreover have "length (map Suc cur) = length ls" using "1.prems"(1) by simp
      moreover have "length idxs' = length ls" using "1.prems"(2) rl by (simp add: idxs'_def now)
      moreover have "map tl rests = map2 (\<lambda>l c. drop c l) ls (map Suc cur)"
        using map2_drop_Suc [OF "1.prems"(1)] "1.prems"(3) by simp
      moreover have "ba_n_used a' + length (concat (map tl rests)) \<le> UINT32_MAX"
        using "1.prems"(4) len by (simp add: a'_eq)
      ultimately obtain r where r: "equal_rounds n_ubatch ls (map Suc cur) idxs' a' = (map (\<lambda>c. c + r) (map Suc cur),
          map2 (\<lambda>is l. is @ take r l) idxs' (map tl rests),
          a'\<lparr>ba_used := marked (concat (map (take r) (map tl rests))) (ba_used a'),
            ba_n_used := ba_n_used a' + length (concat (map (take r) (map tl rests)))\<rparr>)"
          "\<forall>l \<in> set (map tl rests). r \<le> length l" "1 < r \<longrightarrow> (length (idxs' ! 0) + r) * length ls \<le> n_ubatch"
        using "1.IH" [OF _ now_def idxs'_def a'_def refl more] by blast
      moreover have "(length (idxs ! 0) + Suc r) * length ls \<le> n_ubatch" if "0 < r"
        using that r(3) more i0 by (cases "r = 1") (auto simp: not_less)
      ultimately show ?thesis using step more by (intro exI [of _ r]) simp
    qed
    then obtain r where r: "equal_rounds n_ubatch ls cur idxs a = (map (\<lambda>c. c + r) (map Suc cur),
        map2 (\<lambda>is l. is @ take r l) idxs' (map tl rests),
        a'\<lparr>ba_used := marked (concat (map (take r) (map tl rests))) (ba_used a'),
          ba_n_used := ba_n_used a' + length (concat (map (take r) (map tl rests)))\<rparr>)"
        "\<forall>l \<in> set (map tl rests). r \<le> length l" "0 < r \<longrightarrow> (length (idxs ! 0) + Suc r) * length ls \<le> n_ubatch"
      by blast
    have ne: "[] \<notin> set rests" using False by simp
    have "marked (concat (map (take r) (map tl rests))) (marked now (ba_used a)) =
        marked (concat (map (take (Suc r)) rests)) (ba_used a)"
      unfolding now marked_append [symmetric] using round_take(2) [OF ne, of r] by (intro marked_set_cong) simp
    then have "equal_rounds n_ubatch ls cur idxs a = (map (\<lambda>c. c + Suc r) cur,
        map2 (\<lambda>is l. is @ take (Suc r) l) idxs rests,
        a\<lparr>ba_used := marked (concat (map (take (Suc r)) rests)) (ba_used a),
          ba_n_used := ba_n_used a + length (concat (map (take (Suc r)) rests))\<rparr>)"
      unfolding r(1) idxs'_eq round_take(1) [OF ne] by (simp add: a'_eq rl)
    moreover have "\<forall>l \<in> set rests. Suc r \<le> length l"
    proof
      fix l assume l: "l \<in> set rests"
      then have "r \<le> length (tl l)" "l \<noteq> []" using r(2) ne by auto
      then show "Suc r \<le> length l" by (cases l) auto
    qed
    ultimately show ?thesis using r(3) by (intro exI [of _ "Suc r"]) simp
  qed
qed

text \<open>Giving tokens back undoes taking them.\<close>

lemma fold_unmark:
  "length (fold (\<lambda>i u. u[i := False]) ys used) = length used"
  "i < length used \<Longrightarrow> fold (\<lambda>i u. u[i := False]) ys used ! i \<longleftrightarrow> used ! i \<and> i \<notin> set ys"
proof (induction ys arbitrary: used)
  case (Cons y ys)
  { case 1 then show ?case using Cons.IH(1) by simp
  next case 2 then show ?case using Cons.IH(2) [of "used[y := False]"] by (cases "y = i") auto }
qed simp_all

lemma give_back_eq:
  assumes "set xs \<inter> set ys = {}" and "\<And>i. i \<in> set ys \<Longrightarrow> \<not> ba_used a ! i" and "set zs = set xs \<union> set ys"
    and "length zs = length xs + length ys"
  shows "give_back ys (a\<lparr>ba_used := marked zs (ba_used a), ba_n_used := ba_n_used a + length zs\<rparr>) =
    a\<lparr>ba_used := marked xs (ba_used a), ba_n_used := ba_n_used a + length xs\<rparr>"
proof -
  have "fold (\<lambda>i u. u[i := False]) ys (marked zs (ba_used a)) = marked xs (ba_used a)"
    by (rule nth_equalityI) (use assms in \<open>auto simp: fold_unmark nth_marked\<close>)
  then show ?thesis using assms(4) by (simp add: give_back_def)
qed

lemma give_back_append: "give_back ys (give_back xs a) = give_back (xs @ ys) a"
  by (cases a) (simp add: give_back_def)

lemma truncate_loop_eq:
  assumes "keep - remaining \<le> length idxs"
  shows "truncate_loop keep remaining idxs a =
    Inr (take (length idxs - (keep - remaining)) idxs,
         give_back (rev (drop (length idxs - (keep - remaining)) idxs)) a)"
  using assms
proof (induction keep remaining idxs a rule: truncate_loop.induct)
  case (1 keep remaining idxs a)
  show ?case
  proof (cases "remaining \<ge> keep")
    case True
    then show ?thesis by (cases a) (simp add: truncate_loop.simps [of keep remaining] give_back_def)
  next
    case False
    then have ne: "idxs \<noteq> []" using "1.prems" by auto
    define m where "m = length idxs - (keep - remaining)"
    have m: "m < length idxs" "length (butlast idxs) - (keep - (remaining + 1)) = m"
      using False "1.prems" by (simp_all add: m_def)
    have "keep - (remaining + 1) \<le> length (butlast idxs)" using "1.prems" by simp
    then have "truncate_loop keep remaining idxs a =
        Inr (take m (butlast idxs), give_back (rev (drop m (butlast idxs))) (give_back [last idxs] a))"
      using "1.IH" [OF False ne] ne False m(2) by (simp add: truncate_loop.simps [of keep remaining idxs a])
    moreover have "take m (butlast idxs) = take m idxs" using m(1) by (simp add: take_butlast)
    moreover have "drop m idxs = drop m (butlast idxs) @ [last idxs]"
      using m(1) by (cases idxs rule: rev_cases) simp_all
    ultimately show ?thesis by (simp add: give_back_append m_def)
  qed
qed

text \<open>Taking a prefix of the unused tokens of some sets keeps the order of every set.\<close>

definition parts_of :: "llama_batch_allocr \<Rightarrow> nat set list \<Rightarrow> nat list list \<Rightarrow> bool" where
  "parts_of a ss parts \<longleftrightarrow> distinct ss \<and> list_all2 (\<lambda>S p. \<exists>r. p = take r (rest a S) \<and> p \<noteq> []) ss parts"

lemma in_part:
  assumes "allocr_ok a" and "x \<in> set (take r (rest a S))"
  shows "x \<in> unused_tokens a \<and> ba_seq_set a ! x = S"
proof -
  have "x \<in> set (rest a S)" using assms(2) by (rule in_set_takeD)
  then show ?thesis unfolding set_rest(1) [OF assms(1)] by simp
qed

lemma parts_members:
  assumes "allocr_ok a" and "parts_of a ss parts" and "x \<in> set (concat parts)"
  shows "x \<in> unused_tokens a" and "ba_seq_set a ! x \<in> set ss"
proof -
  have P: "length ss = length parts" "\<And>j. j < length parts \<Longrightarrow> \<exists>r. parts ! j = take r (rest a (ss ! j))"
    using assms(2) by (auto simp: parts_of_def list_all2_conv_all_nth)
  obtain j where j: "j < length parts" "x \<in> set (parts ! j)" using assms(3) by (auto simp: in_set_conv_nth [of _ parts])
  obtain r where "parts ! j = take r (rest a (ss ! j))" using P(2) [OF j(1)] by blast
  then have "x \<in> unused_tokens a \<and> ba_seq_set a ! x = ss ! j" using in_part [OF assms(1)] j(2) by metis
  then show "x \<in> unused_tokens a" "ba_seq_set a ! x \<in> set ss" using j(1) P(1) by auto
qed

lemma parts_distinct:
  assumes a: "allocr_ok a" and p: "parts_of a ss parts"
  shows "distinct (concat parts)"
  using p
proof (induction parts arbitrary: ss)
  case (Cons q parts)
  obtain S ss' r where ss: "ss = S # ss'" "q = take r (rest a S)" "parts_of a ss' parts" "S \<notin> set ss'"
    using Cons.prems by (auto simp: parts_of_def list_all2_Cons2)
  have "distinct (rest a S)" using set_rest(2) [OF a, of S] by (simp add: strict_sorted_iff)
  moreover have "ba_seq_set a ! x = S" if "x \<in> set q" for x
    using that in_part [OF a] ss(2) by blast
  ultimately show ?case using Cons.IH [OF ss(3)] parts_members(2) [OF a ss(3)] ss(2,4) by auto
qed simp

lemma rest_after:
  assumes a: "allocr_ok a" and p: "picked xs a a'"
  shows "rest a' S = filter (\<lambda>i. i \<notin> set xs) (rest a S)"
proof -
  have "ba_seq_set_map a' = ba_seq_set_map a" "ba_used a' = marked xs (ba_used a)" using p by (simp_all add: picked_def)
  moreover have "i < length (ba_used a)" if "i \<in> set (ba_seq_set_map a S)" for i
    using that set_map_sorted(2) [OF a, of S] a by (simp add: allocr_ok_def)
  ultimately show ?thesis by (auto simp: rest_def nth_marked intro: filter_cong)
qed

lemma filter_not_take:
  assumes "distinct l"
  shows "filter (\<lambda>i. i \<notin> set (take r l)) l = drop r l"
proof -
  have "l ! j \<notin> set (take r l)" if "r \<le> j" "j < length l" for j
    using that assms by (auto simp: in_set_conv_nth nth_eq_iff_index_eq)
  moreover have "l ! j \<in> set (take r l)" if "j < r" "j < length l" for j
    using that by (auto simp: in_set_conv_nth)
  ultimately show ?thesis by (intro filter_drop_sorted) auto
qed

lemma rest_after_part:
  assumes a: "allocr_ok a" and p: "parts_of a ss parts" and pk: "picked (concat parts) a a'" and i: "i < length ss"
  shows "rest a' (ss ! i) = drop (length (parts ! i)) (rest a (ss ! i))"
proof -
  let ?l = "rest a (ss ! i)"
  have P: "distinct ss" "length parts = length ss"
      "\<And>j. j < length ss \<Longrightarrow> \<exists>r. parts ! j = take r (rest a (ss ! j))"
    using p by (auto simp: parts_of_def list_all2_conv_all_nth)
  obtain r where r: "parts ! i = take r ?l" using P(3) [OF i] by blast
  have "x \<in> set (concat parts) \<longleftrightarrow> x \<in> set (parts ! i)" if x: "x \<in> set ?l" for x
  proof
    assume "x \<in> set (concat parts)"
    then obtain j where j: "j < length ss" "x \<in> set (parts ! j)" using P(2) by (auto simp: in_set_conv_nth [of _ parts])
    then have "ba_seq_set a ! x = ss ! j" using P(3) [OF j(1)] in_part [OF a] by metis
    moreover have "ba_seq_set a ! x = ss ! i" using x set_rest(1) [OF a] by auto
    ultimately have "j = i" using P(1) i j(1) nth_eq_iff_index_eq by metis
    then show "x \<in> set (parts ! i)" using j(2) by simp
  next
    assume "x \<in> set (parts ! i)"
    then show "x \<in> set (concat parts)" using i P(2) by (auto intro: nth_mem)
  qed
  then have "filter (\<lambda>x. x \<notin> set (concat parts)) ?l = filter (\<lambda>x. x \<notin> set (take r ?l)) ?l"
    using r by (intro filter_cong) auto
  also have "\<dots> = drop r ?l"
    using set_rest(2) [OF a, of "ss ! i"] by (intro filter_not_take) (simp add: strict_sorted_iff)
  also have "\<dots> = drop (length (parts ! i)) ?l" unfolding r by (cases "r \<le> length ?l") auto
  finally show ?thesis unfolding rest_after [OF a pk] .
qed

lemma parts_equal_ok:
  assumes a: "equal_ok a" and p: "parts_of a ss parts" and pk: "picked (concat parts) a a'"
  shows "equal_ok a'"
proof -
  have ok: "allocr_ok a" and ord: "in_order a" using a by (simp_all add: equal_ok_def)
  have A: "length (ba_used a) = get_n_tokens a" using ok by (simp add: allocr_ok_def)
  note ok' = picked_ok [OF ok pk]
  have same: "ba_seq_set a' = ba_seq_set a" "ba_used a' = marked (concat parts) (ba_used a)"
    using pk by (simp_all add: picked_def)
  have "ba_used a' ! i" if ij: "i < j" "j < get_n_tokens a" "ba_seq_set a ! i = ba_seq_set a ! j" "ba_used a' ! j" for i j
  proof (cases "ba_used a ! j")
    case True
    then have "ba_used a ! i" using ord ij by (auto simp: in_order_def)
    then show ?thesis using ij A by (simp add: same nth_marked)
  next
    case False
    then have j: "j \<in> set (concat parts)" using ij A by (simp add: same nth_marked)
    then obtain k where k: "k < length ss" "ss ! k = ba_seq_set a ! j"
      using parts_members(2) [OF ok p] by (metis in_set_conv_nth)
    let ?S = "ba_seq_set a ! j" and ?n = "length (parts ! k)"
    have r: "rest a' ?S = drop ?n (rest a ?S)" using rest_after_part [OF ok p pk k(1)] k(2) by simp
    have jr: "j \<in> set (rest a ?S)" using set_rest(1) [OF ok] parts_members(1) [OF ok p j] by simp
    have "j \<notin> set (rest a' ?S)" unfolding set_rest(1) [OF ok'(1)] ok'(2) using j by simp
    then have jt: "j \<in> set (take ?n (rest a ?S))"
      using jr unfolding r by (metis Un_iff append_take_drop_id set_append)
    show ?thesis
    proof (rule ccontr)
      assume "\<not> ba_used a' ! i"
      then have "i \<in> set (rest a' ?S)"
        unfolding set_rest(1) [OF ok'(1)] using ij by (simp add: unused_tokens_def ok'(5) same)
      then have "i \<in> set (drop ?n (rest a ?S))" using r by simp
      moreover have "sorted_wrt (<) (take ?n (rest a ?S) @ drop ?n (rest a ?S))" using set_rest(2) [OF ok] by simp
      ultimately have "j < i" using jt unfolding sorted_wrt_append by blast
      then show False using ij(1) by simp
    qed
  qed
  then have "in_order a'" unfolding in_order_def ok'(5) same(1) by blast
  then show ?thesis using a ok'(1) by (simp add: equal_ok_def same(1))
qed

lemma parts_of_take: "parts_of a ss parts \<Longrightarrow> parts_of a (take k ss) (take k parts)"
  by (auto simp: parts_of_def intro: list_all2_takeI)

lemma parts_split:
  assumes "allocr_ok a" and "parts_of a ss parts"
  shows "set (concat (take k parts)) \<inter> set (concat (drop k parts)) = {}"
    and "i \<in> set (concat (drop k parts)) \<Longrightarrow> \<not> ba_used a ! i"
proof -
  have c: "concat parts = concat (take k parts) @ concat (drop k parts)" by (metis append_take_drop_id concat_append)
  show "set (concat (take k parts)) \<inter> set (concat (drop k parts)) = {}"
    using parts_distinct [OF assms] unfolding c by simp
  assume "i \<in> set (concat (drop k parts))"
  then have "i \<in> set (concat parts)" unfolding c by simp
  then show "\<not> ba_used a ! i" using parts_members(1) [OF assms] by (simp add: unused_tokens_def)
qed

text \<open>The allocator after the tokens \<open>xs\<close> are marked.\<close>

definition took :: "nat list \<Rightarrow> llama_batch_allocr \<Rightarrow> llama_batch_allocr" where
  "took xs a = a\<lparr>ba_used := marked xs (ba_used a), ba_n_used := ba_n_used a + length xs\<rparr>"

lemma give_back_took:
  assumes "set xs \<inter> set ys = {}" and "\<And>i. i \<in> set ys \<Longrightarrow> \<not> ba_used a ! i" and "set zs = set xs \<union> set ys"
    and "length zs = length xs + length ys"
  shows "give_back ys (took zs a) = took xs a"
  unfolding took_def by (rule give_back_eq [OF assms])

lemma take_tokens_took:
  assumes "ba_n_used a + length xs + length ys \<le> UINT32_MAX"
  shows "take_tokens ys (took xs a) = took (xs @ ys) a"
  using assms by (simp add: take_tokens_marked took_def marked_append add.assoc)

lemma takeWhile_upt_first:
  assumes "0 < n"
  shows "length (takeWhile P [0..<n]) = 0 \<longleftrightarrow> \<not> P 0"
  using assms by (simp add: upt_conv_Cons)

lemma takeWhile_upt_nth:
  assumes "s < length (takeWhile P [0..<n])"
  shows "P s"
proof -
  have "s < n" using assms length_takeWhile_le [of P "[0..<n]"] by simp
  then have "takeWhile P [0..<n] ! s = s" using takeWhile_nth [OF assms] by simp
  then have "s \<in> set (takeWhile P [0..<n])" using nth_mem [OF assms] by simp
  then show ?thesis by (auto dest: set_takeWhileD)
qed

lemma parts_of_single: "p = take r (rest a S) \<Longrightarrow> p \<noteq> [] \<Longrightarrow> parts_of a [S] [p]"
  by (auto simp: parts_of_def)

text \<open>After the rounds every set has given its first \<open>r\<close> unused tokens; \<open>keep_tail\<close> turns these parts into
  parts of equal length after which a set is finished or has at least \<open>keep\<close> tokens left.\<close>

definition tail_kept :: "nat \<Rightarrow> llama_batch_allocr \<Rightarrow> nat set list \<Rightarrow> nat list list \<Rightarrow> bool" where
  "tail_kept keep a ss parts \<longleftrightarrow> list_all2 (\<lambda>S p. length (rest a S) - length p = 0 \<or>
     keep \<le> length (rest a S) - length p) ss parts"

lemma keep_tail_prefix:
  assumes a: "allocr_ok a" and p: "parts_of a ss parts" and parts: "parts = map (\<lambda>S. take r (rest a S)) ss"
    and len: "length ls = length ss" "length cur = length ss"
    and rem: "\<And>s. s < length ss \<Longrightarrow> length (ls ! s) - cur ! s = length (rest a (ss ! s)) - r"
    and k: "k = length (takeWhile (\<lambda>s. \<not> (length (rest a (ss ! s)) - r \<noteq> 0 \<and> length (rest a (ss ! s)) - r < keep)) [0..<length ss])"
      "0 < k"
  shows "keep_tail n_ubatch keep ls cur parts (took (concat parts) a) = Inr (take k parts, took (concat (take k parts)) a) \<and>
    tail_kept keep a (take k ss) (take k parts)"
proof -
  let ?Q = "\<lambda>s. \<not> (length (rest a (ss ! s)) - r \<noteq> 0 \<and> length (rest a (ss ! s)) - r < keep)"
  have tw: "takeWhile (\<lambda>s. \<not> (length (ls ! s) - cur ! s \<noteq> 0 \<and> length (ls ! s) - cur ! s < keep)) [0..<length ls] =
      takeWhile ?Q [0..<length ss]"
    unfolding len by (rule takeWhile_cong) (simp_all add: rem)
  have kl: "k \<le> length ss" using length_takeWhile_le [of ?Q "[0..<length ss]"] k(1) by simp
  have Q: "?Q s" if "s < k" for s
    by (rule takeWhile_upt_nth [of s ?Q "length ss"]) (use that k(1) in simp)
  have gb: "give_back (concat (drop k parts)) (took (concat parts) a) = took (concat (take k parts)) a"
  proof (rule give_back_took)
    have c: "concat parts = concat (take k parts) @ concat (drop k parts)" by (metis append_take_drop_id concat_append)
    show "set (concat parts) = set (concat (take k parts)) \<union> set (concat (drop k parts))"
      "length (concat parts) = length (concat (take k parts)) + length (concat (drop k parts))"
      unfolding c by simp_all
  qed (use parts_split [OF a p] in blast)+
  have "tail_kept keep a (take k ss) (take k parts)"
    unfolding tail_kept_def list_all2_conv_all_nth
  proof (intro conjI allI impI)
    fix i assume "i < length (take k ss)"
    then have i: "i < k" "i < length ss" by simp_all
    have "length (rest a (ss ! i)) - length (take r (rest a (ss ! i))) = length (rest a (ss ! i)) - r" by simp
    then show "length (rest a (take k ss ! i)) - length (take k parts ! i) = 0 \<or>
        keep \<le> length (rest a (take k ss ! i)) - length (take k parts ! i)"
      using Q [OF i(1)] i parts by (simp add: not_less)
  qed (simp add: parts)
  then show ?thesis using k(2) gb unfolding keep_tail_def Let_def tw k(1) [symmetric] by simp
qed

lemma keep_tail_first:
  assumes a: "allocr_ok a" and p: "parts_of a ss parts" and parts: "parts = map (\<lambda>S. take r (rest a S)) ss"
    and len: "length ls = length ss" "length cur = length ss" and ss: "ss = S # ss'"
    and rest0: "drop (cur ! 0) (ls ! 0) = drop r (rest a S)"
    and viol: "0 < length (rest a S) - r" "length (rest a S) - r < keep" and kn: "keep < n_ubatch"
    and bound: "ba_n_used a + length (concat (map (rest a) ss)) \<le> UINT32_MAX"
  shows "\<exists>p. keep_tail n_ubatch keep ls cur parts (took (concat parts) a) = Inr ([p], took p a) \<and>
    parts_of a [S] [p] \<and> tail_kept keep a [S] [p] \<and> length p \<le> max n_ubatch r"
proof -
  let ?R = "rest a S" and ?others = "concat (drop 1 parts)"
  define rem where "rem = length ?R - r"
  have l0: "length (ls ! 0) - cur ! 0 = rem" using arg_cong [OF rest0, of length] by (simp add: rem_def)
  have p0: "parts ! 0 = take r ?R" "concat parts = take r ?R @ ?others" using parts ss by simp_all
  have rl: "length (take r ?R) = r" "length ?R = r + rem" using viol(1) by (simp_all add: rem_def)
  have dis: "set (take r ?R) \<inter> set ?others = {}" "\<And>i. i \<in> set ?others \<Longrightarrow> \<not> ba_used a ! i"
    using parts_split(1) [OF a p, of 1] parts_split(2) [OF a p, where k = 1] parts ss by simp_all
  have dR: "distinct ?R" using set_rest(2) [OF a] by (simp add: strict_sorted_iff)
  have otherS: "i \<notin> set ?R" if "i \<in> set ?others" for i
  proof -
    have "parts_of a ss' (drop 1 parts)" using p parts ss by (simp add: parts_of_def)
    then have "ba_seq_set a ! i \<in> set ss'" using parts_members(2) [OF a] that by blast
    moreover have "S \<notin> set ss'" using p ss by (simp add: parts_of_def)
    ultimately show ?thesis using set_rest(1) [OF a] by auto
  qed
  have k0: "length (takeWhile (\<lambda>s. \<not> (length (ls ! s) - cur ! s \<noteq> 0 \<and> length (ls ! s) - cur ! s < keep)) [0..<length ls]) = 0"
    using takeWhile_upt_first [of "length ls" "\<lambda>s. \<not> (length (ls ! s) - cur ! s \<noteq> 0 \<and> length (ls ! s) - cur ! s < keep)"]
      len ss viol l0 rem_def by simp
  have kt: "keep_tail n_ubatch keep ls cur parts b = bind_r
      (if r + rem \<le> n_ubatch then Inr (?R, take_tokens (drop r ?R) b)
       else truncate_loop keep rem (take r ?R) b) (\<lambda>(p, b). Inr ([p], give_back ?others b))" for b
    unfolding keep_tail_def Let_def k0 l0 p0(1) rest0 rl(1) by simp
  have len_others: "length ?others \<le> length (concat (map (rest a) ss'))"
    unfolding parts ss by (induction ss') auto
  show ?thesis
  proof (cases "r + rem \<le> n_ubatch")
    case True
    have "ba_n_used a + length (concat parts) + length (drop r ?R) \<le> UINT32_MAX"
      using bound len_others rl unfolding p0(2) ss by simp
    then have "take_tokens (drop r ?R) (took (concat parts) a) = took (concat parts @ drop r ?R) a"
      by (rule take_tokens_took)
    moreover have "give_back ?others (took (concat parts @ drop r ?R) a) = took ?R a"
    proof (rule give_back_took)
      show "set (concat parts @ drop r ?R) = set ?R \<union> set ?others"
        unfolding p0(2) using set_append [of "take r ?R" "drop r ?R"] by auto
    qed (use otherS dis(2) rl in \<open>auto simp: p0(2)\<close>)
    ultimately have "keep_tail n_ubatch keep ls cur parts (took (concat parts) a) = Inr ([?R], took ?R a)"
      unfolding kt using True by simp
    moreover have "parts_of a [S] [?R]" using viol(1) by (intro parts_of_single [of _ "length ?R"]) auto
    ultimately show ?thesis using True rl by (intro exI [of _ ?R]) (simp add: tail_kept_def)
  next
    case False
    define m where "m = r - (keep - rem)"
    have m: "0 < m" "m \<le> r" "r - m = keep - rem" using False viol kn by (simp_all add: m_def rem_def)
    have tl: "truncate_loop keep rem (take r ?R) b = Inr (take m ?R, give_back (rev (drop m (take r ?R))) b)" for b
      using truncate_loop_eq [of keep rem "take r ?R" b] rl(1) m by (simp add: m_def [symmetric] min_def)
    have "give_back ?others (give_back (rev (drop m (take r ?R))) (took (concat parts) a)) = took (take m ?R) a"
      unfolding give_back_append
    proof (rule give_back_took)
      have t: "take r ?R = take m ?R @ drop m (take r ?R)" using m(2) by (metis append_take_drop_id min.absorb1 take_take)
      show "set (concat parts) = set (take m ?R) \<union> set (rev (drop m (take r ?R)) @ ?others)"
        "length (concat parts) = length (take m ?R) + length (rev (drop m (take r ?R)) @ ?others)"
        unfolding p0(2) using arg_cong [OF t, of set] arg_cong [OF t, of length] by auto
      have "distinct (take r ?R)" using dR by simp
      then have "set (take m ?R) \<inter> set (drop m (take r ?R)) = {}" using t by (metis distinct_append)
      moreover have "set (take m ?R) \<subseteq> set ?R" by (rule set_take_subset)
      ultimately show "set (take m ?R) \<inter> set (rev (drop m (take r ?R)) @ ?others) = {}" using otherS by auto
      fix i assume "i \<in> set (rev (drop m (take r ?R)) @ ?others)"
      then have "i \<in> set (take r ?R) \<or> i \<in> set ?others" by (auto dest: in_set_dropD)
      then show "\<not> ba_used a ! i"
      proof
        assume "i \<in> set (take r ?R)"
        then show ?thesis using in_part [OF a] by (simp add: unused_tokens_def)
      qed (rule dis(2))
    qed
    then have "keep_tail n_ubatch keep ls cur parts (took (concat parts) a) = Inr ([take m ?R], took (take m ?R) a)"
      unfolding kt using False by (simp add: tl)
    moreover have "parts_of a [S] [take m ?R]" using m rl by (intro parts_of_single [of _ m]) auto
    moreover have "tail_kept keep a [S] [take m ?R]" using m rl viol by (simp add: tail_kept_def)
    ultimately show ?thesis using m(2) by (intro exI [of _ "take m ?R"]) simp
  qed
qed

definition equal_inv :: "nat \<Rightarrow> bool \<Rightarrow> nat \<Rightarrow> llama_batch_allocr \<Rightarrow> bool" where
  "equal_inv n_ubatch sq keep a \<longleftrightarrow> equal_ok a \<and> \<not> (sq \<and> ba_has_cpl a) \<and> (keep = 0 \<or> keep < n_ubatch)"

text \<open>The sets and the rounds: every chosen set gives its first \<open>r\<close> unused tokens.\<close>

lemma rest_nonempty_set:
  assumes "equal_ok a" and "rest a S \<noteq> []"
  shows "S \<noteq> {}"
proof -
  obtain i where "i \<in> set (rest a S)" using assms(2) by (meson last_in_set)
  then have "i < get_n_tokens a" "ba_seq_set a ! i = S"
    using set_rest(1) [of a S] assms(1) by (auto simp: equal_ok_def unused_tokens_def)
  then show ?thesis using assms(1) nth_mem [of i "ba_seq_set a"] by (auto simp: equal_ok_def allocr_ok_def)
qed

lemma equal_start:
  assumes a: "equal_ok a" and ss: "\<forall>S \<in> set ss. rest a S \<noteq> []"
  shows "\<exists>cur. map_r (first_unused_in a) (map (ba_seq_set_map a) ss) = Inr cur \<and> length cur = length ss \<and>
    map2 (\<lambda>l c. drop c l) (map (ba_seq_set_map a) ss) cur = map (rest a) ss"
proof -
  define c where "c S = projr (first_unused_in a (ba_seq_set_map a S))" for S
  have c: "first_unused_in a (ba_seq_set_map a S) = Inr (c S)" "drop (c S) (ba_seq_set_map a S) = rest a S"
    if "S \<in> set ss" for S
    using first_unused_in_rest [of a S] a ss that by (auto simp: c_def equal_ok_def)
  have "map_r (first_unused_in a) (map (ba_seq_set_map a) ss) =
      map_r (\<lambda>S. first_unused_in a (ba_seq_set_map a S)) ss" by (induction ss) simp_all
  also have "\<dots> = Inr (map c ss)" by (rule map_r_Inr) (rule c(1))
  finally show ?thesis using c(2) by (intro exI [of _ "map c ss"]) (auto simp: map2_map_map intro!: map_cong)
qed

lemma parts_bound:
  assumes "allocr_ok a" and "parts_of a ss parts"
  shows "ba_n_used a + length (concat parts) \<le> get_n_tokens a"
proof -
  have "length (concat parts) = card (set (concat parts))"
    using distinct_card [OF parts_distinct [OF assms]] by simp
  also have "\<dots> \<le> card (unused_tokens a)"
    using parts_members(1) [OF assms] card_unused(1) [OF assms(1)] by (intro card_mono) auto
  finally show ?thesis using card_unused(2) [OF assms(1)] by simp
qed

lemma equal_parts:
  assumes a: "equal_ok a" and u: "unused_tokens a \<noteq> {}"
    and ss: "ss = equal_sets a n_ubatch sq [0..<get_n_tokens a] [] (-1)"
  shows "ss \<noteq> [] \<and> disjoint_sets_list ss \<and> distinct ss \<and> length ss \<le> n_ubatch + 1 \<and> (\<forall>S \<in> set ss. rest a S \<noteq> []) \<and>
    parts_of a ss (map (rest a) ss)"
proof -
  have ok: "allocr_ok a" using a by (simp add: equal_ok_def)
  have e: "disjoint_sets_list ss \<and> (\<forall>S \<in> set ss. rest a S \<noteq> []) \<and>
      ((\<exists>i \<in> set [0..<get_n_tokens a]. \<not> ba_used a ! i) \<or> [] \<noteq> ([] :: nat set list) \<longrightarrow> ss \<noteq> []) \<and> length ss \<le> n_ubatch + 1"
    unfolding ss by (rule equal_sets_props [OF ok]) (auto simp: disjoint_sets_list_def)
  have d: "distinct ss" using e rest_nonempty_set [OF a] by (intro disjoint_sets_distinct) auto
  have "list_all2 (\<lambda>S p. \<exists>r. p = take r (rest a S) \<and> p \<noteq> []) ss (map (rest a) ss)"
    unfolding list_all2_conv_all_nth
  proof (intro conjI allI impI)
    fix i assume i: "i < length ss"
    then show "\<exists>r. map (rest a) ss ! i = take r (rest a (ss ! i)) \<and> map (rest a) ss ! i \<noteq> []"
      using e by (intro exI [of _ "length (rest a (ss ! i))"]) simp
  qed simp
  then show ?thesis using e d u by (auto simp: parts_of_def unused_tokens_def)
qed

lemma concat_map_const_length: "\<forall>p \<in> set ps. length p = m \<Longrightarrow> length (concat ps) = m * length ps"
  by (induction ps) auto

lemma keep_tail_ok:
  assumes a: "allocr_ok a" and p: "parts_of a ss parts" and parts: "parts = map (\<lambda>S. take r (rest a S)) ss"
    and ss: "ss \<noteq> []" "disjoint_sets_list ss" and len: "length ls = length ss" "length cur = length ss"
    and dropr: "\<And>s. s < length ss \<Longrightarrow> drop (cur ! s) (ls ! s) = drop r (rest a (ss ! s))"
    and kn: "keep < n_ubatch" and bound: "ba_n_used a + length (concat (map (rest a) ss)) \<le> UINT32_MAX"
    and pl: "\<forall>p \<in> set parts. length p = r" and rn: "r * length ss \<le> n_ubatch + 1"
  shows "\<exists>ss' parts' m. keep_tail n_ubatch keep ls cur parts (took (concat parts) a) =
      Inr (parts', took (concat parts') a) \<and> parts_of a ss' parts' \<and> disjoint_sets_list ss' \<and> parts' \<noteq> [] \<and>
    (\<forall>p \<in> set parts'. length p = m) \<and> length (concat parts') \<le> n_ubatch + 1 \<and> tail_kept keep a ss' parts'"
proof -
  let ?Q = "\<lambda>s. \<not> (length (rest a (ss ! s)) - r \<noteq> 0 \<and> length (rest a (ss ! s)) - r < keep)"
  define k where "k = length (takeWhile ?Q [0..<length ss])"
  have rem: "length (ls ! s) - cur ! s = length (rest a (ss ! s)) - r" if "s < length ss" for s
    using arg_cong [OF dropr [OF that], of length] by simp
  show ?thesis
  proof (cases "0 < k")
    case True
    note kt = keep_tail_prefix [OF a p parts len rem k_def True, of n_ubatch]
    have "length (concat (take k parts)) = r * length (take k parts)"
      using pl by (intro concat_map_const_length) (auto dest: in_set_takeD)
    also have "\<dots> \<le> r * length ss" using parts by simp
    finally have "length (concat (take k parts)) \<le> n_ubatch + 1" using rn by simp
    moreover have "disjoint_sets_list (take k ss)" using ss(2) by (simp add: disjoint_sets_list_def)
    moreover have "take k parts \<noteq> []" using True ss(1) parts by simp
    moreover have "\<forall>p \<in> set (take k parts). length p = r" using pl by (auto dest: in_set_takeD)
    ultimately show ?thesis using kt parts_of_take [OF p, of k] by blast
  next
    case False
    then have "\<not> ?Q 0" using takeWhile_upt_first [of "length ss" ?Q] ss(1) by (simp add: k_def)
    moreover obtain S ss' where ss': "ss = S # ss'" using ss(1) by (cases ss) auto
    ultimately have v: "0 < length (rest a S) - r" "length (rest a S) - r < keep" by simp_all
    have "r \<le> n_ubatch + 1" using rn ss' by simp
    moreover have "drop (cur ! 0) (ls ! 0) = drop r (rest a S)" using dropr [of 0] ss' by simp
    then obtain q where q: "keep_tail n_ubatch keep ls cur parts (took (concat parts) a) = Inr ([q], took q a)"
        "parts_of a [S] [q]" "tail_kept keep a [S] [q]" "length q \<le> max n_ubatch r"
      using keep_tail_first [OF a p parts len ss' _ v kn bound] by blast
    ultimately show ?thesis
      by (intro exI [of _ "[S]"] exI [of _ "[q]"] exI [of _ "length q"]) (simp add: disjoint_sets_list_def)
  qed
qed

lemma split_equal_short:
  assumes a: "equal_ok a" and u: "unused_tokens a \<noteq> {}" and "\<not> (sq \<and> ba_has_cpl a)" and "0 < keep" "n_ubatch \<le> keep"
  shows "split_equal n_ubatch sq keep a = Inl Assert_fail"
proof -
  define ss where "ss = equal_sets a n_ubatch sq [0..<get_n_tokens a] [] (-1)"
  have S: "ss \<noteq> []" "\<forall>S \<in> set ss. rest a S \<noteq> []" using equal_parts [OF a u ss_def] by blast+
  obtain cur where "map_r (first_unused_in a) (map (ba_seq_set_map a) ss) = Inr cur" using equal_start [OF a S(2)] by blast
  then show ?thesis using S(1) assms(3-5) by (simp add: split_equal_def Let_def ss_def [symmetric] split: prod.splits)
qed

lemma split_equal_progress:
  assumes a: "equal_inv n_ubatch sq keep a" and u: "unused_tokens a \<noteq> {}"
  shows "\<exists>ss parts u a'. split_equal n_ubatch sq keep a = Inr (u, a') \<and> picked (concat parts) a a' \<and>
    carries (ba_batch a) (ba_n_pos_per_embd a) (ba_n_seq_max a) u (concat parts) \<and> equal_inv n_ubatch sq keep a' \<and>
    parts_of a ss parts \<and> disjoint_sets_list ss \<and> ub_n_seqs u = length parts \<and>
    (\<forall>p \<in> set parts. length p = ub_n_seq_tokens u) \<and> length (concat parts) \<le> n_ubatch + 1 \<and>
    (0 < keep \<longrightarrow> tail_kept keep a ss parts)"
proof -
  have eq: "equal_ok a" "allocr_ok a" and nc: "\<not> (sq \<and> ba_has_cpl a)" and kn: "keep = 0 \<or> keep < n_ubatch"
    using a by (auto simp: equal_inv_def equal_ok_def)
  define ss where "ss = equal_sets a n_ubatch sq [0..<get_n_tokens a] [] (-1)"
  define ls where "ls = map (ba_seq_set_map a) ss"
  have S: "ss \<noteq> []" "disjoint_sets_list ss" "distinct ss" "length ss \<le> n_ubatch + 1" "\<forall>S \<in> set ss. rest a S \<noteq> []"
      "parts_of a ss (map (rest a) ss)"
    using equal_parts [OF eq(1) u ss_def] by blast+
  obtain cur where cur: "map_r (first_unused_in a) ls = Inr cur" "length cur = length ss"
      "map2 (\<lambda>l c. drop c l) ls cur = map (rest a) ss"
    using equal_start [OF eq(1) S(5)] unfolding ls_def by blast
  have n: "get_n_tokens a \<le> INT32_MAX" "pos_readable a" using eq(2) by (simp_all add: allocr_ok_def)
  have bound: "ba_n_used a + length (concat (map (rest a) ss)) \<le> UINT32_MAX"
    using parts_bound [OF eq(2) S(6)] n(1) by simp
  have lens: "length cur = length ls" "length (replicate (length ss) []) = length ls" using cur(2) by (simp_all add: ls_def)
  obtain r where r: "equal_rounds n_ubatch ls cur (replicate (length ss) []) a = (map (\<lambda>c. c + r) cur,
        map2 (\<lambda>is l. is @ take r l) (replicate (length ss) []) (map (rest a) ss),
        took (concat (map (take r) (map (rest a) ss))) a)"
      "\<forall>l \<in> set (map (rest a) ss). r \<le> length l" "0 < r"
      "1 < r \<longrightarrow> (length (replicate (length ss) [] ! 0 :: nat list) + r) * length ls \<le> n_ubatch"
    using equal_rounds_eq [OF lens cur(3) [symmetric] bound, of n_ubatch] S(1,5) unfolding took_def by auto
  define parts where "parts = map (\<lambda>S. take r (rest a S)) ss"
  have idxs: "map2 (\<lambda>is l. is @ take r l) (replicate (length ss) []) (map (rest a) ss) = parts"
    unfolding parts_def by (rule nth_equalityI) simp_all
  have conc: "concat (map (take r) (map (rest a) ss)) = concat parts" by (simp add: parts_def comp_def)
  have P: "parts_of a ss parts"
    using S(3,5) r(3) unfolding parts_of_def parts_def list_all2_conv_all_nth by auto
  have pl: "\<forall>p \<in> set parts. length p = r" using r(2) by (auto simp: parts_def)
  have rn: "r * length ss \<le> n_ubatch + 1"
  proof (cases "r = 1")
    case False
    then show ?thesis using r(3,4) S(1) by (simp add: ls_def)
  qed (use S(4) in simp)
  have ls0: "length ls = length ss" by (simp add: ls_def)
  have dropr: "drop (map (\<lambda>c. c + r) cur ! s) (ls ! s) = drop r (rest a (ss ! s))" if "s < length ss" for s
    using arg_cong [OF cur(3), of "\<lambda>x. drop r (x ! s)"] that cur(2) ls0 by (simp add: add.commute)
  let ?keep = "if keep > 0 then assert_r (n_ubatch > keep)
        (keep_tail n_ubatch keep ls (map (\<lambda>c. c + r) cur) parts (took (concat parts) a))
        else Inr (parts, took (concat parts) a)"
  have "length (concat parts) = r * length parts" using pl by (rule concat_map_const_length)
  then have pn: "length (concat parts) \<le> n_ubatch + 1" "parts \<noteq> []" using rn S(1) by (simp_all add: parts_def)
  have "\<exists>ss' parts' m. ?keep = Inr (parts', took (concat parts') a) \<and> parts_of a ss' parts' \<and>
      disjoint_sets_list ss' \<and> parts' \<noteq> [] \<and> (\<forall>p \<in> set parts'. length p = m) \<and>
      length (concat parts') \<le> n_ubatch + 1 \<and> (0 < keep \<longrightarrow> tail_kept keep a ss' parts')"
  proof (cases "keep = 0")
    case True
    then show ?thesis using P S(2) pl pn by auto
  next
    case False
    have "length (map (\<lambda>c. c + r) cur) = length ss" using cur(2) by simp
    with keep_tail_ok [OF eq(2) P parts_def S(1,2) ls0 this dropr _ bound pl rn, of keep] kn False
    show ?thesis by simp
  qed
  then obtain ss' parts' m where F: "?keep = Inr (parts', took (concat parts') a)"
      "parts_of a ss' parts'" "disjoint_sets_list ss'" "parts' \<noteq> []" "\<forall>p \<in> set parts'. length p = m"
      "length (concat parts') \<le> n_ubatch + 1" "0 < keep \<longrightarrow> tail_kept keep a ss' parts'"
    by blast
  let ?a1 = "took (concat parts') a"
  let ?a' = "?a1\<lparr>ba_out_ids := ba_out_ids ?a1 @ filter (\<lambda>i. bf_logits (ba_batch ?a1) ! i \<noteq> 0) (concat parts')\<rparr>"
  have mem: "set (concat parts') \<subseteq> unused_tokens a" using parts_members(1) [OF eq(2) F(2)] by blast
  have "length (concat parts') = m * length parts'" using F(5) by (rule concat_map_const_length)
  moreover have "pos_readable ?a1" using n(2) by (simp add: pos_readable_def took_def)
  moreover have "set (concat parts') \<subseteq> {..<get_n_tokens ?a1}"
    using mem by (auto simp: unused_tokens_def took_def get_n_tokens_def)
  ultimately obtain u where u: "ubatch_add (concat parts') (length parts') True ?a1 = Inr (u, ?a')"
      "carries (ba_batch ?a1) (ba_n_pos_per_embd ?a1) (ba_n_seq_max ?a1) u (concat parts')" "ub_n_seqs u = length parts'"
    using ubatch_add_ok [of ?a1 "concat parts'" "length parts'" True] F(4) by auto
  have ne: "concat parts' \<noteq> []" using F(2,4) by (cases parts') (auto simp: parts_of_def list_all2_Cons2)
  have pk: "picked (concat parts') a ?a'"
    using ne parts_distinct [OF eq(2) F(2)] mem by (simp add: picked_def took_def)
  have "equal_inv n_ubatch sq keep ?a'"
    using parts_equal_ok [OF eq(1) F(2) pk] nc kn by (simp add: equal_inv_def took_def)
  moreover have "ub_n_seq_tokens u = m"
    using u(2,3) F(4) \<open>length (concat parts') = m * length parts'\<close> by (simp add: carries_def)
  moreover have "split_equal n_ubatch sq keep a = Inr (u, ?a')"
    unfolding split_equal_def Let_def ss_def [symmetric] ls_def [symmetric] cur(1) bind_r_simps r(1) conc idxs
      prod.case F(1) u(1) using nc S(1) by auto
  ultimately show ?thesis using pk u(2,3) F
    by (intro exI [of _ ss'] exI [of _ parts'] exI [of _ u] exI [of _ ?a']) (simp add: took_def)
qed

lemma split_equal_finished:
  assumes a: "equal_inv n_ubatch sq keep a" and u: "unused_tokens a = {}"
  shows "split_equal n_ubatch sq keep a = Inr (ubatch_none, a)"
proof -
  have "equal_sets a n_ubatch sq js ss last_id = ss" if "set js \<subseteq> {..<get_n_tokens a}" for js ss last_id
    using that u by (induction js) (auto simp: unused_tokens_def)
  then show ?thesis by (simp add: split_equal_def atLeast0LessThan)
qed

interpretation equal_len: splitter "split_equal n_ubatch sq keep" "equal_inv n_ubatch sq keep" for n_ubatch sq keep
proof unfold_locales
  fix a
  assume a: "equal_inv n_ubatch sq keep a"
  then show "allocr_ok a" by (simp add: equal_inv_def equal_ok_def)
  show "unused_tokens a = {} \<Longrightarrow> split_equal n_ubatch sq keep a = Inr (ubatch_none, a)"
    by (rule split_equal_finished [OF a])
  show "unused_tokens a \<noteq> {} \<Longrightarrow> \<exists>idxs u a'. split_equal n_ubatch sq keep a = Inr (u, a') \<and> picked idxs a a' \<and>
      carries (ba_batch a) (ba_n_pos_per_embd a) (ba_n_seq_max a) u idxs \<and> equal_inv n_ubatch sq keep a'"
    using split_equal_progress [OF a] by blast
qed

section \<open>The state after a successful initialisation\<close>

lemma fold_set_map:
  "fold (set_map_step b) is m S = m S @ filter (\<lambda>i. tok_seq_set b i = S) is"
  by (induction "is" arbitrary: m) (auto simp: set_map_step_def)

lemma count_replicate_False [simp]: "count_if (\<lambda>u. u) (replicate n False) = 0"
  by (induction n) simp_all

lemma batch_stats_fields:
  "ba_batch (batch_stats b n_embd n_seq_max a) = b"
  "ba_n_seq_max (batch_stats b n_embd n_seq_max a) = n_seq_max"
  "ba_n_pos_per_embd (batch_stats b n_embd n_seq_max a) = ba_n_pos_per_embd a"
  "ba_n_outputs (batch_stats b n_embd n_seq_max a) = ba_n_outputs a + count_outputs b"
  "ba_seq_set (batch_stats b n_embd n_seq_max a) = ba_seq_set a @ map (tok_seq_set b) [0..<bf_n_tokens b]"
  "ba_seq_set_map (batch_stats b n_embd n_seq_max a) = fold (set_map_step b) [0..<bf_n_tokens b] (ba_seq_set_map a)"
  "ba_seq_pos (batch_stats b n_embd n_seq_max a) =
     fst (fold (couple_step b) [0..<bf_n_tokens b] (ba_seq_pos a, ba_seq_cpl a, False))"
  "ba_seq_cpl (batch_stats b n_embd n_seq_max a) =
     fst (snd (fold (couple_step b) [0..<bf_n_tokens b] (ba_seq_pos a, ba_seq_cpl a, False)))"
  "ba_has_cpl (batch_stats b n_embd n_seq_max a) =
     snd (snd (fold (couple_step b) [0..<bf_n_tokens b] (ba_seq_pos a, ba_seq_cpl a, False)))"
  by (simp_all add: batch_stats_def Let_def split: prod.splits)

lemma allocr_init_Some:
  assumes "allocr_init inp n_vocab mem n_embd n_seq_max output_all a0 = Inr (Some a)"
  shows "\<exists>pos b. fill_pos mem n_seq_max inp = Inr pos \<and>
    b = \<lparr>bf_n_tokens = nat (b_n_tokens inp), bf_token = b_token inp, bf_embd = b_embd inp, bf_pos = pos,
         bf_n_seq_id = fill_n_seq_id inp, bf_seq_id = fill_seq_id inp, bf_logits = fill_logits output_all inp\<rparr> \<and>
    a = split_reset (batch_stats b n_embd n_seq_max (allocr_clear a0)) \<and>
    batch_consistent mem (batch_stats b n_embd n_seq_max (allocr_clear a0)) = Inr True \<and>
    batch_shape (ba_n_pos_per_embd a0) n_embd inp \<and> 0 < b_n_tokens inp \<and> n_seq_max \<le> LLAMA_MAX_SEQ \<and>
    tokens_valid n_vocab inp \<and> seqs_valid n_seq_max inp"
proof -
  have c: "ba_n_pos_per_embd (allocr_clear a0) = ba_n_pos_per_embd a0" by (simp add: allocr_clear_def)
  show ?thesis using assms unfolding allocr_init_def Let_def c
    by (auto simp: not_less split: if_splits)
qed

text \<open>What an allocator needs before it splits: its counters are reset and no position is missing.\<close>

definition mrope_positions_given :: "nat \<Rightarrow> llama_batch \<Rightarrow> bool" where
  "mrope_positions_given n_pos inp \<longleftrightarrow> n_pos \<le> 1 \<or> b_token inp \<noteq> None \<or> b_pos inp \<noteq> None"

lemma gen_pos_length:
  "fold_r (gen_pos_step ks rows) is (p0, pos) = Inr (p1, pos') \<Longrightarrow> length pos' = length pos + length is"
  by (induction "is" arbitrary: p0 pos) (auto simp: gen_pos_step_def Let_def split: if_splits)

lemma fill_pos_length:
  assumes "fill_pos mem n_seq_max inp = Inr pos" and "batch_shape n_pos n_embd inp"
  shows "nat (b_n_tokens inp) \<le> length pos"
    and "mrope_positions_given n_pos inp \<Longrightarrow> b_token inp = None \<Longrightarrow> n_pos * nat (b_n_tokens inp) \<le> length pos"
proof -
  show l: "nat (b_n_tokens inp) \<le> length pos"
  proof (cases "b_pos inp")
    case None
    then show ?thesis using assms(1) gen_pos_length [of "fill_n_seq_id inp" "fill_seq_id inp"]
      by (fastforce simp: fill_pos_def)
  qed (use assms in \<open>auto simp: fill_pos_def batch_shape_def Let_def\<close>)
  assume m: "mrope_positions_given n_pos inp" "b_token inp = None"
  show "n_pos * nat (b_n_tokens inp) \<le> length pos"
  proof (cases "b_pos inp")
    case None
    then have "n_pos \<le> 1" using m by (simp add: mrope_positions_given_def)
    then show ?thesis using l by (cases n_pos) auto
  qed (use assms m in \<open>auto simp: fill_pos_def batch_shape_def Let_def\<close>)
qed

lemma init_allocr_ok:
  assumes i: "allocr_init inp n_vocab mem n_embd n_seq_max output_all a0 = Inr (Some a)"
    and n: "b_n_tokens inp \<le> int INT32_MAX" and m: "mrope_positions_given (ba_n_pos_per_embd a0) inp"
  shows "allocr_ok a" and "unused_tokens a = {..<nat (b_n_tokens inp)}" and "get_n_tokens a = nat (b_n_tokens inp)"
    and "ba_out_ids a = []"
proof -
  obtain pos b where I: "fill_pos mem n_seq_max inp = Inr pos"
      "b = \<lparr>bf_n_tokens = nat (b_n_tokens inp), bf_token = b_token inp, bf_embd = b_embd inp, bf_pos = pos,
         bf_n_seq_id = fill_n_seq_id inp, bf_seq_id = fill_seq_id inp, bf_logits = fill_logits output_all inp\<rparr>"
      "a = split_reset (batch_stats b n_embd n_seq_max (allocr_clear a0))" "batch_shape (ba_n_pos_per_embd a0) n_embd inp"
    using allocr_init_Some [OF i] by blast
  have b: "ba_batch a = b" by (simp add: I(3) split_reset_def batch_stats_fields)
  show nt: "get_n_tokens a = nat (b_n_tokens inp)" by (simp add: get_n_tokens_def b I(2))
  have used: "ba_used a = replicate (get_n_tokens a) False" "ba_n_used a = 0"
    by (simp_all add: I(3) split_reset_def get_n_tokens_def)
  show "ba_out_ids a = []" by (simp add: I(3) split_reset_def)
  show "unused_tokens a = {..<nat (b_n_tokens inp)}" by (auto simp: unused_tokens_def used nt)
  have np: "ba_n_pos_per_embd a = ba_n_pos_per_embd a0"
    by (simp add: I(3) split_reset_def batch_stats_fields allocr_clear_def)
  note pl = fill_pos_length [OF I(1,4)]
  have "pos_readable a"
    unfolding pos_readable_def Let_def b np
  proof (intro allI impI)
    fix j i assume j: "j < ba_n_pos_per_embd a0" and i: "i < bf_n_tokens b"
    have "Suc j * nat (b_n_tokens inp) \<le> ba_n_pos_per_embd a0 * nat (b_n_tokens inp)"
      using j by (intro mult_le_mono1) simp
    then show "(if bf_token b \<noteq> None then 0 else j * bf_n_tokens b) + i < length (bf_pos b)"
      using pl(1) pl(2) [OF m] i by (auto simp: I(2))
  qed
  moreover have "ba_seq_set a = map (tok_seq_set b) [0..<get_n_tokens a]"
      "ba_seq_set_map a = fold (set_map_step b) [0..<get_n_tokens a] (\<lambda>_. [])"
    by (simp_all add: I(3) split_reset_def batch_stats_fields allocr_clear_def get_n_tokens_def)
  ultimately show "allocr_ok a"
    using n unfolding allocr_ok_def
    by (auto simp: nt used fold_set_map intro!: filter_cong)
qed

end
