(* ===== verification/BatchProps.thy ===== *)
theory BatchProps
  imports BatchSplit "HOL-Library.Multiset"
begin

text \<open>
  The properties of the batch allocator: an accepted batch is well-formed and continues what the memory
  holds, every way of cutting it is a partition of its tokens, and the two inputs for which the
  code leaves its contract.
\<close>

section \<open>Cutting a batch is a partition\<close>

datatype split_mode = Simple | By_seq | Equal bool nat

fun split_by :: "split_mode \<Rightarrow> nat \<Rightarrow> llama_batch_allocr \<Rightarrow> (llama_ubatch \<times> llama_batch_allocr) res" where
  "split_by Simple n_ubatch = split_simple n_ubatch"
| "split_by By_seq n_ubatch = split_seq n_ubatch"
| "split_by (Equal sequential keep) n_ubatch = split_equal n_ubatch sequential keep"

text \<open>What a caller must ensure for a mode: a split into equal lengths needs tokens that have a sequence,
  no coupled sequences when it is sequential, and a micro-batch larger than the tail it keeps together.\<close>

fun mode_ok :: "split_mode \<Rightarrow> nat \<Rightarrow> llama_batch_allocr \<Rightarrow> bool" where
  "mode_ok (Equal sequential keep) n_ubatch a =
     (list_all (\<lambda>S. S \<noteq> {}) (ba_seq_set a) \<and> \<not> (sequential \<and> ba_has_cpl a) \<and> (keep = 0 \<or> keep < n_ubatch))"
| "mode_ok _ n_ubatch a = True"

lemma fresh_invariants:
  assumes "allocr_ok a" and "unused_tokens a = {..<get_n_tokens a}"
  shows "simple_inv a" and "mode_ok (Equal sq keep) n_ubatch a \<Longrightarrow> equal_inv n_ubatch sq keep a"
proof -
  have u: "\<not> ba_used a ! i" if "i < get_n_tokens a" for i
  proof -
    have "i \<in> unused_tokens a" using that assms(2) by simp
    then show ?thesis by (simp add: unused_tokens_def)
  qed
  show "simple_inv a" using assms(1) u by (auto simp: simple_inv_def intro: exI [of _ 0])
  show "mode_ok (Equal sq keep) n_ubatch a \<Longrightarrow> equal_inv n_ubatch sq keep a"
    using assms(1) u by (auto simp: equal_inv_def equal_ok_def in_order_def list_all_iff)
qed

lemma split_partition:
  assumes "allocr_init inp n_vocab mem n_embd n_seq_max output_all a0 = Inr (Some a)"
    and "b_n_tokens inp \<le> int INT32_MAX" and "mrope_positions_given (ba_n_pos_per_embd a0) inp"
    and "mode_ok mode n_ubatch a"
  shows "\<exists>us parts a'. split_all (Suc (get_n_tokens a)) (split_by mode n_ubatch) a = Inr (Some (us, a')) \<and>
    list_all2 (carries (ba_batch a) (ba_n_pos_per_embd a) (ba_n_seq_max a)) us parts \<and> (\<forall>p \<in> set parts. p \<noteq> []) \<and>
    mset (concat parts) = mset [0..<get_n_tokens a] \<and> get_n_used a' = get_n_tokens a \<and>
    ba_out_ids a' = filter (\<lambda>i. bf_logits (ba_batch a) ! i \<noteq> 0) (concat parts)"
proof -
  note init = init_allocr_ok [OF assms(1-3)]
  have u: "unused_tokens a = {..<get_n_tokens a}" using init(2,3) by simp
  then have fuel: "card (unused_tokens a) < Suc (get_n_tokens a)" by simp
  note inv = fresh_invariants [OF init(1) u]
  have "\<exists>us parts a'. split_all (Suc (get_n_tokens a)) (split_by mode n_ubatch) a = Inr (Some (us, a')) \<and> allocr_ok a' \<and>
    list_all2 (carries (ba_batch a) (ba_n_pos_per_embd a) (ba_n_seq_max a)) us parts \<and>
    (\<forall>p \<in> set parts. p \<noteq> []) \<and> distinct (concat parts) \<and> set (concat parts) = unused_tokens a \<and>
    ba_batch a' = ba_batch a \<and> unused_tokens a' = {} \<and>
    ba_out_ids a' = ba_out_ids a @ filter (\<lambda>i. bf_logits (ba_batch a) ! i \<noteq> 0) (concat parts)"
  proof (cases mode)
    case Simple
    then show ?thesis
      using simple.split_all_partition [OF inv(1) fuel, of n_ubatch] simple.inv_ok by (simp only: split_by.simps) blast
  next
    case By_seq
    then show ?thesis
      using by_seq.split_all_partition [OF init(1) fuel, of n_ubatch] by (simp only: split_by.simps)
  next
    case (Equal sq keep)
    have e: "equal_inv n_ubatch sq keep a" using inv(2) assms(4) Equal by simp
    have ok: "equal_inv n_ubatch sq keep a' \<Longrightarrow> allocr_ok a'" for a' by (simp add: equal_inv_def equal_ok_def)
    from equal_len.split_all_partition [OF e fuel] show ?thesis
      unfolding Equal split_by.simps by (elim exE conjE) (intro exI conjI, assumption, rule ok)
  qed
  then obtain us parts a' where r: "split_all (Suc (get_n_tokens a)) (split_by mode n_ubatch) a = Inr (Some (us, a'))"
      "allocr_ok a'" "list_all2 (carries (ba_batch a) (ba_n_pos_per_embd a) (ba_n_seq_max a)) us parts" "\<forall>p \<in> set parts. p \<noteq> []"
      "distinct (concat parts)" "set (concat parts) = unused_tokens a" "ba_batch a' = ba_batch a" "unused_tokens a' = {}"
      "ba_out_ids a' = filter (\<lambda>i. bf_logits (ba_batch a) ! i \<noteq> 0) (concat parts)"
    using init(4) by auto
  have "set (concat parts) = set [0..<get_n_tokens a]" using r(6) u by (simp only: set_upt atLeast0LessThan)
  then have "mset (concat parts) = mset [0..<get_n_tokens a]"
    using set_eq_iff_mset_eq_distinct [OF r(5) distinct_upt] by blast
  moreover have "get_n_used a' = get_n_tokens a"
    using card_unused(2) [OF r(2)] r(7,8) by (simp add: get_n_used_def get_n_tokens_def)
  ultimately show ?thesis using r(1,3,4,9) by blast
qed

text \<open>The two cases in which a split into equal lengths does not cut: coupled sequences in a sequential split, and a tail that is not
  shorter than a micro-batch.\<close>

fun refuses_coupled :: "split_mode \<Rightarrow> llama_batch_allocr \<Rightarrow> bool" where
  "refuses_coupled (Equal sequential keep) a = (sequential \<and> ba_has_cpl a)"
| "refuses_coupled _ a = False"

fun tail_too_long :: "split_mode \<Rightarrow> nat \<Rightarrow> bool" where
  "tail_too_long (Equal sequential keep) n_ubatch = (keep \<noteq> 0 \<and> n_ubatch \<le> keep)"
| "tail_too_long _ n_ubatch = False"

text \<open>C5: Cutting an accepted batch always ends. The sequential split into equal lengths takes nothing when the batch has coupled
  sequences, and a split into equal lengths that keeps a tail together fails its assertion when a micro-batch is not longer
  than the tail. In every other case the cut is a partition, whichever split the memory module uses: at most as many
  rounds as the batch has tokens return non-empty micro-batches that carry, token by token, the ids, positions, sequences and
  output flags of the batch; every token of the batch is in exactly one of them; and the output indices list the tokens
  marked for output in that order. Required: fewer than 2^31 tokens; positions that are given when embeddings have several
  positions each; and, for a split into equal lengths, a sequence for every token.\<close>

theorem batch_partition:
  assumes "allocr_init inp n_vocab mem n_embd n_seq_max output_all a0 = Inr (Some a)"
    and "b_n_tokens inp \<le> int INT32_MAX" and "mrope_positions_given (ba_n_pos_per_embd a0) inp"
    and "mode = Simple \<or> mode = By_seq \<or> list_all (\<lambda>S. S \<noteq> {}) (ba_seq_set a)"
  shows "if refuses_coupled mode a then split_all (Suc (get_n_tokens a)) (split_by mode n_ubatch) a = Inr (Some ([], a)) \<and> get_n_used a = 0
    else if tail_too_long mode n_ubatch then split_all (Suc (get_n_tokens a)) (split_by mode n_ubatch) a = Inl Assert_fail
    else \<exists>us parts a'. split_all (Suc (get_n_tokens a)) (split_by mode n_ubatch) a = Inr (Some (us, a')) \<and>
      list_all2 (carries (ba_batch a) (ba_n_pos_per_embd a) (ba_n_seq_max a)) us parts \<and> (\<forall>p \<in> set parts. p \<noteq> []) \<and>
      mset (concat parts) = mset [0..<get_n_tokens a] \<and> get_n_used a' = get_n_tokens a \<and>
      ba_out_ids a' = filter (\<lambda>i. bf_logits (ba_batch a) ! i \<noteq> 0) (concat parts)"
proof -
  note init = init_allocr_ok [OF assms(1-3)]
  consider "refuses_coupled mode a" | "\<not> refuses_coupled mode a" "tail_too_long mode n_ubatch"
    | "\<not> refuses_coupled mode a" "\<not> tail_too_long mode n_ubatch" by blast
  then show ?thesis
  proof cases
    case 1
    then obtain keep where m: "mode = Equal True keep" "ba_has_cpl a" by (cases mode) auto
    obtain b where "a = split_reset b" using allocr_init_Some [OF assms(1)] by (elim exE conjE)
    then have "get_n_used a = 0" by (simp add: get_n_used_def split_reset_def)
    then show ?thesis using m by (simp add: split_equal_def ubatch_none_def)
  next
    case 2
    then obtain sq keep where m: "mode = Equal sq keep" "\<not> (sq \<and> ba_has_cpl a)" "0 < keep" "n_ubatch \<le> keep" by (cases mode) auto
    have "0 < b_n_tokens inp" using allocr_init_Some [OF assms(1)] by (elim exE conjE)
    then have u: "unused_tokens a \<noteq> {}" unfolding init(2) by (simp add: lessThan_empty_iff)
    have "mode_ok (Equal False 0) n_ubatch a" using assms(4) m(1) by simp
    then have "equal_ok a" using fresh_invariants(2) [OF init(1), of False 0 n_ubatch] init(2,3) by (simp add: equal_inv_def)
    from split_equal_short [OF this u m(2-4)] show ?thesis using 2 m(1,2) by auto
  next
    case 3
    then have "mode_ok mode n_ubatch a" using assms(4) by (cases mode) auto
    from split_partition [OF assms(1-3) this] show ?thesis using 3 by (simp only: if_False)
  qed
qed

section \<open>Positions of an accepted batch\<close>

text \<open>The position sets collected for the sequences.\<close>

definition batch_positions :: "llama_batch_full \<Rightarrow> nat \<Rightarrow> int set" where
  "batch_positions b s = {bf_pos b ! i | i. i < bf_n_tokens b \<and> s \<in> tok_seq_set b i}"

lemma couple_seq_pos: "fst (couple_seq p s0 x st) = (fst st)[nat (snd x) := insert p (fst st ! nat (snd x))]"
  by (simp add: couple_seq_def Let_def split: prod.splits)

lemma couple_inner:
  "fst (fold (couple_seq p s0) (enumerate k xs) st) = fold (\<lambda>x sp. sp[nat x := insert p (sp ! nat x)]) xs (fst st)"
  by (induction xs arbitrary: k st) (simp_all add: couple_seq_pos)

lemma insert_positions:
  assumes "s < length sp" and "\<forall>x \<in> set xs. nat x < length sp"
  shows "length (fold (\<lambda>x sp. sp[nat x := insert p (sp ! nat x)]) xs sp) = length sp \<and>
    fold (\<lambda>x sp. sp[nat x := insert p (sp ! nat x)]) xs sp ! s = (if s \<in> nat ` set xs then insert p (sp ! s) else sp ! s)"
  using assms
proof (induction xs arbitrary: sp)
  case (Cons x xs)
  let ?sp = "sp[nat x := insert p (sp ! nat x)]"
  have "s < length ?sp" "\<forall>y \<in> set xs. nat y < length ?sp" using Cons.prems by simp_all
  note ih = Cons.IH [OF this]
  show ?case using ih Cons.prems by (cases "s = nat x") auto
qed simp

lemma couple_step_pos:
  assumes "s < length sp" and "\<forall>x \<in> tok_seq_set b i. x < length sp"
  shows "length (fst (couple_step b i (sp, cpl, h))) = length sp"
    and "fst (couple_step b i (sp, cpl, h)) ! s = (if s \<in> tok_seq_set b i then insert (bf_pos b ! i) (sp ! s) else sp ! s)"
  using insert_positions [OF assms(1), of "tok_seqs b i" "bf_pos b ! i"] assms(2)
  by (simp_all add: couple_step_def tok_seq_set_def couple_inner)

lemma couple_fold_pos:
  assumes "s < length sp" and "\<forall>i \<in> set is. \<forall>x \<in> tok_seq_set b i. x < length sp"
  shows "fst (fold (couple_step b) is (sp, cpl, h)) ! s = sp ! s \<union> {bf_pos b ! i | i. i \<in> set is \<and> s \<in> tok_seq_set b i}"
  using assms
proof (induction "is" arbitrary: sp cpl h)
  case (Cons i "is")
  obtain sp' cpl' h' where st: "couple_step b i (sp, cpl, h) = (sp', cpl', h')" by (metis prod_cases3)
  have "\<forall>x \<in> tok_seq_set b i. x < length sp" using Cons.prems(2) by simp
  note c = couple_step_pos [OF Cons.prems(1) this, of cpl h, unfolded st fst_conv]
  have "fst (fold (couple_step b) is (sp', cpl', h')) ! s = sp' ! s \<union> {bf_pos b ! i | i. i \<in> set is \<and> s \<in> tok_seq_set b i}"
    using Cons.IH [of sp' cpl' h'] Cons.prems c(1) by simp
  then show ?case using c(2) by (auto simp: st)
qed simp

text \<open>A finite set of integers with as many elements as its span is an interval.\<close>

lemma full_span_interval:
  assumes "finite P" and "P \<noteq> {}" and "Max P - Min P + 1 \<le> int (card P)"
  shows "P = {Min P..Max P}"
proof (rule card_subset_eq)
  show "P \<subseteq> {Min P..Max P}" using assms(1) by auto
  have "card P \<le> card {Min P..Max P}" using assms(1) by (intro card_mono) auto
  then show "card P = card {Min P..Max P}" using assms(3) by simp
qed simp

text \<open>The check of the order: while it has not failed, the positions seen of a sequence are ascending and
  not above its last one.\<close>

definition order_inv :: "llama_batch_full \<Rightarrow> nat \<Rightarrow> (nat set list \<times> int list) option \<Rightarrow> nat \<Rightarrow> bool" where
  "order_inv b n_seq st k \<longleftrightarrow> (case st of None \<Rightarrow> True | Some (cs, cp) \<Rightarrow> length cp = n_seq \<and>
     (\<forall>s < n_seq. \<forall>j < k. s \<in> tok_seq_set b j \<longrightarrow> bf_pos b ! j \<le> cp ! s \<and>
        (\<forall>i < j. s \<in> tok_seq_set b i \<longrightarrow> bf_pos b ! i \<le> bf_pos b ! j)))"

lemma compat_fold_None [simp]: "fold (compat_seq p S) xs None = None"
  by (induction xs) (simp_all add: compat_seq_def)

lemma compat_inner:
  assumes "fold (compat_seq p S) xs (Some (cs, cp)) = Some (cs', cp')" and "\<forall>x \<in> set xs. nat x < length cp"
  shows "length cp' = length cp \<and> (\<forall>s < length cp. cp' ! s = (if s \<in> nat ` set xs then p else cp ! s) \<and>
    (s \<in> nat ` set xs \<longrightarrow> cp ! s \<le> p))"
  using assms
proof (induction xs arbitrary: cs cp)
  case (Cons x xs)
  obtain cs1 where c: "compat_seq p S x (Some (cs, cp)) = Some (cs1, cp[nat x := p])" "\<not> p < cp ! nat x"
  proof (cases "compat_seq p S x (Some (cs, cp))")
    case (Some st)
    then show ?thesis
      by (intro that [of "cs[nat x := cs ! nat x \<inter> S]"]) (auto simp: compat_seq_def Let_def split: if_splits)
  qed (use Cons.prems(1) in simp)
  have "\<forall>y \<in> set xs. nat y < length (cp[nat x := p])" using Cons.prems(2) by simp
  note ih = Cons.IH [OF _ this, of cs1]
  have I: "length cp' = length cp" "\<And>s. s < length cp \<Longrightarrow> cp' ! s = (if s \<in> nat ` set xs then p else cp[nat x := p] ! s)"
      "\<And>s. s < length cp \<Longrightarrow> s \<in> nat ` set xs \<Longrightarrow> cp[nat x := p] ! s \<le> p"
    using ih Cons.prems(1) c(1) by simp_all
  have "cp' ! s = (if s \<in> nat ` set (x # xs) then p else cp ! s) \<and> (s \<in> nat ` set (x # xs) \<longrightarrow> cp ! s \<le> p)"
    if s: "s < length cp" for s
    using I(2,3) [OF s] c(2) s by (cases "s = nat x") auto
  then show ?case using I(1) by blast
qed simp

lemma order_fold:
  assumes "\<forall>i < n. \<forall>x \<in> tok_seq_set b i. x < n_seq"
  shows "order_inv b n_seq (fold (\<lambda>i. fold (compat_seq (bf_pos b ! i) (sets i)) (tok_seqs b i)) [0..<n]
    (Some (replicate n_seq S0, replicate n_seq (-1)))) n"
  using assms
proof (induction n)
  case (Suc n)
  let ?step = "\<lambda>i. fold (compat_seq (bf_pos b ! i) (sets i)) (tok_seqs b i)"
  define st where "st = fold ?step [0..<n] (Some (replicate n_seq S0, replicate n_seq (-1)))"
  have "\<forall>i < n. \<forall>x \<in> tok_seq_set b i. x < n_seq" using Suc.prems less_Suc_eq by blast
  then have ih: "order_inv b n_seq st n" unfolding st_def by (rule Suc.IH)
  have "order_inv b n_seq (?step n st) (Suc n)"
  proof (cases "?step n st")
    case (Some r)
    obtain cs cp where st: "st = Some (cs, cp)" using Some by (cases st) auto
    obtain cs' cp' where r: "?step n st = Some (cs', cp')" using Some by (cases r) auto
    have I: "length cp = n_seq" "\<And>s j. s < n_seq \<Longrightarrow> j < n \<Longrightarrow> s \<in> tok_seq_set b j \<Longrightarrow> bf_pos b ! j \<le> cp ! s \<and>
        (\<forall>i < j. s \<in> tok_seq_set b i \<longrightarrow> bf_pos b ! i \<le> bf_pos b ! j)"
      using ih by (auto simp: order_inv_def st)
    have ids: "\<forall>x \<in> set (tok_seqs b n). nat x < length cp" using Suc.prems I(1) by (auto simp: tok_seq_set_def)
    have C: "length cp' = n_seq" "\<And>s. s < n_seq \<Longrightarrow> cp' ! s = (if s \<in> tok_seq_set b n then bf_pos b ! n else cp ! s)"
        "\<And>s. s < n_seq \<Longrightarrow> s \<in> tok_seq_set b n \<Longrightarrow> cp ! s \<le> bf_pos b ! n"
      using compat_inner [OF r [unfolded st] ids] I(1) by (auto simp: tok_seq_set_def)
    have "bf_pos b ! j \<le> cp' ! s \<and> (\<forall>i < j. s \<in> tok_seq_set b i \<longrightarrow> bf_pos b ! i \<le> bf_pos b ! j)"
      if s: "s < n_seq" and j: "j < Suc n" "s \<in> tok_seq_set b j" for s j
    proof (cases "j = n")
      case True
      then have sn: "s \<in> tok_seq_set b n" using j by simp
      have "bf_pos b ! i \<le> bf_pos b ! n" if "i < n" "s \<in> tok_seq_set b i" for i
        using I(2) [OF s that] C(3) [OF s sn] by linarith
      then show ?thesis using True C(2) [OF s] sn by simp
    next
      case False
      then have jn: "j < n" using j by simp
      have "bf_pos b ! j \<le> cp ! s" using I(2) [OF s jn j(2)] by simp
      moreover have "cp ! s \<le> cp' ! s" using C(2,3) [OF s] by simp
      ultimately show ?thesis using I(2) [OF s jn j(2)] by auto
    qed
    then show ?thesis unfolding order_inv_def r using C(1) by simp
  qed (simp add: order_inv_def)
  then show ?case by (simp add: st_def)
qed (simp add: order_inv_def)

lemma fill_seqs_valid:
  assumes v: "seqs_valid n_seq_max inp" and sh: "batch_shape n_pos n_embd inp" and n: "0 < n_seq_max"
    and b: "bf_n_seq_id b = fill_n_seq_id inp" "bf_seq_id b = fill_seq_id inp" and i: "i < nat (b_n_tokens inp)"
  shows "\<forall>x \<in> tok_seq_set b i. x < n_seq_max"
proof (cases "b_seq_id inp")
  case None
  have "x = 0" if "x \<in> set (take k [0 :: int])" for k x using that by (cases k) simp_all
  then show ?thesis using None i n by (fastforce simp: tok_seq_set_def tok_seqs_def b fill_seq_id_def)
next
  case (Some rows)
  then obtain ks where ks: "b_n_seq_id inp = Some ks"
    using sh by (cases "b_n_seq_id inp") (auto simp: batch_shape_def Let_def)
  have "\<forall>x \<in> set (take (nat (ks ! i)) (rows ! i)). 0 \<le> x \<and> x < int n_seq_max"
    using v i by (simp add: seqs_valid_def Some ks list_all_iff)
  then show ?thesis by (auto simp: tok_seq_set_def tok_seqs_def b fill_seq_id_def fill_n_seq_id_def Some ks)
qed

lemma reset_consistent: "batch_consistent mem (split_reset a) = batch_consistent mem a"
proof -
  have sel: "ba_seq_pos (split_reset a) = ba_seq_pos a" "ba_batch (split_reset a) = ba_batch a"
      "ba_seq_cpl (split_reset a) = ba_seq_cpl a" "ba_seq_set (split_reset a) = ba_seq_set a"
      "ba_n_seq_max (split_reset a) = ba_n_seq_max a" "ba_n_pos_per_embd (split_reset a) = ba_n_pos_per_embd a"
    by (simp_all add: split_reset_def)
  show ?thesis
    unfolding batch_consistent_def check_jump_def [abs_def] check_consecutive_def [abs_def] check_coupled_def [abs_def]
      check_compat_def allocr_seq_pos_min_def allocr_seq_pos_max_def sel ..
qed

lemma init_facts:
  assumes i: "allocr_init inp n_vocab mem n_embd n_seq_max output_all a0 = Inr (Some a)"
    and a0: "length (ba_seq_pos a0) = LLAMA_MAX_SEQ" and s: "s < n_seq_max"
  shows "\<forall>i < bf_n_tokens (ba_batch a). \<forall>x \<in> tok_seq_set (ba_batch a) i. x < n_seq_max"
    and "ba_seq_pos a ! s = batch_positions (ba_batch a) s"
    and "ba_seq_set a = map (tok_seq_set (ba_batch a)) [0..<bf_n_tokens (ba_batch a)]"
    and "batch_consistent mem a = Inr True" and "ba_n_seq_max a = n_seq_max"
    and "ba_n_pos_per_embd a = ba_n_pos_per_embd a0"
proof -
  obtain pos b where I: "b = \<lparr>bf_n_tokens = nat (b_n_tokens inp), bf_token = b_token inp, bf_embd = b_embd inp,
         bf_pos = pos, bf_n_seq_id = fill_n_seq_id inp, bf_seq_id = fill_seq_id inp, bf_logits = fill_logits output_all inp\<rparr>"
      "a = split_reset (batch_stats b n_embd n_seq_max (allocr_clear a0))" "batch_shape (ba_n_pos_per_embd a0) n_embd inp"
      "seqs_valid n_seq_max inp" "n_seq_max \<le> LLAMA_MAX_SEQ"
      "batch_consistent mem (batch_stats b n_embd n_seq_max (allocr_clear a0)) = Inr True"
    using allocr_init_Some [OF i] by blast
  have b: "ba_batch a = b" by (simp add: I(2) split_reset_def batch_stats_fields)
  show v: "\<forall>i < bf_n_tokens (ba_batch a). \<forall>x \<in> tok_seq_set (ba_batch a) i. x < n_seq_max"
  proof (intro allI impI)
    fix i assume "i < bf_n_tokens (ba_batch a)"
    then show "\<forall>x \<in> tok_seq_set (ba_batch a) i. x < n_seq_max"
      using s unfolding b by (intro fill_seqs_valid [OF I(4,3)]) (simp_all add: I(1))
  qed
  have "s < length (map (\<lambda>_. {}) (ba_seq_pos a0))" using s I(5) a0 by simp
  moreover have "\<forall>i \<in> set [0..<bf_n_tokens b]. \<forall>x \<in> tok_seq_set b i. x < length (map (\<lambda>_. {} :: int set) (ba_seq_pos a0))"
    using v I(5) a0 by (fastforce simp: b)
  ultimately show "ba_seq_pos a ! s = batch_positions (ba_batch a) s"
    unfolding b using couple_fold_pos [of s "map (\<lambda>_. {}) (ba_seq_pos a0)" "[0..<bf_n_tokens b]" b]
    by (simp add: I(2) split_reset_def batch_stats_fields allocr_clear_def batch_positions_def)
  show "ba_seq_set a = map (tok_seq_set (ba_batch a)) [0..<bf_n_tokens (ba_batch a)]"
    unfolding b by (simp add: I(2) split_reset_def batch_stats_fields allocr_clear_def)
  show "ba_n_seq_max a = n_seq_max" "ba_n_pos_per_embd a = ba_n_pos_per_embd a0"
    by (simp_all add: I(2) split_reset_def batch_stats_fields allocr_clear_def)
  show "batch_consistent mem a = Inr True" unfolding I(2) reset_consistent by (rule I(6))
qed

text \<open>C12: A batch that is accepted with one position per token continues the memory: the positions of each
  sequence that occurs form an interval without gaps, it starts right after the last position the memory
  holds for that sequence (when it holds one), and along the batch the positions of a sequence never
  decrease. Every sequence id of the batch is below the limit.\<close>

theorem accepted_positions:
  assumes "allocr_init inp n_vocab mem n_embd n_seq_max output_all a0 = Inr (Some a)"
    and "length (ba_seq_pos a0) = LLAMA_MAX_SEQ" and "ba_n_pos_per_embd a0 \<le> 1"
    and "s < n_seq_max" and "P = batch_positions (ba_batch a) s" and "P \<noteq> {}"
  shows "P = {Min P..Max P} \<and>
    (\<forall>p. mem_last mem s = Inr p \<longrightarrow> 0 \<le> p \<longrightarrow> Min P = p + 1) \<and>
    (\<forall>i j. i < j \<longrightarrow> j < get_n_tokens a \<longrightarrow> s \<in> tok_seq_set (ba_batch a) i \<longrightarrow> s \<in> tok_seq_set (ba_batch a) j \<longrightarrow>
       bf_pos (ba_batch a) ! i \<le> bf_pos (ba_batch a) ! j) \<and>
    (\<forall>i < get_n_tokens a. tok_seq_set (ba_batch a) i \<subseteq> {..<n_seq_max})"
proof -
  let ?b = "ba_batch a"
  note F = init_facts [OF assms(1,2,4)]
  have fin: "finite P" unfolding assms(5) batch_positions_def by simp
  have "forall_r (check_consecutive mem a) [0..<n_seq_max] = Inr True" "check_compat a"
    using F(4,5,6) assms(3) by (auto simp: batch_consistent_def split: if_splits)
  then have cons: "check_consecutive mem a s = Inr True" and cc: "check_compat a"
    using assms(4) by (simp_all add: forall_r_True)
  obtain p0 where p0: "mem_last mem s = Inr p0" "\<not> (0 \<le> p0 \<and> Min P \<noteq> p0 + 1)" "Max P - Min P + 1 \<le> int (card P)"
    using cons assms(6) unfolding check_consecutive_def allocr_seq_pos_min_def allocr_seq_pos_max_def F(2)
      assms(5) [symmetric] set_min_def set_max_def by (auto simp: not_less)
  have set_i: "ba_seq_set a ! i = tok_seq_set ?b i" if "i < bf_n_tokens ?b" for i using that F(3) by simp
  obtain r where r: "fold (\<lambda>i. fold (compat_seq (bf_pos ?b ! i) (ba_seq_set a ! i)) (tok_seqs ?b i)) [0..<bf_n_tokens ?b]
      (Some (replicate n_seq_max {..<LLAMA_MAX_SEQ}, replicate n_seq_max (-1))) = Some r"
    using cc by (auto simp: check_compat_def Let_def F(5))
  have "order_inv ?b n_seq_max (Some r) (bf_n_tokens ?b)"
    using order_fold [of "bf_n_tokens ?b" ?b n_seq_max "\<lambda>i. ba_seq_set a ! i" "{..<LLAMA_MAX_SEQ}"] F(1) unfolding r by blast
  then have "bf_pos ?b ! i \<le> bf_pos ?b ! j"
    if "i < j" "j < get_n_tokens a" "s \<in> tok_seq_set ?b i" "s \<in> tok_seq_set ?b j" for i j
    using that assms(4) by (cases r) (simp add: order_inv_def get_n_tokens_def)
  moreover have "P = {Min P..Max P}" using full_span_interval [OF fin assms(6) p0(3)] .
  moreover have "\<forall>i < get_n_tokens a. tok_seq_set ?b i \<subseteq> {..<n_seq_max}"
    using F(1) by (auto simp: get_n_tokens_def)
  ultimately show ?thesis using p0(1,2) by auto
qed

section \<open>A batch of tokens only\<close>

text \<open>The batch of \<^verbatim>\<open>llama_batch_get_one\<close>: everything but the tokens is filled in.\<close>

definition allocr_sized :: "llama_batch_allocr \<Rightarrow> bool" where
  "allocr_sized a \<longleftrightarrow> length (ba_seq_pos a) = LLAMA_MAX_SEQ \<and> length (ba_seq_cpl a) = LLAMA_MAX_SEQ \<and>
     (\<forall>r \<in> set (ba_seq_cpl a). length r = LLAMA_MAX_SEQ)"

definition get_one_full :: "int list \<Rightarrow> int \<Rightarrow> bool \<Rightarrow> llama_batch_full" where
  "get_one_full ts q output_all = (let n = length ts in
     \<lparr>bf_n_tokens = n, bf_token = Some ts, bf_embd = None, bf_pos = map (\<lambda>i. q + int i) [0..<n],
      bf_n_seq_id = replicate n 1, bf_seq_id = replicate n [0],
      bf_logits = (if output_all then replicate n 1 else (replicate n 0)[n - 1 := 1])\<rparr>)"

lemma get_one_seqs:
  assumes "i < length ts"
  shows "tok_seqs (get_one_full ts q oa) i = [0]" and "tok_seq_set (get_one_full ts q oa) i = {0}"
  using assms by (simp_all add: tok_seqs_def tok_seq_set_def get_one_full_def Let_def)

lemma gen_pos_one:
  assumes "p0 \<noteq> []" and "m \<le> n"
  shows "fold_r (gen_pos_step (replicate n 1) (replicate n [0])) [0..<m] (p0, []) =
    Inr (p0[0 := p0 ! 0 + int m], map (\<lambda>i. p0 ! 0 + int i) [0..<m])"
  using assms(2)
proof (induction m)
  case (Suc m)
  then have "gen_pos_step (replicate n 1) (replicate n [0]) m (p0[0 := p0 ! 0 + int m], map (\<lambda>i. p0 ! 0 + int i) [0..<m]) =
      Inr (p0[0 := p0 ! 0 + int (Suc m)], map (\<lambda>i. p0 ! 0 + int i) [0..<Suc m])"
    using assms(1) by (simp add: gen_pos_step_def Let_def add.commute add.left_commute)
  then show ?case using Suc by (simp add: fold_r_append)
qed (use assms(1) in simp)

lemma get_one_couple:
  assumes "\<forall>i \<in> set is. i < length ts"
  shows "snd (fold (couple_step (get_one_full ts q oa)) is (sp, cpl, h)) = (cpl, h)"
  using assms
proof (induction "is" arbitrary: sp)
  case (Cons i "is")
  have "\<exists>sp'. couple_step (get_one_full ts q oa) i (sp, cpl, h) = (sp', cpl, h)"
    using Cons.prems by (simp add: couple_step_def get_one_seqs couple_seq_def)
  then show ?case using Cons by auto
qed simp

lemma get_one_compat:
  assumes "0 < n_seq" and "-1 \<le> q" and "m \<le> length ts" and "\<forall>i < length ts. sets i = {0}"
  shows "\<exists>cs. fold (\<lambda>i. fold (compat_seq (bf_pos (get_one_full ts q oa) ! i) (sets i)) (tok_seqs (get_one_full ts q oa) i)) [0..<m]
      (Some (replicate n_seq {..<LLAMA_MAX_SEQ}, replicate n_seq (-1))) =
    Some (cs, (replicate n_seq (-1))[0 := (if m = 0 then -1 else q + int m - 1)]) \<and> length cs = n_seq \<and> 0 \<in> cs ! 0"
  using assms(3)
proof (induction m)
  case 0
  then show ?case using assms(1) by (cases n_seq) (simp_all add: LLAMA_MAX_SEQ_def)
next
  case (Suc m)
  let ?b = "get_one_full ts q oa"
  obtain cs where cs: "fold (\<lambda>i. fold (compat_seq (bf_pos ?b ! i) (sets i)) (tok_seqs ?b i)) [0..<m]
      (Some (replicate n_seq {..<LLAMA_MAX_SEQ}, replicate n_seq (-1))) =
    Some (cs, (replicate n_seq (-1))[0 := (if m = 0 then -1 else q + int m - 1)])" "length cs = n_seq" "0 \<in> cs ! 0"
    using Suc by auto
  have "bf_pos ?b ! m = q + int m" "tok_seqs ?b m = [0]" "sets m = {0}"
    using Suc.prems assms(4) by (simp_all add: get_one_seqs) (simp add: get_one_full_def Let_def)
  then have "fold (compat_seq (bf_pos ?b ! m) (sets m)) (tok_seqs ?b m)
      (Some (cs, (replicate n_seq (-1))[0 := (if m = 0 then -1 else q + int m - 1)])) =
      Some (cs[0 := cs ! 0 \<inter> {0}], (replicate n_seq (-1))[0 := q + int m])"
    using assms(1,2) cs(3) by (auto simp: compat_seq_def Let_def)
  then show ?case using cs assms(1) by simp
qed

text \<open>The allocator after its statistics are computed for such a batch.\<close>

definition get_one_stats :: "int list \<Rightarrow> int \<Rightarrow> bool \<Rightarrow> nat \<Rightarrow> nat \<Rightarrow> llama_batch_allocr \<Rightarrow> llama_batch_allocr" where
  "get_one_stats ts q oa n_embd n_seq_max a0 = batch_stats (get_one_full ts q oa) n_embd n_seq_max (allocr_clear a0)"

lemma get_one_stats_fields:
  "bf_n_tokens (get_one_full ts q oa) = length ts"
  "ba_batch (get_one_stats ts q oa n_embd n_seq_max a0) = get_one_full ts q oa"
  "ba_n_seq_max (get_one_stats ts q oa n_embd n_seq_max a0) = n_seq_max"
  "ba_seq_set (get_one_stats ts q oa n_embd n_seq_max a0) = replicate (length ts) {0}"
  "ba_seq_cpl (get_one_stats ts q oa n_embd n_seq_max a0) = map (map (\<lambda>_. False)) (ba_seq_cpl a0)"
  "\<not> ba_has_cpl (get_one_stats ts q oa n_embd n_seq_max a0)"
proof -
  show nt: "bf_n_tokens (get_one_full ts q oa) = length ts" by (simp add: get_one_full_def Let_def)
  show "ba_batch (get_one_stats ts q oa n_embd n_seq_max a0) = get_one_full ts q oa"
    "ba_n_seq_max (get_one_stats ts q oa n_embd n_seq_max a0) = n_seq_max"
    by (simp_all add: get_one_stats_def batch_stats_fields)
  show "ba_seq_set (get_one_stats ts q oa n_embd n_seq_max a0) = replicate (length ts) {0}"
    unfolding get_one_stats_def batch_stats_fields nt
    by (rule nth_equalityI) (simp_all add: allocr_clear_def get_one_seqs)
  show "ba_seq_cpl (get_one_stats ts q oa n_embd n_seq_max a0) = map (map (\<lambda>_. False)) (ba_seq_cpl a0)"
    "\<not> ba_has_cpl (get_one_stats ts q oa n_embd n_seq_max a0)"
    using get_one_couple [of "[0..<length ts]" ts q oa]
    by (simp_all add: get_one_stats_def batch_stats_fields nt allocr_clear_def)
qed

lemma get_one_outputs:
  assumes "ts \<noteq> []"
  shows "ba_n_outputs (get_one_stats ts q oa n_embd n_seq_max a0) = (if oa then length ts else 1)"
proof -
  let ?n = "length ts"
  have "count_if (\<lambda>x. x \<noteq> 0) (replicate ?n (1::int)) = ?n" "count_if (\<lambda>x. x \<noteq> 0) (replicate ?n (0::int)) = 0"
    by (simp_all add: count_if_def)
  moreover have "count_if (\<lambda>x. x \<noteq> 0) ((replicate ?n 0)[?n - 1 := 1::int]) = 1"
    using count_if_update [of "?n - 1" "replicate ?n (0::int)" "\<lambda>x. x \<noteq> 0" 1] calculation(2) assms by simp
  ultimately show ?thesis
    by (simp add: get_one_stats_def batch_stats_fields allocr_clear_def count_outputs_def get_one_full_def Let_def)
qed

lemma get_one_positions:
  assumes "allocr_sized a0" and "s < n_seq_max" and "n_seq_max \<le> LLAMA_MAX_SEQ"
  shows "ba_seq_pos (get_one_stats ts (q + 1) oa n_embd n_seq_max a0) ! s = (if s = 0 then {q + 1..q + int (length ts)} else {})"
proof -
  let ?b = "get_one_full ts (q + 1) oa" and ?sp = "map (\<lambda>_. {}) (ba_seq_pos a0) :: int set list"
  have bp: "bf_pos ?b ! i = q + 1 + int i" if "i < length ts" for i using that by (simp add: get_one_full_def Let_def)
  have "s < length ?sp" "\<forall>i \<in> set [0..<length ts]. \<forall>x \<in> tok_seq_set ?b i. x < length ?sp"
    using assms by (auto simp: allocr_sized_def get_one_seqs)
  from couple_fold_pos [OF this, of "map (map (\<lambda>_. False)) (ba_seq_cpl a0)" False]
  have "ba_seq_pos (get_one_stats ts (q + 1) oa n_embd n_seq_max a0) ! s =
      {bf_pos ?b ! i | i. i < length ts \<and> s \<in> tok_seq_set ?b i}"
    using assms by (simp add: get_one_stats_def batch_stats_fields get_one_stats_fields(1) allocr_clear_def allocr_sized_def)
  also have "\<dots> = (if s = 0 then (\<lambda>i. bf_pos ?b ! i) ` {..<length ts} else {})"
    by (auto simp: get_one_seqs intro!: exI)
  also have "(\<lambda>i. bf_pos ?b ! i) ` {..<length ts} = (\<lambda>i. q + 1 + int i) ` {..<length ts}"
    using bp by (intro image_cong) auto
  also have "(\<lambda>i. q + 1 + int i) ` {..<length ts} = {q + 1..q + int (length ts)}"
  proof (intro equalityI subsetI)
    fix x assume "x \<in> {q + 1..q + int (length ts)}"
    then show "x \<in> (\<lambda>i. q + 1 + int i) ` {..<length ts}" by (intro image_eqI [of _ _ "nat (x - q - 1)"]) auto
  qed auto
  finally show ?thesis .
qed

lemma get_one_consistent:
  assumes ts: "ts \<noteq> []" and n: "0 < n_seq_max" "n_seq_max \<le> LLAMA_MAX_SEQ" and a0: "allocr_sized a0"
    and mem: "\<And>s. s < n_seq_max \<Longrightarrow> mem_last mem s = Inr (f s)" and f0: "-1 \<le> f 0"
  shows "batch_consistent mem (get_one_stats ts (f 0 + 1) oa n_embd n_seq_max a0) = Inr True"
proof -
  define a where "a = get_one_stats ts (f 0 + 1) oa n_embd n_seq_max a0"
  note F = get_one_stats_fields(1) [of ts "f 0 + 1" oa]
    get_one_stats_fields(2-6) [of ts "f 0 + 1" oa n_embd n_seq_max a0, folded a_def]
  have ne: "{f 0 + 1..f 0 + int (length ts)} \<noteq> {}" using ts by (cases ts) simp_all
  have mm: "Min {f 0 + 1..f 0 + int (length ts)} = f 0 + 1" "Max {f 0 + 1..f 0 + int (length ts)} = f 0 + int (length ts)"
    using ne by (auto intro!: Min_eqI Max_eqI)
  have consec: "check_consecutive mem a s = Inr True" "check_jump mem a s = Inr True" if s: "s < n_seq_max" for s
    using get_one_positions [OF a0 s n(2), of ts "f 0" oa n_embd] mem [OF s] ne mm unfolding a_def [symmetric]
    by (auto simp: check_consecutive_def check_jump_def allocr_seq_pos_min_def allocr_seq_pos_max_def set_min_def set_max_def)
  have "check_coupled mem a s0 = Inr True" if s0: "s0 < n_seq_max" for s0
  proof (cases mem)
    case (Some m)
    have l: "s0 < length (ba_seq_cpl a0)" using s0 n(2) a0 by (simp add: allocr_sized_def)
    have "\<not> ba_seq_cpl a ! s0 ! s1" if "s1 < n_seq_max" for s1
    proof -
      have "s1 < length (ba_seq_cpl a0 ! s0)" using nth_mem [OF l] a0 that n(2) by (simp add: allocr_sized_def)
      then show ?thesis using l by (simp add: F(5))
    qed
    then show ?thesis by (simp add: check_coupled_def Some forall_r_True F(3))
  qed (simp add: check_coupled_def)
  moreover have "check_compat a"
    using get_one_compat [of n_seq_max "f 0 + 1" "length ts" ts "\<lambda>i. ba_seq_set a ! i" oa] n(1) f0
    by (auto simp: check_compat_def Let_def F)
  ultimately show ?thesis
    unfolding a_def [symmetric] using consec by (simp add: batch_consistent_def F(3) forall_r_True [THEN iffD2])
qed

lemma get_one_init:
  assumes ts: "ts \<noteq> []" "list_all (\<lambda>t. 0 \<le> t \<and> t < int n_vocab) ts"
    and n: "0 < n_seq_max" "n_seq_max \<le> LLAMA_MAX_SEQ" and a0: "allocr_sized a0"
    and mem: "\<And>s. s < n_seq_max \<Longrightarrow> mem_last mem s = Inr (f s)" and f0: "-1 \<le> f 0"
  shows "allocr_init (llama_batch_get_one ts (int (length ts))) n_vocab mem n_embd n_seq_max oa a0 =
    Inr (Some (split_reset (get_one_stats ts (f 0 + 1) oa n_embd n_seq_max a0)))"
proof -
  let ?inp = "llama_batch_get_one ts (int (length ts))"
  have "first_positions mem n_seq_max = Inr (map (\<lambda>s. f s + 1) [0..<n_seq_max])"
    unfolding first_positions_def
  proof (rule map_r_Inr)
    fix s assume "s \<in> set [0..<n_seq_max]"
    then show "(case mem of None \<Rightarrow> Inr 0 | Some m \<Rightarrow> bind_r (mem_seq_pos_max m (int s)) (\<lambda>p. Inr (p + 1))) = Inr (f s + 1)"
      using mem [of s] by (auto simp: mem_last_def split: option.splits)
  qed
  then have pos: "fill_pos mem n_seq_max ?inp = Inr (map (\<lambda>i. f 0 + 1 + int i) [0..<length ts])"
    using gen_pos_one [of "map (\<lambda>s. f s + 1) [0..<n_seq_max]" "length ts" "length ts"] n(1)
    by (simp add: fill_pos_def llama_batch_get_one_def fill_n_seq_id_def fill_seq_id_def)
  have b: "\<lparr>bf_n_tokens = nat (b_n_tokens ?inp), bf_token = b_token ?inp, bf_embd = b_embd ?inp,
      bf_pos = map (\<lambda>i. f 0 + 1 + int i) [0..<length ts], bf_n_seq_id = fill_n_seq_id ?inp, bf_seq_id = fill_seq_id ?inp,
      bf_logits = fill_logits oa ?inp\<rparr> = get_one_full ts (f 0 + 1) oa"
    by (simp add: get_one_full_def llama_batch_get_one_def fill_n_seq_id_def fill_seq_id_def fill_logits_def Let_def)
  show ?thesis
    using ts n get_one_consistent [OF ts(1) n a0 mem f0, of oa n_embd]
    unfolding allocr_init_def Let_def pos bind_r_simps b get_one_stats_def [symmetric]
    by (simp add: llama_batch_get_one_def batch_shape_def tokens_valid_def seqs_valid_def)
qed

text \<open>A batch of valid tokens only, as \<open>llama_batch_get_one\<close> makes it, is always accepted: whatever the
  memory holds, the tokens get the positions that follow the last one of sequence 0, all belong to
  sequence 0, and either the last token or all of them are outputs.\<close>

theorem get_one_accepted:
  assumes "ts \<noteq> []" and "list_all (\<lambda>t. 0 \<le> t \<and> t < int n_vocab) ts"
    and "0 < n_seq_max" and "n_seq_max \<le> LLAMA_MAX_SEQ" and "allocr_sized a0"
    and "\<And>s. s < n_seq_max \<Longrightarrow> mem_last mem s = Inr (f s)" and "-1 \<le> f 0"
  shows "\<exists>a. allocr_init (llama_batch_get_one ts (int (length ts))) n_vocab mem n_embd n_seq_max oa a0 = Inr (Some a) \<and>
    bf_pos (ba_batch a) = map (\<lambda>i. f 0 + 1 + int i) [0..<length ts] \<and>
    (\<forall>i < length ts. tok_seqs (ba_batch a) i = [0]) \<and> ba_n_outputs a = (if oa then length ts else 1) \<and>
    get_n_tokens a = length ts \<and> get_n_used a = 0"
proof -
  let ?a = "get_one_stats ts (f 0 + 1) oa n_embd n_seq_max a0"
  have "ba_batch (split_reset ?a) = get_one_full ts (f 0 + 1) oa"
    "ba_n_outputs (split_reset ?a) = (if oa then length ts else 1)" "get_n_used (split_reset ?a) = 0"
    using get_one_outputs [OF assms(1)] by (simp_all add: split_reset_def get_one_stats_fields get_n_used_def)
  moreover have "bf_pos (get_one_full ts (f 0 + 1) oa) = map (\<lambda>i. f 0 + 1 + int i) [0..<length ts]"
    by (simp add: get_one_full_def Let_def)
  ultimately show ?thesis
    using get_one_init [OF assms(1-5,6) assms(7), of n_embd oa] get_one_seqs
    by (intro exI [of _ "split_reset ?a"]) (simp add: get_n_tokens_def get_one_stats_fields)
qed

theorem get_one_accepted_witness:
  "\<exists>a. allocr_init (llama_batch_get_one [5, 6, 7] 3) 10 None 0 1 False (batch_allocr 1) = Inr (Some a) \<and>
     bf_pos (ba_batch a) = [0, 1, 2] \<and> ba_n_outputs a = 1"
  using get_one_accepted [of "[5, 6, 7]" 10 1 "batch_allocr 1" None "\<lambda>_. -1" 0 False]
  by (auto simp: mem_last_def LLAMA_MAX_SEQ_def allocr_sized_def batch_allocr_def upt_rec)

definition get_one_example :: llama_batch_allocr where
  "get_one_example = split_reset (get_one_stats [5, 6, 7] 0 False 0 1 (batch_allocr 1))"

lemma get_one_example_init:
  "allocr_init (llama_batch_get_one [5, 6, 7] 3) 10 None 0 1 False (batch_allocr 1) = Inr (Some get_one_example)"
  using get_one_init [of "[5, 6, 7]" 10 1 "batch_allocr 1" None "\<lambda>_. -1" 0 False]
  by (simp add: mem_last_def LLAMA_MAX_SEQ_def allocr_sized_def batch_allocr_def get_one_example_def)

lemma get_one_example_fields:
  "ba_batch get_one_example = get_one_full [5, 6, 7] 0 False" "get_n_tokens get_one_example = 3"
  "ba_seq_set get_one_example = [{0}, {0}, {0}]" "\<not> ba_has_cpl get_one_example"
  "ba_n_pos_per_embd get_one_example = 1"
proof -
  show "ba_batch get_one_example = get_one_full [5, 6, 7] 0 False" "get_n_tokens get_one_example = 3"
    by (simp_all add: get_one_example_def split_reset_def get_n_tokens_def get_one_stats_fields)
  show "ba_seq_set get_one_example = [{0}, {0}, {0}]" "\<not> ba_has_cpl get_one_example"
    by (simp_all add: get_one_example_def split_reset_def get_one_stats_fields numeral_3_eq_3)
  show "ba_n_pos_per_embd get_one_example = 1"
    by (simp add: get_one_example_def split_reset_def get_one_stats_def batch_stats_fields allocr_clear_def batch_allocr_def)
qed

theorem batch_partition_witness:
  "\<exists>us parts a'. split_all 4 (split_by (Equal True 0) 2) get_one_example = Inr (Some (us, a')) \<and>
     length us = length parts \<and> mset (concat parts) = mset [0, 1, 2 :: nat] \<and> get_n_used a' = 3"
proof -
  have "list_all (\<lambda>S. S \<noteq> {}) (ba_seq_set get_one_example)" "\<not> refuses_coupled (Equal True 0) get_one_example" by (simp_all add: get_one_example_fields)
  moreover have "Suc (get_n_tokens get_one_example) = 4" "[0..<get_n_tokens get_one_example] = [0, 1, 2]"
    by (simp_all add: get_one_example_fields upt_rec)
  ultimately show ?thesis
    using batch_partition [OF get_one_example_init, of "Equal True 0" 2]
    by (auto simp: llama_batch_get_one_def mrope_positions_given_def batch_allocr_def get_one_example_fields dest: list_all2_lengthD)
qed

theorem accepted_positions_witness:
  "batch_positions (ba_batch get_one_example) 0 = {Min (batch_positions (ba_batch get_one_example) 0)..2} \<and>
   (0::int) \<in> batch_positions (ba_batch get_one_example) 0"
proof -
  have "batch_positions (ba_batch get_one_example) 0 = {0, 1, 2}"
  proof -
    have "bf_n_tokens (get_one_full [5, 6, 7] 0 False) = 3" "bf_pos (get_one_full [5, 6, 7] 0 False) = [0, 1, 2]"
      by (simp_all add: get_one_full_def upt_rec)
    then show ?thesis
      unfolding get_one_example_fields batch_positions_def by (auto simp: get_one_seqs less_Suc_eq numeral_3_eq_3 intro: exI [of _ 0] exI [of _ "Suc 0"]
          exI [of _ "Suc (Suc 0)"])
  qed
  note B = this
  have m: "Min {0, 1, 2 :: int} = 0" "Max {0, 1, 2 :: int} = 2" by simp_all
  from accepted_positions [OF get_one_example_init, of 0 "batch_positions (ba_batch get_one_example) 0"]
  have "{0, 1, 2 :: int} = {0..2}" unfolding B m by (simp add: batch_allocr_def)
  then show ?thesis unfolding B m by simp
qed

section \<open>The shape of a split into equal lengths\<close>

text \<open>One split into equal lengths takes, from pairwise disjoint sequence sets, the same number of
  tokens each: the next unused tokens of that set in batch order. The micro-batch has at most one token
  more than asked for, lists one set after the other, and when a tail is to be kept together
  every set it takes from is finished or has at least that many tokens left.\<close>

theorem split_equal_shape:
  assumes "equal_inv n_ubatch sequential keep a" and "unused_tokens a \<noteq> {}"
  shows "\<exists>ss parts u a'. split_equal n_ubatch sequential keep a = Inr (u, a') \<and> equal_inv n_ubatch sequential keep a' \<and>
    carries (ba_batch a) (ba_n_pos_per_embd a) (ba_n_seq_max a) u (concat parts) \<and> length ss = length parts \<and>
    ub_n_seqs u = length parts \<and> (\<forall>p \<in> set parts. length p = ub_n_seq_tokens u) \<and> disjoint_sets_list ss \<and>
    ub_n_tokens u \<le> n_ubatch + 1 \<and>
    (\<forall>i < length ss. parts ! i \<noteq> [] \<and> rest a (ss ! i) = parts ! i @ rest a' (ss ! i) \<and>
       (0 < keep \<longrightarrow> rest a' (ss ! i) = [] \<or> keep \<le> length (rest a' (ss ! i))))"
proof -
  obtain ss parts u a' where P: "split_equal n_ubatch sequential keep a = Inr (u, a')" "picked (concat parts) a a'"
      "carries (ba_batch a) (ba_n_pos_per_embd a) (ba_n_seq_max a) u (concat parts)" "equal_inv n_ubatch sequential keep a'"
      "parts_of a ss parts" "disjoint_sets_list ss" "ub_n_seqs u = length parts"
      "\<forall>p \<in> set parts. length p = ub_n_seq_tokens u" "length (concat parts) \<le> n_ubatch + 1"
      "0 < keep \<longrightarrow> tail_kept keep a ss parts"
    using split_equal_progress [OF assms] by blast
  have ok: "allocr_ok a" using assms(1) by (simp add: equal_inv_def equal_ok_def)
  have len: "length ss = length parts" using P(5) by (auto simp: parts_of_def dest: list_all2_lengthD)
  have "parts ! i \<noteq> [] \<and> rest a (ss ! i) = parts ! i @ rest a' (ss ! i) \<and>
       (0 < keep \<longrightarrow> rest a' (ss ! i) = [] \<or> keep \<le> length (rest a' (ss ! i)))" if i: "i < length ss" for i
  proof -
    obtain r where r: "parts ! i = take r (rest a (ss ! i))" "parts ! i \<noteq> []"
      using P(5) i by (auto simp: parts_of_def list_all2_conv_all_nth)
    have d: "rest a' (ss ! i) = drop (length (parts ! i)) (rest a (ss ! i))" by (rule rest_after_part [OF ok P(5,2) i])
    moreover have "take (length (parts ! i)) (rest a (ss ! i)) = parts ! i" unfolding r(1) by (simp add: min_def)
    ultimately have "rest a (ss ! i) = parts ! i @ rest a' (ss ! i)" by (metis append_take_drop_id)
    moreover have "rest a' (ss ! i) = [] \<or> keep \<le> length (rest a' (ss ! i))" if "0 < keep"
      using P(10) that i len by (auto simp: tail_kept_def list_all2_conv_all_nth d)
    ultimately show ?thesis using r(2) by blast
  qed
  then show ?thesis using P len by (intro exI [of _ ss] exI [of _ parts] exI [of _ u] exI [of _ a']) (simp add: carries_def)
qed

theorem split_equal_shape_witness:
  "\<exists>u a'. split_equal 2 True 1 get_one_example = Inr (u, a') \<and> ub_n_tokens u \<le> 3"
proof -
  have n: "b_n_tokens (llama_batch_get_one [5, 6, 7] 3) \<le> int INT32_MAX"
      "mrope_positions_given (ba_n_pos_per_embd (batch_allocr 1)) (llama_batch_get_one [5, 6, 7] 3)"
    by (simp_all add: llama_batch_get_one_def mrope_positions_given_def)
  note ok = init_allocr_ok [OF get_one_example_init n]
  have "mode_ok (Equal True 1) 2 get_one_example" by (simp add: get_one_example_fields)
  then have "equal_inv 2 True 1 get_one_example"
    using fresh_invariants(2) [OF ok(1)] ok(2,3) by simp
  moreover have "unused_tokens get_one_example \<noteq> {}" unfolding ok(2) by (simp add: llama_batch_get_one_def lessThan_empty_iff)
  ultimately show ?thesis using split_equal_shape [of 2 True 1 get_one_example] by auto
qed

section \<open>Limits of the splits\<close>

text \<open>Two tokens of two sequences, accepted by an allocator for two sequences.\<close>

definition two_seqs :: llama_batch where
  "two_seqs = \<lparr>b_n_tokens = 2, b_token = Some [5, 6], b_embd = None, b_pos = None, b_n_seq_id = Some [1, 1],
     b_seq_id = Some [[0], [1]], b_logits = None\<rparr>"

definition two_full :: llama_batch_full where
  "two_full = \<lparr>bf_n_tokens = 2, bf_token = Some [5, 6], bf_embd = None, bf_pos = [0, 0], bf_n_seq_id = [1, 1],
     bf_seq_id = [[0], [1]], bf_logits = [0, 1]\<rparr>"

definition two_allocr :: llama_batch_allocr where
  "two_allocr = split_reset (batch_stats two_full 0 2 (allocr_clear (batch_allocr 1)))"

lemma two_full_fields:
  "bf_n_tokens two_full = 2" "bf_pos two_full = [0, 0]" "bf_seq_id two_full = [[0], [1]]"
  "tok_seqs two_full 0 = [0]" "tok_seqs two_full (Suc 0) = [1]"
  "tok_seq_set two_full 0 = {0}" "tok_seq_set two_full (Suc 0) = {1}"
  by (simp_all add: tok_seqs_def tok_seq_set_def two_full_def)

lemma two_consistent: "batch_consistent None (batch_stats two_full 0 2 (allocr_clear (batch_allocr 1))) = Inr True"
  by (simp add: batch_consistent_def batch_stats_fields allocr_clear_def batch_allocr_def check_consecutive_def
    check_coupled_def check_compat_def compat_seq_def couple_step_def couple_seq_def two_full_fields
    mem_last_def allocr_seq_pos_min_def allocr_seq_pos_max_def set_min_def set_max_def LLAMA_MAX_SEQ_def numeral_2_eq_2)

lemma two_init: "allocr_init two_seqs 10 None 0 2 False (batch_allocr 1) = Inr (Some two_allocr)"
proof -
  have p: "fill_pos None 2 two_seqs = Inr [0, 0]"
    by (simp add: fill_pos_def two_seqs_def first_positions_def fill_n_seq_id_def fill_seq_id_def gen_pos_step_def numeral_2_eq_2)
  have "\<lparr>bf_n_tokens = nat (b_n_tokens two_seqs), bf_token = b_token two_seqs, bf_embd = b_embd two_seqs,
      bf_pos = [0, 0], bf_n_seq_id = fill_n_seq_id two_seqs, bf_seq_id = fill_seq_id two_seqs,
      bf_logits = fill_logits False two_seqs\<rparr> = two_full"
    by (simp add: two_full_def two_seqs_def fill_n_seq_id_def fill_seq_id_def fill_logits_def numeral_2_eq_2)
  moreover have "batch_shape (ba_n_pos_per_embd (allocr_clear (batch_allocr 1))) 0 two_seqs" "0 < b_n_tokens two_seqs"
      "\<not> LLAMA_MAX_SEQ < 2" "tokens_valid 10 two_seqs" "seqs_valid 2 two_seqs"
    by (simp_all add: two_seqs_def batch_shape_def tokens_valid_def seqs_valid_def LLAMA_MAX_SEQ_def numeral_2_eq_2)
  ultimately show ?thesis using two_consistent unfolding allocr_init_def Let_def p by (simp add: two_allocr_def)
qed

lemma two_allocr_fields:
  "ba_batch two_allocr = two_full" "ba_used two_allocr = [False, False]" "ba_seq_set two_allocr = [{0}, {1}]"
  "ba_n_pos_per_embd two_allocr = 1" "get_n_tokens two_allocr = 2" "\<not> ba_has_cpl two_allocr"
  "ba_seq_set_map two_allocr {0} = [0]" "ba_seq_set_map two_allocr {Suc 0} = [1]"
  by (simp_all add: two_allocr_def split_reset_def batch_stats_fields allocr_clear_def batch_allocr_def get_n_tokens_def
    two_full_fields couple_step_def couple_seq_def numeral_2_eq_2 set_map_step_def)

lemma two_split: "split_equal 1 sq 0 two_allocr = ubatch_add [0, 1] 2 True (take_tokens [0, 1] two_allocr)"
proof -
  have "equal_sets two_allocr 1 sq [0..<2] [] (-1) = [{0}, {1}]"
    by (simp add: two_allocr_fields numeral_2_eq_2 two_full_def)
  moreover have "first_unused_in two_allocr [0] = Inr 0" "first_unused_in two_allocr [Suc 0] = Inr 0"
    by (simp_all add: first_unused_in_def two_allocr_fields)
  moreover have "equal_rounds 1 [[0], [Suc 0]] [0, 0] [[], []] two_allocr = ([1, 1], [[0], [1]], take_tokens [0, 1] two_allocr)"
    by (simp add: equal_rounds.simps)
  ultimately show ?thesis
    unfolding split_equal_def two_allocr_fields by (simp add: two_allocr_fields numeral_2_eq_2)
qed

text \<open>The limit on the size of a micro-batch is not kept by \<open>split_equal\<close>: the number of sequence sets is
  compared with the limit only after one more was taken, and the first round takes one token of every set.
  An accepted batch of two tokens in two sequences, to be split into micro-batches of one token, gives one
  micro-batch of two.\<close>

theorem split_equal_exceeds:
  "\<exists>a u a'. allocr_init two_seqs 10 None 0 2 False (batch_allocr 1) = Inr (Some a) \<and>
     split_equal 1 False 0 a = Inr (u, a') \<and> split_equal 1 True 0 a = Inr (u, a') \<and> ub_n_tokens u = 2"
  unfolding two_init two_allocr_def [symmetric] using two_split [of False] two_split [of True]
  by (simp add: ubatch_add_def take_tokens_def two_allocr_fields two_full_def Let_def split: prod.splits)

text \<open>Positions that were left out are generated one per token, also when the model has several positions
  per embedding. A batch of embeddings without positions is then accepted, and the first micro-batch that is
  cut from it reads past the end of the positions.\<close>

theorem mrope_auto_positions_undefined:
  assumes i: "allocr_init inp n_vocab mem n_embd n_seq_max output_all a0 = Inr (Some a)"
    and e: "b_token inp = None" "b_pos inp = None" and p: "1 < ba_n_pos_per_embd a0"
    and n: "b_n_tokens inp \<le> int INT32_MAX"
  shows "split_simple n_ubatch a = Inl Undefined"
proof -
  obtain pos b where I: "fill_pos mem n_seq_max inp = Inr pos"
      "b = \<lparr>bf_n_tokens = nat (b_n_tokens inp), bf_token = b_token inp, bf_embd = b_embd inp, bf_pos = pos,
         bf_n_seq_id = fill_n_seq_id inp, bf_seq_id = fill_seq_id inp, bf_logits = fill_logits output_all inp\<rparr>"
      "a = split_reset (batch_stats b n_embd n_seq_max (allocr_clear a0))" "0 < b_n_tokens inp"
    using allocr_init_Some [OF i] by blast
  have l: "length pos = nat (b_n_tokens inp)"
    using I(1) e(2) gen_pos_length [of "fill_n_seq_id inp" "fill_seq_id inp"] by (fastforce simp: fill_pos_def)
  have a: "ba_batch a = b" "ba_used a = replicate (nat (b_n_tokens inp)) False" "ba_n_used a = 0"
      "ba_n_pos_per_embd a = ba_n_pos_per_embd a0"
    by (simp_all add: I(2,3) split_reset_def batch_stats_fields get_n_tokens_def allocr_clear_def)
  have c: "first_unused a = 0" "0 < nat (b_n_tokens inp)"
    using I(4) by (auto simp: first_unused_def a takeWhile_eq_Nil_iff)
  obtain j where j: "0 < j" "simple_loop n_ubatch 0 [] a =
      ([0..<j], a\<lparr>ba_used := marked [0..<j] (ba_used a), ba_n_used := ba_n_used a + j\<rparr>)"
  proof -
    have "nat (b_n_tokens inp) \<le> UINT32_MAX" using n by linarith
    then show ?thesis using simple_loop_eq [of 0 a n_ubatch "[]"] c that by (auto simp: a)
  qed
  have "\<not> list_all (\<lambda>j'. list_all (\<lambda>i. (if bf_token b \<noteq> None then 0 else j' * bf_n_tokens b) + i < length (bf_pos b)) [0..<j])
      [0..<ba_n_pos_per_embd a0]"
  proof
    assume "list_all (\<lambda>j'. list_all (\<lambda>i. (if bf_token b \<noteq> None then 0 else j' * bf_n_tokens b) + i < length (bf_pos b)) [0..<j])
      [0..<ba_n_pos_per_embd a0]"
    moreover have "1 \<in> set [0..<ba_n_pos_per_embd a0]" "0 \<in> set [0..<j]" using p j(1) by simp_all
    ultimately have "(if bf_token b \<noteq> None then 0 else 1 * bf_n_tokens b) + 0 < length (bf_pos b)"
      unfolding list_all_iff by blast
    then show False using l e(1) by (simp add: I(2))
  qed
  then show ?thesis using c j
    by (simp add: split_simple_def a ubatch_add_def Let_def)
qed

definition embd_batch :: llama_batch where
  "embd_batch = \<lparr>b_n_tokens = 1, b_token = None, b_embd = Some [0], b_pos = None, b_n_seq_id = None,
     b_seq_id = None, b_logits = None\<rparr>"

definition embd_full :: llama_batch_full where
  "embd_full = \<lparr>bf_n_tokens = 1, bf_token = None, bf_embd = Some [0], bf_pos = [0], bf_n_seq_id = [1],
     bf_seq_id = [[0]], bf_logits = [1]\<rparr>"

lemma embd_init:
  "allocr_init embd_batch 10 None 1 1 False (batch_allocr 4) =
     Inr (Some (split_reset (batch_stats embd_full 1 1 (allocr_clear (batch_allocr 4)))))"
proof -
  have t: "tok_seqs embd_full 0 = [0]" "tok_seq_set embd_full 0 = {0}" "bf_n_tokens embd_full = 1"
      "bf_token embd_full = None" "bf_pos embd_full = [0]"
    by (simp_all add: tok_seqs_def tok_seq_set_def embd_full_def)
  have "batch_consistent None (batch_stats embd_full 1 1 (allocr_clear (batch_allocr 4))) = Inr True"
    by (simp add: batch_consistent_def batch_stats_fields allocr_clear_def batch_allocr_def check_jump_def
      check_coupled_def check_compat_def compat_seq_def couple_step_def couple_seq_def t
      mem_last_def LLAMA_MAX_SEQ_def lessThan_empty_iff)
  moreover have p: "fill_pos None 1 embd_batch = Inr [0]"
    by (simp add: fill_pos_def embd_batch_def first_positions_def fill_n_seq_id_def fill_seq_id_def gen_pos_step_def)
  moreover have "\<lparr>bf_n_tokens = nat (b_n_tokens embd_batch), bf_token = b_token embd_batch, bf_embd = b_embd embd_batch,
      bf_pos = [0], bf_n_seq_id = fill_n_seq_id embd_batch, bf_seq_id = fill_seq_id embd_batch,
      bf_logits = fill_logits False embd_batch\<rparr> = embd_full"
    by (simp add: embd_full_def embd_batch_def fill_n_seq_id_def fill_seq_id_def fill_logits_def)
  moreover have "batch_shape (ba_n_pos_per_embd (allocr_clear (batch_allocr 4))) 1 embd_batch" "0 < b_n_tokens embd_batch"
      "\<not> LLAMA_MAX_SEQ < 1" "tokens_valid 10 embd_batch" "seqs_valid 1 embd_batch"
    by (simp_all add: embd_batch_def batch_shape_def tokens_valid_def seqs_valid_def LLAMA_MAX_SEQ_def)
  ultimately show ?thesis unfolding allocr_init_def Let_def p by simp
qed

theorem mrope_auto_positions_undefined_witness:
  "split_simple 8 (split_reset (batch_stats embd_full 1 1 (allocr_clear (batch_allocr 4)))) = Inl Undefined"
  using mrope_auto_positions_undefined [OF embd_init, of 8] by (simp add: embd_batch_def batch_allocr_def)

end
