(* ===== verification/KvCache.thy ===== *)
theory KvCache
  imports TailInv Batch
begin

text \<open>
  The KV cache, \<^verbatim>\<open>class llama_kv_cache\<close> of \<^verbatim>\<open>src/llama-kv-cache.cpp\<close>: it owns one cell object per
  stream, the search heads, the exact tail with the generation of every cell, and the copies that wait for
  the next update. Modelled are the operations of \<^verbatim>\<open>llama_memory_i\<close> on sequences, the search for a slot,
  the placement of a micro-batch and its rehearsal. Every call of the tail store and of the cell
  objects is the call of the source, in its order. The contents of the tensors are not
  modelled: clearing a buffer and copying a stream or a tail row leave no trace but the pending list.
\<close>

section \<open>Data\<close>

record stream_copy_info =
  sc_ssrc :: "nat list"
  sc_sdst :: "nat list"
  sc_tail_src :: "int list"
  sc_tail_dst :: "int list"
  sc_tail_transaction :: bool

record slot_info =
  si_s0 :: nat
  si_s1 :: nat
  si_strm :: "nat list"
  si_idxs :: "nat list list"

record llama_kv_cache =
  kv_other :: "llama_memory_i option"
  kv_n_seq_max :: nat
  kv_n_stream :: nat
  kv_n_swa :: nat
  kv_swa_type :: llama_swa_type
  kv_n_pos_per_embd :: nat
  kv_rollback :: nat
  kv_metadata_only :: bool
  kv_tail_plan :: llama_kv_tail_storage_plan
  kv_arena_stride :: nat
  kv_sink_slots :: nat
  kv_tail_slots :: nat
  kv_tail :: "llama_kv_tail_store option"
  kv_generations :: "nat list list"
  kv_generations_before :: "nat list list"
  kv_ordinal :: nat
  kv_write_slots :: "int list"
  kv_write_levels :: nat
  kv_preparing :: bool
  kv_graph_started :: bool
  kv_group_size :: nat
  kv_stage_groups :: nat
  kv_seq_heads :: "nat list"
  kv_seq_to_stream :: "nat list"
  kv_cells :: "llama_kv_cells list"
  kv_heads :: "nat list"
  kv_sc_info :: stream_copy_info

definition sc_none :: stream_copy_info where
  "sc_none = \<lparr>sc_ssrc = [], sc_sdst = [], sc_tail_src = [], sc_tail_dst = [], sc_tail_transaction = False\<rparr>"

definition sc_empty :: "stream_copy_info \<Rightarrow> bool res" where
  "sc_empty sc =
     assert_r (length (sc_ssrc sc) = length (sc_sdst sc))
       (assert_r (length (sc_tail_src sc) = length (sc_tail_dst sc))
         (Inr (sc_ssrc sc = [] \<and> sc_tail_src sc = [] \<and> \<not> sc_tail_transaction sc)))"

definition slot_none :: slot_info where
  "slot_none = \<lparr>si_s0 = 0, si_s1 = 0, si_strm = [], si_idxs = []\<rparr>"

definition slot_size :: "slot_info \<Rightarrow> nat res" where
  "slot_size si = assert_r (length (si_idxs si) = length (si_strm si))
     (assert_r (si_idxs si \<noteq> []) (Inr (length (si_idxs si ! 0))))"

definition slot_is_contiguous :: "slot_info \<Rightarrow> bool" where
  "slot_is_contiguous si =
     (if si_idxs si = [] \<or> si_idxs si ! 0 = [] then True
      else if length (si_idxs si) > 1 then False
      else list_all (\<lambda>i. si_idxs si ! 0 ! i = si_idxs si ! 0 ! 0 + i) [0..<length (si_idxs si ! 0)])"

definition has_compact_tail :: "llama_kv_cache \<Rightarrow> bool" where
  "has_compact_tail kv = (sp_kind (kv_tail_plan kv) = LLAMA_KV_TAIL_STORAGE_COMPACT_OVERLAY \<or>
     sp_kind (kv_tail_plan kv) = LLAMA_KV_TAIL_STORAGE_COMPACT_NATIVE_EXACT)"

section \<open>Queries\<close>

text \<open>The stream of a sequence, read after the assertion that guards every such read.\<close>

definition stream_of :: "llama_kv_cache \<Rightarrow> int \<Rightarrow> nat res" where
  "stream_of kv seq_id =
     assert_r (seq_id \<ge> 0 \<and> nat seq_id < length (kv_seq_to_stream kv))
       (let s = kv_seq_to_stream kv ! nat seq_id
        in if s < length (kv_cells kv) \<and> s < length (kv_heads kv) then Inr s else Inl Undefined)"

definition kv_seq_pos_min :: "llama_kv_cache \<Rightarrow> int \<Rightarrow> int res" where
  "kv_seq_pos_min kv seq_id = (case kv_other kv of Some m \<Rightarrow> mem_seq_pos_min m seq_id
     | None \<Rightarrow> bind_r (stream_of kv seq_id) (\<lambda>s. kv_cells_seq_pos_min (kv_cells kv ! s) seq_id))"

definition kv_seq_pos_max :: "llama_kv_cache \<Rightarrow> int \<Rightarrow> int res" where
  "kv_seq_pos_max kv seq_id = (case kv_other kv of Some m \<Rightarrow> mem_seq_pos_max m seq_id
     | None \<Rightarrow> bind_r (stream_of kv seq_id) (\<lambda>s. kv_cells_seq_pos_max (kv_cells kv ! s) seq_id))"

text \<open>The cache as the memory that the batch allocator asks.\<close>

definition kv_memory :: "llama_kv_cache \<Rightarrow> llama_memory_i" where
  "kv_memory kv = \<lparr>mem_seq_pos_min = kv_seq_pos_min kv, mem_seq_pos_max = kv_seq_pos_max kv\<rparr>"

definition kv_get_size :: "llama_kv_cache \<Rightarrow> nat res" where
  "kv_get_size kv = bind_r (stream_of kv 0) (\<lambda>s. Inr (kv_cells_size (kv_cells kv ! s)))"

definition kv_cells_at_pos :: "llama_kv_cache \<Rightarrow> int \<Rightarrow> int \<Rightarrow> nat \<Rightarrow> (nat \<times> nat list) res" where
  "kv_cells_at_pos kv seq_id p n_max =
     bind_r (stream_of kv seq_id) (\<lambda>s. bind_r (kv_cells_cells_at (kv_cells kv ! s) seq_id p) (\<lambda>r.
       Inr (length r, take n_max r)))"

section \<open>Allocation heads of structured caches\<close>

definition reset_allocation_head :: "int \<Rightarrow> llama_kv_cache \<Rightarrow> llama_kv_cache" where
  "reset_allocation_head seq_id kv =
     (if seq_id < 0 \<or> nat seq_id \<ge> kv_n_seq_max kv \<or> kv_seq_heads kv = [] then kv
      else kv\<lparr>kv_seq_heads := (kv_seq_heads kv)[nat seq_id := 0]\<rparr>)"

definition newest_cell :: "llama_kv_cells \<Rightarrow> int \<Rightarrow> nat res" where
  "newest_cell c seq_id =
     bind_r (fold_r (\<lambda>i (pos_max, newest).
         bind_r (kv_cells_seq_has c i seq_id) (\<lambda>has.
           if has then bind_r (kv_cells_pos_get c i) (\<lambda>p.
             Inr (if p > pos_max then (p, i) else (pos_max, newest)))
           else Inr (pos_max, newest))) [0..<kv_cells_size c] (-1, kv_cells_size c))
       (\<lambda>(_, newest). Inr newest)"

definition rebuild_allocation_head :: "int \<Rightarrow> llama_kv_cache \<Rightarrow> llama_kv_cache res" where
  "rebuild_allocation_head seq_id kv =
     (if seq_id < 0 \<or> nat seq_id \<ge> kv_n_seq_max kv \<or> kv_group_size kv \<le> 1 \<or> kv_n_stream kv \<noteq> 1 then Inr kv
      else bind_r (newest_cell (kv_cells kv ! 0) seq_id) (\<lambda>newest.
        Inr (if newest = kv_cells_size (kv_cells kv ! 0) then reset_allocation_head seq_id kv
             else kv\<lparr>kv_seq_heads := (kv_seq_heads kv)[nat seq_id := newest + 1]\<rparr>)))"

definition rebuild_all_heads :: "llama_kv_cache \<Rightarrow> llama_kv_cache res" where
  "rebuild_all_heads kv = fold_r (\<lambda>s. rebuild_allocation_head (int s)) [0..<kv_n_seq_max kv] kv"

definition set_allocation_group_size :: "nat \<Rightarrow> nat \<Rightarrow> llama_kv_cache \<Rightarrow> llama_kv_cache res" where
  "set_allocation_group_size gs stage kv =
     bind_r (if gs = 0 \<or> stage = 0 then Inr 0 else kv_get_size kv) (\<lambda>n.
       if gs = 0 \<or> stage = 0 \<or> n mod gs \<noteq> 0 \<or> n div gs < stage then Inl Invalid_argument
       else Inr (fold (\<lambda>s. reset_allocation_head (int s)) [0..<kv_n_seq_max kv]
                   (kv\<lparr>kv_group_size := gs, kv_stage_groups := stage\<rparr>)))"

section \<open>Calls of the tail store\<close>

definition with_tail ::
    "(llama_kv_tail_store \<Rightarrow> llama_kv_tail_store res) \<Rightarrow> llama_kv_cache \<Rightarrow> llama_kv_cache res" where
  "with_tail f kv = (case kv_tail kv of None \<Rightarrow> Inr kv
     | Some t \<Rightarrow> bind_r (f t) (\<lambda>t. Inr (kv\<lparr>kv_tail := Some t\<rparr>)))"

text \<open>After an edit: a sequence whose exact rows no longer cover what is asked is marked.\<close>

definition mark_if_incomplete :: "int \<Rightarrow> llama_kv_cache \<Rightarrow> llama_kv_cache res" where
  "mark_if_incomplete seq_id kv = (case kv_tail kv of None \<Rightarrow> Inr kv
     | Some t \<Rightarrow> bind_r (stream_of kv seq_id) (\<lambda>s.
         bind_r (kv_cells_seq_size (kv_cells kv ! s) seq_id) (\<lambda>available.
           let cov = tail_coverage t seq_id available
           in Inr (if cov_exact cov < cov_requested cov
                   then kv\<lparr>kv_tail := Some (mark_degraded seq_id LLAMA_KV_TAIL_DEGRADED_HISTORICAL_OP t)\<rparr>
                   else kv))))"

definition materialize_pending_copies :: "llama_kv_cache \<Rightarrow> llama_kv_cache res" where
  "materialize_pending_copies kv =
     bind_r (sc_empty (kv_sc_info kv)) (\<lambda>e.
       if e then Inr kv
       else bind_r (if sc_tail_transaction (kv_sc_info kv) then with_tail commit_seq_cp kv else Inr kv) (\<lambda>kv.
         Inr (kv\<lparr>kv_sc_info := sc_none\<rparr>)))"

definition kv_clear :: "llama_kv_cache \<Rightarrow> llama_kv_cache res" where
  "kv_clear kv =
     (let kv = kv\<lparr>kv_sc_info := sc_none\<rparr>
      in bind_r (with_tail tail_clear kv) (\<lambda>kv.
         let kv = (if kv_tail kv = None then kv
                   else kv\<lparr>kv_ordinal := 0, kv_write_slots := [],
                           kv_generations := map (map (\<lambda>_. 0)) (kv_generations kv)\<rparr>);
             kv = kv\<lparr>kv_cells := map kv_cells_reset (kv_cells kv), kv_heads := map (\<lambda>_. 0) (kv_heads kv)\<rparr>
         in Inr (fold (\<lambda>s. reset_allocation_head (int s)) [0..<kv_n_seq_max kv] kv)))"

section \<open>Edits of sequences\<close>

text \<open>The loops over all cells: the body reports whether it freed its cell, the loop remembers the first
  cell that was freed, or the number of cells.\<close>

definition cell_loop ::
    "(nat \<Rightarrow> llama_kv_cells \<Rightarrow> (bool \<times> llama_kv_cells) res) \<Rightarrow> llama_kv_cells \<Rightarrow> (nat \<times> llama_kv_cells) res" where
  "cell_loop body c =
     fold_r (\<lambda>i (new_head, c). bind_r (body i c) (\<lambda>(freed, c).
         Inr (if freed \<and> new_head = kv_cells_size c then i else new_head, c)))
       [0..<kv_cells_size c] (kv_cells_size c, c)"

definition when_in ::
    "int \<Rightarrow> int \<Rightarrow> int \<Rightarrow> (nat \<Rightarrow> llama_kv_cells \<Rightarrow> (bool \<times> llama_kv_cells) res) \<Rightarrow>
     nat \<Rightarrow> llama_kv_cells \<Rightarrow> (bool \<times> llama_kv_cells) res" where
  "when_in seq_id p0 p1 body i c =
     bind_r (kv_cells_pos_in c i p0 p1) (\<lambda>inside.
       if \<not> inside then Inr (False, c)
       else bind_r (kv_cells_seq_has c i seq_id) (\<lambda>has.
         if has then body i c else Inr (False, c)))"

definition rm_any :: "int \<Rightarrow> int \<Rightarrow> nat \<Rightarrow> llama_kv_cells \<Rightarrow> (bool \<times> llama_kv_cells) res" where
  "rm_any p0 p1 i c =
     bind_r (kv_cells_pos_in c i p0 p1) (\<lambda>inside.
       if \<not> inside then Inr (False, c) else bind_r (kv_cells_rm i c) (\<lambda>c. Inr (True, c)))"

definition set_cells :: "nat \<Rightarrow> llama_kv_cells \<Rightarrow> llama_kv_cache \<Rightarrow> llama_kv_cache" where
  "set_cells s c kv = kv\<lparr>kv_cells := (kv_cells kv)[s := c]\<rparr>"

text \<open>An edit of one stream that moves the search head to the first freed cell if that lies before it.\<close>

definition edit_stream ::
    "(nat \<Rightarrow> llama_kv_cells \<Rightarrow> (bool \<times> llama_kv_cells) res) \<Rightarrow> nat \<Rightarrow> llama_kv_cache \<Rightarrow> llama_kv_cache res" where
  "edit_stream body s kv =
     bind_r (cell_loop body (kv_cells kv ! s)) (\<lambda>(new_head, c).
       let kv = set_cells s c kv
       in Inr (if new_head \<noteq> kv_cells_size c \<and> new_head < kv_heads kv ! s
               then kv\<lparr>kv_heads := (kv_heads kv)[s := new_head]\<rparr> else kv))"

definition range_lo :: "int \<Rightarrow> int" where
  "range_lo p0 = (if p0 < 0 then 0 else p0)"

definition range_hi :: "int \<Rightarrow> int" where
  "range_hi p1 = (if p1 < 0 then int INT32_MAX else p1)"

definition seq_rm_unchecked :: "int \<Rightarrow> int \<Rightarrow> int \<Rightarrow> llama_kv_cache \<Rightarrow> llama_kv_cache res" where
  "seq_rm_unchecked seq_id p0 p1 kv =
     (if kv_other kv \<noteq> None then Inr kv
      else bind_r (materialize_pending_copies kv) (\<lambda>kv.
        assert_r (seq_id = -1 \<or> (seq_id \<ge> 0 \<and> nat seq_id < length (kv_seq_to_stream kv)))
          (if seq_id \<ge> 0 then
             bind_r (with_tail (tail_seq_rm seq_id p0 p1) kv) (\<lambda>kv.
             bind_r (stream_of kv seq_id) (\<lambda>s.
             bind_r (edit_stream (when_in seq_id (range_lo p0) (range_hi p1) (\<lambda>i. kv_cells_seq_rm i seq_id)) s kv) (\<lambda>kv.
             bind_r (mark_if_incomplete seq_id kv) (\<lambda>kv.
               rebuild_allocation_head seq_id kv))))
           else
             bind_r (with_tail (fold_r (\<lambda>s. tail_seq_rm (int s) p0 p1) [0..<kv_n_seq_max kv]) kv) (\<lambda>kv.
             bind_r (fold_r (edit_stream (rm_any (range_lo p0) (range_hi p1))) [0..<kv_n_stream kv] kv) (\<lambda>kv.
             bind_r (if kv_tail kv = None then Inr kv
                     else fold_r (\<lambda>s. mark_if_incomplete (int s)) [0..<kv_n_seq_max kv] kv) (\<lambda>kv.
               rebuild_all_heads kv))))))"

definition kv_can_seq_rm :: "llama_kv_cache \<Rightarrow> int \<Rightarrow> int \<Rightarrow> int \<Rightarrow> bool res" where
  "kv_can_seq_rm kv seq_id p0 p1 =
     (if \<not> has_compact_tail kv then Inr True
      else if seq_id < 0 \<or> nat seq_id \<ge> length (kv_seq_to_stream kv) then Inr (p0 \<le> 0 \<and> p1 < 0)
      else if p0 \<le> 0 \<and> p1 < 0 then Inr True
      else if p0 \<le> 0 \<or> p1 \<ge> 0 then Inr False
      else if kv_metadata_only kv \<or> sp_has_owned_body (kv_tail_plan kv) \<or> sp_has_shared_body (kv_tail_plan kv)
      then Inr True
      else bind_r (kv_seq_pos_max kv seq_id) (\<lambda>m.
        Inr (llama_kv_tail_can_remove_suffix m p0 p1 (kv_rollback kv))))"

definition kv_seq_rm_plan :: "llama_kv_cache \<Rightarrow> int \<Rightarrow> int \<Rightarrow> int \<Rightarrow> (int \<times> int) option res" where
  "kv_seq_rm_plan kv seq_id p0 p1 =
     bind_r (kv_can_seq_rm kv seq_id p0 p1) (\<lambda>ok. Inr (if ok then Some (p0, p1) else None))"

definition kv_seq_rm :: "int \<Rightarrow> int \<Rightarrow> int \<Rightarrow> llama_kv_cache \<Rightarrow> (bool \<times> llama_kv_cache) res" where
  "kv_seq_rm seq_id p0 p1 kv =
     (if kv_other kv \<noteq> None then Inr (True, kv)
      else bind_r (kv_can_seq_rm kv seq_id p0 p1) (\<lambda>ok.
        if \<not> ok then Inr (False, kv)
        else bind_r (seq_rm_unchecked seq_id p0 p1 kv) (\<lambda>kv. Inr (True, kv))))"

definition kv_seq_rm_cell :: "int \<Rightarrow> nat \<Rightarrow> llama_kv_cache \<Rightarrow> (bool \<times> llama_kv_cache) res" where
  "kv_seq_rm_cell seq_id cell kv =
     bind_r (stream_of kv seq_id) (\<lambda>s.
     bind_r (kv_cells_seq_rm_cell cell seq_id (kv_cells kv ! s)) (\<lambda>(freed, c).
       let kv = set_cells s c kv
       in if \<not> freed then Inr (True, kv)
          else bind_r (with_tail (tail_seq_rm_cell seq_id s cell) kv) (\<lambda>kv.
               bind_r (mark_if_incomplete seq_id kv) (\<lambda>kv.
               bind_r (rebuild_allocation_head seq_id
                        (if cell < kv_heads kv ! s then kv\<lparr>kv_heads := (kv_heads kv)[s := cell]\<rparr> else kv))
                 (\<lambda>kv. Inr (True, kv))))))"

definition queue_tail_copies ::
    "int \<Rightarrow> int \<Rightarrow> nat \<Rightarrow> nat \<Rightarrow> int \<Rightarrow> int \<Rightarrow> llama_kv_cache \<Rightarrow> llama_kv_cache res" where
  "queue_tail_copies src dst s0 s1 p0 p1 kv = (case kv_tail kv of None \<Rightarrow> Inr kv
     | Some t \<Rightarrow> bind_r (prepare_seq_cp src dst s0 s1 p0 p1 t) (\<lambda>(copies, t).
         Inr (kv\<lparr>kv_tail := Some t, kv_sc_info := (kv_sc_info kv)\<lparr>
           sc_tail_src := sc_tail_src (kv_sc_info kv) @ map fst copies,
           sc_tail_dst := sc_tail_dst (kv_sc_info kv) @ map snd copies,
           sc_tail_transaction := (st_pending t \<noteq> None)\<rparr>\<rparr>)))"

text \<open>A copy between streams: the destination stream takes the cells of the source sequence.\<close>

definition cp_cell ::
    "llama_kv_cells \<Rightarrow> int \<Rightarrow> int \<Rightarrow> nat \<Rightarrow> llama_kv_cells \<times> nat list \<times> nat list \<Rightarrow>
     (llama_kv_cells \<times> nat list \<times> nat list) res" where
  "cp_cell c0 src dst i = (\<lambda>(c1, g0, g1).
     bind_r (kv_cells_seq_has c0 i src) (\<lambda>has.
       if \<not> has then Inr (c1, g0, g1)
       else bind_r (kv_cells_pos_get c0 i) (\<lambda>p.
            bind_r (kv_cells_get_shift c0 i) (\<lambda>shift.
            bind_r (kv_cells_ext_get c0 i) (\<lambda>ext.
            bind_r (if shift \<noteq> 0 then assert_r (p - shift \<ge> 0) (Inr (p - shift)) else Inr p) (\<lambda>p.
            bind_r (kv_cells_pos_set i p c1) (\<lambda>c1.
            bind_r (kv_cells_seq_add i dst c1) (\<lambda>c1.
            bind_r (if shift \<noteq> 0 then bind_r (kv_cells_pos_add i shift c1) (\<lambda>(_, c1). Inr c1) else Inr c1) (\<lambda>c1.
            bind_r (kv_cells_ext_set i ext c1) (\<lambda>c1.
              Inr (c1, g0, g1[i := g0 ! i])))))))))))"

definition cp_is_full :: "nat \<Rightarrow> int \<Rightarrow> int \<Rightarrow> bool" where
  "cp_is_full n p0 p1 \<longleftrightarrow> \<not> (p0 > 0 \<and> p0 + 1 < int n) \<and> \<not> (p1 > 0 \<and> p1 + 1 < int n)"

definition kv_seq_cp :: "int \<Rightarrow> int \<Rightarrow> int \<Rightarrow> int \<Rightarrow> llama_kv_cache \<Rightarrow> llama_kv_cache res" where
  "kv_seq_cp src dst p0 p1 kv =
     (if kv_other kv \<noteq> None then Inr kv
      else bind_r (materialize_pending_copies kv) (\<lambda>kv.
        bind_r (stream_of kv src) (\<lambda>s0. bind_r (stream_of kv dst) (\<lambda>s1.
          if s0 = s1 then
            bind_r (queue_tail_copies src dst s0 s1 p0 p1 kv) (\<lambda>kv.
              if src = dst then Inr kv
              else bind_r (cell_loop (when_in src (range_lo p0) (range_hi p1)
                       (\<lambda>i c. bind_r (kv_cells_seq_add i dst c) (\<lambda>c. Inr (False, c)))) (kv_cells kv ! s0)) (\<lambda>(_, c).
                   bind_r (mark_if_incomplete dst (set_cells s0 c kv)) (rebuild_allocation_head dst)))
          else
            bind_r (kv_get_size kv) (\<lambda>n.
            assert_r (cp_is_full n p0 p1)
              (let kv = kv\<lparr>kv_sc_info := (kv_sc_info kv)\<lparr>sc_ssrc := sc_ssrc (kv_sc_info kv) @ [s0],
                          sc_sdst := sc_sdst (kv_sc_info kv) @ [s1]\<rparr>\<rparr>;
                   gen = (\<lambda>s. if kv_tail kv = None then [] else kv_generations kv ! s)
               in bind_r (fold_r (cp_cell (kv_cells kv ! s0) src dst) [0..<kv_cells_size (kv_cells kv ! s0)]
                            (kv_cells_reset (kv_cells kv ! s1), gen s0, map (\<lambda>_. 0) (gen s1))) (\<lambda>(c, _, g).
                  let kv = set_cells s1 c kv;
                      kv = (if kv_tail kv = None then kv else kv\<lparr>kv_generations := (kv_generations kv)[s1 := g]\<rparr>)
                  in bind_r (queue_tail_copies src dst s0 s1 p0 p1 kv) (\<lambda>kv.
                     bind_r (mark_if_incomplete dst kv) (\<lambda>kv.
                       rebuild_allocation_head dst (kv\<lparr>kv_heads := (kv_heads kv)[s1 := kv_heads kv ! s0]\<rparr>))))))))))"

definition kv_seq_keep :: "int \<Rightarrow> llama_kv_cache \<Rightarrow> llama_kv_cache res" where
  "kv_seq_keep seq_id kv =
     (if kv_other kv \<noteq> None then Inr kv
      else bind_r (materialize_pending_copies kv) (\<lambda>kv.
        bind_r (stream_of kv seq_id) (\<lambda>s.
        bind_r (with_tail (tail_seq_keep seq_id) kv) (\<lambda>kv.
        bind_r (edit_stream (\<lambda>i. kv_cells_seq_keep i seq_id) s kv)
          rebuild_all_heads))))"

text \<open>The two moves. An early return skips the cells after the tail was moved.\<close>

definition degrade_partial :: "int \<Rightarrow> int \<Rightarrow> int \<Rightarrow> bool \<Rightarrow> llama_kv_tail_store \<Rightarrow> llama_kv_tail_store" where
  "degrade_partial seq_id p0 p1 moved t =
     (if moved \<and> \<not> (p0 \<le> 0 \<and> p1 < 0) then mark_degraded seq_id LLAMA_KV_TAIL_DEGRADED_HISTORICAL_OP t else t)"

definition kv_seq_add :: "int \<Rightarrow> int \<Rightarrow> int \<Rightarrow> int \<Rightarrow> llama_kv_cache \<Rightarrow> llama_kv_cache res" where
  "kv_seq_add seq_id p0 p1 shift kv =
     (if kv_other kv \<noteq> None then Inr kv
      else bind_r (materialize_pending_copies kv) (\<lambda>kv.
        bind_r (stream_of kv seq_id) (\<lambda>s.
        assert_r (kv_n_pos_per_embd kv = 1)
          (bind_r (with_tail (\<lambda>t. bind_r (tail_seq_add seq_id p0 p1 shift t) (\<lambda>t.
                     Inr (degrade_partial seq_id p0 p1 (shift \<noteq> 0) t))) kv) (\<lambda>kv.
             if shift = 0 \<or> range_lo p0 = range_hi p1 then Inr kv
             else bind_r (cell_loop (when_in seq_id (range_lo p0) (range_hi p1) (\<lambda>i. kv_cells_pos_add i shift))
                            (kv_cells kv ! s)) (\<lambda>(new_head, c).
               rebuild_allocation_head seq_id ((set_cells s c kv)\<lparr>kv_heads := (kv_heads kv)[s :=
                 (if new_head \<noteq> kv_cells_size c then new_head else 0)]\<rparr>)))))))"

definition kv_seq_div :: "int \<Rightarrow> int \<Rightarrow> int \<Rightarrow> int \<Rightarrow> llama_kv_cache \<Rightarrow> llama_kv_cache res" where
  "kv_seq_div seq_id p0 p1 d kv =
     (if kv_other kv \<noteq> None then Inr kv
      else bind_r (materialize_pending_copies kv) (\<lambda>kv.
        bind_r (stream_of kv seq_id) (\<lambda>s.
        assert_r (kv_n_pos_per_embd kv = 1)
          (bind_r (with_tail (\<lambda>t. bind_r (tail_seq_div seq_id p0 p1 d t) (\<lambda>t.
                     Inr (degrade_partial seq_id p0 p1 (d \<noteq> 1) t))) kv) (\<lambda>kv.
             if d = 1 \<or> range_lo p0 = range_hi p1 then Inr kv
             else bind_r (cell_loop (when_in seq_id (range_lo p0) (range_hi p1)
                            (\<lambda>i c. bind_r (kv_cells_pos_div i d c) (\<lambda>c. Inr (False, c)))) (kv_cells kv ! s)) (\<lambda>(_, c).
               rebuild_allocation_head seq_id (set_cells s c kv)))))))"

section \<open>Searching a slot\<close>

text \<open>A group of cells may only take a token whose sequence set is exactly that of the cells in it.\<close>

definition group_compatible :: "llama_kv_cells \<Rightarrow> nat \<Rightarrow> int list \<Rightarrow> nat \<Rightarrow> bool res" where
  "group_compatible c gs seqs idx =
     (let b = idx div gs * gs
      in forall_r (\<lambda>i. bind_r (kv_cells_is_empty c i) (\<lambda>e.
           if e then Inr True
           else bind_r (kv_cells_seq_count c i) (\<lambda>n.
             if int n \<noteq> int (length seqs) then Inr False
             else forall_r (\<lambda>s. kv_cells_seq_has c i s) seqs))) [b..<min (b + gs) (kv_cells_size c)])"

text \<open>The search of a structured cache, one token after the other. Its state is the head of every
  sequence, the reserved cells, the fill of every group, the group that owns each stage slot, and the
  cells found.\<close>

record group_state =
  gr_heads :: "nat list"
  gr_reserved :: "bool list"
  gr_used :: "nat list"
  gr_owners :: "int list"
  gr_idxs :: "nat list"

definition stage_slot :: "nat \<Rightarrow> nat \<Rightarrow> nat" where
  "stage_slot stage g = (if g = 0 then 0 else 1 + (g - 1) mod stage)"

definition group_fill :: "llama_kv_cells \<Rightarrow> nat \<Rightarrow> nat list res" where
  "group_fill c gs =
     fold_r (\<lambda>i used. if i div gs \<ge> length used then Inl Undefined
         else bind_r (kv_cells_is_empty c i) (\<lambda>e.
           Inr (if e then used else used[i div gs := used ! (i div gs) + 1])))
       [0..<kv_cells_size c] (replicate (kv_cells_size c div gs) 0)"

definition stage_owners :: "llama_kv_cache \<Rightarrow> bool \<Rightarrow> int list res" where
  "stage_owners kv first_used =
     fold_r (\<lambda>s owners.
         let head = kv_seq_heads kv ! s
         in if head = 0 \<or> head mod kv_group_size kv = 0 then Inr owners
            else let g = (head - 1) div kv_group_size kv; slot = stage_slot (kv_stage_groups kv) g
                 in if g = 0 then Inr owners
                    else if owners ! slot \<ge> 0 \<and> owners ! slot \<noteq> int g then Inl Runtime_error
                    else Inr (owners[slot := int g]))
       [0..<kv_n_seq_max kv]
       ((replicate (kv_stage_groups kv + 1) (-1))[0 := (if first_used then 0 else -1)])"

fun group_scan ::
    "llama_kv_cells \<Rightarrow> nat \<Rightarrow> nat \<Rightarrow> int list \<Rightarrow> nat \<Rightarrow> nat \<Rightarrow> group_state \<Rightarrow> group_state option res" where
  "group_scan c gs stage seqs 0 head st = Inr None"
| "group_scan c gs stage seqs (Suc k) head st =
     (let idx = (if head \<ge> kv_cells_size c then 0 else head); g = idx div gs; slot = stage_slot stage g
      in bind_r (if gr_reserved st ! idx then Inr False else kv_cells_is_empty c idx) (\<lambda>free.
           if \<not> free then group_scan c gs stage seqs k (idx + 1) st
           else bind_r (group_compatible c gs seqs idx) (\<lambda>compatible.
             if \<not> compatible then group_scan c gs stage seqs k (idx + 1) st
             else if gr_used st ! g = 0 \<and> gr_owners st ! slot \<ge> 0 \<and> gr_owners st ! slot \<noteq> int g
             then group_scan c gs stage seqs k (idx + 1) st
             else let owners = (if gr_used st ! g = 0 then (gr_owners st)[slot := int g] else gr_owners st);
                      used = (gr_used st)[g := gr_used st ! g + 1]
                  in Inr (Some (st\<lparr>gr_idxs := gr_idxs st @ [idx], gr_reserved := (gr_reserved st)[idx := True],
                       gr_used := used,
                       gr_owners := (if used ! g = gs \<and> g > 0 then owners[slot := -1] else owners),
                       gr_heads := fold (\<lambda>s hs. hs[nat s := idx + 1]) seqs (gr_heads st)\<rparr>)))))"

definition group_token ::
    "llama_kv_cache \<Rightarrow> llama_ubatch \<Rightarrow> nat \<Rightarrow> group_state option \<Rightarrow> group_state option res" where
  "group_token kv ub i st = (case st of None \<Rightarrow> Inr None | Some st \<Rightarrow>
     if ub_n_seq_id ub ! i \<le> 0 then Inl Runtime_error
     else let seqs = take (nat (ub_n_seq_id ub ! i)) (ub_seq_id ub ! i)
          in if \<not> list_all (\<lambda>s. 0 \<le> s \<and> nat s < kv_n_seq_max kv) seqs then Inl Runtime_error
             else group_scan (kv_cells kv ! 0) (kv_group_size kv) (kv_stage_groups kv) seqs
                    (kv_cells_size (kv_cells kv ! 0)) (gr_heads st ! nat (foldl min (hd seqs) seqs)) st)"

definition find_slot_grouped :: "llama_kv_cache \<Rightarrow> llama_ubatch \<Rightarrow> slot_info res" where
  "find_slot_grouped kv ub =
     (let c = kv_cells kv ! 0
      in bind_r (group_fill c (kv_group_size kv)) (\<lambda>used.
         bind_r (kv_cells_is_empty c 0) (\<lambda>e.
         bind_r (stage_owners kv (\<not> e)) (\<lambda>owners.
         bind_r (fold_r (group_token kv ub) [0..<ub_n_tokens ub]
                   (Some \<lparr>gr_heads = kv_seq_heads kv, gr_reserved = replicate (kv_cells_size c) False,
                          gr_used = used, gr_owners = owners, gr_idxs = []\<rparr>)) (\<lambda>r.
           Inr (case r of None \<Rightarrow> slot_none
                | Some st \<Rightarrow> \<lparr>si_s0 = 0, si_s1 = 0, si_strm = [0], si_idxs = [gr_idxs st]\<rparr>))))))"

text \<open>The search of an ordinary cache. A cell can be used when it is empty, or when its only sequence
  has moved past it by a whole attention window.\<close>

definition can_use_cell :: "llama_kv_cache \<Rightarrow> llama_ubatch \<Rightarrow> llama_kv_cells \<Rightarrow> int \<Rightarrow> nat \<Rightarrow> nat \<Rightarrow> bool res" where
  "can_use_cell kv ub c seq_id token idx =
     bind_r (kv_cells_is_empty c idx) (\<lambda>e.
     bind_r (if e \<and> kv_group_size kv > 1 then
               (let n = (if kv_n_stream kv = 1 then ub_n_seq_id ub ! token else 1);
                    seqs = (if kv_n_stream kv = 1 then take (nat n) (ub_seq_id ub ! token) else [seq_id])
                in if n \<le> 0 then Inl Runtime_error
                   else if foldl min (hd seqs) seqs < 0 then Inl Runtime_error
                   else group_compatible c (kv_group_size kv) seqs idx)
             else Inr e) (\<lambda>can.
       if can then Inr True
       else bind_r (kv_cells_seq_count c idx) (\<lambda>n.
         if n \<noteq> 1 then Inr False
         else bind_r (kv_cells_pos_get c idx) (\<lambda>p.
              bind_r (kv_cells_seq_get c idx) (\<lambda>s.
              bind_r (kv_cells_seq_pos_max c s) (\<lambda>m.
                is_masked_swa (kv_n_swa kv) (kv_swa_type kv) p (m + 1)))))))"

text \<open>The inner loop over the cells that are tested together; it stops early at a cell that cannot be
  used when the slot has to be contiguous.\<close>

fun test_cells ::
    "(nat \<Rightarrow> nat \<Rightarrow> bool res) \<Rightarrow> bool \<Rightarrow> nat \<Rightarrow> nat \<Rightarrow> nat \<Rightarrow> nat list \<Rightarrow> (nat \<times> nat \<times> nat list) res" where
  "test_cells can cont 0 head tested idxs = Inr (head, tested, idxs)"
| "test_cells can cont (Suc k) head tested idxs =
     bind_r (can (length idxs) head) (\<lambda>ok.
       if ok then test_cells can cont k (head + 1) (tested + 1) (idxs @ [head])
       else if cont then Inr (head + 1, tested + 1, idxs)
       else test_cells can cont k (head + 1) (tested + 1) idxs)"

lemma test_cells_tested:
  "test_cells can cont k head tested idxs = Inr (h, t, is) \<Longrightarrow> tested \<le> t \<and> (0 < k \<longrightarrow> tested < t)"
  by (induction k arbitrary: head tested idxs) (force split: if_splits)+

text \<open>The loop around it. With fewer cells than are tested together it would never end, which
  is undefined for a loop without effects.\<close>

function slot_scan ::
    "(nat \<Rightarrow> nat \<Rightarrow> bool res) \<Rightarrow> bool \<Rightarrow> nat \<Rightarrow> nat \<Rightarrow> nat \<Rightarrow> nat \<Rightarrow> nat list \<Rightarrow> nat list option res" where
  "slot_scan can cont n_tokens n_cells head tested idxs =
     (let n_test = (if cont then n_tokens else 1)
      in if n_test = 0 then Inr (Some idxs)
         else if n_test > n_cells then Inl Undefined
         else if head + n_test > n_cells then slot_scan can cont n_tokens n_cells 0 (tested + (n_cells - head)) idxs
         else case test_cells can cont n_test head tested idxs of
             Inl e \<Rightarrow> Inl e
           | Inr (h, t, is) \<Rightarrow>
               if length is = n_tokens then Inr (Some is)
               else if t \<ge> n_cells then Inr None
               else slot_scan can cont n_tokens n_cells h t (if cont then [] else is))"
  by pat_completeness auto

termination
proof (relation "measures [\<lambda>(can, cont, n_tokens, n_cells, head, tested, idxs). n_cells - tested,
    \<lambda>(can, cont, n_tokens, n_cells, head, tested, idxs). if head + (if cont then n_tokens else 1) > n_cells then 1 else 0]",
    goal_cases)
  case (3 can cont n_tokens n_cells head tested idxs n_test p h q t ys)
  then have "tested < t" using test_cells_tested [of can cont n_test head tested idxs h t ys] by simp
  then show ?case using 3 by simp
qed auto

declare slot_scan.simps [simp del, loop_simps]

definition stream_slot ::
    "llama_kv_cache \<Rightarrow> llama_ubatch \<Rightarrow> bool \<Rightarrow> nat \<Rightarrow> int \<Rightarrow> (nat \<times> nat list option) res" where
  "stream_slot kv ub cont n_tokens seq_id =
     bind_r (stream_of kv seq_id) (\<lambda>s.
       let c = kv_cells kv ! s; n = kv_cells_size c;
           head = (if kv_heads kv ! s > u32 (kv_cells_get_used c + 2 * n_tokens) then 0 else kv_heads kv ! s)
       in if n_tokens > n then Inr (s, None)
          else bind_r (slot_scan (can_use_cell kv ub c seq_id) cont n_tokens n head 0 []) (\<lambda>r. Inr (s, r)))"

fun stream_slots ::
    "llama_kv_cache \<Rightarrow> llama_ubatch \<Rightarrow> bool \<Rightarrow> nat \<Rightarrow> nat list \<Rightarrow> slot_info \<Rightarrow> slot_info res" where
  "stream_slots kv ub cont n_tokens [] si = Inr si"
| "stream_slots kv ub cont n_tokens (j # js) si =
     (if j \<ge> length (ub_seq_id_unq ub) then Inl Undefined
      else let seq_id = int (ub_seq_id_unq ub ! j)
           in assert_r (kv_n_stream kv > 1 \<longrightarrow> ub_n_seq_id ub ! (j * n_tokens) = 1 \<and>
                          hd (ub_seq_id ub ! (j * n_tokens)) = seq_id)
                (bind_r (stream_slot kv ub cont n_tokens seq_id) (\<lambda>(s, r).
                   case r of None \<Rightarrow> Inr slot_none
                   | Some idxs \<Rightarrow> stream_slots kv ub cont n_tokens js
                       \<lparr>si_s0 = min (si_s0 si) s, si_s1 = max (si_s1 si) s, si_strm = si_strm si @ [s],
                        si_idxs = si_idxs si @ [idxs]\<rparr>)))"

definition find_slot :: "llama_kv_cache \<Rightarrow> llama_ubatch \<Rightarrow> bool \<Rightarrow> slot_info res" where
  "find_slot kv ub cont =
     bind_r (if kv_n_stream kv > 1 then
               (if ub_n_seqs_unq ub = 0 then Inl Undefined
                else assert_r (ub_n_tokens ub mod ub_n_seqs_unq ub = 0)
                       (Inr (ub_n_tokens ub div ub_n_seqs_unq ub, ub_n_seqs_unq ub)))
             else Inr (ub_n_tokens ub, 1)) (\<lambda>(n_tokens, n_seqs).
       if kv_group_size kv > 1 \<and> kv_n_stream kv = 1 \<and> \<not> cont then find_slot_grouped kv ub
       else stream_slots kv ub cont n_tokens [0..<n_seqs]
              \<lparr>si_s0 = LLAMA_MAX_SEQ, si_s1 = 0, si_strm = [], si_idxs = []\<rparr>)"

section \<open>Placing a micro-batch\<close>

text \<open>One sequence of one token: the cell joins the sequence, and the exact tail takes the row unless
  the placement is only rehearsed.\<close>

definition apply_owner ::
    "llama_ubatch \<Rightarrow> nat \<Rightarrow> nat \<Rightarrow> nat \<Rightarrow> nat \<Rightarrow> llama_kv_cache \<Rightarrow> llama_kv_cache res" where
  "apply_owner ub s idx i iseq kv =
     (let owner = ub_seq_id ub ! i ! iseq
      in bind_r (kv_cells_seq_add idx owner (kv_cells kv ! s)) (\<lambda>c.
         bind_r (let kv = set_cells s c kv
                 in if kv_group_size kv > 1 \<and> kv_n_stream kv = 1
                    then (if nat owner \<ge> length (kv_seq_heads kv) then Inl Undefined
                          else Inr (kv\<lparr>kv_seq_heads := (kv_seq_heads kv)[nat owner := idx + 1]\<rparr>))
                    else Inr kv) (\<lambda>kv.
           case kv_tail kv of
             Some t \<Rightarrow>
               if kv_preparing kv then Inr kv
               else bind_r (tail_commit owner
                        \<lparr>id_stream = s, id_cell = idx, id_generation = kv_generations kv ! s ! idx\<rparr>
                        (ub_pos ub ! i) (kv_ordinal kv) (if has_compact_tail kv then i else UINT32_MAX) t) (\<lambda>(slot, t).
                    Inr (kv\<lparr>kv_tail := Some t, kv_ordinal := u64 (kv_ordinal kv + 1),
                            kv_write_slots := (kv_write_slots kv)[iseq * ub_n_tokens ub + i := slot]\<rparr>))
           | None \<Rightarrow> Inr kv)))"

definition apply_recycle :: "nat \<Rightarrow> nat \<Rightarrow> llama_kv_cache \<Rightarrow> llama_kv_cache res" where
  "apply_recycle s idx kv = (case kv_tail kv of None \<Rightarrow> Inr kv | Some t \<Rightarrow>
     if kv_preparing kv then Inr kv
     else let gen = u64 (kv_generations kv ! s ! idx + 1)
          in bind_r (recycle s idx gen t) (\<lambda>t.
               Inr (kv\<lparr>kv_tail := Some t,
                       kv_generations := (kv_generations kv)[s := (kv_generations kv ! s)[idx := gen]]\<rparr>)))"

text \<open>An occupied cell is emptied first; the greatest position lost is remembered per sequence.\<close>

definition apply_evict :: "nat \<Rightarrow> llama_kv_cells \<Rightarrow> (nat \<Rightarrow> int) \<Rightarrow> (llama_kv_cells \<times> (nat \<Rightarrow> int)) res" where
  "apply_evict idx c lost =
     bind_r (kv_cells_is_empty c idx) (\<lambda>e.
       if e then Inr (c, lost)
       else bind_r (kv_cells_seq_count c idx) (\<lambda>n.
         assert_r (n = 1)
           (bind_r (kv_cells_seq_get c idx) (\<lambda>s.
            bind_r (kv_cells_pos_get c idx) (\<lambda>p.
            bind_r (kv_cells_rm idx c) (\<lambda>c.
              Inr (c, lost(nat s := max (lost (nat s)) p))))))))"

definition apply_token ::
    "slot_info \<Rightarrow> llama_ubatch \<Rightarrow> nat \<Rightarrow> nat \<Rightarrow> nat \<Rightarrow> llama_kv_cache \<times> (nat \<Rightarrow> int) \<Rightarrow>
     (llama_kv_cache \<times> (nat \<Rightarrow> int)) res" where
  "apply_token si ub n j k = (\<lambda>(kv, lost).
     let i = j * n + k; s = si_strm si ! j; idx = si_idxs si ! j ! k
     in if i \<ge> ub_n_tokens ub \<or> s \<ge> length (kv_cells kv) \<or> k \<ge> length (si_idxs si ! j) then Inl Undefined
        else bind_r (apply_recycle s idx kv) (\<lambda>kv.
             bind_r (apply_evict idx (kv_cells kv ! s) lost) (\<lambda>(c, lost).
             bind_r (kv_cells_pos_set idx (ub_pos ub ! i) c) (\<lambda>c.
             bind_r (if is_pos_2d ub
                     then kv_cells_ext_set idx \<lparr>ext_x = ub_pos ub ! (i + ub_n_tokens ub * 2),
                                               ext_y = ub_pos ub ! (i + ub_n_tokens ub)\<rparr> c
                     else Inr c) (\<lambda>c.
             bind_r (fold_r (apply_owner ub s idx i) [0..<nat (ub_n_seq_id ub ! i)] (set_cells s c kv)) (\<lambda>kv.
               Inr (kv, lost)))))))"

text \<open>Rows that the tail did not take go to the sink of a standard tail.\<close>

definition sink_slot :: "llama_kv_cache \<Rightarrow> nat \<Rightarrow> int \<Rightarrow> int res" where
  "sink_slot kv i slot =
     bind_r (if slot = LLAMA_KV_TAIL_BODY_SLOT \<and> \<not> has_compact_tail kv
             then assert_r (i < kv_sink_slots kv) (Inr (int (u32 (kv_arena_stride kv * kv_n_seq_max kv) + i)))
             else Inr slot) (\<lambda>slot.
       assert_r ((has_compact_tail kv \<and> slot = LLAMA_KV_TAIL_BODY_SLOT) \<or>
                 (slot \<ge> 0 \<and> nat slot < kv_tail_slots kv)) (Inr slot))"

definition begin_tail_batch :: "llama_ubatch \<Rightarrow> llama_kv_cache \<Rightarrow> llama_kv_cache res" where
  "begin_tail_batch ub kv =
     (if kv_tail kv = None \<or> kv_preparing kv then Inr kv
      else let kv = (if has_compact_tail kv
                     then kv\<lparr>kv_generations_before := kv_generations kv, kv_graph_started := False\<rparr> else kv);
               levels = foldl max 0 (map nat (take (ub_n_tokens ub) (ub_n_seq_id ub)))
           in bind_r (with_tail begin_batch kv) (\<lambda>kv.
              assert_r (levels \<le> kv_n_seq_max kv)
                (Inr (kv\<lparr>kv_write_levels := levels,
                         kv_write_slots := replicate (ub_n_tokens ub * levels) LLAMA_KV_TAIL_BODY_SLOT\<rparr>))))"

definition finish_write_slots :: "llama_ubatch \<Rightarrow> llama_kv_cache \<Rightarrow> llama_kv_cache res" where
  "finish_write_slots ub kv =
     (if kv_tail kv = None \<or> kv_preparing kv then Inr kv
      else bind_r (map_r (\<lambda>n. sink_slot kv (n mod ub_n_tokens ub) (kv_write_slots kv ! n))
                     [0..<kv_write_levels kv * ub_n_tokens ub]) (\<lambda>slots.
             Inr (kv\<lparr>kv_write_slots := slots\<rparr>)))"

text \<open>All positions between the first and the last of a sequence stay present: what lies below a
  position that was overwritten is removed too.\<close>

definition purge_seq :: "(nat \<Rightarrow> int) \<Rightarrow> nat \<Rightarrow> llama_kv_cache \<Rightarrow> llama_kv_cache res" where
  "purge_seq lost s kv =
     (if lost s = -1 then Inr kv
      else bind_r (stream_of kv (int s)) (\<lambda>strm.
        bind_r (kv_cells_seq_pos_min (kv_cells kv ! strm) (int s)) (\<lambda>m.
          if m \<le> lost s then seq_rm_unchecked (int s) m (lost s + 1) kv else Inr kv)))"

definition apply_ubatch :: "slot_info \<Rightarrow> llama_ubatch \<Rightarrow> llama_kv_cache \<Rightarrow> llama_kv_cache res" where
  "apply_ubatch si ub kv =
     (if kv_other kv \<noteq> None then Inr kv
      else bind_r (slot_size si) (\<lambda>n.
        assert_r (ub_n_tokens ub = length (si_strm si) * n)
          (bind_r (begin_tail_batch ub kv) (\<lambda>kv.
           bind_r (fold_r (\<lambda>j. fold_r (apply_token si ub n j) [0..<n]) [0..<length (si_strm si)] (kv, \<lambda>_. -1)) (\<lambda>(kv, lost).
           bind_r (finish_write_slots ub kv) (\<lambda>kv.
           bind_r (fold_r (purge_seq lost) [0..<LLAMA_MAX_SEQ] kv) (\<lambda>kv.
             Inr (kv\<lparr>kv_heads := fold (\<lambda>j hs. hs[si_strm si ! j := last (si_idxs si ! j) + 1])
                                 [0..<length (si_strm si)] (kv_heads kv)\<rparr>))))))))"

definition finish_tail_batch :: "bool \<Rightarrow> bool \<Rightarrow> llama_kv_cache \<Rightarrow> llama_kv_cache res" where
  "finish_tail_batch success modified kv =
     (if kv_tail kv = None \<or> kv_preparing kv then Inr kv
      else bind_r (with_tail (finish_batch success modified) kv) (\<lambda>kv.
        let kv = (if \<not> success \<and> has_compact_tail kv \<and> kv_generations_before kv \<noteq> []
                  then kv\<lparr>kv_generations := kv_generations_before kv\<rparr> else kv)
        in Inr (kv\<lparr>kv_generations_before := [], kv_graph_started := False\<rparr>)))"

section \<open>Rehearsing a batch\<close>

record prepare_state =
  ps_sinfo :: slot_info
  ps_heads_old :: "nat list"
  ps_cells :: "llama_kv_cells list"

fun prepare_loop ::
    "llama_ubatch list \<Rightarrow> llama_kv_cache \<Rightarrow> slot_info list \<Rightarrow> prepare_state list \<Rightarrow>
     (bool \<times> slot_info list \<times> prepare_state list \<times> llama_kv_cache) res" where
  "prepare_loop [] kv res states = Inr (True, res, states, kv)"
| "prepare_loop (ub # ubs) kv res states =
     bind_r (find_slot kv ub False) (\<lambda>si.
       if si_idxs si = [] then Inr (False, res, states, kv)
       else bind_r (map_r (\<lambda>j. kv_cells_cp_idxs (kv_cells kv ! (si_strm si ! j)) (si_idxs si ! j))
                      [0..<length (si_strm si)]) (\<lambda>saved.
            bind_r (apply_ubatch si ub kv) (\<lambda>kv'.
              prepare_loop ubs kv' (res @ [si])
                (states @ [\<lparr>ps_sinfo = si, ps_heads_old = kv_heads kv, ps_cells = saved\<rparr>]))))"

definition restore_stream :: "prepare_state \<Rightarrow> nat \<Rightarrow> llama_kv_cache \<Rightarrow> llama_kv_cache res" where
  "restore_stream st j kv =
     (let s = si_strm (ps_sinfo st) ! j
      in if s \<ge> length (kv_cells kv) \<or> j \<ge> length (ps_heads_old st) then Inl Undefined
         else bind_r (kv_cells_set_idxs (kv_cells kv ! s) (si_idxs (ps_sinfo st) ! j) (ps_cells st ! j)) (\<lambda>c.
           Inr ((set_cells s c kv)\<lparr>kv_heads := (kv_heads kv)[s := ps_heads_old st ! j]\<rparr>)))"

definition restore_state :: "prepare_state \<Rightarrow> llama_kv_cache \<Rightarrow> llama_kv_cache res" where
  "restore_state st = fold_r (restore_stream st) [0..<length (si_strm (ps_sinfo st))]"

text \<open>The empty result is a failure, as for the caller.\<close>

definition kv_prepare :: "llama_ubatch list \<Rightarrow> llama_kv_cache \<Rightarrow> (slot_info list \<times> llama_kv_cache) res" where
  "kv_prepare ubs kv =
     bind_r (prepare_loop ubs (kv\<lparr>kv_preparing := True\<rparr>) [] []) (\<lambda>(success, res, states, kv).
       assert_r (states \<noteq> [] \<or> \<not> success)
         (bind_r (fold_r restore_state (rev states) (kv\<lparr>kv_preparing := False\<rparr>)) (\<lambda>kv.
            Inr (if success then res else [], kv))))"

end
