(* ===== verification/KvEdit.thy ===== *)
theory KvEdit
  imports KvCache
begin

text \<open>
  Edits of sequences in the KV cache. Each loop over the cells is an instance of one interface: a body
  that maps the content of its cell and reports whether it was freed. The interface gives the whole loop,
  and the loops give every edit of the cache as a map on the cell contents, beside the calls of
  the exact tail and the search heads.
\<close>

section \<open>Loops over cells\<close>

definition cells_ok :: "llama_kv_cells \<Rightarrow> bool" where
  "cells_ok c \<longleftrightarrow> kv_cells_inv c \<and> (\<forall>i < length (kc_pos c). kc_pos c ! i \<noteq> -1 \<longrightarrow> kc_seq c ! i \<noteq> {})"

lemma cells_okD:
  assumes "cells_ok c"
  shows "kv_cells_inv c" "length (kv_cells_list c) = length (kc_pos c)" "length (kc_seq c) = length (kc_pos c)"
    "i < length (kc_pos c) \<Longrightarrow> kv_cells_list c ! i = (kc_pos c ! i, kc_seq c ! i)"
    "i < length (kc_pos c) \<Longrightarrow> kc_pos c ! i = -1 \<longleftrightarrow> kc_seq c ! i = {}"
    "i < length (kc_pos c) \<Longrightarrow> kc_seq c ! i \<subseteq> {..<LLAMA_MAX_SEQ}" "i < length (kc_pos c) \<Longrightarrow> -1 \<le> kc_pos c ! i"
  using assms kv_cells_invD [of c] by (auto simp: cells_ok_def)

lemma list_update_pair:
  assumes "kc_pos c' = (kc_pos c)[i := p]" and "kc_seq c' = (kc_seq c)[i := S]"
  shows "kv_cells_list c' = (kv_cells_list c)[i := (p, S)]"
  using assms by (simp add: kv_cells_list_def update_zip)

lemma cells_ok_update:
  assumes "cells_ok c" and "kv_cells_inv c'" and "i < length (kc_pos c)"
    and "kc_pos c' = (kc_pos c)[i := p]" and "kc_seq c' = (kc_seq c)[i := S]" and "p \<noteq> -1 \<Longrightarrow> S \<noteq> {}"
  shows "cells_ok c'" and "kv_cells_list c' = (kv_cells_list c)[i := (p, S)]"
  using assms by (auto simp: cells_ok_def nth_list_update kv_cells_invD(1) list_update_pair)

lemma cells_ok_same:
  assumes "cells_ok c" and "i < length (kc_pos c)"
  shows "(kv_cells_list c)[i := (kc_pos c ! i, kc_seq c ! i)] = kv_cells_list c"
  using cells_okD(2,4) [OF assms(1)] assms(2) by (metis list_update_id)

lemma replace_at_front:
  assumes "i < length xs"
  shows "(map f (take i xs) @ drop i xs)[i := f (xs ! i)] = map f (take (Suc i) xs) @ drop (Suc i) xs"
  using assms by (simp add: list_update_append take_Suc_conv_app_nth flip: Cons_nth_drop_Suc)

text \<open>The contract of a loop body: under a condition on the content of its cell it completes, replaces
  that content, leaves the other cells alone and says whether the cell was freed.\<close>

locale cell_edit =
  fixes body :: "nat \<Rightarrow> llama_kv_cells \<Rightarrow> (bool \<times> llama_kv_cells) res"
    and upd :: "int \<times> nat set \<Rightarrow> int \<times> nat set"
    and frees :: "int \<times> nat set \<Rightarrow> bool"
    and allowed :: "int \<times> nat set \<Rightarrow> bool"
  assumes body_ok: "cells_ok c \<Longrightarrow> i < length (kc_pos c) \<Longrightarrow> kv_cells_list c ! i = z \<Longrightarrow> allowed z \<Longrightarrow>
    \<exists>c'. body i c = Inr (frees z, c') \<and> cells_ok c' \<and> kv_cells_list c' = (kv_cells_list c)[i := upd z]"
begin

lemma loop_prefix:
  assumes c: "cells_ok c" and al: "\<forall>z \<in> set (kv_cells_list c). allowed z" and k: "k \<le> length (kc_pos c)"
  shows "\<exists>c'. fold_r (\<lambda>i (new_head, c). bind_r (body i c) (\<lambda>(freed, c).
        Inr (if freed \<and> new_head = kv_cells_size c then i else new_head, c))) [0..<k] (kv_cells_size c, c) =
      Inr (if \<exists>i < k. frees (kv_cells_list c ! i) then LEAST i. frees (kv_cells_list c ! i) else length (kc_pos c), c') \<and>
    cells_ok c' \<and> kv_cells_list c' = map upd (take k (kv_cells_list c)) @ drop k (kv_cells_list c)"
  using k
proof (induction k)
  case 0
  then show ?case using c by (simp add: kv_cells_size_def)
next
  case (Suc k)
  let ?L = "kv_cells_list c" and ?n = "length (kc_pos c)"
  let ?h = "if \<exists>i < k. frees (?L ! i) then LEAST i. frees (?L ! i) else ?n"
  obtain c1 where c1: "fold_r (\<lambda>i (new_head, c). bind_r (body i c) (\<lambda>(freed, c).
        Inr (if freed \<and> new_head = kv_cells_size c then i else new_head, c))) [0..<k] (kv_cells_size c, c) = Inr (?h, c1)"
      "cells_ok c1" "kv_cells_list c1 = map upd (take k ?L) @ drop k ?L"
    using Suc by auto
  have len: "length ?L = ?n" by (rule cells_okD(2) [OF c])
  have n1: "length (kc_pos c1) = ?n" using cells_okD(2) [OF c1(2)] c1(3) len Suc.prems by simp
  have z: "kv_cells_list c1 ! k = ?L ! k" using c1(3) Suc.prems len by (simp add: nth_append)
  have "allowed (?L ! k)" using al len Suc.prems by (simp add: nth_mem)
  then obtain c2 where c2: "body k c1 = Inr (frees (?L ! k), c2)" "cells_ok c2"
      "kv_cells_list c2 = (kv_cells_list c1)[k := upd (?L ! k)]"
    using body_ok [OF c1(2) _ z] n1 Suc.prems by auto
  have n2: "kv_cells_size c2 = ?n" using cells_okD(2) [OF c2(2)] cells_okD(2) [OF c1(2)] c2(3) n1 by (simp add: kv_cells_size_def)
  have "(if frees (?L ! k) \<and> ?h = ?n then k else ?h) =
      (if \<exists>i < Suc k. frees (?L ! i) then LEAST i. frees (?L ! i) else ?n)"
  proof (cases "\<exists>i < k. frees (?L ! i)")
    case True
    then obtain i where i: "i < k" "frees (?L ! i)" by blast
    then have "(LEAST i. frees (?L ! i)) < k" using Least_le [of "\<lambda>i. frees (?L ! i)"] by (meson le_less_trans)
    then show ?thesis using True Suc.prems by (auto simp: less_Suc_eq)
  next
    case False
    have "(LEAST i. frees (?L ! i)) = k" if "frees (?L ! k)"
      using that False by (intro Least_equality) (auto simp: not_less [symmetric])
    then show ?thesis using False by (auto simp: less_Suc_eq)
  qed
  moreover have "kv_cells_list c2 = map upd (take (Suc k) ?L) @ drop (Suc k) ?L"
    using replace_at_front [of k ?L upd] Suc.prems len unfolding c2(3) c1(3) by simp
  ultimately show ?case using c2(1,2) n2 by (simp add: fold_r_append c1(1))
qed

lemma cell_loop_eq:
  assumes "cells_ok c" and "\<forall>z \<in> set (kv_cells_list c). allowed z"
  shows "\<exists>h c'. cell_loop body c = Inr (h, c') \<and> cells_ok c' \<and> kv_cells_list c' = map upd (kv_cells_list c) \<and>
    length (kc_pos c') = length (kc_pos c) \<and> h \<le> length (kc_pos c) \<and>
    (h = length (kc_pos c) \<longleftrightarrow> (\<forall>z \<in> set (kv_cells_list c). \<not> frees z)) \<and>
    (h < length (kc_pos c) \<longrightarrow> frees (kv_cells_list c ! h) \<and> (\<forall>i < h. \<not> frees (kv_cells_list c ! i)))"
proof -
  let ?L = "kv_cells_list c" and ?n = "length (kc_pos c)"
  let ?h = "if \<exists>i < ?n. frees (?L ! i) then LEAST i. frees (?L ! i) else ?n"
  have len: "length ?L = ?n" by (rule cells_okD(2) [OF assms(1)])
  obtain c' where c': "cell_loop body c = Inr (?h, c')" "cells_ok c'" "kv_cells_list c' = map upd ?L"
    using loop_prefix [OF assms order_refl] len unfolding cell_loop_def kv_cells_size_def by auto
  have "length (kc_pos c') = ?n" using cells_okD(2) [OF c'(2)] c'(3) len by simp
  moreover have "?h \<le> ?n \<and> (?h = ?n \<longleftrightarrow> (\<forall>z \<in> set ?L. \<not> frees z)) \<and>
      (?h < ?n \<longrightarrow> frees (?L ! ?h) \<and> (\<forall>i < ?h. \<not> frees (?L ! i)))"
  proof (cases "\<exists>i < ?n. frees (?L ! i)")
    case True
    then obtain i where i: "i < ?n" "frees (?L ! i)" by blast
    define l where "l = (LEAST i. frees (?L ! i))"
    have "frees (?L ! l)" unfolding l_def using i(2) by (rule LeastI)
    moreover have "l < ?n" using Least_le [of "\<lambda>i. frees (?L ! i)", OF i(2)] i(1) unfolding l_def by simp
    moreover have "\<exists>z \<in> set ?L. frees z" using i len nth_mem [of i ?L] by auto
    moreover have "\<forall>i < l. \<not> frees (?L ! i)" unfolding l_def using not_less_Least by blast
    moreover have "?h = l" unfolding l_def using True by (simp only: if_True)
    ultimately show ?thesis by simp
  next
    case False
    then have "\<forall>z \<in> set ?L. \<not> frees z" using len by (metis in_set_conv_nth)
    moreover have "?h = ?n" using False by (simp only: if_False)
    ultimately show ?thesis by simp
  qed
  ultimately show ?thesis using c' by blast
qed

end

section \<open>The edits as maps on cell contents\<close>

type_synonym cell_content = "int \<times> nat set"

definition hits :: "nat \<Rightarrow> int \<Rightarrow> int \<Rightarrow> cell_content \<Rightarrow> bool" where
  "hits s lo hi z \<longleftrightarrow> lo \<le> fst z \<and> fst z < hi \<and> s \<in> snd z"

definition spec_rm :: "nat \<Rightarrow> int \<Rightarrow> int \<Rightarrow> cell_content \<Rightarrow> cell_content" where
  "spec_rm s lo hi z = (if hits s lo hi z then (if snd z = {s} then (-1, {}) else (fst z, snd z - {s})) else z)"

definition spec_rm_any :: "int \<Rightarrow> int \<Rightarrow> cell_content \<Rightarrow> cell_content" where
  "spec_rm_any lo hi z = (if lo \<le> fst z \<and> fst z < hi then (-1, {}) else z)"

definition spec_keep :: "nat \<Rightarrow> cell_content \<Rightarrow> cell_content" where
  "spec_keep s z = (if s \<in> snd z then (fst z, {s}) else (-1, {}))"

definition spec_add :: "nat \<Rightarrow> int \<Rightarrow> int \<Rightarrow> int \<Rightarrow> cell_content \<Rightarrow> cell_content" where
  "spec_add s lo hi d z = (if hits s lo hi z then (if fst z + d < 0 then (-1, {}) else (fst z + d, snd z)) else z)"

definition spec_div :: "nat \<Rightarrow> int \<Rightarrow> int \<Rightarrow> int \<Rightarrow> cell_content \<Rightarrow> cell_content" where
  "spec_div s lo hi d z = (if hits s lo hi z then (fst z div d, snd z) else z)"

definition spec_cp :: "nat \<Rightarrow> nat \<Rightarrow> int \<Rightarrow> int \<Rightarrow> cell_content \<Rightarrow> cell_content" where
  "spec_cp s t lo hi z = (if hits s lo hi z then (fst z, insert t (snd z)) else z)"

lemma when_in_eq:
  assumes "cells_ok c" and "i < length (kc_pos c)" and "s < LLAMA_MAX_SEQ" and "kv_cells_list c ! i = z"
  shows "when_in (int s) lo hi body i c = (if hits s lo hi z then body i c else Inr (False, c))"
  using assms cells_okD(4) [OF assms(1,2)]
  by (auto simp: when_in_def kv_cells_pos_in_def kv_cells_seq_has_def hits_def)

lemma not_hit:
  assumes "cells_ok c" and "i < length (kc_pos c)" and "kv_cells_list c ! i = z"
  shows "\<exists>c'. Inr (False, c) = Inr (False, c') \<and> cells_ok c' \<and> kv_cells_list c' = (kv_cells_list c)[i := z]"
  using assms by (metis list_update_id)

interpretation rm_loop: cell_edit "when_in (int s) lo hi (\<lambda>i. kv_cells_seq_rm i (int s))" "spec_rm s lo hi"
    "\<lambda>z. hits s lo hi z \<and> snd z = {s}" "\<lambda>z. s < LLAMA_MAX_SEQ" for s lo hi
proof
  fix c i z assume c: "cells_ok c" and i: "i < length (kc_pos c)" and z: "kv_cells_list c ! i = z" and s: "s < LLAMA_MAX_SEQ"
  show "\<exists>c'. when_in (int s) lo hi (\<lambda>i. kv_cells_seq_rm i (int s)) i c = Inr (hits s lo hi z \<and> snd z = {s}, c') \<and>
      cells_ok c' \<and> kv_cells_list c' = (kv_cells_list c)[i := spec_rm s lo hi z]"
  proof (cases "hits s lo hi z")
    case True
    have zz: "z = (kc_pos c ! i, kc_seq c ! i)" using z cells_okD(4) [OF c i] by simp
    obtain c' where c': "kv_cells_seq_rm i (int s) c = Inr (kc_seq c ! i = {s}, c')" "kv_cells_inv c'"
        "kc_seq c' = (kc_seq c)[i := kc_seq c ! i - {s}]" "kc_pos c' = (kc_pos c)[i := if kc_seq c ! i = {s} then -1 else kc_pos c ! i]"
      using kv_cells_seq_rm_inv [OF cells_okD(1) [OF c] i, of s] True zz by (auto simp: hits_def)
    have "(if kc_seq c ! i = {s} then -1 else kc_pos c ! i) \<noteq> -1 \<Longrightarrow> kc_seq c ! i - {s} \<noteq> {}"
      using True zz by (auto simp: hits_def split: if_splits)
    note u = cells_ok_update [OF c c'(2) i c'(4,3) this]
    have "(if kc_seq c ! i = {s} then -1 else kc_pos c ! i, kc_seq c ! i - {s}) = spec_rm s lo hi z"
      using True by (auto simp: spec_rm_def zz)
    then show ?thesis using c'(1) u True unfolding when_in_eq [OF c i s z] by (simp add: zz)
  next
    case False
    then show ?thesis using not_hit [OF c i z] unfolding when_in_eq [OF c i s z] by (simp add: spec_rm_def)
  qed
qed

interpretation rm_any_loop: cell_edit "rm_any lo hi" "spec_rm_any lo hi" "\<lambda>z. lo \<le> fst z \<and> fst z < hi" "\<lambda>z. 0 \<le> lo"
    for lo hi
proof
  fix c i z assume c: "cells_ok c" and i: "i < length (kc_pos c)" and z: "kv_cells_list c ! i = z" and lo: "0 \<le> lo"
  have zz: "z = (kc_pos c ! i, kc_seq c ! i)" using z cells_okD(4) [OF c i] by simp
  show "\<exists>c'. rm_any lo hi i c = Inr (lo \<le> fst z \<and> fst z < hi, c') \<and> cells_ok c' \<and>
      kv_cells_list c' = (kv_cells_list c)[i := spec_rm_any lo hi z]"
  proof (cases "lo \<le> fst z \<and> fst z < hi")
    case True
    then obtain c' where c': "kv_cells_rm i c = Inr c'" "kv_cells_inv c'" "kc_pos c' = (kc_pos c)[i := -1]" "kc_seq c' = (kc_seq c)[i := {}]"
      using kv_cells_rm_inv [OF cells_okD(1) [OF c] i] lo zz by auto
    then show ?thesis using cells_ok_update [OF c c'(2) i c'(3,4)] True i zz
      by (simp add: rm_any_def kv_cells_pos_in_def spec_rm_any_def)
  next
    case False
    then show ?thesis using not_hit [OF c i z] i zz by (auto simp: rm_any_def kv_cells_pos_in_def spec_rm_any_def)
  qed
qed

interpretation keep_loop: cell_edit "\<lambda>i. kv_cells_seq_keep i (int s)" "spec_keep s"
    "\<lambda>z. s \<notin> snd z \<and> snd z \<noteq> {}" "\<lambda>z. s < LLAMA_MAX_SEQ" for s
proof
  fix c i z assume c: "cells_ok c" and i: "i < length (kc_pos c)" and z: "kv_cells_list c ! i = z" and s: "s < LLAMA_MAX_SEQ"
  have zz: "z = (kc_pos c ! i, kc_seq c ! i)" using z cells_okD(4) [OF c i] by simp
  obtain c' where c': "kv_cells_seq_keep i (int s) c = Inr (s \<notin> kc_seq c ! i \<and> kc_seq c ! i \<noteq> {}, c')" "kv_cells_inv c'"
      "kc_seq c' = (kc_seq c)[i := kc_seq c ! i \<inter> {s}]" "kc_pos c' = (kc_pos c)[i := if s \<in> kc_seq c ! i then kc_pos c ! i else -1]"
    using kv_cells_seq_keep_inv [OF cells_okD(1) [OF c] i s] cells_okD(5) [OF c i] by auto
  have "(if s \<in> kc_seq c ! i then kc_pos c ! i else -1) \<noteq> -1 \<Longrightarrow> kc_seq c ! i \<inter> {s} \<noteq> {}" by (auto split: if_splits)
  then show "\<exists>c'. kv_cells_seq_keep i (int s) c = Inr (s \<notin> snd z \<and> snd z \<noteq> {}, c') \<and> cells_ok c' \<and>
      kv_cells_list c' = (kv_cells_list c)[i := spec_keep s z]"
    using cells_ok_update [OF c c'(2) i c'(4,3)] c'(1) by (auto simp: zz spec_keep_def)
qed

interpretation add_loop: cell_edit "when_in (int s) lo hi (\<lambda>i. kv_cells_pos_add i d)" "spec_add s lo hi d"
    "\<lambda>z. hits s lo hi z \<and> fst z + d < 0" "\<lambda>z. s < LLAMA_MAX_SEQ \<and> 0 \<le> lo" for s lo hi d
proof
  fix c i z assume c: "cells_ok c" and i: "i < length (kc_pos c)" and z: "kv_cells_list c ! i = z" and s: "s < LLAMA_MAX_SEQ \<and> 0 \<le> lo"
  have zz: "z = (kc_pos c ! i, kc_seq c ! i)" using z cells_okD(4) [OF c i] by simp
  show "\<exists>c'. when_in (int s) lo hi (\<lambda>i. kv_cells_pos_add i d) i c = Inr (hits s lo hi z \<and> fst z + d < 0, c') \<and>
      cells_ok c' \<and> kv_cells_list c' = (kv_cells_list c)[i := spec_add s lo hi d z]"
  proof (cases "hits s lo hi z")
    case True
    have "kc_pos c ! i \<noteq> -1" using True s zz by (auto simp: hits_def)
    from kv_cells_pos_add_inv [OF cells_okD(1) [OF c] i this, of d]
    obtain c' where c': "kv_cells_pos_add i d c = Inr (kc_pos c ! i + d < 0, c')" "kv_cells_inv c'"
        "kc_pos c' = (kc_pos c)[i := if kc_pos c ! i + d < 0 then -1 else kc_pos c ! i + d]"
        "kc_seq c' = (kc_seq c)[i := if kc_pos c ! i + d < 0 then {} else kc_seq c ! i]" by blast
    have "(if kc_pos c ! i + d < 0 then -1 else kc_pos c ! i + d) \<noteq> -1 \<Longrightarrow> (if kc_pos c ! i + d < 0 then {} else kc_seq c ! i) \<noteq> {}"
      using True zz by (auto simp: hits_def split: if_splits)
    note u = cells_ok_update [OF c c'(2) i c'(3,4) this]
    have "(if kc_pos c ! i + d < 0 then -1 else kc_pos c ! i + d, if kc_pos c ! i + d < 0 then {} else kc_seq c ! i) =
        spec_add s lo hi d z" using True by (auto simp: spec_add_def zz)
    then show ?thesis using c'(1) u True unfolding when_in_eq [OF c i s [THEN conjunct1] z] by (simp add: zz)
  next
    case False
    then show ?thesis using not_hit [OF c i z] unfolding when_in_eq [OF c i s [THEN conjunct1] z] by (simp add: spec_add_def)
  qed
qed

interpretation div_loop: cell_edit "when_in (int s) lo hi (\<lambda>i c. bind_r (kv_cells_pos_div i d c) (\<lambda>c. Inr (False, c)))"
    "spec_div s lo hi d" "\<lambda>z. False" "\<lambda>z. s < LLAMA_MAX_SEQ \<and> 0 \<le> lo \<and> 0 < d" for s lo hi d
proof
  fix c i z assume c: "cells_ok c" and i: "i < length (kc_pos c)" and z: "kv_cells_list c ! i = z"
    and s: "s < LLAMA_MAX_SEQ \<and> 0 \<le> lo \<and> 0 < d"
  have zz: "z = (kc_pos c ! i, kc_seq c ! i)" using z cells_okD(4) [OF c i] by simp
  show "\<exists>c'. when_in (int s) lo hi (\<lambda>i c. bind_r (kv_cells_pos_div i d c) (\<lambda>c. Inr (False, c))) i c = Inr (False, c') \<and>
      cells_ok c' \<and> kv_cells_list c' = (kv_cells_list c)[i := spec_div s lo hi d z]"
  proof (cases "hits s lo hi z")
    case True
    have "kc_pos c ! i \<noteq> -1" using True s zz by (auto simp: hits_def)
    then obtain c' where c': "kv_cells_pos_div i d c = Inr c'" "kv_cells_inv c'"
        "kc_pos c' = (kc_pos c)[i := kc_pos c ! i div d]" "kc_seq c' = (kc_seq c)[i := kc_seq c ! i]"
      using kv_cells_pos_div_inv [OF cells_okD(1) [OF c] i _ s [THEN conjunct2, THEN conjunct2]] by auto
    have "kc_seq c ! i \<noteq> {}" using True zz by (auto simp: hits_def)
    then show ?thesis using cells_ok_update [OF c c'(2) i c'(3,4)] c'(1) True unfolding when_in_eq [OF c i s [THEN conjunct1] z]
      by (simp add: spec_div_def zz)
  next
    case False
    then show ?thesis using not_hit [OF c i z] unfolding when_in_eq [OF c i s [THEN conjunct1] z] by (simp add: spec_div_def)
  qed
qed

interpretation cp_loop: cell_edit "when_in (int s) lo hi (\<lambda>i c. bind_r (kv_cells_seq_add i (int t) c) (\<lambda>c. Inr (False, c)))"
    "spec_cp s t lo hi" "\<lambda>z. False"
    "\<lambda>z. s < LLAMA_MAX_SEQ \<and> t < LLAMA_MAX_SEQ \<and> 0 \<le> lo \<and> (hits s lo hi z \<longrightarrow> t \<notin> snd z)" for s t lo hi
proof
  fix c i z assume c: "cells_ok c" and i: "i < length (kc_pos c)" and z: "kv_cells_list c ! i = z"
    and s: "s < LLAMA_MAX_SEQ \<and> t < LLAMA_MAX_SEQ \<and> 0 \<le> lo \<and> (hits s lo hi z \<longrightarrow> t \<notin> snd z)"
  have zz: "z = (kc_pos c ! i, kc_seq c ! i)" using z cells_okD(4) [OF c i] by simp
  show "\<exists>c'. when_in (int s) lo hi (\<lambda>i c. bind_r (kv_cells_seq_add i (int t) c) (\<lambda>c. Inr (False, c))) i c = Inr (False, c') \<and>
      cells_ok c' \<and> kv_cells_list c' = (kv_cells_list c)[i := spec_cp s t lo hi z]"
  proof (cases "hits s lo hi z")
    case True
    have "kc_pos c ! i \<noteq> -1" using True s zz by (auto simp: hits_def)
    then obtain c' where c': "kv_cells_seq_add i (int t) c = Inr c'" "kv_cells_inv c'"
        "kc_pos c' = (kc_pos c)[i := kc_pos c ! i]" "kc_seq c' = (kc_seq c)[i := insert t (kc_seq c ! i)]"
      using kv_cells_seq_add_inv [OF cells_okD(1) [OF c] i, of t] s True zz by auto
    then show ?thesis using cells_ok_update [OF c c'(2) i c'(3,4)] True unfolding when_in_eq [OF c i s [THEN conjunct1] z]
      by (simp add: spec_cp_def zz)
  next
    case False
    then show ?thesis using not_hit [OF c i z] unfolding when_in_eq [OF c i s [THEN conjunct1] z] by (simp add: spec_cp_def)
  qed
qed

section \<open>The invariant of the cache\<close>

definition kv_cap :: "llama_kv_cache \<Rightarrow> nat" where
  "kv_cap kv = length (kc_pos (kv_cells kv ! 0))"

definition kv_wf :: "llama_kv_cache \<Rightarrow> bool" where
  "kv_wf kv \<longleftrightarrow> kv_other kv = None \<and> 0 < kv_n_stream kv \<and> kv_n_seq_max kv \<le> LLAMA_MAX_SEQ \<and>
     (if kv_n_stream kv = 1 then kv_seq_to_stream kv = replicate LLAMA_MAX_SEQ 0
      else kv_seq_to_stream kv = [0..<kv_n_stream kv] \<and> kv_n_seq_max kv = kv_n_stream kv) \<and>
     length (kv_cells kv) = kv_n_stream kv \<and> length (kv_heads kv) = kv_n_stream kv \<and>
     length (kv_seq_heads kv) = kv_n_seq_max kv \<and>
     (\<forall>s < kv_n_stream kv. cells_ok (kv_cells kv ! s) \<and>
        length (kc_pos (kv_cells kv ! s)) = kv_cap kv \<and> kv_heads kv ! s \<le> kv_cap kv) \<and>
     length (sc_ssrc (kv_sc_info kv)) = length (sc_sdst (kv_sc_info kv)) \<and>
     length (sc_tail_src (kv_sc_info kv)) = length (sc_tail_dst (kv_sc_info kv))"

definition tail_ok :: "nat \<Rightarrow> stream_copy_info \<Rightarrow> llama_kv_tail_store option \<Rightarrow> bool" where
  "tail_ok n sc tw \<longleftrightarrow> (case tw of None \<Rightarrow> True
     | Some t \<Rightarrow> store_inv t \<and> length (st_seqs t) = n \<and> (st_pending t = None \<or> sc_tail_transaction sc))"

definition tail_idle :: "llama_kv_tail_store option \<Rightarrow> bool" where
  "tail_idle tw \<longleftrightarrow> (case tw of None \<Rightarrow> True | Some t \<Rightarrow> st_pending t = None)"

definition kv_inv :: "llama_kv_cache \<Rightarrow> bool" where
  "kv_inv kv \<longleftrightarrow> kv_wf kv \<and> tail_ok (kv_n_seq_max kv) (kv_sc_info kv) (kv_tail kv)"

definition kv_view :: "llama_kv_cache \<Rightarrow> cell_content list list" where
  "kv_view kv = map kv_cells_list (kv_cells kv)"

definition known_seq :: "llama_kv_cache \<Rightarrow> int \<Rightarrow> bool" where
  "known_seq kv s \<longleftrightarrow> 0 \<le> s \<and> nat s < length (kv_seq_to_stream kv)"

definition stream_idx :: "llama_kv_cache \<Rightarrow> int \<Rightarrow> nat" where
  "stream_idx kv s = kv_seq_to_stream kv ! nat s"

lemma kv_wf_parts:
  assumes "kv_wf kv"
  shows "kv_other kv = None" "0 < kv_n_stream kv" "length (kv_cells kv) = kv_n_stream kv"
    "length (kv_heads kv) = kv_n_stream kv" "kv_n_seq_max kv \<le> LLAMA_MAX_SEQ" "length (kv_seq_heads kv) = kv_n_seq_max kv"
    "s < kv_n_stream kv \<Longrightarrow> cells_ok (kv_cells kv ! s)"
    "s < kv_n_stream kv \<Longrightarrow> length (kc_pos (kv_cells kv ! s)) = kv_cap kv"
    "s < kv_n_stream kv \<Longrightarrow> kv_heads kv ! s \<le> kv_cap kv"
    "kv_n_seq_max kv \<le> length (kv_seq_to_stream kv)" "length (kv_seq_to_stream kv) \<le> LLAMA_MAX_SEQ"
    "kv_n_stream kv = 1 \<Longrightarrow> kv_seq_to_stream kv = replicate LLAMA_MAX_SEQ 0"
    "kv_n_stream kv \<noteq> 1 \<Longrightarrow> kv_seq_to_stream kv = [0..<kv_n_stream kv]"
  using assms unfolding kv_wf_def by (auto split: if_splits)

lemma stream_of_ok:
  assumes "kv_wf kv" and "known_seq kv s"
  shows "stream_of kv s = Inr (stream_idx kv s)" and "stream_idx kv s < kv_n_stream kv" and "nat s < LLAMA_MAX_SEQ"
proof -
  note w = kv_wf_parts [OF assms(1)]
  show "nat s < LLAMA_MAX_SEQ" using w(11) assms(2) by (simp add: known_seq_def)
  show "stream_idx kv s < kv_n_stream kv"
    using w(2,12,13) assms(2) by (cases "kv_n_stream kv = 1") (simp_all add: known_seq_def stream_idx_def)
  then show "stream_of kv s = Inr (stream_idx kv s)"
    using assms(2) w(3,4) by (simp add: stream_of_def known_seq_def stream_idx_def Let_def)
qed

text \<open>What does not touch the geometry keeps it.\<close>

lemma kv_cap_upd [simp]:
  "kv_cap (kv\<lparr>kv_tail := t\<rparr>) = kv_cap kv" "kv_cap (kv\<lparr>kv_sc_info := sc\<rparr>) = kv_cap kv"
  "kv_cap (kv\<lparr>kv_heads := h\<rparr>) = kv_cap kv" "kv_cap (kv\<lparr>kv_seq_heads := h\<rparr>) = kv_cap kv"
  by (simp_all add: kv_cap_def)

lemma kv_wf_tail [simp]: "kv_wf (kv\<lparr>kv_tail := t\<rparr>) = kv_wf kv"
  by (simp add: kv_wf_def)

lemma kv_wf_heads: "kv_wf kv \<Longrightarrow> length h = length (kv_seq_heads kv) \<Longrightarrow> kv_wf (kv\<lparr>kv_seq_heads := h\<rparr>)"
  by (simp add: kv_wf_def)

lemma kv_wf_sc_none: "kv_wf kv \<Longrightarrow> kv_wf (kv\<lparr>kv_sc_info := sc_none\<rparr>)"
  by (simp add: kv_wf_def sc_none_def)

lemma known_seq_upd [simp]:
  "known_seq (kv\<lparr>kv_tail := t\<rparr>) s = known_seq kv s" "known_seq (kv\<lparr>kv_sc_info := sc\<rparr>) s = known_seq kv s"
  "known_seq (kv\<lparr>kv_cells := cs\<rparr>) s = known_seq kv s" "known_seq (kv\<lparr>kv_heads := h\<rparr>) s = known_seq kv s"
  "known_seq (kv\<lparr>kv_seq_heads := h\<rparr>) s = known_seq kv s"
  "stream_idx (kv\<lparr>kv_tail := t\<rparr>) s = stream_idx kv s" "stream_idx (kv\<lparr>kv_sc_info := sc\<rparr>) s = stream_idx kv s"
  "stream_idx (kv\<lparr>kv_cells := cs\<rparr>) s = stream_idx kv s" "stream_idx (kv\<lparr>kv_heads := h\<rparr>) s = stream_idx kv s"
  "stream_idx (kv\<lparr>kv_seq_heads := h\<rparr>) s = stream_idx kv s"
  by (simp_all add: known_seq_def stream_idx_def)

lemma kv_wf_stream:
  assumes "kv_wf kv" and "s < kv_n_stream kv" and "cells_ok c" and "length (kc_pos c) = kv_cap kv" and "h \<le> kv_cap kv"
  shows "kv_wf (kv\<lparr>kv_cells := (kv_cells kv)[s := c], kv_heads := (kv_heads kv)[s := h]\<rparr>)"
proof -
  note w = kv_wf_parts [OF assms(1)]
  have cap: "kv_cap (kv\<lparr>kv_cells := (kv_cells kv)[s := c], kv_heads := (kv_heads kv)[s := h]\<rparr>) = kv_cap kv"
    using w(2,3) assms(4) by (cases s) (simp_all add: kv_cap_def)
  have "cells_ok ((kv_cells kv)[s := c] ! j) \<and> length (kc_pos ((kv_cells kv)[s := c] ! j)) = kv_cap kv \<and>
      (kv_heads kv)[s := h] ! j \<le> kv_cap kv" if "j < kv_n_stream kv" for j
    using w(3,4,7-9) assms that by (auto simp: nth_list_update)
  then show ?thesis using assms(1) cap unfolding kv_wf_def by simp
qed

section \<open>The parts of an edit\<close>

lemma newest_cell_ok:
  assumes "cells_ok c" and "s < LLAMA_MAX_SEQ"
  shows "\<exists>n. newest_cell c (int s) = Inr n"
proof -
  have "\<exists>st. fold_r (\<lambda>i (pos_max, newest). bind_r (kv_cells_seq_has c i (int s)) (\<lambda>has.
           if has then bind_r (kv_cells_pos_get c i) (\<lambda>p. Inr (if p > pos_max then (p, i) else (pos_max, newest)))
           else Inr (pos_max, newest))) [0..<kv_cells_size c] (-1, kv_cells_size c) = Inr st \<and> True"
  proof (rule fold_r_invariant)
    fix i st assume "i \<in> set [0..<kv_cells_size c]"
    then show "\<exists>st'. (\<lambda>(pos_max, newest). bind_r (kv_cells_seq_has c i (int s)) (\<lambda>has.
           if has then bind_r (kv_cells_pos_get c i) (\<lambda>p. Inr (if p > pos_max then (p, i) else (pos_max, newest)))
           else Inr (pos_max, newest))) st = Inr st' \<and> True"
      using cells_okD(5) [OF assms(1), of i] assms(2)
      by (cases st) (auto simp: kv_cells_seq_has_def kv_cells_pos_get_def kv_cells_size_def)
  qed simp
  then show ?thesis by (auto simp: newest_cell_def)
qed

lemma rebuild_ok:
  assumes w: "kv_wf kv"
  shows "\<exists>h. rebuild_allocation_head s kv = Inr (kv\<lparr>kv_seq_heads := h\<rparr>) \<and> length h = length (kv_seq_heads kv)"
proof (cases "s < 0 \<or> nat s \<ge> kv_n_seq_max kv \<or> kv_group_size kv \<le> 1 \<or> kv_n_stream kv \<noteq> 1")
  case True
  then have "rebuild_allocation_head s kv = Inr (kv\<lparr>kv_seq_heads := kv_seq_heads kv\<rparr>)"
    by (simp add: rebuild_allocation_head_def)
  then show ?thesis by blast
next
  case False
  then obtain n where n: "newest_cell (kv_cells kv ! 0) s = Inr n"
    using newest_cell_ok [of "kv_cells kv ! 0" "nat s"] kv_wf_parts(5,7) [OF w] by auto
  have "reset_allocation_head s kv = kv\<lparr>kv_seq_heads := (kv_seq_heads kv)[nat s := 0]\<rparr>"
    using False by (auto simp: reset_allocation_head_def)
  then show ?thesis using False n by (auto simp: rebuild_allocation_head_def intro: exI [of _ "(kv_seq_heads kv)[nat s := 0]"]
        exI [of _ "(kv_seq_heads kv)[nat s := n + 1]"])
qed

lemma rebuild_all_ok:
  assumes w: "kv_wf kv"
  shows "\<exists>h. rebuild_all_heads kv = Inr (kv\<lparr>kv_seq_heads := h\<rparr>) \<and> length h = length (kv_seq_heads kv)"
proof -
  have "\<exists>k. fold_r (\<lambda>s. rebuild_allocation_head (int s)) [0..<kv_n_seq_max kv] kv = Inr k \<and>
      (\<exists>h. k = kv\<lparr>kv_seq_heads := h\<rparr> \<and> length h = length (kv_seq_heads kv))"
  proof (rule fold_r_invariant)
    fix s k assume "\<exists>h. k = kv\<lparr>kv_seq_heads := h\<rparr> \<and> length h = length (kv_seq_heads kv)"
    then obtain h where h: "k = kv\<lparr>kv_seq_heads := h\<rparr>" "length h = length (kv_seq_heads kv)" by blast
    then obtain h' where "rebuild_allocation_head (int s) k = Inr (k\<lparr>kv_seq_heads := h'\<rparr>)" "length h' = length (kv_seq_heads k)"
      using rebuild_ok [OF kv_wf_heads [OF w h(2)]] by metis
    then show "\<exists>k'. rebuild_allocation_head (int s) k = Inr k' \<and>
        (\<exists>h. k' = kv\<lparr>kv_seq_heads := h\<rparr> \<and> length h = length (kv_seq_heads kv))"
      using h by (auto intro!: exI [of _ h'])
  qed (auto intro!: exI [of _ "kv_seq_heads kv"])
  then show ?thesis by (auto simp: rebuild_all_heads_def)
qed

lemma with_tail_ok:
  assumes "\<And>t. kv_tail kv = Some t \<Longrightarrow> \<exists>t'. f t = Inr t' \<and> P t'"
  shows "\<exists>tw. with_tail f kv = Inr (kv\<lparr>kv_tail := tw\<rparr>) \<and>
    (case kv_tail kv of None \<Rightarrow> tw = None | Some t \<Rightarrow> \<exists>t'. f t = Inr t' \<and> tw = Some t' \<and> P t')"
proof (cases "kv_tail kv")
  case None
  then have "with_tail f kv = Inr (kv\<lparr>kv_tail := None\<rparr>)" by (simp add: with_tail_def)
  then show ?thesis using None by auto
next
  case (Some t)
  then show ?thesis using assms [OF Some] by (auto simp: with_tail_def)
qed

lemma mark_degraded_fields:
  "length (st_seqs (mark_degraded s f t)) = length (st_seqs t)"
  "st_pending (mark_degraded s f t) = None \<longleftrightarrow> st_pending t = None"
  "i < length (st_seqs t) \<Longrightarrow> ts_entries (st_seqs (mark_degraded s f t) ! i) = ts_entries (st_seqs t ! i)"
proof -
  show "length (st_seqs (mark_degraded s f t)) = length (st_seqs t)" "st_pending (mark_degraded s f t) = None \<longleftrightarrow> st_pending t = None"
    by (auto simp: mark_degraded_def split: option.splits)
  assume "i < length (st_seqs t)"
  then show "ts_entries (st_seqs (mark_degraded s f t) ! i) = ts_entries (st_seqs t ! i)"
    by (auto simp: mark_degraded_def degrade_def valid_seq_def nth_list_update split: option.splits)
qed

lemma mark_ok:
  assumes w: "kv_wf kv" and s: "known_seq kv s"
  shows "\<exists>tw. mark_if_incomplete s kv = Inr (kv\<lparr>kv_tail := tw\<rparr>) \<and>
    (case kv_tail kv of None \<Rightarrow> tw = None | Some t \<Rightarrow> tw = Some t \<or> tw = Some (mark_degraded s LLAMA_KV_TAIL_DEGRADED_HISTORICAL_OP t))"
proof (cases "kv_tail kv")
  case None
  then have "mark_if_incomplete s kv = Inr (kv\<lparr>kv_tail := None\<rparr>)" by (simp add: mark_if_incomplete_def)
  then show ?thesis using None by auto
next
  case (Some t)
  have n: "s \<ge> 0" "s < int LLAMA_MAX_SEQ" using s stream_of_ok(3) [OF w s] by (auto simp: known_seq_def)
  have k: "kv\<lparr>kv_tail := Some t\<rparr> = kv" using Some by simp
  show ?thesis
    unfolding mark_if_incomplete_def Some option.case stream_of_ok(1) [OF w s] bind_r_simps kv_cells_seq_size_def
    using n k by (auto simp: Let_def intro: exI [of _ "Some t"] exI [of _ "Some (mark_degraded s LLAMA_KV_TAIL_DEGRADED_HISTORICAL_OP t)"])
qed

lemma tail_ok_mark:
  assumes "tail_ok n sc (Some t)"
  shows "tail_ok n sc (Some (mark_degraded s f t))"
  using assms mark_degraded_ok mark_degraded_fields(1,2) by (auto simp: tail_ok_def)

lemma materialize_ok:
  assumes "kv_inv kv"
  shows "\<exists>tw sc. materialize_pending_copies kv = Inr (kv\<lparr>kv_tail := tw, kv_sc_info := sc\<rparr>) \<and>
    kv_inv (kv\<lparr>kv_tail := tw, kv_sc_info := sc\<rparr>) \<and> tail_idle tw \<and> (tail_idle (kv_tail kv) \<longrightarrow> tw = kv_tail kv)"
proof -
  let ?sc = "kv_sc_info kv"
  have w: "kv_wf kv" and t: "tail_ok (kv_n_seq_max kv) ?sc (kv_tail kv)" using assms by (simp_all add: kv_inv_def)
  have e: "sc_empty ?sc = Inr (sc_ssrc ?sc = [] \<and> sc_tail_src ?sc = [] \<and> \<not> sc_tail_transaction ?sc)"
    using w by (simp add: sc_empty_def kv_wf_def)
  show ?thesis
  proof (cases "sc_ssrc ?sc = [] \<and> sc_tail_src ?sc = [] \<and> \<not> sc_tail_transaction ?sc")
    case True
    then have "materialize_pending_copies kv = Inr (kv\<lparr>kv_tail := kv_tail kv, kv_sc_info := ?sc\<rparr>)"
      by (simp add: materialize_pending_copies_def e)
    moreover have "tail_idle (kv_tail kv)" using t True by (auto simp: tail_ok_def tail_idle_def split: option.splits)
    ultimately show ?thesis using assms by (intro exI [of _ "kv_tail kv"] exI [of _ ?sc]) simp
  next
    case False
    have "\<exists>tw. (if sc_tail_transaction ?sc then with_tail commit_seq_cp kv else Inr kv) = Inr (kv\<lparr>kv_tail := tw\<rparr>) \<and>
        tail_ok (kv_n_seq_max kv) sc_none tw \<and> tail_idle tw \<and> (tail_idle (kv_tail kv) \<longrightarrow> tw = kv_tail kv)"
    proof (cases "kv_tail kv")
      case None
      then show ?thesis by (auto simp: with_tail_def tail_ok_def tail_idle_def)
    next
      case (Some st)
      show ?thesis
      proof (cases "st_pending st")
        case None
        have k: "kv\<lparr>kv_tail := Some st\<rparr> = kv" using Some by simp
        show ?thesis using t None k by (auto simp: with_tail_def Some commit_seq_cp_def tail_ok_def tail_idle_def)
      next
        case (Some pd)
        obtain st' where "commit_seq_cp st = Inr st'" "store_inv st'" "st_pending st' = None" "length (st_seqs st') = length (st_seqs st)"
          using commit_seq_cp_ok [OF _ Some] t \<open>kv_tail kv = Some st\<close> by (auto simp: tail_ok_def)
        then show ?thesis using t Some \<open>kv_tail kv = Some st\<close> by (auto simp: with_tail_def tail_ok_def tail_idle_def)
      qed
    qed
    then obtain tw where tw: "(if sc_tail_transaction ?sc then with_tail commit_seq_cp kv else Inr kv) = Inr (kv\<lparr>kv_tail := tw\<rparr>)"
        "tail_ok (kv_n_seq_max kv) sc_none tw" "tail_idle tw" "tail_idle (kv_tail kv) \<longrightarrow> tw = kv_tail kv" by blast
    have "materialize_pending_copies kv = Inr (kv\<lparr>kv_tail := tw, kv_sc_info := sc_none\<rparr>)"
      unfolding materialize_pending_copies_def e bind_r_simps if_not_P [OF False] tw(1) by simp
    then show ?thesis using tw kv_wf_sc_none [of "kv\<lparr>kv_tail := tw\<rparr>"] w
      by (intro exI [of _ tw] exI [of _ sc_none]) (simp add: kv_inv_def)
  qed
qed

section \<open>Calls of the tail that edit sequences\<close>

lemma fold_r_keeps:
  assumes "fold_r f xs s = Inr s'" and "P s" and "\<And>x s s'. f x s = Inr s' \<Longrightarrow> P s \<Longrightarrow> P s'"
  shows "P s'"
  using assms(1,2) by (induction xs arbitrary: s) (auto dest: assms(3))

lemma for_seqs_length: "for_seqs f t = Inr t' \<Longrightarrow> length (st_seqs t') = length (st_seqs t)"
  unfolding for_seqs_def by (erule fold_r_keeps [where P = "\<lambda>x. length (st_seqs x) = length (st_seqs t)"]) auto

lemma tail_edit_length:
  "tail_seq_rm s p0 p1 t = Inr t' \<Longrightarrow> length (st_seqs t') = length (st_seqs t)"
  "tail_seq_rm_cell s st cell t = Inr t' \<Longrightarrow> length (st_seqs t') = length (st_seqs t)"
  "tail_seq_keep s t = Inr t' \<Longrightarrow> length (st_seqs t') = length (st_seqs t)"
  "tail_seq_add s p0 p1 d t = Inr t' \<Longrightarrow> length (st_seqs t') = length (st_seqs t)"
  "tail_seq_div s p0 p1 d t = Inr t' \<Longrightarrow> length (st_seqs t') = length (st_seqs t)"
proof -
  show rm: "tail_seq_rm s p0 p1 t = Inr t' \<Longrightarrow> length (st_seqs t') = length (st_seqs t)" for s p0 p1 t t'
    by (auto simp: tail_seq_rm_def Let_def split: if_splits)
  show "tail_seq_rm_cell s st cell t = Inr t' \<Longrightarrow> length (st_seqs t') = length (st_seqs t)"
    by (auto simp: tail_seq_rm_cell_def Let_def split: if_splits)
  show "tail_seq_keep s t = Inr t' \<Longrightarrow> length (st_seqs t') = length (st_seqs t)"
    unfolding tail_seq_keep_def
    by (erule fold_r_keeps [where P = "\<lambda>x. length (st_seqs x) = length (st_seqs t)"]) (auto dest: rm split: if_splits)
  show "tail_seq_add s p0 p1 d t = Inr t' \<Longrightarrow> length (st_seqs t') = length (st_seqs t)"
    by (auto simp: tail_seq_add_def Let_def dest: for_seqs_length split: if_splits)
  show "tail_seq_div s p0 p1 d t = Inr t' \<Longrightarrow> length (st_seqs t') = length (st_seqs t)"
    by (auto simp: tail_seq_div_def Let_def dest: for_seqs_length split: if_splits)
qed

definition tail_ready :: "nat \<Rightarrow> llama_kv_tail_store \<Rightarrow> bool" where
  "tail_ready n t \<longleftrightarrow> store_inv t \<and> length (st_seqs t) = n \<and> st_pending t = None"

lemma tail_ready_iff: "tail_ok n sc (Some t) \<and> tail_idle (Some t) \<longleftrightarrow> tail_ready n t"
  by (auto simp: tail_ok_def tail_idle_def tail_ready_def)

lemma tail_edits_ready:
  assumes "tail_ready n t"
  shows "\<exists>t'. tail_seq_rm s p0 p1 t = Inr t' \<and> tail_ready n t'"
    and "\<exists>t'. tail_seq_rm_cell s strm cell t = Inr t' \<and> tail_ready n t'"
    and "\<exists>t'. tail_seq_keep s t = Inr t' \<and> tail_ready n t'"
    and "\<exists>t'. bind_r (tail_seq_add s p0 p1 d t) (\<lambda>t. Inr (degrade_partial s p0 p1 b t)) = Inr t' \<and> tail_ready n t'"
    and "\<exists>t'. bind_r (tail_seq_div s p0 p1 d t) (\<lambda>t. Inr (degrade_partial s p0 p1 b t)) = Inr t' \<and> tail_ready n t'"
proof -
  have t: "store_inv t" "st_pending t = None" "length (st_seqs t) = n" using assms by (simp_all add: tail_ready_def)
  note [dest] = tail_edit_length
  have deg: "tail_ready n (degrade_partial s p0 p1 b t')" if "tail_ready n t'" for t'
    using that mark_degraded_ok mark_degraded_fields by (auto simp: degrade_partial_def tail_ready_def)
  show "\<exists>t'. tail_seq_rm s p0 p1 t = Inr t' \<and> tail_ready n t'" using tail_seq_rm_ok [OF t(1,2)] t(3) by (fastforce simp: tail_ready_def)
  show "\<exists>t'. tail_seq_rm_cell s strm cell t = Inr t' \<and> tail_ready n t'"
    using tail_seq_rm_cell_ok [OF t(1,2)] t(3) by (fastforce simp: tail_ready_def)
  show "\<exists>t'. tail_seq_keep s t = Inr t' \<and> tail_ready n t'" using tail_seq_keep_ok [OF t(1,2)] t(3) by (fastforce simp: tail_ready_def)
  obtain t1 where "tail_seq_add s p0 p1 d t = Inr t1" "tail_ready n t1"
    using tail_seq_add_ok [OF t(1,2)] t(3) by (fastforce simp: tail_ready_def)
  then show "\<exists>t'. bind_r (tail_seq_add s p0 p1 d t) (\<lambda>t. Inr (degrade_partial s p0 p1 b t)) = Inr t' \<and> tail_ready n t'"
    using deg by auto
  obtain t2 where "tail_seq_div s p0 p1 d t = Inr t2" "tail_ready n t2"
    using tail_seq_div_ok [OF t(1,2)] t(3) by (fastforce simp: tail_ready_def)
  then show "\<exists>t'. bind_r (tail_seq_div s p0 p1 d t) (\<lambda>t. Inr (degrade_partial s p0 p1 b t)) = Inr t' \<and> tail_ready n t'"
    using deg by auto
qed

text \<open>A tail call of an edit, on a cache whose copies are materialised.\<close>

definition kv_ready :: "llama_kv_cache \<Rightarrow> bool" where
  "kv_ready kv \<longleftrightarrow> kv_wf kv \<and> (\<forall>t. kv_tail kv = Some t \<longrightarrow> tail_ready (kv_n_seq_max kv) t)"

lemma kv_ready_iff: "kv_inv kv \<and> tail_idle (kv_tail kv) \<longleftrightarrow> kv_ready kv"
  using tail_ready_iff by (auto simp: kv_inv_def kv_ready_def tail_idle_def tail_ok_def split: option.splits)

lemma tail_call_ready:
  assumes "kv_ready kv" and "\<And>t. tail_ready (kv_n_seq_max kv) t \<Longrightarrow> \<exists>t'. f t = Inr t' \<and> tail_ready (kv_n_seq_max kv) t'"
  shows "\<exists>tw. with_tail f kv = Inr (kv\<lparr>kv_tail := tw\<rparr>) \<and> kv_ready (kv\<lparr>kv_tail := tw\<rparr>)"
proof -
  obtain tw where "with_tail f kv = Inr (kv\<lparr>kv_tail := tw\<rparr>)"
      "case kv_tail kv of None \<Rightarrow> tw = None | Some t \<Rightarrow> \<exists>t'. f t = Inr t' \<and> tw = Some t' \<and> tail_ready (kv_n_seq_max kv) t'"
    using with_tail_ok [of kv f "tail_ready (kv_n_seq_max kv)"] assms by (force simp: kv_ready_def)
  then show ?thesis using assms(1) by (auto simp: kv_ready_def split: option.splits)
qed

lemma mark_ready:
  assumes "kv_ready kv" and "known_seq kv s"
  shows "\<exists>tw. mark_if_incomplete s kv = Inr (kv\<lparr>kv_tail := tw\<rparr>) \<and> kv_ready (kv\<lparr>kv_tail := tw\<rparr>)"
proof -
  obtain tw where "mark_if_incomplete s kv = Inr (kv\<lparr>kv_tail := tw\<rparr>)"
      "case kv_tail kv of None \<Rightarrow> tw = None | Some t \<Rightarrow> tw = Some t \<or> tw = Some (mark_degraded s LLAMA_KV_TAIL_DEGRADED_HISTORICAL_OP t)"
    using mark_ok [OF _ assms(2)] assms(1) by (auto simp: kv_ready_def)
  moreover have "tail_ready n (mark_degraded s LLAMA_KV_TAIL_DEGRADED_HISTORICAL_OP t)" if "tail_ready n t" for n t
    using that mark_degraded_ok mark_degraded_fields by (auto simp: tail_ready_def)
  ultimately show ?thesis using assms(1) by (auto simp: kv_ready_def split: option.splits)
qed

lemma rebuild_ready:
  assumes "kv_ready kv"
  shows "\<exists>h. rebuild_allocation_head s kv = Inr (kv\<lparr>kv_seq_heads := h\<rparr>) \<and> kv_ready (kv\<lparr>kv_seq_heads := h\<rparr>)"
    and "\<exists>h. rebuild_all_heads kv = Inr (kv\<lparr>kv_seq_heads := h\<rparr>) \<and> kv_ready (kv\<lparr>kv_seq_heads := h\<rparr>)"
proof -
  have w: "kv_wf kv" using assms by (simp add: kv_ready_def)
  have "kv_ready (kv\<lparr>kv_seq_heads := h\<rparr>)" if "length h = length (kv_seq_heads kv)" for h
    using assms kv_wf_heads [OF w that] by (simp add: kv_ready_def)
  then show "\<exists>h. rebuild_allocation_head s kv = Inr (kv\<lparr>kv_seq_heads := h\<rparr>) \<and> kv_ready (kv\<lparr>kv_seq_heads := h\<rparr>)"
      "\<exists>h. rebuild_all_heads kv = Inr (kv\<lparr>kv_seq_heads := h\<rparr>) \<and> kv_ready (kv\<lparr>kv_seq_heads := h\<rparr>)"
    using rebuild_ok [OF w, of s] rebuild_all_ok [OF w] by blast+
qed

lemma kv_ready_stream:
  assumes "kv_ready kv" and "s < kv_n_stream kv" and "cells_ok c" and "length (kc_pos c) = kv_cap kv" and "h \<le> kv_cap kv"
  shows "kv_ready (kv\<lparr>kv_cells := (kv_cells kv)[s := c], kv_heads := (kv_heads kv)[s := h]\<rparr>)"
  using kv_wf_stream [of kv s c h] assms by (simp add: kv_ready_def)

section \<open>Edits of a stream\<close>

text \<open>The cells after an edit of one stream, and the rest of the cache.\<close>

definition stream_edited :: "nat \<Rightarrow> (cell_content \<Rightarrow> cell_content) \<Rightarrow> llama_kv_cache \<Rightarrow> llama_kv_cache \<Rightarrow> bool" where
  "stream_edited s g kv kv' \<longleftrightarrow> (\<exists>c h. kv' = kv\<lparr>kv_cells := (kv_cells kv)[s := c], kv_heads := (kv_heads kv)[s := h]\<rparr> \<and>
     kv_cells_list c = map g (kv_cells_list (kv_cells kv ! s)))"

lemma stream_edited_view:
  assumes "stream_edited s g kv kv'" and "s < length (kv_cells kv)"
  shows "kv_view kv' = (kv_view kv)[s := map g (kv_view kv ! s)]"
  using assms by (auto simp: stream_edited_def kv_view_def map_update)

context cell_edit
begin

lemma stream_loop:
  assumes kv: "kv_ready kv" and s: "s < kv_n_stream kv"
    and al: "\<forall>z \<in> set (kv_cells_list (kv_cells kv ! s)). allowed z"
  shows "\<exists>h c. cell_loop body (kv_cells kv ! s) = Inr (h, c) \<and> h \<le> kv_cap kv \<and> kv_cells_size c = kv_cap kv \<and>
    kv_cells_list c = map upd (kv_cells_list (kv_cells kv ! s)) \<and>
    (\<forall>h' \<le> kv_cap kv. kv_ready (kv\<lparr>kv_cells := (kv_cells kv)[s := c], kv_heads := (kv_heads kv)[s := h']\<rparr>))"
proof -
  note w = kv_wf_parts [of kv, OF kv [unfolded kv_ready_def, THEN conjunct1]]
  obtain h c where "cell_loop body (kv_cells kv ! s) = Inr (h, c)" "cells_ok c" "length (kc_pos c) = kv_cap kv" "h \<le> kv_cap kv"
      "kv_cells_list c = map upd (kv_cells_list (kv_cells kv ! s))"
    using cell_loop_eq [OF w(7) [OF s] al] w(8) [OF s] by auto
  then show ?thesis using kv_ready_stream [OF kv s] by (auto simp: kv_cells_size_def)
qed

lemma edit_stream_ready:
  assumes kv: "kv_ready kv" and s: "s < kv_n_stream kv"
    and al: "\<forall>z \<in> set (kv_cells_list (kv_cells kv ! s)). allowed z"
  shows "\<exists>kv'. edit_stream body s kv = Inr kv' \<and> kv_ready kv' \<and> stream_edited s upd kv kv'"
proof -
  note w = kv_wf_parts [of kv, OF kv [unfolded kv_ready_def, THEN conjunct1]]
  obtain h c where c: "cell_loop body (kv_cells kv ! s) = Inr (h, c)" "h \<le> kv_cap kv" "kv_cells_size c = kv_cap kv"
      "kv_cells_list c = map upd (kv_cells_list (kv_cells kv ! s))"
      "\<And>h'. h' \<le> kv_cap kv \<Longrightarrow> kv_ready (kv\<lparr>kv_cells := (kv_cells kv)[s := c], kv_heads := (kv_heads kv)[s := h']\<rparr>)"
    using stream_loop [OF assms] by blast
  define h' where "h' = (if h \<noteq> kv_cells_size c \<and> h < kv_heads kv ! s then h else kv_heads kv ! s)"
  let ?kv = "kv\<lparr>kv_cells := (kv_cells kv)[s := c], kv_heads := (kv_heads kv)[s := h']\<rparr>"
  have "edit_stream body s kv = Inr ?kv" by (simp add: edit_stream_def c(1) set_cells_def Let_def h'_def)
  moreover have "h' \<le> kv_cap kv" using c(2) w(9) [OF s] by (simp add: h'_def)
  moreover have "stream_edited s upd kv ?kv" unfolding stream_edited_def using c(4) by blast
  ultimately show ?thesis using c(5) by blast
qed

end

section \<open>Edits of the cache\<close>

text \<open>What every edit leaves alone: all but the cells, the heads, the tail and the pending copies.\<close>

definition kv_core :: "llama_kv_cache \<Rightarrow> llama_kv_cache" where
  "kv_core kv = kv\<lparr>kv_cells := [], kv_heads := [], kv_seq_heads := [], kv_tail := None, kv_sc_info := sc_none\<rparr>"

definition kv_frame :: "llama_kv_cache \<Rightarrow> llama_kv_cache \<Rightarrow> bool" where
  "kv_frame kv kv' \<longleftrightarrow> kv_core kv' = kv_core kv"

lemma kv_core_fields:
  "kv_n_stream (kv_core kv) = kv_n_stream kv" "kv_n_seq_max (kv_core kv) = kv_n_seq_max kv"
  "kv_seq_to_stream (kv_core kv) = kv_seq_to_stream kv" "kv_generations (kv_core kv) = kv_generations kv"
  "kv_n_pos_per_embd (kv_core kv) = kv_n_pos_per_embd kv" "kv_other (kv_core kv) = kv_other kv"
  "kv_preparing (kv_core kv) = kv_preparing kv" "kv_group_size (kv_core kv) = kv_group_size kv"
  "kv_n_swa (kv_core kv) = kv_n_swa kv" "kv_swa_type (kv_core kv) = kv_swa_type kv"
  by (simp_all add: kv_core_def)

lemma kv_frame_fields:
  assumes "kv_frame kv kv'"
  shows "known_seq kv' s = known_seq kv s" "stream_idx kv' s = stream_idx kv s" "kv_n_stream kv' = kv_n_stream kv"
    "kv_n_seq_max kv' = kv_n_seq_max kv" "kv_generations kv' = kv_generations kv" "kv_n_pos_per_embd kv' = kv_n_pos_per_embd kv"
    "kv_other kv' = kv_other kv" "kv_preparing kv' = kv_preparing kv" "kv_seq_to_stream kv' = kv_seq_to_stream kv"
    "kv_group_size kv' = kv_group_size kv" "kv_n_swa kv' = kv_n_swa kv" "kv_swa_type kv' = kv_swa_type kv"
  using assms unfolding kv_frame_def known_seq_def stream_idx_def by (metis kv_core_fields)+

lemma kv_frame_trans [trans]: "kv_frame a b \<Longrightarrow> kv_frame b c \<Longrightarrow> kv_frame a c"
  by (simp add: kv_frame_def)

lemma kv_frame_upd [simp]:
  "kv_frame kv kv" "kv_frame kv (kv\<lparr>kv_tail := tw\<rparr>)" "kv_frame kv (kv\<lparr>kv_seq_heads := sh\<rparr>)"
  "kv_frame kv (kv\<lparr>kv_sc_info := sc\<rparr>)" "kv_frame kv (kv\<lparr>kv_cells := cs, kv_heads := h\<rparr>)"
  "kv_frame kv (kv\<lparr>kv_tail := tw, kv_sc_info := sc\<rparr>)" "kv_frame kv (kv\<lparr>kv_cells := cs\<rparr>)" "kv_frame kv (kv\<lparr>kv_heads := h\<rparr>)"
  by (simp_all add: kv_frame_def kv_core_def)

lemma kv_view_upd [simp]:
  "kv_view (kv\<lparr>kv_tail := tw\<rparr>) = kv_view kv" "kv_view (kv\<lparr>kv_seq_heads := sh\<rparr>) = kv_view kv"
  "kv_view (kv\<lparr>kv_sc_info := sc\<rparr>) = kv_view kv" "kv_view (kv\<lparr>kv_heads := h\<rparr>) = kv_view kv"
  by (simp_all add: kv_view_def)

lemma stream_edited_frame: "stream_edited s g kv kv' \<Longrightarrow> kv_frame kv kv'"
  by (auto simp: stream_edited_def)

lemma kv_ready_wf: "kv_ready kv \<Longrightarrow> kv_wf kv"
  by (simp add: kv_ready_def)

lemma materialize_ready:
  assumes "kv_inv kv"
  shows "\<exists>kv'. materialize_pending_copies kv = Inr kv' \<and> kv_ready kv' \<and> kv_frame kv kv' \<and> kv_view kv' = kv_view kv \<and>
    (tail_idle (kv_tail kv) \<longrightarrow> kv_tail kv' = kv_tail kv)"
proof -
  obtain tw sc where "materialize_pending_copies kv = Inr (kv\<lparr>kv_tail := tw, kv_sc_info := sc\<rparr>)"
      "kv_inv (kv\<lparr>kv_tail := tw, kv_sc_info := sc\<rparr>)" "tail_idle tw" "tail_idle (kv_tail kv) \<longrightarrow> tw = kv_tail kv"
    using materialize_ok [OF assms] by blast
  then show ?thesis using kv_ready_iff [of "kv\<lparr>kv_tail := tw, kv_sc_info := sc\<rparr>"] by auto
qed

text \<open>The exact rows of every sequence after a call of the tail, up to marks.\<close>

definition tail_rows :: "llama_kv_tail_store option \<Rightarrow> exact_entry list list" where
  "tail_rows tw = (case tw of None \<Rightarrow> [] | Some t \<Rightarrow> map ts_entries (st_seqs t))"

definition tail_call :: "(llama_kv_tail_store \<Rightarrow> llama_kv_tail_store res) \<Rightarrow> llama_kv_tail_store option \<Rightarrow> exact_entry list list" where
  "tail_call f tw = (case tw of None \<Rightarrow> [] | Some t \<Rightarrow> (case f t of Inl _ \<Rightarrow> [] | Inr t' \<Rightarrow> map ts_entries (st_seqs t')))"

lemma with_tail_rows:
  assumes "with_tail f kv = Inr (kv\<lparr>kv_tail := tw\<rparr>)"
  shows "tail_rows tw = tail_call f (kv_tail kv)"
proof -
  have "with_tail f kv = Inr k \<Longrightarrow> tail_rows (kv_tail k) = tail_call f (kv_tail kv)" for k
    by (auto simp: with_tail_def tail_rows_def tail_call_def split: option.splits)
  from this [OF assms] show ?thesis by simp
qed

lemma mark_degraded_rows: "map ts_entries (st_seqs (mark_degraded s f t)) = map ts_entries (st_seqs t)"
  by (rule nth_equalityI) (simp_all add: mark_degraded_fields)

lemma mark_rows:
  assumes "kv_wf kv" and "known_seq kv s" and "mark_if_incomplete s kv = Inr (kv\<lparr>kv_tail := tw\<rparr>)"
  shows "tail_rows tw = tail_rows (kv_tail kv)"
proof -
  obtain tw' where tw': "mark_if_incomplete s kv = Inr (kv\<lparr>kv_tail := tw'\<rparr>)"
      "case kv_tail kv of None \<Rightarrow> tw' = None | Some t \<Rightarrow> tw' = Some t \<or> tw' = Some (mark_degraded s LLAMA_KV_TAIL_DEGRADED_HISTORICAL_OP t)"
    using mark_ok [OF assms(1,2)] by blast
  have "kv_tail (kv\<lparr>kv_tail := tw\<rparr>) = kv_tail (kv\<lparr>kv_tail := tw'\<rparr>)" using assms(3) tw'(1) by simp
  then show ?thesis using tw'(2) mark_degraded_rows by (auto simp: tail_rows_def split: option.splits)
qed

text \<open>The end of most edits: a mark on the tail and a new head.\<close>

lemma mark_rebuild:
  assumes "kv_ready kv" and "known_seq kv s"
  shows "\<exists>kv'. bind_r (mark_if_incomplete s kv) (rebuild_allocation_head s) = Inr kv' \<and> kv_ready kv' \<and> kv_frame kv kv' \<and>
    kv_view kv' = kv_view kv \<and> tail_rows (kv_tail kv') = tail_rows (kv_tail kv)"
proof -
  obtain tw where tw: "mark_if_incomplete s kv = Inr (kv\<lparr>kv_tail := tw\<rparr>)" "kv_ready (kv\<lparr>kv_tail := tw\<rparr>)"
    using mark_ready [OF assms] by blast
  have rows: "tail_rows tw = tail_rows (kv_tail kv)" by (rule mark_rows [OF kv_ready_wf [OF assms(1)] assms(2) tw(1)])
  obtain h where h: "rebuild_allocation_head s (kv\<lparr>kv_tail := tw\<rparr>) = Inr (kv\<lparr>kv_tail := tw, kv_seq_heads := h\<rparr>)"
      "kv_ready (kv\<lparr>kv_tail := tw, kv_seq_heads := h\<rparr>)"
    using rebuild_ready(1) [OF tw(2), of s] by auto
  have "kv_frame kv (kv\<lparr>kv_tail := tw, kv_seq_heads := h\<rparr>)" by (rule kv_frame_trans [of _ "kv\<lparr>kv_tail := tw\<rparr>"]) simp_all
  then show ?thesis using tw(1) h rows by simp
qed

abbreviation range_hits :: "int \<Rightarrow> int \<Rightarrow> (int \<Rightarrow> int \<Rightarrow> 'a) \<Rightarrow> 'a" where
  "range_hits p0 p1 f \<equiv> f (range_lo p0) (range_hi p1)"

lemma range_lo_nonneg [simp]: "0 \<le> range_lo p0"
  by (simp add: range_lo_def)

lemma known_seq_nat: "known_seq kv s \<Longrightarrow> int (nat s) = s"
  by (simp add: known_seq_def)

lemma seq_rm_one:
  assumes kv: "kv_inv kv" and s: "known_seq kv s"
  shows "\<exists>kv'. seq_rm_unchecked s p0 p1 kv = Inr kv' \<and> kv_ready kv' \<and> kv_frame kv kv' \<and>
    kv_view kv' = (kv_view kv)[stream_idx kv s := map (range_hits p0 p1 (spec_rm (nat s))) (kv_view kv ! stream_idx kv s)] \<and>
    (tail_idle (kv_tail kv) \<longrightarrow> tail_rows (kv_tail kv') = tail_call (tail_seq_rm s p0 p1) (kv_tail kv))"
proof -
  obtain k1 where k1: "materialize_pending_copies kv = Inr k1" "kv_ready k1" "kv_frame kv k1" "kv_view k1 = kv_view kv"
      "tail_idle (kv_tail kv) \<longrightarrow> kv_tail k1 = kv_tail kv"
    using materialize_ready [OF kv] by blast
  obtain tw where tw: "with_tail (tail_seq_rm s p0 p1) k1 = Inr (k1\<lparr>kv_tail := tw\<rparr>)" "kv_ready (k1\<lparr>kv_tail := tw\<rparr>)"
    using tail_call_ready [OF k1(2), of "tail_seq_rm s p0 p1"] tail_edits_ready(1) by blast
  let ?k2 = "k1\<lparr>kv_tail := tw\<rparr>"
  have f2: "kv_frame kv ?k2" using k1(3) by (rule kv_frame_trans) simp
  note g2 = kv_frame_fields [OF f2]
  have s2: "known_seq ?k2 s" using s g2(1) by simp
  note st = stream_of_ok [OF kv_ready_wf [OF tw(2)] s2]
  obtain k3 where k3: "edit_stream (when_in s (range_lo p0) (range_hi p1) (\<lambda>i. kv_cells_seq_rm i s)) (stream_idx ?k2 s) ?k2 = Inr k3"
      "kv_ready k3" "stream_edited (stream_idx ?k2 s) (range_hits p0 p1 (spec_rm (nat s))) ?k2 k3"
    using rm_loop.edit_stream_ready [OF tw(2) st(2), of "nat s"] st(3) unfolding known_seq_nat [OF s] by blast
  have f3: "kv_frame kv k3" using f2 stream_edited_frame [OF k3(3)] by (rule kv_frame_trans)
  obtain k4 where k4: "bind_r (mark_if_incomplete s k3) (rebuild_allocation_head s) = Inr k4" "kv_ready k4" "kv_frame k3 k4" "kv_view k4 = kv_view k3"
      "tail_rows (kv_tail k4) = tail_rows (kv_tail k3)"
    using mark_rebuild [OF k3(2)] kv_frame_fields(1) [OF f3] s by blast
  have "tail_rows (kv_tail k3) = tail_rows tw" using k3(3) by (auto simp: stream_edited_def)
  then have rows: "tail_idle (kv_tail kv) \<longrightarrow> tail_rows (kv_tail k4) = tail_call (tail_seq_rm s p0 p1) (kv_tail kv)"
    using k4(5) k1(5) with_tail_rows [OF tw(1)] by simp
  have "seq_rm_unchecked s p0 p1 kv = Inr k4"
    using s kv_frame_fields(1) [OF k1(3), of s] kv st(1) k3(1) k4(1)
    by (simp add: seq_rm_unchecked_def kv_inv_def kv_wf_def k1(1) tw(1) known_seq_def)
  moreover have "kv_view k4 = (kv_view kv)[stream_idx kv s := map (range_hits p0 p1 (spec_rm (nat s))) (kv_view kv ! stream_idx kv s)]"
    using stream_edited_view [OF k3(3)] kv_wf_parts(3) [OF kv_ready_wf [OF tw(2)]] st(2) k4(4) k1(4) g2(2) by simp
  ultimately show ?thesis using k4(2) rows kv_frame_trans [OF f3 k4(3)] by blast
qed

lemma rm_any_streams:
  assumes kv: "kv_ready kv" and k: "k \<le> kv_n_stream kv" and lo: "0 \<le> lo"
  shows "\<exists>kv'. fold_r (edit_stream (rm_any lo hi)) [0..<k] kv = Inr kv' \<and> kv_ready kv' \<and> kv_frame kv kv' \<and>
    kv_view kv' = map (map (spec_rm_any lo hi)) (take k (kv_view kv)) @ drop k (kv_view kv)"
  using k
proof (induction k)
  case 0
  then show ?case using kv by simp
next
  case (Suc k)
  then obtain k1 where k1: "fold_r (edit_stream (rm_any lo hi)) [0..<k] kv = Inr k1" "kv_ready k1" "kv_frame kv k1"
      "kv_view k1 = map (map (spec_rm_any lo hi)) (take k (kv_view kv)) @ drop k (kv_view kv)" by auto
  have k: "k < kv_n_stream k1" using Suc.prems kv_frame_fields(3) [OF k1(3)] by simp
  obtain k2 where k2: "edit_stream (rm_any lo hi) k k1 = Inr k2" "kv_ready k2" "stream_edited k (spec_rm_any lo hi) k1 k2"
    using rm_any_loop.edit_stream_ready [OF k1(2) k, of lo hi] lo by blast
  have len: "length (kv_view kv) = kv_n_stream kv" using kv_wf_parts(3) [OF kv_ready_wf [OF kv]] by (simp add: kv_view_def)
  have "kv_view k2 = (kv_view k1)[k := map (spec_rm_any lo hi) (kv_view k1 ! k)]"
    using stream_edited_view [OF k2(3)] k kv_wf_parts(3) [OF kv_ready_wf [OF k1(2)]] by simp
  moreover have "kv_view k1 ! k = kv_view kv ! k" using k1(4) Suc.prems len by (simp add: nth_append)
  ultimately have "kv_view k2 = map (map (spec_rm_any lo hi)) (take (Suc k) (kv_view kv)) @ drop (Suc k) (kv_view kv)"
    using replace_at_front [of k "kv_view kv" "map (spec_rm_any lo hi)"] Suc.prems len k1(4) by simp
  then show ?case using k1(1) k2(1,2) kv_frame_trans [OF k1(3) stream_edited_frame [OF k2(3)]] by (simp add: fold_r_append)
qed

lemma mark_all_ready:
  assumes "kv_ready kv" and "\<And>s. s \<in> set ss \<Longrightarrow> known_seq kv (int s)"
  shows "\<exists>kv'. fold_r (\<lambda>s. mark_if_incomplete (int s)) ss kv = Inr kv' \<and>
    (kv_ready kv' \<and> kv_frame kv kv' \<and> kv_view kv' = kv_view kv)"
proof (rule fold_r_invariant)
  fix s k assume s: "s \<in> set ss" and k: "kv_ready k \<and> kv_frame kv k \<and> kv_view k = kv_view kv"
  then obtain tw where "mark_if_incomplete (int s) k = Inr (k\<lparr>kv_tail := tw\<rparr>)" "kv_ready (k\<lparr>kv_tail := tw\<rparr>)"
    using mark_ready [of k "int s"] assms(2) [OF s] kv_frame_fields(1) [of kv k] by auto
  then show "\<exists>k'. mark_if_incomplete (int s) k = Inr k' \<and> kv_ready k' \<and> kv_frame kv k' \<and> kv_view k' = kv_view kv"
    using k kv_frame_trans [of kv k "k\<lparr>kv_tail := tw\<rparr>"] by auto
qed (use assms in simp)

lemma seq_rm_all:
  assumes kv: "kv_inv kv"
  shows "\<exists>kv'. seq_rm_unchecked (-1) p0 p1 kv = Inr kv' \<and> kv_ready kv' \<and> kv_frame kv kv' \<and>
    kv_view kv' = map (map (range_hits p0 p1 spec_rm_any)) (kv_view kv)"
proof -
  obtain k1 where k1: "materialize_pending_copies kv = Inr k1" "kv_ready k1" "kv_frame kv k1" "kv_view k1 = kv_view kv"
    using materialize_ready [OF kv] by blast
  have "\<exists>t'. fold_r (\<lambda>s. tail_seq_rm (int s) p0 p1) [0..<kv_n_seq_max k1] t = Inr t' \<and> tail_ready (kv_n_seq_max k1) t'"
    if "tail_ready (kv_n_seq_max k1) t" for t
    using that by (intro fold_r_invariant) (use tail_edits_ready(1) in blast)+
  then obtain tw where tw: "with_tail (fold_r (\<lambda>s. tail_seq_rm (int s) p0 p1) [0..<kv_n_seq_max k1]) k1 = Inr (k1\<lparr>kv_tail := tw\<rparr>)"
      "kv_ready (k1\<lparr>kv_tail := tw\<rparr>)"
    using tail_call_ready [OF k1(2)] by blast
  let ?k2 = "k1\<lparr>kv_tail := tw\<rparr>"
  have f2: "kv_frame kv ?k2" using k1(3) by (rule kv_frame_trans) simp
  obtain k3 where k3: "fold_r (edit_stream (rm_any (range_lo p0) (range_hi p1))) [0..<kv_n_stream ?k2] ?k2 = Inr k3" "kv_ready k3"
      "kv_frame ?k2 k3" "kv_view k3 = map (map (range_hits p0 p1 spec_rm_any)) (kv_view ?k2)"
    using rm_any_streams [OF tw(2) order_refl range_lo_nonneg] kv_wf_parts(3) [OF kv_ready_wf [OF tw(2)]] by (auto simp: kv_view_def)
  have f3: "kv_frame kv k3" by (rule kv_frame_trans [OF f2 k3(3)])
  have "known_seq k3 (int s)" if "s \<in> set [0..<kv_n_seq_max k3]" for s
    using that kv_wf_parts(10) [OF kv_ready_wf [OF k3(2)]] by (auto simp: known_seq_def)
  then obtain k4 where k4: "(if kv_tail k3 = None then Inr k3 else fold_r (\<lambda>s. mark_if_incomplete (int s)) [0..<kv_n_seq_max k3] k3) = Inr k4"
      "kv_ready k4" "kv_frame k3 k4" "kv_view k4 = kv_view k3"
    using mark_all_ready [OF k3(2)] k3(2) by (metis kv_frame_upd(1))
  obtain h where h: "rebuild_all_heads k4 = Inr (k4\<lparr>kv_seq_heads := h\<rparr>)" "kv_ready (k4\<lparr>kv_seq_heads := h\<rparr>)"
    using rebuild_ready(2) [OF k4(2)] by blast
  have "seq_rm_unchecked (-1) p0 p1 kv = Inr (k4\<lparr>kv_seq_heads := h\<rparr>)"
    using kv k3(1) k4(1) h(1) by (simp add: seq_rm_unchecked_def kv_inv_def kv_wf_def k1(1) tw(1))
  moreover have "kv_frame kv (k4\<lparr>kv_seq_heads := h\<rparr>)"
    using kv_frame_trans [OF f3 k4(3)] by (rule kv_frame_trans) simp
  ultimately show ?thesis using h(2) k3(4) k4(4) k1(4) by simp
qed

lemma seq_keep_one:
  assumes kv: "kv_inv kv" and s: "known_seq kv s"
  shows "\<exists>kv'. kv_seq_keep s kv = Inr kv' \<and> kv_ready kv' \<and> kv_frame kv kv' \<and>
    kv_view kv' = (kv_view kv)[stream_idx kv s := map (spec_keep (nat s)) (kv_view kv ! stream_idx kv s)] \<and>
    (tail_idle (kv_tail kv) \<longrightarrow> tail_rows (kv_tail kv') = tail_call (tail_seq_keep s) (kv_tail kv))"
proof -
  obtain k1 where k1: "materialize_pending_copies kv = Inr k1" "kv_ready k1" "kv_frame kv k1" "kv_view k1 = kv_view kv"
      "tail_idle (kv_tail kv) \<longrightarrow> kv_tail k1 = kv_tail kv"
    using materialize_ready [OF kv] by blast
  have s1: "known_seq k1 s" using s kv_frame_fields(1) [OF k1(3)] by simp
  note st = stream_of_ok [OF kv_ready_wf [OF k1(2)] s1]
  obtain tw where tw: "with_tail (tail_seq_keep s) k1 = Inr (k1\<lparr>kv_tail := tw\<rparr>)" "kv_ready (k1\<lparr>kv_tail := tw\<rparr>)"
    using tail_call_ready [OF k1(2), of "tail_seq_keep s"] tail_edits_ready(3) by blast
  let ?k2 = "k1\<lparr>kv_tail := tw\<rparr>"
  have f2: "kv_frame kv ?k2" using k1(3) by (rule kv_frame_trans) simp
  have st2: "stream_idx k1 s < kv_n_stream ?k2" using st(2) by simp
  obtain k3 where k3: "edit_stream (\<lambda>i. kv_cells_seq_keep i s) (stream_idx k1 s) ?k2 = Inr k3"
      "kv_ready k3" "stream_edited (stream_idx k1 s) (spec_keep (nat s)) ?k2 k3"
    using keep_loop.edit_stream_ready [OF tw(2) st2, of "nat s"] st(3) unfolding known_seq_nat [OF s] by blast
  have f3: "kv_frame kv k3" using f2 stream_edited_frame [OF k3(3)] by (rule kv_frame_trans)
  obtain h where h: "rebuild_all_heads k3 = Inr (k3\<lparr>kv_seq_heads := h\<rparr>)" "kv_ready (k3\<lparr>kv_seq_heads := h\<rparr>)"
    using rebuild_ready(2) [OF k3(2)] by blast
  have "kv_seq_keep s kv = Inr (k3\<lparr>kv_seq_heads := h\<rparr>)"
    using kv st(1) k3(1) h(1) by (simp add: kv_seq_keep_def kv_inv_def kv_wf_def k1(1) tw(1))
  moreover have "kv_view k3 = (kv_view kv)[stream_idx kv s := map (spec_keep (nat s)) (kv_view kv ! stream_idx kv s)]"
    using stream_edited_view [OF k3(3)] kv_wf_parts(3) [OF kv_ready_wf [OF tw(2)]] st2 k1(4) kv_frame_fields(2) [OF k1(3)] by simp
  moreover have "kv_frame kv (k3\<lparr>kv_seq_heads := h\<rparr>)" using f3 by (rule kv_frame_trans) simp
  moreover have "tail_rows (kv_tail k3) = tail_rows tw" using k3(3) by (auto simp: stream_edited_def)
  ultimately show ?thesis using h(2) k1(5) with_tail_rows [OF tw(1)] by simp
qed

lemma spec_add_id:
  assumes "d = 0 \<or> lo = hi" and "0 \<le> lo"
  shows "map (spec_add s lo hi d) L = L"
  using assms by (auto simp: spec_add_def hits_def intro!: map_idI)

lemma spec_div_id:
  assumes "d = 1 \<or> lo = hi"
  shows "map (spec_div s lo hi d) L = L"
  using assms by (auto simp: spec_div_def hits_def intro!: map_idI)

lemma spec_cp_id: "map (spec_cp s s lo hi) L = L"
  by (auto simp: spec_cp_def hits_def intro!: map_idI)

lemma kv_view_stream:
  assumes "s < length (kv_cells kv)" and "kv_cells_list c = map g (kv_cells_list (kv_cells kv ! s))"
  shows "kv_view (kv\<lparr>kv_cells := (kv_cells kv)[s := c]\<rparr>) = (kv_view kv)[s := map g (kv_view kv ! s)]"
  using assms by (simp add: kv_view_def map_update)

text \<open>Both moves: a tail call, a loop that reports a head, and the head of the sequence.\<close>

lemma seq_add_one:
  assumes kv: "kv_inv kv" and s: "known_seq kv s" and n: "kv_n_pos_per_embd kv = 1"
  shows "\<exists>kv'. kv_seq_add s p0 p1 d kv = Inr kv' \<and> kv_ready kv' \<and> kv_frame kv kv' \<and>
    kv_view kv' = (kv_view kv)[stream_idx kv s := map (range_hits p0 p1 (\<lambda>lo hi. spec_add (nat s) lo hi d)) (kv_view kv ! stream_idx kv s)] \<and>
    (tail_idle (kv_tail kv) \<longrightarrow> tail_rows (kv_tail kv') = tail_call (\<lambda>t. bind_r (tail_seq_add s p0 p1 d t) (\<lambda>t.
       Inr (degrade_partial s p0 p1 (d \<noteq> 0) t))) (kv_tail kv))"
proof -
  let ?f = "\<lambda>t. bind_r (tail_seq_add s p0 p1 d t) (\<lambda>t. Inr (degrade_partial s p0 p1 (d \<noteq> 0) t))"
  obtain k1 where k1: "materialize_pending_copies kv = Inr k1" "kv_ready k1" "kv_frame kv k1" "kv_view k1 = kv_view kv"
      "tail_idle (kv_tail kv) \<longrightarrow> kv_tail k1 = kv_tail kv"
    using materialize_ready [OF kv] by blast
  have s1: "known_seq k1 s" using s kv_frame_fields(1) [OF k1(3)] by simp
  note st = stream_of_ok [OF kv_ready_wf [OF k1(2)] s1]
  obtain tw where tw: "with_tail ?f k1 = Inr (k1\<lparr>kv_tail := tw\<rparr>)" "kv_ready (k1\<lparr>kv_tail := tw\<rparr>)"
    using tail_call_ready [OF k1(2), of ?f] tail_edits_ready(4) by blast
  let ?k2 = "k1\<lparr>kv_tail := tw\<rparr>"
  have rows: "tail_idle (kv_tail kv) \<longrightarrow> tail_rows tw = tail_call ?f (kv_tail kv)" using with_tail_rows [OF tw(1)] k1(5) by simp
  have f2: "kv_frame kv ?k2" using k1(3) by (rule kv_frame_trans) simp
  have st2: "stream_idx k1 s < kv_n_stream ?k2" using st(2) by simp
  have i: "stream_idx k1 s = stream_idx kv s" by (rule kv_frame_fields(2) [OF k1(3)])
  have start: "kv_seq_add s p0 p1 d kv = (if d = 0 \<or> range_lo p0 = range_hi p1 then Inr ?k2
      else bind_r (cell_loop (when_in s (range_lo p0) (range_hi p1) (\<lambda>i. kv_cells_pos_add i d)) (kv_cells ?k2 ! stream_idx k1 s))
        (\<lambda>(new_head, c). rebuild_allocation_head s ((set_cells (stream_idx k1 s) c ?k2)\<lparr>kv_heads := (kv_heads ?k2)[stream_idx k1 s :=
                 (if new_head \<noteq> kv_cells_size c then new_head else 0)]\<rparr>)))"
    using kv st(1) n kv_frame_fields(6) [OF k1(3)] by (simp add: kv_seq_add_def kv_inv_def kv_wf_def k1(1) tw(1))
  show ?thesis
  proof (cases "d = 0 \<or> range_lo p0 = range_hi p1")
    case True
    then have "kv_view ?k2 = (kv_view kv)[stream_idx kv s := map (range_hits p0 p1 (\<lambda>lo hi. spec_add (nat s) lo hi d)) (kv_view kv ! stream_idx kv s)]"
      using k1(4) spec_add_id [OF True range_lo_nonneg] by simp
    then show ?thesis using start True tw(2) f2 rows by (intro exI [of _ ?k2]) simp
  next
    case False
    obtain h c where c: "cell_loop (when_in s (range_lo p0) (range_hi p1) (\<lambda>i. kv_cells_pos_add i d)) (kv_cells ?k2 ! stream_idx k1 s) = Inr (h, c)"
        "h \<le> kv_cap ?k2" "kv_cells_list c = map (range_hits p0 p1 (\<lambda>lo hi. spec_add (nat s) lo hi d)) (kv_cells_list (kv_cells ?k2 ! stream_idx k1 s))"
        "\<And>h'. h' \<le> kv_cap ?k2 \<Longrightarrow> kv_ready (?k2\<lparr>kv_cells := (kv_cells ?k2)[stream_idx k1 s := c], kv_heads := (kv_heads ?k2)[stream_idx k1 s := h']\<rparr>)"
      using add_loop.stream_loop [OF tw(2) st2, of "nat s" "range_lo p0"] st(3) unfolding known_seq_nat [OF s] by (metis range_lo_nonneg)
    define h' where "h' = (if h \<noteq> kv_cells_size c then h else 0)"
    let ?k3 = "?k2\<lparr>kv_cells := (kv_cells ?k2)[stream_idx k1 s := c], kv_heads := (kv_heads ?k2)[stream_idx k1 s := h']\<rparr>"
    have r3: "kv_ready ?k3" using c(2,4) by (simp add: h'_def)
    obtain sh where sh: "rebuild_allocation_head s ?k3 = Inr (?k3\<lparr>kv_seq_heads := sh\<rparr>)" "kv_ready (?k3\<lparr>kv_seq_heads := sh\<rparr>)"
      using rebuild_ready(1) [OF r3] by blast
    have "kv_seq_add s p0 p1 d kv = Inr (?k3\<lparr>kv_seq_heads := sh\<rparr>)"
      unfolding start using False c(1) sh(1) by (simp add: set_cells_def h'_def)
    moreover have "kv_frame kv (?k3\<lparr>kv_seq_heads := sh\<rparr>)"
      using f2 by (rule kv_frame_trans) (simp add: kv_frame_def kv_core_def)
    moreover have "kv_view ?k3 = (kv_view kv)[stream_idx kv s := map (range_hits p0 p1 (\<lambda>lo hi. spec_add (nat s) lo hi d)) (kv_view kv ! stream_idx kv s)]"
      using kv_view_stream [OF _ c(3)] kv_wf_parts(3) [OF kv_ready_wf [OF tw(2)]] st2 k1(4) i by simp
    ultimately show ?thesis using sh(2) rows by (intro exI [of _ "?k3\<lparr>kv_seq_heads := sh\<rparr>"]) (simp add: kv_view_def)
  qed
qed

lemma seq_div_one:
  assumes kv: "kv_inv kv" and s: "known_seq kv s" and n: "kv_n_pos_per_embd kv = 1" and d: "0 < d"
  shows "\<exists>kv'. kv_seq_div s p0 p1 d kv = Inr kv' \<and> kv_ready kv' \<and> kv_frame kv kv' \<and>
    kv_view kv' = (kv_view kv)[stream_idx kv s := map (range_hits p0 p1 (\<lambda>lo hi. spec_div (nat s) lo hi d)) (kv_view kv ! stream_idx kv s)]"
proof -
  let ?f = "\<lambda>t. bind_r (tail_seq_div s p0 p1 d t) (\<lambda>t. Inr (degrade_partial s p0 p1 (d \<noteq> 1) t))"
  let ?body = "when_in s (range_lo p0) (range_hi p1) (\<lambda>i c. bind_r (kv_cells_pos_div i d c) (\<lambda>c. Inr (False, c)))"
  obtain k1 where k1: "materialize_pending_copies kv = Inr k1" "kv_ready k1" "kv_frame kv k1" "kv_view k1 = kv_view kv"
    using materialize_ready [OF kv] by blast
  have s1: "known_seq k1 s" using s kv_frame_fields(1) [OF k1(3)] by simp
  note st = stream_of_ok [OF kv_ready_wf [OF k1(2)] s1]
  obtain tw where tw: "with_tail ?f k1 = Inr (k1\<lparr>kv_tail := tw\<rparr>)" "kv_ready (k1\<lparr>kv_tail := tw\<rparr>)"
    using tail_call_ready [OF k1(2), of ?f] tail_edits_ready(5) by blast
  let ?k2 = "k1\<lparr>kv_tail := tw\<rparr>"
  have f2: "kv_frame kv ?k2" using k1(3) by (rule kv_frame_trans) simp
  have st2: "stream_idx k1 s < kv_n_stream ?k2" using st(2) by simp
  have i: "stream_idx k1 s = stream_idx kv s" by (rule kv_frame_fields(2) [OF k1(3)])
  have start: "kv_seq_div s p0 p1 d kv = (if d = 1 \<or> range_lo p0 = range_hi p1 then Inr ?k2
      else bind_r (cell_loop ?body (kv_cells ?k2 ! stream_idx k1 s)) (\<lambda>(_, c). rebuild_allocation_head s (set_cells (stream_idx k1 s) c ?k2)))"
    using kv st(1) n kv_frame_fields(6) [OF k1(3)] by (simp add: kv_seq_div_def kv_inv_def kv_wf_def k1(1) tw(1))
  show ?thesis
  proof (cases "d = 1 \<or> range_lo p0 = range_hi p1")
    case True
    then have "kv_view ?k2 = (kv_view kv)[stream_idx kv s := map (range_hits p0 p1 (\<lambda>lo hi. spec_div (nat s) lo hi d)) (kv_view kv ! stream_idx kv s)]"
      using k1(4) spec_div_id [OF True] by simp
    then show ?thesis using start True tw(2) f2 by auto
  next
    case False
    obtain h c where c: "cell_loop ?body (kv_cells ?k2 ! stream_idx k1 s) = Inr (h, c)"
        "kv_cells_list c = map (range_hits p0 p1 (\<lambda>lo hi. spec_div (nat s) lo hi d)) (kv_cells_list (kv_cells ?k2 ! stream_idx k1 s))"
        "\<And>h'. h' \<le> kv_cap ?k2 \<Longrightarrow> kv_ready (?k2\<lparr>kv_cells := (kv_cells ?k2)[stream_idx k1 s := c], kv_heads := (kv_heads ?k2)[stream_idx k1 s := h']\<rparr>)"
      using div_loop.stream_loop [OF tw(2) st2, of "nat s" "range_lo p0"] st(3) d unfolding known_seq_nat [OF s] by (metis range_lo_nonneg)
    let ?k3 = "?k2\<lparr>kv_cells := (kv_cells ?k2)[stream_idx k1 s := c], kv_heads := (kv_heads ?k2)[stream_idx k1 s := kv_heads ?k2 ! stream_idx k1 s]\<rparr>"
    have r3: "kv_ready ?k3" using c(3) kv_wf_parts(9) [OF kv_ready_wf [OF tw(2)] st2] by blast
    have k3: "set_cells (stream_idx k1 s) c ?k2 = ?k3" by (simp add: set_cells_def)
    obtain sh where sh: "rebuild_allocation_head s ?k3 = Inr (?k3\<lparr>kv_seq_heads := sh\<rparr>)" "kv_ready (?k3\<lparr>kv_seq_heads := sh\<rparr>)"
      using rebuild_ready(1) [OF r3] by blast
    have "kv_seq_div s p0 p1 d kv = Inr (?k3\<lparr>kv_seq_heads := sh\<rparr>)"
      unfolding start if_not_P [OF False] c(1) bind_r_simps prod.case k3 by (rule sh(1))
    moreover have "kv_frame kv (?k3\<lparr>kv_seq_heads := sh\<rparr>)"
      using f2 by (rule kv_frame_trans) (simp add: kv_frame_def kv_core_def)
    moreover have "kv_view ?k3 = (kv_view kv)[stream_idx kv s := map (range_hits p0 p1 (\<lambda>lo hi. spec_div (nat s) lo hi d)) (kv_view kv ! stream_idx kv s)]"
      using kv_view_stream [OF _ c(2)] kv_wf_parts(3) [OF kv_ready_wf [OF tw(2)]] st2 k1(4) i by simp
    ultimately show ?thesis using sh(2) by (intro exI [of _ "?k3\<lparr>kv_seq_heads := sh\<rparr>"]) (simp add: kv_view_def)
  qed
qed

text \<open>A copy inside a stream. It needs an idle tail without a batch, whose rows name every cell once, and
  no cell of the range may belong to both sequences already.\<close>

definition cp_pre :: "int \<Rightarrow> int \<Rightarrow> int \<Rightarrow> int \<Rightarrow> llama_kv_cache \<Rightarrow> bool" where
  "cp_pre src dst p0 p1 kv \<longleftrightarrow> known_seq kv src \<and> known_seq kv dst \<and> stream_idx kv src = stream_idx kv dst \<and>
     tail_idle (kv_tail kv) \<and>
     (\<forall>t. kv_tail kv = Some t \<longrightarrow> st_batch t = None \<and>
        cp_keys_distinct src dst (stream_idx kv src) (stream_idx kv dst) p0 p1 t) \<and>
     (src \<noteq> dst \<longrightarrow> (\<forall>z \<in> set (kv_view kv ! stream_idx kv src). range_hits p0 p1 (hits (nat src)) z \<longrightarrow> nat dst \<notin> snd z))"

lemma queue_ok:
  assumes kv: "kv_ready kv" and t: "\<And>t. kv_tail kv = Some t \<Longrightarrow> st_batch t = None \<and> cp_keys_distinct src dst s0 s1 p0 p1 t"
  shows "\<exists>kv'. queue_tail_copies src dst s0 s1 p0 p1 kv = Inr kv' \<and> kv_inv kv' \<and> kv_frame kv kv' \<and> kv_cells kv' = kv_cells kv \<and>
    kv_heads kv' = kv_heads kv"
proof (cases "kv_tail kv")
  case None
  then show ?thesis using kv by (auto simp: queue_tail_copies_def kv_inv_def kv_ready_def tail_ok_def)
next
  case (Some t0)
  have r: "tail_ready (kv_n_seq_max kv) t0" using kv Some by (simp add: kv_ready_def)
  have "\<exists>copies t'. prepare_seq_cp src dst s0 s1 p0 p1 t0 = Inr (copies, t') \<and> store_inv t' \<and> length (st_seqs t') = kv_n_seq_max kv"
  proof (cases "valid_seq t0 src \<and> valid_seq t0 dst \<and> src \<noteq> dst")
    case True
    then show ?thesis using prepare_seq_cp_ok [of t0 src dst s0 s1 p0 p1] r t [OF Some] by (auto simp: tail_ready_def)
  qed (use r in \<open>auto simp: prepare_seq_cp_def tail_ready_def\<close>)
  then obtain copies t' where c: "prepare_seq_cp src dst s0 s1 p0 p1 t0 = Inr (copies, t')" "store_inv t'" "length (st_seqs t') = kv_n_seq_max kv"
    by blast
  let ?kv = "kv\<lparr>kv_tail := Some t', kv_sc_info := (kv_sc_info kv)\<lparr>sc_tail_src := sc_tail_src (kv_sc_info kv) @ map fst copies,
     sc_tail_dst := sc_tail_dst (kv_sc_info kv) @ map snd copies, sc_tail_transaction := (st_pending t' \<noteq> None)\<rparr>\<rparr>"
  have "queue_tail_copies src dst s0 s1 p0 p1 kv = Inr ?kv" by (simp add: queue_tail_copies_def Some c(1))
  moreover have "kv_wf ?kv" using kv by (simp add: kv_ready_def kv_wf_def)
  ultimately show ?thesis using c(2,3) by (auto simp: kv_inv_def tail_ok_def)
qed

lemma mark_inv:
  assumes kv: "kv_inv kv" and s: "known_seq kv s"
  shows "\<exists>kv'. bind_r (mark_if_incomplete s kv) (rebuild_allocation_head s) = Inr kv' \<and> kv_inv kv' \<and> kv_frame kv kv' \<and>
    kv_view kv' = kv_view kv"
proof -
  have w: "kv_wf kv" using kv by (simp add: kv_inv_def)
  obtain tw where tw: "mark_if_incomplete s kv = Inr (kv\<lparr>kv_tail := tw\<rparr>)"
      "case kv_tail kv of None \<Rightarrow> tw = None | Some t \<Rightarrow> tw = Some t \<or> tw = Some (mark_degraded s LLAMA_KV_TAIL_DEGRADED_HISTORICAL_OP t)"
    using mark_ok [OF w s] by blast
  have "tail_ok (kv_n_seq_max kv) (kv_sc_info kv) tw" using kv tw(2) tail_ok_mark by (auto simp: kv_inv_def split: option.splits)
  then have i: "kv_inv (kv\<lparr>kv_tail := tw\<rparr>)" using w by (simp add: kv_inv_def)
  obtain h where h: "rebuild_allocation_head s (kv\<lparr>kv_tail := tw\<rparr>) = Inr (kv\<lparr>kv_tail := tw, kv_seq_heads := h\<rparr>)"
      "length h = length (kv_seq_heads (kv\<lparr>kv_tail := tw\<rparr>))"
    using rebuild_ok [of "kv\<lparr>kv_tail := tw\<rparr>" s] w by auto
  have "kv_inv (kv\<lparr>kv_tail := tw, kv_seq_heads := h\<rparr>)" using i kv_wf_heads [OF _ h(2)] by (simp add: kv_inv_def)
  moreover have "kv_frame kv (kv\<lparr>kv_tail := tw, kv_seq_heads := h\<rparr>)" by (simp add: kv_frame_def kv_core_def)
  ultimately show ?thesis using tw(1) h(1) by simp
qed

lemma seq_cp_one:
  assumes kv: "kv_inv kv" and pre: "cp_pre src dst p0 p1 kv"
  shows "\<exists>kv'. kv_seq_cp src dst p0 p1 kv = Inr kv' \<and> kv_inv kv' \<and> kv_frame kv kv' \<and>
    kv_view kv' = (kv_view kv)[stream_idx kv src := map (range_hits p0 p1 (spec_cp (nat src) (nat dst))) (kv_view kv ! stream_idx kv src)]"
proof -
  let ?i = "stream_idx kv src"
  let ?body = "when_in src (range_lo p0) (range_hi p1) (\<lambda>i c. bind_r (kv_cells_seq_add i dst c) (\<lambda>c. Inr (False, c)))"
  have p: "known_seq kv src" "known_seq kv dst" "stream_idx kv dst = ?i" "tail_idle (kv_tail kv)"
      "\<And>t. kv_tail kv = Some t \<Longrightarrow> st_batch t = None \<and> cp_keys_distinct src dst ?i ?i p0 p1 t"
      "src \<noteq> dst \<longrightarrow> (\<forall>z \<in> set (kv_view kv ! ?i). range_hits p0 p1 (hits (nat src)) z \<longrightarrow> nat dst \<notin> snd z)"
    using pre by (auto simp: cp_pre_def)
  obtain k1 where k1: "materialize_pending_copies kv = Inr k1" "kv_ready k1" "kv_frame kv k1" "kv_view k1 = kv_view kv" "kv_tail k1 = kv_tail kv"
    using materialize_ready [OF kv] p(4) by blast
  have s1: "known_seq k1 src" "known_seq k1 dst" "stream_idx k1 src = ?i" "stream_idx k1 dst = ?i"
    using p(1-3) kv_frame_fields(1,2) [OF k1(3)] by simp_all
  note w1 = kv_ready_wf [OF k1(2)]
  note st = stream_of_ok [OF w1 s1(1)] stream_of_ok [OF w1 s1(2)]
  obtain k2 where k2: "queue_tail_copies src dst ?i ?i p0 p1 k1 = Inr k2" "kv_inv k2" "kv_frame k1 k2" "kv_cells k2 = kv_cells k1" "kv_heads k2 = kv_heads k1"
    using queue_ok [OF k1(2)] p(5) k1(5) by metis
  have f2: "kv_frame kv k2" by (rule kv_frame_trans [OF k1(3) k2(3)])
  have v2: "kv_view k2 = kv_view kv" using k2(4) k1(4) by (simp add: kv_view_def)
  have start: "kv_seq_cp src dst p0 p1 kv = (if src = dst then Inr k2 else bind_r (cell_loop ?body (kv_cells k2 ! ?i))
      (\<lambda>(_, c). bind_r (mark_if_incomplete dst (set_cells ?i c k2)) (rebuild_allocation_head dst)))"
    using kv st(1,4) s1(3,4) by (simp add: kv_seq_cp_def kv_inv_def kv_wf_def k1(1) k2(1))
  show ?thesis
  proof (cases "src = dst")
    case True
    then show ?thesis using start k2(2) f2 v2 spec_cp_id by auto
  next
    case False
    have i2: "?i < kv_n_stream k1" using st(2) s1(3) by simp
    have w2: "kv_wf k2" using k2(2) by (simp add: kv_inv_def)
    have n: "nat src < LLAMA_MAX_SEQ" "nat dst < LLAMA_MAX_SEQ" using st(3,6) by simp_all
    have "kv_cells_list (kv_cells k1 ! ?i) = kv_view k1 ! ?i" using kv_wf_parts(3) [OF w1] i2 by (simp add: kv_view_def)
    then have al: "\<forall>z \<in> set (kv_cells_list (kv_cells k1 ! ?i)). nat src < LLAMA_MAX_SEQ \<and> nat dst < LLAMA_MAX_SEQ \<and>
        0 \<le> range_lo p0 \<and> (range_hits p0 p1 (hits (nat src)) z \<longrightarrow> nat dst \<notin> snd z)"
      using n p(6) False k1(4) by simp
    from cp_loop.cell_loop_eq [OF kv_wf_parts(7) [OF w1 i2] al]
    obtain h c where c: "cell_loop ?body (kv_cells k1 ! ?i) = Inr (h, c)" "cells_ok c" "length (kc_pos c) = length (kc_pos (kv_cells k1 ! ?i))"
        "kv_cells_list c = map (range_hits p0 p1 (spec_cp (nat src) (nat dst))) (kv_cells_list (kv_cells k1 ! ?i))"
      unfolding known_seq_nat [OF p(1)] known_seq_nat [OF p(2)] by blast
    let ?k3 = "k2\<lparr>kv_cells := (kv_cells k2)[?i := c], kv_heads := (kv_heads k2)[?i := kv_heads k2 ! ?i]\<rparr>"
    have i3: "?i < kv_n_stream k2" using i2 kv_frame_fields(3) [OF k2(3)] by simp
    have "length (kc_pos c) = kv_cap k2" using c(3) kv_wf_parts(8) [OF w1 i2] k2(4) by (simp add: kv_cap_def)
    then have "kv_wf ?k3" using kv_wf_stream [OF w2 i3 c(2)] kv_wf_parts(9) [OF w2 i3] by blast
    then have i4: "kv_inv ?k3" using k2(2) by (simp add: kv_inv_def)
    have k3: "set_cells ?i c k2 = ?k3" by (simp add: set_cells_def)
    have "known_seq ?k3 dst" using p(2) kv_frame_fields(1) [OF f2] by simp
    then obtain k4 where k4: "bind_r (mark_if_incomplete dst ?k3) (rebuild_allocation_head dst) = Inr k4" "kv_inv k4" "kv_frame ?k3 k4" "kv_view k4 = kv_view ?k3"
      using mark_inv [OF i4] by blast
    have "kv_seq_cp src dst p0 p1 kv = Inr k4"
      unfolding start if_not_P [OF False] k2(4) c(1) bind_r_simps prod.case k3 [unfolded k2(4)] using k4(1) by (simp add: k2(4))
    moreover have "kv_frame kv k4" using kv_frame_trans [OF f2] k4(3) kv_frame_trans [of k2 ?k3 k4] by (simp add: kv_frame_def kv_core_def)
    moreover have "kv_view k4 = (kv_view kv)[?i := map (range_hits p0 p1 (spec_cp (nat src) (nat dst))) (kv_view kv ! ?i)]"
      using kv_view_stream [of ?i k2 c, OF _ c(4) [folded k2(4)]] kv_wf_parts(3) [OF w2] i3 k4(4) v2 by simp
    ultimately show ?thesis using k4(2) by blast
  qed
qed

end
