(* ===== verification/KvProps.thy ===== *)
theory KvProps
  imports KvEdit TailProps
begin

text \<open>
  What the edits of the KV cache do to the cells and to the exact tail that shadows them: every edit
  refines a map on the cell contents; removals keep the tail in step with the cells; and three cases in
  which the code leaves the two apart or leaves data behind.
\<close>

section \<open>Edits refine maps on cell contents\<close>

datatype kv_edit =
    Rm int int int
  | Keep int
  | Add int int int int
  | Div int int int int
  | Cp int int int int

fun kv_edit_apply :: "kv_edit \<Rightarrow> llama_kv_cache \<Rightarrow> llama_kv_cache res" where
  "kv_edit_apply (Rm s p0 p1) kv = bind_r (kv_seq_rm s p0 p1 kv) (\<lambda>(_, kv). Inr kv)"
| "kv_edit_apply (Keep s) kv = kv_seq_keep s kv"
| "kv_edit_apply (Add s p0 p1 d) kv = kv_seq_add s p0 p1 d kv"
| "kv_edit_apply (Div s p0 p1 d) kv = kv_seq_div s p0 p1 d kv"
| "kv_edit_apply (Cp src dst p0 p1) kv = kv_seq_cp src dst p0 p1 kv"

fun kv_edit_pre :: "kv_edit \<Rightarrow> llama_kv_cache \<Rightarrow> bool" where
  "kv_edit_pre (Rm s p0 p1) kv = ((s = -1 \<or> known_seq kv s) \<and> kv_can_seq_rm kv s p0 p1 = Inr True)"
| "kv_edit_pre (Keep s) kv = known_seq kv s"
| "kv_edit_pre (Add s p0 p1 d) kv = (known_seq kv s \<and> kv_n_pos_per_embd kv = 1)"
| "kv_edit_pre (Div s p0 p1 d) kv = (known_seq kv s \<and> kv_n_pos_per_embd kv = 1 \<and> 0 < d)"
| "kv_edit_pre (Cp src dst p0 p1) kv = cp_pre src dst p0 p1 kv"

text \<open>The specification: a map over the contents of the cells of one stream, or of all.\<close>

definition on_stream :: "nat \<Rightarrow> (cell_content \<Rightarrow> cell_content) \<Rightarrow> cell_content list list \<Rightarrow> cell_content list list" where
  "on_stream i g v = v[i := map g (v ! i)]"

fun kv_edit_spec :: "(int \<Rightarrow> nat) \<Rightarrow> kv_edit \<Rightarrow> cell_content list list \<Rightarrow> cell_content list list" where
  "kv_edit_spec str (Rm s p0 p1) v = (if s = -1 then map (map (range_hits p0 p1 spec_rm_any)) v
     else on_stream (str s) (range_hits p0 p1 (spec_rm (nat s))) v)"
| "kv_edit_spec str (Keep s) v = on_stream (str s) (spec_keep (nat s)) v"
| "kv_edit_spec str (Add s p0 p1 d) v = on_stream (str s) (range_hits p0 p1 (\<lambda>lo hi. spec_add (nat s) lo hi d)) v"
| "kv_edit_spec str (Div s p0 p1 d) v = on_stream (str s) (range_hits p0 p1 (\<lambda>lo hi. spec_div (nat s) lo hi d)) v"
| "kv_edit_spec str (Cp src dst p0 p1) v = on_stream (str src) (range_hits p0 p1 (spec_cp (nat src) (nat dst))) v"

lemma kv_ready_inv: "kv_ready kv \<Longrightarrow> kv_inv kv"
  using kv_ready_iff by blast

lemma kv_edits_ok:
  assumes "kv_inv kv" and "kv_edit_pre e kv"
  shows "\<exists>kv'. kv_edit_apply e kv = Inr kv' \<and> kv_inv kv' \<and> kv_frame kv kv' \<and>
    kv_view kv' = kv_edit_spec (stream_idx kv) e (kv_view kv)"
proof (cases e)
  case (Rm s p0 p1)
  then have can: "kv_can_seq_rm kv s p0 p1 = Inr True" using assms(2) by simp
  have o: "kv_other kv = None" using assms(1) by (simp add: kv_inv_def kv_wf_def)
  show ?thesis
  proof (cases "s = -1")
    case True
    then show ?thesis using seq_rm_all [OF assms(1), of p0 p1] can o kv_ready_inv by (auto simp: Rm kv_seq_rm_def)
  next
    case False
    then have "known_seq kv s" using assms(2) Rm by simp
    then show ?thesis using seq_rm_one [OF assms(1), of s p0 p1] can o kv_ready_inv False
      by (auto simp: Rm kv_seq_rm_def on_stream_def)
  qed
next
  case (Keep s)
  then show ?thesis using seq_keep_one [OF assms(1), of s] assms(2) kv_ready_inv by (auto simp: on_stream_def)
next
  case (Add s p0 p1 d)
  then show ?thesis using seq_add_one [OF assms(1), of s p0 p1 d] assms(2) kv_ready_inv by (auto simp: on_stream_def)
next
  case (Div s p0 p1 d)
  then show ?thesis using seq_div_one [OF assms(1), of s d p0 p1] assms(2) kv_ready_inv by (auto simp: on_stream_def)
next
  case (Cp src dst p0 p1)
  then show ?thesis using seq_cp_one [OF assms(1), of src dst p0 p1] assms(2) by (auto simp: on_stream_def)
qed

text \<open>C1: Every edit of a sequence (removal, keep, shift, division, copy inside a stream), run under its
  documented conditions on a consistent cache, completes without a failed assertion, leaves the cache
  consistent (cells and their indices, search heads, pending copies and the exact tail), and changes
  the cells exactly as a map over their contents says. Conditions: the sequence is one of the cache (or -1 for a removal),
  the removal is one \<open>can_seq_rm\<close> allows, shifts and divisions have one position per token and a positive divisor, a copy
  needs an idle tail and no cell of the range that belongs to both sequences. Positions are unbounded integers.\<close>

theorem kv_edits_refine:
  assumes "kv_inv kv" and "kv_edit_pre e kv"
  shows "\<exists>kv'. kv_edit_apply e kv = Inr kv' \<and> kv_inv kv' \<and> kv_frame kv kv' \<and>
    kv_view kv' = kv_edit_spec (stream_idx kv) e (kv_view kv)"
  by (rule kv_edits_ok [OF assms])

section \<open>The tail follows the cells\<close>

text \<open>Every exact row names a cell of its sequence's stream, at the position and generation the cell has
  now, and the sequence still owns that cell.\<close>

definition row_live :: "llama_kv_cache \<Rightarrow> nat \<Rightarrow> exact_entry \<Rightarrow> bool" where
  "row_live kv s e \<longleftrightarrow> (let i = ee_identity e; z = kv_view kv ! stream_idx kv (int s) ! id_cell i
     in id_stream i = stream_idx kv (int s) \<and> id_cell i < length (kv_view kv ! stream_idx kv (int s)) \<and>
        s \<in> snd z \<and> fst z = ee_position e \<and>
        id_generation i = kv_generations kv ! id_stream i ! id_cell i)"

definition tail_live :: "llama_kv_cache \<Rightarrow> bool" where
  "tail_live kv \<longleftrightarrow> (\<forall>s < length (tail_rows (kv_tail kv)). \<forall>e \<in> set (tail_rows (kv_tail kv) ! s). row_live kv s e)"

lemma tail_rows_nth: "s < length (st_seqs t) \<Longrightarrow> tail_rows (Some t) ! s = ts_entries (st_seqs t ! s)"
  by (simp add: tail_rows_def)

lemma not_in_range_no_hit:
  "\<not> in_range p0 p1 e \<Longrightarrow> fst z = ee_position e \<Longrightarrow> \<not> range_hits p0 p1 (hits s) z"
  by (auto simp: in_range_def hits_def range_lo_def range_hi_def split: if_splits)

text \<open>C10: A removal from a sequence of a consistent cache whose tail has no copy pending completes and keeps the exact tail
  in step with the cells: when every exact row named a live cell of its
  sequence at the cell's position and generation, so does every row that is left.\<close>

theorem seq_rm_tail_live:
  assumes kv: "kv_inv kv" and s: "known_seq kv s" and idle: "tail_idle (kv_tail kv)" and live: "tail_live kv"
  shows "\<exists>kv'. seq_rm_unchecked s p0 p1 kv = Inr kv' \<and> kv_inv kv' \<and> tail_live kv'"
proof -
  let ?i = "stream_idx kv s" and ?g = "range_hits p0 p1 (spec_rm (nat s))"
  obtain kv' where k: "seq_rm_unchecked s p0 p1 kv = Inr kv'" "kv_ready kv'" "kv_frame kv kv'"
      "kv_view kv' = (kv_view kv)[?i := map ?g (kv_view kv ! ?i)]" "tail_rows (kv_tail kv') = tail_call (tail_seq_rm s p0 p1) (kv_tail kv)"
    using seq_rm_one [OF kv s] idle by blast
  note f = kv_frame_fields [OF k(3)]
  have "row_live kv' j e" if j: "j < length (tail_rows (kv_tail kv'))" and e: "e \<in> set (tail_rows (kv_tail kv') ! j)" for j e
  proof (cases "kv_tail kv")
    case None
    then show ?thesis using k(5) j by (simp add: tail_call_def)
  next
    case (Some t)
    have t: "store_inv t" "st_pending t = None" using kv idle Some by (auto simp: kv_inv_def tail_ok_def tail_idle_def)
    obtain t' where t': "tail_seq_rm s p0 p1 t = Inr t'" "length (st_seqs t') = length (st_seqs t)"
        "\<forall>j < length (st_seqs t). ts_entries (st_seqs t' ! j) = (if int j = s then filter (\<lambda>e. \<not> in_range p0 p1 e) (ts_entries (st_seqs t ! j))
          else ts_entries (st_seqs t ! j))"
      using tail_seq_rm_ok [OF t] by blast
    have j': "j < length (st_seqs t)" and rows: "tail_rows (kv_tail kv') ! j = ts_entries (st_seqs t' ! j)"
      using j t'(2) unfolding k(5) by (simp_all add: tail_call_def Some t'(1))
    have e': "e \<in> set (ts_entries (st_seqs t ! j))" "int j = s \<Longrightarrow> \<not> in_range p0 p1 e"
      using e t'(3) j' unfolding rows by (auto split: if_splits)
    have old: "row_live kv j e" using live e'(1) j' by (simp add: tail_live_def Some tail_rows_def)
    let ?z = "kv_view kv ! stream_idx kv (int j) ! id_cell (ee_identity e)"
    have z: "j \<in> snd ?z" "fst ?z = ee_position e" using old by (simp_all add: row_live_def Let_def)
    have "j \<in> snd (?g ?z) \<and> fst (?g ?z) = fst ?z"
    proof (cases "int j = s")
      case True
      then show ?thesis using z not_in_range_no_hit [OF e'(2) z(2)] by (simp add: spec_rm_def)
    next
      case False
      then have "j \<noteq> nat s" using s by (auto simp: known_seq_def)
      then show ?thesis using z(1) by (auto simp: spec_rm_def)
    qed
    moreover have "?i < length (kv_view kv)"
      using stream_of_ok(2) [OF _ s] kv kv_wf_parts(3) [of kv] by (simp add: kv_inv_def kv_view_def)
    ultimately show ?thesis
      using old f(2,5) by (cases "stream_idx kv (int j) = ?i") (auto simp: row_live_def Let_def k(4))
  qed
  then show ?thesis using k(1) kv_ready_inv [OF k(2)] by (auto simp: tail_live_def)
qed

section \<open>Where the tail and the cells come apart\<close>

text \<open>Removing one sequence from a cell that another sequence still owns takes the sequence out of the cell but
  leaves the exact tail as it is: a row of that sequence for that cell stays behind.\<close>

theorem seq_rm_cell_stale_row:
  assumes kv: "kv_inv kv" and s: "known_seq kv s" and z: "kv_view kv ! stream_idx kv s ! cell = (p, S)"
    and c: "cell < length (kv_view kv ! stream_idx kv s)" and S: "nat s \<in> S" "S \<noteq> {nat s}"
  shows "\<exists>kv'. kv_seq_rm_cell s cell kv = Inr (True, kv') \<and> kv_view kv' ! stream_idx kv s ! cell = (p, S - {nat s}) \<and>
    kv_tail kv' = kv_tail kv"
proof -
  let ?i = "stream_idx kv s"
  have w: "kv_wf kv" using kv by (simp add: kv_inv_def)
  note st = stream_of_ok [OF w s]
  note ok = kv_wf_parts(7) [OF w st(2)]
  have len: "?i < length (kv_cells kv)" using st(2) kv_wf_parts(3) [OF w] by simp
  have v: "kv_view kv ! ?i = kv_cells_list (kv_cells kv ! ?i)" using len by (simp add: kv_view_def)
  have c': "cell < length (kc_pos (kv_cells kv ! ?i))" using c cells_okD(2) [OF ok] v by simp
  have zz: "kc_pos (kv_cells kv ! ?i) ! cell = p" "kc_seq (kv_cells kv ! ?i) ! cell = S"
    using z cells_okD(4) [OF ok c'] v by simp_all
  obtain cs where cs: "kv_cells_seq_rm cell s (kv_cells kv ! ?i) = Inr (False, cs)" "kc_seq cs = (kc_seq (kv_cells kv ! ?i))[cell := S - {nat s}]"
      "kc_pos cs = (kc_pos (kv_cells kv ! ?i))[cell := p]"
    using kv_cells_seq_rm_inv [OF cells_okD(1) [OF ok] c', of "nat s"] S zz known_seq_nat [OF s] by auto
  have "p \<noteq> -1" using cells_okD(5) [OF ok c'] zz S(1) by auto
  moreover have "s < int LLAMA_MAX_SEQ" using st(3) s by (simp add: known_seq_def nat_less_iff)
  ultimately have "kv_cells_seq_rm_cell cell s (kv_cells kv ! ?i) = Inr (False, cs)"
    using c' zz S(1) cs(1) s by (simp add: kv_cells_seq_rm_cell_def bit_test_def known_seq_def)
  then have r: "kv_seq_rm_cell s cell kv = Inr (True, set_cells ?i cs kv)" by (simp add: kv_seq_rm_cell_def st(1))
  have "kv_view (set_cells ?i cs kv) ! ?i ! cell = (p, S - {nat s})"
    using len c' cells_okD(2) [OF ok] list_update_pair [OF cs(3,2)] by (simp add: set_cells_def kv_view_def)
  then show ?thesis using r by (simp add: set_cells_def)
qed

lemma for_seqs_id: "for_seqs (\<lambda>s. Inr) t = Inr t"
proof -
  have "fold_r (\<lambda>s t. bind_r (Inr (st_seqs t ! s)) (\<lambda>q. Inr (t\<lparr>st_seqs := (st_seqs t)[s := q]\<rparr>))) ss t = Inr t" for ss
    by (induction ss) simp_all
  then show ?thesis by (simp add: for_seqs_def)
qed

lemma tail_seq_add_none:
  assumes "\<forall>e \<in> set (ts_entries (st_seqs t ! nat s)). \<not> in_range p0 p1 e"
  shows "tail_seq_add s p0 p1 d t = Inr t"
  using assms for_seqs_id [of t] by (simp add: tail_seq_add_def range_identities_def Let_def filter_False)

text \<open>A shift of positions moves the cells of the sequence for all their owners, but the exact tail moves only the
  rows the shifted sequence itself has in its tail: when it has none in the range, the rows of the other
  owners keep their old positions.\<close>

theorem seq_add_stale_rows:
  assumes kv: "kv_inv kv" and s: "known_seq kv s" and n: "kv_n_pos_per_embd kv = 1" and idle: "tail_idle (kv_tail kv)"
    and v: "nat s < kv_n_seq_max kv" and none: "\<forall>e \<in> set (tail_rows (kv_tail kv) ! nat s). \<not> in_range p0 p1 e"
  shows "\<exists>kv'. kv_seq_add s p0 p1 d kv = Inr kv' \<and> tail_rows (kv_tail kv') = tail_rows (kv_tail kv) \<and>
    kv_view kv' = on_stream (stream_idx kv s) (range_hits p0 p1 (\<lambda>lo hi. spec_add (nat s) lo hi d)) (kv_view kv)"
proof -
  let ?f = "\<lambda>t. bind_r (tail_seq_add s p0 p1 d t) (\<lambda>t. Inr (degrade_partial s p0 p1 (d \<noteq> 0) t))"
  have "tail_call ?f (kv_tail kv) = tail_rows (kv_tail kv)"
  proof (cases "kv_tail kv")
    case (Some t)
    have l: "nat s < length (st_seqs t)" using kv v Some by (simp add: kv_inv_def tail_ok_def)
    have "tail_seq_add s p0 p1 d t = Inr t"
      using none by (intro tail_seq_add_none) (simp add: Some tail_rows_nth [OF l])
    moreover have "map ts_entries (st_seqs (degrade_partial s p0 p1 b t)) = map ts_entries (st_seqs t)" for b
      by (simp add: degrade_partial_def mark_degraded_rows)
    ultimately show ?thesis by (simp add: tail_call_def tail_rows_def Some)
  qed (simp add: tail_call_def tail_rows_def)
  then show ?thesis using seq_add_one [OF kv s n, of p0 p1 d] idle by (auto simp: on_stream_def)
qed

text \<open>Keeping one sequence removes the others from its own stream only: every other stream keeps all its
  cells.\<close>

theorem seq_keep_other_streams:
  assumes "kv_inv kv" and "known_seq kv s" and "j \<noteq> stream_idx kv s"
  shows "\<exists>kv'. kv_seq_keep s kv = Inr kv' \<and> kv_view kv' ! j = kv_view kv ! j"
  using seq_keep_one [OF assms(1,2)] assms(3) by auto

text \<open>A shift that waits to be applied to the stored keys has two signs: \<open>pos_add\<close> records the new position
  minus the old one, so position minus shift stays the position the key was stored with, while
  \<open>pos_div\<close> records the old position minus the new one, so position plus shift stays the same.\<close>

theorem pending_shift_sign:
  assumes inv: "kv_cells_inv c" and i: "i < length (kc_pos c)" and p: "kc_pos c ! i \<noteq> -1"
    and a: "0 \<le> kc_pos c ! i + a" and d: "0 < d"
  shows "(\<exists>c'. kv_cells_pos_add i a c = Inr (False, c') \<and> kc_pos c' ! i - kc_shift c' ! i = kc_pos c ! i - kc_shift c ! i) \<and>
    (\<exists>c'. kv_cells_pos_div i d c = Inr c' \<and> kc_pos c' ! i + kc_shift c' ! i = kc_pos c ! i + kc_shift c ! i)"
proof -
  obtain f g where rm: "seq_pos_rm i c = Inr (c\<lparr>kc_seq_pos := f, kc_seq_used := g\<rparr>)"
    using seq_pos_rm_ok [OF inv i] by blast
  have add: "kc_pos (seq_pos_add i x) = kc_pos x" "kc_shift (seq_pos_add i x) = kc_shift x" for x
  proof -
    have "kc_pos (fold (\<lambda>s c. if s \<in> kc_seq c ! i then seq_pos_inc s (kc_pos c ! i) c else c) ss x) = kc_pos x \<and>
        kc_shift (fold (\<lambda>s c. if s \<in> kc_seq c ! i then seq_pos_inc s (kc_pos c ! i) c else c) ss x) = kc_shift x" for ss
      by (induction ss arbitrary: x) (simp_all add: seq_pos_inc_def)
    then show "kc_pos (seq_pos_add i x) = kc_pos x" "kc_shift (seq_pos_add i x) = kc_shift x" by (simp_all add: seq_pos_add_def)
  qed
  have l: "i < length (kc_shift c)" using i kv_cells_invD(3) [OF inv] by simp
  have "0 \<le> kc_pos c ! i" using kv_cells_invD(5) [OF inv i] p by simp
  then have "kc_pos c ! i sdiv d = kc_pos c ! i div d" using d by (simp add: sdiv_nonneg)
  then show ?thesis using rm i p a d l by (simp add: kv_cells_pos_add_def kv_cells_pos_div_def Let_def add)
qed

section \<open>A small cache\<close>

text \<open>One stream of six cells for two sequences: the last cell holds position 7 of both, and the exact tail
  has a row for it in sequence 0.\<close>

definition cells_example :: llama_kv_cells where
  "cells_example = \<lparr>kc_has_shift = False, kc_used = {5}, kc_pos = [-1, -1, -1, -1, -1, 7],
     kc_ext = replicate 6 ext_reset, kc_shift = replicate 6 0, kc_seq = [{}, {}, {}, {}, {}, {0, 1}],
     kc_seq_pos = (\<lambda>s. if s \<le> 1 then [7 \<mapsto> 1] else Map.empty), kc_seq_used = (\<lambda>s. if s \<le> 1 then 1 else 0)\<rparr>"

lemma six_cases: "(i :: nat) < 6 \<longleftrightarrow> i = 0 \<or> i = 1 \<or> i = 2 \<or> i = 3 \<or> i = 4 \<or> i = 5"
  by arith

lemma cells_example_ok: "cells_ok cells_example"
proof -
  have "kv_cells_list cells_example = [(-1, {}), (-1, {}), (-1, {}), (-1, {}), (-1, {}), (7, {0, 1})]"
    by (simp add: kv_cells_list_def cells_example_def)
  then have ix: "index_ok (kv_cells_list cells_example) (kc_seq_pos cells_example) (kc_seq_used cells_example)"
    by (simp add: index_ok_def cell_count_def member_count_def) (auto simp: cells_example_def)
  have "kc_used cells_example = {i. i < length (kc_pos cells_example) \<and> kc_pos cells_example ! i \<noteq> -1}"
    by (auto simp: cells_example_def less_Suc_eq)
  moreover have "-1 \<le> kc_pos cells_example ! i \<and> kc_seq cells_example ! i \<subseteq> {..<LLAMA_MAX_SEQ} \<and>
      (kc_pos cells_example ! i = -1 \<longleftrightarrow> kc_seq cells_example ! i = {})" if "i < 6" for i
    using that unfolding six_cases by (auto simp: cells_example_def LLAMA_MAX_SEQ_def)
  moreover have "length (kc_pos cells_example) = 6" "length (kc_seq cells_example) = 6" "length (kc_ext cells_example) = 6"
      "length (kc_shift cells_example) = 6" by (simp_all add: cells_example_def)
  ultimately show ?thesis using ix unfolding cells_ok_def kv_cells_inv_def by simp
qed

definition kv_example :: llama_kv_cache where
  "kv_example = \<lparr>kv_other = None, kv_n_seq_max = 2, kv_n_stream = 1, kv_n_swa = 0, kv_swa_type = LLAMA_SWA_TYPE_NONE,
     kv_n_pos_per_embd = 1, kv_rollback = 0, kv_metadata_only = False,
     kv_tail_plan = (storage_plan_init storage_request_example 1)\<lparr>sp_kind := LLAMA_KV_TAIL_STORAGE_OVERLAY\<rparr>,
     kv_arena_stride = 3, kv_sink_slots = 0, kv_tail_slots = 6, kv_tail = Some tail_example1,
     kv_generations = [[0, 0, 0, 0, 0, 0]], kv_generations_before = [], kv_ordinal = 1, kv_write_slots = [],
     kv_write_levels = 0, kv_preparing = False, kv_graph_started = False, kv_group_size = 1, kv_stage_groups = 1,
     kv_seq_heads = [0, 0], kv_seq_to_stream = replicate LLAMA_MAX_SEQ 0, kv_cells = [cells_example], kv_heads = [0],
     kv_sc_info = sc_none\<rparr>"

lemma kv_example_inv: "kv_inv kv_example"
proof -
  have "store_inv tail_example1" by (rule tail_reachable_inv [OF tail_example1_reachable])
  moreover have "length (st_seqs tail_example1) = 2" "st_pending tail_example1 = None"
    by (simp_all add: tail_example1_def tail_example_def)
  ultimately have "tail_ok (kv_n_seq_max kv_example) (kv_sc_info kv_example) (kv_tail kv_example)"
    by (simp add: tail_ok_def kv_example_def)
  moreover have "kv_wf kv_example"
    using cells_example_ok by (simp add: kv_wf_def kv_example_def sc_none_def kv_cap_def LLAMA_MAX_SEQ_def)
  ultimately show ?thesis by (simp add: kv_inv_def)
qed

lemma kv_example_fields:
  "known_seq kv_example 0" "known_seq kv_example 1" "stream_idx kv_example 0 = 0" "stream_idx kv_example 1 = 0"
  "kv_view kv_example = [[(-1, {}), (-1, {}), (-1, {}), (-1, {}), (-1, {}), (7, {0, 1})]]"
  "tail_idle (kv_tail kv_example)" "kv_n_pos_per_embd kv_example = 1" "kv_n_seq_max kv_example = 2"
  "tail_rows (kv_tail kv_example) = [[\<lparr>ee_identity = ident 5, ee_position = 7, ee_ordinal = 0, ee_slot = 0\<rparr>], []]"
  by (simp_all add: kv_example_def known_seq_def stream_idx_def kv_view_def kv_cells_list_def cells_example_def
      tail_idle_def tail_rows_def tail_example1_def tail_example_def tail_seq_empty_def LLAMA_MAX_SEQ_def)

theorem kv_edits_refine_witness:
  "\<exists>kv'. kv_edit_apply (Add 1 0 (-1) 3) kv_example = Inr kv' \<and> kv_view kv' ! 0 ! 5 = (10, {0, 1})"
  using kv_edits_refine [OF kv_example_inv, of "Add 1 0 (-1) 3"] kv_example_fields
  by (auto simp: on_stream_def spec_add_def hits_def range_lo_def range_hi_def)

theorem seq_rm_tail_live_witness:
  "tail_live kv_example \<and> (\<exists>kv'. seq_rm_unchecked 0 0 (-1) kv_example = Inr kv' \<and> tail_live kv')"
proof -
  have "tail_live kv_example"
    by (simp add: tail_live_def kv_example_fields less_Suc_eq row_live_def ident_def) (simp add: kv_example_def)
  then show ?thesis
    using seq_rm_tail_live [OF kv_example_inv kv_example_fields(1,6), of 0 "-1"] by auto
qed

theorem seq_rm_cell_stale_row_witness:
  "\<exists>kv'. kv_seq_rm_cell 0 5 kv_example = Inr (True, kv') \<and> kv_view kv' ! 0 ! 5 = (7, {1}) \<and>
     tail_rows (kv_tail kv') ! 0 \<noteq> []"
proof -
  have "{0, 1} - {nat 0} = {1 :: nat}" by auto
  then show ?thesis
    using seq_rm_cell_stale_row [OF kv_example_inv kv_example_fields(1), of 5 7 "{0, 1}"] kv_example_fields by auto
qed

theorem seq_add_stale_rows_witness:
  "\<exists>kv'. kv_seq_add 1 0 (-1) 3 kv_example = Inr kv' \<and> kv_view kv' ! 0 ! 5 = (10, {0, 1}) \<and>
     ee_position (tail_rows (kv_tail kv') ! 0 ! 0) = 7"
  using seq_add_stale_rows [OF kv_example_inv kv_example_fields(2), of 0 "-1" 3] kv_example_fields
  by (auto simp: on_stream_def spec_add_def hits_def range_lo_def range_hi_def)

text \<open>Two streams of six cells, each with its own copy of these cells.\<close>

definition kv_example2 :: llama_kv_cache where
  "kv_example2 = kv_example\<lparr>kv_n_stream := 2, kv_tail := None, kv_seq_to_stream := [0, 1], kv_heads := [0, 0],
     kv_cells := [cells_example, cells_example]\<rparr>"

lemma kv_example2_inv: "kv_inv kv_example2"
proof -
  have "kv_wf kv_example2"
    using cells_example_ok by (simp add: kv_wf_def kv_example2_def kv_example_def sc_none_def kv_cap_def LLAMA_MAX_SEQ_def
      less_Suc_eq numeral_2_eq_2 nth_Cons' upt_rec)
  then show ?thesis by (simp add: kv_inv_def kv_example2_def tail_ok_def)
qed

theorem seq_keep_other_streams_witness:
  "\<exists>kv'. kv_seq_keep 0 kv_example2 = Inr kv' \<and> kv_view kv' ! 1 ! 5 = (7, {0, 1})"
proof -
  have "known_seq kv_example2 0" "1 \<noteq> stream_idx kv_example2 0" "kv_view kv_example2 ! 1 ! 5 = (7, {0, 1})"
    by (simp_all add: known_seq_def stream_idx_def kv_example2_def kv_view_def kv_cells_list_def cells_example_def)
  then show ?thesis using seq_keep_other_streams [OF kv_example2_inv, of 0 1] by auto
qed

theorem pending_shift_sign_witness:
  "\<exists>c'. kv_cells_pos_div 5 2 cells_example = Inr c' \<and> kc_pos c' ! 5 + kc_shift c' ! 5 = 7"
proof -
  have "kv_cells_inv cells_example" by (rule cells_okD(1) [OF cells_example_ok])
  moreover have "5 < length (kc_pos cells_example)" "kc_pos cells_example ! 5 = 7" "kc_shift cells_example ! 5 = 0"
    by (simp_all add: cells_example_def)
  ultimately show ?thesis using pending_shift_sign [of cells_example 5 1 2] by auto
qed

end
