(* ===== verification/KvSlot.thy ===== *)
theory KvSlot
  imports KvEdit
begin

text \<open>
  The search for a slot and the placement of a micro-batch in an ordinary cache (no allocation groups).
  The loop of the search is reduced to one pass over the cells in cyclic order from the search head,
  which gives both what a slot consists of and when there is one.
\<close>

section \<open>The search visits every cell once\<close>

definition cyclic :: "nat \<Rightarrow> nat \<Rightarrow> nat \<Rightarrow> nat list" where
  "cyclic n head m = map (\<lambda>i. (head + i) mod n) [0..<m]"

lemma cyclic_Suc: "head < n \<Longrightarrow> cyclic n head (Suc m) = head # cyclic n (Suc head) m"
  by (simp add: cyclic_def map_upt_Suc del: upt_Suc)

lemma cyclic_wrap: "cyclic n n m = cyclic n 0 m"
  by (simp add: cyclic_def)

lemma cyclic_distinct: "m \<le> n \<Longrightarrow> distinct (cyclic n head m)"
  unfolding cyclic_def distinct_map
proof (intro conjI inj_onI)
  fix x y assume m: "m \<le> n" and xy: "x \<in> set [0..<m]" "y \<in> set [0..<m]" and eq: "(head + x) mod n = (head + y) mod n"
  have "x mod n = y mod n" using eq unfolding nat_mod_eq_iff by auto
  then show "x = y" using xy m by simp
qed simp

lemma cyclic_set: "0 < n \<Longrightarrow> set (cyclic n head n) = {..<n}"
proof -
  assume n: "0 < n"
  have "set (cyclic n head n) \<subseteq> {..<n}" using n by (auto simp: cyclic_def)
  moreover have "card (set (cyclic n head n)) = n" using distinct_card [OF cyclic_distinct [OF order_refl]] by (simp add: cyclic_def)
  ultimately show ?thesis by (intro card_subset_eq) simp_all
qed

text \<open>The outcome of a search that found the usable cells \<open>us\<close>, in this order.\<close>

definition first_cells :: "nat \<Rightarrow> nat list \<Rightarrow> nat list option" where
  "first_cells n us = (if n \<le> length us then Some (take n us) else None)"

lemma slot_scan_step:
  assumes "head < N" and "length idxs < n" and "can (length idxs) head = Inr p"
  shows "slot_scan can False n N head t idxs =
    (let ys = (if p then idxs @ [head] else idxs)
     in if length ys = n then Inr (Some ys) else if N \<le> Suc t then Inr None
        else slot_scan can False n N (Suc head) (Suc t) ys)"
  using assms by (subst slot_scan.simps) (simp add: Let_def)

lemma slot_scan_cyclic:
  assumes can: "\<And>k i. i < N \<Longrightarrow> k < n \<Longrightarrow> can k i = Inr (P i)"
    and "0 < m" and "m \<le> N" and "head \<le> N" and "length idxs < n"
  shows "slot_scan can False n N head (N - m) idxs = Inr (first_cells n (idxs @ filter P (cyclic N head m)))"
  using assms(2-)
proof (induction m arbitrary: head idxs)
  case (Suc m)
  have step: "slot_scan can False n N h (N - Suc m) idxs = Inr (first_cells n (idxs @ filter P (cyclic N h (Suc m))))" if h: "h < N" for h
  proof -
    let ?ys = "if P h then idxs @ [h] else idxs"
    have y: "idxs @ filter P (cyclic N h (Suc m)) = ?ys @ filter P (cyclic N (Suc h) m)" by (simp add: cyclic_Suc [OF h])
    have e: "slot_scan can False n N h (N - Suc m) idxs = (if length ?ys = n then Inr (Some ?ys) else if m = 0 then Inr None
        else slot_scan can False n N (Suc h) (N - m) ?ys)"
      using slot_scan_step [of h N idxs n can "P h" "N - Suc m", OF h Suc.prems(4) can [OF h Suc.prems(4)]] Suc.prems(2)
      by (auto simp: Let_def Suc_diff_Suc)
    consider "length ?ys = n" | "length ?ys \<noteq> n" "m = 0" | "length ?ys \<noteq> n" "0 < m" by linarith
    then show ?thesis
    proof cases
      case 1
      then show ?thesis unfolding y e by (simp add: first_cells_def)
    next
      case 2
      then show ?thesis unfolding y e using Suc.prems(4) by (simp add: first_cells_def cyclic_def split: if_splits)
    next
      case 3
      have "length ?ys < n" using 3(1) Suc.prems(4) by (auto split: if_splits)
      then show ?thesis unfolding y e using 3 Suc.IH [of "Suc h" ?ys] h Suc.prems(2) by simp
    qed
  qed
  show ?case
  proof (cases "head = N")
    case True
    have "slot_scan can False n N head (N - Suc m) idxs = slot_scan can False n N 0 (N - Suc m) idxs"
      using Suc.prems True by (subst slot_scan.simps) simp
    then show ?thesis using step [of 0] Suc.prems True by (simp add: cyclic_wrap)
  qed (use step Suc.prems in simp)
qed simp

section \<open>Usable cells\<close>

text \<open>A cell can take a token when it is empty, or when its one owner has left it behind the attention
  window.\<close>

definition cell_usable :: "llama_kv_cache \<Rightarrow> llama_kv_cells \<Rightarrow> nat \<Rightarrow> bool" where
  "cell_usable kv c i \<longleftrightarrow> kc_pos c ! i = -1 \<or>
     (\<exists>s. kc_seq c ! i = {s} \<and> is_masked_swa (kv_n_swa kv) (kv_swa_type kv) (kc_pos c ! i) (Max (seq_positions c s) + 1) = Inr True)"

definition swa_defined :: "llama_kv_cache \<Rightarrow> bool" where
  "swa_defined kv \<longleftrightarrow> kv_swa_type kv \<noteq> LLAMA_SWA_TYPE_CHUNKED \<or> 0 < kv_n_swa kv"

lemma masked_total:
  assumes "swa_defined kv" and "0 \<le> p" and "0 \<le> q"
  shows "\<exists>b. is_masked_swa (kv_n_swa kv) (kv_swa_type kv) p q = Inr b"
  using assms by (cases "kv_swa_type kv") (auto simp: is_masked_swa_def swa_defined_def Let_def)

lemma owner_of_single:
  assumes "s < LLAMA_MAX_SEQ"
  shows "find (\<lambda>x. x \<in> {s}) [0..<LLAMA_MAX_SEQ] = Some s"
  unfolding find_Some_iff using assms by (intro exI [of _ s]) simp

lemma can_use_cell_eq:
  assumes c: "cells_ok c" and i: "i < length (kc_pos c)" and g: "kv_group_size kv \<le> 1" and w: "swa_defined kv"
  shows "can_use_cell kv ub c seq_id k i = Inr (cell_usable kv c i)"
proof -
  note d = cells_okD [OF c]
  have e: "kv_cells_is_empty c i = Inr (kc_pos c ! i = -1)" using d(7) [OF i] i by (auto simp: kv_cells_is_empty_def)
  show ?thesis
  proof (cases "kc_pos c ! i = -1 \<or> card (kc_seq c ! i) \<noteq> 1")
    case True
    then show ?thesis using e g i by (auto simp: can_use_cell_def cell_usable_def kv_cells_seq_count_def)
  next
    case False
    then obtain s where s: "kc_seq c ! i = {s}" by (auto simp: card_1_singleton_iff)
    have sm: "s < LLAMA_MAX_SEQ" using d(6) [OF i] s by auto
    have p: "kc_pos c ! i \<noteq> -1" "0 \<le> kc_pos c ! i" using False d(7) [OF i] by auto
    have sp: "kc_pos c ! i \<in> seq_positions c s" using i s by (auto simp: seq_positions_def)
    then have mx: "kv_cells_seq_pos_max c (int s) = Inr (Max (seq_positions c s))"
      using kv_cells_seq_pos_max_eq [OF d(1) sm] by auto
    have "kc_pos c ! i \<le> Max (seq_positions c s)" using sp by simp
    then obtain b where b: "is_masked_swa (kv_n_swa kv) (kv_swa_type kv) (kc_pos c ! i) (Max (seq_positions c s) + 1) = Inr b"
      using masked_total [OF w p(2), of "Max (seq_positions c s) + 1"] p(2) by auto
    have "kv_cells_seq_get c i = Inr (int s)"
      using i d(3) s owner_of_single [OF sm] by (simp add: kv_cells_seq_get_def)
    then show ?thesis using e g i p(1) s mx b
      by (simp add: can_use_cell_def cell_usable_def kv_cells_seq_count_def kv_cells_pos_get_def)
  qed
qed

section \<open>The slot of an ordinary cache\<close>

lemma stream_slot_eq:
  assumes w: "kv_wf kv" and s: "known_seq kv s" and g: "kv_group_size kv \<le> 1" and swa: "swa_defined kv" and n: "0 < n"
  defines "i \<equiv> stream_idx kv s" and "c \<equiv> kv_cells kv ! stream_idx kv s"
  shows "\<exists>h \<le> kv_cap kv. stream_slot kv ub False n s = Inr (i, first_cells n (filter (cell_usable kv c) (cyclic (kv_cap kv) h (kv_cap kv))))"
proof -
  note st = stream_of_ok [OF w s]
  have c: "cells_ok c" "length (kc_pos c) = kv_cap kv" using kv_wf_parts(7,8) [OF w st(2)] by (simp_all add: c_def)
  define h where "h = (if kv_heads kv ! i > u32 (kv_cells_get_used c + 2 * n) then 0 else kv_heads kv ! i)"
  have h: "h \<le> kv_cap kv" using kv_wf_parts(9) [OF w st(2)] by (simp add: h_def i_def)
  show ?thesis
  proof (cases "n \<le> kv_cap kv")
    case True
    have "slot_scan (can_use_cell kv ub c s) False n (kv_cap kv) h (kv_cap kv - kv_cap kv) [] =
        Inr (first_cells n ([] @ filter (cell_usable kv c) (cyclic (kv_cap kv) h (kv_cap kv))))"
      by (rule slot_scan_cyclic) (use True n h can_use_cell_eq [OF c(1) _ g swa] c(2) in auto)
    then have "stream_slot kv ub False n s = Inr (i, first_cells n (filter (cell_usable kv c) (cyclic (kv_cap kv) h (kv_cap kv))))"
      using True c(2) unfolding h_def i_def c_def by (simp add: stream_slot_def st(1) kv_cells_size_def Let_def)
    then show ?thesis using h by blast
  next
    case False
    then have "length (filter (cell_usable kv c) (cyclic (kv_cap kv) h (kv_cap kv))) < n"
      using length_filter_le [of "cell_usable kv c" "cyclic (kv_cap kv) h (kv_cap kv)"] by (simp add: cyclic_def)
    then show ?thesis using False c(2) h st(1)
      by (intro exI [of _ h]) (simp add: stream_slot_def kv_cells_size_def Let_def first_cells_def i_def c_def)
  qed
qed

definition usable_cells :: "llama_kv_cache \<Rightarrow> nat \<Rightarrow> nat set" where
  "usable_cells kv s = {i. i < kv_cap kv \<and> cell_usable kv (kv_cells kv ! s) i}"

lemma first_cells_usable:
  assumes "0 < n"
  shows "(case first_cells n (filter (cell_usable kv (kv_cells kv ! s)) (cyclic (kv_cap kv) h (kv_cap kv))) of
      None \<Rightarrow> card (usable_cells kv s) < n
    | Some is \<Rightarrow> length is = n \<and> distinct is \<and> set is \<subseteq> usable_cells kv s \<and> n \<le> card (usable_cells kv s))"
proof (cases "kv_cap kv = 0")
  case True
  then show ?thesis using assms by (simp add: first_cells_def cyclic_def usable_cells_def)
next
  case False
  let ?L = "filter (cell_usable kv (kv_cells kv ! s)) (cyclic (kv_cap kv) h (kv_cap kv))"
  have d: "distinct ?L" using cyclic_distinct [OF order_refl] by (rule distinct_filter)
  have st: "set ?L = usable_cells kv s" using cyclic_set [of "kv_cap kv" h] False by (auto simp: usable_cells_def)
  have "card (usable_cells kv s) = length ?L" using distinct_card [OF d] unfolding st by simp
  then show ?thesis using d st set_take_subset [of n ?L] by (auto simp: first_cells_def)
qed

section \<open>Placing tokens in empty cells\<close>

text \<open>A micro-batch the cache can place: one position per token at least, not negative, and at least one
  sequence per token, none twice.\<close>

definition tok_owners :: "llama_ubatch \<Rightarrow> nat \<Rightarrow> int list" where
  "tok_owners ub i = take (nat (ub_n_seq_id ub ! i)) (ub_seq_id ub ! i)"

definition ubatch_ok :: "llama_ubatch \<Rightarrow> bool" where
  "ubatch_ok ub \<longleftrightarrow> 0 < ub_n_tokens ub \<and> (\<forall>i < ub_n_tokens ub. 0 \<le> ub_pos ub ! i \<and> 0 < ub_n_seq_id ub ! i \<and>
     nat (ub_n_seq_id ub ! i) \<le> length (ub_seq_id ub ! i) \<and> distinct (tok_owners ub i) \<and>
     set (tok_owners ub i) \<subseteq> {0..<int LLAMA_MAX_SEQ})"

definition tok_content :: "llama_ubatch \<Rightarrow> nat \<Rightarrow> cell_content" where
  "tok_content ub i = (ub_pos ub ! i, nat ` set (tok_owners ub i))"

lemma kv_cells_seq_add_shift:
  "kv_cells_seq_add i s c = Inr c' \<Longrightarrow> kc_shift c' = kc_shift c \<and> kc_ext c' = kc_ext c \<and> kc_has_shift c' = kc_has_shift c"
  by (auto simp: kv_cells_seq_add_def bit_test_def seq_pos_inc_def Let_def split: if_splits)

lemma seq_adds:
  assumes "kv_cells_inv c" and "idx < length (kc_pos c)" and "kc_pos c ! idx \<noteq> -1" and "distinct row"
    and "set row \<subseteq> {0..<int LLAMA_MAX_SEQ}" and "nat ` set row \<inter> kc_seq c ! idx = {}"
  shows "\<exists>c'. fold_r (\<lambda>s. kv_cells_seq_add idx s) row c = Inr c' \<and> kv_cells_inv c' \<and> kc_pos c' = kc_pos c \<and>
    kc_seq c' = (kc_seq c)[idx := kc_seq c ! idx \<union> nat ` set row] \<and> kc_shift c' = kc_shift c \<and> kc_ext c' = kc_ext c \<and>
    kc_has_shift c' = kc_has_shift c"
  using assms
proof (induction row arbitrary: c)
  case Nil
  then show ?case by simp
next
  case (Cons s row)
  have l: "idx < length (kc_seq c)" using Cons.prems(1,2) by (simp add: kv_cells_invD(1))
  have s: "int (nat s) = s" "nat s < LLAMA_MAX_SEQ" using Cons.prems(5) by auto
  obtain c1 where c1: "kv_cells_seq_add idx s c = Inr c1" "kv_cells_inv c1" "kc_seq c1 = (kc_seq c)[idx := insert (nat s) (kc_seq c ! idx)]"
      "kc_pos c1 = kc_pos c"
    using kv_cells_seq_add_inv [OF Cons.prems(1-3) s(2)] Cons.prems(6) unfolding s(1) by auto
  have "nat ` set row \<inter> kc_seq c1 ! idx = {}"
    using Cons.prems(4-6) l by (auto simp: c1(3) nat_eq_iff2)
  then obtain c2 where c2: "fold_r (\<lambda>s. kv_cells_seq_add idx s) row c1 = Inr c2" "kv_cells_inv c2" "kc_pos c2 = kc_pos c1"
      "kc_seq c2 = (kc_seq c1)[idx := kc_seq c1 ! idx \<union> nat ` set row]" "kc_shift c2 = kc_shift c1" "kc_ext c2 = kc_ext c1"
      "kc_has_shift c2 = kc_has_shift c1"
    using Cons.IH [of c1] Cons.prems c1 by auto
  then show ?case using c1 kv_cells_seq_add_shift [OF c1(1)] l by simp
qed

text \<open>Without a tail, or while the placement is rehearsed, and without groups, a placement touches the
  cells only.\<close>

definition quiet :: "llama_kv_cache \<Rightarrow> bool" where
  "quiet kv \<longleftrightarrow> (kv_tail kv = None \<or> kv_preparing kv) \<and> kv_group_size kv \<le> 1"

lemma quiet_set_cells [simp]: "quiet (set_cells s c kv) = quiet kv"
  by (simp add: quiet_def set_cells_def)

lemma set_cells_simps [simp]:
  "set_cells s c (set_cells s c' kv) = set_cells s c kv"
  "length (kv_cells (set_cells s c kv)) = length (kv_cells kv)"
  "s < length (kv_cells kv) \<Longrightarrow> kv_cells (set_cells s c kv) ! s = c"
  "set_cells s (kv_cells kv ! s) kv = kv"
  by (simp_all add: set_cells_def)

lemma apply_owners_quiet:
  assumes "quiet kv" and "s < length (kv_cells kv)"
  shows "fold_r (apply_owner ub s idx i) js kv =
    bind_r (fold_r (\<lambda>q. kv_cells_seq_add idx q) (map (\<lambda>j. ub_seq_id ub ! i ! j) js) (kv_cells kv ! s)) (\<lambda>c. Inr (set_cells s c kv))"
  using assms
proof (induction js arbitrary: kv)
  case (Cons j js)
  have "apply_owner ub s idx i j kv = bind_r (kv_cells_seq_add idx (ub_seq_id ub ! i ! j) (kv_cells kv ! s)) (\<lambda>c. Inr (set_cells s c kv))"
    using Cons.prems(1) by (auto simp: apply_owner_def quiet_def set_cells_def bind_r_def Let_def split: sum.splits option.splits)
  then show ?case using Cons by (auto simp: bind_r_def split: sum.splits)
qed simp

definition empty_cell :: "llama_kv_cells \<Rightarrow> nat \<Rightarrow> bool" where
  "empty_cell c i \<longleftrightarrow> i < length (kc_pos c) \<and> kc_pos c ! i = -1"

lemma take_as_map: "k \<le> length xs \<Longrightarrow> map (\<lambda>j. xs ! j) [0..<k] = take k xs"
  by (rule nth_equalityI) simp_all

lemma apply_token_quiet:
  assumes kv: "quiet kv" and ub: "ubatch_ok ub" and s: "si_strm si ! j = s" "s < length (kv_cells kv)"
    and k: "k < length (si_idxs si ! j)" "j * n + k < ub_n_tokens ub" and ok: "cells_ok (kv_cells kv ! s)"
    and e: "empty_cell (kv_cells kv ! s) (si_idxs si ! j ! k)"
  shows "\<exists>c. apply_token si ub n j k (kv, lost) = Inr (set_cells s c kv, lost) \<and> cells_ok c \<and>
    kv_cells_list c = (kv_cells_list (kv_cells kv ! s))[si_idxs si ! j ! k := tok_content ub (j * n + k)] \<and>
    kc_shift c = kc_shift (kv_cells kv ! s) \<and> kc_has_shift c = kc_has_shift (kv_cells kv ! s) \<and> length (kc_pos c) = length (kc_pos (kv_cells kv ! s)) \<and>
    (\<forall>x. x \<noteq> si_idxs si ! j ! k \<longrightarrow> kc_ext c ! x = kc_ext (kv_cells kv ! s) ! x)"
proof -
  let ?c = "kv_cells kv ! s" and ?i = "j * n + k" and ?x = "si_idxs si ! j ! k"
  note inv = cells_okD(1) [OF ok]
  have x: "?x < length (kc_pos ?c)" "kc_pos ?c ! ?x = -1" using e by (simp_all add: empty_cell_def)
  have u: "0 \<le> ub_pos ub ! ?i" "0 < ub_n_seq_id ub ! ?i" "nat (ub_n_seq_id ub ! ?i) \<le> length (ub_seq_id ub ! ?i)"
      "distinct (tok_owners ub ?i)" "set (tok_owners ub ?i) \<subseteq> {0..<int LLAMA_MAX_SEQ}"
    using ub k(2) by (simp_all add: ubatch_ok_def)
  have se: "kc_seq ?c ! ?x = {}" using cells_okD(5) [OF ok x(1)] x(2) by simp
  obtain c1 where c1: "kv_cells_pos_set ?x (ub_pos ub ! ?i) ?c = Inr c1" "kv_cells_inv c1" "kc_pos c1 = (kc_pos ?c)[?x := ub_pos ub ! ?i]"
      "kc_seq c1 = kc_seq ?c" "kc_shift c1 = kc_shift ?c" "kc_ext c1 = kc_ext ?c" "kc_has_shift c1 = kc_has_shift ?c"
    using kv_cells_pos_set_inv [OF inv x u(1)] by (auto simp: kv_cells_pos_set_def)
  have "\<exists>c2. (if is_pos_2d ub then kv_cells_ext_set ?x \<lparr>ext_x = ub_pos ub ! (?i + ub_n_tokens ub * 2), ext_y = ub_pos ub ! (?i + ub_n_tokens ub)\<rparr> c1 else Inr c1) = Inr c2 \<and>
      kv_cells_inv c2 \<and> kc_pos c2 = kc_pos c1 \<and> kc_seq c2 = kc_seq c1 \<and> kc_shift c2 = kc_shift c1 \<and> kc_has_shift c2 = kc_has_shift c1 \<and> (\<forall>y. y \<noteq> ?x \<longrightarrow> kc_ext c2 ! y = kc_ext c1 ! y)"
    using kv_cells_ext_set_inv [OF c1(2), of ?x] x(1) c1(2,3) by (auto simp: kv_cells_ext_set_def)
  then obtain c2 where c2: "(if is_pos_2d ub then kv_cells_ext_set ?x \<lparr>ext_x = ub_pos ub ! (?i + ub_n_tokens ub * 2), ext_y = ub_pos ub ! (?i + ub_n_tokens ub)\<rparr> c1 else Inr c1) = Inr c2"
      "kv_cells_inv c2" "kc_pos c2 = kc_pos c1" "kc_seq c2 = kc_seq c1" "kc_shift c2 = kc_shift c1" "kc_has_shift c2 = kc_has_shift c1" "\<forall>y. y \<noteq> ?x \<longrightarrow> kc_ext c2 ! y = kc_ext c1 ! y"
    by blast
  have p2: "?x < length (kc_pos c2)" "kc_pos c2 ! ?x \<noteq> -1" "kc_seq c2 ! ?x = {}" using x u(1) se by (simp_all add: c2(3,4) c1(3,4))
  obtain c3 where c3: "fold_r (\<lambda>q. kv_cells_seq_add ?x q) (tok_owners ub ?i) c2 = Inr c3" "kv_cells_inv c3" "kc_pos c3 = kc_pos c2"
      "kc_seq c3 = (kc_seq c2)[?x := nat ` set (tok_owners ub ?i)]" "kc_shift c3 = kc_shift c2" "kc_ext c3 = kc_ext c2" "kc_has_shift c3 = kc_has_shift c2"
    using seq_adds [OF c2(2) p2(1,2) u(4,5)] p2(3) by auto
  have q: "quiet (set_cells s c2 kv)" "s < length (kv_cells (set_cells s c2 kv))" using kv s(2) by simp_all
  have "map ((!) (ub_seq_id ub ! ?i)) [0..<nat (ub_n_seq_id ub ! ?i)] = tok_owners ub ?i"
    using take_as_map [OF u(3)] by (simp add: tok_owners_def)
  then have fo: "fold_r (apply_owner ub s ?x ?i) [0..<nat (ub_n_seq_id ub ! ?i)] (set_cells s c2 kv) = Inr (set_cells s c3 kv)"
    unfolding apply_owners_quiet [OF q] using s(2) c3(1) by simp
  have "apply_recycle s ?x kv = Inr kv" using kv by (auto simp: apply_recycle_def quiet_def split: option.splits)
  moreover have "apply_evict ?x ?c lost = Inr (?c, lost)" using x by (simp add: apply_evict_def kv_cells_is_empty_def)
  ultimately have "apply_token si ub n j k (kv, lost) = Inr (set_cells s c3 kv, lost)"
    using k s(1,2) c1(1) c2(1) fo by (simp add: apply_token_def Let_def)
  moreover have "kc_pos c3 = (kc_pos ?c)[?x := ub_pos ub ! ?i]" "kc_seq c3 = (kc_seq ?c)[?x := nat ` set (tok_owners ub ?i)]"
    using c3(3,4) c2(3,4) c1(3,4) by simp_all
  moreover have "nat ` set (tok_owners ub ?i) \<noteq> {}" using u(2,3) by (auto simp: tok_owners_def)
  ultimately show ?thesis
    using cells_ok_update [OF ok c3(2) x(1)] c3(5-7) c2(5-7) c1(5-7) by (auto simp: tok_content_def)
qed

section \<open>The slot found, and what a placement does\<close>

definition unified :: "llama_kv_cache \<Rightarrow> bool" where
  "unified kv \<longleftrightarrow> kv_wf kv \<and> kv_n_stream kv = 1 \<and> kv_group_size kv \<le> 1 \<and> swa_defined kv"

lemma unifiedD:
  assumes "unified kv"
  shows "kv_wf kv" "kv_n_stream kv = 1" "kv_group_size kv \<le> 1" "swa_defined kv" "length (kv_cells kv) = 1" "length (kv_heads kv) = 1"
    "cells_ok (kv_cells kv ! 0)" "length (kc_pos (kv_cells kv ! 0)) = kv_cap kv" "kv_other kv = None"
  using assms kv_wf_parts(1-4) [of kv] kv_wf_parts(7,8) [of kv 0] by (simp_all add: unified_def)

text \<open>The sequence ids a micro-batch names are those of the cache.\<close>

definition names_seq :: "llama_ubatch \<Rightarrow> bool" where
  "names_seq ub \<longleftrightarrow> ub_seq_id_unq ub \<noteq> [] \<and> hd (ub_seq_id_unq ub) < LLAMA_MAX_SEQ"

definition the_slot :: "nat list \<Rightarrow> slot_info" where
  "the_slot xs = \<lparr>si_s0 = 0, si_s1 = 0, si_strm = [0], si_idxs = [xs]\<rparr>"

lemma find_slot_unified:
  assumes kv: "unified kv" and ub: "names_seq ub" "0 < ub_n_tokens ub"
  shows "\<exists>si. find_slot kv ub False = Inr si \<and>
    (if ub_n_tokens ub \<le> card (usable_cells kv 0)
     then \<exists>xs. si = the_slot xs \<and> length xs = ub_n_tokens ub \<and> distinct xs \<and> set xs \<subseteq> usable_cells kv 0
     else si = slot_none)"
proof -
  note u = unifiedD [OF kv]
  let ?s = "int (ub_seq_id_unq ub ! 0)" and ?n = "ub_n_tokens ub"
  have st: "kv_seq_to_stream kv = replicate LLAMA_MAX_SEQ 0" using kv_wf_parts(12) [OF u(1,2)] .
  have h: "ub_seq_id_unq ub ! 0 < LLAMA_MAX_SEQ" "ub_seq_id_unq ub \<noteq> []" using ub(1) by (auto simp: names_seq_def hd_conv_nth)
  have ks: "known_seq kv ?s" and si: "stream_idx kv ?s = 0" using h by (simp_all add: known_seq_def stream_idx_def st)
  obtain hd where sl: "stream_slot kv ub False ?n ?s =
      Inr (0, first_cells ?n (filter (cell_usable kv (kv_cells kv ! 0)) (cyclic (kv_cap kv) hd (kv_cap kv))))"
    using stream_slot_eq [OF u(1) ks u(3,4) ub(2)] unfolding si by blast
  let ?r = "first_cells ?n (filter (cell_usable kv (kv_cells kv ! 0)) (cyclic (kv_cap kv) hd (kv_cap kv)))"
  have f: "find_slot kv ub False = Inr (case ?r of None \<Rightarrow> slot_none | Some xs \<Rightarrow> the_slot xs)"
    using u(2,3) h(2) sl by (simp add: find_slot_def the_slot_def split: option.split)
  show ?thesis
    using first_cells_usable [OF ub(2), of kv 0 hd] unfolding f by (cases ?r) auto
qed

lemma place_tokens:
  assumes kv: "quiet kv" "kv_cells kv \<noteq> []" and ub: "ubatch_ok ub" and ok: "cells_ok (kv_cells kv ! 0)"
    and xs: "length xs = ub_n_tokens ub" "distinct xs" "\<And>x. x \<in> set xs \<Longrightarrow> empty_cell (kv_cells kv ! 0) x" and m: "m \<le> length xs"
  shows "\<exists>c. fold_r (apply_token (the_slot xs) ub (length xs) 0) [0..<m] (kv, lost) = Inr (set_cells 0 c kv, lost) \<and> cells_ok c \<and>
    (\<forall>k < m. kv_cells_list c ! (xs ! k) = tok_content ub k) \<and>
    (\<forall>x. x \<notin> set (take m xs) \<longrightarrow> kv_cells_list c ! x = kv_cells_list (kv_cells kv ! 0) ! x \<and> kc_ext c ! x = kc_ext (kv_cells kv ! 0) ! x) \<and>
    kc_shift c = kc_shift (kv_cells kv ! 0) \<and> kc_has_shift c = kc_has_shift (kv_cells kv ! 0) \<and>
    length (kc_pos c) = length (kc_pos (kv_cells kv ! 0))"
  using m
proof (induction m)
  case 0
  then show ?case using ok by (intro exI [of _ "kv_cells kv ! 0"]) simp
next
  case (Suc m)
  let ?c = "kv_cells kv ! 0" and ?kv = "\<lambda>c. set_cells 0 c kv"
  obtain c where c: "fold_r (apply_token (the_slot xs) ub (length xs) 0) [0..<m] (kv, lost) = Inr (?kv c, lost)" "cells_ok c"
      "\<forall>k < m. kv_cells_list c ! (xs ! k) = tok_content ub k"
      "\<forall>x. x \<notin> set (take m xs) \<longrightarrow> kv_cells_list c ! x = kv_cells_list ?c ! x \<and> kc_ext c ! x = kc_ext ?c ! x"
      "kc_shift c = kc_shift ?c" "kc_has_shift c = kc_has_shift ?c" "length (kc_pos c) = length (kc_pos ?c)"
    using Suc by auto
  have l: "0 < length (kv_cells kv)" using kv(2) by simp
  have m: "m < length xs" using Suc.prems by simp
  have nm: "xs ! m \<notin> set (take m xs)" using xs(2) m by (auto simp: in_set_conv_nth nth_eq_iff_index_eq)
  have ex: "empty_cell ?c (xs ! m)" using xs(3) m by simp
  then have "kv_cells_list c ! (xs ! m) = kv_cells_list ?c ! (xs ! m)" "xs ! m < length (kc_pos c)"
    using c(4) nm c(7) by (auto simp: empty_cell_def)
  then have e: "empty_cell c (xs ! m)" using ex cells_okD(4) [OF c(2)] cells_okD(4) [OF ok] c(7) by (simp add: empty_cell_def)
  obtain c' where c': "apply_token (the_slot xs) ub (length xs) 0 m (?kv c, lost) = Inr (?kv c', lost)" "cells_ok c'"
      "kv_cells_list c' = (kv_cells_list c)[xs ! m := tok_content ub m]" "kc_shift c' = kc_shift c" "kc_has_shift c' = kc_has_shift c"
      "length (kc_pos c') = length (kc_pos c)" "\<forall>x. x \<noteq> xs ! m \<longrightarrow> kc_ext c' ! x = kc_ext c ! x"
    using apply_token_quiet [of "?kv c" ub "the_slot xs" 0 0 m "length xs" lost] kv(1) ub l m xs(1) c(2) e by (auto simp: the_slot_def)
  have lx: "xs ! m < length (kv_cells_list c)" using e cells_okD(2) [OF c(2)] by (simp add: empty_cell_def)
  have ne: "xs ! m \<noteq> xs ! k" if "k < m" for k using that xs(2) m by (simp add: nth_eq_iff_index_eq)
  have "fold_r (apply_token (the_slot xs) ub (length xs) 0) [0..<Suc m] (kv, lost) = Inr (?kv c', lost)"
    using c(1) c'(1) by (simp add: fold_r_append)
  moreover have "\<forall>k < Suc m. kv_cells_list c' ! (xs ! k) = tok_content ub k"
    using c(3) lx ne unfolding c'(3) by (auto simp: less_Suc_eq)
  moreover have "\<forall>x. x \<notin> set (take (Suc m) xs) \<longrightarrow> kv_cells_list c' ! x = kv_cells_list ?c ! x \<and> kc_ext c' ! x = kc_ext ?c ! x"
    using c(4) c'(7) unfolding c'(3) by (simp add: take_Suc_conv_app_nth [OF m])
  ultimately show ?case using c(5-7) c'(2,4-6) by (intro exI [of _ c']) simp
qed

lemma purge_none: "fold_r (purge_seq (\<lambda>_. -1)) ss kv = Inr kv"
  by (induction ss) (simp_all add: purge_seq_def)

lemma set_cells_wf:
  assumes "unified kv" and "cells_ok c" and "length (kc_pos c) = kv_cap kv" and "h \<le> kv_cap kv"
  shows "unified ((set_cells 0 c kv)\<lparr>kv_heads := [h]\<rparr>)" and "kv_cap ((set_cells 0 c kv)\<lparr>kv_heads := [h]\<rparr>) = kv_cap kv"
proof -
  note u = unifiedD [OF assms(1)]
  have l: "0 < length (kv_cells kv)" using u(5) by simp
  show cap: "kv_cap ((set_cells 0 c kv)\<lparr>kv_heads := [h]\<rparr>) = kv_cap kv" using assms(3) l by (simp add: kv_cap_def set_cells_def)
  have "kv_cells ((set_cells 0 c kv)\<lparr>kv_heads := [h]\<rparr>) ! 0 = c" using l by (simp add: set_cells_def)
  then show "unified ((set_cells 0 c kv)\<lparr>kv_heads := [h]\<rparr>)"
    using assms cap unfolding unified_def kv_wf_def swa_defined_def by (simp add: set_cells_def)
qed

lemma apply_ubatch_unified:
  assumes kv: "unified kv" "quiet kv" and ub: "ubatch_ok ub"
    and xs: "length xs = ub_n_tokens ub" "distinct xs" "set xs \<subseteq> {x. empty_cell (kv_cells kv ! 0) x}"
  shows "\<exists>c. apply_ubatch (the_slot xs) ub kv = Inr ((set_cells 0 c kv)\<lparr>kv_heads := [last xs + 1]\<rparr>) \<and> cells_ok c \<and>
    (\<forall>k < length xs. kv_cells_list c ! (xs ! k) = tok_content ub k) \<and>
    (\<forall>x. x \<notin> set xs \<longrightarrow> kv_cells_list c ! x = kv_cells_list (kv_cells kv ! 0) ! x \<and> kc_ext c ! x = kc_ext (kv_cells kv ! 0) ! x) \<and>
    kc_shift c = kc_shift (kv_cells kv ! 0) \<and> kc_has_shift c = kc_has_shift (kv_cells kv ! 0) \<and> length (kc_pos c) = kv_cap kv \<and>
    last xs + 1 \<le> kv_cap kv"
proof -
  note u = unifiedD [OF kv(1)]
  have ne: "kv_cells kv \<noteq> []" using u(5) by auto
  have e: "empty_cell (kv_cells kv ! 0) x" if "x \<in> set xs" for x using that xs(3) by auto
  obtain c where c: "fold_r (apply_token (the_slot xs) ub (length xs) 0) [0..<length xs] (kv, \<lambda>_. -1) = Inr (set_cells 0 c kv, \<lambda>_. -1)" "cells_ok c"
      "\<forall>k < length xs. kv_cells_list c ! (xs ! k) = tok_content ub k"
      "\<forall>x. x \<notin> set (take (length xs) xs) \<longrightarrow> kv_cells_list c ! x = kv_cells_list (kv_cells kv ! 0) ! x \<and> kc_ext c ! x = kc_ext (kv_cells kv ! 0) ! x"
      "kc_shift c = kc_shift (kv_cells kv ! 0)" "kc_has_shift c = kc_has_shift (kv_cells kv ! 0)" "length (kc_pos c) = length (kc_pos (kv_cells kv ! 0))"
    using place_tokens [OF kv(2) ne ub u(7) xs(1,2) e order_refl] by blast
  have n: "slot_size (the_slot xs) = Inr (length xs)" by (simp add: slot_size_def the_slot_def)
  have b: "begin_tail_batch ub kv = Inr kv" using kv(2) by (simp add: begin_tail_batch_def quiet_def)
  have f: "finish_write_slots ub (set_cells 0 c kv) = Inr (set_cells 0 c kv)" using kv(2) by (simp add: finish_write_slots_def quiet_def set_cells_def)
  have h: "kv_heads kv = [kv_heads kv ! 0]" using u(6) by (metis length_0_conv length_Suc_conv nth_Cons_0 One_nat_def)
  have hs: "(kv_heads (set_cells 0 c kv))[0 := last xs + 1] = [last xs + 1]" by (subst set_cells_def) (simp, subst h, simp)
  have "xs \<noteq> []" using ub xs(1) by (auto simp: ubatch_ok_def)
  then have "empty_cell (kv_cells kv ! 0) (last xs)" using e by simp
  then have "last xs + 1 \<le> kv_cap kv" using u(8) by (simp add: empty_cell_def)
  moreover have "apply_ubatch (the_slot xs) ub kv = Inr ((set_cells 0 c kv)\<lparr>kv_heads := [last xs + 1]\<rparr>)"
    using u(9) n b f c(1) xs(1) hs by (simp add: apply_ubatch_def purge_none the_slot_def)
  ultimately show ?thesis using c(2-7) u(8) by (intro exI [of _ c]) simp
qed

section \<open>Undoing a placement\<close>

lemma set_cell_has_shift:
  assumes "kv_cells_set_cell other i j c = Inr c'"
  shows "kc_has_shift c' = kc_has_shift c"
proof -
  have r: "kc_has_shift d' = kc_has_shift d" if "seq_pos_rm i d = Inr d'" for d d'
    by (rule fold_r_keeps [OF that [unfolded seq_pos_rm_def]]) (auto simp: seq_pos_dec_def split: if_splits option.splits)
  have a: "kc_has_shift (seq_pos_add i d) = kc_has_shift d" for d
  proof -
    have "kc_has_shift (fold (\<lambda>s c. if s \<in> kc_seq c ! i then seq_pos_inc s (kc_pos c ! i) c else c) ss d) = kc_has_shift d" for ss
      by (induction ss arbitrary: d) (simp_all add: seq_pos_inc_def)
    then show ?thesis unfolding seq_pos_add_def .
  qed
  show ?thesis using assms by (auto simp: kv_cells_set_cell_def Let_def a dest!: r split: if_splits)
qed

lemma set_idxs_prefix:
  assumes inv: "kv_cells_inv c" and len: "length idxs = length (kc_pos other)" and ok: "saved_cells_ok other" and d: "distinct idxs"
    and ix: "\<And>x. x \<in> set idxs \<Longrightarrow> x < length (kc_pos c) \<and> kc_shift c ! x = 0" and m: "m \<le> length idxs"
  shows "\<exists>c'. fold_r (\<lambda>j c. if idxs ! j \<ge> length (kc_pos c) then Inl Undefined else kv_cells_set_cell other (idxs ! j) j c) [0..<m] c = Inr c' \<and>
    kv_cells_inv c' \<and> length (kc_pos c') = length (kc_pos c) \<and> kc_shift c' = kc_shift c \<and> kc_has_shift c' = kc_has_shift c \<and>
    (\<forall>j < m. kc_pos c' ! (idxs ! j) = kc_pos other ! j \<and> kc_seq c' ! (idxs ! j) = kc_seq other ! j \<and> kc_ext c' ! (idxs ! j) = kc_ext other ! j) \<and>
    (\<forall>x. x \<notin> set (take m idxs) \<longrightarrow> kc_pos c' ! x = kc_pos c ! x \<and> kc_seq c' ! x = kc_seq c ! x \<and> kc_ext c' ! x = kc_ext c ! x)"
  using m
proof (induction m)
  case 0
  then show ?case using inv by simp
next
  case (Suc m)
  let ?f = "\<lambda>j c. if idxs ! j \<ge> length (kc_pos c) then Inl Undefined else kv_cells_set_cell other (idxs ! j) j c"
  obtain c1 where c1: "fold_r ?f [0..<m] c = Inr c1" "kv_cells_inv c1" "length (kc_pos c1) = length (kc_pos c)" "kc_shift c1 = kc_shift c"
      "kc_has_shift c1 = kc_has_shift c"
      "\<forall>j < m. kc_pos c1 ! (idxs ! j) = kc_pos other ! j \<and> kc_seq c1 ! (idxs ! j) = kc_seq other ! j \<and> kc_ext c1 ! (idxs ! j) = kc_ext other ! j"
      "\<forall>x. x \<notin> set (take m idxs) \<longrightarrow> kc_pos c1 ! x = kc_pos c ! x \<and> kc_seq c1 ! x = kc_seq c ! x \<and> kc_ext c1 ! x = kc_ext c ! x"
    using Suc by auto
  have m: "m < length idxs" "m < length (kc_pos other)" "idxs ! m < length (kc_pos c1)" "kc_shift c1 ! (idxs ! m) = 0"
    using Suc.prems len ix c1(3,4) by simp_all
  obtain c2 where c2: "kv_cells_set_cell other (idxs ! m) m c1 = Inr c2" "kv_cells_inv c2"
      "kc_pos c2 = (kc_pos c1)[idxs ! m := kc_pos other ! m]" "kc_seq c2 = (kc_seq c1)[idxs ! m := kc_seq other ! m]"
      "kc_ext c2 = (kc_ext c1)[idxs ! m := kc_ext other ! m]" "kc_shift c2 = kc_shift c1"
    using kv_cells_set_cell_inv [OF c1(2) m(3) ok m(2,4)] by blast
  note dd = kv_cells_invD(1,2) [OF c1(2)]
  have ne: "idxs ! m \<noteq> idxs ! j" if "j < m" for j using that d m(1) by (simp add: nth_eq_iff_index_eq)
  have "fold_r ?f [0..<Suc m] c = Inr c2" using c1(1) c2(1) m(3) by (simp add: fold_r_append)
  moreover have "\<forall>j < Suc m. kc_pos c2 ! (idxs ! j) = kc_pos other ! j \<and> kc_seq c2 ! (idxs ! j) = kc_seq other ! j \<and> kc_ext c2 ! (idxs ! j) = kc_ext other ! j"
    using c1(6) m(3) dd ne unfolding c2(3-5) by (auto simp: less_Suc_eq)
  moreover have "\<forall>x. x \<notin> set (take (Suc m) idxs) \<longrightarrow> kc_pos c2 ! x = kc_pos c ! x \<and> kc_seq c2 ! x = kc_seq c ! x \<and> kc_ext c2 ! x = kc_ext c ! x"
    using c1(7) unfolding c2(3-5) by (simp add: take_Suc_conv_app_nth [OF m(1)])
  ultimately show ?case using c1(3-5) c2(2,3,6) set_cell_has_shift [OF c2(1)] by (intro exI [of _ c2]) simp
qed

text \<open>Two objects that agree in everything the cells can observe. The per-sequence index is a function on
  all numbers and counts below \<open>LLAMA_MAX_SEQ\<close> only.\<close>

definition same_cells :: "llama_kv_cells \<Rightarrow> llama_kv_cells \<Rightarrow> bool" where
  "same_cells c c' \<longleftrightarrow> kc_has_shift c = kc_has_shift c' \<and> kc_used c = kc_used c' \<and> kc_pos c = kc_pos c' \<and> kc_ext c = kc_ext c' \<and>
     kc_shift c = kc_shift c' \<and> kc_seq c = kc_seq c' \<and>
     (\<forall>s < LLAMA_MAX_SEQ. kc_seq_pos c s = kc_seq_pos c' s \<and> kc_seq_used c s = kc_seq_used c' s)"

lemma same_cellsI:
  assumes "kv_cells_inv c" and "kv_cells_inv c'" and "kc_pos c = kc_pos c'" and "kc_seq c = kc_seq c'" and "kc_ext c = kc_ext c'"
    and "kc_shift c = kc_shift c'" and "kc_has_shift c = kc_has_shift c'"
  shows "same_cells c c'"
proof -
  have l: "kv_cells_list c = kv_cells_list c'" using assms(3,4) by (simp add: kv_cells_list_def)
  have "kc_used c = kc_used c'" using kv_cells_invD(7) [OF assms(1)] kv_cells_invD(7) [OF assms(2)] assms(3) by simp
  moreover have "kc_seq_pos c s = kc_seq_pos c' s \<and> kc_seq_used c s = kc_seq_used c' s" if "s < LLAMA_MAX_SEQ" for s
    using kv_cells_invD(8) [OF assms(1)] kv_cells_invD(8) [OF assms(2)] that unfolding l by (simp add: index_ok_def fun_eq_iff)
  ultimately show ?thesis using assms by (simp add: same_cells_def)
qed

lemma undo_cells:
  assumes c: "kv_cells_inv c" and c': "kv_cells_inv c'" and d: "distinct idxs"
    and ix: "\<And>x. x \<in> set idxs \<Longrightarrow> x < length (kc_pos c) \<and> kc_shift c ! x = 0"
    and eq: "length (kc_pos c') = length (kc_pos c)" "kc_shift c' = kc_shift c" "kc_has_shift c' = kc_has_shift c"
    and out: "\<And>x. x < length (kc_pos c) \<Longrightarrow> x \<notin> set idxs \<Longrightarrow> kc_pos c' ! x = kc_pos c ! x \<and> kc_seq c' ! x = kc_seq c ! x \<and> kc_ext c' ! x = kc_ext c ! x"
    and saved: "kv_cells_cp_idxs c idxs = Inr r"
  shows "\<exists>c''. kv_cells_set_idxs c' idxs r = Inr c'' \<and> kv_cells_inv c'' \<and> same_cells c'' c"
proof -
  note i = kv_cells_invD [OF c]
  have r: "kc_pos r = map (\<lambda>x. kc_pos c ! x) idxs" "kc_ext r = map (\<lambda>x. kc_ext c ! x) idxs" "kc_seq r = map (\<lambda>x. kc_seq c ! x) idxs"
    using kv_cells_cp_idxs_eq [of idxs c] ix saved by force+
  have ok: "saved_cells_ok r" using ix i unfolding saved_cells_ok_def r by simp
  have len: "length idxs = length (kc_pos r)" using r(1) by simp
  obtain c'' where c'': "fold_r (\<lambda>j c. if idxs ! j \<ge> length (kc_pos c) then Inl Undefined else kv_cells_set_cell r (idxs ! j) j c) [0..<length idxs] c' = Inr c''"
      "kv_cells_inv c''" "length (kc_pos c'') = length (kc_pos c')" "kc_shift c'' = kc_shift c'" "kc_has_shift c'' = kc_has_shift c'"
      "\<forall>j < length idxs. kc_pos c'' ! (idxs ! j) = kc_pos r ! j \<and> kc_seq c'' ! (idxs ! j) = kc_seq r ! j \<and> kc_ext c'' ! (idxs ! j) = kc_ext r ! j"
      "\<forall>x. x \<notin> set (take (length idxs) idxs) \<longrightarrow> kc_pos c'' ! x = kc_pos c' ! x \<and> kc_seq c'' ! x = kc_seq c' ! x \<and> kc_ext c'' ! x = kc_ext c' ! x"
    using set_idxs_prefix [OF c' len ok d _ order_refl] ix eq(1,2) by auto
  have at: "kc_pos c'' ! x = kc_pos c ! x \<and> kc_seq c'' ! x = kc_seq c ! x \<and> kc_ext c'' ! x = kc_ext c ! x" if x: "x < length (kc_pos c)" for x
  proof (cases "x \<in> set idxs")
    case True
    then obtain j where j: "j < length idxs" "x = idxs ! j" by (auto simp: in_set_conv_nth)
    then show ?thesis using c''(6) unfolding r by simp
  qed (use c''(7) out [OF x] in simp)
  note i'' = kv_cells_invD [OF c''(2)]
  have l: "length (kc_pos c'') = length (kc_pos c)" using c''(3) eq(1) by simp
  have "kc_pos c'' = kc_pos c" "kc_seq c'' = kc_seq c" "kc_ext c'' = kc_ext c"
    by (rule nth_equalityI; use l i(1,2) i''(1,2) at in simp)+
  then have "same_cells c'' c" using c''(2,4,5) c eq(2,3) by (intro same_cellsI) simp_all
  then show ?thesis using c''(1,2) len by (auto simp: kv_cells_set_idxs_def)
qed

section \<open>Rehearsing a batch\<close>

text \<open>The cache before and after: the same cells, and every other field equal.\<close>

definition same_kv :: "llama_kv_cache \<Rightarrow> llama_kv_cache \<Rightarrow> bool" where
  "same_kv kv kv' \<longleftrightarrow> list_all2 same_cells (kv_cells kv) (kv_cells kv') \<and> kv\<lparr>kv_cells := []\<rparr> = kv'\<lparr>kv_cells := []\<rparr>"

text \<open>What the rehearsal starts from: an ordinary cache without a window, in rehearsal mode, with no shift
  pending.\<close>

definition rehearsing :: "llama_kv_cache \<Rightarrow> bool" where
  "rehearsing kv \<longleftrightarrow> unified kv \<and> kv_preparing kv \<and> kv_swa_type kv = LLAMA_SWA_TYPE_NONE \<and>
     (\<forall>x < kv_cap kv. kc_shift (kv_cells kv ! 0) ! x = 0)"

definition free_cells :: "llama_kv_cache \<Rightarrow> nat set" where
  "free_cells kv = {x. empty_cell (kv_cells kv ! 0) x}"

lemma usable_free:
  assumes "unified kv" and "kv_swa_type kv = LLAMA_SWA_TYPE_NONE"
  shows "usable_cells kv 0 = free_cells kv"
  using unifiedD(8) [OF assms(1)] assms(2)
  by (auto simp: usable_cells_def free_cells_def empty_cell_def cell_usable_def is_masked_swa_def Let_def)

lemma rehearse_one:
  assumes kv: "rehearsing kv" and ub: "ubatch_ok ub" "names_seq ub" and fit: "ub_n_tokens ub \<le> card (free_cells kv)"
  shows "\<exists>xs c r. find_slot kv ub False = Inr (the_slot xs) \<and> length xs = ub_n_tokens ub \<and> distinct xs \<and> set xs \<subseteq> free_cells kv \<and>
    kv_cells_cp_idxs (kv_cells kv ! 0) xs = Inr r \<and>
    apply_ubatch (the_slot xs) ub kv = Inr ((set_cells 0 c kv)\<lparr>kv_heads := [last xs + 1]\<rparr>) \<and> cells_ok c \<and>
    rehearsing ((set_cells 0 c kv)\<lparr>kv_heads := [last xs + 1]\<rparr>) \<and>
    free_cells ((set_cells 0 c kv)\<lparr>kv_heads := [last xs + 1]\<rparr>) = free_cells kv - set xs \<and>
    (\<forall>c'. kv_cells_inv c' \<and> same_cells c' c \<longrightarrow> (\<exists>c''. kv_cells_set_idxs c' xs r = Inr c'' \<and> kv_cells_inv c'' \<and> same_cells c'' (kv_cells kv ! 0)))"
proof -
  have u: "unified kv" and q: "quiet kv" and n: "kv_swa_type kv = LLAMA_SWA_TYPE_NONE" and sh: "\<forall>x < kv_cap kv. kc_shift (kv_cells kv ! 0) ! x = 0"
    using kv unifiedD(3) [of kv] by (auto simp: rehearsing_def quiet_def)
  note uf = unifiedD [OF u] and fr = usable_free [OF u n]
  have n0: "0 < ub_n_tokens ub" using ub(1) by (simp add: ubatch_ok_def)
  obtain xs where xs: "find_slot kv ub False = Inr (the_slot xs)" "length xs = ub_n_tokens ub" "distinct xs" "set xs \<subseteq> free_cells kv"
    using find_slot_unified [OF u ub(2) n0] fit unfolding fr by auto
  have xe: "set xs \<subseteq> {x. empty_cell (kv_cells kv ! 0) x}" using xs(4) by (simp add: free_cells_def)
  obtain c where c: "apply_ubatch (the_slot xs) ub kv = Inr ((set_cells 0 c kv)\<lparr>kv_heads := [last xs + 1]\<rparr>)" "cells_ok c"
      "\<forall>k < length xs. kv_cells_list c ! (xs ! k) = tok_content ub k"
      "\<forall>x. x \<notin> set xs \<longrightarrow> kv_cells_list c ! x = kv_cells_list (kv_cells kv ! 0) ! x \<and> kc_ext c ! x = kc_ext (kv_cells kv ! 0) ! x"
      "kc_shift c = kc_shift (kv_cells kv ! 0)" "kc_has_shift c = kc_has_shift (kv_cells kv ! 0)" "length (kc_pos c) = kv_cap kv" "last xs + 1 \<le> kv_cap kv"
    using apply_ubatch_unified [OF u q ub(1) xs(2,3) xe] by blast
  let ?kv = "(set_cells 0 c kv)\<lparr>kv_heads := [last xs + 1]\<rparr>" and ?c = "kv_cells kv ! 0"
  have xl: "x < length (kc_pos ?c) \<and> kc_shift ?c ! x = 0" if "x \<in> set xs" for x using xe that sh uf(8) by (auto simp: empty_cell_def)
  obtain r where r: "kv_cells_cp_idxs ?c xs = Inr r" using kv_cells_cp_idxs_eq [of xs ?c] xl by auto
  have k0: "kv_cells ?kv ! 0 = c" using uf(5) by (simp add: set_cells_def)
  have reh: "rehearsing ?kv"
    using set_cells_wf [OF u c(2,7,8)] kv sh c(5) k0 unfolding rehearsing_def by (simp add: set_cells_def)
  have at: "kc_pos c ! x = kc_pos ?c ! x \<and> kc_seq c ! x = kc_seq ?c ! x \<and> kc_ext c ! x = kc_ext ?c ! x" if "x < length (kc_pos ?c)" "x \<notin> set xs" for x
    using c(4) that cells_okD(4) [OF c(2), of x] cells_okD(4) [OF uf(7), of x] c(7) uf(8) by simp
  have occ: "kc_pos c ! x \<noteq> -1" if mem: "x \<in> set xs" for x
  proof -
    obtain k where k: "k < length xs" "x = xs ! k" using mem by (auto simp: in_set_conv_nth)
    then have "kv_cells_list c ! x = tok_content ub k" "0 \<le> ub_pos ub ! k" using c(3) ub(1) xs(2) by (auto simp: ubatch_ok_def)
    then show ?thesis using cells_okD(4) [OF c(2), of x] xl [OF mem] c(7) uf(8) by (simp add: tok_content_def)
  qed
  have "free_cells ?kv = free_cells kv - set xs"
  proof (rule set_eqI)
    fix x show "x \<in> free_cells ?kv \<longleftrightarrow> x \<in> free_cells kv - set xs"
      using at [of x] occ [of x] c(7) uf(8) unfolding free_cells_def empty_cell_def k0 by (cases "x \<in> set xs") auto
  qed
  moreover have "\<exists>c''. kv_cells_set_idxs c' xs r = Inr c'' \<and> kv_cells_inv c'' \<and> same_cells c'' ?c" if "kv_cells_inv c'" "same_cells c' c" for c'
    by (rule undo_cells [OF cells_okD(1) [OF uf(7)] that(1) xs(3) xl _ _ _ _ r])
       (use that(2) at c(5-7) uf(8) in \<open>auto simp: same_cells_def\<close>)
  ultimately show ?thesis using xs c(1,2) r reh by blast
qed

text \<open>The whole rehearsal: the micro-batches are placed one after the other while they fit, and the recovery
  stack, taken from its end, gives the cache back.\<close>

definition total_tokens :: "llama_ubatch list \<Rightarrow> nat" where
  "total_tokens ubs = sum_list (map ub_n_tokens ubs)"

text \<open>The states on top of the stack lead from cells like those of \<open>b\<close> to those of \<open>a\<close>.\<close>

definition undoes :: "prepare_state list \<Rightarrow> llama_kv_cache \<Rightarrow> llama_kv_cache \<Rightarrow> bool" where
  "undoes sts a b \<longleftrightarrow> (\<forall>c p. kv_cells_inv c \<and> same_cells c (kv_cells b ! 0) \<longrightarrow>
     (\<exists>c'. fold_r restore_state (rev sts) ((set_cells 0 c b)\<lparr>kv_preparing := p\<rparr>) = Inr ((set_cells 0 c' a)\<lparr>kv_preparing := p\<rparr>) \<and>
       kv_cells_inv c' \<and> same_cells c' (kv_cells a ! 0)))"

lemma undoes_Nil: "undoes [] a a"
  by (auto simp: undoes_def)

lemma undoes_step:
  assumes a: "unified a" and b: "b = (set_cells 0 c a)\<lparr>kv_heads := [h]\<rparr>"
    and restores: "\<And>c'. kv_cells_inv c' \<Longrightarrow> same_cells c' c \<Longrightarrow> \<exists>c''. kv_cells_set_idxs c' xs r = Inr c'' \<and> kv_cells_inv c'' \<and> same_cells c'' (kv_cells a ! 0)"
    and "undoes sts b d"
  shows "undoes (\<lparr>ps_sinfo = the_slot xs, ps_heads_old = kv_heads a, ps_cells = [r]\<rparr> # sts) a d"
  unfolding undoes_def
proof (intro allI impI)
  fix e p assume e: "kv_cells_inv e \<and> same_cells e (kv_cells d ! 0)"
  note u = unifiedD [OF a]
  have b0: "kv_cells b ! 0 = c" using u(5) by (simp add: b set_cells_def)
  obtain c' where c': "fold_r restore_state (rev sts) ((set_cells 0 e d)\<lparr>kv_preparing := p\<rparr>) = Inr ((set_cells 0 c' b)\<lparr>kv_preparing := p\<rparr>)"
      "kv_cells_inv c'" "same_cells c' c"
    using assms(4) e unfolding undoes_def b0 by blast
  obtain c'' where c'': "kv_cells_set_idxs c' xs r = Inr c''" "kv_cells_inv c''" "same_cells c'' (kv_cells a ! 0)"
    using restores [OF c'(2,3)] by blast
  have h: "[kv_heads a ! 0] = kv_heads a" using u(6) by (metis length_0_conv length_Suc_conv nth_Cons_0 One_nat_def)
  have "restore_state \<lparr>ps_sinfo = the_slot xs, ps_heads_old = kv_heads a, ps_cells = [r]\<rparr> ((set_cells 0 c' b)\<lparr>kv_preparing := p\<rparr>) =
      Inr ((set_cells 0 c'' a)\<lparr>kv_preparing := p\<rparr>)"
    using c''(1) u(5,6) h by (simp add: restore_state_def restore_stream_def the_slot_def b set_cells_def)
  then show "\<exists>c'. fold_r restore_state (rev (\<lparr>ps_sinfo = the_slot xs, ps_heads_old = kv_heads a, ps_cells = [r]\<rparr> # sts)) ((set_cells 0 e d)\<lparr>kv_preparing := p\<rparr>) =
      Inr ((set_cells 0 c' a)\<lparr>kv_preparing := p\<rparr>) \<and> kv_cells_inv c' \<and> same_cells c' (kv_cells a ! 0)"
    using c'(1) c''(2,3) by (intro exI [of _ c'']) (simp add: fold_r_append)
qed

lemma prepare_loop_ok:
  assumes "rehearsing kv" and "\<forall>ub \<in> set ubs. ubatch_ok ub \<and> names_seq ub"
  shows "\<exists>sis sts kv'. prepare_loop ubs kv res states = Inr (total_tokens ubs \<le> card (free_cells kv), res @ sis, states @ sts, kv') \<and>
    undoes sts kv kv' \<and> rehearsing kv' \<and> length sts = length sis \<and>
    (total_tokens ubs \<le> card (free_cells kv) \<longrightarrow> (\<exists>xss. sis = map the_slot xss \<and> map length xss = map ub_n_tokens ubs \<and>
       distinct (concat xss) \<and> set (concat xss) \<subseteq> free_cells kv))"
  using assms
proof (induction ubs arbitrary: kv res states)
  case Nil
  then show ?case by (intro exI [of _ "[]"] exI [of _ kv]) (simp add: undoes_Nil total_tokens_def)
next
  case (Cons ub ubs)
  have u: "unified kv" and n: "kv_swa_type kv = LLAMA_SWA_TYPE_NONE" using Cons.prems(1) by (simp_all add: rehearsing_def)
  have ub: "ubatch_ok ub" "names_seq ub" using Cons.prems(2) by simp_all
  then have n0: "0 < ub_n_tokens ub" by (simp add: ubatch_ok_def)
  have fin: "finite (free_cells kv)" by (rule finite_subset [of _ "{..<length (kc_pos (kv_cells kv ! 0))}"]) (auto simp: free_cells_def empty_cell_def)
  show ?case
  proof (cases "ub_n_tokens ub \<le> card (free_cells kv)")
    case False
    then have "find_slot kv ub False = Inr slot_none" using find_slot_unified [OF u ub(2) n0] usable_free [OF u n] by auto
    then show ?thesis using False Cons.prems(1)
      by (intro exI [of _ "[]"] exI [of _ kv]) (simp add: slot_none_def undoes_Nil total_tokens_def)
  next
    case True
    obtain xs c r where s: "find_slot kv ub False = Inr (the_slot xs)" "length xs = ub_n_tokens ub" "distinct xs" "set xs \<subseteq> free_cells kv"
        "kv_cells_cp_idxs (kv_cells kv ! 0) xs = Inr r" "apply_ubatch (the_slot xs) ub kv = Inr ((set_cells 0 c kv)\<lparr>kv_heads := [last xs + 1]\<rparr>)"
        "rehearsing ((set_cells 0 c kv)\<lparr>kv_heads := [last xs + 1]\<rparr>)"
        "free_cells ((set_cells 0 c kv)\<lparr>kv_heads := [last xs + 1]\<rparr>) = free_cells kv - set xs"
        "\<And>c'. kv_cells_inv c' \<Longrightarrow> same_cells c' c \<Longrightarrow> \<exists>c''. kv_cells_set_idxs c' xs r = Inr c'' \<and> kv_cells_inv c'' \<and> same_cells c'' (kv_cells kv ! 0)"
      using rehearse_one [OF Cons.prems(1) ub True] by blast
    let ?kv = "(set_cells 0 c kv)\<lparr>kv_heads := [last xs + 1]\<rparr>" and ?st = "\<lparr>ps_sinfo = the_slot xs, ps_heads_old = kv_heads kv, ps_cells = [r]\<rparr>"
    have card: "card (free_cells ?kv) = card (free_cells kv) - ub_n_tokens ub"
      unfolding s(8) using card_Diff_subset [OF finite_set s(4)] distinct_card [OF s(3)] s(2) by simp
    have tot: "total_tokens ubs \<le> card (free_cells ?kv) \<longleftrightarrow> total_tokens (ub # ubs) \<le> card (free_cells kv)"
      unfolding card total_tokens_def using True by auto
    have rest: "\<forall>ub \<in> set ubs. ubatch_ok ub \<and> names_seq ub" using Cons.prems(2) by simp
    obtain sis sts kv' where i: "prepare_loop ubs ?kv (res @ [the_slot xs]) (states @ [?st]) =
          Inr (total_tokens (ub # ubs) \<le> card (free_cells kv), (res @ [the_slot xs]) @ sis, (states @ [?st]) @ sts, kv')"
        "undoes sts ?kv kv'" "rehearsing kv'" "length sts = length sis"
        "total_tokens (ub # ubs) \<le> card (free_cells kv) \<longrightarrow> (\<exists>xss. sis = map the_slot xss \<and> map length xss = map ub_n_tokens ubs \<and>
          distinct (concat xss) \<and> set (concat xss) \<subseteq> free_cells ?kv)"
      using Cons.IH [OF s(7) rest, of "res @ [the_slot xs]" "states @ [?st]", unfolded tot] by blast
    have "prepare_loop (ub # ubs) kv res states = Inr (total_tokens (ub # ubs) \<le> card (free_cells kv), res @ (the_slot xs # sis), states @ (?st # sts), kv')"
      using s(1,5,6) i(1) by (simp add: the_slot_def)
    moreover have "undoes (?st # sts) kv kv'" by (rule undoes_step [OF u refl s(9) i(2)])
    moreover have "\<exists>yss. the_slot xs # sis = map the_slot yss \<and> map length yss = map ub_n_tokens (ub # ubs) \<and>
        distinct (concat yss) \<and> set (concat yss) \<subseteq> free_cells kv" if fit: "total_tokens (ub # ubs) \<le> card (free_cells kv)"
    proof -
      obtain xss where "sis = map the_slot xss" "map length xss = map ub_n_tokens ubs" "distinct (concat xss)" "set (concat xss) \<subseteq> free_cells kv - set xs"
        using i(5) fit unfolding s(8) by blast
      then show ?thesis using s(2-4) by (intro exI [of _ "xs # xss"]) auto
    qed
    ultimately show ?thesis using i(3,4)
      by (intro exI [of _ "the_slot xs # sis"] exI [of _ "?st # sts"] exI [of _ kv']) auto
  qed
qed

lemma prepare_ok:
  assumes kv: "kv_wf kv" "kv_n_stream kv = 1" "kv_group_size kv \<le> 1" "kv_swa_type kv = LLAMA_SWA_TYPE_NONE" "\<not> kv_preparing kv"
    and sh: "\<forall>x < kv_cap kv. kc_shift (kv_cells kv ! 0) ! x = 0"
    and ubs: "ubs \<noteq> []" "\<forall>ub \<in> set ubs. ubatch_ok ub \<and> names_seq ub"
  shows "\<exists>sis kv'. kv_prepare ubs kv = Inr (sis, kv') \<and> same_kv kv' kv \<and>
    (if total_tokens ubs \<le> card (free_cells kv)
     then \<exists>xss. sis = map the_slot xss \<and> map length xss = map ub_n_tokens ubs \<and> distinct (concat xss) \<and> set (concat xss) \<subseteq> free_cells kv
     else sis = [])"
proof -
  let ?kv = "kv\<lparr>kv_preparing := True\<rparr>"
  have fr: "free_cells ?kv = free_cells kv" and cap: "kv_cap ?kv = kv_cap kv" by (simp_all add: free_cells_def kv_cap_def)
  have r: "rehearsing ?kv" using kv sh cap by (simp add: rehearsing_def unified_def swa_defined_def kv_wf_def)
  obtain sis sts b where l: "prepare_loop ubs ?kv [] [] = Inr (total_tokens ubs \<le> card (free_cells kv), sis, sts, b)" "undoes sts ?kv b"
      "rehearsing b" "length sts = length sis"
      "total_tokens ubs \<le> card (free_cells kv) \<longrightarrow> (\<exists>xss. sis = map the_slot xss \<and> map length xss = map ub_n_tokens ubs \<and>
       distinct (concat xss) \<and> set (concat xss) \<subseteq> free_cells kv)"
    using prepare_loop_ok [OF r ubs(2), of "[]" "[]"] unfolding fr by auto
  have ne: "sts \<noteq> []" if fit: "total_tokens ubs \<le> card (free_cells kv)"
  proof -
    obtain xss where "sis = map the_slot xss" "map length xss = map ub_n_tokens ubs" using l(5) fit by blast
    then show ?thesis using l(4) ubs(1) by auto
  qed
  have "kv_cells_inv (kv_cells b ! 0)" "same_cells (kv_cells b ! 0) (kv_cells b ! 0)"
    using unifiedD(7) [of b] cells_okD(1) l(3) by (auto simp: rehearsing_def same_cells_def)
  then obtain c where c: "fold_r restore_state (rev sts) (b\<lparr>kv_preparing := False\<rparr>) = Inr ((set_cells 0 c ?kv)\<lparr>kv_preparing := False\<rparr>)"
      "same_cells c (kv_cells kv ! 0)"
    using l(2) unfolding undoes_def by force
  have "length (kv_cells kv) = 1" using kv_wf_parts(3) [OF kv(1)] kv(2) by simp
  then have "list_all2 same_cells ((kv_cells kv)[0 := c]) (kv_cells kv)" using c(2) by (auto simp: length_Suc_conv)
  then have sm: "same_kv ((set_cells 0 c ?kv)\<lparr>kv_preparing := False\<rparr>) kv"
    using kv(5) by (cases kv) (simp add: same_kv_def set_cells_def)
  show ?thesis
  proof (cases "total_tokens ubs \<le> card (free_cells kv)")
    case True
    then show ?thesis using l(1,5) c(1) sm ne by (auto simp: kv_prepare_def)
  next
    case False
    then show ?thesis using l(1) c(1) sm by (auto simp: kv_prepare_def)
  qed
qed

end
