(* ===== verification/KvSlotProps.thy ===== *)
theory KvSlotProps
  imports KvSlot KvProps
begin

text \<open>
  What the search for a slot, the placement of a micro-batch and the rehearsal of a batch guarantee, as
  statements about the operations of the cache.
\<close>

text \<open>C9: The slot search of a cache with cells of its own, one stream and no allocation groups (llama_kv_cache::find_slot with
  cont = false, as every caller passes it) always ends with an answer, for a micro-batch that has a token and names
  a sequence, and the answer is right: there is a slot exactly when the cache has at least as many usable cells (empty,
  or left behind the attention window by their only sequence) as the micro-batch has tokens, and then the
  slot has one cell per token, no cell twice, and usable cells only, wherever the search starts. A chunked window must have
  a positive size. Not covered: the search by groups of a cache with allocation groups, which also looks at the owners of a
  group and of its stage slot and can refuse although enough cells are empty, and the contiguous search.\<close>

theorem find_slot_complete:
  assumes "kv_wf kv" and "kv_n_stream kv = 1" and "kv_group_size kv \<le> 1" and "swa_defined kv"
    and "names_seq ub" and "0 < ub_n_tokens ub"
  shows "\<exists>si. find_slot kv ub False = Inr si \<and>
    (if ub_n_tokens ub \<le> card (usable_cells kv 0)
     then \<exists>xs. si = the_slot xs \<and> length xs = ub_n_tokens ub \<and> distinct xs \<and> set xs \<subseteq> usable_cells kv 0
     else si = slot_none)"
  by (rule find_slot_unified) (use assms in \<open>simp_all add: unified_def\<close>)

text \<open>C13: Placing a micro-batch in a slot of empty cells (llama_kv_cache::apply_ubatch), in a cache with cells of its own, one
  stream, no allocation groups and no exact tail (a chunked window, if it has one, of positive size), completes when every
  token has a position that is not negative and distinct, valid sequences, at least one: the cell of each token holds its
  position and exactly its sequences, every other cell is as before, no position shift appears, the cache stays
  well-formed and the search head moves behind the last cell of the slot.\<close>

theorem apply_ubatch_places:
  assumes "kv_wf kv" and "kv_n_stream kv = 1" and "kv_group_size kv \<le> 1" and "swa_defined kv" and "kv_tail kv = None"
    and "ubatch_ok ub" and "length xs = ub_n_tokens ub" and "distinct xs" and "set xs \<subseteq> free_cells kv"
  shows "\<exists>kv'. apply_ubatch (the_slot xs) ub kv = Inr kv' \<and> kv_wf kv' \<and> kv_heads kv' = [last xs + 1] \<and>
    (\<forall>k < length xs. kv_view kv' ! 0 ! (xs ! k) = tok_content ub k) \<and>
    (\<forall>x < kv_cap kv. x \<notin> set xs \<longrightarrow> kv_view kv' ! 0 ! x = kv_view kv ! 0 ! x) \<and>
    kc_shift (kv_cells kv' ! 0) = kc_shift (kv_cells kv ! 0)"
proof -
  have u: "unified kv" "quiet kv" using assms(1-5) by (simp_all add: unified_def quiet_def)
  note f = unifiedD [OF u(1)]
  obtain c where c: "apply_ubatch (the_slot xs) ub kv = Inr ((set_cells 0 c kv)\<lparr>kv_heads := [last xs + 1]\<rparr>)" "cells_ok c"
      "\<forall>k < length xs. kv_cells_list c ! (xs ! k) = tok_content ub k"
      "\<forall>x. x \<notin> set xs \<longrightarrow> kv_cells_list c ! x = kv_cells_list (kv_cells kv ! 0) ! x \<and> kc_ext c ! x = kc_ext (kv_cells kv ! 0) ! x"
      "kc_shift c = kc_shift (kv_cells kv ! 0)" "length (kc_pos c) = kv_cap kv" "last xs + 1 \<le> kv_cap kv"
    using apply_ubatch_unified [OF u assms(6-8)] assms(9) unfolding free_cells_def by blast
  let ?kv = "(set_cells 0 c kv)\<lparr>kv_heads := [last xs + 1]\<rparr>"
  have v: "kv_view ?kv ! 0 = kv_cells_list c" "kv_view kv ! 0 = kv_cells_list (kv_cells kv ! 0)" "kv_cells ?kv ! 0 = c"
    using f(5) by (simp_all add: kv_view_def set_cells_def)
  have "kv_wf ?kv" using unifiedD(1) [OF set_cells_wf(1) [OF u(1) c(2,6,7)]] .
  then show ?thesis using c v by (intro exI [of _ ?kv]) simp
qed

text \<open>C3: Rehearsing a batch (llama_kv_cache::prepare) on a cache with cells of its own, one stream, no allocation groups, no
  attention window and no pending position shift, that is not rehearsing already, leaves the cache as it was: the cells
  with all their indices, the heads, the exact tail and every other field, whether the batch fits or not. It succeeds
  exactly when the micro-batches (one at least, each with a token, positions that are not negative and distinct, valid
  sequences for every token) together have no more tokens than there are empty cells; then every micro-batch has a
  slot of its size, and no cell is given twice across the whole batch. With allocation groups the heads of the
  sequences are not restored (prepare_keeps_group_heads).\<close>

theorem kv_prepare_rehearses:
  assumes "kv_wf kv" and "kv_n_stream kv = 1" and "kv_group_size kv \<le> 1" and "kv_swa_type kv = LLAMA_SWA_TYPE_NONE"
    and "\<not> kv_preparing kv" and "\<forall>x < kv_cap kv. kc_shift (kv_cells kv ! 0) ! x = 0"
    and "ubs \<noteq> []" and "\<forall>ub \<in> set ubs. ubatch_ok ub \<and> names_seq ub"
  shows "\<exists>sis kv'. kv_prepare ubs kv = Inr (sis, kv') \<and> same_kv kv' kv \<and>
    (if total_tokens ubs \<le> card (free_cells kv)
     then map slot_size sis = map (\<lambda>ub. Inr (ub_n_tokens ub)) ubs \<and> distinct (concat (concat (map si_idxs sis))) \<and>
       set (concat (concat (map si_idxs sis))) \<subseteq> free_cells kv
     else sis = [])"
proof -
  obtain sis kv' where p: "kv_prepare ubs kv = Inr (sis, kv')" "same_kv kv' kv"
      "if total_tokens ubs \<le> card (free_cells kv)
       then \<exists>xss. sis = map the_slot xss \<and> map length xss = map ub_n_tokens ubs \<and> distinct (concat xss) \<and> set (concat xss) \<subseteq> free_cells kv
       else sis = []"
    using prepare_ok [OF assms] by blast
  have s: "map slot_size (map the_slot xss) = map (\<lambda>ub. Inr (ub_n_tokens ub)) ubs" "concat (concat (map si_idxs (map the_slot xss))) = concat xss"
    if "map length xss = map ub_n_tokens ubs" for xss
  proof -
    have "map slot_size (map the_slot xss) = map Inr (map length xss)" by (simp add: slot_size_def the_slot_def)
    then show "map slot_size (map the_slot xss) = map (\<lambda>ub. Inr (ub_n_tokens ub)) ubs" using that by simp
    show "concat (concat (map si_idxs (map the_slot xss))) = concat xss" by (induction xss) (simp_all add: the_slot_def)
  qed
  show ?thesis
  proof (cases "total_tokens ubs \<le> card (free_cells kv)")
    case True
    then obtain xss where x: "sis = map the_slot xss" "map length xss = map ub_n_tokens ubs" "distinct (concat xss)" "set (concat xss) \<subseteq> free_cells kv"
      using p(3) by auto
    show ?thesis unfolding if_P [OF True]
      by (rule exI [of _ sis], rule exI [of _ kv']) (use p(1,2) x(1,3,4) s [OF x(2)] in simp)
  next
    case False
    then show ?thesis using p by simp
  qed
qed

text \<open>Undoing a rehearsal restores cells and search heads only. The heads of the sequences, which the placement moves in a cache with
  allocation groups (allocation_seq_heads), stay as the rehearsed micro-batches left them, also when the batch does
  not fit and nothing is placed.\<close>

lemma restore_keeps_group_heads: "fold_r restore_state sts kv = Inr kv' \<Longrightarrow> kv_seq_heads kv' = kv_seq_heads kv"
proof (induction sts arbitrary: kv)
  case (Cons st sts)
  have "fold_r (restore_stream st) js kv = Inr kv1 \<Longrightarrow> kv_seq_heads kv1 = kv_seq_heads kv" for js kv kv1
    by (induction js arbitrary: kv)
      (auto simp: restore_stream_def Let_def bind_r_Inr_iff set_cells_def split: if_splits)
  then show ?case using Cons by (auto simp: restore_state_def bind_r_Inr_iff)
qed simp

lemma prepare_keeps_group_heads:
  assumes "kv_prepare ubs kv = Inr (sis, kv')"
  shows "\<exists>ok res sts kv1. prepare_loop ubs (kv\<lparr>kv_preparing := True\<rparr>) [] [] = Inr (ok, res, sts, kv1) \<and> kv_seq_heads kv' = kv_seq_heads kv1"
  using assms by (auto simp: kv_prepare_def bind_r_Inr_iff assert_r_Inr_iff dest!: restore_keeps_group_heads)

section \<open>Concrete batches\<close>

definition ubatch_example :: llama_ubatch where
  "ubatch_example = \<lparr>ub_equal_seqs = True, ub_n_tokens = 2, ub_n_seq_tokens = 2, ub_n_seqs = 1, ub_n_seqs_unq = 1, ub_n_pos = 1,
     ub_token = Some [11, 12], ub_embd = None, ub_pos = [8, 9], ub_n_seq_id = [1, 1], ub_seq_id = [[1], [1]],
     ub_seq_id_unq = [1], ub_seq_idx = [-1, 0], ub_output = [0, 1]\<rparr>"

lemma ubatch_example_ok: "ubatch_ok ubatch_example" "names_seq ubatch_example" "ub_n_tokens ubatch_example = 2"
  by (simp_all add: ubatch_ok_def names_seq_def ubatch_example_def tok_owners_def LLAMA_MAX_SEQ_def less_Suc_eq numeral_2_eq_2)

lemma kv_example_wf: "kv_wf kv_example" "kv_n_stream kv_example = 1" "kv_group_size kv_example \<le> 1"
    "kv_swa_type kv_example = LLAMA_SWA_TYPE_NONE" "swa_defined kv_example" "\<not> kv_preparing kv_example" "kv_cap kv_example = 6"
    "\<forall>x < kv_cap kv_example. kc_shift (kv_cells kv_example ! 0) ! x = 0" "free_cells kv_example = {0, 1, 2, 3, 4}"
    "usable_cells kv_example 0 = {0, 1, 2, 3, 4}"
proof -
  show w: "kv_wf kv_example" using kv_example_inv by (simp add: kv_inv_def)
  show o: "kv_n_stream kv_example = 1" "kv_group_size kv_example \<le> 1" "kv_swa_type kv_example = LLAMA_SWA_TYPE_NONE" "\<not> kv_preparing kv_example"
    by (simp_all add: kv_example_def)
  then show d: "swa_defined kv_example" by (simp add: swa_defined_def)
  show "kv_cap kv_example = 6" by (simp add: kv_cap_def kv_example_def cells_example_def)
  then show "\<forall>x < kv_cap kv_example. kc_shift (kv_cells kv_example ! 0) ! x = 0" by (simp add: kv_example_def cells_example_def)
  show f: "free_cells kv_example = {0, 1, 2, 3, 4}"
    by (auto simp: free_cells_def empty_cell_def kv_example_def cells_example_def less_Suc_eq)
  show "usable_cells kv_example 0 = {0, 1, 2, 3, 4}" using usable_free w o d f by (simp add: unified_def)
qed

theorem find_slot_complete_witness:
  "\<exists>xs. find_slot kv_example ubatch_example False = Inr (the_slot xs) \<and> length xs = 2 \<and> set xs \<subseteq> {0, 1, 2, 3, 4}"
  using find_slot_complete [OF kv_example_wf(1-3,5) ubatch_example_ok(2)] unfolding ubatch_example_ok(3) kv_example_wf(10) by auto

theorem apply_ubatch_places_witness:
  "\<exists>kv'. apply_ubatch (the_slot [4, 2]) ubatch_example (kv_example\<lparr>kv_tail := None\<rparr>) = Inr kv' \<and> kv_wf kv' \<and> kv_heads kv' = [3] \<and>
     kv_view kv' ! 0 ! 4 = (8, {1}) \<and> kv_view kv' ! 0 ! 2 = (9, {1}) \<and> kv_view kv' ! 0 ! 5 = (7, {0, 1})"
proof -
  let ?kv = "kv_example\<lparr>kv_tail := None\<rparr>"
  have f: "free_cells ?kv = {0, 1, 2, 3, 4}" using kv_example_wf(9) by (simp add: free_cells_def)
  have v: "kv_view ?kv = kv_view kv_example" by (simp add: kv_view_def)
  have t: "tok_content ubatch_example 0 = (8, {1})" "tok_content ubatch_example 1 = (9, {1})"
    by (simp_all add: tok_content_def tok_owners_def ubatch_example_def)
  obtain kv' where kv': "apply_ubatch (the_slot [4, 2]) ubatch_example ?kv = Inr kv'" "kv_wf kv'" "kv_heads kv' = [last [4, 2] + 1]"
      "\<forall>k < length [4, 2 :: nat]. kv_view kv' ! 0 ! ([4, 2] ! k) = tok_content ubatch_example k"
      "\<forall>x < kv_cap ?kv. x \<notin> set [4, 2] \<longrightarrow> kv_view kv' ! 0 ! x = kv_view ?kv ! 0 ! x"
    using apply_ubatch_places [of ?kv ubatch_example "[4, 2]"] kv_example_wf(1-3,5) ubatch_example_ok f by (auto simp: swa_defined_def)
  have "kv_view kv' ! 0 ! 4 = (8, {1})" "kv_view kv' ! 0 ! 2 = (9, {1})" using kv'(4) [rule_format, of 0] kv'(4) [rule_format, of 1] t by simp_all
  moreover have "kv_view kv' ! 0 ! 5 = (7, {0, 1})" using kv'(5) [rule_format, of 5] kv_example_wf(7) kv_example_fields(5) unfolding v by (simp add: eval_nat_numeral)
  ultimately show ?thesis using kv'(1-3) by auto
qed

theorem kv_prepare_rehearses_witness:
  "(\<exists>sis kv'. kv_prepare [ubatch_example, ubatch_example] kv_example = Inr (sis, kv') \<and> same_kv kv' kv_example \<and>
      map slot_size sis = [Inr 2, Inr 2]) \<and>
   (\<exists>kv'. kv_prepare [ubatch_example, ubatch_example, ubatch_example] kv_example = Inr ([], kv') \<and> same_kv kv' kv_example)"
proof -
  note p = kv_prepare_rehearses [OF kv_example_wf(1-4,6,8)]
  have t: "total_tokens [ubatch_example, ubatch_example] = 4" "total_tokens [ubatch_example, ubatch_example, ubatch_example] = 6"
    by (simp_all add: total_tokens_def ubatch_example_ok(3))
  show ?thesis using p [of "[ubatch_example, ubatch_example]"] p [of "[ubatch_example, ubatch_example, ubatch_example]"]
    unfolding t kv_example_wf(9) by (auto simp: ubatch_example_ok)
qed

end
