(* ===== verification/KvMask.thy ===== *)
theory KvMask
  imports KvSlot
begin

text \<open>
  What the graph of a micro-batch reads from the KV cache: the number of cells it covers, the rows the new
  keys and values go to, the pending position shifts, and the attention mask. The mask is built with a shortcut:
  the first token of a sequence fills its row, later tokens of the sequence copy that row and recompute
  only the cells recorded as close to the batch.
\<close>

unbundle bit_operations_syntax

section \<open>Rows of the graph inputs\<close>

definition kv_get_has_shift :: "llama_kv_cache \<Rightarrow> bool" where
  "kv_get_has_shift kv = list_ex kv_cells_get_has_shift (take (kv_n_stream kv) (kv_cells kv))"

definition ggml_pad :: "32 word \<Rightarrow> 32 word \<Rightarrow> 32 word" where
  "ggml_pad x n = (x + n - 1) AND NOT (n - 1)"

definition get_n_kv :: "nat \<Rightarrow> llama_kv_cache \<Rightarrow> slot_info \<Rightarrow> nat res" where
  "get_n_kv n_pad kv si =
     (let n_pad_cur = max n_pad 256
      in fold_r (\<lambda>j r. let s = si_strm si ! j
           in if s \<ge> length (kv_cells kv) then Inl Undefined
              else let c = kv_cells kv ! s
                   in Inr (max (min (kv_cells_size c)
                        (max n_pad_cur (unat (ggml_pad (of_nat (kv_cells_used_max_p1 c)) (of_nat n_pad_cur))))) r))
           [0..<length (si_strm si)] 0)"

text \<open>The offset of a stream is a product of 32-bit numbers for the keys, of 64-bit numbers for
  transposed values. The rows are written in order, so the tensor is the list of what is written.\<close>

definition set_input_k_idxs :: "llama_kv_cache \<Rightarrow> llama_ubatch \<Rightarrow> slot_info \<Rightarrow> nat list res" where
  "set_input_k_idxs kv ub si =
     bind_r (slot_size si) (\<lambda>n.
       assert_r (ub_n_tokens ub = n * length (si_strm si))
         (bind_r (kv_get_size kv) (\<lambda>sz.
            Inr (concat (map (\<lambda>j. map (\<lambda>i. u32 (si_strm si ! j * sz) + si_idxs si ! j ! i) [0..<n])
                   [0..<length (si_strm si)])))))"

definition set_input_v_idxs :: "bool \<Rightarrow> nat \<Rightarrow> llama_kv_cache \<Rightarrow> llama_ubatch \<Rightarrow> slot_info \<Rightarrow> nat list res" where
  "set_input_v_idxs v_trans n_embd_v_gqa kv ub si =
     bind_r (slot_size si) (\<lambda>n.
       assert_r (ub_n_tokens ub = n * length (si_strm si))
         (bind_r (kv_get_size kv) (\<lambda>sz.
            Inr (if \<not> v_trans
                 then concat (map (\<lambda>j. map (\<lambda>i. u32 (si_strm si ! j * sz) + si_idxs si ! j ! i) [0..<n])
                        [0..<length (si_strm si)])
                 else concat (map (\<lambda>j. concat (map (\<lambda>i.
                        map (\<lambda>e. si_strm si ! j * sz * n_embd_v_gqa + e * sz + si_idxs si ! j ! i) [0..<n_embd_v_gqa])
                        [0..<n])) [0..<length (si_strm si)])))))"

definition set_input_k_shift :: "llama_kv_cache \<Rightarrow> int list res" where
  "set_input_k_shift kv =
     bind_r (map_r (\<lambda>c. map_r (\<lambda>i. bind_r (kv_cells_is_empty c i) (\<lambda>e.
         if e then Inr 0 else kv_cells_get_shift c i)) [0..<kv_cells_size c])
       (take (kv_n_stream kv) (kv_cells kv))) (\<lambda>rows. Inr (concat rows))"

section \<open>The attention mask\<close>

text \<open>An element of the mask: minus infinity, or the integer that is converted to the element type.\<close>

datatype mask_value = Mask_drop | Mask_keep int

record args_set_input_kq_mask =
  ma_alibi :: bool
  ma_ubatch :: llama_ubatch
  ma_cells :: "llama_kv_cells list"
  ma_seq_to_stream :: "nat list"
  ma_n_swa :: nat
  ma_swa_type :: llama_swa_type
  ma_n_kv :: nat
  ma_n_tps :: nat
  ma_read_cells :: "int list option"

definition first_seq :: "llama_ubatch \<Rightarrow> nat \<Rightarrow> int res" where
  "first_seq ub i =
     (if i < length (ub_seq_id ub) \<and> ub_seq_id ub ! i \<noteq> [] then Inr (hd (ub_seq_id ub ! i)) else Inl Undefined)"

definition batch_pos_min :: "llama_ubatch \<Rightarrow> (int \<Rightarrow> int) res" where
  "batch_pos_min ub =
     fold_r (\<lambda>i m. bind_r (first_seq ub i) (\<lambda>s.
         if s < 0 \<or> s \<ge> int LLAMA_MAX_SEQ then Inl Undefined
         else Inr (m(s := min (m s) (ub_pos ub ! i)))))
       [0..<ub_n_tokens ub] (\<lambda>_. int INT32_MAX)"

text \<open>The cell of a column, when it holds a token of the sequence.\<close>

definition mask_lookup :: "args_set_input_kq_mask \<Rightarrow> llama_kv_cells \<Rightarrow> int \<Rightarrow> nat \<Rightarrow> nat option res" where
  "mask_lookup a c seq_id j =
     bind_r (case ma_read_cells a of None \<Rightarrow> Inr (int j)
             | Some r \<Rightarrow> if j < length r then Inr (r ! j) else Inl Out_of_range) (\<lambda>mapped.
       if mapped < 0 then Inr None
       else let cell = u32 (nat mapped)
            in if cell \<ge> kv_cells_size c then Inr None
               else bind_r (kv_cells_is_empty c cell) (\<lambda>e.
                 if e then Inr None
                 else bind_r (kv_cells_seq_has c cell seq_id) (\<lambda>h. Inr (if h then Some cell else None))))"

text \<open>A column is recorded when its position is within the window of the first position of the batch; the
  sum is signed.\<close>

definition mask_record :: "args_set_input_kq_mask \<Rightarrow> int \<Rightarrow> bool \<Rightarrow> int \<Rightarrow> nat \<Rightarrow> nat list \<Rightarrow> nat list res" where
  "mask_record a pos_min prev p0 j idxs =
     (if ma_alibi a \<or> prev then Inr idxs
      else let q = p0 + i32_of_u32 (u32 (ma_n_swa a + 32))
           in if q > int INT32_MAX then Inl Undefined
              else Inr (if q \<ge> pos_min then idxs @ [j] else idxs))"

definition mask_value_at ::
    "args_set_input_kq_mask \<Rightarrow> bool \<Rightarrow> llama_kv_cells \<Rightarrow> nat \<Rightarrow> nat \<Rightarrow> int \<Rightarrow> mask_value res" where
  "mask_value_at a causal c i cell p0 =
     (let ub = ma_ubatch a; p1 = ub_pos ub ! i;
          p1_x = (if is_pos_2d ub then ub_pos ub ! (i + ub_n_tokens ub * 2) else 0);
          p1_y = (if is_pos_2d ub then ub_pos ub ! (i + ub_n_tokens ub) else 0)
      in if causal \<and> p0 > p1 then Inr Mask_drop
         else bind_r (if causal \<and> is_pos_2d ub \<and> p0 = p1
                      then bind_r (kv_cells_ext_get c cell) (\<lambda>e. Inr (is_2d_gt e p1_x p1_y)) else Inr False) (\<lambda>later.
           if later then Inr Mask_drop
           else bind_r (if ma_swa_type a \<noteq> LLAMA_SWA_TYPE_NONE
                        then is_masked_swa (ma_n_swa a) (ma_swa_type a) p0 p1 else Inr False) (\<lambda>masked.
             Inr (if masked then Mask_drop
                  else if ma_alibi a then Mask_keep (- \<bar>p0 - p1\<bar>) else Mask_keep 0))))"

definition mask_step ::
    "args_set_input_kq_mask \<Rightarrow> bool \<Rightarrow> llama_kv_cells \<Rightarrow> int \<Rightarrow> int \<Rightarrow> bool \<Rightarrow> nat \<Rightarrow> nat \<Rightarrow> nat list \<Rightarrow>
     (mask_value \<times> nat list) res" where
  "mask_step a causal c seq_id pos_min prev i j idxs =
     bind_r (mask_lookup a c seq_id j) (\<lambda>r.
       case r of None \<Rightarrow> Inr (Mask_drop, idxs)
       | Some cell \<Rightarrow>
           bind_r (kv_cells_pos_get c cell) (\<lambda>p0.
           bind_r (mask_record a pos_min prev p0 j idxs) (\<lambda>idxs.
           bind_r (mask_value_at a causal c i cell p0) (\<lambda>v. Inr (v, idxs)))))"

fun mask_row ::
    "(nat \<Rightarrow> nat list \<Rightarrow> (mask_value \<times> nat list) res) \<Rightarrow> bool \<Rightarrow> nat list \<Rightarrow> mask_value list \<times> nat list \<Rightarrow>
     (mask_value list \<times> nat list) res" where
  "mask_row step prev [] st = Inr st"
| "mask_row step prev (jj # jjs) (row, idxs) =
     (if prev \<and> jj \<ge> length idxs then Inr (row, idxs)
      else let j = (if prev then idxs ! jj else jj)
           in bind_r (step j idxs) (\<lambda>(v, idxs). mask_row step prev jjs (row[j := v], idxs)))"

definition mask_token ::
    "args_set_input_kq_mask \<Rightarrow> bool \<Rightarrow> (int \<Rightarrow> int) \<Rightarrow> nat \<Rightarrow> nat \<Rightarrow>
     mask_value list list \<times> (int \<rightharpoonup> nat) \<times> (int \<Rightarrow> nat list) \<Rightarrow>
     (mask_value list list \<times> (int \<rightharpoonup> nat) \<times> (int \<Rightarrow> nat list)) res" where
  "mask_token a causal pos_min s ii = (\<lambda>(data, srct, sidx).
     let i = s * ma_n_tps a + ii
     in bind_r (first_seq (ma_ubatch a) i) (\<lambda>seq_id.
       if seq_id < 0 \<or> nat seq_id \<ge> length (ma_seq_to_stream a) then Inl Undefined
       else let st = ma_seq_to_stream a ! nat seq_id
            in if st \<ge> length (ma_cells a) then Inl Out_of_range
               else let prev = (\<not> ma_alibi a \<and> srct seq_id \<noteq> None);
                        data = (if prev then data[i := data ! the (srct seq_id)] else data);
                        idxs = (if \<not> ma_alibi a \<and> \<not> prev then [] else sidx seq_id);
                        srct = (if \<not> ma_alibi a \<and> \<not> prev then srct(seq_id \<mapsto> i) else srct)
                    in bind_r (mask_row (mask_step a causal (ma_cells a ! st) seq_id (pos_min seq_id) prev i) prev
                                 [0..<ma_n_kv a] (data ! i, idxs)) (\<lambda>(row, idxs).
                         Inr (data[i := row], srct, sidx(seq_id := idxs)))))"

text \<open>The tensor is the list of its rows, one per token of the micro-batch, with \<open>n_kv\<close> columns.\<close>

definition set_input_kq_mask_impl ::
    "args_set_input_kq_mask \<Rightarrow> bool \<Rightarrow> nat \<Rightarrow> mask_value list list \<Rightarrow> mask_value list list res" where
  "set_input_kq_mask_impl a causal n_stream data =
     bind_r (batch_pos_min (ma_ubatch a)) (\<lambda>pos_min.
       fold_r (\<lambda>s data. bind_r (fold_r (mask_token a causal pos_min s) [0..<ma_n_tps a] (data, Map.empty, \<lambda>_. []))
           (\<lambda>st. Inr (fst st))) [0..<n_stream] data)"

definition kq_mask_args ::
    "bool \<Rightarrow> llama_kv_cache \<Rightarrow> llama_ubatch \<Rightarrow> nat \<Rightarrow> nat \<Rightarrow> int list \<Rightarrow> args_set_input_kq_mask" where
  "kq_mask_args use_alibi kv ub n_kv n_stream read_cells =
     \<lparr>ma_alibi = use_alibi, ma_ubatch = ub, ma_cells = kv_cells kv, ma_seq_to_stream = kv_seq_to_stream kv,
      ma_n_swa = kv_n_swa kv, ma_swa_type = kv_swa_type kv, ma_n_kv = n_kv, ma_n_tps = ub_n_tokens ub div n_stream,
      ma_read_cells = (if read_cells = [] then None else Some read_cells)\<rparr>"

definition set_input_kq_mask_mapped ::
    "bool \<Rightarrow> llama_kv_cache \<Rightarrow> llama_ubatch \<Rightarrow> bool \<Rightarrow> nat \<Rightarrow> nat \<Rightarrow> int list \<Rightarrow> mask_value list list \<Rightarrow>
     mask_value list list res" where
  "set_input_kq_mask_mapped use_alibi kv ub causal_attn n_kv n_stream read_cells data =
     assert_r (read_cells = [] \<or> n_stream = 1 \<and> length read_cells = n_kv)
       (if n_stream = 0 then Inl Undefined
        else assert_r (ub_n_tokens ub mod n_stream = 0)
          (set_input_kq_mask_impl (kq_mask_args use_alibi kv ub n_kv n_stream read_cells) causal_attn n_stream data))"

definition set_input_kq_mask ::
    "bool \<Rightarrow> llama_kv_cache \<Rightarrow> llama_ubatch \<Rightarrow> bool \<Rightarrow> nat \<Rightarrow> nat \<Rightarrow> mask_value list list \<Rightarrow> mask_value list list res" where
  "set_input_kq_mask use_alibi kv ub causal_attn n_kv n_stream data =
     set_input_kq_mask_mapped use_alibi kv ub causal_attn n_kv n_stream [] data"

section \<open>The mask without the shortcut\<close>

text \<open>What a token sees: a column whose cell holds a token of its first sequence, not later than itself when
  attention is causal, and inside the attention window.\<close>

definition mask_cell :: "args_set_input_kq_mask \<Rightarrow> nat \<Rightarrow> nat option" where
  "mask_cell a j = (let m = (case ma_read_cells a of None \<Rightarrow> int j | Some r \<Rightarrow> r ! j) in if m < 0 then None else Some (u32 (nat m)))"

definition token_seq :: "args_set_input_kq_mask \<Rightarrow> nat \<Rightarrow> int" where
  "token_seq a i = hd (ub_seq_id (ma_ubatch a) ! i)"

definition token_cells :: "args_set_input_kq_mask \<Rightarrow> nat \<Rightarrow> llama_kv_cells" where
  "token_cells a i = ma_cells a ! (ma_seq_to_stream a ! nat (token_seq a i))"

definition seq_cell :: "args_set_input_kq_mask \<Rightarrow> llama_kv_cells \<Rightarrow> int \<Rightarrow> nat \<Rightarrow> nat option" where
  "seq_cell a c sq j = (case mask_cell a j of None \<Rightarrow> None
     | Some x \<Rightarrow> if x < length (kc_pos c) \<and> nat sq \<in> kc_seq c ! x then Some x else None)"

definition not_later :: "args_set_input_kq_mask \<Rightarrow> llama_kv_cells \<Rightarrow> nat \<Rightarrow> nat \<Rightarrow> bool" where
  "not_later a c i x \<longleftrightarrow> (let ub = ma_ubatch a; p0 = kc_pos c ! x; p1 = ub_pos ub ! i
     in p0 \<le> p1 \<and> \<not> (is_pos_2d ub \<and> p0 = p1 \<and> is_2d_gt (kc_ext c ! x) (ub_pos ub ! (i + ub_n_tokens ub * 2)) (ub_pos ub ! (i + ub_n_tokens ub))))"

definition mask_spec :: "args_set_input_kq_mask \<Rightarrow> bool \<Rightarrow> nat \<Rightarrow> nat \<Rightarrow> mask_value" where
  "mask_spec a causal i j = (let c = token_cells a i; p1 = ub_pos (ma_ubatch a) ! i
     in case seq_cell a c (token_seq a i) j of None \<Rightarrow> Mask_drop
        | Some x \<Rightarrow> if (causal \<and> \<not> not_later a c i x) \<or> is_masked_swa (ma_n_swa a) (ma_swa_type a) (kc_pos c ! x) p1 = Inr True then Mask_drop
            else Mask_keep (if ma_alibi a then - \<bar>kc_pos c ! x - p1\<bar> else 0))"

text \<open>Inputs the code is defined for: tokens with a known sequence and a position, cells in order, and window and
  positions whose sum fits the signed 32-bit type.\<close>

definition mask_ok :: "args_set_input_kq_mask \<Rightarrow> bool" where
  "mask_ok a \<longleftrightarrow> (\<forall>i < ub_n_tokens (ma_ubatch a). i < length (ub_seq_id (ma_ubatch a)) \<and> ub_seq_id (ma_ubatch a) ! i \<noteq> [] \<and>
       0 \<le> token_seq a i \<and> nat (token_seq a i) < LLAMA_MAX_SEQ \<and> nat (token_seq a i) < length (ma_seq_to_stream a) \<and>
       0 \<le> ub_pos (ma_ubatch a) ! i \<and> ub_pos (ma_ubatch a) ! i \<le> int INT32_MAX) \<and>
     (\<forall>s \<in> set (ma_seq_to_stream a). s < length (ma_cells a)) \<and>
     (\<forall>c \<in> set (ma_cells a). cells_ok c \<and> (\<forall>p \<in> set (kc_pos c). p + int (ma_n_swa a) + 32 \<le> int INT32_MAX)) \<and>
     ma_n_swa a + 32 \<le> INT32_MAX \<and> (ma_swa_type a = LLAMA_SWA_TYPE_CHUNKED \<longrightarrow> 0 < ma_n_swa a) \<and>
     (case ma_read_cells a of None \<Rightarrow> True | Some r \<Rightarrow> length r = ma_n_kv a)"

lemma mask_okD:
  assumes "mask_ok a" and "i < ub_n_tokens (ma_ubatch a)"
  shows "first_seq (ma_ubatch a) i = Inr (token_seq a i)" "0 \<le> token_seq a i" "nat (token_seq a i) < LLAMA_MAX_SEQ"
    "nat (token_seq a i) < length (ma_seq_to_stream a)" "ma_seq_to_stream a ! nat (token_seq a i) < length (ma_cells a)"
    "0 \<le> ub_pos (ma_ubatch a) ! i" "ub_pos (ma_ubatch a) ! i \<le> int INT32_MAX" "cells_ok (token_cells a i)"
    "x < length (kc_pos (token_cells a i)) \<Longrightarrow> kc_pos (token_cells a i) ! x + int (ma_n_swa a) + 32 \<le> int INT32_MAX"
proof -
  have i: "i < length (ub_seq_id (ma_ubatch a))" "ub_seq_id (ma_ubatch a) ! i \<noteq> []" "0 \<le> token_seq a i" "nat (token_seq a i) < LLAMA_MAX_SEQ"
      "nat (token_seq a i) < length (ma_seq_to_stream a)" "0 \<le> ub_pos (ma_ubatch a) ! i" "ub_pos (ma_ubatch a) ! i \<le> int INT32_MAX"
    using assms unfolding mask_ok_def by blast+
  then show "first_seq (ma_ubatch a) i = Inr (token_seq a i)" "0 \<le> token_seq a i" "nat (token_seq a i) < LLAMA_MAX_SEQ"
    "nat (token_seq a i) < length (ma_seq_to_stream a)" "0 \<le> ub_pos (ma_ubatch a) ! i" "ub_pos (ma_ubatch a) ! i \<le> int INT32_MAX"
    by (simp_all add: first_seq_def token_seq_def)
  show s: "ma_seq_to_stream a ! nat (token_seq a i) < length (ma_cells a)" using assms(1) i(5) unfolding mask_ok_def by simp
  then have c: "token_cells a i \<in> set (ma_cells a)" by (simp add: token_cells_def)
  then show "cells_ok (token_cells a i)" using assms(1) unfolding mask_ok_def by blast
  show "x < length (kc_pos (token_cells a i)) \<Longrightarrow> kc_pos (token_cells a i) ! x + int (ma_n_swa a) + 32 \<le> int INT32_MAX"
    using assms(1) c unfolding mask_ok_def by (meson nth_mem)
qed

lemma mask_lookup_eq:
  assumes a: "mask_ok a" and i: "i < ub_n_tokens (ma_ubatch a)" and j: "j < ma_n_kv a"
  shows "mask_lookup a (token_cells a i) (token_seq a i) j = Inr (seq_cell a (token_cells a i) (token_seq a i) j)"
proof -
  let ?c = "token_cells a i" and ?s = "token_seq a i"
  note d = mask_okD [OF a i] and c = cells_okD [OF mask_okD(8) [OF a i]]
  have r: "(case ma_read_cells a of None \<Rightarrow> Inr (int j) | Some r \<Rightarrow> if j < length r then Inr (r ! j) else Inl Out_of_range) =
      Inr (case ma_read_cells a of None \<Rightarrow> int j | Some r \<Rightarrow> r ! j)"
    using a j by (auto simp: mask_ok_def split: option.splits)
  have e: "kv_cells_is_empty ?c x = Inr (kc_seq ?c ! x = {})" if "x < length (kc_pos ?c)" for x
    using c(5,7) [OF that] that by (auto simp: kv_cells_is_empty_def)
  have h: "kv_cells_seq_has ?c x ?s = Inr (nat ?s \<in> kc_seq ?c ! x)" if "x < length (kc_pos ?c)" for x
    using d(2,3) that by (auto simp: kv_cells_seq_has_def bit_test_def)
  show ?thesis unfolding mask_lookup_def r
    by (auto simp: seq_cell_def mask_cell_def Let_def kv_cells_size_def e h)
qed

text \<open>A column the shortcut records for a sequence.\<close>

definition recorded :: "args_set_input_kq_mask \<Rightarrow> llama_kv_cells \<Rightarrow> int \<Rightarrow> int \<Rightarrow> nat \<Rightarrow> bool" where
  "recorded a c sq pm j \<longleftrightarrow> (case seq_cell a c sq j of None \<Rightarrow> False | Some x \<Rightarrow> pm \<le> kc_pos c ! x + int (ma_n_swa a) + 32)"

lemma seq_cellD:
  assumes "seq_cell a c sq j = Some x"
  shows "x < length (kc_pos c)" and "nat sq \<in> kc_seq c ! x"
  using assms by (auto simp: seq_cell_def split: option.splits if_splits)

lemma seq_cell_pos:
  assumes "cells_ok c" and "seq_cell a c sq j = Some x"
  shows "0 \<le> kc_pos c ! x"
  using cells_okD(5,7) [OF assms(1) seq_cellD(1) [OF assms(2)]] seq_cellD(2) [OF assms(2)] by auto

lemma masked_defined:
  assumes a: "mask_ok a" and "0 \<le> p0" and "0 \<le> p1"
  shows "\<exists>b. is_masked_swa (ma_n_swa a) (ma_swa_type a) p0 p1 = Inr b"
  using assms by (cases "ma_swa_type a") (auto simp: is_masked_swa_def mask_ok_def Let_def)

lemma mask_value_eq:
  assumes a: "mask_ok a" and i: "i < ub_n_tokens (ma_ubatch a)" and x: "seq_cell a (token_cells a i) (token_seq a i) j = Some x"
  shows "mask_value_at a causal (token_cells a i) i x (kc_pos (token_cells a i) ! x) = Inr (mask_spec a causal i j)"
proof -
  let ?c = "token_cells a i" and ?p1 = "ub_pos (ma_ubatch a) ! i"
  have p: "0 \<le> kc_pos ?c ! x" "x < length (kc_pos ?c)" using seq_cell_pos [OF mask_okD(8) [OF a i] x] seq_cellD [OF x] by auto
  obtain b where b: "is_masked_swa (ma_n_swa a) (ma_swa_type a) (kc_pos ?c ! x) ?p1 = Inr b"
    using masked_defined [OF a p(1) mask_okD(6) [OF a i]] by blast
  have n: "b = False" if "ma_swa_type a = LLAMA_SWA_TYPE_NONE"
    using b that p(1) mask_okD(6) [OF a i] by (simp add: is_masked_swa_def)
  have e: "kv_cells_ext_get ?c x = Inr (kc_ext ?c ! x)" using p by (simp add: kv_cells_ext_get_def)
  show ?thesis
    unfolding mask_value_at_def mask_spec_def x Let_def option.case b e using n by (auto simp: not_later_def)
qed

lemma mask_step_eq:
  assumes a: "mask_ok a" and i: "i < ub_n_tokens (ma_ubatch a)" and j: "j < ma_n_kv a"
  shows "mask_step a causal (token_cells a i) (token_seq a i) pm prev i j idxs =
    Inr (mask_spec a causal i j, if \<not> ma_alibi a \<and> \<not> prev \<and> recorded a (token_cells a i) (token_seq a i) pm j then idxs @ [j] else idxs)"
proof (cases "seq_cell a (token_cells a i) (token_seq a i) j")
  case None
  then show ?thesis by (simp add: mask_step_def mask_lookup_eq [OF a i j] mask_spec_def recorded_def)
next
  case (Some x)
  let ?c = "token_cells a i"
  have p: "0 \<le> kc_pos ?c ! x" "x < length (kc_pos ?c)" using seq_cell_pos [OF mask_okD(8) [OF a i] Some] seq_cellD [OF Some] by auto
  have g: "kv_cells_pos_get ?c x = Inr (kc_pos ?c ! x)" using p by (simp add: kv_cells_pos_get_def)
  have n: "ma_n_swa a + 32 \<le> INT32_MAX" using a by (simp add: mask_ok_def)
  then have w: "i32_of_u32 (u32 (ma_n_swa a + 32)) = int (ma_n_swa a) + 32" by (simp add: i32_of_u32_def)
  have "mask_record a pm prev (kc_pos ?c ! x) j idxs =
      Inr (if \<not> ma_alibi a \<and> \<not> prev \<and> recorded a ?c (token_seq a i) pm j then idxs @ [j] else idxs)"
    using mask_okD(9) [OF a i p(2)] by (auto simp: mask_record_def w recorded_def Some Let_def)
  then show ?thesis by (simp add: mask_step_def mask_lookup_eq [OF a i j] Some g mask_value_eq [OF a i Some])
qed

text \<open>A cell further back than the window and 32 positions is treated alike by every token of the sequence
  in the batch: it is before all of them and outside the window of all of them.\<close>

lemma far_masked:
  assumes "0 \<le> p0" and "p0 + int n_swa + 32 < p1" and "p1 \<le> int INT32_MAX" and "n_swa + 32 \<le> INT32_MAX"
    and "t = LLAMA_SWA_TYPE_CHUNKED \<Longrightarrow> 0 < n_swa"
  shows "is_masked_swa n_swa t p0 p1 = Inr (t \<noteq> LLAMA_SWA_TYPE_NONE)"
proof -
  have i: "i32_of_u32 n_swa = int n_swa" using assms(4) by (simp add: i32_of_u32_def)
  have half: "int n_swa sdiv 2 = int (n_swa div 2)" by (simp add: sdiv_nonneg zdiv_int)
  have "p0 < i32_of_u32 (u32 (nat p1 div n_swa * n_swa))" if "0 < n_swa"
  proof -
    define q where "q = nat p1 div n_swa * n_swa"
    have q: "q \<le> nat p1" "nat p1 < q + n_swa" using that dividend_less_div_times [of n_swa "nat p1"] by (simp_all add: q_def)
    then have "q \<le> INT32_MAX" using assms(3) by linarith
    then have "i32_of_u32 (u32 q) = int q" by (simp add: i32_of_u32_def)
    then show ?thesis using q assms(1,2) unfolding q_def [symmetric] by simp
  qed
  then show ?thesis using assms i half by (cases t) (auto simp: is_masked_swa_def Let_def)
qed

lemma unrecorded_same:
  assumes a: "mask_ok a" "\<not> ma_alibi a" and i: "i < ub_n_tokens (ma_ubatch a)" "i' < ub_n_tokens (ma_ubatch a)"
    and s: "token_seq a i' = token_seq a i" and pm: "pm \<le> ub_pos (ma_ubatch a) ! i" "pm \<le> ub_pos (ma_ubatch a) ! i'"
    and r: "\<not> recorded a (token_cells a i) (token_seq a i) pm j"
  shows "mask_spec a causal i' j = mask_spec a causal i j"
proof (cases "seq_cell a (token_cells a i) (token_seq a i) j")
  case None
  then show ?thesis using s by (simp add: mask_spec_def token_cells_def)
next
  case (Some x)
  let ?c = "token_cells a i"
  have c: "token_cells a i' = ?c" using s by (simp add: token_cells_def)
  have p: "0 \<le> kc_pos ?c ! x" using seq_cell_pos [OF mask_okD(8) [OF a(1) i(1)] Some] .
  have f: "kc_pos ?c ! x + int (ma_n_swa a) + 32 < pm" using r Some by (simp add: recorded_def)
  have n: "ma_n_swa a + 32 \<le> INT32_MAX" "ma_swa_type a = LLAMA_SWA_TYPE_CHUNKED \<Longrightarrow> 0 < ma_n_swa a" using a(1) by (simp_all add: mask_ok_def)
  have m: "is_masked_swa (ma_n_swa a) (ma_swa_type a) (kc_pos ?c ! x) (ub_pos (ma_ubatch a) ! k) = Inr (ma_swa_type a \<noteq> LLAMA_SWA_TYPE_NONE)"
      "not_later a ?c k x" if "k \<in> {i, i'}" for k
    using far_masked [OF p _ mask_okD(7) [OF a(1), of k] n] f that pm i by (auto simp: not_later_def Let_def)
  show ?thesis using Some s a(2) m by (simp add: mask_spec_def c)
qed

section \<open>Filling the rows\<close>

lemma fold_upd:
  assumes "\<And>j. j \<in> set js \<Longrightarrow> j < length row"
  shows "length (fold (\<lambda>j r. r[j := v j]) js row) = length row"
    and "k < length row \<Longrightarrow> fold (\<lambda>j r. r[j := v j]) js row ! k = (if k \<in> set js then v k else row ! k)"
  using assms by (induction js arbitrary: row) (auto simp: nth_list_update)

lemma mask_row_first:
  assumes "\<And>j idxs. j \<in> set js \<Longrightarrow> step j idxs = Inr (v j, if P j then idxs @ [j] else idxs)"
  shows "mask_row step False js (row, idxs) = Inr (fold (\<lambda>j r. r[j := v j]) js row, idxs @ filter P js)"
  using assms by (induction js arbitrary: row idxs) simp_all

lemma mask_row_prev:
  assumes "\<And>j. j \<in> set idxs \<Longrightarrow> step j idxs = Inr (v j, idxs)" and "length idxs \<le> n" and "k \<le> n"
  shows "mask_row step True [k..<n] (row, idxs) = Inr (fold (\<lambda>j r. r[j := v j]) (drop k idxs) row, idxs)"
  using assms(3)
proof (induction "n - k" arbitrary: k row)
  case 0
  then show ?case using assms(2) by simp
next
  case (Suc m)
  then have k: "k < n" "[k..<n] = k # [Suc k..<n]" by (auto simp: upt_conv_Cons)
  show ?case
  proof (cases "k < length idxs")
    case True
    then have "drop k idxs = idxs ! k # drop (Suc k) idxs" by (simp add: Cons_nth_drop_Suc)
    then show ?thesis using True k assms(1) Suc.hyps(1) [of "Suc k"] Suc.hyps(2) by (simp add: Let_def)
  qed (use k in simp)
qed

definition mask_inv ::
    "args_set_input_kq_mask \<Rightarrow> bool \<Rightarrow> (int \<Rightarrow> int) \<Rightarrow> nat \<Rightarrow> mask_value list list \<times> (int \<rightharpoonup> nat) \<times> (int \<Rightarrow> nat list) \<Rightarrow> bool" where
  "mask_inv a causal pm m st \<longleftrightarrow> (case st of (data, srct, sidx) \<Rightarrow>
     length data = ub_n_tokens (ma_ubatch a) \<and> (\<forall>i < length data. length (data ! i) = ma_n_kv a) \<and>
     (\<forall>i < m. \<forall>j < ma_n_kv a. data ! i ! j = mask_spec a causal i j) \<and>
     (\<forall>sq r. srct sq = Some r \<longrightarrow> r < m \<and> token_seq a r = sq \<and>
        sidx sq = filter (recorded a (token_cells a r) sq (pm sq)) [0..<ma_n_kv a]))"

lemma mask_token_ok:
  assumes a: "mask_ok a" and pm: "\<And>k. k < ub_n_tokens (ma_ubatch a) \<Longrightarrow> pm (token_seq a k) \<le> ub_pos (ma_ubatch a) ! k"
    and m: "m = s * ma_n_tps a + ii" "m < ub_n_tokens (ma_ubatch a)" and inv: "mask_inv a causal pm m (data, srct, sidx)"
  shows "\<exists>st. mask_token a causal pm s ii (data, srct, sidx) = Inr st \<and> mask_inv a causal pm (Suc m) st"
proof -
  let ?sq = "token_seq a m" and ?c = "token_cells a m" and ?n = "ma_n_kv a" and ?upd = "fold (\<lambda>j r. r[j := mask_spec a causal m j])"
  note d = mask_okD [OF a m(2)] and st = mask_step_eq [OF a m(2)]
  have i: "length data = ub_n_tokens (ma_ubatch a)" "\<And>i. i < length data \<Longrightarrow> length (data ! i) = ?n"
      "\<And>i j. i < m \<Longrightarrow> j < ?n \<Longrightarrow> data ! i ! j = mask_spec a causal i j"
      "\<And>sq r. srct sq = Some r \<Longrightarrow> r < m \<and> token_seq a r = sq \<and> sidx sq = filter (recorded a (token_cells a r) sq (pm sq)) [0..<?n]"
    using inv by (auto simp: mask_inv_def)
  have row: "mask_token a causal pm s ii (data, srct, sidx) =
      (let prev = (\<not> ma_alibi a \<and> srct ?sq \<noteq> None); data = (if prev then data[m := data ! the (srct ?sq)] else data);
           idxs = (if \<not> ma_alibi a \<and> \<not> prev then [] else sidx ?sq); srct = (if \<not> ma_alibi a \<and> \<not> prev then srct(?sq \<mapsto> m) else srct)
       in bind_r (mask_row (mask_step a causal ?c ?sq (pm ?sq) prev m) prev [0..<?n] (data ! m, idxs))
            (\<lambda>(row, idxs). Inr (data[m := row], srct, sidx(?sq := idxs))))"
    using d(1,2,4,5) by (simp add: mask_token_def m(1) [symmetric] token_cells_def Let_def)
  have fill: "mask_inv a causal pm (Suc m) (data[m := R], srct', sidx(?sq := X))"
    if "length R = ?n" "\<And>j. j < ?n \<Longrightarrow> R ! j = mask_spec a causal m j"
      "\<And>sq r. srct' sq = Some r \<Longrightarrow> r < Suc m \<and> token_seq a r = sq \<and> (sidx(?sq := X)) sq = filter (recorded a (token_cells a r) sq (pm sq)) [0..<?n]" for R srct' X
    using that i(1-3) m(2) unfolding mask_inv_def by (auto simp: nth_list_update less_Suc_eq)
  show ?thesis
  proof (cases "\<not> ma_alibi a \<and> srct ?sq \<noteq> None")
    case True
    then obtain r where r: "srct ?sq = Some r" by blast
    note ri = i(4) [OF r]
    have rm: "r < ub_n_tokens (ma_ubatch a)" "token_cells a r = ?c" using ri m(2) by (auto simp: token_cells_def)
    let ?X = "filter (recorded a ?c ?sq (pm ?sq)) [0..<?n]"
    have X: "sidx ?sq = ?X" using ri rm(2) by simp
    have l: "length (data ! r) = ?n" using i(2) [of r] ri m(2) i(1) by simp
    have Xn: "length ?X \<le> ?n" using length_filter_le [of "recorded a ?c ?sq (pm ?sq)" "[0..<?n]"] by simp
    have "mask_row (mask_step a causal ?c ?sq (pm ?sq) True m) True [0..<?n] (data ! r, ?X) = Inr (?upd (drop 0 ?X) (data ! r), ?X)"
      by (rule mask_row_prev) (use Xn st in simp_all)
    then have e: "mask_token a causal pm s ii (data, srct, sidx) = Inr (data[m := ?upd ?X (data ! r)], srct, sidx(?sq := ?X))"
      unfolding row using True r X i(1) m(2) by (simp add: Let_def)
    have "?upd ?X (data ! r) ! j = mask_spec a causal m j" if j: "j < ?n" for j
    proof (cases "recorded a ?c ?sq (pm ?sq) j")
      case False
      have "mask_spec a causal r j = mask_spec a causal m j"
        by (rule unrecorded_same [OF a _ m(2) rm(1) _ pm [OF m(2)] _ False]) (use True ri pm [OF rm(1)] in simp_all)
      then show ?thesis using False fold_upd(2) [of ?X "data ! r" j] i(3) [of r j] ri j l by simp
    qed (use fold_upd(2) [of ?X "data ! r" j] j l in simp)
    then have "mask_inv a causal pm (Suc m) (data[m := ?upd ?X (data ! r)], srct, sidx(?sq := ?X))"
      using fold_upd(1) [of ?X "data ! r"] l i(4) X by (intro fill) (auto simp: less_Suc_eq)
    then show ?thesis using e by blast
  next
    case False
    let ?P = "\<lambda>j. \<not> ma_alibi a \<and> recorded a ?c ?sq (pm ?sq) j"
    have l: "length (data ! m) = ?n" using i(2) [of m] i(1) m(2) by simp
    have R: "mask_row (mask_step a causal ?c ?sq (pm ?sq) False m) False [0..<?n] (data ! m, X) = Inr (?upd [0..<?n] (data ! m), X @ filter ?P [0..<?n])" for X
      by (rule mask_row_first) (use st in simp)
    let ?X = "(if ma_alibi a then sidx ?sq else []) @ filter ?P [0..<?n]" and ?S = "if ma_alibi a then srct else srct(?sq \<mapsto> m)"
    have e: "mask_token a causal pm s ii (data, srct, sidx) = Inr (data[m := ?upd [0..<?n] (data ! m)], ?S, sidx(?sq := ?X))"
      unfolding row using False R by (auto simp: Let_def)
    have "mask_inv a causal pm (Suc m) (data[m := ?upd [0..<?n] (data ! m)], ?S, sidx(?sq := ?X))"
      using fold_upd(1) [of "[0..<?n]" "data ! m"] fold_upd(2) [of "[0..<?n]" "data ! m"] l i(4)
      by (intro fill) (auto simp: less_Suc_eq filter_False split: if_splits)
    then show ?thesis using e by blast
  qed
qed

lemma mask_stream_ok:
  assumes a: "mask_ok a" and pm: "\<And>k. k < ub_n_tokens (ma_ubatch a) \<Longrightarrow> pm (token_seq a k) \<le> ub_pos (ma_ubatch a) ! k"
    and s: "s * ma_n_tps a + n \<le> ub_n_tokens (ma_ubatch a)" and inv: "mask_inv a causal pm (s * ma_n_tps a) st"
  shows "\<exists>st'. fold_r (mask_token a causal pm s) [0..<n] st = Inr st' \<and> mask_inv a causal pm (s * ma_n_tps a + n) st'"
  using s
proof (induction n)
  case (Suc n)
  then obtain data srct sidx where st: "fold_r (mask_token a causal pm s) [0..<n] st = Inr (data, srct, sidx)"
      "mask_inv a causal pm (s * ma_n_tps a + n) (data, srct, sidx)" by (metis Suc_leD add_Suc_right prod_cases3)
  have "s * ma_n_tps a + n < ub_n_tokens (ma_ubatch a)" using Suc.prems by simp
  from mask_token_ok [OF a pm refl this st(2)] st(1) show ?case by (auto simp: fold_r_append)
qed (use inv in simp)

lemma mask_inv_restart: "mask_inv a causal pm m (data, srct, sidx) \<Longrightarrow> mask_inv a causal pm m (data, Map.empty, \<lambda>_. [])"
  by (simp add: mask_inv_def)

lemma batch_pos_min_ok:
  assumes a: "mask_ok a"
  shows "\<exists>pm. batch_pos_min (ma_ubatch a) = Inr pm \<and> (\<forall>k < ub_n_tokens (ma_ubatch a). pm (token_seq a k) \<le> ub_pos (ma_ubatch a) ! k)"
proof -
  let ?ub = "ma_ubatch a"
  let ?f = "\<lambda>i m. bind_r (first_seq ?ub i) (\<lambda>s. if s < 0 \<or> s \<ge> int LLAMA_MAX_SEQ then Inl Undefined else Inr (m(s := min (m s) (ub_pos ?ub ! i))))"
  have "\<exists>pm. fold_r ?f [0..<n] (\<lambda>_. int INT32_MAX) = Inr pm \<and> (\<forall>k < n. pm (token_seq a k) \<le> ub_pos ?ub ! k)" if "n \<le> ub_n_tokens ?ub" for n
    using that
  proof (induction n)
    case (Suc n)
    then obtain pm where pm: "fold_r ?f [0..<n] (\<lambda>_. int INT32_MAX) = Inr pm" "\<forall>k < n. pm (token_seq a k) \<le> ub_pos ?ub ! k" by auto
    have n: "n < ub_n_tokens ?ub" using Suc.prems by simp
    let ?pm = "pm(token_seq a n := min (pm (token_seq a n)) (ub_pos ?ub ! n))"
    have "fold_r ?f [0..<Suc n] (\<lambda>_. int INT32_MAX) = Inr ?pm"
      using pm(1) mask_okD(1,2,3) [OF a n] by (simp add: fold_r_append nat_less_iff)
    moreover have "\<forall>k < Suc n. ?pm (token_seq a k) \<le> ub_pos ?ub ! k" using pm(2) by (auto simp: less_Suc_eq min.coboundedI1)
    ultimately show ?case by blast
  qed simp
  then show ?thesis unfolding batch_pos_min_def by blast
qed

lemma kq_mask_impl_eq:
  assumes a: "mask_ok a" and n: "n_stream * ma_n_tps a = ub_n_tokens (ma_ubatch a)"
    and data: "length data = ub_n_tokens (ma_ubatch a)" "\<And>i. i < length data \<Longrightarrow> length (data ! i) = ma_n_kv a"
  shows "\<exists>out. set_input_kq_mask_impl a causal n_stream data = Inr out \<and> length out = length data \<and>
    (\<forall>i < length data. length (out ! i) = ma_n_kv a \<and> (\<forall>j < ma_n_kv a. out ! i ! j = mask_spec a causal i j))"
proof -
  obtain pm where pm: "batch_pos_min (ma_ubatch a) = Inr pm" "\<And>k. k < ub_n_tokens (ma_ubatch a) \<Longrightarrow> pm (token_seq a k) \<le> ub_pos (ma_ubatch a) ! k"
    using batch_pos_min_ok [OF a] by blast
  let ?g = "\<lambda>s data. bind_r (fold_r (mask_token a causal pm s) [0..<ma_n_tps a] (data, Map.empty, \<lambda>_. [])) (\<lambda>st. Inr (fst st))"
  have "\<exists>out. fold_r ?g [0..<s] data = Inr out \<and> mask_inv a causal pm (s * ma_n_tps a) (out, Map.empty, \<lambda>_. [])" if "s \<le> n_stream" for s
    using that
  proof (induction s)
    case 0
    then show ?case using data by (simp add: mask_inv_def)
  next
    case (Suc s)
    then obtain out where o: "fold_r ?g [0..<s] data = Inr out" "mask_inv a causal pm (s * ma_n_tps a) (out, Map.empty, \<lambda>_. [])" by auto
    have le: "s * ma_n_tps a + ma_n_tps a \<le> ub_n_tokens (ma_ubatch a)"
      unfolding n [symmetric] using mult_le_mono1 [OF Suc.prems, of "ma_n_tps a"] by simp
    obtain d sr si where st: "fold_r (mask_token a causal pm s) [0..<ma_n_tps a] (out, Map.empty, \<lambda>_. []) = Inr (d, sr, si)"
        "mask_inv a causal pm (s * ma_n_tps a + ma_n_tps a) (d, sr, si)"
      using mask_stream_ok [OF a pm(2) le o(2)] by auto
    then show ?case using o(1) mask_inv_restart [OF st(2)] by (intro exI [of _ d]) (simp add: fold_r_append add.commute)
  qed
  from this [OF order_refl] obtain out where "fold_r ?g [0..<n_stream] data = Inr out" "mask_inv a causal pm (n_stream * ma_n_tps a) (out, Map.empty, \<lambda>_. [])"
    by blast
  then show ?thesis using pm(1) data(1) unfolding n by (auto simp: set_input_kq_mask_impl_def mask_inv_def)
qed

text \<open>A micro-batch and a cache the mask is defined for.\<close>

definition mask_batch :: "llama_kv_cache \<Rightarrow> llama_ubatch \<Rightarrow> bool" where
  "mask_batch kv ub \<longleftrightarrow> (\<forall>i < ub_n_tokens ub. i < length (ub_seq_id ub) \<and> ub_seq_id ub ! i \<noteq> [] \<and>
     known_seq kv (hd (ub_seq_id ub ! i)) \<and> 0 \<le> ub_pos ub ! i \<and> ub_pos ub ! i \<le> int INT32_MAX)"

definition mask_window :: "llama_kv_cache \<Rightarrow> bool" where
  "mask_window kv \<longleftrightarrow> kv_n_swa kv + 32 \<le> INT32_MAX \<and> swa_defined kv \<and>
     (\<forall>c \<in> set (kv_cells kv). \<forall>p \<in> set (kc_pos c). p + int (kv_n_swa kv) + 32 \<le> int INT32_MAX)"

lemma kq_mask_args_ok:
  assumes w: "kv_wf kv" and "mask_batch kv ub" and "mask_window kv" and "read_cells = [] \<or> length read_cells = n_kv"
  shows "mask_ok (kq_mask_args use_alibi kv ub n_kv n_stream read_cells)"
proof -
  note p = kv_wf_parts [OF w]
  have st: "\<forall>s \<in> set (kv_seq_to_stream kv). s < length (kv_cells kv)"
    using p(2,3,12,13) by (cases "kv_n_stream kv = 1") auto
  have c: "\<forall>c \<in> set (kv_cells kv). cells_ok c" using kv_wf_parts(7) [OF w] p(3) by (auto simp: in_set_conv_nth)
  have b: "nat (hd (ub_seq_id ub ! i)) < LLAMA_MAX_SEQ" if "i < ub_n_tokens ub" for i
    using that assms(2) stream_of_ok(3) [OF w] by (auto simp: mask_batch_def)
  show ?thesis unfolding mask_ok_def kq_mask_args_def token_seq_def
    using assms st c b by (auto simp: mask_batch_def mask_window_def known_seq_def swa_defined_def)
qed

lemma kq_mask_mapped_eq:
  assumes w: "kv_wf kv" "mask_batch kv ub" "mask_window kv" and r: "read_cells = [] \<or> n_stream = 1 \<and> length read_cells = n_kv"
    and n: "0 < n_stream" "ub_n_tokens ub mod n_stream = 0"
    and data: "length data = ub_n_tokens ub" "\<And>row. row \<in> set data \<Longrightarrow> length row = n_kv"
  shows "\<exists>out. set_input_kq_mask_mapped use_alibi kv ub causal n_kv n_stream read_cells data = Inr out \<and>
    (\<forall>i < ub_n_tokens ub. \<forall>j < n_kv. out ! i ! j = mask_spec (kq_mask_args use_alibi kv ub n_kv n_stream read_cells) causal i j)"
proof -
  let ?a = "kq_mask_args use_alibi kv ub n_kv n_stream read_cells"
  have a: "mask_ok ?a" by (rule kq_mask_args_ok [OF w]) (use r in auto)
  have f: "ma_ubatch ?a = ub" "ma_n_kv ?a = n_kv" "ma_n_tps ?a = ub_n_tokens ub div n_stream" by (simp_all add: kq_mask_args_def)
  have "n_stream * (ub_n_tokens ub div n_stream) = ub_n_tokens ub" using n(2) mult_div_mod_eq [of n_stream "ub_n_tokens ub"] by simp
  then show ?thesis
    using kq_mask_impl_eq [OF a, of n_stream data causal] data r n unfolding f set_input_kq_mask_mapped_def by auto
qed

section \<open>The cells a graph covers\<close>

lemma ggml_pad_le:
  assumes n: "n = 2 ^ k" and x: "x + n \<le> 2 ^ 32"
  shows "x \<le> unat (ggml_pad (of_nat x) (of_nat n))"
proof -
  let ?w = "of_nat (x + n - 1) :: 32 word"
  have e: "(of_nat x + of_nat n - 1 :: 32 word) = ?w" 
  proof -
    obtain y where y: "x + n = Suc y" using n by (cases "x + n") auto
    then have "(of_nat x + of_nat n :: 32 word) = of_nat y + 1" by (metis of_nat_Suc of_nat_add add.commute)
    then show ?thesis unfolding y by simp
  qed
  have m: "(of_nat n - 1 :: 32 word) = mask k" using n by (simp add: mask_eq_exp_minus_1)
  have s: "(?w AND mask k) + (?w AND NOT (mask k)) = ?w" by (subst disjunctive_add) (auto simp: bit_eq_iff bit_simps)
  have lt: "x + n - 1 < 2 ^ 32" using n x by simp
  then have u: "unat ?w = x + n - 1" by (simp add: unat_of_nat)
  have t: "unat (?w AND mask k) = (x + n - 1) mod n"
    unfolding take_bit_eq_mask [symmetric] unsigned_take_bit_eq u by (simp add: take_bit_eq_mod n)
  have le: "?w AND mask k \<le> ?w" unfolding word_le_nat_alt t u by simp
  have "unat (?w - (?w AND mask k)) = x + n - 1 - (x + n - 1) mod n" unfolding unat_sub [OF le] t u ..
  moreover have "?w AND NOT (mask k) = ?w - (?w AND mask k)" using s by (metis add_diff_cancel_left')
  moreover have "(x + n - 1) mod n < n" using n by simp
  ultimately show ?thesis unfolding ggml_pad_def e m by simp
qed

lemma get_n_kv_covers:
  assumes w: "kv_wf kv" and p: "n_pad = 2 ^ k" and sz: "kv_cap kv + max n_pad 256 \<le> 2 ^ 32"
    and si: "\<And>s. s \<in> set (si_strm si) \<Longrightarrow> s < kv_n_stream kv"
  shows "\<exists>n. get_n_kv n_pad kv si = Inr n \<and> n \<le> kv_cap kv \<and>
    (\<forall>s \<in> set (si_strm si). \<forall>x < kv_cap kv. kc_pos (kv_cells kv ! s) ! x \<noteq> -1 \<longrightarrow> x < n)"
proof -
  let ?n = "max n_pad 256"
  obtain k' where k': "?n = 2 ^ k'"
  proof (cases "n_pad \<le> 256")
    case True
    then have "?n = 2 ^ 8" by simp
    then show ?thesis using that by blast
  qed (use p that [of k] in simp)
  let ?v = "\<lambda>s. min (kv_cells_size (kv_cells kv ! s)) (max ?n (unat (ggml_pad (of_nat (kv_cells_used_max_p1 (kv_cells kv ! s))) (of_nat ?n))))"
  let ?f = "\<lambda>j r. let s = si_strm si ! j in if s \<ge> length (kv_cells kv) then Inl Undefined
    else let c = kv_cells kv ! s in Inr (max (min (kv_cells_size c) (max ?n (unat (ggml_pad (of_nat (kv_cells_used_max_p1 c)) (of_nat ?n))))) r)"
  have le: "?v s \<le> kv_cap kv" if "s < kv_n_stream kv" for s using kv_wf_parts(8) [OF w that] by (simp add: kv_cells_size_def)
  have cov: "x < ?v s" if s: "s < kv_n_stream kv" and x: "x < kv_cap kv" "kc_pos (kv_cells kv ! s) ! x \<noteq> -1" for s x
  proof -
    let ?c = "kv_cells kv ! s"
    note inv = cells_okD(1) [OF kv_wf_parts(7) [OF w s]] and l = kv_wf_parts(8) [OF w s]
    have xm: "x \<in> kc_used ?c" using kv_cells_invD(7) [OF inv] x l by simp
    have fin: "finite (kc_used ?c)" "kc_used ?c \<subseteq> {..<kv_cap kv}" using kv_cells_invD(7) [OF inv] l by (auto intro: finite_subset)
    have "Max (kc_used ?c) \<in> kc_used ?c" using Max_in fin(1) xm by blast
    then have u: "x < kv_cells_used_max_p1 ?c" "kv_cells_used_max_p1 ?c \<le> kv_cap kv"
      using Max_ge [OF fin(1) xm] xm fin(2) by (auto simp: kv_cells_used_max_p1_def)
    then have "kv_cells_used_max_p1 ?c \<le> unat (ggml_pad (of_nat (kv_cells_used_max_p1 ?c)) (of_nat ?n))"
      using ggml_pad_le [OF k'] sz by simp
    then show ?thesis using u x l by (simp add: kv_cells_size_def)
  qed
  have "\<exists>n. fold_r ?f [0..<m] 0 = Inr n \<and> n \<le> kv_cap kv \<and>
      (\<forall>j < m. \<forall>x < kv_cap kv. kc_pos (kv_cells kv ! (si_strm si ! j)) ! x \<noteq> -1 \<longrightarrow> x < n)" if "m \<le> length (si_strm si)" for m
    using that
  proof (induction m)
    case (Suc m)
    then obtain n where n: "fold_r ?f [0..<m] 0 = Inr n" "n \<le> kv_cap kv"
        "\<forall>j < m. \<forall>x < kv_cap kv. kc_pos (kv_cells kv ! (si_strm si ! j)) ! x \<noteq> -1 \<longrightarrow> x < n" by (meson Suc_leD)
    have s: "si_strm si ! m < kv_n_stream kv" using si Suc.prems by simp
    have "fold_r ?f [0..<Suc m] 0 = Inr (max (?v (si_strm si ! m)) n)"
      using n(1) s kv_wf_parts(3) [OF w] by (simp add: fold_r_append Let_def)
    then show ?case using n(2,3) le [OF s] cov [OF s]
      by (intro exI [of _ "max (?v (si_strm si ! m)) n"]) (auto simp: less_Suc_eq less_max_iff_disj)
  qed simp
  from this [OF order_refl] show ?thesis unfolding get_n_kv_def Let_def by (auto simp: in_set_conv_nth)
qed

section \<open>Plain causal attention in a cache with one stream\<close>

lemma unified_stream:
  assumes "unified kv" and "known_seq kv s"
  shows "stream_idx kv s = 0"
  using kv_wf_parts(12) [OF unifiedD(1,2) [OF assms(1)]] assms(2) by (simp add: stream_idx_def known_seq_def)

lemma mask_spec_plain:
  assumes kv: "unified kv" "kv_swa_type kv = LLAMA_SWA_TYPE_NONE" and ub: "\<not> is_pos_2d ub" "known_seq kv (hd (ub_seq_id ub ! i))"
    "0 \<le> ub_pos ub ! i" and j: "j < kv_cap kv" "kv_cap kv \<le> 2 ^ 32"
  shows "mask_spec (kq_mask_args False kv ub n_kv 1 []) True i j =
    (if nat (hd (ub_seq_id ub ! i)) \<in> snd (kv_view kv ! 0 ! j) \<and> fst (kv_view kv ! 0 ! j) \<le> ub_pos ub ! i then Mask_keep 0 else Mask_drop)"
proof -
  let ?a = "kq_mask_args False kv ub n_kv 1 []" and ?c = "kv_cells kv ! 0" and ?s = "nat (hd (ub_seq_id ub ! i))"
  note u = unifiedD [OF kv(1)]
  have c: "token_cells ?a i = ?c" using unified_stream [OF kv(1) ub(2)] by (simp add: token_cells_def kq_mask_args_def token_seq_def stream_idx_def)
  have x: "mask_cell ?a j = Some j" using j by (simp add: mask_cell_def kq_mask_args_def u32_def)
  have z: "kv_view kv ! 0 ! j = (kc_pos ?c ! j, kc_seq ?c ! j)" using cells_okD(4) [OF u(7), of j] j(1) u(5,8) by (simp add: kv_view_def)
  have ts: "token_seq ?a i = hd (ub_seq_id ub ! i)" by (simp add: token_seq_def kq_mask_args_def)
  have sc: "seq_cell ?a ?c (token_seq ?a i) j = (if ?s \<in> kc_seq ?c ! j then Some j else None)"
    unfolding seq_cell_def x option.case ts using j(1) u(8) by simp
  have p: "0 \<le> kc_pos ?c ! j" if "?s \<in> kc_seq ?c ! j" using cells_okD(5,7) [OF u(7), of j] j(1) u(8) that by auto
  have m: "is_masked_swa (ma_n_swa ?a) (ma_swa_type ?a) (kc_pos ?c ! j) (ub_pos ub ! i) = Inr False" if "?s \<in> kc_seq ?c ! j"
    using p [OF that] ub(3) kv(2) by (simp add: is_masked_swa_def kq_mask_args_def)
  have "not_later ?a ?c i j \<longleftrightarrow> kc_pos ?c ! j \<le> ub_pos ub ! i" using ub(1) by (simp add: not_later_def kq_mask_args_def)
  then show ?thesis unfolding mask_spec_def Let_def c sc z using m by (auto simp: kq_mask_args_def)
qed

lemma ubatch_ok_owner:
  assumes "ubatch_ok ub" and "i < ub_n_tokens ub"
  shows "ub_seq_id ub ! i \<noteq> []" and "hd (ub_seq_id ub ! i) \<in> set (tok_owners ub i)" and "hd (ub_seq_id ub ! i) \<in> {0..<int LLAMA_MAX_SEQ}"
proof -
  have o: "0 < ub_n_seq_id ub ! i" "nat (ub_n_seq_id ub ! i) \<le> length (ub_seq_id ub ! i)" "set (tok_owners ub i) \<subseteq> {0..<int LLAMA_MAX_SEQ}"
    using assms by (simp_all add: ubatch_ok_def)
  then show ne: "ub_seq_id ub ! i \<noteq> []" by auto
  show h: "hd (ub_seq_id ub ! i) \<in> set (tok_owners ub i)"
    using o(1) ne unfolding tok_owners_def by (cases "ub_seq_id ub ! i"; cases "nat (ub_n_seq_id ub ! i)") auto
  then show "hd (ub_seq_id ub ! i) \<in> {0..<int LLAMA_MAX_SEQ}" using o(3) by blast
qed

lemma unified_mask_batch:
  assumes kv: "unified kv" and ub: "ubatch_ok ub" "length (ub_seq_id ub) = ub_n_tokens ub" "\<forall>i < ub_n_tokens ub. ub_pos ub ! i \<le> int INT32_MAX"
  shows "mask_batch kv ub" and "i < ub_n_tokens ub \<Longrightarrow> known_seq kv (hd (ub_seq_id ub ! i))"
proof -
  have k: "known_seq kv (hd (ub_seq_id ub ! i))" if "i < ub_n_tokens ub" for i
    using ubatch_ok_owner(3) [OF ub(1) that] kv_wf_parts(12) [OF unifiedD(1,2) [OF kv]] by (auto simp: known_seq_def)
  then show "i < ub_n_tokens ub \<Longrightarrow> known_seq kv (hd (ub_seq_id ub ! i))" .
  show "mask_batch kv ub" unfolding mask_batch_def
    using k ub ubatch_ok_owner(1) [OF ub(1)] by (auto simp: ubatch_ok_def)
qed

end
