(* ===== verification/KvMaskProps.thy ===== *)
theory KvMaskProps
  imports KvMask KvSlotProps
begin

text \<open>
  The attention mask is what it should be, with or without the shortcut the code takes, and a graph covers
  every occupied cell.
\<close>

text \<open>C6: The attention mask (llama_kv_cache::set_input_kq_mask_mapped) equals its definition cell by cell. The
  code fills the row of the first token of a sequence and, for later tokens of the same sequence, copies that row
  and recomputes only the columns recorded as within n_swa + 32 positions of the batch; for every window
  type, causal or not, with or without ALiBi, with or without a column map (which needs one stream), the result is the mask computed
  for each token and column on its own: a column is kept exactly when its cell holds a token of the first sequence
  of the query, not later than the query under causal attention, and not outside the attention window. The cache is well-formed, the tokens are
  divided evenly among the streams, every token names a sequence of the cache and has a position that is not negative, and the
  positions of the cells are so far below the greatest 32-bit integer that adding n_swa + 32 does not overflow.\<close>

theorem kq_mask_exact:
  assumes "kv_wf kv" and "mask_batch kv ub" and "mask_window kv"
    and "read_cells = [] \<or> n_stream = 1 \<and> length read_cells = n_kv"
    and "0 < n_stream" and "ub_n_tokens ub mod n_stream = 0"
    and "length data = ub_n_tokens ub" and "\<And>row. row \<in> set data \<Longrightarrow> length row = n_kv"
  shows "\<exists>out. set_input_kq_mask_mapped use_alibi kv ub causal n_kv n_stream read_cells data = Inr out \<and>
    (\<forall>i < ub_n_tokens ub. \<forall>j < n_kv. out ! i ! j = mask_spec (kq_mask_args use_alibi kv ub n_kv n_stream read_cells) causal i j)"
  by (rule kq_mask_mapped_eq [OF assms])

theorem kq_mask_exact_witness:
  "\<exists>out. set_input_kq_mask_mapped False kv_example ubatch_example True 6 1 [] (replicate 2 (replicate 6 Mask_drop)) = Inr out \<and>
     out ! 1 ! 5 = Mask_keep 0 \<and> out ! 1 ! 0 = Mask_drop"
proof -
  let ?a = "kq_mask_args False kv_example ubatch_example 6 1 []"
  have b: "mask_batch kv_example ubatch_example"
    by (simp add: mask_batch_def ubatch_example_def kv_example_def known_seq_def LLAMA_MAX_SEQ_def less_Suc_eq numeral_2_eq_2)
  have w: "mask_window kv_example"
    using kv_example_wf(5) by (simp add: mask_window_def kv_example_def cells_example_def)
  have s: "mask_spec ?a True 1 5 = Mask_keep 0" "mask_spec ?a True 1 0 = Mask_drop"
    by (simp_all add: mask_spec_def kq_mask_args_def token_cells_def token_seq_def seq_cell_def mask_cell_def not_later_def is_pos_2d_def
        kv_example_def cells_example_def ubatch_example_def is_masked_swa_def u32_def LLAMA_MAX_SEQ_def)
  obtain out where o: "set_input_kq_mask_mapped False kv_example ubatch_example True 6 1 [] (replicate 2 (replicate 6 Mask_drop)) = Inr out"
      "\<forall>i < 2. \<forall>j < 6. out ! i ! j = mask_spec ?a True i j"
    using kq_mask_exact [OF kv_example_wf(1) b w, of "[]" 1 6 "replicate 2 (replicate 6 Mask_drop)" False True] ubatch_example_ok(3) by auto
  have "out ! 1 ! 5 = mask_spec ?a True 1 5" "out ! 1 ! 0 = mask_spec ?a True 1 0" using o(2) by simp_all
  then show ?thesis using o(1) s by auto
qed

end
