(* ===== verification/KvContext.thy ===== *)
theory KvContext
  imports KvMask
begin

text \<open>
  Memory contexts: the object through which a batch is processed or pending updates are applied,
  \<^verbatim>\<open>llama_kv_cache_context\<close> of \<^verbatim>\<open>src/llama-kv-cache.cpp\<close>, with the functions of the cache that make one
  (\<open>init_batch\<close>, \<open>init_kv_batch\<close>, \<open>init_full\<close>, \<open>init_update\<close>) and \<open>update\<close>, which applies pending copies and shifts. Whether
  a compute graph is allocated and computed is a parameter.
\<close>

section \<open>Status of a context\<close>

datatype llama_memory_status =
    LLAMA_MEMORY_STATUS_SUCCESS
  | LLAMA_MEMORY_STATUS_NO_UPDATE
  | LLAMA_MEMORY_STATUS_FAILED_PREPARE
  | LLAMA_MEMORY_STATUS_FAILED_COMPUTE

fun llama_memory_status_is_fail :: "llama_memory_status \<Rightarrow> bool" where
  "llama_memory_status_is_fail LLAMA_MEMORY_STATUS_SUCCESS = False"
| "llama_memory_status_is_fail LLAMA_MEMORY_STATUS_NO_UPDATE = False"
| "llama_memory_status_is_fail LLAMA_MEMORY_STATUS_FAILED_PREPARE = True"
| "llama_memory_status_is_fail LLAMA_MEMORY_STATUS_FAILED_COMPUTE = True"

definition llama_memory_status_combine :: "llama_memory_status \<Rightarrow> llama_memory_status \<Rightarrow> llama_memory_status" where
  "llama_memory_status_combine s0 s1 =
     (if llama_memory_status_is_fail s0 then s0
      else if llama_memory_status_is_fail s1 then s1
      else if s0 = LLAMA_MEMORY_STATUS_SUCCESS \<or> s1 = LLAMA_MEMORY_STATUS_SUCCESS
      then LLAMA_MEMORY_STATUS_SUCCESS else LLAMA_MEMORY_STATUS_NO_UPDATE)"

section \<open>Pending updates\<close>

text \<open>What the update asks of its surroundings: the architecture without a shift, the kind of position encoding,
  and whether the graphs are allocated and computed.\<close>

record graph_env =
  ge_step35 :: bool
  ge_rope :: bool
  ge_copy_alloc :: bool
  ge_copy_compute :: bool
  ge_shift_alloc :: bool
  ge_shift_compute :: bool

definition llama_kv_tail_copy_transaction ::
    "bool \<Rightarrow> bool \<Rightarrow> bool \<Rightarrow> ('s \<Rightarrow> 's res) \<Rightarrow> 's \<Rightarrow> (llama_memory_status \<times> 's) res" where
  "llama_kv_tail_copy_transaction allocate transfer compute rollback s =
     (if \<not> allocate then bind_r (rollback s) (\<lambda>s. Inr (LLAMA_MEMORY_STATUS_FAILED_PREPARE, s))
      else if \<not> transfer then bind_r (rollback s) (\<lambda>s. Inr (LLAMA_MEMORY_STATUS_FAILED_PREPARE, s))
      else if \<not> compute then bind_r (rollback s) (\<lambda>s. Inr (LLAMA_MEMORY_STATUS_FAILED_COMPUTE, s))
      else Inr (LLAMA_MEMORY_STATUS_SUCCESS, s))"

definition kv_get_can_shift :: "graph_env \<Rightarrow> llama_kv_cache \<Rightarrow> bool" where
  "kv_get_can_shift env kv = (\<not> ge_step35 env \<and> \<not> kv_n_pos_per_embd kv > 1)"

definition fail_pending_tail_copy :: "stream_copy_info \<Rightarrow> llama_kv_cache \<Rightarrow> llama_kv_cache res" where
  "fail_pending_tail_copy sc kv =
     (case kv_tail kv of None \<Rightarrow> Inr kv | Some t \<Rightarrow>
        if \<not> sc_tail_transaction sc then Inr kv
        else let dst = pending_seq_cp_destination t
             in bind_r (with_tail cancel_seq_cp kv) (\<lambda>kv.
                  if dst \<ge> 0 then bind_r (kv_seq_rm dst (-1) (-1) kv) (\<lambda>(_, kv). Inr kv) else Inr kv))"

text \<open>The copies: whole streams, then rows of the exact tail as one transaction, then the commit of the
  transaction. A failed copy ends the update.\<close>

definition update_copies ::
    "graph_env \<Rightarrow> stream_copy_info \<Rightarrow> llama_kv_cache \<Rightarrow> (llama_memory_status \<times> llama_kv_cache) res" where
  "update_copies env sc kv =
     assert_r (sc_ssrc sc \<noteq> [] \<longrightarrow> kv_n_stream kv > 1)
       (assert_r (list_all2 (\<lambda>s d. s < kv_n_stream kv \<and> d < kv_n_stream kv \<and> s \<noteq> d) (sc_ssrc sc) (sc_sdst sc))
         (let r = (if sc_ssrc sc = [] then LLAMA_MEMORY_STATUS_NO_UPDATE else LLAMA_MEMORY_STATUS_SUCCESS)
          in bind_r (if sc_tail_src sc = [] then Inr (r, kv)
                     else llama_kv_tail_copy_transaction (ge_copy_alloc env) True (ge_copy_compute env)
                            (fail_pending_tail_copy sc) kv) (\<lambda>(r, kv).
             if llama_memory_status_is_fail r then Inr (r, kv)
             else if kv_tail kv \<noteq> None \<and> sc_tail_transaction sc
             then bind_r (with_tail commit_seq_cp kv) (\<lambda>kv. Inr (LLAMA_MEMORY_STATUS_SUCCESS, kv))
             else Inr (r, kv))))"

definition update_shift :: "graph_env \<Rightarrow> llama_kv_cache \<Rightarrow> (llama_memory_status \<times> llama_kv_cache) res" where
  "update_shift env kv =
     (if \<not> kv_get_can_shift env kv then Inl Assert_fail
      else if ge_rope env \<and> \<not> ge_shift_alloc env then Inr (LLAMA_MEMORY_STATUS_FAILED_PREPARE, kv)
      else if ge_rope env \<and> \<not> ge_shift_compute env then Inr (LLAMA_MEMORY_STATUS_FAILED_COMPUTE, kv)
      else if kv_n_stream kv > length (kv_cells kv) then Inl Undefined
      else Inr (LLAMA_MEMORY_STATUS_SUCCESS,
                kv\<lparr>kv_cells := map kv_cells_reset_shift (take (kv_n_stream kv) (kv_cells kv)) @ drop (kv_n_stream kv) (kv_cells kv)\<rparr>))"

definition kv_update ::
    "graph_env \<Rightarrow> bool \<Rightarrow> stream_copy_info \<Rightarrow> llama_kv_cache \<Rightarrow> (llama_memory_status \<times> llama_kv_cache) res" where
  "kv_update env do_shift sc kv =
     (if kv_other kv \<noteq> None then Inr (LLAMA_MEMORY_STATUS_NO_UPDATE, kv)
      else bind_r (sc_empty sc) (\<lambda>e.
           bind_r (if e then Inr (LLAMA_MEMORY_STATUS_NO_UPDATE, kv) else update_copies env sc kv) (\<lambda>(r, kv).
             if llama_memory_status_is_fail r then Inr (r, kv)
             else if do_shift then update_shift env kv
             else Inr (r, kv))))"

section \<open>The context of one cache\<close>

record llama_kv_cache_context =
  kx_status :: llama_memory_status
  kx_n_kv :: nat
  kx_do_shift :: bool
  kx_sc_info :: stream_copy_info
  kx_i_cur :: nat
  kx_sinfos :: "slot_info list"
  kx_ubatches :: "llama_ubatch list"
  kx_graph_started :: bool

definition context_status :: "llama_memory_status \<Rightarrow> llama_kv_cache_context" where
  "context_status st = \<lparr>kx_status = st, kx_n_kv = 0, kx_do_shift = False, kx_sc_info = sc_none, kx_i_cur = 0,
     kx_sinfos = [], kx_ubatches = [], kx_graph_started = False\<rparr>"

definition kv_init_full :: "llama_kv_cache \<Rightarrow> llama_kv_cache_context res" where
  "kv_init_full kv = bind_r (kv_get_size kv) (\<lambda>n.
     Inr ((context_status LLAMA_MEMORY_STATUS_SUCCESS)\<lparr>kx_n_kv := n,
       kx_sinfos := [\<lparr>si_s0 = 0, si_s1 = kv_n_stream kv - 1, si_strm = [0..<kv_n_stream kv],
                      si_idxs = replicate (kv_n_stream kv) [0]\<rparr>]\<rparr>))"

definition context_update :: "bool \<Rightarrow> stream_copy_info \<Rightarrow> llama_kv_cache_context res" where
  "context_update do_shift sc =
     bind_r (if do_shift then Inr False else sc_empty sc) (\<lambda>none.
       Inr ((context_status (if none then LLAMA_MEMORY_STATUS_NO_UPDATE else LLAMA_MEMORY_STATUS_SUCCESS))
         \<lparr>kx_do_shift := do_shift, kx_sc_info := sc\<rparr>))"

definition kv_init_update :: "llama_kv_cache \<Rightarrow> (llama_kv_cache_context \<times> llama_kv_cache) res" where
  "kv_init_update kv = bind_r (context_update (kv_get_has_shift kv) (kv_sc_info kv)) (\<lambda>ctx.
     Inr (ctx, kv\<lparr>kv_sc_info := sc_none\<rparr>))"

definition context_batch :: "slot_info list \<Rightarrow> llama_ubatch list \<Rightarrow> llama_kv_cache_context" where
  "context_batch sis ubs = (context_status LLAMA_MEMORY_STATUS_SUCCESS)\<lparr>kx_sinfos := sis, kx_ubatches := ubs\<rparr>"

definition kv_init_kv_batch :: "llama_ubatch list \<Rightarrow> llama_kv_cache \<Rightarrow> (llama_kv_cache_context \<times> llama_kv_cache) res" where
  "kv_init_kv_batch ubs kv = bind_r (kv_prepare ubs kv) (\<lambda>(sis, kv).
     Inr (if sis = [] then context_status LLAMA_MEMORY_STATUS_FAILED_PREPARE else context_batch sis ubs, kv))"

definition kv_cache_split :: "nat \<Rightarrow> nat \<Rightarrow> llama_batch_allocr \<Rightarrow> (llama_ubatch \<times> llama_batch_allocr) res" where
  "kv_cache_split n_stream n_ubatch = (if n_stream = 1 then split_simple n_ubatch else split_equal n_ubatch True 0)"

text \<open>\<open>init_batch\<close> cuts the batch until the split returns nothing, and rehearses the micro-batches. The first
  argument bounds the number of micro-batches; \<open>None\<close> is a cut that has not ended.\<close>

definition kv_init_batch ::
    "nat \<Rightarrow> nat \<Rightarrow> llama_batch_allocr \<Rightarrow> llama_kv_cache \<Rightarrow>
     (llama_kv_cache_context \<times> llama_batch_allocr \<times> llama_kv_cache) option res" where
  "kv_init_batch fuel n_ubatch a kv =
     bind_r (split_all fuel (kv_cache_split (kv_n_stream kv) n_ubatch) (split_reset a)) (\<lambda>r.
       case r of None \<Rightarrow> Inr None
       | Some (us, a) \<Rightarrow>
           if get_n_used a < get_n_tokens a
           then Inr (Some (context_status LLAMA_MEMORY_STATUS_FAILED_PREPARE, a, kv))
           else bind_r (kv_prepare us kv) (\<lambda>(sis, kv).
             Inr (Some (if sis = [] then context_status LLAMA_MEMORY_STATUS_FAILED_PREPARE else context_batch sis us, a, kv))))"

definition context_next :: "llama_kv_cache_context \<Rightarrow> (bool \<times> llama_kv_cache_context) res" where
  "context_next ctx =
     assert_r (kx_status ctx = LLAMA_MEMORY_STATUS_SUCCESS)
       (let i = kx_i_cur ctx + 1 in Inr (\<not> i \<ge> length (kx_ubatches ctx), ctx\<lparr>kx_i_cur := i\<rparr>))"

definition context_apply ::
    "graph_env \<Rightarrow> nat \<Rightarrow> llama_kv_cache_context \<Rightarrow> llama_kv_cache \<Rightarrow> (bool \<times> llama_kv_cache_context \<times> llama_kv_cache) res" where
  "context_apply env n_pad ctx kv =
     assert_r (\<not> llama_memory_status_is_fail (kx_status ctx))
       (if kx_ubatches ctx = []
        then bind_r (kv_update env (kx_do_shift ctx) (kx_sc_info ctx) kv) (\<lambda>(st, kv).
               Inr (\<not> llama_memory_status_is_fail st, ctx\<lparr>kx_status := st\<rparr>, kv))
        else if kx_i_cur ctx \<ge> length (kx_ubatches ctx) \<or> kx_i_cur ctx \<ge> length (kx_sinfos ctx) then Inl Undefined
        else let si = kx_sinfos ctx ! kx_i_cur ctx
             in bind_r (apply_ubatch si (kx_ubatches ctx ! kx_i_cur ctx) kv) (\<lambda>kv.
                bind_r (get_n_kv n_pad kv si) (\<lambda>n. Inr (True, ctx\<lparr>kx_n_kv := n\<rparr>, kv))))"

definition context_compute_start :: "llama_kv_cache_context \<Rightarrow> llama_kv_cache_context" where
  "context_compute_start ctx = ctx\<lparr>kx_graph_started := True\<rparr>"

definition context_compute_finish ::
    "bool \<Rightarrow> llama_kv_cache_context \<Rightarrow> llama_kv_cache \<Rightarrow> (llama_kv_cache_context \<times> llama_kv_cache) res" where
  "context_compute_finish success ctx kv =
     bind_r (if kx_ubatches ctx = [] then Inr kv
             else finish_tail_batch success (kx_graph_started ctx \<and> \<not> success) kv) (\<lambda>kv.
       Inr (ctx\<lparr>kx_graph_started := False\<rparr>, kv))"

end
