(* ===== verification/Decode.thy ===== *)
theory Decode
  imports KvContext
begin

text \<open>
  Processing a batch, \<^verbatim>\<open>llama_context::decode\<close> of \<^verbatim>\<open>src/llama-context.cpp\<close>, over an ordinary KV cache: pending
  memory updates, the search for room, the loop over micro-batches with the clean-up after a failed graph,
  and the bookkeeping of the outputs. What a graph computes, and whether it can be built, allocated and
  computed, are parameters. A row of an output buffer is one value; a row that was not written since the buffer
  was reserved for this batch is \<open>None\<close>, whatever bytes an older batch left in it.
  Not modelled: contexts without a memory (they encode), the buffers of backend samplers, pooled
  embeddings (\<open>pooling_type\<close> is \<open>NONE\<close> here), the rows of \<open>embd_nextn\<close>, the embedding buffer T5 always has, timing, and the
  reservation of the scheduler. A batch that the allocator refuses leaves its old contents in \<open>lc_balloc\<close>: the next call
  of \<open>init\<close> clears it in any case.
\<close>

section \<open>State and parameters\<close>

datatype ggml_status = GGML_STATUS_ALLOC_FAILED | GGML_STATUS_FAILED | GGML_STATUS_SUCCESS | GGML_STATUS_ABORTED

text \<open>How the graph of a micro-batch fares: it is not built, not allocated, or computed with a status.\<close>

datatype graph_run = Build_failed | Alloc_failed | Computed ggml_status

record llama_cparams =
  cp_n_batch :: nat
  cp_n_ubatch :: nat
  cp_n_seq_max :: nat
  cp_n_outputs_max :: nat
  cp_n_outputs_max_per_seq :: nat
  cp_kv_unified :: bool
  cp_causal_attn :: bool
  cp_embeddings :: bool
  cp_embeddings_layer_inp :: "bool list"

record 'v llama_context =
  lc_memory :: llama_kv_cache
  lc_balloc :: llama_batch_allocr
  lc_samplers :: "int set"
  lc_n_outputs :: nat
  lc_output_ids :: "int list"
  lc_output_swaps :: "(nat \<times> nat) list"
  lc_logits :: "'v option list"
  lc_embd :: "'v option list"
  lc_embd_layer_inp :: "'v option list list"

text \<open>The surroundings: the graphs of a memory update, the graph reserved after it, the allocation of the output
  buffer, the graph of the \<open>i\<close>-th micro-batch, and the rows it computes for a token of it.\<close>

record 'v decode_env =
  de_update :: graph_env
  de_reserve :: bool
  de_output_alloc :: bool
  de_n_pad :: nat
  de_run :: "nat \<Rightarrow> graph_run"
  de_logits :: "llama_ubatch \<Rightarrow> nat \<Rightarrow> 'v"
  de_embd :: "llama_ubatch \<Rightarrow> nat \<Rightarrow> 'v"
  de_layer_inp :: "nat \<Rightarrow> llama_ubatch \<Rightarrow> nat \<Rightarrow> 'v"

section \<open>Memory updates\<close>

definition memory_update :: "'v decode_env \<Rightarrow> llama_kv_cache \<Rightarrow> (llama_memory_status \<times> llama_kv_cache) res" where
  "memory_update env kv =
     bind_r (kv_init_update kv) (\<lambda>(ctx, kv).
       case kx_status ctx of
         LLAMA_MEMORY_STATUS_NO_UPDATE \<Rightarrow> Inr (LLAMA_MEMORY_STATUS_NO_UPDATE, kv)
       | LLAMA_MEMORY_STATUS_FAILED_PREPARE \<Rightarrow> Inr (kx_status ctx, kv)
       | LLAMA_MEMORY_STATUS_FAILED_COMPUTE \<Rightarrow> Inr (kx_status ctx, kv)
       | LLAMA_MEMORY_STATUS_SUCCESS \<Rightarrow>
           bind_r (context_apply (de_update env) (de_n_pad env) ctx kv) (\<lambda>(ok, ctx, kv).
             if \<not> ok
             then Inr (if llama_memory_status_is_fail (kx_status ctx) then kx_status ctx
                       else LLAMA_MEMORY_STATUS_FAILED_COMPUTE, kv)
             else if kx_status ctx = LLAMA_MEMORY_STATUS_NO_UPDATE then Inr (LLAMA_MEMORY_STATUS_NO_UPDATE, kv)
             else bind_r (kv_init_full kv) (\<lambda>_.
               Inr (if de_reserve env then LLAMA_MEMORY_STATUS_SUCCESS else LLAMA_MEMORY_STATUS_FAILED_PREPARE, kv))))"

section \<open>One micro-batch\<close>

definition process_ubatch ::
    "'v decode_env \<Rightarrow> llama_kv_cache_context \<Rightarrow> llama_kv_cache \<Rightarrow>
     (ggml_status \<times> llama_kv_cache_context \<times> llama_kv_cache) res" where
  "process_ubatch env mctx kv =
     bind_r (context_apply (de_update env) (de_n_pad env) mctx kv) (\<lambda>(ok, mctx, kv).
       if \<not> ok then Inr (GGML_STATUS_FAILED, mctx, kv)
       else case de_run env (kx_i_cur mctx) of
              Build_failed \<Rightarrow> bind_r (context_compute_finish False mctx kv) (\<lambda>(mctx, kv).
                Inr (GGML_STATUS_FAILED, mctx, kv))
            | Alloc_failed \<Rightarrow> bind_r (context_compute_finish False mctx kv) (\<lambda>(mctx, kv).
                Inr (GGML_STATUS_ALLOC_FAILED, mctx, kv))
            | Computed status \<Rightarrow>
                bind_r (context_compute_finish (status = GGML_STATUS_SUCCESS) (context_compute_start mctx) kv) (\<lambda>(mctx, kv).
                Inr (status, mctx, kv)))"

text \<open>After a failure: every sequence that is the first of a token of the micro-batch loses everything from its
  first position in the micro-batch on. The result of the removal is not looked at.\<close>

definition remove_failed :: "llama_ubatch \<Rightarrow> llama_kv_cache \<Rightarrow> llama_kv_cache res" where
  "remove_failed ub kv =
     bind_r (batch_pos_min ub) (\<lambda>pos_min.
       fold_r (\<lambda>s kv. if pos_min (int s) = int INT32_MAX then Inr kv
                else bind_r (kv_seq_rm (int s) (pos_min (int s)) (-1) kv) (\<lambda>(_, kv). Inr kv))
         [0..<LLAMA_MAX_SEQ] kv)"

fun failure_code :: "ggml_status \<Rightarrow> int res" where
  "failure_code GGML_STATUS_ABORTED = Inr 2"
| "failure_code GGML_STATUS_ALLOC_FAILED = Inr (-2)"
| "failure_code GGML_STATUS_FAILED = Inr (-3)"
| "failure_code GGML_STATUS_SUCCESS = Inl Assert_fail"

section \<open>Outputs\<close>

definition needs_raw_logits :: "llama_ubatch \<Rightarrow> int set \<Rightarrow> bool" where
  "needs_raw_logits ub samplers =
     list_ex (\<lambda>i. ub_output ub ! i \<noteq> 0 \<and>
         list_ex (\<lambda>j. ub_seq_id ub ! i ! j \<notin> samplers) [0..<nat (ub_n_seq_id ub ! i)]) [0..<ub_n_tokens ub]"

definition count_new_outputs :: "nat \<Rightarrow> nat \<Rightarrow> llama_ubatch \<Rightarrow> nat" where
  "count_new_outputs n_outputs_all n_tokens_all ub =
     (if n_outputs_all = n_tokens_all then ub_n_tokens ub
      else count_if (\<lambda>i. ub_output ub ! i \<noteq> 0) [0..<ub_n_tokens ub])"

text \<open>The tokens whose rows the graph keeps (\<^verbatim>\<open>llm_graph_input_out_ids::set_input\<close>); the input has room for \<open>n_outputs\<close>
  of them.\<close>

definition out_ids_set_input :: "nat \<Rightarrow> llama_ubatch \<Rightarrow> nat list res" where
  "out_ids_set_input n_outputs ub =
     (if n_outputs = ub_n_tokens ub then Inr [0..<ub_n_tokens ub]
      else let ids = filter (\<lambda>i. ub_output ub ! i \<noteq> 0) [0..<ub_n_tokens ub]
           in if length ids > n_outputs then Inl Undefined else Inr ids)"

text \<open>A copy of rows into a buffer, from row \<open>base\<close> on.\<close>

definition write_rows :: "nat \<Rightarrow> 'v list \<Rightarrow> 'v option list \<Rightarrow> 'v option list" where
  "write_rows base rows buf = take base buf @ map Some rows @ drop (base + length rows) buf"

definition extract_rows :: "nat \<Rightarrow> nat \<Rightarrow> nat \<Rightarrow> 'v list \<Rightarrow> 'v option list \<Rightarrow> 'v option list res" where
  "extract_rows n_outputs_prev n_outputs n_outputs_all rows buf =
     assert_r (n_outputs_prev + n_outputs \<le> n_outputs_all)
       (assert_r (n_outputs_prev + n_outputs \<le> length buf)
         (if length rows < n_outputs then Inl Undefined else Inr (write_rows n_outputs_prev (take n_outputs rows) buf)))"

definition extract_layer_inputs ::
    "'v decode_env \<Rightarrow> llama_cparams \<Rightarrow> llama_ubatch \<Rightarrow> nat \<Rightarrow> 'v option list list \<Rightarrow> 'v option list list res" where
  "extract_layer_inputs env cp ub token_offset =
     fold_r (\<lambda>il bufs.
         if \<not> cp_embeddings_layer_inp cp ! il then Inr bufs
         else if il \<ge> length bufs then Inl Undefined
         else assert_r (bufs ! il \<noteq> [])
           (assert_r (ub_n_tokens ub > 0)
             (assert_r (token_offset + ub_n_tokens ub \<le> length (bufs ! il))
               (Inr (bufs[il := write_rows token_offset (map (de_layer_inp env il ub) [0..<ub_n_tokens ub]) (bufs ! il)])))))
       [0..<length (cp_embeddings_layer_inp cp)]"

text \<open>Buffers of \<open>n_outputs_max\<close> rows (and one row per token of the largest batch for each layer input). The
  buffer is kept when it is large enough and allocated again otherwise.\<close>

definition output_reserve ::
    "'v decode_env \<Rightarrow> llama_cparams \<Rightarrow> nat \<Rightarrow> 'v llama_context \<Rightarrow> (nat \<times> 'v llama_context) res" where
  "output_reserve env cp n_outputs ctx =
     (let n_outputs_max = max n_outputs (cp_n_seq_max cp);
          ids = (if lc_output_ids ctx = [] then replicate (cp_n_batch cp) 0 else lc_output_ids ctx)
      in if \<not> de_output_alloc env
         then Inr (0, ctx\<lparr>lc_output_ids := ids, lc_logits := [], lc_embd := [],
                        lc_embd_layer_inp := map (\<lambda>_. []) (lc_embd_layer_inp ctx)\<rparr>)
         else assert_r (n_outputs_max \<le> cp_n_outputs_max cp)
           (Inr (n_outputs_max, ctx\<lparr>
              lc_output_ids := map (\<lambda>_. -1) ids,
              lc_logits := replicate n_outputs_max None,
              lc_embd := (if cp_embeddings cp then replicate n_outputs_max None else []),
              lc_embd_layer_inp := map (\<lambda>on. if on then replicate (cp_n_batch cp) None else []) (cp_embeddings_layer_inp cp),
              lc_n_outputs := 0\<rparr>)))"

text \<open>The output order: \<open>output_ids\<close> maps a token of the batch to its row; when the tokens were processed in another
  order than that of the batch, a selection sort of the rows is recorded as swaps.\<close>

definition sort_step :: "nat \<Rightarrow> nat \<Rightarrow> nat list \<times> (nat \<times> nat) list \<Rightarrow> nat list \<times> (nat \<times> nat) list" where
  "sort_step n i st =
     (let out_ids = fst st;
          j_min = fold (\<lambda>j m. if out_ids ! j < out_ids ! m then j else m) [i + 1..<n] i
      in if j_min = i then st
         else (out_ids[i := out_ids ! j_min, j_min := out_ids ! i], snd st @ [(i, j_min)]))"

definition assign_ids :: "nat list \<Rightarrow> int list \<Rightarrow> int list res" where
  "assign_ids out_ids ids =
     fold_r (\<lambda>i ids. if out_ids ! i \<ge> length ids then Inl Undefined else Inr (ids[out_ids ! i := int i]))
       [0..<length out_ids] ids"

definition set_output_mapping :: "nat \<Rightarrow> 'v llama_context \<Rightarrow> 'v llama_context res" where
  "set_output_mapping n_outputs ctx =
     (if n_outputs = 0 then Inr ctx
      else let out_ids = ba_out_ids (lc_balloc ctx)
           in assert_r (length out_ids = n_outputs)
             (bind_r (assign_ids out_ids (lc_output_ids ctx)) (\<lambda>ids.
                if out_ids = [0..<n_outputs] \<or> n_outputs \<le> 1 then Inr (ctx\<lparr>lc_output_ids := ids\<rparr>)
                else let (sorted, swaps) = fold (sort_step n_outputs) [0..<n_outputs - 1] (out_ids, lc_output_swaps ctx)
                     in bind_r (assign_ids sorted (map (\<lambda>_. -1) ids)) (\<lambda>ids.
                          Inr (ctx\<lparr>lc_balloc := (lc_balloc ctx)\<lparr>ba_out_ids := sorted\<rparr>,
                                 lc_output_swaps := swaps, lc_output_ids := ids\<rparr>)))))"

definition swap_rows :: "nat \<times> nat \<Rightarrow> 'a list \<Rightarrow> 'a list res" where
  "swap_rows s buf = (if buf = [] then Inr buf
     else if fst s \<ge> length buf \<or> snd s \<ge> length buf then Inl Undefined
     else Inr (buf[fst s := buf ! snd s, snd s := buf ! fst s]))"

definition output_reorder :: "'v llama_context \<Rightarrow> 'v llama_context res" where
  "output_reorder ctx =
     bind_r (fold_r (\<lambda>s ctx.
         bind_r (swap_rows s (lc_logits ctx)) (\<lambda>lg.
         bind_r (swap_rows s (lc_embd ctx)) (\<lambda>em.
         bind_r (map_r (swap_rows s) (lc_embd_layer_inp ctx)) (\<lambda>li.
           Inr (ctx\<lparr>lc_logits := lg, lc_embd := em, lc_embd_layer_inp := li\<rparr>)))))
       (lc_output_swaps ctx) ctx) (\<lambda>ctx. Inr (ctx\<lparr>lc_output_swaps := []\<rparr>))"

definition output_resolve_row :: "'v llama_context \<Rightarrow> int \<Rightarrow> int res" where
  "output_resolve_row ctx i =
     bind_r (if i < 0 then let j = int (lc_n_outputs ctx) + i in if j < 0 then Inl Runtime_error else Inr j
             else if nat i \<ge> length (lc_output_ids ctx) then Inl Runtime_error
             else Inr (lc_output_ids ctx ! nat i)) (\<lambda>j.
       if j < 0 then Inl Runtime_error
       else if j \<ge> int (lc_n_outputs ctx) then Inl Runtime_error
       else Inr j)"

text \<open>The row a caller reads for a token of the batch. An exception is caught: without assertions the
  function returns no row.\<close>

definition get_logits_ith :: "int \<Rightarrow> 'v llama_context \<Rightarrow> ('v option option \<times> 'v llama_context) res" where
  "get_logits_ith i ctx =
     bind_r (output_reorder ctx) (\<lambda>ctx.
       if lc_logits ctx = [] then Inr (None, ctx)
       else case output_resolve_row ctx i of
              Inl _ \<Rightarrow> Inr (None, ctx)
            | Inr j \<Rightarrow> if nat j \<ge> length (lc_logits ctx) then Inl Undefined else Inr (Some (lc_logits ctx ! nat j), ctx))"

section \<open>The loop over micro-batches\<close>

definition extract_outputs ::
    "'v decode_env \<Rightarrow> llama_cparams \<Rightarrow> nat \<Rightarrow> llama_ubatch \<Rightarrow> nat \<Rightarrow> nat \<Rightarrow> 'v llama_context \<Rightarrow> 'v llama_context res" where
  "extract_outputs env cp n_outputs_all ub n_outputs_prev n_tokens_prev ctx =
     (let n_outputs = lc_n_outputs ctx
      in bind_r (out_ids_set_input n_outputs ub) (\<lambda>ids.
         bind_r (if lc_logits ctx \<noteq> [] \<and> n_outputs > 0 \<and> needs_raw_logits ub (lc_samplers ctx)
                 then extract_rows n_outputs_prev n_outputs n_outputs_all (map (de_logits env ub) ids) (lc_logits ctx)
                 else Inr (lc_logits ctx)) (\<lambda>lg.
         bind_r (if lc_embd ctx \<noteq> [] \<and> cp_embeddings cp \<and> n_outputs > 0
                 then extract_rows n_outputs_prev n_outputs n_outputs_all (map (de_embd env ub) ids) (lc_embd ctx)
                 else Inr (lc_embd ctx)) (\<lambda>em.
         bind_r (extract_layer_inputs env cp ub n_tokens_prev (lc_embd_layer_inp ctx)) (\<lambda>li.
           Inr (ctx\<lparr>lc_logits := lg, lc_embd := em, lc_embd_layer_inp := li\<rparr>))))))"

fun decode_loop ::
    "nat \<Rightarrow> 'v decode_env \<Rightarrow> llama_cparams \<Rightarrow> nat \<Rightarrow> nat \<Rightarrow> llama_kv_cache_context \<Rightarrow> nat \<Rightarrow> nat \<Rightarrow> 'v llama_context \<Rightarrow>
     (int \<times> 'v llama_context) option res" where
  "decode_loop 0 env cp n_outputs_all n_tokens_all mctx n_outputs_prev n_tokens_prev ctx = Inr None"
| "decode_loop (Suc fuel) env cp n_outputs_all n_tokens_all mctx n_outputs_prev n_tokens_prev ctx =
     (if kx_i_cur mctx \<ge> length (kx_ubatches mctx) then Inl Undefined
      else
        let ub = kx_ubatches mctx ! kx_i_cur mctx;
            ctx = ctx\<lparr>lc_n_outputs := count_new_outputs n_outputs_all n_tokens_all ub\<rparr>
        in bind_r (process_ubatch env mctx (lc_memory ctx)) (\<lambda>(status, mctx, kv).
             if status \<noteq> GGML_STATUS_SUCCESS
             then bind_r (remove_failed ub kv) (\<lambda>kv.
                  bind_r (failure_code status) (\<lambda>code. Inr (Some (code, ctx\<lparr>lc_memory := kv\<rparr>))))
             else bind_r (extract_outputs env cp n_outputs_all ub n_outputs_prev n_tokens_prev (ctx\<lparr>lc_memory := kv\<rparr>)) (\<lambda>ctx.
                  bind_r (context_next mctx) (\<lambda>(more, mctx).
                    if more
                    then decode_loop fuel env cp n_outputs_all n_tokens_all mctx (n_outputs_prev + lc_n_outputs ctx)
                           (n_tokens_prev + ub_n_tokens ub) ctx
                    else bind_r (set_output_mapping n_outputs_all (ctx\<lparr>lc_n_outputs := n_outputs_all\<rparr>)) (\<lambda>ctx.
                           Inr (Some (0, ctx)))))))"

section \<open>Processing a batch\<close>

text \<open>With backend samplers the number of outputs per sequence is limited; the count follows the caller's batch,
  before its missing fields are filled in.\<close>

definition sampler_outputs_ok :: "llama_cparams \<Rightarrow> nat \<Rightarrow> bool \<Rightarrow> llama_batch \<Rightarrow> int set \<Rightarrow> bool" where
  "sampler_outputs_ok cp n_seq_max output_all b samplers =
     (if samplers \<noteq> {} \<and> (output_all \<or> b_logits b \<noteq> None)
      then fst (fold (\<lambda>i st. if \<not> output_all \<and> the (b_logits b) ! i = 0 then st
             else fold (\<lambda>j st. let s = (case b_seq_id b of None \<Rightarrow> 0 | Some rows \<Rightarrow> rows ! i ! j)
                       in if \<not> fst st \<or> s < 0 \<or> s \<ge> int n_seq_max then st
                          else (\<not> (s \<in> samplers \<and> snd st (nat s) + 1 > cp_n_outputs_max_per_seq cp),
                                (snd st)(nat s := snd st (nat s) + 1)))
                    [0..<(case b_n_seq_id b of None \<Rightarrow> 1 | Some ks \<Rightarrow> nat (ks ! i))] st)
             [0..<nat (b_n_tokens b)] (True, \<lambda>_. 0 :: nat))
      else True)"

text \<open>The memory context of the batch. A cache without room is given one update and one more try; \<open>Inl\<close> is the
  code \<open>decode\<close> returns.\<close>

definition batch_context ::
    "'v decode_env \<Rightarrow> nat \<Rightarrow> llama_batch_allocr \<Rightarrow> llama_kv_cache \<Rightarrow>
     ((int + llama_kv_cache_context) \<times> llama_batch_allocr \<times> llama_kv_cache) option res" where
  "batch_context env n_ubatch a kv =
     (let attempt = kv_init_batch (Suc (get_n_tokens a)) n_ubatch;
          outcome = (\<lambda>ctx. case kx_status ctx of LLAMA_MEMORY_STATUS_SUCCESS \<Rightarrow> Inr ctx
             | LLAMA_MEMORY_STATUS_FAILED_PREPARE \<Rightarrow> Inl 1 | _ \<Rightarrow> Inl (-2))
      in bind_r (attempt a kv) (\<lambda>r. case r of None \<Rightarrow> Inr None
         | Some (ctx, a, kv) \<Rightarrow>
             if kx_status ctx \<noteq> LLAMA_MEMORY_STATUS_FAILED_PREPARE then Inr (Some (outcome ctx, a, kv))
             else bind_r (memory_update env kv) (\<lambda>(st, kv).
               if st \<noteq> LLAMA_MEMORY_STATUS_SUCCESS then Inr (Some (Inl 1, a, kv))
               else bind_r (attempt a kv) (\<lambda>r. Inr (map_option (\<lambda>(ctx, a, kv). (outcome ctx, a, kv)) r)))))"

definition decode_run ::
    "'v decode_env \<Rightarrow> llama_cparams \<Rightarrow> llama_kv_cache_context \<Rightarrow> 'v llama_context \<Rightarrow> (int \<times> 'v llama_context) option res" where
  "decode_run env cp mctx ctx =
     (let n_outputs_all = ba_n_outputs (lc_balloc ctx); n_tokens_all = get_n_tokens (lc_balloc ctx)
      in bind_r (output_reserve env cp n_outputs_all ctx) (\<lambda>(n, ctx).
           if n < n_outputs_all then Inr (Some (-2, ctx))
           else decode_loop (Suc (length (kx_ubatches mctx))) env cp n_outputs_all n_tokens_all mctx 0 0 ctx))"

definition decode ::
    "'v decode_env \<Rightarrow> llama_cparams \<Rightarrow> nat \<Rightarrow> nat \<Rightarrow> llama_batch \<Rightarrow> 'v llama_context \<Rightarrow> (int \<times> 'v llama_context) option res" where
  "decode env cp n_vocab n_embd b ctx =
     assert_r (b_token b \<noteq> None \<or> b_embd b \<noteq> None)
       (if b_n_tokens b = 0 then Inr (Some (-1, ctx))
        else
          let output_all = cp_embeddings cp;
              n_seq_max = (if cp_kv_unified cp then LLAMA_MAX_SEQ else cp_n_seq_max cp)
          in if \<not> sampler_outputs_ok cp n_seq_max output_all b (lc_samplers ctx) then Inr (Some (-1, ctx))
             else bind_r (allocr_init b n_vocab (Some (kv_memory (lc_memory ctx))) n_embd n_seq_max output_all (lc_balloc ctx)) (\<lambda>r.
               case r of None \<Rightarrow> Inr (Some (-1, ctx))
               | Some a \<Rightarrow>
                   if output_all \<and> ba_n_outputs a \<noteq> get_n_tokens a then Inr (Some (-1, ctx\<lparr>lc_balloc := a\<rparr>))
                   else assert_r (get_n_tokens a \<le> cp_n_batch cp)
                     (assert_r (cp_causal_attn cp \<or> cp_n_ubatch cp \<ge> get_n_tokens a)
                       (bind_r (memory_update env (lc_memory ctx)) (\<lambda>(st, kv).
                          let ctx = ctx\<lparr>lc_balloc := a, lc_memory := kv, lc_output_swaps := []\<rparr>
                          in if llama_memory_status_is_fail st then Inr (Some (-2, ctx))
                             else bind_r (batch_context env (cp_n_ubatch cp) a kv) (\<lambda>r. case r of
                               None \<Rightarrow> Inr None
                             | Some (r, a, kv) \<Rightarrow>
                                 let ctx = ctx\<lparr>lc_balloc := a, lc_memory := kv\<rparr>
                                 in (case r of Inl code \<Rightarrow> Inr (Some (code, ctx)) | Inr mctx \<Rightarrow> decode_run env cp mctx ctx)))))))"

end
