(* ===== verification/DecodeOut.thy ===== *)
theory DecodeOut
  imports Decode KvProps "HOL-Library.Multiset"
begin

text \<open>
  The order of the outputs: the selection sort that is recorded as swaps, the swaps applied to the output
  buffers, and the row a caller reads for a token.
\<close>

section \<open>The order of the outputs\<close>

definition swap_at :: "nat \<times> nat \<Rightarrow> 'a list \<Rightarrow> 'a list" where
  "swap_at s xs = xs[fst s := xs ! snd s, snd s := xs ! fst s]"

lemma swap_at_basic [simp]: "length (swap_at s xs) = length xs" "swap_at s [] = []"
  by (simp_all add: swap_at_def)

lemma length_fold_swap_at [simp]: "length (fold swap_at ss xs) = length xs"
  by (induction ss arbitrary: xs) simp_all

lemma fold_swap_at_Nil [simp]: "fold swap_at ss [] = []"
  by (induction ss) simp_all

lemma swap_at_map: "fst s < length xs \<Longrightarrow> snd s < length xs \<Longrightarrow> swap_at s (map f xs) = map f (swap_at s xs)"
  by (simp add: swap_at_def map_update)

lemma swap_at_append: "fst s < length xs \<Longrightarrow> snd s < length xs \<Longrightarrow> swap_at s (xs @ ys) = swap_at s xs @ ys"
  by (simp add: swap_at_def list_update_append nth_append)

lemma swap_at_set: "fst s < length xs \<Longrightarrow> snd s < length xs \<Longrightarrow> mset (swap_at s xs) = mset xs"
  unfolding swap_at_def by (rule mset_swap)

lemma argmin_fold:
  fixes f :: "nat \<Rightarrow> nat"
  defines "m \<equiv> \<lambda>js i. fold (\<lambda>j m. if f j < f m then j else m) js i"
  shows "m js i \<in> insert i (set js)" and "\<forall>j \<in> insert i (set js). f (m js i) \<le> f j"
proof -
  have "m js i \<in> insert i (set js) \<and> f (m js i) \<le> f i \<and> (\<forall>j \<in> set js. f (m js i) \<le> f j)"
  proof (induction js arbitrary: i)
    case (Cons j js)
    have e: "m (j # js) i = m js (if f j < f i then j else i)" by (simp add: m_def)
    show ?case unfolding e using Cons.IH [of "if f j < f i then j else i"] by (auto split: if_splits)
  qed (simp add: m_def)
  then show "m js i \<in> insert i (set js)" "\<forall>j \<in> insert i (set js). f (m js i) \<le> f j" by simp_all
qed

text \<open>The sort so far: the ids are the old ones with the recorded swaps applied, and the first \<open>k\<close> are in place.\<close>

definition sorting :: "nat list \<Rightarrow> nat \<Rightarrow> nat list \<times> (nat \<times> nat) list \<Rightarrow> bool" where
  "sorting ids k st \<longleftrightarrow> fst st = fold swap_at (snd st) ids \<and> length (fst st) = length ids \<and> mset (fst st) = mset ids \<and>
     (\<forall>s \<in> set (snd st). fst s < length ids \<and> snd s < length ids) \<and>
     (\<forall>a < k. \<forall>b < length ids. a < b \<longrightarrow> fst st ! a \<le> fst st ! b)"

lemma sort_step_sorting:
  assumes "sorting ids k st" and "Suc k < length ids"
  shows "sorting ids (Suc k) (sort_step (length ids) k st)"
proof -
  let ?o = "fst st" and ?n = "length ids"
  define j where "j = fold (\<lambda>j m. if ?o ! j < ?o ! m then j else m) [k + 1..<?n] k"
  have jr: "k \<le> j" "j < ?n" "\<And>b. k \<le> b \<Longrightarrow> b < ?n \<Longrightarrow> ?o ! j \<le> ?o ! b"
    using argmin_fold [where f = "\<lambda>x. ?o ! x" and js = "[k + 1..<?n]" and i = k] assms(2) unfolding j_def by (auto simp: Suc_le_eq nat_less_le)
  note s = assms(1) [unfolded sorting_def]
  have e: "sort_step ?n k st = (if j = k then st else (swap_at (k, j) ?o, snd st @ [(k, j)]))"
    by (simp add: sort_step_def Let_def j_def swap_at_def)
  show ?thesis
  proof (cases "j = k")
    case True
    then show ?thesis using s e jr by (auto simp: sorting_def less_Suc_eq)
  next
    case False
    have l: "k < length ?o" "j < length ?o" using jr s by simp_all
    have at: "swap_at (k, j) ?o ! x = (if x = j then ?o ! k else if x = k then ?o ! j else ?o ! x)" if "x < ?n" for x
      using l that s by (simp add: swap_at_def nth_list_update)
    have "swap_at (k, j) ?o ! a \<le> swap_at (k, j) ?o ! b" if "a < Suc k" "b < ?n" "a < b" for a b
    proof (cases "a = k")
      case True
      then show ?thesis using at [of a] at [of b] that jr False assms(2) by auto
    next
      case F: False
      then have "a < k" using that by simp
      then show ?thesis using at [of a] at [of b] that jr s l assms(2) by auto
    qed
    then show ?thesis using s e False l swap_at_set [of "(k, j)" ?o] by (auto simp: sorting_def)
  qed
qed

lemma sort_all:
  assumes "0 < length ids"
  shows "sorting ids (length ids - 1) (fold (sort_step (length ids)) [0..<length ids - 1] (ids, []))"
proof -
  have "sorting ids k (fold (sort_step (length ids)) [0..<k] (ids, []))" if "k \<le> length ids - 1" for k
    using that
  proof (induction k)
    case (Suc k)
    then show ?case using sort_step_sorting [of ids k] by simp
  qed (simp add: sorting_def)
  then show ?thesis by simp
qed

lemma sorting_sorted:
  assumes "sorting ids (length ids - 1) st"
  shows "sorted (fst st)"
  using assms unfolding sorting_def sorted_iff_nth_mono_less by auto

text \<open>The swaps move the rows of a buffer as they moved the ids.\<close>

definition in_rows :: "nat \<Rightarrow> (nat \<times> nat) list \<Rightarrow> bool" where
  "in_rows n ss \<longleftrightarrow> (\<forall>s \<in> set ss. fst s < n \<and> snd s < n)"

lemma fold_swap_at_prefix:
  assumes "in_rows (length ids) ss"
  shows "fold swap_at ss (map f ids @ ys) = map f (fold swap_at ss ids) @ ys"
  using assms by (induction ss arbitrary: ids) (simp_all add: in_rows_def swap_at_append swap_at_map)

lemma swap_rows_at:
  assumes "buf = [] \<or> (fst s < length buf \<and> snd s < length buf)"
  shows "swap_rows s buf = Inr (swap_at s buf)"
  using assms by (auto simp: swap_rows_def swap_at_def)

definition buffer_fits :: "nat \<Rightarrow> 'a list \<Rightarrow> bool" where
  "buffer_fits n buf \<longleftrightarrow> buf = [] \<or> n \<le> length buf"

lemma output_reorder_eq:
  assumes "in_rows n (lc_output_swaps ctx)" and "buffer_fits n (lc_logits ctx)" and "buffer_fits n (lc_embd ctx)"
    and "\<forall>buf \<in> set (lc_embd_layer_inp ctx). buffer_fits n buf"
  shows "output_reorder ctx = Inr (ctx\<lparr>lc_logits := fold swap_at (lc_output_swaps ctx) (lc_logits ctx),
    lc_embd := fold swap_at (lc_output_swaps ctx) (lc_embd ctx),
    lc_embd_layer_inp := map (fold swap_at (lc_output_swaps ctx)) (lc_embd_layer_inp ctx), lc_output_swaps := []\<rparr>)"
proof -
  let ?f = "\<lambda>s ctx. bind_r (swap_rows s (lc_logits ctx)) (\<lambda>lg. bind_r (swap_rows s (lc_embd ctx)) (\<lambda>em.
         bind_r (map_r (swap_rows s) (lc_embd_layer_inp ctx)) (\<lambda>li.
           Inr (ctx\<lparr>lc_logits := lg, lc_embd := em, lc_embd_layer_inp := li\<rparr>))))"
  have "fold_r ?f ss c = Inr (c\<lparr>lc_logits := fold swap_at ss (lc_logits c), lc_embd := fold swap_at ss (lc_embd c),
      lc_embd_layer_inp := map (fold swap_at ss) (lc_embd_layer_inp c)\<rparr>)"
    if "in_rows n ss" "buffer_fits n (lc_logits c)" "buffer_fits n (lc_embd c)" "\<forall>buf \<in> set (lc_embd_layer_inp c). buffer_fits n buf"
    for ss :: "(nat \<times> nat) list" and c :: "'a llama_context"
    using that
  proof (induction ss arbitrary: c)
    case (Cons s ss)
    have b: "swap_rows s buf = Inr (swap_at s buf)" if "buffer_fits n buf" for buf :: "'a option list"
      using Cons.prems(1) that by (intro swap_rows_at) (auto simp: in_rows_def buffer_fits_def)
    have m: "map_r (swap_rows s) (lc_embd_layer_inp c) = Inr (map (swap_at s) (lc_embd_layer_inp c))"
      by (rule map_r_Inr) (use b Cons.prems(4) in auto)
    have k: "buffer_fits n (swap_at s buf)" if "buffer_fits n buf" for buf :: "'a option list"
      using that by (auto simp: buffer_fits_def)
    let ?c = "c\<lparr>lc_logits := swap_at s (lc_logits c), lc_embd := swap_at s (lc_embd c),
        lc_embd_layer_inp := map (swap_at s) (lc_embd_layer_inp c)\<rparr>"
    have st: "?f s c = Inr ?c" using b [OF Cons.prems(2)] b [OF Cons.prems(3)] m by simp
    have ih: "fold_r ?f ss ?c = Inr (?c\<lparr>lc_logits := fold swap_at ss (lc_logits ?c), lc_embd := fold swap_at ss (lc_embd ?c),
      lc_embd_layer_inp := map (fold swap_at ss) (lc_embd_layer_inp ?c)\<rparr>)"
      by (rule Cons.IH) (use Cons.prems k in \<open>auto simp: in_rows_def\<close>)
    show ?case unfolding fold_r.simps st bind_r_simps ih by (simp add: comp_def)
  qed simp
  from this [OF assms] show ?thesis by (simp add: output_reorder_def)
qed

lemma assign_ids_ok:
  assumes "distinct ids" and "set ids \<subseteq> {..<length tbl}"
  shows "\<exists>tbl'. assign_ids ids tbl = Inr tbl' \<and> length tbl' = length tbl \<and> (\<forall>j < length ids. tbl' ! (ids ! j) = int j) \<and>
    (\<forall>x. x \<notin> set ids \<longrightarrow> tbl' ! x = tbl ! x)"
proof -
  let ?f = "\<lambda>i tbl. if ids ! i \<ge> length tbl then Inl Undefined else Inr (tbl[ids ! i := int i])"
  have "\<exists>tbl'. fold_r ?f [0..<m] tbl = Inr tbl' \<and> length tbl' = length tbl \<and> (\<forall>j < m. tbl' ! (ids ! j) = int j) \<and>
      (\<forall>x. x \<notin> set (take m ids) \<longrightarrow> tbl' ! x = tbl ! x)" if "m \<le> length ids" for m
    using that
  proof (induction m)
    case (Suc m)
    then obtain t where t: "fold_r ?f [0..<m] tbl = Inr t" "length t = length tbl" "\<forall>j < m. t ! (ids ! j) = int j"
        "\<forall>x. x \<notin> set (take m ids) \<longrightarrow> t ! x = tbl ! x" by auto
    have "ids ! m \<in> set ids" using Suc.prems by simp
    then have l: "ids ! m < length t" using assms(2) t(2) by auto
    have d: "ids ! j \<noteq> ids ! m" if "j < m" for j using that Suc.prems assms(1) by (simp add: nth_eq_iff_index_eq)
    have "fold_r ?f [0..<Suc m] tbl = Inr (t[ids ! m := int m])" using t(1) l by (simp add: fold_r_append)
    moreover have "\<forall>j < Suc m. t[ids ! m := int m] ! (ids ! j) = int j" using t(3) l d by (auto simp: less_Suc_eq nth_list_update dest: d)
    moreover have "\<forall>x. x \<notin> set (take (Suc m) ids) \<longrightarrow> t[ids ! m := int m] ! x = tbl ! x"
      using t(4) Suc.prems by (simp add: take_Suc_conv_app_nth nth_list_update)
    ultimately show ?case using t(2) by (intro exI [of _ "t[ids ! m := int m]"]) simp
  qed simp
  from this [OF order_refl] show ?thesis by (simp add: assign_ids_def)
qed

text \<open>Rows of a buffer that belong to the tokens \<open>ids\<close>, in this order.\<close>

definition rows_of :: "(nat \<Rightarrow> 'v) \<Rightarrow> nat list \<Rightarrow> 'v option list \<Rightarrow> bool" where
  "rows_of f ids buf \<longleftrightarrow> (\<exists>ys. buf = map (\<lambda>i. Some (f i)) ids @ ys)"

definition outputs_pending :: "nat list \<Rightarrow> 'v llama_context \<Rightarrow> bool" where
  "outputs_pending ids ctx \<longleftrightarrow> distinct ids \<and> set ids \<subseteq> {..<length (lc_output_ids ctx)} \<and> ba_out_ids (lc_balloc ctx) = ids \<and>
     lc_n_outputs ctx = length ids \<and> lc_output_swaps ctx = [] \<and> (\<forall>x \<in> set (lc_output_ids ctx). x = -1) \<and>
     buffer_fits (length ids) (lc_logits ctx) \<and> buffer_fits (length ids) (lc_embd ctx) \<and>
     (\<forall>buf \<in> set (lc_embd_layer_inp ctx). buffer_fits (length ids) buf)"

lemma set_output_mapping_ok:
  assumes p: "outputs_pending ids ctx"
  shows "\<exists>ctx' ss. set_output_mapping (length ids) ctx = Inr ctx' \<and> in_rows (length ids) ss \<and> sort ids = fold swap_at ss ids \<and>
    ctx' = ctx\<lparr>lc_balloc := (lc_balloc ctx)\<lparr>ba_out_ids := sort ids\<rparr>, lc_output_swaps := ss, lc_output_ids := lc_output_ids ctx'\<rparr> \<and>
    length (lc_output_ids ctx') = length (lc_output_ids ctx) \<and>
    (\<forall>j < length ids. lc_output_ids ctx' ! (sort ids ! j) = int j) \<and>
    (\<forall>x < length (lc_output_ids ctx). x \<notin> set ids \<longrightarrow> lc_output_ids ctx' ! x = -1)"
proof -
  note P = p [unfolded outputs_pending_def]
  have m1: "lc_output_ids ctx ! x = -1" if "x < length (lc_output_ids ctx)" for x using P that nth_mem by blast
  obtain t where t: "assign_ids ids (lc_output_ids ctx) = Inr t" "length t = length (lc_output_ids ctx)" "\<forall>j < length ids. t ! (ids ! j) = int j"
      "\<forall>x. x \<notin> set ids \<longrightarrow> t ! x = lc_output_ids ctx ! x"
    using assign_ids_ok [of ids "lc_output_ids ctx"] P by blast
  consider "ids = []" | "ids \<noteq> []" "ids = [0..<length ids] \<or> length ids \<le> 1" | "ids \<noteq> []" "\<not> (ids = [0..<length ids] \<or> length ids \<le> 1)" by blast
  then show ?thesis
  proof cases
    case 1
    have "ctx = ctx\<lparr>lc_balloc := (lc_balloc ctx)\<lparr>ba_out_ids := []\<rparr>, lc_output_swaps := [], lc_output_ids := lc_output_ids ctx\<rparr>"
      using P 1 by (cases ctx) simp
    then show ?thesis using 1 m1 by (intro exI [of _ ctx] exI [of _ "[]"]) (simp add: set_output_mapping_def in_rows_def)
  next
    case 2
    note ne = 2(1) and True = 2(2)
    have "sorted ids"
    proof (cases "ids = [0..<length ids]")
      case True
      then show ?thesis by (metis sorted_upt)
    qed (use True in \<open>auto simp: sorted_iff_nth_mono_less\<close>)
    then have s: "sort ids = ids" by (rule sorted_sort_id)
    have "ctx\<lparr>lc_output_ids := t\<rparr> = ctx\<lparr>lc_balloc := (lc_balloc ctx)\<lparr>ba_out_ids := sort ids\<rparr>, lc_output_swaps := [], lc_output_ids := t\<rparr>"
      using P s by (cases ctx) simp
    moreover have "set_output_mapping (length ids) ctx = Inr (ctx\<lparr>lc_output_ids := t\<rparr>)"
      using P ne t(1) True by (auto simp: set_output_mapping_def Let_def)
    ultimately show ?thesis using t s m1
      by (intro exI [of _ "ctx\<lparr>lc_output_ids := t\<rparr>"] exI [of _ "[]"]) (simp add: in_rows_def)
  next
    case 3
    note ne = 3(1) and False = 3(2)
    let ?st = "fold (sort_step (length ids)) [0..<length ids - 1] (ids, [])"
    obtain srt ss where st: "?st = (srt, ss)" by (cases ?st)
    have so: "sorting ids (length ids - 1) (srt, ss)" using sort_all [of ids] ne unfolding st by simp
    have srt: "srt = fold swap_at ss ids" "mset srt = mset ids" "sorted srt" "in_rows (length ids) ss"
      using so [unfolded sorting_def] sorting_sorted [OF so] by (auto simp: in_rows_def simp del: fold_swap_at_Nil)
    have s: "sort ids = srt" using srt(2,3) by (rule properties_for_sort)
    have "set srt = set ids" "distinct srt" using srt(2) P by (metis set_mset_mset, metis distinct_sort s)
    then obtain u where u: "assign_ids srt (map (\<lambda>_. -1) t) = Inr u" "length u = length (lc_output_ids ctx)"
        "\<forall>j < length srt. u ! (srt ! j) = int j" "\<forall>x. x \<notin> set ids \<longrightarrow> u ! x = map (\<lambda>_. -1) t ! x"
      using assign_ids_ok [of srt "map (\<lambda>_. -1) t"] P t(2) by auto
    have l: "length srt = length ids" unfolding srt(1) by simp
    let ?c = "ctx\<lparr>lc_balloc := (lc_balloc ctx)\<lparr>ba_out_ids := srt\<rparr>, lc_output_swaps := ss, lc_output_ids := u\<rparr>"
    have "set_output_mapping (length ids) ctx = Inr ?c"
      using P ne t(1) False st u(1) by (simp add: set_output_mapping_def Let_def)
    then show ?thesis using s srt(1,4) u l t(2) by (intro exI [of _ ?c] exI [of _ ss]) simp
  qed
qed

lemma outputs_read:
  assumes "outputs_pending ids ctx" and "rows_of f ids (lc_logits ctx)"
  shows "\<exists>ctx' ctx''. set_output_mapping (length ids) ctx = Inr ctx' \<and> output_reorder ctx' = Inr ctx'' \<and>
    rows_of f (sort ids) (lc_logits ctx'') \<and>
    (\<forall>i < length (lc_output_ids ctx). get_logits_ith (int i) ctx' = Inr (if i \<in> set ids then Some (Some (f i)) else None, ctx'') \<and>
      get_logits_ith (int i) ctx'' = get_logits_ith (int i) ctx')"
proof -
  note P = assms(1) [unfolded outputs_pending_def]
  obtain ctx' ss where m: "set_output_mapping (length ids) ctx = Inr ctx'" "in_rows (length ids) ss" "sort ids = fold swap_at ss ids"
      "ctx' = ctx\<lparr>lc_balloc := (lc_balloc ctx)\<lparr>ba_out_ids := sort ids\<rparr>, lc_output_swaps := ss, lc_output_ids := lc_output_ids ctx'\<rparr>"
      "length (lc_output_ids ctx') = length (lc_output_ids ctx)" "\<forall>j < length ids. lc_output_ids ctx' ! (sort ids ! j) = int j"
      "\<forall>x < length (lc_output_ids ctx). x \<notin> set ids \<longrightarrow> lc_output_ids ctx' ! x = -1"
    using set_output_mapping_ok [OF assms(1)] by blast
  have k: "lc_output_swaps ctx' = ss" "lc_logits ctx' = lc_logits ctx" "lc_embd ctx' = lc_embd ctx" "lc_embd_layer_inp ctx' = lc_embd_layer_inp ctx"
      "lc_n_outputs ctx' = length ids"
    using P by (subst m(4), simp)+
  define ctx'' where "ctx'' = ctx'\<lparr>lc_logits := fold swap_at ss (lc_logits ctx'), lc_embd := fold swap_at ss (lc_embd ctx'),
      lc_embd_layer_inp := map (fold swap_at ss) (lc_embd_layer_inp ctx'), lc_output_swaps := []\<rparr>"
  have r: "output_reorder ctx' = Inr ctx''"
    using output_reorder_eq [of "length ids" ctx'] P m(2) unfolding ctx''_def k by blast
  have r2: "output_reorder ctx'' = Inr ctx''" by (simp add: output_reorder_def ctx''_def)
  have moved: "rows_of h (sort ids) (fold swap_at ss buf)" if "rows_of h ids buf" for h :: "nat \<Rightarrow> 'a" and buf
    using that fold_swap_at_prefix [OF m(2)] unfolding rows_of_def m(3) by blast
  have lg: "rows_of f (sort ids) (lc_logits ctx'')" using moved [OF assms(2)] by (simp add: ctx''_def k)
  obtain ys where ys: "lc_logits ctx'' = map (\<lambda>i. Some (f i)) (sort ids) @ ys" using lg by (auto simp: rows_of_def)
  have row: "get_logits_ith (int i) c = Inr (if i \<in> set ids then Some (Some (f i)) else None, ctx'')"
    if i: "i < length (lc_output_ids ctx)" and c: "output_reorder c = Inr ctx''" for i c
  proof (cases "i \<in> set ids")
    case True
    then obtain j where j: "j < length ids" "i = sort ids ! j" by (metis in_set_conv_nth length_sort set_sort)
    have "output_resolve_row ctx'' (int i) = Inr (int j)"
      using i j m(5,6) k(5) by (simp add: output_resolve_row_def ctx''_def)
    moreover have jl: "j < length (sort ids)" using j(1) by simp
    moreover have "lc_logits ctx'' \<noteq> []" using ys jl by (cases "sort ids = []") auto
    ultimately show ?thesis using c True j ys by (simp add: get_logits_ith_def nth_append)
  next
    case False
    then have "output_resolve_row ctx'' (int i) = Inl Runtime_error"
      using i m(5,7) by (simp add: output_resolve_row_def ctx''_def)
    then show ?thesis using c False by (simp add: get_logits_ith_def)
  qed
  have all: "\<forall>i < length (lc_output_ids ctx). get_logits_ith (int i) ctx' = Inr (if i \<in> set ids then Some (Some (f i)) else None, ctx'') \<and>
      get_logits_ith (int i) ctx'' = get_logits_ith (int i) ctx'"
    using row r r2 by simp
  show ?thesis by (rule exI [of _ ctx'], rule exI [of _ ctx'']) (intro conjI m(1) r lg all)
qed

text \<open>The output rows of a batch reach the caller under the right token (the end of llama_context::decode,
  output_reorder, output_resolve_row and get_logits_ith). When row k of the logits buffer belongs to the k-th token that
  was marked for output in the order of processing, then after the mapping is set, whatever that order was,
  get_logits_ith of a token returns that token's row; for a token of the batch that was not marked it
  returns none; and the buffer read as a whole has the rows in the order of the caller's batch. A second read
  gives the same.\<close>

theorem output_rows:
  assumes "outputs_pending ids ctx" and "rows_of f ids (lc_logits ctx)"
  shows "\<exists>ctx' ctx''. set_output_mapping (length ids) ctx = Inr ctx' \<and> output_reorder ctx' = Inr ctx'' \<and>
    rows_of f (sort ids) (lc_logits ctx'') \<and>
    (\<forall>i < length (lc_output_ids ctx). get_logits_ith (int i) ctx' = Inr (if i \<in> set ids then Some (Some (f i)) else None, ctx'') \<and>
      get_logits_ith (int i) ctx'' = get_logits_ith (int i) ctx')"
  by (rule outputs_read) (use assms in blast)+

text \<open>Three tokens marked for output that were processed in the order 2, 0, 3.\<close>

definition outputs_example :: "nat llama_context" where
  "outputs_example = \<lparr>lc_memory = kv_example, lc_balloc = (batch_allocr 1)\<lparr>ba_out_ids := [2, 0, 3]\<rparr>, lc_samplers = {}, lc_n_outputs = 3,
     lc_output_ids = [-1, -1, -1, -1], lc_output_swaps = [], lc_logits = [Some 12, Some 10, Some 13], lc_embd = [], lc_embd_layer_inp = []\<rparr>"

theorem output_rows_witness:
  "\<exists>ctx' ctx''. set_output_mapping 3 outputs_example = Inr ctx' \<and> get_logits_ith 0 ctx' = Inr (Some (Some 10), ctx'') \<and>
     get_logits_ith 1 ctx' = Inr (None, ctx'') \<and> get_logits_ith 3 ctx' = Inr (Some (Some 13), ctx'') \<and> rows_of (\<lambda>i. 10 + i) [0, 2, 3] (lc_logits ctx'')"
proof -
  have p: "outputs_pending [2, 0, 3] outputs_example" by (simp add: outputs_pending_def outputs_example_def buffer_fits_def)
  have r: "rows_of (\<lambda>i. 10 + i) [2, 0, 3] (lc_logits outputs_example)" by (simp add: rows_of_def outputs_example_def)
  have l: "length (lc_output_ids outputs_example) = 4" "length [2, 0, 3 :: nat] = 3" "sort [2, 0, 3 :: nat] = [0, 2, 3]" by (simp_all add: outputs_example_def)
  obtain ctx' ctx'' where o: "set_output_mapping 3 outputs_example = Inr ctx'" "rows_of (\<lambda>i. 10 + i) [0, 2, 3] (lc_logits ctx'')"
      "\<forall>i < 4. get_logits_ith (int i) ctx' = Inr (if i \<in> set [2, 0, 3] then Some (Some (10 + i)) else None, ctx'')"
    using output_rows [OF p r] unfolding l by blast
  show ?thesis using o(1,2) o(3) [rule_format, of 0] o(3) [rule_format, of 1] o(3) [rule_format, of 3] by auto
qed

section \<open>Rows of layer inputs\<close>

text \<open>The buffers of layer inputs have a row for every token, in the order of processing, and are moved by the same swaps of
  output rows. Four tokens processed in the order 0, 2, 1, 3, of which 2 and 3 are marked for output: no swap is
  recorded, and a caller that reads the row of token 1 gets that of token 2.\<close>

definition layer_rows_example :: "nat llama_context" where
  "layer_rows_example = \<lparr>lc_memory = kv_example, lc_balloc = (batch_allocr 1)\<lparr>ba_out_ids := [2, 3]\<rparr>, lc_samplers = {}, lc_n_outputs = 2,
     lc_output_ids = [-1, -1, -1, -1], lc_output_swaps = [], lc_logits = [Some 2, Some 3], lc_embd = [],
     lc_embd_layer_inp = [[Some 0, Some 2, Some 1, Some 3]]\<rparr>"

lemma layer_rows_misplaced:
  "\<exists>ctx' ctx''. set_output_mapping 2 layer_rows_example = Inr ctx' \<and> output_reorder ctx' = Inr ctx'' \<and> lc_embd_layer_inp ctx'' ! 0 ! 1 = Some 2"
  by (simp add: set_output_mapping_def layer_rows_example_def assign_ids_def sort_step_def output_reorder_def Let_def upt_rec numeral_2_eq_2)

end
