(* ===== verification/DecodeStep.thy ===== *)
theory DecodeStep
  imports DecodeOut BatchProps KvSlotProps
begin

text \<open>
  What processing a batch does to an ordinary cache, step by step: the pending updates, the micro-batches an accepted
  batch is cut into, the placement and the outputs of one micro-batch, and the loop over all of them.
\<close>

section \<open>Pending updates of an ordinary cache\<close>

text \<open>An ordinary cache: one stream, no window, no exact tail, nothing to copy.\<close>

definition plain_cache :: "llama_kv_cache \<Rightarrow> bool" where
  "plain_cache kv \<longleftrightarrow> kv_wf kv \<and> kv_n_stream kv = 1 \<and> kv_group_size kv \<le> 1 \<and> kv_swa_type kv = LLAMA_SWA_TYPE_NONE \<and> kv_tail kv = None \<and>
     \<not> kv_preparing kv \<and> kv_sc_info kv = sc_none \<and> kv_n_pos_per_embd kv \<le> 1"

definition no_shifts :: "llama_kv_cache \<Rightarrow> bool" where
  "no_shifts kv \<longleftrightarrow> (\<forall>x < kv_cap kv. kc_shift (kv_cells kv ! 0) ! x = 0)"

definition same_content :: "llama_kv_cache \<Rightarrow> llama_kv_cache \<Rightarrow> bool" where
  "same_content kv kv' \<longleftrightarrow> kv_view kv = kv_view kv' \<and> kv_cap kv = kv_cap kv' \<and> free_cells kv = free_cells kv'"

text \<open>A change of the cells that keeps positions and owners.\<close>

lemma plain_cache_cells:
  assumes p: "plain_cache kv" and c: "cells_ok c" "kc_pos c = kc_pos (kv_cells kv ! 0)" "kc_seq c = kc_seq (kv_cells kv ! 0)"
  shows "plain_cache (kv\<lparr>kv_cells := [c]\<rparr>)" and "same_content (kv\<lparr>kv_cells := [c]\<rparr>) kv" and "kv_cap (kv\<lparr>kv_cells := [c]\<rparr>) = kv_cap kv"
proof -
  note w = kv_wf_parts [of kv]
  have k: "kv_wf kv" "kv_n_stream kv = 1" using p by (simp_all add: plain_cache_def)
  have cs: "kv_cells kv = [kv_cells kv ! 0]" using w(3) [OF k(1)] k(2) by (cases "kv_cells kv") auto
  show cap: "kv_cap (kv\<lparr>kv_cells := [c]\<rparr>) = kv_cap kv" by (simp add: kv_cap_def c(2))
  have l: "length (kc_pos c) = kv_cap kv" by (simp add: c(2) kv_cap_def)
  have "kv_wf (kv\<lparr>kv_cells := [c]\<rparr>)" using k c(1) l unfolding kv_wf_def cap by simp
  then show "plain_cache (kv\<lparr>kv_cells := [c]\<rparr>)" using p by (simp add: plain_cache_def)
  have "kv_view (kv\<lparr>kv_cells := [c]\<rparr>) = kv_view kv" unfolding kv_view_def by (subst cs) (simp add: kv_cells_list_def c)
  then show "same_content (kv\<lparr>kv_cells := [c]\<rparr>) kv" using cap by (simp add: same_content_def free_cells_def empty_cell_def c)
qed

lemma plain_cacheD:
  assumes "plain_cache kv"
  shows "unified kv" "quiet kv" "kv_cells kv = [kv_cells kv ! 0]" "cells_ok (kv_cells kv ! 0)"
proof -
  show "unified kv" "quiet kv" using assms by (simp_all add: plain_cache_def unified_def swa_defined_def quiet_def)
  then show "kv_cells kv = [kv_cells kv ! 0]" "cells_ok (kv_cells kv ! 0)"
    using unifiedD(5,7) [of kv] by (auto simp: length_Suc_conv)
qed

definition updates_ok :: "'v decode_env \<Rightarrow> bool" where
  "updates_ok env \<longleftrightarrow> \<not> ge_step35 (de_update env) \<and> (ge_rope (de_update env) \<longrightarrow> ge_shift_alloc (de_update env) \<and> ge_shift_compute (de_update env)) \<and>
     de_reserve env"

lemma memory_update_idle:
  assumes "plain_cache kv" and "\<not> kv_get_has_shift kv"
  shows "memory_update env kv = Inr (LLAMA_MEMORY_STATUS_NO_UPDATE, kv)"
proof -
  have "kv\<lparr>kv_sc_info := sc_none\<rparr> = kv" using assms(1) by (cases kv) (simp add: plain_cache_def)
  then show ?thesis using assms
    by (simp add: memory_update_def kv_init_update_def context_update_def plain_cache_def sc_empty_def sc_none_def context_status_def)
qed

lemma memory_update_ok:
  assumes p: "plain_cache kv" and f: "kv_get_has_shift kv \<or> no_shifts kv" and e: "updates_ok env"
  shows "\<exists>st kv'. memory_update env kv = Inr (st, kv') \<and> \<not> llama_memory_status_is_fail st \<and> plain_cache kv' \<and> no_shifts kv' \<and>
    \<not> kv_get_has_shift kv' \<and> same_content kv' kv"
proof (cases "kv_get_has_shift kv")
  case False
  then show ?thesis using memory_update_idle [OF p False, of env] p f
    by (intro exI [of _ LLAMA_MEMORY_STATUS_NO_UPDATE] exI [of _ kv]) (simp add: same_content_def)
next
  case True
  note d = plain_cacheD [OF p]
  let ?c = "kv_cells_reset_shift (kv_cells kv ! 0)"
  let ?kv = "kv\<lparr>kv_cells := [?c]\<rparr>"
  have ok: "cells_ok ?c" using d(4) kv_cells_reset_shift_inv [of "kv_cells kv ! 0"] by (simp add: cells_ok_def kv_cells_reset_shift_def)
  have cc: "kc_pos ?c = kc_pos (kv_cells kv ! 0)" "kc_seq ?c = kc_seq (kv_cells kv ! 0)" by (simp_all add: kv_cells_reset_shift_def)
  note k = plain_cache_cells [OF p ok cc]
  have sc: "kv\<lparr>kv_sc_info := sc_none\<rparr> = kv" using p by (cases kv) (simp add: plain_cache_def)
  have cs: "map kv_cells_reset_shift (take (kv_n_stream kv) (kv_cells kv)) @ drop (kv_n_stream kv) (kv_cells kv) = [?c]"
    using p by (subst d(3), subst (2) d(3)) (simp add: plain_cache_def)
  have "update_shift (de_update env) kv = Inr (LLAMA_MEMORY_STATUS_SUCCESS, ?kv)"
    using p e unifiedD(5) [OF d(1)] unfolding update_shift_def cs by (auto simp: plain_cache_def kv_get_can_shift_def updates_ok_def)
  then have u: "kv_update (de_update env) True sc_none kv = Inr (LLAMA_MEMORY_STATUS_SUCCESS, ?kv)"
    using unifiedD(9) [OF d(1)] by (simp add: kv_update_def sc_empty_def sc_none_def)
  let ?ctx = "(context_status LLAMA_MEMORY_STATUS_SUCCESS)\<lparr>kx_do_shift := True, kx_sc_info := sc_none\<rparr>"
  have i: "kv_init_update kv = Inr (?ctx, kv)"
    using True sc p by (simp add: kv_init_update_def context_update_def plain_cache_def)
  have a: "context_apply (de_update env) (de_n_pad env) ?ctx kv = Inr (True, ?ctx, ?kv)"
    using u by (simp add: context_apply_def context_status_def)
  have w: "kv_wf ?kv" "kv_n_stream ?kv = 1" using k(1) by (simp_all add: plain_cache_def)
  have "stream_of ?kv 0 = Inr (stream_idx ?kv 0)"
    using stream_of_ok(1) [OF w(1), of 0] kv_wf_parts(12) [OF w] by (simp add: known_seq_def LLAMA_MAX_SEQ_def)
  then obtain x where x: "kv_init_full ?kv = Inr x" by (simp add: kv_init_full_def kv_get_size_def)
  have "memory_update env kv = Inr (LLAMA_MEMORY_STATUS_SUCCESS, ?kv)"
    unfolding memory_update_def i bind_r_simps using a x e by (simp add: context_status_def updates_ok_def)
  moreover have "no_shifts ?kv" using kv_cells_invD(3) [OF cells_okD(1) [OF d(4)]] by (auto simp: no_shifts_def k(3) kv_cells_reset_shift_def kv_cap_def)
  moreover have "\<not> kv_get_has_shift ?kv" using p by (simp add: kv_get_has_shift_def plain_cache_def kv_cells_get_has_shift_def kv_cells_reset_shift_def)
  ultimately show ?thesis using k by auto
qed

lemma same_kv_plain:
  assumes s: "same_kv kv' kv" and p: "plain_cache kv"
  shows "plain_cache kv'" and "same_content kv' kv" and "no_shifts kv \<Longrightarrow> no_shifts kv'" and "kv_get_has_shift kv' = kv_get_has_shift kv"
proof -
  note d = plain_cacheD [OF p]
  obtain c where c: "kv_cells kv' = [c]" "same_cells c (kv_cells kv ! 0)"
    using s unfolding same_kv_def by (subst (asm) d(3)) (auto simp: list_all2_Cons2)
  have kv': "kv' = kv\<lparr>kv_cells := [c]\<rparr>" using s c(1) by (cases kv, cases kv') (simp add: same_kv_def)
  have f: "kc_pos c = kc_pos (kv_cells kv ! 0)" "kc_seq c = kc_seq (kv_cells kv ! 0)" "kc_shift c = kc_shift (kv_cells kv ! 0)"
    "kc_has_shift c = kc_has_shift (kv_cells kv ! 0)" using c(2) by (simp_all add: same_cells_def)
  have ok: "cells_ok c" using d(4) c(2) unfolding cells_ok_def kv_cells_inv_def same_cells_def kv_cells_list_def index_ok_def by simp
  note k = plain_cache_cells [OF p ok f(1,2)]
  show "plain_cache kv'" "same_content kv' kv" "no_shifts kv \<Longrightarrow> no_shifts kv'"
    using k f(3) by (simp_all add: kv' no_shifts_def)
  show "kv_get_has_shift kv' = kv_get_has_shift kv"
    using p unfolding kv_get_has_shift_def kv' by (subst d(3)) (simp add: plain_cache_def kv_cells_get_has_shift_def f(4))
qed

section \<open>The micro-batches of an accepted batch\<close>

text \<open>What the allocator does not check of the caller's batch: positions are not negative, every token has a sequence,
  and none twice.\<close>

definition input_ok :: "llama_batch \<Rightarrow> bool" where
  "input_ok b \<longleftrightarrow> (\<forall>i < nat (b_n_tokens b). (\<forall>ps. b_pos b = Some ps \<longrightarrow> 0 \<le> ps ! i) \<and>
     (\<forall>ks. b_n_seq_id b = Some ks \<longrightarrow> 0 < ks ! i \<and> (\<forall>rows. b_seq_id b = Some rows \<longrightarrow> distinct (take (nat (ks ! i)) (rows ! i)))))"

definition token_ok :: "nat \<Rightarrow> llama_batch_full \<Rightarrow> nat \<Rightarrow> bool" where
  "token_ok n_seq_max b i \<longleftrightarrow> 0 \<le> bf_pos b ! i \<and> 0 < bf_n_seq_id b ! i \<and> length (tok_seqs b i) = nat (bf_n_seq_id b ! i) \<and>
     distinct (tok_seqs b i) \<and> set (tok_seqs b i) \<subseteq> {0..<int n_seq_max}"

lemma number_seqs_snd: "snd (number_seqs n unq idx) = filter (\<lambda>s. s \<in> unq) [0..<n]"
proof -
  have "snd (fold (\<lambda>s (idx, ids). if s \<in> unq then (idx[s := int (length ids)], ids @ [s]) else (idx, ids)) xs (idx, ids)) =
      ids @ filter (\<lambda>s. s \<in> unq) xs" for xs idx and ids :: "nat list"
    by (induction xs arbitrary: idx ids) auto
  then show ?thesis by (simp add: number_seqs_def)
qed

lemma carries_ubatch_ok:
  assumes c: "carries b 1 n_seq_max u idxs" and ne: "idxs \<noteq> []" and t: "\<forall>i \<in> set idxs. token_ok n_seq_max b i" and m: "n_seq_max \<le> LLAMA_MAX_SEQ"
  shows "ubatch_ok u" and "names_seq u" and "\<And>k. k < length idxs \<Longrightarrow> tok_content u k = (bf_pos b ! (idxs ! k), nat ` set (tok_seqs b (idxs ! k)))"
proof -
  have C: "ub_n_tokens u = length idxs" "ub_seq_id u = map (tok_seqs b) idxs" "ub_n_seq_id u = map (\<lambda>i. bf_n_seq_id b ! i) idxs"
      "ub_seq_id_unq u = snd (number_seqs n_seq_max (\<Union> (set (map (tok_seq_set b) idxs))) (replicate LLAMA_MAX_SEQ (-1)))"
    and pos: "ub_pos u = map (\<lambda>i. bf_pos b ! i) idxs"
    using c by (simp_all add: carries_def)
  have own: "tok_owners u k = tok_seqs b (idxs ! k)" if "k < length idxs" for k
  proof -
    have "length (tok_seqs b (idxs ! k)) = nat (bf_n_seq_id b ! (idxs ! k))" using t that by (simp add: token_ok_def)
    then show ?thesis using that by (simp add: tok_owners_def C(2,3))
  qed
  have tk: "token_ok n_seq_max b (idxs ! k)" if "k < length idxs" for k using t that by simp
  show "ubatch_ok u" unfolding ubatch_ok_def
  proof (intro conjI allI impI)
    show "0 < ub_n_tokens u" using C(1) ne by simp
    fix k assume "k < ub_n_tokens u"
    then have k: "k < length idxs" using C(1) by simp
    note T = tk [OF k, unfolded token_ok_def]
    have e: "ub_n_seq_id u ! k = bf_n_seq_id b ! (idxs ! k)" "ub_seq_id u ! k = tok_seqs b (idxs ! k)" "ub_pos u ! k = bf_pos b ! (idxs ! k)"
      using k by (simp_all add: C(2,3) pos)
    show "0 \<le> ub_pos u ! k" "0 < ub_n_seq_id u ! k" "nat (ub_n_seq_id u ! k) \<le> length (ub_seq_id u ! k)"
      unfolding e using T by simp_all
    have "{0..<int n_seq_max} \<subseteq> {0..<int LLAMA_MAX_SEQ}" using m by auto
    then show "distinct (tok_owners u k)" "set (tok_owners u k) \<subseteq> {0..<int LLAMA_MAX_SEQ}" unfolding own [OF k] using T by blast+
  qed
  show "tok_content u k = (bf_pos b ! (idxs ! k), nat ` set (tok_seqs b (idxs ! k)))" if "k < length idxs" for k
    using that own [OF that] by (simp add: tok_content_def pos)
  let ?U = "\<Union> (set (map (tok_seq_set b) idxs))"
  have ids: "ub_seq_id_unq u = filter (\<lambda>s. s \<in> ?U) [0..<n_seq_max]" unfolding C(4) number_seqs_snd ..
  have l0: "0 < length idxs" using ne by simp
  note T = tk [OF l0, unfolded token_ok_def]
  have "tok_seqs b (idxs ! 0) \<noteq> []" using T by auto
  then have h: "hd (tok_seqs b (idxs ! 0)) \<in> set (tok_seqs b (idxs ! 0))" by simp
  let ?s = "nat (hd (tok_seqs b (idxs ! 0)))"
  have "hd (tok_seqs b (idxs ! 0)) \<in> {0..<int n_seq_max}" using h T by blast
  then have "?s < n_seq_max" by auto
  moreover have "?s \<in> ?U" using h l0 by (auto simp: tok_seq_set_def intro!: bexI [of _ "idxs ! 0"])
  ultimately have "?s \<in> set (ub_seq_id_unq u)" unfolding ids by simp
  then have n: "ub_seq_id_unq u \<noteq> []" by auto
  then have "hd (ub_seq_id_unq u) \<in> set (ub_seq_id_unq u)" by simp
  then have "hd (ub_seq_id_unq u) < LLAMA_MAX_SEQ" unfolding ids using m by auto
  then show "names_seq u" using n by (simp add: names_seq_def)
qed

lemma gen_pos_nonneg:
  assumes "fold_r (gen_pos_step ks rows) is (p0, pos) = Inr (p1, pos')" and "\<forall>p \<in> set p0. 0 \<le> p" and "\<forall>p \<in> set pos. 0 \<le> p"
  shows "\<forall>p \<in> set pos'. 0 \<le> p"
  using assms
proof (induction "is" arbitrary: p0 pos)
  case (Cons i "is")
  let ?s = "hd (rows ! i)"
  have s: "\<not> (?s < 0 \<or> nat ?s \<ge> length p0)" using Cons.prems(1) by (auto simp: gen_pos_step_def Let_def split: if_splits)
  let ?p = "p0 ! nat ?s"
  have p: "0 \<le> ?p" using s Cons.prems(2) by simp
  have keep: "\<forall>q \<in> set (fold (\<lambda>s p0. p0[nat s := ?p + 1]) ss q0). 0 \<le> q" if "\<forall>q \<in> set q0. 0 \<le> q" for ss q0
    using that
  proof (induction ss arbitrary: q0)
    case (Cons s ss)
    have "\<forall>q \<in> set (q0[nat s := ?p + 1]). 0 \<le> q" using Cons.prems p set_update_subset_insert [of q0 "nat s" "?p + 1"] by auto
    then show ?case using Cons.IH by simp
  qed simp
  have "gen_pos_step ks rows i (p0, pos) = Inr (fold (\<lambda>s p0. p0[nat s := ?p + 1]) (take (nat (ks ! i)) (rows ! i)) p0, pos @ [?p])"
    using s by (simp add: gen_pos_step_def Let_def)
  then have "fold_r (gen_pos_step ks rows) is (fold (\<lambda>s p0. p0[nat s := ?p + 1]) (take (nat (ks ! i)) (rows ! i)) p0, pos @ [?p]) = Inr (p1, pos')"
    using Cons.prems(1) by simp
  then show ?case by (rule Cons.IH) (use keep Cons.prems(2,3) p in auto)
qed simp

lemma accepted_tokens:
  assumes i: "allocr_init inp n_vocab mem n_embd n_seq_max output_all a0 = Inr (Some a)" and ok: "input_ok inp"
    and mem: "\<And>m s p. mem = Some m \<Longrightarrow> mem_seq_pos_max m s = Inr p \<Longrightarrow> -1 \<le> p" and z: "0 < n_seq_max" and k: "k < get_n_tokens a"
  shows "token_ok n_seq_max (ba_batch a) k"
proof -
  obtain pos b where I: "fill_pos mem n_seq_max inp = Inr pos"
      "b = \<lparr>bf_n_tokens = nat (b_n_tokens inp), bf_token = b_token inp, bf_embd = b_embd inp, bf_pos = pos,
         bf_n_seq_id = fill_n_seq_id inp, bf_seq_id = fill_seq_id inp, bf_logits = fill_logits output_all inp\<rparr>"
      "a = split_reset (batch_stats b n_embd n_seq_max (allocr_clear a0))" "batch_shape (ba_n_pos_per_embd a0) n_embd inp" "seqs_valid n_seq_max inp"
    using allocr_init_Some [OF i] by blast
  have b: "ba_batch a = b" by (simp add: I(3) split_reset_def batch_stats_fields)
  have n: "k < nat (b_n_tokens inp)" using k by (simp add: get_n_tokens_def b I(2))
  have p: "0 \<le> pos ! k"
  proof (cases "b_pos inp")
    case (Some ps)
    then show ?thesis using ok n I(1) by (simp add: input_ok_def fill_pos_def)
  next
    case None
    then obtain p0 p1 where g: "first_positions mem n_seq_max = Inr p0"
        "fold_r (gen_pos_step (fill_n_seq_id inp) (fill_seq_id inp)) [0..<nat (b_n_tokens inp)] (p0, []) = Inr (p1, pos)"
      using I(1) by (auto simp: fill_pos_def)
    have "\<forall>p \<in> set p0. 0 \<le> p" if "map_r f xs = Inr p0" "\<And>x p. f x = Inr p \<Longrightarrow> 0 \<le> p" for f :: "nat \<Rightarrow> int res" and xs
      using that by (induction xs arbitrary: p0) auto
    from this [OF g(1) [unfolded first_positions_def]] have "\<forall>p \<in> set p0. 0 \<le> p" using mem by (fastforce split: option.splits)
    then have "\<forall>p \<in> set pos. 0 \<le> p" using gen_pos_nonneg [OF g(2)] by simp
    then show ?thesis using fill_pos_length(1) [OF I(1,4)] n by simp
  qed
  have "0 < fill_n_seq_id inp ! k \<and> length (take (nat (fill_n_seq_id inp ! k)) (fill_seq_id inp ! k)) = nat (fill_n_seq_id inp ! k) \<and>
      distinct (take (nat (fill_n_seq_id inp ! k)) (fill_seq_id inp ! k)) \<and> set (take (nat (fill_n_seq_id inp ! k)) (fill_seq_id inp ! k)) \<subseteq> {0..<int n_seq_max}"
  proof (cases "b_n_seq_id inp")
    case None
    then have "b_seq_id inp = None" using I(4) by (simp add: batch_shape_def Let_def)
    then show ?thesis using None n z by (simp add: fill_n_seq_id_def fill_seq_id_def)
  next
    case (Some ks)
    have ks: "0 < ks ! k" "k < length ks" using ok n Some I(4) by (auto simp: input_ok_def batch_shape_def Let_def)
    show ?thesis
    proof (cases "b_seq_id inp")
      case None
      have "ks ! k \<le> 1" using I(4) Some None n ks(2) by (auto simp: batch_shape_def Let_def list_all_length)
      then have "ks ! k = 1" using ks by simp
      then show ?thesis using Some None n z by (simp add: fill_n_seq_id_def fill_seq_id_def)
    next
      case rows: (Some rows)
      have "nat (ks ! k) \<le> length (rows ! k)" using I(4) Some rows n by (auto simp: batch_shape_def Let_def list_all2_conv_all_nth)
      moreover have "\<forall>s \<in> set (take (nat (ks ! k)) (rows ! k)). 0 \<le> s \<and> s < int n_seq_max"
        using I(5) Some rows n by (auto simp: seqs_valid_def list_all_iff)
      moreover have "distinct (take (nat (ks ! k)) (rows ! k))" using ok Some rows n by (simp add: input_ok_def)
      ultimately show ?thesis using Some rows ks(1) by (auto simp: fill_n_seq_id_def fill_seq_id_def)
    qed
  qed
  then show ?thesis unfolding b token_ok_def tok_seqs_def using p by (simp add: I(2))
qed

section \<open>One micro-batch\<close>

lemma free_view:
  assumes "unified kv"
  shows "free_cells kv = {x. x < kv_cap kv \<and> fst (kv_view kv ! 0 ! x) = -1}"
  using unifiedD(5,8) [OF assms] cells_okD(4) [OF unifiedD(7) [OF assms]]
  by (auto simp: free_cells_def empty_cell_def kv_view_def)

text \<open>The cache with the tokens of a micro-batch in the cells \<open>xs\<close>.\<close>

definition placed :: "llama_ubatch \<Rightarrow> nat list \<Rightarrow> llama_kv_cache \<Rightarrow> llama_kv_cache \<Rightarrow> bool" where
  "placed ub xs kv kv' \<longleftrightarrow> plain_cache kv' \<and> kv_tail_plan kv' = kv_tail_plan kv \<and> kv_cap kv' = kv_cap kv \<and> (\<forall>k < length xs. kv_view kv' ! 0 ! (xs ! k) = tok_content ub k) \<and>
     (\<forall>x. x \<notin> set xs \<longrightarrow> kv_view kv' ! 0 ! x = kv_view kv ! 0 ! x) \<and> free_cells kv' = free_cells kv - set xs"

lemma place_step:
  assumes p: "plain_cache kv" and ub: "ubatch_ok ub" and xs: "length xs = ub_n_tokens ub" "distinct xs" "set xs \<subseteq> free_cells kv"
  shows "\<exists>kv'. apply_ubatch (the_slot xs) ub kv = Inr kv' \<and> placed ub xs kv kv'"
proof -
  note d = plain_cacheD [OF p]
  note u = unifiedD [OF d(1)]
  have xe: "set xs \<subseteq> {x. empty_cell (kv_cells kv ! 0) x}" using xs(3) by (simp add: free_cells_def)
  obtain c where c: "apply_ubatch (the_slot xs) ub kv = Inr ((set_cells 0 c kv)\<lparr>kv_heads := [last xs + 1]\<rparr>)" "cells_ok c"
      "\<forall>k < length xs. kv_cells_list c ! (xs ! k) = tok_content ub k"
      "\<forall>x. x \<notin> set xs \<longrightarrow> kv_cells_list c ! x = kv_cells_list (kv_cells kv ! 0) ! x \<and> kc_ext c ! x = kc_ext (kv_cells kv ! 0) ! x"
      "length (kc_pos c) = kv_cap kv" "last xs + 1 \<le> kv_cap kv"
    using apply_ubatch_unified [OF d(1,2) ub xs(1,2) xe] by blast
  define kv' where "kv' = (set_cells 0 c kv)\<lparr>kv_heads := [last xs + 1]\<rparr>"
  have w: "unified kv'" "kv_cap kv' = kv_cap kv" using set_cells_wf [OF d(1) c(2,5,6)] by (simp_all add: kv'_def)
  have pl: "plain_cache kv'" using p unifiedD(1) [OF w(1)] by (simp add: plain_cache_def kv'_def set_cells_def)
  have v: "kv_view kv' ! 0 = kv_cells_list c" "kv_view kv ! 0 = kv_cells_list (kv_cells kv ! 0)"
    using u(5) by (simp_all add: kv_view_def kv'_def set_cells_def)
  have new: "fst (kv_view kv' ! 0 ! x) \<noteq> -1" if m: "x \<in> set xs" for x
  proof -
    obtain k where "k < length xs" "x = xs ! k" using m by (auto simp: in_set_conv_nth)
    then show ?thesis unfolding v using c(3) ub xs(1) by (auto simp: tok_content_def ubatch_ok_def)
  qed
  have old: "kv_view kv' ! 0 ! x = kv_view kv ! 0 ! x" if "x \<notin> set xs" for x unfolding v using c(4) that by simp
  have "x \<in> free_cells kv' \<longleftrightarrow> x \<in> free_cells kv - set xs" for x
    unfolding free_view [OF w(1)] free_view [OF d(1)] w(2) using new [of x] old [of x] by (cases "x \<in> set xs") simp_all
  moreover have "kv_tail_plan kv' = kv_tail_plan kv" by (simp add: kv'_def set_cells_def)
  ultimately have "placed ub xs kv kv'" unfolding placed_def using pl w(2) c(3) old by (simp add: v(1) set_eq_iff)
  then show ?thesis using c(1) unfolding kv'_def by blast
qed

definition loop_ready :: "llama_ubatch list \<Rightarrow> nat list list \<Rightarrow> nat \<Rightarrow> llama_kv_cache_context \<Rightarrow> bool" where
  "loop_ready us xss i mctx \<longleftrightarrow> kx_status mctx = LLAMA_MEMORY_STATUS_SUCCESS \<and> kx_ubatches mctx = us \<and>
     kx_sinfos mctx = map the_slot xss \<and> kx_i_cur mctx = i"

lemma apply_step:
  assumes r: "loop_ready us xss i mctx" "i < length us" "length xss = length us" and p: "plain_cache kv" and ub: "ubatch_ok (us ! i)"
    and xs: "length (xss ! i) = ub_n_tokens (us ! i)" "distinct (xss ! i)" "set (xss ! i) \<subseteq> free_cells kv"
  shows "\<exists>mctx' kv'. context_apply env n_pad mctx kv = Inr (True, mctx', kv') \<and> loop_ready us xss i mctx' \<and>
    kx_graph_started mctx' = kx_graph_started mctx \<and> placed (us ! i) (xss ! i) kv kv'"
proof -
  obtain kv' where a: "apply_ubatch (the_slot (xss ! i)) (us ! i) kv = Inr kv'" "placed (us ! i) (xss ! i) kv kv'"
    using place_step [OF p ub xs] by blast
  have "length (kv_cells kv') = 1" using a(2) unifiedD(5) plain_cacheD(1) by (auto simp: placed_def)
  then obtain n where n: "get_n_kv n_pad kv' (the_slot (xss ! i)) = Inr n" by (auto simp: get_n_kv_def the_slot_def Let_def)
  have "context_apply env n_pad mctx kv = Inr (True, mctx\<lparr>kx_n_kv := n\<rparr>, kv')"
    using r a(1) n by (auto simp: context_apply_def loop_ready_def)
  then show ?thesis using r(1) a(2) by (intro exI [of _ "mctx\<lparr>kx_n_kv := n\<rparr>"] exI [of _ kv']) (simp add: loop_ready_def)
qed

lemma process_success:
  assumes "loop_ready us xss i mctx" and "i < length us" and "length xss = length us" and "plain_cache kv" and "ubatch_ok (us ! i)"
    and "length (xss ! i) = ub_n_tokens (us ! i)" and "distinct (xss ! i)" and "set (xss ! i) \<subseteq> free_cells kv"
    and run: "de_run env i = Computed GGML_STATUS_SUCCESS"
  shows "\<exists>mctx' kv'. process_ubatch env mctx kv = Inr (GGML_STATUS_SUCCESS, mctx', kv') \<and> loop_ready us xss i mctx' \<and>
    placed (us ! i) (xss ! i) kv kv'"
proof -
  obtain mctx' kv' where a: "context_apply (de_update env) (de_n_pad env) mctx kv = Inr (True, mctx', kv')" "loop_ready us xss i mctx'"
      "placed (us ! i) (xss ! i) kv kv'"
    using apply_step [OF assms(1-8)] by blast
  have i: "kx_i_cur mctx' = i" using a(2) by (simp add: loop_ready_def)
  have "finish_tail_batch True False kv' = Inr kv'" using a(3) by (simp add: finish_tail_batch_def placed_def plain_cache_def)
  then have "process_ubatch env mctx kv = Inr (GGML_STATUS_SUCCESS, (context_compute_start mctx')\<lparr>kx_graph_started := False\<rparr>, kv')"
    using a(1) run i by (simp add: process_ubatch_def context_compute_finish_def context_compute_start_def)
  then show ?thesis using a(2,3) by (intro exI) (auto simp: loop_ready_def context_compute_start_def)
qed

text \<open>The tokens of a micro-batch that are marked for output.\<close>

definition out_of :: "llama_ubatch \<Rightarrow> nat list" where
  "out_of ub = filter (\<lambda>k. ub_output ub ! k \<noteq> 0) [0..<ub_n_tokens ub]"

lemma new_outputs:
  assumes "n_all = t_all \<Longrightarrow> \<forall>k < ub_n_tokens ub. ub_output ub ! k \<noteq> 0"
  shows "count_new_outputs n_all t_all ub = length (out_of ub)" and "out_ids_set_input (length (out_of ub)) ub = Inr (out_of ub)"
proof -
  have "out_of ub = [0..<ub_n_tokens ub]" if "n_all = t_all" using assms [OF that] by (simp add: out_of_def filter_id_conv)
  then show "count_new_outputs n_all t_all ub = length (out_of ub)" by (auto simp: count_new_outputs_def count_if_def out_of_def)
  have "out_of ub = [0..<ub_n_tokens ub]" if l: "length (out_of ub) = ub_n_tokens ub"
  proof (rule ccontr)
    assume "out_of ub \<noteq> [0..<ub_n_tokens ub]"
    then obtain k where "k \<in> set [0..<ub_n_tokens ub]" "\<not> ub_output ub ! k \<noteq> 0" unfolding out_of_def filter_id_conv by blast
    then have "length (out_of ub) < length [0..<ub_n_tokens ub]" unfolding out_of_def by (rule length_filter_less)
    then show False using l by simp
  qed
  then show "out_ids_set_input (length (out_of ub)) ub = Inr (out_of ub)"
    by (auto simp: out_ids_set_input_def out_of_def [symmetric])
qed

lemma raw_logits_needed:
  assumes "ubatch_ok ub" and "out_of ub \<noteq> []"
  shows "needs_raw_logits ub {}"
proof -
  have "set (out_of ub) \<noteq> {}" using assms(2) by simp
  then obtain k where "k < ub_n_tokens ub" "ub_output ub ! k \<noteq> 0" by (auto simp: out_of_def)
  moreover have "0 < ub_n_seq_id ub ! k" using assms(1) calculation(1) by (simp add: ubatch_ok_def)
  ultimately have "k \<in> set [0..<ub_n_tokens ub] \<and> ub_output ub ! k \<noteq> 0 \<and> 0 \<in> set [0..<nat (ub_n_seq_id ub ! k)]" by simp
  then show ?thesis unfolding needs_raw_logits_def list_ex_iff by blast
qed

lemma write_rows_append:
  assumes "length rows \<le> length ys"
  shows "write_rows (length xs) rows (map Some xs @ ys) = map Some (xs @ rows) @ drop (length rows) ys"
  using assms by (simp add: write_rows_def)

lemma length_write_rows: "base + length rows \<le> length buf \<Longrightarrow> length (write_rows base rows buf) = length buf"
  by (simp add: write_rows_def)

lemma layer_inputs_ok:
  assumes l: "map length bufs = map (\<lambda>on. if on then n else 0) (cp_embeddings_layer_inp cp)"
    and t: "0 < ub_n_tokens ub" "off + ub_n_tokens ub \<le> n"
  shows "\<exists>li. extract_layer_inputs env cp ub off bufs = Inr li \<and> map length li = map length bufs"
  unfolding extract_layer_inputs_def
proof (rule fold_r_invariant)
  fix il and li :: "'a option list list"
  assume il: "il \<in> set [0..<length (cp_embeddings_layer_inp cp)]" and m: "map length li = map length bufs"
  have ln: "length li = length (cp_embeddings_layer_inp cp)" using m l by (metis length_map)
  let ?w = "write_rows off (map (de_layer_inp env il ub) [0..<ub_n_tokens ub]) (li ! il)"
  have len: "length (li ! il) = (if cp_embeddings_layer_inp cp ! il then n else 0)"
    using arg_cong [OF m [unfolded l], of "\<lambda>xs. xs ! il"] il ln by simp
  show "\<exists>s'. (if \<not> cp_embeddings_layer_inp cp ! il then Inr li
        else if il \<ge> length li then Inl Undefined
        else assert_r (li ! il \<noteq> [])
          (assert_r (ub_n_tokens ub > 0)
            (assert_r (off + ub_n_tokens ub \<le> length (li ! il))
              (Inr (li[il := ?w]))))) = Inr s' \<and> map length s' = map length bufs"
  proof (cases "cp_embeddings_layer_inp cp ! il")
    case True
    then have "length ?w = length (li ! il)" using length_write_rows [of off "map (de_layer_inp env il ub) [0..<ub_n_tokens ub]" "li ! il"] len t(2) by simp
    then have "map length (li[il := ?w]) = map length bufs" using m by (metis list_update_id map_update)
    then show ?thesis using True len t il ln by (auto simp: assert_r_def)
  qed (use m in simp)
qed simp

lemma extract_rows_length:
  assumes "prev + length rows \<le> n_all" and "n_all \<le> length buf"
  shows "\<exists>em. extract_rows prev (length rows) n_all rows buf = Inr em \<and> length em = length buf"
  using assms length_write_rows [of prev rows buf] by (simp add: extract_rows_def)

lemma extract_step:
  assumes ub: "ubatch_ok ub" and n: "lc_n_outputs ctx = length (out_of ub)" "out_ids_set_input (length (out_of ub)) ub = Inr (out_of ub)"
    and sm: "lc_samplers ctx = {}" and lg: "lc_logits ctx = map Some rows @ ys" "length rows + length (out_of ub) \<le> n_all" "n_all \<le> length (lc_logits ctx)"
    and em: "buffer_fits n_all (lc_embd ctx)"
    and li: "map length (lc_embd_layer_inp ctx) = map (\<lambda>on. if on then n_batch else 0) (cp_embeddings_layer_inp cp)" "off + ub_n_tokens ub \<le> n_batch"
  shows "\<exists>em li. extract_outputs env cp n_all ub (length rows) off ctx =
      Inr (ctx\<lparr>lc_logits := map Some (rows @ map (de_logits env ub) (out_of ub)) @ drop (length (out_of ub)) ys, lc_embd := em, lc_embd_layer_inp := li\<rparr>) \<and>
    length em = length (lc_embd ctx) \<and> map length li = map length (lc_embd_layer_inp ctx)"
proof -
  let ?o = "out_of ub"
  have ly: "length ?o \<le> length ys" using lg by simp
  have rows: "(if lc_logits ctx \<noteq> [] \<and> length ?o > 0 \<and> needs_raw_logits ub (lc_samplers ctx)
      then extract_rows (length rows) (length ?o) n_all (map (de_logits env ub) ?o) (lc_logits ctx) else Inr (lc_logits ctx)) =
      Inr (map Some (rows @ map (de_logits env ub) ?o) @ drop (length ?o) ys)"
  proof (cases "?o = []")
    case False
    then have "lc_logits ctx \<noteq> []" using lg by auto
    then show ?thesis using False raw_logits_needed [OF ub False] sm lg(2,3) ly write_rows_append [of "map (de_logits env ub) ?o" ys rows]
      unfolding lg(1) by (simp add: extract_rows_def)
  qed (simp add: lg(1))
  have "\<exists>e. (if lc_embd ctx \<noteq> [] \<and> cp_embeddings cp \<and> length ?o > 0
      then extract_rows (length rows) (length ?o) n_all (map (de_embd env ub) ?o) (lc_embd ctx) else Inr (lc_embd ctx)) = Inr e \<and> length e = length (lc_embd ctx)"
    using extract_rows_length [of "length rows" "map (de_embd env ub) ?o" n_all "lc_embd ctx"] em lg(2) by (auto simp: buffer_fits_def)
  then obtain e where e: "(if lc_embd ctx \<noteq> [] \<and> cp_embeddings cp \<and> length ?o > 0
      then extract_rows (length rows) (length ?o) n_all (map (de_embd env ub) ?o) (lc_embd ctx) else Inr (lc_embd ctx)) = Inr e" "length e = length (lc_embd ctx)"
    by blast
  have "0 < ub_n_tokens ub" using ub by (simp add: ubatch_ok_def)
  then obtain l where l: "extract_layer_inputs env cp ub off (lc_embd_layer_inp ctx) = Inr l" "map length l = map length (lc_embd_layer_inp ctx)"
    using layer_inputs_ok [OF li(1) _ li(2)] by blast
  show ?thesis using e(2) l(2) unfolding extract_outputs_def Let_def n bind_r_simps rows e(1) l(1)
    by (intro exI [of _ e] exI [of _ l]) simp
qed

section \<open>The loop over micro-batches\<close>

lemma concat_split:
  assumes "i < length xss"
  shows "concat xss = concat (take i xss) @ xss ! i @ concat (drop (Suc i) xss)" and "concat (take (Suc i) xss) = concat (take i xss) @ xss ! i"
  using arg_cong [OF id_take_nth_drop [OF assms], of concat] take_Suc_conv_app_nth [OF assms] by simp_all

definition flagged :: "llama_batch_full \<Rightarrow> nat \<Rightarrow> bool" where
  "flagged b i \<longleftrightarrow> bf_logits b ! i \<noteq> 0"

text \<open>A batch \<open>b\<close> that is cut into the micro-batches \<open>us\<close> of the tokens \<open>parts\<close>, which go to the cells \<open>xss\<close>; all graphs
  succeed, and the row computed for token \<open>i\<close> of the batch is \<open>f i\<close>.\<close>

definition decode_plan ::
    "'v decode_env \<Rightarrow> llama_batch_full \<Rightarrow> nat \<Rightarrow> llama_ubatch list \<Rightarrow> nat list list \<Rightarrow> nat list list \<Rightarrow> (nat \<Rightarrow> 'v) \<Rightarrow> bool" where
  "decode_plan env b m us parts xss f \<longleftrightarrow> list_all2 (carries b 1 m) us parts \<and> m \<le> LLAMA_MAX_SEQ \<and> (\<forall>p \<in> set parts. p \<noteq> []) \<and>
     (\<forall>i \<in> set (concat parts). token_ok m b i) \<and> map length xss = map length parts \<and> distinct (concat xss) \<and>
     (\<forall>i < length us. de_run env i = Computed GGML_STATUS_SUCCESS) \<and>
     (\<forall>j < length us. \<forall>k < length (parts ! j). f (parts ! j ! k) = de_logits env (us ! j) k)"

definition n_out :: "llama_batch_full \<Rightarrow> nat list list \<Rightarrow> nat" where
  "n_out b parts = length (filter (flagged b) (concat parts))"

lemma plan_part:
  assumes p: "decode_plan env b m us parts xss f" and i: "i < length us"
  shows "length parts = length us" "length xss = length us" "ubatch_ok (us ! i)" "ub_n_tokens (us ! i) = length (parts ! i)"
    "length (xss ! i) = ub_n_tokens (us ! i)" "distinct (xss ! i)" "set (xss ! i) \<inter> set (concat (take i xss)) = {}"
    "map f (filter (flagged b) (parts ! i)) = map (de_logits env (us ! i)) (out_of (us ! i))"
    "(\<forall>x \<in> set (concat parts). flagged b x) \<Longrightarrow> \<forall>k < ub_n_tokens (us ! i). ub_output (us ! i) ! k \<noteq> 0"
    "de_run env i = Computed GGML_STATUS_SUCCESS"
    "k < length (parts ! i) \<Longrightarrow> tok_content (us ! i) k = (bf_pos b ! (parts ! i ! k), nat ` set (tok_seqs b (parts ! i ! k)))"
proof -
  note P = p [unfolded decode_plan_def]
  show l: "length parts = length us" using P list_all2_lengthD by metis
  have "length xss = length parts" using P by (metis length_map)
  then show lx: "length xss = length us" using l by simp
  have c: "carries b 1 m (us ! i) (parts ! i)" using P i by (simp add: list_all2_conv_all_nth)
  have mem: "parts ! i \<in> set parts" using i l by simp
  then have ne: "parts ! i \<noteq> []" and sub: "set (parts ! i) \<subseteq> set (concat parts)" using P by auto
  have t: "\<forall>x \<in> set (parts ! i). token_ok m b x" using P sub by blast
  have mx: "m \<le> LLAMA_MAX_SEQ" using P by simp
  note C = carries_ubatch_ok [OF c ne t mx]
  show "ubatch_ok (us ! i)" by (rule C(1))
  show "k < length (parts ! i) \<Longrightarrow> tok_content (us ! i) k = (bf_pos b ! (parts ! i ! k), nat ` set (tok_seqs b (parts ! i ! k)))" by (rule C(3))
  show n: "ub_n_tokens (us ! i) = length (parts ! i)" using c by (simp add: carries_def)
  have "map length xss ! i = map length parts ! i" using P by simp
  then show "length (xss ! i) = ub_n_tokens (us ! i)" using i l lx n by simp
  have "distinct (concat xss)" using P by simp
  then show "distinct (xss ! i)" "set (xss ! i) \<inter> set (concat (take i xss)) = {}"
    using concat_split(1) [of i xss] i lx by (auto simp: distinct_append)
  have o: "ub_output (us ! i) ! k = bf_logits b ! (parts ! i ! k)" if "k < length (parts ! i)" for k
    using c that by (simp add: carries_def)
  show "\<forall>k < ub_n_tokens (us ! i). ub_output (us ! i) ! k \<noteq> 0" if a: "\<forall>x \<in> set (concat parts). flagged b x"
  proof (intro allI impI)
    fix k assume "k < ub_n_tokens (us ! i)"
    then have k: "k < length (parts ! i)" using n by simp
    then have "parts ! i ! k \<in> set (concat parts)" using sub nth_mem by blast
    then have "flagged b (parts ! i ! k)" using a by blast
    then show "ub_output (us ! i) ! k \<noteq> 0" using o [OF k] by (simp add: flagged_def)
  qed
  have "filter (flagged b) (parts ! i) = filter (flagged b) (map (\<lambda>k. parts ! i ! k) [0..<length (parts ! i)])" by (simp only: map_nth)
  also have "\<dots> = map (\<lambda>k. parts ! i ! k) (out_of (us ! i))"
    unfolding filter_map out_of_def n using o by (auto simp: flagged_def intro!: arg_cong [of _ _ "map _"] filter_cong)
  finally have "filter (flagged b) (parts ! i) = map (\<lambda>k. parts ! i ! k) (out_of (us ! i))" .
  moreover have "\<forall>k \<in> set (out_of (us ! i)). f (parts ! i ! k) = de_logits env (us ! i) k" using P i n by (auto simp: out_of_def)
  ultimately show "map f (filter (flagged b) (parts ! i)) = map (de_logits env (us ! i)) (out_of (us ! i))" by simp
  show "de_run env i = Computed GGML_STATUS_SUCCESS" using P i by simp
qed

lemma n_out_prefix:
  assumes "i < length parts"
  shows "n_out b (take (Suc i) parts) = n_out b (take i parts) + length (filter (flagged b) (parts ! i))"
    and "n_out b (take (Suc i) parts) \<le> n_out b parts" and "length (concat (take i parts)) + length (parts ! i) \<le> length (concat parts)"
    and "n_out b parts = length (concat parts) \<Longrightarrow> \<forall>x \<in> set (concat parts). flagged b x"
proof -
  note c = concat_split [OF assms]
  show "n_out b (take (Suc i) parts) = n_out b (take i parts) + length (filter (flagged b) (parts ! i))"
    unfolding n_out_def c(2) by simp
  show "n_out b (take (Suc i) parts) \<le> n_out b parts" unfolding n_out_def c(2) by (subst c(1)) simp
  show "length (concat (take i parts)) + length (parts ! i) \<le> length (concat parts)" by (subst c(1)) (simp only: length_append)
  assume "n_out b parts = length (concat parts)"
  then show "\<forall>x \<in> set (concat parts). flagged b x" unfolding n_out_def using length_filter_less [of _ "concat parts" "flagged b"] by fastforce
qed

text \<open>The context after \<open>i\<close> micro-batches.\<close>

definition stage ::
    "llama_batch_full \<Rightarrow> llama_cparams \<Rightarrow> llama_ubatch list \<Rightarrow> nat list list \<Rightarrow> nat list list \<Rightarrow> (nat \<Rightarrow> 'v) \<Rightarrow>
     'v llama_context \<Rightarrow> nat \<Rightarrow> 'v llama_context \<Rightarrow> bool" where
  "stage b cp us parts xss f ctx0 i ctx \<longleftrightarrow>
     plain_cache (lc_memory ctx) \<and> kv_cap (lc_memory ctx) = kv_cap (lc_memory ctx0) \<and>
     (\<forall>j < i. \<forall>k < length (xss ! j). kv_view (lc_memory ctx) ! 0 ! (xss ! j ! k) = tok_content (us ! j) k) \<and>
     (\<forall>x. x \<notin> set (concat (take i xss)) \<longrightarrow> kv_view (lc_memory ctx) ! 0 ! x = kv_view (lc_memory ctx0) ! 0 ! x) \<and>
     free_cells (lc_memory ctx) = free_cells (lc_memory ctx0) - set (concat (take i xss)) \<and>
     (\<exists>ys. lc_logits ctx = map Some (map f (filter (flagged b) (concat (take i parts)))) @ ys) \<and> n_out b parts \<le> length (lc_logits ctx) \<and>
     buffer_fits (n_out b parts) (lc_embd ctx) \<and>
     map length (lc_embd_layer_inp ctx) = map (\<lambda>on. if on then cp_n_batch cp else 0) (cp_embeddings_layer_inp cp) \<and>
     lc_balloc ctx = lc_balloc ctx0 \<and> lc_output_ids ctx = lc_output_ids ctx0 \<and> lc_output_swaps ctx = lc_output_swaps ctx0 \<and> lc_samplers ctx = {}"

lemma stage_step:
  assumes pl: "decode_plan env b m us parts xss f" and st: "stage b cp us parts xss f ctx0 i ctx" and i: "i < length us"
    and fr: "set (concat xss) \<subseteq> free_cells (lc_memory ctx0)" and r: "loop_ready us xss i mctx" and nb: "length (concat parts) \<le> cp_n_batch cp"
  shows "\<exists>mctx' ctx'. loop_ready us xss (Suc i) mctx' \<and> stage b cp us parts xss f ctx0 (Suc i) ctx' \<and>
    decode_loop (Suc fuel) env cp (n_out b parts) (length (concat parts)) mctx (n_out b (take i parts)) (length (concat (take i parts))) ctx =
     (if Suc i < length us
      then decode_loop fuel env cp (n_out b parts) (length (concat parts)) mctx' (n_out b (take (Suc i) parts)) (length (concat (take (Suc i) parts))) ctx'
      else bind_r (set_output_mapping (n_out b parts) (ctx'\<lparr>lc_n_outputs := n_out b parts\<rparr>)) (\<lambda>ctx. Inr (Some (0, ctx))))"
proof -
  note S = st [unfolded stage_def]
  note q = plan_part [OF pl i]
  have ip: "i < length parts" and ix: "i < length xss" using i q(1,2) by simp_all
  note no = n_out_prefix [OF ip]
  let ?u = "us ! i" and ?c = "ctx\<lparr>lc_n_outputs := length (out_of (us ! i))\<rparr>"
  have new: "count_new_outputs (n_out b parts) (length (concat parts)) ?u = length (out_of ?u)" "out_ids_set_input (length (out_of ?u)) ?u = Inr (out_of ?u)"
    using new_outputs [of "n_out b parts" "length (concat parts)" ?u] q(9) no(4) by blast+
  have xf: "set (xss ! i) \<subseteq> free_cells (lc_memory ctx)"
    using S fr q(7) nth_mem [OF ix] by auto
  obtain mctx' kv' where pr: "process_ubatch env mctx (lc_memory ctx) = Inr (GGML_STATUS_SUCCESS, mctx', kv')" "loop_ready us xss i mctx'"
      "placed ?u (xss ! i) (lc_memory ctx) kv'"
    using process_success [OF r i q(2) _ q(3,5,6) xf q(10)] S by blast
  obtain ys where ys: "lc_logits ctx = map Some (map f (filter (flagged b) (concat (take i parts)))) @ ys" using S by blast
  have lo: "length (out_of ?u) = length (filter (flagged b) (parts ! i))" using arg_cong [OF q(8), of length] by simp
  have fit: "n_out b (take i parts) + length (out_of ?u) \<le> n_out b parts" using no(1,2) lo by simp
  have toks: "length (concat (take i parts)) + ub_n_tokens ?u \<le> cp_n_batch cp" using no(3) nb q(4) by simp
  have np: "n_out b (take i parts) = length (map f (filter (flagged b) (concat (take i parts))))" by (simp add: n_out_def)
  let ?d = "?c\<lparr>lc_memory := kv'\<rparr>"
  let ?lg = "map Some (map f (filter (flagged b) (concat (take i parts))) @ map (de_logits env ?u) (out_of ?u)) @ drop (length (out_of ?u)) ys"
  obtain em li where ex: "extract_outputs env cp (n_out b parts) ?u (n_out b (take i parts)) (length (concat (take i parts))) ?d =
      Inr (?d\<lparr>lc_logits := ?lg, lc_embd := em, lc_embd_layer_inp := li\<rparr>)"
      "length em = length (lc_embd ctx)" "map length li = map length (lc_embd_layer_inp ctx)"
    using extract_step [OF q(3), of ?d "map f (filter (flagged b) (concat (take i parts)))" ys "n_out b parts" "cp_n_batch cp" cp
        "length (concat (take i parts))" env] new(2) S ys fit toks unfolding np by auto
  let ?e = "?d\<lparr>lc_logits := ?lg, lc_embd := em, lc_embd_layer_inp := li\<rparr>"
  have lg: "?lg = map Some (map f (filter (flagged b) (concat (take (Suc i) parts)))) @ drop (length (out_of ?u)) ys"
    unfolding concat_split(2) [OF ip] using q(8) by simp
  have ll: "length ?lg = length (lc_logits ctx)"
  proof -
    have "length (out_of ?u) \<le> length ys" using S fit ys np by simp
    then show ?thesis by (simp add: ys)
  qed
  have stage': "stage b cp us parts xss f ctx0 (Suc i) ?e"
    unfolding stage_def concat_split(2) [OF ix]
  proof (intro conjI)
    show "\<forall>j < Suc i. \<forall>k < length (xss ! j). kv_view (lc_memory ?e) ! 0 ! (xss ! j ! k) = tok_content (us ! j) k"
    proof (intro allI impI)
      fix j k assume j: "j < Suc i" and k: "k < length (xss ! j)"
      show "kv_view (lc_memory ?e) ! 0 ! (xss ! j ! k) = tok_content (us ! j) k"
      proof (cases "j = i")
        case True
        then show ?thesis using pr(3) k by (simp add: placed_def)
      next
        case False
        then have "j < i" using j by simp
        then have "xss ! j \<in> set (take i xss)" using ix by (auto simp: in_set_conv_nth intro!: exI [of _ j])
        then have "xss ! j ! k \<notin> set (xss ! i)" using q(7) k nth_mem by fastforce
        then show ?thesis using pr(3) S \<open>j < i\<close> k by (simp add: placed_def)
      qed
    qed
    show "\<exists>ys. lc_logits ?e = map Some (map f (filter (flagged b) (concat (take (Suc i) parts)))) @ ys" using lg by auto
    show "n_out b parts \<le> length (lc_logits ?e)" using ll S by simp
    show "buffer_fits (n_out b parts) (lc_embd ?e)" using ex(2) S by (auto simp: buffer_fits_def)
  qed (use pr(3) S ex(3) in \<open>auto simp: placed_def\<close>)
  have nx: "context_next mctx' = Inr (Suc i < length us, mctx'\<lparr>kx_i_cur := Suc i\<rparr>)" and rd: "loop_ready us xss (Suc i) (mctx'\<lparr>kx_i_cur := Suc i\<rparr>)"
    using pr(2) by (auto simp: context_next_def loop_ready_def Let_def)
  have ri: "\<not> kx_i_cur mctx \<ge> length (kx_ubatches mctx)" "kx_ubatches mctx ! kx_i_cur mctx = ?u" using r i by (simp_all add: loop_ready_def)
  have sum: "n_out b (take i parts) + length (out_of ?u) = n_out b (take (Suc i) parts)" using no(1) lo by simp
  have tsum: "length (concat (take i parts)) + ub_n_tokens ?u = length (concat (take (Suc i) parts))" unfolding concat_split(2) [OF ip] using q(4) by simp
  have "decode_loop (Suc fuel) env cp (n_out b parts) (length (concat parts)) mctx (n_out b (take i parts)) (length (concat (take i parts))) ctx =
     (if Suc i < length us
      then decode_loop fuel env cp (n_out b parts) (length (concat parts)) (mctx'\<lparr>kx_i_cur := Suc i\<rparr>) (n_out b (take (Suc i) parts)) (length (concat (take (Suc i) parts))) ?e
      else bind_r (set_output_mapping (n_out b parts) (?e\<lparr>lc_n_outputs := n_out b parts\<rparr>)) (\<lambda>ctx. Inr (Some (0, ctx))))"
    unfolding decode_loop.simps Let_def ri(2) new(1) if_not_P [OF ri(1)] using pr(1) ex(1) nx sum tsum by simp
  then show ?thesis using stage' rd by blast
qed

lemma loop_all:
  assumes pl: "decode_plan env b m us parts xss f" and fr: "set (concat xss) \<subseteq> free_cells (lc_memory ctx0)"
    and nb: "length (concat parts) \<le> cp_n_batch cp"
    and "stage b cp us parts xss f ctx0 i ctx" and "length us = i + Suc d" and "loop_ready us xss i mctx"
  shows "\<exists>ctx'. stage b cp us parts xss f ctx0 (length us) ctx' \<and>
    decode_loop (Suc d + e) env cp (n_out b parts) (length (concat parts)) mctx (n_out b (take i parts)) (length (concat (take i parts))) ctx =
      bind_r (set_output_mapping (n_out b parts) (ctx'\<lparr>lc_n_outputs := n_out b parts\<rparr>)) (\<lambda>ctx. Inr (Some (0, ctx)))"
  using assms(4-)
proof (induction d arbitrary: i ctx mctx)
  case 0
  then have "i < length us" "\<not> Suc i < length us" "Suc i = length us" by simp_all
  then show ?case using stage_step [OF pl 0(1) _ fr 0(3) nb, of "0 + e"] by auto
next
  case (Suc d)
  then have i: "i < length us" "Suc i < length us" "length us = Suc i + Suc d" by simp_all
  obtain mctx' ctx' where s: "loop_ready us xss (Suc i) mctx'" "stage b cp us parts xss f ctx0 (Suc i) ctx'"
      "decode_loop (Suc (Suc d) + e) env cp (n_out b parts) (length (concat parts)) mctx (n_out b (take i parts)) (length (concat (take i parts))) ctx =
       decode_loop (Suc d + e) env cp (n_out b parts) (length (concat parts)) mctx' (n_out b (take (Suc i) parts)) (length (concat (take (Suc i) parts))) ctx'"
    using stage_step [OF pl Suc.prems(1) i(1) fr Suc.prems(3) nb, of "Suc d + e"] i(2) by auto
  show ?case unfolding s(3) by (rule Suc.IH [OF s(2) i(3) s(1)])
qed

section \<open>A whole call\<close>

text \<open>A call that the code accepts and whose graphs all succeed, with room in the buffers of the context.\<close>

definition decode_accepts ::
    "'v decode_env \<Rightarrow> llama_cparams \<Rightarrow> nat \<Rightarrow> nat \<Rightarrow> llama_batch \<Rightarrow> 'v llama_context \<Rightarrow> llama_batch_allocr \<Rightarrow> bool" where
  "decode_accepts env cp n_vocab n_embd inp ctx a \<longleftrightarrow>
     plain_cache (lc_memory ctx) \<and> (kv_get_has_shift (lc_memory ctx) \<or> no_shifts (lc_memory ctx)) \<and> updates_ok env \<and>
     lc_samplers ctx = {} \<and> (lc_output_ids ctx = [] \<or> length (lc_output_ids ctx) = cp_n_batch cp) \<and>
     ba_n_pos_per_embd (lc_balloc ctx) = 1 \<and> 0 < cp_n_seq_max cp \<and>
     (b_token inp \<noteq> None \<or> b_embd inp \<noteq> None) \<and> input_ok inp \<and> b_n_tokens inp \<le> int INT32_MAX \<and> b_n_tokens inp \<noteq> 0 \<and>
     allocr_init inp n_vocab (Some (kv_memory (lc_memory ctx))) n_embd (if cp_kv_unified cp then LLAMA_MAX_SEQ else cp_n_seq_max cp)
       (cp_embeddings cp) (lc_balloc ctx) = Inr (Some a) \<and>
     get_n_tokens a \<le> cp_n_batch cp \<and> (cp_causal_attn cp \<or> get_n_tokens a \<le> cp_n_ubatch cp) \<and>
     max (ba_n_outputs a) (cp_n_seq_max cp) \<le> cp_n_outputs_max cp \<and> de_output_alloc env"

lemma accepted_fields:
  assumes "allocr_init inp n_vocab mem n_embd n_seq_max output_all a0 = Inr (Some a)"
  shows "split_reset a = a" "ba_n_seq_max a = n_seq_max" "ba_n_pos_per_embd a = ba_n_pos_per_embd a0"
    "ba_n_outputs a = length (filter (flagged (ba_batch a)) [0..<get_n_tokens a])" "0 < get_n_tokens a" "n_seq_max \<le> LLAMA_MAX_SEQ"
    "output_all \<Longrightarrow> ba_n_outputs a = get_n_tokens a"
proof -
  obtain pos b where I: "b = \<lparr>bf_n_tokens = nat (b_n_tokens inp), bf_token = b_token inp, bf_embd = b_embd inp, bf_pos = pos,
         bf_n_seq_id = fill_n_seq_id inp, bf_seq_id = fill_seq_id inp, bf_logits = fill_logits output_all inp\<rparr>"
      "a = split_reset (batch_stats b n_embd n_seq_max (allocr_clear a0))" "batch_shape (ba_n_pos_per_embd a0) n_embd inp" "0 < b_n_tokens inp"
      "n_seq_max \<le> LLAMA_MAX_SEQ"
    using allocr_init_Some [OF assms] by blast
  have b: "ba_batch a = b" by (simp add: I(2) split_reset_def batch_stats_fields)
  have n: "get_n_tokens a = nat (b_n_tokens inp)" by (simp add: get_n_tokens_def b I(1))
  show "split_reset a = a" by (simp add: I(2) split_reset_def get_n_tokens_def)
  show "ba_n_seq_max a = n_seq_max" "ba_n_pos_per_embd a = ba_n_pos_per_embd a0"
    by (simp_all add: I(2) split_reset_def batch_stats_fields allocr_clear_def)
  show "0 < get_n_tokens a" "n_seq_max \<le> LLAMA_MAX_SEQ" using n I(4,5) by simp_all
  have ln: "nat (b_n_tokens inp) \<le> length (fill_logits output_all inp)"
    using I(3) by (auto simp: fill_logits_def batch_shape_def Let_def split: option.splits)
  have o: "ba_n_outputs a = count_outputs b" by (simp add: I(2) split_reset_def batch_stats_fields allocr_clear_def)
  have "take (nat (b_n_tokens inp)) (fill_logits output_all inp) = map (\<lambda>i. fill_logits output_all inp ! i) [0..<nat (b_n_tokens inp)]"
    using take_as_map [OF ln] by simp
  then show c: "ba_n_outputs a = length (filter (flagged (ba_batch a)) [0..<get_n_tokens a])"
    unfolding o n b count_outputs_def I(1) by (simp add: count_if_def filter_map comp_def flagged_def [abs_def])
  assume oa: "output_all"
  have "fill_logits output_all inp ! i \<noteq> 0" if "i < nat (b_n_tokens inp)" for i
    using that oa ln by (auto simp: fill_logits_def Let_def list_ex_iff in_set_conv_nth split: option.splits if_splits)
  then have "filter (flagged (ba_batch a)) [0..<get_n_tokens a] = [0..<get_n_tokens a]"
    unfolding filter_id_conv n b by (simp add: flagged_def I(1))
  then show "ba_n_outputs a = get_n_tokens a" unfolding c by simp
qed

lemma kv_pos_max_bound:
  assumes "plain_cache kv" and "kv_seq_pos_max kv s = Inr p"
  shows "-1 \<le> p"
proof -
  note d = plain_cacheD [OF assms(1)]
  note u = unifiedD [OF d(1)]
  obtain i where i: "stream_of kv s = Inr i" "kv_cells_seq_pos_max (kv_cells kv ! i) s = Inr p" using assms(2) u(9) by (auto simp: kv_seq_pos_max_def)
  have "0 \<le> s" "nat s < LLAMA_MAX_SEQ" "i < length (kv_cells kv)"
    using i(1) kv_wf_parts(11) [OF u(1)] by (auto simp: stream_of_def Let_def split: if_splits)
  then have s: "int (nat s) = s" "nat s < LLAMA_MAX_SEQ" "i = 0" using u(5) by simp_all
  let ?P = "seq_positions (kv_cells kv ! 0) (nat s)"
  have "p = (if ?P = {} then -1 else Max ?P)" using kv_cells_seq_pos_max_eq [OF cells_okD(1) [OF d(4)] s(2)] i(2) s by simp
  moreover have "finite ?P" "\<forall>q \<in> ?P. -1 \<le> q" using cells_okD(7) [OF d(4)] by (auto simp: seq_positions_def)
  ultimately show ?thesis by (auto simp: Max_ge_iff)
qed

lemma split_all_keeps:
  assumes "simple_inv a" and "split_all fuel (split_simple n) a = Inr (Some (us, a'))"
  shows "ba_n_outputs a' = ba_n_outputs a"
  using assms
proof (induction fuel arbitrary: a us)
  case (Suc fuel)
  show ?case
  proof (cases "unused_tokens a = {}")
    case True
    then show ?thesis using simple.finished [OF Suc.prems(1) True] Suc.prems(2) by (simp add: ubatch_none_def)
  next
    case False
    obtain idxs u a1 where s: "split_simple n a = Inr (u, a1)" "picked idxs a a1" "simple_inv a1" using simple.progress [OF Suc.prems(1) False] by blast
    have k: "ba_n_outputs a1 = ba_n_outputs a" using s(2) by (simp add: picked_def)
    show ?thesis
    proof (cases "ub_n_tokens u = 0")
      case True
      then show ?thesis using Suc.prems(2) s(1) k by simp
    next
      case nz: False
      then obtain us' where "split_all fuel (split_simple n) a1 = Inr (Some (us', a'))" using Suc.prems(2) s(1) by auto
      then show ?thesis using Suc.IH [OF s(3)] k by simp
    qed
  qed
qed simp

text \<open>The cut and the rehearsal of an accepted batch: the micro-batches, and the cells they get if there is room.\<close>

lemma accepted_batch_context:
  assumes acc: "decode_accepts env cp n_vocab n_embd inp ctx a" and kv: "plain_cache kv" "no_shifts kv" "\<not> kv_get_has_shift kv"
  shows "\<exists>us parts a' kv' m. list_all2 (carries (ba_batch a) 1 m) us parts \<and> m \<le> LLAMA_MAX_SEQ \<and> (\<forall>p \<in> set parts. p \<noteq> []) \<and>
    distinct (concat parts) \<and> set (concat parts) = {..<get_n_tokens a} \<and> (\<forall>i \<in> set (concat parts). token_ok m (ba_batch a) i) \<and>
    ba_batch a' = ba_batch a \<and> ba_n_outputs a' = ba_n_outputs a \<and> ba_out_ids a' = filter (flagged (ba_batch a)) (concat parts) \<and> same_kv kv' kv \<and>
    (if get_n_tokens a \<le> card (free_cells kv)
     then \<exists>xss. map length xss = map length parts \<and> distinct (concat xss) \<and> set (concat xss) \<subseteq> free_cells kv \<and>
       batch_context env (cp_n_ubatch cp) a kv = Inr (Some (Inr (context_batch (map the_slot xss) us), a', kv'))
     else batch_context env (cp_n_ubatch cp) a kv = Inr (Some (Inl 1, a', kv')))"
proof -
  note A = acc [unfolded decode_accepts_def]
  let ?m = "if cp_kv_unified cp then LLAMA_MAX_SEQ else cp_n_seq_max cp"
  have i: "allocr_init inp n_vocab (Some (kv_memory (lc_memory ctx))) n_embd ?m (cp_embeddings cp) (lc_balloc ctx) = Inr (Some a)" using A by blast
  note f = accepted_fields [OF i]
  have np: "ba_n_pos_per_embd (lc_balloc ctx) = 1" and nt: "b_n_tokens inp \<le> int INT32_MAX" and z: "0 < ?m" using A by (simp_all add: LLAMA_MAX_SEQ_def)
  have mp: "mrope_positions_given (ba_n_pos_per_embd (lc_balloc ctx)) inp" by (simp add: mrope_positions_given_def np)
  note k = init_allocr_ok [OF i nt mp]
  have un: "unused_tokens a = {..<get_n_tokens a}" using k(2,3) by simp
  have inv: "simple_inv a" by (rule fresh_invariants(1) [OF k(1) un])
  obtain us parts a' where s: "split_all (Suc (get_n_tokens a)) (split_simple (cp_n_ubatch cp)) a = Inr (Some (us, a'))" "simple_inv a'"
      "list_all2 (carries (ba_batch a) 1 ?m) us parts" "\<forall>p \<in> set parts. p \<noteq> []" "distinct (concat parts)" "set (concat parts) = {..<get_n_tokens a}"
      "ba_batch a' = ba_batch a" "unused_tokens a' = {}" "ba_out_ids a' = filter (flagged (ba_batch a)) (concat parts)"
    using simple.split_all_partition [OF inv, of "Suc (get_n_tokens a)" "cp_n_ubatch cp"] un k(4) f(2,3) np by (auto simp: flagged_def [abs_def])
  have tok: "\<forall>i \<in> set (concat parts). token_ok ?m (ba_batch a) i"
  proof
    fix x assume "x \<in> set (concat parts)"
    then have x: "x < get_n_tokens a" using s(6) by blast
    have mm: "-1 \<le> p" if "Some (kv_memory (lc_memory ctx)) = Some mi" "mem_seq_pos_max mi q = Inr p" for mi q p
      using kv_pos_max_bound [of "lc_memory ctx" q p] that A by (auto simp: kv_memory_def)
    show "token_ok ?m (ba_batch a) x" by (rule accepted_tokens [OF i _ mm z x]) (use A in auto)
  qed
  have uok: "\<forall>u \<in> set us. ubatch_ok u \<and> names_seq u"
  proof
    fix u assume "u \<in> set us"
    then obtain j where j: "j < length us" "u = us ! j" by (auto simp: in_set_conv_nth)
    then have c: "carries (ba_batch a) 1 ?m u (parts ! j)" "parts ! j \<in> set parts" using s(3) by (auto simp: list_all2_conv_all_nth)
    then have "parts ! j \<noteq> []" "\<forall>i \<in> set (parts ! j). token_ok ?m (ba_batch a) i" using s(4) tok by auto
    then show "ubatch_ok u \<and> names_seq u" using carries_ubatch_ok(1,2) [OF c(1)] f(6) by blast
  qed
  have lens: "map ub_n_tokens us = map length parts"
    using s(3) by (auto simp: list_all2_conv_all_nth carries_def intro!: nth_equalityI)
  have total: "total_tokens us = get_n_tokens a"
    using distinct_card [OF s(5)] unfolding s(6) total_tokens_def lens by (simp add: length_concat)
  have ne: "us \<noteq> []" using total f(5) by (auto simp: total_tokens_def)
  have used: "\<not> get_n_used a' < get_n_tokens a'" using card_unused(2) [of a'] s(2,8) by (simp add: simple_inv_def get_n_used_def)
  have no: "ba_n_outputs a' = ba_n_outputs a"
    by (rule split_all_keeps [OF inv s(1)])
  note d = plain_cacheD [OF kv(1)]
  obtain sis kv' where p: "kv_prepare us kv = Inr (sis, kv')" "same_kv kv' kv"
      "if total_tokens us \<le> card (free_cells kv)
       then \<exists>xss. sis = map the_slot xss \<and> map length xss = map ub_n_tokens us \<and> distinct (concat xss) \<and> set (concat xss) \<subseteq> free_cells kv else sis = []"
    using prepare_ok [of kv us] kv ne uok by (auto simp: plain_cache_def no_shifts_def)
  have sp: "kv_cache_split (kv_n_stream kv) (cp_n_ubatch cp) = split_simple (cp_n_ubatch cp)"
    using kv(1) by (simp add: kv_cache_split_def plain_cache_def)
  have att: "kv_init_batch (Suc (get_n_tokens a)) (cp_n_ubatch cp) a kv =
      Inr (Some (if sis = [] then context_status LLAMA_MEMORY_STATUS_FAILED_PREPARE else context_batch sis us, a', kv'))"
    unfolding kv_init_batch_def sp f(1) s(1) using used p(1) by simp
  have "if get_n_tokens a \<le> card (free_cells kv)
     then \<exists>xss. map length xss = map length parts \<and> distinct (concat xss) \<and> set (concat xss) \<subseteq> free_cells kv \<and>
       batch_context env (cp_n_ubatch cp) a kv = Inr (Some (Inr (context_batch (map the_slot xss) us), a', kv'))
     else batch_context env (cp_n_ubatch cp) a kv = Inr (Some (Inl 1, a', kv'))"
  proof (cases "get_n_tokens a \<le> card (free_cells kv)")
    case True
    then obtain xss where x: "sis = map the_slot xss" "map length xss = map ub_n_tokens us" "distinct (concat xss)" "set (concat xss) \<subseteq> free_cells kv"
      using p(3) total by auto
    have "sis \<noteq> []" using x(1,2) ne by auto
    then have "batch_context env (cp_n_ubatch cp) a kv = Inr (Some (Inr (context_batch (map the_slot xss) us), a', kv'))"
      unfolding batch_context_def Let_def att using x(1) by (simp add: context_batch_def context_status_def)
    then show ?thesis using True x lens by auto
  next
    case False
    have "memory_update env kv' = Inr (LLAMA_MEMORY_STATUS_NO_UPDATE, kv')"
      using same_kv_plain(1,4) [OF p(2) kv(1)] kv(3) by (intro memory_update_idle) simp_all
    then show ?thesis using False p(3) total att unfolding batch_context_def Let_def by (simp add: context_status_def)
  qed
  then show ?thesis using s tok no p(2) f(6) by blast
qed

end
