(* ===== verification/DecodeProps.thy ===== *)
theory DecodeProps
  imports DecodeStep
begin

text \<open>
  Properties of a whole call of \<^verbatim>\<open>llama_context::decode\<close> on an ordinary cache.
\<close>

section \<open>A call that succeeds\<close>

lemma concat_index_fun:
  assumes "distinct (concat parts)"
  shows "\<exists>f. \<forall>j < length parts. \<forall>k < length (parts ! j). f (parts ! j ! k) = g j k"
  using assms
proof (induction parts arbitrary: g)
  case (Cons p parts)
  have "distinct (concat parts)" using Cons.prems by simp
  then obtain f where f: "\<forall>j < length parts. \<forall>k < length (parts ! j). f (parts ! j ! k) = g (Suc j) k"
    using Cons.IH [of "\<lambda>j. g (Suc j)"] by blast
  have inj: "inj_on (nth p) {..<length p}" using Cons.prems by (simp add: inj_on_nth)
  let ?f = "\<lambda>x. if x \<in> set p then g 0 (the_inv_into {..<length p} (nth p) x) else f x"
  have st: "?f ((p # parts) ! j ! k) = g j k" if "j < length (p # parts)" "k < length ((p # parts) ! j)" for j k
  proof (cases j)
    case 0
    then show ?thesis using that the_inv_into_f_f [OF inj, of k] by simp
  next
    case (Suc i)
    then have "parts ! i ! k \<in> set (concat parts)" using that by (auto intro!: bexI [of _ "parts ! i"])
    then have "parts ! i ! k \<notin> set p" using Cons.prems by auto
    then show ?thesis using that f Suc by simp
  qed
  show ?case by (intro exI [of _ ?f] allI impI st)
qed simp

lemma output_reserve_ok:
  assumes "de_output_alloc env" and "max n (cp_n_seq_max cp) \<le> cp_n_outputs_max cp"
  shows "output_reserve env cp n ctx = Inr (max n (cp_n_seq_max cp), ctx\<lparr>
      lc_output_ids := map (\<lambda>_. -1) (if lc_output_ids ctx = [] then replicate (cp_n_batch cp) 0 else lc_output_ids ctx),
      lc_logits := replicate (max n (cp_n_seq_max cp)) None, lc_embd := (if cp_embeddings cp then replicate (max n (cp_n_seq_max cp)) None else []),
      lc_embd_layer_inp := map (\<lambda>on. if on then replicate (cp_n_batch cp) None else []) (cp_embeddings_layer_inp cp), lc_n_outputs := 0\<rparr>)"
  using assms by (simp add: output_reserve_def Let_def)

lemma run_ok:
  assumes pl: "decode_plan env b m us parts xss f" and ne: "us \<noteq> []" and d: "distinct (concat parts)"
    and kv: "plain_cache (lc_memory ctx)" "set (concat xss) \<subseteq> free_cells (lc_memory ctx)"
    and n: "n_out b parts = ba_n_outputs (lc_balloc ctx)" "length (concat parts) = get_n_tokens (lc_balloc ctx)" "get_n_tokens (lc_balloc ctx) \<le> cp_n_batch cp"
      "set (concat parts) = {..<get_n_tokens (lc_balloc ctx)}" "ba_out_ids (lc_balloc ctx) = filter (flagged b) (concat parts)"
    and c: "lc_samplers ctx = {}" "lc_output_ids ctx = [] \<or> length (lc_output_ids ctx) = cp_n_batch cp" "lc_output_swaps ctx = []"
    and r: "de_output_alloc env" "max (ba_n_outputs (lc_balloc ctx)) (cp_n_seq_max cp) \<le> cp_n_outputs_max cp"
  shows "\<exists>ctx1 ctx2 ctx'. decode_run env cp (context_batch (map the_slot xss) us) ctx = Inr (Some (0, ctx2)) \<and>
    stage b cp us parts xss f ctx1 (length us) ctx' \<and> lc_memory ctx1 = lc_memory ctx \<and> lc_memory ctx2 = lc_memory ctx' \<and>
    (\<forall>i < get_n_tokens (lc_balloc ctx). \<exists>ctx3. get_logits_ith (int i) ctx2 = Inr (if flagged b i then Some (Some (f i)) else None, ctx3))"
proof -
  let ?N = "ba_n_outputs (lc_balloc ctx)" and ?c = "lc_output_ids ctx"
  define ctx1 where "ctx1 = ctx\<lparr>lc_output_ids := map (\<lambda>_. -1) (if lc_output_ids ctx = [] then replicate (cp_n_batch cp) 0 else lc_output_ids ctx),
      lc_logits := replicate (max ?N (cp_n_seq_max cp)) None, lc_embd := (if cp_embeddings cp then replicate (max ?N (cp_n_seq_max cp)) None else []),
      lc_embd_layer_inp := map (\<lambda>on. if on then replicate (cp_n_batch cp) None else []) (cp_embeddings_layer_inp cp), lc_n_outputs := 0\<rparr>"
  have f1: "lc_memory ctx1 = lc_memory ctx" "lc_balloc ctx1 = lc_balloc ctx" "lc_output_swaps ctx1 = []" "length (lc_output_ids ctx1) = cp_n_batch cp"
      "\<forall>x \<in> set (lc_output_ids ctx1). x = -1"
    using c(2,3) by (auto simp: ctx1_def)
  have st0: "stage b cp us parts xss f ctx1 0 ctx1"
    using kv n(1) c(1,3) by (simp add: stage_def ctx1_def buffer_fits_def comp_def)
  have rd: "loop_ready us xss 0 (context_batch (map the_slot xss) us)" by (simp add: loop_ready_def context_batch_def context_status_def)
  have nb: "length (concat parts) \<le> cp_n_batch cp" using n(2,3) by simp
  obtain dd where dd: "length us = 0 + Suc dd" using ne by (cases us) auto
  have fr: "set (concat xss) \<subseteq> free_cells (lc_memory ctx1)" using kv(2) f1(1) by simp
  obtain ctx' where l: "stage b cp us parts xss f ctx1 (length us) ctx'"
      "decode_loop (Suc dd + 1) env cp (n_out b parts) (length (concat parts)) (context_batch (map the_slot xss) us) (n_out b (take 0 parts)) (length (concat (take 0 parts))) ctx1 =
        bind_r (set_output_mapping (n_out b parts) (ctx'\<lparr>lc_n_outputs := n_out b parts\<rparr>)) (\<lambda>ctx. Inr (Some (0, ctx)))"
    using loop_all [OF pl fr nb st0 dd rd, of 1] by blast
  let ?d = "ctx'\<lparr>lc_n_outputs := n_out b parts\<rparr>" and ?ids = "filter (flagged b) (concat parts)"
  note S = l(1) [unfolded stage_def]
  have lp: "length parts = length us" using plan_part(1) [OF pl, of 0] ne by simp
  have idl: "length ?ids = n_out b parts" by (simp add: n_out_def)
  have nle: "n_out b parts \<le> cp_n_batch cp" unfolding n_out_def by (rule order_trans [OF length_filter_le nb])
  have lay: "buffer_fits (n_out b parts) buf" if m: "buf \<in> set (lc_embd_layer_inp ctx')" for buf
  proof -
    obtain il where "il < length (lc_embd_layer_inp ctx')" "buf = lc_embd_layer_inp ctx' ! il" using m by (auto simp: in_set_conv_nth)
    then have "length buf = map length (lc_embd_layer_inp ctx') ! il" "il < length (map length (lc_embd_layer_inp ctx'))" by simp_all
    moreover have "map length (lc_embd_layer_inp ctx') = map (\<lambda>on. if on then cp_n_batch cp else 0) (cp_embeddings_layer_inp cp)" using S by blast
    ultimately have "length buf = 0 \<or> length buf = cp_n_batch cp" by (simp split: if_splits)
    then show ?thesis using nle by (auto simp: buffer_fits_def)
  qed
  have pend: "outputs_pending ?ids ?d"
    unfolding outputs_pending_def idl using S d n(4,5) f1 n(3) nb lay by (auto simp: buffer_fits_def)
  have rows: "rows_of f ?ids (lc_logits ?d)" using S lp by (auto simp: rows_of_def)
  obtain ctx2 ctx3 where o: "set_output_mapping (length ?ids) ?d = Inr ctx2" "output_reorder ctx2 = Inr ctx3"
      "\<forall>i < length (lc_output_ids ?d). get_logits_ith (int i) ctx2 = Inr (if i \<in> set ?ids then Some (Some (f i)) else None, ctx3) \<and>
      get_logits_ith (int i) ctx3 = get_logits_ith (int i) ctx2"
    using outputs_read [OF pend rows] by blast
  obtain ss where e2: "ctx2 = ?d\<lparr>lc_balloc := (lc_balloc ?d)\<lparr>ba_out_ids := sort ?ids\<rparr>, lc_output_swaps := ss, lc_output_ids := lc_output_ids ctx2\<rparr>"
    using set_output_mapping_ok [OF pend] o(1) by auto
  have mem2: "lc_memory ctx2 = lc_memory ctx'" by (subst e2) simp
  have z: "n_out b (take 0 parts) = 0" "length (concat (take 0 parts)) = 0" by (simp_all add: n_out_def)
  have m: "set_output_mapping (n_out b parts) ?d = Inr ctx2" using o(1) unfolding idl .
  have rs: "output_reserve env cp ?N ctx = Inr (max ?N (cp_n_seq_max cp), ctx1)" unfolding ctx1_def by (rule output_reserve_ok [OF r])
  have lu: "Suc (length (kx_ubatches (context_batch (map the_slot xss) us))) = Suc dd + 1" using dd by (simp add: context_batch_def)
  have nlt: "\<not> max ?N (cp_n_seq_max cp) < ?N" by simp
  have run: "decode_run env cp (context_batch (map the_slot xss) us) ctx = Inr (Some (0, ctx2))"
    unfolding decode_run_def Let_def rs bind_r_simps prod.case if_not_P [OF nlt] lu using l(2) [unfolded m z bind_r_simps] unfolding n(1,2) .
  have get: "\<forall>i < get_n_tokens (lc_balloc ctx). \<exists>ctx3. get_logits_ith (int i) ctx2 = Inr (if flagged b i then Some (Some (f i)) else None, ctx3)"
    using o(3) S f1(4) n(3,4) by auto
  show ?thesis by (rule exI [of _ ctx1], rule exI [of _ ctx2], rule exI [of _ ctx']) (intro conjI run l(1) f1(1) mem2 get)
qed

lemma decode_accepted:
  assumes acc: "decode_accepts env cp n_vocab n_embd inp ctx a"
  shows "\<exists>kv. plain_cache kv \<and> no_shifts kv \<and> \<not> kv_get_has_shift kv \<and> same_content kv (lc_memory ctx) \<and>
    decode env cp n_vocab n_embd inp ctx =
      bind_r (batch_context env (cp_n_ubatch cp) a kv) (\<lambda>r. case r of None \<Rightarrow> Inr None
        | Some (r, a', kv') \<Rightarrow>
            (case r of Inl code \<Rightarrow> Inr (Some (code, ctx\<lparr>lc_balloc := a', lc_memory := kv', lc_output_swaps := []\<rparr>))
             | Inr mctx \<Rightarrow> decode_run env cp mctx (ctx\<lparr>lc_balloc := a', lc_memory := kv', lc_output_swaps := []\<rparr>)))"
proof -
  note A = acc [unfolded decode_accepts_def]
  obtain st kv where u: "memory_update env (lc_memory ctx) = Inr (st, kv)" "\<not> llama_memory_status_is_fail st" "plain_cache kv" "no_shifts kv"
      "\<not> kv_get_has_shift kv" "same_content kv (lc_memory ctx)"
    using memory_update_ok [of "lc_memory ctx" env] A by blast
  have i: "allocr_init inp n_vocab (Some (kv_memory (lc_memory ctx))) n_embd (if cp_kv_unified cp then LLAMA_MAX_SEQ else cp_n_seq_max cp)
      (cp_embeddings cp) (lc_balloc ctx) = Inr (Some a)" using A by blast
  have o: "\<not> (cp_embeddings cp \<and> ba_n_outputs a \<noteq> get_n_tokens a)" using accepted_fields(7) [OF i] by auto
  have s: "sampler_outputs_ok cp k oa inp (lc_samplers ctx)" for k oa using A by (simp add: sampler_outputs_ok_def)
  have e: "ctx\<lparr>lc_balloc := a, lc_memory := kv, lc_output_swaps := []\<rparr>\<lparr>lc_balloc := a', lc_memory := kv'\<rparr> =
      ctx\<lparr>lc_balloc := a', lc_memory := kv', lc_output_swaps := []\<rparr>" for a' kv' by simp
  have tok: "b_token inp \<noteq> None \<or> b_embd inp \<noteq> None" "b_n_tokens inp \<noteq> 0" "get_n_tokens a \<le> cp_n_batch cp"
      "cp_causal_attn cp \<or> get_n_tokens a \<le> cp_n_ubatch cp"
    using A by blast+
  have "decode env cp n_vocab n_embd inp ctx =
      bind_r (batch_context env (cp_n_ubatch cp) a kv) (\<lambda>r. case r of None \<Rightarrow> Inr None
        | Some (r, a', kv') \<Rightarrow>
            (case r of Inl code \<Rightarrow> Inr (Some (code, ctx\<lparr>lc_balloc := a', lc_memory := kv', lc_output_swaps := []\<rparr>))
             | Inr mctx \<Rightarrow> decode_run env cp mctx (ctx\<lparr>lc_balloc := a', lc_memory := kv', lc_output_swaps := []\<rparr>)))"
    unfolding decode_def Let_def i bind_r_simps option.case u(1) prod.case if_not_P [OF o] if_not_P [OF u(2)] e
    using tok s by (simp cong: if_cong option.case_cong)
  then show ?thesis using u by blast
qed

lemma decode_core:
  assumes acc: "decode_accepts env cp n_vocab n_embd inp ctx a" and run: "\<forall>i. de_run env i = Computed GGML_STATUS_SUCCESS"
    and room: "get_n_tokens a \<le> card (free_cells (lc_memory ctx))"
  shows "\<exists>us parts xss m ctx'. decode env cp n_vocab n_embd inp ctx = Inr (Some (0, ctx')) \<and>
    list_all2 (carries (ba_batch a) 1 m) us parts \<and> distinct (concat parts) \<and> set (concat parts) = {..<get_n_tokens a} \<and>
    map length xss = map length parts \<and> distinct (concat xss) \<and> set (concat xss) \<subseteq> free_cells (lc_memory ctx) \<and> plain_cache (lc_memory ctx') \<and>
    (\<forall>j < length us. \<forall>k < length (parts ! j). kv_view (lc_memory ctx') ! 0 ! (xss ! j ! k) =
       (bf_pos (ba_batch a) ! (parts ! j ! k), nat ` set (tok_seqs (ba_batch a) (parts ! j ! k)))) \<and>
    (\<forall>x. x \<notin> set (concat xss) \<longrightarrow> kv_view (lc_memory ctx') ! 0 ! x = kv_view (lc_memory ctx) ! 0 ! x) \<and>
    (\<forall>j < length us. \<forall>k < length (parts ! j). \<exists>c. get_logits_ith (int (parts ! j ! k)) ctx' =
       Inr (if bf_logits (ba_batch a) ! (parts ! j ! k) \<noteq> 0 then Some (Some (de_logits env (us ! j) k)) else None, c))"
proof -
  note A = acc [unfolded decode_accepts_def]
  let ?b = "ba_batch a"
  obtain kv where kv: "plain_cache kv" "no_shifts kv" "\<not> kv_get_has_shift kv" "same_content kv (lc_memory ctx)"
      "decode env cp n_vocab n_embd inp ctx =
      bind_r (batch_context env (cp_n_ubatch cp) a kv) (\<lambda>r. case r of None \<Rightarrow> Inr None
        | Some (r, a', kv') \<Rightarrow>
            (case r of Inl code \<Rightarrow> Inr (Some (code, ctx\<lparr>lc_balloc := a', lc_memory := kv', lc_output_swaps := []\<rparr>))
             | Inr mctx \<Rightarrow> decode_run env cp mctx (ctx\<lparr>lc_balloc := a', lc_memory := kv', lc_output_swaps := []\<rparr>)))"
    using decode_accepted [OF acc] by blast
  have fr: "free_cells kv = free_cells (lc_memory ctx)" "kv_view kv = kv_view (lc_memory ctx)" using kv(4) by (simp_all add: same_content_def)
  obtain us parts a' kv' m where c: "list_all2 (carries ?b 1 m) us parts" "m \<le> LLAMA_MAX_SEQ" "\<forall>p \<in> set parts. p \<noteq> []" "distinct (concat parts)"
      "set (concat parts) = {..<get_n_tokens a}" "\<forall>i \<in> set (concat parts). token_ok m ?b i" "ba_batch a' = ?b" "ba_n_outputs a' = ba_n_outputs a"
      "ba_out_ids a' = filter (flagged ?b) (concat parts)" "same_kv kv' kv"
      "if get_n_tokens a \<le> card (free_cells kv)
       then \<exists>xss. map length xss = map length parts \<and> distinct (concat xss) \<and> set (concat xss) \<subseteq> free_cells kv \<and>
         batch_context env (cp_n_ubatch cp) a kv = Inr (Some (Inr (context_batch (map the_slot xss) us), a', kv'))
       else batch_context env (cp_n_ubatch cp) a kv = Inr (Some (Inl 1, a', kv'))"
    using accepted_batch_context [OF acc kv(1-3)] by blast
  obtain xss where x: "map length xss = map length parts" "distinct (concat xss)" "set (concat xss) \<subseteq> free_cells kv"
      "batch_context env (cp_n_ubatch cp) a kv = Inr (Some (Inr (context_batch (map the_slot xss) us), a', kv'))"
    using c(11) room fr by auto
  note k' = same_kv_plain [OF c(10) kv(1)]
  have fr': "free_cells kv' = free_cells (lc_memory ctx)" "kv_view kv' = kv_view (lc_memory ctx)" using k'(2) fr by (simp_all add: same_content_def)
  have lp: "length parts = length us" using c(1) list_all2_lengthD by metis
  obtain f where f: "\<forall>j < length parts. \<forall>k < length (parts ! j). f (parts ! j ! k) = de_logits env (us ! j) k"
    using concat_index_fun [OF c(4), of "\<lambda>j. de_logits env (us ! j)"] by metis
  have pl: "decode_plan env ?b m us parts xss f" unfolding decode_plan_def using run f lp by (intro conjI c x) simp_all
  have i: "allocr_init inp n_vocab (Some (kv_memory (lc_memory ctx))) n_embd (if cp_kv_unified cp then LLAMA_MAX_SEQ else cp_n_seq_max cp)
      (cp_embeddings cp) (lc_balloc ctx) = Inr (Some a)" using A by blast
  have tk: "get_n_tokens a' = get_n_tokens a" using c(7) by (simp add: get_n_tokens_def)
  have ln: "length (concat parts) = get_n_tokens a" using distinct_card [OF c(4)] c(5) by simp
  have "mset (concat parts) = mset [0..<get_n_tokens a]" using c(4,5) by (metis atLeast_upt distinct_upt set_eq_iff_mset_eq_distinct)
  then have "mset (filter (flagged ?b) (concat parts)) = mset (filter (flagged ?b) [0..<get_n_tokens a])" by simp
  then have no: "n_out ?b parts = ba_n_outputs a" unfolding n_out_def accepted_fields(4) [OF i] by (rule mset_eq_length)
  have ne: "us \<noteq> []" using ln accepted_fields(5) [OF i] lp by auto
  let ?c = "ctx\<lparr>lc_balloc := a', lc_memory := kv', lc_output_swaps := []\<rparr>"
  have "\<exists>ctx1 ctx2 ctx'. decode_run env cp (context_batch (map the_slot xss) us) ?c = Inr (Some (0, ctx2)) \<and>
      stage ?b cp us parts xss f ctx1 (length us) ctx' \<and> lc_memory ctx1 = lc_memory ?c \<and> lc_memory ctx2 = lc_memory ctx' \<and>
      (\<forall>i < get_n_tokens (lc_balloc ?c). \<exists>ctx3. get_logits_ith (int i) ctx2 = Inr (if flagged ?b i then Some (Some (f i)) else None, ctx3))"
    by (rule run_ok [OF pl ne c(4)]) (use A k'(1) x(3) fr fr' no c(5,8,9) tk ln in simp_all)
  then obtain ctx1 ctx2 ctx' where r: "decode_run env cp (context_batch (map the_slot xss) us) ?c = Inr (Some (0, ctx2))"
      "stage ?b cp us parts xss f ctx1 (length us) ctx'" "lc_memory ctx1 = kv'" "lc_memory ctx2 = lc_memory ctx'"
      "\<forall>i < get_n_tokens a. \<exists>ctx3. get_logits_ith (int i) ctx2 = Inr (if flagged ?b i then Some (Some (f i)) else None, ctx3)"
    using tk by auto
  have res: "decode env cp n_vocab n_embd inp ctx = Inr (Some (0, ctx2))" unfolding kv(5) x(4) using r(1) by simp
  note S = r(2) [unfolded stage_def]
  have lx: "length xss = length us" "\<And>j. j < length us \<Longrightarrow> length (xss ! j) = length (parts ! j)"
    using x(1) lp by (metis length_map, metis length_map nth_map)
  have view: "\<forall>j < length us. \<forall>k < length (parts ! j). kv_view (lc_memory ctx2) ! 0 ! (xss ! j ! k) =
       (bf_pos ?b ! (parts ! j ! k), nat ` set (tok_seqs ?b (parts ! j ! k)))"
    using S lx plan_part(11) [OF pl] unfolding r(4) by simp
  have same: "\<forall>x. x \<notin> set (concat xss) \<longrightarrow> kv_view (lc_memory ctx2) ! 0 ! x = kv_view (lc_memory ctx) ! 0 ! x"
    using S lx(1) fr'(2) unfolding r(3,4) by simp
  have rows: "\<forall>j < length us. \<forall>k < length (parts ! j). \<exists>c. get_logits_ith (int (parts ! j ! k)) ctx2 =
       Inr (if bf_logits ?b ! (parts ! j ! k) \<noteq> 0 then Some (Some (de_logits env (us ! j) k)) else None, c)"
  proof (intro allI impI)
    fix j k assume jk: "j < length us" "k < length (parts ! j)"
    have "parts ! j ! k \<in> set (concat parts)" using jk lp by (auto intro!: bexI [of _ "parts ! j"])
    then have "parts ! j ! k < get_n_tokens a" using c(5) by blast
    moreover have "f (parts ! j ! k) = de_logits env (us ! j) k" using f jk lp by simp
    ultimately show "\<exists>c. get_logits_ith (int (parts ! j ! k)) ctx2 =
       Inr (if bf_logits ?b ! (parts ! j ! k) \<noteq> 0 then Some (Some (de_logits env (us ! j) k)) else None, c)"
      using r(5) [rule_format, of "parts ! j ! k"] unfolding flagged_def by metis
  qed
  have "set (concat xss) \<subseteq> free_cells (lc_memory ctx)" "plain_cache (lc_memory ctx2)" using x(3) fr S unfolding r(4) by simp_all
  then show ?thesis using res c(1,4,5) x(1,2) view same rows by blast
qed

text \<open>C2: A batch that decode accepts, that fits and whose graphs are computed is stored completely and nowhere else
  (llama_context::decode with memory_update, init_batch, process_ubatch, on a cache with one stream and without a
  window, allocation groups, an exact tail or backend samplers, and with room for the outputs; position shifts may be pending). The call returns 0, every token of the batch gets a
  cell of its own that was empty before, that cell then holds the token's position and its sequences, and
  every other cell shows what it showed before.\<close>

theorem decode_places:
  assumes "decode_accepts env cp n_vocab n_embd inp ctx a" and "\<forall>i. de_run env i = Computed GGML_STATUS_SUCCESS"
    and "get_n_tokens a \<le> card (free_cells (lc_memory ctx))"
  shows "\<exists>ctx' cell. decode env cp n_vocab n_embd inp ctx = Inr (Some (0, ctx')) \<and>
    inj_on cell {..<get_n_tokens a} \<and> cell ` {..<get_n_tokens a} \<subseteq> free_cells (lc_memory ctx) \<and>
    (\<forall>i < get_n_tokens a. kv_view (lc_memory ctx') ! 0 ! cell i = (bf_pos (ba_batch a) ! i, tok_seq_set (ba_batch a) i)) \<and>
    (\<forall>x. x \<notin> cell ` {..<get_n_tokens a} \<longrightarrow> kv_view (lc_memory ctx') ! 0 ! x = kv_view (lc_memory ctx) ! 0 ! x) \<and> kv_wf (lc_memory ctx')"
proof -
  obtain us parts xss m ctx' where c: "decode env cp n_vocab n_embd inp ctx = Inr (Some (0, ctx'))" "list_all2 (carries (ba_batch a) 1 m) us parts"
      "distinct (concat parts)" "set (concat parts) = {..<get_n_tokens a}" "map length xss = map length parts" "distinct (concat xss)"
      "set (concat xss) \<subseteq> free_cells (lc_memory ctx)" "plain_cache (lc_memory ctx')"
      "\<forall>j < length us. \<forall>k < length (parts ! j). kv_view (lc_memory ctx') ! 0 ! (xss ! j ! k) =
       (bf_pos (ba_batch a) ! (parts ! j ! k), nat ` set (tok_seqs (ba_batch a) (parts ! j ! k)))"
      "\<forall>x. x \<notin> set (concat xss) \<longrightarrow> kv_view (lc_memory ctx') ! 0 ! x = kv_view (lc_memory ctx) ! 0 ! x"
    using decode_core [OF assms] by blast
  have lp: "length parts = length us" using c(2) list_all2_lengthD by metis
  have lx: "length xss = length parts" "\<And>j. j < length parts \<Longrightarrow> length (xss ! j) = length (parts ! j)"
    using c(5) by (metis length_map, metis length_map nth_map)
  obtain cell where cell: "\<forall>j < length parts. \<forall>k < length (parts ! j). cell (parts ! j ! k) = xss ! j ! k"
    using concat_index_fun [OF c(3), of "\<lambda>j k. xss ! j ! k"] by metis
  have at: "\<exists>j k. j < length parts \<and> k < length (parts ! j) \<and> i = parts ! j ! k" if "i \<in> {..<get_n_tokens a}" for i
    using that unfolding c(4) [symmetric] by (auto simp: in_set_conv_nth) blast
  have im: "cell ` {..<get_n_tokens a} = set (concat xss)"
  proof
    show "cell ` {..<get_n_tokens a} \<subseteq> set (concat xss)"
    proof
      fix y assume "y \<in> cell ` {..<get_n_tokens a}"
      then obtain i where "i \<in> {..<get_n_tokens a}" "y = cell i" by blast
      then obtain j k where jk: "j < length parts" "k < length (parts ! j)" "y = xss ! j ! k" using at [of i] cell by auto
      then show "y \<in> set (concat xss)" using lx by (auto intro!: bexI [of _ "xss ! j"])
    qed
    show "set (concat xss) \<subseteq> cell ` {..<get_n_tokens a}"
    proof
      fix y assume "y \<in> set (concat xss)"
      then obtain j k where jk: "j < length parts" "k < length (parts ! j)" "y = xss ! j ! k" using lx by (auto simp: in_set_conv_nth)
      then have "y = cell (parts ! j ! k)" "parts ! j ! k \<in> set (concat parts)" using cell by (auto intro!: bexI [of _ "parts ! j"])
      then show "y \<in> cell ` {..<get_n_tokens a}" unfolding c(4) [symmetric] by blast
    qed
  qed
  have "length (concat xss) = length (concat parts)" using c(5) by (simp add: length_concat)
  then have "card (cell ` {..<get_n_tokens a}) = card {..<get_n_tokens a}" unfolding im using distinct_card [OF c(6)] distinct_card [OF c(3)] c(4) by simp
  then have inj: "inj_on cell {..<get_n_tokens a}" by (intro eq_card_imp_inj_on) simp_all
  have view: "\<forall>i < get_n_tokens a. kv_view (lc_memory ctx') ! 0 ! cell i = (bf_pos (ba_batch a) ! i, tok_seq_set (ba_batch a) i)"
  proof (intro allI impI)
    fix i assume "i < get_n_tokens a"
    then obtain j k where "j < length parts" "k < length (parts ! j)" "i = parts ! j ! k" using at [of i] by blast
    then show "kv_view (lc_memory ctx') ! 0 ! cell i = (bf_pos (ba_batch a) ! i, tok_seq_set (ba_batch a) i)"
      using cell c(9) lp by (simp add: tok_seq_set_def)
  qed
  have w: "kv_wf (lc_memory ctx')" using c(8) by (simp add: plain_cache_def)
  show ?thesis using c(7,10) unfolding im [symmetric] by (intro exI [of _ ctx'] exI [of _ cell] conjI c(1) inj view w)
qed

text \<open>C8: After a call that accepts a batch that fits and computes all its graphs (the conditions of the placement
  above: one stream, no window, no exact tail, no backend samplers) the caller reads, for every token of the batch, what the graph computed for that token
  (llama_context::decode and get_logits_ith). The batch is cut into micro-batches that carry its tokens, each token in
  exactly one place; for a token marked for output get_logits_ith returns the row computed at that place,
  for every other token none.\<close>

theorem decode_outputs:
  assumes "decode_accepts env cp n_vocab n_embd inp ctx a" and "\<forall>i. de_run env i = Computed GGML_STATUS_SUCCESS"
    and "get_n_tokens a \<le> card (free_cells (lc_memory ctx))"
  shows "\<exists>us parts m ctx'. decode env cp n_vocab n_embd inp ctx = Inr (Some (0, ctx')) \<and>
    list_all2 (carries (ba_batch a) 1 m) us parts \<and> distinct (concat parts) \<and> set (concat parts) = {..<get_n_tokens a} \<and>
    (\<forall>j < length us. \<forall>k < length (parts ! j). \<exists>c. get_logits_ith (int (parts ! j ! k)) ctx' =
       Inr (if bf_logits (ba_batch a) ! (parts ! j ! k) \<noteq> 0 then Some (Some (de_logits env (us ! j) k)) else None, c))"
  using decode_core [OF assms] by blast

section \<open>A call that finds no room\<close>

text \<open>C20: A batch that decode accepts but that is larger than the number of empty cells is refused with code 1, and no
  position and no owner of a cell of the cache changes, nor do the outputs of the previous call (llama_context::decode on a
  cache with one stream and without a window, allocation groups or an exact tail; the memory update between the two attempts has
  nothing to do).\<close>

theorem decode_no_room:
  assumes acc: "decode_accepts env cp n_vocab n_embd inp ctx a" and full: "card (free_cells (lc_memory ctx)) < get_n_tokens a"
  shows "\<exists>ctx'. decode env cp n_vocab n_embd inp ctx = Inr (Some (1, ctx')) \<and> kv_view (lc_memory ctx') = kv_view (lc_memory ctx) \<and>
    kv_wf (lc_memory ctx') \<and> lc_logits ctx' = lc_logits ctx \<and> lc_output_ids ctx' = lc_output_ids ctx"
proof -
  obtain kv where kv: "plain_cache kv" "no_shifts kv" "\<not> kv_get_has_shift kv" "same_content kv (lc_memory ctx)"
      "decode env cp n_vocab n_embd inp ctx =
      bind_r (batch_context env (cp_n_ubatch cp) a kv) (\<lambda>r. case r of None \<Rightarrow> Inr None
        | Some (r, a', kv') \<Rightarrow>
            (case r of Inl code \<Rightarrow> Inr (Some (code, ctx\<lparr>lc_balloc := a', lc_memory := kv', lc_output_swaps := []\<rparr>))
             | Inr mctx \<Rightarrow> decode_run env cp mctx (ctx\<lparr>lc_balloc := a', lc_memory := kv', lc_output_swaps := []\<rparr>)))"
    using decode_accepted [OF acc] by blast
  have "\<not> get_n_tokens a \<le> card (free_cells kv)" using full kv(4) by (simp add: same_content_def)
  then obtain a' kv' where b: "batch_context env (cp_n_ubatch cp) a kv = Inr (Some (Inl 1, a', kv'))" "same_kv kv' kv"
    using accepted_batch_context [OF acc kv(1-3)] by auto
  have "kv_view kv' = kv_view (lc_memory ctx)" "kv_wf kv'"
    using same_kv_plain(1,2) [OF b(2) kv(1)] kv(4) by (simp_all add: same_content_def plain_cache_def)
  then show ?thesis unfolding kv(5) b(1) by simp
qed

section \<open>A concrete call\<close>

definition decode_kv_example :: llama_kv_cache where
  "decode_kv_example = kv_example\<lparr>kv_tail := None\<rparr>"

definition decode_env_example :: "nat decode_env" where
  "decode_env_example = \<lparr>de_update = \<lparr>ge_step35 = False, ge_rope = True, ge_copy_alloc = True, ge_copy_compute = True, ge_shift_alloc = True,
     ge_shift_compute = True\<rparr>, de_reserve = True, de_output_alloc = True, de_n_pad = 32, de_run = (\<lambda>_. Computed GGML_STATUS_SUCCESS),
     de_logits = (\<lambda>u k. nat (the (ub_token u) ! k)), de_embd = (\<lambda>u k. 0), de_layer_inp = (\<lambda>il u k. 0)\<rparr>"

definition cparams_example :: llama_cparams where
  "cparams_example = \<lparr>cp_n_batch = 8, cp_n_ubatch = 2, cp_n_seq_max = 1, cp_n_outputs_max = 8, cp_n_outputs_max_per_seq = 1, cp_kv_unified = False,
     cp_causal_attn = True, cp_embeddings = False, cp_embeddings_layer_inp = []\<rparr>"

definition context_example :: "nat llama_context" where
  "context_example = \<lparr>lc_memory = decode_kv_example, lc_balloc = batch_allocr 1, lc_samplers = {}, lc_n_outputs = 0, lc_output_ids = [],
     lc_output_swaps = [], lc_logits = [], lc_embd = [], lc_embd_layer_inp = []\<rparr>"

definition decode_allocr_example :: "int list \<Rightarrow> llama_batch_allocr" where
  "decode_allocr_example ts = split_reset (get_one_stats ts 8 False 0 1 (batch_allocr 1))"

lemma decode_kv_example_facts:
  "plain_cache decode_kv_example" "no_shifts decode_kv_example" "free_cells decode_kv_example = {0, 1, 2, 3, 4}"
  "kv_view decode_kv_example ! 0 ! 5 = (7, {0, 1})" "kv_seq_pos_max decode_kv_example 0 = Inr 7"
proof -
  have cap: "kv_cap decode_kv_example = kv_cap kv_example" by (simp add: decode_kv_example_def kv_cap_def)
  have w: "kv_wf decode_kv_example" using kv_example_wf(1) cap unfolding kv_wf_def by (simp add: decode_kv_example_def)
  then show p: "plain_cache decode_kv_example" by (simp add: plain_cache_def decode_kv_example_def kv_example_def)
  show "no_shifts decode_kv_example" "free_cells decode_kv_example = {0, 1, 2, 3, 4}"
    using kv_example_wf(8,9) cap by (simp_all add: no_shifts_def decode_kv_example_def free_cells_def)
  show "kv_view decode_kv_example ! 0 ! 5 = (7, {0, 1})" using kv_example_fields(5) by (simp add: decode_kv_example_def kv_view_def eval_nat_numeral)
  have c: "kv_cells decode_kv_example ! 0 = cells_example" by (simp add: decode_kv_example_def kv_example_def)
  have sp: "seq_positions cells_example 0 = {7}" by (auto simp: seq_positions_def cells_example_def less_Suc_eq nth_Cons' six_cases split: if_splits)
  have "stream_of decode_kv_example 0 = Inr 0"
    using stream_of_ok(1) [OF w, of 0] kv_wf_parts(12) [OF w] by (simp add: decode_kv_example_def kv_example_def known_seq_def stream_idx_def LLAMA_MAX_SEQ_def)
  moreover have "kv_cells_seq_pos_max cells_example (int 0) = Inr 7"
    using kv_cells_seq_pos_max_eq [OF cells_okD(1) [OF cells_example_ok], of 0] sp by (simp add: LLAMA_MAX_SEQ_def)
  ultimately show "kv_seq_pos_max decode_kv_example 0 = Inr 7" using kv_wf_parts(1) [OF w] c by (simp add: kv_seq_pos_max_def)
qed

lemma decode_example_accepts:
  assumes "ts \<noteq> []" and "list_all (\<lambda>t. 0 \<le> t \<and> t < 10) ts" and "length ts \<le> 8"
  shows "decode_accepts decode_env_example cparams_example 10 0 (llama_batch_get_one ts (int (length ts))) context_example (decode_allocr_example ts)"
proof -
  let ?a = "decode_allocr_example ts"
  have "mem_last (Some (kv_memory decode_kv_example)) s = Inr (7 :: int)" if "s < 1" for s
    using that decode_kv_example_facts(5) by (simp add: mem_last_def kv_memory_def)
  then have i: "allocr_init (llama_batch_get_one ts (int (length ts))) 10 (Some (kv_memory decode_kv_example)) 0 1 False (batch_allocr 1) = Inr (Some ?a)"
    using get_one_init [of ts 10 1 "batch_allocr 1" "Some (kv_memory decode_kv_example)" "\<lambda>_. 7" 0 False] assms(1,2)
    by (simp add: decode_allocr_example_def LLAMA_MAX_SEQ_def allocr_sized_def batch_allocr_def)
  have n: "get_n_tokens ?a = length ts" "ba_n_outputs ?a = 1"
    using get_one_outputs [OF assms(1)] by (simp_all add: decode_allocr_example_def split_reset_def get_n_tokens_def get_one_stats_fields)
  have "length ts \<le> INT32_MAX" using assms(3) by simp
  then show ?thesis unfolding decode_accepts_def
    using decode_kv_example_facts(1,2) i n assms
    by (simp add: context_example_def cparams_example_def decode_env_example_def updates_ok_def llama_batch_get_one_def input_ok_def batch_allocr_def)
qed

lemma decode_example_batch:
  "ba_batch (decode_allocr_example [5, 6, 7]) = get_one_full [5, 6, 7] 8 False" "get_n_tokens (decode_allocr_example [5, 6, 7]) = 3"
  by (simp_all add: decode_allocr_example_def split_reset_def get_n_tokens_def get_one_stats_fields)

theorem decode_places_witness:
  "\<exists>ctx' (cell :: nat \<Rightarrow> nat). decode decode_env_example cparams_example 10 0 (llama_batch_get_one [5, 6, 7] 3) context_example = Inr (Some (0, ctx')) \<and>
     cell ` {..<3} \<subseteq> {0, 1, 2, 3, 4} \<and> kv_view (lc_memory ctx') ! 0 ! cell 2 = (10, {0}) \<and> kv_view (lc_memory ctx') ! 0 ! 5 = (7, {0, 1})"
proof -
  have a: "decode_accepts decode_env_example cparams_example 10 0 (llama_batch_get_one [5, 6, 7] 3) context_example (decode_allocr_example [5, 6, 7])"
    using decode_example_accepts [of "[5, 6, 7]"] by simp
  have m: "lc_memory context_example = decode_kv_example" by (simp add: context_example_def)
  obtain ctx' cell where r: "decode decode_env_example cparams_example 10 0 (llama_batch_get_one [5, 6, 7] 3) context_example = Inr (Some (0, ctx'))"
      "cell ` {..<3} \<subseteq> {0, 1, 2, 3, 4}"
      "\<forall>i < 3. kv_view (lc_memory ctx') ! 0 ! cell i = (bf_pos (get_one_full [5, 6, 7] 8 False) ! i, tok_seq_set (get_one_full [5, 6, 7] 8 False) i)"
      "\<forall>x. x \<notin> cell ` {..<3} \<longrightarrow> kv_view (lc_memory ctx') ! 0 ! x = kv_view decode_kv_example ! 0 ! x"
    using decode_places [OF a] unfolding m decode_kv_example_facts(3) decode_example_batch by (auto simp: decode_env_example_def)
  have "bf_pos (get_one_full [5, 6, 7] 8 False) ! 2 = 10" "tok_seq_set (get_one_full [5, 6, 7] 8 False) 2 = {0}"
    by (simp_all add: get_one_full_def Let_def tok_seq_set_def tok_seqs_def)
  then have v: "kv_view (lc_memory ctx') ! 0 ! cell 2 = (10, {0})" using r(3) by simp
  have "5 \<notin> cell ` {..<3}" using r(2) by auto
  then have w: "kv_view (lc_memory ctx') ! 0 ! 5 = (7, {0, 1})" using r(4) decode_kv_example_facts(4) by simp
  show ?thesis by (intro exI [of _ ctx'] exI [of _ cell] conjI r(1,2) v w)
qed

theorem decode_outputs_witness:
  "\<exists>ctx' c. decode decode_env_example cparams_example 10 0 (llama_batch_get_one [5, 6, 7] 3) context_example = Inr (Some (0, ctx')) \<and>
     get_logits_ith 2 ctx' = Inr (Some (Some 7), c)"
proof -
  let ?b = "get_one_full [5, 6, 7] 8 False"
  have a: "decode_accepts decode_env_example cparams_example 10 0 (llama_batch_get_one [5, 6, 7] 3) context_example (decode_allocr_example [5, 6, 7])"
    using decode_example_accepts [of "[5, 6, 7]"] by simp
  have m: "lc_memory context_example = decode_kv_example" by (simp add: context_example_def)
  obtain us parts n ctx' where r: "decode decode_env_example cparams_example 10 0 (llama_batch_get_one [5, 6, 7] 3) context_example = Inr (Some (0, ctx'))"
      "list_all2 (carries ?b 1 n) us parts" "set (concat parts) = {..<3}"
      "\<forall>j < length us. \<forall>k < length (parts ! j). \<exists>c. get_logits_ith (int (parts ! j ! k)) ctx' =
       Inr (if bf_logits ?b ! (parts ! j ! k) \<noteq> 0 then Some (Some (de_logits decode_env_example (us ! j) k)) else None, c)"
    using decode_outputs [OF a] unfolding m decode_kv_example_facts(3) decode_example_batch by (auto simp: decode_env_example_def)
  have "2 \<in> set (concat parts)" unfolding r(3) by simp
  then obtain j k where jk: "j < length parts" "k < length (parts ! j)" "parts ! j ! k = 2" by (auto simp: in_set_conv_nth)
  have ju: "j < length us" using jk(1) list_all2_lengthD [OF r(2)] by simp
  have "carries ?b 1 n (us ! j) (parts ! j)" using r(2) ju by (simp add: list_all2_conv_all_nth)
  then have "ub_token (us ! j) = Some (map (\<lambda>i. [5, 6, 7] ! i) (parts ! j))" by (simp add: carries_def get_one_full_def)
  then have "de_logits decode_env_example (us ! j) k = 7" using jk by (simp add: decode_env_example_def)
  moreover have "bf_logits ?b ! 2 \<noteq> 0" by (simp add: get_one_full_def Let_def)
  ultimately show ?thesis using r(1,4) ju jk by fastforce
qed

theorem decode_no_room_witness:
  "\<exists>ctx'. decode decode_env_example cparams_example 10 0 (llama_batch_get_one [5, 6, 7, 5, 6, 7] 6) context_example = Inr (Some (1, ctx')) \<and>
     kv_view (lc_memory ctx') ! 0 ! 5 = (7, {0, 1})"
proof -
  have a: "decode_accepts decode_env_example cparams_example 10 0 (llama_batch_get_one [5, 6, 7, 5, 6, 7] 6) context_example
      (decode_allocr_example [5, 6, 7, 5, 6, 7])"
    using decode_example_accepts [of "[5, 6, 7, 5, 6, 7]"] by simp
  have m: "lc_memory context_example = decode_kv_example" by (simp add: context_example_def)
  have "get_n_tokens (decode_allocr_example [5, 6, 7, 5, 6, 7]) = 6"
    by (simp add: decode_allocr_example_def split_reset_def get_n_tokens_def get_one_stats_fields)
  then show ?thesis using decode_no_room [OF a] decode_kv_example_facts(4) unfolding m decode_kv_example_facts(3) by auto
qed

end
