(* ===== verification/DecodeFail.thy ===== *)
theory DecodeFail
  imports DecodeProps
begin

text \<open>
  A micro-batch whose graph fails: what \<^verbatim>\<open>llama_context::decode\<close> removes from the cache, when that restores the cache,
  and what it leaves behind when a token belongs to several sequences.
\<close>

section \<open>First positions of a micro-batch\<close>

text \<open>The first position of the tokens whose first sequence is \<open>s\<close>, the largest position if there is none.\<close>

definition first_pos :: "llama_ubatch \<Rightarrow> int \<Rightarrow> int" where
  "first_pos ub s = Min (insert (int INT32_MAX) {ub_pos ub ! k | k. k < ub_n_tokens ub \<and> hd (ub_seq_id ub ! k) = s})"

lemma batch_pos_min_eq:
  assumes ub: "ubatch_ok ub" and l: "length (ub_seq_id ub) = ub_n_tokens ub"
  shows "batch_pos_min ub = Inr (first_pos ub)"
proof -
  let ?P = "\<lambda>m s. insert (int INT32_MAX) {ub_pos ub ! k | k. k < m \<and> hd (ub_seq_id ub ! k) = s}"
  let ?f = "\<lambda>i m. bind_r (first_seq ub i) (\<lambda>s. if s < 0 \<or> s \<ge> int LLAMA_MAX_SEQ then Inl Undefined else Inr (m(s := min (m s) (ub_pos ub ! i))))"
  have "fold_r ?f [0..<m] (\<lambda>_. int INT32_MAX) = Inr (\<lambda>s. Min (?P m s))" if "m \<le> ub_n_tokens ub" for m
    using that
  proof (induction m)
    case (Suc m)
    then have m: "m < ub_n_tokens ub" by simp
    have o: "ub_seq_id ub ! m \<noteq> []" "0 \<le> hd (ub_seq_id ub ! m)" "hd (ub_seq_id ub ! m) < int LLAMA_MAX_SEQ"
      using ubatch_ok_owner [OF ub m] by auto
    have fin: "finite (?P m s)" for s by simp
    have "Min (?P (Suc m) s) = (if s = hd (ub_seq_id ub ! m) then min (Min (?P m s)) (ub_pos ub ! m) else Min (?P m s))" for s
    proof (cases "s = hd (ub_seq_id ub ! m)")
      case True
      then have "?P (Suc m) s = insert (ub_pos ub ! m) (?P m s)" by (auto simp: less_Suc_eq)
      then show ?thesis using True Min_insert [OF fin, of s "ub_pos ub ! m"] by (simp add: min.commute)
    next
      case False
      then have "?P (Suc m) s = ?P m s" by (auto simp: less_Suc_eq)
      then show ?thesis using False by simp
    qed
    then show ?case using Suc m o l by (simp add: fold_r_append first_seq_def fun_eq_iff)
  qed simp
  from this [OF order_refl] show ?thesis by (simp add: batch_pos_min_def first_pos_def [abs_def])
qed

lemma first_pos_cases:
  shows "first_pos ub s \<le> int INT32_MAX" and "k < ub_n_tokens ub \<Longrightarrow> hd (ub_seq_id ub ! k) = s \<Longrightarrow> first_pos ub s \<le> ub_pos ub ! k"
    and "first_pos ub s \<noteq> int INT32_MAX \<Longrightarrow> \<exists>k < ub_n_tokens ub. hd (ub_seq_id ub ! k) = s \<and> first_pos ub s = ub_pos ub ! k"
proof -
  let ?P = "insert (int INT32_MAX) {ub_pos ub ! k | k. k < ub_n_tokens ub \<and> hd (ub_seq_id ub ! k) = s}"
  have fin: "finite ?P" by simp
  show "first_pos ub s \<le> int INT32_MAX" unfolding first_pos_def by (rule Min_le [OF fin]) simp
  show "k < ub_n_tokens ub \<Longrightarrow> hd (ub_seq_id ub ! k) = s \<Longrightarrow> first_pos ub s \<le> ub_pos ub ! k"
    unfolding first_pos_def by (rule Min_le [OF fin]) blast
  have "first_pos ub s \<in> ?P" unfolding first_pos_def by (rule Min_in [OF fin]) simp
  then show "first_pos ub s \<noteq> int INT32_MAX \<Longrightarrow> \<exists>k < ub_n_tokens ub. hd (ub_seq_id ub ! k) = s \<and> first_pos ub s = ub_pos ub ! k" by blast
qed

section \<open>What is removed\<close>

text \<open>A cell without the sequences below \<open>m\<close> whose tokens from a first position on are removed.\<close>

definition drop_from :: "(int \<Rightarrow> int) \<Rightarrow> nat \<Rightarrow> cell_content \<Rightarrow> cell_content" where
  "drop_from f m z = (let S = {s \<in> snd z. \<not> (s < m \<and> f (int s) \<le> fst z)} in if S = {} then (-1, {}) else (fst z, S))"

definition cell_bounded :: "cell_content \<Rightarrow> bool" where
  "cell_bounded z \<longleftrightarrow> (fst z = -1 \<longleftrightarrow> snd z = {}) \<and> -1 \<le> fst z \<and> fst z < int INT32_MAX"

lemma drop_from_step:
  assumes z: "cell_bounded z" and f: "0 \<le> f (int m)"
  shows "spec_rm m (range_lo (f (int m))) (range_hi (-1)) (drop_from f m z) = drop_from f (Suc m) z"
proof -
  have r: "range_lo (f (int m)) = f (int m)" "range_hi (-1) = int INT32_MAX" using f by (simp_all add: range_lo_def range_hi_def)
  let ?S = "\<lambda>m. {s \<in> snd z. \<not> (s < m \<and> f (int s) \<le> fst z)}"
  have st: "?S (Suc m) = (if f (int m) \<le> fst z then ?S m - {m} else ?S m)" by (auto simp: less_Suc_eq)
  have b: "fst z < int INT32_MAX" using z by (simp add: cell_bounded_def)
  show ?thesis
  proof (cases "?S m = {}")
    case True
    then show ?thesis using f st by (auto simp: drop_from_def Let_def spec_rm_def hits_def r)
  next
    case False
    then have d: "drop_from f m z = (fst z, ?S m)" unfolding drop_from_def Let_def by (rule if_not_P)
    show ?thesis
    proof (cases "f (int m) \<le> fst z \<and> m \<in> ?S m")
      case True
      then have "?S m = {m} \<longleftrightarrow> ?S (Suc m) = {}" unfolding st by auto
      then show ?thesis unfolding d using True b st by (auto simp: spec_rm_def hits_def r drop_from_def Let_def)
    next
      case F: False
      then have "?S (Suc m) = ?S m" unfolding st by auto
      then show ?thesis unfolding d using F b False by (auto simp: spec_rm_def hits_def r drop_from_def Let_def)
    qed
  qed
qed

lemma drop_from_skip:
  assumes "\<not> f (int m) \<le> fst z"
  shows "drop_from f (Suc m) z = drop_from f m z"
proof -
  have "{s \<in> snd z. \<not> (s < Suc m \<and> f (int s) \<le> fst z)} = {s \<in> snd z. \<not> (s < m \<and> f (int s) \<le> fst z)}"
    using assms by (auto simp: less_Suc_eq)
  then show ?thesis unfolding drop_from_def by simp
qed

text \<open>A cache from which suffixes of sequences can be removed: one stream, no compact tail.\<close>

definition rm_ready :: "llama_kv_cache \<Rightarrow> bool" where
  "rm_ready kv \<longleftrightarrow> kv_inv kv \<and> kv_n_stream kv = 1 \<and> \<not> has_compact_tail kv"

lemma rm_suffix:
  assumes kv: "rm_ready kv" and s: "s < LLAMA_MAX_SEQ"
  shows "\<exists>kv'. kv_seq_rm (int s) p0 p1 kv = Inr (True, kv') \<and> rm_ready kv' \<and> kv_view kv' ! 0 = map (range_hits p0 p1 (spec_rm s)) (kv_view kv ! 0)"
proof -
  have w: "kv_wf kv" "kv_n_stream kv = 1" "kv_inv kv" "\<not> has_compact_tail kv" using kv by (simp_all add: rm_ready_def kv_inv_def)
  have k: "known_seq kv (int s)" "stream_idx kv (int s) = 0" using kv_wf_parts(12) [OF w(1,2)] s by (simp_all add: known_seq_def stream_idx_def)
  obtain kv' where r: "seq_rm_unchecked (int s) p0 p1 kv = Inr kv'" "kv_ready kv'" "kv_frame kv kv'"
      "kv_view kv' = (kv_view kv)[0 := map (range_hits p0 p1 (spec_rm s)) (kv_view kv ! 0)]"
    using seq_rm_one [OF w(3) k(1)] unfolding k(2) by auto
  have "has_compact_tail kv' = has_compact_tail kv"
    using r(3) by (cases kv, cases kv') (simp add: kv_frame_def kv_core_def has_compact_tail_def)
  then have "rm_ready kv'" using w r(2) kv_frame_fields(3) [OF r(3)] kv_ready_iff by (auto simp: rm_ready_def)
  moreover have "0 < length (kv_view kv)" using kv_wf_parts(3) [OF w(1)] w(2) by (simp add: kv_view_def)
  moreover have "kv_seq_rm (int s) p0 p1 kv = Inr (True, kv')" using r(1) w kv_wf_parts(1) [OF w(1)] by (simp add: kv_seq_rm_def kv_can_seq_rm_def)
  ultimately show ?thesis using r(4) by simp
qed

lemma remove_loop:
  assumes kv: "rm_ready kv" and z: "\<forall>z \<in> set (kv_view kv ! 0). cell_bounded z" and f: "\<And>s. 0 \<le> f s" and m: "m \<le> LLAMA_MAX_SEQ"
  shows "\<exists>kv'. fold_r (\<lambda>s kv. if f (int s) = int INT32_MAX then Inr kv
      else bind_r (kv_seq_rm (int s) (f (int s)) (-1) kv) (\<lambda>(_, kv). Inr kv)) [0..<m] kv = Inr kv' \<and> rm_ready kv' \<and>
    kv_view kv' ! 0 = map (drop_from f m) (kv_view kv ! 0)"
  using m
proof (induction m)
  case 0
  have "drop_from f 0 x = x" if "x \<in> set (kv_view kv ! 0)" for x
    using z that by (cases x) (force simp: drop_from_def cell_bounded_def)
  then have "map (drop_from f 0) (kv_view kv ! 0) = kv_view kv ! 0" by (intro map_idI)
  then show ?case using kv by simp
next
  case (Suc m)
  let ?g = "\<lambda>s kv. if f (int s) = int INT32_MAX then Inr kv else bind_r (kv_seq_rm (int s) (f (int s)) (-1) kv) (\<lambda>(_, kv). Inr kv)"
  obtain k1 where k1: "fold_r ?g [0..<m] kv = Inr k1" "rm_ready k1" "kv_view k1 ! 0 = map (drop_from f m) (kv_view kv ! 0)" using Suc by auto
  show ?case
  proof (cases "f (int m) = int INT32_MAX")
    case True
    have "drop_from f (Suc m) x = drop_from f m x" if "x \<in> set (kv_view kv ! 0)" for x
      by (rule drop_from_skip) (use z that True in \<open>auto simp: cell_bounded_def\<close>)
    then have "kv_view k1 ! 0 = map (drop_from f (Suc m)) (kv_view kv ! 0)" unfolding k1(3) by simp
    then show ?thesis using k1(1,2) True by (intro exI [of _ k1]) (simp add: fold_r_append)
  next
    case False
    obtain k2 where k2: "kv_seq_rm (int m) (f (int m)) (-1) k1 = Inr (True, k2)" "rm_ready k2"
        "kv_view k2 ! 0 = map (range_hits (f (int m)) (-1) (spec_rm m)) (kv_view k1 ! 0)"
      using rm_suffix [OF k1(2), of m] Suc.prems by auto
    have "kv_view k2 ! 0 = map (drop_from f (Suc m)) (kv_view kv ! 0)"
      unfolding k2(3) k1(3) map_map comp_def using drop_from_step [of _ f m, OF _ f] z by simp
    then show ?thesis using k1(1) k2(1,2) False by (intro exI [of _ k2]) (simp add: fold_r_append)
  qed
qed

lemma remove_failed_view:
  assumes kv: "rm_ready kv" and z: "\<forall>z \<in> set (kv_view kv ! 0). cell_bounded z \<and> snd z \<subseteq> {..<LLAMA_MAX_SEQ}"
    and ub: "ubatch_ok ub" "length (ub_seq_id ub) = ub_n_tokens ub"
  shows "\<exists>kv'. remove_failed ub kv = Inr kv' \<and> rm_ready kv' \<and> kv_view kv' ! 0 =
    map (\<lambda>z. let S = {s \<in> snd z. fst z < first_pos ub (int s)} in if S = {} then (-1, {}) else (fst z, S)) (kv_view kv ! 0)"
proof -
  have f: "0 \<le> first_pos ub s" for s
    using first_pos_cases(3) [of ub s] ub(1) by (cases "first_pos ub s = int INT32_MAX") (auto simp: ubatch_ok_def)
  have zz: "\<forall>z \<in> set (kv_view kv ! 0). cell_bounded z" using z by blast
  obtain kv' where r: "fold_r (\<lambda>s kv. if first_pos ub (int s) = int INT32_MAX then Inr kv
      else bind_r (kv_seq_rm (int s) (first_pos ub (int s)) (-1) kv) (\<lambda>(_, kv). Inr kv)) [0..<LLAMA_MAX_SEQ] kv = Inr kv'" "rm_ready kv'"
      "kv_view kv' ! 0 = map (drop_from (first_pos ub) LLAMA_MAX_SEQ) (kv_view kv ! 0)"
    using remove_loop [of kv "first_pos ub" LLAMA_MAX_SEQ, OF kv zz f order_refl] by blast
  have "drop_from (first_pos ub) LLAMA_MAX_SEQ x = (let S = {s \<in> snd x. fst x < first_pos ub (int s)} in if S = {} then (-1, {}) else (fst x, S))"
    if "x \<in> set (kv_view kv ! 0)" for x
  proof -
    have "{s \<in> snd x. \<not> (s < LLAMA_MAX_SEQ \<and> first_pos ub (int s) \<le> fst x)} = {s \<in> snd x. fst x < first_pos ub (int s)}" using z that by auto
    then show ?thesis unfolding drop_from_def by simp
  qed
  then show ?thesis using r(2) r(3) r(1) batch_pos_min_eq [OF ub] by (intro exI [of _ kv']) (simp add: remove_failed_def)
qed

section \<open>A micro-batch that fails\<close>

fun run_status :: "graph_run \<Rightarrow> ggml_status" where
  "run_status Build_failed = GGML_STATUS_FAILED"
| "run_status Alloc_failed = GGML_STATUS_ALLOC_FAILED"
| "run_status (Computed st) = st"

lemma process_failure:
  assumes "loop_ready us xss i mctx" and "i < length us" and "length xss = length us" and "plain_cache kv" and "ubatch_ok (us ! i)"
    and "length (xss ! i) = ub_n_tokens (us ! i)" and "distinct (xss ! i)" and "set (xss ! i) \<subseteq> free_cells kv"
  shows "\<exists>mctx' kv'. process_ubatch env mctx kv = Inr (run_status (de_run env i), mctx', kv') \<and> placed (us ! i) (xss ! i) kv kv'"
proof -
  obtain mctx' kv' where a: "context_apply (de_update env) (de_n_pad env) mctx kv = Inr (True, mctx', kv')" "loop_ready us xss i mctx'"
      "placed (us ! i) (xss ! i) kv kv'"
    using apply_step [OF assms] by blast
  have i: "kx_i_cur mctx' = i" using a(2) by (simp add: loop_ready_def)
  have "finish_tail_batch b c kv' = Inr kv'" for b c using a(3) by (simp add: finish_tail_batch_def placed_def plain_cache_def)
  then show ?thesis using a(1,3) i
    by (cases "de_run env i") (auto simp: process_ubatch_def context_compute_finish_def context_compute_start_def)
qed

lemma placed_cells:
  assumes p: "placed ub xs kv kv'" and ub: "ubatch_ok ub" "length xs = ub_n_tokens ub" and b: "\<forall>k < ub_n_tokens ub. ub_pos ub ! k < int INT32_MAX"
    and z: "\<forall>z \<in> set (kv_view kv ! 0). fst z < int INT32_MAX" and kv: "plain_cache kv"
  shows "\<forall>z \<in> set (kv_view kv' ! 0). cell_bounded z \<and> snd z \<subseteq> {..<LLAMA_MAX_SEQ}" and "length (kv_view kv' ! 0) = kv_cap kv" and "length (kv_view kv ! 0) = kv_cap kv"
proof -
  have P: "plain_cache kv'" "kv_cap kv' = kv_cap kv" using p by (simp_all add: placed_def)
  note u = unifiedD [OF plain_cacheD(1) [OF P(1)]] and u0 = unifiedD [OF plain_cacheD(1) [OF kv]]
  have v: "kv_view kv' ! 0 = kv_cells_list (kv_cells kv' ! 0)" "kv_view kv ! 0 = kv_cells_list (kv_cells kv ! 0)" using u(5) u0(5) by (simp_all add: kv_view_def)
  show l: "length (kv_view kv' ! 0) = kv_cap kv" "length (kv_view kv ! 0) = kv_cap kv"
    unfolding v using cells_okD(2) [OF u(7)] cells_okD(2) [OF u0(7)] u(8) u0(8) P(2) by simp_all
  show "\<forall>z \<in> set (kv_view kv' ! 0). cell_bounded z \<and> snd z \<subseteq> {..<LLAMA_MAX_SEQ}"
  proof
    fix c assume "c \<in> set (kv_view kv' ! 0)"
    then obtain x where x: "x < kv_cap kv" "c = kv_view kv' ! 0 ! x" using l(1) by (auto simp: in_set_conv_nth)
    have "fst c < int INT32_MAX"
    proof (cases "x \<in> set xs")
      case True
      then obtain k where "k < length xs" "x = xs ! k" by (auto simp: in_set_conv_nth)
      then show ?thesis using p b ub(2) x(2) by (simp add: placed_def tok_content_def)
    next
      case False
      then have "c = kv_view kv ! 0 ! x" using p x(2) by (simp add: placed_def)
      then show ?thesis using z x(1) l(2) by simp
    qed
    then show "cell_bounded c \<and> snd c \<subseteq> {..<LLAMA_MAX_SEQ}"
      using cells_okD(4-7) [OF u(7), of x] x u(8) P(2) unfolding v by (simp add: cell_bounded_def)
  qed
qed

lemma failed_step:
  assumes r: "loop_ready us xss i mctx" "i < length us" "length xss = length us" and kv: "plain_cache (lc_memory ctx)" "\<not> has_compact_tail (lc_memory ctx)"
    and ub: "ubatch_ok (us ! i)" "length (ub_seq_id (us ! i)) = ub_n_tokens (us ! i)"
    and xs: "length (xss ! i) = ub_n_tokens (us ! i)" "distinct (xss ! i)" "set (xss ! i) \<subseteq> free_cells (lc_memory ctx)"
    and b: "\<forall>k < ub_n_tokens (us ! i). ub_pos (us ! i) ! k < int INT32_MAX" "\<forall>z \<in> set (kv_view (lc_memory ctx) ! 0). fst z < int INT32_MAX"
    and fail: "failure_code (run_status (de_run env i)) = Inr code"
  shows "\<exists>kv1 ctx'. decode_loop (Suc fuel) env cp n_all t_all mctx n_prev t_prev ctx = Inr (Some (code, ctx')) \<and> placed (us ! i) (xss ! i) (lc_memory ctx) kv1 \<and>
    kv_inv (lc_memory ctx') \<and> kv_n_stream (lc_memory ctx') = 1 \<and> kv_view (lc_memory ctx') ! 0 =
      map (\<lambda>z. let S = {s \<in> snd z. fst z < first_pos (us ! i) (int s)} in if S = {} then (-1, {}) else (fst z, S)) (kv_view kv1 ! 0)"
proof -
  obtain mctx' kv1 where p: "process_ubatch env mctx (lc_memory ctx) = Inr (run_status (de_run env i), mctx', kv1)" "placed (us ! i) (xss ! i) (lc_memory ctx) kv1"
    using process_failure [OF r kv(1) ub(1) xs] by blast
  note c = placed_cells [OF p(2) ub(1) xs(1) b kv(1)]
  have pl: "plain_cache kv1" using p(2) by (simp add: placed_def)
  have "has_compact_tail kv1 = has_compact_tail (lc_memory ctx)"
    using p(2) by (simp add: has_compact_tail_def placed_def)
  then have "rm_ready kv1" using pl kv(2) by (simp add: rm_ready_def plain_cache_def kv_inv_def tail_ok_def)
  then obtain kv2 where k2: "remove_failed (us ! i) kv1 = Inr kv2" "rm_ready kv2"
      "kv_view kv2 ! 0 = map (\<lambda>z. let S = {s \<in> snd z. fst z < first_pos (us ! i) (int s)} in if S = {} then (-1, {}) else (fst z, S)) (kv_view kv1 ! 0)"
    using remove_failed_view [OF _ c(1) ub] by blast
  have ri: "\<not> kx_i_cur mctx \<ge> length (kx_ubatches mctx)" "kx_ubatches mctx ! kx_i_cur mctx = us ! i" using r by (simp_all add: loop_ready_def)
  have ne: "run_status (de_run env i) \<noteq> GGML_STATUS_SUCCESS" using fail by auto
  have "decode_loop (Suc fuel) env cp n_all t_all mctx n_prev t_prev ctx =
      Inr (Some (code, ctx\<lparr>lc_n_outputs := count_new_outputs n_all t_all (us ! i), lc_memory := kv2\<rparr>))"
    unfolding decode_loop.simps Let_def ri(2) if_not_P [OF ri(1)] using p(1) k2(1) ne fail by simp
  then show ?thesis using p(2) k2(2,3) by (intro exI [of _ kv1] exI) (auto simp: rm_ready_def)
qed

text \<open>C18: A micro-batch whose graph is not built, not allocated, fails or is aborted is undone (the failure branch of the loop of
  llama_context::decode, on a cache with one stream, no window, no allocation groups and no exact tail, the slot being distinct empty cells
  and all positions below the greatest 32-bit integer). If every token of it has one
  sequence, and no older cell of those sequences is at or after their first position in the micro-batch, then
  decode returns the code of the failure and every cell shows what it showed before the micro-batch was placed.\<close>

theorem failed_ubatch_undone:
  assumes r: "loop_ready us xss i mctx" "i < length us" "length xss = length us" and kv: "plain_cache (lc_memory ctx)" "\<not> has_compact_tail (lc_memory ctx)"
    and ub: "ubatch_ok (us ! i)" "length (ub_seq_id (us ! i)) = ub_n_tokens (us ! i)"
    and xs: "length (xss ! i) = ub_n_tokens (us ! i)" "distinct (xss ! i)" "set (xss ! i) \<subseteq> free_cells (lc_memory ctx)"
    and b: "\<forall>k < ub_n_tokens (us ! i). ub_pos (us ! i) ! k < int INT32_MAX" "\<forall>z \<in> set (kv_view (lc_memory ctx) ! 0). fst z < int INT32_MAX"
    and single: "\<forall>k < ub_n_tokens (us ! i). tok_owners (us ! i) k = [hd (ub_seq_id (us ! i) ! k)]"
    and older: "\<forall>z \<in> set (kv_view (lc_memory ctx) ! 0). \<forall>s \<in> snd z. fst z < first_pos (us ! i) (int s)"
    and fail: "failure_code (run_status (de_run env i)) = Inr code"
  shows "\<exists>ctx'. decode_loop (Suc fuel) env cp n_all t_all mctx n_prev t_prev ctx = Inr (Some (code, ctx')) \<and>
    kv_view (lc_memory ctx') = kv_view (lc_memory ctx) \<and> kv_inv (lc_memory ctx')"
proof -
  let ?d = "\<lambda>z. let S = {s \<in> snd z. fst z < first_pos (us ! i) (int s)} in if S = {} then (-1, {}) else (fst z, S)"
  obtain kv1 ctx' where f: "decode_loop (Suc fuel) env cp n_all t_all mctx n_prev t_prev ctx = Inr (Some (code, ctx'))"
      "placed (us ! i) (xss ! i) (lc_memory ctx) kv1" "kv_inv (lc_memory ctx')" "kv_n_stream (lc_memory ctx') = 1" "kv_view (lc_memory ctx') ! 0 = map ?d (kv_view kv1 ! 0)"
    using failed_step [OF r kv ub xs b fail] by blast
  note c = placed_cells [OF f(2) ub(1) xs(1) b kv(1)]
  note u = unifiedD [OF plain_cacheD(1) [OF kv(1)]]
  have "?d (kv_view kv1 ! 0 ! x) = kv_view (lc_memory ctx) ! 0 ! x" if x: "x < kv_cap (lc_memory ctx)" for x
  proof (cases "x \<in> set (xss ! i)")
    case True
    then obtain k where k: "k < length (xss ! i)" "x = xss ! i ! k" by (auto simp: in_set_conv_nth)
    then have z: "kv_view kv1 ! 0 ! x = (ub_pos (us ! i) ! k, {nat (hd (ub_seq_id (us ! i) ! k))})"
      using f(2) single xs(1) by (simp add: placed_def tok_content_def)
    have "0 \<le> hd (ub_seq_id (us ! i) ! k)" using ubatch_ok_owner(3) [OF ub(1), of k] k(1) xs(1) by simp
    then have "first_pos (us ! i) (int (nat (hd (ub_seq_id (us ! i) ! k)))) \<le> ub_pos (us ! i) ! k" using first_pos_cases(2) [of k "us ! i"] k(1) xs(1) by simp
    then have "?d (kv_view kv1 ! 0 ! x) = (-1, {})" unfolding z by (auto simp: Let_def)
    moreover have "x \<in> free_cells (lc_memory ctx)" using True xs(3) by blast
    then have "kv_view (lc_memory ctx) ! 0 ! x = (-1, {})"
      using cells_okD(4,5) [OF u(7), of x] u(5) by (auto simp: free_cells_def empty_cell_def kv_view_def)
    ultimately show ?thesis by simp
  next
    case False
    then have z: "kv_view kv1 ! 0 ! x = kv_view (lc_memory ctx) ! 0 ! x" using f(2) by (simp add: placed_def)
    have m: "kv_view (lc_memory ctx) ! 0 ! x \<in> set (kv_view (lc_memory ctx) ! 0)" using x c(3) by simp
    then have S: "{s \<in> snd (kv_view (lc_memory ctx) ! 0 ! x). fst (kv_view (lc_memory ctx) ! 0 ! x) < first_pos (us ! i) (int s)} = snd (kv_view (lc_memory ctx) ! 0 ! x)"
      using older by blast
    have "kv_view kv1 ! 0 ! x \<in> set (kv_view kv1 ! 0)" using x c(2) by simp
    then have "cell_bounded (kv_view (lc_memory ctx) ! 0 ! x)" using c(1) unfolding z by blast
    then show ?thesis unfolding z Let_def S by (auto simp: cell_bounded_def prod_eq_iff)
  qed
  then have v: "kv_view (lc_memory ctx') ! 0 = kv_view (lc_memory ctx) ! 0" unfolding f(5) using c(2,3) by (intro nth_equalityI) simp_all
  have "length (kv_cells (lc_memory ctx')) = 1" using kv_wf_parts(3) [of "lc_memory ctx'"] f(3,4) by (simp add: kv_inv_def)
  then have "kv_view (lc_memory ctx') = kv_view (lc_memory ctx)" using v u(5) by (auto simp: kv_view_def length_Suc_conv)
  then show ?thesis using f(1,3) by blast
qed

text \<open>C31: The clean-up after a failed graph (same cache and slot as for the previous theorem) does not remove a token that belongs to several sequences. It only treats the first
  sequence of each token: a sequence that is not the first one of any token of the micro-batch keeps all its
  tokens, so the cell of a shared token stays occupied although its graph was never computed.\<close>

theorem failed_shared_token_stays:
  assumes "loop_ready us xss i mctx" "i < length us" "length xss = length us" and "plain_cache (lc_memory ctx)" "\<not> has_compact_tail (lc_memory ctx)"
    and ub: "ubatch_ok (us ! i)" "length (ub_seq_id (us ! i)) = ub_n_tokens (us ! i)"
    and xs: "length (xss ! i) = ub_n_tokens (us ! i)" "distinct (xss ! i)" "set (xss ! i) \<subseteq> free_cells (lc_memory ctx)"
    and b: "\<forall>k < ub_n_tokens (us ! i). ub_pos (us ! i) ! k < int INT32_MAX" "\<forall>z \<in> set (kv_view (lc_memory ctx) ! 0). fst z < int INT32_MAX"
    and fail: "failure_code (run_status (de_run env i)) = Inr code"
    and s: "k < ub_n_tokens (us ! i)" "s \<in> set (tok_owners (us ! i) k)" "\<forall>j < ub_n_tokens (us ! i). hd (ub_seq_id (us ! i) ! j) \<noteq> s"
  shows "\<exists>ctx'. decode_loop (Suc fuel) env cp n_all t_all mctx n_prev t_prev ctx = Inr (Some (code, ctx')) \<and>
    fst (kv_view (lc_memory ctx') ! 0 ! (xss ! i ! k)) = ub_pos (us ! i) ! k \<and> nat s \<in> snd (kv_view (lc_memory ctx') ! 0 ! (xss ! i ! k))"
proof -
  let ?d = "\<lambda>z. let S = {s \<in> snd z. fst z < first_pos (us ! i) (int s)} in if S = {} then (-1, {}) else (fst z, S)"
  obtain kv1 ctx' where f: "decode_loop (Suc fuel) env cp n_all t_all mctx n_prev t_prev ctx = Inr (Some (code, ctx'))"
      "placed (us ! i) (xss ! i) (lc_memory ctx) kv1" "kv_view (lc_memory ctx') ! 0 = map ?d (kv_view kv1 ! 0)"
    using failed_step [OF assms(1-12) fail] by blast
  have z: "kv_view kv1 ! 0 ! (xss ! i ! k) = tok_content (us ! i) k" using f(2) s(1) xs(1) by (simp add: placed_def)
  have "xss ! i ! k \<in> free_cells (lc_memory ctx)" using xs(1,3) s(1) nth_mem [of k "xss ! i"] by auto
  then have "xss ! i ! k < kv_cap (lc_memory ctx)"
    using unifiedD(8) [OF plain_cacheD(1) [OF assms(4)]] by (simp add: free_cells_def empty_cell_def)
  then have l: "xss ! i ! k < length (kv_view kv1 ! 0)" using placed_cells(2) [OF f(2) ub(1) xs(1) b assms(4)] by simp
  have "set (tok_owners (us ! i) k) \<subseteq> {0..<int LLAMA_MAX_SEQ}" using s(1) ub(1) by (simp add: ubatch_ok_def)
  then have nn: "0 \<le> s" using s(2) by auto
  have "first_pos (us ! i) s = int INT32_MAX" using first_pos_cases(3) [of "us ! i" s] s(3) by blast
  then have m: "nat s \<in> {q \<in> snd (tok_content (us ! i) k). fst (tok_content (us ! i) k) < first_pos (us ! i) (int q)}" (is "_ \<in> ?S")
    using s(1,2) b(1) nn by (auto simp: tok_content_def)
  then have "?S \<noteq> {}" by blast
  then have "?d (tok_content (us ! i) k) = (fst (tok_content (us ! i) k), ?S)" unfolding Let_def by (rule if_not_P)
  then have v: "kv_view (lc_memory ctx') ! 0 ! (xss ! i ! k) = (fst (tok_content (us ! i) k), ?S)" unfolding f(3) nth_map [OF l] z .
  show ?thesis
  proof (intro exI [of _ ctx'] conjI f(1))
    show "fst (kv_view (lc_memory ctx') ! 0 ! (xss ! i ! k)) = ub_pos (us ! i) ! k" unfolding v by (simp add: tok_content_def)
    show "nat s \<in> snd (kv_view (lc_memory ctx') ! 0 ! (xss ! i ! k))" unfolding v snd_conv by (rule m)
  qed
qed

section \<open>Concrete failures\<close>

definition aborted_env_example :: "nat decode_env" where
  "aborted_env_example = decode_env_example\<lparr>de_run := (\<lambda>_. Computed GGML_STATUS_ABORTED)\<rparr>"

definition shared_ubatch_example :: llama_ubatch where
  "shared_ubatch_example = ubatch_example\<lparr>ub_n_seq_id := [2, 2], ub_seq_id := [[0, 1], [0, 1]]\<rparr>"

lemma shared_ubatch_example_ok: "ubatch_ok shared_ubatch_example"
  by (simp add: ubatch_ok_def shared_ubatch_example_def ubatch_example_def tok_owners_def LLAMA_MAX_SEQ_def less_Suc_eq numeral_2_eq_2)

lemma failure_example_facts:
  "plain_cache (lc_memory context_example)" "\<not> has_compact_tail (lc_memory context_example)" "set [4, 2] \<subseteq> free_cells (lc_memory context_example)"
  "kv_view (lc_memory context_example) ! 0 = [(-1, {}), (-1, {}), (-1, {}), (-1, {}), (-1, {}), (7, {0, 1})]"
  "loop_ready [u] [[4, 2]] 0 (context_batch [the_slot [4, 2]] [u])" "failure_code (run_status (de_run aborted_env_example 0)) = Inr 2"
proof -
  have m: "lc_memory context_example = decode_kv_example" by (simp add: context_example_def)
  show "plain_cache (lc_memory context_example)" "set [4, 2] \<subseteq> free_cells (lc_memory context_example)"
    using decode_kv_example_facts(1,3) by (simp_all add: m)
  show "\<not> has_compact_tail (lc_memory context_example)" by (simp add: m decode_kv_example_def kv_example_def has_compact_tail_def)
  show "kv_view (lc_memory context_example) ! 0 = [(-1, {}), (-1, {}), (-1, {}), (-1, {}), (-1, {}), (7, {0, 1})]"
    using kv_example_fields(5) by (simp add: m decode_kv_example_def kv_view_def)
  show "loop_ready [u] [[4, 2]] 0 (context_batch [the_slot [4, 2]] [u])" by (simp add: loop_ready_def context_batch_def context_status_def)
  show "failure_code (run_status (de_run aborted_env_example 0)) = Inr 2" by (simp add: aborted_env_example_def)
qed

theorem failed_ubatch_undone_witness:
  "\<exists>ctx'. decode_loop 1 aborted_env_example cparams_example 1 2 (context_batch [the_slot [4, 2]] [ubatch_example]) 0 0 context_example = Inr (Some (2, ctx')) \<and>
     kv_view (lc_memory ctx') ! 0 ! 5 = (7, {0, 1}) \<and> kv_view (lc_memory ctx') ! 0 ! 4 = (-1, {})"
proof -
  note F = failure_example_facts(1-4) failure_example_facts(5) [of ubatch_example] failure_example_facts(6)
  have u: "ub_n_tokens ubatch_example = 2" "ub_pos ubatch_example = [8, 9]" "ub_seq_id ubatch_example = [[1], [1]]" "ub_n_seq_id ubatch_example = [1, 1]"
    by (simp_all add: ubatch_example_def)
  have fp: "7 < first_pos ubatch_example s" for s
    using first_pos_cases(3) [of ubatch_example s] u by (cases "first_pos ubatch_example s = int INT32_MAX") (auto simp: less_Suc_eq numeral_2_eq_2)
  obtain ctx' where "decode_loop (Suc 0) aborted_env_example cparams_example 1 2 (context_batch [the_slot [4, 2]] [ubatch_example]) 0 0 context_example = Inr (Some (2, ctx'))"
      "kv_view (lc_memory ctx') = kv_view (lc_memory context_example)"
    using failed_ubatch_undone [of "[ubatch_example]" "[[4, 2]]" 0 "context_batch [the_slot [4, 2]] [ubatch_example]" context_example aborted_env_example 2
        0 cparams_example 1 2 0 0] F ubatch_example_ok u fp
    by (auto simp: less_Suc_eq numeral_2_eq_2 tok_owners_def)
  then show ?thesis using F(4) by auto
qed

theorem failed_shared_token_stays_witness:
  "\<exists>ctx'. decode_loop 1 aborted_env_example cparams_example 1 2 (context_batch [the_slot [4, 2]] [shared_ubatch_example]) 0 0 context_example = Inr (Some (2, ctx')) \<and>
     fst (kv_view (lc_memory ctx') ! 0 ! 4) = 8 \<and> 1 \<in> snd (kv_view (lc_memory ctx') ! 0 ! 4)"
proof -
  note F = failure_example_facts(1-4) failure_example_facts(5) [of shared_ubatch_example] failure_example_facts(6)
  have u: "ub_n_tokens shared_ubatch_example = 2" "ub_pos shared_ubatch_example = [8, 9]" "ub_seq_id shared_ubatch_example = [[0, 1], [0, 1]]"
      "ub_n_seq_id shared_ubatch_example = [2, 2]"
    by (simp_all add: shared_ubatch_example_def ubatch_example_def)
  show ?thesis
    using failed_shared_token_stays [of "[shared_ubatch_example]" "[[4, 2]]" 0 "context_batch [the_slot [4, 2]] [shared_ubatch_example]" context_example
        aborted_env_example 2 0 1 0 cparams_example 1 2 0 0] F shared_ubatch_example_ok u
    by (auto simp: less_Suc_eq numeral_2_eq_2 tok_owners_def)
qed

end
