(* ===== verification/Iswa.thy ===== *)
theory Iswa
  imports KvContext KvProps
begin

text \<open>
  The pair of caches for models whose layers alternate between full attention and a sliding window:
  \<^verbatim>\<open>llama_kv_cache_iswa\<close> and \<^verbatim>\<open>llama_kv_cache_iswa_context\<close> of \<^verbatim>\<open>src/llama-kv-cache-iswa.cpp\<close>. Both children are
  ordinary caches here; a structured (KVarN) child, the construction and the state files are not modelled. The locale
  \<open>memory_edits\<close> is what a memory promises to a caller that edits sequences; it is interpreted on one cache and
  on the pair.
\<close>

section \<open>The pair and its operations\<close>

record llama_kv_cache_iswa =
  iswa_unified :: bool
  iswa_base :: llama_kv_cache
  iswa_swa :: llama_kv_cache

definition iswa_clear :: "llama_kv_cache_iswa \<Rightarrow> llama_kv_cache_iswa res" where
  "iswa_clear m = bind_r (kv_clear (iswa_base m)) (\<lambda>b. bind_r (kv_clear (iswa_swa m)) (\<lambda>s.
     Inr (m\<lparr>iswa_base := b, iswa_swa := s\<rparr>)))"

definition iswa_can_seq_rm :: "llama_kv_cache_iswa \<Rightarrow> int \<Rightarrow> int \<Rightarrow> int \<Rightarrow> bool res" where
  "iswa_can_seq_rm m seq_id p0 p1 = bind_r (kv_can_seq_rm (iswa_base m) seq_id p0 p1) (\<lambda>ok.
     if \<not> ok then Inr False else kv_can_seq_rm (iswa_swa m) seq_id p0 p1)"

text \<open>The removal that all children of a composite memory can do: a removal to the end may start earlier. A child is given
  by its \<open>seq_rm_plan\<close> and its \<open>can_seq_rm\<close>.\<close>

type_synonym memory_child = "(int \<Rightarrow> int \<Rightarrow> int \<Rightarrow> (int \<times> int) option res) \<times> (int \<Rightarrow> int \<Rightarrow> int \<Rightarrow> bool res)"

definition plan_child :: "int \<Rightarrow> int \<Rightarrow> int \<Rightarrow> memory_child \<Rightarrow> int option \<Rightarrow> int option res" where
  "plan_child seq_id p0 p1 child common = (case common of None \<Rightarrow> Inr None
     | Some common_p0 \<Rightarrow> bind_r (fst child seq_id p0 p1) (\<lambda>r. case r of
         None \<Rightarrow> Inr None
       | Some (child_p0, child_p1) \<Rightarrow>
           if p1 < 0
           then Inr (if child_p1 \<ge> 0 then None else Some (if child_p0 < common_p0 then child_p0 else common_p0))
           else Inr (if child_p0 \<noteq> p0 \<or> child_p1 \<noteq> p1 then None else Some common_p0)))"

definition llama_memory_seq_rm_plan_all :: "int \<Rightarrow> int \<Rightarrow> int \<Rightarrow> memory_child list \<Rightarrow> (int \<times> int) option res" where
  "llama_memory_seq_rm_plan_all seq_id p0 p1 children =
     (if children = [] then Inr None
      else bind_r (fold_r (plan_child seq_id p0 p1) children (Some p0)) (\<lambda>common. case common of None \<Rightarrow> Inr None
        | Some common_p0 \<Rightarrow> bind_r (forall_r (\<lambda>c. snd c seq_id common_p0 p1) children) (\<lambda>ok.
            Inr (if ok then Some (common_p0, p1) else None))))"

definition kv_child :: "llama_kv_cache \<Rightarrow> memory_child" where
  "kv_child kv = (kv_seq_rm_plan kv, kv_can_seq_rm kv)"

definition iswa_seq_rm_plan :: "llama_kv_cache_iswa \<Rightarrow> int \<Rightarrow> int \<Rightarrow> int \<Rightarrow> (int \<times> int) option res" where
  "iswa_seq_rm_plan m seq_id p0 p1 = llama_memory_seq_rm_plan_all seq_id p0 p1 [kv_child (iswa_base m), kv_child (iswa_swa m)]"

definition iswa_seq_rm :: "int \<Rightarrow> int \<Rightarrow> int \<Rightarrow> llama_kv_cache_iswa \<Rightarrow> (bool \<times> llama_kv_cache_iswa) res" where
  "iswa_seq_rm seq_id p0 p1 m =
     bind_r (iswa_can_seq_rm m seq_id p0 p1) (\<lambda>ok.
       if \<not> ok then Inr (False, m)
       else bind_r (kv_seq_rm seq_id p0 p1 (iswa_base m)) (\<lambda>(ok, b).
         let m = m\<lparr>iswa_base := b\<rparr>
         in if \<not> ok then Inr (False, m)
            else bind_r (kv_seq_rm seq_id p0 p1 (iswa_swa m)) (\<lambda>(ok, s). Inr (ok, m\<lparr>iswa_swa := s\<rparr>))))"

definition iswa_seq_rm_cell :: "int \<Rightarrow> nat \<Rightarrow> llama_kv_cache_iswa \<Rightarrow> (bool \<times> llama_kv_cache_iswa) res" where
  "iswa_seq_rm_cell seq_id cell m =
     bind_r (kv_seq_rm_cell seq_id cell (iswa_base m)) (\<lambda>(ok, b).
       let m = m\<lparr>iswa_base := b\<rparr>
       in if \<not> ok then Inr (False, m)
          else bind_r (kv_seq_rm_cell seq_id cell (iswa_swa m)) (\<lambda>(ok, s). Inr (ok, m\<lparr>iswa_swa := s\<rparr>)))"

definition iswa_cells_at_pos :: "llama_kv_cache_iswa \<Rightarrow> int \<Rightarrow> int \<Rightarrow> nat \<Rightarrow> (nat \<times> nat list) res" where
  "iswa_cells_at_pos m seq_id pos n_max = kv_cells_at_pos (iswa_base m) seq_id pos n_max"

text \<open>The other edits go to both children.\<close>

definition on_both :: "(llama_kv_cache \<Rightarrow> llama_kv_cache res) \<Rightarrow> llama_kv_cache_iswa \<Rightarrow> llama_kv_cache_iswa res" where
  "on_both f m = bind_r (f (iswa_base m)) (\<lambda>b. bind_r (f (iswa_swa m)) (\<lambda>s. Inr (m\<lparr>iswa_base := b, iswa_swa := s\<rparr>)))"

definition iswa_seq_cp :: "int \<Rightarrow> int \<Rightarrow> int \<Rightarrow> int \<Rightarrow> llama_kv_cache_iswa \<Rightarrow> llama_kv_cache_iswa res" where
  "iswa_seq_cp src dst p0 p1 = on_both (kv_seq_cp src dst p0 p1)"

definition iswa_seq_keep :: "int \<Rightarrow> llama_kv_cache_iswa \<Rightarrow> llama_kv_cache_iswa res" where
  "iswa_seq_keep seq_id = on_both (kv_seq_keep seq_id)"

definition iswa_seq_add :: "int \<Rightarrow> int \<Rightarrow> int \<Rightarrow> int \<Rightarrow> llama_kv_cache_iswa \<Rightarrow> llama_kv_cache_iswa res" where
  "iswa_seq_add seq_id p0 p1 shift = on_both (kv_seq_add seq_id p0 p1 shift)"

definition iswa_seq_div :: "int \<Rightarrow> int \<Rightarrow> int \<Rightarrow> int \<Rightarrow> llama_kv_cache_iswa \<Rightarrow> llama_kv_cache_iswa res" where
  "iswa_seq_div seq_id p0 p1 d = on_both (kv_seq_div seq_id p0 p1 d)"

definition iswa_seq_pos_min :: "llama_kv_cache_iswa \<Rightarrow> int \<Rightarrow> int res" where
  "iswa_seq_pos_min m seq_id = kv_seq_pos_min (iswa_swa m) seq_id"

definition iswa_seq_pos_max :: "llama_kv_cache_iswa \<Rightarrow> int \<Rightarrow> int res" where
  "iswa_seq_pos_max m seq_id = kv_seq_pos_max (iswa_swa m) seq_id"

definition iswa_get_can_shift :: "graph_env \<Rightarrow> llama_kv_cache_iswa \<Rightarrow> bool res" where
  "iswa_get_can_shift env m =
     (if \<not> (kv_get_can_shift env (iswa_base m) \<and> kv_get_can_shift env (iswa_swa m)) then Inr False
      else bind_r (kv_get_size (iswa_base m)) (\<lambda>a. bind_r (kv_get_size (iswa_swa m)) (\<lambda>b. Inr (a = b))))"

section \<open>Contexts of the pair\<close>

record llama_kv_cache_iswa_context =
  ix_i_next :: nat
  ix_ubatches :: "llama_ubatch list"
  ix_base :: llama_kv_cache_context
  ix_swa :: llama_kv_cache_context
  ix_status :: llama_memory_status

definition iswa_context_of :: "llama_kv_cache_context \<Rightarrow> llama_kv_cache_context \<Rightarrow> llama_ubatch list \<Rightarrow> llama_kv_cache_iswa_context" where
  "iswa_context_of b s ubs = \<lparr>ix_i_next = 0, ix_ubatches = ubs, ix_base = b, ix_swa = s,
     ix_status = llama_memory_status_combine (kx_status b) (kx_status s)\<rparr>"

definition iswa_init_full :: "llama_kv_cache_iswa \<Rightarrow> llama_kv_cache_iswa_context res" where
  "iswa_init_full m = bind_r (kv_init_full (iswa_base m)) (\<lambda>b. bind_r (kv_init_full (iswa_swa m)) (\<lambda>s.
     Inr (iswa_context_of b s [])))"

definition iswa_init_update :: "llama_kv_cache_iswa \<Rightarrow> (llama_kv_cache_iswa_context \<times> llama_kv_cache_iswa) res" where
  "iswa_init_update m = bind_r (kv_init_update (iswa_base m)) (\<lambda>(cb, b). bind_r (kv_init_update (iswa_swa m)) (\<lambda>(cs, s).
     Inr (iswa_context_of cb cs [], m\<lparr>iswa_base := b, iswa_swa := s\<rparr>)))"

text \<open>\<open>None\<close> is the context with the status \<^verbatim>\<open>LLAMA_MEMORY_STATUS_FAILED_PREPARE\<close>, which has no children.\<close>

definition iswa_init_kv_batch ::
    "llama_ubatch list \<Rightarrow> llama_kv_cache_iswa \<Rightarrow> (llama_kv_cache_iswa_context option \<times> llama_kv_cache_iswa) res" where
  "iswa_init_kv_batch ubs m =
     bind_r (kv_init_kv_batch ubs (iswa_base m)) (\<lambda>(cb, b).
       let m = m\<lparr>iswa_base := b\<rparr>
       in if llama_memory_status_is_fail (kx_status cb) then Inr (None, m)
          else bind_r (kv_init_kv_batch ubs (iswa_swa m)) (\<lambda>(cs, s).
            let m = m\<lparr>iswa_swa := s\<rparr>
            in if llama_memory_status_is_fail (kx_status cs) then Inr (None, m)
               else Inr (Some (iswa_context_of cb cs ubs), m)))"

text \<open>One attempt to cut the batch and to rehearse it on both children; the outer \<open>None\<close> is a cut that has not ended.\<close>

definition iswa_attempt ::
    "nat \<Rightarrow> (llama_batch_allocr \<Rightarrow> (llama_ubatch \<times> llama_batch_allocr) res) \<Rightarrow> llama_batch_allocr \<Rightarrow> llama_kv_cache_iswa \<Rightarrow>
     (llama_kv_cache_iswa_context option \<times> llama_batch_allocr \<times> llama_kv_cache_iswa) option res" where
  "iswa_attempt fuel split a m =
     bind_r (split_all fuel split (split_reset a)) (\<lambda>r. case r of None \<Rightarrow> Inr None
       | Some (us, a) \<Rightarrow> if get_n_used a < get_n_tokens a then Inr (Some (None, a, m))
           else bind_r (iswa_init_kv_batch us m) (\<lambda>(ctx, m). Inr (Some (ctx, a, m))))"

definition iswa_init_batch ::
    "nat \<Rightarrow> nat \<Rightarrow> llama_batch_allocr \<Rightarrow> llama_kv_cache_iswa \<Rightarrow>
     (llama_kv_cache_iswa_context option \<times> llama_batch_allocr \<times> llama_kv_cache_iswa) option res" where
  "iswa_init_batch fuel n_ubatch a m =
     bind_r (if \<not> iswa_unified m then Inr (Some (None, a, m)) else iswa_attempt fuel (split_simple n_ubatch) a m) (\<lambda>r.
       case r of None \<Rightarrow> Inr None
       | Some (Some ctx, a, m) \<Rightarrow> Inr (Some (Some ctx, a, m))
       | Some (None, a, m) \<Rightarrow> iswa_attempt fuel (split_equal n_ubatch (\<not> iswa_unified m) 0) a m)"

definition iswa_context_next :: "llama_kv_cache_iswa_context \<Rightarrow> (bool \<times> llama_kv_cache_iswa_context) res" where
  "iswa_context_next ctx =
     assert_r (ix_status ctx = LLAMA_MEMORY_STATUS_SUCCESS)
       (bind_r (context_next (ix_base ctx)) (\<lambda>(_, b). bind_r (context_next (ix_swa ctx)) (\<lambda>(_, s).
          let i = ix_i_next ctx + 1
          in Inr (\<not> i \<ge> length (ix_ubatches ctx), ctx\<lparr>ix_base := b, ix_swa := s, ix_i_next := i\<rparr>))))"

definition iswa_context_apply ::
    "graph_env \<Rightarrow> graph_env \<Rightarrow> nat \<Rightarrow> llama_kv_cache_iswa_context \<Rightarrow> llama_kv_cache_iswa \<Rightarrow>
     (bool \<times> llama_kv_cache_iswa_context \<times> llama_kv_cache_iswa) res" where
  "iswa_context_apply env_base env_swa n_pad ctx m =
     assert_r (\<not> llama_memory_status_is_fail (ix_status ctx))
       (bind_r (context_apply env_base n_pad (ix_base ctx) (iswa_base m)) (\<lambda>(ok0, cb, b).
        bind_r (context_apply env_swa n_pad (ix_swa ctx) (iswa_swa m)) (\<lambda>(ok1, cs, s).
          Inr (ok0 \<and> ok1, ctx\<lparr>ix_base := cb, ix_swa := cs\<rparr>, m\<lparr>iswa_base := b, iswa_swa := s\<rparr>))))"

definition iswa_context_compute_start :: "llama_kv_cache_iswa_context \<Rightarrow> llama_kv_cache_iswa_context" where
  "iswa_context_compute_start ctx = ctx\<lparr>ix_base := context_compute_start (ix_base ctx), ix_swa := context_compute_start (ix_swa ctx)\<rparr>"

definition iswa_context_compute_finish ::
    "bool \<Rightarrow> llama_kv_cache_iswa_context \<Rightarrow> llama_kv_cache_iswa \<Rightarrow> (llama_kv_cache_iswa_context \<times> llama_kv_cache_iswa) res" where
  "iswa_context_compute_finish success ctx m =
     bind_r (context_compute_finish success (ix_base ctx) (iswa_base m)) (\<lambda>(cb, b).
     bind_r (context_compute_finish success (ix_swa ctx) (iswa_swa m)) (\<lambda>(cs, s).
       Inr (ctx\<lparr>ix_base := cb, ix_swa := cs\<rparr>, m\<lparr>iswa_base := b, iswa_swa := s\<rparr>)))"

section \<open>Sequences of edits\<close>

fun iswa_edit_apply :: "kv_edit \<Rightarrow> llama_kv_cache_iswa \<Rightarrow> llama_kv_cache_iswa res" where
  "iswa_edit_apply (Rm s p0 p1) m = bind_r (iswa_seq_rm s p0 p1 m) (\<lambda>(_, m). Inr m)"
| "iswa_edit_apply (Keep s) m = iswa_seq_keep s m"
| "iswa_edit_apply (Add s p0 p1 d) m = iswa_seq_add s p0 p1 d m"
| "iswa_edit_apply (Div s p0 p1 d) m = iswa_seq_div s p0 p1 d m"
| "iswa_edit_apply (Cp src dst p0 p1) m = iswa_seq_cp src dst p0 p1 m"

text \<open>Every edit of a sequence meets its condition in the state it is run in.\<close>

fun run_pre :: "('e \<Rightarrow> 'm \<Rightarrow> 'm res) \<Rightarrow> ('e \<Rightarrow> 'm \<Rightarrow> bool) \<Rightarrow> 'e list \<Rightarrow> 'm \<Rightarrow> bool" where
  "run_pre ap pre [] m = True"
| "run_pre ap pre (e # es) m = (pre e m \<and> (case ap e m of Inl _ \<Rightarrow> False | Inr m' \<Rightarrow> run_pre ap pre es m'))"

locale memory_edits =
  fixes ap :: "'e \<Rightarrow> 'm \<Rightarrow> 'm res"
    and pre :: "'e \<Rightarrow> 'm \<Rightarrow> bool"
    and inv :: "'m \<Rightarrow> bool"
    and abs :: "'m \<Rightarrow> 'a"
    and spec :: "'e \<Rightarrow> 'a \<Rightarrow> 'a"
  assumes edit: "inv m \<Longrightarrow> pre e m \<Longrightarrow> \<exists>m'. ap e m = Inr m' \<and> inv m' \<and> abs m' = spec e (abs m)"
begin

lemma run_refines:
  assumes "inv m" and "run_pre ap pre es m"
  shows "\<exists>m'. fold_r ap es m = Inr m' \<and> inv m' \<and> abs m' = fold spec es (abs m)"
  using assms
proof (induction es arbitrary: m)
  case (Cons e es)
  obtain m1 where m1: "ap e m = Inr m1" "inv m1" "abs m1 = spec e (abs m)" using edit [OF Cons.prems(1)] Cons.prems(2) by auto
  then obtain m' where "fold_r ap es m1 = Inr m'" "inv m'" "abs m' = fold spec es (abs m1)" using Cons.IH [of m1] Cons.prems(2) by auto
  then show ?case using m1 by auto
qed simp

end

definition kv_abs :: "llama_kv_cache \<Rightarrow> (int \<Rightarrow> nat) \<times> cell_content list list" where
  "kv_abs kv = (stream_idx kv, kv_view kv)"

definition abs_spec :: "kv_edit \<Rightarrow> (int \<Rightarrow> nat) \<times> cell_content list list \<Rightarrow> (int \<Rightarrow> nat) \<times> cell_content list list" where
  "abs_spec e a = (fst a, kv_edit_spec (fst a) e (snd a))"

interpretation kv_edits: memory_edits kv_edit_apply kv_edit_pre kv_inv kv_abs abs_spec
proof unfold_locales
  fix kv e assume "kv_inv kv" "kv_edit_pre e kv"
  then obtain kv' where k: "kv_edit_apply e kv = Inr kv'" "kv_inv kv'" "kv_frame kv kv'" "kv_view kv' = kv_edit_spec (stream_idx kv) e (kv_view kv)"
    using kv_edits_ok by blast
  have "stream_idx kv' = stream_idx kv" using kv_frame_fields(2) [OF k(3)] by (simp add: fun_eq_iff)
  then show "\<exists>kv'. kv_edit_apply e kv = Inr kv' \<and> kv_inv kv' \<and> kv_abs kv' = abs_spec e (kv_abs kv)"
    using k by (simp add: kv_abs_def abs_spec_def)
qed

definition iswa_inv :: "llama_kv_cache_iswa \<Rightarrow> bool" where
  "iswa_inv m \<longleftrightarrow> kv_inv (iswa_base m) \<and> kv_inv (iswa_swa m)"

definition iswa_edit_pre :: "kv_edit \<Rightarrow> llama_kv_cache_iswa \<Rightarrow> bool" where
  "iswa_edit_pre e m \<longleftrightarrow> kv_edit_pre e (iswa_base m) \<and> kv_edit_pre e (iswa_swa m)"

text \<open>An edit of the pair is the edit of each child.\<close>

lemma kv_seq_rm_True:
  assumes "kv_can_seq_rm kv s p0 p1 = Inr True" and "kv_edit_apply (Rm s p0 p1) kv = Inr kv'"
  shows "kv_seq_rm s p0 p1 kv = Inr (True, kv')"
  using assms by (auto simp: kv_seq_rm_def split: if_splits)

lemma iswa_edit_apply_eq:
  assumes "iswa_edit_pre e m" and b: "kv_edit_apply e (iswa_base m) = Inr b" and s: "kv_edit_apply e (iswa_swa m) = Inr s"
  shows "iswa_edit_apply e m = Inr (m\<lparr>iswa_base := b, iswa_swa := s\<rparr>)"
proof (cases e)
  case (Rm q p0 p1)
  then have c: "kv_can_seq_rm (iswa_base m) q p0 p1 = Inr True" "kv_can_seq_rm (iswa_swa m) q p0 p1 = Inr True"
    using assms(1) by (simp_all add: iswa_edit_pre_def)
  show ?thesis using c kv_seq_rm_True [OF c(1) b [unfolded Rm]] kv_seq_rm_True [OF c(2) s [unfolded Rm]]
    by (simp add: Rm iswa_seq_rm_def iswa_can_seq_rm_def)
qed (use b s in \<open>simp_all add: iswa_seq_keep_def iswa_seq_add_def iswa_seq_div_def iswa_seq_cp_def on_both_def\<close>)

interpretation iswa_edits: memory_edits iswa_edit_apply iswa_edit_pre iswa_inv "\<lambda>m. (kv_abs (iswa_base m), kv_abs (iswa_swa m))"
  "\<lambda>e a. (abs_spec e (fst a), abs_spec e (snd a))"
proof unfold_locales
  fix m e assume i: "iswa_inv m" and p: "iswa_edit_pre e m"
  obtain b s where bs: "kv_edit_apply e (iswa_base m) = Inr b" "kv_inv b" "kv_abs b = abs_spec e (kv_abs (iswa_base m))"
      "kv_edit_apply e (iswa_swa m) = Inr s" "kv_inv s" "kv_abs s = abs_spec e (kv_abs (iswa_swa m))"
    using kv_edits.edit [of "iswa_base m" e] kv_edits.edit [of "iswa_swa m" e] i p by (auto simp: iswa_inv_def iswa_edit_pre_def)
  then show "\<exists>m'. iswa_edit_apply e m = Inr m' \<and> iswa_inv m' \<and> (kv_abs (iswa_base m'), kv_abs (iswa_swa m')) =
      (abs_spec e (fst (kv_abs (iswa_base m), kv_abs (iswa_swa m))), abs_spec e (snd (kv_abs (iswa_base m), kv_abs (iswa_swa m))))"
    using iswa_edit_apply_eq [OF p bs(1,4)] by (simp add: iswa_inv_def)
qed

end
