(* ===== verification/IswaProps.thy ===== *)
theory IswaProps
  imports Iswa
begin

text \<open>
  Properties of the pair of caches: edits keep the cells of the window cache within those of the base cache, the
  positions the pair reports exist in both, a refused removal changes nothing, and the removal of a single cell
  leaves its contract.
\<close>

section \<open>The base cache is a superset\<close>

text \<open>Every occupied cell of the window cache is also a cell of the base cache, stream by stream.\<close>

definition view_covers :: "cell_content list list \<Rightarrow> cell_content list list \<Rightarrow> bool" where
  "view_covers vb vs \<longleftrightarrow> length vb = length vs \<and> (\<forall>i < length vs. set (vs ! i) \<subseteq> insert (-1, {}) (set (vb ! i)))"

lemma on_stream_covers:
  assumes "view_covers vb vs" and "g (-1, {}) = (-1, {})"
  shows "view_covers (on_stream i g vb) (on_stream i g vs)"
proof -
  have l: "length vb = length vs" and c: "\<And>j. j < length vs \<Longrightarrow> set (vs ! j) \<subseteq> insert (-1, {}) (set (vb ! j))"
    using assms(1) by (simp_all add: view_covers_def)
  have "set (on_stream i g vs ! j) \<subseteq> insert (-1, {}) (set (on_stream i g vb ! j))" if j: "j < length vs" for j
  proof (cases "j = i")
    case True
    have "g ` set (vs ! i) \<subseteq> g ` insert (-1, {}) (set (vb ! i))" using c [of i] j True by (intro image_mono) simp
    then show ?thesis using True j l assms(2) by (simp add: on_stream_def)
  qed (use c [OF j] in \<open>simp add: on_stream_def\<close>)
  then show ?thesis using l by (simp add: view_covers_def on_stream_def)
qed

lemma spec_empty:
  "spec_rm s lo hi (-1, {}) = (-1, {})" "spec_rm_any lo hi (-1, {}) = (-1, {})" "spec_keep s (-1, {}) = (-1, {})"
  "spec_add s lo hi d (-1, {}) = (-1, {})" "spec_div s lo hi d (-1, {}) = (-1, {})" "spec_cp s t lo hi (-1, {}) = (-1, {})"
  by (simp_all add: spec_rm_def spec_rm_any_def spec_keep_def spec_add_def spec_div_def spec_cp_def hits_def)

lemma edit_spec_covers:
  assumes "view_covers vb vs"
  shows "view_covers (kv_edit_spec str e vb) (kv_edit_spec str e vs)"
proof (cases e)
  case (Rm s p0 p1)
  have "view_covers (map (map g) vb) (map (map g) vs)" if g: "g (-1, {}) = (-1, {})" for g
  proof -
    have "set (map g (vs ! i)) \<subseteq> insert (-1, {}) (set (map g (vb ! i)))" if "i < length vs" for i
    proof -
      have "g ` set (vs ! i) \<subseteq> g ` insert (-1, {}) (set (vb ! i))" using assms that by (intro image_mono) (simp add: view_covers_def)
      then show ?thesis using g by simp
    qed
    then show ?thesis using assms by (simp add: view_covers_def)
  qed
  then show ?thesis using on_stream_covers [OF assms] spec_empty by (simp add: Rm)
qed (use on_stream_covers [OF assms] spec_empty in simp_all)

lemma fold_spec_covers: "view_covers vb vs \<Longrightarrow> view_covers (fold (kv_edit_spec str) es vb) (fold (kv_edit_spec str) es vs)"
  by (induction es arbitrary: vb vs) (simp_all add: edit_spec_covers)

lemma fold_abs_spec: "fold abs_spec es a = (fst a, fold (kv_edit_spec (fst a)) es (snd a))"
  by (induction es arbitrary: a) (simp_all add: abs_spec_def)

lemma fold_pair_spec: "fold (\<lambda>e a. (f e (fst a), f e (snd a))) es p = (fold f es (fst p), fold f es (snd p))"
  by (induction es arbitrary: p) simp_all

text \<open>The positions a sequence has in a cache.\<close>

definition owned_positions :: "llama_kv_cache \<Rightarrow> int \<Rightarrow> int set" where
  "owned_positions kv s = fst ` {z \<in> set (kv_view kv ! stream_idx kv s). nat s \<in> snd z}"

lemma kv_pos_queries:
  assumes w: "kv_wf kv" and k: "known_seq kv s"
  shows "kv_seq_pos_min kv s = Inr (if owned_positions kv s = {} then -1 else Min (owned_positions kv s))"
    and "kv_seq_pos_max kv s = Inr (if owned_positions kv s = {} then -1 else Max (owned_positions kv s))"
proof -
  note st = stream_of_ok [OF w k]
  let ?c = "kv_cells kv ! stream_idx kv s"
  note ci = cells_okD(1) [OF kv_wf_parts(7) [OF w st(2)]]
  note d = kv_cells_invD [OF ci]
  have v: "kv_view kv ! stream_idx kv s = kv_cells_list ?c" using st(2) kv_wf_parts(3) [OF w] by (simp add: kv_view_def)
  have "kv_cells_list ?c = map (\<lambda>i. (kc_pos ?c ! i, kc_seq ?c ! i)) [0..<length (kc_pos ?c)]"
    using d(9,10) by (intro nth_equalityI) simp_all
  then have m: "z \<in> set (kv_cells_list ?c) \<longleftrightarrow> (\<exists>i < length (kc_pos ?c). z = (kc_pos ?c ! i, kc_seq ?c ! i))" for z by auto
  have "owned_positions kv s = seq_positions ?c (nat s)"
    unfolding owned_positions_def seq_positions_def v image_def mem_Collect_eq m by fastforce
  then show "kv_seq_pos_min kv s = Inr (if owned_positions kv s = {} then -1 else Min (owned_positions kv s))"
      "kv_seq_pos_max kv s = Inr (if owned_positions kv s = {} then -1 else Max (owned_positions kv s))"
    using kv_cells_seq_pos_min_eq [OF ci st(3)] kv_cells_seq_pos_max_eq [OF ci st(3)] known_seq_nat [OF k] kv_wf_parts(1) [OF w] st(1)
    by (simp_all add: kv_seq_pos_min_def kv_seq_pos_max_def)
qed

lemma covered_positions:
  assumes "view_covers (kv_view (iswa_base m)) (kv_view (iswa_swa m))" and "stream_idx (iswa_base m) = stream_idx (iswa_swa m)"
    and "stream_idx (iswa_swa m) s < length (kv_view (iswa_swa m))"
  shows "owned_positions (iswa_swa m) s \<subseteq> owned_positions (iswa_base m) s"
  using assms by (fastforce simp: owned_positions_def view_covers_def)

text \<open>What the pair reports is a position of the sequence in the base cache, or none.\<close>

lemma reported_positions:
  assumes i: "iswa_inv m" and v: "view_covers (kv_view (iswa_base m)) (kv_view (iswa_swa m))"
    and e: "stream_idx (iswa_base m) = stream_idx (iswa_swa m)" and k: "known_seq (iswa_swa m) s"
  shows "\<exists>lo hi. iswa_seq_pos_min m s = Inr lo \<and> iswa_seq_pos_max m s = Inr hi \<and>
    {lo, hi} \<subseteq> insert (-1) (owned_positions (iswa_base m) s)"
proof -
  have w: "kv_wf (iswa_swa m)" using i by (simp add: iswa_inv_def kv_inv_def)
  let ?Q = "owned_positions (iswa_swa m) s"
  have f: "finite ?Q" by (simp add: owned_positions_def)
  have "?Q \<subseteq> owned_positions (iswa_base m) s"
    using covered_positions [OF v e] stream_of_ok(2) [OF w k] kv_wf_parts(3) [OF w] by (simp add: kv_view_def)
  moreover have "?Q \<noteq> {} \<Longrightarrow> Min ?Q \<in> ?Q \<and> Max ?Q \<in> ?Q" using f by simp
  ultimately show ?thesis by (auto simp: iswa_seq_pos_min_def iswa_seq_pos_max_def kv_pos_queries [OF w k])
qed

text \<open>C19: Starting from a consistent pair whose base cache covers the window cache and which maps sequences to the same streams, any
  sequence of edits of the pair of caches (removal, keep, shift, division, copy, in any order, each under its
  conditions) completes, keeps both caches consistent, applies to each of them the same map over cell contents,
  and keeps the fact the code relies on when it reports positions: every occupied cell of the window cache is
  also in the base cache, so the least and the greatest position the pair reports for a sequence
  (llama_kv_cache_iswa::seq_pos_min, seq_pos_max) are positions the sequence has in the base cache, or -1.\<close>

theorem iswa_edits_keep_superset:
  assumes "iswa_inv m" and "run_pre iswa_edit_apply iswa_edit_pre es m" and "stream_idx (iswa_base m) = stream_idx (iswa_swa m)"
    and "view_covers (kv_view (iswa_base m)) (kv_view (iswa_swa m))"
  shows "\<exists>m'. fold_r iswa_edit_apply es m = Inr m' \<and> iswa_inv m' \<and> view_covers (kv_view (iswa_base m')) (kv_view (iswa_swa m')) \<and>
    kv_view (iswa_base m') = fold (kv_edit_spec (stream_idx (iswa_base m))) es (kv_view (iswa_base m)) \<and>
    kv_view (iswa_swa m') = fold (kv_edit_spec (stream_idx (iswa_swa m))) es (kv_view (iswa_swa m)) \<and>
    (\<forall>s. known_seq (iswa_swa m') s \<longrightarrow> (\<exists>lo hi. iswa_seq_pos_min m' s = Inr lo \<and> iswa_seq_pos_max m' s = Inr hi \<and>
      {lo, hi} \<subseteq> insert (-1) (owned_positions (iswa_base m') s)))"
proof -
  obtain m' where m': "fold_r iswa_edit_apply es m = Inr m'" "iswa_inv m'"
      "kv_abs (iswa_base m') = fold abs_spec es (kv_abs (iswa_base m))" "kv_abs (iswa_swa m') = fold abs_spec es (kv_abs (iswa_swa m))"
    using iswa_edits.run_refines [OF assms(1,2)] by (auto simp: fold_pair_spec)
  have v: "kv_view (iswa_base m') = fold (kv_edit_spec (stream_idx (iswa_base m))) es (kv_view (iswa_base m))"
      "kv_view (iswa_swa m') = fold (kv_edit_spec (stream_idx (iswa_swa m))) es (kv_view (iswa_swa m))"
    and e: "stream_idx (iswa_base m') = stream_idx (iswa_swa m')"
    using m'(3,4) assms(3) by (simp_all add: fold_abs_spec kv_abs_def)
  have c: "view_covers (kv_view (iswa_base m')) (kv_view (iswa_swa m'))" using v fold_spec_covers [OF assms(4)] assms(3) by simp
  show ?thesis using m'(1,2) v c reported_positions [OF m'(2) c e] by blast
qed

section \<open>Removal is refused as a whole\<close>

lemma kv_can_total:
  assumes "kv_inv kv" and "s = -1 \<or> known_seq kv s"
  shows "\<exists>b. kv_can_seq_rm kv s p0 p1 = Inr b"
proof (cases "known_seq kv s")
  case True
  have w: "kv_wf kv" using assms(1) by (simp add: kv_inv_def)
  note st = stream_of_ok [OF w True]
  have "\<exists>p. kv_seq_pos_max kv s = Inr p"
    using kv_cells_seq_pos_max_eq [OF cells_okD(1) [OF kv_wf_parts(7) [OF w st(2)]] st(3)] known_seq_nat [OF True] kv_wf_parts(1) [OF w] st(1)
    by (simp add: kv_seq_pos_max_def)
  then show ?thesis by (auto simp: kv_can_seq_rm_def)
next
  case False
  then show ?thesis using assms(2) by (auto simp: kv_can_seq_rm_def)
qed

text \<open>A removal on the pair of caches is done in both or in none (llama_kv_cache_iswa::seq_rm): when one of the caches
  cannot do it, both are left as they are and the result is false; otherwise the result is true and each is
  changed as the same map over its cells.\<close>

theorem iswa_seq_rm_all_or_nothing:
  assumes i: "iswa_inv m" and s: "s = -1 \<or> (known_seq (iswa_base m) s \<and> known_seq (iswa_swa m) s)"
  shows "\<exists>ok m'. iswa_seq_rm s p0 p1 m = Inr (ok, m') \<and>
    (if ok then kv_view (iswa_base m') = kv_edit_spec (stream_idx (iswa_base m)) (Rm s p0 p1) (kv_view (iswa_base m)) \<and>
       kv_view (iswa_swa m') = kv_edit_spec (stream_idx (iswa_swa m)) (Rm s p0 p1) (kv_view (iswa_swa m)) \<and> iswa_inv m'
     else m' = m)"
proof -
  have I: "kv_inv (iswa_base m)" "kv_inv (iswa_swa m)" using i by (simp_all add: iswa_inv_def)
  obtain b0 b1 where b: "kv_can_seq_rm (iswa_base m) s p0 p1 = Inr b0" "kv_can_seq_rm (iswa_swa m) s p0 p1 = Inr b1"
    using kv_can_total [OF I(1), of s p0 p1] kv_can_total [OF I(2), of s p0 p1] s by blast
  show ?thesis
  proof (cases "b0 \<and> b1")
    case False
    then have "iswa_seq_rm s p0 p1 m = Inr (False, m)" using b by (auto simp: iswa_seq_rm_def iswa_can_seq_rm_def)
    then show ?thesis by auto
  next
    case True
    then have p: "kv_edit_pre (Rm s p0 p1) (iswa_base m)" "kv_edit_pre (Rm s p0 p1) (iswa_swa m)" using b s by auto
    obtain kb where kb: "kv_edit_apply (Rm s p0 p1) (iswa_base m) = Inr kb" "kv_inv kb"
        "kv_view kb = kv_edit_spec (stream_idx (iswa_base m)) (Rm s p0 p1) (kv_view (iswa_base m))"
      using kv_edits_ok [OF I(1) p(1)] by blast
    obtain ks where ks: "kv_edit_apply (Rm s p0 p1) (iswa_swa m) = Inr ks" "kv_inv ks"
        "kv_view ks = kv_edit_spec (stream_idx (iswa_swa m)) (Rm s p0 p1) (kv_view (iswa_swa m))"
      using kv_edits_ok [OF I(2) p(2)] by blast
    have "iswa_seq_rm s p0 p1 m = Inr (True, m\<lparr>iswa_base := kb, iswa_swa := ks\<rparr>)"
      using True b kv_seq_rm_True [OF _ kb(1)] kv_seq_rm_True [OF _ ks(1)] by (simp add: iswa_seq_rm_def iswa_can_seq_rm_def)
    then show ?thesis using kb(2,3) ks(2,3)
      by (intro exI [of _ True] exI [of _ "m\<lparr>iswa_base := kb, iswa_swa := ks\<rparr>"]) (simp del: kv_edit_spec.simps add: iswa_inv_def)
  qed
qed

section \<open>Removing a single cell\<close>

text \<open>Removing one cell of the pair (llama_kv_cache_iswa::seq_rm_cell) uses the same index in both caches, although a cell index
  comes from the base cache (cells_at_pos) and the window cache is usually smaller: an index of the base cache
  beyond the window cache never returns, because it fails an assertion in the window cache.\<close>

theorem iswa_seq_rm_cell_out_of_window:
  assumes "kv_wf (iswa_swa m)" and "known_seq (iswa_swa m) s" and "kv_cap (iswa_swa m) \<le> cell"
  shows "iswa_seq_rm_cell s cell m \<noteq> Inr r"
proof -
  note st = stream_of_ok [OF assms(1,2)]
  have "kv_cells_seq_rm_cell cell s (kv_cells (iswa_swa m) ! stream_idx (iswa_swa m) s) = Inl Assert_fail"
    using kv_wf_parts(8) [OF assms(1) st(2)] assms(3) by (simp add: kv_cells_seq_rm_cell_def)
  then have f: "kv_seq_rm_cell s cell (iswa_swa m) = Inl Assert_fail" by (simp add: kv_seq_rm_cell_def st(1))
  have t: "ok" if "kv_seq_rm_cell s cell (iswa_base m) = Inr (ok, b)" for ok b
    using that by (auto simp: kv_seq_rm_cell_def Let_def split: if_splits)
  show ?thesis
  proof
    assume "iswa_seq_rm_cell s cell m = Inr r"
    then obtain ok b where "kv_seq_rm_cell s cell (iswa_base m) = Inr (ok, b)"
        "(if \<not> ok then Inr (False, m\<lparr>iswa_base := b\<rparr>) else bind_r (kv_seq_rm_cell s cell (iswa_swa m)) (\<lambda>(ok, s). Inr (ok, m\<lparr>iswa_base := b, iswa_swa := s\<rparr>))) = Inr r"
      unfolding iswa_seq_rm_cell_def Let_def by (auto simp: f split: if_splits)
    then show False using t f by simp
  qed
qed

section \<open>A concrete pair\<close>

definition iswa_example :: llama_kv_cache_iswa where
  "iswa_example = \<lparr>iswa_unified = True, iswa_base = kv_example, iswa_swa = kv_example\<rparr>"

lemma iswa_example_inv: "iswa_inv iswa_example" "view_covers (kv_view (iswa_base iswa_example)) (kv_view (iswa_swa iswa_example))"
  using kv_example_inv by (auto simp: iswa_inv_def iswa_example_def view_covers_def)

theorem iswa_edits_keep_superset_witness:
  "\<exists>m'. fold_r iswa_edit_apply [Add 1 0 (-1) 3] iswa_example = Inr m' \<and> kv_view (iswa_swa m') ! 0 ! 5 = (10, {0, 1}) \<and>
     view_covers (kv_view (iswa_base m')) (kv_view (iswa_swa m'))"
proof -
  have p: "iswa_edit_pre (Add 1 0 (-1) 3) iswa_example" using kv_example_fields by (simp add: iswa_edit_pre_def iswa_example_def)
  then obtain m1 where "iswa_edit_apply (Add 1 0 (-1) 3) iswa_example = Inr m1" using iswa_edits.edit [OF iswa_example_inv(1)] by blast
  then have r: "run_pre iswa_edit_apply iswa_edit_pre [Add 1 0 (-1) 3] iswa_example" using p by simp
  obtain m' where m: "fold_r iswa_edit_apply [Add 1 0 (-1) 3] iswa_example = Inr m'" "view_covers (kv_view (iswa_base m')) (kv_view (iswa_swa m'))"
      "kv_view (iswa_swa m') = kv_edit_spec (stream_idx kv_example) (Add 1 0 (-1) 3) (kv_view kv_example)"
    using iswa_edits_keep_superset [OF iswa_example_inv(1) r _ iswa_example_inv(2)] by (auto simp: iswa_example_def)
  have "kv_view (iswa_swa m') ! 0 ! 5 = (10, {0, 1})"
    unfolding m(3) kv_edit_spec.simps on_stream_def kv_example_fields by (simp add: spec_add_def hits_def range_lo_def range_hi_def)
  then show ?thesis using m(1,2) by blast
qed

theorem iswa_seq_rm_all_or_nothing_witness:
  "\<exists>m'. iswa_seq_rm 0 0 (-1) iswa_example = Inr (True, m') \<and> kv_view (iswa_swa m') ! 0 ! 5 = (7, {1}) \<and> kv_view (iswa_base m') ! 0 ! 5 = (7, {1})"
proof -
  have k: "known_seq (iswa_base iswa_example) 0" "known_seq (iswa_swa iswa_example) 0" using kv_example_fields by (simp_all add: iswa_example_def)
  have c: "kv_can_seq_rm kv_example 0 0 (-1) = Inr True" by (simp add: kv_can_seq_rm_def)
  obtain ok m' where r: "iswa_seq_rm 0 0 (-1) iswa_example = Inr (ok, m')"
      "if ok then kv_view (iswa_base m') = kv_edit_spec (stream_idx kv_example) (Rm 0 0 (-1)) (kv_view kv_example) \<and>
         kv_view (iswa_swa m') = kv_edit_spec (stream_idx kv_example) (Rm 0 0 (-1)) (kv_view kv_example) \<and> iswa_inv m' else m' = iswa_example"
    using iswa_seq_rm_all_or_nothing [OF iswa_example_inv(1), of 0 0 "-1"] k by (auto simp: iswa_example_def)
  have ok: "ok" using r(1) c by (auto simp: iswa_seq_rm_def iswa_can_seq_rm_def iswa_example_def kv_seq_rm_def Let_def split: if_splits)
  have "kv_edit_spec (stream_idx kv_example) (Rm 0 0 (-1)) (kv_view kv_example) ! 0 ! 5 = (7, {1})"
    unfolding kv_edit_spec.simps on_stream_def kv_example_fields by (auto simp: spec_rm_def hits_def range_lo_def range_hi_def)
  then show ?thesis using r ok by auto
qed

theorem iswa_seq_rm_cell_out_of_window_witness: "iswa_seq_rm_cell 0 9 iswa_example \<noteq> Inr (True, iswa_example)"
proof -
  have "kv_wf (iswa_swa iswa_example)" using kv_example_inv by (simp add: iswa_example_def kv_inv_def)
  moreover have "known_seq (iswa_swa iswa_example) 0" using kv_example_fields by (simp add: iswa_example_def)
  moreover have "kv_cap (iswa_swa iswa_example) \<le> 9" by (simp add: iswa_example_def kv_cap_def kv_example_def cells_example_def)
  ultimately show ?thesis by (rule iswa_seq_rm_cell_out_of_window)
qed

end
