(* ===== verification/Recurrent.thy ===== *)
theory Recurrent
  imports KvContext
begin

text \<open>
  The memory of recurrent layers, \<^verbatim>\<open>llama_memory_recurrent\<close> and \<^verbatim>\<open>llama_memory_recurrent_context\<close> of
  \<^verbatim>\<open>src/llama-memory-recurrent.cpp\<close>: a cell holds the state of one or more whole sequences, \<open>tail\<close> of cell \<open>s\<close> is the cell of
  sequence \<open>s\<close>, \<open>src0\<close> is the row from which the graph copies the state of a cell, and \<open>rs_idx\<close> selects one of the snapshots
  kept for rolling back. Not modelled: the tensors, and the state files.
\<close>

section \<open>State\<close>

record mem_cell =
  mc_pos :: int
  mc_src :: int
  mc_src0 :: int
  mc_tail :: int
  mc_seq :: "int set"

record llama_memory_recurrent =
  rm_head :: nat
  rm_used :: nat
  rm_n_rs_seq :: nat
  rm_rs_idx :: "nat list"
  rm_n :: nat
  rm_rs_z :: int
  rm_cells :: "mem_cell list"

text \<open>The number of cells is set by the constructor and does not change.\<close>

definition rm_size :: "llama_memory_recurrent \<Rightarrow> nat" where
  "rm_size m = length (rm_cells m)"

definition empty_mem_cell :: mem_cell where
  "empty_mem_cell = \<lparr>mc_pos = -1, mc_src = -1, mc_src0 = -1, mc_tail = -1, mc_seq = {}\<rparr>"

definition recurrent_new :: "nat \<Rightarrow> nat \<Rightarrow> nat \<Rightarrow> llama_memory_recurrent" where
  "recurrent_new mem_size n_seq_max n_rs_seq = \<lparr>rm_head = 0, rm_used = 0, rm_n_rs_seq = n_rs_seq,
     rm_rs_idx = replicate n_seq_max 0, rm_n = 0, rm_rs_z = -1, rm_cells = replicate mem_size empty_mem_cell\<rparr>"

definition put_cell :: "nat \<Rightarrow> mem_cell \<Rightarrow> llama_memory_recurrent \<Rightarrow> llama_memory_recurrent" where
  "put_cell i c m = m\<lparr>rm_cells := (rm_cells m)[i := c]\<rparr>"

definition set_tail :: "int \<Rightarrow> int \<Rightarrow> llama_memory_recurrent \<Rightarrow> llama_memory_recurrent" where
  "set_tail s t m = put_cell (nat s) ((rm_cells m ! nat s)\<lparr>mc_tail := t\<rparr>) m"

text \<open>\<open>used\<close> is an unsigned 32-bit count.\<close>

definition dec_used :: "llama_memory_recurrent \<Rightarrow> llama_memory_recurrent" where
  "dec_used m = m\<lparr>rm_used := u32 (rm_used m + UINT32_MAX)\<rparr>"

definition read_cell :: "llama_memory_recurrent \<Rightarrow> int \<Rightarrow> mem_cell res" where
  "read_cell m i = (if i < 0 \<or> nat i \<ge> rm_size m then Inl Undefined else Inr (rm_cells m ! nat i))"

section \<open>Sequence operations\<close>

definition set_rs_idx :: "int \<Rightarrow> nat \<Rightarrow> llama_memory_recurrent \<Rightarrow> llama_memory_recurrent" where
  "set_rs_idx s idx m =
     (if s < 0 \<or> nat s \<ge> length (rm_rs_idx m) then m
      else m\<lparr>rm_rs_idx := (rm_rs_idx m)[nat s := (if idx > rm_n_rs_seq m then rm_n_rs_seq m else idx)]\<rparr>)"

definition recurrent_clear :: "llama_memory_recurrent \<Rightarrow> llama_memory_recurrent" where
  "recurrent_clear m = m\<lparr>rm_cells := map (\<lambda>c. c\<lparr>mc_pos := -1, mc_seq := {}, mc_src := -1, mc_tail := -1\<rparr>) (rm_cells m),
     rm_head := 0, rm_used := 0, rm_rs_idx := map (\<lambda>_. 0) (rm_rs_idx m)\<rparr>"

text \<open>A removal that ends behind the newest position and starts after the first is a rollback of the state.\<close>

definition is_rollback :: "int \<Rightarrow> int \<Rightarrow> int \<Rightarrow> bool" where
  "is_rollback p0 p1 pos \<longleftrightarrow> 0 < p0 \<and> p0 \<le> pos \<and> p1 > pos"

definition rollback_ok :: "nat \<Rightarrow> int \<Rightarrow> bool" where
  "rollback_ok n_rs_seq rollback \<longleftrightarrow> rollback \<ge> 1 \<and> rollback \<le> i32_of_u32 n_rs_seq"

definition recurrent_can_seq_rm :: "llama_memory_recurrent \<Rightarrow> int \<Rightarrow> int \<Rightarrow> int \<Rightarrow> bool res" where
  "recurrent_can_seq_rm m s p0 p1 =
     (let p0 = range_lo p0; p1 = range_hi p1
      in if s \<ge> int (rm_size m) then Inr False
         else if s < 0 then Inr (p0 = p1 \<or> (p0 = 0 \<and> p1 = int INT32_MAX))
         else let tail = mc_tail (rm_cells m ! nat s)
              in if tail < 0 then Inr True
                 else bind_r (read_cell m tail) (\<lambda>c.
                   Inr (if is_rollback p0 p1 (mc_pos c) then rollback_ok (rm_n_rs_seq m) (mc_pos c - (p0 - 1)) else True)))"

text \<open>The body of the loop over the cells: the second component is the first cell that was freed.\<close>

definition rm_seq_step :: "int \<Rightarrow> int \<Rightarrow> int \<Rightarrow> nat \<Rightarrow> llama_memory_recurrent \<times> nat \<Rightarrow> llama_memory_recurrent \<times> nat" where
  "rm_seq_step s p0 p1 i st =
     (let (m, new_head) = st; c = rm_cells m ! i
      in if \<not> (mc_pos c \<ge> p0 \<and> mc_pos c < p1) then st
         else if s \<ge> 0 \<and> s \<notin> mc_seq c then st
         else let q = (if s < 0 then {} else mc_seq c - {s})
              in if q \<noteq> {} then (put_cell i (c\<lparr>mc_seq := q\<rparr>) m, new_head)
                 else (put_cell i (c\<lparr>mc_seq := q, mc_pos := -1, mc_src := -1\<rparr>) (if mc_pos c \<ge> 0 then dec_used m else m),
                       if new_head = rm_size m then i else new_head))"

definition rewind_head :: "nat \<Rightarrow> llama_memory_recurrent \<Rightarrow> llama_memory_recurrent" where
  "rewind_head new_head m = (if new_head \<noteq> rm_size m \<and> new_head < rm_head m then m\<lparr>rm_head := new_head\<rparr> else m)"

definition rm_cells_loop :: "int \<Rightarrow> int \<Rightarrow> int \<Rightarrow> llama_memory_recurrent \<Rightarrow> llama_memory_recurrent" where
  "rm_cells_loop s p0 p1 m =
     (let (m, new_head) = fold (rm_seq_step s p0 p1) [0..<rm_size m] (m, rm_size m) in rewind_head new_head m)"

definition recurrent_seq_rm :: "int \<Rightarrow> int \<Rightarrow> int \<Rightarrow> llama_memory_recurrent \<Rightarrow> (bool \<times> llama_memory_recurrent) res" where
  "recurrent_seq_rm s p0 p1 m =
     bind_r (recurrent_can_seq_rm m s p0 p1) (\<lambda>ok.
       if \<not> ok then Inr (False, m)
       else
         let p0 = range_lo p0; p1 = range_hi p1;
             m = (if p0 = 0 \<and> p1 = int INT32_MAX
                  then if s \<ge> 0 then set_rs_idx s 0 m else m\<lparr>rm_rs_idx := map (\<lambda>_. 0) (rm_rs_idx m)\<rparr>
                  else m)
         in if s \<ge> int (rm_size m) then Inr (False, m)
            else if s < 0
            then if p0 \<noteq> p1 \<and> (p0 \<noteq> 0 \<or> p1 \<noteq> int INT32_MAX) then Inr (False, m) else Inr (True, rm_cells_loop s p0 p1 m)
            else let tail = mc_tail (rm_cells m ! nat s)
                 in if tail < 0 then Inr (True, rm_cells_loop s p0 p1 m)
                    else bind_r (read_cell m tail) (\<lambda>c.
                      if is_rollback p0 p1 (mc_pos c)
                      then let rollback = mc_pos c - (p0 - 1)
                           in if rollback_ok (rm_n_rs_seq m) rollback
                              then Inr (True, put_cell (nat tail) (c\<lparr>mc_pos := p0 - 1\<rparr>) (set_rs_idx s (nat rollback) m))
                              else Inr (False, m)
                      else Inr (True, rm_cells_loop s p0 p1
                             (if p0 \<le> mc_pos c \<and> mc_pos c < p1 then set_tail s (-1) m else m))))"

definition recurrent_seq_rm_cell :: "int \<Rightarrow> nat \<Rightarrow> llama_memory_recurrent \<Rightarrow> bool \<times> llama_memory_recurrent" where
  "recurrent_seq_rm_cell s i m =
     (if s < 0 \<or> i \<ge> rm_size m then (False, m)
      else let c = rm_cells m ! i
           in if s \<notin> mc_seq c then (False, m)
              else let q = mc_seq c - {s};
                       m = (if q \<noteq> {} then put_cell i (c\<lparr>mc_seq := q\<rparr>) m
                            else let m = put_cell i (c\<lparr>mc_seq := q, mc_pos := -1, mc_src := -1\<rparr>)
                                           (if mc_pos c \<ge> 0 then dec_used m else m)
                                 in if i < rm_head m then m\<lparr>rm_head := i\<rparr> else m)
                   in (True, if nat s < rm_size m \<and> mc_tail (rm_cells m ! nat s) = int i then set_tail s (-1) m else m))"

definition recurrent_cells_at_pos :: "llama_memory_recurrent \<Rightarrow> int \<Rightarrow> int \<Rightarrow> nat \<Rightarrow> nat \<times> nat list" where
  "recurrent_cells_at_pos m s pos n_max =
     (let is = filter (\<lambda>i. mc_pos (rm_cells m ! i) = pos \<and> s \<in> mc_seq (rm_cells m ! i)) [0..<rm_size m]
      in (length is, take n_max is))"

text \<open>The cell loses the sequence; a cell without a sequence is freed.\<close>

definition drop_seq :: "int \<Rightarrow> nat \<Rightarrow> llama_memory_recurrent \<Rightarrow> llama_memory_recurrent" where
  "drop_seq s i m =
     (let c = rm_cells m ! i; q = mc_seq c - {s}
      in if q = {} then dec_used (put_cell i (c\<lparr>mc_seq := q, mc_pos := -1, mc_src := -1\<rparr>) m)
         else put_cell i (c\<lparr>mc_seq := q\<rparr>) m)"

text \<open>The range is not looked at: a state is copied as a whole.\<close>

definition recurrent_seq_cp :: "int \<Rightarrow> int \<Rightarrow> llama_memory_recurrent \<Rightarrow> llama_memory_recurrent res" where
  "recurrent_seq_cp src dst m =
     (if src = dst then Inr m
      else if \<not> (0 \<le> dst \<and> dst < int (rm_size m) \<and> 0 \<le> src \<and> src < int (rm_size m)) then Inr m
      else let td = mc_tail (rm_cells m ! nat dst)
           in bind_r (if td \<ge> 0 then bind_r (read_cell m td) (\<lambda>_. Inr (set_tail dst (-1) (drop_seq dst (nat td) m))) else Inr m) (\<lambda>m.
                let ts = mc_tail (rm_cells m ! nat src)
                in if ts \<ge> 0
                   then bind_r (read_cell m ts) (\<lambda>c. Inr (set_tail dst ts (put_cell (nat ts) (c\<lparr>mc_seq := insert dst (mc_seq c)\<rparr>) m)))
                   else Inr m))"

definition keep_step :: "int \<Rightarrow> nat \<Rightarrow> llama_memory_recurrent \<times> nat \<Rightarrow> llama_memory_recurrent \<times> nat" where
  "keep_step s i st =
     (let (m, new_head) = st;
          c = (rm_cells m ! i)\<lparr>mc_tail := (if int i \<noteq> s then -1 else mc_tail (rm_cells m ! i))\<rparr>
      in if s \<notin> mc_seq c
         then (put_cell i (c\<lparr>mc_pos := -1, mc_src := -1, mc_seq := {}\<rparr>) (if mc_pos c \<ge> 0 then dec_used m else m),
               if new_head = rm_size m then i else new_head)
         else (put_cell i (c\<lparr>mc_seq := {s}\<rparr>) m, new_head))"

definition recurrent_seq_keep :: "int \<Rightarrow> llama_memory_recurrent \<Rightarrow> llama_memory_recurrent" where
  "recurrent_seq_keep s m =
     (let (m, new_head) = fold (keep_step s) [0..<rm_size m] (m, rm_size m) in rewind_head new_head m)"

text \<open>The position of the cell of a sequence is replaced when the cell is in the range.\<close>

definition move_pos :: "(int \<Rightarrow> int res) \<Rightarrow> int \<Rightarrow> int \<Rightarrow> int \<Rightarrow> llama_memory_recurrent \<Rightarrow> llama_memory_recurrent res" where
  "move_pos f s p0 p1 m =
     (let p0 = range_lo p0; p1 = range_hi p1
      in if p0 = p1 \<or> \<not> (0 \<le> s \<and> s < int (rm_size m)) then Inr m
         else let tail = mc_tail (rm_cells m ! nat s)
              in if tail < 0 then Inr m
                 else bind_r (read_cell m tail) (\<lambda>c.
                   if s \<in> mc_seq c \<and> p0 \<le> mc_pos c \<and> mc_pos c < p1
                   then bind_r (f (mc_pos c)) (\<lambda>p. Inr (put_cell (nat tail) (c\<lparr>mc_pos := p\<rparr>) m))
                   else Inr m))"

definition i32_res :: "int \<Rightarrow> int res" where
  "i32_res x = (if x < - int INT32_MAX - 1 \<or> x > int INT32_MAX then Inl Undefined else Inr x)"

definition recurrent_seq_add :: "int \<Rightarrow> int \<Rightarrow> int \<Rightarrow> int \<Rightarrow> llama_memory_recurrent \<Rightarrow> llama_memory_recurrent res" where
  "recurrent_seq_add s p0 p1 shift m = (if shift = 0 then Inr m else move_pos (\<lambda>p. i32_res (p + shift)) s p0 p1 m)"

definition recurrent_seq_div :: "int \<Rightarrow> int \<Rightarrow> int \<Rightarrow> int \<Rightarrow> llama_memory_recurrent \<Rightarrow> llama_memory_recurrent res" where
  "recurrent_seq_div s p0 p1 d m =
     (if d = 1 then Inr m else move_pos (\<lambda>p. if d = 0 then Inl Undefined else i32_res (p sdiv d)) s p0 p1 m)"

definition recurrent_seq_pos_min :: "llama_memory_recurrent \<Rightarrow> int \<Rightarrow> int" where
  "recurrent_seq_pos_min m s =
     (let r = fold (\<lambda>c r. if s \<in> mc_seq c then min r (mc_pos c) else r) (rm_cells m) (int INT32_MAX)
      in if r = int INT32_MAX then -1 else r)"

definition recurrent_seq_pos_max :: "llama_memory_recurrent \<Rightarrow> int \<Rightarrow> int" where
  "recurrent_seq_pos_max m s = fold (\<lambda>c r. if s \<in> mc_seq c then max r (mc_pos c) else r) (rm_cells m) (-1)"

section \<open>Placing a micro-batch\<close>

text \<open>The first token of the \<open>s\<close>-th set of sequences, its sequences, and the first of them.\<close>

definition set_token :: "llama_ubatch \<Rightarrow> nat \<Rightarrow> nat" where
  "set_token ub s = s * ub_n_seq_tokens ub"

definition set_seqs :: "llama_ubatch \<Rightarrow> nat \<Rightarrow> int list" where
  "set_seqs ub s = take (nat (ub_n_seq_id ub ! set_token ub s)) (ub_seq_id ub ! set_token ub s)"

definition set_first :: "llama_ubatch \<Rightarrow> nat \<Rightarrow> int" where
  "set_first ub s = ub_seq_id ub ! set_token ub s ! 0"

definition set_readable :: "llama_ubatch \<Rightarrow> nat \<Rightarrow> bool" where
  "set_readable ub s \<longleftrightarrow> set_token ub s < length (ub_n_seq_id ub) \<and> set_token ub s < length (ub_seq_id ub) \<and>
     0 \<le> ub_n_seq_id ub ! set_token ub s \<and> nat (ub_n_seq_id ub ! set_token ub s) \<le> length (ub_seq_id ub ! set_token ub s)"

text \<open>Every sequence must have a cell of its number; the sequences after the first of a set lose their own cells. The
  flag becomes false at the first sequence that is too large.\<close>

definition share_step :: "nat \<times> int \<Rightarrow> bool \<times> llama_memory_recurrent \<Rightarrow> (bool \<times> llama_memory_recurrent) res" where
  "share_step js st =
     (let (ok, m) = st; (j, s) = js
      in if \<not> ok then Inr (False, m)
         else if s < 0 \<or> nat s \<ge> rm_size m then Inr (False, m)
         else if j = 0 \<or> mc_tail (rm_cells m ! nat s) < 0 then Inr (True, m)
         else let tail = mc_tail (rm_cells m ! nat s)
              in bind_r (read_cell m tail) (\<lambda>_. Inr (True, set_tail s (-1) (drop_seq s (nat tail) m))))"

definition share_sets :: "llama_ubatch \<Rightarrow> llama_memory_recurrent \<Rightarrow> (bool \<times> llama_memory_recurrent) res" where
  "share_sets ub m =
     (if list_all (set_readable ub) [0..<ub_n_seqs ub]
      then fold_r share_step (concat (map (\<lambda>s. enumerate 0 (set_seqs ub s)) [0..<ub_n_seqs ub])) (True, m)
      else Inl Undefined)"

text \<open>The search for an empty cell looks at every cell once, from a given one on and around the end. The first
  argument counts the cells that are left.\<close>

definition wrap_cell :: "mem_cell list \<Rightarrow> nat \<Rightarrow> nat" where
  "wrap_cell cs e = (if e \<ge> length cs then e - length cs else e)"

fun first_empty :: "nat \<Rightarrow> mem_cell list \<Rightarrow> nat \<Rightarrow> nat res" where
  "first_empty 0 cs e = Inr e"
| "first_empty (Suc k) cs e =
     (let e = wrap_cell cs e
      in if e \<ge> length cs then Inl Undefined else if mc_seq (cs ! e) = {} then Inr e else first_empty k cs (e + 1))"

fun empty_after :: "nat \<Rightarrow> mem_cell list \<Rightarrow> nat \<Rightarrow> nat res" where
  "empty_after 0 cs e = Inr e"
| "empty_after (Suc k) cs e =
     (let e = wrap_cell cs (e + 1)
      in if e \<ge> length cs then Inl Undefined else if mc_seq (cs ! e) = {} then Inr e else empty_after k cs e)"

text \<open>A sequence keeps a cell that it has for itself; otherwise it gets the next empty one, with the position and the
  source of the shared cell it leaves.\<close>

definition take_cell :: "nat \<Rightarrow> nat \<Rightarrow> int \<Rightarrow> nat \<times> llama_memory_recurrent \<Rightarrow> (nat \<times> llama_memory_recurrent) res" where
  "take_cell n_seqs k s st =
     (let (e, m) = st; tail = mc_tail (rm_cells m ! nat s)
      in bind_r (if tail < 0 then Inr False
                 else bind_r (read_cell m tail) (\<lambda>c. assert_r (s \<in> mc_seq c) (Inr (card (mc_seq c) = 1)))) (\<lambda>has_cell.
         if has_cell then Inr (e, m)
         else if e \<ge> rm_size m then Inl Undefined
         else assert_r (mc_seq (rm_cells m ! e) = {})
           (bind_r (if tail < 0 then Inr m
                    else let orig = rm_cells m ! nat tail; c = rm_cells m ! e;
                             m = put_cell (nat tail) (orig\<lparr>mc_seq := mc_seq orig - {s}\<rparr>)
                                   (put_cell e (c\<lparr>mc_pos := mc_pos orig, mc_src := mc_src orig, mc_seq := {s}\<rparr>) m)
                         in assert_r (mc_seq orig - {s} \<noteq> {}) (Inr m)) (\<lambda>m.
              let m = set_tail s (int e) m
              in bind_r (if k + 1 < n_seqs then empty_after (rm_size m) (rm_cells m) e else Inr e) (\<lambda>e. Inr (e, m))))))"

definition take_step :: "llama_ubatch \<Rightarrow> nat \<Rightarrow> nat \<times> int \<times> int \<times> llama_memory_recurrent \<Rightarrow> (nat \<times> int \<times> int \<times> llama_memory_recurrent) res" where
  "take_step ub k st =
     (let (e, mn, mx, m) = st; s = set_first ub k
      in if ub_seq_id ub ! set_token ub k = [] \<or> s < 0 \<or> nat s \<ge> rm_size m then Inl Undefined
         else bind_r (take_cell (ub_n_seqs ub) k s (e, m)) (\<lambda>(e, m).
           let tail = mc_tail (rm_cells m ! nat s)
           in Inr (e, if mn > tail then tail else mn, if mx < tail then tail else mx, m)))"

text \<open>The cells of the sets are moved to consecutive places by swaps.\<close>

definition swap_tail :: "int \<Rightarrow> int \<Rightarrow> mem_cell \<Rightarrow> mem_cell" where
  "swap_tail src dst c = c\<lparr>mc_tail := (if mc_tail c = src then dst else if mc_tail c = dst then src else mc_tail c)\<rparr>"

definition gather_step :: "llama_ubatch \<Rightarrow> int \<Rightarrow> nat \<Rightarrow> llama_memory_recurrent \<Rightarrow> llama_memory_recurrent res" where
  "gather_step ub mn k m =
     (let dst = int k + mn; src = mc_tail (rm_cells m ! nat (set_first ub k))
      in if dst = src then Inr m
         else bind_r (read_cell m dst) (\<lambda>d. bind_r (read_cell m src) (\<lambda>c.
           let m = put_cell (nat src) (c\<lparr>mc_pos := mc_pos d, mc_src := mc_src d, mc_seq := mc_seq d\<rparr>)
                     (put_cell (nat dst) (d\<lparr>mc_pos := mc_pos c, mc_src := mc_src c, mc_seq := mc_seq c\<rparr>) m)
           in Inr (m\<lparr>rm_cells := map (swap_tail src dst) (rm_cells m)\<rparr>))))"

definition place_step :: "llama_ubatch \<Rightarrow> int \<Rightarrow> nat \<Rightarrow> llama_memory_recurrent \<Rightarrow> llama_memory_recurrent res" where
  "place_step ub mn k m =
     (let i = set_token ub k; cell_id = int k + mn; last = i + ub_n_seq_tokens ub - 1
      in if ub_n_seq_tokens ub = 0 \<or> last \<ge> length (ub_pos ub) then Inl Undefined
         else bind_r (read_cell m cell_id) (\<lambda>c.
           fold_r (\<lambda>s m. if s < 0 \<or> nat s \<ge> rm_size m then Inl Undefined else Inr (set_tail s cell_id m)) (set_seqs ub k)
             (put_cell (nat cell_id) (c\<lparr>mc_pos := ub_pos ub ! last, mc_seq := set (set_seqs ub k)\<rparr>) m)))"

text \<open>The sources the graph copies from: \<open>rs_z\<close> is the first cell of the range that nothing is copied from; it is
  zeroed and is the source of the cells that have none.\<close>

definition refcount :: "mem_cell list \<Rightarrow> nat \<Rightarrow> nat" where
  "refcount cs i = count_if (\<lambda>c. mc_src c = int i) cs"

definition find_rs_z :: "mem_cell list \<Rightarrow> nat list \<Rightarrow> int" where
  "find_rs_z cs is = (case find (\<lambda>i. refcount cs i = 0) is of None \<Rightarrow> -1 | Some i \<Rightarrow> int i)"

definition source_step :: "nat \<Rightarrow> llama_memory_recurrent \<Rightarrow> llama_memory_recurrent res" where
  "source_step i m =
     (let c = rm_cells m ! i
      in bind_r (if mc_src c < 0 then assert_r (rm_rs_z m \<ge> 0) (Inr (rm_rs_z m)) else Inr (mc_src c)) (\<lambda>src0.
           Inr (put_cell i (c\<lparr>mc_src0 := src0, mc_src := int i\<rparr>) m)))"

definition stage_sources :: "int \<Rightarrow> int \<Rightarrow> llama_memory_recurrent \<Rightarrow> llama_memory_recurrent res" where
  "stage_sources mn mx m =
     (let cs = rm_cells m; is = map nat [mn..mx]
      in if list_ex (\<lambda>c. mc_src c \<ge> int (length cs)) cs \<or> mn < 0 \<or> mx \<ge> int (length cs) then Inl Undefined
         else fold_r source_step is (m\<lparr>rm_rs_z := find_rs_z cs is\<rparr>))"

definition recurrent_find_slot :: "llama_ubatch \<Rightarrow> llama_memory_recurrent \<Rightarrow> (bool \<times> llama_memory_recurrent) res" where
  "recurrent_find_slot ub m =
     (let m = (if rm_head m > u32 (rm_used m + 2 * ub_n_seqs ub) then m\<lparr>rm_head := 0\<rparr> else m)
      in assert_r (ub_equal_seqs ub)
        (bind_r (share_sets ub m) (\<lambda>(ok, m).
           if \<not> ok then Inr (False, m)
           else bind_r (first_empty (rm_size m) (rm_cells m) (rm_head m)) (\<lambda>e.
             bind_r (fold_r (take_step ub) [0..<ub_n_seqs ub] (e, int (rm_size m) - 1, 0, m)) (\<lambda>(e, mn, mx, m).
             bind_r (fold_r (gather_step ub mn) [0..<ub_n_seqs ub] m) (\<lambda>m.
             bind_r (fold_r (place_step ub mn) [0..<ub_n_seqs ub] m) (\<lambda>m.
             bind_r (stage_sources mn mx m) (\<lambda>m.
               let n = nat ((mx - mn + 1) mod 2 ^ 32)
               in Inr (n \<ge> ub_n_seqs ub,
                       m\<lparr>rm_head := nat mn, rm_n := n, rm_used := count_if (\<lambda>c. mc_seq c \<noteq> {}) (rm_cells m)\<rparr>)))))))))"

section \<open>Rehearsal and contexts\<close>

fun prepare_slots :: "llama_ubatch list \<Rightarrow> llama_memory_recurrent \<Rightarrow> (bool \<times> llama_memory_recurrent) res" where
  "prepare_slots [] m = Inr (True, m)"
| "prepare_slots (ub # ubs) m = bind_r (recurrent_find_slot ub m) (\<lambda>(ok, m). if ok then prepare_slots ubs m else Inr (False, m))"

definition recurrent_prepare :: "llama_ubatch list \<Rightarrow> llama_memory_recurrent \<Rightarrow> (bool \<times> llama_memory_recurrent) res" where
  "recurrent_prepare ubs m = bind_r (prepare_slots ubs m) (\<lambda>(ok, m').
     Inr (ok, m'\<lparr>rm_cells := rm_cells m, rm_used := rm_used m, rm_head := rm_head m\<rparr>))"

record llama_memory_recurrent_context =
  rx_status :: llama_memory_status
  rx_i_next :: nat
  rx_ubatches :: "llama_ubatch list"
  rx_is_full :: bool

definition recurrent_context_status :: "llama_memory_status \<Rightarrow> llama_memory_recurrent_context" where
  "recurrent_context_status st = \<lparr>rx_status = st, rx_i_next = 0, rx_ubatches = [], rx_is_full = False\<rparr>"

definition recurrent_init_full :: llama_memory_recurrent_context where
  "recurrent_init_full = (recurrent_context_status LLAMA_MEMORY_STATUS_SUCCESS)\<lparr>rx_is_full := True\<rparr>"

definition recurrent_init_update :: llama_memory_recurrent_context where
  "recurrent_init_update = recurrent_context_status LLAMA_MEMORY_STATUS_NO_UPDATE"

text \<open>The rollback snapshots of a sequence must come from one micro-batch, hence the tail that is kept together. \<open>None\<close> is
  a cut that has not ended within the first argument.\<close>

definition recurrent_split :: "bool \<Rightarrow> nat \<Rightarrow> nat \<Rightarrow> llama_batch_allocr \<Rightarrow> (llama_ubatch \<times> llama_batch_allocr) res" where
  "recurrent_split embd_all n_ubatch n_rs_seq =
     (if embd_all then split_seq n_ubatch else split_equal n_ubatch True (if n_rs_seq > 0 then u32 (n_rs_seq + 1) else 0))"

definition recurrent_init_batch ::
    "nat \<Rightarrow> bool \<Rightarrow> nat \<Rightarrow> llama_batch_allocr \<Rightarrow> llama_memory_recurrent \<Rightarrow>
     (llama_memory_recurrent_context \<times> llama_batch_allocr \<times> llama_memory_recurrent) option res" where
  "recurrent_init_batch fuel embd_all n_ubatch a m =
     bind_r (split_all fuel (recurrent_split embd_all n_ubatch (rm_n_rs_seq m)) (split_reset a)) (\<lambda>r.
       case r of None \<Rightarrow> Inr None
       | Some (us, a) \<Rightarrow>
           if get_n_used a < get_n_tokens a
           then Inr (Some (recurrent_context_status LLAMA_MEMORY_STATUS_FAILED_PREPARE, a, m))
           else bind_r (recurrent_prepare us m) (\<lambda>(ok, m).
             Inr (Some (if ok then (recurrent_context_status LLAMA_MEMORY_STATUS_SUCCESS)\<lparr>rx_ubatches := us\<rparr>
                        else recurrent_context_status LLAMA_MEMORY_STATUS_FAILED_PREPARE, a, m))))"

definition recurrent_context_next :: "llama_memory_recurrent_context \<Rightarrow> (bool \<times> llama_memory_recurrent_context) res" where
  "recurrent_context_next ctx =
     assert_r (rx_status ctx = LLAMA_MEMORY_STATUS_SUCCESS)
       (let i = rx_i_next ctx + 1 in Inr (\<not> i \<ge> length (rx_ubatches ctx), ctx\<lparr>rx_i_next := i\<rparr>))"

text \<open>The result of \<open>find_slot\<close> is not looked at.\<close>

definition recurrent_context_apply ::
    "llama_memory_recurrent_context \<Rightarrow> llama_memory_recurrent \<Rightarrow> (bool \<times> llama_memory_recurrent) res" where
  "recurrent_context_apply ctx m =
     assert_r (\<not> llama_memory_status_is_fail (rx_status ctx))
       (if rx_ubatches ctx = [] then assert_r (rx_status ctx = LLAMA_MEMORY_STATUS_NO_UPDATE) (Inr (True, m))
        else if rx_i_next ctx \<ge> length (rx_ubatches ctx) then Inl Undefined
        else bind_r (recurrent_find_slot (rx_ubatches ctx ! rx_i_next ctx) m) (\<lambda>(_, m). Inr (True, m)))"

definition recurrent_get_n_rs :: "llama_memory_recurrent_context \<Rightarrow> llama_memory_recurrent \<Rightarrow> nat" where
  "recurrent_get_n_rs ctx m = (if rx_is_full ctx then rm_size m else rm_n m)"

definition recurrent_get_head :: "llama_memory_recurrent_context \<Rightarrow> llama_memory_recurrent \<Rightarrow> nat" where
  "recurrent_get_head ctx m = (if rx_is_full ctx then 0 else rm_head m)"

definition recurrent_get_rs_z :: "llama_memory_recurrent_context \<Rightarrow> llama_memory_recurrent \<Rightarrow> int" where
  "recurrent_get_rs_z ctx m = (if rx_is_full ctx then 0 else rm_rs_z m)"

text \<open>The row from which the state of the \<open>i\<close>-th cell of the slot is copied. Reading it uses up the rollback of the
  first sequence of the cell.\<close>

definition s_copy :: "nat \<Rightarrow> llama_memory_recurrent \<Rightarrow> (int \<times> llama_memory_recurrent) res" where
  "s_copy i m =
     (let k = i + rm_head m
      in if k \<ge> rm_size m then Inl Undefined
         else let c = rm_cells m ! k
              in if rm_n_rs_seq m = 0 then Inr (mc_src0 c, m)
                 else if mc_seq c = {} then Inr (mc_src0 c, m)
                 else let s = Min (mc_seq c)
                      in if s \<ge> 0 \<and> nat s < length (rm_rs_idx m)
                         then Inr (i32_of_u32 (u32 (rm_rs_idx m ! nat s * rm_size m)) + mc_src0 c, m\<lparr>rm_rs_idx := (rm_rs_idx m)[nat s := 0]\<rparr>)
                         else Inr (mc_src0 c, m))"

end
