(* ===== verification/RecurrentInv.thy ===== *)
theory RecurrentInv
  imports Recurrent Iswa
begin

text \<open>
  The invariant of the recurrent memory and its sequence operations. Each cell knows its sequences and each sequence
  its cell; the abstract state gives for every sequence the position and the sharers of its state, and
  every edit is a function on it.
\<close>

section \<open>Invariant and abstract state\<close>

definition tail_of :: "mem_cell list \<Rightarrow> int \<Rightarrow> int" where
  "tail_of cs s = mc_tail (cs ! nat s)"

definition own_seq :: "mem_cell list \<Rightarrow> int \<Rightarrow> bool" where
  "own_seq cs s \<longleftrightarrow> 0 \<le> s \<and> s < int (length cs)"

definition linked :: "mem_cell list \<Rightarrow> bool" where
  "linked cs \<longleftrightarrow> (\<forall>s. own_seq cs s \<longrightarrow> -1 \<le> tail_of cs s \<and> tail_of cs s < int (length cs)) \<and>
     (\<forall>i < length cs. mc_seq (cs ! i) = {s. own_seq cs s \<and> tail_of cs s = int i})"

definition cell_ok :: "nat \<Rightarrow> mem_cell \<Rightarrow> bool" where
  "cell_ok i c \<longleftrightarrow> (if mc_seq c = {} then mc_pos c = -1 \<and> (mc_src c = -1 \<or> mc_src c = int i)
     else 0 \<le> mc_pos c \<and> mc_pos c < int INT32_MAX \<and> mc_src c = int i)"

definition in_use :: "mem_cell list \<Rightarrow> nat" where
  "in_use cs = count_if (\<lambda>c. mc_seq c \<noteq> {}) cs"

definition rec_inv :: "llama_memory_recurrent \<Rightarrow> bool" where
  "rec_inv m \<longleftrightarrow> linked (rm_cells m) \<and> (\<forall>i < rm_size m. cell_ok i (rm_cells m ! i)) \<and> rm_used m = in_use (rm_cells m) \<and>
     rm_size m \<le> INT32_MAX \<and> (rm_size m = 0 \<or> rm_head m < rm_size m)"

definition rec_abs :: "llama_memory_recurrent \<Rightarrow> int \<Rightarrow> (int \<times> int set) option" where
  "rec_abs m s = (if own_seq (rm_cells m) s \<and> tail_of (rm_cells m) s \<ge> 0
     then let c = rm_cells m ! nat (tail_of (rm_cells m) s) in Some (mc_pos c, mc_seq c) else None)"

lemma rec_invD:
  assumes "rec_inv m"
  shows "linked (rm_cells m)" "i < rm_size m \<Longrightarrow> cell_ok i (rm_cells m ! i)" "rm_used m = in_use (rm_cells m)"
    "rm_size m \<le> INT32_MAX" "rm_size m = 0 \<or> rm_head m < rm_size m"
  using assms by (simp_all add: rec_inv_def)

lemma linkedD:
  assumes "linked cs" and "own_seq cs s"
  shows "-1 \<le> tail_of cs s" "tail_of cs s < int (length cs)" "i < length cs \<Longrightarrow> s \<in> mc_seq (cs ! i) \<longleftrightarrow> tail_of cs s = int i"
    "tail_of cs s \<ge> 0 \<Longrightarrow> nat (tail_of cs s) < length cs \<and> s \<in> mc_seq (cs ! nat (tail_of cs s))"
  using assms by (auto simp: linked_def)

lemma linked_seq: "linked cs \<Longrightarrow> i < length cs \<Longrightarrow> s \<in> mc_seq (cs ! i) \<Longrightarrow> own_seq cs s \<and> tail_of cs s = int i"
  by (auto simp: linked_def)

lemma tail_of_update: "own_seq cs s \<Longrightarrow> i < length cs \<Longrightarrow> tail_of (cs[i := c]) s = (if s = int i then mc_tail c else tail_of cs s)"
  by (auto simp: tail_of_def own_seq_def nth_list_update)

lemma own_seq_update [simp]: "own_seq (cs[i := c]) s = own_seq cs s"
  by (simp add: own_seq_def)

lemma put_cell_simps [simp]:
  "rm_cells (put_cell i c m) = (rm_cells m)[i := c]" "rm_size (put_cell i c m) = rm_size m" "rm_used (put_cell i c m) = rm_used m"
  "rm_head (put_cell i c m) = rm_head m" "rm_rs_idx (put_cell i c m) = rm_rs_idx m" "rm_n_rs_seq (put_cell i c m) = rm_n_rs_seq m"
  by (simp_all add: put_cell_def rm_size_def)

lemma set_tail_simps [simp]:
  "rm_size (set_tail s t m) = rm_size m" "rm_used (set_tail s t m) = rm_used m" "rm_head (set_tail s t m) = rm_head m"
  "rm_rs_idx (set_tail s t m) = rm_rs_idx m" "rm_n_rs_seq (set_tail s t m) = rm_n_rs_seq m"
  by (simp_all add: set_tail_def)

lemma dec_used_simps [simp]:
  "rm_cells (dec_used m) = rm_cells m" "rm_size (dec_used m) = rm_size m" "rm_head (dec_used m) = rm_head m"
  "rm_rs_idx (dec_used m) = rm_rs_idx m" "rm_n_rs_seq (dec_used m) = rm_n_rs_seq m"
  by (simp_all add: dec_used_def rm_size_def)

lemma set_tail_cells: "rm_cells (set_tail s t m) = (rm_cells m)[nat s := (rm_cells m ! nat s)\<lparr>mc_tail := t\<rparr>]"
  by (simp add: set_tail_def)

lemma dec_used_pos: "0 < rm_used m \<Longrightarrow> rm_used m \<le> UINT32_MAX \<Longrightarrow> rm_used (dec_used m) = rm_used m - 1"
proof -
  assume a: "0 < rm_used m" "rm_used m \<le> UINT32_MAX"
  then obtain k where k: "rm_used m = Suc k" by (cases "rm_used m") auto
  have "(Suc k + UINT32_MAX) mod 2 ^ 32 = (k + 2 ^ 32) mod 2 ^ 32" by simp
  also have "\<dots> = k" using a k by simp
  finally show ?thesis using k by (simp add: dec_used_def u32_def)
qed

lemma in_use_le: "in_use cs \<le> length cs"
  by (simp add: in_use_def count_if_def)

text \<open>A tail pointer is not part of what the counts and the cells' own conditions look at.\<close>

lemma set_tail_cell:
  assumes "i < rm_size m"
  shows "mc_seq (rm_cells (set_tail s t m) ! i) = mc_seq (rm_cells m ! i)" "mc_pos (rm_cells (set_tail s t m) ! i) = mc_pos (rm_cells m ! i)"
    "mc_src (rm_cells (set_tail s t m) ! i) = mc_src (rm_cells m ! i)" "mc_src0 (rm_cells (set_tail s t m) ! i) = mc_src0 (rm_cells m ! i)"
  using assms by (cases "nat s = i"; simp add: set_tail_cells rm_size_def)+

lemma set_tail_of:
  assumes "own_seq (rm_cells m) u" and "own_seq (rm_cells m) s"
  shows "tail_of (rm_cells (set_tail s t m)) u = (if u = s then t else tail_of (rm_cells m) u)"
  using assms by (auto simp: set_tail_cells tail_of_def own_seq_def nth_list_update)

lemma own_seq_set_tail [simp]: "own_seq (rm_cells (set_tail s t m)) u = own_seq (rm_cells m) u"
  by (simp add: set_tail_cells)

lemma in_use_set_tail: "own_seq (rm_cells m) s \<Longrightarrow> in_use (rm_cells (set_tail s t m)) = in_use (rm_cells m)"
  using count_if_update [of "nat s" "rm_cells m" "\<lambda>c. mc_seq c \<noteq> {}" "(rm_cells m ! nat s)\<lparr>mc_tail := t\<rparr>"]
  by (auto simp: in_use_def set_tail_cells own_seq_def split: if_splits)

lemma rec_abs_None: "rec_abs m u = None \<longleftrightarrow> \<not> (own_seq (rm_cells m) u \<and> 0 \<le> tail_of (rm_cells m) u)"
  by (simp add: rec_abs_def Let_def)

section \<open>Leaving and joining a cell\<close>

definition unlink :: "int \<Rightarrow> (int \<Rightarrow> (int \<times> int set) option) \<Rightarrow> int \<Rightarrow> (int \<times> int set) option" where
  "unlink s a t = (if t = s then None else map_option (\<lambda>(p, q). (p, q - {s})) (a t))"

lemma drop_seq_used:
  assumes "rec_inv m" and "i < rm_size m" and "s \<in> mc_seq (rm_cells m ! i)"
  shows "rm_used (drop_seq s i m) = in_use (rm_cells (drop_seq s i m))"
proof -
  note d = rec_invD [OF assms(1)]
  have ne: "mc_seq (rm_cells m ! i) \<noteq> {}" using assms(3) by auto
  have c: "in_use ((rm_cells m)[i := v]) + 1 = in_use (rm_cells m) + (if mc_seq v \<noteq> {} then 1 else 0)" for v
    using count_if_update [of i "rm_cells m" "\<lambda>c. mc_seq c \<noteq> {}" v] assms(2) ne by (simp add: in_use_def rm_size_def)
  have u: "0 < rm_used m" "rm_used m \<le> UINT32_MAX"
    using c [of empty_mem_cell] d(3,4) in_use_le [of "rm_cells m"] by (simp_all add: empty_mem_cell_def rm_size_def)
  show ?thesis
  proof (cases "mc_seq (rm_cells m ! i) - {s} = {}")
    case True
    define v where "v = (rm_cells m ! i)\<lparr>mc_seq := mc_seq (rm_cells m ! i) - {s}, mc_pos := -1, mc_src := -1\<rparr>"
    have "mc_seq v = {}" using True by (simp add: v_def)
    then have "in_use ((rm_cells m)[i := v]) + 1 = in_use (rm_cells m)" using c [of v] by simp
    moreover have "rm_used (dec_used (put_cell i v m)) = rm_used m - 1" using dec_used_pos [of "put_cell i v m"] u by simp
    moreover have "drop_seq s i m = dec_used (put_cell i v m)" using True by (simp add: drop_seq_def Let_def v_def)
    ultimately show ?thesis using d(3) by simp
  next
    case False
    then show ?thesis using c [of "(rm_cells m ! i)\<lparr>mc_seq := mc_seq (rm_cells m ! i) - {s}\<rparr>"] d(3) by (simp add: drop_seq_def Let_def)
  qed
qed

lemma drop_seq_cells:
  "rm_cells (drop_seq s i m) = (rm_cells m)[i := (if mc_seq (rm_cells m ! i) - {s} = {}
     then (rm_cells m ! i)\<lparr>mc_seq := mc_seq (rm_cells m ! i) - {s}, mc_pos := -1, mc_src := -1\<rparr> else (rm_cells m ! i)\<lparr>mc_seq := mc_seq (rm_cells m ! i) - {s}\<rparr>)]"
  "rm_size (drop_seq s i m) = rm_size m" "rm_head (drop_seq s i m) = rm_head m" "rm_rs_idx (drop_seq s i m) = rm_rs_idx m"
  "rm_n_rs_seq (drop_seq s i m) = rm_n_rs_seq m"
  by (simp_all add: drop_seq_def Let_def)

lemma unlink_ok:
  assumes inv: "rec_inv m" and s: "own_seq (rm_cells m) s" and t: "tail_of (rm_cells m) s = int i"
  defines "m' \<equiv> set_tail s (-1) (drop_seq s i m)"
  shows "rec_inv m'" and "rec_abs m' = unlink s (rec_abs m)" and "rm_size m' = rm_size m" and "rm_head m' = rm_head m"
    and "rm_rs_idx m' = rm_rs_idx m" and "rm_n_rs_seq m' = rm_n_rs_seq m"
    and "own_seq (rm_cells m) u \<Longrightarrow> tail_of (rm_cells m') u = (if u = s then -1 else tail_of (rm_cells m) u)"
proof -
  note d = rec_invD [OF inv]
  note l = linkedD [OF d(1) s]
  have i: "i < length (rm_cells m)" "s \<in> mc_seq (rm_cells m ! i)" using l t by auto
  have v: "own_seq (rm_cells (drop_seq s i m)) u = own_seq (rm_cells m) u" for u by (simp add: drop_seq_cells)
  have tl: "tail_of (rm_cells m') u = (if u = s then -1 else tail_of (rm_cells m) u)" if u: "own_seq (rm_cells m) u" for u
  proof -
    have "tail_of (rm_cells (drop_seq s i m)) u = tail_of (rm_cells m) u" using u i by (simp add: drop_seq_cells tail_of_def nth_list_update)
    then show ?thesis unfolding m'_def using set_tail_of [of "drop_seq s i m" u s] u s v by simp
  qed
  then show "own_seq (rm_cells m) u \<Longrightarrow> tail_of (rm_cells m') u = (if u = s then -1 else tail_of (rm_cells m) u)" .
  have sz: "rm_size m' = rm_size m" "length (rm_cells m') = length (rm_cells m)"
    by (simp_all add: m'_def drop_seq_cells set_tail_cells)
  have q: "mc_seq (rm_cells m' ! j) = mc_seq (rm_cells m ! j) - {s}" if "j < length (rm_cells m)" for j
  proof -
    have "j \<noteq> i \<Longrightarrow> s \<notin> mc_seq (rm_cells m ! j)" using l(3) [of j] t that by auto
    moreover have "mc_seq (rm_cells m' ! j) = mc_seq (rm_cells (drop_seq s i m) ! j)"
      unfolding m'_def by (rule set_tail_cell) (use that in \<open>simp add: drop_seq_cells rm_size_def\<close>)
    ultimately show ?thesis using i that by (auto simp: drop_seq_cells nth_list_update)
  qed
  have p: "mc_pos (rm_cells m' ! j) = mc_pos (rm_cells m ! j) \<and> mc_src (rm_cells m' ! j) = mc_src (rm_cells m ! j)"
    if "j < length (rm_cells m)" "mc_seq (rm_cells m' ! j) \<noteq> {} \<or> j \<noteq> i" for j
  proof -
    have "mc_pos (rm_cells m' ! j) = mc_pos (rm_cells (drop_seq s i m) ! j)" "mc_src (rm_cells m' ! j) = mc_src (rm_cells (drop_seq s i m) ! j)"
      unfolding m'_def by (rule set_tail_cell, use that in \<open>simp add: drop_seq_cells rm_size_def\<close>)+
    then show ?thesis using that q [OF that(1)] i by (auto simp: drop_seq_cells nth_list_update)
  qed
  have e: "mc_pos (rm_cells m' ! i) = -1 \<and> mc_src (rm_cells m' ! i) = -1" if "mc_seq (rm_cells m' ! i) = {}"
    using that q [OF i(1)] set_tail_cell(2,3) [of i "drop_seq s i m" s "-1"] i(1) unfolding m'_def by (simp add: drop_seq_cells rm_size_def)
  have qn: "mc_seq (rm_cells m' ! j) = mc_seq (rm_cells m ! j)" if "j < length (rm_cells m)" "j \<noteq> i" for j
    using q [OF that(1)] l(3) [of j] t that by auto
  have ok: "cell_ok j (rm_cells m' ! j)" if "j < rm_size m'" for j
    using d(2) [of j] that sz p [of j] e qn [of j] i by (cases "j = i") (auto simp: cell_ok_def rm_size_def split: if_splits)
  have lk: "linked (rm_cells m')" unfolding linked_def
  proof (intro conjI allI impI)
    show "-1 \<le> tail_of (rm_cells m') u" "tail_of (rm_cells m') u < int (length (rm_cells m'))" if "own_seq (rm_cells m') u" for u
      using that tl [of u] linkedD(1,2) [OF d(1), of u] sz by (auto simp: own_seq_def)
    show "mc_seq (rm_cells m' ! j) = {u. own_seq (rm_cells m') u \<and> tail_of (rm_cells m') u = int j}" if "j < length (rm_cells m')" for j
    proof -
      have "own_seq (rm_cells m') u = own_seq (rm_cells m) u" for u using sz by (simp add: own_seq_def)
      then show ?thesis using that q [of j] tl sz d(1) by (auto simp: linked_def split: if_splits)
    qed
  qed
  have us: "rm_used m' = in_use (rm_cells m')"
    using drop_seq_used [OF inv _ i(2)] i(1) in_use_set_tail [of "drop_seq s i m" s "-1"] v s by (simp add: m'_def rm_size_def)
  show "rec_inv m'" unfolding rec_inv_def using lk ok us d(4,5) sz by (simp add: m'_def drop_seq_cells)
  show "rm_size m' = rm_size m" "rm_head m' = rm_head m" "rm_rs_idx m' = rm_rs_idx m" "rm_n_rs_seq m' = rm_n_rs_seq m"
    by (simp_all add: m'_def drop_seq_cells)
  show "rec_abs m' = unlink s (rec_abs m)"
  proof
    fix u
    have vv: "own_seq (rm_cells m') u = own_seq (rm_cells m) u" using sz by (simp add: own_seq_def)
    show "rec_abs m' u = unlink s (rec_abs m) u"
    proof (cases "own_seq (rm_cells m) u \<and> tail_of (rm_cells m) u \<ge> 0 \<and> u \<noteq> s")
      case True
      then obtain j where j: "tail_of (rm_cells m) u = int j" "j < length (rm_cells m)" "u \<in> mc_seq (rm_cells m ! j)"
        using linkedD(4) [OF d(1), of u] by (metis int_nat_eq)
      have ne: "mc_seq (rm_cells m' ! j) \<noteq> {}" using q [OF j(2)] j(3) True by auto
      have "rec_abs m u = Some (mc_pos (rm_cells m ! j), mc_seq (rm_cells m ! j))" using True j(1) by (simp add: rec_abs_def Let_def)
      moreover have "rec_abs m' u = Some (mc_pos (rm_cells m' ! j), mc_seq (rm_cells m' ! j))" using True j(1) vv tl [of u] by (simp add: rec_abs_def Let_def)
      ultimately show ?thesis using True q [OF j(2)] p [OF j(2)] ne by (simp add: unlink_def)
    next
      case False
      then have "rec_abs m' u = None" using vv tl [of u] by (cases "u = s") (simp_all add: rec_abs_None)
      moreover have "u = s \<or> rec_abs m u = None" using False by (auto simp: rec_abs_None)
      ultimately show ?thesis by (auto simp: unlink_def)
    qed
  qed
qed


definition link :: "int \<Rightarrow> int \<Rightarrow> (int \<Rightarrow> (int \<times> int set) option) \<Rightarrow> int \<Rightarrow> (int \<times> int set) option" where
  "link src dst a t = (case a src of None \<Rightarrow> a t
     | Some (p, q) \<Rightarrow> if t \<in> insert dst q then Some (p, insert dst q) else a t)"

lemma rec_abs_Some:
  assumes "own_seq (rm_cells m) u" and "tail_of (rm_cells m) u = int j"
  shows "rec_abs m u = Some (mc_pos (rm_cells m ! j), mc_seq (rm_cells m ! j))"
  using assms by (simp add: rec_abs_def Let_def)

lemma tail_cases:
  assumes "linked cs" and "own_seq cs u"
  obtains "tail_of cs u = -1" | j where "tail_of cs u = int j" "j < length cs" "u \<in> mc_seq (cs ! j)"
proof (cases "tail_of cs u = -1")
  case False
  then have "0 \<le> tail_of cs u" using linkedD(1) [OF assms] by simp
  then show ?thesis using linkedD(4) [OF assms] that(2) [of "nat (tail_of cs u)"] by simp
qed

lemma link_ok:
  assumes inv: "rec_inv m" and s: "own_seq (rm_cells m) src" "own_seq (rm_cells m) dst"
    and t: "tail_of (rm_cells m) src = int i" "tail_of (rm_cells m) dst = -1"
  defines "m' \<equiv> set_tail dst (int i) (put_cell i ((rm_cells m ! i)\<lparr>mc_seq := insert dst (mc_seq (rm_cells m ! i))\<rparr>) m)"
  shows "rec_inv m'" and "rec_abs m' = link src dst (rec_abs m)" and "rm_size m' = rm_size m"
    and "rm_rs_idx m' = rm_rs_idx m" and "rm_n_rs_seq m' = rm_n_rs_seq m"
proof -
  note d = rec_invD [OF inv]
  note l = linkedD [OF d(1) s(1)]
  have i: "i < length (rm_cells m)" "src \<in> mc_seq (rm_cells m ! i)" using l t by auto
  let ?n = "put_cell i ((rm_cells m ! i)\<lparr>mc_seq := insert dst (mc_seq (rm_cells m ! i))\<rparr>) m"
  have sz: "rm_size m' = rm_size m" "length (rm_cells m') = length (rm_cells m)" by (simp_all add: m'_def set_tail_cells)
  have v: "own_seq (rm_cells m') u = own_seq (rm_cells m) u" for u using sz by (simp add: own_seq_def)
  have tl: "tail_of (rm_cells m') u = (if u = dst then int i else tail_of (rm_cells m) u)" if u: "own_seq (rm_cells m) u" for u
  proof -
    have "tail_of (rm_cells ?n) u = tail_of (rm_cells m) u" using u i by (simp add: tail_of_def nth_list_update)
    then show ?thesis unfolding m'_def using set_tail_of [of ?n u dst] u s by simp
  qed
  have c: "mc_seq (rm_cells m' ! j) = (if j = i then insert dst (mc_seq (rm_cells m ! j)) else mc_seq (rm_cells m ! j))"
      "mc_pos (rm_cells m' ! j) = mc_pos (rm_cells m ! j)" "mc_src (rm_cells m' ! j) = mc_src (rm_cells m ! j)"
    if "j < length (rm_cells m)" for j
    using set_tail_cell [of j ?n dst "int i"] that i unfolding m'_def by (auto simp: rm_size_def nth_list_update)
  have ok: "cell_ok j (rm_cells m' ! j)" if "j < rm_size m'" for j
    using d(2) [of j] that sz c [of j] i by (auto simp: cell_ok_def rm_size_def split: if_splits)
  have lk: "linked (rm_cells m')" unfolding linked_def
  proof (intro conjI allI impI)
    show "-1 \<le> tail_of (rm_cells m') u" "tail_of (rm_cells m') u < int (length (rm_cells m'))" if "own_seq (rm_cells m') u" for u
      using that tl [of u] linkedD(1,2) [OF d(1), of u] sz v i by (simp_all split: if_splits)
    show "mc_seq (rm_cells m' ! j) = {u. own_seq (rm_cells m') u \<and> tail_of (rm_cells m') u = int j}" if "j < length (rm_cells m')" for j
      using that c(1) [of j] tl sz d(1) v s(2) t(2) by (auto simp: linked_def split: if_splits)
  qed
  have ne: "mc_seq (rm_cells m ! i) \<noteq> {}" using i by auto
  have "in_use (rm_cells ?n) = in_use (rm_cells m)"
    using count_if_update [of i "rm_cells m" "\<lambda>c. mc_seq c \<noteq> {}" "(rm_cells m ! i)\<lparr>mc_seq := insert dst (mc_seq (rm_cells m ! i))\<rparr>"] i(1) ne
    by (simp add: in_use_def)
  then have us: "rm_used m' = in_use (rm_cells m')" using in_use_set_tail [of ?n dst "int i"] s d(3) by (simp add: m'_def)
  show "rec_inv m'" unfolding rec_inv_def using lk ok us d(4,5) sz by (simp add: m'_def)
  show "rm_size m' = rm_size m" "rm_rs_idx m' = rm_rs_idx m" "rm_n_rs_seq m' = rm_n_rs_seq m" by (simp_all add: m'_def)
  have as: "rec_abs m src = Some (mc_pos (rm_cells m ! i), mc_seq (rm_cells m ! i))" by (rule rec_abs_Some [OF s(1) t(1)])
  show "rec_abs m' = link src dst (rec_abs m)"
  proof
    fix u
    show "rec_abs m' u = link src dst (rec_abs m) u"
    proof (cases "own_seq (rm_cells m) u")
      case True
      show ?thesis using d(1) True
      proof (cases rule: tail_cases)
        case 1
        show ?thesis
        proof (cases "u = dst")
          case True
          then show ?thesis using rec_abs_Some [of m' dst i] tl [of dst] v s(2) c(1,2) [OF i(1)] as by (simp add: link_def)
        next
          case False
          have "u \<notin> mc_seq (rm_cells m ! i)" using linked_seq [OF d(1) i(1), of u] 1 by auto
          then show ?thesis using 1 False tl [of u] True v as by (simp add: link_def rec_abs_def)
        qed
      next
        case (2 j)
        have "u \<noteq> dst" using 2(1) t(2) by auto
        moreover have "u \<in> mc_seq (rm_cells m ! i) \<longleftrightarrow> j = i" using linkedD(3) [OF d(1) True i(1)] 2(1) by auto
        ultimately show ?thesis
          using rec_abs_Some [of m' u j] rec_abs_Some [OF True 2(1)] tl [of u] v True 2 c(1,2) [OF 2(2)] as by (simp add: link_def)
      qed
    next
      case False
      then have "u \<notin> mc_seq (rm_cells m ! i)" "u \<noteq> dst" using linked_seq [OF d(1) i(1), of u] s(2) by auto
      then show ?thesis using False v as by (simp add: link_def rec_abs_def)
    qed
  qed
qed

text \<open>A new position for all sharers of a cell.\<close>

definition move_to :: "int \<Rightarrow> int \<Rightarrow> (int \<Rightarrow> (int \<times> int set) option) \<Rightarrow> int \<Rightarrow> (int \<times> int set) option" where
  "move_to s p a t = (case a s of None \<Rightarrow> a t | Some (_, q) \<Rightarrow> if t \<in> q then Some (p, q) else a t)"

lemma move_ok:
  assumes inv: "rec_inv m" and s: "own_seq (rm_cells m) s" and t: "tail_of (rm_cells m) s = int i" and p: "0 \<le> p" "p < int INT32_MAX"
  defines "m' \<equiv> put_cell i ((rm_cells m ! i)\<lparr>mc_pos := p\<rparr>) m"
  shows "rec_inv m'" and "rec_abs m' = move_to s p (rec_abs m)"
proof -
  note d = rec_invD [OF inv]
  have i: "i < length (rm_cells m)" "s \<in> mc_seq (rm_cells m ! i)" using linkedD [OF d(1) s] t by auto
  have sz: "length (rm_cells m') = length (rm_cells m)" by (simp add: m'_def)
  have v: "own_seq (rm_cells m') u = own_seq (rm_cells m) u" for u using sz by (simp add: own_seq_def)
  have tl: "tail_of (rm_cells m') u = tail_of (rm_cells m) u" for u using i by (auto simp: m'_def tail_of_def nth_list_update)
  have c: "mc_seq (rm_cells m' ! j) = mc_seq (rm_cells m ! j)" "mc_pos (rm_cells m' ! j) = (if j = i then p else mc_pos (rm_cells m ! j))"
    "mc_src (rm_cells m' ! j) = mc_src (rm_cells m ! j)" if "j < length (rm_cells m)" for j
    using that by (cases "j = i"; simp add: m'_def)+
  have "linked (rm_cells m')" using d(1) tl v c(1) sz by (simp add: linked_def)
  moreover have "cell_ok j (rm_cells m' ! j)" if "j < rm_size m" for j
    using d(2) [OF that] c [of j] i p that by (auto simp: cell_ok_def rm_size_def split: if_splits)
  moreover have "in_use (rm_cells m') = in_use (rm_cells m)"
    using count_if_update [of i "rm_cells m" "\<lambda>c. mc_seq c \<noteq> {}" "(rm_cells m ! i)\<lparr>mc_pos := p\<rparr>"] i(1) by (simp add: in_use_def m'_def)
  ultimately show "rec_inv m'" unfolding rec_inv_def using d(3-5) by (simp add: m'_def)
  have as: "rec_abs m s = Some (mc_pos (rm_cells m ! i), mc_seq (rm_cells m ! i))" by (rule rec_abs_Some [OF s t])
  show "rec_abs m' = move_to s p (rec_abs m)"
  proof
    fix u
    show "rec_abs m' u = move_to s p (rec_abs m) u"
    proof (cases "own_seq (rm_cells m) u")
      case True
      show ?thesis using d(1) True
      proof (cases rule: tail_cases)
        case 1
        then have "u \<notin> mc_seq (rm_cells m ! i)" using linked_seq [OF d(1) i(1), of u] by auto
        then show ?thesis using 1 tl v as by (simp add: move_to_def rec_abs_def)
      next
        case (2 j)
        have "u \<in> mc_seq (rm_cells m ! i) \<longleftrightarrow> j = i" using linkedD(3) [OF d(1) True i(1)] 2(1) by auto
        then show ?thesis
          using rec_abs_Some [of m' u j] rec_abs_Some [OF True 2(1)] tl v True 2 c(1,2) [OF 2(2)] as by (simp add: move_to_def)
      qed
    next
      case False
      then have "u \<notin> mc_seq (rm_cells m ! i)" using linked_seq [OF d(1) i(1), of u] by auto
      then show ?thesis using False v as by (simp add: move_to_def rec_abs_def)
    qed
  qed
qed

section \<open>Removal\<close>

lemma rewind_head_simps [simp]:
  "rm_cells (rewind_head h m) = rm_cells m" "rm_used (rewind_head h m) = rm_used m" "rm_size (rewind_head h m) = rm_size m"
  "rm_rs_idx (rewind_head h m) = rm_rs_idx m" "rm_n_rs_seq (rewind_head h m) = rm_n_rs_seq m"
  by (simp_all add: rewind_head_def rm_size_def)

lemma rewind_head_inv: "rec_inv m \<Longrightarrow> rec_inv (rewind_head h m)"
  by (auto simp: rec_inv_def rewind_head_def rm_size_def)

lemma set_rs_idx_simps [simp]:
  "rm_cells (set_rs_idx s k m) = rm_cells m" "rm_used (set_rs_idx s k m) = rm_used m" "rm_size (set_rs_idx s k m) = rm_size m"
  "rm_head (set_rs_idx s k m) = rm_head m" "rm_n_rs_seq (set_rs_idx s k m) = rm_n_rs_seq m"
  by (simp_all add: set_rs_idx_def rm_size_def)

lemma same_cells:
  assumes "rm_cells m' = rm_cells m"
  shows "rec_abs m' = rec_abs m" and "rec_inv m \<Longrightarrow> rm_used m' = rm_used m \<Longrightarrow> rm_head m' = rm_head m \<Longrightarrow> rec_inv m'"
  using assms by (auto simp: rec_abs_def rec_inv_def rm_size_def)

lemma rm_loop_none:
  assumes "\<And>i. i < rm_size m \<Longrightarrow> s \<notin> mc_seq (rm_cells m ! i) \<or> \<not> (p0 \<le> mc_pos (rm_cells m ! i) \<and> mc_pos (rm_cells m ! i) < p1)"
    and "0 \<le> s"
  shows "rm_cells_loop s p0 p1 m = m"
proof -
  have "fold (rm_seq_step s p0 p1) is (m, rm_size m) = (m, rm_size m)" if "set is \<subseteq> {..<rm_size m}" for "is"
    using that
  proof (induction "is")
    case (Cons i "is")
    then have "rm_seq_step s p0 p1 i (m, rm_size m) = (m, rm_size m)" using assms by (auto simp: rm_seq_step_def Let_def)
    then show ?case using Cons by simp
  qed simp
  then show ?thesis by (simp add: rm_cells_loop_def rewind_head_def atLeast_upt)
qed

lemma rm_loop_one:
  assumes i: "i < rm_size m" and s: "s \<in> mc_seq (rm_cells m ! i)" "0 \<le> s" and o: "\<And>j. j < rm_size m \<Longrightarrow> j \<noteq> i \<Longrightarrow> s \<notin> mc_seq (rm_cells m ! j)"
    and p: "p0 \<le> mc_pos (rm_cells m ! i)" "mc_pos (rm_cells m ! i) < p1" "0 \<le> mc_pos (rm_cells m ! i)"
  shows "\<exists>h. rm_cells_loop s p0 p1 m = rewind_head h (drop_seq s i m)"
proof -
  have noop: "fold (rm_seq_step s p0 p1) is (m', h) = (m', h)"
    if "set is \<subseteq> {..<rm_size m} - {i}" "\<And>j. j \<noteq> i \<Longrightarrow> rm_cells m' ! j = rm_cells m ! j" for "is" m' h
    using that(1)
  proof (induction "is")
    case (Cons j "is")
    then have "rm_seq_step s p0 p1 j (m', h) = (m', h)" using o [of j] that(2) [of j] s(2) by (auto simp: rm_seq_step_def Let_def)
    then show ?case using Cons by simp
  qed simp
  have sp: "[0..<rm_size m] = [0..<i] @ [i] @ [i + 1..<rm_size m]"
    using i upt_add_eq_append [of 0 i "rm_size m - i"] upt_conv_Cons [of i "rm_size m"] by simp
  define h where "h = (if mc_seq (rm_cells m ! i) - {s} = {} then i else rm_size m)"
  have st: "rm_seq_step s p0 p1 i (m, rm_size m) = (drop_seq s i m, h)"
    using s p by (simp add: rm_seq_step_def drop_seq_def Let_def h_def dec_used_def put_cell_def)
  have "fold (rm_seq_step s p0 p1) [0..<rm_size m] (m, rm_size m) = (drop_seq s i m, h)"
  proof -
    have "set [0..<i] \<subseteq> {..<rm_size m} - {i}" "set [i + 1..<rm_size m] \<subseteq> {..<rm_size m} - {i}" using i by auto
    then have "fold (rm_seq_step s p0 p1) [0..<i] (m, rm_size m) = (m, rm_size m)"
        "fold (rm_seq_step s p0 p1) [i + 1..<rm_size m] (drop_seq s i m, h) = (drop_seq s i m, h)"
      using noop [of "[0..<i]" m "rm_size m"] noop [of "[i + 1..<rm_size m]" "drop_seq s i m" h] by (simp_all add: drop_seq_cells)
    then show ?thesis unfolding sp fold_append o_apply by (simp add: st)
  qed
  then show ?thesis by (auto simp: rm_cells_loop_def)
qed

lemma drop_seq_set_tail: "drop_seq s i (set_tail u t m) = set_tail u t (drop_seq s i m)" if "i < rm_size m"
proof -
  obtain a where a: "rm_cells m ! i = a" by simp
  show ?thesis
  proof (cases "nat u = i")
    case True
    then show ?thesis using that a by (cases m; cases a) (simp add: drop_seq_def set_tail_def put_cell_def dec_used_def Let_def rm_size_def)
  next
    case False
    then show ?thesis using that by (cases m) (simp add: drop_seq_def set_tail_def put_cell_def dec_used_def Let_def rm_size_def list_update_swap)
  qed
qed

definition rm_spec :: "nat \<Rightarrow> int \<Rightarrow> int \<Rightarrow> int \<Rightarrow> (int \<Rightarrow> (int \<times> int set) option) \<Rightarrow> bool \<times> (int \<Rightarrow> (int \<times> int set) option)" where
  "rm_spec n s p0 p1 a = (case a s of None \<Rightarrow> (True, a)
     | Some (p, q) \<Rightarrow>
         if is_rollback (range_lo p0) (range_hi p1) p
         then if rollback_ok n (p - (range_lo p0 - 1)) then (True, move_to s (range_lo p0 - 1) a) else (False, a)
         else if range_lo p0 \<le> p \<and> p < range_hi p1 then (True, unlink s a) else (True, a))"

lemma seq_rm_ok:
  assumes inv: "rec_inv m" and s: "own_seq (rm_cells m) s"
  shows "\<exists>m'. recurrent_seq_rm s p0 p1 m = Inr (fst (rm_spec (rm_n_rs_seq m) s p0 p1 (rec_abs m)), m') \<and> rec_inv m' \<and>
    rec_abs m' = snd (rm_spec (rm_n_rs_seq m) s p0 p1 (rec_abs m)) \<and> rm_n_rs_seq m' = rm_n_rs_seq m \<and> rm_size m' = rm_size m"
proof -
  note d = rec_invD [OF inv]
  let ?lo = "range_lo p0" and ?hi = "range_hi p1"
  have z: "\<not> s \<ge> int (rm_size m)" "\<not> s < 0" using s by (simp_all add: own_seq_def rm_size_def)
  define m1 where "m1 = (if ?lo = 0 \<and> ?hi = int INT32_MAX then set_rs_idx s 0 m else m)"
  have c1: "rm_cells m1 = rm_cells m" "rm_size m1 = rm_size m" "rm_n_rs_seq m1 = rm_n_rs_seq m" by (simp_all add: m1_def)
  have i1: "rec_inv m1" "rec_abs m1 = rec_abs m" using same_cells [OF c1(1)] inv by (simp_all add: m1_def)
  have e: "recurrent_seq_rm s p0 p1 m = bind_r (recurrent_can_seq_rm m s p0 p1) (\<lambda>ok. if \<not> ok then Inr (False, m)
      else let tail = tail_of (rm_cells m) s in if tail < 0 then Inr (True, rm_cells_loop s ?lo ?hi m1)
        else bind_r (read_cell m1 tail) (\<lambda>c. if is_rollback ?lo ?hi (mc_pos c)
          then if rollback_ok (rm_n_rs_seq m) (mc_pos c - (?lo - 1))
            then Inr (True, put_cell (nat tail) (c\<lparr>mc_pos := ?lo - 1\<rparr>) (set_rs_idx s (nat (mc_pos c - (?lo - 1))) m1)) else Inr (False, m1)
          else Inr (True, rm_cells_loop s ?lo ?hi (if ?lo \<le> mc_pos c \<and> mc_pos c < ?hi then set_tail s (-1) m1 else m1))))"
    unfolding recurrent_seq_rm_def Let_def m1_def tail_of_def using z by (simp cong: if_cong)
  show ?thesis using d(1) s
  proof (cases rule: tail_cases)
    case 1
    have n: "s \<notin> mc_seq (rm_cells m ! j)" if "j < rm_size m" for j using linkedD(3) [OF d(1) s, of j] that 1 by (simp add: rm_size_def)
    have "recurrent_can_seq_rm m s p0 p1 = Inr True" using z 1 by (simp add: recurrent_can_seq_rm_def Let_def tail_of_def)
    moreover have "rm_cells_loop s ?lo ?hi m1 = m1" by (rule rm_loop_none) (use n c1 z in auto)
    moreover have "rec_abs m s = None" using 1 by (simp add: rec_abs_None)
    ultimately show ?thesis unfolding e using 1 i1 c1 by (simp add: rm_spec_def)
  next
    case (2 i)
    have as: "rec_abs m s = Some (mc_pos (rm_cells m ! i), mc_seq (rm_cells m ! i))" by (rule rec_abs_Some [OF s 2(1)])
    have rc: "read_cell m1 (int i) = Inr (rm_cells m ! i)" "read_cell m (int i) = Inr (rm_cells m ! i)"
      using 2(2) c1 by (simp_all add: read_cell_def rm_size_def)
    let ?p = "mc_pos (rm_cells m ! i)"
    have pp: "0 \<le> ?p" "?p < int INT32_MAX" using d(2) [of i] 2 by (auto simp: cell_ok_def rm_size_def split: if_splits)
    have n: "s \<notin> mc_seq (rm_cells m ! j)" if "j < rm_size m" "j \<noteq> i" for j using linkedD(3) [OF d(1) s, of j] that 2 by (simp add: rm_size_def)
    have can: "recurrent_can_seq_rm m s p0 p1 = Inr (is_rollback ?lo ?hi ?p \<longrightarrow> rollback_ok (rm_n_rs_seq m) (?p - (?lo - 1)))"
      using z 2(1) rc(2) by (simp add: recurrent_can_seq_rm_def Let_def tail_of_def)
    consider (roll) "is_rollback ?lo ?hi ?p" "rollback_ok (rm_n_rs_seq m) (?p - (?lo - 1))"
      | (refused) "is_rollback ?lo ?hi ?p" "\<not> rollback_ok (rm_n_rs_seq m) (?p - (?lo - 1))"
      | (all) "\<not> is_rollback ?lo ?hi ?p" "?lo \<le> ?p \<and> ?p < ?hi" | (out) "\<not> is_rollback ?lo ?hi ?p" "\<not> (?lo \<le> ?p \<and> ?p < ?hi)" by blast
    then show ?thesis
    proof cases
      case roll
      let ?m = "set_rs_idx s (nat (?p - (?lo - 1))) m1"
      have c2: "rm_cells ?m = rm_cells m" using c1 by simp
      have r: "0 \<le> ?lo - 1" "?lo - 1 < int INT32_MAX" using roll(1) pp by (auto simp: is_rollback_def)
      have "rec_inv ?m" using same_cells(2) [OF _ i1(1), of ?m] by simp
      then have "rec_inv (put_cell i ((rm_cells ?m ! i)\<lparr>mc_pos := ?lo - 1\<rparr>) ?m)"
          "rec_abs (put_cell i ((rm_cells ?m ! i)\<lparr>mc_pos := ?lo - 1\<rparr>) ?m) = move_to s (?lo - 1) (rec_abs ?m)"
        using move_ok [of ?m s i "?lo - 1"] r s 2(1) c2 by simp_all
      then show ?thesis unfolding e can using roll 2(1) rc(1) as c1 same_cells(1) [OF c2] by (simp add: rm_spec_def Let_def)
    next
      case refused
      then show ?thesis unfolding e can using as inv by (simp add: rm_spec_def)
    next
      case all
      let ?m = "set_tail s (-1) m1"
      have q: "mc_seq (rm_cells ?m ! j) = mc_seq (rm_cells m ! j)" "mc_pos (rm_cells ?m ! j) = mc_pos (rm_cells m ! j)" if "j < rm_size m" for j
        using set_tail_cell(1,2) [of j m1 s "-1"] that c1 by simp_all
      obtain h where h: "rm_cells_loop s ?lo ?hi ?m = rewind_head h (drop_seq s i ?m)"
      proof -
        have "i < rm_size m" using 2(2) by (simp add: rm_size_def)
        then show ?thesis using that rm_loop_one [of i ?m s ?lo ?hi] q [of i] q(1) 2(3) n all(2) pp z c1(2) by auto
      qed
      have "drop_seq s i ?m = set_tail s (-1) (drop_seq s i m1)" using drop_seq_set_tail [of i m1 s s "-1"] 2(2) c1 by (simp add: rm_size_def)
      then have "rm_cells_loop s ?lo ?hi ?m = rewind_head h (set_tail s (-1) (drop_seq s i m1))" using h by simp
      moreover note unlink_ok [OF i1(1), of s i] and rewind_head_inv and same_cells(1) [OF rewind_head_simps(1)]
      ultimately show ?thesis unfolding e can using all 2(1) rc(1) as c1 i1 s by (simp add: rm_spec_def Let_def drop_seq_cells)
    next
      case out
      have "rm_cells_loop s ?lo ?hi m1 = m1"
      proof (rule rm_loop_none)
        show "s \<notin> mc_seq (rm_cells m1 ! j) \<or> \<not> (?lo \<le> mc_pos (rm_cells m1 ! j) \<and> mc_pos (rm_cells m1 ! j) < ?hi)" if "j < rm_size m1" for j
          using n [of j] out(2) that c1 by (cases "j = i") auto
      qed (use z in simp)
      then show ?thesis unfolding e can using out 2(1) rc(1) as c1 i1 by (auto simp: rm_spec_def Let_def)
    qed
  qed
qed

section \<open>The other edits\<close>

text \<open>Keeping one sequence: the cells before \<open>k\<close> are done.\<close>

definition kept :: "int \<Rightarrow> nat \<Rightarrow> mem_cell \<Rightarrow> mem_cell" where
  "kept s i c = (if s \<in> mc_seq c then c\<lparr>mc_tail := (if int i \<noteq> s then -1 else mc_tail c), mc_seq := {s}\<rparr>
     else c\<lparr>mc_tail := (if int i \<noteq> s then -1 else mc_tail c), mc_pos := -1, mc_src := -1, mc_seq := {}\<rparr>)"

lemma keep_step_eq:
  assumes "i < rm_size m" and ok: "\<And>j. j < rm_size m \<Longrightarrow> cell_ok j (rm_cells m ! j)" and u: "rm_used m = in_use (rm_cells m)" "rm_size m \<le> INT32_MAX"
  shows "\<exists>m' h'. keep_step s i (m, h) = (m', h') \<and> rm_cells m' = (rm_cells m)[i := kept s i (rm_cells m ! i)] \<and>
    rm_used m' = in_use (rm_cells m') \<and> rm_size m' = rm_size m \<and> rm_head m' = rm_head m \<and> rm_n_rs_seq m' = rm_n_rs_seq m"
proof -
  let ?c = "rm_cells m ! i" and ?k = "kept s i (rm_cells m ! i)"
  have c: "in_use ((rm_cells m)[i := ?k]) + (if mc_seq ?c \<noteq> {} then 1 else 0) = in_use (rm_cells m) + (if mc_seq ?k \<noteq> {} then 1 else 0)"
    using count_if_update [of i "rm_cells m" "\<lambda>c. mc_seq c \<noteq> {}" ?k] assms(1) by (simp add: in_use_def rm_size_def)
  show ?thesis
  proof (cases "s \<in> mc_seq ?c")
    case True
    then have "keep_step s i (m, h) = (put_cell i ?k m, h)" by (simp add: keep_step_def kept_def Let_def)
    moreover have "mc_seq ?c \<noteq> {}" "mc_seq ?k \<noteq> {}" using True by (auto simp: kept_def)
    then have "in_use ((rm_cells m)[i := ?k]) = in_use (rm_cells m)" using c by simp
    ultimately show ?thesis using u by simp
  next
    case False
    have e: "keep_step s i (m, h) = (put_cell i ?k (if mc_pos ?c \<ge> 0 then dec_used m else m), if h = rm_size m then i else h)"
      using False by (simp add: keep_step_def kept_def Let_def)
    have p: "0 \<le> mc_pos ?c \<longleftrightarrow> mc_seq ?c \<noteq> {}" using ok [OF assms(1)] by (auto simp: cell_ok_def split: if_splits)
    have i': "in_use ((rm_cells m)[i := ?k]) + (if mc_seq ?c \<noteq> {} then 1 else 0) = in_use (rm_cells m)" using c False by (simp add: kept_def)
    have "rm_used (if mc_pos ?c \<ge> 0 then dec_used m else m) = in_use ((rm_cells m)[i := ?k])"
    proof (cases "mc_seq ?c = {}")
      case False
      then show ?thesis using dec_used_pos [of m] i' p u in_use_le [of "rm_cells m"] by (simp add: rm_size_def)
    qed (use i' p u in simp)
    then show ?thesis unfolding e using False by simp
  qed
qed

lemma kept_ok: "cell_ok i c \<Longrightarrow> cell_ok i (kept s i c)"
  by (auto simp: cell_ok_def kept_def split: if_splits)

lemma keep_fold:
  assumes inv: "rec_inv m" and "k \<le> rm_size m"
  shows "\<exists>m' h. fold (keep_step s) [0..<k] (m, rm_size m) = (m', h) \<and> rm_used m' = in_use (rm_cells m') \<and> rm_size m' = rm_size m \<and>
    rm_head m' = rm_head m \<and> rm_n_rs_seq m' = rm_n_rs_seq m \<and>
    (\<forall>i < rm_size m. rm_cells m' ! i = (if i < k then kept s i (rm_cells m ! i) else rm_cells m ! i))"
  using assms(2)
proof (induction k)
  case 0
  then show ?case using rec_invD [OF inv] by simp
next
  case (Suc k)
  then obtain m' h where m': "fold (keep_step s) [0..<k] (m, rm_size m) = (m', h)" "rm_used m' = in_use (rm_cells m')" "rm_size m' = rm_size m"
      "rm_head m' = rm_head m" "rm_n_rs_seq m' = rm_n_rs_seq m"
      "\<forall>i < rm_size m. rm_cells m' ! i = (if i < k then kept s i (rm_cells m ! i) else rm_cells m ! i)" by auto
  have "cell_ok j (rm_cells m' ! j)" if "j < rm_size m'" for j using that m'(3,6) rec_invD(2) [OF inv, of j] kept_ok by simp
  moreover have "rm_size m' \<le> INT32_MAX" using rec_invD(4) [OF inv] m'(3) by simp
  ultimately obtain n h' where n: "keep_step s k (m', h) = (n, h')" "rm_cells n = (rm_cells m')[k := kept s k (rm_cells m' ! k)]"
      "rm_used n = in_use (rm_cells n)" "rm_size n = rm_size m'" "rm_head n = rm_head m'" "rm_n_rs_seq n = rm_n_rs_seq m'"
    using keep_step_eq [of k m' s h] m'(2,3) Suc.prems by auto
  have "rm_cells n ! i = (if i < Suc k then kept s i (rm_cells m ! i) else rm_cells m ! i)" if "i < rm_size m" for i
    using that n(2) m'(3,6) by (cases "i = k") (auto simp: rm_size_def less_Suc_eq)
  then show ?case using m' n by simp
qed

definition keep_spec :: "int \<Rightarrow> (int \<Rightarrow> (int \<times> int set) option) \<Rightarrow> int \<Rightarrow> (int \<times> int set) option" where
  "keep_spec s a t = (if t = s then map_option (\<lambda>(p, _). (p, {s})) (a s) else None)"

lemma seq_keep_ok:
  assumes inv: "rec_inv m"
  shows "rec_inv (recurrent_seq_keep s m)" and "rec_abs (recurrent_seq_keep s m) = keep_spec s (rec_abs m)"
    and "rm_n_rs_seq (recurrent_seq_keep s m) = rm_n_rs_seq m"
proof -
  note d = rec_invD [OF inv]
  obtain m' h where f: "fold (keep_step s) [0..<rm_size m] (m, rm_size m) = (m', h)" "rm_used m' = in_use (rm_cells m')"
      "rm_size m' = rm_size m" "rm_head m' = rm_head m" "rm_n_rs_seq m' = rm_n_rs_seq m"
      "\<forall>i < rm_size m. rm_cells m' ! i = kept s i (rm_cells m ! i)"
    using keep_fold [OF inv order_refl, of s] by auto
  have e: "recurrent_seq_keep s m = rewind_head h m'" using f(1) by (simp add: recurrent_seq_keep_def)
  have v: "own_seq (rm_cells m') u = own_seq (rm_cells m) u" for u using f(3) by (simp add: own_seq_def rm_size_def)
  have tl: "tail_of (rm_cells m') u = (if u = s then tail_of (rm_cells m) u else -1)" if "own_seq (rm_cells m) u" for u
    using f(6) that by (auto simp: tail_of_def own_seq_def rm_size_def kept_def)
  have q: "mc_seq (rm_cells m' ! j) = mc_seq (rm_cells m ! j) \<inter> {s}" if "j < rm_size m" for j using f(6) that by (auto simp: kept_def)
  have "linked (rm_cells m')" unfolding linked_def
  proof (intro conjI allI impI)
    show "-1 \<le> tail_of (rm_cells m') u" "tail_of (rm_cells m') u < int (length (rm_cells m'))" if "own_seq (rm_cells m') u" for u
      using that tl [of u] linkedD(1,2) [OF d(1), of u] v f(3) by (auto simp: rm_size_def)
    show "mc_seq (rm_cells m' ! j) = {u. own_seq (rm_cells m') u \<and> tail_of (rm_cells m') u = int j}" if "j < length (rm_cells m')" for j
      using that q [of j] tl f(3) d(1) v by (auto simp: linked_def rm_size_def split: if_splits)
  qed
  moreover have "cell_ok j (rm_cells m' ! j)" if "j < rm_size m'" for j using that f(3,6) d(2) [of j] kept_ok by simp
  ultimately have i: "rec_inv m'" unfolding rec_inv_def using f d(4,5) by simp
  then show "rec_inv (recurrent_seq_keep s m)" unfolding e by (rule rewind_head_inv)
  show "rm_n_rs_seq (recurrent_seq_keep s m) = rm_n_rs_seq m" unfolding e using f(5) by simp
  have "rec_abs m' u = keep_spec s (rec_abs m) u" for u
  proof (cases "u = s \<and> own_seq (rm_cells m) s")
    case True
    then have o: "own_seq (rm_cells m) s" by simp
    show ?thesis using d(1) o
    proof (cases rule: tail_cases)
      case (2 j)
      have "mc_pos (rm_cells m' ! j) = mc_pos (rm_cells m ! j)" using f(6) 2 by (simp add: kept_def rm_size_def)
      then show ?thesis using rec_abs_Some [of m s j] rec_abs_Some [of m' s j] True 2 v tl [of s] q [of j] by (simp add: keep_spec_def rm_size_def)
    qed (use True v tl [of s] in \<open>simp_all add: keep_spec_def rec_abs_def\<close>)
  next
    case False
    then show ?thesis using v tl [of u] by (auto simp: keep_spec_def rec_abs_None rec_abs_def)
  qed
  then show "rec_abs (recurrent_seq_keep s m) = keep_spec s (rec_abs m)" unfolding e by (auto simp: same_cells(1) [OF rewind_head_simps(1)])
qed

lemma unlink_none:
  assumes "rec_inv m" and "own_seq (rm_cells m) s" and "tail_of (rm_cells m) s = -1"
  shows "unlink s (rec_abs m) = rec_abs m"
proof
  fix u
  note d = rec_invD [OF assms(1)]
  show "unlink s (rec_abs m) u = rec_abs m u"
  proof (cases "own_seq (rm_cells m) u \<and> u \<noteq> s")
    case True
    then have o: "own_seq (rm_cells m) u" by simp
    show ?thesis using d(1) o
    proof (cases rule: tail_cases)
      case (2 j)
      have "s \<notin> mc_seq (rm_cells m ! j)" using linkedD(3) [OF d(1) assms(2) 2(2)] assms(3) by simp
      then show ?thesis using rec_abs_Some [OF o 2(1)] True by (simp add: unlink_def)
    qed (simp add: unlink_def rec_abs_def)
  next
    case False
    then have "rec_abs m u = None" using assms(3) by (auto simp: rec_abs_None)
    then show ?thesis by (simp add: unlink_def)
  qed
qed

lemma seq_cp_ok:
  assumes inv: "rec_inv m" and s: "own_seq (rm_cells m) src" "own_seq (rm_cells m) dst" and ne: "src \<noteq> dst"
  shows "\<exists>m'. recurrent_seq_cp src dst m = Inr m' \<and> rec_inv m' \<and> rec_abs m' = link src dst (unlink dst (rec_abs m)) \<and>
    rm_n_rs_seq m' = rm_n_rs_seq m \<and> rm_rs_idx m' = rm_rs_idx m \<and> rm_size m' = rm_size m"
proof -
  note d = rec_invD [OF inv]
  have g: "\<not> \<not> (0 \<le> dst \<and> dst < int (rm_size m) \<and> 0 \<le> src \<and> src < int (rm_size m))" using s by (simp add: own_seq_def rm_size_def)
  let ?leave = "let td = tail_of (rm_cells m) dst in if td \<ge> 0 then bind_r (read_cell m td) (\<lambda>_. Inr (set_tail dst (-1) (drop_seq dst (nat td) m))) else Inr m"
  have "\<exists>m1. ?leave = Inr m1 \<and> rec_inv m1 \<and> rec_abs m1 = unlink dst (rec_abs m) \<and> rm_size m1 = rm_size m \<and> rm_n_rs_seq m1 = rm_n_rs_seq m \<and>
      rm_rs_idx m1 = rm_rs_idx m \<and> tail_of (rm_cells m1) dst = -1 \<and> tail_of (rm_cells m1) src = tail_of (rm_cells m) src"
    using d(1) s(2)
  proof (cases rule: tail_cases)
    case 1
    then show ?thesis using inv unlink_none [OF inv s(2)] by simp
  next
    case (2 i)
    then have "?leave = Inr (set_tail dst (-1) (drop_seq dst i m))" by (simp add: read_cell_def rm_size_def)
    then show ?thesis using unlink_ok [OF inv s(2) 2(1)] s ne by simp
  qed
  then obtain m1 where m1: "?leave = Inr m1" "rec_inv m1" "rec_abs m1 = unlink dst (rec_abs m)" "rm_size m1 = rm_size m"
      "rm_n_rs_seq m1 = rm_n_rs_seq m" "rm_rs_idx m1 = rm_rs_idx m" "tail_of (rm_cells m1) dst = -1" "tail_of (rm_cells m1) src = tail_of (rm_cells m) src" by blast
  have o: "own_seq (rm_cells m1) u = own_seq (rm_cells m) u" for u using m1(4) by (simp add: own_seq_def rm_size_def)
  have e: "recurrent_seq_cp src dst m = (let ts = tail_of (rm_cells m1) src in if ts \<ge> 0
      then bind_r (read_cell m1 ts) (\<lambda>c. Inr (set_tail dst ts (put_cell (nat ts) (c\<lparr>mc_seq := insert dst (mc_seq c)\<rparr>) m1))) else Inr m1)"
    unfolding recurrent_seq_cp_def if_not_P [OF ne] if_not_P [OF g] using m1(1) by (simp add: Let_def tail_of_def)
  have o1: "own_seq (rm_cells m1) src" "own_seq (rm_cells m1) dst" using o s by simp_all
  show ?thesis using rec_invD(1) [OF m1(2)] o1(1)
  proof (cases rule: tail_cases)
    case 1
    then have "rec_abs m1 src = None" by (simp add: rec_abs_None)
    then have "link src dst (rec_abs m1) = rec_abs m1" by (simp add: link_def fun_eq_iff)
    then show ?thesis unfolding e using 1 m1 by simp
  next
    case (2 i)
    have "recurrent_seq_cp src dst m = Inr (set_tail dst (int i) (put_cell i ((rm_cells m1 ! i)\<lparr>mc_seq := insert dst (mc_seq (rm_cells m1 ! i))\<rparr>) m1))"
      unfolding e using 2 by (simp add: read_cell_def rm_size_def)
    then show ?thesis using link_ok [OF m1(2) o1 2(1) m1(7)] m1(3-6) by simp
  qed
qed

definition shift_spec :: "(int \<Rightarrow> int) \<Rightarrow> int \<Rightarrow> int \<Rightarrow> int \<Rightarrow> (int \<Rightarrow> (int \<times> int set) option) \<Rightarrow> int \<Rightarrow> (int \<times> int set) option" where
  "shift_spec f s p0 p1 a = (case a s of None \<Rightarrow> a
     | Some (p, _) \<Rightarrow> if range_lo p0 \<le> p \<and> p < range_hi p1 then move_to s (f p) a else a)"

lemma move_pos_ok:
  assumes inv: "rec_inv m"
    and f: "\<And>p q. rec_abs m s = Some (p, q) \<Longrightarrow> range_lo p0 \<le> p \<Longrightarrow> p < range_hi p1 \<Longrightarrow> f p = Inr (g p) \<and> 0 \<le> g p \<and> g p < int INT32_MAX"
  shows "\<exists>m'. move_pos f s p0 p1 m = Inr m' \<and> rec_inv m' \<and> rec_abs m' = shift_spec g s p0 p1 (rec_abs m) \<and> rm_n_rs_seq m' = rm_n_rs_seq m"
proof (cases "own_seq (rm_cells m) s")
  case True
  note d = rec_invD [OF inv]
  have z: "0 \<le> s \<and> s < int (rm_size m)" using True by (simp add: own_seq_def rm_size_def)
  show ?thesis using d(1) True
  proof (cases rule: tail_cases)
    case 1
    then show ?thesis using inv by (simp add: move_pos_def Let_def tail_of_def shift_spec_def rec_abs_def)
  next
    case (2 i)
    let ?p = "mc_pos (rm_cells m ! i)"
    have as: "rec_abs m s = Some (?p, mc_seq (rm_cells m ! i))" by (rule rec_abs_Some [OF True 2(1)])
    have e: "move_pos f s p0 p1 m = (if range_lo p0 \<le> ?p \<and> ?p < range_hi p1
        then bind_r (f ?p) (\<lambda>p. Inr (put_cell i ((rm_cells m ! i)\<lparr>mc_pos := p\<rparr>) m)) else Inr m)"
      using z 2 by (auto simp: move_pos_def Let_def tail_of_def read_cell_def rm_size_def)
    show ?thesis
    proof (cases "range_lo p0 \<le> ?p \<and> ?p < range_hi p1")
      case t: True
      then show ?thesis unfolding e using f [OF as] as move_ok [OF inv True 2(1), of "g ?p"] by (simp add: shift_spec_def)
    next
      case False
      then show ?thesis unfolding e using as inv by (auto simp: shift_spec_def)
    qed
  qed
next
  case False
  then show ?thesis using inv by (auto simp: move_pos_def Let_def shift_spec_def rec_abs_def own_seq_def rm_size_def)
qed

section \<open>Sequences of edits\<close>

fun rec_edit_apply :: "kv_edit \<Rightarrow> llama_memory_recurrent \<Rightarrow> llama_memory_recurrent res" where
  "rec_edit_apply (Rm s p0 p1) m = bind_r (recurrent_seq_rm s p0 p1 m) (\<lambda>(_, m). Inr m)"
| "rec_edit_apply (Keep s) m = Inr (recurrent_seq_keep s m)"
| "rec_edit_apply (Add s p0 p1 d) m = recurrent_seq_add s p0 p1 d m"
| "rec_edit_apply (Div s p0 p1 d) m = recurrent_seq_div s p0 p1 d m"
| "rec_edit_apply (Cp src dst p0 p1) m = recurrent_seq_cp src dst m"

fun rec_edit_pre :: "kv_edit \<Rightarrow> llama_memory_recurrent \<Rightarrow> bool" where
  "rec_edit_pre (Rm s p0 p1) m = own_seq (rm_cells m) s"
| "rec_edit_pre (Keep s) m = True"
| "rec_edit_pre (Add s p0 p1 d) m = (case rec_abs m s of None \<Rightarrow> True
     | Some (p, _) \<Rightarrow> range_lo p0 \<le> p \<and> p < range_hi p1 \<longrightarrow> 0 \<le> p + d \<and> p + d < int INT32_MAX)"
| "rec_edit_pre (Div s p0 p1 d) m = (0 < d)"
| "rec_edit_pre (Cp src dst p0 p1) m = (own_seq (rm_cells m) src \<and> own_seq (rm_cells m) dst)"

fun rec_edit_spec :: "kv_edit \<Rightarrow> nat \<times> (int \<Rightarrow> (int \<times> int set) option) \<Rightarrow> nat \<times> (int \<Rightarrow> (int \<times> int set) option)" where
  "rec_edit_spec (Rm s p0 p1) (n, a) = (n, snd (rm_spec n s p0 p1 a))"
| "rec_edit_spec (Keep s) (n, a) = (n, keep_spec s a)"
| "rec_edit_spec (Add s p0 p1 d) (n, a) = (n, shift_spec (\<lambda>p. p + d) s p0 p1 a)"
| "rec_edit_spec (Div s p0 p1 d) (n, a) = (n, shift_spec (\<lambda>p. p div d) s p0 p1 a)"
| "rec_edit_spec (Cp src dst p0 p1) (n, a) = (n, if src = dst then a else link src dst (unlink dst a))"

lemma shift_spec_id: "rec_inv m \<Longrightarrow> (\<And>p. f p = p) \<Longrightarrow> shift_spec f s p0 p1 (rec_abs m) = rec_abs m"
proof -
  assume inv: "rec_inv m" and f: "\<And>p. f p = p"
  note d = rec_invD [OF inv]
  show "shift_spec f s p0 p1 (rec_abs m) = rec_abs m"
  proof (cases "rec_abs m s")
    case (Some z)
    obtain p q where z: "z = (p, q)" by (cases z)
    have o: "own_seq (rm_cells m) s" "tail_of (rm_cells m) s \<ge> 0" using Some by (auto simp: rec_abs_def split: if_splits)
    then obtain j where j: "tail_of (rm_cells m) s = int j" "j < length (rm_cells m)" using tail_cases [OF d(1) o(1)] by auto
    have a: "p = mc_pos (rm_cells m ! j)" "q = mc_seq (rm_cells m ! j)" using Some z rec_abs_Some [OF o(1) j(1)] by auto
    have "rec_abs m t = Some (p, q)" if "t \<in> q" for t
      using linked_seq [OF d(1) j(2), of t] that a rec_abs_Some [of m t j] by simp
    then show ?thesis using Some z f by (auto simp: shift_spec_def move_to_def)
  qed (simp add: shift_spec_def)
qed

interpretation rec_edits: memory_edits rec_edit_apply rec_edit_pre rec_inv "\<lambda>m. (rm_n_rs_seq m, rec_abs m)" rec_edit_spec
proof unfold_locales
  fix m e assume i: "rec_inv m" and p: "rec_edit_pre e m"
  have b: "0 \<le> q \<and> q < int INT32_MAX" if "rec_abs m s = Some (q, r)" for s q r
  proof -
    have o: "own_seq (rm_cells m) s" "tail_of (rm_cells m) s \<ge> 0" using that by (auto simp: rec_abs_def split: if_splits)
    then obtain j where "tail_of (rm_cells m) s = int j" "j < length (rm_cells m)" "s \<in> mc_seq (rm_cells m ! j)"
      using tail_cases [OF rec_invD(1) [OF i] o(1)] by auto
    then show ?thesis using rec_invD(2) [OF i, of j] that rec_abs_Some [OF o(1), of j] by (auto simp: cell_ok_def rm_size_def split: if_splits)
  qed
  show "\<exists>m'. rec_edit_apply e m = Inr m' \<and> rec_inv m' \<and> (rm_n_rs_seq m', rec_abs m') = rec_edit_spec e (rm_n_rs_seq m, rec_abs m)"
  proof (cases e)
    case (Rm s p0 p1)
    then show ?thesis using seq_rm_ok [OF i, of s p0 p1] p by auto
  next
    case (Keep s)
    then show ?thesis using seq_keep_ok [OF i] by simp
  next
    case (Add s p0 p1 d)
    show ?thesis
    proof (cases "d = 0")
      case True
      then show ?thesis using Add i shift_spec_id [OF i, of "\<lambda>p. p + d"] by (simp add: recurrent_seq_add_def)
    next
      case False
      have "\<exists>m'. move_pos (\<lambda>p. i32_res (p + d)) s p0 p1 m = Inr m' \<and> rec_inv m' \<and> rec_abs m' = shift_spec (\<lambda>p. p + d) s p0 p1 (rec_abs m) \<and>
          rm_n_rs_seq m' = rm_n_rs_seq m"
        by (rule move_pos_ok [OF i]) (use p Add in \<open>auto simp: i32_res_def split: option.splits\<close>)
      then show ?thesis using Add False by (auto simp: recurrent_seq_add_def)
    qed
  next
    case (Div s p0 p1 d)
    have dv: "p sdiv d = p div d \<and> 0 \<le> p div d \<and> p div d < int INT32_MAX" if "rec_abs m s = Some (p, q)" for p q
    proof -
      have "0 \<le> p" "p < int INT32_MAX" using b [OF that] by simp_all
      moreover have "p div d \<le> p" using p Div \<open>0 \<le> p\<close> by (simp add: div_le_dividend zdiv_mono2 [of p 1 d, simplified] int_one_le_iff_zero_less)
      ultimately show ?thesis using p Div by (simp add: sdiv_nonneg pos_imp_zdiv_nonneg_iff)
    qed
    show ?thesis
    proof (cases "d = 1")
      case True
      then show ?thesis using Div i shift_spec_id [OF i, of "\<lambda>p. p div d"] by (simp add: recurrent_seq_div_def)
    next
      case False
      have "\<exists>m'. move_pos (\<lambda>p. if d = 0 then Inl Undefined else i32_res (p sdiv d)) s p0 p1 m = Inr m' \<and> rec_inv m' \<and>
          rec_abs m' = shift_spec (\<lambda>p. p div d) s p0 p1 (rec_abs m) \<and> rm_n_rs_seq m' = rm_n_rs_seq m"
        by (rule move_pos_ok [OF i]) (use p Div dv in \<open>auto simp: i32_res_def\<close>)
      then show ?thesis using Div False by (auto simp: recurrent_seq_div_def)
    qed
  next
    case (Cp src dst p0 p1)
    show ?thesis
    proof (cases "src = dst")
      case True
      then show ?thesis using Cp i by (simp add: recurrent_seq_cp_def)
    next
      case False
      then show ?thesis using Cp seq_cp_ok [OF i, of src dst] p by auto
    qed
  qed
qed

end
