(* ===== verification/RecurrentSlot.thy ===== *)
theory RecurrentSlot
  imports RecurrentInv
begin

text \<open>
  The placement of a micro-batch in the recurrent memory: sharing, the choice of cells, the swaps that make the slot
  contiguous, and the sources of the states. Each phase has a lemma that says what it does to the tails and to
  the contents of the cells.
\<close>

section \<open>Micro-batches\<close>

text \<open>A micro-batch for a memory of \<open>n\<close> cells: sets of sequences without a common one, one length, positions in range.\<close>

definition batch_sets :: "nat \<Rightarrow> llama_ubatch \<Rightarrow> bool" where
  "batch_sets n ub \<longleftrightarrow> ub_equal_seqs ub \<and> 0 < ub_n_seqs ub \<and> 0 < ub_n_seq_tokens ub \<and>
     (\<forall>k < ub_n_seqs ub. set_readable ub k \<and> set_seqs ub k \<noteq> [] \<and> set (set_seqs ub k) \<subseteq> {0..<int n} \<and> distinct (set_seqs ub k) \<and>
        set_token ub k + ub_n_seq_tokens ub - 1 < length (ub_pos ub) \<and>
        0 \<le> ub_pos ub ! (set_token ub k + ub_n_seq_tokens ub - 1) \<and> ub_pos ub ! (set_token ub k + ub_n_seq_tokens ub - 1) < int INT32_MAX) \<and>
     (\<forall>k < ub_n_seqs ub. \<forall>j < ub_n_seqs ub. k \<noteq> j \<longrightarrow> set (set_seqs ub k) \<inter> set (set_seqs ub j) = {})"

definition batch_seqs :: "llama_ubatch \<Rightarrow> int set" where
  "batch_seqs ub = (\<Union>k < ub_n_seqs ub. set (set_seqs ub k))"

definition extra_seqs :: "llama_ubatch \<Rightarrow> int set" where
  "extra_seqs ub = (\<Union>k < ub_n_seqs ub. set (tl (set_seqs ub k)))"

lemma batch_setsD:
  assumes "batch_sets n ub"
  shows "ub_equal_seqs ub" "0 < ub_n_seqs ub" "0 < ub_n_seq_tokens ub"
    "k < ub_n_seqs ub \<Longrightarrow> set_readable ub k" "k < ub_n_seqs ub \<Longrightarrow> set_seqs ub k \<noteq> []"
    "k < ub_n_seqs ub \<Longrightarrow> set (set_seqs ub k) \<subseteq> {0..<int n}" "k < ub_n_seqs ub \<Longrightarrow> distinct (set_seqs ub k)"
    "k < ub_n_seqs ub \<Longrightarrow> set_token ub k + ub_n_seq_tokens ub - 1 < length (ub_pos ub)"
    "k < ub_n_seqs ub \<Longrightarrow> 0 \<le> ub_pos ub ! (set_token ub k + ub_n_seq_tokens ub - 1) \<and>
       ub_pos ub ! (set_token ub k + ub_n_seq_tokens ub - 1) < int INT32_MAX"
    "k < ub_n_seqs ub \<Longrightarrow> j < ub_n_seqs ub \<Longrightarrow> k \<noteq> j \<Longrightarrow> set (set_seqs ub k) \<inter> set (set_seqs ub j) = {}"
  using assms by (simp_all add: batch_sets_def)

lemma set_first_hd:
  assumes "batch_sets n ub" and "k < ub_n_seqs ub"
  shows "set_first ub k = hd (set_seqs ub k)" and "ub_seq_id ub ! set_token ub k \<noteq> []"
proof -
  let ?l = "ub_seq_id ub ! set_token ub k" and ?n = "nat (ub_n_seq_id ub ! set_token ub k)"
  have "take ?n ?l \<noteq> []" using batch_setsD(5) [OF assms] by (simp add: set_seqs_def)
  then have l: "?l \<noteq> []" "0 < ?n" by auto
  then show "?l \<noteq> []" by simp
  show "set_first ub k = hd (set_seqs ub k)" using l by (cases ?l) (auto simp: set_first_def set_seqs_def take_Cons')
qed

lemma first_in: "batch_sets n ub \<Longrightarrow> k < ub_n_seqs ub \<Longrightarrow> set_first ub k \<in> set (set_seqs ub k)"
  using set_first_hd(1) [of n ub k] batch_setsD(5) [of n ub k] by simp

lemma first_inj:
  assumes "batch_sets n ub" and "k < ub_n_seqs ub" and "j < ub_n_seqs ub" and "set_first ub k \<in> set (set_seqs ub j)"
  shows "k = j"
  using first_in [OF assms(1,2)] batch_setsD(10) [OF assms(1-3)] assms(4) by auto

lemma first_extra: "batch_sets n ub \<Longrightarrow> k < ub_n_seqs ub \<Longrightarrow> set_first ub k \<notin> extra_seqs ub"
proof
  assume b: "batch_sets n ub" "k < ub_n_seqs ub" and "set_first ub k \<in> extra_seqs ub"
  then obtain j where j: "j < ub_n_seqs ub" "set_first ub k \<in> set (tl (set_seqs ub j))" by (auto simp: extra_seqs_def)
  then have "set_first ub k \<in> set (set_seqs ub j)" by (cases "set_seqs ub j") auto
  then have "k = j" by (rule first_inj [OF b j(1)])
  then show False using j(2) set_first_hd(1) [OF b] batch_setsD(5,7) [OF b] by (cases "set_seqs ub k") auto
qed

lemma batch_seqs_split:
  assumes "batch_sets n ub"
  shows "batch_seqs ub = extra_seqs ub \<union> set_first ub ` {..<ub_n_seqs ub}"
proof -
  have "set (set_seqs ub k) = insert (set_first ub k) (set (tl (set_seqs ub k)))" if "k < ub_n_seqs ub" for k
    using set_first_hd(1) [OF assms that] batch_setsD(5) [OF assms that] by (cases "set_seqs ub k") auto
  then show ?thesis by (auto simp: batch_seqs_def extra_seqs_def)
qed

section \<open>Sharing\<close>

definition unlink_all :: "int set \<Rightarrow> (int \<Rightarrow> (int \<times> int set) option) \<Rightarrow> int \<Rightarrow> (int \<times> int set) option" where
  "unlink_all ss a t = (if t \<in> ss then None else map_option (\<lambda>(p, q). (p, q - ss)) (a t))"

lemma unlink_all_simps: "unlink_all {} a = a" "unlink_all ss (unlink s a) = unlink_all (insert s ss) a"
proof -
  have "unlink_all {} a t = a t" "unlink_all ss (unlink s a) t = unlink_all (insert s ss) a t" for t
    by (cases "a t"; auto simp: unlink_all_def unlink_def)+
  then show "unlink_all {} a = a" "unlink_all ss (unlink s a) = unlink_all (insert s ss) a" by auto
qed

definition same_frame :: "llama_memory_recurrent \<Rightarrow> llama_memory_recurrent \<Rightarrow> bool" where
  "same_frame m m' \<longleftrightarrow> rm_size m' = rm_size m \<and> rm_head m' = rm_head m \<and> rm_rs_idx m' = rm_rs_idx m \<and> rm_n_rs_seq m' = rm_n_rs_seq m"

lemma share_fold_ok:
  assumes "rec_inv m" and "\<forall>(j, s) \<in> set xs. own_seq (rm_cells m) s"
  shows "\<exists>m'. fold_r share_step xs (True, m) = Inr (True, m') \<and> rec_inv m' \<and> same_frame m m' \<and>
    rec_abs m' = unlink_all {s. \<exists>j. (j, s) \<in> set xs \<and> j \<noteq> 0} (rec_abs m) \<and>
    (\<forall>u. own_seq (rm_cells m) u \<longrightarrow> tail_of (rm_cells m') u = (if \<exists>j. (j, u) \<in> set xs \<and> j \<noteq> 0 then -1 else tail_of (rm_cells m) u))"
  using assms
proof (induction xs arbitrary: m)
  case Nil
  then show ?case by (simp add: unlink_all_simps same_frame_def)
next
  case (Cons x xs)
  obtain j s where x: "x = (j, s)" by (cases x)
  have s: "own_seq (rm_cells m) s" using Cons.prems(2) x by simp
  have z: "\<not> (s < 0 \<or> nat s \<ge> rm_size m)" using s by (auto simp: own_seq_def rm_size_def)
  note d = rec_invD [OF Cons.prems(1)]
  have "\<exists>m1. share_step x (True, m) = Inr (True, m1) \<and> rec_inv m1 \<and> same_frame m m1 \<and>
      rec_abs m1 = (if j = 0 then rec_abs m else unlink s (rec_abs m)) \<and>
      (\<forall>u. own_seq (rm_cells m) u \<longrightarrow> tail_of (rm_cells m1) u = (if j \<noteq> 0 \<and> u = s then -1 else tail_of (rm_cells m) u))"
  proof (cases "j = 0")
    case True
    then show ?thesis using Cons.prems(1) z x by (simp add: share_step_def same_frame_def)
  next
    case False
    show ?thesis using d(1) s
    proof (cases rule: tail_cases)
      case 1
      then have "share_step x (True, m) = Inr (True, m)" using z x by (simp add: share_step_def tail_of_def)
      then show ?thesis using 1 Cons.prems(1) unlink_none [OF Cons.prems(1) s 1] False by (simp add: same_frame_def)
    next
      case (2 i)
      have "share_step x (True, m) = Inr (True, set_tail s (-1) (drop_seq s i m))"
        using z x False 2 by (simp add: share_step_def Let_def tail_of_def read_cell_def rm_size_def)
      then show ?thesis using unlink_ok [OF Cons.prems(1) s 2(1)] False by (auto simp: same_frame_def)
    qed
  qed
  then obtain m1 where m1: "share_step x (True, m) = Inr (True, m1)" "rec_inv m1" "same_frame m m1"
      "rec_abs m1 = (if j = 0 then rec_abs m else unlink s (rec_abs m))"
      "\<And>u. own_seq (rm_cells m) u \<Longrightarrow> tail_of (rm_cells m1) u = (if j \<noteq> 0 \<and> u = s then -1 else tail_of (rm_cells m) u)" by blast
  have o: "own_seq (rm_cells m1) u = own_seq (rm_cells m) u" for u using m1(3) by (simp add: same_frame_def own_seq_def rm_size_def)
  obtain m' where m': "fold_r share_step xs (True, m1) = Inr (True, m')" "rec_inv m'" "same_frame m1 m'"
      "rec_abs m' = unlink_all {s. \<exists>j. (j, s) \<in> set xs \<and> j \<noteq> 0} (rec_abs m1)"
      "\<And>u. own_seq (rm_cells m) u \<Longrightarrow> tail_of (rm_cells m') u = (if \<exists>j. (j, u) \<in> set xs \<and> j \<noteq> 0 then -1 else tail_of (rm_cells m1) u)"
    using Cons.IH [OF m1(2)] Cons.prems(2) o by auto
  have q: "{u. \<exists>i. (i, u) \<in> set (x # xs) \<and> i \<noteq> 0} = (if j = 0 then {} else {s}) \<union> {s. \<exists>j. (j, s) \<in> set xs \<and> j \<noteq> 0}" using x by auto
  have a: "rec_abs m' = unlink_all {u. \<exists>i. (i, u) \<in> set (x # xs) \<and> i \<noteq> 0} (rec_abs m)"
    unfolding q using m'(4) m1(4) by (simp add: unlink_all_simps(2))
  have t: "\<forall>u. own_seq (rm_cells m) u \<longrightarrow> tail_of (rm_cells m') u = (if \<exists>j. (j, u) \<in> set (x # xs) \<and> j \<noteq> 0 then -1 else tail_of (rm_cells m) u)"
    using m'(5) m1(5) x by auto
  have "same_frame m m'" using m1(3) m'(3) by (simp add: same_frame_def)
  then show ?case using m1(1) m'(1,2) a t by auto
qed

lemma share_list:
  assumes b: "batch_sets (length cs) ub"
  defines "xs \<equiv> concat (map (\<lambda>s. enumerate 0 (set_seqs ub s)) [0..<ub_n_seqs ub])"
  shows "(j, s) \<in> set xs \<Longrightarrow> own_seq cs s" and "(\<exists>j. (j, u) \<in> set xs \<and> j \<noteq> 0) \<longleftrightarrow> u \<in> extra_seqs ub"
proof -
  have m: "(j, s) \<in> set (enumerate 0 l) \<longleftrightarrow> j < length l \<and> s = l ! j" for j :: nat and s :: int and l by (auto simp: in_set_enumerate_eq)
  have x: "(j, u) \<in> set xs \<longleftrightarrow> (\<exists>k < ub_n_seqs ub. j < length (set_seqs ub k) \<and> u = set_seqs ub k ! j)" for j u by (auto simp: xs_def m)
  show "own_seq cs s" if "(j, s) \<in> set xs"
  proof -
    obtain k where k: "k < ub_n_seqs ub" "j < length (set_seqs ub k)" "s = set_seqs ub k ! j" using \<open>(j, s) \<in> set xs\<close> x by blast
    have "s \<in> set (set_seqs ub k)" using k(2,3) by simp
    then have "s \<in> {0..<int (length cs)}" using batch_setsD(6) [OF b k(1)] by (rule subsetD [rotated])
    then show ?thesis by (simp add: own_seq_def)
  qed
  have t: "s \<in> set (tl l) \<longleftrightarrow> (\<exists>j. j < length l \<and> s = l ! j \<and> j \<noteq> 0)" for s :: int and l
  proof (cases l)
    case (Cons a xs)
    have "(\<exists>j < length l. s = l ! j \<and> j \<noteq> 0) \<longleftrightarrow> (\<exists>i < length xs. s = xs ! i)"
      unfolding Cons by (rule iffI; clarify) (auto simp: nth_Cons' gr0_conv_Suc)
    then show ?thesis using Cons by (auto simp: in_set_conv_nth)
  qed simp
  show "(\<exists>j. (j, u) \<in> set xs \<and> j \<noteq> 0) \<longleftrightarrow> u \<in> extra_seqs ub" unfolding x extra_seqs_def UN_iff t lessThan_iff by blast
qed

lemma share_sets_ok:
  assumes "rec_inv m" and b: "batch_sets (rm_size m) ub"
  shows "\<exists>m'. share_sets ub m = Inr (True, m') \<and> rec_inv m' \<and> same_frame m m' \<and> rec_abs m' = unlink_all (extra_seqs ub) (rec_abs m) \<and>
    (\<forall>u. own_seq (rm_cells m) u \<longrightarrow> tail_of (rm_cells m') u = (if u \<in> extra_seqs ub then -1 else tail_of (rm_cells m) u))"
proof -
  let ?xs = "concat (map (\<lambda>s. enumerate 0 (set_seqs ub s)) [0..<ub_n_seqs ub])"
  have r: "list_all (set_readable ub) [0..<ub_n_seqs ub]" using batch_setsD(4) [OF b] by (simp add: list_all_iff)
  note l = share_list [OF b [unfolded rm_size_def]]
  have o: "\<forall>(j, s) \<in> set ?xs. own_seq (rm_cells m) s" using l(1) by blast
  have "{s. \<exists>j. (j, s) \<in> set ?xs \<and> j \<noteq> 0} = extra_seqs ub" using l(2) by blast
  then show ?thesis using share_fold_ok [OF assms(1) o] r unfolding share_sets_def l(2) by simp
qed

section \<open>The search for empty cells\<close>

text \<open>The \<open>y\<close>-th cell of a walk around \<open>n\<close> cells that starts at \<open>h\<close>.\<close>

definition walk :: "nat \<Rightarrow> nat \<Rightarrow> nat \<Rightarrow> nat" where
  "walk h n y = (h + y) mod n"

lemma walk_less: "0 < n \<Longrightarrow> walk h n y < n"
  by (simp add: walk_def)

lemma wrap_walk: "0 < length cs \<Longrightarrow> wrap_cell cs (walk h (length cs) y + 1) = walk h (length cs) (y + 1)"
proof -
  assume n: "0 < length cs"
  have "(h + y) mod length cs < length cs" by (rule mod_less_divisor [OF n])
  then show ?thesis using mod_Suc [of "h + y" "length cs"] by (cases "Suc ((h + y) mod length cs) = length cs") (auto simp: walk_def wrap_cell_def)
qed

lemma walk_inj: "y < n \<Longrightarrow> z < n \<Longrightarrow> walk h n y = walk h n z \<Longrightarrow> y = z"
proof (induction y z rule: linorder_wlog)
  case (le y z)
  then have "n dvd (h + z) - (h + y)" using mod_eq_dvd_iff_nat [of "h + y" "h + z" n] by (simp add: walk_def)
  moreover have "z - y < n" using le by linarith
  ultimately show ?case using le nat_dvd_not_less [of "z - y" n] by (cases "y = z") auto
qed simp

lemma walk_surj: "i < n \<Longrightarrow> \<exists>y < n. i = walk h n y"
proof -
  assume i: "i < n"
  then have "inj_on (walk h n) {..<n}" by (auto simp: inj_on_def dest: walk_inj)
  moreover have "walk h n ` {..<n} \<subseteq> {..<n}" using walk_less i by auto
  ultimately have "walk h n ` {..<n} = {..<n}" using endo_inj_surj [of "{..<n}" "walk h n"] by simp
  then show ?thesis using i by (metis (no_types, lifting) imageE lessThan_iff)
qed

lemma empty_after_total: "e < length cs \<Longrightarrow> \<exists>e'. empty_after k cs e = Inr e' \<and> e' < length cs"
  by (induction k arbitrary: e) (auto simp: wrap_cell_def Let_def)

lemma empty_after_found:
  assumes "0 < length cs" and "x < y" and "mc_seq (cs ! walk h (length cs) y) = {}"
    and "\<And>z. x < z \<Longrightarrow> z < y \<Longrightarrow> mc_seq (cs ! walk h (length cs) z) \<noteq> {}" and "y - x \<le> k"
  shows "empty_after k cs (walk h (length cs) x) = Inr (walk h (length cs) y)"
  using assms(2,4,5)
proof (induction k arbitrary: x)
  case (Suc k)
  have w: "wrap_cell cs (walk h (length cs) x + 1) = walk h (length cs) (x + 1)"
    by (rule wrap_walk [OF assms(1)])
  have l: "walk h (length cs) (x + 1) < length cs" by (rule walk_less [OF assms(1)])
  show ?case
  proof (cases "x + 1 = y")
    case True
    then show ?thesis using w l assms(3) by (simp add: Let_def)
  next
    case False
    then have "mc_seq (cs ! walk h (length cs) (x + 1)) \<noteq> {}" using Suc.prems by simp
    then show ?thesis using w l Suc.IH [of "x + 1"] Suc.prems False by (simp add: Let_def)
  qed
qed simp

lemma first_empty_total: "e < length cs \<Longrightarrow> \<exists>e'. first_empty k cs e = Inr e'"
proof -
  have "\<exists>e'. first_empty k cs e = Inr e'" if "e \<le> length cs" "0 < length cs" for k e
    using that
  proof (induction k arbitrary: e)
    case (Suc k)
    have "wrap_cell cs e < length cs" using Suc.prems by (auto simp: wrap_cell_def)
    then show ?case using Suc.IH [of "wrap_cell cs e + 1"] Suc.prems by (simp add: Let_def)
  qed simp
  then show ?thesis if "e < length cs" using that less_imp_le [OF that] le_less_trans [OF le0 that] by blast
qed

lemma first_empty_found:
  assumes "0 < length cs" and "x \<le> y" and "mc_seq (cs ! walk h (length cs) y) = {}"
    and "\<And>z. x \<le> z \<Longrightarrow> z < y \<Longrightarrow> mc_seq (cs ! walk h (length cs) z) \<noteq> {}" and "y - x < k" and "wrap_cell cs e = walk h (length cs) x"
  shows "first_empty k cs e = Inr (walk h (length cs) y)"
  using assms(2,4-6)
proof (induction k arbitrary: x e)
  case (Suc k)
  have l: "walk h (length cs) x < length cs" by (rule walk_less [OF assms(1)])
  show ?case
  proof (cases "x = y")
    case True
    then show ?thesis using l assms(3) Suc.prems(4) by (simp add: Let_def)
  next
    case False
    then have "mc_seq (cs ! walk h (length cs) x) \<noteq> {}" using Suc.prems by simp
    moreover have "wrap_cell cs (walk h (length cs) x + 1) = walk h (length cs) (x + 1)"
      by (rule wrap_walk [OF assms(1)])
    ultimately show ?thesis using l Suc.IH [of "x + 1" "walk h (length cs) x + 1"] Suc.prems False by (simp add: Let_def)
  qed
qed simp

text \<open>A free cell is one that no sequence points to. The search aims at the first free cell of the walk; all
  empty cells behind it are free.\<close>

definition free_cell :: "mem_cell list \<Rightarrow> nat \<Rightarrow> bool" where
  "free_cell cs i \<longleftrightarrow> (\<forall>u. own_seq cs u \<longrightarrow> tail_of cs u \<noteq> int i)"

definition aim :: "nat \<Rightarrow> mem_cell list \<Rightarrow> nat \<Rightarrow> bool" where
  "aim h cs e \<longleftrightarrow> (\<forall>i < length cs. free_cell cs i \<longrightarrow> (\<exists>x < length cs. e = walk h (length cs) x \<and> free_cell cs e \<and>
     (\<forall>y < x. \<not> free_cell cs (walk h (length cs) y)) \<and>
     (\<forall>y. x < y \<and> y < length cs \<and> mc_seq (cs ! walk h (length cs) y) = {} \<longrightarrow> free_cell cs (walk h (length cs) y))))"

lemma aimD: "aim h cs e \<Longrightarrow> i < length cs \<Longrightarrow> free_cell cs i \<Longrightarrow> e < length cs \<and> free_cell cs e"
  using walk_less [of "length cs" h] by (fastforce simp: aim_def)

lemma first_empty_aim:
  assumes l: "linked cs" and h: "h < length cs"
  shows "\<exists>e. first_empty (length cs) cs h = Inr e \<and> aim h cs e"
proof (cases "\<exists>y < length cs. mc_seq (cs ! walk h (length cs) y) = {}")
  case True
  let ?w = "walk h (length cs)"
  have n: "0 < length cs" using h by linarith
  obtain y where "y < length cs \<and> mc_seq (cs ! ?w y) = {}" "\<forall>z < y. \<not> (z < length cs \<and> mc_seq (cs ! ?w z) = {})"
    using True exists_least_iff [of "\<lambda>y. y < length cs \<and> mc_seq (cs ! ?w y) = {}"] by blast
  then have y: "y < length cs" "mc_seq (cs ! ?w y) = {}" "\<And>z. z < y \<Longrightarrow> z < length cs \<Longrightarrow> mc_seq (cs ! ?w z) \<noteq> {}" by auto
  have fe: "free_cell cs i \<longleftrightarrow> mc_seq (cs ! i) = {}" if "i < length cs" for i using l that by (auto simp: linked_def free_cell_def)
  have "first_empty (length cs) cs h = Inr (?w y)"
    by (rule first_empty_found [where x = 0]) (use n y h in \<open>auto simp: wrap_cell_def walk_def\<close>)
  moreover have "aim h cs (?w y)" unfolding aim_def
  proof (intro allI impI exI [of _ y] conjI)
    show "\<not> free_cell cs (?w z)" if "z < y" for z using fe walk_less [OF n] y that by (metis less_trans)
    show "free_cell cs (?w z)" if "y < z \<and> z < length cs \<and> mc_seq (cs ! ?w z) = {}" for z using fe walk_less [OF n] that by blast
  qed (use y fe walk_less [OF n] in auto)
  ultimately show ?thesis by blast
next
  case False
  have "\<not> free_cell cs i" if i: "i < length cs" for i
  proof -
    obtain y where "y < length cs" "i = walk h (length cs) y" using walk_surj [OF i] by blast
    then have "mc_seq (cs ! i) \<noteq> {}" using False by auto
    then show ?thesis using l i by (auto simp: linked_def free_cell_def)
  qed
  then have "aim h cs e" for e by (simp add: aim_def)
  then show ?thesis using first_empty_total [OF h] by blast
qed

lemma empty_after_aim:
  assumes a: "aim h cs e" and e: "e < length cs" "free_cell cs e" and l: "length cs' = length cs"
    and fr: "\<And>i. i < length cs \<Longrightarrow> free_cell cs' i \<longleftrightarrow> free_cell cs i \<and> i \<noteq> e"
    and em: "\<And>i. i < length cs \<Longrightarrow> i \<noteq> e \<Longrightarrow> mc_seq (cs' ! i) = {} \<longleftrightarrow> mc_seq (cs ! i) = {}"
    and fe: "\<And>i. i < length cs \<Longrightarrow> free_cell cs' i \<Longrightarrow> mc_seq (cs' ! i) = {}"
  shows "\<exists>e'. empty_after (length cs') cs' e = Inr e' \<and> aim h cs' e'"
proof (cases "\<exists>i < length cs. free_cell cs' i")
  case True
  let ?w = "walk h (length cs)"
  have n: "0 < length cs" using e by linarith
  obtain x where x: "x < length cs" "e = ?w x" "\<forall>y < x. \<not> free_cell cs (?w y)"
      "\<forall>y. x < y \<and> y < length cs \<and> mc_seq (cs ! ?w y) = {} \<longrightarrow> free_cell cs (?w y)" using a e unfolding aim_def by blast
  have ne: "?w y \<noteq> e" if "x < y" "y < length cs" for y using walk_inj [of y "length cs" x h] x that by auto
  let ?P = "\<lambda>y. x < y \<and> y < length cs \<and> mc_seq (cs' ! ?w y) = {}"
  obtain i where i: "i < length cs" "free_cell cs' i" using True by blast
  obtain z where z: "z < length cs" "i = ?w z" using walk_surj [OF i(1)] by blast
  have "free_cell cs i" "i \<noteq> e" using fr [OF i(1)] i(2) by auto
  then have "x < z" using x z by (metis linorder_neqE_nat)
  then have ex: "?P z" using z fe [OF i] by simp
  obtain y where py: "?P y" and "\<forall>z < y. \<not> ?P z" using ex exists_least_iff [of ?P] by blast
  then have y: "x < y" "y < length cs" "mc_seq (cs' ! ?w y) = {}" "\<And>z. x < z \<Longrightarrow> z < y \<Longrightarrow> mc_seq (cs' ! ?w z) \<noteq> {}"
    using less_trans by blast+
  have "empty_after (length cs') cs' e = Inr (?w y)"
    unfolding x(2) using empty_after_found [of cs' x y h "length cs'"] l n y by simp
  moreover have "aim h cs' (?w y)" unfolding aim_def l
  proof (intro allI impI exI [of _ y] conjI)
    have "mc_seq (cs ! ?w y) = {}" using em [OF walk_less [OF n] ne [OF y(1,2)]] y(3) by simp
    then show "free_cell cs' (?w y)" using x(4) y fr [OF walk_less [OF n]] ne by blast
    show "\<not> free_cell cs' (?w v)" if "v < y" for v
    proof (cases v x rule: linorder_cases)
      case less
      then show ?thesis using x(3) fr [OF walk_less [OF n]] by blast
    next
      case equal
      then show ?thesis using x(2) fr [OF walk_less [OF n]] by blast
    next
      case greater
      then show ?thesis using y(4) that fe [OF walk_less [OF n]] by blast
    qed
    show "free_cell cs' (?w v)" if v: "y < v \<and> v < length cs \<and> mc_seq (cs' ! ?w v) = {}" for v
    proof -
      have "x < v" using v y(1) by simp
      then show ?thesis using x(4) v em [OF walk_less [OF n] ne [of v]] fr [OF walk_less [OF n]] ne [of v] by blast
    qed
  qed (use y in auto)
  ultimately show ?thesis by blast
next
  case False
  then show ?thesis using empty_after_total [of e cs'] e l by (auto simp: aim_def)
qed

section \<open>Every set gets a cell of its own\<close>

text \<open>When a sequence has no cell or shares one, there is a free cell: there are as many cells as sequences.\<close>

lemma free_cell_exists:
  assumes s: "own_seq cs s" and t: "tail_of cs s < 0 \<or> (\<exists>w. own_seq cs w \<and> w \<noteq> s \<and> tail_of cs w = tail_of cs s)"
  shows "\<exists>i < length cs. free_cell cs i"
proof (rule ccontr)
  assume n: "\<not> ?thesis"
  let ?A = "{u. own_seq cs u} - {s}"
  have A: "{u. own_seq cs u} = {0..<int (length cs)}" by (auto simp: own_seq_def)
  have "int ` {..<length cs} \<subseteq> tail_of cs ` ?A"
  proof
    fix z assume "z \<in> int ` {..<length cs}"
    then obtain i where i: "z = int i" "i < length cs" by auto
    then obtain u where u: "own_seq cs u" "tail_of cs u = int i" using n by (auto simp: free_cell_def)
    show "z \<in> tail_of cs ` ?A"
    proof (cases "u = s")
      case True
      then show ?thesis using t u i by (metis (mono_tags, lifting) DiffI image_eqI mem_Collect_eq not_less of_nat_0_le_iff singletonD)
    qed (use u i in force)
  qed
  then have "card (int ` {..<length cs}) \<le> card (tail_of cs ` ?A)" by (rule card_mono [rotated]) (simp add: A)
  also have "\<dots> \<le> card ?A" by (rule card_image_le) (simp add: A)
  also have "\<dots> < length cs"
  proof -
    have "0 < length cs" using s by (auto simp: own_seq_def)
    moreover have "s \<in> {0..<int (length cs)}" using s by (simp add: own_seq_def)
    ultimately show ?thesis unfolding A by (simp add: card_Diff_singleton)
  qed
  finally show False by (simp add: card_image)
qed

text \<open>The choice of cells so far: the sequences \<open>fs\<close> have a cell of their own, with what the cell they had held; the others
  are as they were in \<open>cs1\<close>. A sequence of \<open>fs\<close> that had no cell is not entered in its new one.\<close>

definition chosen :: "mem_cell list \<Rightarrow> int set \<Rightarrow> mem_cell list \<Rightarrow> bool" where
  "chosen cs1 fs cs \<longleftrightarrow> length cs = length cs1 \<and>
     (\<forall>u. own_seq cs u \<longrightarrow> -1 \<le> tail_of cs u \<and> tail_of cs u < int (length cs) \<and> (u \<notin> fs \<longrightarrow> tail_of cs u = tail_of cs1 u)) \<and>
     (\<forall>f \<in> fs. own_seq cs f \<and> 0 \<le> tail_of cs f \<and> (\<forall>u. own_seq cs u \<and> tail_of cs u = tail_of cs f \<longrightarrow> u = f)) \<and>
     (\<forall>i < length cs. mc_seq (cs ! i) = {u. own_seq cs u \<and> tail_of cs u = int i \<and> \<not> (u \<in> fs \<and> tail_of cs1 u = -1)}) \<and>
     (\<forall>f \<in> fs. tail_of cs1 f \<ge> 0 \<longrightarrow> mc_pos (cs ! nat (tail_of cs f)) = mc_pos (cs1 ! nat (tail_of cs1 f)) \<and>
        mc_src (cs ! nat (tail_of cs f)) = mc_src (cs1 ! nat (tail_of cs1 f))) \<and>
     (\<forall>f \<in> fs. tail_of cs1 f < 0 \<longrightarrow> mc_src (cs ! nat (tail_of cs f)) = -1 \<or> mc_src (cs ! nat (tail_of cs f)) = tail_of cs f) \<and>
     (\<forall>i < length cs. (\<forall>f \<in> fs. tail_of cs f \<noteq> int i) \<longrightarrow> mc_pos (cs ! i) = mc_pos (cs1 ! i) \<and> mc_src (cs ! i) = mc_src (cs1 ! i)) \<and>
     (\<forall>i < length cs. mc_seq (cs1 ! i) \<noteq> {} \<longrightarrow> \<not> free_cell cs i)"

lemma chosenD:
  assumes "chosen cs1 fs cs"
  shows "length cs = length cs1" "own_seq cs u \<Longrightarrow> -1 \<le> tail_of cs u \<and> tail_of cs u < int (length cs)"
    "own_seq cs u \<Longrightarrow> u \<notin> fs \<Longrightarrow> tail_of cs u = tail_of cs1 u"
    "f \<in> fs \<Longrightarrow> own_seq cs f \<and> 0 \<le> tail_of cs f" "f \<in> fs \<Longrightarrow> own_seq cs u \<Longrightarrow> tail_of cs u = tail_of cs f \<Longrightarrow> u = f"
    "i < length cs \<Longrightarrow> mc_seq (cs ! i) = {u. own_seq cs u \<and> tail_of cs u = int i \<and> \<not> (u \<in> fs \<and> tail_of cs1 u = -1)}"
    "f \<in> fs \<Longrightarrow> tail_of cs1 f \<ge> 0 \<Longrightarrow> mc_pos (cs ! nat (tail_of cs f)) = mc_pos (cs1 ! nat (tail_of cs1 f)) \<and>
       mc_src (cs ! nat (tail_of cs f)) = mc_src (cs1 ! nat (tail_of cs1 f))"
    "f \<in> fs \<Longrightarrow> tail_of cs1 f < 0 \<Longrightarrow> mc_src (cs ! nat (tail_of cs f)) = -1 \<or> mc_src (cs ! nat (tail_of cs f)) = tail_of cs f"
    "i < length cs \<Longrightarrow> (\<And>f. f \<in> fs \<Longrightarrow> tail_of cs f \<noteq> int i) \<Longrightarrow> mc_pos (cs ! i) = mc_pos (cs1 ! i) \<and> mc_src (cs ! i) = mc_src (cs1 ! i)"
    "i < length cs \<Longrightarrow> mc_seq (cs1 ! i) \<noteq> {} \<Longrightarrow> \<not> free_cell cs i"
  using assms unfolding chosen_def by blast+

lemma chosen_init: "linked cs \<Longrightarrow> chosen cs {} cs"
  by (auto simp: chosen_def linked_def free_cell_def)

lemma chosen_seq:
  assumes c: "chosen cs1 fs cs" and s: "own_seq cs s" "s \<notin> fs" and t: "tail_of cs s = int i"
  shows "s \<in> mc_seq (cs ! i)" "i < length cs" "f \<in> fs \<Longrightarrow> tail_of cs f \<noteq> int i"
    "mc_pos (cs ! i) = mc_pos (cs1 ! i) \<and> mc_src (cs ! i) = mc_src (cs1 ! i)"
    "mc_seq (cs ! i) = {u. own_seq cs u \<and> tail_of cs u = int i}"
proof -
  show i: "i < length cs" using chosenD(2) [OF c s(1)] t by simp
  show "s \<in> mc_seq (cs ! i)" using chosenD(6) [OF c i] s t by simp
  show nf: "tail_of cs f \<noteq> int i" if "f \<in> fs" for f using chosenD(5) [OF c that s(1)] t s(2) that by auto
  show "mc_pos (cs ! i) = mc_pos (cs1 ! i) \<and> mc_src (cs ! i) = mc_src (cs1 ! i)" by (rule chosenD(9) [OF c i nf])
  show "mc_seq (cs ! i) = {u. own_seq cs u \<and> tail_of cs u = int i}" using chosenD(6) [OF c i] nf by auto
qed

lemma chosen_keep:
  assumes c: "chosen cs1 fs cs" and s: "own_seq cs s" "s \<notin> fs" and t: "tail_of cs s = int i" and o: "mc_seq (cs ! i) = {s}"
  shows "chosen cs1 (insert s fs) cs"
proof -
  note q = chosen_seq [OF c s t]
  have t1: "tail_of cs1 s = int i" using chosenD(3) [OF c s] t by simp
  have sole: "u = s" if "own_seq cs u" "tail_of cs u = int i" for u using q(5) o that by auto
  show ?thesis unfolding chosen_def
  proof (intro conjI allI impI ballI)
    show "length cs = length cs1" by (rule chosenD(1) [OF c])
    show "-1 \<le> tail_of cs u" "tail_of cs u < int (length cs)" if "own_seq cs u" for u using chosenD(2) [OF c that] by simp_all
    show "tail_of cs u = tail_of cs1 u" if "own_seq cs u" "u \<notin> insert s fs" for u using chosenD(3) [OF c that(1)] that(2) by simp
    show "own_seq cs f" "0 \<le> tail_of cs f" if "f \<in> insert s fs" for f using chosenD(4) [OF c, of f] that s(1) t by auto
    show "u = f" if "f \<in> insert s fs" "own_seq cs u \<and> tail_of cs u = tail_of cs f" for f u
    proof (cases "f = s")
      case True
      then show ?thesis using sole that(2) t by simp
    next
      case False
      then show ?thesis using chosenD(5) [OF c, of f u] that by blast
    qed
    show "mc_seq (cs ! j) = {u. own_seq cs u \<and> tail_of cs u = int j \<and> \<not> (u \<in> insert s fs \<and> tail_of cs1 u = -1)}" if "j < length cs" for j
      using chosenD(6) [OF c that] t1 by auto
    show "mc_pos (cs ! nat (tail_of cs f)) = mc_pos (cs1 ! nat (tail_of cs1 f))" "mc_src (cs ! nat (tail_of cs f)) = mc_src (cs1 ! nat (tail_of cs1 f))"
      if "f \<in> insert s fs" "tail_of cs1 f \<ge> 0" for f using that chosenD(7) [OF c, of f] q(4) t t1 by auto
    show "mc_src (cs ! nat (tail_of cs f)) = -1 \<or> mc_src (cs ! nat (tail_of cs f)) = tail_of cs f"
      if "f \<in> insert s fs" "tail_of cs1 f < 0" for f using that chosenD(8) [OF c, of f] t1 by auto
    show "mc_pos (cs ! j) = mc_pos (cs1 ! j)" "mc_src (cs ! j) = mc_src (cs1 ! j)" if "j < length cs" "\<forall>f \<in> insert s fs. tail_of cs f \<noteq> int j" for j
      using chosenD(9) [OF c that(1)] that(2) by auto
    show "\<not> free_cell cs j" if "j < length cs" "mc_seq (cs1 ! j) \<noteq> {}" for j by (rule chosenD(10) [OF c that])
  qed
qed

text \<open>A sequence leaves the cell it shares, if it has one, and gets the free cell \<open>e\<close>.\<close>

definition moved :: "int \<Rightarrow> nat \<Rightarrow> mem_cell list \<Rightarrow> mem_cell list \<Rightarrow> bool" where
  "moved s e cs cs' \<longleftrightarrow> length cs' = length cs \<and>
     (\<forall>u. own_seq cs u \<longrightarrow> tail_of cs' u = (if u = s then int e else tail_of cs u)) \<and>
     (\<forall>i < length cs. mc_seq (cs' ! i) = (if i = e then if tail_of cs s \<ge> 0 then {s} else {} else mc_seq (cs ! i) - {s})) \<and>
     (\<forall>i < length cs. i \<noteq> e \<longrightarrow> mc_pos (cs' ! i) = mc_pos (cs ! i) \<and> mc_src (cs' ! i) = mc_src (cs ! i)) \<and>
     (if tail_of cs s \<ge> 0 then mc_pos (cs' ! e) = mc_pos (cs ! nat (tail_of cs s)) \<and> mc_src (cs' ! e) = mc_src (cs ! nat (tail_of cs s))
      else mc_pos (cs' ! e) = mc_pos (cs ! e) \<and> mc_src (cs' ! e) = mc_src (cs ! e))"

lemma moved_free:
  assumes c: "chosen cs1 fs cs" and s: "own_seq cs s" "s \<notin> fs" and e: "e < length cs" "free_cell cs e" and m: "moved s e cs cs'"
    and w: "tail_of cs s \<ge> 0 \<Longrightarrow> own_seq cs w \<and> w \<noteq> s \<and> tail_of cs w = tail_of cs s"
  shows "free_cell cs' i \<longleftrightarrow> free_cell cs i \<and> i \<noteq> e" and "i < length cs \<Longrightarrow> i \<noteq> e \<Longrightarrow> mc_seq (cs' ! i) = {} \<longleftrightarrow> mc_seq (cs ! i) = {}"
proof -
  have o: "own_seq cs' u = own_seq cs u" for u using m by (simp add: moved_def own_seq_def)
  have tl: "tail_of cs' u = (if u = s then int e else tail_of cs u)" if "own_seq cs u" for u using m that by (simp add: moved_def)
  show "free_cell cs' i \<longleftrightarrow> free_cell cs i \<and> i \<noteq> e"
  proof
    assume f: "free_cell cs' i"
    have ne: "i \<noteq> e" using f o tl [OF s(1)] s(1) by (auto simp: free_cell_def)
    moreover have "tail_of cs u \<noteq> int i" if u: "own_seq cs u" for u
    proof (cases "u = s")
      case True
      then show ?thesis using f o tl [of w] w by (cases "tail_of cs s \<ge> 0") (auto simp: free_cell_def)
    next
      case False
      then show ?thesis using f o tl [OF u] u by (auto simp: free_cell_def)
    qed
    ultimately show "free_cell cs i \<and> i \<noteq> e" by (simp add: free_cell_def)
  next
    assume "free_cell cs i \<and> i \<noteq> e"
    then show "free_cell cs' i" using o tl by (simp add: free_cell_def)
  qed
  assume i: "i < length cs" "i \<noteq> e"
  have q: "mc_seq (cs' ! i) = mc_seq (cs ! i) - {s}" using m i by (simp add: moved_def)
  show "mc_seq (cs' ! i) = {} \<longleftrightarrow> mc_seq (cs ! i) = {}"
  proof (cases "s \<in> mc_seq (cs ! i)")
    case True
    then have t: "tail_of cs s = int i" using chosenD(6) [OF c i(1)] by simp
    then have "w \<in> mc_seq (cs ! i) - {s}" using chosen_seq(5) [OF c s t] w by simp
    then show ?thesis using q by auto
  qed (use q in simp)
qed

lemma chosen_move:
  assumes c: "chosen cs1 fs cs" and s: "own_seq cs s" "s \<notin> fs" and e: "e < length cs" "free_cell cs e" and m: "moved s e cs cs'"
    and w: "tail_of cs s \<ge> 0 \<Longrightarrow> own_seq cs w \<and> w \<noteq> s \<and> tail_of cs w = tail_of cs s"
    and ok: "\<And>i. i < length cs1 \<Longrightarrow> cell_ok i (cs1 ! i)"
  shows "chosen cs1 (insert s fs) cs'"
proof -
  have l: "length cs' = length cs" using m by (simp add: moved_def)
  have o: "own_seq cs' u = own_seq cs u" for u using l by (simp add: own_seq_def)
  have tl: "tail_of cs' u = (if u = s then int e else tail_of cs u)" if "own_seq cs u" for u using m that by (simp add: moved_def)
  have q: "mc_seq (cs' ! i) = (if i = e then if tail_of cs s \<ge> 0 then {s} else {} else mc_seq (cs ! i) - {s})" if "i < length cs" for i
    using m that by (simp add: moved_def)
  have p: "mc_pos (cs' ! i) = mc_pos (cs ! i) \<and> mc_src (cs' ! i) = mc_src (cs ! i)" if "i < length cs" "i \<noteq> e" for i using m that by (simp add: moved_def)
  have t1: "tail_of cs1 s = tail_of cs s" using chosenD(3) [OF c s] by simp
  have fe: "tail_of cs u \<noteq> int e" if "own_seq cs u" for u using e(2) that by (simp add: free_cell_def)
  have tf: "tail_of cs' f = tail_of cs f" "own_seq cs f" "nat (tail_of cs f) < length cs" "nat (tail_of cs f) \<noteq> e" if "f \<in> fs" for f
    using chosenD(4) [OF c that] chosenD(2) [OF c, of f] tl [of f] s(2) that fe [of f] by auto
  have se: "mc_src (cs ! e) = -1 \<or> mc_src (cs ! e) = int e"
  proof -
    have "mc_seq (cs1 ! e) = {}" using chosenD(10) [OF c e(1)] e(2) by blast
    then have "mc_src (cs1 ! e) = -1 \<or> mc_src (cs1 ! e) = int e" using ok [of e] e(1) chosenD(1) [OF c] by (simp add: cell_ok_def)
    moreover have "mc_src (cs ! e) = mc_src (cs1 ! e)" using chosenD(9) [OF c e(1)] fe chosenD(4) [OF c] by blast
    ultimately show ?thesis by simp
  qed
  have lo: "-1 \<le> tail_of cs s" using chosenD(2) [OF c s(1)] by simp
  show ?thesis unfolding chosen_def l
  proof (intro conjI allI impI ballI)
    show "length cs = length cs1" by (rule chosenD(1) [OF c])
    show "-1 \<le> tail_of cs' u" "tail_of cs' u < int (length cs)" if "own_seq cs' u" for u
      using that o tl [of u] chosenD(2) [OF c, of u] e(1) by (simp_all split: if_splits)
    show "tail_of cs' u = tail_of cs1 u" if "own_seq cs' u" "u \<notin> insert s fs" for u using chosenD(3) [OF c, of u] that o tl [of u] by simp
    show "own_seq cs' f" "0 \<le> tail_of cs' f" if "f \<in> insert s fs" for f using that o tl [OF s(1)] s(1) tf [of f] chosenD(4) [OF c, of f] by auto
    show "u = f" if "f \<in> insert s fs" "own_seq cs' u \<and> tail_of cs' u = tail_of cs' f" for f u
    proof (cases "f = s")
      case True
      then show ?thesis using that(2) o tl [of u] tl [OF s(1)] fe [of u] by (auto split: if_splits)
    next
      case False
      then have f: "f \<in> fs" using that(1) by simp
      then show ?thesis using that(2) o tl [of u] tf(1) [OF f] fe [OF tf(2) [OF f]] chosenD(5) [OF c f, of u] by (auto split: if_splits)
    qed
    show "mc_seq (cs' ! j) = {u. own_seq cs' u \<and> tail_of cs' u = int j \<and> \<not> (u \<in> insert s fs \<and> tail_of cs1 u = -1)}" if "j < length cs" for j
    proof (cases "j = e")
      case True
      have "{u. own_seq cs' u \<and> tail_of cs' u = int j \<and> \<not> (u \<in> insert s fs \<and> tail_of cs1 u = -1)} = {u. u = s \<and> tail_of cs s \<noteq> -1}"
        using True o tl fe t1 s(1) by (auto split: if_splits)
      then show ?thesis using q [OF that] True lo by auto
    next
      case False
      have "{u. own_seq cs' u \<and> tail_of cs' u = int j \<and> \<not> (u \<in> insert s fs \<and> tail_of cs1 u = -1)} =
          {u. own_seq cs u \<and> tail_of cs u = int j \<and> \<not> (u \<in> fs \<and> tail_of cs1 u = -1)} - {s}" using False o tl by (auto split: if_splits)
      then show ?thesis using q [OF that] chosenD(6) [OF c that] False by simp
    qed
    show "mc_pos (cs' ! nat (tail_of cs' f)) = mc_pos (cs1 ! nat (tail_of cs1 f))" "mc_src (cs' ! nat (tail_of cs' f)) = mc_src (cs1 ! nat (tail_of cs1 f))"
      if f: "f \<in> insert s fs" "tail_of cs1 f \<ge> 0" for f
    proof -
      have "mc_pos (cs' ! nat (tail_of cs' f)) = mc_pos (cs1 ! nat (tail_of cs1 f)) \<and> mc_src (cs' ! nat (tail_of cs' f)) = mc_src (cs1 ! nat (tail_of cs1 f))"
      proof (cases "f = s")
        case True
        then have t: "tail_of cs s = int (nat (tail_of cs s))" using f(2) t1 by simp
        show ?thesis using True f(2) m tl [OF s(1)] t1 chosen_seq(4) [OF c s t] by (simp add: moved_def)
      next
        case False
        then have g: "f \<in> fs" using f(1) by simp
        then show ?thesis using tf [OF g] p [OF tf(3,4) [OF g]] chosenD(7) [OF c g f(2)] by simp
      qed
      then show "mc_pos (cs' ! nat (tail_of cs' f)) = mc_pos (cs1 ! nat (tail_of cs1 f))" "mc_src (cs' ! nat (tail_of cs' f)) = mc_src (cs1 ! nat (tail_of cs1 f))"
        by simp_all
    qed
    show "mc_src (cs' ! nat (tail_of cs' f)) = -1 \<or> mc_src (cs' ! nat (tail_of cs' f)) = tail_of cs' f"
      if f: "f \<in> insert s fs" "tail_of cs1 f < 0" for f
    proof (cases "f = s")
      case True
      then show ?thesis using f(2) t1 m se tl [OF s(1)] by (simp add: moved_def)
    next
      case False
      then have g: "f \<in> fs" using f(1) by simp
      then show ?thesis using tf [OF g] p [OF tf(3,4) [OF g]] chosenD(8) [OF c g f(2)] by simp
    qed
    show "mc_pos (cs' ! j) = mc_pos (cs1 ! j)" "mc_src (cs' ! j) = mc_src (cs1 ! j)" if j: "j < length cs" "\<forall>f \<in> insert s fs. tail_of cs' f \<noteq> int j" for j
    proof -
      have "j \<noteq> e" using j(2) tl [OF s(1)] by auto
      moreover have "tail_of cs f \<noteq> int j" if "f \<in> fs" for f using j(2) tf(1) [OF that] that by auto
      ultimately show "mc_pos (cs' ! j) = mc_pos (cs1 ! j)" "mc_src (cs' ! j) = mc_src (cs1 ! j)" using p [OF j(1)] chosenD(9) [OF c j(1)] by simp_all
    qed
    show "\<not> free_cell cs' j" if "j < length cs" "mc_seq (cs1 ! j) \<noteq> {}" for j
      using moved_free(1) [OF c s e m w, of j] chosenD(10) [OF c that] by blast
  qed
qed

lemma free_empty:
  assumes c: "chosen cs1 fs cs" and "i < length cs" and "free_cell cs i"
  shows "mc_seq (cs ! i) = {}"
  using chosenD(6) [OF c assms(2)] assms(3) by (auto simp: free_cell_def)

lemma moved_fresh:
  assumes c: "chosen cs1 fs (rm_cells m)" and s: "own_seq (rm_cells m) s" "s \<notin> fs" "tail_of (rm_cells m) s < 0" and e: "e < rm_size m" "free_cell (rm_cells m) e"
  shows "moved s e (rm_cells m) (rm_cells (set_tail s (int e) m))"
proof -
  let ?cs = "rm_cells m"
  have l: "length (rm_cells (set_tail s (int e) m)) = length ?cs" by (simp add: set_tail_cells)
  have n: "s \<notin> mc_seq (?cs ! i)" if "i < length ?cs" for i using chosenD(6) [OF c that] s(3) by auto
  note f = free_empty [OF c _ e(2)]
  note k = set_tail_cell [of _ m s "int e"]
  show ?thesis unfolding moved_def
  proof (intro conjI allI impI)
    show "mc_seq (rm_cells (set_tail s (int e) m) ! i) = (if i = e then if tail_of ?cs s \<ge> 0 then {s} else {} else mc_seq (?cs ! i) - {s})"
      if "i < length ?cs" for i using k(1) [of i] that s(3) f n [OF that] by (simp add: rm_size_def)
  qed (use l s k e set_tail_of [of m] in \<open>simp_all add: rm_size_def\<close>)
qed

lemma moved_shared:
  assumes c: "chosen cs1 fs (rm_cells m)" and s: "own_seq (rm_cells m) s" "s \<notin> fs" and t: "tail_of (rm_cells m) s = int i" and e: "e < rm_size m" "free_cell (rm_cells m) e"
  defines "m' \<equiv> set_tail s (int e) (put_cell i ((rm_cells m ! i)\<lparr>mc_seq := mc_seq (rm_cells m ! i) - {s}\<rparr>)
      (put_cell e ((rm_cells m ! e)\<lparr>mc_pos := mc_pos (rm_cells m ! i), mc_src := mc_src (rm_cells m ! i), mc_seq := {s}\<rparr>) m))"
  shows "moved s e (rm_cells m) (rm_cells m')"
proof -
  let ?cs = "rm_cells m"
  note q = chosen_seq [OF c s t]
  have ne: "e \<noteq> i" using e(2) s t by (auto simp: free_cell_def)
  let ?n = "put_cell i ((rm_cells m ! i)\<lparr>mc_seq := mc_seq (rm_cells m ! i) - {s}\<rparr>)
      (put_cell e ((rm_cells m ! e)\<lparr>mc_pos := mc_pos (rm_cells m ! i), mc_src := mc_src (rm_cells m ! i), mc_seq := {s}\<rparr>) m)"
  have l: "length (rm_cells m') = length ?cs" by (simp add: m'_def set_tail_cells)
  have el: "e < length ?cs" using e(1) by (simp add: rm_size_def)
  have k: "mc_seq (rm_cells m' ! j) = mc_seq (rm_cells ?n ! j)" "mc_pos (rm_cells m' ! j) = mc_pos (rm_cells ?n ! j)" "mc_src (rm_cells m' ! j) = mc_src (rm_cells ?n ! j)"
    if "j < length ?cs" for j using set_tail_cell [of j ?n s "int e"] that by (simp_all add: m'_def rm_size_def)
  have tn: "tail_of (rm_cells ?n) u = tail_of ?cs u" for u using el q(2) ne by (auto simp: tail_of_def nth_list_update)
  have ns: "s \<notin> mc_seq (?cs ! j)" if "j < length ?cs" "j \<noteq> i" for j using chosenD(6) [OF c that(1)] t that(2) by auto
  show ?thesis unfolding moved_def
  proof (intro conjI allI impI)
    show "tail_of (rm_cells m') u = (if u = s then int e else tail_of ?cs u)" if "own_seq ?cs u" for u
      using set_tail_of [of ?n u s "int e"] tn [of u] that s(1) by (simp add: m'_def)
    show "mc_seq (rm_cells m' ! j) = (if j = e then if tail_of ?cs s \<ge> 0 then {s} else {} else mc_seq (?cs ! j) - {s})"
      if "j < length ?cs" for j using k(1) [OF that] t q(2) el ne ns [OF that] by (auto simp: nth_list_update)
    show "mc_pos (rm_cells m' ! j) = mc_pos (?cs ! j)" "mc_src (rm_cells m' ! j) = mc_src (?cs ! j)" if "j < length ?cs" "j \<noteq> e" for j
      using k(2,3) [OF that(1)] that q(2) el by (auto simp: nth_list_update)
  qed (use k(2,3) [OF el] l t el q(2) ne in \<open>simp_all add: nth_list_update\<close>)
qed

lemma take_cell_ok:
  assumes c: "chosen cs1 fs (rm_cells m)" and s: "own_seq (rm_cells m) s" "s \<notin> fs" and a: "aim h (rm_cells m) e"
    and ok: "\<And>i. i < length cs1 \<Longrightarrow> cell_ok i (cs1 ! i)"
  shows "\<exists>e' m'. take_cell n k s (e, m) = Inr (e', m') \<and> chosen cs1 (insert s fs) (rm_cells m') \<and> (k + 1 < n \<longrightarrow> aim h (rm_cells m') e') \<and> same_frame m m' \<and>
    (\<forall>u. own_seq (rm_cells m) u \<and> u \<noteq> s \<longrightarrow> tail_of (rm_cells m') u = tail_of (rm_cells m) u)"
proof -
  let ?cs = "rm_cells m"
  have lo: "-1 \<le> tail_of ?cs s" using chosenD(2) [OF c s(1)] by simp
  have finish: "\<exists>e' m''. bind_r (if k + 1 < n then empty_after (rm_size m') (rm_cells m') e else Inr e) (\<lambda>e. Inr (e, m')) = Inr (e', m'') \<and>
      chosen cs1 (insert s fs) (rm_cells m'') \<and> (k + 1 < n \<longrightarrow> aim h (rm_cells m'') e') \<and> same_frame m m'' \<and>
      (\<forall>u. own_seq ?cs u \<and> u \<noteq> s \<longrightarrow> tail_of (rm_cells m'') u = tail_of ?cs u)"
    if mv: "moved s e ?cs (rm_cells m')" and fm: "same_frame m m'" and e: "e < length ?cs" "free_cell ?cs e"
      and w: "tail_of ?cs s \<ge> 0 \<Longrightarrow> own_seq ?cs w \<and> w \<noteq> s \<and> tail_of ?cs w = tail_of ?cs s" for m' w
  proof -
    have c': "chosen cs1 (insert s fs) (rm_cells m')" by (rule chosen_move [OF c s e mv w ok])
    have l: "length (rm_cells m') = length ?cs" using mv by (simp add: moved_def)
    obtain e' where "empty_after (rm_size m') (rm_cells m') e = Inr e'" "aim h (rm_cells m') e'"
      using empty_after_aim [OF a e l moved_free [OF c s e mv w] free_empty [OF c']] l by (auto simp: rm_size_def)
    moreover have "\<forall>u. own_seq ?cs u \<and> u \<noteq> s \<longrightarrow> tail_of (rm_cells m') u = tail_of ?cs u" using mv by (simp add: moved_def)
    ultimately show ?thesis using c' fm by auto
  qed
  consider (own) i where "tail_of ?cs s = int i" "mc_seq (?cs ! i) = {s}"
    | (shared) i w where "tail_of ?cs s = int i" "mc_seq (?cs ! i) \<noteq> {s}" "own_seq ?cs w" "w \<noteq> s" "tail_of ?cs w = int i" | (none) "tail_of ?cs s < 0"
  proof (cases "tail_of ?cs s < 0")
    case False
    then obtain i where i: "tail_of ?cs s = int i" using nonneg_int_cases by (metis not_less)
    note q = chosen_seq [OF c s i]
    show ?thesis
    proof (cases "mc_seq (?cs ! i) = {s}")
      case True
      then show ?thesis using that(1) i by blast
    next
      case False
      then obtain w where "w \<in> mc_seq (?cs ! i)" "w \<noteq> s" using q(1) by blast
      then show ?thesis using that(2) [OF i False, of w] q(5) by simp
    qed
  qed (use that in blast)
  then show ?thesis
  proof cases
    case own
    note q = chosen_seq [OF c s own(1)]
    have "take_cell n k s (e, m) = Inr (e, m)" using own q(2) by (simp add: take_cell_def Let_def tail_of_def read_cell_def rm_size_def)
    then show ?thesis using chosen_keep [OF c s own] a by (simp add: same_frame_def)
  next
    case shared
    note q = chosen_seq [OF c s shared(1)]
    obtain j where "j < length ?cs" "free_cell ?cs j" using free_cell_exists [OF s(1)] shared by auto
    then have e: "e < length ?cs" "free_cell ?cs e" using aimD [OF a] by auto
    have w: "w \<in> mc_seq (?cs ! i)" using q(5) shared by simp
    then have nc: "card (mc_seq (?cs ! i)) \<noteq> 1" using q(1) shared(4) by (auto simp: card_1_singleton_iff)
    let ?m = "set_tail s (int e) (put_cell i ((?cs ! i)\<lparr>mc_seq := mc_seq (?cs ! i) - {s}\<rparr>)
        (put_cell e ((?cs ! e)\<lparr>mc_pos := mc_pos (?cs ! i), mc_src := mc_src (?cs ! i), mc_seq := {s}\<rparr>) m))"
    have "take_cell n k s (e, m) = bind_r (if k + 1 < n then empty_after (rm_size ?m) (rm_cells ?m) e else Inr e) (\<lambda>e. Inr (e, ?m))"
    proof -
      have "mc_tail (?cs ! nat s) = int i" "mc_seq (?cs ! e) = {}" "mc_seq (?cs ! i) - {s} \<noteq> {}"
        using shared(1,4) free_empty [OF c e] w by (auto simp: tail_of_def)
      then show ?thesis using q(1,2) e nc by (simp add: take_cell_def Let_def read_cell_def rm_size_def)
    qed
    moreover have "moved s e ?cs (rm_cells ?m)" using moved_shared [OF c s shared(1)] e by (simp add: rm_size_def)
    ultimately show ?thesis using finish [of ?m w] e shared by (simp add: same_frame_def)
  next
    case none
    obtain j where "j < length ?cs" "free_cell ?cs j" using free_cell_exists [OF s(1)] none by auto
    then have e: "e < length ?cs" "free_cell ?cs e" using aimD [OF a] by auto
    let ?m = "set_tail s (int e) m"
    have "take_cell n k s (e, m) = bind_r (if k + 1 < n then empty_after (rm_size ?m) (rm_cells ?m) e else Inr e) (\<lambda>e. Inr (e, ?m))"
      using none e free_empty [OF c e] by (simp add: take_cell_def Let_def tail_of_def rm_size_def)
    moreover have "moved s e ?cs (rm_cells ?m)" using moved_fresh [OF c s none] e by (simp add: rm_size_def)
    ultimately show ?thesis using finish [of ?m s] e none by (simp add: same_frame_def)
  qed
qed

text \<open>All sets have a cell of their own; \<open>mn\<close> and \<open>mx\<close> are the first and the last of these cells.\<close>

definition spans :: "int \<Rightarrow> int \<Rightarrow> int set \<Rightarrow> bool" where
  "spans mn mx ts \<longleftrightarrow> mn \<in> ts \<and> mx \<in> ts \<and> (\<forall>t \<in> ts. mn \<le> t \<and> t \<le> mx)"

lemma spans_extend: "spans mn mx ts \<Longrightarrow> spans (if mn > t then t else mn) (if mx < t then t else mx) (insert t ts)"
  by (auto simp: spans_def)

lemma take_fold_ok:
  assumes inv: "rec_inv m" and b: "batch_sets (rm_size m) ub" and h: "first_empty (rm_size m) (rm_cells m) (rm_head m) = Inr e" and k: "k \<le> ub_n_seqs ub"
    and a: "aim (rm_head m) (rm_cells m) e"
  shows "\<exists>e' mn mx m'. fold_r (take_step ub) [0..<k] (e, int (rm_size m) - 1, 0, m) = Inr (e', mn, mx, m') \<and>
    chosen (rm_cells m) (set_first ub ` {..<k}) (rm_cells m') \<and> (k < ub_n_seqs ub \<longrightarrow> aim (rm_head m) (rm_cells m') e') \<and> same_frame m m' \<and>
    (if k = 0 then mn = int (rm_size m) - 1 \<and> mx = 0 else spans mn mx ((\<lambda>j. tail_of (rm_cells m') (set_first ub j)) ` {..<k}))"
  using k
proof (induction k)
  case 0
  then show ?case using chosen_init [OF rec_invD(1) [OF inv]] a by (simp add: same_frame_def)
next
  case (Suc k)
  then have kn: "k < ub_n_seqs ub" by simp
  obtain e1 mn mx m1 where i: "fold_r (take_step ub) [0..<k] (e, int (rm_size m) - 1, 0, m) = Inr (e1, mn, mx, m1)"
      "chosen (rm_cells m) (set_first ub ` {..<k}) (rm_cells m1)" "aim (rm_head m) (rm_cells m1) e1" "same_frame m m1"
      "if k = 0 then mn = int (rm_size m) - 1 \<and> mx = 0 else spans mn mx ((\<lambda>j. tail_of (rm_cells m1) (set_first ub j)) ` {..<k})"
    using Suc.IH kn by auto
  let ?s = "set_first ub k"
  have sz: "rm_size m1 = rm_size m" using i(4) by (simp add: same_frame_def)
  have sm: "?s \<in> {0..<int (rm_size m)}" using first_in [OF b kn] batch_setsD(6) [OF b kn] by blast
  then have s: "own_seq (rm_cells m1) ?s" "\<not> (ub_seq_id ub ! set_token ub k = [] \<or> ?s < 0 \<or> nat ?s \<ge> rm_size m1)"
    using sz set_first_hd(2) [OF b kn] by (auto simp: own_seq_def rm_size_def)
  have sn: "set_first ub j \<noteq> ?s" "own_seq (rm_cells m1) (set_first ub j)" if "j < k" for j
    using first_inj [OF b _ kn, of j] first_in [OF b kn] that kn chosenD(4) [OF i(2), of "set_first ub j"] by auto
  have nf: "?s \<notin> set_first ub ` {..<k}"
  proof
    assume "?s \<in> set_first ub ` {..<k}"
    then obtain j where "j < k" "?s = set_first ub j" by blast
    then show False using sn(1) [of j] by simp
  qed
  obtain e2 m2 where t: "take_cell (ub_n_seqs ub) k ?s (e1, m1) = Inr (e2, m2)" "chosen (rm_cells m) (insert ?s (set_first ub ` {..<k})) (rm_cells m2)"
      "k + 1 < ub_n_seqs ub \<longrightarrow> aim (rm_head m) (rm_cells m2) e2" "same_frame m1 m2"
      "\<And>u. own_seq (rm_cells m1) u \<Longrightarrow> u \<noteq> ?s \<Longrightarrow> tail_of (rm_cells m2) u = tail_of (rm_cells m1) u"
    using take_cell_ok [OF i(2) s(1) nf i(3), of "ub_n_seqs ub" k] rec_invD(2) [OF inv] by (auto simp: rm_size_def)
  let ?t = "tail_of (rm_cells m2) ?s"
  have st: "take_step ub k (e1, mn, mx, m1) = Inr (e2, if mn > ?t then ?t else mn, if mx < ?t then ?t else mx, m2)"
    using s(2) t(1) by (simp add: take_step_def tail_of_def Let_def)
  have im: "(\<lambda>j. tail_of (rm_cells m2) (set_first ub j)) ` {..<k} = (\<lambda>j. tail_of (rm_cells m1) (set_first ub j)) ` {..<k}"
    using t(5) sn by (intro image_cong) auto
  have tb: "0 \<le> ?t" "?t < int (rm_size m)"
    using chosenD(4) [OF t(2), of ?s] chosenD(2) [OF t(2), of ?s] chosenD(1) [OF t(2)] by (auto simp: rm_size_def)
  have "spans (if mn > ?t then ?t else mn) (if mx < ?t then ?t else mx) ((\<lambda>j. tail_of (rm_cells m2) (set_first ub j)) ` {..<Suc k})"
  proof (cases "k = 0")
    case True
    then show ?thesis using i(5) tb by (simp add: spans_def lessThan_Suc)
  next
    case False
    then show ?thesis using spans_extend [of mn mx _ ?t] i(5) im by (simp add: lessThan_Suc)
  qed
  moreover have "same_frame m m2" using i(4) t(4) by (simp add: same_frame_def)
  moreover have "fold_r (take_step ub) [0..<Suc k] (e, int (rm_size m) - 1, 0, m) = Inr (e2, if mn > ?t then ?t else mn, if mx < ?t then ?t else mx, m2)"
    using i(1) st by (simp add: fold_r_append)
  ultimately show ?case using t(2,3) by (intro exI conjI) (auto simp: lessThan_Suc)
qed

section \<open>The slot is made contiguous\<close>

definition exchange :: "nat \<Rightarrow> nat \<Rightarrow> nat \<Rightarrow> nat" where
  "exchange a b x = (if x = a then b else if x = b then a else x)"

lemma exchange_simps [simp]: "exchange a b (exchange a b x) = x" "exchange a b a = b" "exchange a b b = a"
  by (simp_all add: exchange_def)

lemma exchange_bij: "a < n \<Longrightarrow> b < n \<Longrightarrow> bij_betw (exchange a b) {..<n} {..<n}"
  by (rule bij_betw_byWitness [where f' = "exchange a b"]) (auto simp: exchange_def)

definition equal_content :: "mem_cell \<Rightarrow> mem_cell \<Rightarrow> bool" where
  "equal_content c c' \<longleftrightarrow> mc_pos c' = mc_pos c \<and> mc_src c' = mc_src c \<and> mc_seq c' = mc_seq c"

text \<open>The cells \<open>cs'\<close> are those of \<open>cs\<close>, each at its new place, and the tails follow them.\<close>

definition permuted :: "(nat \<Rightarrow> nat) \<Rightarrow> mem_cell list \<Rightarrow> mem_cell list \<Rightarrow> bool" where
  "permuted f cs cs' \<longleftrightarrow> length cs' = length cs \<and> bij_betw f {..<length cs} {..<length cs} \<and>
     (\<forall>u. own_seq cs u \<longrightarrow> tail_of cs' u = (if tail_of cs u < 0 then tail_of cs u else int (f (nat (tail_of cs u))))) \<and>
     (\<forall>i < length cs. equal_content (cs ! i) (cs' ! f i))"

lemma permuted_id: "permuted (\<lambda>i. i) cs cs"
  by (auto simp: permuted_def equal_content_def bij_betw_def)

lemma permuted_trans:
  assumes p: "permuted f cs cs'" and q: "permuted g cs' cs''" and r: "\<And>u. own_seq cs u \<Longrightarrow> tail_of cs u < int (length cs)"
  shows "permuted (g \<circ> f) cs cs''"
  unfolding permuted_def
proof (intro conjI allI impI)
  show "bij_betw (g \<circ> f) {..<length cs} {..<length cs}" using p q by (auto simp: permuted_def intro: bij_betw_trans)
  have l: "length cs' = length cs" "length cs'' = length cs'" using p q by (simp_all add: permuted_def)
  then show "length cs'' = length cs" by simp
  have o: "own_seq cs' u = own_seq cs u" for u using l by (simp add: own_seq_def)
  show "tail_of cs'' u = (if tail_of cs u < 0 then tail_of cs u else int ((g \<circ> f) (nat (tail_of cs u))))" if "own_seq cs u" for u
    using p q that o by (simp add: permuted_def)
  show "equal_content (cs ! i) (cs'' ! (g \<circ> f) i)" if "i < length cs" for i
  proof -
    have "f i < length cs" using p that by (auto simp: permuted_def bij_betw_def)
    then show ?thesis using p q that l by (auto simp: permuted_def equal_content_def)
  qed
qed

lemma swap_cells_permuted:
  fixes cs a b
  defines "d \<equiv> cs ! b" and "c \<equiv> cs ! a"
  defines "cs' \<equiv> map (swap_tail (int a) (int b)) (cs[b := d\<lparr>mc_pos := mc_pos c, mc_src := mc_src c, mc_seq := mc_seq c\<rparr>,
      a := c\<lparr>mc_pos := mc_pos d, mc_src := mc_src d, mc_seq := mc_seq d\<rparr>])"
  assumes ab: "a < length cs" "b < length cs" "a \<noteq> b"
  shows "permuted (exchange a b) cs cs'"
  unfolding permuted_def
proof (intro conjI allI impI)
  show "length cs' = length cs" by (simp add: cs'_def)
  show "bij_betw (exchange a b) {..<length cs} {..<length cs}" by (rule exchange_bij [OF ab(1,2)])
  let ?x = "cs[b := d\<lparr>mc_pos := mc_pos c, mc_src := mc_src c, mc_seq := mc_seq c\<rparr>, a := c\<lparr>mc_pos := mc_pos d, mc_src := mc_src d, mc_seq := mc_seq d\<rparr>]"
  show "tail_of cs' u = (if tail_of cs u < 0 then tail_of cs u else int (exchange a b (nat (tail_of cs u))))" if "own_seq cs u" for u
  proof -
    have u: "nat u < length cs" using that by (auto simp: own_seq_def)
    have "mc_tail (?x ! nat u) = mc_tail (cs ! nat u)" using u ab by (auto simp: nth_list_update d_def c_def)
    then have "tail_of cs' u = (if tail_of cs u = int a then int b else if tail_of cs u = int b then int a else tail_of cs u)"
      using u by (simp add: tail_of_def cs'_def swap_tail_def)
    then show ?thesis by (cases "tail_of cs u < 0"; cases "tail_of cs u") (auto simp: exchange_def)
  qed
  show "equal_content (cs ! i) (cs' ! exchange a b i)" if "i < length cs" for i
    using that ab by (auto simp: equal_content_def exchange_def cs'_def swap_tail_def nth_list_update d_def c_def)
qed

lemma gather_fold_ok:
  assumes c: "\<And>u. own_seq (rm_cells m) u \<Longrightarrow> tail_of (rm_cells m) u < int (rm_size m)"
    and f: "\<And>j. j < n \<Longrightarrow> own_seq (rm_cells m) (set_first ub j)"
    and r: "\<And>j. j < n \<Longrightarrow> int mn \<le> tail_of (rm_cells m) (set_first ub j) \<and> tail_of (rm_cells m) (set_first ub j) \<le> int mx"
    and inj: "inj_on (\<lambda>j. tail_of (rm_cells m) (set_first ub j)) {..<n}" and n: "n \<le> mx + 1 - mn" and mx: "mx < rm_size m"
    and k: "k \<le> n"
  shows "\<exists>m' g. fold_r (gather_step ub (int mn)) [0..<k] m = Inr m' \<and> permuted g (rm_cells m) (rm_cells m') \<and> same_frame m m' \<and>
    (\<forall>i. i < mn \<or> mx < i \<longrightarrow> g i = i) \<and> (\<forall>j < k. g (nat (tail_of (rm_cells m) (set_first ub j))) = mn + j)"
  using k
proof (induction k)
  case 0
  then show ?case using permuted_id [of "rm_cells m"] by (intro exI [of _ m] exI [of _ "\<lambda>i. i"]) (simp add: same_frame_def)
next
  case (Suc k)
  let ?c = "\<lambda>j. nat (tail_of (rm_cells m) (set_first ub j))"
  obtain m1 g where i: "fold_r (gather_step ub (int mn)) [0..<k] m = Inr m1" "permuted g (rm_cells m) (rm_cells m1)" "same_frame m m1"
      "\<And>i. i < mn \<or> mx < i \<Longrightarrow> g i = i" "\<And>j. j < k \<Longrightarrow> g (?c j) = mn + j" using Suc by auto
  have kn: "k < n" using Suc.prems by simp
  have sz: "rm_size m1 = rm_size m" using i(3) by (simp add: same_frame_def)
  have ck: "mn \<le> ?c j" "?c j \<le> mx" if "j < n" for j using r [OF that] by auto
  have bij: "bij_betw g {..<rm_size m} {..<rm_size m}" using i(2) by (simp add: permuted_def rm_size_def)
  have gk: "g (?c k) < rm_size m" using bij ck(2) [OF kn] mx by (auto simp: bij_betw_def)
  have t: "tail_of (rm_cells m1) (set_first ub k) = int (g (?c k))" using i(2) f [OF kn] r [OF kn] by (simp add: permuted_def)
  have dl: "mn + k < rm_size m" "mn + k \<le> mx" using kn n mx by simp_all
  have inside: "mn \<le> g (?c k) \<and> g (?c k) \<le> mx"
  proof (rule ccontr)
    assume "\<not> ?thesis"
    then have o: "g (?c k) < mn \<or> mx < g (?c k)" by auto
    then have "g (g (?c k)) = g (?c k)" using i(4) by simp
    then have "g (?c k) = ?c k" using bij gk ck(2) [OF kn] mx by (metis bij_betw_def inj_onD lessThan_iff order_le_less_trans)
    then show False using o ck [OF kn] by simp
  qed
  show ?case
  proof (cases "mn + k = g (?c k)")
    case True
    then have "gather_step ub (int mn) k m1 = Inr m1" using t by (simp add: gather_step_def tail_of_def Let_def)
    moreover have "\<forall>j < Suc k. g (?c j) = mn + j" using i(5) True by (auto simp: less_Suc_eq)
    ultimately show ?thesis using i by (intro exI [of _ m1] exI [of _ g]) (simp add: fold_r_append)
  next
    case False
    let ?a = "g (?c k)" and ?b = "mn + k"
    let ?d = "rm_cells m1 ! ?b" and ?e = "rm_cells m1 ! ?a"
    define m2 where "m2 = m1\<lparr>rm_cells := map (swap_tail (int ?a) (int ?b)) ((rm_cells m1)[?b := ?d\<lparr>mc_pos := mc_pos ?e, mc_src := mc_src ?e, mc_seq := mc_seq ?e\<rparr>,
        ?a := ?e\<lparr>mc_pos := mc_pos ?d, mc_src := mc_src ?d, mc_seq := mc_seq ?d\<rparr>])\<rparr>"
    define h where "h = exchange ?a ?b \<circ> g"
    have "gather_step ub (int mn) k m1 = Inr m2"
      using t False gk dl sz by (simp add: gather_step_def tail_of_def Let_def read_cell_def m2_def put_cell_def nat_int_add add.commute rm_size_def)
    moreover have "permuted (exchange ?a ?b) (rm_cells m1) (rm_cells m2)"
      unfolding m2_def using swap_cells_permuted [of ?a "rm_cells m1" ?b] gk dl sz False by (simp add: rm_size_def)
    then have "permuted h (rm_cells m) (rm_cells m2)" using permuted_trans [OF i(2)] c unfolding h_def by (simp add: rm_size_def)
    moreover have "same_frame m m2" using i(3) by (simp add: same_frame_def m2_def rm_size_def)
    moreover have "\<forall>i. i < mn \<or> mx < i \<longrightarrow> h i = i" using i(4) inside dl by (auto simp: h_def exchange_def)
    moreover have "h (?c j) = mn + j" if "j < Suc k" for j
    proof (cases "j = k")
      case True
      then show ?thesis by (simp add: h_def exchange_def)
    next
      case False
      then have j: "j < k" using that by simp
      have "tail_of (rm_cells m) (set_first ub j) \<noteq> tail_of (rm_cells m) (set_first ub k)" using inj_onD [OF inj, of j k] j kn by auto
      moreover have "0 \<le> tail_of (rm_cells m) (set_first ub j)" "0 \<le> tail_of (rm_cells m) (set_first ub k)" using r [of j] r [of k] j kn by auto
      ultimately have "?c j \<noteq> ?c k" by (simp add: eq_nat_nat_iff)
      then have "g (?c j) \<noteq> ?a" using bij ck(2) [of j] ck(2) [OF kn] j kn mx unfolding bij_betw_def inj_on_def by (metis lessThan_iff order_le_less_trans order_less_trans)
      then show ?thesis using i(5) [OF j] j by (simp add: h_def exchange_def)
    qed
    ultimately show ?thesis using i(1) by (intro exI [of _ m2] exI [of _ h] conjI) (simp_all add: fold_r_append)
  qed
qed

section \<open>Positions, sequences and sources\<close>

lemma set_tails_ok:
  assumes "\<forall>s \<in> set ss. own_seq (rm_cells m) s"
  shows "\<exists>m'. fold_r (\<lambda>s m. if s < 0 \<or> nat s \<ge> rm_size m then Inl Undefined else Inr (set_tail s t m)) ss m = Inr m' \<and> same_frame m m' \<and>
    (\<forall>u. own_seq (rm_cells m) u \<longrightarrow> tail_of (rm_cells m') u = (if u \<in> set ss then t else tail_of (rm_cells m) u)) \<and>
    (\<forall>i < rm_size m. equal_content (rm_cells m ! i) (rm_cells m' ! i))"
  using assms
proof (induction ss arbitrary: m)
  case Nil
  then show ?case by (simp add: same_frame_def equal_content_def)
next
  case (Cons s ss)
  let ?m = "set_tail s t m"
  have s: "own_seq (rm_cells m) s" "\<not> (s < 0 \<or> nat s \<ge> rm_size m)" using Cons.prems by (auto simp: own_seq_def rm_size_def)
  obtain m' where m': "fold_r (\<lambda>s m. if s < 0 \<or> nat s \<ge> rm_size m then Inl Undefined else Inr (set_tail s t m)) ss ?m = Inr m'" "same_frame ?m m'"
      "\<And>u. own_seq (rm_cells m) u \<Longrightarrow> tail_of (rm_cells m') u = (if u \<in> set ss then t else tail_of (rm_cells ?m) u)"
      "\<And>i. i < rm_size m \<Longrightarrow> equal_content (rm_cells ?m ! i) (rm_cells m' ! i)"
    using Cons.IH [of ?m] Cons.prems by auto
  have "tail_of (rm_cells m') u = (if u \<in> set (s # ss) then t else tail_of (rm_cells m) u)" if "own_seq (rm_cells m) u" for u
    using m'(3) [OF that] set_tail_of [OF that s(1), of t] by (cases "u = s") auto
  moreover have "equal_content (rm_cells m ! i) (rm_cells m' ! i)" if "i < rm_size m" for i
    using m'(4) [OF that] set_tail_cell [OF that, of s t] by (simp add: equal_content_def)
  ultimately show ?case using m'(1,2) s(2) by (auto simp: same_frame_def)
qed

definition last_pos :: "llama_ubatch \<Rightarrow> nat \<Rightarrow> int" where
  "last_pos ub k = ub_pos ub ! (set_token ub k + ub_n_seq_tokens ub - 1)"

lemma place_fold_ok:
  assumes b: "batch_sets (rm_size m) ub" and n: "mn + ub_n_seqs ub \<le> rm_size m" and k: "k \<le> ub_n_seqs ub"
  shows "\<exists>m'. fold_r (place_step ub (int mn)) [0..<k] m = Inr m' \<and> same_frame m m' \<and>
    (\<forall>u. own_seq (rm_cells m) u \<longrightarrow> (\<forall>j < k. u \<in> set (set_seqs ub j) \<longrightarrow> tail_of (rm_cells m') u = int (mn + j)) \<and>
       ((\<forall>j < k. u \<notin> set (set_seqs ub j)) \<longrightarrow> tail_of (rm_cells m') u = tail_of (rm_cells m) u)) \<and>
    (\<forall>j < k. mc_pos (rm_cells m' ! (mn + j)) = last_pos ub j \<and> mc_seq (rm_cells m' ! (mn + j)) = set (set_seqs ub j)) \<and>
    (\<forall>i < rm_size m. mc_src (rm_cells m' ! i) = mc_src (rm_cells m ! i) \<and> (i < mn \<or> mn + k \<le> i \<longrightarrow> equal_content (rm_cells m ! i) (rm_cells m' ! i)))"
  using k
proof (induction k)
  case 0
  then show ?case by (simp add: same_frame_def equal_content_def)
next
  case (Suc k)
  then have "k \<le> ub_n_seqs ub" by simp
  from Suc.IH [OF this] obtain m1 where i: "fold_r (place_step ub (int mn)) [0..<k] m = Inr m1" "same_frame m m1"
      "\<And>u j. own_seq (rm_cells m) u \<Longrightarrow> j < k \<Longrightarrow> u \<in> set (set_seqs ub j) \<Longrightarrow> tail_of (rm_cells m1) u = int (mn + j)"
      "\<And>u. own_seq (rm_cells m) u \<Longrightarrow> \<forall>j < k. u \<notin> set (set_seqs ub j) \<Longrightarrow> tail_of (rm_cells m1) u = tail_of (rm_cells m) u"
      "\<And>j. j < k \<Longrightarrow> mc_pos (rm_cells m1 ! (mn + j)) = last_pos ub j \<and> mc_seq (rm_cells m1 ! (mn + j)) = set (set_seqs ub j)"
      "\<And>i. i < rm_size m \<Longrightarrow> mc_src (rm_cells m1 ! i) = mc_src (rm_cells m ! i)"
      "\<And>i. i < rm_size m \<Longrightarrow> i < mn \<or> mn + k \<le> i \<Longrightarrow> equal_content (rm_cells m ! i) (rm_cells m1 ! i)" by blast
  have kn: "k < ub_n_seqs ub" using Suc.prems by simp
  have sz: "rm_size m1 = rm_size m" "length (rm_cells m1) = length (rm_cells m)" using i(2) by (simp_all add: same_frame_def rm_size_def)
  have o1: "own_seq (rm_cells m1) u = own_seq (rm_cells m) u" for u using sz by (simp add: own_seq_def)
  let ?c = "(rm_cells m1 ! (mn + k))\<lparr>mc_pos := last_pos ub k, mc_seq := set (set_seqs ub k)\<rparr>"
  let ?m = "put_cell (mn + k) ?c m1"
  have cl: "mn + k < rm_size m" using n kn by simp
  have tp: "tail_of (rm_cells ?m) u = tail_of (rm_cells m1) u" for u using cl sz by (auto simp: tail_of_def nth_list_update rm_size_def)
  have ow: "\<forall>s \<in> set (set_seqs ub k). own_seq (rm_cells ?m) s" using batch_setsD(6) [OF b kn] o1 by (auto simp: own_seq_def rm_size_def)
  obtain m2 where t: "fold_r (\<lambda>s m. if s < 0 \<or> nat s \<ge> rm_size m then Inl Undefined else Inr (set_tail s (int k + int mn) m)) (set_seqs ub k) ?m = Inr m2" "same_frame ?m m2"
      "\<And>u. own_seq (rm_cells m) u \<Longrightarrow> tail_of (rm_cells m2) u = (if u \<in> set (set_seqs ub k) then int k + int mn else tail_of (rm_cells m1) u)"
      "\<And>i. i < rm_size m \<Longrightarrow> equal_content (rm_cells ?m ! i) (rm_cells m2 ! i)"
    using set_tails_ok [OF ow, of "int k + int mn"] tp o1 sz by auto
  have st: "place_step ub (int mn) k m1 = Inr m2"
    using t(1) batch_setsD(3) [OF b] batch_setsD(8) [OF b kn] cl sz by (simp add: place_step_def Let_def read_cell_def last_pos_def nat_int_add add.commute)
  have fr: "same_frame m m2" using i(2) t(2) by (simp add: same_frame_def)
  have c2: "equal_content (if i = mn + k then ?c else rm_cells m1 ! i) (rm_cells m2 ! i)" if "i < rm_size m" for i
    using t(4) [OF that] that sz by (cases "i = mn + k") (auto simp: rm_size_def)
  have ds: "u \<notin> set (set_seqs ub j)" if "u \<in> set (set_seqs ub k)" "j < k" for u j using batch_setsD(10) [OF b kn, of j] that kn by auto
  have a: "tail_of (rm_cells m2) u = int (mn + j)" if "own_seq (rm_cells m) u" "j < Suc k" "u \<in> set (set_seqs ub j)" for u j
    using t(3) [OF that(1)] i(3) [OF that(1), of j] ds [of u j] that(2,3) by (cases "j = k") auto
  have a': "tail_of (rm_cells m2) u = tail_of (rm_cells m) u" if "own_seq (rm_cells m) u" "\<forall>j < Suc k. u \<notin> set (set_seqs ub j)" for u
    using t(3) [OF that(1)] i(4) [OF that(1)] that(2) by simp
  have p: "mc_pos (rm_cells m2 ! (mn + j)) = last_pos ub j \<and> mc_seq (rm_cells m2 ! (mn + j)) = set (set_seqs ub j)" if "j < Suc k" for j
    using c2 [of "mn + j"] i(5) [of j] that cl by (cases "j = k") (auto simp: equal_content_def)
  have q: "mc_src (rm_cells m2 ! x) = mc_src (rm_cells m ! x)" if "x < rm_size m" for x
    using c2 [OF that] i(6) [OF that] i(6) [OF cl] by (cases "x = mn + k") (auto simp: equal_content_def)
  have q': "equal_content (rm_cells m ! x) (rm_cells m2 ! x)" if "x < rm_size m" "x < mn \<or> mn + Suc k \<le> x" for x
    using c2 [OF that(1)] i(7) [OF that(1)] that(2) by (auto simp: equal_content_def)
  show ?case using i(1) st fr a a' p q q' by (intro exI [of _ m2]) (simp add: fold_r_append)
qed

text \<open>When a cell of the range has no source, some cell of the range is nobody's source.\<close>

lemma unreferenced_exists:
  assumes r: "\<And>i. i < length cs \<Longrightarrow> i < mn \<or> mx < i \<Longrightarrow> mc_src (cs ! i) = -1 \<or> mc_src (cs ! i) = int i"
    and z: "z < length cs" "mn \<le> z" "z \<le> mx" "mc_src (cs ! z) < 0" and mx: "mx < length cs"
  shows "\<exists>i. mn \<le> i \<and> i \<le> mx \<and> refcount cs i = 0"
proof (rule ccontr)
  assume "\<not> ?thesis"
  then have pos: "0 < refcount cs i" if "i \<in> {mn..mx}" for i using that by auto
  have "int ` {mn..mx} \<subseteq> (\<lambda>i. mc_src (cs ! i)) ` ({mn..mx} - {z})"
  proof
    fix v assume "v \<in> int ` {mn..mx}"
    then obtain i where i: "v = int i" "i \<in> {mn..mx}" by auto
    have "0 < count_if (\<lambda>c. mc_src c = int i) cs" using pos [OF i(2)] by (simp add: refcount_def)
    then obtain c where "c \<in> set cs" "mc_src c = int i" by (auto simp: count_if_def filter_empty_conv)
    then obtain j where j: "j < length cs" "mc_src (cs ! j) = int i" by (auto simp: in_set_conv_nth)
    have "j \<noteq> z" using j(2) z(4) by auto
    moreover have "j \<in> {mn..mx}"
    proof (rule ccontr)
      assume "j \<notin> {mn..mx}"
      then have o: "j < mn \<or> mx < j" by auto
      then have "j = i" using r [OF j(1) o] j(2) by auto
      then show False using o i(2) by auto
    qed
    ultimately have "j \<in> {mn..mx} - {z}" by blast
    then show "v \<in> (\<lambda>i. mc_src (cs ! i)) ` ({mn..mx} - {z})" using i(1) j(2) by (metis image_eqI)
  qed
  then have "card (int ` {mn..mx}) \<le> card ((\<lambda>i. mc_src (cs ! i)) ` ({mn..mx} - {z}))" by (rule card_mono [rotated]) simp
  also have "\<dots> \<le> card ({mn..mx} - {z})" by (rule card_image_le) simp
  also have "\<dots> < card {mn..mx}" by (rule card_Diff1_less) (use z(2,3) in auto)
  finally show False by (simp add: card_image)
qed

lemma source_fold_ok:
  assumes "distinct is" and "set is \<subseteq> {..<rm_size m}" and "\<And>i. i \<in> set is \<Longrightarrow> mc_src (rm_cells m ! i) < 0 \<Longrightarrow> 0 \<le> rm_rs_z m"
  shows "\<exists>m'. fold_r source_step is m = Inr m' \<and> same_frame m m' \<and> rm_rs_z m' = rm_rs_z m \<and>
    (\<forall>i < rm_size m. rm_cells m' ! i = (if i \<in> set is
       then (rm_cells m ! i)\<lparr>mc_src0 := (if mc_src (rm_cells m ! i) < 0 then rm_rs_z m else mc_src (rm_cells m ! i)), mc_src := int i\<rparr>
       else rm_cells m ! i))"
  using assms
proof (induction "is" arbitrary: m)
  case Nil
  then show ?case by (simp add: same_frame_def)
next
  case (Cons x "is")
  let ?z = "if mc_src (rm_cells m ! x) < 0 then rm_rs_z m else mc_src (rm_cells m ! x)"
  let ?m = "put_cell x ((rm_cells m ! x)\<lparr>mc_src0 := ?z, mc_src := int x\<rparr>) m"
  have x: "x < rm_size m" "x \<notin> set is" using Cons.prems by auto
  have st: "source_step x m = Inr ?m" using Cons.prems(3) [of x] by (simp add: source_step_def Let_def)
  have rz: "rm_rs_z ?m = rm_rs_z m" by (simp add: put_cell_def)
  have un: "rm_cells ?m ! i = rm_cells m ! i" if "i \<noteq> x" for i using that by simp
  have "0 \<le> rm_rs_z ?m" if "i \<in> set is" "mc_src (rm_cells ?m ! i) < 0" for i
    using Cons.prems(3) [of i] that un [of i] x(2) rz by (cases "i = x") auto
  then obtain m' where m': "fold_r source_step is ?m = Inr m'" "same_frame ?m m' \<and> rm_rs_z m' = rm_rs_z m"
      "\<And>i. i < rm_size m \<Longrightarrow> rm_cells m' ! i = (if i \<in> set is
        then (rm_cells ?m ! i)\<lparr>mc_src0 := (if mc_src (rm_cells ?m ! i) < 0 then rm_rs_z m else mc_src (rm_cells ?m ! i)), mc_src := int i\<rparr>
        else rm_cells ?m ! i)"
    using Cons.IH [of ?m] Cons.prems(1,2) rz by auto
  have "rm_cells m' ! i = (if i \<in> set (x # is)
       then (rm_cells m ! i)\<lparr>mc_src0 := (if mc_src (rm_cells m ! i) < 0 then rm_rs_z m else mc_src (rm_cells m ! i)), mc_src := int i\<rparr>
       else rm_cells m ! i)" if "i < rm_size m" for i
  proof (cases "i = x")
    case True
    then show ?thesis using m'(3) [OF that] x by (simp add: rm_size_def)
  next
    case False
    then show ?thesis using m'(3) [OF that] un [OF False] by simp
  qed
  then show ?case using st m'(1,2) by (auto simp: same_frame_def)
qed

section \<open>The slot\<close>

text \<open>What the phases before the sources have done: cells chosen, made contiguous with the permutation \<open>g\<close> of the cells, and given to their sets.\<close>

definition placed :: "llama_ubatch \<Rightarrow> nat \<Rightarrow> mem_cell list \<Rightarrow> mem_cell list \<Rightarrow> bool" where
  "placed ub mn cs cs' \<longleftrightarrow> length cs' = length cs \<and>
     (\<forall>u. own_seq cs u \<longrightarrow> (\<forall>j < ub_n_seqs ub. u \<in> set (set_seqs ub j) \<longrightarrow> tail_of cs' u = int (mn + j)) \<and>
        (u \<notin> batch_seqs ub \<longrightarrow> tail_of cs' u = tail_of cs u)) \<and>
     (\<forall>j < ub_n_seqs ub. mc_pos (cs' ! (mn + j)) = last_pos ub j \<and> mc_seq (cs' ! (mn + j)) = set (set_seqs ub j)) \<and>
     (\<forall>i < length cs. mc_src (cs' ! i) = mc_src (cs ! i) \<and> (i < mn \<or> mn + ub_n_seqs ub \<le> i \<longrightarrow> equal_content (cs ! i) (cs' ! i)))"

definition phases :: "llama_ubatch \<Rightarrow> nat \<Rightarrow> nat \<Rightarrow> (nat \<Rightarrow> nat) \<Rightarrow> mem_cell list \<Rightarrow> mem_cell list \<Rightarrow> mem_cell list \<Rightarrow> mem_cell list \<Rightarrow> bool" where
  "phases ub mn mx g cs1 cs2 cs3 cs4 \<longleftrightarrow> batch_sets (length cs1) ub \<and> linked cs1 \<and> (\<forall>i < length cs1. cell_ok i (cs1 ! i)) \<and>
     (\<forall>u \<in> extra_seqs ub. tail_of cs1 u = -1) \<and> mx < length cs1 \<and> mn + ub_n_seqs ub \<le> mx + 1 \<and>
     chosen cs1 (set_first ub ` {..<ub_n_seqs ub}) cs2 \<and> permuted g cs2 cs3 \<and> (\<forall>i. i < mn \<or> mx < i \<longrightarrow> g i = i) \<and>
     (\<forall>j < ub_n_seqs ub. g (nat (tail_of cs2 (set_first ub j))) = mn + j) \<and> placed ub mn cs3 cs4"

lemma phasesD:
  assumes "phases ub mn mx g cs1 cs2 cs3 cs4"
  shows "batch_sets (length cs1) ub" "linked cs1" "i < length cs1 \<Longrightarrow> cell_ok i (cs1 ! i)" "u \<in> extra_seqs ub \<Longrightarrow> tail_of cs1 u = -1"
    "mx < length cs1" "mn + ub_n_seqs ub \<le> mx + 1" "chosen cs1 (set_first ub ` {..<ub_n_seqs ub}) cs2" "permuted g cs2 cs3"
    "i < mn \<or> mx < i \<Longrightarrow> g i = i" "j < ub_n_seqs ub \<Longrightarrow> g (nat (tail_of cs2 (set_first ub j))) = mn + j" "placed ub mn cs3 cs4"
  using assms unfolding phases_def by blast+

lemma phases_length:
  assumes "phases ub mn mx g cs1 cs2 cs3 cs4"
  shows "length cs2 = length cs1" "length cs3 = length cs1" "length cs4 = length cs1"
    "own_seq cs2 u = own_seq cs1 u" "own_seq cs3 u = own_seq cs1 u" "own_seq cs4 u = own_seq cs1 u"
  using chosenD(1) [OF phasesD(7) [OF assms]] phasesD(8,11) [OF assms] by (simp_all add: permuted_def placed_def own_seq_def)

lemma phases_perm:
  assumes p: "phases ub mn mx g cs1 cs2 cs3 cs4"
  shows "i < length cs1 \<Longrightarrow> g i < length cs1" "i < length cs1 \<Longrightarrow> \<exists>j < length cs1. i = g j"
    "i < length cs1 \<Longrightarrow> j < length cs1 \<Longrightarrow> g i = g j \<Longrightarrow> i = j"
proof -
  have b: "bij_betw g {..<length cs1} {..<length cs1}" using phasesD(8) [OF p] phases_length(1) [OF p] by (simp add: permuted_def)
  show "g i < length cs1" if "i < length cs1" using b that by (auto simp: bij_betw_def)
  show "\<exists>j < length cs1. i = g j" if "i < length cs1" using b that by (auto simp: bij_betw_def)
  show "i = j" if "i < length cs1" "j < length cs1" "g i = g j" using b that by (auto simp: bij_betw_def dest: inj_onD)
qed

lemma phases_outside:
  assumes p: "phases ub mn mx g cs1 cs2 cs3 cs4" and i: "i < length cs1" and o: "g i < mn \<or> mx < g i"
  shows "g i = i"
  using phasesD(9) [OF p o] phases_perm(3) [OF p phases_perm(1) [OF p i] i] by simp

text \<open>A cell of the slot is the image of the cell of the first sequence of its set, and of no other cell.\<close>

lemma phases_slot:
  assumes p: "phases ub mn mx g cs1 cs2 cs3 cs4" and j: "j < ub_n_seqs ub"
  shows "0 \<le> tail_of cs2 (set_first ub j)" "nat (tail_of cs2 (set_first ub j)) < length cs1"
    "i < length cs1 \<Longrightarrow> g i = mn + j \<longleftrightarrow> int i = tail_of cs2 (set_first ub j)"
proof -
  have o: "own_seq cs2 (set_first ub j) \<and> 0 \<le> tail_of cs2 (set_first ub j)" using chosenD(4) [OF phasesD(7) [OF p]] j by auto
  then show t: "0 \<le> tail_of cs2 (set_first ub j)" by simp
  show l: "nat (tail_of cs2 (set_first ub j)) < length cs1" using chosenD(2) [OF phasesD(7) [OF p], of "set_first ub j"] o phases_length(1) [OF p] by auto
  show "g i = mn + j \<longleftrightarrow> int i = tail_of cs2 (set_first ub j)" if "i < length cs1"
    using phasesD(10) [OF p j] phases_perm(3) [OF p that l] t by (metis nat_int int_nat_eq)
qed

lemma phases_free_image:
  assumes p: "phases ub mn mx g cs1 cs2 cs3 cs4" and i: "i < length cs1"
  shows "(g i < mn \<or> mn + ub_n_seqs ub \<le> g i) \<longleftrightarrow> (\<forall>f \<in> set_first ub ` {..<ub_n_seqs ub}. tail_of cs2 f \<noteq> int i)"
proof -
  have "(g i < mn \<or> mn + ub_n_seqs ub \<le> g i) \<longleftrightarrow> (\<forall>j < ub_n_seqs ub. g i \<noteq> mn + j)"
  proof
    assume a: "\<forall>j < ub_n_seqs ub. g i \<noteq> mn + j"
    show "g i < mn \<or> mn + ub_n_seqs ub \<le> g i"
    proof (rule ccontr)
      assume "\<not> ?thesis"
      then have "g i - mn < ub_n_seqs ub" "g i = mn + (g i - mn)" by auto
      then show False using a by blast
    qed
  qed auto
  also have "\<dots> \<longleftrightarrow> (\<forall>j < ub_n_seqs ub. tail_of cs2 (set_first ub j) \<noteq> int i)" using phases_slot(3) [OF p _ i] by auto
  finally show ?thesis by auto
qed

text \<open>A sequence that is not in the micro-batch follows its cell.\<close>

lemma phases_tail:
  assumes p: "phases ub mn mx g cs1 cs2 cs3 cs4" and u: "own_seq cs1 u" "u \<notin> batch_seqs ub"
  shows "tail_of cs2 u = tail_of cs1 u" "tail_of cs4 u = (if tail_of cs1 u < 0 then tail_of cs1 u else int (g (nat (tail_of cs1 u))))"
proof -
  have "u \<notin> set_first ub ` {..<ub_n_seqs ub}" using u(2) batch_seqs_split [OF phasesD(1) [OF p]] by blast
  then show t: "tail_of cs2 u = tail_of cs1 u" using chosenD(3) [OF phasesD(7) [OF p]] u(1) phases_length(4) [OF p] by blast
  have "tail_of cs4 u = tail_of cs3 u" using phasesD(11) [OF p] u phases_length(5) [OF p] by (simp add: placed_def)
  then show "tail_of cs4 u = (if tail_of cs1 u < 0 then tail_of cs1 u else int (g (nat (tail_of cs1 u))))"
    using phasesD(8) [OF p] t u(1) phases_length(4) [OF p] by (simp add: permuted_def)
qed

lemma phases_batch_tail:
  assumes p: "phases ub mn mx g cs1 cs2 cs3 cs4" and j: "j < ub_n_seqs ub" "u \<in> set (set_seqs ub j)"
  shows "own_seq cs1 u" "tail_of cs4 u = int (mn + j)"
proof -
  show o: "own_seq cs1 u" using batch_setsD(6) [OF phasesD(1) [OF p] j(1)] j(2) by (auto simp: own_seq_def)
  show "tail_of cs4 u = int (mn + j)" using phasesD(11) [OF p] o j phases_length(5) [OF p] by (simp add: placed_def)
qed

text \<open>A cell outside the slot.\<close>

lemma phases_cell:
  assumes p: "phases ub mn mx g cs1 cs2 cs3 cs4" and i: "i < length cs1" and o: "g i < mn \<or> mn + ub_n_seqs ub \<le> g i"
  shows "mc_seq (cs4 ! g i) = mc_seq (cs1 ! i) - batch_seqs ub" "mc_pos (cs4 ! g i) = mc_pos (cs1 ! i)" "mc_src (cs4 ! g i) = mc_src (cs1 ! i)"
    "mc_seq (cs4 ! g i) = {} \<Longrightarrow> mc_seq (cs1 ! i) = {}"
proof -
  let ?F = "set_first ub ` {..<ub_n_seqs ub}"
  note c = phasesD(7) [OF p] and l = phases_length [OF p]
  have nf: "tail_of cs2 f \<noteq> int i" if "f \<in> ?F" for f using phases_free_image [OF p i] o that by blast
  have "equal_content (cs2 ! i) (cs3 ! g i)" using phasesD(8) [OF p] i l(1) by (simp add: permuted_def)
  moreover have "equal_content (cs3 ! g i) (cs4 ! g i)" using phasesD(11) [OF p] phases_perm(1) [OF p i] l(2) o unfolding placed_def by metis
  ultimately have e: "mc_seq (cs4 ! g i) = mc_seq (cs2 ! i)" "mc_pos (cs4 ! g i) = mc_pos (cs2 ! i)" "mc_src (cs4 ! g i) = mc_src (cs2 ! i)"
    by (simp_all add: equal_content_def)
  show "mc_pos (cs4 ! g i) = mc_pos (cs1 ! i)" "mc_src (cs4 ! g i) = mc_src (cs1 ! i)" using e chosenD(9) [OF c, of i] nf i l(1) by auto
  have s2: "mc_seq (cs2 ! i) = {u. own_seq cs2 u \<and> tail_of cs2 u = int i}" using chosenD(6) [OF c, of i] nf i l(1) by auto
  have s1: "mc_seq (cs1 ! i) = {u. own_seq cs1 u \<and> tail_of cs1 u = int i}" using phasesD(2) [OF p] i by (simp add: linked_def)
  have "u \<in> mc_seq (cs2 ! i) \<longleftrightarrow> u \<in> mc_seq (cs1 ! i) - batch_seqs ub" for u
  proof (cases "u \<in> ?F")
    case True
    then show ?thesis using nf s2 batch_seqs_split [OF phasesD(1) [OF p]] by blast
  next
    case False
    then have "own_seq cs2 u \<Longrightarrow> tail_of cs2 u = tail_of cs1 u" using chosenD(3) [OF c] by blast
    then show ?thesis using s1 s2 l(4) [of u] phasesD(4) [OF p, of u] False batch_seqs_split [OF phasesD(1) [OF p]] by auto
  qed
  then show "mc_seq (cs4 ! g i) = mc_seq (cs1 ! i) - batch_seqs ub" using e(1) by blast
  show "mc_seq (cs1 ! i) = {}" if "mc_seq (cs4 ! g i) = {}"
    using chosenD(10) [OF c, of i] i l(1) s2 e(1) that by (auto simp: free_cell_def)
qed

lemma phases_linked:
  assumes p: "phases ub mn mx g cs1 cs2 cs3 cs4"
  shows "linked cs4"
  unfolding linked_def phases_length(3,6) [OF p]
proof (intro conjI allI impI)
  fix u assume u: "own_seq cs1 u"
  have "-1 \<le> tail_of cs4 u \<and> tail_of cs4 u < int (length cs1)"
  proof (cases "u \<in> batch_seqs ub")
    case True
    then obtain j where "j < ub_n_seqs ub" "u \<in> set (set_seqs ub j)" by (auto simp: batch_seqs_def)
    then show ?thesis using phases_batch_tail [OF p] phasesD(5,6) [OF p] by simp
  next
    case False
    then show ?thesis using phases_tail(2) [OF p u] linkedD(1,2) [OF phasesD(2) [OF p] u] phases_perm(1) [OF p, of "nat (tail_of cs1 u)"] by simp
  qed
  then show "-1 \<le> tail_of cs4 u" "tail_of cs4 u < int (length cs1)" by simp_all
next
  fix i assume i: "i < length cs1"
  obtain j where j: "j < length cs1" "i = g j" using phases_perm(2) [OF p i] by blast
  have out: "tail_of cs4 u = int i \<longleftrightarrow> tail_of cs1 u = int j" if u: "own_seq cs1 u" "u \<notin> batch_seqs ub" for u
  proof (cases "tail_of cs1 u < 0")
    case True
    then show ?thesis using phases_tail(2) [OF p u] by simp
  next
    case False
    then have "nat (tail_of cs1 u) < length cs1" using linkedD(2) [OF phasesD(2) [OF p] u(1)] by simp
    then have "g (nat (tail_of cs1 u)) = g j \<longleftrightarrow> nat (tail_of cs1 u) = j" using phases_perm(3) [OF p _ j(1)] by blast
    then show ?thesis using phases_tail(2) [OF p u] False j(2) by auto
  qed
  have s1: "mc_seq (cs1 ! j) = {u. own_seq cs1 u \<and> tail_of cs1 u = int j}" using phasesD(2) [OF p] j(1) by (simp add: linked_def)
  show "mc_seq (cs4 ! i) = {u. own_seq cs1 u \<and> tail_of cs4 u = int i}"
  proof (cases "i < mn \<or> mn + ub_n_seqs ub \<le> i")
    case True
    have "u \<notin> batch_seqs ub" if "tail_of cs4 u = int i" for u
      using phases_batch_tail(2) [OF p] that True by (fastforce simp: batch_seqs_def)
    then show ?thesis using phases_cell(1) [OF p j(1)] True j(2) s1 out by blast
  next
    case False
    define k where "k = i - mn"
    have k: "k < ub_n_seqs ub" "i = mn + k" using False by (auto simp: k_def)
    have "u \<in> set (set_seqs ub k) \<longleftrightarrow> own_seq cs1 u \<and> tail_of cs4 u = int i" for u
    proof (cases "u \<in> batch_seqs ub")
      case True
      then obtain k' where k': "k' < ub_n_seqs ub" "u \<in> set (set_seqs ub k')" by (auto simp: batch_seqs_def)
      then show ?thesis using phases_batch_tail [OF p k'] k batch_setsD(10) [OF phasesD(1) [OF p] k(1) k'(1)] by (cases "k = k'") auto
    next
      case u: False
      have "own_seq cs1 u \<Longrightarrow> tail_of cs4 u \<noteq> int i"
      proof
        assume o: "own_seq cs1 u" and "tail_of cs4 u = int i"
        then have "tail_of cs1 u = int j" using out u by blast
        moreover have "int j = tail_of cs2 (set_first ub k)" using phases_slot(3) [OF p k(1) j(1)] j(2) k(2) by simp
        ultimately have "u = set_first ub k" using chosenD(5) [OF phasesD(7) [OF p], of "set_first ub k" u] phases_tail(1) [OF p o u] k(1) o phases_length(4) [OF p] by auto
        then show False using u first_in [OF phasesD(1) [OF p] k(1)] k(1) by (auto simp: batch_seqs_def)
      qed
      then show ?thesis using u k(1) by (auto simp: batch_seqs_def)
    qed
    moreover have "mc_seq (cs4 ! i) = set (set_seqs ub k)" using phasesD(11) [OF p] k by (simp add: placed_def)
    ultimately show ?thesis by blast
  qed
qed

end
