(* ===== verification/RecurrentPlace.thy ===== *)
theory RecurrentPlace
  imports RecurrentSlot
begin

text \<open>
  The phases of the placement put together: a micro-batch whose sequences fit the memory always gets its slot, the invariant
  holds again, every sequence has the position and the sharers it should have, and every state that survives is
  copied from the cell in which it was.
\<close>

section \<open>Where the states are\<close>

lemma phases_slot_src:
  assumes p: "phases ub mn mx g cs1 cs2 cs3 cs4" and j: "j < ub_n_seqs ub"
  shows "mc_src (cs4 ! (mn + j)) = mc_src (cs2 ! nat (tail_of cs2 (set_first ub j)))"
proof -
  have i: "nat (tail_of cs2 (set_first ub j)) < length cs1" "mn + j < length cs1"
    using phases_slot(2) [OF p j] phasesD(5,6) [OF p] j by simp_all
  have "equal_content (cs2 ! nat (tail_of cs2 (set_first ub j))) (cs3 ! g (nat (tail_of cs2 (set_first ub j))))"
    using phasesD(8) [OF p] i(1) phases_length(1) [OF p] by (simp add: permuted_def)
  then have "mc_src (cs3 ! (mn + j)) = mc_src (cs2 ! nat (tail_of cs2 (set_first ub j)))"
    using phasesD(10) [OF p j] by (simp add: equal_content_def)
  then show ?thesis using phasesD(11) [OF p] i(2) phases_length(2) [OF p] by (simp add: placed_def)
qed

lemma cell_src:
  assumes "linked cs" and "\<And>i. i < length cs \<Longrightarrow> cell_ok i (cs ! i)" and "own_seq cs u" and "0 \<le> tail_of cs u"
  shows "mc_src (cs ! nat (tail_of cs u)) = tail_of cs u"
proof -
  have "nat (tail_of cs u) < length cs" "mc_seq (cs ! nat (tail_of cs u)) \<noteq> {}" using linkedD(4) [OF assms(1,3,4)] by auto
  then show ?thesis using assms(2) [of "nat (tail_of cs u)"] assms(4) by (simp add: cell_ok_def)
qed

lemma survivor_outside:
  assumes p: "phases ub mn mx g cs1 cs2 cs3 cs4" and u: "own_seq cs1 u" "u \<notin> batch_seqs ub" and i: "tail_of cs1 u = int i"
  shows "g i < mn \<or> mn + ub_n_seqs ub \<le> g i"
proof (rule ccontr)
  have l: "i < length cs1" using linkedD(2) [OF phasesD(2) [OF p] u(1)] i by simp
  assume "\<not> ?thesis"
  then obtain f where f: "f \<in> set_first ub ` {..<ub_n_seqs ub}" "tail_of cs2 f = int i" using phases_free_image [OF p l] by blast
  have "u = f" using chosenD(5) [OF phasesD(7) [OF p] f(1), of u] f(2) i phases_tail(1) [OF p u] u(1) phases_length(4) [OF p] by simp
  then show False using f(1) u(2) batch_seqs_split [OF phasesD(1) [OF p]] by auto
qed

lemma survivor_tail:
  assumes p: "phases ub mn mx g cs1 cs2 cs3 cs4" and u: "own_seq cs1 u" "0 \<le> tail_of cs1 u"
  shows "0 \<le> tail_of cs4 u"
proof (cases "u \<in> batch_seqs ub")
  case True
  then obtain j where "j < ub_n_seqs ub" "u \<in> set (set_seqs ub j)" by (auto simp: batch_seqs_def)
  then show ?thesis using phases_batch_tail(2) [OF p] by simp
next
  case False
  then show ?thesis using phases_tail(2) [OF p u(1)] u(2) by simp
qed

text \<open>The source of a surviving state is the cell in which it was; a state outside the range has not moved.\<close>

lemma phases_survivor:
  assumes p: "phases ub mn mx g cs1 cs2 cs3 cs4" and u: "own_seq cs1 u" "0 \<le> tail_of cs1 u"
  shows "mc_src (cs4 ! nat (tail_of cs4 u)) = tail_of cs1 u \<and> (tail_of cs4 u < int mn \<or> int mx < tail_of cs4 u \<longrightarrow> tail_of cs4 u = tail_of cs1 u)"
proof (cases "u \<in> batch_seqs ub")
  case True
  have "u \<notin> extra_seqs ub" using phasesD(4) [OF p, of u] u(2) by auto
  then obtain j where j: "j < ub_n_seqs ub" "u = set_first ub j" using True batch_seqs_split [OF phasesD(1) [OF p]] by auto
  have t: "tail_of cs4 u = int (mn + j)" using phases_batch_tail(2) [OF p j(1)] first_in [OF phasesD(1) [OF p] j(1)] j(2) by simp
  have "mc_src (cs4 ! (mn + j)) = mc_src (cs1 ! nat (tail_of cs1 u))"
    using phases_slot_src [OF p j(1)] chosenD(7) [OF phasesD(7) [OF p], of u] j u(2) by simp
  then have "mc_src (cs4 ! nat (tail_of cs4 u)) = tail_of cs1 u"
    using cell_src [OF phasesD(2) [OF p] phasesD(3) [OF p] u] unfolding t by (simp only: nat_int)
  then show ?thesis using t phasesD(6) [OF p] j(1) by auto
next
  case False
  define i where "i = nat (tail_of cs1 u)"
  have i: "i < length cs1" "tail_of cs1 u = int i" "tail_of cs4 u = int (g i)"
    using linkedD(2) [OF phasesD(2) [OF p] u(1)] u(2) phases_tail(2) [OF p u(1) False] by (simp_all add: i_def)
  have o: "g i < mn \<or> mn + ub_n_seqs ub \<le> g i" by (rule survivor_outside [OF p u(1) False i(2)])
  have "mc_src (cs4 ! g i) = tail_of cs1 u" using phases_cell(3) [OF p i(1) o] cell_src [OF phasesD(2) [OF p] phasesD(3) [OF p] u] i(2) by simp
  then show ?thesis using i(2,3) phases_outside [OF p i(1)] by auto
qed

lemma cell_ok_src: "cell_ok i c \<Longrightarrow> mc_src c = -1 \<or> mc_src c = int i"
  by (auto simp: cell_ok_def split: if_splits)

lemma phases_src_bound:
  assumes p: "phases ub mn mx g cs1 cs2 cs3 cs4" and i: "i < length cs1"
  shows "mc_src (cs4 ! i) < int (length cs1)"
proof (cases "i < mn \<or> mn + ub_n_seqs ub \<le> i")
  case True
  obtain j where j: "j < length cs1" "i = g j" using phases_perm(2) [OF p i] by blast
  have "mc_src (cs4 ! i) = mc_src (cs1 ! j)" using phases_cell(3) [OF p j(1)] True j(2) by blast
  then show ?thesis using cell_ok_src [OF phasesD(3) [OF p j(1)]] j(1) by auto
next
  case False
  define k where "k = i - mn"
  let ?f = "set_first ub k" and ?F = "set_first ub ` {..<ub_n_seqs ub}"
  have k: "k < ub_n_seqs ub" "i = mn + k" using False by (auto simp: k_def)
  have f: "?f \<in> ?F" "own_seq cs1 ?f" using k(1) phases_batch_tail(1) [OF p k(1) first_in [OF phasesD(1) [OF p] k(1)]] by auto
  note c = phasesD(7) [OF p]
  show ?thesis
  proof (cases "tail_of cs1 ?f < 0")
    case True
    then have "mc_src (cs2 ! nat (tail_of cs2 ?f)) = -1 \<or> mc_src (cs2 ! nat (tail_of cs2 ?f)) = tail_of cs2 ?f" by (rule chosenD(8) [OF c f(1)])
    then show ?thesis using phases_slot_src [OF p k(1)] phases_slot(1,2) [OF p k(1)] k(2) by auto
  next
    case False
    then have "mc_src (cs2 ! nat (tail_of cs2 ?f)) = tail_of cs1 ?f"
      using chosenD(7) [OF c f(1)] cell_src [OF phasesD(2) [OF p] phasesD(3) [OF p] f(2)] by simp
    then show ?thesis using phases_slot_src [OF p k(1)] linkedD(2) [OF phasesD(2) [OF p] f(2)] k(2) by simp
  qed
qed

lemma phases_unmoved:
  assumes p: "phases ub mn mx g cs1 cs2 cs3 cs4" and i: "i < length cs1" "i < mn \<or> mx < i"
  shows "mc_src (cs4 ! i) = -1 \<or> mc_src (cs4 ! i) = int i" "mc_seq (cs4 ! i) \<noteq> {} \<Longrightarrow> mc_src (cs4 ! i) = int i"
proof -
  have g: "g i = i" by (rule phasesD(9) [OF p i(2)])
  then have o: "g i < mn \<or> mn + ub_n_seqs ub \<le> g i" using i(2) phasesD(6) [OF p] by auto
  note c = phases_cell [OF p i(1) o, unfolded g] and k = phasesD(3) [OF p i(1)]
  show "mc_src (cs4 ! i) = -1 \<or> mc_src (cs4 ! i) = int i" using cell_ok_src [OF k] c(3) by simp
  show "mc_src (cs4 ! i) = int i" if "mc_seq (cs4 ! i) \<noteq> {}"
  proof -
    have "mc_seq (cs1 ! i) \<noteq> {}" using c(1) that by auto
    then show ?thesis using k c(3) by (simp add: cell_ok_def)
  qed
qed

text \<open>Positions fit the contents of the cells.\<close>

lemma phases_pos:
  assumes p: "phases ub mn mx g cs1 cs2 cs3 cs4" and i: "i < length cs1"
  shows "if mc_seq (cs4 ! i) = {} then mc_pos (cs4 ! i) = -1 else 0 \<le> mc_pos (cs4 ! i) \<and> mc_pos (cs4 ! i) < int INT32_MAX"
proof (cases "i < mn \<or> mn + ub_n_seqs ub \<le> i")
  case True
  obtain j where j: "j < length cs1" "i = g j" using phases_perm(2) [OF p i] by blast
  note c = phases_cell [OF p j(1), folded j(2), OF True] and k = phasesD(3) [OF p j(1)]
  show ?thesis
  proof (cases "mc_seq (cs4 ! i) = {}")
    case e: True
    then have "mc_seq (cs1 ! j) = {}" by (rule c(4))
    then show ?thesis using e c(2) k by (simp add: cell_ok_def)
  next
    case e: False
    then have "mc_seq (cs1 ! j) \<noteq> {}" using c(1) by auto
    then show ?thesis using e c(2) k by (simp add: cell_ok_def)
  qed
next
  case False
  define k where "k = i - mn"
  have k: "k < ub_n_seqs ub" "i = mn + k" using False by (auto simp: k_def)
  have "mc_pos (cs4 ! i) = last_pos ub k" "mc_seq (cs4 ! i) = set (set_seqs ub k)" using phasesD(11) [OF p] k by (simp_all add: placed_def)
  then show ?thesis using batch_setsD(5,9) [OF phasesD(1) [OF p] k(1)] by (simp add: last_pos_def)
qed

section \<open>Sources\<close>

lemma upto_nat: "set (map nat [int a..int b]) = {a..b}" "distinct (map nat [int a..int b])"
proof -
  have "x \<in> nat ` {int a..int b}" if "a \<le> x" "x \<le> b" for x using that by (intro image_eqI [of _ nat "int x"]) auto
  then have "nat ` {int a..int b} = {a..b}" by auto
  then show "set (map nat [int a..int b]) = {a..b}" by simp
  show "distinct (map nat [int a..int b])" by (auto simp: distinct_map inj_on_def)
qed

lemma stage_ok:
  assumes p: "phases ub mn mx g cs1 cs2 cs3 (rm_cells m)"
  shows "\<exists>m'. stage_sources (int mn) (int mx) m = Inr m' \<and> same_frame m m' \<and>
    (rm_rs_z m' = -1 \<or> (\<exists>z. rm_rs_z m' = int z \<and> mn \<le> z \<and> z \<le> mx \<and> refcount (rm_cells m) z = 0)) \<and>
    (\<forall>i < rm_size m. rm_cells m' ! i = (if mn \<le> i \<and> i \<le> mx
       then (rm_cells m ! i)\<lparr>mc_src0 := (if mc_src (rm_cells m ! i) < 0 then rm_rs_z m' else mc_src (rm_cells m ! i)), mc_src := int i\<rparr>
       else rm_cells m ! i))"
proof -
  let ?cs = "rm_cells m" and ?is = "map nat [int mn..int mx]"
  define z where "z = find_rs_z ?cs ?is"
  have l: "length ?cs = length cs1" by (rule phases_length(3) [OF p])
  have zc: "z = -1 \<or> (\<exists>i. z = int i \<and> mn \<le> i \<and> i \<le> mx \<and> refcount ?cs i = 0)"
    using upto_nat(1) [of mn mx] by (auto simp: z_def find_rs_z_def find_Some_iff set_conv_nth simp flip: upto_nat(1) split: option.splits)
  have zp: "0 \<le> z" if "i \<in> set ?is" "mc_src (?cs ! i) < 0" for i
  proof -
    have i: "mn \<le> i" "i \<le> mx" using that(1) upto_nat(1) [of mn mx] by auto
    have "\<exists>j. mn \<le> j \<and> j \<le> mx \<and> refcount ?cs j = 0"
      using unreferenced_exists [of ?cs mn mx i] phases_unmoved(1) [OF p] phasesD(5) [OF p] i l that(2) by simp
    then have "find (\<lambda>i. refcount ?cs i = 0) ?is \<noteq> None" using upto_nat(1) [of mn mx] by (auto simp: find_None_iff)
    then show ?thesis by (auto simp: z_def find_rs_z_def)
  qed
  let ?m = "m\<lparr>rm_rs_z := z\<rparr>"
  have sub: "set ?is \<subseteq> {..<rm_size ?m}" using upto_nat(1) [of mn mx] phasesD(5) [OF p] l by (auto simp: rm_size_def)
  have zm: "0 \<le> rm_rs_z ?m" if "i \<in> set ?is" "mc_src (rm_cells ?m ! i) < 0" for i using zp that by simp
  have "\<exists>m'. fold_r source_step ?is ?m = Inr m' \<and> same_frame ?m m' \<and> rm_rs_z m' = rm_rs_z ?m \<and> (\<forall>i < rm_size ?m. rm_cells m' ! i = (if i \<in> set ?is
         then (rm_cells ?m ! i)\<lparr>mc_src0 := (if mc_src (rm_cells ?m ! i) < 0 then rm_rs_z ?m else mc_src (rm_cells ?m ! i)), mc_src := int i\<rparr>
         else rm_cells ?m ! i))"
    by (rule source_fold_ok [OF upto_nat(2) sub]) (rule zm)
  then obtain m' where f: "fold_r source_step ?is ?m = Inr m'" "same_frame ?m m'" "rm_rs_z m' = rm_rs_z ?m"
      "\<forall>i < rm_size ?m. rm_cells m' ! i = (if i \<in> set ?is
         then (rm_cells ?m ! i)\<lparr>mc_src0 := (if mc_src (rm_cells ?m ! i) < 0 then rm_rs_z ?m else mc_src (rm_cells ?m ! i)), mc_src := int i\<rparr>
         else rm_cells ?m ! i)" by (elim exE conjE)
  have zm': "rm_rs_z m' = z" using f(3) by simp
  have cm: "rm_cells m' ! i = (if mn \<le> i \<and> i \<le> mx
      then (?cs ! i)\<lparr>mc_src0 := (if mc_src (?cs ! i) < 0 then z else mc_src (?cs ! i)), mc_src := int i\<rparr> else ?cs ! i)" if "i < rm_size m" for i
    using f(4) that unfolding upto_nat(1) by (simp add: rm_size_def)
  have "\<not> (list_ex (\<lambda>c. mc_src c \<ge> int (length ?cs)) ?cs \<or> int mn < 0 \<or> int mx \<ge> int (length ?cs))"
    using phases_src_bound [OF p] phasesD(5) [OF p] l by (fastforce simp: list_ex_iff in_set_conv_nth)
  then have "stage_sources (int mn) (int mx) m = Inr m'" using f(1) by (simp add: stage_sources_def Let_def z_def)
  moreover have "same_frame m m'" using f(2) by (simp add: same_frame_def rm_size_def)
  ultimately show ?thesis using zm' zc cm by blast
qed

section \<open>The placement as a whole\<close>

text \<open>The phases before the sources succeed.\<close>

lemma batch_size: "batch_sets n ub \<Longrightarrow> 0 < n"
  using batch_setsD(5,6) [of n ub 0] batch_setsD(2) [of n ub] by (cases n) auto

lemma phases_run:
  assumes inv: "rec_inv m" and b: "batch_sets (rm_size m) ub" and x: "\<And>u. u \<in> extra_seqs ub \<Longrightarrow> tail_of (rm_cells m) u = -1"
  shows "\<exists>e e' mn mx m2 m3 m4 g. first_empty (rm_size m) (rm_cells m) (rm_head m) = Inr e \<and>
    fold_r (take_step ub) [0..<ub_n_seqs ub] (e, int (rm_size m) - 1, 0, m) = Inr (e', int mn, int mx, m2) \<and>
    fold_r (gather_step ub (int mn)) [0..<ub_n_seqs ub] m2 = Inr m3 \<and> fold_r (place_step ub (int mn)) [0..<ub_n_seqs ub] m3 = Inr m4 \<and>
    same_frame m m4 \<and> phases ub mn mx g (rm_cells m) (rm_cells m2) (rm_cells m3) (rm_cells m4)"
proof -
  let ?n = "ub_n_seqs ub" and ?cs = "rm_cells m"
  note d = rec_invD [OF inv]
  have h: "rm_head m < length ?cs" using d(5) batch_size [OF b] by (auto simp: rm_size_def)
  obtain e where e: "first_empty (rm_size m) ?cs (rm_head m) = Inr e" "aim (rm_head m) ?cs e" using first_empty_aim [OF d(1) h] by (auto simp: rm_size_def)
  obtain e' a z m2 where t: "fold_r (take_step ub) [0..<?n] (e, int (rm_size m) - 1, 0, m) = Inr (e', a, z, m2)"
      "chosen ?cs (set_first ub ` {..<?n}) (rm_cells m2)" "same_frame m m2" "spans a z ((\<lambda>j. tail_of (rm_cells m2) (set_first ub j)) ` {..<?n})"
    using take_fold_ok [OF inv b e(1) order_refl e(2)] batch_setsD(2) [OF b] by auto
  let ?t = "\<lambda>j. tail_of (rm_cells m2) (set_first ub j)"
  have sz: "rm_size m2 = rm_size m" using t(3) by (simp add: same_frame_def)
  have f: "own_seq (rm_cells m2) (set_first ub j)" "0 \<le> ?t j" "?t j < int (rm_size m)" if "j < ?n" for j
    using chosenD(4) [OF t(2), of "set_first ub j"] chosenD(2) [OF t(2), of "set_first ub j"] that sz by (auto simp: rm_size_def)
  have inj: "inj_on ?t {..<?n}"
  proof (rule inj_onI)
    fix j k assume jk: "j \<in> {..<?n}" "k \<in> {..<?n}" "?t j = ?t k"
    then have "set_first ub j = set_first ub k" using chosenD(5) [OF t(2), of "set_first ub k" "set_first ub j"] f(1) [of j] by auto
    then show "j = k" using first_inj [OF b, of j k] first_in [OF b, of k] jk by auto
  qed
  have az: "a \<in> ?t ` {..<?n}" "z \<in> ?t ` {..<?n}" "\<And>j. j < ?n \<Longrightarrow> a \<le> ?t j \<and> ?t j \<le> z" using t(4) by (auto simp: spans_def)
  then have bd: "0 \<le> a" "z < int (rm_size m)" "a \<le> z" using f by auto
  then obtain mn mx where mm: "a = int mn" "z = int mx" using nonneg_int_cases by (metis order_trans)
  have "?n = card (?t ` {..<?n})" by (simp add: card_image [OF inj])
  also have "\<dots> \<le> card {a..z}" by (rule card_mono) (use az in auto)
  finally have n: "?n \<le> mx + 1 - mn" by (simp add: mm)
  have "\<exists>m3 g. fold_r (gather_step ub (int mn)) [0..<?n] m2 = Inr m3 \<and> permuted g (rm_cells m2) (rm_cells m3) \<and> same_frame m2 m3 \<and>
      (\<forall>i. i < mn \<or> mx < i \<longrightarrow> g i = i) \<and> (\<forall>j < ?n. g (nat (?t j)) = mn + j)"
    using gather_fold_ok [of m2 ?n ub mn mx ?n] chosenD(2) [OF t(2)] f(1) az(3) inj n bd sz by (simp add: mm rm_size_def)
  then obtain m3 g where g: "fold_r (gather_step ub (int mn)) [0..<?n] m2 = Inr m3" "permuted g (rm_cells m2) (rm_cells m3)" "same_frame m2 m3"
      "\<And>i. i < mn \<or> mx < i \<Longrightarrow> g i = i" "\<And>j. j < ?n \<Longrightarrow> g (nat (?t j)) = mn + j"
    by blast
  have s3: "rm_size m3 = rm_size m" using g(3) sz by (simp add: same_frame_def)
  have nn: "mn + ?n \<le> mx + 1" "mn + ?n \<le> rm_size m3" using n bd s3 batch_setsD(2) [OF b] by (simp_all add: mm)
  obtain m4 where q: "fold_r (place_step ub (int mn)) [0..<?n] m3 = Inr m4" "same_frame m3 m4" "placed ub mn (rm_cells m3) (rm_cells m4)"
    using place_fold_ok [of m3 ub mn ?n] b nn(2) s3 unfolding placed_def batch_seqs_def by (auto simp: same_frame_def rm_size_def)
  have "phases ub mn mx g ?cs (rm_cells m2) (rm_cells m3) (rm_cells m4)"
    unfolding phases_def using b d(1,2) x bd(2) nn(1) t(2) g(2,4,5) q(3) by (simp add: mm rm_size_def)
  moreover have "same_frame m m4" using t(3) g(3) q(2) by (simp add: same_frame_def)
  ultimately show ?thesis using e(1) t(1) g(1) q(1) mm by blast
qed

text \<open>What the placement promises of the memory \<open>m'\<close> after it.\<close>

definition slot_ok :: "llama_ubatch \<Rightarrow> llama_memory_recurrent \<Rightarrow> llama_memory_recurrent \<Rightarrow> bool" where
  "slot_ok ub m m' \<longleftrightarrow> rec_inv m' \<and> rm_size m' = rm_size m \<and> rm_rs_idx m' = rm_rs_idx m \<and> rm_n_rs_seq m' = rm_n_rs_seq m \<and>
     ub_n_seqs ub \<le> rm_n m' \<and> rm_head m' + rm_n m' \<le> rm_size m' \<and>
     (\<forall>k < ub_n_seqs ub. \<forall>u \<in> set (set_seqs ub k). tail_of (rm_cells m') u = int (rm_head m' + k) \<and>
        rec_abs m' u = Some (last_pos ub k, set (set_seqs ub k))) \<and>
     (\<forall>u. u \<notin> batch_seqs ub \<longrightarrow> rec_abs m' u = map_option (\<lambda>(p, q). (p, q - batch_seqs ub)) (rec_abs m u)) \<and>
     (\<forall>u. own_seq (rm_cells m) u \<and> 0 \<le> tail_of (rm_cells m) u \<and> u \<notin> extra_seqs ub \<longrightarrow>
        rm_rs_z m' \<noteq> tail_of (rm_cells m) u \<and>
        (if int (rm_head m') \<le> tail_of (rm_cells m') u \<and> tail_of (rm_cells m') u < int (rm_head m' + rm_n m')
         then mc_src0 (rm_cells m' ! nat (tail_of (rm_cells m') u)) = tail_of (rm_cells m) u
         else tail_of (rm_cells m') u = tail_of (rm_cells m) u))"

text \<open>The sources do not change who has which cell.\<close>

lemma staged_slot:
  assumes inv: "rec_inv m" and p: "phases ub mn mx g (rm_cells m) cs2 cs3 (rm_cells m4)" and fr: "same_frame m m4" "same_frame m4 m5"
    and z: "rm_rs_z m5 = -1 \<or> (\<exists>z. rm_rs_z m5 = int z \<and> mn \<le> z \<and> z \<le> mx \<and> refcount (rm_cells m4) z = 0)"
    and c: "\<And>i. i < rm_size m4 \<Longrightarrow> rm_cells m5 ! i = (if mn \<le> i \<and> i \<le> mx
       then (rm_cells m4 ! i)\<lparr>mc_src0 := (if mc_src (rm_cells m4 ! i) < 0 then rm_rs_z m5 else mc_src (rm_cells m4 ! i)), mc_src := int i\<rparr>
       else rm_cells m4 ! i)"
  shows "slot_ok ub m (m5\<lparr>rm_head := mn, rm_n := mx - mn + 1, rm_used := in_use (rm_cells m5)\<rparr>)" (is "slot_ok ub m ?m")
proof -
  let ?cs = "rm_cells m" and ?cs4 = "rm_cells m4" and ?cs5 = "rm_cells m5"
  have sz: "rm_size m4 = rm_size m" "rm_size m5 = rm_size m" "length ?cs4 = length ?cs" "length ?cs5 = length ?cs"
    using fr by (simp_all add: same_frame_def rm_size_def)
  have o: "own_seq ?cs4 u = own_seq ?cs u" "own_seq ?cs5 u = own_seq ?cs u" for u using sz by (simp_all add: own_seq_def)
  have k: "mc_seq (?cs5 ! i) = mc_seq (?cs4 ! i)" "mc_pos (?cs5 ! i) = mc_pos (?cs4 ! i)" "mc_tail (?cs5 ! i) = mc_tail (?cs4 ! i)"
    "mc_src (?cs5 ! i) = (if mn \<le> i \<and> i \<le> mx then int i else mc_src (?cs4 ! i))" if "i < rm_size m" for i using c [of i] that sz by simp_all
  have t: "tail_of ?cs5 u = tail_of ?cs4 u" if "own_seq ?cs u" for u using k(3) [of "nat u"] that by (auto simp: tail_of_def own_seq_def rm_size_def)
  note l4 = phases_linked [OF p]
  have l5: "linked ?cs5" using l4 k(1) t o sz by (simp add: linked_def rm_size_def cong: conj_cong)
  have "cell_ok i (?cs5 ! i)" if "i < rm_size m" for i
    using phases_pos [OF p, of i] phases_unmoved [OF p, of i] k [OF that] that unfolding cell_ok_def by (auto simp: rm_size_def not_le split: if_splits)
  moreover have "mn < rm_size m" "mn \<le> mx" "mx < rm_size m" using phasesD(5,6) [OF p] batch_setsD(2) [OF phasesD(1) [OF p]] by (simp_all add: rm_size_def)
  ultimately have iv: "rec_inv ?m" "mn + (mx - mn + 1) = mx + 1" "mx + 1 \<le> rm_size m" using l5 rec_invD(4) [OF inv] sz by (simp_all add: rec_inv_def rm_size_def)
  have ab: "rec_abs ?m u = (if own_seq ?cs u \<and> 0 \<le> tail_of ?cs4 u then Some (mc_pos (?cs4 ! nat (tail_of ?cs4 u)), mc_seq (?cs4 ! nat (tail_of ?cs4 u))) else None)" for u
    using t [of u] o [of u] k(1,2) [of "nat (tail_of ?cs4 u)"] linkedD(2) [OF l4, of u] sz by (auto simp: rec_abs_def Let_def rm_size_def)
  have "tail_of ?cs5 u = int (mn + j) \<and> rec_abs ?m u = Some (last_pos ub j, set (set_seqs ub j))" if j: "j < ub_n_seqs ub" "u \<in> set (set_seqs ub j)" for j u
    using ab [of u] phases_batch_tail [OF p j] t [of u] phasesD(11) [OF p] j(1) nat_int [of "mn + j"] by (simp add: placed_def del: of_nat_add)
  moreover have "rec_abs ?m u = map_option (\<lambda>(p, q). (p, q - batch_seqs ub)) (rec_abs m u)" if u: "u \<notin> batch_seqs ub" for u
  proof (cases "own_seq ?cs u \<and> 0 \<le> tail_of ?cs u")
    case True
    define i where "i = nat (tail_of ?cs u)"
    have i: "i < length ?cs" "tail_of ?cs u = int i" "tail_of ?cs4 u = int (g i)"
      using linkedD(2,4) [OF phasesD(2) [OF p], of u] True phases_tail(2) [OF p _ u] by (simp_all add: i_def)
    note q = phases_cell [OF p i(1) survivor_outside [OF p _ u i(2)]]
    show ?thesis using ab [of u] True i q(1,2) by (simp add: rec_abs_def Let_def)
  next
    case False
    then show ?thesis using ab [of u] phases_tail(2) [OF p _ u] by (auto simp: rec_abs_def)
  qed
  moreover have "rm_rs_z m5 \<noteq> tail_of ?cs u \<and> (if int mn \<le> tail_of ?cs5 u \<and> tail_of ?cs5 u \<le> int mx
      then mc_src0 (?cs5 ! nat (tail_of ?cs5 u)) = tail_of ?cs u else tail_of ?cs5 u = tail_of ?cs u)" if u: "own_seq ?cs u" "0 \<le> tail_of ?cs u" for u
  proof -
    define i where "i = nat (tail_of ?cs4 u)"
    note v = phases_survivor [OF p u]
    have "0 \<le> tail_of ?cs4 u" using survivor_tail [OF p u] .
    then have i: "tail_of ?cs5 u = int i" "tail_of ?cs4 u = int i" "i < rm_size m" "mc_src (?cs4 ! i) = tail_of ?cs u"
      using t [OF u(1)] linkedD(2) [OF l4, of u] o(1) u(1) v sz by (simp_all add: i_def rm_size_def)
    have "?cs4 ! i \<in> set ?cs4" using i(3) sz by (simp add: rm_size_def)
    then have "rm_rs_z m5 \<noteq> tail_of ?cs u" using z i(4) u(2) by (auto simp: refcount_def count_if_def filter_empty_conv)
    then show ?thesis using c [of i] i v u(2) sz by auto
  qed
  ultimately show ?thesis unfolding slot_ok_def using iv fr sz phasesD(6) [OF p] by (auto simp: same_frame_def rm_size_def less_Suc_eq_le)
qed

lemma slot_ok_src:
  assumes "slot_ok ub m m'" and "own_seq (rm_cells m) u" and "0 \<le> tail_of (rm_cells m) u" and "u \<notin> extra_seqs ub"
  shows "rm_rs_z m' \<noteq> tail_of (rm_cells m) u \<and>
    (if int (rm_head m') \<le> tail_of (rm_cells m') u \<and> tail_of (rm_cells m') u < int (rm_head m' + rm_n m')
     then mc_src0 (rm_cells m' ! nat (tail_of (rm_cells m') u)) = tail_of (rm_cells m) u else tail_of (rm_cells m') u = tail_of (rm_cells m) u)"
  using assms unfolding slot_ok_def by blast

lemma find_slot_run:
  assumes inv: "rec_inv m" and b: "batch_sets (rm_size m) ub"
  shows "\<exists>m'. recurrent_find_slot ub m = Inr (True, m') \<and> slot_ok ub m m'"
proof -
  define m0 where "m0 = (if rm_head m > u32 (rm_used m + 2 * ub_n_seqs ub) then m\<lparr>rm_head := 0\<rparr> else m)"
  have f0: "rm_cells m0 = rm_cells m" "rm_size m0 = rm_size m" "rm_rs_idx m0 = rm_rs_idx m" "rm_n_rs_seq m0 = rm_n_rs_seq m" "rm_used m0 = rm_used m"
    by (simp_all add: m0_def rm_size_def)
  have i0: "rec_inv m0" using inv f0 batch_size [OF b] unfolding rec_inv_def by (auto simp: m0_def)
  have a0: "rec_abs m0 u = rec_abs m u" for u using f0(1) by (simp add: rec_abs_def)
  obtain m1 where m1: "share_sets ub m0 = Inr (True, m1)" "rec_inv m1" "same_frame m0 m1" "rec_abs m1 = unlink_all (extra_seqs ub) (rec_abs m0)"
      "\<And>u. own_seq (rm_cells m) u \<Longrightarrow> tail_of (rm_cells m1) u = (if u \<in> extra_seqs ub then -1 else tail_of (rm_cells m) u)"
    using share_sets_ok [OF i0, of ub] b f0 by auto
  have s1: "rm_size m1 = rm_size m" "own_seq (rm_cells m1) u = own_seq (rm_cells m) u" for u using m1(3) f0 by (simp_all add: same_frame_def own_seq_def rm_size_def)
  have xo: "own_seq (rm_cells m) u" "u \<in> batch_seqs ub" if "u \<in> extra_seqs ub" for u
  proof -
    show "u \<in> batch_seqs ub" using that batch_seqs_split [OF b] by blast
    then obtain k where "k < ub_n_seqs ub" "u \<in> set (set_seqs ub k)" by (auto simp: batch_seqs_def)
    then show "own_seq (rm_cells m) u" using batch_setsD(6) [OF b, of k] by (auto simp: own_seq_def rm_size_def)
  qed
  have x1: "tail_of (rm_cells m1) u = -1" if "u \<in> extra_seqs ub" for u using m1(5) [OF xo(1) [OF that]] that by simp
  have b1: "batch_sets (rm_size m1) ub" using b s1(1) by simp
  obtain e e' mn mx m2 m3 m4 g where p: "first_empty (rm_size m1) (rm_cells m1) (rm_head m1) = Inr e"
      "fold_r (take_step ub) [0..<ub_n_seqs ub] (e, int (rm_size m1) - 1, 0, m1) = Inr (e', int mn, int mx, m2)"
      "fold_r (gather_step ub (int mn)) [0..<ub_n_seqs ub] m2 = Inr m3" "fold_r (place_step ub (int mn)) [0..<ub_n_seqs ub] m3 = Inr m4"
      "same_frame m1 m4" "phases ub mn mx g (rm_cells m1) (rm_cells m2) (rm_cells m3) (rm_cells m4)"
    using phases_run [OF m1(2) b1 x1] by blast
  obtain m5 where m5: "stage_sources (int mn) (int mx) m4 = Inr m5" "same_frame m4 m5"
      "rm_rs_z m5 = -1 \<or> (\<exists>z. rm_rs_z m5 = int z \<and> mn \<le> z \<and> z \<le> mx \<and> refcount (rm_cells m4) z = 0)"
      "\<And>i. i < rm_size m4 \<Longrightarrow> rm_cells m5 ! i = (if mn \<le> i \<and> i \<le> mx
         then (rm_cells m4 ! i)\<lparr>mc_src0 := (if mc_src (rm_cells m4 ! i) < 0 then rm_rs_z m5 else mc_src (rm_cells m4 ! i)), mc_src := int i\<rparr>
         else rm_cells m4 ! i)"
    using stage_ok [OF p(6)] by blast
  define m' where "m' = m5\<lparr>rm_head := mn, rm_n := mx - mn + 1, rm_used := in_use (rm_cells m5)\<rparr>"
  have so: "slot_ok ub m1 m'" unfolding m'_def by (rule staged_slot [OF m1(2) p(6,5) m5(2-4)])
  have n: "nat ((int mx - int mn + 1) mod 2 ^ 32) = mx - mn + 1" "ub_n_seqs ub \<le> mx - mn + 1"
  proof -
    have "mn \<le> mx" "mx < rm_size m1" "rm_size m1 \<le> INT32_MAX" "ub_n_seqs ub \<le> mx - mn + 1"
      using phasesD(5,6) [OF p(6)] batch_setsD(2) [OF b] rec_invD(4) [OF m1(2)] by (simp_all add: rm_size_def)
    then have "int mx - int mn + 1 = int (mx - mn + 1)" "mx - mn + 1 < 2 ^ 32" by simp_all
    then show "nat ((int mx - int mn + 1) mod 2 ^ 32) = mx - mn + 1" by (simp add: of_nat_mod [symmetric] del: of_nat_add of_nat_Suc)
    show "ub_n_seqs ub \<le> mx - mn + 1" by fact
  qed
  have "recurrent_find_slot ub m = Inr (True, m')"
    unfolding recurrent_find_slot_def Let_def m0_def [symmetric] using m1(1) p(1-4) m5(1) n batch_setsD(1) [OF b] by (simp add: m'_def in_use_def)
  moreover have "slot_ok ub m m'"
  proof -
    have mo: "map_option (\<lambda>(p, q). (p, q - batch_seqs ub)) (rec_abs m1 u) = map_option (\<lambda>(p, q). (p, q - batch_seqs ub)) (rec_abs m u)" if "u \<notin> batch_seqs ub" for u
    proof -
      have "u \<notin> extra_seqs ub" "\<And>q. q - extra_seqs ub - batch_seqs ub = q - batch_seqs ub" using that xo(2) by auto
      then show ?thesis using m1(4) a0 by (cases "rec_abs m u") (auto simp: unlink_all_def)
    qed
    have rs: "rm_rs_idx m1 = rm_rs_idx m" "rm_n_rs_seq m1 = rm_n_rs_seq m" using m1(3) f0 by (simp_all add: same_frame_def)
    have src: "\<forall>u. own_seq (rm_cells m) u \<and> 0 \<le> tail_of (rm_cells m) u \<and> u \<notin> extra_seqs ub \<longrightarrow> rm_rs_z m' \<noteq> tail_of (rm_cells m) u \<and>
        (if int (rm_head m') \<le> tail_of (rm_cells m') u \<and> tail_of (rm_cells m') u < int (rm_head m' + rm_n m')
         then mc_src0 (rm_cells m' ! nat (tail_of (rm_cells m') u)) = tail_of (rm_cells m) u else tail_of (rm_cells m') u = tail_of (rm_cells m) u)"
    proof (intro allI impI)
      fix u assume u: "own_seq (rm_cells m) u \<and> 0 \<le> tail_of (rm_cells m) u \<and> u \<notin> extra_seqs ub"
      then have te: "tail_of (rm_cells m1) u = tail_of (rm_cells m) u" using m1(5) [of u] by simp
      show "rm_rs_z m' \<noteq> tail_of (rm_cells m) u \<and>
          (if int (rm_head m') \<le> tail_of (rm_cells m') u \<and> tail_of (rm_cells m') u < int (rm_head m' + rm_n m')
           then mc_src0 (rm_cells m' ! nat (tail_of (rm_cells m') u)) = tail_of (rm_cells m) u else tail_of (rm_cells m') u = tail_of (rm_cells m) u)"
        using slot_ok_src [OF so, of u, unfolded te s1(2)] u by blast
    qed
    show ?thesis unfolding slot_ok_def by (intro conjI src) (use so [unfolded slot_ok_def] mo rs s1(1) in simp_all)
  qed
  ultimately show ?thesis by blast
qed

end
