(* ===== verification/RecurrentProps.thy ===== *)
theory RecurrentProps
  imports RecurrentPlace
begin

text \<open>
  What the recurrent memory promises: its edits refine functions on the abstract state, a micro-batch is always placed and
  every state is read from where it was, and a rollback is read from its snapshot. Two cases in which the code
  does less than it means to are stated as well.
\<close>

section \<open>The memory of the constructor\<close>

lemma recurrent_new_inv:
  assumes "n \<le> INT32_MAX"
  shows "rec_inv (recurrent_new n n_seq_max n_rs_seq)"
  using assms by (auto simp: rec_inv_def recurrent_new_def linked_def own_seq_def tail_of_def cell_ok_def empty_mem_cell_def in_use_def count_if_def rm_size_def)

section \<open>Rehearsal\<close>

text \<open>Micro-batches that fit the memory are all placed in the rehearsal, which leaves the cells as they were.\<close>

lemma prepare_slots_ok:
  assumes "rec_inv m" and "\<And>ub. ub \<in> set ubs \<Longrightarrow> batch_sets (rm_size m) ub"
  shows "\<exists>m'. prepare_slots ubs m = Inr (True, m') \<and> rm_rs_idx m' = rm_rs_idx m \<and> rm_n_rs_seq m' = rm_n_rs_seq m"
  using assms
proof (induction ubs arbitrary: m)
  case (Cons ub ubs)
  obtain m1 where m1: "recurrent_find_slot ub m = Inr (True, m1)" "slot_ok ub m m1" using find_slot_run [of m ub] Cons.prems by auto
  then have "rec_inv m1" "rm_size m1 = rm_size m" "rm_rs_idx m1 = rm_rs_idx m" "rm_n_rs_seq m1 = rm_n_rs_seq m" by (simp_all add: slot_ok_def)
  then show ?case using Cons.IH [of m1] Cons.prems(2) m1(1) by auto
qed simp

lemma recurrent_prepare_ok:
  assumes "rec_inv m" and "\<And>ub. ub \<in> set ubs \<Longrightarrow> batch_sets (rm_size m) ub"
  shows "\<exists>m'. recurrent_prepare ubs m = Inr (True, m') \<and> rm_cells m' = rm_cells m \<and> rm_used m' = rm_used m \<and> rm_head m' = rm_head m \<and>
    rm_rs_idx m' = rm_rs_idx m \<and> rm_n_rs_seq m' = rm_n_rs_seq m"
proof -
  obtain m' where "prepare_slots ubs m = Inr (True, m')" "rm_rs_idx m' = rm_rs_idx m" "rm_n_rs_seq m' = rm_n_rs_seq m" using prepare_slots_ok [of m ubs] assms by blast
  then show ?thesis by (simp add: recurrent_prepare_def)
qed

section \<open>Rollback\<close>

lemma rollback_run:
  assumes inv: "rec_inv m" and a: "rec_abs m s = Some (p, q)" and r: "1 \<le> r" "int r \<le> p" "r \<le> rm_n_rs_seq m" "rm_n_rs_seq m \<le> INT32_MAX"
    and s: "nat s < length (rm_rs_idx m)"
  shows "\<exists>m1. recurrent_seq_rm s (p - int r + 1) (-1) m = Inr (True, m1) \<and> rec_inv m1 \<and> rec_abs m1 s = Some (p - int r, q) \<and>
    rm_rs_idx m1 = (rm_rs_idx m)[nat s := r] \<and> rm_n_rs_seq m1 = rm_n_rs_seq m \<and> rm_size m1 = rm_size m \<and> tail_of (rm_cells m1) s = tail_of (rm_cells m) s"
proof -
  note d = rec_invD [OF inv]
  have o: "own_seq (rm_cells m) s" "0 \<le> tail_of (rm_cells m) s" using a by (auto simp: rec_abs_def split: if_splits)
  then obtain i where i: "tail_of (rm_cells m) s = int i" "i < length (rm_cells m)" "s \<in> mc_seq (rm_cells m ! i)" using tail_cases [OF d(1) o(1)] by auto
  have c: "p = mc_pos (rm_cells m ! i)" "q = mc_seq (rm_cells m ! i)" using a rec_abs_Some [OF o(1) i(1)] by auto
  have p: "p < int INT32_MAX" using d(2) [of i] i c by (auto simp: cell_ok_def rm_size_def split: if_splits)
  let ?p0 = "p - int r + 1"
  have lo: "range_lo ?p0 = ?p0" "range_hi (-1) = int INT32_MAX" using r by (simp_all add: range_lo_def range_hi_def)
  have rb: "is_rollback ?p0 (int INT32_MAX) p" "rollback_ok (rm_n_rs_seq m) (p - (?p0 - 1))"
    using r p by (simp_all add: is_rollback_def rollback_ok_def i32_of_u32_def)
  have z: "\<not> s \<ge> int (rm_size m)" "\<not> s < 0" "mc_tail (rm_cells m ! nat s) = int i" using o i by (simp_all add: own_seq_def rm_size_def tail_of_def)
  let ?m1 = "put_cell i ((rm_cells m ! i)\<lparr>mc_pos := ?p0 - 1\<rparr>) (set_rs_idx s r m)"
  have rd: "read_cell m (int i) = Inr (rm_cells m ! i)" using i(2) by (simp add: read_cell_def rm_size_def)
  have can: "recurrent_can_seq_rm m s ?p0 (-1) = Inr True"
    unfolding recurrent_can_seq_rm_def Let_def lo using z rd rb c(1) by simp
  have p0: "\<not> (?p0 = 0 \<and> int INT32_MAX = int INT32_MAX)" using r by simp
  have "nat (p - (?p0 - 1)) = r" by simp
  then have run: "recurrent_seq_rm s ?p0 (-1) m = Inr (True, ?m1)"
    unfolding recurrent_seq_rm_def can Let_def lo using z rd rb c(1) p0 by simp
  obtain m1 where k: "recurrent_seq_rm s ?p0 (-1) m = Inr (fst (rm_spec (rm_n_rs_seq m) s ?p0 (-1) (rec_abs m)), m1)" "rec_inv m1"
      "rec_abs m1 = snd (rm_spec (rm_n_rs_seq m) s ?p0 (-1) (rec_abs m))" using seq_rm_ok [OF inv o(1)] by blast
  have "m1 = ?m1" using k(1) run by simp
  moreover have "rec_abs m1 s = Some (p - int r, q)" using k(3) a rb lo i(3) c(2) by (simp add: rm_spec_def move_to_def)
  moreover have "rm_rs_idx ?m1 = (rm_rs_idx m)[nat s := r]" using s z r(3) by (simp add: set_rs_idx_def)
  moreover have "tail_of (rm_cells ?m1) s = tail_of (rm_cells m) s" using i(2) by (cases "nat s = i") (simp_all add: tail_of_def)
  ultimately show ?thesis using run k(2) by simp
qed

lemma rec_abs_tail: "rec_abs m s = Some x \<Longrightarrow> own_seq (rm_cells m) s \<and> 0 \<le> tail_of (rm_cells m) s"
  by (auto simp: rec_abs_def split: if_splits)

section \<open>Removal of everything\<close>

text \<open>With a negative sequence every cell is emptied, but no tail is reset.\<close>

lemma rm_all_fold:
  assumes "\<And>i. i < rm_size m \<Longrightarrow> cell_ok i (rm_cells m ! i)" and "k \<le> rm_size m"
  shows "\<exists>m' h. fold (rm_seq_step (-1) 0 (int INT32_MAX)) [0..<k] (m, rm_size m) = (m', h) \<and> rm_size m' = rm_size m \<and> rm_head m' = rm_head m \<and>
    (\<forall>i < rm_size m. mc_tail (rm_cells m' ! i) = mc_tail (rm_cells m ! i) \<and> (i < k \<longrightarrow> mc_seq (rm_cells m' ! i) = {}) \<and> (k \<le> i \<longrightarrow> rm_cells m' ! i = rm_cells m ! i)) \<and>
    h \<le> rm_size m"
  using assms(2)
proof (induction k)
  case (Suc k)
  then obtain m1 h where i: "fold (rm_seq_step (-1) 0 (int INT32_MAX)) [0..<k] (m, rm_size m) = (m1, h)" "rm_size m1 = rm_size m" "rm_head m1 = rm_head m"
      "\<And>i. i < rm_size m \<Longrightarrow> mc_tail (rm_cells m1 ! i) = mc_tail (rm_cells m ! i) \<and> (i < k \<longrightarrow> mc_seq (rm_cells m1 ! i) = {}) \<and> (k \<le> i \<longrightarrow> rm_cells m1 ! i = rm_cells m ! i)"
      "h \<le> rm_size m" by auto
  let ?c = "rm_cells m1 ! k"
  have k: "k < rm_size m" "?c = rm_cells m ! k" using Suc.prems i(4) [of k] by auto
  show ?case
  proof (cases "mc_pos ?c \<ge> 0 \<and> mc_pos ?c < int INT32_MAX")
    case True
    define m2 where "m2 = put_cell k (?c\<lparr>mc_seq := {}, mc_pos := -1, mc_src := -1\<rparr>) (dec_used m1)"
    have "rm_seq_step (-1) 0 (int INT32_MAX) k (m1, h) = (m2, if h = rm_size m then k else h)"
      using True i(2) by (simp add: m2_def rm_seq_step_def Let_def)
    moreover have "mc_tail (rm_cells m2 ! i) = mc_tail (rm_cells m ! i) \<and> (i < Suc k \<longrightarrow> mc_seq (rm_cells m2 ! i) = {}) \<and> (Suc k \<le> i \<longrightarrow> rm_cells m2 ! i = rm_cells m ! i)" if "i < rm_size m" for i
      using i(4) [OF that] i(4) [OF k(1)] that i(2) by (cases "i = k") (auto simp: m2_def rm_size_def less_Suc_eq)
    moreover have "rm_size m2 = rm_size m" "rm_head m2 = rm_head m" using i(2,3) by (simp_all add: m2_def)
    ultimately show ?thesis using i(1,5) k(1) by (intro exI [of _ m2] exI [of _ "if h = rm_size m then k else h"]) simp
  next
    case False
    have "mc_seq ?c = {}" using assms(1) [OF k(1)] k(2) False by (auto simp: cell_ok_def split: if_splits)
    moreover have "rm_seq_step (-1) 0 (int INT32_MAX) k (m1, h) = (m1, h)" using False by (auto simp: rm_seq_step_def Let_def)
    ultimately show ?thesis using i by (auto simp: less_Suc_eq)
  qed
qed simp

lemma seq_rm_everything:
  assumes inv: "rec_inv m" and n: "0 < rm_size m"
  shows "\<exists>m'. recurrent_seq_rm (-1) (-1) (-1) m = Inr (True, m') \<and> rm_size m' = rm_size m \<and> rm_head m' < rm_size m \<and>
    (\<forall>i < rm_size m. mc_seq (rm_cells m' ! i) = {} \<and> mc_tail (rm_cells m' ! i) = mc_tail (rm_cells m ! i))"
proof -
  let ?m = "m\<lparr>rm_rs_idx := map (\<lambda>_. 0) (rm_rs_idx m)\<rparr>"
  note d = rec_invD [OF inv]
  have z: "rm_size ?m = rm_size m" by (simp add: rm_size_def)
  obtain m1 h where f: "fold (rm_seq_step (-1) 0 (int INT32_MAX)) [0..<rm_size m] (?m, rm_size m) = (m1, h)" "rm_size m1 = rm_size m" "rm_head m1 = rm_head m"
      "\<And>i. i < rm_size m \<Longrightarrow> mc_tail (rm_cells m1 ! i) = mc_tail (rm_cells m ! i) \<and> mc_seq (rm_cells m1 ! i) = {}" "h \<le> rm_size m"
    using rm_all_fold [of ?m "rm_size ?m"] d(2) z by auto
  have "range_lo (-1) = 0" "range_hi (-1) = int INT32_MAX" by (simp_all add: range_lo_def range_hi_def)
  then have "recurrent_seq_rm (-1) (-1) (-1) m = Inr (True, rewind_head h m1)"
    using f(1) z by (simp add: recurrent_seq_rm_def recurrent_can_seq_rm_def Let_def rm_cells_loop_def)
  moreover have "rm_head (rewind_head h m1) < rm_size m" using d(5) n f(2,3,5) by (auto simp: rewind_head_def)
  ultimately show ?thesis using f(2,4) by simp
qed

text \<open>A memory whose cells have no sequences although tails are left: the phases of \<open>find_slot\<close> run until one reads such a tail.\<close>

definition hollow :: "nat \<Rightarrow> nat \<Rightarrow> llama_memory_recurrent \<Rightarrow> bool" where
  "hollow n h m \<longleftrightarrow> rm_size m = n \<and> rm_head m = h \<and> (\<forall>i < n. mc_seq (rm_cells m ! i) = {} \<and> mc_tail (rm_cells m ! i) < int n)"

lemma hollow_set_tail:
  assumes "hollow n h m" and "0 \<le> s" "s < int n" and "t < int n"
  shows "hollow n h (set_tail s t m)"
    and "0 \<le> u \<Longrightarrow> u < int n \<Longrightarrow> u \<noteq> s \<Longrightarrow> tail_of (rm_cells (set_tail s t m)) u = tail_of (rm_cells m) u"
proof -
  have l: "length (rm_cells m) = n" using assms(1) by (simp add: hollow_def rm_size_def)
  show "hollow n h (set_tail s t m)" using assms l by (auto simp: hollow_def set_tail_cells nth_list_update)
  show "tail_of (rm_cells (set_tail s t m)) u = tail_of (rm_cells m) u" if "0 \<le> u" "u < int n" "u \<noteq> s"
    using set_tail_of [of m u s t] that assms(2,3) l by (simp add: own_seq_def)
qed

lemma hollow_drop:
  assumes "hollow n h m" and "i < n"
  shows "hollow n h (drop_seq s i m)" and "tail_of (rm_cells (drop_seq s i m)) u = tail_of (rm_cells m) u"
proof -
  have l: "length (rm_cells m) = n" using assms(1) by (simp add: hollow_def rm_size_def)
  show "hollow n h (drop_seq s i m)" using assms l by (auto simp: hollow_def drop_seq_cells nth_list_update)
  show "tail_of (rm_cells (drop_seq s i m)) u = tail_of (rm_cells m) u"
    using assms(2) l by (cases "nat u = i") (simp_all add: drop_seq_cells tail_of_def)
qed

lemma share_hollow:
  assumes "hollow n h m" and "\<forall>(j, s) \<in> set xs. 0 \<le> s \<and> s < int n"
  shows "\<exists>m'. fold_r share_step xs (True, m) = Inr (True, m') \<and> hollow n h m' \<and>
    (\<forall>u. 0 \<le> u \<and> u < int n \<and> \<not> (\<exists>j. (j, u) \<in> set xs \<and> j \<noteq> 0) \<longrightarrow> tail_of (rm_cells m') u = tail_of (rm_cells m) u)"
  using assms
proof (induction xs arbitrary: m)
  case (Cons x xs)
  obtain j s where x: "x = (j, s)" by (cases x)
  have s: "0 \<le> s" "s < int n" using Cons.prems(2) x by simp_all
  have z: "rm_size m = n" using Cons.prems(1) by (simp add: hollow_def)
  have "\<exists>m1. share_step x (True, m) = Inr (True, m1) \<and> hollow n h m1 \<and>
      (\<forall>u. 0 \<le> u \<and> u < int n \<and> \<not> (j \<noteq> 0 \<and> u = s) \<longrightarrow> tail_of (rm_cells m1) u = tail_of (rm_cells m) u)"
  proof (cases "j = 0 \<or> mc_tail (rm_cells m ! nat s) < 0")
    case True
    then show ?thesis using Cons.prems(1) s z x by (auto simp: share_step_def)
  next
    case False
    define i where "i = nat (mc_tail (rm_cells m ! nat s))"
    have "nat s < n" using s by linarith
    then have "mc_tail (rm_cells m ! nat s) < int n" using Cons.prems(1) by (simp add: hollow_def)
    then have i: "i < n" "mc_tail (rm_cells m ! nat s) = int i" using False by (simp_all add: i_def nat_less_iff)
    have "share_step x (True, m) = Inr (True, set_tail s (-1) (drop_seq s i m))"
      using False s z x i by (simp add: share_step_def Let_def read_cell_def)
    moreover note hollow_set_tail [OF hollow_drop(1) [OF Cons.prems(1) i(1), of s] s, of "-1"] hollow_drop(2) [OF Cons.prems(1) i(1), of s]
    ultimately show ?thesis using False s by auto
  qed
  then obtain m1 where m1: "share_step x (True, m) = Inr (True, m1)" "hollow n h m1"
      "\<forall>u. 0 \<le> u \<and> u < int n \<and> \<not> (j \<noteq> 0 \<and> u = s) \<longrightarrow> tail_of (rm_cells m1) u = tail_of (rm_cells m) u" by blast
  obtain m' where m': "fold_r share_step xs (True, m1) = Inr (True, m')" "hollow n h m'"
      "\<forall>u. 0 \<le> u \<and> u < int n \<and> \<not> (\<exists>j. (j, u) \<in> set xs \<and> j \<noteq> 0) \<longrightarrow> tail_of (rm_cells m') u = tail_of (rm_cells m1) u"
    using Cons.IH [OF m1(2)] Cons.prems(2) by auto
  have "tail_of (rm_cells m') u = tail_of (rm_cells m) u"
    if u: "0 \<le> u \<and> u < int n \<and> \<not> (\<exists>j. (j, u) \<in> set (x # xs) \<and> j \<noteq> 0)" for u
  proof -
    have "\<not> (\<exists>j. (j, u) \<in> set xs \<and> j \<noteq> 0)" "\<not> (j \<noteq> 0 \<and> u = s)" using u x by auto
    then show ?thesis using m1(3) m'(3) u by simp
  qed
  moreover have "fold_r share_step (x # xs) (True, m) = Inr (True, m')" using m1(1) m'(1) by simp
  ultimately show ?case using m'(2) by blast
qed simp

lemma take_hollow:
  assumes m: "hollow n h m" and e: "e < n" and b: "batch_sets n ub" "k < ub_n_seqs ub"
  shows "0 \<le> tail_of (rm_cells m) (set_first ub k) \<Longrightarrow> take_step ub k (e, mn, mx, m) = Inl Assert_fail"
    and "tail_of (rm_cells m) (set_first ub k) < 0 \<Longrightarrow> \<exists>e' mn' mx' m'. take_step ub k (e, mn, mx, m) = Inr (e', mn', mx', m') \<and>
      e' < n \<and> hollow n h m' \<and> (\<forall>u. 0 \<le> u \<and> u < int n \<and> u \<noteq> set_first ub k \<longrightarrow> tail_of (rm_cells m') u = tail_of (rm_cells m) u)"
proof -
  define s where "s = set_first ub k"
  have z: "rm_size m = n" "length (rm_cells m) = n" using m by (simp_all add: hollow_def rm_size_def)
  have s: "0 \<le> s" "s < int n" using first_in [OF b] batch_setsD(6) [OF b] by (auto simp: s_def)
  have g: "\<not> (ub_seq_id ub ! set_token ub k = [] \<or> s < 0 \<or> nat s \<ge> rm_size m)" using set_first_hd(2) [OF b] s z by auto
  have t: "tail_of (rm_cells m) s < int n" using m s by (simp add: hollow_def tail_of_def)
  show "take_step ub k (e, mn, mx, m) = Inl Assert_fail" if "0 \<le> tail_of (rm_cells m) (set_first ub k)"
  proof -
    have t0: "0 \<le> tail_of (rm_cells m) s" using that by (simp add: s_def)
    have "nat (tail_of (rm_cells m) s) < n" using t t0 by linarith
    then have "mc_seq (rm_cells m ! nat (tail_of (rm_cells m) s)) = {}" using m by (simp add: hollow_def)
    then have "take_cell (ub_n_seqs ub) k s (e, m) = Inl Assert_fail"
      using t t0 z by (simp add: take_cell_def Let_def tail_of_def read_cell_def)
    then show ?thesis using g by (simp add: take_step_def Let_def s_def)
  qed
  show "\<exists>e' mn' mx' m'. take_step ub k (e, mn, mx, m) = Inr (e', mn', mx', m') \<and> e' < n \<and> hollow n h m' \<and>
      (\<forall>u. 0 \<le> u \<and> u < int n \<and> u \<noteq> set_first ub k \<longrightarrow> tail_of (rm_cells m') u = tail_of (rm_cells m) u)"
    if "tail_of (rm_cells m) (set_first ub k) < 0"
  proof -
    let ?m = "set_tail s (int e) m"
    have h: "hollow n h ?m" "\<And>u. 0 \<le> u \<Longrightarrow> u < int n \<Longrightarrow> u \<noteq> s \<Longrightarrow> tail_of (rm_cells ?m) u = tail_of (rm_cells m) u"
      using hollow_set_tail [OF m s, of "int e"] e by simp_all
    have "e < length (rm_cells ?m)" using e h(1) by (simp add: hollow_def rm_size_def)
    then obtain e1 where e1: "empty_after (rm_size ?m) (rm_cells ?m) e = Inr e1" "e1 < n"
      using empty_after_total [of e "rm_cells ?m" "rm_size ?m"] z by (auto simp: set_tail_cells)
    define e' where "e' = (if k + 1 < ub_n_seqs ub then e1 else e)"
    have "take_cell (ub_n_seqs ub) k s (e, m) = Inr (e', ?m)"
      using that m e e1(1) z by (simp add: take_cell_def Let_def tail_of_def s_def hollow_def e'_def)
    then have "\<exists>mn' mx'. take_step ub k (e, mn, mx, m) = Inr (e', mn', mx', ?m)"
      using g by (simp add: take_step_def Let_def s_def)
    moreover have "e' < n" using e e1(2) by (simp add: e'_def)
    ultimately show ?thesis using h unfolding s_def [symmetric] by blast
  qed
qed

lemma take_fold_hollow:
  assumes m: "hollow n h m" and e: "e < n" and b: "batch_sets n ub" and k: "k \<le> ub_n_seqs ub"
    and neg: "\<forall>j < k. tail_of (rm_cells m) (set_first ub j) < 0"
  shows "\<exists>e' mn' mx' m'. fold_r (take_step ub) [0..<k] (e, mn, mx, m) = Inr (e', mn', mx', m') \<and> e' < n \<and> hollow n h m' \<and>
    (\<forall>j < ub_n_seqs ub. k \<le> j \<longrightarrow> tail_of (rm_cells m') (set_first ub j) = tail_of (rm_cells m) (set_first ub j))"
  using k neg
proof (induction k)
  case (Suc k)
  then obtain e1 mn1 mx1 m1 where f: "fold_r (take_step ub) [0..<k] (e, mn, mx, m) = Inr (e1, mn1, mx1, m1)" "e1 < n" "hollow n h m1"
      "\<forall>j < ub_n_seqs ub. k \<le> j \<longrightarrow> tail_of (rm_cells m1) (set_first ub j) = tail_of (rm_cells m) (set_first ub j)" by auto
  have k: "k < ub_n_seqs ub" using Suc.prems(1) by simp
  have "tail_of (rm_cells m1) (set_first ub k) < 0" using f(4) k Suc.prems(2) by simp
  then obtain e' mn' mx' m' where t: "take_step ub k (e1, mn1, mx1, m1) = Inr (e', mn', mx', m')" "e' < n" "hollow n h m'"
      "\<forall>u. 0 \<le> u \<and> u < int n \<and> u \<noteq> set_first ub k \<longrightarrow> tail_of (rm_cells m') u = tail_of (rm_cells m1) u"
    using take_hollow(2) [OF f(3,2) b k] by blast
  have "tail_of (rm_cells m') (set_first ub j) = tail_of (rm_cells m) (set_first ub j)" if j: "j < ub_n_seqs ub" "Suc k \<le> j" for j
  proof -
    have "set_first ub j \<noteq> set_first ub k" using first_inj [OF b k j(1)] first_in [OF b j(1)] j(2) by auto
    moreover have "0 \<le> set_first ub j \<and> set_first ub j < int n" using first_in [OF b j(1)] batch_setsD(6) [OF b j(1)] by auto
    ultimately show ?thesis using t(4) f(4) j by simp
  qed
  then show ?case using f(1) t(1-3) by (simp add: fold_r_append)
qed (use m e in simp)

lemma hollow_fails:
  assumes m: "hollow n h m" "h < n" and b: "batch_sets n ub" and k: "k < ub_n_seqs ub" "0 \<le> tail_of (rm_cells m) (set_first ub k)"
  shows "recurrent_find_slot ub m = Inl Assert_fail"
proof -
  let ?xs = "concat (map (\<lambda>s. enumerate 0 (set_seqs ub s)) [0..<ub_n_seqs ub])"
  have own: "0 \<le> set_first ub j \<and> set_first ub j < int n" if "j < ub_n_seqs ub" for j
    using first_in [OF b that] batch_setsD(6) [OF b that] by auto
  define m0 where "m0 = (if rm_head m > u32 (rm_used m + 2 * ub_n_seqs ub) then m\<lparr>rm_head := 0\<rparr> else m)"
  have h0: "hollow n (rm_head m0) m0" "rm_head m0 < n" "rm_cells m0 = rm_cells m" using m by (auto simp: m0_def hollow_def rm_size_def)
  have n: "length (rm_cells m) = n" using m(1) by (simp add: hollow_def rm_size_def)
  note l = share_list [of "rm_cells m" ub, unfolded n, OF b]
  have "\<forall>(j, s) \<in> set ?xs. 0 \<le> s \<and> s < int n" using l(1) n by (fastforce simp: own_seq_def)
  from share_hollow [OF h0(1) this] obtain m1 where m1: "fold_r share_step ?xs (True, m0) = Inr (True, m1)" "hollow n (rm_head m0) m1"
      "\<forall>u. 0 \<le> u \<and> u < int n \<and> u \<notin> extra_seqs ub \<longrightarrow> tail_of (rm_cells m1) u = tail_of (rm_cells m0) u"
    unfolding l(2) by (elim exE conjE)
  have sh: "share_sets ub m0 = Inr (True, m1)" using m1(1) batch_setsD(4) [OF b] by (simp add: share_sets_def list_all_iff)
  have "0 \<le> tail_of (rm_cells m1) (set_first ub k)" using k m1(3) own [OF k(1)] first_extra [OF b k(1)] h0(3) by simp
  then have ex: "k < ub_n_seqs ub \<and> 0 \<le> tail_of (rm_cells m1) (set_first ub k)" using k(1) by simp
  define k0 where "k0 = (LEAST j. j < ub_n_seqs ub \<and> 0 \<le> tail_of (rm_cells m1) (set_first ub j))"
  have k0: "k0 < ub_n_seqs ub" "0 \<le> tail_of (rm_cells m1) (set_first ub k0)"
    using LeastI [of "\<lambda>j. j < ub_n_seqs ub \<and> 0 \<le> tail_of (rm_cells m1) (set_first ub j)", OF ex] unfolding k0_def by blast+
  have neg: "\<forall>j < k0. tail_of (rm_cells m1) (set_first ub j) < 0"
  proof clarify
    fix j assume "j < k0"
    then show "tail_of (rm_cells m1) (set_first ub j) < 0" using not_less_Least [OF \<open>j < k0\<close> [unfolded k0_def]] k0(1) by auto
  qed
  have z1: "rm_size m1 = n" "length (rm_cells m1) = n" "rm_head m1 = rm_head m0" using m1(2) by (simp_all add: hollow_def rm_size_def)
  have e0: "first_empty n (rm_cells m1) (rm_head m1) = Inr (rm_head m0)"
    using m1(2) h0(2) z1 by (cases n) (simp_all add: hollow_def wrap_cell_def Let_def)
  obtain e1 mn mx m2 where f: "fold_r (take_step ub) [0..<k0] (rm_head m0, int n - 1, 0, m1) = Inr (e1, mn, mx, m2)" "e1 < n" "hollow n (rm_head m0) m2"
      "tail_of (rm_cells m2) (set_first ub k0) = tail_of (rm_cells m1) (set_first ub k0)"
    using take_fold_hollow [OF m1(2) h0(2) b less_imp_le [OF k0(1)] neg] k0(1) by blast
  have "[0..<ub_n_seqs ub] = [0..<k0] @ k0 # [Suc k0..<ub_n_seqs ub]"
    using k0(1) upt_add_eq_append [of 0 k0 "ub_n_seqs ub - k0"] by (simp add: upt_conv_Cons)
  then have "fold_r (take_step ub) [0..<ub_n_seqs ub] (rm_head m0, int n - 1, 0, m1) = Inl Assert_fail"
    using f(1) take_hollow(1) [OF f(3,2) b k0(1)] f(4) k0(2) by (simp add: fold_r_append)
  then show ?thesis
    unfolding recurrent_find_slot_def Let_def m0_def [symmetric] using sh e0 z1 batch_setsD(1) [OF b] by simp
qed

section \<open>Properties\<close>

definition rec_example :: llama_memory_recurrent where
  "rec_example = \<lparr>rm_head = 0, rm_used = 1, rm_n_rs_seq = 4, rm_rs_idx = [0, 0], rm_n = 1, rm_rs_z = -1,
     rm_cells = [\<lparr>mc_pos = 7, mc_src = 0, mc_src0 = 0, mc_tail = 0, mc_seq = {0}\<rparr>, empty_mem_cell]\<rparr>"

definition rec_ubatch_example :: llama_ubatch where
  "rec_ubatch_example = \<lparr>ub_equal_seqs = True, ub_n_tokens = 1, ub_n_seq_tokens = 1, ub_n_seqs = 1, ub_n_seqs_unq = 1, ub_n_pos = 1,
     ub_token = Some [5], ub_embd = None, ub_pos = [6], ub_n_seq_id = [1], ub_seq_id = [[0]], ub_seq_id_unq = [0], ub_seq_idx = [0], ub_output = [1]\<rparr>"

lemma rec_example_facts:
  "rec_inv rec_example" "rm_size rec_example = 2" "rm_n_rs_seq rec_example = 4" "length (rm_rs_idx rec_example) = 2"
  "rec_abs rec_example 0 = Some (7, {0})" "tail_of (rm_cells rec_example) 0 = 0" "own_seq (rm_cells rec_example) 0" "own_seq (rm_cells rec_example) 1"
proof -
  have o: "own_seq (rm_cells rec_example) s \<longleftrightarrow> s = 0 \<or> s = 1" for s by (auto simp: own_seq_def rec_example_def)
  show "own_seq (rm_cells rec_example) 0" "own_seq (rm_cells rec_example) 1" by (simp_all add: o)
  show t: "tail_of (rm_cells rec_example) 0 = 0" by (simp add: rec_example_def tail_of_def)
  have t1: "tail_of (rm_cells rec_example) 1 = -1" by (simp add: rec_example_def tail_of_def empty_mem_cell_def)
  show n: "rm_size rec_example = 2" by (simp add: rec_example_def rm_size_def)
  show "rec_abs rec_example 0 = Some (7, {0})" using o t by (simp add: rec_abs_def Let_def rec_example_def)
  have c: "mc_seq (rm_cells rec_example ! 0) = {0}" "mc_seq (rm_cells rec_example ! 1) = {}"
    "cell_ok 0 (rm_cells rec_example ! 0)" "cell_ok 1 (rm_cells rec_example ! 1)" by (simp_all add: rec_example_def empty_mem_cell_def cell_ok_def)
  have "linked (rm_cells rec_example)"
    unfolding linked_def o using n t t1 c by (auto simp: rm_size_def less_Suc_eq numeral_2_eq_2)
  then show "rec_inv rec_example" using n c
    by (auto simp: rec_inv_def less_Suc_eq numeral_2_eq_2 in_use_def count_if_def) (simp_all add: rec_example_def empty_mem_cell_def)
qed (simp_all add: rec_example_def)

lemma rec_ubatch_facts: "batch_sets 2 rec_ubatch_example" "ub_n_seqs rec_ubatch_example = 1" "set_seqs rec_ubatch_example 0 = [0]"
  by (simp_all add: batch_sets_def rec_ubatch_example_def set_readable_def set_seqs_def set_token_def)

lemma rec_spec_fst: "fst (fold rec_edit_spec es (n, a)) = n"
proof (induction es arbitrary: a)
  case (Cons e es)
  then show ?case by (cases e) simp_all
qed simp

text \<open>C21: Any sequence of edits of the recurrent memory (seq_rm, seq_keep, seq_add, seq_div, seq_cp of
  llama-memory-recurrent.cpp, in any order, each under its conditions) completes without an assertion or an access outside the
  cells, keeps the memory consistent (every cell names exactly the sequences whose tail it is, used counts the
  occupied cells), and acts on the abstract state, which gives each sequence the position and the sharers of its
  state, as the composition of the specified functions.\<close>

theorem recurrent_edits_refine:
  assumes "rec_inv m" and "run_pre rec_edit_apply rec_edit_pre es m"
  shows "\<exists>m'. fold_r rec_edit_apply es m = Inr m' \<and> rec_inv m' \<and> rm_n_rs_seq m' = rm_n_rs_seq m \<and>
    rec_abs m' = snd (fold rec_edit_spec es (rm_n_rs_seq m, rec_abs m))"
proof -
  obtain m' where "fold_r rec_edit_apply es m = Inr m'" "rec_inv m'" "(rm_n_rs_seq m', rec_abs m') = fold rec_edit_spec es (rm_n_rs_seq m, rec_abs m)"
    using rec_edits.run_refines [OF assms] by blast
  then show ?thesis using rec_spec_fst [of es "rm_n_rs_seq m" "rec_abs m"] by (metis fst_conv snd_conv)
qed

theorem recurrent_edits_refine_witness:
  "\<exists>m'. fold_r rec_edit_apply [Keep 0, Rm 0 6 (-1)] rec_example = Inr m' \<and> rec_inv m' \<and> rm_n_rs_seq m' = 4 \<and>
    rec_abs m' = snd (fold rec_edit_spec [Keep 0, Rm 0 6 (-1)] (4, rec_abs rec_example))"
proof -
  let ?k = "recurrent_seq_keep 0 rec_example"
  have "rm_size (recurrent_seq_keep 0 rec_example) = 2"
    by (simp add: recurrent_seq_keep_def rec_example_def rm_size_def keep_step_def put_cell_def dec_used_def rewind_head_def numeral_2_eq_2 empty_mem_cell_def Let_def)
  then have o: "own_seq (rm_cells ?k) 0" by (simp add: own_seq_def rm_size_def)
  have "rec_inv ?k" using seq_keep_ok [OF rec_example_facts(1)] by simp
  then obtain b m1 where "recurrent_seq_rm 0 6 (-1) ?k = Inr (b, m1)" using seq_rm_ok [OF _ o] by blast
  then have "run_pre rec_edit_apply rec_edit_pre [Keep 0, Rm 0 6 (-1)] rec_example" using o by simp
  from recurrent_edits_refine [OF rec_example_facts(1) this] show ?thesis unfolding rec_example_facts(3) .
qed

text \<open>C15: A micro-batch whose sequences all fit the memory and whose sets of sequences are disjoint always gets a slot: find_slot of
  llama-memory-recurrent.cpp never fails, never trips an assertion and stays inside the cells. Afterwards the memory is consistent
  again; the k-th set has cell head + k, with the position of its last token and exactly its sequences; every
  other sequence keeps its position and its sharers outside the micro-batch; and every state that survives is
  intact: its cell in the slot is copied from the cell in which the state was (src0), a state outside the slot has not
  moved, and the cell that is zeroed (rs_z) holds none of them.\<close>

theorem recurrent_find_slot_ok:
  assumes "rec_inv m" and "batch_sets (rm_size m) ub"
  shows "\<exists>m'. recurrent_find_slot ub m = Inr (True, m') \<and> rec_inv m' \<and> rm_size m' = rm_size m \<and> rm_rs_idx m' = rm_rs_idx m \<and>
    ub_n_seqs ub \<le> rm_n m' \<and> rm_head m' + rm_n m' \<le> rm_size m' \<and>
    (\<forall>k < ub_n_seqs ub. \<forall>u \<in> set (set_seqs ub k). tail_of (rm_cells m') u = int (rm_head m' + k) \<and>
       rec_abs m' u = Some (last_pos ub k, set (set_seqs ub k))) \<and>
    (\<forall>u. u \<notin> batch_seqs ub \<longrightarrow> rec_abs m' u = map_option (\<lambda>(p, q). (p, q - batch_seqs ub)) (rec_abs m u)) \<and>
    (\<forall>u. own_seq (rm_cells m) u \<and> 0 \<le> tail_of (rm_cells m) u \<and> u \<notin> extra_seqs ub \<longrightarrow>
       rm_rs_z m' \<noteq> tail_of (rm_cells m) u \<and>
       (if int (rm_head m') \<le> tail_of (rm_cells m') u \<and> tail_of (rm_cells m') u < int (rm_head m' + rm_n m')
        then mc_src0 (rm_cells m' ! nat (tail_of (rm_cells m') u)) = tail_of (rm_cells m) u
        else tail_of (rm_cells m') u = tail_of (rm_cells m) u))"
  using find_slot_run [OF assms] unfolding slot_ok_def by blast

theorem recurrent_find_slot_ok_witness:
  "\<exists>m'. recurrent_find_slot rec_ubatch_example rec_example = Inr (True, m') \<and> rec_inv m' \<and> rec_abs m' 0 = Some (6, {0})"
proof -
  have b: "batch_sets (rm_size rec_example) rec_ubatch_example" using rec_ubatch_facts(1) rec_example_facts(2) by simp
  have "last_pos rec_ubatch_example 0 = 6" by (simp add: last_pos_def rec_ubatch_example_def set_token_def)
  then show ?thesis using recurrent_find_slot_ok [OF rec_example_facts(1) b] rec_ubatch_facts(2,3) by auto
qed

text \<open>C29: A rollback by r tokens, at most the position of the sequence, is read from the r-th snapshot: after seq_rm of the last r positions of a sequence (at
  most n_rs_seq), the position of the sequence is r less; when the next micro-batch, one that has a set of this sequence alone, has been placed, the row from
  which the graph copies the state of the sequence (s_copy) is the cell in which the state was, in the r-th block of
  cells, and the rollback is used up.\<close>

theorem rollback_reads_snapshot:
  assumes "rec_inv m" and "rec_abs m s = Some (p, q)" and "1 \<le> r" and "int r \<le> p" and "r \<le> rm_n_rs_seq m" and "rm_n_rs_seq m \<le> INT32_MAX"
    and "nat s < length (rm_rs_idx m)" and "r * rm_size m \<le> INT32_MAX"
    and "batch_sets (rm_size m) ub" and "k < ub_n_seqs ub" and "set_seqs ub k = [s]"
  shows "\<exists>m1 m2 m3. recurrent_seq_rm s (p - int r + 1) (-1) m = Inr (True, m1) \<and> rec_abs m1 s = Some (p - int r, q) \<and>
    recurrent_find_slot ub m1 = Inr (True, m2) \<and> s_copy k m2 = Inr (int (r * rm_size m) + tail_of (rm_cells m) s, m3) \<and> rm_rs_idx m3 ! nat s = 0"
proof -
  obtain m1 where m1: "recurrent_seq_rm s (p - int r + 1) (-1) m = Inr (True, m1)" "rec_inv m1" "rec_abs m1 s = Some (p - int r, q)"
      "rm_rs_idx m1 = (rm_rs_idx m)[nat s := r]" "rm_n_rs_seq m1 = rm_n_rs_seq m" "rm_size m1 = rm_size m" "tail_of (rm_cells m1) s = tail_of (rm_cells m) s"
    using rollback_run [OF assms(1-7)] by blast
  have b: "batch_sets (rm_size m1) ub" using assms(9) m1(6) by simp
  obtain m2 where m2: "recurrent_find_slot ub m1 = Inr (True, m2)" "slot_ok ub m1 m2" using find_slot_run [OF m1(2) b] by blast
  have sl: "rec_inv m2" "rm_size m2 = rm_size m" "rm_rs_idx m2 = (rm_rs_idx m)[nat s := r]" "rm_n_rs_seq m2 = rm_n_rs_seq m" "k < rm_n m2"
      "rm_head m2 + rm_n m2 \<le> rm_size m" "tail_of (rm_cells m2) s = int (rm_head m2 + k)" "rec_abs m2 s = Some (last_pos ub k, {s})"
    using m2(2) m1(4-6) assms(10,11) unfolding slot_ok_def by auto
  have o: "own_seq (rm_cells m1) s" "0 \<le> tail_of (rm_cells m1) s" "own_seq (rm_cells m2) s" using rec_abs_tail [OF m1(3)] rec_abs_tail [OF sl(8)] by simp_all
  have "s \<notin> extra_seqs ub" using first_extra [OF b assms(10)] set_first_hd(1) [OF b assms(10)] assms(11) by simp
  then have src: "mc_src0 (rm_cells m2 ! (rm_head m2 + k)) = tail_of (rm_cells m) s" using slot_ok_src [OF m2(2) o(1,2)] sl(5,7) m1(7) nat_int [of "rm_head m2 + k"]
    by (simp del: of_nat_add)
  have sq: "mc_seq (rm_cells m2 ! (rm_head m2 + k)) = {s}" using rec_abs_Some [OF o(3) sl(7)] sl(8) by simp
  have rs: "rm_rs_idx m2 ! nat s = r" "nat s < length (rm_rs_idx m2)" "0 \<le> s" "0 < rm_n_rs_seq m2" using sl(3,4) assms(3,5,7) o(1) by (simp_all add: own_seq_def)
  have "i32_of_u32 (u32 (r * rm_size m)) = int (r * rm_size m)" using assms(8) by (simp add: i32_of_u32_def u32_def)
  then have "s_copy k m2 = Inr (int (r * rm_size m) + tail_of (rm_cells m) s, m2\<lparr>rm_rs_idx := (rm_rs_idx m2)[nat s := 0]\<rparr>)"
    using sl(2,5,6) src sq rs by (simp add: s_copy_def Let_def add.commute)
  then show ?thesis using m1(1,3) m2(1) rs(2) by auto
qed

theorem rollback_reads_snapshot_witness:
  "\<exists>m1 m2 m3. recurrent_seq_rm 0 6 (-1) rec_example = Inr (True, m1) \<and> rec_abs m1 0 = Some (5, {0}) \<and>
    recurrent_find_slot rec_ubatch_example m1 = Inr (True, m2) \<and> s_copy 0 m2 = Inr (4, m3) \<and> rm_rs_idx m3 ! 0 = 0"
proof -
  have b: "batch_sets (rm_size rec_example) rec_ubatch_example" using rec_ubatch_facts(1) rec_example_facts(2) by simp
  show ?thesis
    using rollback_reads_snapshot [OF rec_example_facts(1,5), of 2 rec_ubatch_example 0] b rec_ubatch_facts(2,3) rec_example_facts(2-4,6) by simp
qed

text \<open>Two rollbacks of one sequence with no decoding between them are both accepted and move its position by r1 + r2, but
  the snapshot index that is left is that of the second alone (set_rs_idx overwrites it), where one rollback
  of r1 + r2 tokens leaves r1 + r2: the state that is read next belongs to another position than the one reported.\<close>

theorem rollback_twice_keeps_last_index:
  assumes "rec_inv m" and "rec_abs m s = Some (p, q)" and "1 \<le> r1" and "1 \<le> r2" and "int (r1 + r2) \<le> p" and "r1 + r2 \<le> rm_n_rs_seq m"
    and "rm_n_rs_seq m \<le> INT32_MAX" and "nat s < length (rm_rs_idx m)"
  shows "\<exists>m1 m2 m3. recurrent_seq_rm s (p - int r1 + 1) (-1) m = Inr (True, m1) \<and> recurrent_seq_rm s (p - int r1 - int r2 + 1) (-1) m1 = Inr (True, m2) \<and>
    recurrent_seq_rm s (p - int (r1 + r2) + 1) (-1) m = Inr (True, m3) \<and> rec_abs m2 s = Some (p - int (r1 + r2), q) \<and> rec_abs m3 s = rec_abs m2 s \<and>
    rm_rs_idx m2 ! nat s = r2 \<and> rm_rs_idx m3 ! nat s = r1 + r2"
proof -
  obtain m1 where m1: "recurrent_seq_rm s (p - int r1 + 1) (-1) m = Inr (True, m1)" "rec_inv m1" "rec_abs m1 s = Some (p - int r1, q)"
      "rm_rs_idx m1 = (rm_rs_idx m)[nat s := r1]" "rm_n_rs_seq m1 = rm_n_rs_seq m"
    using rollback_run [OF assms(1,2), of r1] assms(3-8) by auto
  obtain m2 where m2: "recurrent_seq_rm s (p - int r1 - int r2 + 1) (-1) m1 = Inr (True, m2)" "rec_abs m2 s = Some (p - int r1 - int r2, q)"
      "rm_rs_idx m2 = (rm_rs_idx m1)[nat s := r2]"
    using rollback_run [OF m1(2,3), of r2] assms(3-8) m1(4,5) by auto
  obtain m3 where m3: "recurrent_seq_rm s (p - int (r1 + r2) + 1) (-1) m = Inr (True, m3)" "rec_abs m3 s = Some (p - int (r1 + r2), q)"
      "rm_rs_idx m3 = (rm_rs_idx m)[nat s := r1 + r2]"
    using rollback_run [OF assms(1,2), of "r1 + r2"] assms(3-8) by auto
  show ?thesis using m1(1,4) m2 m3 assms(8) by auto
qed

theorem rollback_twice_keeps_last_index_witness:
  "\<exists>m1 m2 m3. recurrent_seq_rm 0 6 (-1) rec_example = Inr (True, m1) \<and> recurrent_seq_rm 0 5 (-1) m1 = Inr (True, m2) \<and>
    recurrent_seq_rm 0 5 (-1) rec_example = Inr (True, m3) \<and> rec_abs m2 0 = Some (4, {0}) \<and> rec_abs m3 0 = rec_abs m2 0 \<and>
    rm_rs_idx m2 ! 0 = 1 \<and> rm_rs_idx m3 ! 0 = 3"
  using rollback_twice_keeps_last_index [OF rec_example_facts(1,5), of 2 1] rec_example_facts(3,4) by simp

text \<open>C30: Removing everything with a negative sequence (seq_rm(-1, -1, -1)) empties every cell but leaves the tails of the
  sequences behind, so the next micro-batch ends in a failed assertion of find_slot, instead of being placed, when the
  first sequence of one of its sequence sets had a state. The micro-batch is well-formed: disjoint sets of valid
  sequences, equal lengths, positions that are not negative.\<close>

theorem seq_rm_everything_leaves_tails:
  assumes "rec_inv m" and "batch_sets (rm_size m) ub" and "k < ub_n_seqs ub" and "0 \<le> tail_of (rm_cells m) (set_first ub k)"
  shows "\<exists>m'. recurrent_seq_rm (-1) (-1) (-1) m = Inr (True, m') \<and> (\<forall>c \<in> set (rm_cells m'). mc_seq c = {}) \<and>
    map mc_tail (rm_cells m') = map mc_tail (rm_cells m) \<and> recurrent_find_slot ub m' = Inl Assert_fail"
proof -
  let ?n = "rm_size m"
  have n: "0 < ?n" using first_in [OF assms(2,3)] batch_setsD(6) [OF assms(2,3)] by auto
  obtain m' where m': "recurrent_seq_rm (-1) (-1) (-1) m = Inr (True, m')" "rm_size m' = ?n" "rm_head m' < ?n"
      "\<And>i. i < ?n \<Longrightarrow> mc_seq (rm_cells m' ! i) = {} \<and> mc_tail (rm_cells m' ! i) = mc_tail (rm_cells m ! i)"
    using seq_rm_everything [OF assms(1) n] by blast
  have e: "mc_seq c = {}" if "c \<in> set (rm_cells m')" for c using that m'(2,4) by (auto simp: in_set_conv_nth rm_size_def)
  have tl: "map mc_tail (rm_cells m') = map mc_tail (rm_cells m)" using m'(2,4) by (auto intro!: nth_equalityI simp: rm_size_def)
  have "mc_tail (rm_cells m ! i) < int ?n" if "i < ?n" for i
    using linkedD(2) [OF rec_invD(1) [OF assms(1)], of "int i"] that by (simp add: own_seq_def tail_of_def rm_size_def)
  then have h: "hollow ?n (rm_head m') m'" using m'(2,4) by (simp add: hollow_def)
  have "nat (set_first ub k) < ?n" using first_in [OF assms(2,3)] batch_setsD(6) [OF assms(2,3)] by (auto simp: nat_less_iff)
  then have "0 \<le> tail_of (rm_cells m') (set_first ub k)" using assms(4) m'(4) by (simp add: tail_of_def)
  then show ?thesis using hollow_fails [OF h m'(3) assms(2,3)] m'(1) e tl by blast
qed

theorem seq_rm_everything_leaves_tails_witness:
  "\<exists>m'. recurrent_seq_rm (-1) (-1) (-1) rec_example = Inr (True, m') \<and> recurrent_find_slot rec_ubatch_example m' = Inl Assert_fail"
proof -
  have b: "batch_sets (rm_size rec_example) rec_ubatch_example" "0 < ub_n_seqs rec_ubatch_example" using rec_ubatch_facts(1,2) rec_example_facts(2) by simp_all
  have "0 \<le> tail_of (rm_cells rec_example) (set_first rec_ubatch_example 0)"
    using set_first_hd(1) [OF b] rec_ubatch_facts(3) rec_example_facts(6) by simp
  then show ?thesis using seq_rm_everything_leaves_tails [OF rec_example_facts(1) b] by blast
qed

end
