(* ===== verification/RecurrentBatch.thy ===== *)
theory RecurrentBatch
  imports RecurrentProps DecodeStep
begin

text \<open>
  Whole batches in the recurrent memory: the cuts give micro-batches that the placement can take, so every accepted batch whose
  sequences have cells is rehearsed without a trace and then placed.
\<close>

section \<open>The micro-batches of a cut fit the placement\<close>

lemma ubatch_add_fields: "ubatch_add idxs n_seqs eq a = Inr (u, a') \<Longrightarrow> ub_n_seqs u = n_seqs \<and> ub_equal_seqs u = eq"
  by (auto simp: ubatch_add_def Let_def split: if_splits prod.splits)

lemma split_equal_fields: "split_equal n_ubatch sq keep a = Inr (u, a') \<Longrightarrow> u = ubatch_none \<or> ub_equal_seqs u"
proof (rule disjCI)
  assume s: "split_equal n_ubatch sq keep a = Inr (u, a')" and e: "\<not> ub_equal_seqs u"
  define ss where "ss = equal_sets a n_ubatch sq [0..<get_n_tokens a] [] (-1)"
  note S = s [unfolded split_equal_def Let_def, folded ss_def]
  show "u = ubatch_none"
  proof (cases "(sq \<and> ba_has_cpl a) \<or> ss = []")
    case True
    then show ?thesis using S by (auto split: if_splits)
  next
    case False
    then obtain cur where cur: "map_r (first_unused_in a) (map (ba_seq_set_map a) ss) = Inr cur"
      using S by (auto split: if_splits)
    obtain c xs a1 where "equal_rounds n_ubatch (map (ba_seq_set_map a) ss) cur (replicate (length ss) []) a = (c, xs, a1)" by (metis prod_cases3)
    then have "\<exists>xs n a2. ubatch_add xs n True a2 = Inr (u, a')"
      using S False cur by (auto split: if_splits)
    then show ?thesis using e ubatch_add_fields by blast
  qed
qed

lemma split_seq_fields: "split_seq n_ubatch a = Inr (u, a') \<Longrightarrow> u = ubatch_none \<or> ub_equal_seqs u \<and> ub_n_seqs u = 1"
  by (auto simp: split_seq_def Let_def split: if_splits prod.splits dest: ubatch_add_fields)

lemma nth_concat_const:
  assumes "\<forall>p \<in> set ps. length p = l" and "k < length ps" and "t < l"
  shows "concat ps ! (k * l + t) = ps ! k ! t" and "k * l + t < length (concat ps)"
proof -
  have "concat ps ! (k * l + t) = ps ! k ! t \<and> k * l + t < length (concat ps)" using assms
  proof (induction ps arbitrary: k)
    case (Cons p ps)
    then show ?case by (cases k) (simp_all add: nth_append add.assoc)
  qed simp
  then show "concat ps ! (k * l + t) = ps ! k ! t" "k * l + t < length (concat ps)" by simp_all
qed

text \<open>The \<open>k\<close>-th set of a micro-batch is the \<open>k\<close>-th part of the tokens it carries.\<close>

definition fits :: "nat \<Rightarrow> llama_batch_full \<Rightarrow> nat \<Rightarrow> bool" where
  "fits m b i \<longleftrightarrow> token_ok m b i \<and> bf_pos b ! i < int INT32_MAX"

lemma carries_parts:
  assumes c: "carries b n_pos m u (concat parts)" and np: "0 < n_pos" and n: "ub_n_seqs u = length parts" and l: "\<forall>p \<in> set parts. length p = ub_n_seq_tokens u"
    and ne: "parts \<noteq> []" "[] \<notin> set parts" and t: "\<forall>i \<in> set (concat parts). fits m b i" and k: "k < length parts"
  shows "set_readable u k" "set_seqs u k = tok_seqs b (hd (parts ! k))" "set_token u k + ub_n_seq_tokens u - 1 < length (ub_pos u)"
    "last_pos u k = bf_pos b ! last (parts ! k)" "0 < ub_n_seq_tokens u"
proof -
  let ?l = "ub_n_seq_tokens u" and ?xs = "concat parts"
  have pm: "parts ! k \<in> set parts" using k by simp
  then have pk: "parts ! k \<in> set parts" "parts ! k \<noteq> []" "length (parts ! k) = ?l" using ne(2) l by auto
  then show l0: "0 < ?l" by (metis length_greater_0_conv)
  have x: "?xs ! set_token u k = hd (parts ! k)" "set_token u k < length ?xs"
    using nth_concat_const [OF l k l0] pk(2) by (simp_all add: set_token_def hd_conv_nth)
  have y: "?xs ! (set_token u k + ?l - 1) = last (parts ! k)" "set_token u k + ?l - 1 < length ?xs"
    using nth_concat_const [OF l k, of "?l - 1"] l0 pk(2,3) by (simp_all add: set_token_def last_conv_nth)
  have C: "ub_seq_id u = map (tok_seqs b) ?xs" "ub_n_seq_id u = map (\<lambda>i. bf_n_seq_id b ! i) ?xs" "length (ub_pos u) = n_pos * length ?xs"
    using c by (simp_all add: carries_def length_concat comp_def sum_list_triv)
  have "hd (parts ! k) \<in> set ?xs" using x by (metis nth_mem)
  then have "fits m b (hd (parts ! k))" using t by blast
  then have T: "0 < bf_n_seq_id b ! hd (parts ! k)" "length (tok_seqs b (hd (parts ! k))) = nat (bf_n_seq_id b ! hd (parts ! k))"
    by (simp_all add: fits_def token_ok_def)
  have e: "ub_seq_id u ! set_token u k = tok_seqs b (hd (parts ! k))" "ub_n_seq_id u ! set_token u k = bf_n_seq_id b ! hd (parts ! k)"
    using x by (simp_all add: C(1,2))
  show "set_readable u k" using x(2) e T by (simp add: set_readable_def C(1,2))
  show "set_seqs u k = tok_seqs b (hd (parts ! k))" using e T by (simp add: set_seqs_def)
  have "length ?xs \<le> length (ub_pos u)" using C(3) np by simp
  then show "set_token u k + ?l - 1 < length (ub_pos u)" using y(2) by simp
  have "[0..<n_pos] = 0 # [1..<n_pos]" using np by (simp add: upt_conv_Cons)
  then have "ub_pos u ! (set_token u k + ?l - 1) = bf_pos b ! (?xs ! (set_token u k + ?l - 1))"
    using c y(2) by (simp add: carries_def nth_append)
  then show "last_pos u k = bf_pos b ! last (parts ! k)" using y(1) by (simp add: last_pos_def)
qed

lemma parts_batch_sets:
  assumes c: "carries b n_pos m u (concat parts)" and np: "0 < n_pos" and n: "ub_n_seqs u = length parts" and l: "\<forall>p \<in> set parts. length p = ub_n_seq_tokens u"
    and ne: "parts \<noteq> []" "[] \<notin> set parts" and t: "\<forall>i \<in> set (concat parts). fits m b i" and e: "ub_equal_seqs u" and m: "m \<le> N"
    and d: "\<And>j k. j < length parts \<Longrightarrow> k < length parts \<Longrightarrow> j \<noteq> k \<Longrightarrow> set (tok_seqs b (hd (parts ! j))) \<inter> set (tok_seqs b (hd (parts ! k))) = {}"
  shows "batch_sets N u"
proof -
  note P = carries_parts [OF c np n l ne t]
  have tk: "fits m b (hd (parts ! k)) \<and> fits m b (last (parts ! k))" if "k < length parts" for k
  proof -
    have "parts ! k \<in> set parts" "parts ! k \<noteq> []" using that ne(2) by (auto simp: in_set_conv_nth)
    then have "hd (parts ! k) \<in> set (concat parts)" "last (parts ! k) \<in> set (concat parts)" by force+
    then show ?thesis using t by blast
  qed
  have "set_readable u k \<and> set_seqs u k \<noteq> [] \<and> set (set_seqs u k) \<subseteq> {0..<int N} \<and> distinct (set_seqs u k) \<and>
      set_token u k + ub_n_seq_tokens u - 1 < length (ub_pos u) \<and>
      0 \<le> ub_pos u ! (set_token u k + ub_n_seq_tokens u - 1) \<and> ub_pos u ! (set_token u k + ub_n_seq_tokens u - 1) < int INT32_MAX"
    if k: "k < ub_n_seqs u" for k
  proof -
    have kl: "k < length parts" using k n by simp
    have h: "token_ok m b (hd (parts ! k))" "0 \<le> bf_pos b ! last (parts ! k)" "bf_pos b ! last (parts ! k) < int INT32_MAX"
      using tk [OF kl] by (auto simp: fits_def token_ok_def)
    have "{0..<int m} \<subseteq> {0..<int N}" using m by auto
    then show ?thesis using P(1-4) [OF kl] h by (auto simp: token_ok_def last_pos_def)
  qed
  moreover have "set (set_seqs u k) \<inter> set (set_seqs u j) = {}" if "k < ub_n_seqs u" "j < ub_n_seqs u" "k \<noteq> j" for k j
    using d [of k j] P(2) [of k] P(2) [of j] that n by simp
  moreover have "0 < ub_n_seqs u" "0 < ub_n_seq_tokens u" using n ne(1) P(5) [of 0] by simp_all
  ultimately show ?thesis using e by (simp add: batch_sets_def)
qed

section \<open>Cutting and rehearsing\<close>

text \<open>What the two cuts need of the allocator: their own invariant, the sequence sets of the tokens, and tokens that fit.\<close>

definition cut_inv :: "bool \<Rightarrow> nat \<Rightarrow> bool \<Rightarrow> nat \<Rightarrow> llama_batch_allocr \<Rightarrow> bool" where
  "cut_inv embd_all n_ubatch sq keep a \<longleftrightarrow> (if embd_all then allocr_ok a else equal_inv n_ubatch sq keep a) \<and> 0 < ba_n_pos_per_embd a \<and>
     (\<forall>i < get_n_tokens a. ba_seq_set a ! i = tok_seq_set (ba_batch a) i \<and> fits (ba_n_seq_max a) (ba_batch a) i)"

definition cut_by :: "bool \<Rightarrow> nat \<Rightarrow> bool \<Rightarrow> nat \<Rightarrow> llama_batch_allocr \<Rightarrow> (llama_ubatch \<times> llama_batch_allocr) res" where
  "cut_by embd_all n_ubatch sq keep = (if embd_all then split_seq n_ubatch else split_equal n_ubatch sq keep)"

lemma cut_inv_ok: "cut_inv embd_all n_ubatch sq keep a \<Longrightarrow> allocr_ok a"
  by (auto simp: cut_inv_def equal_inv_def equal_ok_def split: if_splits)

lemma tok_seqs_disjoint:
  assumes "fits m b i" and "fits m b j" and "tok_seq_set b i \<inter> tok_seq_set b j = {}"
  shows "set (tok_seqs b i) \<inter> set (tok_seqs b j) = {}"
  using assms(3) by (auto simp: tok_seq_set_def)

lemma cut_step:
  assumes i: "cut_inv embd_all n_ubatch sq keep a" and u: "unused_tokens a \<noteq> {}"
  shows "\<exists>idxs v a'. cut_by embd_all n_ubatch sq keep a = Inr (v, a') \<and> picked idxs a a' \<and>
    carries (ba_batch a) (ba_n_pos_per_embd a) (ba_n_seq_max a) v idxs \<and> cut_inv embd_all n_ubatch sq keep a' \<and>
    (\<forall>N \<ge> ba_n_seq_max a. batch_sets N v)"
proof -
  let ?b = "ba_batch a" and ?m = "ba_n_seq_max a"
  have ok: "allocr_ok a" by (rule cut_inv_ok [OF i])
  have np: "0 < ba_n_pos_per_embd a" and tk: "ba_seq_set a ! x = tok_seq_set ?b x" "fits ?m ?b x" if "x \<in> unused_tokens a" for x
    using i that by (auto simp: cut_inv_def unused_tokens_def)
  have np: "0 < ba_n_pos_per_embd a" using i by (simp add: cut_inv_def)
  have keepinv: "cut_inv embd_all n_ubatch sq keep a'" if p: "picked idxs a a'" and e: "if embd_all then allocr_ok a' else equal_inv n_ubatch sq keep a'" for idxs a'
    using i e p picked_ok(3-5) [OF ok p] by (auto simp: cut_inv_def picked_def)
  show ?thesis
  proof (cases embd_all)
    case True
    obtain js v a' where s: "split_seq n_ubatch a = Inr (v, a')" "picked js a a'" "carries ?b (ba_n_pos_per_embd a) ?m v js"
      using split_seq_progress [OF ok u] by blast
    have ne: "js \<noteq> []" "set js \<subseteq> unused_tokens a" using s(2) by (auto simp: picked_def)
    have "ub_n_tokens v \<noteq> 0" using s(3) ne(1) by (simp add: carries_def)
    then have f: "ub_equal_seqs v" "ub_n_seqs v = 1" using split_seq_fields [OF s(1)] by (auto simp: ubatch_none_def)
    have l: "length js = ub_n_seq_tokens v" using s(3) f(2) by (simp add: carries_def)
    have "batch_sets N v" if "?m \<le> N" for N
      by (rule parts_batch_sets [where parts = "[js]", OF _ np _ _ _ _ _ f(1) that]) (use s(3) f(2) l ne tk(2) in auto)
    then show ?thesis using s True keepinv [OF s(2)] picked_ok(1) [OF ok s(2)] by (intro exI [of _ js] exI [of _ v] exI [of _ a']) (simp add: cut_by_def)
  next
    case False
    then have ei: "equal_inv n_ubatch sq keep a" using i by (simp add: cut_inv_def)
    obtain ss parts v a' where s: "split_equal n_ubatch sq keep a = Inr (v, a')" "picked (concat parts) a a'"
        "carries ?b (ba_n_pos_per_embd a) ?m v (concat parts)" "equal_inv n_ubatch sq keep a'" "parts_of a ss parts" "disjoint_sets_list ss"
        "ub_n_seqs v = length parts" "\<forall>p \<in> set parts. length p = ub_n_seq_tokens v"
      using split_equal_progress [OF ei u] by blast
    have P: "length ss = length parts" "\<And>j. j < length parts \<Longrightarrow> parts ! j \<noteq> [] \<and> (\<exists>r. parts ! j = take r (rest a (ss ! j)))"
      using s(5) by (auto simp: parts_of_def list_all2_conv_all_nth)
    have ne: "[] \<notin> set parts" using P(2) by (auto simp: in_set_conv_nth)
    have cn: "concat parts \<noteq> []" "set (concat parts) \<subseteq> unused_tokens a" using s(2) by (simp_all add: picked_def)
    have "ub_n_tokens v \<noteq> 0" using s(3) cn(1) by (simp add: carries_def)
    then have e: "ub_equal_seqs v" using split_equal_fields [OF s(1)] by (auto simp: ubatch_none_def)
    have h: "hd (parts ! j) \<in> unused_tokens a \<and> tok_seq_set ?b (hd (parts ! j)) = ss ! j" if j: "j < length parts" for j
    proof -
      obtain r where r: "parts ! j = take r (rest a (ss ! j))" using P(2) [OF j] by blast
      have "hd (parts ! j) \<in> set (parts ! j)" using P(2) [OF j] by simp
      then show ?thesis using in_part [OF ok, of "hd (parts ! j)" r "ss ! j"] r tk(1) by auto
    qed
    have d: "set (tok_seqs ?b (hd (parts ! j))) \<inter> set (tok_seqs ?b (hd (parts ! k))) = {}" if "j < length parts" "k < length parts" "j \<noteq> k" for j k
    proof -
      have "ss ! j \<inter> ss ! k = {}" using s(6) that P(1) unfolding disjoint_sets_list_def by (metis inf_commute nat_neq_iff)
      then show ?thesis using tok_seqs_disjoint [of ?m ?b] h [OF that(1)] h [OF that(2)] tk(2) by auto
    qed
    have "batch_sets N v" if "?m \<le> N" for N
      by (rule parts_batch_sets [OF s(3) np s(7,8) _ ne _ e that d]) (use cn tk(2) in auto)
    then show ?thesis using s(1-4) False keepinv [OF s(2)] by (intro exI [of _ "concat parts"] exI [of _ v] exI [of _ a']) (simp add: cut_by_def)
  qed
qed

text \<open>Either cut is a splitter for the memories that are made of a recurrent memory.\<close>

interpretation cut: splitter "cut_by embd_all n_ubatch sq keep" "cut_inv embd_all n_ubatch sq keep" for embd_all n_ubatch sq keep
proof unfold_locales
  fix a
  assume i: "cut_inv embd_all n_ubatch sq keep a"
  show "allocr_ok a" by (rule cut_inv_ok [OF i])
  show "unused_tokens a = {} \<Longrightarrow> cut_by embd_all n_ubatch sq keep a = Inr (ubatch_none, a)"
    using i by_seq.finished [of a n_ubatch] equal_len.finished [of n_ubatch sq keep a] by (auto simp: cut_by_def cut_inv_def)
  show "unused_tokens a \<noteq> {} \<Longrightarrow> \<exists>idxs v a'. cut_by embd_all n_ubatch sq keep a = Inr (v, a') \<and> picked idxs a a' \<and>
      carries (ba_batch a) (ba_n_pos_per_embd a) (ba_n_seq_max a) v idxs \<and> cut_inv embd_all n_ubatch sq keep a'"
    using cut_step [OF i] by blast
qed

lemma cut_all_sets:
  assumes "cut_inv embd_all n_ubatch sq keep a" and "split_all fuel (cut_by embd_all n_ubatch sq keep) a = Inr (Some (us, a'))" and "ba_n_seq_max a \<le> N"
  shows "\<forall>v \<in> set us. batch_sets N v"
  using assms
proof (induction fuel arbitrary: a us)
  case (Suc fuel)
  show ?case
  proof (cases "unused_tokens a = {}")
    case True
    then show ?thesis using cut.finished [OF Suc.prems(1) True] Suc.prems(2) by (simp add: ubatch_none_def)
  next
    case False
    obtain idxs v a1 where s: "cut_by embd_all n_ubatch sq keep a = Inr (v, a1)" "picked idxs a a1" "cut_inv embd_all n_ubatch sq keep a1"
        "\<forall>N \<ge> ba_n_seq_max a. batch_sets N v" using cut_step [OF Suc.prems(1) False] by blast
    have m: "ba_n_seq_max a1 \<le> N" using s(2) Suc.prems(3) by (simp add: picked_def)
    show ?thesis
    proof (cases "ub_n_tokens v = 0")
      case True
      then show ?thesis using Suc.prems(2) s(1) by simp
    next
      case nz: False
      then obtain us' where "split_all fuel (cut_by embd_all n_ubatch sq keep) a1 = Inr (Some (us', a'))" "us = v # us'" using Suc.prems(2) s(1) by auto
      then show ?thesis using Suc.IH [OF s(3) _ m] s(4) Suc.prems(3) by auto
    qed
  qed
qed simp

section \<open>An accepted batch\<close>

lemma accepted_cut:
  assumes i: "allocr_init inp n_vocab mem n_embd n_seq_max output_all a0 = Inr (Some a)" and ok: "input_ok inp"
    and mem: "\<And>mi s p. mem = Some mi \<Longrightarrow> mem_seq_pos_max mi s = Inr p \<Longrightarrow> -1 \<le> p" and z: "0 < n_seq_max"
    and n: "b_n_tokens inp \<le> int INT32_MAX" "mrope_positions_given (ba_n_pos_per_embd a0) inp" "0 < ba_n_pos_per_embd a0"
    and ps: "\<forall>i < get_n_tokens a. bf_pos (ba_batch a) ! i < int INT32_MAX"
    and md: "embd_all \<or> \<not> (sq \<and> ba_has_cpl a) \<and> (keep = 0 \<or> keep < n_ubatch)"
  shows "cut_inv embd_all n_ubatch sq keep a" and "unused_tokens a = {..<get_n_tokens a}" and "split_reset a = a"
    and "0 < get_n_tokens a" and "ba_n_seq_max a = n_seq_max"
proof -
  note k = init_allocr_ok [OF i n(1,2)] and f = accepted_fields [OF i]
  show u: "unused_tokens a = {..<get_n_tokens a}" using k(2,3) by simp
  show "split_reset a = a" "0 < get_n_tokens a" "ba_n_seq_max a = n_seq_max" using f by simp_all
  obtain b where b: "a = split_reset (batch_stats b n_embd n_seq_max (allocr_clear a0))" using allocr_init_Some [OF i] by blast
  then have ss: "ba_seq_set a = map (tok_seq_set (ba_batch a)) [0..<get_n_tokens a]"
    by (simp add: split_reset_def batch_stats_fields allocr_clear_def get_n_tokens_def)
  have t: "token_ok n_seq_max (ba_batch a) x" if "x < get_n_tokens a" for x by (rule accepted_tokens [OF i ok mem z that])
  have ne: "tok_seq_set (ba_batch a) x \<noteq> {}" if "x < get_n_tokens a" for x using t [OF that] by (auto simp: token_ok_def tok_seq_set_def)
  have "list_all (\<lambda>S. S \<noteq> {}) (ba_seq_set a)" unfolding ss using ne by (auto simp: list_all_iff)
  then have "equal_inv n_ubatch sq keep a" if "\<not> embd_all" using fresh_invariants(2) [OF k(1) u] md that by simp
  then show "cut_inv embd_all n_ubatch sq keep a"
    using k(1) f(2,3) n(3) t ps by (simp add: cut_inv_def ss fits_def)
qed

text \<open>What the placement of a micro-batch does to the abstract state.\<close>

definition place_spec :: "llama_ubatch \<Rightarrow> (int \<Rightarrow> (int \<times> int set) option) \<Rightarrow> int \<Rightarrow> (int \<times> int set) option" where
  "place_spec ub a u = (case find (\<lambda>k. u \<in> set (set_seqs ub k)) [0..<ub_n_seqs ub] of
     Some k \<Rightarrow> Some (last_pos ub k, set (set_seqs ub k))
   | None \<Rightarrow> map_option (\<lambda>(p, q). (p, q - batch_seqs ub)) (a u))"

lemma slot_ok_abs:
  assumes s: "slot_ok ub m m'"
  shows "rec_abs m' = place_spec ub (rec_abs m)"
proof
  fix u
  show "rec_abs m' u = place_spec ub (rec_abs m) u"
  proof (cases "find (\<lambda>k. u \<in> set (set_seqs ub k)) [0..<ub_n_seqs ub]")
    case None
    then have "u \<notin> batch_seqs ub" by (auto simp: find_None_iff batch_seqs_def)
    then show ?thesis using s None by (simp add: slot_ok_def place_spec_def)
  next
    case (Some k)
    then have "k < ub_n_seqs ub" "u \<in> set (set_seqs ub k)" by (auto simp: find_Some_iff)
    then show ?thesis using s Some by (simp add: slot_ok_def place_spec_def)
  qed
qed

text \<open>The loop in which a context is consumed: one micro-batch is applied, then the next one is taken.\<close>

fun run_context :: "nat \<Rightarrow> llama_memory_recurrent_context \<Rightarrow> llama_memory_recurrent \<Rightarrow> llama_memory_recurrent option res" where
  "run_context 0 ctx m = Inr None"
| "run_context (Suc n) ctx m = bind_r (recurrent_context_apply ctx m) (\<lambda>(_, m).
     bind_r (recurrent_context_next ctx) (\<lambda>(more, ctx). if more then run_context n ctx m else Inr (Some m)))"

lemma run_context_ok:
  assumes "rec_inv m" and "rx_status ctx = LLAMA_MEMORY_STATUS_SUCCESS" and "rx_i_next ctx < length (rx_ubatches ctx)"
    and "\<forall>ub \<in> set (rx_ubatches ctx). batch_sets (rm_size m) ub" and "n = length (rx_ubatches ctx) - rx_i_next ctx"
  shows "\<exists>m'. run_context n ctx m = Inr (Some m') \<and> rec_inv m' \<and> rec_abs m' = fold place_spec (drop (rx_i_next ctx) (rx_ubatches ctx)) (rec_abs m)"
  using assms
proof (induction n arbitrary: ctx m)
  case (Suc n)
  let ?i = "rx_i_next ctx" and ?us = "rx_ubatches ctx"
  have ub: "batch_sets (rm_size m) (?us ! ?i)" using Suc.prems(3,4) by simp
  obtain m1 where m1: "recurrent_find_slot (?us ! ?i) m = Inr (True, m1)" "slot_ok (?us ! ?i) m m1" using find_slot_run [OF Suc.prems(1) ub] by blast
  have ap: "recurrent_context_apply ctx m = Inr (True, m1)"
    using m1(1) Suc.prems(2,3) by (auto simp: recurrent_context_apply_def)
  have ds: "drop ?i ?us = ?us ! ?i # drop (?i + 1) ?us" using Suc.prems(3) by (simp add: Cons_nth_drop_Suc)
  let ?c = "ctx\<lparr>rx_i_next := ?i + 1\<rparr>"
  have nx: "recurrent_context_next ctx = Inr (\<not> ?i + 1 \<ge> length ?us, ?c)" using Suc.prems(2) by (simp add: recurrent_context_next_def Let_def)
  have inv1: "rec_inv m1" "rm_size m1 = rm_size m" using m1(2) by (simp_all add: slot_ok_def)
  show ?case
  proof (cases "?i + 1 \<ge> length ?us")
    case True
    then show ?thesis using ap nx ds inv1 slot_ok_abs [OF m1(2)] by simp
  next
    case False
    have "\<exists>m'. run_context n ?c m1 = Inr (Some m') \<and> rec_inv m' \<and> rec_abs m' = fold place_spec (drop (rx_i_next ?c) (rx_ubatches ?c)) (rec_abs m1)"
      by (rule Suc.IH) (use Suc.prems False inv1 in auto)
    then show ?thesis using ap nx ds False slot_ok_abs [OF m1(2)] by auto
  qed
qed simp

lemma batch_placed:
  assumes "allocr_init inp n_vocab mem n_embd n_seq_max output_all a0 = Inr (Some a)" and "input_ok inp"
    and "\<forall>mi s p. mem = Some mi \<longrightarrow> mem_seq_pos_max mi s = Inr p \<longrightarrow> -1 \<le> p" and "0 < n_seq_max"
    and "b_n_tokens inp \<le> int INT32_MAX" and "mrope_positions_given (ba_n_pos_per_embd a0) inp" and "0 < ba_n_pos_per_embd a0"
    and "\<forall>i < get_n_tokens a. bf_pos (ba_batch a) ! i < int INT32_MAX"
    and "embd_all \<or> \<not> ba_has_cpl a \<and> (rm_n_rs_seq m = 0 \<or> rm_n_rs_seq m + 1 < n_ubatch)"
    and "rec_inv m" and "rm_n_rs_seq m < INT32_MAX" and "n_seq_max \<le> rm_size m"
  shows "\<exists>ctx a' m1 m2. recurrent_init_batch (Suc (get_n_tokens a)) embd_all n_ubatch a m = Inr (Some (ctx, a', m1)) \<and>
    rx_status ctx = LLAMA_MEMORY_STATUS_SUCCESS \<and> get_n_used a' = get_n_tokens a \<and> rm_cells m1 = rm_cells m \<and> rm_used m1 = rm_used m \<and>
    rm_head m1 = rm_head m \<and> rm_rs_idx m1 = rm_rs_idx m \<and>
    run_context (length (rx_ubatches ctx)) ctx m1 = Inr (Some m2) \<and> rec_inv m2 \<and> rec_abs m2 = fold place_spec (rx_ubatches ctx) (rec_abs m)"
proof -
  define keep where "keep = (if rm_n_rs_seq m > 0 then u32 (rm_n_rs_seq m + 1) else 0)"
  have kp: "keep = (if rm_n_rs_seq m > 0 then rm_n_rs_seq m + 1 else 0)" using assms(11) by (simp add: keep_def u32_def)
  have md: "embd_all \<or> \<not> (True \<and> ba_has_cpl a) \<and> (keep = 0 \<or> keep < n_ubatch)" using assms(9) by (auto simp: kp)
  note c = accepted_cut [OF assms(1,2) _ assms(4-8) md]
  have ci: "cut_inv embd_all n_ubatch True keep a" "unused_tokens a = {..<get_n_tokens a}" "split_reset a = a" "0 < get_n_tokens a" "ba_n_seq_max a = n_seq_max"
    using c assms(3) by blast+
  have sp: "recurrent_split embd_all n_ubatch (rm_n_rs_seq m) = cut_by embd_all n_ubatch True keep" by (simp add: recurrent_split_def cut_by_def keep_def)
  obtain us parts a' where s: "split_all (Suc (get_n_tokens a)) (cut_by embd_all n_ubatch True keep) a = Inr (Some (us, a'))" "cut_inv embd_all n_ubatch True keep a'"
      "list_all2 (carries (ba_batch a) (ba_n_pos_per_embd a) (ba_n_seq_max a)) us parts" "set (concat parts) = unused_tokens a"
      "ba_batch a' = ba_batch a" "unused_tokens a' = {}"
    using cut.split_all_partition [OF ci(1), of "Suc (get_n_tokens a)"] ci(2) by auto
  have bs: "\<forall>ub \<in> set us. batch_sets (rm_size m) ub" using cut_all_sets [OF ci(1) s(1)] ci(5) assms(12) by simp
  have used: "get_n_used a' = get_n_tokens a" "get_n_tokens a' = get_n_tokens a"
    using card_unused(2) [OF cut_inv_ok [OF s(2)]] s(5,6) by (simp_all add: get_n_used_def get_n_tokens_def)
  have ne: "us \<noteq> []" using s(3,4) ci(2,4) by auto
  obtain m1 where m1: "recurrent_prepare us m = Inr (True, m1)" "rm_cells m1 = rm_cells m" "rm_used m1 = rm_used m" "rm_head m1 = rm_head m"
      "rm_rs_idx m1 = rm_rs_idx m" using recurrent_prepare_ok [OF assms(10), of us] bs by blast
  define ctx where "ctx = (recurrent_context_status LLAMA_MEMORY_STATUS_SUCCESS)\<lparr>rx_ubatches := us\<rparr>"
  have run: "recurrent_init_batch (Suc (get_n_tokens a)) embd_all n_ubatch a m = Inr (Some (ctx, a', m1))"
    unfolding recurrent_init_batch_def sp ci(3) s(1) using used m1(1) by (simp add: ctx_def)
  have i1: "rec_inv m1" "rm_size m1 = rm_size m" "rec_abs m1 = rec_abs m" using assms(10) m1(2-4) by (simp_all add: rec_inv_def rm_size_def rec_abs_def fun_eq_iff)
  have f: "rx_status ctx = LLAMA_MEMORY_STATUS_SUCCESS" "rx_i_next ctx = 0" "rx_ubatches ctx = us" by (simp_all add: ctx_def recurrent_context_status_def)
  have "\<exists>m2. run_context (length us) ctx m1 = Inr (Some m2) \<and> rec_inv m2 \<and>
      rec_abs m2 = fold place_spec (drop (rx_i_next ctx) (rx_ubatches ctx)) (rec_abs m1)"
    by (rule run_context_ok [OF i1(1) f(1)]) (use f(2,3) bs i1(2) ne in simp_all)
  then obtain m2 where m2: "run_context (length (rx_ubatches ctx)) ctx m1 = Inr (Some m2)" "rec_inv m2" "rec_abs m2 = fold place_spec (rx_ubatches ctx) (rec_abs m)"
    using f(2,3) i1(3) by auto
  show ?thesis by (intro exI conjI) (rule run f(1) used(1) m1(2-5) m2)+
qed

text \<open>A tail of snapshots that is not shorter than a micro-batch fails the assertion of the split.\<close>

lemma long_tail_asserts:
  assumes i: "allocr_init inp n_vocab mem n_embd n_seq_max output_all a0 = Inr (Some a)" and ok: "input_ok inp"
    and mem: "\<And>mi s p. mem = Some mi \<Longrightarrow> mem_seq_pos_max mi s = Inr p \<Longrightarrow> -1 \<le> p" and z: "0 < n_seq_max"
    and n: "b_n_tokens inp \<le> int INT32_MAX" "mrope_positions_given (ba_n_pos_per_embd a0) inp" "0 < ba_n_pos_per_embd a0"
    and ps: "\<forall>i < get_n_tokens a. bf_pos (ba_batch a) ! i < int INT32_MAX"
    and "\<not> (sq \<and> ba_has_cpl a)" and "0 < keep" "n_ubatch \<le> keep"
  shows "split_all (Suc k) (split_equal n_ubatch sq keep) (split_reset a) = Inl Assert_fail"
proof -
  have md: "False \<or> \<not> (False \<and> ba_has_cpl a) \<and> ((0 :: nat) = 0 \<or> 0 < n_ubatch)" by simp
  have c: "cut_inv False n_ubatch False 0 a" "unused_tokens a = {..<get_n_tokens a}" "split_reset a = a" "0 < get_n_tokens a"
    using accepted_cut [OF i ok _ z n ps md] mem by blast+
  have "equal_ok a" using c(1) by (simp add: cut_inv_def equal_inv_def)
  moreover have "unused_tokens a \<noteq> {}" unfolding c(2) using c(4) by (auto simp: lessThan_empty_iff)
  ultimately show ?thesis using split_equal_short [of a sq keep n_ubatch] assms(9-11) c(3) by simp
qed

text \<open>C16: What becomes of an accepted batch in the recurrent memory (init_batch of llama-memory-recurrent.cpp), when the memory has a cell
  for every sequence id the allocator admits. If all tokens are outputs, or no sequences are coupled and a micro-batch is longer
  than the tail the snapshots need, the batch is always taken: init_batch cuts the whole batch, by sequence or into equal lengths
  with the tail kept together, rehearses every micro-batch with success and leaves the cells, the head and the pending rollbacks
  as they were; applying the micro-batches of the context one after the other then never fails, and moves each sequence to
  the last position of its last micro-batch, with the sequences it shares that state with. Otherwise a batch with coupled
  sequences is refused (FAILED_PREPARE) and the memory is unchanged, and a micro-batch that is too short for the tail fails an
  assertion. Required of the input: fewer than 2^31 tokens, positions below 2^31 - 1 and not negative, at least one sequence per
  token and none twice, positions given when embeddings have several each.\<close>

theorem recurrent_batch_placed:
  assumes "allocr_init inp n_vocab mem n_embd n_seq_max output_all a0 = Inr (Some a)" and "input_ok inp"
    and "\<forall>mi s p. mem = Some mi \<longrightarrow> mem_seq_pos_max mi s = Inr p \<longrightarrow> -1 \<le> p" and "0 < n_seq_max"
    and "b_n_tokens inp \<le> int INT32_MAX" and "mrope_positions_given (ba_n_pos_per_embd a0) inp" and "0 < ba_n_pos_per_embd a0"
    and "\<forall>i < get_n_tokens a. bf_pos (ba_batch a) ! i < int INT32_MAX"
    and "rec_inv m" and "rm_n_rs_seq m < INT32_MAX" and "n_seq_max \<le> rm_size m"
  shows "if \<not> embd_all \<and> ba_has_cpl a
    then recurrent_init_batch (Suc (get_n_tokens a)) embd_all n_ubatch a m =
      Inr (Some (recurrent_context_status LLAMA_MEMORY_STATUS_FAILED_PREPARE, a, m))
    else if \<not> embd_all \<and> rm_n_rs_seq m \<noteq> 0 \<and> n_ubatch \<le> rm_n_rs_seq m + 1
    then recurrent_init_batch (Suc (get_n_tokens a)) embd_all n_ubatch a m = Inl Assert_fail
    else \<exists>ctx a' m1 m2. recurrent_init_batch (Suc (get_n_tokens a)) embd_all n_ubatch a m = Inr (Some (ctx, a', m1)) \<and>
      rx_status ctx = LLAMA_MEMORY_STATUS_SUCCESS \<and> get_n_used a' = get_n_tokens a \<and> rm_cells m1 = rm_cells m \<and> rm_used m1 = rm_used m \<and>
      rm_head m1 = rm_head m \<and> rm_rs_idx m1 = rm_rs_idx m \<and>
      run_context (length (rx_ubatches ctx)) ctx m1 = Inr (Some m2) \<and> rec_inv m2 \<and> rec_abs m2 = fold place_spec (rx_ubatches ctx) (rec_abs m)"
proof -
  consider "\<not> embd_all" "ba_has_cpl a" | "\<not> embd_all" "\<not> ba_has_cpl a" "rm_n_rs_seq m \<noteq> 0" "n_ubatch \<le> rm_n_rs_seq m + 1"
    | "embd_all \<or> \<not> ba_has_cpl a \<and> (rm_n_rs_seq m = 0 \<or> rm_n_rs_seq m + 1 < n_ubatch)" by linarith
  then show ?thesis
  proof cases
    case 1
    note f = accepted_fields [OF assms(1)]
    have "get_n_used a = 0" using arg_cong [OF f(1), of get_n_used] by (simp add: get_n_used_def split_reset_def)
    then show ?thesis using 1 f(1,5) by (simp add: recurrent_init_batch_def recurrent_split_def split_equal_def ubatch_none_def)
  next
    case 2
    have u: "u32 (rm_n_rs_seq m + 1) = rm_n_rs_seq m + 1" using assms(10) by (simp add: u32_def)
    have "split_all (Suc (get_n_tokens a)) (split_equal n_ubatch True (rm_n_rs_seq m + 1)) (split_reset a) = Inl Assert_fail"
      by (rule long_tail_asserts [OF assms(1,2) _ assms(4-8)]) (use assms(3) 2 in auto)
    then show ?thesis using 2 u by (simp add: recurrent_init_batch_def recurrent_split_def)
  next
    case 3
    then have "\<not> (\<not> embd_all \<and> ba_has_cpl a)" "\<not> (\<not> embd_all \<and> rm_n_rs_seq m \<noteq> 0 \<and> n_ubatch \<le> rm_n_rs_seq m + 1)" by auto
    then show ?thesis using batch_placed [OF assms(1-8) 3 assms(9-11)] by (simp only: if_False)
  qed
qed

theorem recurrent_batch_placed_witness:
  "\<exists>ctx a' m1 m2. recurrent_init_batch 4 False 8 get_one_example rec_example = Inr (Some (ctx, a', m1)) \<and>
    run_context (length (rx_ubatches ctx)) ctx m1 = Inr (Some m2) \<and> rec_abs m2 = fold place_spec (rx_ubatches ctx) (rec_abs rec_example)"
proof -
  have "input_ok (llama_batch_get_one [5, 6, 7] 3)" "mrope_positions_given (ba_n_pos_per_embd (batch_allocr 1)) (llama_batch_get_one [5, 6, 7] 3)"
    by (simp_all add: llama_batch_get_one_def input_ok_def mrope_positions_given_def batch_allocr_def)
  moreover have "\<forall>i < get_n_tokens get_one_example. bf_pos (ba_batch get_one_example) ! i < int INT32_MAX"
    by (auto simp: get_one_example_fields get_one_full_def less_Suc_eq numeral_3_eq_3)
  ultimately have "\<exists>ctx a' m1 m2. recurrent_init_batch (Suc (get_n_tokens get_one_example)) False 8 get_one_example rec_example = Inr (Some (ctx, a', m1)) \<and>
      rx_status ctx = LLAMA_MEMORY_STATUS_SUCCESS \<and> get_n_used a' = get_n_tokens get_one_example \<and> rm_cells m1 = rm_cells rec_example \<and>
      rm_used m1 = rm_used rec_example \<and> rm_head m1 = rm_head rec_example \<and> rm_rs_idx m1 = rm_rs_idx rec_example \<and>
      run_context (length (rx_ubatches ctx)) ctx m1 = Inr (Some m2) \<and> rec_inv m2 \<and> rec_abs m2 = fold place_spec (rx_ubatches ctx) (rec_abs rec_example)"
    using recurrent_batch_placed [OF get_one_example_init, where m = rec_example and n_ubatch = 8 and embd_all = False] rec_example_facts
    by (simp add: get_one_example_fields llama_batch_get_one_def batch_allocr_def)
  moreover have "Suc (get_n_tokens get_one_example) = 4" by (simp add: get_one_example_fields)
  ultimately show ?thesis by metis
qed

end
