(* ===== verification/Hybrid.thy ===== *)
theory Hybrid
  imports Recurrent Iswa
begin

text \<open>
  The memories of models that mix attention layers with recurrent layers: \<^verbatim>\<open>llama_memory_hybrid\<close> of
  \<^verbatim>\<open>src/llama-memory-hybrid.cpp\<close>, a cache and a recurrent memory, and \<^verbatim>\<open>llama_memory_hybrid_iswa\<close> of
  \<^verbatim>\<open>src/llama-memory-hybrid-iswa.cpp\<close>, a pair of caches and a recurrent memory. The two classes have the same text, so
  each operation is written once over the attention memory it is given (\<open>hy_\<close>) and used twice. Not modelled: the
  constructors, state files, statistics.
\<close>

section \<open>What a memory can remove\<close>

record seq_rm_capability =
  cap_full_clear :: bool
  cap_arbitrary_ranges :: bool
  cap_suffix_rollback_tokens :: nat

definition capability_default :: seq_rm_capability where
  "capability_default = \<lparr>cap_full_clear = True, cap_arbitrary_ranges = True, cap_suffix_rollback_tokens = UINT32_MAX\<rparr>"

definition llama_memory_seq_rm_capability_all :: "seq_rm_capability list \<Rightarrow> seq_rm_capability" where
  "llama_memory_seq_rm_capability_all children = fold (\<lambda>c r. \<lparr>cap_full_clear = cap_full_clear r \<and> cap_full_clear c,
     cap_arbitrary_ranges = cap_arbitrary_ranges r \<and> cap_arbitrary_ranges c,
     cap_suffix_rollback_tokens = min (cap_suffix_rollback_tokens r) (cap_suffix_rollback_tokens c)\<rparr>) children capability_default"

definition kv_get_seq_rm_capability :: "llama_kv_cache \<Rightarrow> seq_rm_capability" where
  "kv_get_seq_rm_capability kv = (if has_compact_tail kv
     then \<lparr>cap_full_clear = True, cap_arbitrary_ranges = False, cap_suffix_rollback_tokens = kv_rollback kv\<rparr> else capability_default)"

definition iswa_get_seq_rm_capability :: "llama_kv_cache_iswa \<Rightarrow> seq_rm_capability" where
  "iswa_get_seq_rm_capability m =
     llama_memory_seq_rm_capability_all [kv_get_seq_rm_capability (iswa_base m), kv_get_seq_rm_capability (iswa_swa m)]"

definition recurrent_get_seq_rm_capability :: "llama_memory_recurrent \<Rightarrow> seq_rm_capability" where
  "recurrent_get_seq_rm_capability m =
     \<lparr>cap_full_clear = True, cap_arbitrary_ranges = False, cap_suffix_rollback_tokens = rm_n_rs_seq m\<rparr>"

text \<open>The recurrent memory has the default plan.\<close>

definition recurrent_seq_rm_plan :: "llama_memory_recurrent \<Rightarrow> int \<Rightarrow> int \<Rightarrow> int \<Rightarrow> (int \<times> int) option res" where
  "recurrent_seq_rm_plan m seq_id p0 p1 =
     bind_r (recurrent_can_seq_rm m seq_id p0 p1) (\<lambda>ok. Inr (if ok then Some (p0, p1) else None))"

definition recurrent_child :: "llama_memory_recurrent \<Rightarrow> memory_child" where
  "recurrent_child m = (recurrent_seq_rm_plan m, recurrent_can_seq_rm m)"

section \<open>An attention memory beside a recurrent memory\<close>

record 'a hybrid_memory =
  hy_attn :: 'a
  hy_recr :: llama_memory_recurrent

type_synonym llama_memory_hybrid = "llama_kv_cache hybrid_memory"
type_synonym llama_memory_hybrid_iswa = "llama_kv_cache_iswa hybrid_memory"

definition hy_clear :: "('a \<Rightarrow> 'a res) \<Rightarrow> 'a hybrid_memory \<Rightarrow> 'a hybrid_memory res" where
  "hy_clear clr m = bind_r (clr (hy_attn m)) (\<lambda>a. Inr (m\<lparr>hy_attn := a, hy_recr := recurrent_clear (hy_recr m)\<rparr>))"

definition hy_can_seq_rm :: "('a \<Rightarrow> int \<Rightarrow> int \<Rightarrow> int \<Rightarrow> bool res) \<Rightarrow> 'a hybrid_memory \<Rightarrow> int \<Rightarrow> int \<Rightarrow> int \<Rightarrow> bool res" where
  "hy_can_seq_rm can m seq_id p0 p1 = bind_r (recurrent_can_seq_rm (hy_recr m) seq_id p0 p1) (\<lambda>ok.
     if \<not> ok then Inr False else can (hy_attn m) seq_id p0 p1)"

definition hy_seq_rm ::
    "('a \<Rightarrow> int \<Rightarrow> int \<Rightarrow> int \<Rightarrow> bool res) \<Rightarrow> (int \<Rightarrow> int \<Rightarrow> int \<Rightarrow> 'a \<Rightarrow> (bool \<times> 'a) res) \<Rightarrow>
     int \<Rightarrow> int \<Rightarrow> int \<Rightarrow> 'a hybrid_memory \<Rightarrow> (bool \<times> 'a hybrid_memory) res" where
  "hy_seq_rm can rm seq_id p0 p1 m =
     bind_r (hy_can_seq_rm can m seq_id p0 p1) (\<lambda>ok.
       if \<not> ok then Inr (False, m)
       else bind_r (recurrent_seq_rm seq_id p0 p1 (hy_recr m)) (\<lambda>(ok, r).
         let m = m\<lparr>hy_recr := r\<rparr>
         in if \<not> ok then Inr (False, m)
            else bind_r (rm seq_id p0 p1 (hy_attn m)) (\<lambda>(ok, a). Inr (ok, m\<lparr>hy_attn := a\<rparr>))))"

definition hy_both ::
    "('a \<Rightarrow> 'a res) \<Rightarrow> (llama_memory_recurrent \<Rightarrow> llama_memory_recurrent res) \<Rightarrow> 'a hybrid_memory \<Rightarrow> 'a hybrid_memory res" where
  "hy_both f g m = bind_r (f (hy_attn m)) (\<lambda>a. bind_r (g (hy_recr m)) (\<lambda>r. Inr (m\<lparr>hy_attn := a, hy_recr := r\<rparr>)))"

definition hy_seq_pos_min :: "('a \<Rightarrow> int \<Rightarrow> int res) \<Rightarrow> 'a hybrid_memory \<Rightarrow> int \<Rightarrow> int res" where
  "hy_seq_pos_min q m seq_id = bind_r (q (hy_attn m) seq_id) (\<lambda>p. Inr (max p (recurrent_seq_pos_min (hy_recr m) seq_id)))"

definition hy_seq_pos_max :: "('a \<Rightarrow> int \<Rightarrow> int res) \<Rightarrow> 'a hybrid_memory \<Rightarrow> int \<Rightarrow> int res" where
  "hy_seq_pos_max q m seq_id = bind_r (q (hy_attn m) seq_id) (\<lambda>p. Inr (min p (recurrent_seq_pos_max (hy_recr m) seq_id)))"

section \<open>Contexts\<close>

record 'c hybrid_context =
  hx_i_next :: nat
  hx_ubatches :: "llama_ubatch list"
  hx_attn :: 'c
  hx_recr :: llama_memory_recurrent_context
  hx_status :: llama_memory_status

definition hy_context :: "('c \<Rightarrow> llama_memory_status) \<Rightarrow> 'c \<Rightarrow> llama_memory_recurrent_context \<Rightarrow> llama_ubatch list \<Rightarrow> 'c hybrid_context" where
  "hy_context status c r ubs = \<lparr>hx_i_next = 0, hx_ubatches = ubs, hx_attn = c, hx_recr = r,
     hx_status = llama_memory_status_combine (status c) (rx_status r)\<rparr>"

definition recurrent_context_batch :: "llama_ubatch list \<Rightarrow> llama_memory_recurrent_context" where
  "recurrent_context_batch ubs = (recurrent_context_status LLAMA_MEMORY_STATUS_SUCCESS)\<lparr>rx_ubatches := ubs\<rparr>"

definition hy_split :: "bool \<Rightarrow> nat \<Rightarrow> nat \<Rightarrow> nat \<Rightarrow> llama_batch_allocr \<Rightarrow> (llama_ubatch \<times> llama_batch_allocr) res" where
  "hy_split embd_all n_ubatch n_stream n_rs_seq =
     (if embd_all then split_seq n_ubatch
      else split_equal n_ubatch (n_stream \<noteq> 1) (if n_rs_seq > 0 then u32 (n_rs_seq + 1) else 0))"

text \<open>The inner \<open>None\<close> is the context with the status \<^verbatim>\<open>LLAMA_MEMORY_STATUS_FAILED_PREPARE\<close>, which has no children; the outer one is
  a cut that has not ended.\<close>

definition hy_init_batch ::
    "('a \<Rightarrow> nat) \<Rightarrow> (llama_ubatch list \<Rightarrow> 'a \<Rightarrow> ('c option \<times> 'a) res) \<Rightarrow> ('c \<Rightarrow> llama_memory_status) \<Rightarrow>
     nat \<Rightarrow> bool \<Rightarrow> nat \<Rightarrow> llama_batch_allocr \<Rightarrow> 'a hybrid_memory \<Rightarrow>
     ('c hybrid_context option \<times> llama_batch_allocr \<times> 'a hybrid_memory) option res" where
  "hy_init_batch n_stream init_kv status fuel embd_all n_ubatch a m =
     bind_r (split_all fuel (hy_split embd_all n_ubatch (n_stream (hy_attn m)) (rm_n_rs_seq (hy_recr m))) (split_reset a)) (\<lambda>r.
       case r of None \<Rightarrow> Inr None
       | Some (us, a) \<Rightarrow>
           if get_n_used a < get_n_tokens a then Inr (Some (None, a, m))
           else bind_r (recurrent_prepare us (hy_recr m)) (\<lambda>(ok, r).
             let m = m\<lparr>hy_recr := r\<rparr>
             in if \<not> ok then Inr (Some (None, a, m))
                else bind_r (init_kv us (hy_attn m)) (\<lambda>(c, attn).
                  let m = m\<lparr>hy_attn := attn\<rparr>
                  in Inr (Some (case c of None \<Rightarrow> None
                       | Some c \<Rightarrow> if llama_memory_status_is_fail (status c) then None
                                  else Some (hy_context status c (recurrent_context_batch us) us), a, m)))))"

definition hy_context_next :: "('c \<Rightarrow> (bool \<times> 'c) res) \<Rightarrow> 'c hybrid_context \<Rightarrow> (bool \<times> 'c hybrid_context) res" where
  "hy_context_next nxt ctx =
     assert_r (hx_status ctx = LLAMA_MEMORY_STATUS_SUCCESS)
       (bind_r (nxt (hx_attn ctx)) (\<lambda>(_, c). bind_r (recurrent_context_next (hx_recr ctx)) (\<lambda>(_, r).
          let i = hx_i_next ctx + 1
          in Inr (\<not> i \<ge> length (hx_ubatches ctx), ctx\<lparr>hx_attn := c, hx_recr := r, hx_i_next := i\<rparr>))))"

definition hy_context_apply ::
    "('c \<Rightarrow> 'a \<Rightarrow> (bool \<times> 'c \<times> 'a) res) \<Rightarrow> 'c hybrid_context \<Rightarrow> 'a hybrid_memory \<Rightarrow> (bool \<times> 'c hybrid_context \<times> 'a hybrid_memory) res" where
  "hy_context_apply app ctx m =
     assert_r (\<not> llama_memory_status_is_fail (hx_status ctx))
       (bind_r (app (hx_attn ctx) (hy_attn m)) (\<lambda>(ok0, c, a).
        bind_r (recurrent_context_apply (hx_recr ctx) (hy_recr m)) (\<lambda>(ok1, r).
          Inr (ok0 \<and> ok1, ctx\<lparr>hx_attn := c\<rparr>, m\<lparr>hy_attn := a, hy_recr := r\<rparr>))))"

text \<open>The recurrent context does nothing when a graph starts or finishes.\<close>

definition hy_compute_finish ::
    "('c \<Rightarrow> 'a \<Rightarrow> ('c \<times> 'a) res) \<Rightarrow> 'c hybrid_context \<Rightarrow> 'a hybrid_memory \<Rightarrow> ('c hybrid_context \<times> 'a hybrid_memory) res" where
  "hy_compute_finish fin ctx m = bind_r (fin (hx_attn ctx) (hy_attn m)) (\<lambda>(c, a). Inr (ctx\<lparr>hx_attn := c\<rparr>, m\<lparr>hy_attn := a\<rparr>))"

section \<open>A cache and a recurrent memory\<close>

definition hybrid_clear :: "llama_memory_hybrid \<Rightarrow> llama_memory_hybrid res" where
  "hybrid_clear = hy_clear kv_clear"

definition hybrid_get_can_shift :: "graph_env \<Rightarrow> llama_memory_hybrid \<Rightarrow> bool" where
  "hybrid_get_can_shift env m = kv_get_can_shift env (hy_attn m)"

definition hybrid_get_seq_rm_capability :: "llama_memory_hybrid \<Rightarrow> seq_rm_capability" where
  "hybrid_get_seq_rm_capability m =
     llama_memory_seq_rm_capability_all [kv_get_seq_rm_capability (hy_attn m), recurrent_get_seq_rm_capability (hy_recr m)]"

definition hybrid_can_seq_rm :: "llama_memory_hybrid \<Rightarrow> int \<Rightarrow> int \<Rightarrow> int \<Rightarrow> bool res" where
  "hybrid_can_seq_rm = hy_can_seq_rm kv_can_seq_rm"

definition hybrid_seq_rm_plan :: "llama_memory_hybrid \<Rightarrow> int \<Rightarrow> int \<Rightarrow> int \<Rightarrow> (int \<times> int) option res" where
  "hybrid_seq_rm_plan m seq_id p0 p1 = llama_memory_seq_rm_plan_all seq_id p0 p1 [kv_child (hy_attn m), recurrent_child (hy_recr m)]"

definition hybrid_seq_rm :: "int \<Rightarrow> int \<Rightarrow> int \<Rightarrow> llama_memory_hybrid \<Rightarrow> (bool \<times> llama_memory_hybrid) res" where
  "hybrid_seq_rm = hy_seq_rm kv_can_seq_rm kv_seq_rm"

definition hybrid_seq_rm_cell :: "int \<Rightarrow> nat \<Rightarrow> llama_memory_hybrid \<Rightarrow> (bool \<times> llama_memory_hybrid) res" where
  "hybrid_seq_rm_cell seq_id cell m = bind_r (kv_seq_rm_cell seq_id cell (hy_attn m)) (\<lambda>(ok, a). Inr (ok, m\<lparr>hy_attn := a\<rparr>))"

definition hybrid_cells_at_pos :: "llama_memory_hybrid \<Rightarrow> int \<Rightarrow> int \<Rightarrow> nat \<Rightarrow> (nat \<times> nat list) res" where
  "hybrid_cells_at_pos m seq_id pos n_max = kv_cells_at_pos (hy_attn m) seq_id pos n_max"

definition hybrid_seq_cp :: "int \<Rightarrow> int \<Rightarrow> int \<Rightarrow> int \<Rightarrow> llama_memory_hybrid \<Rightarrow> llama_memory_hybrid res" where
  "hybrid_seq_cp src dst p0 p1 = hy_both (kv_seq_cp src dst p0 p1) (recurrent_seq_cp src dst)"

definition hybrid_seq_keep :: "int \<Rightarrow> llama_memory_hybrid \<Rightarrow> llama_memory_hybrid res" where
  "hybrid_seq_keep seq_id = hy_both (kv_seq_keep seq_id) (\<lambda>r. Inr (recurrent_seq_keep seq_id r))"

definition hybrid_seq_add :: "int \<Rightarrow> int \<Rightarrow> int \<Rightarrow> int \<Rightarrow> llama_memory_hybrid \<Rightarrow> llama_memory_hybrid res" where
  "hybrid_seq_add seq_id p0 p1 shift = hy_both (kv_seq_add seq_id p0 p1 shift) (recurrent_seq_add seq_id p0 p1 shift)"

definition hybrid_seq_div :: "int \<Rightarrow> int \<Rightarrow> int \<Rightarrow> int \<Rightarrow> llama_memory_hybrid \<Rightarrow> llama_memory_hybrid res" where
  "hybrid_seq_div seq_id p0 p1 d = hy_both (kv_seq_div seq_id p0 p1 d) (recurrent_seq_div seq_id p0 p1 d)"

definition hybrid_seq_pos_min :: "llama_memory_hybrid \<Rightarrow> int \<Rightarrow> int res" where
  "hybrid_seq_pos_min = hy_seq_pos_min kv_seq_pos_min"

definition hybrid_seq_pos_max :: "llama_memory_hybrid \<Rightarrow> int \<Rightarrow> int res" where
  "hybrid_seq_pos_max = hy_seq_pos_max kv_seq_pos_max"

definition hybrid_init_full :: "llama_memory_hybrid \<Rightarrow> llama_kv_cache_context hybrid_context res" where
  "hybrid_init_full m = bind_r (kv_init_full (hy_attn m)) (\<lambda>c. Inr (hy_context kx_status c recurrent_init_full []))"

definition hybrid_init_update :: "llama_memory_hybrid \<Rightarrow> (llama_kv_cache_context hybrid_context \<times> llama_memory_hybrid) res" where
  "hybrid_init_update m = bind_r (kv_init_update (hy_attn m)) (\<lambda>(c, a).
     Inr (hy_context kx_status c recurrent_init_update [], m\<lparr>hy_attn := a\<rparr>))"

definition hybrid_init_batch ::
    "nat \<Rightarrow> bool \<Rightarrow> nat \<Rightarrow> llama_batch_allocr \<Rightarrow> llama_memory_hybrid \<Rightarrow>
     (llama_kv_cache_context hybrid_context option \<times> llama_batch_allocr \<times> llama_memory_hybrid) option res" where
  "hybrid_init_batch = hy_init_batch kv_n_stream (\<lambda>us kv. bind_r (kv_init_kv_batch us kv) (\<lambda>(c, kv). Inr (Some c, kv))) kx_status"

definition hybrid_context_next :: "llama_kv_cache_context hybrid_context \<Rightarrow> (bool \<times> llama_kv_cache_context hybrid_context) res" where
  "hybrid_context_next = hy_context_next context_next"

definition hybrid_context_apply ::
    "graph_env \<Rightarrow> nat \<Rightarrow> llama_kv_cache_context hybrid_context \<Rightarrow> llama_memory_hybrid \<Rightarrow>
     (bool \<times> llama_kv_cache_context hybrid_context \<times> llama_memory_hybrid) res" where
  "hybrid_context_apply env n_pad = hy_context_apply (context_apply env n_pad)"

definition hybrid_compute_start :: "llama_kv_cache_context hybrid_context \<Rightarrow> llama_kv_cache_context hybrid_context" where
  "hybrid_compute_start ctx = ctx\<lparr>hx_attn := context_compute_start (hx_attn ctx)\<rparr>"

definition hybrid_compute_finish ::
    "bool \<Rightarrow> llama_kv_cache_context hybrid_context \<Rightarrow> llama_memory_hybrid \<Rightarrow> (llama_kv_cache_context hybrid_context \<times> llama_memory_hybrid) res" where
  "hybrid_compute_finish success = hy_compute_finish (context_compute_finish success)"

section \<open>A pair of caches and a recurrent memory\<close>

definition iswa_child :: "llama_kv_cache_iswa \<Rightarrow> memory_child" where
  "iswa_child m = (iswa_seq_rm_plan m, iswa_can_seq_rm m)"

definition hybrid_iswa_clear :: "llama_memory_hybrid_iswa \<Rightarrow> llama_memory_hybrid_iswa res" where
  "hybrid_iswa_clear = hy_clear iswa_clear"

definition hybrid_iswa_get_can_shift :: "graph_env \<Rightarrow> llama_memory_hybrid_iswa \<Rightarrow> bool res" where
  "hybrid_iswa_get_can_shift env m = iswa_get_can_shift env (hy_attn m)"

definition hybrid_iswa_get_seq_rm_capability :: "llama_memory_hybrid_iswa \<Rightarrow> seq_rm_capability" where
  "hybrid_iswa_get_seq_rm_capability m =
     llama_memory_seq_rm_capability_all [iswa_get_seq_rm_capability (hy_attn m), recurrent_get_seq_rm_capability (hy_recr m)]"

definition hybrid_iswa_can_seq_rm :: "llama_memory_hybrid_iswa \<Rightarrow> int \<Rightarrow> int \<Rightarrow> int \<Rightarrow> bool res" where
  "hybrid_iswa_can_seq_rm = hy_can_seq_rm iswa_can_seq_rm"

definition hybrid_iswa_seq_rm_plan :: "llama_memory_hybrid_iswa \<Rightarrow> int \<Rightarrow> int \<Rightarrow> int \<Rightarrow> (int \<times> int) option res" where
  "hybrid_iswa_seq_rm_plan m seq_id p0 p1 = llama_memory_seq_rm_plan_all seq_id p0 p1 [iswa_child (hy_attn m), recurrent_child (hy_recr m)]"

definition hybrid_iswa_seq_rm :: "int \<Rightarrow> int \<Rightarrow> int \<Rightarrow> llama_memory_hybrid_iswa \<Rightarrow> (bool \<times> llama_memory_hybrid_iswa) res" where
  "hybrid_iswa_seq_rm = hy_seq_rm iswa_can_seq_rm iswa_seq_rm"

definition hybrid_iswa_seq_rm_cell :: "int \<Rightarrow> nat \<Rightarrow> llama_memory_hybrid_iswa \<Rightarrow> (bool \<times> llama_memory_hybrid_iswa) res" where
  "hybrid_iswa_seq_rm_cell seq_id cell m = bind_r (iswa_seq_rm_cell seq_id cell (hy_attn m)) (\<lambda>(ok, a). Inr (ok, m\<lparr>hy_attn := a\<rparr>))"

definition hybrid_iswa_cells_at_pos :: "llama_memory_hybrid_iswa \<Rightarrow> int \<Rightarrow> int \<Rightarrow> nat \<Rightarrow> (nat \<times> nat list) res" where
  "hybrid_iswa_cells_at_pos m seq_id pos n_max = iswa_cells_at_pos (hy_attn m) seq_id pos n_max"

definition hybrid_iswa_seq_cp :: "int \<Rightarrow> int \<Rightarrow> int \<Rightarrow> int \<Rightarrow> llama_memory_hybrid_iswa \<Rightarrow> llama_memory_hybrid_iswa res" where
  "hybrid_iswa_seq_cp src dst p0 p1 = hy_both (iswa_seq_cp src dst p0 p1) (recurrent_seq_cp src dst)"

definition hybrid_iswa_seq_keep :: "int \<Rightarrow> llama_memory_hybrid_iswa \<Rightarrow> llama_memory_hybrid_iswa res" where
  "hybrid_iswa_seq_keep seq_id = hy_both (iswa_seq_keep seq_id) (\<lambda>r. Inr (recurrent_seq_keep seq_id r))"

definition hybrid_iswa_seq_add :: "int \<Rightarrow> int \<Rightarrow> int \<Rightarrow> int \<Rightarrow> llama_memory_hybrid_iswa \<Rightarrow> llama_memory_hybrid_iswa res" where
  "hybrid_iswa_seq_add seq_id p0 p1 shift = hy_both (iswa_seq_add seq_id p0 p1 shift) (recurrent_seq_add seq_id p0 p1 shift)"

definition hybrid_iswa_seq_div :: "int \<Rightarrow> int \<Rightarrow> int \<Rightarrow> int \<Rightarrow> llama_memory_hybrid_iswa \<Rightarrow> llama_memory_hybrid_iswa res" where
  "hybrid_iswa_seq_div seq_id p0 p1 d = hy_both (iswa_seq_div seq_id p0 p1 d) (recurrent_seq_div seq_id p0 p1 d)"

definition hybrid_iswa_seq_pos_min :: "llama_memory_hybrid_iswa \<Rightarrow> int \<Rightarrow> int res" where
  "hybrid_iswa_seq_pos_min = hy_seq_pos_min iswa_seq_pos_min"

definition hybrid_iswa_seq_pos_max :: "llama_memory_hybrid_iswa \<Rightarrow> int \<Rightarrow> int res" where
  "hybrid_iswa_seq_pos_max = hy_seq_pos_max iswa_seq_pos_max"

definition hybrid_iswa_init_full :: "llama_memory_hybrid_iswa \<Rightarrow> llama_kv_cache_iswa_context hybrid_context res" where
  "hybrid_iswa_init_full m = bind_r (iswa_init_full (hy_attn m)) (\<lambda>c. Inr (hy_context ix_status c recurrent_init_full []))"

definition hybrid_iswa_init_update ::
    "llama_memory_hybrid_iswa \<Rightarrow> (llama_kv_cache_iswa_context hybrid_context \<times> llama_memory_hybrid_iswa) res" where
  "hybrid_iswa_init_update m = bind_r (iswa_init_update (hy_attn m)) (\<lambda>(c, a).
     Inr (hy_context ix_status c recurrent_init_update [], m\<lparr>hy_attn := a\<rparr>))"

definition hybrid_iswa_init_batch ::
    "nat \<Rightarrow> bool \<Rightarrow> nat \<Rightarrow> llama_batch_allocr \<Rightarrow> llama_memory_hybrid_iswa \<Rightarrow>
     (llama_kv_cache_iswa_context hybrid_context option \<times> llama_batch_allocr \<times> llama_memory_hybrid_iswa) option res" where
  "hybrid_iswa_init_batch = hy_init_batch (\<lambda>m. kv_n_stream (iswa_base m)) iswa_init_kv_batch ix_status"

definition hybrid_iswa_context_next ::
    "llama_kv_cache_iswa_context hybrid_context \<Rightarrow> (bool \<times> llama_kv_cache_iswa_context hybrid_context) res" where
  "hybrid_iswa_context_next = hy_context_next iswa_context_next"

definition hybrid_iswa_context_apply ::
    "graph_env \<Rightarrow> graph_env \<Rightarrow> nat \<Rightarrow> llama_kv_cache_iswa_context hybrid_context \<Rightarrow> llama_memory_hybrid_iswa \<Rightarrow>
     (bool \<times> llama_kv_cache_iswa_context hybrid_context \<times> llama_memory_hybrid_iswa) res" where
  "hybrid_iswa_context_apply env_base env_swa n_pad = hy_context_apply (iswa_context_apply env_base env_swa n_pad)"

definition hybrid_iswa_compute_start :: "llama_kv_cache_iswa_context hybrid_context \<Rightarrow> llama_kv_cache_iswa_context hybrid_context" where
  "hybrid_iswa_compute_start ctx = ctx\<lparr>hx_attn := iswa_context_compute_start (hx_attn ctx)\<rparr>"

definition hybrid_iswa_compute_finish ::
    "bool \<Rightarrow> llama_kv_cache_iswa_context hybrid_context \<Rightarrow> llama_memory_hybrid_iswa \<Rightarrow>
     (llama_kv_cache_iswa_context hybrid_context \<times> llama_memory_hybrid_iswa) res" where
  "hybrid_iswa_compute_finish success = hy_compute_finish (iswa_context_compute_finish success)"

end
