(* ===== verification/HybridProps.thy ===== *)
theory HybridProps
  imports Hybrid RecurrentBatch IswaProps DecodeProps
begin

text \<open>
  What the hybrid memories promise. The locale \<open>attention_memory\<close> is what they rely on in their attention memory, the edits of
  \<open>memory_edits\<close> with a removal that is refused as a whole; it is interpreted on the cache and on the pair of caches, and
  gives the edits of both hybrid memories.
\<close>

section \<open>Edits of a hybrid memory\<close>

definition hy_edit_apply ::
    "('a \<Rightarrow> int \<Rightarrow> int \<Rightarrow> int \<Rightarrow> bool res) \<Rightarrow> (int \<Rightarrow> int \<Rightarrow> int \<Rightarrow> 'a \<Rightarrow> (bool \<times> 'a) res) \<Rightarrow> (kv_edit \<Rightarrow> 'a \<Rightarrow> 'a res) \<Rightarrow>
     kv_edit \<Rightarrow> 'a hybrid_memory \<Rightarrow> 'a hybrid_memory res" where
  "hy_edit_apply can rm ap e m = (case e of
     Rm s p0 p1 \<Rightarrow> bind_r (hy_seq_rm can rm s p0 p1 m) (\<lambda>(_, m). Inr m)
   | _ \<Rightarrow> hy_both (ap e) (rec_edit_apply e) m)"

definition hy_edit_pre :: "(kv_edit \<Rightarrow> 'a \<Rightarrow> bool) \<Rightarrow> kv_edit \<Rightarrow> 'a hybrid_memory \<Rightarrow> bool" where
  "hy_edit_pre pre e m \<longleftrightarrow> pre e (hy_attn m) \<and> rec_edit_pre e (hy_recr m) \<and>
     (case e of Rm s p0 p1 \<Rightarrow> recurrent_can_seq_rm (hy_recr m) s p0 p1 = Inr True | _ \<Rightarrow> True)"

lemma recurrent_can_spec:
  assumes inv: "rec_inv m" and s: "own_seq (rm_cells m) s"
  shows "recurrent_can_seq_rm m s p0 p1 = Inr (fst (rm_spec (rm_n_rs_seq m) s p0 p1 (rec_abs m)))"
proof -
  have z: "\<not> s \<ge> int (rm_size m)" "\<not> s < 0" using s by (simp_all add: own_seq_def rm_size_def)
  show ?thesis using rec_invD(1) [OF inv] s
  proof (cases rule: tail_cases)
    case 1
    then show ?thesis using z by (simp add: recurrent_can_seq_rm_def Let_def tail_of_def rm_spec_def rec_abs_def)
  next
    case (2 i)
    then have "read_cell m (mc_tail (rm_cells m ! nat s)) = Inr (rm_cells m ! i)" by (simp add: read_cell_def rm_size_def tail_of_def)
    then show ?thesis using z 2 rec_abs_Some [OF s 2(1)] by (simp add: recurrent_can_seq_rm_def Let_def tail_of_def rm_spec_def)
  qed
qed

locale attention_memory = memory_edits ap pre inv abs spec
  for ap :: "kv_edit \<Rightarrow> 'm \<Rightarrow> 'm res" and pre :: "kv_edit \<Rightarrow> 'm \<Rightarrow> bool" and inv :: "'m \<Rightarrow> bool" and abs :: "'m \<Rightarrow> 'a" and spec :: "kv_edit \<Rightarrow> 'a \<Rightarrow> 'a" +
  fixes can :: "'m \<Rightarrow> int \<Rightarrow> int \<Rightarrow> int \<Rightarrow> bool res"
    and rm :: "int \<Rightarrow> int \<Rightarrow> int \<Rightarrow> 'm \<Rightarrow> (bool \<times> 'm) res"
  assumes can_pre: "pre (Rm s p0 p1) m \<Longrightarrow> can m s p0 p1 = Inr True"
    and rm_ap: "pre (Rm s p0 p1) m \<Longrightarrow> ap (Rm s p0 p1) m = Inr m' \<Longrightarrow> rm s p0 p1 m = Inr (True, m')"
begin

lemma both_edit:
  assumes "inv (hy_attn m)" and "rec_inv (hy_recr m)" and p: "hy_edit_pre pre e m"
  shows "\<exists>m'. hy_edit_apply can rm ap e m = Inr m' \<and> inv (hy_attn m') \<and> rec_inv (hy_recr m') \<and> abs (hy_attn m') = spec e (abs (hy_attn m)) \<and>
    (rm_n_rs_seq (hy_recr m'), rec_abs (hy_recr m')) = rec_edit_spec e (rm_n_rs_seq (hy_recr m), rec_abs (hy_recr m))"
proof -
  obtain a where a: "ap e (hy_attn m) = Inr a" "inv a" "abs a = spec e (abs (hy_attn m))"
    using edit [OF assms(1)] p by (auto simp: hy_edit_pre_def)
  obtain r where r: "rec_edit_apply e (hy_recr m) = Inr r" "rec_inv r" "(rm_n_rs_seq r, rec_abs r) = rec_edit_spec e (rm_n_rs_seq (hy_recr m), rec_abs (hy_recr m))"
    using rec_edits.edit [OF assms(2)] p by (auto simp: hy_edit_pre_def)
  have "hy_edit_apply can rm ap e m = Inr (m\<lparr>hy_attn := a, hy_recr := r\<rparr>)"
  proof (cases e)
    case (Rm s p0 p1)
    have q: "pre (Rm s p0 p1) (hy_attn m)" "own_seq (rm_cells (hy_recr m)) s" "recurrent_can_seq_rm (hy_recr m) s p0 p1 = Inr True"
      using p Rm by (simp_all add: hy_edit_pre_def)
    have "fst (rm_spec (rm_n_rs_seq (hy_recr m)) s p0 p1 (rec_abs (hy_recr m)))" using recurrent_can_spec [OF assms(2) q(2)] q(3) by simp
    then have "recurrent_seq_rm s p0 p1 (hy_recr m) = Inr (True, r)" using seq_rm_ok [OF assms(2) q(2), of p0 p1] r(1) Rm by auto
    moreover have "rm s p0 p1 (hy_attn m) = Inr (True, a)" using rm_ap [OF q(1)] a(1) Rm by simp
    ultimately show ?thesis using Rm q(3) can_pre [OF q(1)] by (simp add: hy_edit_apply_def hy_seq_rm_def hy_can_seq_rm_def Let_def)
  qed (use a(1) r(1) in \<open>simp_all add: hy_edit_apply_def hy_both_def\<close>)
  then show ?thesis using a r by simp
qed

end

sublocale attention_memory \<subseteq> both: memory_edits "hy_edit_apply can rm ap" "hy_edit_pre pre" "\<lambda>m. inv (hy_attn m) \<and> rec_inv (hy_recr m)"
  "\<lambda>m. (abs (hy_attn m), rm_n_rs_seq (hy_recr m), rec_abs (hy_recr m))" "\<lambda>e (x, y). (spec e x, rec_edit_spec e y)"
  using both_edit by unfold_locales auto

interpretation kv_attention: attention_memory kv_edit_apply kv_edit_pre kv_inv kv_abs abs_spec kv_can_seq_rm kv_seq_rm
  by unfold_locales (auto intro: kv_seq_rm_True)

lemma iswa_can_pre: "iswa_edit_pre (Rm s p0 p1) m \<Longrightarrow> iswa_can_seq_rm m s p0 p1 = Inr True"
  by (simp add: iswa_edit_pre_def iswa_can_seq_rm_def)

lemma iswa_rm_True:
  assumes "iswa_edit_pre (Rm s p0 p1) m" and "iswa_edit_apply (Rm s p0 p1) m = Inr m'"
  shows "iswa_seq_rm s p0 p1 m = Inr (True, m')"
proof -
  have c: "kv_can_seq_rm (iswa_base m) s p0 p1 = Inr True" "kv_can_seq_rm (iswa_swa m) s p0 p1 = Inr True"
    using assms(1) by (simp_all add: iswa_edit_pre_def)
  have t: "ok" if "kv_seq_rm s p0 p1 kv = Inr (ok, kv')" "kv_can_seq_rm kv s p0 p1 = Inr True" for kv ok kv'
    using that by (auto simp: kv_seq_rm_def split: if_splits)
  have can: "iswa_can_seq_rm m s p0 p1 = Inr True" using c by (simp add: iswa_can_seq_rm_def)
  obtain ok where k: "iswa_seq_rm s p0 p1 m = Inr (ok, m')" using assms(2) by (cases "iswa_seq_rm s p0 p1 m") auto
  obtain ok0 b where b: "kv_seq_rm s p0 p1 (iswa_base m) = Inr (ok0, b)"
    using k can by (cases "kv_seq_rm s p0 p1 (iswa_base m)") (auto simp: iswa_seq_rm_def)
  have "ok0" by (rule t [OF b c(1)])
  then obtain sw where "kv_seq_rm s p0 p1 (iswa_swa m) = Inr (ok, sw)"
    using k can b by (cases "kv_seq_rm s p0 p1 (iswa_swa m)") (auto simp: iswa_seq_rm_def)
  then have ok by (rule t [OF _ c(2)])
  then show ?thesis using k by simp
qed

interpretation iswa_attention: attention_memory iswa_edit_apply iswa_edit_pre iswa_inv "\<lambda>m. (kv_abs (iswa_base m), kv_abs (iswa_swa m))"
  "\<lambda>e a. (abs_spec e (fst a), abs_spec e (snd a))" iswa_can_seq_rm iswa_seq_rm
  by unfold_locales (auto intro: iswa_can_pre iswa_rm_True)

text \<open>The operations of the classes are those of the locale.\<close>

fun hybrid_edit_apply :: "kv_edit \<Rightarrow> llama_memory_hybrid \<Rightarrow> llama_memory_hybrid res" where
  "hybrid_edit_apply (Rm s p0 p1) m = bind_r (hybrid_seq_rm s p0 p1 m) (\<lambda>(_, m). Inr m)"
| "hybrid_edit_apply (Keep s) m = hybrid_seq_keep s m"
| "hybrid_edit_apply (Add s p0 p1 d) m = hybrid_seq_add s p0 p1 d m"
| "hybrid_edit_apply (Div s p0 p1 d) m = hybrid_seq_div s p0 p1 d m"
| "hybrid_edit_apply (Cp src dst p0 p1) m = hybrid_seq_cp src dst p0 p1 m"

fun hybrid_iswa_edit_apply :: "kv_edit \<Rightarrow> llama_memory_hybrid_iswa \<Rightarrow> llama_memory_hybrid_iswa res" where
  "hybrid_iswa_edit_apply (Rm s p0 p1) m = bind_r (hybrid_iswa_seq_rm s p0 p1 m) (\<lambda>(_, m). Inr m)"
| "hybrid_iswa_edit_apply (Keep s) m = hybrid_iswa_seq_keep s m"
| "hybrid_iswa_edit_apply (Add s p0 p1 d) m = hybrid_iswa_seq_add s p0 p1 d m"
| "hybrid_iswa_edit_apply (Div s p0 p1 d) m = hybrid_iswa_seq_div s p0 p1 d m"
| "hybrid_iswa_edit_apply (Cp src dst p0 p1) m = hybrid_iswa_seq_cp src dst p0 p1 m"

lemma hybrid_edit_apply_eq: "hybrid_edit_apply = hy_edit_apply kv_can_seq_rm kv_seq_rm kv_edit_apply"
proof (intro ext)
  show "hybrid_edit_apply e m = hy_edit_apply kv_can_seq_rm kv_seq_rm kv_edit_apply e m" for e m
    by (cases e) (simp_all add: hy_edit_apply_def hybrid_seq_rm_def hybrid_seq_keep_def hybrid_seq_add_def hybrid_seq_div_def hybrid_seq_cp_def hy_both_def)
qed

lemma hybrid_iswa_edit_apply_eq: "hybrid_iswa_edit_apply = hy_edit_apply iswa_can_seq_rm iswa_seq_rm iswa_edit_apply"
proof (intro ext)
  show "hybrid_iswa_edit_apply e m = hy_edit_apply iswa_can_seq_rm iswa_seq_rm iswa_edit_apply e m" for e m
    by (cases e) (simp_all add: hy_edit_apply_def hybrid_iswa_seq_rm_def hybrid_iswa_seq_keep_def hybrid_iswa_seq_add_def hybrid_iswa_seq_div_def
      hybrid_iswa_seq_cp_def hy_both_def)
qed

lemma fold_triple_spec: "fold (\<lambda>e (x, y). (f e x, g e y)) es (x, y) = (fold f es x, fold g es y)"
  by (induction es arbitrary: x y) simp_all

section \<open>Properties\<close>

definition hybrid_example :: llama_memory_hybrid where
  "hybrid_example = \<lparr>hy_attn = kv_example, hy_recr = rec_example\<rparr>"

text \<open>C22: Any sequence of edits of a hybrid memory (removal, keep, shift, division, copy, in any order, each under its conditions)
  completes, keeps the cache and the recurrent memory consistent, and acts on each of them as its own
  specification: the map over the cells of the cache, and the function on positions and sharers of the states
  (llama_memory_hybrid::seq_rm, seq_keep, seq_add, seq_div, seq_cp). The same holds for the pair of caches with a recurrent
  memory (llama_memory_hybrid_iswa), from the same contract.\<close>

theorem hybrid_edits_refine:
  assumes "kv_inv (hy_attn m)" and "rec_inv (hy_recr m)" and "run_pre hybrid_edit_apply (hy_edit_pre kv_edit_pre) es m"
    and "iswa_inv (hy_attn w)" and "rec_inv (hy_recr w)" and "run_pre hybrid_iswa_edit_apply (hy_edit_pre iswa_edit_pre) fs w"
  shows "(\<exists>m'. fold_r hybrid_edit_apply es m = Inr m' \<and> kv_inv (hy_attn m') \<and> rec_inv (hy_recr m') \<and>
      kv_view (hy_attn m') = fold (kv_edit_spec (stream_idx (hy_attn m))) es (kv_view (hy_attn m)) \<and>
      rec_abs (hy_recr m') = snd (fold rec_edit_spec es (rm_n_rs_seq (hy_recr m), rec_abs (hy_recr m)))) \<and>
    (\<exists>w'. fold_r hybrid_iswa_edit_apply fs w = Inr w' \<and> iswa_inv (hy_attn w') \<and> rec_inv (hy_recr w') \<and>
      kv_view (iswa_base (hy_attn w')) = fold (kv_edit_spec (stream_idx (iswa_base (hy_attn w)))) fs (kv_view (iswa_base (hy_attn w))) \<and>
      kv_view (iswa_swa (hy_attn w')) = fold (kv_edit_spec (stream_idx (iswa_swa (hy_attn w)))) fs (kv_view (iswa_swa (hy_attn w))) \<and>
      rec_abs (hy_recr w') = snd (fold rec_edit_spec fs (rm_n_rs_seq (hy_recr w), rec_abs (hy_recr w))))"
proof (rule conjI)
  obtain m' where m': "fold_r hybrid_edit_apply es m = Inr m'" "kv_inv (hy_attn m')" "rec_inv (hy_recr m')"
      "kv_abs (hy_attn m') = fold abs_spec es (kv_abs (hy_attn m))"
      "(rm_n_rs_seq (hy_recr m'), rec_abs (hy_recr m')) = fold rec_edit_spec es (rm_n_rs_seq (hy_recr m), rec_abs (hy_recr m))"
    using kv_attention.both.run_refines [of m es] assms(1-3) unfolding hybrid_edit_apply_eq fold_triple_spec prod.inject by blast
  have "kv_view (hy_attn m') = fold (kv_edit_spec (stream_idx (hy_attn m))) es (kv_view (hy_attn m))"
    using m'(4) by (simp add: fold_abs_spec kv_abs_def)
  moreover have "rec_abs (hy_recr m') = snd (fold rec_edit_spec es (rm_n_rs_seq (hy_recr m), rec_abs (hy_recr m)))"
    unfolding m'(5) [symmetric] by simp
  ultimately show "\<exists>m'. fold_r hybrid_edit_apply es m = Inr m' \<and> kv_inv (hy_attn m') \<and> rec_inv (hy_recr m') \<and>
      kv_view (hy_attn m') = fold (kv_edit_spec (stream_idx (hy_attn m))) es (kv_view (hy_attn m)) \<and>
      rec_abs (hy_recr m') = snd (fold rec_edit_spec es (rm_n_rs_seq (hy_recr m), rec_abs (hy_recr m)))"
    using m'(1-3) by (intro exI [of _ m'] conjI)
next
  obtain w' where w': "fold_r hybrid_iswa_edit_apply fs w = Inr w'" "iswa_inv (hy_attn w')" "rec_inv (hy_recr w')"
      "(kv_abs (iswa_base (hy_attn w')), kv_abs (iswa_swa (hy_attn w'))) =
        fold (\<lambda>e a. (abs_spec e (fst a), abs_spec e (snd a))) fs (kv_abs (iswa_base (hy_attn w)), kv_abs (iswa_swa (hy_attn w)))"
      "(rm_n_rs_seq (hy_recr w'), rec_abs (hy_recr w')) = fold rec_edit_spec fs (rm_n_rs_seq (hy_recr w), rec_abs (hy_recr w))"
    using iswa_attention.both.run_refines [of w fs] assms(4-6) unfolding hybrid_iswa_edit_apply_eq fold_triple_spec prod.inject by blast
  have "kv_view (iswa_base (hy_attn w')) = fold (kv_edit_spec (stream_idx (iswa_base (hy_attn w)))) fs (kv_view (iswa_base (hy_attn w)))"
    "kv_view (iswa_swa (hy_attn w')) = fold (kv_edit_spec (stream_idx (iswa_swa (hy_attn w)))) fs (kv_view (iswa_swa (hy_attn w)))"
    using w'(4) by (simp_all add: fold_pair_spec fold_abs_spec kv_abs_def)
  moreover have "rec_abs (hy_recr w') = snd (fold rec_edit_spec fs (rm_n_rs_seq (hy_recr w), rec_abs (hy_recr w)))"
    unfolding w'(5) [symmetric] by simp
  ultimately show "\<exists>w'. fold_r hybrid_iswa_edit_apply fs w = Inr w' \<and> iswa_inv (hy_attn w') \<and> rec_inv (hy_recr w') \<and>
      kv_view (iswa_base (hy_attn w')) = fold (kv_edit_spec (stream_idx (iswa_base (hy_attn w)))) fs (kv_view (iswa_base (hy_attn w))) \<and>
      kv_view (iswa_swa (hy_attn w')) = fold (kv_edit_spec (stream_idx (iswa_swa (hy_attn w)))) fs (kv_view (iswa_swa (hy_attn w))) \<and>
      rec_abs (hy_recr w') = snd (fold rec_edit_spec fs (rm_n_rs_seq (hy_recr w), rec_abs (hy_recr w)))"
    using w'(1-3) by (intro exI [of _ w'] conjI)
qed

theorem hybrid_edits_refine_witness:
  "\<exists>m'. fold_r hybrid_edit_apply [Keep 0] hybrid_example = Inr m' \<and> rec_inv (hy_recr m') \<and>
    kv_view (hy_attn m') = kv_edit_spec (stream_idx kv_example) (Keep 0) (kv_view kv_example) \<and>
    rec_abs (hy_recr m') = keep_spec 0 (rec_abs rec_example)"
proof -
  have p: "hy_edit_pre kv_edit_pre (Keep 0) hybrid_example" using kv_example_fields by (simp add: hy_edit_pre_def hybrid_example_def)
  have i: "kv_inv (hy_attn hybrid_example)" "rec_inv (hy_recr hybrid_example)" using kv_example_inv rec_example_facts(1) by (simp_all add: hybrid_example_def)
  obtain m1 where "hybrid_edit_apply (Keep 0) hybrid_example = Inr m1"
    using kv_attention.both_edit [OF i p] unfolding hybrid_edit_apply_eq by blast
  then have r: "run_pre hybrid_edit_apply (hy_edit_pre kv_edit_pre) [Keep 0] hybrid_example" using p by simp
  let ?w = "\<lparr>hy_attn = iswa_example, hy_recr = rec_example\<rparr>"
  have w: "iswa_inv (hy_attn ?w)" "rec_inv (hy_recr ?w)" "run_pre hybrid_iswa_edit_apply (hy_edit_pre iswa_edit_pre) [] ?w"
    using iswa_example_inv(1) rec_example_facts(1) by simp_all
  show ?thesis using hybrid_edits_refine [OF i r w] by (auto simp: hybrid_example_def)
qed

text \<open>C23: A removal of a range of one sequence, known to both parts, from a consistent hybrid memory is done in both parts or in none (llama_memory_hybrid::seq_rm): when the cache or the recurrent
  memory cannot do it, both are left as they are and the result is false; otherwise the result is true, the
  cache is changed as the map over its cells and the recurrent memory is rolled back or cleared as specified. The
  recurrent part, which is removed first, never fails after the check.\<close>

theorem hybrid_seq_rm_all_or_nothing:
  assumes "kv_inv (hy_attn m)" and "rec_inv (hy_recr m)" and "known_seq (hy_attn m) s" and "own_seq (rm_cells (hy_recr m)) s"
  shows "\<exists>ok m'. hybrid_seq_rm s p0 p1 m = Inr (ok, m') \<and> ok = fst (rm_spec (rm_n_rs_seq (hy_recr m)) s p0 p1 (rec_abs (hy_recr m))) \<and>
      kv_view (hy_attn m') = kv_edit_spec (stream_idx (hy_attn m)) (Rm s p0 p1) (kv_view (hy_attn m)) \<and> kv_inv (hy_attn m') \<and> rec_inv (hy_recr m') \<and>
      rec_abs (hy_recr m') = snd (rm_spec (rm_n_rs_seq (hy_recr m)) s p0 p1 (rec_abs (hy_recr m))) \<and> ok
    \<or> hybrid_seq_rm s p0 p1 m = Inr (False, m) \<and> hybrid_can_seq_rm m s p0 p1 = Inr False"
proof -
  let ?sp = "rm_spec (rm_n_rs_seq (hy_recr m)) s p0 p1 (rec_abs (hy_recr m))"
  have rc: "recurrent_can_seq_rm (hy_recr m) s p0 p1 = Inr (fst ?sp)" by (rule recurrent_can_spec [OF assms(2,4)])
  obtain b where b: "kv_can_seq_rm (hy_attn m) s p0 p1 = Inr b" using kv_can_total [OF assms(1), of s p0 p1] assms(3) by blast
  have can: "hybrid_can_seq_rm m s p0 p1 = Inr (fst ?sp \<and> b)" using rc b by (simp add: hybrid_can_seq_rm_def hy_can_seq_rm_def)
  show ?thesis
  proof (cases "fst ?sp \<and> b")
    case False
    then have "hybrid_seq_rm s p0 p1 m = Inr (False, m)" using can by (simp add: hybrid_seq_rm_def hy_seq_rm_def hybrid_can_seq_rm_def)
    then show ?thesis using can False by simp
  next
    case True
    have p: "kv_edit_pre (Rm s p0 p1) (hy_attn m)" using b True assms(3) by simp
    obtain a where a: "kv_edit_apply (Rm s p0 p1) (hy_attn m) = Inr a" "kv_inv a"
        "kv_view a = kv_edit_spec (stream_idx (hy_attn m)) (Rm s p0 p1) (kv_view (hy_attn m))" using kv_edits_ok [OF assms(1) p] by blast
    obtain r where r: "recurrent_seq_rm s p0 p1 (hy_recr m) = Inr (fst ?sp, r)" "rec_inv r" "rec_abs r = snd ?sp" using seq_rm_ok [OF assms(2,4)] by blast
    have "kv_seq_rm s p0 p1 (hy_attn m) = Inr (True, a)" using kv_seq_rm_True [OF _ a(1)] b True by simp
    then have "hybrid_seq_rm s p0 p1 m = Inr (True, m\<lparr>hy_recr := r, hy_attn := a\<rparr>)"
      using can r(1) True by (simp add: hybrid_seq_rm_def hy_seq_rm_def hybrid_can_seq_rm_def Let_def)
    then show ?thesis using True a(2,3) r(2,3)
      by (intro exI [of _ True] exI [of _ "m\<lparr>hy_recr := r, hy_attn := a\<rparr>"] disjI1) (simp del: kv_edit_spec.simps)
  qed
qed

theorem hybrid_seq_rm_all_or_nothing_witness:
  "\<exists>m'. hybrid_seq_rm 0 6 (-1) hybrid_example = Inr (True, m') \<and> rec_abs (hy_recr m') 0 = Some (5, {0})"
proof -
  have c: "kv_can_seq_rm kv_example 0 6 (-1) = Inr True" by (simp add: kv_can_seq_rm_def has_compact_tail_def kv_example_def)
  have sp: "rm_spec 4 0 6 (-1) (rec_abs rec_example) = (True, move_to 0 5 (rec_abs rec_example))"
    by (simp add: rm_spec_def rec_example_facts(5) is_rollback_def rollback_ok_def range_lo_def range_hi_def i32_of_u32_def)
  have "recurrent_can_seq_rm rec_example 0 6 (-1) = Inr True"
    using recurrent_can_spec [OF rec_example_facts(1,7), of 6 "-1"] sp rec_example_facts(3) by simp
  then have can: "hybrid_can_seq_rm hybrid_example 0 6 (-1) = Inr True" using c by (simp add: hybrid_can_seq_rm_def hy_can_seq_rm_def hybrid_example_def)
  have "move_to 0 5 (rec_abs rec_example) 0 = Some (5, {0})" by (simp add: move_to_def rec_example_facts(5))
  then show ?thesis
    using hybrid_seq_rm_all_or_nothing [of hybrid_example 0 6 "-1"] kv_example_inv kv_example_fields rec_example_facts can sp
    by (auto simp: hybrid_example_def)
qed

section \<open>An accepted batch\<close>

lemma context_batch_status: "kx_status (context_batch sis ubs) = LLAMA_MEMORY_STATUS_SUCCESS"
  by (simp add: context_batch_def context_status_def)

lemma batch_in_both:
  assumes "allocr_init inp n_vocab mem n_embd n_seq_max output_all a0 = Inr (Some a)" and "input_ok inp"
    and "\<forall>mi s p. mem = Some mi \<longrightarrow> mem_seq_pos_max mi s = Inr p \<longrightarrow> -1 \<le> p" and "0 < n_seq_max"
    and "b_n_tokens inp \<le> int INT32_MAX" and "ba_n_pos_per_embd a0 = 1"
    and "\<forall>i < get_n_tokens a. bf_pos (ba_batch a) ! i < int INT32_MAX"
    and "embd_all \<or> rm_n_rs_seq (hy_recr m) = 0 \<or> rm_n_rs_seq (hy_recr m) + 1 < n_ubatch"
    and "rec_inv (hy_recr m)" and "rm_n_rs_seq (hy_recr m) < INT32_MAX" and "n_seq_max \<le> rm_size (hy_recr m)"
    and "plain_cache (hy_attn m)" and "no_shifts (hy_attn m)"
  shows "\<exists>ctx a' m'. hybrid_init_batch (Suc (get_n_tokens a)) embd_all n_ubatch a m = Inr (Some (ctx, a', m')) \<and>
    same_kv (hy_attn m') (hy_attn m) \<and> rm_cells (hy_recr m') = rm_cells (hy_recr m) \<and> rm_used (hy_recr m') = rm_used (hy_recr m) \<and>
    rm_head (hy_recr m') = rm_head (hy_recr m) \<and> rm_rs_idx (hy_recr m') = rm_rs_idx (hy_recr m) \<and>
    (if get_n_tokens a \<le> card (free_cells (hy_attn m))
     then \<exists>c us xss. ctx = Some c \<and> hx_status c = LLAMA_MEMORY_STATUS_SUCCESS \<and> hx_attn c = context_batch (map the_slot xss) us \<and>
       hx_recr c = recurrent_context_batch us \<and> hx_ubatches c = us \<and> map length xss = map ub_n_tokens us \<and>
       total_tokens us = get_n_tokens a \<and> distinct (concat xss) \<and> set (concat xss) \<subseteq> free_cells (hy_attn m) \<and>
       (\<forall>ub \<in> set us. ubatch_ok ub \<and> batch_sets (rm_size (hy_recr m)) ub)
     else ctx = None)"
proof -
  let ?kv = "hy_attn m" and ?r = "hy_recr m"
  define keep where "keep = (if rm_n_rs_seq ?r > 0 then u32 (rm_n_rs_seq ?r + 1) else 0)"
  have kp: "keep = (if rm_n_rs_seq ?r > 0 then rm_n_rs_seq ?r + 1 else 0)" using assms(10) by (simp add: keep_def u32_def)
  have md: "embd_all \<or> \<not> (False \<and> ba_has_cpl a) \<and> (keep = 0 \<or> keep < n_ubatch)" using assms(8) by (auto simp: kp)
  have np: "mrope_positions_given (ba_n_pos_per_embd a0) inp" "0 < ba_n_pos_per_embd a0" using assms(6) by (simp_all add: mrope_positions_given_def)
  note c = accepted_cut [OF assms(1,2) _ assms(4,5) np assms(7) md]
  have ci: "cut_inv embd_all n_ubatch False keep a" "unused_tokens a = {..<get_n_tokens a}" "split_reset a = a" "0 < get_n_tokens a" "ba_n_seq_max a = n_seq_max"
    using c assms(3) by blast+
  note f = accepted_fields [OF assms(1)]
  have sp: "hy_split embd_all n_ubatch (kv_n_stream ?kv) (rm_n_rs_seq ?r) = cut_by embd_all n_ubatch False keep"
    using assms(12) by (simp add: hy_split_def cut_by_def keep_def plain_cache_def)
  obtain us parts a' where s: "split_all (Suc (get_n_tokens a)) (cut_by embd_all n_ubatch False keep) a = Inr (Some (us, a'))" "cut_inv embd_all n_ubatch False keep a'"
      "list_all2 (carries (ba_batch a) 1 n_seq_max) us parts" "\<forall>p \<in> set parts. p \<noteq> []" "distinct (concat parts)" "set (concat parts) = {..<get_n_tokens a}"
      "ba_batch a' = ba_batch a" "unused_tokens a' = {}"
    using cut.split_all_partition [OF ci(1), of "Suc (get_n_tokens a)"] ci(2,5) f(3) assms(6) by auto
  have bs: "\<forall>ub \<in> set us. batch_sets (rm_size ?r) ub" using cut_all_sets [OF ci(1) s(1)] ci(5) assms(11) by simp
  have used: "\<not> get_n_used a' < get_n_tokens a'"
    using card_unused(2) [OF cut_inv_ok [OF s(2)]] s(8) by (simp add: get_n_used_def)
  have lens: "map ub_n_tokens us = map length parts" using s(3) by (auto simp: list_all2_conv_all_nth carries_def intro!: nth_equalityI)
  have total: "total_tokens us = get_n_tokens a"
    using distinct_card [OF s(5)] unfolding s(6) total_tokens_def lens by (simp add: length_concat)
  have ne: "us \<noteq> []" using total ci(4) by (auto simp: total_tokens_def)
  have uok: "\<forall>u \<in> set us. ubatch_ok u \<and> names_seq u"
  proof
    fix u assume "u \<in> set us"
    then obtain j where j: "j < length us" "u = us ! j" by (auto simp: in_set_conv_nth)
    then have cr: "carries (ba_batch a) 1 n_seq_max u (parts ! j)" "parts ! j \<in> set parts" using s(3) by (auto simp: list_all2_conv_all_nth)
    have "token_ok n_seq_max (ba_batch a) x" if "x \<in> set (parts ! j)" for x
    proof -
      have "x < get_n_tokens a" using that cr(2) s(6) by auto
      then show ?thesis using accepted_tokens [OF assms(1,2) _ assms(4)] assms(3) by blast
    qed
    then show "ubatch_ok u \<and> names_seq u" using carries_ubatch_ok(1,2) [OF cr(1)] s(4) cr(2) f(6) by blast
  qed
  obtain r where r: "recurrent_prepare us ?r = Inr (True, r)" "rm_cells r = rm_cells ?r" "rm_used r = rm_used ?r" "rm_head r = rm_head ?r" "rm_rs_idx r = rm_rs_idx ?r"
    using recurrent_prepare_ok [OF assms(9), of us] bs by blast
  obtain sis kv' where p: "kv_prepare us ?kv = Inr (sis, kv')" "same_kv kv' ?kv"
      "if get_n_tokens a \<le> card (free_cells ?kv)
       then \<exists>xss. sis = map the_slot xss \<and> map length xss = map ub_n_tokens us \<and> distinct (concat xss) \<and> set (concat xss) \<subseteq> free_cells ?kv else sis = []"
    using prepare_ok [of ?kv us] assms(12,13) ne uok total by (auto simp: plain_cache_def no_shifts_def)
  let ?m = "m\<lparr>hy_recr := r, hy_attn := kv'\<rparr>"
  define c where "c = (if sis = [] then context_status LLAMA_MEMORY_STATUS_FAILED_PREPARE else context_batch sis us)"
  define ctx where "ctx = (if llama_memory_status_is_fail (kx_status c) then None else Some (hy_context kx_status c (recurrent_context_batch us) us))"
  have run: "hybrid_init_batch (Suc (get_n_tokens a)) embd_all n_ubatch a m = Inr (Some (ctx, a', ?m))"
    unfolding hybrid_init_batch_def hy_init_batch_def sp ci(3) s(1) using used r(1) p(1) by (simp add: kv_init_kv_batch_def c_def ctx_def)
  have "if get_n_tokens a \<le> card (free_cells ?kv)
     then \<exists>c us xss. ctx = Some c \<and> hx_status c = LLAMA_MEMORY_STATUS_SUCCESS \<and> hx_attn c = context_batch (map the_slot xss) us \<and>
       hx_recr c = recurrent_context_batch us \<and> hx_ubatches c = us \<and> map length xss = map ub_n_tokens us \<and>
       total_tokens us = get_n_tokens a \<and> distinct (concat xss) \<and> set (concat xss) \<subseteq> free_cells ?kv \<and>
       (\<forall>ub \<in> set us. ubatch_ok ub \<and> batch_sets (rm_size ?r) ub)
     else ctx = None"
  proof (cases "get_n_tokens a \<le> card (free_cells ?kv)")
    case True
    then obtain xss where x: "sis = map the_slot xss" "map length xss = map ub_n_tokens us" "distinct (concat xss)" "set (concat xss) \<subseteq> free_cells ?kv"
      using p(3) by auto
    have "length xss = length us" using arg_cong [OF x(2), of length] by simp
    then have "sis \<noteq> []" using x(1) ne by auto
    then have "ctx = Some (hy_context kx_status (context_batch sis us) (recurrent_context_batch us) us)"
      by (simp add: ctx_def c_def context_batch_status)
    moreover have "hx_status (hy_context kx_status (context_batch sis us) (recurrent_context_batch us) us) = LLAMA_MEMORY_STATUS_SUCCESS"
      by (simp add: hy_context_def context_batch_status recurrent_context_batch_def recurrent_context_status_def llama_memory_status_combine_def)
    ultimately show ?thesis using True x uok bs total by (auto simp: hy_context_def)
  next
    case False
    then show ?thesis using p(3) by (simp add: ctx_def c_def context_status_def)
  qed
  then show ?thesis using run p(2) r(2-5) by (intro exI [of _ ctx] exI [of _ a'] exI [of _ ?m]) simp
qed

text \<open>C17: A hybrid memory takes an accepted batch in both of its parts or in none (llama_memory_hybrid::init_batch), for a cache with
  cells of its own, one stream, no allocation groups, no window, no exact tail, no pending shift and no pending copy, one position
  per token, and a recurrent memory with a cell for every sequence id the allocator admits (n_seq_max at most its size). Unless
  the batch is cut into equal lengths and a micro-batch is not longer than the tail the snapshots need, which fails an assertion,
  the batch is cut completely and rehearsed first in the recurrent memory, which then has room for every micro-batch, and
  then in the cache. When the cache has an empty cell for every token the context holds, for the same micro-batches, distinct
  empty cells of the cache and placements the recurrent memory can make; otherwise the result is a failure. In both cases the
  cache and the cells, the head and the pending rollbacks of the recurrent memory are as before. Required of the input: fewer
  than 2^31 tokens, positions below 2^31 - 1 and not negative, at least one sequence per token and none twice.\<close>

theorem hybrid_batch_all_or_nothing:
  assumes "allocr_init inp n_vocab mem n_embd n_seq_max output_all a0 = Inr (Some a)" and "input_ok inp"
    and "\<forall>mi s p. mem = Some mi \<longrightarrow> mem_seq_pos_max mi s = Inr p \<longrightarrow> -1 \<le> p" and "0 < n_seq_max"
    and "b_n_tokens inp \<le> int INT32_MAX" and "ba_n_pos_per_embd a0 = 1"
    and "\<forall>i < get_n_tokens a. bf_pos (ba_batch a) ! i < int INT32_MAX"
    and "rec_inv (hy_recr m)" and "rm_n_rs_seq (hy_recr m) < INT32_MAX" and "n_seq_max \<le> rm_size (hy_recr m)"
    and "plain_cache (hy_attn m)" and "no_shifts (hy_attn m)"
  shows "if \<not> embd_all \<and> rm_n_rs_seq (hy_recr m) \<noteq> 0 \<and> n_ubatch \<le> rm_n_rs_seq (hy_recr m) + 1
    then hybrid_init_batch (Suc (get_n_tokens a)) embd_all n_ubatch a m = Inl Assert_fail
    else \<exists>ctx a' m'. hybrid_init_batch (Suc (get_n_tokens a)) embd_all n_ubatch a m = Inr (Some (ctx, a', m')) \<and>
      same_kv (hy_attn m') (hy_attn m) \<and> rm_cells (hy_recr m') = rm_cells (hy_recr m) \<and> rm_used (hy_recr m') = rm_used (hy_recr m) \<and>
      rm_head (hy_recr m') = rm_head (hy_recr m) \<and> rm_rs_idx (hy_recr m') = rm_rs_idx (hy_recr m) \<and>
      (if get_n_tokens a \<le> card (free_cells (hy_attn m))
       then \<exists>c us xss. ctx = Some c \<and> hx_status c = LLAMA_MEMORY_STATUS_SUCCESS \<and> hx_attn c = context_batch (map the_slot xss) us \<and>
         hx_recr c = recurrent_context_batch us \<and> hx_ubatches c = us \<and> map length xss = map ub_n_tokens us \<and>
         total_tokens us = get_n_tokens a \<and> distinct (concat xss) \<and> set (concat xss) \<subseteq> free_cells (hy_attn m) \<and>
         (\<forall>ub \<in> set us. ubatch_ok ub \<and> batch_sets (rm_size (hy_recr m)) ub)
       else ctx = None)"
proof (cases "\<not> embd_all \<and> rm_n_rs_seq (hy_recr m) \<noteq> 0 \<and> n_ubatch \<le> rm_n_rs_seq (hy_recr m) + 1")
  case True
  have np: "mrope_positions_given (ba_n_pos_per_embd a0) inp" "0 < ba_n_pos_per_embd a0" using assms(6) by (simp_all add: mrope_positions_given_def)
  have u: "u32 (rm_n_rs_seq (hy_recr m) + 1) = rm_n_rs_seq (hy_recr m) + 1" using assms(9) by (simp add: u32_def)
  have "split_all (Suc (get_n_tokens a)) (split_equal n_ubatch False (rm_n_rs_seq (hy_recr m) + 1)) (split_reset a) = Inl Assert_fail"
    by (rule long_tail_asserts [OF assms(1,2) _ assms(4,5) np assms(7)]) (use assms(3) True in auto)
  moreover have "kv_n_stream (hy_attn m) = 1" using assms(11) by (simp add: plain_cache_def)
  ultimately show ?thesis using True u by (simp add: hybrid_init_batch_def hy_init_batch_def hy_split_def)
next
  case False
  then have "embd_all \<or> rm_n_rs_seq (hy_recr m) = 0 \<or> rm_n_rs_seq (hy_recr m) + 1 < n_ubatch" by auto
  from batch_in_both [OF assms(1-7) this assms(8-12)] show ?thesis unfolding if_not_P [OF False] .
qed

theorem hybrid_batch_all_or_nothing_witness:
  "\<exists>c a' m'. hybrid_init_batch 4 False 8 get_one_example \<lparr>hy_attn = decode_kv_example, hy_recr = rec_example\<rparr> = Inr (Some (Some c, a', m')) \<and>
    hx_status c = LLAMA_MEMORY_STATUS_SUCCESS \<and> total_tokens (hx_ubatches c) = 3 \<and> rm_cells (hy_recr m') = rm_cells rec_example"
proof -
  define m where "m = \<lparr>hy_attn = decode_kv_example, hy_recr = rec_example\<rparr>"
  have m: "hy_attn m = decode_kv_example" "hy_recr m = rec_example" by (simp_all add: m_def)
  have n: "get_n_tokens get_one_example = 3" by (simp add: get_one_example_fields)
  have room: "get_n_tokens get_one_example \<le> card (free_cells (hy_attn m))" by (simp add: n m decode_kv_example_facts(3))
  have "input_ok (llama_batch_get_one [5, 6, 7] 3)" by (simp add: llama_batch_get_one_def input_ok_def)
  moreover have "\<forall>i < get_n_tokens get_one_example. bf_pos (ba_batch get_one_example) ! i < int INT32_MAX"
    by (auto simp: get_one_example_fields get_one_full_def less_Suc_eq numeral_3_eq_3)
  ultimately obtain ctx a' m' where r: "hybrid_init_batch (Suc (get_n_tokens get_one_example)) False 8 get_one_example m = Inr (Some (ctx, a', m'))"
      "rm_cells (hy_recr m') = rm_cells (hy_recr m)"
      "if get_n_tokens get_one_example \<le> card (free_cells (hy_attn m))
       then \<exists>c us xss. ctx = Some c \<and> hx_status c = LLAMA_MEMORY_STATUS_SUCCESS \<and> hx_attn c = context_batch (map the_slot xss) us \<and>
         hx_recr c = recurrent_context_batch us \<and> hx_ubatches c = us \<and> map length xss = map ub_n_tokens us \<and>
         total_tokens us = get_n_tokens get_one_example \<and> distinct (concat xss) \<and> set (concat xss) \<subseteq> free_cells (hy_attn m) \<and>
         (\<forall>ub \<in> set us. ubatch_ok ub \<and> batch_sets (rm_size (hy_recr m)) ub)
       else ctx = None"
    using hybrid_batch_all_or_nothing [OF get_one_example_init, where m = m and n_ubatch = 8 and embd_all = False] rec_example_facts decode_kv_example_facts(1,2)
    by (simp add: m get_one_example_fields llama_batch_get_one_def batch_allocr_def del: if_split) blast
  then show ?thesis using room n unfolding m_def [symmetric] by (auto simp: m)
qed

end
