(* ===== verification/Kvarn.thy ===== *)
theory Kvarn
  imports KvCache
begin

unbundle bit_operations_syntax

text \<open>
  Structured KV storage (KVarN): rows are quantised in groups of 128 tokens, and only the newest groups of a stream
  are kept exactly, in stage rows. Modelled here are the functions of \<^verbatim>\<open>src/llama-kvarn.cpp\<close> on sizes, groups, cells
  and bits, the size policies of \<^verbatim>\<open>src/llama-kv-cache-kvarn.h\<close> and the helpers of \<^verbatim>\<open>src/llama-kv-cache-kvarn.cpp\<close>. Not
  modelled: the rotation and the quantisation of the values, which are floating point. A C \<^verbatim>\<open>assert\<close> is a failed assertion
  here; a build without assertions goes on.
\<close>

section \<open>Types and their names\<close>

abbreviation KVAR_N_GROUP :: nat where "KVAR_N_GROUP \<equiv> 128"

datatype llama_kvarn_type =
    LLAMA_KVARN_TYPE_INVALID | LLAMA_KVARN_TYPE_DISABLED
  | LLAMA_KVARN_K2V2_G128 | LLAMA_KVARN_K2V3_G128 | LLAMA_KVARN_K2V4_G128
  | LLAMA_KVARN_K3V2_G128 | LLAMA_KVARN_K3V3_G128 | LLAMA_KVARN_K3V4_G128
  | LLAMA_KVARN_K4V2_G128 | LLAMA_KVARN_K4V3_G128 | LLAMA_KVARN_K4V4_G128
  | LLAMA_KVARN_K2V5_G128 | LLAMA_KVARN_K2V6_G128 | LLAMA_KVARN_K2V8_G128
  | LLAMA_KVARN_K3V5_G128 | LLAMA_KVARN_K3V6_G128 | LLAMA_KVARN_K3V8_G128
  | LLAMA_KVARN_K4V5_G128 | LLAMA_KVARN_K4V6_G128 | LLAMA_KVARN_K4V8_G128
  | LLAMA_KVARN_K5V2_G128 | LLAMA_KVARN_K5V3_G128 | LLAMA_KVARN_K5V4_G128
  | LLAMA_KVARN_K5V5_G128 | LLAMA_KVARN_K5V6_G128 | LLAMA_KVARN_K5V8_G128
  | LLAMA_KVARN_K6V2_G128 | LLAMA_KVARN_K6V3_G128 | LLAMA_KVARN_K6V4_G128
  | LLAMA_KVARN_K6V5_G128 | LLAMA_KVARN_K6V6_G128 | LLAMA_KVARN_K6V8_G128
  | LLAMA_KVARN_K8V2_G128 | LLAMA_KVARN_K8V3_G128 | LLAMA_KVARN_K8V4_G128
  | LLAMA_KVARN_K8V5_G128 | LLAMA_KVARN_K8V6_G128 | LLAMA_KVARN_K8V8_G128
  | LLAMA_KVARN_TYPE_COUNT

record llama_kvarn_type_desc =
  kd_type :: llama_kvarn_type
  kd_name :: string
  kd_key_bits :: int
  kd_value_bits :: int
  kd_group :: int

text \<open>The macro \<^verbatim>\<open>LLAMA_KVARN_DESC(KB, VB)\<close> pastes the two digits into the constant and into the name.\<close>

definition kvarn_desc :: "llama_kvarn_type \<Rightarrow> string \<Rightarrow> int \<Rightarrow> string \<Rightarrow> int \<Rightarrow> llama_kvarn_type_desc" where
  "kvarn_desc t ks k vs v = \<lparr>kd_type = t, kd_name = ''kvarn_k'' @ ks @ ''v'' @ vs @ ''_g128'',
     kd_key_bits = k, kd_value_bits = v, kd_group = 128\<rparr>"

definition KVAR_N_TYPES :: "llama_kvarn_type_desc list" where
  "KVAR_N_TYPES =
    [\<lparr>kd_type = LLAMA_KVARN_TYPE_DISABLED, kd_name = ''off'', kd_key_bits = 0, kd_value_bits = 0, kd_group = 128\<rparr>,
     kvarn_desc LLAMA_KVARN_K2V2_G128 ''2'' 2 ''2'' 2, kvarn_desc LLAMA_KVARN_K2V3_G128 ''2'' 2 ''3'' 3, kvarn_desc LLAMA_KVARN_K2V4_G128 ''2'' 2 ''4'' 4,
     kvarn_desc LLAMA_KVARN_K3V2_G128 ''3'' 3 ''2'' 2, kvarn_desc LLAMA_KVARN_K3V3_G128 ''3'' 3 ''3'' 3, kvarn_desc LLAMA_KVARN_K3V4_G128 ''3'' 3 ''4'' 4,
     kvarn_desc LLAMA_KVARN_K4V2_G128 ''4'' 4 ''2'' 2, kvarn_desc LLAMA_KVARN_K4V3_G128 ''4'' 4 ''3'' 3, kvarn_desc LLAMA_KVARN_K4V4_G128 ''4'' 4 ''4'' 4,
     kvarn_desc LLAMA_KVARN_K2V5_G128 ''2'' 2 ''5'' 5, kvarn_desc LLAMA_KVARN_K2V6_G128 ''2'' 2 ''6'' 6, kvarn_desc LLAMA_KVARN_K2V8_G128 ''2'' 2 ''8'' 8,
     kvarn_desc LLAMA_KVARN_K3V5_G128 ''3'' 3 ''5'' 5, kvarn_desc LLAMA_KVARN_K3V6_G128 ''3'' 3 ''6'' 6, kvarn_desc LLAMA_KVARN_K3V8_G128 ''3'' 3 ''8'' 8,
     kvarn_desc LLAMA_KVARN_K4V5_G128 ''4'' 4 ''5'' 5, kvarn_desc LLAMA_KVARN_K4V6_G128 ''4'' 4 ''6'' 6, kvarn_desc LLAMA_KVARN_K4V8_G128 ''4'' 4 ''8'' 8,
     kvarn_desc LLAMA_KVARN_K5V2_G128 ''5'' 5 ''2'' 2, kvarn_desc LLAMA_KVARN_K5V3_G128 ''5'' 5 ''3'' 3, kvarn_desc LLAMA_KVARN_K5V4_G128 ''5'' 5 ''4'' 4,
     kvarn_desc LLAMA_KVARN_K5V5_G128 ''5'' 5 ''5'' 5, kvarn_desc LLAMA_KVARN_K5V6_G128 ''5'' 5 ''6'' 6, kvarn_desc LLAMA_KVARN_K5V8_G128 ''5'' 5 ''8'' 8,
     kvarn_desc LLAMA_KVARN_K6V2_G128 ''6'' 6 ''2'' 2, kvarn_desc LLAMA_KVARN_K6V3_G128 ''6'' 6 ''3'' 3, kvarn_desc LLAMA_KVARN_K6V4_G128 ''6'' 6 ''4'' 4,
     kvarn_desc LLAMA_KVARN_K6V5_G128 ''6'' 6 ''5'' 5, kvarn_desc LLAMA_KVARN_K6V6_G128 ''6'' 6 ''6'' 6, kvarn_desc LLAMA_KVARN_K6V8_G128 ''6'' 6 ''8'' 8,
     kvarn_desc LLAMA_KVARN_K8V2_G128 ''8'' 8 ''2'' 2, kvarn_desc LLAMA_KVARN_K8V3_G128 ''8'' 8 ''3'' 3, kvarn_desc LLAMA_KVARN_K8V4_G128 ''8'' 8 ''4'' 4,
     kvarn_desc LLAMA_KVARN_K8V5_G128 ''8'' 8 ''5'' 5, kvarn_desc LLAMA_KVARN_K8V6_G128 ''8'' 8 ''6'' 6, kvarn_desc LLAMA_KVARN_K8V8_G128 ''8'' 8 ''8'' 8]"

definition llama_kvarn_valid_bits :: "int \<Rightarrow> bool" where
  "llama_kvarn_valid_bits bits = (bits = 2 \<or> bits = 3 \<or> bits = 4 \<or> bits = 5 \<or> bits = 6 \<or> bits = 8)"

definition llama_kvarn_valid_bit_pair :: "int \<Rightarrow> int \<Rightarrow> bool" where
  "llama_kvarn_valid_bit_pair key_bits value_bits =
     (case find (\<lambda>d. kd_key_bits d = key_bits \<and> kd_value_bits d = value_bits \<and> kd_group d = 128) KVAR_N_TYPES of
        Some d \<Rightarrow> kd_type d \<noteq> LLAMA_KVARN_TYPE_DISABLED \<and> kd_type d \<noteq> LLAMA_KVARN_TYPE_INVALID
      | None \<Rightarrow> False)"

text \<open>The null pointer is \<open>None\<close>.\<close>

definition llama_kvarn_type_desc_from_name :: "string option \<Rightarrow> llama_kvarn_type_desc option" where
  "llama_kvarn_type_desc_from_name name = (case name of None \<Rightarrow> None | Some n \<Rightarrow> find (\<lambda>d. kd_name d = n) KVAR_N_TYPES)"

definition llama_kvarn_type_desc_from_type :: "llama_kvarn_type \<Rightarrow> llama_kvarn_type_desc option" where
  "llama_kvarn_type_desc_from_type t = find (\<lambda>d. kd_type d = t) KVAR_N_TYPES"

definition llama_kvarn_type_name :: "llama_kvarn_type \<Rightarrow> string" where
  "llama_kvarn_type_name t = (case llama_kvarn_type_desc_from_type t of Some d \<Rightarrow> kd_name d | None \<Rightarrow> ''invalid'')"

definition llama_kvarn_type_from_name :: "string option \<Rightarrow> llama_kvarn_type" where
  "llama_kvarn_type_from_name name =
     (case llama_kvarn_type_desc_from_name name of Some d \<Rightarrow> kd_type d | None \<Rightarrow> LLAMA_KVARN_TYPE_INVALID)"

section \<open>Parameters\<close>

record llama_kvarn_params =
  kp_type :: llama_kvarn_type
  kp_key_bits :: int
  kp_value_bits :: int
  kp_swa_key_bits :: int
  kp_swa_value_bits :: int
  kp_group :: int
  kp_sinkhorn_iters :: int
  kp_sink_tokens :: int
  kp_fail_if_unsupported :: bool

record llama_kvarn_runtime_requirements =
  kr_attention_supported :: bool
  kr_head_dims_supported :: bool
  kr_backend_ops_supported :: bool
  kr_n_seq_max :: nat
  kr_kv_unified :: bool

definition llama_kvarn_default_params :: llama_kvarn_params where
  "llama_kvarn_default_params = \<lparr>kp_type = LLAMA_KVARN_TYPE_DISABLED, kp_key_bits = 0, kp_value_bits = 0,
     kp_swa_key_bits = 0, kp_swa_value_bits = 0, kp_group = 128, kp_sinkhorn_iters = 16, kp_sink_tokens = 128,
     kp_fail_if_unsupported = True\<rparr>"

definition llama_kvarn_params_for_type :: "llama_kvarn_type \<Rightarrow> llama_kvarn_params" where
  "llama_kvarn_params_for_type t =
     (let result = llama_kvarn_default_params\<lparr>kp_type := t\<rparr>
      in case llama_kvarn_type_desc_from_type t of None \<Rightarrow> result
         | Some d \<Rightarrow> result\<lparr>kp_key_bits := kd_key_bits d, kp_value_bits := kd_value_bits d, kp_group := kd_group d\<rparr>)"

definition llama_kvarn_validate_runtime :: "llama_kvarn_params \<Rightarrow> llama_kvarn_runtime_requirements \<Rightarrow> string option" where
  "llama_kvarn_validate_runtime p r =
     (if kp_type p = LLAMA_KVARN_TYPE_DISABLED then None
      else case llama_kvarn_type_desc_from_type (kp_type p) of
        None \<Rightarrow> Some ''invalid KVarN cache type''
      | Some d \<Rightarrow>
          if kd_type d = LLAMA_KVARN_TYPE_DISABLED then Some ''invalid KVarN cache type''
          else if kp_key_bits p \<noteq> kd_key_bits d \<or> kp_value_bits p \<noteq> kd_value_bits d \<or> kp_group p \<noteq> kd_group d
          then Some ''KVarN cache parameters do not match the selected preset''
          else if \<not> llama_kvarn_valid_bits (kp_key_bits p) \<or> \<not> llama_kvarn_valid_bits (kp_value_bits p)
          then Some ''KVarN supports only 2-, 3-, 4-, 5-, 6-, and 8-bit cache payloads''
          else if (kp_swa_key_bits p \<noteq> 0 \<and> \<not> llama_kvarn_valid_bits (kp_swa_key_bits p)) \<or>
             (kp_swa_value_bits p \<noteq> 0 \<and> \<not> llama_kvarn_valid_bits (kp_swa_value_bits p))
          then Some ''KVarN SWA overrides support only 2-, 3-, 4-, 5-, 6-, and 8-bit cache payloads''
          else if (kp_swa_key_bits p = 0) \<noteq> (kp_swa_value_bits p = 0)
          then Some ''KVarN SWA override must specify both K and V bits''
          else if kp_swa_key_bits p \<noteq> 0 \<and> \<not> llama_kvarn_valid_bit_pair (kp_swa_key_bits p) (kp_swa_value_bits p)
          then Some ''invalid KVarN SWA override bit combination''
          else if kp_group p \<noteq> 128 then Some ''KVarN currently requires a group size of 128 tokens''
          else if kp_sinkhorn_iters p \<le> 0 then Some ''KVarN requires at least one Sinkhorn iteration''
          else if kp_sink_tokens p \<noteq> 128 then Some ''KVarN currently requires exactly 128 unquantized sink tokens''
          else if \<not> kr_attention_supported r then Some ''KVarN is not supported by this attention/cache path''
          else if \<not> kr_head_dims_supported r then Some ''KVarN requires 128-, 256-, or 512-dimensional key/value heads''
          else if \<not> kr_backend_ops_supported r then Some ''KVarN requires a backend with KVarN store and materialization support''
          else None)"

datatype llama_kvarn_iswa_policy =
  LLAMA_KVARN_ISWA_DISABLED | LLAMA_KVARN_ISWA_ALL_LAYERS | LLAMA_KVARN_ISWA_STANDARD_SWA_FALLBACK

definition llama_kvarn_iswa_policy_for :: "bool \<Rightarrow> bool \<Rightarrow> nat \<Rightarrow> llama_kvarn_iswa_policy" where
  "llama_kvarn_iswa_policy_for enabled has_swa n_seq_max =
     (if \<not> enabled then LLAMA_KVARN_ISWA_DISABLED
      else if \<not> has_swa \<or> n_seq_max \<le> 1 then LLAMA_KVARN_ISWA_ALL_LAYERS
      else LLAMA_KVARN_ISWA_STANDARD_SWA_FALLBACK)"

datatype ggml_flash_attn_ext_kvarn_domain =
    GGML_FLASH_ATTN_EXT_KVARN_DOMAIN_AUTO | GGML_FLASH_ATTN_EXT_KVARN_DOMAIN_ROTATED
  | GGML_FLASH_ATTN_EXT_KVARN_DOMAIN_ORIGINAL | GGML_FLASH_ATTN_EXT_KVARN_DOMAIN_ROTATED_K_ORIGINAL_V

definition llama_kvarn_plan_attention :: "bool \<Rightarrow> bool \<Rightarrow> nat \<Rightarrow> nat \<Rightarrow> bool \<times> ggml_flash_attn_ext_kvarn_domain" where
  "llama_kvarn_plan_attention native_attention native_original_v native_rotated_max_query_tokens n_query_tokens =
     (if \<not> native_attention then (False, GGML_FLASH_ATTN_EXT_KVARN_DOMAIN_ROTATED)
      else if n_query_tokens \<le> max 1 native_rotated_max_query_tokens then (True, GGML_FLASH_ATTN_EXT_KVARN_DOMAIN_ROTATED)
      else if native_original_v then (True, GGML_FLASH_ATTN_EXT_KVARN_DOMAIN_ROTATED_K_ORIGINAL_V)
      else (False, GGML_FLASH_ATTN_EXT_KVARN_DOMAIN_ROTATED))"

definition llama_kvarn_attention_domain :: "bool \<Rightarrow> bool \<Rightarrow> nat \<Rightarrow> nat \<Rightarrow> ggml_flash_attn_ext_kvarn_domain" where
  "llama_kvarn_attention_domain native_attention native_original_v native_rotated_max_query_tokens n_query_tokens =
     snd (llama_kvarn_plan_attention native_attention native_original_v native_rotated_max_query_tokens n_query_tokens)"

section \<open>Packed values and the layout of a tile\<close>

definition llama_kvarn_align_up :: "nat \<Rightarrow> nat \<Rightarrow> nat" where
  "llama_kvarn_align_up value alignment = (value + alignment - 1) div alignment * alignment"

definition llama_kvarn_packed_bytes :: "nat \<Rightarrow> nat \<Rightarrow> nat res" where
  "llama_kvarn_packed_bytes n_values bits = assert_r (llama_kvarn_valid_bits (int bits)) (Inr ((n_values * bits + 7) div 8))"

definition pack_bit :: "8 word \<Rightarrow> nat \<Rightarrow> nat \<Rightarrow> 8 word list \<Rightarrow> 8 word list" where
  "pack_bit value bit_offset b dst =
     (let dst_bit = bit_offset + b
      in dst[dst_bit div 8 := dst ! (dst_bit div 8) OR push_bit (dst_bit mod 8) (drop_bit b value AND 1)])"

definition pack_value :: "8 word list \<Rightarrow> nat \<Rightarrow> nat \<Rightarrow> 8 word list \<Rightarrow> 8 word list" where
  "pack_value values bits i dst =
     (let value = values ! i AND ucast (push_bit bits (1 :: 32 word) - 1)
      in fold (pack_bit value (i * bits)) [0..<bits] dst)"

text \<open>The destination is the vector of bytes that \<^verbatim>\<open>memset\<close> clears.\<close>

definition llama_kvarn_pack_bits :: "8 word list \<Rightarrow> nat \<Rightarrow> 8 word list res" where
  "llama_kvarn_pack_bits values bits =
     bind_r (llama_kvarn_packed_bytes (length values) bits) (\<lambda>n.
       Inr (fold (pack_value values bits) [0..<length values] (replicate n 0)))"

definition unpack_bit :: "8 word list \<Rightarrow> nat \<Rightarrow> nat \<Rightarrow> 8 word \<Rightarrow> 8 word res" where
  "unpack_bit src bit_offset b value =
     (let src_bit = bit_offset + b
      in if src_bit div 8 < length src
         then Inr (value OR push_bit b (drop_bit (src_bit mod 8) (src ! (src_bit div 8)) AND 1))
         else Inl Undefined)"

definition llama_kvarn_unpack_bits_value :: "8 word list \<Rightarrow> nat \<Rightarrow> nat \<Rightarrow> 8 word res" where
  "llama_kvarn_unpack_bits_value src index bits =
     assert_r (llama_kvarn_valid_bits (int bits)) (fold_r (unpack_bit src (index * bits)) [0..<bits] 0)"

record llama_kvarn_tile_layout =
  tl_k_payload_off :: nat
  tl_v_payload_off :: nat
  tl_k_s_col_off :: nat
  tl_k_zp_off :: nat
  tl_k_s_row_off :: nat
  tl_v_s_col_off :: nat
  tl_v_s_row_off :: nat
  tl_v_zp_off :: nat
  tl_k_payload_bytes :: nat
  tl_v_payload_bytes :: nat
  tl_tile_bytes :: nat

text \<open>The product of the two dimensions is an \<^verbatim>\<open>int\<close>.\<close>

definition llama_kvarn_make_layout :: "nat \<Rightarrow> nat \<Rightarrow> nat \<Rightarrow> nat \<Rightarrow> llama_kvarn_tile_layout res" where
  "llama_kvarn_make_layout head_dim grp key_bits value_bits =
     assert_r (head_dim > 0) (assert_r (grp > 0)
      (assert_r (llama_kvarn_valid_bits (int key_bits)) (assert_r (llama_kvarn_valid_bits (int value_bits))
       (if head_dim * grp > INT32_MAX then Inl Undefined
        else bind_r (llama_kvarn_packed_bytes (head_dim * grp) key_bits) (\<lambda>k_bytes.
          bind_r (llama_kvarn_packed_bytes (grp * head_dim) value_bits) (\<lambda>v_bytes.
            let k_s_col = k_bytes; k_zp = k_s_col + head_dim * 2; k_s_row = k_zp + head_dim * 2;
                v_payload = k_s_row + grp * 2; v_s_col = v_payload + v_bytes; v_s_row = v_s_col + head_dim * 2;
                v_zp = v_s_row + grp * 2; off = v_zp + grp * 2
            in Inr \<lparr>tl_k_payload_off = 0, tl_v_payload_off = v_payload, tl_k_s_col_off = k_s_col, tl_k_zp_off = k_zp,
                 tl_k_s_row_off = k_s_row, tl_v_s_col_off = v_s_col, tl_v_s_row_off = v_s_row, tl_v_zp_off = v_zp,
                 tl_k_payload_bytes = k_bytes, tl_v_payload_bytes = v_bytes,
                 tl_tile_bytes = llama_kvarn_align_up off 8\<rparr>))))))"

definition llama_kvarn_head_slices :: "int \<Rightarrow> int" where
  "llama_kvarn_head_slices head_dim =
     (if head_dim \<noteq> 128 \<and> head_dim \<noteq> 256 \<and> head_dim \<noteq> 512 then 0 else head_dim sdiv 128)"

definition llama_kvarn_head_dim_supported :: "int \<Rightarrow> bool" where
  "llama_kvarn_head_dim_supported head_dim = (llama_kvarn_head_slices head_dim > 0)"

section \<open>Removing a range\<close>

definition llama_kvarn_can_remove_range :: "int \<Rightarrow> int \<Rightarrow> int \<Rightarrow> nat \<Rightarrow> bool" where
  "llama_kvarn_can_remove_range pos_max p0 p1 grp =
     (if pos_max < 0 then True
      else
        let begin = max p0 0; end = (if p1 < 0 then int INT32_MAX else p1)
        in if begin = 0 \<and> end > pos_max then True
           else if end \<le> pos_max then False
           else
             let live_group = pos_max div int grp; earliest_exact = max 0 (live_group - 1) * int grp
             in begin \<ge> earliest_exact)"

definition llama_kvarn_plan_remove_range :: "int \<Rightarrow> int \<Rightarrow> int \<Rightarrow> nat \<Rightarrow> bool \<Rightarrow> (int \<times> int) option" where
  "llama_kvarn_plan_remove_range pos_max p0 p1 grp stream_owned =
     (if llama_kvarn_can_remove_range pos_max p0 p1 grp then Some (p0, p1)
      else if \<not> stream_owned \<or> p0 \<le> 0 \<or> p1 \<ge> 0 then None
      else Some ((p0 sdiv int grp) * int grp, -1))"

section \<open>What a saved state holds\<close>

record llama_kvarn_state_stage_cell =
  sg_source_cell :: nat
  sg_stage_row :: nat

definition stage_cell_step :: "nat \<Rightarrow> nat \<Rightarrow> nat \<Rightarrow> bool \<Rightarrow> nat set option \<Rightarrow> nat \<Rightarrow>
    llama_kvarn_state_stage_cell list \<Rightarrow> llama_kvarn_state_stage_cell list res" where
  "stage_cell_step live_cell_max_p1 stage_groups tail_groups swa explicit_staged cell result =
     (let live_group = (live_cell_max_p1 - 1) div KVAR_N_GROUP;
          stage_begin = (if live_group \<ge> tail_groups - 1 then live_group - (tail_groups - 1) else 0)
      in if cell \<ge> live_cell_max_p1 then Inl Invalid_argument
         else
           let grp = cell div KVAR_N_GROUP; pos = cell mod KVAR_N_GROUP;
               staged = (if swa then grp \<ge> stage_begin \<and> grp \<le> live_group
                 else case explicit_staged of Some gs \<Rightarrow> grp \<in> gs
                   | None \<Rightarrow> grp = 0 \<or> (grp > 0 \<and> grp \<ge> stage_begin \<and> grp \<le> live_group));
               slot = (if swa then grp mod stage_groups else if grp = 0 then 0 else 1 + (grp - 1) mod tail_groups)
           in if \<not> staged then Inr result
              else Inr (result @ [\<lparr>sg_source_cell = cell, sg_stage_row = u32 (slot * KVAR_N_GROUP + pos)\<rparr>]))"

definition llama_kvarn_select_state_stage_cells ::
    "nat list \<Rightarrow> nat \<Rightarrow> nat \<Rightarrow> nat \<Rightarrow> bool \<Rightarrow> nat list option \<Rightarrow> llama_kvarn_state_stage_cell list res" where
  "llama_kvarn_select_state_stage_cells source_cells live_cell_max_p1 stage_groups tail_groups swa staged_groups =
     (if live_cell_max_p1 = 0 then Inr []
      else if stage_groups < 2 \<or> tail_groups = 0 \<or> tail_groups > stage_groups \<or> (\<not> swa \<and> tail_groups \<ge> stage_groups)
      then Inl Invalid_argument
      else fold_r (stage_cell_step live_cell_max_p1 stage_groups tail_groups swa (map_option set staged_groups)) source_cells [])"

definition record_group_step :: "nat set \<Rightarrow> nat \<Rightarrow> nat \<Rightarrow> nat set \<Rightarrow> nat set res" where
  "record_group_step staged_groups groups_per_stream cell sealed =
     (let grp = cell div KVAR_N_GROUP
      in if grp \<ge> groups_per_stream then Inl Invalid_argument
         else Inr (if grp \<in> staged_groups then sealed else insert grp sealed))"

definition llama_kvarn_select_state_record_groups ::
    "nat list \<Rightarrow> llama_kvarn_state_stage_cell list \<Rightarrow> nat \<Rightarrow> nat list res" where
  "llama_kvarn_select_state_record_groups source_cells stage_cells groups_per_stream =
     (let staged_groups = set (map (\<lambda>c. sg_source_cell c div KVAR_N_GROUP) stage_cells)
      in bind_r (fold_r (record_group_step staged_groups groups_per_stream) source_cells {}) (\<lambda>sealed.
           Inr (sorted_list_of_set sealed)))"

section \<open>The read plan\<close>

text \<open>\<open>compact_step\<close> is the predicate given to \<^verbatim>\<open>std::remove_if\<close>: it keeps the first occurrence of a cell.\<close>

definition compact_step :: "nat \<Rightarrow> nat \<Rightarrow> nat list \<Rightarrow> nat list res" where
  "compact_step capacity cell kept =
     (if cell \<ge> capacity then Inl Invalid_argument else Inr (if cell \<in> set kept then kept else kept @ [cell]))"

definition llama_kvarn_compact_read_plan :: "nat list \<Rightarrow> nat list \<Rightarrow> nat \<Rightarrow> nat \<Rightarrow> int list res" where
  "llama_kvarn_compact_read_plan occupied_cells pending_cells capacity padding =
     (if capacity = 0 \<or> padding = 0 then Inl Invalid_argument
      else bind_r (fold_r (compact_step capacity) (occupied_cells @ pending_cells) []) (\<lambda>cells.
        if length cells > capacity then Inl Invalid_argument
        else
          let used = u32 (length cells);
              padded = min capacity (max padding (u32 ((u32 (used + padding - 1) div padding) * padding)))
          in Inr (map int cells @ replicate (padded - length cells) (-1))))"

definition llama_kvarn_encode_stage_cell :: "nat \<Rightarrow> int" where
  "llama_kvarn_encode_stage_cell cell = - int cell - 2"

section \<open>Sizes\<close>

record llama_kvarn_tail_policy =
  tp_raw_requested_tokens :: nat
  tp_requested_tokens :: nat
  tp_effective_tokens :: nat
  tp_exact_groups :: nat
  tp_native_exact :: bool

definition llama_kvarn_tail_policy_for :: "nat \<Rightarrow> nat \<Rightarrow> llama_kvarn_tail_policy" where
  "llama_kvarn_tail_policy_for raw_requested_tokens effective_window =
     (if effective_window = 0
      then \<lparr>tp_raw_requested_tokens = raw_requested_tokens, tp_requested_tokens = 0, tp_effective_tokens = 0,
             tp_exact_groups = 0, tp_native_exact = True\<rparr>
      else
        let intrinsic = min 128 effective_window;
            rounded = (if raw_requested_tokens = 0 then 0 else ((raw_requested_tokens + 128 - 1) div 128) * 128);
            explicit_tokens = u32 (min rounded effective_window);
            effective_tokens = max intrinsic explicit_tokens
        in \<lparr>tp_raw_requested_tokens = raw_requested_tokens, tp_requested_tokens = effective_tokens,
             tp_effective_tokens = effective_tokens, tp_exact_groups = u32 (effective_tokens + 128 - 1) div 128,
             tp_native_exact = (effective_tokens = effective_window)\<rparr>)"

definition llama_kvarn_non_swa_tail_groups :: nat where
  "llama_kvarn_non_swa_tail_groups = 2"

definition kvarn_stage_tail_groups :: "bool \<Rightarrow> nat \<Rightarrow> nat" where
  "kvarn_stage_tail_groups is_swa n_seq_max =
     (if is_swa then 2 else u32 (llama_kvarn_non_swa_tail_groups * max 1 n_seq_max))"

definition kvarn_swa_visible_groups :: "nat \<Rightarrow> nat \<Rightarrow> nat" where
  "kvarn_swa_visible_groups kv_size n_swa =
     (let window_cells = (if n_swa > 0 then min kv_size n_swa else kv_size)
      in u32 (window_cells + KVAR_N_GROUP - 1) div KVAR_N_GROUP + 1)"

definition kvarn_record_groups_per_stream :: "nat \<Rightarrow> nat \<Rightarrow> nat \<Rightarrow> bool \<Rightarrow> nat" where
  "kvarn_record_groups_per_stream kv_size n_ubatch n_swa is_swa =
     (if \<not> is_swa then u32 (kv_size + KVAR_N_GROUP - 1) div KVAR_N_GROUP
      else
        let visible_groups = kvarn_swa_visible_groups kv_size n_swa;
            in_flight_groups = max 1 (u32 (n_ubatch + KVAR_N_GROUP - 1) div KVAR_N_GROUP)
        in max 1 (u32 (visible_groups + in_flight_groups - 1)))"

definition kvarn_record_bytes :: "nat \<Rightarrow> nat res" where
  "kvarn_record_bytes bits = bind_r (llama_kvarn_packed_bytes (KVAR_N_GROUP * KVAR_N_GROUP) bits) (\<lambda>n. Inr (n + 3 * KVAR_N_GROUP * 2))"

section \<open>Record rings in a saved state\<close>

text \<open>The records of a window cache are a ring of groups. Reading a saved ring into a ring of another depth: the tensor is
  cleared, then each completed group that both rings hold is copied to its place. A group is opaque; \<open>zero\<close> is the
  cleared one.\<close>

definition read_kvarn_swa_records :: "'g \<Rightarrow> 'g list \<Rightarrow> nat \<Rightarrow> int \<Rightarrow> 'g list" where
  "read_kvarn_swa_records zero saved current_groups saved_pos_max =
     (let cleared = replicate current_groups zero; saved_groups = length saved
      in if saved_pos_max < int (KVAR_N_GROUP - 1) then cleared
         else
           let last_complete = (saved_pos_max + 1) sdiv int KVAR_N_GROUP - 1;
               first_saved = max 0 (last_complete - int saved_groups + 1);
               first_current = max first_saved (last_complete - int current_groups + 1)
           in fold (\<lambda>grp t. t[nat (grp mod int current_groups) := saved ! nat (grp mod int saved_groups)])
                [first_current..last_complete] cleared)"

section \<open>Runs and hints\<close>

fun destination_runs :: "int list list \<Rightarrow> int option \<Rightarrow> nat \<Rightarrow> nat" where
  "destination_runs [] prev runs = runs"
| "destination_runs (d # ds) prev runs =
     (if length d \<noteq> 1 then destination_runs ds None (runs + length d)
      else case prev of
        Some p \<Rightarrow> if d ! 0 = p + 1 then destination_runs ds (Some (d ! 0)) runs
                  else destination_runs ds (Some (d ! 0)) (runs + 1)
      | None \<Rightarrow> destination_runs ds (Some (d ! 0)) (runs + 1))"

definition kvarn_exact_tail_destination_runs :: "int list list \<Rightarrow> nat" where
  "kvarn_exact_tail_destination_runs destinations = destination_runs destinations None 0"

definition hint_step_ok :: "nat \<Rightarrow> nat \<Rightarrow> bool" where
  "hint_step_ok prev cur = (\<not> (cur \<noteq> u32 (prev + 1) \<and>
     (cur \<le> prev \<or> prev mod KVAR_N_GROUP \<noteq> KVAR_N_GROUP - 1 \<or> cur mod KVAR_N_GROUP \<noteq> 0)))"

definition kvarn_workspace_tokens_per_stream_hint :: "slot_info \<Rightarrow> nat" where
  "kvarn_workspace_tokens_per_stream_hint sinfo =
     (if si_idxs sinfo = [] \<or> si_idxs sinfo ! 0 = [] then 0
      else
        let n_tokens = length (si_idxs sinfo ! 0)
        in if n_tokens > INT32_MAX then 0
           else if list_all (\<lambda>idxs. length idxs = n_tokens \<and> idxs \<noteq> [] \<and>
               list_all (\<lambda>i. hint_step_ok (idxs ! (i - 1)) (idxs ! i)) [1..<length idxs]) (si_idxs sinfo)
           then n_tokens else 0)"

end
