(* ===== verification/KvarnProps.thy ===== *)
theory KvarnProps
  imports Kvarn
begin

unbundle bit_operations_syntax

text \<open>
  What the functions of structured storage promise: packing is reversible, the fields of a tile do not overlap, a saved
  state holds every cell once, a ring of records is restored at its place, and a read plan lists every cell once.
\<close>

section \<open>Packing\<close>

text \<open>The bit at a place of a vector of bytes, counted over the whole vector.\<close>

definition vec_bit :: "8 word list \<Rightarrow> nat \<Rightarrow> bool" where
  "vec_bit d k = (k div 8 < length d \<and> bit (d ! (k div 8)) (k mod 8))"

lemma valid_bits_cases: "llama_kvarn_valid_bits (int b) \<longleftrightarrow> b \<in> {2, 3, 4, 5, 6, 8}"
  by (auto simp: llama_kvarn_valid_bits_def)

lemma value_mask:
  fixes v :: "8 word"
  assumes "b \<le> 8"
  shows "v AND ucast (2 ^ b - 1 :: 32 word) = take_bit b v"
proof -
  have "2 ^ b - 1 = (mask b :: 32 word)" by (simp add: mask_eq_exp_minus_1)
  then show ?thesis using assms by (auto intro!: bit_eqI simp: bit_and_iff bit_ucast_iff bit_mask_iff bit_take_bit_iff)
qed

lemma single_bit: "bit (push_bit r (drop_bit b v AND 1)) n \<longleftrightarrow> n = r \<and> r < 8 \<and> bit v b" for v :: "8 word"
  by (auto simp: bit_push_bit_iff bit_and_iff bit_drop_bit_eq bit_1_iff bit_exp_iff)

lemma div_eq_range: "0 < n \<Longrightarrow> k div n = m \<longleftrightarrow> m * n \<le> k \<and> k < m * n + n" for k :: nat
proof (rule iffI)
  assume "0 < n" "k div n = m"
  then have "m * n + k mod n = k" "k mod n < n" using div_mult_mod_eq [of k n] by simp_all
  then show "m * n \<le> k \<and> k < m * n + n" by linarith
next
  assume "m * n \<le> k \<and> k < m * n + n"
  then show "k div n = m" by (intro div_nat_eqI) (simp_all add: algebra_simps)
qed

lemma bit_at_same_byte: "k div 8 = x div 8 \<Longrightarrow> k mod 8 = x mod 8 \<longleftrightarrow> k = x" for k :: nat
  by (metis div_mult_mod_eq)

lemma pack_bit_at:
  assumes "(off + b) div 8 < length d"
  shows "length (pack_bit v off b d) = length d"
    and "vec_bit (pack_bit v off b d) k \<longleftrightarrow> vec_bit d k \<or> (k = off + b \<and> bit v b)"
proof -
  define x where "x = off + b"
  define w where "w = push_bit (x mod 8) (drop_bit b v AND 1)"
  have p: "pack_bit v off b d = d[x div 8 := d ! (x div 8) OR w]" by (simp add: pack_bit_def Let_def x_def w_def)
  have w: "bit w (k mod 8) \<longleftrightarrow> k mod 8 = x mod 8 \<and> bit v b" using single_bit [of "x mod 8" b v "k mod 8"] by (simp add: w_def)
  show "length (pack_bit v off b d) = length d" by (simp add: p)
  show "vec_bit (pack_bit v off b d) k \<longleftrightarrow> vec_bit d k \<or> (k = off + b \<and> bit v b)"
  proof (cases "k div 8 = x div 8")
    case True
    then have "d[x div 8 := d ! (x div 8) OR w] ! (k div 8) = d ! (k div 8) OR w" "k div 8 < length d" using assms by (simp_all add: x_def)
    then show ?thesis unfolding vec_bit_def p using bit_at_same_byte [OF True] w by (auto simp: bit_or_iff x_def)
  next
    case False
    then have "d[x div 8 := d ! (x div 8) OR w] ! (k div 8) = d ! (k div 8)" "k \<noteq> off + b" by (auto simp: x_def)
    then show ?thesis unfolding vec_bit_def p by simp
  qed
qed

lemma div8_mono: "(off + Suc m - 1) div 8 < n \<Longrightarrow> m = 0 \<or> (off + m - 1) div 8 < n" for off :: nat
  by (rule disjI2) (metis Suc_pred' diff_le_self div_le_mono le_less_trans add_Suc_right diff_Suc_1)

lemma pack_bits_at:
  assumes "m = 0 \<or> (off + m - 1) div 8 < length d"
  shows "length (fold (pack_bit v off) [0..<m] d) = length d \<and>
    (\<forall>k. vec_bit (fold (pack_bit v off) [0..<m] d) k \<longleftrightarrow> vec_bit d k \<or> (off \<le> k \<and> k < off + m \<and> bit v (k - off)))"
  using assms
proof (induction m)
  case (Suc m)
  define e where "e = fold (pack_bit v off) [0..<m] d"
  have h: "(off + Suc m - 1) div 8 < length d" using Suc.prems by simp
  have IH: "length e = length d" "\<And>k. vec_bit e k \<longleftrightarrow> vec_bit d k \<or> (off \<le> k \<and> k < off + m \<and> bit v (k - off))"
    using Suc.IH [OF div8_mono [OF h]] by (simp_all add: e_def)
  have "(off + m) div 8 < length e" using h IH(1) by simp
  note p = pack_bit_at [OF this, of v]
  have "fold (pack_bit v off) [0..<Suc m] d = pack_bit v off m e" by (simp add: e_def)
  moreover have "(off \<le> k \<and> k < off + Suc m \<and> bit v (k - off)) \<longleftrightarrow> (off \<le> k \<and> k < off + m \<and> bit v (k - off)) \<or> (k = off + m \<and> bit v m)" for k
    by (cases "k = off + m") auto
  ultimately show ?case using p IH by auto
qed auto

lemma ceil_div8:
  fixes x :: nat
  assumes "x < y"
  shows "x div 8 < (y + 7) div 8"
proof -
  have "(x + 8) div 8 \<le> (y + 7) div 8" using assms by (intro div_le_mono) simp
  then show ?thesis by simp
qed

lemma bytes_cover:
  fixes n :: nat
  assumes "0 < bits" and "i < n"
  shows "(i * bits + bits - 1) div 8 < (n * bits + 7) div 8"
proof -
  have "Suc i * bits \<le> n * bits" using assms(2) by (intro mult_le_mono1) simp
  then have "i * bits + bits - 1 < n * bits" using assms(1) by (simp add: algebra_simps)
  then show ?thesis by (rule ceil_div8)
qed

lemma packed_step:
  fixes v :: "8 word"
  assumes "0 < bits"
  shows "(m * bits \<le> k \<and> k < m * bits + bits \<and> bit (take_bit bits v) (k - m * bits)) \<longleftrightarrow> (k div bits = m \<and> bit v (k mod bits))"
proof (cases "k div bits = m")
  case True
  then have "k mod bits = k - m * bits" by (metis minus_div_mult_eq_mod)
  moreover have "k mod bits < bits" using assms by simp
  ultimately show ?thesis using True div_eq_range [OF assms, of k m] by (auto simp: bit_take_bit_iff)
next
  case False
  then show ?thesis using div_eq_range [OF assms, of k m] by auto
qed

lemma packed_at:
  assumes "0 < bits" "bits \<le> 8" and "m \<le> length values" and "length d = (length values * bits + 7) div 8" and "\<And>k. \<not> vec_bit d k"
  shows "length (fold (pack_value values bits) [0..<m] d) = length d \<and>
    (\<forall>k. vec_bit (fold (pack_value values bits) [0..<m] d) k \<longleftrightarrow> k div bits < m \<and> bit (values ! (k div bits)) (k mod bits))"
  using assms(3)
proof (induction m)
  case 0
  show ?case using assms(5) by simp
next
  case (Suc m)
  define e where "e = fold (pack_value values bits) [0..<m] d"
  have IH: "length e = length d" "\<And>k. vec_bit e k \<longleftrightarrow> k div bits < m \<and> bit (values ! (k div bits)) (k mod bits)"
    using Suc by (simp_all add: e_def)
  have "(m * bits + bits - 1) div 8 < length e" using bytes_cover [OF assms(1), of m "length values"] Suc.prems IH(1) assms(4) by simp
  then have p: "\<And>v. length (fold (pack_bit v (m * bits)) [0..<bits] e) = length e"
      "\<And>v k. vec_bit (fold (pack_bit v (m * bits)) [0..<bits] e) k \<longleftrightarrow> vec_bit e k \<or> (m * bits \<le> k \<and> k < m * bits + bits \<and> bit v (k - m * bits))"
    using pack_bits_at [of bits "m * bits" e] by simp_all
  have s: "fold (pack_value values bits) [0..<Suc m] d = fold (pack_bit (take_bit bits (values ! m)) (m * bits)) [0..<bits] e"
    by (simp add: e_def pack_value_def Let_def value_mask [OF assms(2)])
  show ?case unfolding s p packed_step [OF assms(1)] using IH by (auto simp: less_Suc_eq)
qed

lemma unpack_at:
  assumes "m = 0 \<or> (off + m - 1) div 8 < length d" and "m \<le> 8"
  shows "\<exists>v. fold_r (unpack_bit d off) [0..<m] 0 = Inr v \<and> (\<forall>b. bit v b \<longleftrightarrow> b < m \<and> vec_bit d (off + b))"
  using assms
proof (induction m)
  case (Suc m)
  have h: "(off + Suc m - 1) div 8 < length d" using Suc.prems(1) by simp
  obtain v where v: "fold_r (unpack_bit d off) [0..<m] 0 = Inr v" "\<And>b. bit v b \<longleftrightarrow> b < m \<and> vec_bit d (off + b)"
    using Suc.IH [OF div8_mono [OF h]] Suc.prems(2) by auto
  have l: "(off + m) div 8 < length d" using h by simp
  define w where "w = push_bit m (drop_bit ((off + m) mod 8) (d ! ((off + m) div 8)) AND 1)"
  have w: "bit w b \<longleftrightarrow> b = m \<and> vec_bit d (off + b)" for b
    using single_bit [of m "(off + m) mod 8" "d ! ((off + m) div 8)" b] l Suc.prems(2) by (auto simp: w_def vec_bit_def)
  have "fold_r (unpack_bit d off) [0..<Suc m] 0 = Inr (v OR w)" using v(1) l by (simp add: fold_r_append unpack_bit_def Let_def w_def)
  moreover have "\<forall>b. bit (v OR w) b \<longleftrightarrow> b < Suc m \<and> vec_bit d (off + b)" using v(2) w by (auto simp: bit_or_iff less_Suc_eq)
  ultimately show ?case by blast
qed simp

text \<open>C26: Packing is reversible (llama_kvarn_pack_bits, llama_kvarn_unpack_bits_value): for every width the format has, packing a
  vector of bytes completes, gives the number of bytes llama_kvarn_packed_bytes announces, and unpacking a place
  gives the low bits of the value packed there, whatever the other values are and also when it crosses a byte; a
  value that fits the width comes back as it was.\<close>

theorem pack_roundtrip:
  assumes "llama_kvarn_valid_bits (int bits)"
  shows "\<exists>bytes. llama_kvarn_pack_bits values bits = Inr bytes \<and> llama_kvarn_packed_bytes (length values) bits = Inr (length bytes) \<and>
    (\<forall>i < length values. llama_kvarn_unpack_bits_value bytes i bits = Inr (take_bit bits (values ! i)) \<and>
       (unat (values ! i) < 2 ^ bits \<longrightarrow> llama_kvarn_unpack_bits_value bytes i bits = Inr (values ! i)))"
proof -
  have b: "0 < bits" "bits \<le> 8" using assms by (auto simp: valid_bits_cases)
  define n where "n = (length values * bits + 7) div 8"
  have len: "llama_kvarn_packed_bytes (length values) bits = Inr n" using assms by (simp add: llama_kvarn_packed_bytes_def n_def)
  define bytes where "bytes = fold (pack_value values bits) [0..<length values] (replicate n 0)"
  have z: "\<not> vec_bit (replicate n 0) k" for k by (simp add: vec_bit_def)
  have p: "length bytes = n" "\<And>k. vec_bit bytes k \<longleftrightarrow> k div bits < length values \<and> bit (values ! (k div bits)) (k mod bits)"
    using packed_at [OF b, of "length values" "values" "replicate n 0"] z by (simp_all add: bytes_def n_def)
  have run: "llama_kvarn_pack_bits values bits = Inr bytes" by (simp add: llama_kvarn_pack_bits_def len bytes_def)
  have u: "llama_kvarn_unpack_bits_value bytes i bits = Inr (take_bit bits (values ! i))" if i: "i < length values" for i
  proof -
    have "(i * bits + bits - 1) div 8 < length bytes" using bytes_cover [OF b(1) i] p(1) by (simp add: n_def)
    then obtain v where v: "fold_r (unpack_bit bytes (i * bits)) [0..<bits] 0 = Inr v" "\<And>c. bit v c \<longleftrightarrow> c < bits \<and> vec_bit bytes (i * bits + c)"
      using unpack_at [of bits "i * bits" bytes] b(2) by auto
    have at: "(i * bits + c) div bits = i" "(i * bits + c) mod bits = c" if "c < bits" for c using that by simp_all
    have "v = take_bit bits (values ! i)" by (rule bit_eqI) (use v(2) p(2) at i in \<open>auto simp: bit_take_bit_iff\<close>)
    then show ?thesis using v(1) assms by (simp add: llama_kvarn_unpack_bits_value_def)
  qed
  have f: "take_bit bits w = w" if "unat w < 2 ^ bits" for w :: "8 word"
    using that by (metis take_bit_nat_eq_self unsigned_take_bit_eq unsigned_word_eqI)
  show ?thesis using run len p(1) u f by (intro exI [of _ bytes]) simp
qed

theorem pack_roundtrip_witness:
  "\<exists>bytes. llama_kvarn_pack_bits [5, 2, 7] 3 = Inr bytes \<and> length bytes = 2 \<and> llama_kvarn_unpack_bits_value bytes 2 3 = Inr 7"
proof -
  define xs where "xs = [5, 2, 7 :: 8 word]"
  have v: "llama_kvarn_valid_bits (int 3)" by (simp add: llama_kvarn_valid_bits_def)
  obtain bytes where r: "llama_kvarn_pack_bits xs 3 = Inr bytes" "llama_kvarn_packed_bytes (length xs) 3 = Inr (length bytes)"
      "\<And>i. i < length xs \<Longrightarrow> llama_kvarn_unpack_bits_value bytes i 3 = Inr (take_bit 3 (xs ! i))"
    using pack_roundtrip [OF v, of xs] by blast
  have "llama_kvarn_unpack_bits_value bytes 2 3 = Inr 7" using r(3) [of 2] by (simp add: xs_def)
  moreover have "length bytes = 2" using r(2) v by (simp add: xs_def llama_kvarn_packed_bytes_def)
  ultimately show ?thesis using r(1) by (auto simp: xs_def)
qed

section \<open>The layout of a tile\<close>

text \<open>The fields of a tile in the order of the layout, with their sizes.\<close>

definition tile_fields :: "nat \<Rightarrow> nat \<Rightarrow> llama_kvarn_tile_layout \<Rightarrow> (nat \<times> nat) list" where
  "tile_fields head_dim grp l =
     [(tl_k_payload_off l, tl_k_payload_bytes l), (tl_k_s_col_off l, 2 * head_dim), (tl_k_zp_off l, 2 * head_dim), (tl_k_s_row_off l, 2 * grp),
      (tl_v_payload_off l, tl_v_payload_bytes l), (tl_v_s_col_off l, 2 * head_dim), (tl_v_s_row_off l, 2 * grp), (tl_v_zp_off l, 2 * grp)]"

lemma align_up_8: "x \<le> llama_kvarn_align_up x 8" "8 dvd llama_kvarn_align_up x 8" "llama_kvarn_align_up x 8 < x + 8"
proof -
  have "(x + 7) div 8 * 8 + (x + 7) mod 8 = x + 7" "(x + 7) mod 8 < 8" by simp_all
  then show "x \<le> llama_kvarn_align_up x 8" "llama_kvarn_align_up x 8 < x + 8" unfolding llama_kvarn_align_up_def by linarith+
qed (simp add: llama_kvarn_align_up_def)

lemma packed_even:
  fixes n :: nat
  assumes "16 dvd n"
  shows "(n * bits + 7) div 8 = n div 8 * bits" "even ((n * bits + 7) div 8)"
proof -
  obtain m where m: "n = 16 * m" using assms by blast
  have "(n * bits + 7) div 8 = (8 * (2 * m * bits) + 7) div 8" by (simp add: m mult.assoc)
  then show "(n * bits + 7) div 8 = n div 8 * bits" by (simp add: m)
  then show "even ((n * bits + 7) div 8)" by (simp add: m)
qed

text \<open>C40: The layout of a tile (llama_kvarn_make_layout; positive dimensions whose product is a 32-bit integer, widths the format
  has) gives each field its own bytes: the eight fields follow each other without
  overlap, each payload has room for one packed value per element, the tile ends after the last field at a
  multiple of eight bytes with less than eight bytes of padding, and for a group of 128 tokens the 16-bit fields are
  aligned.\<close>

theorem layout_disjoint:
  assumes "0 < head_dim" and "0 < grp" and "head_dim * grp \<le> INT32_MAX" and "llama_kvarn_valid_bits (int kb)" and "llama_kvarn_valid_bits (int vb)"
  shows "\<exists>l. llama_kvarn_make_layout head_dim grp kb vb = Inr l \<and>
    sorted_wrt (\<lambda>f g. fst f + snd f \<le> fst g) (tile_fields head_dim grp l) \<and>
    (\<forall>f \<in> set (tile_fields head_dim grp l). fst f + snd f \<le> tl_tile_bytes l) \<and>
    llama_kvarn_packed_bytes (head_dim * grp) kb = Inr (tl_k_payload_bytes l) \<and> head_dim * grp * kb \<le> 8 * tl_k_payload_bytes l \<and>
    llama_kvarn_packed_bytes (head_dim * grp) vb = Inr (tl_v_payload_bytes l) \<and> head_dim * grp * vb \<le> 8 * tl_v_payload_bytes l \<and>
    8 dvd tl_tile_bytes l \<and> tl_tile_bytes l < sum_list (map snd (tile_fields head_dim grp l)) + 8 \<and>
    (grp = 128 \<longrightarrow> (\<forall>f \<in> set (tile_fields head_dim grp l). even (fst f)))"
proof -
  define kbytes where "kbytes = (head_dim * grp * kb + 7) div 8"
  define vbytes where "vbytes = (head_dim * grp * vb + 7) div 8"
  define off where "off = kbytes + 2 * head_dim + 2 * head_dim + 2 * grp + vbytes + 2 * head_dim + 2 * grp + 2 * grp"
  define l where "l = \<lparr>tl_k_payload_off = 0, tl_v_payload_off = kbytes + 2 * head_dim + 2 * head_dim + 2 * grp, tl_k_s_col_off = kbytes,
    tl_k_zp_off = kbytes + 2 * head_dim, tl_k_s_row_off = kbytes + 2 * head_dim + 2 * head_dim,
    tl_v_s_col_off = kbytes + 2 * head_dim + 2 * head_dim + 2 * grp + vbytes,
    tl_v_s_row_off = kbytes + 2 * head_dim + 2 * head_dim + 2 * grp + vbytes + 2 * head_dim,
    tl_v_zp_off = kbytes + 2 * head_dim + 2 * head_dim + 2 * grp + vbytes + 2 * head_dim + 2 * grp,
    tl_k_payload_bytes = kbytes, tl_v_payload_bytes = vbytes, tl_tile_bytes = llama_kvarn_align_up off 8\<rparr>"
  have run: "llama_kvarn_make_layout head_dim grp kb vb = Inr l"
    using assms by (simp add: llama_kvarn_make_layout_def llama_kvarn_packed_bytes_def Let_def l_def kbytes_def vbytes_def off_def mult.commute)
  have "x \<le> 8 * ((x + 7) div 8)" for x :: nat by presburger
  then have room: "head_dim * grp * kb \<le> 8 * kbytes" "head_dim * grp * vb \<le> 8 * vbytes" by (simp_all add: kbytes_def vbytes_def)
  have ev: "even kbytes \<and> even vbytes" if "grp = 128"
    using packed_even(2) [of "head_dim * grp"] that by (simp add: kbytes_def vbytes_def)
  show ?thesis
    by (rule exI [of _ l])
      (use align_up_8 [of off] room assms(4,5) ev in \<open>auto simp: run l_def tile_fields_def off_def llama_kvarn_packed_bytes_def simp flip: kbytes_def vbytes_def\<close>)
qed

theorem layout_disjoint_witness:
  "\<exists>l. llama_kvarn_make_layout 128 128 4 2 = Inr l \<and> tl_k_payload_bytes l = 8192 \<and> 8 dvd tl_tile_bytes l"
proof -
  have v: "llama_kvarn_valid_bits (int 4)" "llama_kvarn_valid_bits (int 2)" by (simp_all add: llama_kvarn_valid_bits_def)
  obtain l where "llama_kvarn_make_layout 128 128 4 2 = Inr l" "llama_kvarn_packed_bytes (128 * 128) 4 = Inr (tl_k_payload_bytes l)" "8 dvd tl_tile_bytes l"
    using layout_disjoint [OF _ _ _ v, of 128 128] by auto
  then show ?thesis using v by (auto simp: llama_kvarn_packed_bytes_def)
qed

section \<open>Reading a saved ring\<close>

lemma fold_update:
  assumes "distinct xs" and "inj_on f (set xs)" and "\<And>x. x \<in> set xs \<Longrightarrow> f x < length t"
  shows "length (fold (\<lambda>x t. t[f x := h x]) xs t) = length t \<and>
    (\<forall>x \<in> set xs. fold (\<lambda>x t. t[f x := h x]) xs t ! f x = h x) \<and>
    (\<forall>i. i \<notin> f ` set xs \<longrightarrow> fold (\<lambda>x t. t[f x := h x]) xs t ! i = t ! i)"
  using assms
proof (induction xs arbitrary: t)
  case (Cons a xs)
  have "f a \<notin> f ` set xs" using Cons.prems(1,2) by (auto simp: inj_on_def)
  then show ?case using Cons.IH [of "t[f a := h a]"] Cons.prems by auto
qed simp

lemma mod_window:
  fixes n :: int
  assumes "a \<le> x" "x < a + n" "a \<le> y" "y < a + n" "x mod n = y mod n"
  shows "x = y"
proof -
  have "n dvd x - y" using assms(5) by (simp add: mod_eq_dvd_iff)
  moreover have "\<bar>x - y\<bar> < n" using assms(1-4) by linarith
  ultimately show ?thesis using dvd_imp_le_int [of "x - y" n] by force
qed

text \<open>C39: The ring of records of a window cache survives a restore into a ring of another depth (read_kvarn_swa_records, both rings non-empty, at
  least one group completed, records copied through host memory): each completed
  group that both rings hold is afterwards at its place in the new ring, with the content it had at its place in
  the saved one, and every other place is cleared.\<close>

theorem swa_records_restored:
  assumes "saved \<noteq> []" and "0 < cg" and "127 \<le> pos_max" and "last_complete = (pos_max + 1) div 128 - 1"
  shows "length (read_kvarn_swa_records zero saved cg pos_max) = cg \<and>
    (\<forall>g. 0 \<le> g \<and> last_complete - int (length saved) < g \<and> last_complete - int cg < g \<and> g \<le> last_complete \<longrightarrow>
       read_kvarn_swa_records zero saved cg pos_max ! nat (g mod int cg) = saved ! nat (g mod int (length saved))) \<and>
    (\<forall>i < cg. (\<forall>g. 0 \<le> g \<and> last_complete - int (length saved) < g \<and> last_complete - int cg < g \<and> g \<le> last_complete \<longrightarrow> nat (g mod int cg) \<noteq> i) \<longrightarrow>
       read_kvarn_swa_records zero saved cg pos_max ! i = zero)"
proof -
  define first where "first = max (max 0 (last_complete - int (length saved) + 1)) (last_complete - int cg + 1)"
  define r where "r = fold (\<lambda>g t. t[nat (g mod int cg) := saved ! nat (g mod int (length saved))]) [first..last_complete] (replicate cg zero)"
  have lc: "(pos_max + 1) sdiv 128 - 1 = last_complete" using assms(3,4) by (simp add: sdiv_nonneg)
  have run: "read_kvarn_swa_records zero saved cg pos_max = r"
    using assms(3) by (simp add: read_kvarn_swa_records_def Let_def r_def first_def lc)
  have range: "g \<in> set [first..last_complete] \<longleftrightarrow> 0 \<le> g \<and> last_complete - int (length saved) < g \<and> last_complete - int cg < g \<and> g \<le> last_complete" for g
    by (auto simp: first_def)
  have "inj_on (\<lambda>g. nat (g mod int cg)) (set [first..last_complete])"
  proof (rule inj_onI)
    fix x y assume x: "x \<in> set [first..last_complete]" and y: "y \<in> set [first..last_complete]" and e: "nat (x mod int cg) = nat (y mod int cg)"
    have "x mod int cg = y mod int cg" using e assms(2) by (simp add: eq_nat_nat_iff)
    then show "x = y" using mod_window [of "last_complete - int cg + 1" x "int cg" y] x y unfolding range by linarith
  qed
  moreover have "nat (g mod int cg) < length (replicate cg zero)" for g using assms(2) by (simp add: nat_less_iff)
  ultimately have f: "length r = cg" "\<forall>g \<in> set [first..last_complete]. r ! nat (g mod int cg) = saved ! nat (g mod int (length saved))"
      "\<forall>i. i \<notin> (\<lambda>g. nat (g mod int cg)) ` set [first..last_complete] \<longrightarrow> r ! i = replicate cg zero ! i"
    using fold_update [of "[first..last_complete]" "\<lambda>g. nat (g mod int cg)" "replicate cg zero" "\<lambda>g. saved ! nat (g mod int (length saved))"]
    by (simp_all add: r_def)
  show ?thesis unfolding run
  proof (intro conjI allI impI)
    show "length r = cg" by (rule f(1))
  next
    fix g assume "0 \<le> g \<and> last_complete - int (length saved) < g \<and> last_complete - int cg < g \<and> g \<le> last_complete"
    then show "r ! nat (g mod int cg) = saved ! nat (g mod int (length saved))" using f(2) range by blast
  next
    fix i assume i: "i < cg" "\<forall>g. 0 \<le> g \<and> last_complete - int (length saved) < g \<and> last_complete - int cg < g \<and> g \<le> last_complete \<longrightarrow> nat (g mod int cg) \<noteq> i"
    then have "i \<notin> (\<lambda>g. nat (g mod int cg)) ` set [first..last_complete]" using range by blast
    then show "r ! i = zero" using f(3) i(1) by simp
  qed
qed

theorem swa_records_restored_witness:
  "read_kvarn_swa_records 0 [10, 11, 12 :: nat] 2 700 ! 0 = 11 \<and> read_kvarn_swa_records 0 [10, 11, 12 :: nat] 2 700 ! 1 = 10"
proof -
  define r where "r = read_kvarn_swa_records 0 [10, 11, 12 :: nat] 2 700"
  have "\<forall>g. 0 \<le> g \<and> 4 - int (length [10, 11, 12 :: nat]) < g \<and> 4 - int 2 < g \<and> g \<le> 4 \<longrightarrow>
      r ! nat (g mod int 2) = [10, 11, 12] ! nat (g mod int (length [10, 11, 12 :: nat]))"
    unfolding r_def by (intro swa_records_restored [THEN conjunct2, THEN conjunct1]) simp_all
  from spec [OF this, of 4] spec [OF this, of 3] have "r ! 0 = 11" "r ! 1 = 10" by simp_all
  then show ?thesis by (simp add: r_def)
qed

section \<open>What a saved state holds\<close>

definition kvarn_staged :: "nat \<Rightarrow> nat \<Rightarrow> bool \<Rightarrow> nat \<Rightarrow> bool" where
  "kvarn_staged live tg swa g = ((\<not> swa \<and> g = 0) \<or> ((live - 1) div 128 - (tg - 1) \<le> g \<and> g \<le> (live - 1) div 128))"

text \<open>Which groups are staged: those of an explicit list, if there is one and the cache has no window, else the newest ones.\<close>

definition kvarn_stages :: "nat \<Rightarrow> nat \<Rightarrow> bool \<Rightarrow> nat list option \<Rightarrow> nat \<Rightarrow> bool" where
  "kvarn_stages live tg swa gs g = (if swa then kvarn_staged live tg swa g else case gs of Some l \<Rightarrow> g \<in> set l | None \<Rightarrow> kvarn_staged live tg swa g)"

definition kvarn_slot :: "nat \<Rightarrow> nat \<Rightarrow> bool \<Rightarrow> nat \<Rightarrow> nat" where
  "kvarn_slot sg tg swa g = (if swa then g mod sg else if g = 0 then 0 else 1 + (g - 1) mod tg)"

lemma mod_window_nat: "x mod n = y mod n \<Longrightarrow> a \<le> x \<Longrightarrow> x < a + n \<Longrightarrow> a \<le> y \<Longrightarrow> y < a + n \<Longrightarrow> x = y" for x :: nat
  using mod_window [of "int a" "int x" "int n" "int y"] by (simp flip: zmod_int)

lemma kvarn_slot_less: "0 < tg \<Longrightarrow> tg \<le> sg \<Longrightarrow> swa \<or> tg < sg \<Longrightarrow> kvarn_slot sg tg swa g < sg"
proof -
  assume a: "0 < tg" "tg \<le> sg" "swa \<or> tg < sg"
  have "g mod sg < sg" using a by simp
  moreover have "1 + (g - 1) mod tg < sg" if "tg < sg" using that mod_less_divisor [OF a(1), of "g - 1"] by linarith
  ultimately show ?thesis using a unfolding kvarn_slot_def by auto
qed

lemma kvarn_slot_inj:
  assumes "0 < tg" "tg \<le> sg" "kvarn_staged live tg swa g" "kvarn_staged live tg swa h" "kvarn_slot sg tg swa g = kvarn_slot sg tg swa h"
  shows "g = h"
proof -
  define b where "b = (live - 1) div 128 - (tg - 1)"
  have w: "b \<le> x \<and> x < b + tg" if "kvarn_staged live tg swa x" "swa \<or> x \<noteq> 0" for x
    using that assms(1) by (auto simp: kvarn_staged_def b_def)
  show ?thesis
  proof (cases swa)
    case True
    then show ?thesis using mod_window_nat [of g sg h b] w [of g] w [of h] assms by (auto simp: kvarn_slot_def)
  next
    case False
    show ?thesis
    proof (cases "g = 0 \<or> h = 0")
      case False
      have "(g - 1) mod tg = (h - 1) mod tg" using assms(5) False \<open>\<not> swa\<close> by (simp add: kvarn_slot_def)
      then have "g - 1 = h - 1" using w [OF assms(3)] w [OF assms(4)] False \<open>\<not> swa\<close>
        by (intro mod_window_nat [of "g - 1" tg "h - 1" "max b 1 - 1"]) (auto simp: max_def)
      then show ?thesis using False by auto
    qed (use assms(5) False in \<open>auto simp: kvarn_slot_def split: if_splits\<close>)
  qed
qed

lemma stage_row_inj:
  assumes "0 < tg" "tg \<le> sg" and slots: "swa \<or> gs = None \<or> inj_on (kvarn_slot sg tg swa) (set (the gs) \<inter> (\<lambda>c. c div 128) ` set cells)"
    and c: "c \<in> set cells" "kvarn_stages live tg swa gs (c div 128)" and d: "d \<in> set cells" "kvarn_stages live tg swa gs (d div 128)"
    and row: "kvarn_slot sg tg swa (c div 128) * 128 + c mod 128 = kvarn_slot sg tg swa (d div 128) * 128 + d mod 128"
  shows "c = d"
proof -
  have eq: "kvarn_slot sg tg swa (c div 128) = kvarn_slot sg tg swa (d div 128)" "c mod 128 = d mod 128"
    using arg_cong [OF row, of "\<lambda>x. x div 128"] arg_cong [OF row, of "\<lambda>x. x mod 128"] by simp_all
  have "c div 128 = d div 128"
  proof (cases "swa \<or> gs = None")
    case True
    then have "kvarn_staged live tg swa (c div 128)" "kvarn_staged live tg swa (d div 128)"
      using c(2) d(2) by (auto simp: kvarn_stages_def split: if_splits)
    then show ?thesis using kvarn_slot_inj [OF assms(1,2) _ _ eq(1), of live] by blast
  next
    case False
    then obtain l where l: "gs = Some l" "\<not> swa" by blast
    then have "c div 128 \<in> set l \<inter> (\<lambda>c. c div 128) ` set cells" "d div 128 \<in> set l \<inter> (\<lambda>c. c div 128) ` set cells"
      using c d by (auto simp: kvarn_stages_def)
    then show ?thesis using slots l eq(1) by (simp add: inj_on_eq_iff)
  qed
  then show ?thesis using eq(2) by (metis div_mult_mod_eq)
qed

lemma stage_cells_eq:
  assumes "0 < tg" "tg \<le> sg" "swa \<or> tg < sg" "sg * 128 \<le> 2 ^ 32" and "\<forall>c \<in> set cells. c < live"
  shows "fold_r (stage_cell_step live sg tg swa (map_option set gs)) cells acc =
    Inr (acc @ map (\<lambda>c. \<lparr>sg_source_cell = c, sg_stage_row = kvarn_slot sg tg swa (c div 128) * 128 + c mod 128\<rparr>)
      (filter (\<lambda>c. kvarn_stages live tg swa gs (c div 128)) cells))"
  using assms(5)
proof (induction cells arbitrary: acc)
  case (Cons c cells)
  have "kvarn_slot sg tg swa (c div 128) * 128 + c mod 128 < sg * 128"
    using kvarn_slot_less [OF assms(1-3), of "c div 128"] mod_less_divisor [of 128 c] by linarith
  then have u: "u32 (kvarn_slot sg tg swa (c div 128) * 128 + c mod 128) = kvarn_slot sg tg swa (c div 128) * 128 + c mod 128"
    using assms(4) by simp
  have b: "(if (live - 1) div 128 \<ge> tg - 1 then (live - 1) div 128 - (tg - 1) else 0) = (live - 1) div 128 - (tg - 1)" by simp
  have "stage_cell_step live sg tg swa (map_option set gs) c acc = Inr (if kvarn_stages live tg swa gs (c div 128)
      then acc @ [\<lparr>sg_source_cell = c, sg_stage_row = kvarn_slot sg tg swa (c div 128) * 128 + c mod 128\<rparr>] else acc)"
    using Cons.prems u unfolding stage_cell_step_def Let_def b kvarn_slot_def [symmetric] kvarn_stages_def kvarn_staged_def by (cases gs) auto
  then show ?case using Cons by simp
qed simp

lemma record_groups_eq:
  assumes "\<forall>c \<in> set cells. c div 128 < n"
  shows "fold_r (record_group_step staged n) cells acc = Inr (acc \<union> ((\<lambda>c. c div 128) ` set cells - staged))"
  using assms by (induction cells arbitrary: acc) (auto simp: record_group_step_def Let_def)

text \<open>The search by groups refuses to run when two groups in progress have the same stage slot, so after it every two of them differ in
  their slots: this is what an explicit list of staged groups relies on.\<close>

definition live_group :: "llama_kv_cache \<Rightarrow> nat \<Rightarrow> nat \<Rightarrow> bool" where
  "live_group kv s g \<longleftrightarrow> kv_seq_heads kv ! s mod kv_group_size kv \<noteq> 0 \<and> g = (kv_seq_heads kv ! s - 1) div kv_group_size kv \<and> g \<noteq> 0"

lemma stage_owners_distinct:
  assumes "stage_owners kv first_used = Inr owners" and "0 < kv_stage_groups kv" and "s < kv_n_seq_max kv" "t < kv_n_seq_max kv"
    and "live_group kv s g" "live_group kv t h" and "stage_slot (kv_stage_groups kv) g = stage_slot (kv_stage_groups kv) h"
  shows "g = h"
proof -
  define step where "step = (\<lambda>s owners. let head = kv_seq_heads kv ! s
       in if head = 0 \<or> head mod kv_group_size kv = 0 then Inr owners
          else let g = (head - 1) div kv_group_size kv; slot = stage_slot (kv_stage_groups kv) g
               in if g = 0 then Inr owners else if owners ! slot \<ge> 0 \<and> owners ! slot \<noteq> int g then Inl Runtime_error else Inr (owners[slot := int g]))"
  have slot: "stage_slot (kv_stage_groups kv) g < kv_stage_groups kv + 1" for g
    using mod_less_divisor [OF assms(2), of "g - 1"] assms(2) unfolding stage_slot_def by simp
  have st: "length os' = length os \<and> (\<forall>i v. 0 \<le> v \<and> os ! i = v \<longrightarrow> os' ! i = v) \<and>
      (\<forall>g. live_group kv s g \<longrightarrow> os' ! stage_slot (kv_stage_groups kv) g = int g)"
    if "step s os = Inr os'" "length os = kv_stage_groups kv + 1" for s os os'
    using that slot by (auto simp: step_def live_group_def Let_def nth_list_update split: if_splits)
  have "length os = kv_stage_groups kv + 1 \<and> (\<forall>s < k. \<forall>g. live_group kv s g \<longrightarrow> os ! stage_slot (kv_stage_groups kv) g = int g)"
    if "fold_r step [0..<k] os0 = Inr os" "length os0 = kv_stage_groups kv + 1" for k os0 os
    using that
  proof (induction k arbitrary: os)
    case (Suc k)
    then obtain os1 where o: "fold_r step [0..<k] os0 = Inr os1" "step k os1 = Inr os" by (auto simp: fold_r_append bind_r_Inr_iff)
    show ?case using Suc.IH [OF o(1) Suc.prems(2)] st [OF o(2)] by (auto simp: less_Suc_eq)
  qed simp
  from this [of "kv_n_seq_max kv"] have "\<forall>s < kv_n_seq_max kv. \<forall>g. live_group kv s g \<longrightarrow> owners ! stage_slot (kv_stage_groups kv) g = int g"
    using assms(1) unfolding stage_owners_def step_def [symmetric] by (metis length_list_update length_replicate)
  then show ?thesis using assms(3-7) by (metis of_nat_eq_iff)
qed

text \<open>C25: A saved state of structured storage holds every cell once (llama_kvarn_select_state_stage_cells,
  llama_kvarn_select_state_record_groups), with an explicit list of staged groups, as a cache without a window passes it, or
  without one: for a valid stage layout and distinct cells below the live extent, within the groups of the stream, each source
  cell is either saved as an exact stage row or its group is among the saved records, never both; every row lies
  within the stage and keeps the place of the cell in its group; the groups are listed once, in order, and hold a
  source cell each. Two cells never share a stage row when the groups are the newest ones of the stream, and for an
  explicit list when no two listed groups of source cells have the same stage slot, which the search by groups
  enforces for the groups in progress.\<close>

theorem saved_state_covers:
  assumes "2 \<le> sg" "0 < tg" "tg \<le> sg" "swa \<or> tg < sg" "sg * 128 \<le> 2 ^ 32" and "0 < live" "live \<le> n_groups * 128" and "\<forall>c \<in> set cells. c < live" "distinct cells"
  shows "\<exists>sc rg. llama_kvarn_select_state_stage_cells cells live sg tg swa gs = Inr sc \<and>
    llama_kvarn_select_state_record_groups cells sc n_groups = Inr rg \<and>
    (\<forall>c \<in> set cells. (c \<in> sg_source_cell ` set sc) \<noteq> (c div 128 \<in> set rg)) \<and>
    sg_source_cell ` set sc \<subseteq> set cells \<and>
    (swa \<or> gs = None \<or> inj_on (kvarn_slot sg tg swa) (set (the gs) \<inter> (\<lambda>c. c div 128) ` set cells) \<longrightarrow> distinct (map sg_stage_row sc)) \<and>
    (\<forall>s \<in> set sc. sg_stage_row s < sg * 128 \<and> sg_stage_row s mod 128 = sg_source_cell s mod 128) \<and>
    sorted rg \<and> distinct rg \<and> set rg \<subseteq> (\<lambda>c. c div 128) ` set cells"
proof -
  define row where "row c = kvarn_slot sg tg swa (c div 128) * 128 + c mod 128" for c
  define kept where "kept = filter (\<lambda>c. kvarn_stages live tg swa gs (c div 128)) cells"
  define sc where "sc = map (\<lambda>c. \<lparr>sg_source_cell = c, sg_stage_row = row c\<rparr>) kept"
  define staged where "staged = set (map (\<lambda>c. sg_source_cell c div 128) sc)"
  define rg where "rg = sorted_list_of_set ((\<lambda>c. c div 128) ` set cells - staged)"
  have s: "llama_kvarn_select_state_stage_cells cells live sg tg swa gs = Inr sc"
    using assms stage_cells_eq [OF assms(2-5,8), where acc = "[]" and gs = gs] by (auto simp: llama_kvarn_select_state_stage_cells_def sc_def kept_def row_def)
  have "\<forall>c \<in> set cells. c div 128 < n_groups" using assms(7,8) by (auto simp: div_less_iff_less_mult intro: less_le_trans)
  from record_groups_eq [OF this, of staged "{}"]
  have r: "llama_kvarn_select_state_record_groups cells sc n_groups = Inr rg"
    by (simp add: llama_kvarn_select_state_record_groups_def rg_def staged_def)
  have src: "sg_source_cell ` set sc = set kept" by (force simp: sc_def)
  have st: "staged = (\<lambda>c. c div 128) ` set kept" by (force simp: staged_def sc_def)
  have row: "row c div 128 = kvarn_slot sg tg swa (c div 128)" "row c mod 128 = c mod 128" for c by (simp_all add: row_def)
  have inj: "inj_on row (set kept)"
    if "swa \<or> gs = None \<or> inj_on (kvarn_slot sg tg swa) (set (the gs) \<inter> (\<lambda>c. c div 128) ` set cells)"
    by (rule inj_onI, rule stage_row_inj [OF assms(2,3) that]) (auto simp: kept_def row_def)
  have bound: "row c < sg * 128" for c
    using kvarn_slot_less [OF assms(2-4), of "c div 128"] mod_less_divisor [of 128 c] unfolding row_def by linarith
  have rows: "map sg_stage_row sc = map row kept" by (simp add: sc_def)
  have d: "swa \<or> gs = None \<or> inj_on (kvarn_slot sg tg swa) (set (the gs) \<inter> (\<lambda>c. c div 128) ` set cells) \<longrightarrow> distinct (map sg_stage_row sc)"
    unfolding rows distinct_map using inj assms(9) by (simp add: kept_def)
  have sr: "\<forall>s \<in> set sc. sg_stage_row s < sg * 128 \<and> sg_stage_row s mod 128 = sg_source_cell s mod 128" using bound row(2) by (auto simp: sc_def)
  have rg: "sorted rg" "distinct rg" "set rg \<subseteq> (\<lambda>c. c div 128) ` set cells" by (auto simp: rg_def)
  have sub: "sg_source_cell ` set sc \<subseteq> set cells" unfolding src by (auto simp: kept_def)
  have ex: "(c \<in> sg_source_cell ` set sc) \<noteq> (c div 128 \<in> set rg)" if "c \<in> set cells" for c
    unfolding src rg_def st using that by (auto simp: kept_def)
  show ?thesis
    by (intro exI [of _ sc] exI [of _ rg] conjI ballI) (rule s r ex d rg sub bspec [OF sr, THEN conjunct1] bspec [OF sr, THEN conjunct2] | assumption)+
qed

theorem saved_state_covers_witness:
  "\<exists>sc rg. llama_kvarn_select_state_stage_cells [0, 200, 520, 640] 641 3 2 False (Some [0, 4, 5]) = Inr sc \<and>
    llama_kvarn_select_state_record_groups [0, 200, 520, 640] sc 8 = Inr rg \<and> set rg \<subseteq> {0, 1, 4, 5} \<and> distinct (map sg_stage_row sc)"
proof -
  have p: "(2 :: nat) \<le> 3" "(0 :: nat) < 2" "(2 :: nat) \<le> 3" "False \<or> (2 :: nat) < 3" "(3 :: nat) * 128 \<le> 2 ^ 32" "(0 :: nat) < 641" "(641 :: nat) \<le> 8 * 128"
    "\<forall>c \<in> set [0, 200, 520, 640]. c < (641 :: nat)" "distinct [0, 200, 520, 640 :: nat]" by simp_all
  have slots: "inj_on (kvarn_slot 3 2 False) (set (the (Some [0, 4, 5])) \<inter> (\<lambda>c. c div 128) ` set [0, 200, 520, 640])"
    by (rule inj_on_subset [of _ "{0, 4, 5}"]) (auto simp: kvarn_slot_def)
  obtain sc rg where "llama_kvarn_select_state_stage_cells [0, 200, 520, 640] 641 3 2 False (Some [0, 4, 5]) = Inr sc"
      "llama_kvarn_select_state_record_groups [0, 200, 520, 640] sc 8 = Inr rg" "set rg \<subseteq> (\<lambda>c. c div 128) ` set [0, 200, 520, 640]"
      "distinct (map sg_stage_row sc)"
    using saved_state_covers [OF p, of "Some [0, 4, 5]"] slots by blast
  then show ?thesis by (intro exI [of _ sc] exI [of _ rg]) (simp add: subset_iff)
qed

section \<open>The read plan\<close>

fun first_seen :: "nat list \<Rightarrow> nat list \<Rightarrow> nat list" where
  "first_seen kept [] = kept"
| "first_seen kept (x # xs) = first_seen (if x \<in> set kept then kept else kept @ [x]) xs"

lemma compact_fold:
  "fold_r (compact_step capacity) xs kept = (if \<exists>x \<in> set xs. capacity \<le> x then Inl Invalid_argument else Inr (first_seen kept xs))"
  by (induction xs arbitrary: kept) (auto simp: compact_step_def)

lemma first_seen_set: "set (first_seen kept xs) = set kept \<union> set xs"
  by (induction xs arbitrary: kept) auto

lemma first_seen_distinct: "distinct kept \<Longrightarrow> distinct (first_seen kept xs)"
  by (induction xs arbitrary: kept) auto

lemma first_seen_prefix: "\<exists>r. first_seen kept xs = kept @ r"
proof (induction xs arbitrary: kept)
  case (Cons x xs)
  from Cons [of "if x \<in> set kept then kept else kept @ [x]"] show ?case by auto
qed simp

lemma first_seen_id: "distinct (kept @ xs) \<Longrightarrow> first_seen kept xs = kept @ xs"
  by (induction xs arbitrary: kept) auto

lemma first_seen_append: "first_seen kept (xs @ ys) = first_seen (first_seen kept xs) ys"
  by (induction xs arbitrary: kept) auto

lemma round_up:
  fixes n p :: nat
  assumes "0 < p"
  shows "n \<le> (n + p - 1) div p * p" "(n + p - 1) div p * p \<le> n + p - 1"
proof -
  have "(n + p - 1) div p * p + (n + p - 1) mod p = n + p - 1" "(n + p - 1) mod p < p" using assms by simp_all
  then show "n \<le> (n + p - 1) div p * p" "(n + p - 1) div p * p \<le> n + p - 1" using assms by linarith+
qed

lemma read_plan_exact:
  assumes "capacity + padding \<le> 2 ^ 32"
  shows "if capacity = 0 \<or> padding = 0 \<or> (\<exists>c \<in> set (occupied @ pending). capacity \<le> c)
    then llama_kvarn_compact_read_plan occupied pending capacity padding = Inl Invalid_argument
    else \<exists>cells k. llama_kvarn_compact_read_plan occupied pending capacity padding = Inr (map int cells @ replicate k (-1)) \<and>
      distinct cells \<and> set cells = set occupied \<union> set pending \<and> (distinct occupied \<longrightarrow> (\<exists>r. cells = occupied @ r)) \<and>
      length cells + k = min capacity (max padding ((length cells + padding - 1) div padding * padding))"
proof (cases "capacity = 0 \<or> padding = 0 \<or> (\<exists>c \<in> set (occupied @ pending). capacity \<le> c)")
  case True
  then show ?thesis by (auto simp: llama_kvarn_compact_read_plan_def compact_fold)
next
  case False
  define cells where "cells = first_seen [] (occupied @ pending)"
  have c: "distinct cells" "set cells = set occupied \<union> set pending" by (simp_all add: cells_def first_seen_distinct first_seen_set)
  have "set cells \<subseteq> {..<capacity}" using False c(2) by (auto simp: not_le)
  then have len: "length cells \<le> capacity" using distinct_card [OF c(1)] card_mono [of "{..<capacity}" "set cells"] by simp
  have pre: "\<exists>r. cells = occupied @ r" if "distinct occupied"
    using first_seen_prefix [of occupied pending] first_seen_id [of "[]" occupied] that by (simp add: cells_def first_seen_append)
  define n where "n = (length cells + padding - 1) div padding * padding"
  have n: "length cells \<le> n" "n \<le> length cells + padding - 1" using round_up [of padding "length cells"] False by (simp_all add: n_def)
  have u: "u32 (length cells) = length cells" "u32 (length cells + padding - 1) = length cells + padding - 1" "u32 n = n"
    using len n assms False by simp_all
  have "llama_kvarn_compact_read_plan occupied pending capacity padding =
      Inr (map int cells @ replicate (min capacity (max padding n) - length cells) (-1))"
    using False len u(1,2) u(3) [unfolded n_def] by (simp add: llama_kvarn_compact_read_plan_def compact_fold Let_def n_def flip: cells_def)
  moreover have "length cells + (min capacity (max padding n) - length cells) = min capacity (max padding ((length cells + padding - 1) div padding * padding))"
    using len n(1) by (simp add: n_def [symmetric] del: One_nat_def)
  ultimately have "\<exists>cells k. llama_kvarn_compact_read_plan occupied pending capacity padding = Inr (map int cells @ replicate k (-1)) \<and>
      distinct cells \<and> set cells = set occupied \<union> set pending \<and> (distinct occupied \<longrightarrow> (\<exists>r. cells = occupied @ r)) \<and>
      length cells + k = min capacity (max padding ((length cells + padding - 1) div padding * padding))"
    using c pre by blast
  then show ?thesis by (simp only: False if_False)
qed

text \<open>The read plan of a shared structured cache (llama_kvarn_compact_read_plan) lists every occupied and every pending cell
  exactly once, the occupied ones first and in their order, and fills the rest with -1 up to the next multiple of
  the padding, or to the capacity where that is less; it is refused exactly when the extent is empty or a cell lies
  outside the cache.\<close>

theorem compact_read_plan_exact:
  assumes "capacity + padding \<le> 2 ^ 32"
  shows "if capacity = 0 \<or> padding = 0 \<or> (\<exists>c \<in> set (occupied @ pending). capacity \<le> c)
    then llama_kvarn_compact_read_plan occupied pending capacity padding = Inl Invalid_argument
    else \<exists>cells k. llama_kvarn_compact_read_plan occupied pending capacity padding = Inr (map int cells @ replicate k (-1)) \<and>
      distinct cells \<and> set cells = set occupied \<union> set pending \<and> (distinct occupied \<longrightarrow> (\<exists>r. cells = occupied @ r)) \<and>
      length cells + k = min capacity (max padding ((length cells + padding - 1) div padding * padding))"
  by (rule read_plan_exact [OF assms])

theorem compact_read_plan_exact_witness:
  "\<exists>cells k. llama_kvarn_compact_read_plan [4, 0] [0, 2] 8 4 = Inr (map int cells @ replicate k (-1)) \<and> distinct cells \<and> set cells = {0, 2, 4} \<and>
    length cells + k = 4"
proof -
  have "(8 :: nat) + 4 \<le> 2 ^ 32" by simp
  from compact_read_plan_exact [OF this, of "[4, 0]" "[0, 2]"] obtain cells k where
    r: "llama_kvarn_compact_read_plan [4, 0] [0, 2] 8 4 = Inr (map int cells @ replicate k (-1))" "distinct cells" "set cells = {4, 0, 2}"
      "length cells + k = min 8 (max 4 ((length cells + 4 - 1) div 4 * 4))" by auto
  have "length cells = 3" using distinct_card [OF r(2)] r(3) by simp
  then show ?thesis using r by (intro exI [of _ cells] exI [of _ k]) auto
qed

section \<open>Types\<close>

lemma kvarn_table:
  "find (\<lambda>d. kd_type d = t) KVAR_N_TYPES = Some d \<Longrightarrow> d \<in> set KVAR_N_TYPES \<and> kd_type d = t"
  by (auto simp: find_Some_iff)

lemma kvarn_table_facts:
  "distinct (map kd_type KVAR_N_TYPES)" "distinct (map kd_name KVAR_N_TYPES)"
  by (simp_all add: KVAR_N_TYPES_def kvarn_desc_def)

lemma kvarn_table_bits:
  "list_all (\<lambda>d. kd_type d = LLAMA_KVARN_TYPE_DISABLED \<or> (kd_group d = 128 \<and> llama_kvarn_valid_bits (kd_key_bits d) \<and> llama_kvarn_valid_bits (kd_value_bits d))) KVAR_N_TYPES"
  by (simp add: KVAR_N_TYPES_def kvarn_desc_def llama_kvarn_valid_bits_def)

lemma kvarn_table_types: "kd_type ` set KVAR_N_TYPES = - {LLAMA_KVARN_TYPE_INVALID, LLAMA_KVARN_TYPE_COUNT}"
proof -
  have "map kd_type KVAR_N_TYPES =
    [
     LLAMA_KVARN_TYPE_DISABLED, LLAMA_KVARN_K2V2_G128, LLAMA_KVARN_K2V3_G128, LLAMA_KVARN_K2V4_G128,
     LLAMA_KVARN_K3V2_G128, LLAMA_KVARN_K3V3_G128, LLAMA_KVARN_K3V4_G128, LLAMA_KVARN_K4V2_G128,
     LLAMA_KVARN_K4V3_G128, LLAMA_KVARN_K4V4_G128, LLAMA_KVARN_K2V5_G128, LLAMA_KVARN_K2V6_G128,
     LLAMA_KVARN_K2V8_G128, LLAMA_KVARN_K3V5_G128, LLAMA_KVARN_K3V6_G128, LLAMA_KVARN_K3V8_G128,
     LLAMA_KVARN_K4V5_G128, LLAMA_KVARN_K4V6_G128, LLAMA_KVARN_K4V8_G128, LLAMA_KVARN_K5V2_G128,
     LLAMA_KVARN_K5V3_G128, LLAMA_KVARN_K5V4_G128, LLAMA_KVARN_K5V5_G128, LLAMA_KVARN_K5V6_G128,
     LLAMA_KVARN_K5V8_G128, LLAMA_KVARN_K6V2_G128, LLAMA_KVARN_K6V3_G128, LLAMA_KVARN_K6V4_G128,
     LLAMA_KVARN_K6V5_G128, LLAMA_KVARN_K6V6_G128, LLAMA_KVARN_K6V8_G128, LLAMA_KVARN_K8V2_G128,
     LLAMA_KVARN_K8V3_G128, LLAMA_KVARN_K8V4_G128, LLAMA_KVARN_K8V5_G128, LLAMA_KVARN_K8V6_G128,
     LLAMA_KVARN_K8V8_G128]"
    by (simp add: KVAR_N_TYPES_def kvarn_desc_def)
  then have l: "kd_type ` set KVAR_N_TYPES = set [
     LLAMA_KVARN_TYPE_DISABLED, LLAMA_KVARN_K2V2_G128, LLAMA_KVARN_K2V3_G128, LLAMA_KVARN_K2V4_G128,
     LLAMA_KVARN_K3V2_G128, LLAMA_KVARN_K3V3_G128, LLAMA_KVARN_K3V4_G128, LLAMA_KVARN_K4V2_G128,
     LLAMA_KVARN_K4V3_G128, LLAMA_KVARN_K4V4_G128, LLAMA_KVARN_K2V5_G128, LLAMA_KVARN_K2V6_G128,
     LLAMA_KVARN_K2V8_G128, LLAMA_KVARN_K3V5_G128, LLAMA_KVARN_K3V6_G128, LLAMA_KVARN_K3V8_G128,
     LLAMA_KVARN_K4V5_G128, LLAMA_KVARN_K4V6_G128, LLAMA_KVARN_K4V8_G128, LLAMA_KVARN_K5V2_G128,
     LLAMA_KVARN_K5V3_G128, LLAMA_KVARN_K5V4_G128, LLAMA_KVARN_K5V5_G128, LLAMA_KVARN_K5V6_G128,
     LLAMA_KVARN_K5V8_G128, LLAMA_KVARN_K6V2_G128, LLAMA_KVARN_K6V3_G128, LLAMA_KVARN_K6V4_G128,
     LLAMA_KVARN_K6V5_G128, LLAMA_KVARN_K6V6_G128, LLAMA_KVARN_K6V8_G128, LLAMA_KVARN_K8V2_G128,
     LLAMA_KVARN_K8V3_G128, LLAMA_KVARN_K8V4_G128, LLAMA_KVARN_K8V5_G128, LLAMA_KVARN_K8V6_G128,
     LLAMA_KVARN_K8V8_G128]"
    by (metis list.set_map)
  have "t \<in> kd_type ` set KVAR_N_TYPES \<longleftrightarrow> t \<noteq> LLAMA_KVARN_TYPE_INVALID \<and> t \<noteq> LLAMA_KVARN_TYPE_COUNT" for t
    unfolding l by (cases t) simp_all
  then show ?thesis by auto
qed

lemma find_key: "distinct (map f xs) \<Longrightarrow> x \<in> set xs \<Longrightarrow> find (\<lambda>y. f y = f x) xs = Some x"
  by (induction xs) (auto simp: image_iff)

text \<open>The names of the storage formats and their constants denote the same formats (llama_kvarn_type_name,
  llama_kvarn_type_from_name), and the parameters made for a type (llama_kvarn_params_for_type) are accepted by the validation
  exactly when the type is a format of the table and the attention path, the head dimensions and the backend
  support it; the disabled type is always accepted.\<close>

theorem kvarn_types_consistent:
  "(t \<noteq> LLAMA_KVARN_TYPE_INVALID \<longrightarrow> t \<noteq> LLAMA_KVARN_TYPE_COUNT \<longrightarrow> llama_kvarn_type_from_name (Some (llama_kvarn_type_name t)) = t) \<and>
   (llama_kvarn_type_from_name name \<noteq> LLAMA_KVARN_TYPE_INVALID \<longrightarrow> name = Some (llama_kvarn_type_name (llama_kvarn_type_from_name name))) \<and>
   (llama_kvarn_validate_runtime (llama_kvarn_params_for_type t) r = None \<longleftrightarrow>
     t = LLAMA_KVARN_TYPE_DISABLED \<or>
     (t \<noteq> LLAMA_KVARN_TYPE_INVALID \<and> t \<noteq> LLAMA_KVARN_TYPE_COUNT \<and> kr_attention_supported r \<and> kr_head_dims_supported r \<and> kr_backend_ops_supported r))"
proof (intro conjI impI)
  assume t: "t \<noteq> LLAMA_KVARN_TYPE_INVALID" "t \<noteq> LLAMA_KVARN_TYPE_COUNT"
  then have "t \<in> kd_type ` set KVAR_N_TYPES" by (simp add: kvarn_table_types)
  then obtain d where d: "d \<in> set KVAR_N_TYPES" "kd_type d = t" by blast
  then show "llama_kvarn_type_from_name (Some (llama_kvarn_type_name t)) = t"
    using find_key [OF kvarn_table_facts(1) d(1)] find_key [OF kvarn_table_facts(2) d(1)]
    by (simp add: llama_kvarn_type_from_name_def llama_kvarn_type_name_def llama_kvarn_type_desc_from_type_def llama_kvarn_type_desc_from_name_def)
next
  assume n: "llama_kvarn_type_from_name name \<noteq> LLAMA_KVARN_TYPE_INVALID"
  then obtain x d where x: "name = Some x" "find (\<lambda>d. kd_name d = x) KVAR_N_TYPES = Some d"
    by (auto simp: llama_kvarn_type_from_name_def llama_kvarn_type_desc_from_name_def split: option.splits)
  then have d: "d \<in> set KVAR_N_TYPES" "kd_name d = x" by (auto simp: find_Some_iff)
  show "name = Some (llama_kvarn_type_name (llama_kvarn_type_from_name name))"
    using x d find_key [OF kvarn_table_facts(1) d(1)]
    by (simp add: llama_kvarn_type_from_name_def llama_kvarn_type_name_def llama_kvarn_type_desc_from_type_def llama_kvarn_type_desc_from_name_def)
next
  show "llama_kvarn_validate_runtime (llama_kvarn_params_for_type t) r = None \<longleftrightarrow>
     t = LLAMA_KVARN_TYPE_DISABLED \<or>
     (t \<noteq> LLAMA_KVARN_TYPE_INVALID \<and> t \<noteq> LLAMA_KVARN_TYPE_COUNT \<and> kr_attention_supported r \<and> kr_head_dims_supported r \<and> kr_backend_ops_supported r)"
  proof (cases "llama_kvarn_type_desc_from_type t")
    case None
    then have "t \<notin> kd_type ` set KVAR_N_TYPES" by (auto simp: llama_kvarn_type_desc_from_type_def find_None_iff)
    then have "t = LLAMA_KVARN_TYPE_INVALID \<or> t = LLAMA_KVARN_TYPE_COUNT" by (simp add: kvarn_table_types)
    then show ?thesis using None
      by (auto simp: llama_kvarn_validate_runtime_def llama_kvarn_params_for_type_def llama_kvarn_default_params_def)
  next
    case (Some d)
    then have d: "d \<in> set KVAR_N_TYPES" "kd_type d = t" by (auto simp: llama_kvarn_type_desc_from_type_def dest: kvarn_table)
    then have v: "t = LLAMA_KVARN_TYPE_DISABLED \<or> (kd_group d = 128 \<and> llama_kvarn_valid_bits (kd_key_bits d) \<and> llama_kvarn_valid_bits (kd_value_bits d))"
      using kvarn_table_bits by (auto simp: list_all_iff)
    have "t \<in> kd_type ` set KVAR_N_TYPES" using d by blast
    then have "t \<noteq> LLAMA_KVARN_TYPE_INVALID" "t \<noteq> LLAMA_KVARN_TYPE_COUNT" by (simp_all add: kvarn_table_types)
    then show ?thesis using Some v d(2)
      by (auto simp: llama_kvarn_validate_runtime_def llama_kvarn_params_for_type_def llama_kvarn_default_params_def Let_def)
  qed
qed

theorem kvarn_types_consistent_witness:
  "llama_kvarn_type_from_name (Some (llama_kvarn_type_name LLAMA_KVARN_K4V2_G128)) = LLAMA_KVARN_K4V2_G128"
  using kvarn_types_consistent [of LLAMA_KVARN_K4V2_G128] by simp

end
