(* ===== verification/KvarnCache.thy ===== *)
theory KvarnCache
  imports Kvarn Hybrid
begin

text \<open>
  The structured cache, \<^verbatim>\<open>class llama_kv_cache_kvarn\<close> of \<^verbatim>\<open>src/llama-kv-cache-kvarn.cpp\<close>, and its context. The positions and
  sequences of its cells are those of an ordinary cache that owns no tensors, the metadata cache; the class itself
  owns the records and the stage of each stream and the rows of the exact tail, and copies them when a sequence is copied.
  The contents of these tensors are opaque: \<open>'p\<close> for the records and the stage of one stream, \<open>'r\<close> for one row of the tail,
  each for all layers together. Not modelled: tensor allocation, the graph operations that store and read, state
  files, statistics.
\<close>

section \<open>State\<close>

record ('p, 'r) llama_kv_cache_kvarn =
  kn_meta :: llama_kv_cache
  kn_n_stream :: nat
  kn_n_seq_max :: nat
  kn_swa :: bool
  kn_tail_groups :: nat
  kn_stage_groups :: nat
  kn_streams :: "'p list"
  kn_tail_rows :: "'r list option"
  kn_pending :: stream_copy_info

definition kvarn_uses_compact_read_indices :: "('p, 'r) llama_kv_cache_kvarn \<Rightarrow> bool" where
  "kvarn_uses_compact_read_indices m = (\<not> kn_swa m \<and> kn_n_stream m = 1 \<and> kn_n_seq_max m > 1)"

definition llama_kvarn_stream_is_exclusive_for :: "nat \<Rightarrow> nat \<Rightarrow> int \<Rightarrow> (int \<Rightarrow> int res) \<Rightarrow> bool res" where
  "llama_kvarn_stream_is_exclusive_for n_stream n_seq_max seq_id pos_max =
     (if n_stream = 0 \<or> seq_id < 0 \<or> nat seq_id \<ge> n_seq_max then Inr False
      else if n_stream > 1 then Inr True
      else forall_r (\<lambda>other. if other \<noteq> nat seq_id then bind_r (pos_max (int other)) (\<lambda>p. Inr (\<not> p \<ge> 0)) else Inr True) [0..<n_seq_max])"

definition kvarn_stream_is_exclusive_for :: "('p, 'r) llama_kv_cache_kvarn \<Rightarrow> int \<Rightarrow> bool res" where
  "kvarn_stream_is_exclusive_for m seq_id =
     llama_kvarn_stream_is_exclusive_for (kn_n_stream m) (kn_n_seq_max m) seq_id (kv_seq_pos_max (kn_meta m))"

section \<open>Pending copies\<close>

definition take_pending_tail_copies :: "llama_kv_cache \<Rightarrow> stream_copy_info \<times> llama_kv_cache" where
  "take_pending_tail_copies kv =
     (sc_none\<lparr>sc_tail_src := sc_tail_src (kv_sc_info kv), sc_tail_dst := sc_tail_dst (kv_sc_info kv),
        sc_tail_transaction := sc_tail_transaction (kv_sc_info kv)\<rparr>,
      kv\<lparr>kv_sc_info := (kv_sc_info kv)\<lparr>sc_tail_src := [], sc_tail_dst := [], sc_tail_transaction := False\<rparr>\<rparr>)"

definition kvarn_has_pending_stream_copies :: "('p, 'r) llama_kv_cache_kvarn \<Rightarrow> bool res" where
  "kvarn_has_pending_stream_copies m = bind_r (sc_empty (kn_pending m)) (\<lambda>e. Inr (\<not> e))"

definition copy_kvarn_stream :: "nat \<Rightarrow> nat \<times> nat \<Rightarrow> 'p list \<Rightarrow> 'p list res" where
  "copy_kvarn_stream n_stream = (\<lambda>(src, dst) streams.
     assert_r (src < n_stream) (assert_r (dst < n_stream) (assert_r (src \<noteq> dst) (Inr (streams[dst := streams ! src])))))"

text \<open>All rows are read before the first is written.\<close>

definition copy_tail_rows :: "int list \<Rightarrow> int list \<Rightarrow> 'r list \<Rightarrow> 'r list res" where
  "copy_tail_rows src dst rows =
     assert_r (list_all (\<lambda>s. 0 \<le> s \<and> s < int (length rows)) src)
       (fold_r (\<lambda>(s, d) t. assert_r (0 \<le> d \<and> d < int (length rows)) (Inr (t[nat d := rows ! nat s]))) (zip src dst) rows)"

definition kvarn_apply_pending_stream_copies :: "('p, 'r) llama_kv_cache_kvarn \<Rightarrow> ('p, 'r) llama_kv_cache_kvarn res" where
  "kvarn_apply_pending_stream_copies m =
     bind_r (sc_empty (kn_pending m)) (\<lambda>e.
       if e then Inr m
       else
         let sc = kn_pending m
         in assert_r (length (sc_ssrc sc) = length (sc_sdst sc))
           (bind_r (fold_r (copy_kvarn_stream (kn_n_stream m)) (zip (sc_ssrc sc) (sc_sdst sc)) (kn_streams m)) (\<lambda>streams.
            assert_r (length (sc_tail_src sc) = length (sc_tail_dst sc))
             (bind_r (case kn_tail_rows m of None \<Rightarrow> Inr None
                | Some rows \<Rightarrow> if sc_tail_src sc = [] then Inr (Some rows)
                    else bind_r (copy_tail_rows (sc_tail_src sc) (sc_tail_dst sc) rows) (\<lambda>r. Inr (Some r))) (\<lambda>rows.
              bind_r (if sc_tail_transaction sc then with_tail commit_seq_cp (kn_meta m) else Inr (kn_meta m)) (\<lambda>kv.
                Inr (m\<lparr>kn_meta := kv, kn_streams := streams, kn_tail_rows := rows, kn_pending := sc_none\<rparr>)))))))"

section \<open>Edits of sequences\<close>

definition kvarn_clear :: "'p \<Rightarrow> 'r \<Rightarrow> bool \<Rightarrow> ('p, 'r) llama_kv_cache_kvarn \<Rightarrow> ('p, 'r) llama_kv_cache_kvarn res" where
  "kvarn_clear zero_p zero_r data m =
     bind_r (kv_clear (kn_meta m)) (\<lambda>kv.
       let m = m\<lparr>kn_pending := sc_none, kn_meta := kv\<rparr>
       in Inr (if data then m\<lparr>kn_streams := map (\<lambda>_. zero_p) (kn_streams m), kn_tail_rows := map_option (map (\<lambda>_. zero_r)) (kn_tail_rows m)\<rparr>
               else m))"

definition kvarn_get_can_shift :: "('p, 'r) llama_kv_cache_kvarn \<Rightarrow> bool" where
  "kvarn_get_can_shift m = False"

definition kvarn_get_seq_rm_capability :: "('p, 'r) llama_kv_cache_kvarn \<Rightarrow> seq_rm_capability" where
  "kvarn_get_seq_rm_capability m = kv_get_seq_rm_capability (kn_meta m)"

definition kvarn_can_remove :: "('p, 'r) llama_kv_cache_kvarn \<Rightarrow> int \<Rightarrow> int \<Rightarrow> int \<Rightarrow> bool res" where
  "kvarn_can_remove m seq_id p0 p1 =
     (if seq_id < 0 then Inr (p0 \<le> 0 \<and> p1 < 0)
      else bind_r (kv_can_seq_rm (kn_meta m) seq_id p0 p1) (\<lambda>ok.
        if \<not> ok then Inr False
        else bind_r (kv_seq_pos_max (kn_meta m) seq_id) (\<lambda>pos_max.
          if llama_kvarn_can_remove_range pos_max p0 p1 KVAR_N_GROUP then Inr True
          else if p0 \<le> 0 \<or> p1 \<ge> 0 then Inr False
          else bind_r (kvarn_stream_is_exclusive_for m seq_id) (\<lambda>owned.
            Inr (llama_kvarn_plan_remove_range pos_max p0 p1 KVAR_N_GROUP owned = Some (p0, p1))))))"

definition kvarn_can_seq_rm :: "('p, 'r) llama_kv_cache_kvarn \<Rightarrow> int \<Rightarrow> int \<Rightarrow> int \<Rightarrow> bool res" where
  "kvarn_can_seq_rm = kvarn_can_remove"

definition kvarn_seq_rm_plan :: "('p, 'r) llama_kv_cache_kvarn \<Rightarrow> int \<Rightarrow> int \<Rightarrow> int \<Rightarrow> (int \<times> int) option res" where
  "kvarn_seq_rm_plan m seq_id p0 p1 =
     (if seq_id < 0 then Inr (if p0 > 0 \<or> p1 \<ge> 0 then None else Some (p0, p1))
      else if nat seq_id \<ge> kn_n_seq_max m then Inr None
      else bind_r (kv_seq_pos_max (kn_meta m) seq_id) (\<lambda>pos_max.
        if llama_kvarn_can_remove_range pos_max p0 p1 KVAR_N_GROUP
        then bind_r (kv_can_seq_rm (kn_meta m) seq_id p0 p1) (\<lambda>ok. Inr (if \<not> ok then None else Some (p0, p1)))
        else if p0 \<le> 0 \<or> p1 \<ge> 0 then Inr None
        else bind_r (kvarn_stream_is_exclusive_for m seq_id) (\<lambda>owned.
          case llama_kvarn_plan_remove_range pos_max p0 p1 KVAR_N_GROUP owned of
            None \<Rightarrow> Inr None
          | Some (q0, q1) \<Rightarrow> bind_r (kv_can_seq_rm (kn_meta m) seq_id q0 q1) (\<lambda>ok. Inr (if ok then Some (q0, q1) else None)))))"

definition kvarn_seq_rm :: "int \<Rightarrow> int \<Rightarrow> int \<Rightarrow> ('p, 'r) llama_kv_cache_kvarn \<Rightarrow> (bool \<times> ('p, 'r) llama_kv_cache_kvarn) res" where
  "kvarn_seq_rm seq_id p0 p1 m =
     bind_r (kvarn_apply_pending_stream_copies m) (\<lambda>m.
     bind_r (kvarn_can_seq_rm m seq_id p0 p1) (\<lambda>ok.
       if \<not> ok then Inr (False, m)
       else bind_r (kv_seq_rm seq_id p0 p1 (kn_meta m)) (\<lambda>(ok, kv). Inr (ok, m\<lparr>kn_meta := kv\<rparr>))))"

definition kvarn_seq_rm_cell :: "int \<Rightarrow> nat \<Rightarrow> ('p, 'r) llama_kv_cache_kvarn \<Rightarrow> (bool \<times> ('p, 'r) llama_kv_cache_kvarn) res" where
  "kvarn_seq_rm_cell seq_id cell_idx m =
     bind_r (kvarn_apply_pending_stream_copies m) (\<lambda>m.
       let rm = bind_r (kv_seq_rm_cell seq_id cell_idx (kn_meta m)) (\<lambda>(ok, kv). Inr (ok, m\<lparr>kn_meta := kv\<rparr>))
       in if kn_swa m then rm
          else bind_r (kv_seq_pos_max (kn_meta m) seq_id) (\<lambda>pos_max.
            if pos_max \<ge> 0 \<and> int cell_idx < max 0 (pos_max div int KVAR_N_GROUP - 1) * int KVAR_N_GROUP then Inr (False, m) else rm))"

definition kvarn_cells_at_pos :: "('p, 'r) llama_kv_cache_kvarn \<Rightarrow> int \<Rightarrow> int \<Rightarrow> nat \<Rightarrow> (nat \<times> nat list) res" where
  "kvarn_cells_at_pos m seq_id pos n_max = kv_cells_at_pos (kn_meta m) seq_id pos n_max"

definition get_stream_for_seq :: "llama_kv_cache \<Rightarrow> int \<Rightarrow> nat res" where
  "get_stream_for_seq kv seq_id =
     assert_r (seq_id \<ge> 0 \<and> nat seq_id < length (kv_seq_to_stream kv)) (Inr (kv_seq_to_stream kv ! nat seq_id))"

definition kvarn_seq_cp :: "int \<Rightarrow> int \<Rightarrow> int \<Rightarrow> int \<Rightarrow> ('p, 'r) llama_kv_cache_kvarn \<Rightarrow> ('p, 'r) llama_kv_cache_kvarn res" where
  "kvarn_seq_cp src dst p0 p1 m =
     bind_r (kvarn_apply_pending_stream_copies m) (\<lambda>m.
     bind_r (get_stream_for_seq (kn_meta m) src) (\<lambda>s0.
     bind_r (get_stream_for_seq (kn_meta m) dst) (\<lambda>s1.
     bind_r (if s0 \<noteq> s1
        then bind_r (kv_get_size (kn_meta m)) (\<lambda>n. assert_r (cp_is_full n p0 p1)
          (Inr (m\<lparr>kn_pending := (kn_pending m)\<lparr>sc_ssrc := sc_ssrc (kn_pending m) @ [s0], sc_sdst := sc_sdst (kn_pending m) @ [s1]\<rparr>\<rparr>)))
        else Inr m) (\<lambda>m.
     bind_r (kv_seq_cp src dst p0 p1 (kn_meta m)) (\<lambda>kv.
       let (tail_copies, kv) = take_pending_tail_copies kv; sc = kn_pending m
       in Inr (m\<lparr>kn_meta := kv, kn_pending := sc\<lparr>sc_tail_src := sc_tail_src sc @ sc_tail_src tail_copies,
            sc_tail_dst := sc_tail_dst sc @ sc_tail_dst tail_copies,
            sc_tail_transaction := (sc_tail_transaction sc \<or> sc_tail_transaction tail_copies)\<rparr>\<rparr>))))))"

definition kvarn_seq_keep :: "int \<Rightarrow> ('p, 'r) llama_kv_cache_kvarn \<Rightarrow> ('p, 'r) llama_kv_cache_kvarn res" where
  "kvarn_seq_keep seq_id m =
     bind_r (kvarn_apply_pending_stream_copies m) (\<lambda>m. bind_r (kv_seq_keep seq_id (kn_meta m)) (\<lambda>kv. Inr (m\<lparr>kn_meta := kv\<rparr>)))"

definition kvarn_seq_add :: "int \<Rightarrow> int \<Rightarrow> int \<Rightarrow> int \<Rightarrow> ('p, 'r) llama_kv_cache_kvarn \<Rightarrow> ('p, 'r) llama_kv_cache_kvarn res" where
  "kvarn_seq_add seq_id p0 p1 shift m = Inl Assert_fail"

definition kvarn_seq_div :: "int \<Rightarrow> int \<Rightarrow> int \<Rightarrow> int \<Rightarrow> ('p, 'r) llama_kv_cache_kvarn \<Rightarrow> ('p, 'r) llama_kv_cache_kvarn res" where
  "kvarn_seq_div seq_id p0 p1 d m = Inl Assert_fail"

definition kvarn_seq_pos_min :: "('p, 'r) llama_kv_cache_kvarn \<Rightarrow> int \<Rightarrow> int res" where
  "kvarn_seq_pos_min m seq_id = kv_seq_pos_min (kn_meta m) seq_id"

definition kvarn_seq_pos_max :: "('p, 'r) llama_kv_cache_kvarn \<Rightarrow> int \<Rightarrow> int res" where
  "kvarn_seq_pos_max m seq_id = kv_seq_pos_max (kn_meta m) seq_id"

section \<open>What a caller may save\<close>

text \<open>The two flags of \<^verbatim>\<open>llama_state_seq_flags\<close> that matter here are given as Booleans.\<close>

definition kvarn_state_seq_can_save :: "bool \<Rightarrow> bool \<Rightarrow> ('p, 'r) llama_kv_cache_kvarn \<Rightarrow> int \<Rightarrow> bool res" where
  "kvarn_state_seq_can_save partial_only self_contained m seq_id =
     (if seq_id < 0 then Inr False
      else
        let selective = (partial_only \<or> self_contained)
        in bind_r (if kn_swa m \<and> self_contained then kvarn_stream_is_exclusive_for m seq_id else Inr True) (\<lambda>ok.
          if \<not> ok then Inr False
          else bind_r (kvarn_has_pending_stream_copies m) (\<lambda>pending.
            if pending then Inr False else if selective then Inr True else kvarn_stream_is_exclusive_for m seq_id)))"

section \<open>The context\<close>

record llama_kv_cache_kvarn_context =
  kq_base :: llama_kv_cache_context
  kq_update :: bool
  kq_plan_cache :: "int list"

definition kvarn_context :: "llama_kv_cache_context \<Rightarrow> bool \<Rightarrow> llama_kv_cache_kvarn_context" where
  "kvarn_context base update = \<lparr>kq_base = base, kq_update = update, kq_plan_cache = []\<rparr>"

definition kvarn_init_batch ::
    "nat \<Rightarrow> nat \<Rightarrow> llama_batch_allocr \<Rightarrow> ('p, 'r) llama_kv_cache_kvarn \<Rightarrow>
     (llama_kv_cache_kvarn_context \<times> llama_batch_allocr \<times> ('p, 'r) llama_kv_cache_kvarn) option res" where
  "kvarn_init_batch fuel n_ubatch a m = bind_r (kv_init_batch fuel n_ubatch a (kn_meta m)) (\<lambda>r.
     Inr (map_option (\<lambda>(c, a, kv). (kvarn_context c False, a, m\<lparr>kn_meta := kv\<rparr>)) r))"

definition kvarn_init_full :: "('p, 'r) llama_kv_cache_kvarn \<Rightarrow> llama_kv_cache_kvarn_context res" where
  "kvarn_init_full m = bind_r (kv_init_full (kn_meta m)) (\<lambda>c. Inr (kvarn_context c False))"

definition kvarn_init_update :: "('p, 'r) llama_kv_cache_kvarn \<Rightarrow> (llama_kv_cache_kvarn_context \<times> ('p, 'r) llama_kv_cache_kvarn) res" where
  "kvarn_init_update m = bind_r (kv_init_update (kn_meta m)) (\<lambda>(c, kv). Inr (kvarn_context c True, m\<lparr>kn_meta := kv\<rparr>))"

definition kvarn_init_kv_batch ::
    "llama_ubatch list \<Rightarrow> ('p, 'r) llama_kv_cache_kvarn \<Rightarrow> (llama_kv_cache_kvarn_context \<times> ('p, 'r) llama_kv_cache_kvarn) res" where
  "kvarn_init_kv_batch ubs m = bind_r (kv_init_kv_batch ubs (kn_meta m)) (\<lambda>(c, kv). Inr (kvarn_context c False, m\<lparr>kn_meta := kv\<rparr>))"

definition kvarn_context_status :: "llama_kv_cache_kvarn_context \<Rightarrow> ('p, 'r) llama_kv_cache_kvarn \<Rightarrow> llama_memory_status res" where
  "kvarn_context_status ctx m =
     (if kx_status (kq_base ctx) = LLAMA_MEMORY_STATUS_NO_UPDATE
      then bind_r (kvarn_has_pending_stream_copies m) (\<lambda>p. Inr (if p then LLAMA_MEMORY_STATUS_SUCCESS else LLAMA_MEMORY_STATUS_NO_UPDATE))
      else Inr (kx_status (kq_base ctx)))"

definition kvarn_context_next :: "llama_kv_cache_kvarn_context \<Rightarrow> (bool \<times> llama_kv_cache_kvarn_context) res" where
  "kvarn_context_next ctx = bind_r (context_next (kq_base ctx)) (\<lambda>(more, c). Inr (more, ctx\<lparr>kq_base := c\<rparr>))"

definition kvarn_context_apply ::
    "graph_env \<Rightarrow> nat \<Rightarrow> llama_kv_cache_kvarn_context \<Rightarrow> ('p, 'r) llama_kv_cache_kvarn \<Rightarrow>
     (bool \<times> llama_kv_cache_kvarn_context \<times> ('p, 'r) llama_kv_cache_kvarn) res" where
  "kvarn_context_apply env n_pad ctx m =
     bind_r (context_apply env n_pad (kq_base ctx) (kn_meta m)) (\<lambda>(ok, c, kv).
       let ctx = ctx\<lparr>kq_base := c\<rparr>; m = m\<lparr>kn_meta := kv\<rparr>
       in if \<not> ok then Inr (False, ctx, m)
          else if \<not> kq_update ctx then Inr (True, ctx, m)
          else bind_r (kvarn_apply_pending_stream_copies m) (\<lambda>m. Inr (True, ctx, m)))"

definition kvarn_compute_start :: "llama_kv_cache_kvarn_context \<Rightarrow> llama_kv_cache_kvarn_context" where
  "kvarn_compute_start ctx = ctx\<lparr>kq_base := context_compute_start (kq_base ctx)\<rparr>"

definition kvarn_compute_finish ::
    "bool \<Rightarrow> llama_kv_cache_kvarn_context \<Rightarrow> ('p, 'r) llama_kv_cache_kvarn \<Rightarrow>
     (llama_kv_cache_kvarn_context \<times> ('p, 'r) llama_kv_cache_kvarn) res" where
  "kvarn_compute_finish success ctx m =
     bind_r (context_compute_finish success (kq_base ctx) (kn_meta m)) (\<lambda>(c, kv). Inr (ctx\<lparr>kq_base := c\<rparr>, m\<lparr>kn_meta := kv\<rparr>))"

section \<open>What a graph reads\<close>

definition context_current_sinfo :: "llama_kv_cache_context \<Rightarrow> slot_info res" where
  "context_current_sinfo c =
     assert_r (kx_status c = LLAMA_MEMORY_STATUS_SUCCESS) (assert_r (kx_i_cur c < length (kx_sinfos c)) (Inr (kx_sinfos c ! kx_i_cur c)))"

text \<open>The occupied cells in the order of their positions, and of their indices among equal positions.\<close>

definition occupied_cells :: "llama_kv_cells \<Rightarrow> nat \<Rightarrow> nat list res" where
  "occupied_cells c scan_end =
     bind_r (fold_r (\<lambda>cell ordered.
         bind_r (kv_cells_is_empty c cell) (\<lambda>e.
           if e then Inr ordered else bind_r (kv_cells_pos_get c cell) (\<lambda>p. Inr (ordered @ [(p, cell)]))))
       [0..<scan_end] []) (\<lambda>ordered. Inr (map snd (sort_key fst ordered)))"

definition kvarn_compact_read_plan ::
    "llama_kv_cache_kvarn_context \<Rightarrow> ('p, 'r) llama_kv_cache_kvarn \<Rightarrow> (int list \<times> llama_kv_cache_kvarn_context) res" where
  "kvarn_compact_read_plan ctx m =
     assert_r (kvarn_uses_compact_read_indices m)
      (if kq_plan_cache ctx \<noteq> [] then Inr (kq_plan_cache ctx, ctx)
       else if kv_cells (kn_meta m) = [] then Inl Undefined
       else bind_r (context_current_sinfo (kq_base ctx)) (\<lambda>si.
         let c = kv_cells (kn_meta m) ! 0
         in assert_r (si_idxs si = [] \<or> length (si_strm si) = 1)
          (let idxs = (if si_idxs si = [] then [] else si_idxs si ! 0);
               scan_end = fold (\<lambda>cell e. max e (u32 (cell + 1))) idxs (min (kv_cells_size c) (kx_n_kv (kq_base ctx)))
           in bind_r (occupied_cells c scan_end) (\<lambda>occupied.
              bind_r (llama_kvarn_compact_read_plan occupied idxs (kv_cells_size c) 256) (\<lambda>plan.
                Inr (plan, ctx\<lparr>kq_plan_cache := plan\<rparr>))))))"

definition kvarn_get_n_kv ::
    "llama_kv_cache_kvarn_context \<Rightarrow> ('p, 'r) llama_kv_cache_kvarn \<Rightarrow> (nat \<times> llama_kv_cache_kvarn_context) res" where
  "kvarn_get_n_kv ctx m =
     (if kvarn_uses_compact_read_indices m
      then bind_r (kvarn_compact_read_plan ctx m) (\<lambda>(plan, ctx). Inr (u32 (length plan), ctx))
      else Inr (kx_n_kv (kq_base ctx), ctx))"

definition allocation_cell_uses_stage :: "llama_kv_cache \<Rightarrow> nat \<Rightarrow> bool res" where
  "allocation_cell_uses_stage kv cell =
     (if kv_group_size kv \<le> 1 \<or> kv_n_stream kv \<noteq> 1 then Inr False
      else bind_r (kv_get_size kv) (\<lambda>n.
        Inr (if cell \<ge> n then False
             else if cell div kv_group_size kv = 0 then True
             else list_ex (\<lambda>head. head \<noteq> 0 \<and> head mod kv_group_size kv \<noteq> 0 \<and> (head - 1) div kv_group_size kv = cell div kv_group_size kv)
               (kv_seq_heads kv))))"

text \<open>The indices of the compact reads: a cell that is still in the stage is encoded below the padding value.\<close>

definition kvarn_set_input_read_idxs ::
    "llama_kv_cache_kvarn_context \<Rightarrow> ('p, 'r) llama_kv_cache_kvarn \<Rightarrow> nat \<Rightarrow> (int list \<times> llama_kv_cache_kvarn_context) res" where
  "kvarn_set_input_read_idxs ctx m n_dst =
     bind_r (kvarn_compact_read_plan ctx m) (\<lambda>(plan, ctx).
       assert_r (length plan = n_dst)
        (bind_r (map_r (\<lambda>cell.
             if cell < 0 then Inr cell
             else bind_r (allocation_cell_uses_stage (kn_meta m) (u32 (nat cell))) (\<lambda>stage.
               Inr (if stage then llama_kvarn_encode_stage_cell (u32 (nat cell)) else cell))) plan) (\<lambda>data. Inr (data, ctx))))"

text \<open>The indices of a window cache are absolute positions: those of the cells, then those of the pending micro-batch.\<close>

definition kvarn_set_input_ring_idxs :: "llama_kv_cache_kvarn_context \<Rightarrow> ('p, 'r) llama_kv_cache_kvarn \<Rightarrow> llama_ubatch option \<Rightarrow> nat \<Rightarrow> int list res" where
  "kvarn_set_input_ring_idxs ctx m ub n_kv =
     (if kv_cells (kn_meta m) = [] then Inl Undefined
      else bind_r (map_r (\<lambda>cell. bind_r (kv_cells_is_empty (kv_cells (kn_meta m) ! 0) cell) (\<lambda>e.
          if e then Inr (-1) else kv_cells_pos_get (kv_cells (kn_meta m) ! 0) cell)) [0..<n_kv]) (\<lambda>data.
        case ub of None \<Rightarrow> Inr data
        | Some ub \<Rightarrow> bind_r (context_current_sinfo (kq_base ctx)) (\<lambda>si.
            if si_idxs si = [] then Inr data
            else assert_r (length (si_strm si) = 1)
              (bind_r (slot_size si) (\<lambda>n. assert_r (ub_n_tokens ub = n * length (si_strm si))
                (fold_r (\<lambda>i data. assert_r (si_idxs si ! 0 ! i < n_kv) (Inr (data[si_idxs si ! 0 ! i := ub_pos ub ! i]))) [0..<n] data))))))"

definition kvarn_set_input_idxs :: "llama_kv_cache_kvarn_context \<Rightarrow> ('p, 'r) llama_kv_cache_kvarn \<Rightarrow> llama_ubatch \<Rightarrow> int list res" where
  "kvarn_set_input_idxs ctx m ub =
     (if kn_swa m then Inr (map (\<lambda>i. ub_pos ub ! i) [0..<ub_n_tokens ub])
      else bind_r (context_current_sinfo (kq_base ctx)) (\<lambda>si. bind_r (set_input_k_idxs (kn_meta m) ub si) (\<lambda>ix. Inr (map int ix))))"

definition kvarn_set_input_kq_mask ::
    "bool \<Rightarrow> llama_kv_cache_kvarn_context \<Rightarrow> ('p, 'r) llama_kv_cache_kvarn \<Rightarrow> llama_ubatch \<Rightarrow> bool \<Rightarrow> nat \<Rightarrow> nat \<Rightarrow> mask_value list list \<Rightarrow>
     (mask_value list list \<times> llama_kv_cache_kvarn_context) res" where
  "kvarn_set_input_kq_mask use_alibi ctx m ub causal_attn n_kv n_stream data =
     (if kvarn_uses_compact_read_indices m
      then bind_r (kvarn_compact_read_plan ctx m) (\<lambda>(plan, ctx).
        bind_r (set_input_kq_mask_mapped use_alibi (kn_meta m) ub causal_attn n_kv n_stream plan data) (\<lambda>out. Inr (out, ctx)))
      else bind_r (set_input_kq_mask use_alibi (kn_meta m) ub causal_attn n_kv n_stream data) (\<lambda>out. Inr (out, ctx)))"

end
