(* ===== verification/KvarnCacheProps.thy ===== *)
theory KvarnCacheProps
  imports KvarnProps KvarnCache DecodeProps
begin

text \<open>
  What the structured cache promises: a removal it plans can be done and leaves only rows it can restore, the first
  read plan of a context lists what the graph has to read, and copies that wait are done before the next edit. The plan
  is not renewed for later micro-batches.
\<close>

section \<open>Removal\<close>

lemma plan_range_cases:
  assumes "llama_kvarn_plan_remove_range pm p0 p1 128 owned = Some (q0, q1)"
  shows "(llama_kvarn_can_remove_range pm p0 p1 128 \<and> q0 = p0 \<and> q1 = p1) \<or> (owned \<and> 0 < p0 \<and> p1 < 0 \<and> q0 = p0 div 128 * 128 \<and> q1 = -1)"
proof (cases "llama_kvarn_can_remove_range pm p0 p1 128")
  case False
  then have "owned" "0 < p0" "p1 < 0" "q0 = p0 sdiv 128 * 128" "q1 = -1" using assms by (simp_all add: llama_kvarn_plan_remove_range_def split: if_splits)
  then show ?thesis by (simp add: sdiv_nonneg)
qed (use assms in \<open>simp add: llama_kvarn_plan_remove_range_def\<close>)

lemma kept_exact:
  assumes "llama_kvarn_can_remove_range pm p0 p1 128"
  shows "pm < 0 \<or> p0 \<le> 0 \<or> pm div 128 - 1 \<le> p0 div 128"
proof -
  have "pm div 128 - 1 \<le> p0 div 128" if "max 0 (pm div 128 - 1) * 128 \<le> max p0 0" "0 < p0"
  proof -
    have "(pm div 128 - 1) * 128 \<le> max 0 (pm div 128 - 1) * 128" by (intro mult_right_mono) simp_all
    then have "(pm div 128 - 1) * 128 \<le> p0" using that by linarith
    then show ?thesis by (simp add: zdiv_mono1 [of "(pm div 128 - 1) * 128" p0 128, simplified])
  qed
  then show ?thesis using assms by (auto simp: llama_kvarn_can_remove_range_def Let_def split: if_splits)
qed

text \<open>C24: A removal the structured cache plans (llama_kv_cache_kvarn::seq_rm_plan, can_seq_rm, seq_rm) is one it can do: the planned
  range is the one asked for, or starts at the group boundary before it; the cache then answers that it can remove the
  planned range, the removal completes with true and acts on the cells as specified, leaving the stored records as they
  are; and it keeps no partial group that is only stored quantised: what remains ends at a group boundary or within the
  newest two groups. The sequence is one of the cache (not -1), no stream copies are pending (seq_rm would run them first), and the
  greatest position of the sequence is below the greatest 32-bit integer.\<close>

theorem kvarn_plan_executable:
  assumes "kvarn_seq_rm_plan m s p0 p1 = Inr (Some (q0, q1))" and "0 \<le> s"
    and "kv_inv (kn_meta m)" and "known_seq (kn_meta m) s" and "kn_pending m = sc_none"
    and "\<forall>pm. kv_seq_pos_max (kn_meta m) s = Inr pm \<longrightarrow> pm < int INT32_MAX"
  shows "((q0, q1) = (p0, p1) \<or> 0 < p0 \<and> p1 < 0 \<and> q0 = p0 div 128 * 128 \<and> q1 = -1) \<and>
    kvarn_can_seq_rm m s q0 q1 = Inr True \<and>
    (\<exists>pm. kv_seq_pos_max (kn_meta m) s = Inr pm \<and> (pm < 0 \<or> q0 \<le> 0 \<or> 128 dvd q0 \<or> pm div 128 - 1 \<le> q0 div 128)) \<and>
    (\<exists>m'. kvarn_seq_rm s q0 q1 m = Inr (True, m') \<and> kv_inv (kn_meta m') \<and>
       kv_view (kn_meta m') = kv_edit_spec (stream_idx (kn_meta m)) (Rm s q0 q1) (kv_view (kn_meta m)) \<and>
       kn_streams m' = kn_streams m \<and> kn_tail_rows m' = kn_tail_rows m)"
proof -
  let ?kv = "kn_meta m"
  obtain pm where pm: "kv_seq_pos_max ?kv s = Inr pm" using assms(1,2) by (auto simp: kvarn_seq_rm_plan_def split: if_splits)
  have s: "\<not> s < 0" using assms(2) by simp
  have plan: "kv_can_seq_rm ?kv s q0 q1 = Inr True \<and> ((llama_kvarn_can_remove_range pm p0 p1 128 \<and> q0 = p0 \<and> q1 = p1) \<or>
      (kvarn_stream_is_exclusive_for m s = Inr True \<and> 0 < p0 \<and> p1 < 0 \<and> q0 = p0 div 128 * 128 \<and> q1 = -1))"
  proof (cases "llama_kvarn_can_remove_range pm p0 p1 128")
    case True
    then show ?thesis using assms(1) s pm by (auto simp: kvarn_seq_rm_plan_def split: if_splits)
  next
    case False
    then obtain owned where o: "kvarn_stream_is_exclusive_for m s = Inr owned" using assms(1) s pm
      by (auto simp: kvarn_seq_rm_plan_def split: if_splits)
    then have r: "llama_kvarn_plan_remove_range pm p0 p1 128 owned = Some (q0, q1)" "kv_can_seq_rm ?kv s q0 q1 = Inr True"
      using assms(1) s pm False by (auto simp: kvarn_seq_rm_plan_def split: if_splits option.splits)
    then show ?thesis using plan_range_cases [OF r(1)] False o by auto
  qed
  have pmx: "pm < int INT32_MAX" using assms(6) pm by simp
  have can: "kvarn_can_seq_rm m s q0 q1 = Inr True"
  proof (cases "llama_kvarn_can_remove_range pm q0 q1 128")
    case True
    then show ?thesis using s plan pm by (simp add: kvarn_can_seq_rm_def kvarn_can_remove_def)
  next
    case False
    then have x: "kvarn_stream_is_exclusive_for m s = Inr True" "0 < p0" "q0 = p0 div 128 * 128" "q1 = -1" using plan by auto
    have "q0 \<noteq> 0" using False x(4) pmx by (auto simp: llama_kvarn_can_remove_range_def Let_def split: if_splits)
    moreover have "0 \<le> q0" using x(2,3) by (simp add: pos_imp_zdiv_nonneg_iff)
    ultimately have "0 < q0" by simp
    moreover have "llama_kvarn_plan_remove_range pm q0 q1 128 True = Some (q0, q1)"
      using \<open>0 < q0\<close> False x(4) by (simp add: llama_kvarn_plan_remove_range_def sdiv_nonneg x(3))
    ultimately show ?thesis using s plan pm False x(1,4) by (simp add: kvarn_can_seq_rm_def kvarn_can_remove_def)
  qed
  have ex: "pm < 0 \<or> q0 \<le> 0 \<or> 128 dvd q0 \<or> pm div 128 - 1 \<le> q0 div 128" using plan kept_exact [of pm p0 p1] by auto
  have pre: "kv_edit_pre (Rm s q0 q1) ?kv" using assms(4) plan by simp
  obtain kv' where kv': "kv_edit_apply (Rm s q0 q1) ?kv = Inr kv'" "kv_inv kv'" "kv_view kv' = kv_edit_spec (stream_idx ?kv) (Rm s q0 q1) (kv_view ?kv)"
    using kv_edits_ok [OF assms(3) pre] by blast
  have rm: "kv_seq_rm s q0 q1 ?kv = Inr (True, kv')" by (rule kv_seq_rm_True [OF _ kv'(1)]) (use plan in blast)
  have "kvarn_apply_pending_stream_copies m = Inr m" using assms(5) by (simp add: kvarn_apply_pending_stream_copies_def sc_empty_def sc_none_def)
  then have run: "kvarn_seq_rm s q0 q1 m = Inr (True, m\<lparr>kn_meta := kv'\<rparr>)" using can rm by (simp add: kvarn_seq_rm_def)
  show ?thesis using plan can pm ex run kv'(2,3) by auto
qed

definition kvarn_example :: "(nat, nat) llama_kv_cache_kvarn" where
  "kvarn_example = \<lparr>kn_meta = decode_kv_example, kn_n_stream = 1, kn_n_seq_max = 2, kn_swa = False, kn_tail_groups = 4, kn_stage_groups = 5,
     kn_streams = [0], kn_tail_rows = None, kn_pending = sc_none\<rparr>"

lemma decode_kv_example_inv: "kv_inv decode_kv_example" "known_seq decode_kv_example 0"
  using decode_kv_example_facts(1) by (auto simp: kv_inv_def plain_cache_def tail_ok_def known_seq_def kv_wf_def LLAMA_MAX_SEQ_def)

theorem kvarn_plan_executable_witness:
  "\<exists>m'. kvarn_seq_rm 0 3 (-1) kvarn_example = Inr (True, m') \<and> kn_streams m' = [0]"
proof -
  have can: "kv_can_seq_rm decode_kv_example 0 3 (-1) = Inr True"
    by (simp add: kv_can_seq_rm_def has_compact_tail_def decode_kv_example_def kv_example_def)
  have "llama_kvarn_can_remove_range 7 3 (-1) 128" by (simp add: llama_kvarn_can_remove_range_def Let_def)
  then have "kvarn_seq_rm_plan kvarn_example 0 3 (-1) = Inr (Some (3, -1))"
    using can decode_kv_example_facts(5) by (simp add: kvarn_seq_rm_plan_def kvarn_example_def)
  from kvarn_plan_executable [OF this] have "\<exists>m'. kvarn_seq_rm 0 3 (-1) kvarn_example = Inr (True, m') \<and> kn_streams m' = kn_streams kvarn_example"
    using decode_kv_example_inv decode_kv_example_facts(5) by (simp add: kvarn_example_def) blast
  then show ?thesis by (simp add: kvarn_example_def)
qed

section \<open>The read plan of a context\<close>

lemma occupied_cells_ok:
  assumes "n \<le> length (kc_pos c)" and "\<And>x. x < n \<Longrightarrow> -1 \<le> kc_pos c ! x"
  shows "\<exists>occ. occupied_cells c n = Inr occ \<and> distinct occ \<and> set occ = {x. x < n \<and> kc_pos c ! x \<noteq> -1} \<and> sorted (map (\<lambda>x. kc_pos c ! x) occ)"
proof -
  define step where "step = (\<lambda>cell ordered. bind_r (kv_cells_is_empty c cell) (\<lambda>e.
    if e then Inr ordered else bind_r (kv_cells_pos_get c cell) (\<lambda>p. Inr (ordered @ [(p, cell)]))))"
  define live where "live k = filter (\<lambda>x. kc_pos c ! x \<noteq> -1) [0..<k]" for k
  have "fold_r step [0..<k] [] = Inr (map (\<lambda>x. (kc_pos c ! x, x)) (live k))" if "k \<le> n" for k
    using that
  proof (induction k)
    case (Suc k)
    have "kc_pos c ! k = -1 \<or> 0 \<le> kc_pos c ! k" using assms(2) [of k] Suc.prems by auto
    then have "step k (map (\<lambda>x. (kc_pos c ! x, x)) (live k)) = Inr (map (\<lambda>x. (kc_pos c ! x, x)) (live (Suc k)))"
      using assms(1) Suc.prems by (auto simp: step_def live_def kv_cells_is_empty_def kv_cells_pos_get_def)
    then show ?case using Suc by (simp add: fold_r_append)
  qed (simp add: live_def)
  then have r: "fold_r step [0..<n] [] = Inr (map (\<lambda>x. (kc_pos c ! x, x)) (live n))" by simp
  define srt where "srt = sort_key fst (map (\<lambda>x. (kc_pos c ! x, x)) (live n))"
  have run: "occupied_cells c n = Inr (map snd srt)" using r by (simp add: occupied_cells_def step_def srt_def)
  have st: "set srt = (\<lambda>x. (kc_pos c ! x, x)) ` set (live n)" by (simp add: srt_def)
  have "distinct (map (\<lambda>x. (kc_pos c ! x, x)) (live n))" by (simp add: distinct_map inj_on_def live_def)
  then have "distinct srt" by (simp add: srt_def)
  then have d: "distinct (map snd srt)" unfolding distinct_map st by (auto intro: inj_onI)
  have "snd ` set srt = {x. x < n \<and> kc_pos c ! x \<noteq> -1}" unfolding st by (force simp: live_def)
  then have set: "set (map snd srt) = {x. x < n \<and> kc_pos c ! x \<noteq> -1}" by simp
  have e: "map (\<lambda>x. kc_pos c ! x) (map snd srt) = map fst srt" using st by auto
  have "sorted (map (\<lambda>x. kc_pos c ! x) (map snd srt))" by (simp only: e) (simp only: srt_def sorted_sort_key)
  then show ?thesis using run d set by blast
qed

lemma scan_end_bounds:
  assumes "\<forall>x \<in> set xs. x < cap" and "e \<le> cap" and "cap \<le> UINT32_MAX"
  shows "e \<le> fold (\<lambda>cell e. max e (u32 (cell + 1))) xs e \<and> fold (\<lambda>cell e. max e (u32 (cell + 1))) xs e \<le> cap"
  using assms
proof (induction xs arbitrary: e)
  case (Cons x xs)
  have "u32 (x + 1) = x + 1" "x + 1 \<le> cap" using Cons.prems by simp_all
  then show ?case using Cons.IH [of "max e (x + 1)"] Cons.prems by simp
qed simp

lemma first_plan:
  assumes w: "kv_wf (kn_meta m)" "kv_n_stream (kn_meta m) = 1" and m: "kvarn_uses_compact_read_indices m"
    and ctx: "kq_plan_cache ctx = []" "context_current_sinfo (kq_base ctx) = Inr (the_slot xs)" "set xs \<subseteq> {..<kv_cap (kn_meta m)}"
    and n: "get_n_kv n_pad (kn_meta m) (the_slot xs) = Inr (kx_n_kv (kq_base ctx))" "n_pad = 2 ^ j" "kv_cap (kn_meta m) + max n_pad 256 \<le> 2 ^ 32"
    and "0 < kv_cap (kn_meta m)"
  shows "\<exists>occ pend k. kvarn_compact_read_plan ctx m =
      Inr (map int (occ @ pend) @ replicate k (-1), ctx\<lparr>kq_plan_cache := map int (occ @ pend) @ replicate k (-1)\<rparr>) \<and>
    distinct (occ @ pend) \<and> set occ = {x. x < kv_cap (kn_meta m) \<and> kc_pos (kv_cells (kn_meta m) ! 0) ! x \<noteq> -1} \<and>
    set (occ @ pend) = set occ \<union> set xs \<and> sorted (map (\<lambda>x. kc_pos (kv_cells (kn_meta m) ! 0) ! x) occ) \<and>
    length (occ @ pend) + k = min (kv_cap (kn_meta m)) (max 256 ((length (occ @ pend) + 255) div 256 * 256))"
proof -
  let ?kv = "kn_meta m" and ?c = "kv_cells (kn_meta m) ! 0"
  note f = kv_wf_parts [OF w(1)]
  have c: "cells_ok ?c" "length (kc_pos ?c) = kv_cap ?kv" "kv_cells ?kv \<noteq> []" using f(3,7,8) w(2) by auto
  obtain n' where n': "get_n_kv n_pad ?kv (the_slot xs) = Inr n'" "n' \<le> kv_cap ?kv"
      "\<forall>s \<in> set (si_strm (the_slot xs)). \<forall>x < kv_cap ?kv. kc_pos (kv_cells ?kv ! s) ! x \<noteq> -1 \<longrightarrow> x < n'"
    using get_n_kv_covers [OF w(1) n(2,3), of "the_slot xs"] w(2) by (auto simp: the_slot_def)
  define e where "e = fold (\<lambda>cell e. max e (u32 (cell + 1))) xs (min (kv_cap ?kv) (kx_n_kv (kq_base ctx)))"
  have "\<forall>x \<in> set xs. x < kv_cap ?kv" "kv_cap ?kv \<le> UINT32_MAX" "n' = kx_n_kv (kq_base ctx)" using ctx(3) n(1,3) n'(1) by auto
  then have e: "min (kv_cap ?kv) n' \<le> e" "e \<le> kv_cap ?kv"
    using scan_end_bounds [of xs "kv_cap ?kv" "min (kv_cap ?kv) (kx_n_kv (kq_base ctx))"] by (simp_all add: e_def)
  obtain occ where o: "occupied_cells ?c e = Inr occ" "distinct occ" "set occ = {x. x < e \<and> kc_pos ?c ! x \<noteq> -1}" "sorted (map (\<lambda>x. kc_pos ?c ! x) occ)"
    using occupied_cells_ok [of e ?c] e(2) c(2) cells_okD(7) [OF c(1)] by auto
  have "set occ = {x. x < kv_cap ?kv \<and> kc_pos ?c ! x \<noteq> -1}" using o(3) e n'(3) by (auto simp: the_slot_def)
  note os = this
  have in_cap: "\<not> (kv_cap ?kv = 0 \<or> (256 :: nat) = 0 \<or> (\<exists>x \<in> set (occ @ xs). kv_cap ?kv \<le> x))" using os ctx(3) assms(10) by auto
  have "\<exists>cells k. llama_kvarn_compact_read_plan occ xs (kv_cap ?kv) 256 = Inr (map int cells @ replicate k (-1)) \<and>
      distinct cells \<and> set cells = set occ \<union> set xs \<and> (distinct occ \<longrightarrow> (\<exists>r. cells = occ @ r)) \<and>
      length cells + k = min (kv_cap ?kv) (max 256 ((length cells + 256 - 1) div 256 * 256))"
    using read_plan_exact [of "kv_cap ?kv" 256 occ xs, unfolded if_not_P [OF in_cap]] n(3) by simp
  then obtain cells k where p: "llama_kvarn_compact_read_plan occ xs (kv_cap ?kv) 256 = Inr (map int cells @ replicate k (-1))" "distinct cells"
      "set cells = set occ \<union> set xs" "distinct occ \<longrightarrow> (\<exists>r. cells = occ @ r)"
      "length cells + k = min (kv_cap ?kv) (max 256 ((length cells + 256 - 1) div 256 * 256))"
    by blast
  obtain r where r: "cells = occ @ r" using p(4) o(2) by blast
  have run: "kvarn_compact_read_plan ctx m = Inr (map int cells @ replicate k (-1), ctx\<lparr>kq_plan_cache := map int cells @ replicate k (-1)\<rparr>)"
    using m ctx(1,2) c(2,3) o(1) p(1) by (simp add: kvarn_compact_read_plan_def the_slot_def kv_cells_size_def e_def Let_def)
  show ?thesis
    by (rule exI [of _ occ], rule exI [of _ r], rule exI [of _ k]) (use run p(2,3,5) os o(4) in \<open>simp add: r ac_simps\<close>)
qed

text \<open>C27: The first read plan of a context of a shared structured cache with one stream and a non-zero number of cells, asked for after
  get_n_kv has been called for the placed slot (llama_kv_cache_kvarn_context::compact_read_plan), lists what the
  graph has to read: every occupied cell in the order of the positions, then the cells of the micro-batch that are not
  among them, each once, and nothing else but padding.\<close>

theorem kvarn_first_plan:
  assumes "kv_wf (kn_meta m)" "kv_n_stream (kn_meta m) = 1" and "kvarn_uses_compact_read_indices m"
    and "kq_plan_cache ctx = []" "context_current_sinfo (kq_base ctx) = Inr (the_slot xs)" "set xs \<subseteq> {..<kv_cap (kn_meta m)}"
    and "get_n_kv n_pad (kn_meta m) (the_slot xs) = Inr (kx_n_kv (kq_base ctx))" "n_pad = 2 ^ j" "kv_cap (kn_meta m) + max n_pad 256 \<le> 2 ^ 32"
    and "0 < kv_cap (kn_meta m)"
  shows "\<exists>occ pend k. kvarn_compact_read_plan ctx m =
      Inr (map int (occ @ pend) @ replicate k (-1), ctx\<lparr>kq_plan_cache := map int (occ @ pend) @ replicate k (-1)\<rparr>) \<and>
    distinct (occ @ pend) \<and> set occ = {x. x < kv_cap (kn_meta m) \<and> kc_pos (kv_cells (kn_meta m) ! 0) ! x \<noteq> -1} \<and>
    set (occ @ pend) = set occ \<union> set xs \<and> sorted (map (\<lambda>x. kc_pos (kv_cells (kn_meta m) ! 0) ! x) occ) \<and>
    length (occ @ pend) + k = min (kv_cap (kn_meta m)) (max 256 ((length (occ @ pend) + 255) div 256 * 256))"
  by (rule first_plan [OF assms])

definition kvarn_context_example :: llama_kv_cache_kvarn_context where
  "kvarn_context_example = kvarn_context ((context_batch [the_slot [0, 1], the_slot [4, 2]] [ubatch_example, ubatch_example])\<lparr>kx_n_kv := 6\<rparr>) False"

lemma kvarn_example_facts:
  "kv_wf (kn_meta kvarn_example)" "kv_n_stream (kn_meta kvarn_example) = 1" "kvarn_uses_compact_read_indices kvarn_example"
  "kq_plan_cache kvarn_context_example = []" "context_current_sinfo (kq_base kvarn_context_example) = Inr (the_slot [0, 1])"
  "kv_cap (kn_meta kvarn_example) = 6" "get_n_kv 256 (kn_meta kvarn_example) (the_slot [0, 1]) = Inr (kx_n_kv (kq_base kvarn_context_example))"
  "{x. x < 6 \<and> kc_pos (kv_cells (kn_meta kvarn_example) ! 0) ! x \<noteq> -1} = {5}"
proof -
  note p = decode_kv_example_facts(1)
  have cap: "kv_cap decode_kv_example = 6" by (simp add: kv_cap_def decode_kv_example_def kv_example_def cells_example_def)
  show "kv_wf (kn_meta kvarn_example)" "kv_n_stream (kn_meta kvarn_example) = 1" "kvarn_uses_compact_read_indices kvarn_example"
    using p by (simp_all add: kvarn_example_def plain_cache_def kvarn_uses_compact_read_indices_def)
  show "kq_plan_cache kvarn_context_example = []" "context_current_sinfo (kq_base kvarn_context_example) = Inr (the_slot [0, 1])"
    by (simp_all add: kvarn_context_example_def kvarn_context_def context_batch_def context_status_def context_current_sinfo_def)
  show "kv_cap (kn_meta kvarn_example) = 6" by (simp add: kvarn_example_def cap)
  have "ggml_pad 6 256 = (256 :: 32 word)" by (simp add: ggml_pad_def)
  then show "get_n_kv 256 (kn_meta kvarn_example) (the_slot [0, 1]) = Inr (kx_n_kv (kq_base kvarn_context_example))"
    by (simp add: get_n_kv_def the_slot_def kvarn_example_def kvarn_context_example_def kvarn_context_def decode_kv_example_def kv_example_def
      cells_example_def kv_cells_size_def kv_cells_used_max_p1_def)
  show "{x. x < 6 \<and> kc_pos (kv_cells (kn_meta kvarn_example) ! 0) ! x \<noteq> -1} = {5}"
    by (auto simp: kvarn_example_def decode_kv_example_def kv_example_def cells_example_def less_Suc_eq eval_nat_numeral nth_Cons')
qed

theorem kvarn_first_plan_witness:
  "\<exists>plan ctx. kvarn_compact_read_plan kvarn_context_example kvarn_example = Inr (plan, ctx) \<and> hd plan = 5 \<and> length plan = 6"
proof -
  note f = kvarn_example_facts
  have "set [0, 1] \<subseteq> {..<kv_cap (kn_meta kvarn_example)}" "(256 :: nat) = 2 ^ 8" "kv_cap (kn_meta kvarn_example) + max 256 256 \<le> 2 ^ 32" "0 < kv_cap (kn_meta kvarn_example)"
    by (simp_all add: f(6))
  from kvarn_first_plan [OF f(1-5) this(1) f(7) this(2-4)] obtain occ pend k where
    p: "kvarn_compact_read_plan kvarn_context_example kvarn_example =
        Inr (map int (occ @ pend) @ replicate k (-1), kvarn_context_example\<lparr>kq_plan_cache := map int (occ @ pend) @ replicate k (-1)\<rparr>)"
      "distinct (occ @ pend)" "set occ = {5}" "length (occ @ pend) + k = min 6 (max 256 ((length (occ @ pend) + 255) div 256 * 256))"
    unfolding f(6,8) by blast
  have "occ = [5]" using p(2,3) by (cases occ; cases "tl occ") auto
  moreover have "length (occ @ pend) + k = 6" using p(4) min.absorb1 [OF le_trans [OF _ max.cobounded1], of 6 256] by simp
  ultimately show ?thesis using p(1) by auto
qed

section \<open>Later micro-batches\<close>

lemma compact_meta [simp]: "kvarn_uses_compact_read_indices (m\<lparr>kn_meta := kv\<rparr>) = kvarn_uses_compact_read_indices m"
  by (simp add: kvarn_uses_compact_read_indices_def)

lemma update_keeps_compact:
  assumes "kvarn_apply_pending_stream_copies m = Inr m'"
  shows "kvarn_uses_compact_read_indices m' = kvarn_uses_compact_read_indices m"
  using assms by (auto simp: kvarn_apply_pending_stream_copies_def kvarn_uses_compact_read_indices_def Let_def split: if_splits)

lemma apply_keeps:
  assumes "kvarn_context_apply env n_pad ctx m = Inr (ok, ctx', m')"
  shows "kq_plan_cache ctx' = kq_plan_cache ctx" "kvarn_uses_compact_read_indices m' = kvarn_uses_compact_read_indices m"
  using assms by (auto simp: kvarn_context_apply_def Let_def split: if_splits dest!: update_keeps_compact)

lemma plan_nonempty:
  assumes "llama_kvarn_compact_read_plan occ pend cap 256 = Inr plan"
  shows "plan \<noteq> []" "int x \<in> set plan \<Longrightarrow> x \<in> set occ \<union> set pend"
proof -
  have "\<exists>cells n. fold_r (compact_step cap) (occ @ pend) [] = Inr cells \<and> 0 < cap \<and> plan = map int cells @ replicate (min cap (max 256 n) - length cells) (-1)"
    using assms unfolding llama_kvarn_compact_read_plan_def Let_def by (auto simp del: u32_id fold_r.simps split: if_splits)
  then obtain cells n where c: "fold_r (compact_step cap) (occ @ pend) [] = Inr cells" "0 < cap"
      "plan = map int cells @ replicate (min cap (max 256 n) - length cells) (-1)" by blast
  have "0 < min cap (max 256 n)" using c(2) by simp
  then show "plan \<noteq> []" using c(3) by (cases "cells = []") simp_all
  have "cells = first_seen [] (occ @ pend)" using c(1) compact_fold [of cap "occ @ pend" "[]"] by (simp split: if_splits)
  then have "set cells = set occ \<union> set pend" using first_seen_set [of "[]" "occ @ pend"] by simp
  moreover have "x \<in> set cells" if "int x \<in> set plan"
  proof -
    have "int x \<in> int ` set cells \<or> int x = -1" using that unfolding c(3) by (simp split: if_splits)
    then show ?thesis by (elim disjE imageE) simp_all
  qed
  ultimately show "int x \<in> set plan \<Longrightarrow> x \<in> set occ \<union> set pend" by blast
qed

lemma occupied_cells_sub:
  assumes "occupied_cells c n = Inr occ" and "x \<in> set occ"
  shows "kv_cells_is_empty c x = Inr False"
proof -
  define step where "step = (\<lambda>cell ordered. bind_r (kv_cells_is_empty c cell) (\<lambda>e.
    if e then Inr ordered else bind_r (kv_cells_pos_get c cell) (\<lambda>p. Inr (ordered @ [(p, cell)]))))"
  have one: "\<forall>y \<in> set acc'. kv_cells_is_empty c (snd y) = Inr False"
    if "step z acc = Inr acc'" "\<forall>y \<in> set acc. kv_cells_is_empty c (snd y) = Inr False" for z acc acc'
    using that by (cases "kv_cells_is_empty c z") (auto simp: step_def split: if_splits)
  have all: "\<forall>y \<in> set r. kv_cells_is_empty c (snd y) = Inr False"
    if "fold_r step xs acc = Inr r" "\<forall>y \<in> set acc. kv_cells_is_empty c (snd y) = Inr False" for xs acc r
    using that
  proof (induction xs arbitrary: acc)
    case (Cons z xs)
    then obtain acc' where a: "step z acc = Inr acc'" "fold_r step xs acc' = Inr r" by auto
    show ?case by (rule Cons.IH [OF a(2) one [OF a(1) Cons.prems(2)]])
  qed simp
  obtain r where r: "fold_r step [0..<n] [] = Inr r" "occ = map snd (sort_key fst r)" using assms(1) by (auto simp: occupied_cells_def step_def)
  have "\<forall>y \<in> set r. kv_cells_is_empty c (snd y) = Inr False" by (rule all [OF r(1)]) simp
  then show ?thesis using assms(2) r(2) by auto
qed

text \<open>C28: The read plan of a shared structured cache is never renewed: once the first micro-batch of a context has its plan, the
  context gives the same plan after it has moved on and placed the next micro-batch, so the cells this one was placed
  in, when they were empty before, are not read at all (llama_kv_cache_kvarn_context::compact_read_plan keeps
  compact_read_plan_cache, which next and apply leave alone).\<close>

theorem kvarn_plan_not_renewed:
  assumes "kq_plan_cache ctx = []" and "kvarn_compact_read_plan ctx m = Inr (plan, ctx1)" and "context_current_sinfo (kq_base ctx) = Inr (the_slot xs)"
    and "kvarn_context_next ctx1 = Inr (further, ctx2)" and "kvarn_context_apply env n_pad ctx2 m = Inr (ok, ctx3, m3)"
  shows "kvarn_compact_read_plan ctx3 m3 = Inr (plan, ctx3) \<and>
    (\<forall>x. kv_cells_is_empty (kv_cells (kn_meta m) ! 0) x = Inr True \<and> x \<notin> set xs \<longrightarrow> int x \<notin> set plan)"
proof -
  have u: "kvarn_uses_compact_read_indices m" using assms(2) by (simp add: kvarn_compact_read_plan_def)
  obtain n occ where o: "occupied_cells (kv_cells (kn_meta m) ! 0) n = Inr occ"
      "llama_kvarn_compact_read_plan occ xs (kv_cells_size (kv_cells (kn_meta m) ! 0)) 256 = Inr plan" "ctx1 = ctx\<lparr>kq_plan_cache := plan\<rparr>"
    using assms(1-3) by (auto simp: kvarn_compact_read_plan_def the_slot_def Let_def split: if_splits)
  have "kq_plan_cache ctx2 = plan" using assms(4) o(3) by (auto simp: kvarn_context_next_def)
  then have "kq_plan_cache ctx3 = plan" "kvarn_uses_compact_read_indices m3" using apply_keeps [OF assms(5)] u by simp_all
  then have "kvarn_compact_read_plan ctx3 m3 = Inr (plan, ctx3)" using plan_nonempty(1) [OF o(2)] by (simp add: kvarn_compact_read_plan_def)
  moreover have "int x \<notin> set plan" if "kv_cells_is_empty (kv_cells (kn_meta m) ! 0) x = Inr True" "x \<notin> set xs" for x
    using plan_nonempty(2) [OF o(2), of x] occupied_cells_sub [OF o(1), of x] that by auto
  ultimately show ?thesis by blast
qed

theorem kvarn_plan_not_renewed_witness:
  "\<exists>plan ctx1 ctx2 ctx3 m3. kvarn_compact_read_plan kvarn_context_example kvarn_example = Inr (plan, ctx1) \<and>
    kvarn_context_next ctx1 = Inr (True, ctx2) \<and> kvarn_context_apply (de_update decode_env_example) 256 ctx2 kvarn_example = Inr (True, ctx3, m3) \<and>
    kv_view (kn_meta m3) ! 0 ! 4 = (8, {1}) \<and> kvarn_compact_read_plan ctx3 m3 = Inr (plan, ctx3) \<and> 4 \<notin> set plan"
proof -
  note f = kvarn_example_facts
  have b: "set [0, 1] \<subseteq> {..<kv_cap (kn_meta kvarn_example)}" "(256 :: nat) = 2 ^ 8" "kv_cap (kn_meta kvarn_example) + max 256 256 \<le> 2 ^ 32" "0 < kv_cap (kn_meta kvarn_example)"
    by (simp_all add: f(6))
  obtain plan where p: "kvarn_compact_read_plan kvarn_context_example kvarn_example = Inr (plan, kvarn_context_example\<lparr>kq_plan_cache := plan\<rparr>)"
    using first_plan [OF f(1-5) b(1) f(7) b(2-4)] by blast
  define base where "base = (context_batch [the_slot [0, 1], the_slot [4, 2]] [ubatch_example, ubatch_example])\<lparr>kx_n_kv := 6, kx_i_cur := 1\<rparr>"
  define ctx2 where "ctx2 = \<lparr>kq_base = base, kq_update = False, kq_plan_cache = plan\<rparr>"
  have n: "kvarn_context_next (kvarn_context_example\<lparr>kq_plan_cache := plan\<rparr>) = Inr (True, ctx2)"
    by (simp add: kvarn_context_next_def context_next_def kvarn_context_example_def kvarn_context_def context_batch_def context_status_def ctx2_def base_def)
  let ?kv = decode_kv_example
  have u: "unified ?kv" "quiet ?kv" using decode_kv_example_facts(1) by (simp_all add: unified_def quiet_def plain_cache_def swa_defined_def)
  have free: "{4, 2} \<subseteq> {x. empty_cell (kv_cells ?kv ! 0) x}" using decode_kv_example_facts(3) by (auto simp: free_cells_def)
  obtain c where c: "apply_ubatch (the_slot [4, 2]) ubatch_example ?kv = Inr ((set_cells 0 c ?kv)\<lparr>kv_heads := [last [4, 2] + 1]\<rparr>)" "cells_ok c"
      "\<forall>k < length [4, 2 :: nat]. kv_cells_list c ! ([4, 2] ! k) = tok_content ubatch_example k" "length (kc_pos c) = kv_cap ?kv" "last [4, 2] + 1 \<le> kv_cap ?kv"
    using apply_ubatch_unified [OF u ubatch_example_ok(1), of "[4, 2]"] ubatch_example_ok(3) free by auto
  define kv' where "kv' = (set_cells 0 c ?kv)\<lparr>kv_heads := [last [4, 2] + 1]\<rparr>"
  have w: "unified kv'" "kv_cap kv' = kv_cap ?kv" using set_cells_wf [OF u(1) c(2,4,5)] by (simp_all add: kv'_def)
  have "kv_cells_list c ! 4 = tok_content ubatch_example 0" using c(3) [rule_format, of 0] by simp
  moreover have "kv_view kv' ! 0 = kv_cells_list c" using unifiedD(5) [OF u(1)] by (auto simp: kv'_def set_cells_def kv_view_def length_Suc_conv)
  ultimately have v: "kv_view kv' ! 0 ! 4 = (8, {1})" by (simp add: tok_content_def tok_owners_def ubatch_example_def)
  have "kv_cap ?kv = 6" using f(6) by (simp add: kvarn_example_def)
  then obtain n' where n': "get_n_kv 256 kv' (the_slot [4, 2]) = Inr n'"
    using get_n_kv_covers [OF unifiedD(1) [OF w(1)], of 256 8 "the_slot [4, 2]"] unifiedD(2) [OF w(1)] w(2) by (auto simp: the_slot_def)
  define ctx3 where "ctx3 = ctx2\<lparr>kq_base := base\<lparr>kx_n_kv := n'\<rparr>\<rparr>"
  have a: "kvarn_context_apply (de_update decode_env_example) 256 ctx2 kvarn_example = Inr (True, ctx3, kvarn_example\<lparr>kn_meta := kv'\<rparr>)"
    using c(1) n' by (simp add: kvarn_context_apply_def context_apply_def ctx2_def ctx3_def base_def context_batch_def context_status_def
      kvarn_example_def kv'_def Let_def)
  have e: "kv_cells_is_empty (kv_cells (kn_meta kvarn_example) ! 0) 4 = Inr True"
    by (simp add: kvarn_example_def kv_cells_is_empty_def decode_kv_example_def kv_example_def cells_example_def)
  have s: "kvarn_compact_read_plan ctx3 (kvarn_example\<lparr>kn_meta := kv'\<rparr>) = Inr (plan, ctx3)" "\<forall>x. kv_cells_is_empty (kv_cells (kn_meta kvarn_example) ! 0) x = Inr True \<and>
      x \<notin> set [0, 1] \<longrightarrow> int x \<notin> set plan"
    using kvarn_plan_not_renewed [OF f(4) p f(5) n a] by blast+
  have "4 \<notin> set plan" using s(2) [rule_format, of 4] e by simp
  then show ?thesis using p n a v s(1) by (intro exI conjI) (assumption | simp)+
qed

end
