(* ===== verification/Spec2Isabelle.thy ===== *)
theory Spec2Isabelle
  imports Prelude KvCells TailPlan TailStore TailInv TailProps Batch BatchSplit BatchProps KvCache KvEdit KvProps KvSlot KvSlotProps
    KvMask KvMaskProps KvContext Decode DecodeOut DecodeStep DecodeProps DecodeFail Iswa IswaProps Recurrent RecurrentInv
    RecurrentSlot RecurrentPlace RecurrentProps RecurrentBatch Hybrid HybridProps Kvarn KvarnProps KvarnCache KvarnCacheProps
begin

text \<open>
  The memory of a language model runtime, from the batch a caller submits to the outputs it reads.

  \<^bold>\<open>The program.\<close> \<^verbatim>\<open>llama_context::decode\<close> takes a batch of tokens. The batch allocator (\<^verbatim>\<open>llama-batch.cpp\<close>) checks and
  completes it against the memory and cuts it into micro-batches. The KV cache (\<^verbatim>\<open>llama-kv-cache.cpp\<close>) rehearses the
  placement of all of them, undoes it, and then places one micro-batch at a time in its cells (\<^verbatim>\<open>llama-kv-cells.h\<close>); a
  graph computed over the cells under an attention mask gives the outputs. Between calls the caller edits
  sequences: it removes, copies, shifts and divides ranges of positions. This repository adds an exact tail
  (\<^verbatim>\<open>llama-kv-cache-tail.cpp\<close>): a second store that shadows the newest rows of each sequence at full precision, with
  its own planning, transactions and saved state. Models with a sliding window use a pair of caches
  (\<^verbatim>\<open>llama-kv-cache-iswa.cpp\<close>). Models with recurrent layers keep one state per sequence in a memory of its own
  (\<^verbatim>\<open>llama-memory-recurrent.cpp\<close>), with snapshots to which a sequence can be rolled back; models with both kinds of layers keep a cache, or a pair of caches,
  beside it (\<^verbatim>\<open>llama-memory-hybrid.cpp\<close>, \<^verbatim>\<open>llama-memory-hybrid-iswa.cpp\<close>). With structured storage
  (\<^verbatim>\<open>llama-kv-cache-kvarn.cpp\<close>, \<^verbatim>\<open>llama-kvarn.cpp\<close>) the cells of a cache are metadata only: keys and values are packed in tiles of 128
  tokens, the newest of them staged exactly, and a graph reads them through a plan.

  \<^bold>\<open>Theories and sources\<close> (all under \<^verbatim>\<open>src/src/\<close>).
  \<^item> \<^verbatim>\<open>Prelude\<close>: exceptions, assertions and undefined reads as values of \<open>exn\<close>, the result type \<open>'a res\<close> with its fold over a loop
    range, fixed-width conversions, vectors, shared lemmas.
  \<^item> \<^verbatim>\<open>KvCells\<close>: \<^verbatim>\<open>class llama_kv_cells\<close>; a record of its vectors, the set of used cells and the position index of each
    sequence, one function per method.
  \<^item> \<^verbatim>\<open>TailPlan\<close>: the pure planning functions of the exact tail. \<^verbatim>\<open>TailStore\<close>: \<^verbatim>\<open>class llama_kv_tail_store\<close>, its state and all
    operations. \<^verbatim>\<open>TailInv\<close>: its invariant. \<^verbatim>\<open>TailProps\<close>: its contracts.
  \<^item> \<^verbatim>\<open>Batch\<close>: \<^verbatim>\<open>class llama_batch_allocr\<close>. \<^verbatim>\<open>BatchSplit\<close>: its three ways of cutting. \<^verbatim>\<open>BatchProps\<close>: their properties.
  \<^item> \<^verbatim>\<open>KvCache\<close>: \<^verbatim>\<open>class llama_kv_cache\<close>: sequence edits, slot search, placement, rehearsal. \<^verbatim>\<open>KvEdit\<close>, \<^verbatim>\<open>KvProps\<close>: the edits.
    \<^verbatim>\<open>KvSlot\<close>, \<^verbatim>\<open>KvSlotProps\<close>: search, placement, rehearsal. \<^verbatim>\<open>KvMask\<close>, \<^verbatim>\<open>KvMaskProps\<close>: what a graph reads from the cache, the
    attention mask above all.
  \<^item> \<^verbatim>\<open>KvContext\<close>: \<^verbatim>\<open>llama_kv_cache_context\<close>, \<open>init_batch\<close>, and \<open>update\<close> with the transaction of \<^verbatim>\<open>llama-kv-cache-update.h\<close>.
  \<^item> \<^verbatim>\<open>Decode\<close>: \<^verbatim>\<open>llama_context::decode\<close> and the functions it calls in \<^verbatim>\<open>llama-context.cpp\<close>. \<^verbatim>\<open>DecodeOut\<close>: the order of outputs.
    \<^verbatim>\<open>DecodeStep\<close>: one step of each phase. \<^verbatim>\<open>DecodeProps\<close>: whole calls. \<^verbatim>\<open>DecodeFail\<close>: failed graphs.
  \<^item> \<^verbatim>\<open>Iswa\<close>, \<^verbatim>\<open>IswaProps\<close>: \<^verbatim>\<open>llama_kv_cache_iswa\<close>, the pair of caches.
  \<^item> \<^verbatim>\<open>Recurrent\<close>: \<^verbatim>\<open>llama_memory_recurrent\<close> and its context. \<^verbatim>\<open>RecurrentInv\<close>: its invariant, its abstract state, its edits.
    \<^verbatim>\<open>RecurrentSlot\<close>: the phases of \<open>find_slot\<close>, one lemma each. \<^verbatim>\<open>RecurrentPlace\<close>: the placement as a whole. \<^verbatim>\<open>RecurrentProps\<close>: its
    contracts. \<^verbatim>\<open>RecurrentBatch\<close>: whole batches.
  \<^item> \<^verbatim>\<open>Hybrid\<close>: \<^verbatim>\<open>llama_memory_hybrid\<close>, \<^verbatim>\<open>llama_memory_hybrid_iswa\<close> and their contexts; the operations the two classes share are
    functions of the attention memory (\<open>hy_\<close>). \<^verbatim>\<open>HybridProps\<close>: their contracts.
  \<^item> \<^verbatim>\<open>Kvarn\<close>: the pure functions of \<^verbatim>\<open>llama-kvarn.cpp\<close>, the size policies of \<^verbatim>\<open>llama-kv-cache-kvarn.h\<close> and helpers of
    \<^verbatim>\<open>llama-kv-cache-kvarn.cpp\<close>. \<^verbatim>\<open>KvarnProps\<close>: their properties. \<^verbatim>\<open>KvarnCache\<close>: \<^verbatim>\<open>llama_kv_cache_kvarn\<close> and its context. \<^verbatim>\<open>KvarnCacheProps\<close>:
    removals and read plans.
  \<^item> This theory: a placed micro-batch under its attention mask.

  \<^bold>\<open>What is shown.\<close>
  \<^item> Cells: every operation completes under its precondition and keeps the indices equal to a scan; copies of cells can
    be written back.
  \<^item> Exact tail: every operation, restores and clones included, completes from every reachable store and keeps the invariant; a failed batch is undone or
    marks what it lost; copies and snapshots are faithful; a source plan reads the newest exact rows; plans respect
    types and bounds; the window union and the masked selection equal their definitions.
  \<^item> Batches: an accepted batch continues what the memory holds; a cut is a partition of the tokens, or it takes
    nothing (coupled sequences in a sequential split) or fails an assertion (a tail as long as a micro-batch), and the theorem says when.
  \<^item> Cache: every edit refines a map over cell contents; a removal keeps the tail within the live cells; the slot
    search ends and finds a slot exactly when there are enough usable cells; a placement changes the cells of the
    slot only; a rehearsal in a cache without allocation groups leaves the cache as it was and predicts the placements; the attention mask with its
    shortcut equals the mask computed cell by cell.
  \<^item> Decoding: an accepted batch that fits is stored completely and nowhere else, and the caller reads each token's own row; a
    batch that does not fit is refused without a change; a micro-batch whose graph fails is undone when its tokens have
    one sequence each.
  \<^item> Pair of caches: edits keep the window cache within the base cache, so that the positions it reports exist in both; a
    removal is done in both or in none.
  \<^item> Recurrent memory: every edit refines a function on the position and the sharers of each sequence's state; a micro-batch that
    fits is always placed, and every state that survives is copied from the cell in which it was, never from the
    cell that is zeroed; a rollback is read from its snapshot; an accepted batch is taken as a whole, refused without a change or fails the assertion of
    its cut.
  \<^item> Hybrid memories: edits act on each part as its own specification; a removal, and the acceptance of a batch, is done in
    both parts or in none.
  \<^item> Structured storage: packing is reversible; the fields of a tile are disjoint; a saved state holds each cell once, and a
    saved ring is restored; a planned removal can be done and keeps no partial sealed group; the first read plan of a
    batch lists what has to be read.
  \<^item> Where the code does not do what its callers or comments say, a theorem shows the case: split into equal lengths beyond the
    limit, positions of embeddings, stale tail rows, heads of allocation groups that a
    rehearsal does not give back, shared tokens of a failed micro-batch, layer inputs moved by
    the swaps of output rows, cell indices of one cache used in the other, tails that a full removal leaves behind, a second rollback that
    replaces the snapshot of the first, a read plan that later micro-batches
    do not renew.

  \<^bold>\<open>Interfaces.\<close> \<open>splitter\<close> (\<^verbatim>\<open>BatchSplit\<close>) is what a memory relies on when it cuts a batch, interpreted on the three splits and
  on the cut of the recurrent and the hybrid memories (\<^verbatim>\<open>RecurrentBatch\<close>).
  \<open>seq_operation\<close> (\<^verbatim>\<open>TailInv\<close>) is what the store relies on in its loops over sequences, interpreted on trimming, index rebuilding,
  invalidation, undo, shift and division. \<open>cell_edit\<close> (\<^verbatim>\<open>KvEdit\<close>) is what the cache relies on in its loops over cells, interpreted on
  the six loop bodies. \<open>memory_edits\<close> (\<^verbatim>\<open>Iswa\<close>) is what a caller of a memory relies on, interpreted on one cache, on the pair, and on
  the recurrent memory. \<open>attention_memory\<close> (\<^verbatim>\<open>HybridProps\<close>) extends it by a removal that is refused as a whole; it is interpreted on the
  cache and on the pair, and a \<open>sublocale\<close> gives the edits of both hybrid memories.

  \<^bold>\<open>Bounds and fuel.\<close> Counters of 32 and 64 bits wrap where the source lets them (\<open>u32\<close>, \<open>i32_of_u32\<close>). Positions
  and shifts (\<^verbatim>\<open>llama_pos\<close>) are unbounded integers in the edits of the cells, of the cache and of the exact tail, so that a sum
  beyond 32 bits, undefined in the source, is outside the model there; the shift and the division of the recurrent memory and the
  window bound of the attention mask test their result and are \<open>Undefined\<close> when it overflows. Three loops have fuel. \<open>split_all\<close> cuts a batch: one more round than tokens is
  enough, because every round but the last takes a token. \<open>decode_loop\<close>, and \<open>run_context\<close> for the recurrent
  memory, run once per micro-batch. The slot search terminates by a measure on the
  cells it has not tested. The theorems about whole calls
  state that the call returns.

  \<^bold>\<open>Parameters.\<close> What a compute graph does (whether it is built, allocated and computed, and the rows it yields), the allocation of
  output buffers, the memory another cache shares its cells with, and the hyperparameters of the model.

  \<^bold>\<open>Not modelled.\<close> Tensors, buffers and graphs; the construction and the state files of the memories; the rotation and
  quantisation of values, the graph operations and the backend queries of structured storage; the contents of the recurrent states; the tail's graph inputs; backend samplers, pooled embeddings and nextn rows in
  \<open>decode\<close>; tokenisers, grammars, models, backends, tools and the server. The theorems about whole decode calls are for a cache with one
  stream, no window and no exact tail; those components have their own theorems.
\<close>

section \<open>Placing a batch and attending to it\<close>

lemma view_at:
  assumes "unified kv" and "x < kv_cap kv"
  shows "kv_view kv ! 0 ! x = (kc_pos (kv_cells kv ! 0) ! x, kc_seq (kv_cells kv ! 0) ! x)"
  using cells_okD(4) [OF unifiedD(7) [OF assms(1)], of x] unifiedD(5,8) [OF assms(1)] assms(2) by (simp add: kv_view_def)

text \<open>The cache after a placement, as far as the mask depends on it.\<close>

lemma placed_cache:
  assumes u: "unified kv" "quiet kv" and nw: "kv_swa_type kv = LLAMA_SWA_TYPE_NONE" "kv_n_swa kv = 0"
    and ub: "ubatch_ok ub" "\<forall>i < ub_n_tokens ub. ub_pos ub ! i + 32 \<le> int INT32_MAX"
    and xs: "length xs = ub_n_tokens ub" "distinct xs" "set xs \<subseteq> free_cells kv"
    and sz: "\<forall>p \<in> set (kc_pos (kv_cells kv ! 0)). p + 32 \<le> int INT32_MAX"
  shows "\<exists>kv'. apply_ubatch (the_slot xs) ub kv = Inr kv' \<and> unified kv' \<and> kv_cap kv' = kv_cap kv \<and>
    kv_swa_type kv' = LLAMA_SWA_TYPE_NONE \<and> mask_window kv' \<and> (\<forall>m < length xs. kv_view kv' ! 0 ! (xs ! m) = tok_content ub m) \<and>
    (\<forall>x. x \<notin> set xs \<longrightarrow> kv_view kv' ! 0 ! x = kv_view kv ! 0 ! x)"
proof -
  note f = unifiedD [OF u(1)]
  have xe: "set xs \<subseteq> {x. empty_cell (kv_cells kv ! 0) x}" using xs(3) by (simp add: free_cells_def)
  obtain c where c: "apply_ubatch (the_slot xs) ub kv = Inr ((set_cells 0 c kv)\<lparr>kv_heads := [last xs + 1]\<rparr>)" "cells_ok c"
      "\<forall>m < length xs. kv_cells_list c ! (xs ! m) = tok_content ub m"
      "\<forall>x. x \<notin> set xs \<longrightarrow> kv_cells_list c ! x = kv_cells_list (kv_cells kv ! 0) ! x \<and> kc_ext c ! x = kc_ext (kv_cells kv ! 0) ! x"
      "length (kc_pos c) = kv_cap kv" "last xs + 1 \<le> kv_cap kv"
    using apply_ubatch_unified [OF u ub(1) xs(1,2) xe] by blast
  define kv' where "kv' = (set_cells 0 c kv)\<lparr>kv_heads := [last xs + 1]\<rparr>"
  have u': "unified kv'" and cap: "kv_cap kv' = kv_cap kv" using set_cells_wf [OF u(1) c(2,5,6)] by (simp_all add: kv'_def)
  have s': "kv_swa_type kv' = LLAMA_SWA_TYPE_NONE" "kv_n_swa kv' = 0" using nw by (simp_all add: kv'_def set_cells_def)
  have cs: "kv_cells kv' = [c]" using f(5) by (auto simp: kv'_def set_cells_def length_Suc_conv)
  have v: "kv_view kv' ! 0 = kv_cells_list c" "kv_view kv ! 0 = kv_cells_list (kv_cells kv ! 0)" using f(5) cs by (simp_all add: kv_view_def)
  have "kc_pos c ! x + 32 \<le> int INT32_MAX" if x: "x < kv_cap kv" for x
  proof -
    have e: "kc_pos c ! x = fst (kv_view kv' ! 0 ! x)" using view_at [OF u'] x cap cs by simp
    show ?thesis
    proof (cases "x \<in> set xs")
      case True
      then obtain m where m: "m < length xs" "x = xs ! m" by (auto simp: in_set_conv_nth)
      then have "kc_pos c ! x = ub_pos ub ! m" unfolding e v using c(3) by (simp add: tok_content_def)
      then show ?thesis using ub(2) xs(1) m(1) by simp
    next
      case False
      then have "kc_pos c ! x = kc_pos (kv_cells kv ! 0) ! x" unfolding e v(1) using c(4) view_at [OF u(1) x] v(2) by simp
      then show ?thesis using sz x f(8) by (simp del: int_ops)
    qed
  qed
  then have "mask_window kv'" unfolding mask_window_def cs s' using unifiedD(4) [OF u'] c(5) by (auto simp: in_set_conv_nth)
  then show ?thesis using c(1,3,4) u' cap s'(1) unfolding v [symmetric] kv'_def by blast
qed

lemma owner_nat:
  assumes ub: "ubatch_ok ub" and "i < ub_n_tokens ub" and "m < ub_n_tokens ub"
  shows "nat (hd (ub_seq_id ub ! i)) \<in> nat ` set (tok_owners ub m) \<longleftrightarrow> hd (ub_seq_id ub ! i) \<in> set (tok_owners ub m)"
proof -
  have "set (tok_owners ub m) \<subseteq> {0..<int LLAMA_MAX_SEQ}" using ub assms(3) by (simp add: ubatch_ok_def)
  then have "inj_on nat (insert (hd (ub_seq_id ub ! i)) (set (tok_owners ub m)))"
    using ubatch_ok_owner(3) [OF ub assms(2)] by (intro inj_onI) (auto simp: eq_nat_nat_iff subset_iff)
  then show ?thesis by (auto simp: inj_on_def)
qed

text \<open>C14: Placing a micro-batch and building its causal attention mask fit together (apply_ubatch, get_n_kv and
  set_input_kq_mask of llama_kv_cache, one stream, no window, no allocation groups, no exact tail, one position per token,
  no ALiBi, all positions at least 32 below the greatest 32-bit integer, a slot of distinct empty cells). The number of columns chosen after the placement
  covers the whole slot and every cell that was occupied; a token attends to a token of the same micro-batch
  exactly when that token belongs to its first sequence and is not later, and to an older cell exactly when the
  cell belongs to that sequence and is not later; so the placement overwrites nothing the batch needs, and no
  other sequence becomes visible.\<close>

theorem batch_attends:
  assumes kv: "kv_wf kv" "kv_n_stream kv = 1" "kv_group_size kv \<le> 1" "kv_swa_type kv = LLAMA_SWA_TYPE_NONE" "kv_n_swa kv = 0" "kv_tail kv = None"
    and ub: "ubatch_ok ub" "\<not> is_pos_2d ub" "length (ub_seq_id ub) = ub_n_tokens ub" "\<forall>i < ub_n_tokens ub. ub_pos ub ! i + 32 \<le> int INT32_MAX"
    and xs: "length xs = ub_n_tokens ub" "distinct xs" "set xs \<subseteq> free_cells kv"
    and sz: "\<forall>p \<in> set (kc_pos (kv_cells kv ! 0)). p + 32 \<le> int INT32_MAX" "n_pad = 2 ^ k" "kv_cap kv + max n_pad 256 \<le> 2 ^ 32"
  shows "\<exists>kv' n out. apply_ubatch (the_slot xs) ub kv = Inr kv' \<and> get_n_kv n_pad kv' (the_slot xs) = Inr n \<and>
    set xs \<subseteq> {..<n} \<and> (\<forall>x < kv_cap kv. x \<notin> free_cells kv \<longrightarrow> x < n) \<and>
    set_input_kq_mask False kv' ub True n 1 (replicate (ub_n_tokens ub) (replicate n d)) = Inr out \<and>
    (\<forall>i < length xs. \<forall>m < length xs. out ! i ! (xs ! m) =
       (if hd (ub_seq_id ub ! i) \<in> set (tok_owners ub m) \<and> ub_pos ub ! m \<le> ub_pos ub ! i then Mask_keep 0 else Mask_drop)) \<and>
    (\<forall>i < length xs. \<forall>x < n. x \<notin> set xs \<longrightarrow> out ! i ! x =
       (if nat (hd (ub_seq_id ub ! i)) \<in> snd (kv_view kv ! 0 ! x) \<and> fst (kv_view kv ! 0 ! x) \<le> ub_pos ub ! i then Mask_keep 0 else Mask_drop))"
proof -
  have u: "unified kv" "quiet kv" using kv by (simp_all add: unified_def quiet_def swa_defined_def)
  obtain kv' where p: "apply_ubatch (the_slot xs) ub kv = Inr kv'" "unified kv'" "kv_cap kv' = kv_cap kv" "kv_swa_type kv' = LLAMA_SWA_TYPE_NONE"
      "mask_window kv'" "\<And>m. m < length xs \<Longrightarrow> kv_view kv' ! 0 ! (xs ! m) = tok_content ub m"
      "\<And>x. x \<notin> set xs \<Longrightarrow> kv_view kv' ! 0 ! x = kv_view kv ! 0 ! x"
    using placed_cache [OF u kv(4,5) ub(1,4) xs sz(1)] by blast
  have pl: "\<forall>i < ub_n_tokens ub. ub_pos ub ! i \<le> int INT32_MAX" using ub(4) by auto
  have b: "mask_batch kv' ub" and k: "\<And>i. i < ub_n_tokens ub \<Longrightarrow> known_seq kv' (hd (ub_seq_id ub ! i))"
    using unified_mask_batch [OF p(2) ub(1,3)] pl by auto
  note w' = unifiedD(1) [OF p(2)]
  obtain n where n: "get_n_kv n_pad kv' (the_slot xs) = Inr n" "n \<le> kv_cap kv" "\<And>x. x < kv_cap kv \<Longrightarrow> fst (kv_view kv' ! 0 ! x) \<noteq> -1 \<Longrightarrow> x < n"
    using get_n_kv_covers [OF w' sz(2), of "the_slot xs"] sz(3) unifiedD(2) [OF p(2)] view_at [OF p(2)] unfolding p(3) by (auto simp: the_slot_def)
  obtain out where o: "set_input_kq_mask False kv' ub True n 1 (replicate (ub_n_tokens ub) (replicate n d)) = Inr out"
      "\<forall>i < ub_n_tokens ub. \<forall>j < n. out ! i ! j = mask_spec (kq_mask_args False kv' ub n 1 []) True i j"
    using kq_mask_mapped_eq [OF w' b p(5), of "[]" 1 n "replicate (ub_n_tokens ub) (replicate n d)" False True]
    by (auto simp: set_input_kq_mask_def)
  have row: "out ! i ! x = (if nat (hd (ub_seq_id ub ! i)) \<in> snd (kv_view kv' ! 0 ! x) \<and> fst (kv_view kv' ! 0 ! x) \<le> ub_pos ub ! i then Mask_keep 0 else Mask_drop)"
    if "i < length xs" "x < n" for i x
    using mask_spec_plain [OF p(2,4) ub(2) k, of i x n] o(2) that n(2) sz(3) ub(1) xs(1) unfolding p(3) by (simp add: ubatch_ok_def)
  have sub: "set xs \<subseteq> {..<n}"
  proof
    fix x assume x: "x \<in> set xs"
    then obtain m where m: "m < length xs" "x = xs ! m" by (auto simp: in_set_conv_nth)
    have "x < kv_cap kv" using x xs(3) unifiedD(8) [OF u(1)] by (auto simp: free_cells_def empty_cell_def)
    moreover have "fst (kv_view kv' ! 0 ! x) \<noteq> -1" using p(6) m ub(1) xs(1) by (auto simp: tok_content_def ubatch_ok_def)
    ultimately show "x \<in> {..<n}" using n(3) by simp
  qed
  have occ: "\<forall>x < kv_cap kv. x \<notin> free_cells kv \<longrightarrow> x < n"
  proof (intro allI impI)
    fix x assume x: "x < kv_cap kv" "x \<notin> free_cells kv"
    have "x \<notin> set xs" "kc_pos (kv_cells kv ! 0) ! x \<noteq> -1" using x xs(3) unifiedD(8) [OF u(1)] by (auto simp: free_cells_def empty_cell_def)
    then show "x < n" using n(3) [OF x(1)] p(7) view_at [OF u(1) x(1)] by simp
  qed
  have batch: "\<forall>i < length xs. \<forall>m < length xs. out ! i ! (xs ! m) =
      (if hd (ub_seq_id ub ! i) \<in> set (tok_owners ub m) \<and> ub_pos ub ! m \<le> ub_pos ub ! i then Mask_keep 0 else Mask_drop)"
  proof (intro allI impI)
    fix i m assume l: "i < length xs" "m < length xs"
    then have "xs ! m < n" using sub nth_mem by blast
    then show "out ! i ! (xs ! m) = (if hd (ub_seq_id ub ! i) \<in> set (tok_owners ub m) \<and> ub_pos ub ! m \<le> ub_pos ub ! i then Mask_keep 0 else Mask_drop)"
      using row [OF l(1)] p(6) [OF l(2)] owner_nat [OF ub(1), of i m] l xs(1) by (simp add: tok_content_def)
  qed
  have old: "\<forall>i < length xs. \<forall>x < n. x \<notin> set xs \<longrightarrow> out ! i ! x =
      (if nat (hd (ub_seq_id ub ! i)) \<in> snd (kv_view kv ! 0 ! x) \<and> fst (kv_view kv ! 0 ! x) \<le> ub_pos ub ! i then Mask_keep 0 else Mask_drop)"
    using row p(7) by simp
  show ?thesis by (rule exI [of _ kv'], rule exI [of _ n], rule exI [of _ out]) (intro conjI p(1) n(1) sub occ o(1) batch old)
qed

theorem batch_attends_witness:
  "\<exists>kv' n out. apply_ubatch (the_slot [4, 2]) ubatch_example (kv_example\<lparr>kv_tail := None\<rparr>) = Inr kv' \<and>
     get_n_kv 32 kv' (the_slot [4, 2]) = Inr n \<and>
     set_input_kq_mask False kv' ubatch_example True n 1 (replicate 2 (replicate n Mask_drop)) = Inr out \<and>
     out ! 0 ! 4 = Mask_keep 0 \<and> out ! 0 ! 2 = Mask_drop \<and> out ! 1 ! 4 = Mask_keep 0 \<and> out ! 1 ! 5 = Mask_keep 0"
proof -
  let ?kv = "kv_example\<lparr>kv_tail := None\<rparr>"
  have f: "free_cells ?kv = {0, 1, 2, 3, 4}" "kv_cap ?kv = 6" using kv_example_wf(7,9) by (simp_all add: free_cells_def)
  have v: "kv_view ?kv ! 0 ! 5 = (7, {0, 1})" using kv_example_fields(5) by (simp add: kv_view_def eval_nat_numeral)
  have e: "kv_n_swa ?kv = 0" "\<forall>p \<in> set (kc_pos (kv_cells ?kv ! 0)). p + 32 \<le> int INT32_MAX" by (simp_all add: kv_example_def cells_example_def)
  have b: "\<not> is_pos_2d ubatch_example" "length (ub_seq_id ubatch_example) = ub_n_tokens ubatch_example"
      "\<forall>i < ub_n_tokens ubatch_example. ub_pos ubatch_example ! i + 32 \<le> int INT32_MAX"
    by (simp_all add: is_pos_2d_def ubatch_example_def less_Suc_eq numeral_2_eq_2)
  have t: "hd (ub_seq_id ubatch_example ! 0) = 1" "hd (ub_seq_id ubatch_example ! 1) = 1" "tok_owners ubatch_example 0 = [1]" "tok_owners ubatch_example 1 = [1]"
      "ub_pos ubatch_example ! 0 = 8" "ub_pos ubatch_example ! 1 = 9" by (simp_all add: tok_owners_def ubatch_example_def)
  obtain kv' n out where r: "apply_ubatch (the_slot [4, 2]) ubatch_example ?kv = Inr kv'" "get_n_kv 32 kv' (the_slot [4, 2]) = Inr n"
      "\<forall>x < kv_cap ?kv. x \<notin> free_cells ?kv \<longrightarrow> x < n"
      "set_input_kq_mask False kv' ubatch_example True n 1 (replicate 2 (replicate n Mask_drop)) = Inr out"
      "\<forall>i < length [4, 2 :: nat]. \<forall>m < length [4, 2 :: nat]. out ! i ! ([4, 2] ! m) =
       (if hd (ub_seq_id ubatch_example ! i) \<in> set (tok_owners ubatch_example m) \<and> ub_pos ubatch_example ! m \<le> ub_pos ubatch_example ! i then Mask_keep 0 else Mask_drop)"
      "\<forall>i < length [4, 2 :: nat]. \<forall>x < n. x \<notin> set [4, 2] \<longrightarrow> out ! i ! x =
       (if nat (hd (ub_seq_id ubatch_example ! i)) \<in> snd (kv_view ?kv ! 0 ! x) \<and> fst (kv_view ?kv ! 0 ! x) \<le> ub_pos ubatch_example ! i then Mask_keep 0 else Mask_drop)"
    using batch_attends [of ?kv ubatch_example "[4, 2]" 32 5 Mask_drop] kv_example_wf(1-4) ubatch_example_ok f e b by auto
  have "5 < n" using r(3) f by auto
  then have "out ! 1 ! 5 = Mask_keep 0" using r(6) [rule_format, of 1 5] t v by simp
  moreover have "out ! 0 ! 4 = Mask_keep 0" "out ! 0 ! 2 = Mask_drop" "out ! 1 ! 4 = Mask_keep 0"
    using r(5) [rule_format, of 0 0] r(5) [rule_format, of 0 1] r(5) [rule_format, of 1 0] t by simp_all
  ultimately show ?thesis using r(1,2,4) by blast
qed

end
